(* ===== verification/Prelude.thy ===== *)
theory Prelude
  imports Main "HOL-Library.Word"
begin

text \<open>
  Shared vocabulary of the development: the C integer types as words, the board
  configuration the sources read from \<open>platform_conf.h\<close>, byte blocks updated through a
  running pointer, and the few facts on words and lists that every component uses.
  The target is the one the sources are written for: \<open>int\<close>, \<open>unsigned\<close>, \<open>u32\<close>,
  \<open>s32\<close> and pointers are 32 bits wide.
\<close>

unbundle bit_operations_syntax

section \<open>Integer types and return codes\<close>

type_synonym u8 = "8 word"
type_synonym u16 = "16 word"
type_synonym u32 = "32 word"

text \<open>The status codes of \<open>inc/platform.h\<close>.\<close>

datatype pstatus = PLATFORM_ERR | PLATFORM_OK | PLATFORM_UNDERFLOW

named_theorems block_simps "reading back blocks written through a running pointer"
named_theorems size_simps "unsigned values of narrow words"

section \<open>Words\<close>

lemma and_pow2_minus_1:
  fixes x :: "'a::len word"
  shows "x AND (2 ^ k - 1) = take_bit k x"
  by (simp add: take_bit_eq_mask mask_eq_exp_minus_1)

lemma unat_and_mask: "unat (x AND (2 ^ k - 1) :: 'a::len word) = unat x mod 2 ^ k"
  by (simp only: and_pow2_minus_1 unsigned_take_bit_eq) (simp add: take_bit_eq_mod)

lemma unat_u8_less [simp]: "unat (x :: u8) < 256"
  using unsigned_less [of x, where 'a=nat] by simp

lemma unat_u16_less [simp]: "unat (x :: u16) < 65536"
  using unsigned_less [of x, where 'a=nat] by simp

lemma unat_u32_less [simp]: "unat (x :: u32) < 4294967296"
  using unsigned_less [of x, where 'a=nat] by simp

lemma unat_of_nat_small [size_simps]: "n < 2 ^ LENGTH('a) \<Longrightarrow> unat (of_nat n :: 'a::len word) = n"
  by (simp add: unat_of_nat take_bit_nat_eq_self)

lemma unat_ucast_up [size_simps]:
  "LENGTH('a) \<le> LENGTH('b) \<Longrightarrow> unat (ucast (x :: 'a::len word) :: 'b::len word) = unat x"
  by (simp add: unsigned_ucast_eq take_bit_nat_eq_self_iff)
    (meson order_less_le_trans unsigned_less power_increasing one_le_numeral)

lemma unat_pow2 [size_simps]: "n < LENGTH('a) \<Longrightarrow> unat (2 ^ n :: 'a::len word) = 2 ^ n"
  using unat_of_nat_small [of "2 ^ n", where 'a='a] by simp

lemma add_mod_inj:
  fixes a b n r :: nat
  assumes "a < n" "b < n" "(r + a) mod n = (r + b) mod n"
  shows "a = b"
proof -
  have *: "x = y" if "x \<le> y" "y < n" "(r + x) mod n = (r + y) mod n" for x y
  proof -
    have "n dvd (r + y) - (r + x)"
      using that by (metis add_le_cancel_left mod_eq_dvd_iff_nat)
    with that show ?thesis by (auto dest: dvd_imp_le)
  qed
  show ?thesis
    using * [of a b] * [of b a] assms by (cases "a \<le> b") auto
qed

text \<open>A 32-bit value from its bytes.\<close>

lemma le32_value:
  "ucast (ucast x :: u8) OR push_bit 8 (ucast (ucast (drop_bit 8 x) :: u8))
     OR push_bit 16 (ucast (ucast (drop_bit 16 x) :: u8))
     OR push_bit 24 (ucast (ucast (drop_bit 24 x) :: u8)) = (x :: u32)"
proof (rule bit_word_eqI)
  fix n :: nat
  assume "n < LENGTH(32)"
  then consider "n < 8" | "8 \<le> n" "n < 16" | "16 \<le> n" "n < 24" | "24 \<le> n" "n < 32"
    by force
  then show "bit ((ucast (ucast x :: u8) :: u32) OR push_bit 8 (ucast (ucast (drop_bit 8 x) :: u8))
     OR push_bit 16 (ucast (ucast (drop_bit 16 x) :: u8))
     OR push_bit 24 (ucast (ucast (drop_bit 24 x) :: u8))) n = bit x n"
    by cases (auto simp: bit_simps)
qed

section \<open>Rings\<close>

text \<open>Overwriting a slot of a ring, seen from the read position.\<close>

lemma rotate_update:
  assumes "i < length xs"
  shows "rotate r (xs[(r + i) mod length xs := x]) = (rotate r xs)[i := x]"
proof (rule nth_equalityI)
  fix j assume "j < length (rotate r (xs[(r + i) mod length xs := x]))"
  then have j: "j < length xs" by simp
  show "rotate r (xs[(r + i) mod length xs := x]) ! j = (rotate r xs)[i := x] ! j"
  proof (cases "i = j")
    case True
    moreover from j have "0 < length xs" by linarith
    then have "(r + j) mod length xs < length xs" by (rule mod_less_divisor)
    ultimately show ?thesis using j by (simp add: nth_rotate)
  next
    case False
    with assms j add_mod_inj [of i "length xs" j r]
    have "(r + i) mod length xs \<noteq> (r + j) mod length xs" by blast
    then show ?thesis using j False by (simp add: nth_rotate)
  qed
qed simp

lemma rotate_Suc_update:
  assumes "i < length xs"
  shows "rotate (Suc i) (xs[i := x]) = tl (rotate i xs) @ [x]"
proof -
  have "rotate i (xs[i := x]) = (rotate i xs)[0 := x]"
    using rotate_update [of 0 xs i x] assms by (cases xs) auto
  moreover have "rotate i xs \<noteq> []" using assms by auto
  ultimately show ?thesis by (cases "rotate i xs") auto
qed

lemma sum_list_rotate: "sum_list (map f (rotate n xs)) = sum_list (map f (xs :: 'b list))"
  for f :: "'b \<Rightarrow> nat"
proof (induction n)
  case (Suc n)
  have "sum_list (map f (rotate1 ys)) = sum_list (map f ys)" for ys by (cases ys) auto
  with Suc show ?case by simp
qed simp

section \<open>Byte blocks\<close>

text \<open>
  \<open>get_bytes\<close> and \<open>put_bytes\<close> are the copy loops \<open>*d++ = *s++\<close> on a block that
  is a byte list: reading and writing \<open>n\<close> consecutive bytes from an offset.
\<close>

definition get_bytes :: "'a list \<Rightarrow> nat \<Rightarrow> nat \<Rightarrow> 'a list" where
  "get_bytes xs i n = take n (drop i xs)"

fun put_bytes :: "'a list \<Rightarrow> nat \<Rightarrow> 'a list \<Rightarrow> 'a list" where
  "put_bytes xs i [] = xs"
| "put_bytes xs i (y # ys) = put_bytes (xs[i := y]) (Suc i) ys"

lemma length_put_bytes [simp]: "length (put_bytes xs i ys) = length xs"
  by (induction xs i ys rule: put_bytes.induct) auto

lemma nth_put_bytes:
  "put_bytes xs i ys ! j =
     (if i \<le> j \<and> j < i + length ys \<and> j < length xs then ys ! (j - i) else xs ! j)"
proof (induction xs i ys rule: put_bytes.induct)
  case (1 xs i)
  then show ?case by auto
next
  case (2 xs i y ys)
  then show ?case
    by (cases "j = i") (auto simp: nth_Cons' Suc_le_eq list_update_beyond)
qed

lemma length_get_bytes [simp]: "i + n \<le> length xs \<Longrightarrow> length (get_bytes xs i n) = n"
  by (simp add: get_bytes_def)

lemma nth_get_bytes: "k < n \<Longrightarrow> i + n \<le> length xs \<Longrightarrow> get_bytes xs i n ! k = xs ! (i + k)"
  by (simp add: get_bytes_def)

lemma get_put_same [block_simps]:
  "i + length ys \<le> length xs \<Longrightarrow> get_bytes (put_bytes xs i ys) i (length ys) = ys"
  by (rule nth_equalityI) (auto simp: nth_get_bytes nth_put_bytes)

lemma get_put_disjoint [block_simps]:
  "\<lbrakk> j + n \<le> i \<or> i + length ys \<le> j; j + n \<le> length xs \<rbrakk>
    \<Longrightarrow> get_bytes (put_bytes xs i ys) j n = get_bytes xs j n"
  by (rule nth_equalityI) (auto simp: nth_get_bytes nth_put_bytes)

section \<open>Flat memory\<close>

text \<open>
  Code that works on raw pointers runs on a flat 32-bit memory: a pointer is a \<open>u32\<close> whose
  arithmetic wraps, \<open>*p\<close> is \<open>m p\<close>. \<open>mem_write\<close> is the effect of a run of
  \<open>*p++ = b\<close>, \<open>mem_at\<close> says that a byte string lies at an address, \<open>memcpy\<close>
  is the library routine, and \<open>off_from\<close> is the distance of an address from a base.
\<close>

abbreviation NULL :: u32 where "NULL \<equiv> 0"

type_synonym mem = "u32 \<Rightarrow> u8"

fun mem_write :: "mem \<Rightarrow> u32 \<Rightarrow> u8 list \<Rightarrow> mem" where
  "mem_write m p [] = m"
| "mem_write m p (x # xs) = mem_write (m(p := x)) (p + 1) xs"

fun mem_read :: "mem \<Rightarrow> u32 \<Rightarrow> nat \<Rightarrow> u8 list" where
  "mem_read m p 0 = []"
| "mem_read m p (Suc n) = m p # mem_read m (p + 1) n"

fun mem_at :: "mem \<Rightarrow> u32 \<Rightarrow> u8 list \<Rightarrow> bool" where
  "mem_at m p [] = True"
| "mem_at m p (x # xs) = (m p = x \<and> mem_at m (p + 1) xs)"

definition memcpy :: "mem \<Rightarrow> u32 \<Rightarrow> u32 \<Rightarrow> nat \<Rightarrow> mem" where
  "memcpy m d s n = mem_write m d (mem_read m s n)"

definition off_from :: "u32 \<Rightarrow> u32 \<Rightarrow> nat" where
  "off_from p a = unat (a - p)"

lemma length_mem_read [simp]: "length (mem_read m p n) = n"
  by (induction m p n rule: mem_read.induct) auto

lemma mem_read_numeral [simp]:
  "mem_read m p (numeral k) = m p # mem_read m (p + 1) (pred_numeral k)"
  by (simp add: numeral_eq_Suc)

lemma mem_write_append:
  "mem_write m p (xs @ ys) = mem_write (mem_write m p xs) (p + of_nat (length xs)) ys"
  by (induction xs arbitrary: m p) (auto simp: add.assoc)

lemma mem_at_append:
  "mem_at m p (xs @ ys) = (mem_at m p xs \<and> mem_at m (p + of_nat (length xs)) ys)"
  by (induction m p xs rule: mem_at.induct) (auto simp: add.assoc)

lemma mem_at_read: "mem_at m p xs \<longleftrightarrow> mem_read m p (length xs) = xs"
  by (induction m p xs rule: mem_at.induct) auto

lemma mem_read_add: "mem_read m p (a + b) = mem_read m p a @ mem_read m (p + of_nat a) b"
  by (induction m p a rule: mem_read.induct) (auto simp: add.assoc)

lemma drop_mem_read: "k \<le> n \<Longrightarrow> drop k (mem_read m p n) = mem_read m (p + of_nat k) (n - k)"
  using mem_read_add [of m p k "n - k"] by simp

lemma take_mem_read: "take k (mem_read m p n) = mem_read m p (min k n)"
proof (cases "k \<le> n")
  case True
  then show ?thesis using mem_read_add [of m p k "n - k"] by (simp add: min_def)
qed (simp add: min_def)

lemma off_from_self [simp]: "off_from p p = 0"
  by (simp add: off_from_def)

lemma off_from_add: "off_from (p + q) a = off_from q (a - p)"
  by (simp add: off_from_def algebra_simps)

lemma off_from_Suc: "off_from (p + 1) a = (if a = p then 4294967295 else off_from p a - 1)"
proof (cases "a = p")
  case True
  then have "a - (p + 1) = - 1" by simp
  moreover have "unat (- 1 :: u32) = 4294967295" 
    by (simp add: unsigned_minus_1_eq_mask mask_eq_exp_minus_1)
  ultimately show ?thesis using True by (simp add: off_from_def)
next
  case False
  then have "a - p \<noteq> 0" by simp
  then have "unat (a - p - 1) = unat (a - p) - 1"
    by (metis unat_minus_one)
  with False show ?thesis by (simp add: off_from_def algebra_simps)
qed

lemma off_from_eq_0 [simp]: "off_from p a = 0 \<longleftrightarrow> a = p"
  by (simp add: off_from_def unat_eq_0)

lemma off_from_less: "off_from p a < 4294967296"
  by (simp add: off_from_def)

lemma mem_write_apply:
  "length xs \<le> 4294967296 \<Longrightarrow>
   mem_write m p xs a = (if off_from p a < length xs then xs ! off_from p a else m a)"
proof (induction xs arbitrary: m p)
  case Nil
  then show ?case by simp
next
  case (Cons x xs)
  show ?case
  proof (cases "a = p")
    case True
    with Cons show ?thesis by (simp add: off_from_Suc)
  next
    case False
    then obtain k where "off_from p a = Suc k" by (metis not0_implies_Suc off_from_eq_0)
    with Cons False show ?thesis by (simp add: off_from_Suc)
  qed
qed

lemma nth_mem_read: "i < n \<Longrightarrow> mem_read m p n ! i = m (p + of_nat i)"
proof (induction m p n arbitrary: i rule: mem_read.induct)
  case (2 m p n)
  then show ?case by (cases i) (auto simp: add.assoc)
qed simp

lemma off_from_offset: "n < 4294967296 \<Longrightarrow> off_from p (p + of_nat n) = n"
  by (simp add: off_from_def unat_of_nat_small)

lemma mem_at_write: "length xs \<le> 4294967296 \<Longrightarrow> mem_at (mem_write m p xs) p xs"
  by (auto simp: mem_at_read nth_mem_read mem_write_apply off_from_offset intro!: nth_equalityI)

text \<open>A block that no written address falls into is read back unchanged.\<close>

definition apart :: "u32 \<Rightarrow> nat \<Rightarrow> u32 \<Rightarrow> nat \<Rightarrow> bool" where
  "apart s n p k \<longleftrightarrow> (\<forall>i\<in>{0..<n}. k \<le> off_from p (s + of_nat i))"

lemma mem_read_write_apart:
  "apart s n p (length xs) \<Longrightarrow> length xs \<le> 4294967296
    \<Longrightarrow> mem_read (mem_write m p xs) s n = mem_read m s n"
  by (rule nth_equalityI) (auto simp: apart_def nth_mem_read mem_write_apply not_less [symmetric])

lemma apart_mono: "apart s n p k \<Longrightarrow> j \<le> k \<Longrightarrow> apart s n p j"
  by (auto simp: apart_def)

section \<open>Duff's device\<close>

text \<open>
  \<open>DUFF_DEVICE_8( count, action )\<close> of \<open>inc/utils.h\<close>: the number of times the macro runs
  its action. The first pass enters the unrolled body at \<open>case count & 7\<close>, and the
  \<open>while( --_times > 0 )\<close> adds a full pass of eight for every further \<open>_times\<close>.
\<close>

definition duff_device_8 :: "nat \<Rightarrow> nat" where
  "duff_device_8 cnt =
     (let times = (cnt + 7) div 8;
          first = (if cnt mod 8 = 0 then 8 else cnt mod 8)
      in first + 8 * (times - 1))"

lemma duff_device_8_eq [simp]:
  assumes "0 < cnt"
  shows "duff_device_8 cnt = cnt"
proof -
  define q r where "q = cnt div 8" and "r = cnt mod 8"
  then have c: "cnt = 8 * q + r" and r: "r < 8" by simp_all
  show ?thesis
  proof (cases "r = 0")
    case True
    with c assms have "0 < q" by simp
    with c True show ?thesis by (simp add: duff_device_8_def)
  next
    case False
    with r have "(8 * q + r + 7) div 8 = q + 1" by simp
    with c r False show ?thesis by (simp add: duff_device_8_def)
  qed
qed

section \<open>Board configuration\<close>

text \<open>
  The macros of \<open>platform_conf.h\<close> that the modelled code reads. They differ per board, so
  the definitions that use them take them as an argument.
\<close>

record board =
  num_uart :: nat          \<comment> \<open>\<open>NUM_UART\<close>\<close>
  sermux_num_vuart :: nat  \<comment> \<open>\<open>SERMUX_NUM_VUART\<close>\<close>
  sermux_phys_id :: nat    \<comment> \<open>\<open>SERMUX_PHYS_ID\<close>\<close>

definition SERMUX_SERVICE_ID_FIRST :: nat where "SERMUX_SERVICE_ID_FIRST = 0xD0"
definition SERMUX_SERVICE_ID_LAST :: nat where "SERMUX_SERVICE_ID_LAST = 0xD7"

section \<open>First-in first-out contract\<close>

text \<open>
  What the clients of a queue in this code base rely on: a put that has room appends at the
  end, a get on a non-empty queue returns the oldest element and removes it, a get on an
  empty queue reports it and changes nothing. \<open>fits\<close> says which elements a queue takes
  (the element size of a buffer), \<open>room\<close> when a put is guaranteed to keep the contract.
\<close>

locale fifo =
  fixes put :: "'q \<Rightarrow> 'a \<Rightarrow> 'q"
    and get :: "'q \<Rightarrow> ('a \<times> 'q) option"
    and elems :: "'q \<Rightarrow> 'a list"
    and inv :: "'q \<Rightarrow> bool"
    and cap :: "'q \<Rightarrow> nat"
    and fits :: "'q \<Rightarrow> 'a \<Rightarrow> bool"
  assumes put_elems: "\<lbrakk> inv q; fits q x; length (elems q) < cap q \<rbrakk> \<Longrightarrow> elems (put q x) = elems q @ [x]"
    and put_inv: "\<lbrakk> inv q; fits q x; length (elems q) < cap q \<rbrakk> \<Longrightarrow> inv (put q x)"
    and put_cap: "\<lbrakk> inv q; fits q x; length (elems q) < cap q \<rbrakk> \<Longrightarrow> cap (put q x) = cap q"
    and put_fits: "\<lbrakk> inv q; fits q x; length (elems q) < cap q \<rbrakk> \<Longrightarrow> fits (put q x) y = fits q y"
    and get_empty: "\<lbrakk> inv q; elems q = [] \<rbrakk> \<Longrightarrow> get q = None"
    and get_some: "\<lbrakk> inv q; elems q = x # xs \<rbrakk>
      \<Longrightarrow> \<exists>q'. get q = Some (x, q') \<and> elems q' = xs \<and> inv q' \<and> cap q' = cap q \<and> (\<forall>y. fits q' y = fits q y)"
begin

text \<open>A burst of puts that fits is appended in order.\<close>

lemma puts_elems:
  "\<lbrakk> inv q; \<forall>x \<in> set xs. fits q x; length (elems q) + length xs \<le> cap q \<rbrakk>
    \<Longrightarrow> elems (foldl put q xs) = elems q @ xs \<and> inv (foldl put q xs) \<and> cap (foldl put q xs) = cap q"
proof (induction xs arbitrary: q)
  case Nil
  then show ?case by simp
next
  case (Cons x xs)
  then have room: "inv q" "fits q x" "length (elems q) < cap q" by auto
  from room have q': "inv (put q x)" "cap (put q x) = cap q" "elems (put q x) = elems q @ [x]"
    by (simp_all add: put_inv put_cap put_elems)
  moreover from room Cons.prems have "\<forall>y \<in> set xs. fits (put q x) y"
    by (simp add: put_fits)
  ultimately show ?case
    using Cons.IH [of "put q x"] Cons.prems by simp
qed

end

text \<open>Taking \<open>n\<close> elements, stopping at the first underflow as the receive loops do.\<close>

fun take_all :: "('q \<Rightarrow> ('a \<times> 'q) option) \<Rightarrow> nat \<Rightarrow> 'q \<Rightarrow> 'a list \<times> 'q" where
  "take_all get 0 q = ([], q)"
| "take_all get (Suc n) q =
     (case get q of
        None \<Rightarrow> ([], q)
      | Some (x, q') \<Rightarrow> (let (xs, r) = take_all get n q' in (x # xs, r)))"

context fifo
begin

lemma take_all_elems:
  "inv q \<Longrightarrow> fst (take_all get n q) = take n (elems q)
    \<and> elems (snd (take_all get n q)) = drop n (elems q) \<and> inv (snd (take_all get n q))"
proof (induction n arbitrary: q)
  case 0
  then show ?case by simp
next
  case (Suc n)
  show ?case
  proof (cases "elems q")
    case Nil
    with Suc.prems show ?thesis by (simp add: get_empty)
  next
    case (Cons x xs)
    with Suc.prems get_some obtain q' where q': "get q = Some (x, q')" "elems q' = xs" "inv q'"
      by blast
    from Suc.IH [OF q'(3)] q' Cons show ?thesis
      by (simp add: split_beta)
  qed
qed

text \<open>What was put in comes out, in order, and nothing else does.\<close>

lemma puts_then_take_all:
  assumes "inv q" "elems q = []" "\<forall>x \<in> set xs. fits q x" "length xs \<le> cap q"
  shows "fst (take_all get (length xs) (foldl put q xs)) = xs"
    and "elems (snd (take_all get (length xs) (foldl put q xs))) = []"
proof -
  from assms have "elems (foldl put q xs) = xs" "inv (foldl put q xs)"
    using puts_elems [of q xs] by auto
  then show "fst (take_all get (length xs) (foldl put q xs)) = xs"
    and "elems (snd (take_all get (length xs) (foldl put q xs))) = []"
    by (simp_all add: take_all_elems)
qed

end

end
