(* ===== verification/Eluarpc.thy ===== *)
theory Eluarpc
  imports Prelude
begin

text \<open>
  The remote procedure call layer, \<open>src/eluarpc.c\<close> with \<open>inc/eluarpc.h\<close> and
  \<open>inc/rtype.h\<close>: typed fields written to and read from a packet buffer, the packet frame
  (size, start signature, end signature) and the two variadic entry points driven by a
  format string.

  Packets live in the flat memory of the prelude. A writer is a memory with a cursor, a
  reader is a cursor with the file's error flag, which a read function only ever sets. The
  arguments of the variadic functions are a list of 32-bit values (on the 32-bit target an
  \<open>int\<close> and a pointer take one slot each); a call whose format asks for more arguments
  than it gives is undefined in C and \<open>None\<close> here.

  The lemmas show that every writer emits the bytes of an encoding (\<open>rpc_encode\<close>), that
  the readers invert it, and that the error flag is sticky.
\<close>

section \<open>Constants\<close>

datatype rpc_status = ELUARPC_OK | ELUARPC_ERR

definition PACKET_SIG :: u32 where "PACKET_SIG = 0x18AFC284"
definition ELUARPC_OP_RES_MOD :: u8 where "ELUARPC_OP_RES_MOD = 0x80"
definition ELUARPC_START_OFFSET :: u32 where "ELUARPC_START_OFFSET = 4"
definition ELUARPC_PTR_HEADER_SIZE :: u32 where "ELUARPC_PTR_HEADER_SIZE = 6"
definition ELUARPC_SMALL_PTR_HEADER_SIZE :: u32 where "ELUARPC_SMALL_PTR_HEADER_SIZE = 4"

definition TYPE_INT_8 :: u8 where "TYPE_INT_8 = 0x01"
definition TYPE_INT_16 :: u8 where "TYPE_INT_16 = 0x02"
definition TYPE_INT_32 :: u8 where "TYPE_INT_32 = 0x03"
definition TYPE_PTR :: u8 where "TYPE_PTR = 0x04"
definition TYPE_START :: u8 where "TYPE_START = 0x05"
definition TYPE_END :: u8 where "TYPE_END = 0x06"
definition TYPE_OP_ID :: u8 where "TYPE_OP_ID = 0x07"
definition TYPE_SMALL_PTR :: u8 where "TYPE_SMALL_PTR = 0x08"
definition TYPE_PKT_SIZE :: u8 where "TYPE_PKT_SIZE = 0xA5"

section \<open>Writing fields\<close>

type_synonym wcur = "mem \<times> u32"

definition put8 :: "u8 \<Rightarrow> wcur \<Rightarrow> wcur" where
  "put8 b s = ((fst s)(snd s := b), snd s + 1)"

definition eluarpc_write_u8 :: "u8 \<Rightarrow> wcur \<Rightarrow> wcur" where
  "eluarpc_write_u8 fdata s = put8 fdata (put8 TYPE_INT_8 s)"

definition eluarpc_write_op_id :: "u8 \<Rightarrow> wcur \<Rightarrow> wcur" where
  "eluarpc_write_op_id fdata s = put8 fdata (put8 TYPE_OP_ID s)"

definition eluarpc_write_u16 :: "u16 \<Rightarrow> wcur \<Rightarrow> wcur" where
  "eluarpc_write_u16 fdata s =
     put8 (ucast (drop_bit 8 fdata AND 0xFF)) (put8 (ucast (fdata AND 0xFF)) (put8 TYPE_INT_16 s))"

definition eluarpc_write_u32 :: "u32 \<Rightarrow> wcur \<Rightarrow> wcur" where
  "eluarpc_write_u32 fdata s =
     put8 (ucast (drop_bit 24 fdata AND 0xFF)) (put8 (ucast (drop_bit 16 fdata AND 0xFF))
       (put8 (ucast (drop_bit 8 fdata AND 0xFF)) (put8 (ucast (fdata AND 0xFF))
         (put8 TYPE_INT_32 s))))"

definition eluarpc_write_ptr :: "u32 \<Rightarrow> u32 \<Rightarrow> wcur \<Rightarrow> wcur" where
  "eluarpc_write_ptr src srclen s =
     (let (m, p) = eluarpc_write_u32 srclen (put8 TYPE_PTR s);
          m = (if src \<noteq> NULL then memcpy m p src (unat srclen) else m)
      in (m, p + srclen))"

definition eluarpc_write_small_ptr :: "u32 \<Rightarrow> u16 \<Rightarrow> wcur \<Rightarrow> wcur" where
  "eluarpc_write_small_ptr src srclen s =
     (let (m, p) = eluarpc_write_u16 srclen (put8 TYPE_SMALL_PTR s);
          m = (if src \<noteq> NULL then memcpy m p src (unat srclen) else m)
      in (m, p + ucast srclen))"

section \<open>Reading fields\<close>

type_synonym rcur = "u32 \<times> rpc_status"

definition get8 :: "mem \<Rightarrow> rcur \<Rightarrow> u8 \<times> rcur" where
  "get8 m r = (m (fst r), fst r + 1, snd r)"

definition rpc_fail_if :: "bool \<Rightarrow> rcur \<Rightarrow> rcur" where
  "rpc_fail_if b r = (fst r, if b then ELUARPC_ERR else snd r)"

definition eluarpc_read_expect :: "mem \<Rightarrow> u8 \<Rightarrow> rcur \<Rightarrow> rcur" where
  "eluarpc_read_expect m fdata r = (let (b, r) = get8 m r in rpc_fail_if (b \<noteq> fdata) r)"

definition eluarpc_read_u8 :: "mem \<Rightarrow> rcur \<Rightarrow> u8 \<times> rcur" where
  "eluarpc_read_u8 m r = get8 m (eluarpc_read_expect m TYPE_INT_8 r)"

definition eluarpc_read_op_id :: "mem \<Rightarrow> rcur \<Rightarrow> u8 \<times> rcur" where
  "eluarpc_read_op_id m r = get8 m (eluarpc_read_expect m TYPE_OP_ID r)"

definition eluarpc_expect_op_id :: "mem \<Rightarrow> u8 \<Rightarrow> rcur \<Rightarrow> rcur" where
  "eluarpc_expect_op_id m i r =
     (let (temp, r) = get8 m (eluarpc_read_expect m TYPE_OP_ID r) in rpc_fail_if (temp \<noteq> i) r)"

definition eluarpc_read_u16 :: "mem \<Rightarrow> rcur \<Rightarrow> u16 \<times> rcur" where
  "eluarpc_read_u16 m r =
     (let (b0, r) = get8 m (eluarpc_read_expect m TYPE_INT_16 r);
          (b1, r) = get8 m r
      in (ucast b0 OR ucast (push_bit 8 (ucast b1 :: u32)), r))"

definition eluarpc_read_u32 :: "mem \<Rightarrow> rcur \<Rightarrow> u32 \<times> rcur" where
  "eluarpc_read_u32 m r =
     (let (b0, r) = get8 m (eluarpc_read_expect m TYPE_INT_32 r);
          (b1, r) = get8 m r;
          (b2, r) = get8 m r;
          (b3, r) = get8 m r
      in (ucast b0 OR push_bit 8 (ucast b1) OR push_bit 16 (ucast b2) OR push_bit 24 (ucast b3), r))"

text \<open>
  The pointer readers copy the payload to \<open>src\<close> when it is not \<open>NULL\<close> (both call sites
  pass \<open>NULL\<close>), give the length back and step over the payload.
\<close>

definition eluarpc_read_ptr :: "mem \<Rightarrow> u32 \<Rightarrow> rcur \<Rightarrow> mem \<times> u32 \<times> rcur" where
  "eluarpc_read_ptr m src r =
     (let (n, p, e) = eluarpc_read_u32 m (eluarpc_read_expect m TYPE_PTR r);
          m' = (if src \<noteq> NULL \<and> p \<noteq> NULL then memcpy m src p (unat n) else m)
      in (m', n, p + n, e))"

definition eluarpc_read_small_ptr :: "mem \<Rightarrow> u32 \<Rightarrow> rcur \<Rightarrow> mem \<times> u16 \<times> rcur" where
  "eluarpc_read_small_ptr m src r =
     (let (n, p, e) = eluarpc_read_u16 m (eluarpc_read_expect m TYPE_SMALL_PTR r);
          m' = (if src \<noteq> NULL \<and> p \<noteq> NULL then memcpy m src p (unat n) else m)
      in (m', n, p + ucast n, e))"

section \<open>The packet frame\<close>

text \<open>
  \<open>eluarpc_start_packet\<close> also gives back the value of the global \<open>eluarpc_packet_ptr\<close>,
  which \<open>eluarpc_end_packet\<close> uses to patch the packet size in front of the packet.
\<close>

definition eluarpc_start_packet :: "wcur \<Rightarrow> u32 \<times> wcur" where
  "eluarpc_start_packet s =
     (let eluarpc_packet_ptr = snd s;
          s = (fst s, snd s + ELUARPC_START_OFFSET)
      in (eluarpc_packet_ptr, eluarpc_write_u32 PACKET_SIG (put8 TYPE_START s)))"

definition eluarpc_end_packet :: "u32 \<Rightarrow> wcur \<Rightarrow> wcur" where
  "eluarpc_end_packet eluarpc_packet_ptr s =
     (let s = eluarpc_write_u32 (NOT PACKET_SIG) (put8 TYPE_END s);
          len = ucast (snd s - eluarpc_packet_ptr) :: u16;
          s = put8 TYPE_PKT_SIZE (fst s, eluarpc_packet_ptr)
      in (fst (eluarpc_write_u16 len s), snd s))"

definition eluarpc_match_packet_start :: "mem \<Rightarrow> rcur \<Rightarrow> rcur" where
  "eluarpc_match_packet_start m r =
     (let r = (fst r + ELUARPC_START_OFFSET, snd r);
          (fdata, r) = eluarpc_read_u32 m (eluarpc_read_expect m TYPE_START r)
      in rpc_fail_if (fdata \<noteq> PACKET_SIG) r)"

definition eluarpc_match_packet_end :: "mem \<Rightarrow> rcur \<Rightarrow> rcur" where
  "eluarpc_match_packet_end m r =
     (let (fdata, r) = eluarpc_read_u32 m (eluarpc_read_expect m TYPE_END r)
      in rpc_fail_if (fdata \<noteq> NOT PACKET_SIG) r)"

definition eluarpc_get_request_id :: "mem \<Rightarrow> u32 \<Rightarrow> rpc_status \<times> u8" where
  "eluarpc_get_request_id m p =
     (let (i, r) = eluarpc_read_op_id m (eluarpc_match_packet_start m (p, ELUARPC_OK)) in (snd r, i))"

definition eluarpc_replace_flag :: "u32 \<Rightarrow> u32 \<Rightarrow> u32 \<Rightarrow> u32" where
  "eluarpc_replace_flag val origflag newflag = (if val AND origflag \<noteq> 0 then newflag else 0)"

definition eluarpc_get_packet_size :: "mem \<Rightarrow> u32 \<Rightarrow> rpc_status \<times> u16" where
  "eluarpc_get_packet_size m p =
     (let (n, r) = eluarpc_read_u16 m (eluarpc_read_expect m TYPE_PKT_SIZE (p, ELUARPC_OK))
      in (snd r, n))"

section \<open>Generic write\<close>

text \<open>One turn of the \<open>switch( *fmt ++ )\<close>; an unknown specifier is skipped.\<close>

definition eluarpc_write_spec :: "char \<Rightarrow> u32 list \<Rightarrow> wcur \<Rightarrow> (u32 list \<times> wcur) option" where
  "eluarpc_write_spec c ap s =
     (if c = CHR ''o'' then
        (case ap of x # ap \<Rightarrow> Some (ap, eluarpc_write_op_id (ucast x) s) | _ \<Rightarrow> None)
      else if c = CHR ''r'' then
        (case ap of x # ap \<Rightarrow> Some (ap, put8 (ELUARPC_OP_RES_MOD OR ucast x) s) | _ \<Rightarrow> None)
      else if c = CHR ''c'' then
        (case ap of x # ap \<Rightarrow> Some (ap, eluarpc_write_u8 (ucast x) s) | _ \<Rightarrow> None)
      else if c = CHR ''h'' then
        (case ap of x # ap \<Rightarrow> Some (ap, eluarpc_write_u16 (ucast x) s) | _ \<Rightarrow> None)
      else if c = CHR ''i'' \<or> c = CHR ''l'' \<or> c = CHR ''L'' then
        (case ap of x # ap \<Rightarrow> Some (ap, eluarpc_write_u32 x s) | _ \<Rightarrow> None)
      else if c = CHR ''p'' then
        (case ap of ptr # ptrlen # ap \<Rightarrow> Some (ap, eluarpc_write_ptr ptr ptrlen s) | _ \<Rightarrow> None)
      else if c = CHR ''P'' then
        (case ap of ptr # ptrlen # ap \<Rightarrow> Some (ap, eluarpc_write_small_ptr ptr (ucast ptrlen) s)
         | _ \<Rightarrow> None)
      else Some (ap, s))"

fun eluarpc_write_fmt :: "string \<Rightarrow> u32 list \<Rightarrow> wcur \<Rightarrow> wcur option" where
  "eluarpc_write_fmt [] ap s = Some s"
| "eluarpc_write_fmt (c # fmt) ap s =
     (case eluarpc_write_spec c ap s of
        None \<Rightarrow> None
      | Some (ap, s) \<Rightarrow> eluarpc_write_fmt fmt ap s)"

definition eluarpc_gen_write :: "mem \<Rightarrow> u32 \<Rightarrow> string \<Rightarrow> u32 list \<Rightarrow> mem option" where
  "eluarpc_gen_write m p fmt ap =
     (let (pkt, s) = eluarpc_start_packet (m, p) in
      case eluarpc_write_fmt fmt ap s of
        None \<Rightarrow> None
      | Some s \<Rightarrow> Some (fst (eluarpc_end_packet pkt s)))"

section \<open>Generic read\<close>

text \<open>
  The variadic arguments of the read function: an expected value for \<open>o\<close> and \<open>r\<close>, and
  otherwise a location to store to, where the length of a pointer field may be \<open>NULL\<close>.
  The values stored come back as a list, in the order of the arguments they are stored to.
\<close>

datatype rarg = Val u32 | Ref | Null
datatype rval = R8 u8 | R16 u16 | R32 u32

definition store_unless_null :: "rarg \<Rightarrow> rval \<Rightarrow> rval list" where
  "store_unless_null a v = (if a = Null then [] else [v])"

definition eluarpc_read_spec ::
  "mem \<Rightarrow> char \<Rightarrow> rarg list \<Rightarrow> rcur \<Rightarrow> (rarg list \<times> rval list \<times> rcur) option" where
  "eluarpc_read_spec m c ap r =
     (if c = CHR ''o'' then
        (case ap of Val x # ap \<Rightarrow> Some (ap, [], eluarpc_expect_op_id m (ucast x) r) | _ \<Rightarrow> None)
      else if c = CHR ''r'' then
        (case ap of Val x # ap \<Rightarrow>
             Some (ap, [], eluarpc_read_expect m (ELUARPC_OP_RES_MOD OR ucast x) r)
         | _ \<Rightarrow> None)
      else if c = CHR ''c'' then
        (case ap of Ref # ap \<Rightarrow> (let (v, r) = eluarpc_read_u8 m r in Some (ap, [R8 v], r)) | _ \<Rightarrow> None)
      else if c = CHR ''h'' then
        (case ap of Ref # ap \<Rightarrow> (let (v, r) = eluarpc_read_u16 m r in Some (ap, [R16 v], r)) | _ \<Rightarrow> None)
      else if c = CHR ''i'' \<or> c = CHR ''l'' \<or> c = CHR ''L'' then
        (case ap of Ref # ap \<Rightarrow> (let (v, r) = eluarpc_read_u32 m r in Some (ap, [R32 v], r)) | _ \<Rightarrow> None)
      else if c = CHR ''p'' then
        (case ap of Ref # ptrlen # ap \<Rightarrow>
             (let tempptr = fst r;
                  (_, n, r) = eluarpc_read_ptr m NULL r;
                  ptr = (if fst r = tempptr + ELUARPC_PTR_HEADER_SIZE then NULL
                         else tempptr + ELUARPC_PTR_HEADER_SIZE)
              in Some (ap, R32 ptr # store_unless_null ptrlen (R32 n), r))
         | _ \<Rightarrow> None)
      else if c = CHR ''P'' then
        (case ap of Ref # ptrlen # ap \<Rightarrow>
             (let tempptr = fst r;
                  (_, n, r) = eluarpc_read_small_ptr m NULL r;
                  ptr = (if fst r = tempptr + ELUARPC_SMALL_PTR_HEADER_SIZE then NULL
                         else tempptr + ELUARPC_SMALL_PTR_HEADER_SIZE)
              in Some (ap, R32 ptr # store_unless_null ptrlen (R16 n), r))
         | _ \<Rightarrow> None)
      else Some (ap, [], r))"

fun eluarpc_read_fmt ::
  "mem \<Rightarrow> string \<Rightarrow> rarg list \<Rightarrow> rcur \<Rightarrow> (rval list \<times> rcur) option" where
  "eluarpc_read_fmt m [] ap r = Some ([], r)"
| "eluarpc_read_fmt m (c # fmt) ap r =
     (case eluarpc_read_spec m c ap r of
        None \<Rightarrow> None
      | Some (ap, vs, r) \<Rightarrow> map_option (apfst ((@) vs)) (eluarpc_read_fmt m fmt ap r))"

definition eluarpc_gen_read ::
  "mem \<Rightarrow> u32 \<Rightarrow> string \<Rightarrow> rarg list \<Rightarrow> (rpc_status \<times> rval list) option" where
  "eluarpc_gen_read m p fmt ap =
     (case eluarpc_read_fmt m fmt ap (eluarpc_match_packet_start m (p, ELUARPC_OK)) of
        None \<Rightarrow> None
      | Some (vs, r) \<Rightarrow> Some (snd (eluarpc_match_packet_end m r), vs))"

section \<open>Encodings\<close>

text \<open>
  The specification of the writers: the bytes of each field. \<open>emit s xs\<close> is the run of
  \<open>*p++ = x\<close> over \<open>xs\<close>.
\<close>

definition emit :: "wcur \<Rightarrow> u8 list \<Rightarrow> wcur" where
  "emit s xs = (mem_write (fst s) (snd s) xs, snd s + of_nat (length xs))"

definition le16 :: "u16 \<Rightarrow> u8 list" where
  "le16 x = [ucast x, ucast (drop_bit 8 x)]"

definition le32 :: "u32 \<Rightarrow> u8 list" where
  "le32 x = [ucast x, ucast (drop_bit 8 x), ucast (drop_bit 16 x), ucast (drop_bit 24 x)]"

definition enc16 :: "u16 \<Rightarrow> u8 list" where "enc16 x = TYPE_INT_16 # le16 x"
definition enc32 :: "u32 \<Rightarrow> u8 list" where "enc32 x = TYPE_INT_32 # le32 x"

named_theorems rpc_simps "writers and readers as encodings"

lemma length_le [simp]: "length (le16 x) = 2" "length (le32 y) = 4"
  by (simp_all add: le16_def le32_def)

lemma length_enc [simp]: "length (enc16 x) = 3" "length (enc32 y) = 5"
  by (simp_all add: enc16_def enc32_def)

lemma emit_Nil [simp]: "emit s [] = s"
  by (simp add: emit_def)

lemma emit_emit [simp]: "emit (emit s xs) ys = emit s (xs @ ys)"
  by (simp add: emit_def mem_write_append add.assoc)

lemma fst_emit: "fst (emit s xs) = mem_write (fst s) (snd s) xs"
  and snd_emit: "snd (emit s xs) = snd s + of_nat (length xs)"
  by (simp_all add: emit_def)

lemma put8_emit [rpc_simps]: "put8 b s = emit s [b]"
  by (simp add: put8_def emit_def)

lemma low_byte [simp]:
  fixes x :: "'a::len word"
  shows "(ucast (x AND 0xFF) :: u8) = ucast x"
proof -
  have "(0xFF :: 'a word) = mask 8" by (simp add: mask_eq_exp_minus_1)
  then show ?thesis
    by (simp only: flip: take_bit_eq_mask)
      (auto intro!: bit_word_eqI simp: bit_simps dest: bit_imp_le_length)
qed

lemma eluarpc_write_u8_emit [rpc_simps]: "eluarpc_write_u8 x s = emit s [TYPE_INT_8, x]"
  by (simp add: eluarpc_write_u8_def put8_emit)

lemma eluarpc_write_op_id_emit [rpc_simps]: "eluarpc_write_op_id x s = emit s [TYPE_OP_ID, x]"
  by (simp add: eluarpc_write_op_id_def put8_emit)

lemma eluarpc_write_u16_emit [rpc_simps]: "eluarpc_write_u16 x s = emit s (enc16 x)"
  by (simp add: eluarpc_write_u16_def put8_emit enc16_def le16_def)

lemma eluarpc_write_u32_emit [rpc_simps]: "eluarpc_write_u32 x s = emit s (enc32 x)"
  by (simp add: eluarpc_write_u32_def put8_emit enc32_def le32_def)

lemma le16_value: "ucast (ucast x :: u8) OR ucast (push_bit 8 (ucast (ucast (drop_bit 8 x) :: u8) :: u32)) = (x :: u16)"
  by (rule bit_word_eqI) (auto simp: bit_simps)

lemma mem_write_read_same [simp]: "mem_write m p (mem_read m p n) = m"
  by (induction n arbitrary: p) auto

lemma eluarpc_write_ptr_emit [rpc_simps]:
  "eluarpc_write_ptr src n s =
     (let s' = emit s (TYPE_PTR # enc32 n)
      in emit s' (mem_read (fst s') (if src = NULL then snd s' else src) (unat n)))"
  by (simp add: eluarpc_write_ptr_def rpc_simps Let_def split_beta memcpy_def)
    (simp add: emit_def mem_write_append ac_simps)

lemma eluarpc_write_small_ptr_emit [rpc_simps]:
  "eluarpc_write_small_ptr src n s =
     (let s' = emit s (TYPE_SMALL_PTR # enc16 n)
      in emit s' (mem_read (fst s') (if src = NULL then snd s' else src) (unat n)))"
  by (simp add: eluarpc_write_small_ptr_def rpc_simps Let_def split_beta memcpy_def)
    (simp add: emit_def mem_write_append ac_simps)

section \<open>Readers on encodings\<close>

lemma eluarpc_read_expect_at [rpc_simps]:
  "eluarpc_read_expect m b (p, e) = (p + 1, if m p = b then e else ELUARPC_ERR)"
  by (simp add: eluarpc_read_expect_def get8_def rpc_fail_if_def)

lemma eluarpc_read_u8_at [rpc_simps]:
  "mem_at m p [TYPE_INT_8, x] \<Longrightarrow> eluarpc_read_u8 m (p, e) = (x, p + 2, e)"
  by (simp add: eluarpc_read_u8_def rpc_simps get8_def add.assoc)

lemma eluarpc_read_op_id_at [rpc_simps]:
  "mem_at m p [TYPE_OP_ID, x] \<Longrightarrow> eluarpc_read_op_id m (p, e) = (x, p + 2, e)"
  by (simp add: eluarpc_read_op_id_def rpc_simps get8_def add.assoc)

lemma eluarpc_expect_op_id_at [rpc_simps]:
  "mem_at m p [TYPE_OP_ID, x]
    \<Longrightarrow> eluarpc_expect_op_id m i (p, e) = (p + 2, if x = i then e else ELUARPC_ERR)"
  by (simp add: eluarpc_expect_op_id_def rpc_simps get8_def rpc_fail_if_def add.assoc)

lemma eluarpc_read_u16_at [rpc_simps]:
  "mem_at m p (enc16 x) \<Longrightarrow> eluarpc_read_u16 m (p, e) = (x, p + 3, e)"
  using le16_value [of x]
  by (simp add: eluarpc_read_u16_def rpc_simps get8_def enc16_def le16_def add.assoc split_beta)

lemma eluarpc_read_u32_at [rpc_simps]:
  "mem_at m p (enc32 x) \<Longrightarrow> eluarpc_read_u32 m (p, e) = (x, p + 5, e)"
  using le32_value [of x]
  by (simp add: eluarpc_read_u32_def rpc_simps get8_def enc32_def le32_def add.assoc split_beta)

lemma eluarpc_read_ptr_at [rpc_simps]:
  "mem_at m p (TYPE_PTR # enc32 n)
    \<Longrightarrow> eluarpc_read_ptr m NULL (p, e) = (m, n, p + 6 + n, e)"
  using eluarpc_read_u32_at [of m "p + 1" n e]
  by (simp add: eluarpc_read_ptr_def eluarpc_read_expect_at add.assoc)

lemma eluarpc_read_small_ptr_at [rpc_simps]:
  "mem_at m p (TYPE_SMALL_PTR # enc16 n)
    \<Longrightarrow> eluarpc_read_small_ptr m NULL (p, e) = (m, n, p + 4 + ucast n, e)"
  using eluarpc_read_u16_at [of m "p + 1" n e]
  by (simp add: eluarpc_read_small_ptr_def eluarpc_read_expect_at add.assoc)

section \<open>The encoding of a call\<close>

text \<open>
  \<open>rpc_field m q c ap\<close> is the encoding of one format character when the cursor is at
  \<open>q\<close> of a memory \<open>m\<close>, with the arguments left; a \<open>NULL\<close> source keeps the payload
  that is already in place. \<open>rpc_sources\<close> are the blocks the call copies from, and
  \<open>rpc_outs\<close> what a reader with arguments \<open>ra\<close> stores when it reads the encoding at
  \<open>q\<close>; it is \<open>None\<close> when the reader expects another operation or response.
\<close>

definition rpc_field :: "mem \<Rightarrow> u32 \<Rightarrow> char \<Rightarrow> u32 list \<Rightarrow> (u32 list \<times> u8 list) option" where
  "rpc_field m q c ap =
     (if c = CHR ''o'' then (case ap of x # ap \<Rightarrow> Some (ap, [TYPE_OP_ID, ucast x]) | _ \<Rightarrow> None)
      else if c = CHR ''r'' then
        (case ap of x # ap \<Rightarrow> Some (ap, [ELUARPC_OP_RES_MOD OR ucast x]) | _ \<Rightarrow> None)
      else if c = CHR ''c'' then (case ap of x # ap \<Rightarrow> Some (ap, [TYPE_INT_8, ucast x]) | _ \<Rightarrow> None)
      else if c = CHR ''h'' then (case ap of x # ap \<Rightarrow> Some (ap, enc16 (ucast x)) | _ \<Rightarrow> None)
      else if c = CHR ''i'' \<or> c = CHR ''l'' \<or> c = CHR ''L'' then
        (case ap of x # ap \<Rightarrow> Some (ap, enc32 x) | _ \<Rightarrow> None)
      else if c = CHR ''p'' then
        (case ap of ptr # n # ap \<Rightarrow>
             Some (ap, TYPE_PTR # enc32 n @ mem_read m (if ptr = NULL then q + 6 else ptr) (unat n))
         | _ \<Rightarrow> None)
      else if c = CHR ''P'' then
        (case ap of ptr # n # ap \<Rightarrow>
             Some (ap, TYPE_SMALL_PTR # enc16 (ucast n)
               @ mem_read m (if ptr = NULL then q + 4 else ptr) (unat (ucast n :: u16)))
         | _ \<Rightarrow> None)
      else Some (ap, []))"

fun rpc_encode :: "mem \<Rightarrow> u32 \<Rightarrow> string \<Rightarrow> u32 list \<Rightarrow> u8 list option" where
  "rpc_encode m q [] ap = Some []"
| "rpc_encode m q (c # fmt) ap =
     (case rpc_field m q c ap of
        None \<Rightarrow> None
      | Some (ap, xs) \<Rightarrow> map_option ((@) xs) (rpc_encode m (q + of_nat (length xs)) fmt ap))"

definition rpc_source :: "char \<Rightarrow> u32 list \<Rightarrow> (u32 \<times> nat) list" where
  "rpc_source c ap =
     (case ap of ptr # n # _ \<Rightarrow>
        if c = CHR ''p'' \<and> ptr \<noteq> NULL then [(ptr, unat n)]
        else if c = CHR ''P'' \<and> ptr \<noteq> NULL then [(ptr, unat (ucast n :: u16))]
        else []
      | _ \<Rightarrow> [])"

fun rpc_sources :: "string \<Rightarrow> u32 list \<Rightarrow> (u32 \<times> nat) list" where
  "rpc_sources [] ap = []"
| "rpc_sources (c # fmt) ap =
     rpc_source c ap @ (case rpc_field (\<lambda>_. 0) 0 c ap of None \<Rightarrow> [] | Some (ap, _) \<Rightarrow> rpc_sources fmt ap)"

definition rpc_out :: "u32 \<Rightarrow> char \<Rightarrow> u32 list \<Rightarrow> rarg list \<Rightarrow> (rarg list \<times> rval list) option" where
  "rpc_out q c ap ra =
     (if c = CHR ''o'' \<or> c = CHR ''r'' then
        (case (ap, ra) of (x # _, Val y # ra) \<Rightarrow>
             (if (ucast x :: u8) = ucast y then Some (ra, []) else None)
         | _ \<Rightarrow> None)
      else if c = CHR ''c'' then
        (case (ap, ra) of (x # _, Ref # ra) \<Rightarrow> Some (ra, [R8 (ucast x)]) | _ \<Rightarrow> None)
      else if c = CHR ''h'' then
        (case (ap, ra) of (x # _, Ref # ra) \<Rightarrow> Some (ra, [R16 (ucast x)]) | _ \<Rightarrow> None)
      else if c = CHR ''i'' \<or> c = CHR ''l'' \<or> c = CHR ''L'' then
        (case (ap, ra) of (x # _, Ref # ra) \<Rightarrow> Some (ra, [R32 x]) | _ \<Rightarrow> None)
      else if c = CHR ''p'' then
        (case (ap, ra) of (_ # n # _, Ref # l # ra) \<Rightarrow>
             Some (ra, R32 (if n = 0 then NULL else q + 6) # store_unless_null l (R32 n))
         | _ \<Rightarrow> None)
      else if c = CHR ''P'' then
        (case (ap, ra) of (_ # n # _, Ref # l # ra) \<Rightarrow>
             Some (ra, R32 (if (ucast n :: u16) = 0 then NULL else q + 4) # store_unless_null l (R16 (ucast n)))
         | _ \<Rightarrow> None)
      else Some (ra, []))"

fun rpc_outs :: "u32 \<Rightarrow> string \<Rightarrow> u32 list \<Rightarrow> rarg list \<Rightarrow> rval list option" where
  "rpc_outs q [] ap ra = Some []"
| "rpc_outs q (c # fmt) ap ra =
     (case (rpc_field (\<lambda>_. 0) q c ap, rpc_out q c ap ra) of
        (Some (ap, xs), Some (ra, vs)) \<Rightarrow>
          map_option ((@) vs) (rpc_outs (q + of_nat (length xs)) fmt ap ra)
      | _ \<Rightarrow> None)"

lemmas rpc_cases = option.splits prod.splits list.splits if_splits rarg.splits

text \<open>One format character: the writer emits the field, the reader reads it back.\<close>

lemma apart_ahead: "k + n \<le> 4294967296 \<Longrightarrow> apart (p + of_nat k) n p k"
proof -
  assume "k + n \<le> 4294967296"
  then have "off_from p (p + of_nat k + of_nat i) = k + i" if "i < n" for i
    using off_from_offset [of "k + i" p] that by (simp add: add.assoc)
  then show ?thesis by (simp add: apart_def)
qed

lemma payload_emit:
  assumes "src \<noteq> NULL \<Longrightarrow> apart src n p (length ws)" "length ws + n \<le> 4294967296"
  shows "mem_read (fst (emit (m, p) ws)) (if src = NULL then snd (emit (m, p) ws) else src) n =
    mem_read m (if src = NULL then p + of_nat (length ws) else src) n"
  using assms apart_ahead [of "length ws" n p]
  by (simp add: emit_def mem_read_write_apart)

lemma write_spec_field:
  assumes "rpc_field m (p + of_nat (length xs)) c ap = Some (ap', ys)"
    and "\<forall>(a, n) \<in> set (rpc_source c ap). apart a n p (length xs + length ys)"
    and "length xs + length ys \<le> 4294967296"
  shows "eluarpc_write_spec c ap (emit (m, p) xs) = Some (ap', emit (m, p) (xs @ ys))"
proof (cases "c = CHR ''p'' \<or> c = CHR ''P''")
  case False
  with assms(1) show ?thesis
    by (auto simp: rpc_field_def eluarpc_write_spec_def rpc_simps split: rpc_cases)
next
  case True
  then show ?thesis
  proof
    assume c: "c = CHR ''p''"
    with assms(1) obtain ptr n where ap: "ap = ptr # n # ap'"
      and ys: "ys = TYPE_PTR # enc32 n
        @ mem_read m (if ptr = NULL then p + of_nat (length xs) + 6 else ptr) (unat n)"
      by (auto simp: rpc_field_def split: rpc_cases)
    let ?ws = "xs @ TYPE_PTR # enc32 n"
    from assms c ap ys have "mem_read (fst (emit (m, p) ?ws))
        (if ptr = NULL then snd (emit (m, p) ?ws) else ptr) (unat n) =
      mem_read m (if ptr = NULL then p + of_nat (length ?ws) else ptr) (unat n)"
      by (intro payload_emit) (auto simp: rpc_source_def elim: apart_mono)
    then show ?thesis
      by (simp add: c ap ys eluarpc_write_spec_def rpc_simps Let_def ac_simps)
  next
    assume c: "c = CHR ''P''"
    with assms(1) obtain ptr n where ap: "ap = ptr # n # ap'"
      and ys: "ys = TYPE_SMALL_PTR # enc16 (ucast n)
        @ mem_read m (if ptr = NULL then p + of_nat (length xs) + 4 else ptr) (unat (ucast n :: u16))"
      by (auto simp: rpc_field_def split: rpc_cases)
    let ?ws = "xs @ TYPE_SMALL_PTR # enc16 (ucast n)"
    from assms c ap ys have "mem_read (fst (emit (m, p) ?ws))
        (if ptr = NULL then snd (emit (m, p) ?ws) else ptr) (unat (ucast n :: u16)) =
      mem_read m (if ptr = NULL then p + of_nat (length ?ws) else ptr) (unat (ucast n :: u16))"
      by (intro payload_emit) (auto simp: rpc_source_def elim: apart_mono)
    then show ?thesis
      by (simp add: c ap ys eluarpc_write_spec_def rpc_simps Let_def ac_simps)
  qed
qed

lemma rpc_field_lengths:
  "map_option (map_prod id length) (rpc_field m q c ap) =
   map_option (map_prod id length) (rpc_field m' q' c ap)"
  by (auto simp: rpc_field_def split: rpc_cases)

lemma rpc_field_rest:
  assumes "rpc_field m q c ap = Some (ap', ys)"
  shows "\<exists>zs. rpc_field m' q' c ap = Some (ap', zs) \<and> length zs = length ys"
  using rpc_field_lengths [of m q c ap m' q'] assms
  by (cases "rpc_field m' q' c ap") auto

lemma mem_at_Cons_append:
  "mem_at m p (x # xs @ ys) \<longleftrightarrow> mem_at m p (x # xs) \<and> mem_at m (p + of_nat (Suc (length xs))) ys"
  using mem_at_append [of m p "x # xs" ys] by simp

lemma ucast_u16_eq_0 [simp]: "(ucast (x :: u16) :: u32) = 0 \<longleftrightarrow> x = 0"
  using unat_ucast_up [of x, where 'b=32] by (auto simp: unat_eq_0 [symmetric])

lemma spec_char_cases [case_names o r c h i p P skip]:
  assumes "c = CHR ''o'' \<Longrightarrow> Q" "c = CHR ''r'' \<Longrightarrow> Q" "c = CHR ''c'' \<Longrightarrow> Q" "c = CHR ''h'' \<Longrightarrow> Q"
    and "c = CHR ''i'' \<or> c = CHR ''l'' \<or> c = CHR ''L'' \<Longrightarrow> Q"
    and "c = CHR ''p'' \<Longrightarrow> Q" "c = CHR ''P'' \<Longrightarrow> Q" "c \<notin> set ''orchilLpP'' \<Longrightarrow> Q"
  shows Q
  using assms by force

lemmas read_spec_defs = rpc_field_def rpc_out_def eluarpc_read_spec_def

lemma read_spec_field:
  assumes enc: "rpc_field m0 q c ap = Some (ap', ys)" and out: "rpc_out q c ap ra = Some (ra', vs)"
    and at: "mem_at m q ys"
  shows "eluarpc_read_spec m c ra (q, e) = Some (ra', vs, q + of_nat (length ys), e)"
proof -
  show ?thesis
  proof (cases c rule: spec_char_cases)
    case o
    then show ?thesis using assms
      by (auto simp: read_spec_defs eluarpc_expect_op_id_at split: rpc_cases)
  next
    case r
    then show ?thesis using assms
      by (auto simp: read_spec_defs eluarpc_read_expect_at split: rpc_cases)
  next
    case c
    then show ?thesis using assms
      by (auto simp: read_spec_defs eluarpc_read_u8_at split: rpc_cases)
  next
    case h
    with enc obtain x where "ap = x # ap'" "ys = enc16 (ucast x)"
      by (auto simp: read_spec_defs split: rpc_cases)
    with at out h eluarpc_read_u16_at [of m q "ucast x" e] show ?thesis
      by (auto simp: read_spec_defs split: rpc_cases)
  next
    case i
    with enc obtain x where "ap = x # ap'" "ys = enc32 x"
      by (auto simp: read_spec_defs split: rpc_cases)
    with at out i eluarpc_read_u32_at [of m q x e] show ?thesis
      by (auto simp: read_spec_defs split: rpc_cases)
  next
    case p
    with enc obtain ptr n zs where ap: "ap = ptr # n # ap'" "ys = TYPE_PTR # enc32 n @ zs"
      "length zs = unat n"
      by (auto simp: read_spec_defs split: rpc_cases)
    with at eluarpc_read_ptr_at [of m q n e]
    have "eluarpc_read_ptr m NULL (q, e) = (m, n, q + 6 + n, e)"
      by (simp add: mem_at_append)
    with ap out p show ?thesis
      by (auto simp: read_spec_defs ELUARPC_PTR_HEADER_SIZE_def split: rpc_cases)
  next
    case P
    with enc obtain ptr n zs where ap: "ap = ptr # n # ap'" "ys = TYPE_SMALL_PTR # enc16 (ucast n) @ zs"
      "length zs = unat (ucast n :: u16)"
      by (auto simp: read_spec_defs split: rpc_cases)
    with at eluarpc_read_small_ptr_at [of m q "ucast n" e]
    have "eluarpc_read_small_ptr m NULL (q, e) = (m, ucast n, q + 4 + ucast (ucast n :: u16), e)"
      by (simp add: mem_at_append)
    with ap out P show ?thesis
      by (auto simp: read_spec_defs ELUARPC_SMALL_PTR_HEADER_SIZE_def split: rpc_cases)
  next
    case skip
    with assms show ?thesis by (simp add: read_spec_defs)
  qed
qed

text \<open>The loops over the format.\<close>

lemma rpc_sources_Cons:
  assumes "rpc_field m q c ap = Some (ap', ys)"
  shows "rpc_sources (c # fmt) ap = rpc_source c ap @ rpc_sources fmt ap'"
  using rpc_field_rest [OF assms, of "\<lambda>_. 0" 0] by auto

lemma write_fmt_encode:
  assumes "rpc_encode m (p + of_nat (length xs)) fmt ap = Some ys"
    and "\<forall>(a, n) \<in> set (rpc_sources fmt ap). apart a n p (length xs + length ys)"
    and "length xs + length ys \<le> 4294967296"
  shows "eluarpc_write_fmt fmt ap (emit (m, p) xs) = Some (emit (m, p) (xs @ ys))"
  using assms
proof (induction fmt arbitrary: xs ap ys)
  case Nil
  then show ?case by simp
next
  case (Cons c fmt)
  from Cons.prems(1) obtain ap' us vs
    where f: "rpc_field m (p + of_nat (length xs)) c ap = Some (ap', us)"
      and e: "rpc_encode m (p + of_nat (length (xs @ us))) fmt ap' = Some vs" and ys: "ys = us @ vs"
    by (auto simp: add.assoc split: option.splits)
  from Cons.prems(2) have src:
    "\<forall>(a, n) \<in> set (rpc_source c ap). apart a n p (length xs + length us)"
    "\<forall>(a, n) \<in> set (rpc_sources fmt ap'). apart a n p (length (xs @ us) + length vs)"
    unfolding rpc_sources_Cons [OF f] ys by (fastforce simp: add.assoc elim: apart_mono)+
  from Cons.prems(3) have "length xs + length us \<le> 4294967296" by (simp add: ys)
  with src have "eluarpc_write_spec c ap (emit (m, p) xs) = Some (ap', emit (m, p) (xs @ us))"
    by (intro write_spec_field [OF f])
  moreover from Cons.prems(3) have "length (xs @ us) + length vs \<le> 4294967296" by (simp add: ys)
  then have "eluarpc_write_fmt fmt ap' (emit (m, p) (xs @ us)) = Some (emit (m, p) ((xs @ us) @ vs))"
    by (rule Cons.IH [OF e src(2)])
  ultimately show ?case by (simp add: ys)
qed

lemma read_fmt_encode:
  assumes "rpc_encode m0 q fmt ap = Some ys" "rpc_outs q fmt ap ra = Some vs" "mem_at m q ys"
  shows "eluarpc_read_fmt m fmt ra (q, e) = Some (vs, q + of_nat (length ys), e)"
  using assms
proof (induction fmt arbitrary: q ap ra ys vs)
  case Nil
  then show ?case by simp
next
  case (Cons c fmt)
  from Cons.prems(1) obtain ap' us ws
    where f: "rpc_field m0 q c ap = Some (ap', us)"
      and e: "rpc_encode m0 (q + of_nat (length us)) fmt ap' = Some ws" and ys: "ys = us @ ws"
    by (auto split: option.splits)
  from rpc_field_rest [OF f] obtain zs
    where "rpc_field (\<lambda>_. 0) q c ap = Some (ap', zs)" "length zs = length us" by blast
  with Cons.prems(2) obtain ra' os ps
    where o: "rpc_out q c ap ra = Some (ra', os)"
      and os: "rpc_outs (q + of_nat (length us)) fmt ap' ra' = Some ps" and vs: "vs = os @ ps"
    by (auto split: option.splits)
  from Cons.prems(3) have at: "mem_at m q us" "mem_at m (q + of_nat (length us)) ws"
    by (simp_all add: ys mem_at_append)
  from read_spec_field [OF f o at(1)] Cons.IH [OF e os at(2)] show ?case
    by (simp add: ys vs add.assoc)
qed

section \<open>Packets\<close>

text \<open>
  A packet with body \<open>ys\<close>: size field, start field, body, end field. The 16-bit size field
  holds the packet length modulo \<open>2 ^ 16\<close>.
\<close>

definition packet_len :: "u8 list \<Rightarrow> nat" where
  "packet_len ys = 16 + length ys"

definition rpc_packet :: "u8 list \<Rightarrow> u8 list" where
  "rpc_packet ys = TYPE_PKT_SIZE # enc16 (of_nat (packet_len ys))
     @ TYPE_START # enc32 PACKET_SIG @ ys @ TYPE_END # enc32 (NOT PACKET_SIG)"

lemma length_rpc_packet [simp]: "length (rpc_packet ys) = packet_len ys"
  by (simp add: rpc_packet_def packet_len_def)

text \<open>Where a call's fields start, and the conditions under which its packet is well formed.\<close>

definition rpc_body :: "mem \<Rightarrow> u32 \<Rightarrow> string \<Rightarrow> u32 list \<Rightarrow> u8 list option" where
  "rpc_body m p fmt ap = rpc_encode m (p + 10) fmt ap"

definition rpc_sources_apart :: "u32 \<Rightarrow> string \<Rightarrow> u32 list \<Rightarrow> nat \<Rightarrow> bool" where
  "rpc_sources_apart p fmt ap n = (\<forall>(a, k) \<in> set (rpc_sources fmt ap). apart a k (p + 4) n)"

lemma mem_write_before:
  assumes "length hs + length xs \<le> 4294967296"
  shows "mem_write (mem_write m (p + of_nat (length hs)) xs) p hs = mem_write m p (hs @ xs)"
proof
  fix a
  let ?q = "p + of_nat (length hs)"
  have "off_from ?q a = (if off_from p a < length hs then off_from p a + (4294967296 - length hs)
      else off_from p a - length hs)" if "0 < length hs"
  proof -
    have *: "unat (of_nat (length hs) :: u32) = length hs" if "length hs < 4294967296"
      using that by (simp add: unat_of_nat_small)
    show ?thesis
    proof (cases "length hs < 4294967296")
      case True
      define w where "w = a - p"
      have eq: "a - ?q = w - of_nat (length hs)" by (simp add: w_def algebra_simps)
      from * [OF True] True show ?thesis
        unfolding off_from_def eq w_def [symmetric] by (simp add: unat_sub_if_size word_size not_le)
    next
      case False
      with assms have n: "length hs = 4294967296" by simp
      then have q: "?q = p" by (simp only: of_nat_numeral) simp
      show ?thesis unfolding q using n off_from_less [of p a] by simp
    qed
  qed
  with assms show "mem_write (mem_write m ?q xs) p hs a = mem_write m p (hs @ xs) a"
    by (cases "hs = []") (auto simp: mem_write_apply nth_append)
qed

lemma ucast_of_nat_u16 [simp]: "(ucast (of_nat n :: u32) :: u16) = of_nat n"
  by (rule word_unat_eq_iff [THEN iffD2])
    (simp add: unsigned_ucast_eq unsigned_of_nat take_bit_take_bit)

lemma gen_write_packet:
  assumes "rpc_body m p fmt ap = Some ys" "packet_len ys \<le> 4294967296"
    and "rpc_sources_apart p fmt ap (packet_len ys)"
  shows "eluarpc_gen_write m p fmt ap = Some (mem_write m p (rpc_packet ys))"
proof -
  let ?st = "TYPE_START # enc32 PACKET_SIG"
  have st: "eluarpc_start_packet (m, p) = (p, emit (m, p + 4) ?st)"
    by (simp add: eluarpc_start_packet_def rpc_simps ELUARPC_START_OFFSET_def Let_def)
  from assms have "eluarpc_write_fmt fmt ap (emit (m, p + 4) ?st) = Some (emit (m, p + 4) (?st @ ys))"
    by (intro write_fmt_encode)
      (auto simp: rpc_body_def rpc_sources_apart_def packet_len_def add.commute elim!: apart_mono)
  moreover have "eluarpc_end_packet p (emit (m, p + 4) (?st @ ys)) = (mem_write m p (rpc_packet ys), p + 1)"
  proof -
    let ?zs = "?st @ ys @ TYPE_END # enc32 (NOT PACKET_SIG)"
    let ?E = "emit (m, p + 4) ?zs"
    have "of_nat (length ?zs) + 4 = (of_nat (packet_len ys) :: u32)"
      by (simp add: packet_len_def)
    then have "snd ?E - p = of_nat (packet_len ys)"
      by (simp add: emit_def add.commute)
    then have len: "ucast (snd ?E - p) = (of_nat (packet_len ys) :: u16)"
      by (simp only: ucast_of_nat_u16)
    have e: "eluarpc_write_u32 (NOT PACKET_SIG) (put8 TYPE_END (emit (m, p + 4) (?st @ ys))) = ?E"
      by (simp add: rpc_simps)
    have f: "eluarpc_write_u16 n (put8 TYPE_PKT_SIZE (fst ?E, p)) =
        emit (fst ?E, p) (TYPE_PKT_SIZE # enc16 n)" for n
      by (simp add: rpc_simps)
    from assms(2) have "mem_write (mem_write m (p + 4) ?zs) p (TYPE_PKT_SIZE # enc16 n) =
        mem_write m p ((TYPE_PKT_SIZE # enc16 n) @ ?zs)" for n
      using mem_write_before [of "TYPE_PKT_SIZE # enc16 n" ?zs m p] by (simp add: packet_len_def)
    then have g: "fst (emit (fst ?E, p) (TYPE_PKT_SIZE # enc16 n)) =
        mem_write m p ((TYPE_PKT_SIZE # enc16 n) @ ?zs)" for n
      by (simp only: fst_emit fst_conv snd_conv)
    show ?thesis
      unfolding eluarpc_end_packet_def Let_def e f g len rpc_packet_def
      by (simp add: put8_def)
  qed
  ultimately show ?thesis
    by (simp add: eluarpc_gen_write_def st)
qed

lemma match_packet_start_at:
  "mem_at m (p + 4) (TYPE_START # enc32 PACKET_SIG)
    \<Longrightarrow> eluarpc_match_packet_start m (p, e) = (p + 10, e)"
  using eluarpc_read_u32_at [of m "p + 5" PACKET_SIG e]
  by (simp add: eluarpc_match_packet_start_def eluarpc_read_expect_at ELUARPC_START_OFFSET_def
      rpc_fail_if_def add.assoc)

lemma match_packet_end_at:
  "mem_at m p (TYPE_END # enc32 (NOT PACKET_SIG)) \<Longrightarrow> eluarpc_match_packet_end m (p, e) = (p + 6, e)"
  using eluarpc_read_u32_at [of m "p + 1" "NOT PACKET_SIG" e]
  by (simp add: eluarpc_match_packet_end_def eluarpc_read_expect_at rpc_fail_if_def add.assoc)

lemma packet_parts:
  assumes "mem_at m p (rpc_packet ys)"
  shows "mem_at m p (TYPE_PKT_SIZE # enc16 (of_nat (packet_len ys)))"
    and "mem_at m (p + 4) (TYPE_START # enc32 PACKET_SIG)"
    and "mem_at m (p + 10) ys"
    and "mem_at m (p + 10 + of_nat (length ys)) (TYPE_END # enc32 (NOT PACKET_SIG))"
  using assms by (simp_all add: rpc_packet_def mem_at_append add.assoc)

lemma gen_read_packet:
  assumes "mem_at m p (rpc_packet ys)" "rpc_body m0 p fmt ap = Some ys"
    and "rpc_outs (p + 10) fmt ap ra = Some vs"
  shows "eluarpc_gen_read m p fmt ra = Some (ELUARPC_OK, vs)"
  using match_packet_start_at [OF packet_parts(2) [OF assms(1)], of ELUARPC_OK]
    match_packet_end_at [OF packet_parts(4) [OF assms(1)], of ELUARPC_OK]
    read_fmt_encode [OF assms(2) [unfolded rpc_body_def] assms(3) packet_parts(3) [OF assms(1)], of ELUARPC_OK]
  by (simp add: eluarpc_gen_read_def)

lemma gen_write_at:
  assumes "rpc_body m p fmt ap = Some ys" "packet_len ys \<le> 4294967296"
    and "rpc_sources_apart p fmt ap (packet_len ys)" "eluarpc_gen_write m p fmt ap = Some m'"
  shows "mem_at m' p (rpc_packet ys)"
  using gen_write_packet [OF assms(1-3)] assms(2,4) by (auto intro: mem_at_write)

section \<open>The error flag\<close>

lemma fail_sticky [simp]:
  "snd (rpc_fail_if b (p, ELUARPC_ERR)) = ELUARPC_ERR"
  "snd (eluarpc_read_expect m x (p, ELUARPC_ERR)) = ELUARPC_ERR"
  by (simp_all add: rpc_fail_if_def eluarpc_read_expect_at)

lemma snd_get8 [simp]: "snd (snd (get8 m r)) = snd r"
  by (simp add: get8_def)

lemma read_sticky:
  assumes "snd r = ELUARPC_ERR"
  shows "snd (snd (eluarpc_read_u8 m r)) = ELUARPC_ERR"
    and "snd (snd (eluarpc_read_u16 m r)) = ELUARPC_ERR"
    and "snd (snd (eluarpc_read_u32 m r)) = ELUARPC_ERR"
    and "snd (eluarpc_read_expect m b r) = ELUARPC_ERR"
    and "snd (eluarpc_expect_op_id m b r) = ELUARPC_ERR"
  using assms
  by (simp_all add: eluarpc_read_u8_def eluarpc_read_u16_def eluarpc_read_u32_def split_beta Let_def
      eluarpc_expect_op_id_def eluarpc_read_expect_def rpc_fail_if_def)

lemma read_ptr_sticky:
  assumes "snd r = ELUARPC_ERR"
  shows "snd (snd (snd (eluarpc_read_ptr m src r))) = ELUARPC_ERR"
    and "snd (snd (snd (eluarpc_read_small_ptr m src r))) = ELUARPC_ERR"
  using assms
  by (simp_all add: eluarpc_read_ptr_def eluarpc_read_small_ptr_def split_beta Let_def read_sticky)

lemma read_spec_sticky:
  assumes "eluarpc_read_spec m c ap r = Some (ap', vs, r')" "snd r = ELUARPC_ERR"
  shows "snd r' = ELUARPC_ERR"
  using assms read_sticky [OF assms(2), of m] read_ptr_sticky [OF assms(2), of m NULL]
  by (cases c rule: spec_char_cases)
    (auto simp: eluarpc_read_spec_def split_beta Let_def split: list.splits rarg.splits)

lemma read_fmt_sticky:
  "eluarpc_read_fmt m fmt ap r = Some (vs, r') \<Longrightarrow> snd r = ELUARPC_ERR \<Longrightarrow> snd r' = ELUARPC_ERR"
proof (induction fmt arbitrary: ap r vs)
  case (Cons c fmt)
  then show ?case
    by (auto simp: apfst_def map_prod_def split: option.splits prod.splits dest: read_spec_sticky)
qed simp

lemma match_packet_end_sticky:
  "snd r = ELUARPC_ERR \<Longrightarrow> snd (eluarpc_match_packet_end m r) = ELUARPC_ERR"
  by (simp add: eluarpc_match_packet_end_def split_beta Let_def rpc_fail_if_def read_sticky)

lemma gen_read_ok_imp:
  assumes "eluarpc_gen_read m p fmt ap = Some (ELUARPC_OK, vs)"
  shows "\<exists>r'. eluarpc_read_fmt m fmt ap (p + 10, ELUARPC_OK) = Some (vs, r') \<and> snd r' = ELUARPC_OK
    \<and> m (p + 4) = TYPE_START \<and> fst (eluarpc_read_u32 m (p + 5, ELUARPC_OK)) = PACKET_SIG"
proof -
  let ?s = "eluarpc_match_packet_start m (p, ELUARPC_OK)"
  obtain r' where r': "eluarpc_read_fmt m fmt ap ?s = Some (vs, r')"
    and e: "snd (eluarpc_match_packet_end m r') = ELUARPC_OK"
    using assms by (auto simp: eluarpc_gen_read_def split: option.splits)
  from e have "snd r' = ELUARPC_OK"
    using match_packet_end_sticky [of r' m] by (cases "snd r'") auto
  then have "snd ?s = ELUARPC_OK" using read_fmt_sticky [OF r'] by (cases "snd ?s") auto
  moreover from this have "m (p + 4) = TYPE_START"
    by (rule_tac ccontr)
      (simp add: eluarpc_match_packet_start_def ELUARPC_START_OFFSET_def eluarpc_read_expect_at
        split_beta rpc_fail_if_def read_sticky split: if_splits)
  moreover from calculation have "fst (eluarpc_read_u32 m (p + 5, ELUARPC_OK)) = PACKET_SIG"
    by (simp add: eluarpc_match_packet_start_def ELUARPC_START_OFFSET_def eluarpc_read_expect_at
        split_beta rpc_fail_if_def add.assoc split: if_splits)
  moreover have "fst ?s = p + 10"
    by (simp add: eluarpc_match_packet_start_def ELUARPC_START_OFFSET_def eluarpc_read_expect_at
        split_beta Let_def rpc_fail_if_def eluarpc_read_u32_def get8_def add.assoc)
  moreover note r' \<open>snd r' = ELUARPC_OK\<close>
  ultimately show ?thesis by (metis prod.collapse)
qed

section \<open>Properties\<close>

text \<open>
  C7: what one side writes the other side reads. A call of \<open>eluarpc_gen_write\<close> whose
  arguments match its format, whose sources lie outside the packet and whose packet fits the
  16-bit size field puts a packet at \<open>p\<close> that \<open>eluarpc_gen_read\<close> with the same format
  accepts, storing exactly the values written: the integers, and for a pointer field its
  length and the address of its payload inside the packet (\<open>NULL\<close> for an empty payload).
\<close>

theorem rpc_call_roundtrip:
  assumes "rpc_body m p fmt ap = Some ys" "packet_len ys < 65536"
    and "rpc_sources_apart p fmt ap (packet_len ys)"
    and "rpc_outs (p + 10) fmt ap ra = Some vs"
  shows "\<exists>m'. eluarpc_gen_write m p fmt ap = Some m'
    \<and> eluarpc_gen_read m' p fmt ra = Some (ELUARPC_OK, vs)
    \<and> mem_at m' (p + 10) ys"
proof -
  from assms have "eluarpc_gen_write m p fmt ap = Some (mem_write m p (rpc_packet ys))"
    by (intro gen_write_packet) auto
  moreover from assms(2) have at: "mem_at (mem_write m p (rpc_packet ys)) p (rpc_packet ys)"
    by (intro mem_at_write) simp
  moreover note gen_read_packet [OF at assms(1,4)] packet_parts(3) [OF at]
  ultimately show ?thesis by blast
qed

lemmas rpc_eval = rpc_body_def rpc_field_def rpc_out_def store_unless_null_def
  enc16_def enc32_def le16_def le32_def TYPE_INT_8_def TYPE_INT_16_def TYPE_INT_32_def TYPE_PTR_def
  TYPE_START_def TYPE_END_def TYPE_OP_ID_def TYPE_SMALL_PTR_def TYPE_PKT_SIZE_def
  ELUARPC_OP_RES_MOD_def

definition sample_mem :: mem where
  "sample_mem = mem_write (\<lambda>_. 0) 100 [65, 66, 67]"

theorem rpc_call_roundtrip_witness:
  "\<exists>m'. eluarpc_gen_write sample_mem 1000 ''oip'' [2, 5, 100, 3] = Some m'
    \<and> eluarpc_gen_read m' 1000 ''oip'' [Val 2, Ref, Ref, Ref]
        = Some (ELUARPC_OK, [R32 5, R32 1023, R32 3])
    \<and> mem_at m' (1000 + 10) [7, 2, 3, 5, 0, 0, 0, 4, 3, 3, 0, 0, 0, 65, 66, 67]"
proof (rule rpc_call_roundtrip)
  show "rpc_body sample_mem 1000 ''oip'' [2, 5, 100, 3]
      = Some [7, 2, 3, 5, 0, 0, 0, 4, 3, 3, 0, 0, 0, 65, 66, 67]"
    by (simp add: rpc_eval sample_mem_def)
  show "rpc_sources_apart 1000 ''oip'' [2, 5, 100, 3]
      (packet_len [7, 2, 3, 5, 0, 0, 0, 4, 3, 3, 0, 0, 0, 65, 66, 67])"
    by (simp add: packet_len_def rpc_sources_apart_def rpc_source_def rpc_eval apart_def off_from_def
        atLeast0LessThan lessThan_nat_numeral)
  show "rpc_outs (1000 + 10) ''oip'' [2, 5, 100, 3] [Val 2, Ref, Ref, Ref]
      = Some [R32 5, R32 1023, R32 3]"
    by (simp add: rpc_eval)
qed (simp add: packet_len_def)

text \<open>
  writing a packet touches the packet and nothing else: the bytes at \<open>p\<close> are the
  frame around the encoded fields with the size patched in, every address outside the packet
  keeps its value, and \<open>eluarpc_get_packet_size\<close> of it is the packet's length.
\<close>

lemma gen_write_frame:
  assumes "rpc_body m p fmt ap = Some ys" "packet_len ys < 65536"
    and "rpc_sources_apart p fmt ap (packet_len ys)"
  shows "\<exists>m'. eluarpc_gen_write m p fmt ap = Some m' \<and> mem_at m' p (rpc_packet ys)
    \<and> (\<forall>a. packet_len ys \<le> off_from p a \<longrightarrow> m' a = m a)
    \<and> (\<exists>n. eluarpc_get_packet_size m' p = (ELUARPC_OK, n) \<and> unat n = packet_len ys)"
proof -
  let ?m = "mem_write m p (rpc_packet ys)"
  from assms have "eluarpc_gen_write m p fmt ap = Some ?m"
    by (intro gen_write_packet) auto
  moreover from assms(2) have at: "mem_at ?m p (rpc_packet ys)"
    by (intro mem_at_write) simp
  moreover from assms(2) have "\<forall>a. packet_len ys \<le> off_from p a \<longrightarrow> ?m a = m a"
    by (simp add: mem_write_apply)
  moreover have "eluarpc_get_packet_size ?m p = (ELUARPC_OK, of_nat (packet_len ys))"
    using packet_parts(1) [OF at] eluarpc_read_u16_at [of ?m "p + 1" "of_nat (packet_len ys)" ELUARPC_OK]
    by (simp add: eluarpc_get_packet_size_def eluarpc_read_expect_at)
  moreover have "unat (of_nat (packet_len ys) :: u16) = packet_len ys"
    using assms(2) by (simp add: unat_of_nat_small)
  ultimately show ?thesis by blast
qed

theorem gen_write_frame_witness:
  "\<exists>m'. eluarpc_gen_write sample_mem 1000 ''ri'' [4, 7] = Some m'
    \<and> mem_at m' 1000 (rpc_packet [0x84, 3, 7, 0, 0, 0])
    \<and> (\<forall>a. packet_len [0x84, 3, 7, 0, 0, 0] \<le> off_from 1000 a \<longrightarrow> m' a = sample_mem a)
    \<and> (\<exists>n. eluarpc_get_packet_size m' 1000 = (ELUARPC_OK, n)
        \<and> unat n = packet_len [0x84, 3, 7, 0, 0, 0])"
proof (rule gen_write_frame)
  show "rpc_body sample_mem 1000 ''ri'' [4, 7] = Some [0x84, 3, 7, 0, 0, 0]"
    by (simp add: rpc_eval)
  show "rpc_sources_apart 1000 ''ri'' [4, 7] (packet_len [0x84, 3, 7, 0, 0, 0])"
    by (simp add: rpc_sources_apart_def rpc_source_def rpc_eval)
qed (simp add: packet_len_def)

text \<open>
  C26: the reader accepts only what it asked for. If \<open>eluarpc_gen_read\<close> reports success,
  the packet carries the start signature and, when the format begins with \<open>o\<close> or
  \<open>r\<close>, the operation id or the response byte that was expected: a reply to another
  operation or a damaged header is always reported, whatever the rest of the packet holds.
\<close>

theorem gen_read_accepts_only_expected:
  assumes "eluarpc_gen_read m p (c # fmt) (Val x # ap) = Some (ELUARPC_OK, vs)"
    and "c = CHR ''o'' \<or> c = CHR ''r''"
  shows "m (p + 4) = TYPE_START \<and> fst (eluarpc_read_u32 m (p + 5, ELUARPC_OK)) = PACKET_SIG
    \<and> (if c = CHR ''o'' then m (p + 10) = TYPE_OP_ID \<and> m (p + 11) = ucast x
       else m (p + 10) = ELUARPC_OP_RES_MOD OR ucast x)"
proof -
  obtain r' where r': "eluarpc_read_fmt m (c # fmt) (Val x # ap) (p + 10, ELUARPC_OK) = Some (vs, r')"
      "snd r' = ELUARPC_OK"
    and hdr: "m (p + 4) = TYPE_START" "fst (eluarpc_read_u32 m (p + 5, ELUARPC_OK)) = PACKET_SIG"
    using gen_read_ok_imp [OF assms(1)] by blast
  from r'(1) obtain ap1 vs1 r1 vs2
    where s: "eluarpc_read_spec m c (Val x # ap) (p + 10, ELUARPC_OK) = Some (ap1, vs1, r1)"
      and "eluarpc_read_fmt m fmt ap1 r1 = Some (vs2, r')"
    by (auto split: option.splits)
  with r'(2) have "snd r1 = ELUARPC_OK"
    using read_fmt_sticky by (cases "snd r1") fastforce+
  with s assms(2) hdr show ?thesis
    by (auto simp: eluarpc_read_spec_def eluarpc_expect_op_id_def eluarpc_read_expect_at get8_def
        rpc_fail_if_def add.assoc split: if_splits)
qed

definition sample_reply :: mem where
  "sample_reply = mem_write (\<lambda>_. 0) 0 (rpc_packet [0x84, 3, 7, 0, 0, 0])"

theorem gen_read_accepts_only_expected_witness:
  "eluarpc_gen_read sample_reply 0 ''ri'' [Val 4, Ref] = Some (ELUARPC_OK, [R32 7])
    \<and> sample_reply 4 = TYPE_START
    \<and> fst (eluarpc_read_u32 sample_reply (5, ELUARPC_OK)) = PACKET_SIG
    \<and> sample_reply 10 = 0x84"
proof -
  have "rpc_packet [0x84, 3, 7, 0, 0, 0] = [0xA5, 2, 22, 0, 5, 3, 0x84, 0xC2, 0xAF, 0x18,
      0x84, 3, 7, 0, 0, 0, 6, 3, 0x7B, 0x3D, 0x50, 0xE7]"
    by (simp add: rpc_packet_def rpc_eval packet_len_def PACKET_SIG_def)
  then have "mem_at sample_reply 0 (rpc_packet [0x84, 3, 7, 0, 0, 0])"
    unfolding sample_reply_def by (intro mem_at_write) simp
  moreover have "rpc_body (\<lambda>_. 0) 0 ''ri'' [4, 7] = Some [0x84, 3, 7, 0, 0, 0]"
    by (simp add: rpc_eval)
  moreover have "rpc_outs (0 + 10) ''ri'' [4, 7] [Val 4, Ref] = Some [R32 7]"
    by (simp add: rpc_eval)
  ultimately have "eluarpc_gen_read sample_reply 0 ''ri'' [Val 4, Ref] = Some (ELUARPC_OK, [R32 7])"
    by (rule gen_read_packet)
  then show ?thesis
    using gen_read_accepts_only_expected [of sample_reply 0 "CHR ''r''" "''i''" 4 "[Ref]" "[R32 7]"]
    by (simp add: ELUARPC_OP_RES_MOD_def)
qed

end
