(* ===== verification/RemoteFs.thy ===== *)
theory RemoteFs
  imports Eluarpc "HOL-Library.Monad_Syntax"
begin

text \<open>
  The messages of the remote file system, \<open>src/remotefs/remotefs.c\<close> with
  \<open>inc/remotefs/remotefs.h\<close>: for each of the eight operations the request and the response,
  written with \<open>eluarpc_gen_write\<close> and read with \<open>eluarpc_gen_read\<close>. A read function
  gives its status and the values it stores. For every message there is its body as a byte
  string, a lemma that the write function lays down that packet and one that the read function
  finds the values in it.
\<close>

section \<open>C strings in memory\<close>

text \<open>A string is read up to its terminator; a memory without one makes the loop run forever.\<close>

partial_function (option) c_str :: "mem \<Rightarrow> u32 \<Rightarrow> u8 list option" where
  "c_str m p =
     (if m p = 0 then Some [] else Option.bind (c_str m (p + 1)) (\<lambda>s. Some (m p # s)))"

definition c_strlen :: "mem \<Rightarrow> u32 \<Rightarrow> u32 option" where
  "c_strlen m p = map_option (\<lambda>s. of_nat (length s)) (c_str m p)"

lemma c_str_at: "mem_at m p (s @ [0]) \<Longrightarrow> 0 \<notin> set s \<Longrightarrow> c_str m p = Some s"
proof (induction s arbitrary: p)
  case Nil
  then show ?case by (simp add: c_str.simps)
next
  case (Cons x s)
  then show ?case by (subst c_str.simps) simp
qed

section \<open>Constants\<close>

definition RFS_OP_OPEN :: u32 where "RFS_OP_OPEN = 0x01"
definition RFS_OP_WRITE :: u32 where "RFS_OP_WRITE = 0x02"
definition RFS_OP_READ :: u32 where "RFS_OP_READ = 0x03"
definition RFS_OP_CLOSE :: u32 where "RFS_OP_CLOSE = 0x04"
definition RFS_OP_LSEEK :: u32 where "RFS_OP_LSEEK = 0x05"
definition RFS_OP_OPENDIR :: u32 where "RFS_OP_OPENDIR = 0x06"
definition RFS_OP_READDIR :: u32 where "RFS_OP_READDIR = 0x07"
definition RFS_OP_CLOSEDIR :: u32 where "RFS_OP_CLOSEDIR = 0x08"
definition RFS_OP_FIRST :: u32 where "RFS_OP_FIRST = RFS_OP_OPEN"
definition RFS_OP_LAST :: u32 where "RFS_OP_LAST = RFS_OP_CLOSEDIR"

lemmas rfs_ops = RFS_OP_OPEN_def RFS_OP_WRITE_def RFS_OP_READ_def RFS_OP_CLOSE_def
  RFS_OP_LSEEK_def RFS_OP_OPENDIR_def RFS_OP_READDIR_def RFS_OP_CLOSEDIR_def

definition RFS_OPEN_FLAG_APPEND :: u32 where "RFS_OPEN_FLAG_APPEND = 0x01"
definition RFS_OPEN_FLAG_CREAT :: u32 where "RFS_OPEN_FLAG_CREAT = 0x02"
definition RFS_OPEN_FLAG_EXCL :: u32 where "RFS_OPEN_FLAG_EXCL = 0x04"
definition RFS_OPEN_FLAG_TRUNC :: u32 where "RFS_OPEN_FLAG_TRUNC = 0x08"
definition RFS_OPEN_FLAG_SYNC :: u32 where "RFS_OPEN_FLAG_SYNC = 0x10"
definition RFS_OPEN_FLAG_RDONLY :: u32 where "RFS_OPEN_FLAG_RDONLY = 0x20"
definition RFS_OPEN_FLAG_WRONLY :: u32 where "RFS_OPEN_FLAG_WRONLY = 0x40"
definition RFS_OPEN_FLAG_RDWR :: u32 where "RFS_OPEN_FLAG_RDWR = 0x80"

definition RFS_LSEEK_SET :: u32 where "RFS_LSEEK_SET = 0x01"
definition RFS_LSEEK_CUR :: u32 where "RFS_LSEEK_CUR = 0x02"
definition RFS_LSEEK_END :: u32 where "RFS_LSEEK_END = 0x03"

text \<open>Maximum length of a file name in a remote directory entry.\<close>

definition RFS_MAX_FNAME_SIZE :: nat where "RFS_MAX_FNAME_SIZE = 31"

section \<open>Typed views of the values a reader stores\<close>

type_synonym rres = "(rpc_status \<times> rval list) option"

definition rd1 :: "rres \<Rightarrow> (rpc_status \<times> u32) option" where
  "rd1 r = (case r of Some (st, [R32 a]) \<Rightarrow> Some (st, a) | _ \<Rightarrow> None)"

definition rd2 :: "rres \<Rightarrow> (rpc_status \<times> u32 \<times> u32) option" where
  "rd2 r = (case r of Some (st, [R32 a, R32 b]) \<Rightarrow> Some (st, a, b) | _ \<Rightarrow> None)"

definition rd3 :: "rres \<Rightarrow> (rpc_status \<times> u32 \<times> u32 \<times> u32) option" where
  "rd3 r = (case r of Some (st, [R32 a, R32 b, R32 c]) \<Rightarrow> Some (st, a, b, c) | _ \<Rightarrow> None)"

section \<open>Operation: open\<close>

definition remotefs_open_write_response :: "mem \<Rightarrow> u32 \<Rightarrow> u32 \<Rightarrow> mem option" where
  "remotefs_open_write_response m p result = eluarpc_gen_write m p ''ri'' [RFS_OP_OPEN, result]"

definition remotefs_open_read_response :: "mem \<Rightarrow> u32 \<Rightarrow> (rpc_status \<times> u32) option" where
  "remotefs_open_read_response m p = rd1 (eluarpc_gen_read m p ''ri'' [Val RFS_OP_OPEN, Ref])"

definition remotefs_open_write_request :: "mem \<Rightarrow> u32 \<Rightarrow> u32 \<Rightarrow> u32 \<Rightarrow> u32 \<Rightarrow> mem option" where
  "remotefs_open_write_request m p pathname flags mode =
     do { n \<leftarrow> c_strlen m pathname;
          eluarpc_gen_write m p ''opii'' [RFS_OP_OPEN, pathname, n + 1, flags, mode] }"

definition remotefs_open_read_request :: "mem \<Rightarrow> u32 \<Rightarrow> (rpc_status \<times> u32 \<times> u32 \<times> u32) option" where
  "remotefs_open_read_request m p =
     rd3 (eluarpc_gen_read m p ''opii'' [Val RFS_OP_OPEN, Ref, Null, Ref, Ref])"

section \<open>Operation: write\<close>

definition remotefs_write_write_response :: "mem \<Rightarrow> u32 \<Rightarrow> u32 \<Rightarrow> mem option" where
  "remotefs_write_write_response m p result = eluarpc_gen_write m p ''rl'' [RFS_OP_WRITE, result]"

definition remotefs_write_read_response :: "mem \<Rightarrow> u32 \<Rightarrow> (rpc_status \<times> u32) option" where
  "remotefs_write_read_response m p = rd1 (eluarpc_gen_read m p ''rl'' [Val RFS_OP_WRITE, Ref])"

definition remotefs_write_write_request :: "mem \<Rightarrow> u32 \<Rightarrow> u32 \<Rightarrow> u32 \<Rightarrow> u32 \<Rightarrow> mem option" where
  "remotefs_write_write_request m p fd buf count =
     eluarpc_gen_write m p ''oip'' [RFS_OP_WRITE, fd, buf, count]"

definition remotefs_write_read_request :: "mem \<Rightarrow> u32 \<Rightarrow> (rpc_status \<times> u32 \<times> u32 \<times> u32) option" where
  "remotefs_write_read_request m p =
     rd3 (eluarpc_gen_read m p ''oip'' [Val RFS_OP_WRITE, Ref, Ref, Ref])"

section \<open>Operation: read\<close>

definition remotefs_read_write_response :: "mem \<Rightarrow> u32 \<Rightarrow> u32 \<Rightarrow> mem option" where
  "remotefs_read_write_response m p readbytes =
     eluarpc_gen_write m p ''rp'' [RFS_OP_READ, NULL, readbytes]"

definition remotefs_read_read_response :: "mem \<Rightarrow> u32 \<Rightarrow> (rpc_status \<times> u32 \<times> u32) option" where
  "remotefs_read_read_response m p = rd2 (eluarpc_gen_read m p ''rp'' [Val RFS_OP_READ, Ref, Ref])"

definition remotefs_read_write_request :: "mem \<Rightarrow> u32 \<Rightarrow> u32 \<Rightarrow> u32 \<Rightarrow> mem option" where
  "remotefs_read_write_request m p fd count = eluarpc_gen_write m p ''oil'' [RFS_OP_READ, fd, count]"

definition remotefs_read_read_request :: "mem \<Rightarrow> u32 \<Rightarrow> (rpc_status \<times> u32 \<times> u32) option" where
  "remotefs_read_read_request m p = rd2 (eluarpc_gen_read m p ''oil'' [Val RFS_OP_READ, Ref, Ref])"

section \<open>Operation: close\<close>

definition remotefs_close_write_response :: "mem \<Rightarrow> u32 \<Rightarrow> u32 \<Rightarrow> mem option" where
  "remotefs_close_write_response m p result = eluarpc_gen_write m p ''ri'' [RFS_OP_CLOSE, result]"

definition remotefs_close_read_response :: "mem \<Rightarrow> u32 \<Rightarrow> (rpc_status \<times> u32) option" where
  "remotefs_close_read_response m p = rd1 (eluarpc_gen_read m p ''ri'' [Val RFS_OP_CLOSE, Ref])"

definition remotefs_close_write_request :: "mem \<Rightarrow> u32 \<Rightarrow> u32 \<Rightarrow> mem option" where
  "remotefs_close_write_request m p fd = eluarpc_gen_write m p ''oi'' [RFS_OP_CLOSE, fd]"

definition remotefs_close_read_request :: "mem \<Rightarrow> u32 \<Rightarrow> (rpc_status \<times> u32) option" where
  "remotefs_close_read_request m p = rd1 (eluarpc_gen_read m p ''oi'' [Val RFS_OP_CLOSE, Ref])"

section \<open>Operation: lseek\<close>

definition remotefs_lseek_write_response :: "mem \<Rightarrow> u32 \<Rightarrow> u32 \<Rightarrow> mem option" where
  "remotefs_lseek_write_response m p result = eluarpc_gen_write m p ''rL'' [RFS_OP_LSEEK, result]"

definition remotefs_lseek_read_response :: "mem \<Rightarrow> u32 \<Rightarrow> (rpc_status \<times> u32) option" where
  "remotefs_lseek_read_response m p = rd1 (eluarpc_gen_read m p ''rL'' [Val RFS_OP_LSEEK, Ref])"

definition remotefs_lseek_write_request :: "mem \<Rightarrow> u32 \<Rightarrow> u32 \<Rightarrow> u32 \<Rightarrow> u32 \<Rightarrow> mem option" where
  "remotefs_lseek_write_request m p fd offset whence =
     eluarpc_gen_write m p ''oiLi'' [RFS_OP_LSEEK, fd, offset, whence]"

definition remotefs_lseek_read_request :: "mem \<Rightarrow> u32 \<Rightarrow> (rpc_status \<times> u32 \<times> u32 \<times> u32) option" where
  "remotefs_lseek_read_request m p =
     rd3 (eluarpc_gen_read m p ''oiLi'' [Val RFS_OP_LSEEK, Ref, Ref, Ref])"

section \<open>Operation: opendir\<close>

definition remotefs_opendir_write_response :: "mem \<Rightarrow> u32 \<Rightarrow> u32 \<Rightarrow> mem option" where
  "remotefs_opendir_write_response m p d = eluarpc_gen_write m p ''rl'' [RFS_OP_OPENDIR, d]"

definition remotefs_opendir_read_response :: "mem \<Rightarrow> u32 \<Rightarrow> (rpc_status \<times> u32) option" where
  "remotefs_opendir_read_response m p = rd1 (eluarpc_gen_read m p ''rl'' [Val RFS_OP_OPENDIR, Ref])"

definition remotefs_opendir_write_request :: "mem \<Rightarrow> u32 \<Rightarrow> u32 \<Rightarrow> mem option" where
  "remotefs_opendir_write_request m p name =
     do { n \<leftarrow> c_strlen m name;
          eluarpc_gen_write m p ''op'' [RFS_OP_OPENDIR, name, n + 1] }"

definition remotefs_opendir_read_request :: "mem \<Rightarrow> u32 \<Rightarrow> (rpc_status \<times> u32) option" where
  "remotefs_opendir_read_request m p = rd1 (eluarpc_gen_read m p ''op'' [Val RFS_OP_OPENDIR, Ref, Null])"

section \<open>Operation: readdir\<close>

definition remotefs_readdir_write_response :: "mem \<Rightarrow> u32 \<Rightarrow> u32 \<Rightarrow> u32 \<Rightarrow> u32 \<Rightarrow> mem option" where
  "remotefs_readdir_write_response m p name fsize ftime =
     do { n \<leftarrow> (if name \<noteq> NULL then map_option (\<lambda>n. n + 1) (c_strlen m name) else Some 0);
          eluarpc_gen_write m p ''rpll'' [RFS_OP_READDIR, name, n, fsize, ftime] }"

definition remotefs_readdir_read_response :: "mem \<Rightarrow> u32 \<Rightarrow> (rpc_status \<times> u32 \<times> u32 \<times> u32) option" where
  "remotefs_readdir_read_response m p =
     rd3 (eluarpc_gen_read m p ''rpll'' [Val RFS_OP_READDIR, Ref, Null, Ref, Ref])"

definition remotefs_readdir_write_request :: "mem \<Rightarrow> u32 \<Rightarrow> u32 \<Rightarrow> mem option" where
  "remotefs_readdir_write_request m p d = eluarpc_gen_write m p ''ol'' [RFS_OP_READDIR, d]"

definition remotefs_readdir_read_request :: "mem \<Rightarrow> u32 \<Rightarrow> (rpc_status \<times> u32) option" where
  "remotefs_readdir_read_request m p = rd1 (eluarpc_gen_read m p ''ol'' [Val RFS_OP_READDIR, Ref])"

section \<open>Operation: closedir\<close>

definition remotefs_closedir_write_response :: "mem \<Rightarrow> u32 \<Rightarrow> u32 \<Rightarrow> mem option" where
  "remotefs_closedir_write_response m p d = eluarpc_gen_write m p ''ri'' [RFS_OP_CLOSEDIR, d]"

definition remotefs_closedir_read_response :: "mem \<Rightarrow> u32 \<Rightarrow> (rpc_status \<times> u32) option" where
  "remotefs_closedir_read_response m p = rd1 (eluarpc_gen_read m p ''ri'' [Val RFS_OP_CLOSEDIR, Ref])"

definition remotefs_closedir_write_request :: "mem \<Rightarrow> u32 \<Rightarrow> u32 \<Rightarrow> mem option" where
  "remotefs_closedir_write_request m p d = eluarpc_gen_write m p ''ol'' [RFS_OP_CLOSEDIR, d]"

definition remotefs_closedir_read_request :: "mem \<Rightarrow> u32 \<Rightarrow> (rpc_status \<times> u32) option" where
  "remotefs_closedir_read_request m p = rd1 (eluarpc_gen_read m p ''ol'' [Val RFS_OP_CLOSEDIR, Ref])"

section \<open>Message bodies\<close>

definition op_req :: "u32 \<Rightarrow> u8 list" where "op_req i = [TYPE_OP_ID, ucast i]"
definition op_res :: "u32 \<Rightarrow> u8 list" where "op_res i = [ELUARPC_OP_RES_MOD OR ucast i]"
definition enc_ptr :: "u8 list \<Rightarrow> u8 list" where "enc_ptr xs = TYPE_PTR # enc32 (of_nat (length xs)) @ xs"

named_theorems msg_write "packets the write functions lay down"
named_theorems msg_read "values the read functions find"

text \<open>Messages without a pointer field, and the response of a read, whose payload is in place.\<close>

lemma msg_write_ints [msg_write]:
  shows "remotefs_open_write_response m p r = Some (mem_write m p (rpc_packet (op_res RFS_OP_OPEN @ enc32 r)))"
    and "remotefs_write_write_response m p r = Some (mem_write m p (rpc_packet (op_res RFS_OP_WRITE @ enc32 r)))"
    and "remotefs_close_write_response m p r = Some (mem_write m p (rpc_packet (op_res RFS_OP_CLOSE @ enc32 r)))"
    and "remotefs_lseek_write_response m p r = Some (mem_write m p (rpc_packet (op_res RFS_OP_LSEEK @ enc32 r)))"
    and "remotefs_opendir_write_response m p r = Some (mem_write m p (rpc_packet (op_res RFS_OP_OPENDIR @ enc32 r)))"
    and "remotefs_closedir_write_response m p r = Some (mem_write m p (rpc_packet (op_res RFS_OP_CLOSEDIR @ enc32 r)))"
    and "remotefs_read_write_request m p fd n = Some (mem_write m p (rpc_packet (op_req RFS_OP_READ @ enc32 fd @ enc32 n)))"
    and "remotefs_close_write_request m p fd = Some (mem_write m p (rpc_packet (op_req RFS_OP_CLOSE @ enc32 fd)))"
    and "remotefs_lseek_write_request m p fd off w =
      Some (mem_write m p (rpc_packet (op_req RFS_OP_LSEEK @ enc32 fd @ enc32 off @ enc32 w)))"
    and "remotefs_readdir_write_request m p d = Some (mem_write m p (rpc_packet (op_req RFS_OP_READDIR @ enc32 d)))"
    and "remotefs_closedir_write_request m p d = Some (mem_write m p (rpc_packet (op_req RFS_OP_CLOSEDIR @ enc32 d)))"
  by (simp_all add: remotefs_open_write_response_def remotefs_write_write_response_def
      remotefs_close_write_response_def remotefs_lseek_write_response_def
      remotefs_opendir_write_response_def remotefs_closedir_write_response_def
      remotefs_read_write_request_def remotefs_close_write_request_def remotefs_lseek_write_request_def
      remotefs_readdir_write_request_def remotefs_closedir_write_request_def)
    (rule gen_write_packet; simp add: rpc_body_def rpc_field_def op_req_def op_res_def packet_len_def
      rpc_sources_apart_def rpc_source_def)+

text \<open>The fields of the messages one by one.\<close>

lemma mem_at_readI: "mem_at m a xs \<Longrightarrow> length xs = n \<Longrightarrow> mem_read m a n = xs"
  by (auto simp: mem_at_read)

lemma msg_field_int [simp]:
  "rpc_field m q CHR ''o'' (x # ap) = Some (ap, op_req x)"
  "rpc_field m q CHR ''r'' (x # ap) = Some (ap, op_res x)"
  "rpc_field m q CHR ''i'' (x # ap) = Some (ap, enc32 x)"
  "rpc_field m q CHR ''l'' (x # ap) = Some (ap, enc32 x)"
  "rpc_field m q CHR ''L'' (x # ap) = Some (ap, enc32 x)"
  by (simp_all add: rpc_field_def op_req_def op_res_def)

lemma msg_field_ptr:
  assumes "mem_at m (if a = NULL then q + 6 else a) xs" "length xs < 4294967296" "n = of_nat (length xs)"
  shows "rpc_field m q CHR ''p'' (a # n # ap) = Some (ap, enc_ptr xs)"
  using assms mem_at_readI [OF assms(1)]
  by (simp add: rpc_field_def enc_ptr_def unat_of_nat_small)

lemma msg_source [simp]:
  "rpc_source CHR ''o'' ap = []" "rpc_source CHR ''r'' ap = []" "rpc_source CHR ''i'' ap = []"
  "rpc_source CHR ''l'' ap = []" "rpc_source CHR ''L'' ap = []"
  "rpc_source CHR ''p'' (a # n # ap) = (if a = NULL then [] else [(a, unat n)])"
  by (auto simp: rpc_source_def split: list.splits)

lemma msg_field_ptr_rest: "\<exists>xs. rpc_field m q CHR ''p'' (a # n # ap) = Some (ap, xs)"
  by (simp add: rpc_field_def)

lemma length_enc_ptr [simp]: "length (enc_ptr xs) = 6 + length xs"
  by (simp add: enc_ptr_def)

lemma length_op [simp]: "length (op_req i) = 2" "length (op_res i) = 1"
  by (simp_all add: op_req_def op_res_def)

lemma msg_sources_ptr [simp]:
  "rpc_sources (CHR ''p'' # fmt) (a # n # ap) = (if a = NULL then [] else [(a, unat n)]) @ rpc_sources fmt ap"
  using msg_field_ptr_rest [of "\<lambda>_. 0" 0 a n ap] by auto

lemma rpc_sources_apartI:
  assumes "\<forall>x \<in> set (rpc_sources fmt ap). x = (a, n)" "apart a n (p + 4) k" "j \<le> k"
  shows "rpc_sources_apart p fmt ap j"
  using assms by (auto simp: rpc_sources_apart_def elim: apart_mono)

text \<open>A pointer argument: the bytes at \<open>a\<close>, or in place when \<open>a\<close> is \<open>NULL\<close>.\<close>

definition ptr_arg :: "mem \<Rightarrow> u32 \<Rightarrow> u32 \<Rightarrow> u32 \<Rightarrow> u8 list \<Rightarrow> bool" where
  "ptr_arg m p q a xs \<longleftrightarrow> length xs < 65000
     \<and> (if a = NULL then mem_at m (q + 6) xs
        else mem_at m a xs \<and> apart a (length xs) (p + 4) (40 + length xs))"

lemma ptr_arg_field:
  assumes "ptr_arg m p q a xs" "n = of_nat (length xs)"
  shows "rpc_field m q CHR ''p'' (a # n # ap) = Some (ap, enc_ptr xs)"
  using assms by (intro msg_field_ptr) (auto simp: ptr_arg_def split: if_splits)

lemma ptr_arg_apart:
  assumes "ptr_arg m p q a xs" "n = of_nat (length xs)" "j \<le> 40 + length xs"
    and "set (rpc_sources fmt ap) \<subseteq> (if a = NULL then {} else {(a, unat (n :: u32))})"
  shows "rpc_sources_apart p fmt ap j"
proof (cases "a = NULL")
  case True
  with assms(4) show ?thesis by (simp add: rpc_sources_apart_def)
next
  case False
  with assms(1,2) have "unat n = length xs" "apart a (length xs) (p + 4) (40 + length xs)"
    by (auto simp: ptr_arg_def unat_of_nat_small)
  with assms(3,4) False show ?thesis
    by (intro rpc_sources_apartI [where a = a and n = "length xs" and k = "40 + length xs"]) auto
qed

lemma write_request_packet:
  assumes "ptr_arg m p (p + 17) a xs" "n = of_nat (length xs)"
  shows "eluarpc_gen_write m p ''oip'' [RFS_OP_WRITE, fd, a, n] = Some (mem_write m p (rpc_packet (op_req RFS_OP_WRITE @ enc32 fd @ enc_ptr xs)))"
proof (rule gen_write_packet)
  show "rpc_body m p ''oip'' [RFS_OP_WRITE, fd, a, n] = Some (op_req RFS_OP_WRITE @ enc32 fd @ enc_ptr xs)"
    using ptr_arg_field [OF assms] by (simp add: rpc_body_def add.assoc)
  show "packet_len (op_req RFS_OP_WRITE @ enc32 fd @ enc_ptr xs) \<le> 4294967296"
    using assms(1) by (simp add: packet_len_def ptr_arg_def)
  show "rpc_sources_apart p ''oip'' [RFS_OP_WRITE, fd, a, n] (packet_len (op_req RFS_OP_WRITE @ enc32 fd @ enc_ptr xs))"
    by (rule ptr_arg_apart [OF assms]) (simp_all add: packet_len_def)
qed

lemma open_request_packet:
  assumes "ptr_arg m p (p + 12) a xs" "n = of_nat (length xs)"
  shows "eluarpc_gen_write m p ''opii'' [RFS_OP_OPEN, a, n, flags, mode] = Some (mem_write m p (rpc_packet (op_req RFS_OP_OPEN @ enc_ptr xs @ enc32 flags @ enc32 mode)))"
proof (rule gen_write_packet)
  show "rpc_body m p ''opii'' [RFS_OP_OPEN, a, n, flags, mode] = Some (op_req RFS_OP_OPEN @ enc_ptr xs @ enc32 flags @ enc32 mode)"
    using ptr_arg_field [OF assms] by (simp add: rpc_body_def add.assoc)
  show "packet_len (op_req RFS_OP_OPEN @ enc_ptr xs @ enc32 flags @ enc32 mode) \<le> 4294967296"
    using assms(1) by (simp add: packet_len_def ptr_arg_def)
  show "rpc_sources_apart p ''opii'' [RFS_OP_OPEN, a, n, flags, mode] (packet_len (op_req RFS_OP_OPEN @ enc_ptr xs @ enc32 flags @ enc32 mode))"
    by (rule ptr_arg_apart [OF assms]) (simp_all add: packet_len_def)
qed

lemma opendir_request_packet:
  assumes "ptr_arg m p (p + 12) a xs" "n = of_nat (length xs)"
  shows "eluarpc_gen_write m p ''op'' [RFS_OP_OPENDIR, a, n] = Some (mem_write m p (rpc_packet (op_req RFS_OP_OPENDIR @ enc_ptr xs)))"
proof (rule gen_write_packet)
  show "rpc_body m p ''op'' [RFS_OP_OPENDIR, a, n] = Some (op_req RFS_OP_OPENDIR @ enc_ptr xs)"
    using ptr_arg_field [OF assms] by (simp add: rpc_body_def add.assoc)
  show "packet_len (op_req RFS_OP_OPENDIR @ enc_ptr xs) \<le> 4294967296"
    using assms(1) by (simp add: packet_len_def ptr_arg_def)
  show "rpc_sources_apart p ''op'' [RFS_OP_OPENDIR, a, n] (packet_len (op_req RFS_OP_OPENDIR @ enc_ptr xs))"
    by (rule ptr_arg_apart [OF assms]) (simp_all add: packet_len_def)
qed

lemma read_response_packet:
  assumes "ptr_arg m p (p + 11) a xs" "n = of_nat (length xs)"
  shows "eluarpc_gen_write m p ''rp'' [RFS_OP_READ, a, n] = Some (mem_write m p (rpc_packet (op_res RFS_OP_READ @ enc_ptr xs)))"
proof (rule gen_write_packet)
  show "rpc_body m p ''rp'' [RFS_OP_READ, a, n] = Some (op_res RFS_OP_READ @ enc_ptr xs)"
    using ptr_arg_field [OF assms] by (simp add: rpc_body_def add.assoc)
  show "packet_len (op_res RFS_OP_READ @ enc_ptr xs) \<le> 4294967296"
    using assms(1) by (simp add: packet_len_def ptr_arg_def)
  show "rpc_sources_apart p ''rp'' [RFS_OP_READ, a, n] (packet_len (op_res RFS_OP_READ @ enc_ptr xs))"
    by (rule ptr_arg_apart [OF assms]) (simp_all add: packet_len_def)
qed

lemma readdir_response_packet:
  assumes "ptr_arg m p (p + 11) a xs" "n = of_nat (length xs)"
  shows "eluarpc_gen_write m p ''rpll'' [RFS_OP_READDIR, a, n, fsize, ftime] = Some (mem_write m p (rpc_packet (op_res RFS_OP_READDIR @ enc_ptr xs @ enc32 fsize @ enc32 ftime)))"
proof (rule gen_write_packet)
  show "rpc_body m p ''rpll'' [RFS_OP_READDIR, a, n, fsize, ftime] = Some (op_res RFS_OP_READDIR @ enc_ptr xs @ enc32 fsize @ enc32 ftime)"
    using ptr_arg_field [OF assms] by (simp add: rpc_body_def add.assoc)
  show "packet_len (op_res RFS_OP_READDIR @ enc_ptr xs @ enc32 fsize @ enc32 ftime) \<le> 4294967296"
    using assms(1) by (simp add: packet_len_def ptr_arg_def)
  show "rpc_sources_apart p ''rpll'' [RFS_OP_READDIR, a, n, fsize, ftime] (packet_len (op_res RFS_OP_READDIR @ enc_ptr xs @ enc32 fsize @ enc32 ftime))"
    by (rule ptr_arg_apart [OF assms]) (simp_all add: packet_len_def)
qed

text \<open>The write functions with a pointer argument.\<close>

lemma c_strlen_at:
  "mem_at m a (s @ [0]) \<Longrightarrow> 0 \<notin> set s \<Longrightarrow> c_strlen m a = Some (of_nat (length s))"
  by (simp add: c_strlen_def c_str_at)

lemma ptr_arg_at: "ptr_arg m p q a xs \<Longrightarrow> a \<noteq> NULL \<Longrightarrow> mem_at m a xs"
  by (simp add: ptr_arg_def)

lemma msg_write_ptrs [msg_write]:
  shows "ptr_arg m p (p + 17) buf xs \<Longrightarrow> remotefs_write_write_request m p fd buf (of_nat (length xs)) =
      Some (mem_write m p (rpc_packet (op_req RFS_OP_WRITE @ enc32 fd @ enc_ptr xs)))"
    and "mem_at m (p + 17) xs \<Longrightarrow> length xs < 65000 \<Longrightarrow>
      remotefs_read_write_response m p (of_nat (length xs)) =
      Some (mem_write m p (rpc_packet (op_res RFS_OP_READ @ enc_ptr xs)))"
    and "ptr_arg m p (p + 12) a (s @ [0]) \<Longrightarrow> a \<noteq> NULL \<Longrightarrow> 0 \<notin> set s \<Longrightarrow>
      remotefs_open_write_request m p a flags mode =
      Some (mem_write m p (rpc_packet (op_req RFS_OP_OPEN @ enc_ptr (s @ [0]) @ enc32 flags @ enc32 mode)))"
    and "ptr_arg m p (p + 12) a (s @ [0]) \<Longrightarrow> a \<noteq> NULL \<Longrightarrow> 0 \<notin> set s \<Longrightarrow>
      remotefs_opendir_write_request m p a =
      Some (mem_write m p (rpc_packet (op_req RFS_OP_OPENDIR @ enc_ptr (s @ [0]))))"
    and "ptr_arg m p (p + 11) a (s @ [0]) \<Longrightarrow> a \<noteq> NULL \<Longrightarrow> 0 \<notin> set s \<Longrightarrow>
      remotefs_readdir_write_response m p a fsize ftime =
      Some (mem_write m p (rpc_packet (op_res RFS_OP_READDIR @ enc_ptr (s @ [0]) @ enc32 fsize @ enc32 ftime)))"
    and "remotefs_readdir_write_response m p NULL fsize ftime =
      Some (mem_write m p (rpc_packet (op_res RFS_OP_READDIR @ enc_ptr [] @ enc32 fsize @ enc32 ftime)))"
proof -
  have n: "of_nat (length s) + 1 = (of_nat (length (s @ [0 :: u8])) :: u32)" for s :: "u8 list" by simp
  show "ptr_arg m p (p + 17) buf xs \<Longrightarrow> remotefs_write_write_request m p fd buf (of_nat (length xs)) =
      Some (mem_write m p (rpc_packet (op_req RFS_OP_WRITE @ enc32 fd @ enc_ptr xs)))"
    by (simp add: remotefs_write_write_request_def write_request_packet)
  show "mem_at m (p + 17) xs \<Longrightarrow> length xs < 65000 \<Longrightarrow>
      remotefs_read_write_response m p (of_nat (length xs)) =
      Some (mem_write m p (rpc_packet (op_res RFS_OP_READ @ enc_ptr xs)))"
    by (simp add: remotefs_read_write_response_def read_response_packet ptr_arg_def add.assoc)
  show "ptr_arg m p (p + 12) a (s @ [0]) \<Longrightarrow> a \<noteq> NULL \<Longrightarrow> 0 \<notin> set s \<Longrightarrow>
      remotefs_open_write_request m p a flags mode =
      Some (mem_write m p (rpc_packet (op_req RFS_OP_OPEN @ enc_ptr (s @ [0]) @ enc32 flags @ enc32 mode)))"
    using c_strlen_at [OF ptr_arg_at [of m p "p + 12" a "s @ [0]"]]
    by (simp add: remotefs_open_write_request_def n open_request_packet del: length_append)
  show "ptr_arg m p (p + 12) a (s @ [0]) \<Longrightarrow> a \<noteq> NULL \<Longrightarrow> 0 \<notin> set s \<Longrightarrow>
      remotefs_opendir_write_request m p a =
      Some (mem_write m p (rpc_packet (op_req RFS_OP_OPENDIR @ enc_ptr (s @ [0]))))"
    using c_strlen_at [OF ptr_arg_at [of m p "p + 12" a "s @ [0]"]]
    by (simp add: remotefs_opendir_write_request_def n opendir_request_packet del: length_append)
  show "ptr_arg m p (p + 11) a (s @ [0]) \<Longrightarrow> a \<noteq> NULL \<Longrightarrow> 0 \<notin> set s \<Longrightarrow>
      remotefs_readdir_write_response m p a fsize ftime =
      Some (mem_write m p (rpc_packet (op_res RFS_OP_READDIR @ enc_ptr (s @ [0]) @ enc32 fsize @ enc32 ftime)))"
    using c_strlen_at [OF ptr_arg_at [of m p "p + 11" a "s @ [0]"]]
    by (simp add: remotefs_readdir_write_response_def n readdir_response_packet del: length_append)
  show "remotefs_readdir_write_response m p NULL fsize ftime =
      Some (mem_write m p (rpc_packet (op_res RFS_OP_READDIR @ enc_ptr [] @ enc32 fsize @ enc32 ftime)))"
    by (simp add: remotefs_readdir_write_response_def readdir_response_packet ptr_arg_def)
qed

text \<open>The read functions on their packets.\<close>

lemma msg_out [simp]:
  "rpc_out q CHR ''o'' (x # ap) (Val x # ra) = Some (ra, [])"
  "rpc_out q CHR ''r'' (x # ap) (Val x # ra) = Some (ra, [])"
  "rpc_out q CHR ''i'' (x # ap) (Ref # ra) = Some (ra, [R32 x])"
  "rpc_out q CHR ''l'' (x # ap) (Ref # ra) = Some (ra, [R32 x])"
  "rpc_out q CHR ''L'' (x # ap) (Ref # ra) = Some (ra, [R32 x])"
  "rpc_out q CHR ''p'' (a # n # ap) (Ref # l # ra) =
     Some (ra, R32 (if n = 0 then NULL else q + 6) # store_unless_null l (R32 n))"
  by (simp_all add: rpc_out_def)

lemma store_unless_null_simps [simp]:
  "store_unless_null Null v = []" "store_unless_null Ref v = [v]" "store_unless_null (Val x) v = [v]"
  by (simp_all add: store_unless_null_def)

lemma ptr_field_in_packet:
  assumes "length xs < 4294967296"
  shows "\<exists>m. rpc_field m q CHR ''p'' (NULL # of_nat (length xs) # ap) = Some (ap, enc_ptr xs)"
  using assms mem_at_write [of xs "\<lambda>_. 0" "q + 6"]
  by (intro exI [of _ "mem_write (\<lambda>_. 0) (q + 6) xs"] msg_field_ptr) simp_all

lemma ptr_field_rest_numeral [simp]:
  "rpc_field (\<lambda>_. 0) q CHR ''p'' (a # n # ap) = Some (ap, enc_ptr (mem_read (\<lambda>_. 0) 0 (unat n)))"
proof -
  have "mem_read (\<lambda>_. 0) p n = replicate n 0" for p n by (induction n arbitrary: p) auto
  moreover have "of_nat (unat n) = n" by simp
  ultimately show ?thesis by (simp add: rpc_field_def enc_ptr_def)
qed

lemma remotefs_open_read_response_packet [msg_read]:
  "mem_at m p (rpc_packet (op_res RFS_OP_OPEN @ enc32 r))
    \<Longrightarrow> remotefs_open_read_response m p = Some (ELUARPC_OK, r)"
  unfolding remotefs_open_read_response_def
  by (subst gen_read_packet [of m p "op_res RFS_OP_OPEN @ enc32 r" "\<lambda>_. 0" "''ri''" "[RFS_OP_OPEN, r]" _
        "[R32 r]"])
    (simp_all add: rpc_body_def rd1_def rd2_def rd3_def)

lemma remotefs_write_read_response_packet [msg_read]:
  "mem_at m p (rpc_packet (op_res RFS_OP_WRITE @ enc32 r))
    \<Longrightarrow> remotefs_write_read_response m p = Some (ELUARPC_OK, r)"
  unfolding remotefs_write_read_response_def
  by (subst gen_read_packet [of m p "op_res RFS_OP_WRITE @ enc32 r" "\<lambda>_. 0" "''rl''" "[RFS_OP_WRITE, r]" _
        "[R32 r]"])
    (simp_all add: rpc_body_def rd1_def rd2_def rd3_def)

lemma remotefs_close_read_response_packet [msg_read]:
  "mem_at m p (rpc_packet (op_res RFS_OP_CLOSE @ enc32 r))
    \<Longrightarrow> remotefs_close_read_response m p = Some (ELUARPC_OK, r)"
  unfolding remotefs_close_read_response_def
  by (subst gen_read_packet [of m p "op_res RFS_OP_CLOSE @ enc32 r" "\<lambda>_. 0" "''ri''" "[RFS_OP_CLOSE, r]" _
        "[R32 r]"])
    (simp_all add: rpc_body_def rd1_def rd2_def rd3_def)

lemma remotefs_lseek_read_response_packet [msg_read]:
  "mem_at m p (rpc_packet (op_res RFS_OP_LSEEK @ enc32 r))
    \<Longrightarrow> remotefs_lseek_read_response m p = Some (ELUARPC_OK, r)"
  unfolding remotefs_lseek_read_response_def
  by (subst gen_read_packet [of m p "op_res RFS_OP_LSEEK @ enc32 r" "\<lambda>_. 0" "''rL''" "[RFS_OP_LSEEK, r]" _
        "[R32 r]"])
    (simp_all add: rpc_body_def rd1_def rd2_def rd3_def)

lemma remotefs_opendir_read_response_packet [msg_read]:
  "mem_at m p (rpc_packet (op_res RFS_OP_OPENDIR @ enc32 r))
    \<Longrightarrow> remotefs_opendir_read_response m p = Some (ELUARPC_OK, r)"
  unfolding remotefs_opendir_read_response_def
  by (subst gen_read_packet [of m p "op_res RFS_OP_OPENDIR @ enc32 r" "\<lambda>_. 0" "''rl''" "[RFS_OP_OPENDIR, r]" _
        "[R32 r]"])
    (simp_all add: rpc_body_def rd1_def rd2_def rd3_def)

lemma remotefs_closedir_read_response_packet [msg_read]:
  "mem_at m p (rpc_packet (op_res RFS_OP_CLOSEDIR @ enc32 r))
    \<Longrightarrow> remotefs_closedir_read_response m p = Some (ELUARPC_OK, r)"
  unfolding remotefs_closedir_read_response_def
  by (subst gen_read_packet [of m p "op_res RFS_OP_CLOSEDIR @ enc32 r" "\<lambda>_. 0" "''ri''" "[RFS_OP_CLOSEDIR, r]" _
        "[R32 r]"])
    (simp_all add: rpc_body_def rd1_def rd2_def rd3_def)

lemma remotefs_read_read_request_packet [msg_read]:
  "mem_at m p (rpc_packet (op_req RFS_OP_READ @ enc32 fd @ enc32 n))
    \<Longrightarrow> remotefs_read_read_request m p = Some (ELUARPC_OK, fd, n)"
  unfolding remotefs_read_read_request_def
  by (subst gen_read_packet [of m p "op_req RFS_OP_READ @ enc32 fd @ enc32 n" "\<lambda>_. 0" "''oil''" "[RFS_OP_READ, fd, n]" _
        "[R32 fd, R32 n]"])
    (simp_all add: rpc_body_def rd1_def rd2_def rd3_def)

lemma remotefs_close_read_request_packet [msg_read]:
  "mem_at m p (rpc_packet (op_req RFS_OP_CLOSE @ enc32 fd))
    \<Longrightarrow> remotefs_close_read_request m p = Some (ELUARPC_OK, fd)"
  unfolding remotefs_close_read_request_def
  by (subst gen_read_packet [of m p "op_req RFS_OP_CLOSE @ enc32 fd" "\<lambda>_. 0" "''oi''" "[RFS_OP_CLOSE, fd]" _
        "[R32 fd]"])
    (simp_all add: rpc_body_def rd1_def rd2_def rd3_def)

lemma remotefs_lseek_read_request_packet [msg_read]:
  "mem_at m p (rpc_packet (op_req RFS_OP_LSEEK @ enc32 fd @ enc32 off @ enc32 w))
    \<Longrightarrow> remotefs_lseek_read_request m p = Some (ELUARPC_OK, fd, off, w)"
  unfolding remotefs_lseek_read_request_def
  by (subst gen_read_packet [of m p "op_req RFS_OP_LSEEK @ enc32 fd @ enc32 off @ enc32 w" "\<lambda>_. 0" "''oiLi''" "[RFS_OP_LSEEK, fd, off, w]" _
        "[R32 fd, R32 off, R32 w]"])
    (simp_all add: rpc_body_def rd1_def rd2_def rd3_def)

lemma remotefs_readdir_read_request_packet [msg_read]:
  "mem_at m p (rpc_packet (op_req RFS_OP_READDIR @ enc32 d))
    \<Longrightarrow> remotefs_readdir_read_request m p = Some (ELUARPC_OK, d)"
  unfolding remotefs_readdir_read_request_def
  by (subst gen_read_packet [of m p "op_req RFS_OP_READDIR @ enc32 d" "\<lambda>_. 0" "''ol''" "[RFS_OP_READDIR, d]" _
        "[R32 d]"])
    (simp_all add: rpc_body_def rd1_def rd2_def rd3_def)

lemma remotefs_closedir_read_request_packet [msg_read]:
  "mem_at m p (rpc_packet (op_req RFS_OP_CLOSEDIR @ enc32 d))
    \<Longrightarrow> remotefs_closedir_read_request m p = Some (ELUARPC_OK, d)"
  unfolding remotefs_closedir_read_request_def
  by (subst gen_read_packet [of m p "op_req RFS_OP_CLOSEDIR @ enc32 d" "\<lambda>_. 0" "''ol''" "[RFS_OP_CLOSEDIR, d]" _
        "[R32 d]"])
    (simp_all add: rpc_body_def rd1_def rd2_def rd3_def)

lemma of_nat_eq_0_small: "length xs < 4294967296 \<Longrightarrow> (of_nat (length xs) :: u32) = 0 \<longleftrightarrow> xs = []"
  using unat_of_nat_small [of "length xs", where 'a=32] by (auto simp: unat_eq_0 [symmetric])

definition in_packet :: "u32 \<Rightarrow> u8 list \<Rightarrow> u32" where
  "in_packet q xs = (if xs = [] then NULL else q)"

lemma remotefs_open_read_request_packet [msg_read]:
  assumes "mem_at m p (rpc_packet (op_req RFS_OP_OPEN @ enc_ptr xs @ enc32 flags @ enc32 mode))" "length xs < 4294967296"
  shows "remotefs_open_read_request m p = Some (ELUARPC_OK, in_packet (p + 18) xs, flags, mode)"
proof -
  obtain m0 where "rpc_field m0 (p + 12) CHR ''p'' (NULL # of_nat (length xs) # [flags, mode]) = Some ([flags, mode], enc_ptr xs)"
    using ptr_field_in_packet [OF assms(2)] by blast
  then show ?thesis
    unfolding remotefs_open_read_request_def
    using assms gen_read_packet [OF assms(1), of m0 "''opii''" "[RFS_OP_OPEN, NULL, of_nat (length xs), flags, mode]"]
    by (simp add: rpc_body_def rd1_def rd2_def rd3_def add.assoc in_packet_def of_nat_eq_0_small)
qed

lemma remotefs_write_read_request_packet [msg_read]:
  assumes "mem_at m p (rpc_packet (op_req RFS_OP_WRITE @ enc32 fd @ enc_ptr xs))" "length xs < 4294967296"
  shows "remotefs_write_read_request m p = Some (ELUARPC_OK, fd, in_packet (p + 23) xs, of_nat (length xs))"
proof -
  obtain m0 where "rpc_field m0 (p + 17) CHR ''p'' (NULL # of_nat (length xs) # []) = Some ([], enc_ptr xs)"
    using ptr_field_in_packet [OF assms(2)] by blast
  then show ?thesis
    unfolding remotefs_write_read_request_def
    using assms gen_read_packet [OF assms(1), of m0 "''oip''" "[RFS_OP_WRITE, fd, NULL, of_nat (length xs)]"]
    by (simp add: rpc_body_def rd1_def rd2_def rd3_def add.assoc in_packet_def of_nat_eq_0_small)
qed

lemma remotefs_read_read_response_packet [msg_read]:
  assumes "mem_at m p (rpc_packet (op_res RFS_OP_READ @ enc_ptr xs))" "length xs < 4294967296"
  shows "remotefs_read_read_response m p = Some (ELUARPC_OK, in_packet (p + 17) xs, of_nat (length xs))"
proof -
  obtain m0 where "rpc_field m0 (p + 11) CHR ''p'' (NULL # of_nat (length xs) # []) = Some ([], enc_ptr xs)"
    using ptr_field_in_packet [OF assms(2)] by blast
  then show ?thesis
    unfolding remotefs_read_read_response_def
    using assms gen_read_packet [OF assms(1), of m0 "''rp''" "[RFS_OP_READ, NULL, of_nat (length xs)]"]
    by (simp add: rpc_body_def rd1_def rd2_def rd3_def add.assoc in_packet_def of_nat_eq_0_small)
qed

lemma remotefs_opendir_read_request_packet [msg_read]:
  assumes "mem_at m p (rpc_packet (op_req RFS_OP_OPENDIR @ enc_ptr xs))" "length xs < 4294967296"
  shows "remotefs_opendir_read_request m p = Some (ELUARPC_OK, in_packet (p + 18) xs)"
proof -
  obtain m0 where "rpc_field m0 (p + 12) CHR ''p'' (NULL # of_nat (length xs) # []) = Some ([], enc_ptr xs)"
    using ptr_field_in_packet [OF assms(2)] by blast
  then show ?thesis
    unfolding remotefs_opendir_read_request_def
    using assms gen_read_packet [OF assms(1), of m0 "''op''" "[RFS_OP_OPENDIR, NULL, of_nat (length xs)]"]
    by (simp add: rpc_body_def rd1_def rd2_def rd3_def add.assoc in_packet_def of_nat_eq_0_small)
qed

lemma remotefs_readdir_read_response_packet [msg_read]:
  assumes "mem_at m p (rpc_packet (op_res RFS_OP_READDIR @ enc_ptr xs @ enc32 fsize @ enc32 ftime))" "length xs < 4294967296"
  shows "remotefs_readdir_read_response m p = Some (ELUARPC_OK, in_packet (p + 17) xs, fsize, ftime)"
proof -
  obtain m0 where "rpc_field m0 (p + 11) CHR ''p'' (NULL # of_nat (length xs) # [fsize, ftime]) = Some ([fsize, ftime], enc_ptr xs)"
    using ptr_field_in_packet [OF assms(2)] by blast
  then show ?thesis
    unfolding remotefs_readdir_read_response_def
    using assms gen_read_packet [OF assms(1), of m0 "''rpll''" "[RFS_OP_READDIR, NULL, of_nat (length xs), fsize, ftime]"]
    by (simp add: rpc_body_def rd1_def rd2_def rd3_def add.assoc in_packet_def of_nat_eq_0_small)
qed

end
