(* ===== verification/RfsServer.thy ===== *)
theory RfsServer
  imports RemoteFs
begin

text \<open>
  The desktop side of the remote file system: \<open>rfs_server_src/server.c\<close> (the request
  handlers and their dispatch), \<open>rfs_server_src/os_io_posix.c\<close> (the translation to POSIX
  calls) and the memory transport of \<open>rfs_server_src/main.c\<close>.

  The POSIX calls are a parameter, the record \<open>posix\<close>, on an abstract operating system
  state; it extends \<open>fcntl\<close>, the constants of \<open>fcntl.h\<close> and \<open>unistd.h\<close>. A handler takes and
  returns the server's memory, which holds the packet, with the operating system state, and is
  \<open>None\<close> exactly where the C code is undefined or does not return: an unterminated
  string, a directory stream that never ends, a path that overruns \<open>server_fullname\<close>.

  \<open>serve\<close> and \<open>replies\<close> say in one equation for each abstract request what the handlers make of it,
  and the lemmas show that \<open>server_execute_request\<close> does so on encoded messages. The specification is
  the relation \<open>answers\<close>, which is stated with the POSIX calls alone, and \<open>server_copes\<close> says for
  which requests the server keeps to it.
\<close>

section \<open>The operating system\<close>

record fcntl =
  O_APPEND :: u32
  O_CREAT :: u32
  O_EXCL :: u32
  O_TRUNC :: u32
  O_SYNC :: u32
  O_RDONLY :: u32
  O_WRONLY :: u32
  O_RDWR :: u32
  SEEK_SET :: u32
  SEEK_CUR :: u32
  SEEK_END :: u32

record 'os posix = fcntl +
  sys_open :: "'os \<Rightarrow> u8 list \<Rightarrow> u32 \<Rightarrow> u32 \<Rightarrow> u32 \<times> 'os"
  sys_write :: "'os \<Rightarrow> u32 \<Rightarrow> u8 list \<Rightarrow> u32 \<times> 'os"
  sys_read :: "'os \<Rightarrow> u32 \<Rightarrow> u32 \<Rightarrow> u32 \<times> u8 list \<times> 'os"  \<comment> \<open>result, bytes stored\<close>
  sys_close :: "'os \<Rightarrow> u32 \<Rightarrow> u32 \<times> 'os"
  sys_lseek :: "'os \<Rightarrow> u32 \<Rightarrow> u32 \<Rightarrow> u32 \<Rightarrow> u32 \<times> 'os"
  sys_opendir :: "'os \<Rightarrow> u8 list \<Rightarrow> u32 \<times> 'os"
  sys_readdir :: "'os \<Rightarrow> u32 \<Rightarrow> (u8 list \<times> u8) option \<times> 'os"  \<comment> \<open>\<open>d_name\<close>, \<open>d_type\<close>\<close>
  sys_closedir :: "'os \<Rightarrow> u32 \<Rightarrow> u32 \<times> 'os"

definition minus_one :: u32 where "minus_one = - 1"

text \<open>\<open>S_IRUSR | S_IWUSR | S_IRGRP | S_IROTH\<close>, octal 644, and \<open>DT_REG\<close>.\<close>

definition open_mode :: u32 where "open_mode = 0x1A4"
definition DT_REG :: u8 where "DT_REG = 8"

definition posix_flags :: "'a fcntl_scheme \<Rightarrow> u32 \<Rightarrow> u32" where
  "posix_flags os flags =
     eluarpc_replace_flag flags RFS_OPEN_FLAG_APPEND (O_APPEND os)
     OR eluarpc_replace_flag flags RFS_OPEN_FLAG_CREAT (O_CREAT os)
     OR eluarpc_replace_flag flags RFS_OPEN_FLAG_EXCL (O_EXCL os)
     OR eluarpc_replace_flag flags RFS_OPEN_FLAG_TRUNC (O_TRUNC os)
     OR eluarpc_replace_flag flags RFS_OPEN_FLAG_SYNC (O_SYNC os)
     OR eluarpc_replace_flag flags RFS_OPEN_FLAG_RDONLY (O_RDONLY os)
     OR eluarpc_replace_flag flags RFS_OPEN_FLAG_WRONLY (O_WRONLY os)
     OR eluarpc_replace_flag flags RFS_OPEN_FLAG_RDWR (O_RDWR os)"

definition os_open :: "'os posix \<Rightarrow> 'os \<Rightarrow> u8 list \<Rightarrow> u32 \<Rightarrow> u32 \<Rightarrow> u32 \<times> 'os" where
  "os_open os s pathname flags mode = sys_open os s pathname (posix_flags os flags) open_mode"

definition os_open_sys_flags_to_rfs_flags :: "'a fcntl_scheme \<Rightarrow> u32 \<Rightarrow> u32" where
  "os_open_sys_flags_to_rfs_flags os sysflags =
     eluarpc_replace_flag sysflags (O_APPEND os) RFS_OPEN_FLAG_APPEND
     OR eluarpc_replace_flag sysflags (O_CREAT os) RFS_OPEN_FLAG_CREAT
     OR eluarpc_replace_flag sysflags (O_EXCL os) RFS_OPEN_FLAG_EXCL
     OR eluarpc_replace_flag sysflags (O_TRUNC os) RFS_OPEN_FLAG_TRUNC
     OR eluarpc_replace_flag sysflags (O_SYNC os) RFS_OPEN_FLAG_SYNC
     OR eluarpc_replace_flag sysflags (O_RDONLY os) RFS_OPEN_FLAG_RDONLY
     OR eluarpc_replace_flag sysflags (O_WRONLY os) RFS_OPEN_FLAG_WRONLY
     OR eluarpc_replace_flag sysflags (O_RDWR os) RFS_OPEN_FLAG_RDWR"

definition os_write :: "'os posix \<Rightarrow> 'os \<Rightarrow> u32 \<Rightarrow> u8 list \<Rightarrow> u32 \<times> 'os" where
  "os_write os s fd buf = sys_write os s fd buf"

definition os_read :: "'os posix \<Rightarrow> 'os \<Rightarrow> u32 \<Rightarrow> u32 \<Rightarrow> u32 \<times> u8 list \<times> 'os" where
  "os_read os s fd count = sys_read os s fd count"

definition os_close :: "'os posix \<Rightarrow> 'os \<Rightarrow> u32 \<Rightarrow> u32 \<times> 'os" where
  "os_close os s fd = sys_close os s fd"

definition os_lseek :: "'os posix \<Rightarrow> 'os \<Rightarrow> u32 \<Rightarrow> u32 \<Rightarrow> u32 \<Rightarrow> u32 \<times> 'os" where
  "os_lseek os s fd offset whence =
     (if whence = RFS_LSEEK_SET then sys_lseek os s fd offset (SEEK_SET os)
      else if whence = RFS_LSEEK_CUR then sys_lseek os s fd offset (SEEK_CUR os)
      else if whence = RFS_LSEEK_END then sys_lseek os s fd offset (SEEK_END os)
      else (minus_one, s))"

definition os_lseek_sys_whence_to_rfs_whence :: "'a fcntl_scheme \<Rightarrow> u32 \<Rightarrow> u32" where
  "os_lseek_sys_whence_to_rfs_whence os syswhence =
     (if syswhence = SEEK_SET os then RFS_LSEEK_SET
      else if syswhence = SEEK_CUR os then RFS_LSEEK_CUR
      else if syswhence = SEEK_END os then RFS_LSEEK_END
      else 0)"

text \<open>
  The server never passes a \<open>NULL\<close> name, so the condition of the C function (\<open>name ||\<close>
  \<open>...\<close>) always holds.
\<close>

definition os_opendir :: "'os posix \<Rightarrow> 'os \<Rightarrow> u8 list \<Rightarrow> u32 \<times> 'os" where
  "os_opendir os s name = sys_opendir os s name"

text \<open>
  The next entry whose type has the \<open>DT_REG\<close> bit, its name cut to what fits
  \<open>realname\<close>; the loop ends at the end of the directory.
\<close>

partial_function (option) os_readdir ::
  "'os posix \<Rightarrow> 'os \<Rightarrow> u32 \<Rightarrow> (u8 list option \<times> 'os) option" where
  "os_readdir os s d =
     (case sys_readdir os s d of
        (None, s) \<Rightarrow> Some (None, s)
      | (Some (d_name, d_type), s) \<Rightarrow>
          if d_type AND DT_REG \<noteq> 0 then Some (Some (take RFS_MAX_FNAME_SIZE d_name), s)
          else os_readdir os s d)"

definition os_closedir :: "'os posix \<Rightarrow> 'os \<Rightarrow> u32 \<Rightarrow> u32 \<times> 'os" where
  "os_closedir os s d = sys_closedir os s d"

section \<open>Request handlers\<close>

datatype server_status = SERVER_OK | SERVER_ERR

text \<open>\<open>server_basedir\<close>, and the address of the static buffer \<open>realname\<close>.\<close>

record srv =
  server_basedir :: "u8 list"
  realname :: u32

definition PLATFORM_MAX_FNAME_LEN :: nat where "PLATFORM_MAX_FNAME_LEN = 2048"
definition PLATFORM_PATH_SEPARATOR :: u8 where "PLATFORM_PATH_SEPARATOR = 47"

text \<open>
  The path built in \<open>server_fullname\<close>, an array of \<open>PLATFORM_MAX_FNAME_LEN + 1\<close> bytes.
  The bound given to \<open>strncat\<close> limits what is appended, not the result, so a long name
  writes past the array; an empty base directory reads the byte before it.
\<close>

definition server_path :: "u8 list \<Rightarrow> u8 list \<Rightarrow> u8 list option" where
  "server_path basedir filename =
     (let full = take PLATFORM_MAX_FNAME_LEN basedir in
      if filename = [] then Some full
      else if full = [] then None
      else
        let full = (if last full \<noteq> PLATFORM_PATH_SEPARATOR then full @ [PLATFORM_PATH_SEPARATOR] else full);
            full = full @ take PLATFORM_MAX_FNAME_LEN filename
        in if length full \<le> PLATFORM_MAX_FNAME_LEN then Some full else None)"

definition opt_c_str :: "mem \<Rightarrow> u32 \<Rightarrow> u8 list option" where
  "opt_c_str m p = (if p \<noteq> NULL then c_str m p else Some [])"

type_synonym 'os srv_result = "(server_status \<times> mem \<times> 'os) option"

definition server_open :: "'os posix \<Rightarrow> srv \<Rightarrow> mem \<Rightarrow> 'os \<Rightarrow> u32 \<Rightarrow> 'os srv_result" where
  "server_open os sv m s p =
     do { (st, filename, flags, mode) \<leftarrow> remotefs_open_read_request m p;
          if st = ELUARPC_ERR then Some (SERVER_ERR, m, s)
          else do {
            name \<leftarrow> opt_c_str m filename;
            full \<leftarrow> server_path (server_basedir sv) name;
            let (fd, s) = os_open os s full flags mode;
            m \<leftarrow> remotefs_open_write_response m p fd;
            Some (SERVER_OK, m, s) } }"

definition server_write :: "'os posix \<Rightarrow> srv \<Rightarrow> mem \<Rightarrow> 'os \<Rightarrow> u32 \<Rightarrow> 'os srv_result" where
  "server_write os sv m s p =
     do { (st, fd, buf, count) \<leftarrow> remotefs_write_read_request m p;
          if st = ELUARPC_ERR then Some (SERVER_ERR, m, s)
          else do {
            let (count, s) = os_write os s fd (mem_read m buf (unat count));
            m \<leftarrow> remotefs_write_write_response m p count;
            Some (SERVER_OK, m, s) } }"

text \<open>\<open>ELUARPC_READ_BUF_OFFSET\<close>: where the payload of a read response lies in its packet.\<close>

definition ELUARPC_READ_BUF_OFFSET :: u32 where "ELUARPC_READ_BUF_OFFSET = 4 + 6 + 1 + 6"

definition server_read :: "'os posix \<Rightarrow> srv \<Rightarrow> mem \<Rightarrow> 'os \<Rightarrow> u32 \<Rightarrow> 'os srv_result" where
  "server_read os sv m s p =
     do { (st, fd, count) \<leftarrow> remotefs_read_read_request m p;
          if st = ELUARPC_ERR then Some (SERVER_ERR, m, s)
          else do {
            let (count, data, s) = os_read os s fd count;
            let m = mem_write m (p + ELUARPC_READ_BUF_OFFSET) data;
            m \<leftarrow> remotefs_read_write_response m p count;
            Some (SERVER_OK, m, s) } }"

definition server_close :: "'os posix \<Rightarrow> srv \<Rightarrow> mem \<Rightarrow> 'os \<Rightarrow> u32 \<Rightarrow> 'os srv_result" where
  "server_close os sv m s p =
     do { (st, fd) \<leftarrow> remotefs_close_read_request m p;
          if st = ELUARPC_ERR then Some (SERVER_ERR, m, s)
          else do {
            let (fd, s) = os_close os s fd;
            m \<leftarrow> remotefs_close_write_response m p fd;
            Some (SERVER_OK, m, s) } }"

definition server_lseek :: "'os posix \<Rightarrow> srv \<Rightarrow> mem \<Rightarrow> 'os \<Rightarrow> u32 \<Rightarrow> 'os srv_result" where
  "server_lseek os sv m s p =
     do { (st, fd, offset, whence) \<leftarrow> remotefs_lseek_read_request m p;
          if st = ELUARPC_ERR then Some (SERVER_ERR, m, s)
          else do {
            let (offset, s) = os_lseek os s fd offset whence;
            m \<leftarrow> remotefs_lseek_write_response m p offset;
            Some (SERVER_OK, m, s) } }"

definition server_opendir :: "'os posix \<Rightarrow> srv \<Rightarrow> mem \<Rightarrow> 'os \<Rightarrow> u32 \<Rightarrow> 'os srv_result" where
  "server_opendir os sv m s p =
     do { (st, name) \<leftarrow> remotefs_opendir_read_request m p;
          if st = ELUARPC_ERR then Some (SERVER_ERR, m, s)
          else do {
            name \<leftarrow> opt_c_str m name;
            full \<leftarrow> server_path (server_basedir sv) name;
            let (d, s) = os_opendir os s full;
            m \<leftarrow> remotefs_opendir_write_response m p d;
            Some (SERVER_OK, m, s) } }"

text \<open>
  \<open>strncpy( realname, d_name, RFS_MAX_FNAME_SIZE )\<close> pads with zeros, and the last byte of
  the array is zero.
\<close>

definition realname_bytes :: "u8 list \<Rightarrow> u8 list" where
  "realname_bytes name = name @ replicate (RFS_MAX_FNAME_SIZE + 1 - length name) 0"

definition server_readdir :: "'os posix \<Rightarrow> srv \<Rightarrow> mem \<Rightarrow> 'os \<Rightarrow> u32 \<Rightarrow> 'os srv_result" where
  "server_readdir os sv m s p =
     do { (st, d) \<leftarrow> remotefs_readdir_read_request m p;
          if st = ELUARPC_ERR then Some (SERVER_ERR, m, s)
          else do {
            (ent, s) \<leftarrow> os_readdir os s d;
            (name, fsize, m, s) \<leftarrow>
              (case ent of
                 None \<Rightarrow> Some (NULL, 0, m, s)
               | Some fname \<Rightarrow> do {
                   let m = mem_write m (realname sv) (realname_bytes fname);
                   full \<leftarrow> server_path (server_basedir sv) fname;
                   let (fd, s) = os_open os s full RFS_OPEN_FLAG_RDONLY 0;
                   if fd \<noteq> 0 then
                     let (fsize, s) = os_lseek os s fd 0 RFS_LSEEK_END;
                         (_, s) = os_close os s fd
                     in Some (realname sv, fsize, m, s)
                   else Some (NULL, 0, m, s) });
            m \<leftarrow> remotefs_readdir_write_response m p name fsize 0;
            Some (SERVER_OK, m, s) } }"

definition server_closedir :: "'os posix \<Rightarrow> srv \<Rightarrow> mem \<Rightarrow> 'os \<Rightarrow> u32 \<Rightarrow> 'os srv_result" where
  "server_closedir os sv m s p =
     do { (st, d) \<leftarrow> remotefs_closedir_read_request m p;
          if st = ELUARPC_ERR then Some (SERVER_ERR, m, s)
          else do {
            let (res, s) = os_closedir os s d;
            m \<leftarrow> remotefs_closedir_write_response m p d;
            Some (SERVER_OK, m, s) } }"

text \<open>The table \<open>server_handlers\<close> and the dispatch.\<close>

definition server_handlers :: "('os posix \<Rightarrow> srv \<Rightarrow> mem \<Rightarrow> 'os \<Rightarrow> u32 \<Rightarrow> 'os srv_result) list" where
  "server_handlers = [server_open, server_write, server_read, server_close, server_lseek,
     server_opendir, server_readdir, server_closedir]"

definition server_execute_request :: "'os posix \<Rightarrow> srv \<Rightarrow> mem \<Rightarrow> 'os \<Rightarrow> u32 \<Rightarrow> 'os srv_result" where
  "server_execute_request os sv m s pdata =
     (let (st, req) = eluarpc_get_request_id m pdata in
      if st = ELUARPC_ERR then Some (SERVER_ERR, m, s)
      else if RFS_OP_FIRST \<le> ucast req \<and> ucast req \<le> RFS_OP_LAST then
        (server_handlers ! (unat req - unat RFS_OP_FIRST)) os sv m s pdata
      else Some (SERVER_ERR, m, s))"

section \<open>Requests and replies\<close>

text \<open>
  Abstract requests and replies, their encodings, and \<open>serve\<close>, the reply of the handlers. \<open>None\<close>
  marks the requests that have no well-formed reply: a path that does not fit, a read that the operating
  system refuses.
\<close>

datatype rfs_req =
    ReqOpen "u8 list" u32 u32
  | ReqWrite u32 "u8 list"
  | ReqRead u32 u32
  | ReqClose u32
  | ReqLseek u32 u32 u32
  | ReqOpendir "u8 list"
  | ReqReaddir u32
  | ReqClosedir u32

datatype rfs_res =
    ResInt u32 u32
  | ResData "u8 list"
  | ResDirent "u8 list option" u32

fun enc_req :: "rfs_req \<Rightarrow> u8 list" where
  "enc_req (ReqOpen name flags mode) = op_req RFS_OP_OPEN @ enc_ptr (name @ [0]) @ enc32 flags @ enc32 mode"
| "enc_req (ReqWrite fd xs) = op_req RFS_OP_WRITE @ enc32 fd @ enc_ptr xs"
| "enc_req (ReqRead fd n) = op_req RFS_OP_READ @ enc32 fd @ enc32 n"
| "enc_req (ReqClose fd) = op_req RFS_OP_CLOSE @ enc32 fd"
| "enc_req (ReqLseek fd off w) = op_req RFS_OP_LSEEK @ enc32 fd @ enc32 off @ enc32 w"
| "enc_req (ReqOpendir name) = op_req RFS_OP_OPENDIR @ enc_ptr (name @ [0])"
| "enc_req (ReqReaddir d) = op_req RFS_OP_READDIR @ enc32 d"
| "enc_req (ReqClosedir d) = op_req RFS_OP_CLOSEDIR @ enc32 d"

fun enc_res :: "rfs_res \<Rightarrow> u8 list" where
  "enc_res (ResInt i r) = op_res i @ enc32 r"
| "enc_res (ResData xs) = op_res RFS_OP_READ @ enc_ptr xs"
| "enc_res (ResDirent name fsize) =
     op_res RFS_OP_READDIR @ enc_ptr (case name of None \<Rightarrow> [] | Some s \<Rightarrow> s @ [0]) @ enc32 fsize @ enc32 0"

definition rfs_name :: "u8 list \<Rightarrow> bool" where
  "rfs_name s \<longleftrightarrow> 0 \<notin> set s \<and> length s < 60000"

fun req_ok :: "rfs_req \<Rightarrow> bool" where
  "req_ok (ReqOpen name flags mode) = rfs_name name"
| "req_ok (ReqOpendir name) = rfs_name name"
| "req_ok (ReqWrite fd xs) = (length xs < 60000)"
| "req_ok _ = True"

fun serve :: "'os posix \<Rightarrow> u8 list \<Rightarrow> rfs_req \<Rightarrow> 'os \<Rightarrow> (rfs_res \<times> 'os) option" where
  "serve os base (ReqOpen name flags mode) s =
     do { full \<leftarrow> server_path base name;
          let (fd, s) = sys_open os s full (posix_flags os flags) open_mode;
          Some (ResInt RFS_OP_OPEN fd, s) }"
| "serve os base (ReqWrite fd xs) s =
     (let (n, s) = sys_write os s fd xs in Some (ResInt RFS_OP_WRITE n, s))"
| "serve os base (ReqRead fd n) s =
     (let (r, xs, s) = sys_read os s fd n in
      if r = of_nat (length xs) \<and> length xs < 60000 then Some (ResData xs, s) else None)"
| "serve os base (ReqClose fd) s =
     (let (r, s) = sys_close os s fd in Some (ResInt RFS_OP_CLOSE r, s))"
| "serve os base (ReqLseek fd off w) s =
     (let (r, s) = os_lseek os s fd off w in Some (ResInt RFS_OP_LSEEK r, s))"
| "serve os base (ReqOpendir name) s =
     do { full \<leftarrow> server_path base name;
          let (d, s) = sys_opendir os s full;
          Some (ResInt RFS_OP_OPENDIR d, s) }"
| "serve os base (ReqReaddir d) s =
     do { (ent, s) \<leftarrow> os_readdir os s d;
          case ent of
            None \<Rightarrow> Some (ResDirent None 0, s)
          | Some fname \<Rightarrow>
              if rfs_name fname then
                do { full \<leftarrow> server_path base fname;
                     let (fd, s) = os_open os s full RFS_OPEN_FLAG_RDONLY 0;
                     if fd \<noteq> 0 then
                       let (fsize, s) = os_lseek os s fd 0 RFS_LSEEK_END;
                           (_, s) = os_close os s fd
                       in Some (ResDirent (Some fname) fsize, s)
                     else Some (ResDirent None 0, s) }
              else None }"
| "serve os base (ReqClosedir d) s =
     (let (r, s) = sys_closedir os s d in Some (ResInt RFS_OP_CLOSEDIR d, s))"

section \<open>The handlers on encoded messages\<close>

text \<open>A packet buffer that does not wrap around the address space.\<close>

definition buf_ok :: "u32 \<Rightarrow> bool" where
  "buf_ok p \<longleftrightarrow> p \<noteq> NULL \<and> unat p + 65536 \<le> 4294967296"

lemma buf_ok_plus: "buf_ok p \<Longrightarrow> k < 65536 \<Longrightarrow> p + of_nat k \<noteq> NULL"
proof
  assume "buf_ok p" "k < 65536" "p + of_nat k = NULL"
  moreover from this have "unat (p + of_nat k) = unat p + k"
    by (subst unat_add_lem [THEN iffD1]) (auto simp: buf_ok_def unat_of_nat_small)
  ultimately show False by (simp add: buf_ok_def unat_eq_0)
qed

lemma buf_ok_numeral [simp]: "buf_ok p \<Longrightarrow> numeral k < (65536 :: nat) \<Longrightarrow> p + numeral k \<noteq> NULL"
  using buf_ok_plus [of p "numeral k"] by simp

lemma enc_ptr_payload: "mem_at m q (enc_ptr xs @ ys) \<Longrightarrow> mem_at m (q + 6) xs"
  by (simp add: enc_ptr_def mem_at_append add.assoc)

lemma get_request_id_packet:
  assumes "mem_at m p (rpc_packet (op_req i @ ys))"
  shows "eluarpc_get_request_id m p = (ELUARPC_OK, ucast i)"
  using match_packet_start_at [OF packet_parts(2) [OF assms], of ELUARPC_OK]
    packet_parts(3) [OF assms] eluarpc_read_op_id_at [of m "p + 10" "ucast i" ELUARPC_OK]
  by (simp add: eluarpc_get_request_id_def mem_at_append op_req_def)

lemma execute_op:
  assumes "mem_at m p (rpc_packet (op_req i @ ys))"
  shows "i = RFS_OP_OPEN \<Longrightarrow> server_execute_request os sv m s p = server_open os sv m s p"
    and "i = RFS_OP_WRITE \<Longrightarrow> server_execute_request os sv m s p = server_write os sv m s p"
    and "i = RFS_OP_READ \<Longrightarrow> server_execute_request os sv m s p = server_read os sv m s p"
    and "i = RFS_OP_CLOSE \<Longrightarrow> server_execute_request os sv m s p = server_close os sv m s p"
    and "i = RFS_OP_LSEEK \<Longrightarrow> server_execute_request os sv m s p = server_lseek os sv m s p"
    and "i = RFS_OP_OPENDIR \<Longrightarrow> server_execute_request os sv m s p = server_opendir os sv m s p"
    and "i = RFS_OP_READDIR \<Longrightarrow> server_execute_request os sv m s p = server_readdir os sv m s p"
    and "i = RFS_OP_CLOSEDIR \<Longrightarrow> server_execute_request os sv m s p = server_closedir os sv m s p"
  using get_request_id_packet [OF assms]
  by (simp_all add: server_execute_request_def rfs_ops RFS_OP_FIRST_def RFS_OP_LAST_def server_handlers_def)

lemma payload_c_str:
  assumes "mem_at m p (rpc_packet (op_req i @ enc_ptr (name @ [0]) @ ys))" "rfs_name name" "buf_ok p"
  shows "opt_c_str m (in_packet (p + 18) (name @ [0])) = Some name"
proof -
  from packet_parts(3) [OF assms(1)] have "mem_at m (p + 12) (enc_ptr (name @ [0]) @ ys)"
    by (simp add: mem_at_append add.assoc)
  then have "mem_at m (p + 18) (name @ [0])"
    using enc_ptr_payload [of m "p + 12"] by (simp add: add.assoc)
  with assms(2,3) show ?thesis
    by (simp add: opt_c_str_def in_packet_def c_str_at rfs_name_def)
qed

lemma server_open_refines:
  assumes "mem_at m p (rpc_packet (enc_req (ReqOpen name flags mode)))" "rfs_name name" "buf_ok p"
    and "serve os (server_basedir sv) (ReqOpen name flags mode) s = Some (r, s')"
  shows "server_open os sv m s p = Some (SERVER_OK, mem_write m p (rpc_packet (enc_res r)), s')"
proof -
  have rd: "remotefs_open_read_request m p = Some (ELUARPC_OK, in_packet (p + 18) (name @ [0]), flags, mode)"
    using assms(1,2) by (intro remotefs_open_read_request_packet) (auto simp: rfs_name_def)
  have str: "opt_c_str m (in_packet (p + 18) (name @ [0])) = Some name"
    by (rule payload_c_str [OF _ assms(2,3)]) (use assms(1) in simp)
  from assms(4) obtain full where "server_path (server_basedir sv) name = Some full"
    by (auto simp: bind_eq_Some_conv)
  with assms(4) show ?thesis
    by (auto simp: server_open_def rd str msg_write os_open_def split_beta Let_def)
qed

lemma server_opendir_refines:
  assumes "mem_at m p (rpc_packet (enc_req (ReqOpendir name)))" "rfs_name name" "buf_ok p"
    and "serve os (server_basedir sv) (ReqOpendir name) s = Some (r, s')"
  shows "server_opendir os sv m s p = Some (SERVER_OK, mem_write m p (rpc_packet (enc_res r)), s')"
proof -
  have rd: "remotefs_opendir_read_request m p = Some (ELUARPC_OK, in_packet (p + 18) (name @ [0]))"
    using assms(1,2) by (intro remotefs_opendir_read_request_packet) (auto simp: rfs_name_def)
  have str: "opt_c_str m (in_packet (p + 18) (name @ [0])) = Some name"
    by (rule payload_c_str [OF _ assms(2,3), where ys = "[]"]) (use assms(1) in simp)
  from assms(4) obtain full where "server_path (server_basedir sv) name = Some full"
    by (auto simp: bind_eq_Some_conv)
  with assms(4) show ?thesis
    by (auto simp: server_opendir_def rd str msg_write os_opendir_def split_beta Let_def)
qed

lemma server_write_refines:
  assumes "mem_at m p (rpc_packet (enc_req (ReqWrite fd xs)))" "length xs < 60000"
    and "serve os base (ReqWrite fd xs) s = Some (r, s')"
  shows "server_write os sv m s p = Some (SERVER_OK, mem_write m p (rpc_packet (enc_res r)), s')"
proof -
  have rd: "remotefs_write_read_request m p = Some (ELUARPC_OK, fd, in_packet (p + 23) xs, of_nat (length xs))"
    using assms(1,2) by (intro remotefs_write_read_request_packet) auto
  from packet_parts(3) [OF assms(1)] have "mem_at m (p + 17) (enc_ptr xs @ [])"
    by (simp add: mem_at_append add.assoc)
  then have "mem_at m (p + 23) xs"
    using enc_ptr_payload [of m "p + 17" xs "[]"] by (simp add: add.assoc)
  with assms(2) have "mem_read m (in_packet (p + 23) xs) (unat (of_nat (length xs) :: u32)) = xs"
    by (auto simp: unat_of_nat_small in_packet_def mem_at_read)
  with assms(3) show ?thesis
    by (auto simp: server_write_def rd msg_write os_write_def split_beta Let_def)
qed

lemma server_read_refines:
  assumes "mem_at m p (rpc_packet (enc_req (ReqRead fd n)))"
    and "serve os base (ReqRead fd n) s = Some (ResData xs, s')"
  shows "server_read os sv m s p =
    Some (SERVER_OK, mem_write (mem_write m (p + 17) xs) p (rpc_packet (enc_res (ResData xs))), s')"
proof -
  from assms(2) have os: "sys_read os s fd n = (of_nat (length xs), xs, s')" "length xs < 60000"
    by (cases "sys_read os s fd n"; auto split: if_splits)+
  have "remotefs_read_read_request m p = Some (ELUARPC_OK, fd, n)"
    using assms(1) by (intro remotefs_read_read_request_packet) simp
  moreover have "mem_at (mem_write m (p + 17) xs) (p + 17) xs"
    using os by (intro mem_at_write) simp
  ultimately show ?thesis
    using os by (simp add: server_read_def ELUARPC_READ_BUF_OFFSET_def os_read_def msg_write)
qed

lemma server_close_refines:
  assumes "mem_at m p (rpc_packet (enc_req (ReqClose fd)))"
    and "serve os base (ReqClose fd) s = Some (r, s')"
  shows "server_close os sv m s p = Some (SERVER_OK, mem_write m p (rpc_packet (enc_res r)), s')"
  using assms remotefs_close_read_request_packet [of m p fd]
  by (auto simp: server_close_def os_close_def msg_write split_beta Let_def)

lemma server_lseek_refines:
  assumes "mem_at m p (rpc_packet (enc_req (ReqLseek fd off w)))"
    and "serve os base (ReqLseek fd off w) s = Some (r, s')"
  shows "server_lseek os sv m s p = Some (SERVER_OK, mem_write m p (rpc_packet (enc_res r)), s')"
  using assms remotefs_lseek_read_request_packet [of m p fd off w]
  by (auto simp: server_lseek_def msg_write split_beta Let_def)

lemma server_closedir_reply:
  assumes "mem_at m p (rpc_packet (enc_req (ReqClosedir d)))"
  shows "server_closedir os sv m s p =
    Some (SERVER_OK, mem_write m p (rpc_packet (enc_res (ResInt RFS_OP_CLOSEDIR d))), snd (sys_closedir os s d))"
  using assms remotefs_closedir_read_request_packet [of m p d]
  by (auto simp: server_closedir_def os_closedir_def msg_write split_beta Let_def)

text \<open>The directory entry buffer must not overlap the packet the reply is built in.\<close>

definition srv_ok :: "srv \<Rightarrow> u32 \<Rightarrow> bool" where
  "srv_ok sv p \<longleftrightarrow> buf_ok p \<and> realname sv \<noteq> NULL \<and> apart (realname sv) 32 (p + 4) 72"

lemma apart_sub: "apart a n p k \<Longrightarrow> n' \<le> n \<Longrightarrow> k' \<le> k \<Longrightarrow> apart a n' p k'"
  unfolding apart_def by (meson atLeastLessThan_iff le_trans less_le_trans)

lemma os_readdir_short:
  assumes "os_readdir os s d = Some (Some name, s')"
  shows "length name \<le> 31"
proof -
  have "\<forall>n. fst (Some name, s') = Some n \<longrightarrow> length n \<le> 31"
  proof (rule os_readdir.raw_induct [where P = "\<lambda>os s d r. \<forall>n. fst r = Some n \<longrightarrow> length n \<le> 31", OF _ assms])
    fix f and os :: "'a posix" and s d r
    assume IH: "\<And>os s d r. f os s d = Some r \<Longrightarrow> \<forall>n. fst r = Some n \<longrightarrow> length n \<le> 31"
      and step: "(case sys_readdir os s d of
          (None, s) \<Rightarrow> Some (None, s)
        | (Some (d_name, d_type), s) \<Rightarrow>
            if d_type AND DT_REG \<noteq> 0 then Some (Some (take RFS_MAX_FNAME_SIZE d_name), s)
            else f os s d) = Some r"
    show "\<forall>n. fst r = Some n \<longrightarrow> length n \<le> 31"
    proof (cases "sys_readdir os s d")
      case (Pair ent s1)
      with step IH [of os s1 d r] show ?thesis
        by (cases ent) (auto simp: RFS_MAX_FNAME_SIZE_def split: if_splits)
    qed
  qed
  then show ?thesis by simp
qed

lemma server_readdir_refines:
  assumes "mem_at m p (rpc_packet (enc_req (ReqReaddir d)))" "srv_ok sv p"
    and "serve os (server_basedir sv) (ReqReaddir d) s = Some (r, s')"
  shows "\<exists>m'. server_readdir os sv m s p = Some (SERVER_OK, mem_write m' p (rpc_packet (enc_res r)), s')
    \<and> (\<forall>a. 32 \<le> off_from (realname sv) a \<longrightarrow> m' a = m a)"
proof -
  have rd: "remotefs_readdir_read_request m p = Some (ELUARPC_OK, d)"
    using assms(1) by (intro remotefs_readdir_read_request_packet) simp
  from assms(3) obtain ent s1 where ent: "os_readdir os s d = Some (ent, s1)"
    by (auto simp: bind_eq_Some_conv)
  show ?thesis
  proof (cases ent)
    case None
    with assms(3) ent show ?thesis
      by (auto simp: server_readdir_def rd msg_write)
  next
    case (Some fname)
    with assms(3) ent have name: "rfs_name fname" by (auto split: if_splits)
    from ent Some have len: "length fname \<le> 31" by (auto dest: os_readdir_short)
    define m1 where "m1 = mem_write m (realname sv) (realname_bytes fname)"
    have bytes: "realname_bytes fname = (fname @ [0]) @ replicate (31 - length fname) 0"
    proof -
      from len have "32 - length fname = Suc (31 - length fname)" by simp
      then show ?thesis by (simp add: realname_bytes_def RFS_MAX_FNAME_SIZE_def)
    qed
    with len have "mem_at m1 (realname sv) (realname_bytes fname)"
      unfolding m1_def by (intro mem_at_write) simp
    then have "mem_at m1 (realname sv) (fname @ [0])"
      unfolding bytes by (simp only: mem_at_append)
    moreover have "apart (realname sv) (length (fname @ [0])) (p + 4) (40 + length (fname @ [0]))"
    proof (rule apart_sub)
      show "apart (realname sv) 32 (p + 4) 72" using assms(2) by (simp only: srv_ok_def)
    qed (use len in simp_all)
    ultimately have arg: "ptr_arg m1 p (p + 11) (realname sv) (fname @ [0])"
      using assms(2) len by (simp add: ptr_arg_def srv_ok_def)
    have out: "\<forall>a. 32 \<le> off_from (realname sv) a \<longrightarrow> m1 a = m a"
      using len by (simp add: m1_def mem_write_apply bytes)
    have wr: "remotefs_readdir_write_response m1 p (realname sv) fsize 0 =
        Some (mem_write m1 p (rpc_packet (enc_res (ResDirent (Some fname) fsize))))" for fsize
      using msg_write_ptrs(5) [OF arg, of fsize 0] assms(2) name by (simp add: srv_ok_def rfs_name_def)
    from assms(3) ent Some name obtain full where full: "server_path (server_basedir sv) fname = Some full"
      by (auto simp: bind_eq_Some_conv)
    show ?thesis
    proof (cases "fst (os_open os s1 full RFS_OPEN_FLAG_RDONLY 0) = 0")
      case True
      with assms(3) ent Some name full out show ?thesis
        by (auto simp: server_readdir_def rd msg_write split_beta Let_def m1_def [symmetric])
    next
      case False
      with assms(3) ent Some name full out show ?thesis
        by (auto simp: server_readdir_def rd wr split_beta Let_def m1_def [symmetric])
    qed
  qed
qed

text \<open>
  What the server answers: a \<open>closedir\<close> is answered with the handle it was given, whatever the
  operating system said.
\<close>

fun replies :: "'os posix \<Rightarrow> u8 list \<Rightarrow> rfs_req \<Rightarrow> 'os \<Rightarrow> (rfs_res \<times> 'os) option" where
  "replies os base (ReqClosedir d) s = Some (ResInt RFS_OP_CLOSEDIR d, snd (sys_closedir os s d))"
| "replies os base q s = serve os base q s"

lemma serve_read_data:
  "serve os base (ReqRead fd n) s = Some (r, s') \<Longrightarrow> \<exists>xs. r = ResData xs \<and> length xs < 60000"
  by (cases "sys_read os s fd n") (auto split: if_splits)

lemma serve_res_len:
  assumes "serve os base q s = Some (r, s')"
  shows "packet_len (enc_res r) < 65536"
proof (cases q)
  case (ReqRead fd n)
  with assms serve_read_data show ?thesis by (fastforce simp: packet_len_def)
next
  case (ReqReaddir d)
  with assms obtain ent s1 where ent: "os_readdir os s d = Some (ent, s1)"
    by (auto simp: bind_eq_Some_conv)
  show ?thesis
  proof (cases ent)
    case None
    with assms ReqReaddir ent show ?thesis by (auto simp: packet_len_def)
  next
    case (Some f)
    with ent have "length f \<le> 31" by (auto dest: os_readdir_short)
    with assms ReqReaddir ent Some show ?thesis
      by (auto simp: packet_len_def bind_eq_Some_conv split_beta Let_def split: if_splits)
  qed
qed (use assms in \<open>auto simp: packet_len_def bind_eq_Some_conv split_beta Let_def\<close>)

lemma replies_res_len:
  assumes "replies os base q s = Some (r, s')"
  shows "packet_len (enc_res r) < 65536"
proof (cases "\<exists>d. q = ReqClosedir d")
  case True
  with assms show ?thesis by (auto simp: packet_len_def)
next
  case False
  then have "replies os base q s = serve os base q s" by (cases q) auto
  with assms serve_res_len show ?thesis by metis
qed

lemma execute_reply:
  assumes "mem_at m p (rpc_packet (enc_req q))" "req_ok q" "srv_ok sv p"
    and "replies os (server_basedir sv) q s = Some (r, s')"
  shows "\<exists>m'. server_execute_request os sv m s p = Some (SERVER_OK, m', s') \<and> mem_at m' p (rpc_packet (enc_res r))"
proof -
  have fin: "\<exists>m'. server_execute_request os sv m s p = Some (SERVER_OK, m', s') \<and> mem_at m' p (rpc_packet (enc_res r))"
    if "server_execute_request os sv m s p = Some (SERVER_OK, mem_write m1 p (rpc_packet (enc_res r)), s')"
      "packet_len (enc_res r) < 65536" for m1
    using that by (auto intro!: mem_at_write)
  from assms(3) have p: "buf_ok p" by (simp add: srv_ok_def)
  have len: "packet_len (enc_res r) < 65536" by (rule replies_res_len [OF assms(4)])
  show ?thesis
  proof (cases q)
    case (ReqOpen name flags mode)
    then show ?thesis
      using assms p server_open_refines [of m p name flags mode os sv s r s']
      by (intro fin [of m]) (auto simp: execute_op(1) len)
  next
    case (ReqWrite fd xs)
    then show ?thesis
      using assms server_write_refines [of m p fd xs os "server_basedir sv" s r s' sv]
      by (intro fin [of m]) (auto simp: execute_op(2) len)
  next
    case (ReqRead fd n)
    with assms(4) serve_read_data obtain xs where r: "r = ResData xs" by fastforce
    with ReqRead show ?thesis
      using assms server_read_refines [of m p fd n os "server_basedir sv" s xs s' sv]
      by (intro fin [of "mem_write m (p + 17) xs"]) (use len r in \<open>auto simp: execute_op(3)\<close>)
  next
    case (ReqClose fd)
    then show ?thesis
      using assms server_close_refines [of m p fd os "server_basedir sv" s r s' sv]
      by (intro fin [of m]) (auto simp: execute_op(4) len)
  next
    case (ReqLseek fd off w)
    then show ?thesis
      using assms server_lseek_refines [of m p fd off w os "server_basedir sv" s r s' sv]
      by (intro fin [of m]) (auto simp: execute_op(5) len)
  next
    case (ReqOpendir name)
    then show ?thesis
      using assms p server_opendir_refines [of m p name os sv s r s']
      by (intro fin [of m]) (auto simp: execute_op(6) len)
  next
    case (ReqReaddir d)
    with assms server_readdir_refines [of m p d sv os s r s'] obtain m1
      where "server_readdir os sv m s p = Some (SERVER_OK, mem_write m1 p (rpc_packet (enc_res r)), s')"
      by auto
    with ReqReaddir assms show ?thesis
      by (intro fin [of m1]) (auto simp: execute_op(7) len)
  next
    case (ReqClosedir d)
    then show ?thesis
      using assms server_closedir_reply [of m p d os sv s]
      by (intro fin [of m]) (auto simp: execute_op(8) packet_len_def)
  qed
qed

section \<open>The memory transport\<close>

text \<open>
  The state machine that collects a request byte by byte, \<open>rfs_mem_read_request_packet\<close>.
  The buffer \<open>rfs_buffer\<close> is at address \<open>p\<close>; nothing bounds the expected length by its
  size.
\<close>

datatype mem_state = MEM_STATE_READ_LENGTH | MEM_STATE_READ_REQUEST | MEM_STATE_REQUEST_DONE

record memtr =
  tr_mem :: mem
  mem_read_len :: int
  mem_expected_len :: int
  mem_read_state :: mem_state
  mem_response_flag :: bool

definition rfs_mem_start_request :: "memtr \<Rightarrow> memtr" where
  "rfs_mem_start_request t =
     t\<lparr> mem_read_state := MEM_STATE_READ_LENGTH, mem_read_len := 0, mem_expected_len := 0,
        mem_response_flag := False \<rparr>"

definition tr_store :: "u32 \<Rightarrow> int \<Rightarrow> u8 \<Rightarrow> memtr \<Rightarrow> memtr" where
  "tr_store p i c t = t\<lparr> tr_mem := (tr_mem t)(p + of_int i := c) \<rparr>"

definition rfs_mem_read_request_packet :: "u32 \<Rightarrow> int \<Rightarrow> memtr \<Rightarrow> int \<times> memtr" where
  "rfs_mem_read_request_packet p c t =
     (if c = -1 then (0, rfs_mem_start_request t)
      else
        case mem_read_state t of
          MEM_STATE_READ_LENGTH \<Rightarrow>
            (let t = tr_store p (mem_read_len t) (of_int c) t;
                 t = t\<lparr> mem_read_len := mem_read_len t + 1 \<rparr>
             in if mem_read_len t = 4 then
                  let t = t\<lparr> mem_read_len := 0 \<rparr>;
                      (st, temp16) = eluarpc_get_packet_size (tr_mem t) p
                  in if st = ELUARPC_ERR then (0, t\<lparr> mem_read_state := MEM_STATE_REQUEST_DONE \<rparr>)
                     else (1, t\<lparr> mem_read_state := MEM_STATE_READ_REQUEST,
                                 mem_expected_len := uint temp16 - 4 \<rparr>)
                else (1, t))
        | MEM_STATE_READ_REQUEST \<Rightarrow>
            (let t = tr_store p (4 + mem_read_len t) (of_int c) t;
                 t = t\<lparr> mem_read_len := mem_read_len t + 1 \<rparr>
             in if mem_read_len t = mem_expected_len t then
                  (1, t\<lparr> mem_read_state := MEM_STATE_REQUEST_DONE, mem_response_flag := True \<rparr>)
                else (1, t))
        | MEM_STATE_REQUEST_DONE \<Rightarrow> (1, t))"

definition rfs_mem_has_response :: "memtr \<Rightarrow> bool" where
  "rfs_mem_has_response t = mem_response_flag t"

definition rfs_mem_write_response ::
  "'os posix \<Rightarrow> srv \<Rightarrow> u32 \<Rightarrow> memtr \<times> 'os \<Rightarrow> (u16 \<times> u32 \<times> memtr \<times> 'os) option" where
  "rfs_mem_write_response os sv p ts =
     do { (_, m, s) \<leftarrow> server_execute_request os sv (tr_mem (fst ts)) (snd ts) p;
          let t = (fst ts)\<lparr> tr_mem := m \<rparr>;
          let (st, n) = eluarpc_get_packet_size m p;
          if st \<noteq> ELUARPC_ERR then Some (n, p, t, s) else Some (0, p, t, s) }"

text \<open>
  What \<open>mux_src/main.c\<close> does with a byte for the file server: feed it, and once a request is
  complete take the response (length and address) and start over.
\<close>

record 'os rfslink =
  lk_tr :: memtr
  lk_os :: 'os
  lk_out :: "u8 list"  \<comment> \<open>the \<open>rfs_size\<close> bytes at \<open>rfs_ptr\<close> still to be sent\<close>

definition mux_rfs_byte :: "'os posix \<Rightarrow> srv \<Rightarrow> u32 \<Rightarrow> 'os rfslink \<Rightarrow> u8 \<Rightarrow> 'os rfslink option" where
  "mux_rfs_byte os sv p l c =
     (let l = l\<lparr> lk_tr := snd (rfs_mem_read_request_packet p (uint c) (lk_tr l)) \<rparr> in
      if rfs_mem_has_response (lk_tr l) then
        do { (rfs_size, rfs_ptr, t, s) \<leftarrow> rfs_mem_write_response os sv p (lk_tr l, lk_os l);
             Some \<lparr> lk_tr = rfs_mem_start_request t, lk_os = s,
                    lk_out = mem_read (tr_mem t) rfs_ptr (unat rfs_size) \<rparr> }
      else Some l)"

fun mux_rfs_bytes :: "'os posix \<Rightarrow> srv \<Rightarrow> u32 \<Rightarrow> 'os rfslink \<Rightarrow> u8 list \<Rightarrow> 'os rfslink option" where
  "mux_rfs_bytes os sv p l [] = Some l"
| "mux_rfs_bytes os sv p l (c # cs) =
     do { l \<leftarrow> mux_rfs_byte os sv p l c; mux_rfs_bytes os sv p l cs }"

definition lk_idle :: "'os rfslink \<Rightarrow> bool" where
  "lk_idle l \<longleftrightarrow> mem_read_state (lk_tr l) = MEM_STATE_READ_LENGTH \<and> mem_read_len (lk_tr l) = 0
     \<and> \<not> mem_response_flag (lk_tr l)"

lemma mux_rfs_bytes_append:
  "mux_rfs_bytes os sv p l (xs @ ys) = do { l \<leftarrow> mux_rfs_bytes os sv p l xs; mux_rfs_bytes os sv p l ys }"
  by (induction xs arbitrary: l) (auto simp: bind_assoc)

lemma uint_ne_minus_1 [simp]: "uint (c :: 'a::len word) \<noteq> -1"
  using uint_ge_0 [of c] by linarith

lemma get_packet_size_hdr:
  assumes "mem_at m p (TYPE_PKT_SIZE # enc16 n)"
  shows "eluarpc_get_packet_size m p = (ELUARPC_OK, n)"
  using assms eluarpc_read_u16_at [of m "p + 1" n ELUARPC_OK]
  by (simp add: eluarpc_get_packet_size_def eluarpc_read_expect_at)

text \<open>Receiving the rest of a request.\<close>

lemma feed_request:
  assumes "mem_read_state (lk_tr l) = MEM_STATE_READ_REQUEST" "\<not> mem_response_flag (lk_tr l)"
    and "mem_read_len (lk_tr l) = int k" "mem_expected_len (lk_tr l) > int (k + length xs)"
  shows "mux_rfs_bytes os sv p l xs = Some (l\<lparr> lk_tr := (lk_tr l)\<lparr>
      tr_mem := mem_write (tr_mem (lk_tr l)) (p + 4 + of_nat k) xs, mem_read_len := int (k + length xs) \<rparr> \<rparr>)"
  using assms
proof (induction xs arbitrary: l k)
  case Nil
  then show ?case by simp
next
  case (Cons x xs)
  let ?l = "l\<lparr> lk_tr := (lk_tr l)\<lparr> tr_mem := (tr_mem (lk_tr l))(p + 4 + of_nat k := x), mem_read_len := int (Suc k) \<rparr> \<rparr>"
  from Cons.prems have "mux_rfs_byte os sv p l x = Some ?l"
    by (simp add: mux_rfs_byte_def rfs_mem_read_request_packet_def tr_store_def Let_def
        rfs_mem_has_response_def add.assoc)
  moreover from Cons.prems have "mux_rfs_bytes os sv p ?l xs = Some (?l\<lparr> lk_tr := (lk_tr ?l)\<lparr>
      tr_mem := mem_write (tr_mem (lk_tr ?l)) (p + 4 + of_nat (Suc k)) xs, mem_read_len := int (Suc k + length xs) \<rparr> \<rparr>)"
    by (intro Cons.IH) auto
  ultimately show ?case by (simp add: ac_simps)
qed

text \<open>Receiving the size field.\<close>

lemma feed_header:
  assumes "lk_idle l"
  shows "mux_rfs_bytes os sv p l (TYPE_PKT_SIZE # enc16 n) = Some (l\<lparr> lk_tr := (lk_tr l)\<lparr>
      tr_mem := mem_write (tr_mem (lk_tr l)) p (TYPE_PKT_SIZE # enc16 n),
      mem_read_state := MEM_STATE_READ_REQUEST, mem_read_len := 0,
      mem_expected_len := uint n - 4 \<rparr> \<rparr>)"
proof -
  let ?m = "mem_write (tr_mem (lk_tr l)) p (TYPE_PKT_SIZE # enc16 n)"
  have "eluarpc_get_packet_size ?m p = (ELUARPC_OK, n)"
    by (rule get_packet_size_hdr) (rule mem_at_write, simp)
  with assms show ?thesis
    by (simp add: enc16_def le16_def lk_idle_def mux_rfs_byte_def rfs_mem_read_request_packet_def
        tr_store_def Let_def rfs_mem_has_response_def add.assoc)
qed

text \<open>The last byte of a request makes the server execute it.\<close>

lemma feed_last:
  assumes "mem_read_state (lk_tr l) = MEM_STATE_READ_REQUEST" "mem_read_len (lk_tr l) = int k"
    and "mem_expected_len (lk_tr l) = int (Suc k)"
    and "server_execute_request os sv ((tr_mem (lk_tr l))(p + 4 + of_nat k := x)) (lk_os l) p = Some (st, m', s')"
    and "mem_at m' p (rpc_packet zs)" "packet_len zs < 65536"
  shows "\<exists>l'. mux_rfs_byte os sv p l x = Some l' \<and> lk_idle l' \<and> lk_out l' = rpc_packet zs \<and> lk_os l' = s'"
proof -
  have "eluarpc_get_packet_size m' p = (ELUARPC_OK, of_nat (packet_len zs))"
    using packet_parts(1) [OF assms(5)] by (rule get_packet_size_hdr)
  moreover have "mem_read m' p (unat (of_nat (packet_len zs) :: u16)) = rpc_packet zs"
    using assms(5,6) by (simp add: unat_of_nat_small mem_at_read)
  ultimately show ?thesis
    using assms(1-4)
    by (simp add: mux_rfs_byte_def rfs_mem_read_request_packet_def tr_store_def Let_def
        rfs_mem_has_response_def rfs_mem_write_response_def add.assoc lk_idle_def
        rfs_mem_start_request_def)
qed

lemma mux_rfs_request:
  assumes "lk_idle l" "srv_ok sv p" "req_ok q"
    and "replies os (server_basedir sv) q (lk_os l) = Some (r, s')"
  shows "\<exists>l'. mux_rfs_bytes os sv p l (rpc_packet (enc_req q)) = Some l'
    \<and> lk_idle l' \<and> lk_out l' = rpc_packet (enc_res r) \<and> lk_os l' = s'"
proof -
  let ?ys = "enc_req q"
  let ?n = "of_nat (packet_len ?ys) :: u16"
  let ?hdr = "TYPE_PKT_SIZE # enc16 ?n"
  let ?rest = "TYPE_START # enc32 PACKET_SIG @ ?ys @ TYPE_END # enc32 (NOT PACKET_SIG)"
  have len: "packet_len ?ys < 65536"
    using assms(3) by (cases q) (auto simp: packet_len_def rfs_name_def)
  define xs x where "xs = butlast ?rest" and "x = last ?rest"
  have rest: "?rest = xs @ [x]"
    unfolding xs_def x_def by (rule append_butlast_last_id [symmetric]) simp
  have "length ?rest = packet_len ?ys - 4" by (simp add: packet_len_def)
  then have lxs: "Suc (length xs) = packet_len ?ys - 4" unfolding rest by simp
  have pkt: "rpc_packet ?ys = ?hdr @ xs @ [x]" using rest by (simp add: rpc_packet_def)
  have un: "uint ?n = int (packet_len ?ys)"
  proof -
    have "unat ?n = packet_len ?ys" using len by (simp add: unat_of_nat_small)
    then show ?thesis by (simp only: uint_nat)
  qed
  let ?m = "tr_mem (lk_tr l)"
  let ?l1 = "l\<lparr> lk_tr := (lk_tr l)\<lparr> tr_mem := mem_write ?m p ?hdr,
      mem_read_state := MEM_STATE_READ_REQUEST, mem_read_len := 0, mem_expected_len := uint ?n - 4 \<rparr> \<rparr>"
  let ?l2 = "?l1\<lparr> lk_tr := (lk_tr ?l1)\<lparr> tr_mem := mem_write (tr_mem (lk_tr ?l1)) (p + 4 + of_nat 0) xs,
      mem_read_len := int (0 + length xs) \<rparr> \<rparr>"
  have 1: "mux_rfs_bytes os sv p l ?hdr = Some ?l1" by (rule feed_header [OF assms(1)])
  have 2: "mux_rfs_bytes os sv p ?l1 xs = Some ?l2"
    using lxs un assms(1) by (intro feed_request) (auto simp: lk_idle_def)
  have "mem_write ?m p (rpc_packet ?ys) =
      (mem_write (mem_write ?m p ?hdr) (p + 4) xs)(p + 4 + of_nat (length xs) := x)"
    unfolding pkt by (simp only: mem_write_append length_Cons length_enc mem_write.simps) simp
  then have m: "(tr_mem (lk_tr ?l2))(p + 4 + of_nat (length xs) := x) = mem_write ?m p (rpc_packet ?ys)"
    by simp
  have "mem_at (mem_write ?m p (rpc_packet ?ys)) p (rpc_packet ?ys)"
    using len by (intro mem_at_write) simp
  from execute_reply [OF this assms(3,2,4)] obtain m'
    where ex: "server_execute_request os sv ((tr_mem (lk_tr ?l2))(p + 4 + of_nat (length xs) := x)) (lk_os ?l2) p
        = Some (SERVER_OK, m', s')"
      and at: "mem_at m' p (rpc_packet (enc_res r))"
    unfolding m by auto
  have rlen: "packet_len (enc_res r) < 65536" by (rule replies_res_len [OF assms(4)])
  have "\<exists>l'. mux_rfs_bytes os sv p ?l2 [x] = Some l' \<and> lk_idle l' \<and> lk_out l' = rpc_packet (enc_res r) \<and> lk_os l' = s'"
    using feed_last [OF _ _ _ ex at rlen] lxs un by simp
  moreover have "mux_rfs_bytes os sv p l (?hdr @ xs @ [x]) = mux_rfs_bytes os sv p ?l2 [x]"
    by (simp only: mux_rfs_bytes_append 1 2 bind.bind_lunit)
  ultimately show ?thesis
    unfolding pkt by metis
qed

section \<open>Properties\<close>

text \<open>A one-file operating system, for the concrete instances: its state is the file's contents.\<close>

definition sample_os :: "u8 list posix" where
  "sample_os = \<lparr>
     O_APPEND = 1024, O_CREAT = 64, O_EXCL = 128, O_TRUNC = 512, O_SYNC = 4096,
     O_RDONLY = 0, O_WRONLY = 1, O_RDWR = 2, SEEK_SET = 0, SEEK_CUR = 1, SEEK_END = 2,
     sys_open = (\<lambda>s path flags mode. (if path = [47, 114, 47, 102] then 3 else minus_one, s)),
     sys_write = (\<lambda>s fd xs. if fd = 3 then (of_nat (length xs), s @ xs) else (minus_one, s)),
     sys_read = (\<lambda>s fd n. if fd = 3 then (of_nat (length (take (unat n) s)), take (unat n) s, drop (unat n) s)
        else (minus_one, [], s)),
     sys_close = (\<lambda>s fd. (0, s)),
     sys_lseek = (\<lambda>s fd off w. (if fd = 3 then of_nat (length s) else minus_one, s)),
     sys_opendir = (\<lambda>s path. (7, s)),
     sys_readdir = (\<lambda>s d. (if d = 7 then Some ([103], DT_REG) else None, s)),
     sys_closedir = (\<lambda>s d. (minus_one, s)) \<rparr>"

definition sample_srv :: srv where
  "sample_srv = \<lparr> server_basedir = [47, 114], realname = 500000 \<rparr>"

lemma sample_srv_ok: "srv_ok sample_srv 1000"
  by (simp add: srv_ok_def buf_ok_def sample_srv_def apart_def off_from_def)
    (simp add: atLeast0LessThan lessThan_nat_numeral lessThan_Suc)

section \<open>The specification\<close>

text \<open>
  What the client means by a request, in terms of the POSIX calls: names are below the base directory,
  flags and origins of a seek stand for the constants of the desktop, the entries of a directory
  are its regular files with their sizes.
\<close>

definition spec_path :: "u8 list \<Rightarrow> u8 list \<Rightarrow> u8 list" where
  "spec_path base name =
     (if name = [] then base else base @ (if last base = PLATFORM_PATH_SEPARATOR then [] else [PLATFORM_PATH_SEPARATOR]) @ name)"

definition flag_table :: "'a fcntl_scheme \<Rightarrow> (u32 \<times> u32) list" where
  "flag_table os = [(RFS_OPEN_FLAG_APPEND, O_APPEND os), (RFS_OPEN_FLAG_CREAT, O_CREAT os), (RFS_OPEN_FLAG_EXCL, O_EXCL os),
     (RFS_OPEN_FLAG_TRUNC, O_TRUNC os), (RFS_OPEN_FLAG_SYNC, O_SYNC os), (RFS_OPEN_FLAG_RDONLY, O_RDONLY os),
     (RFS_OPEN_FLAG_WRONLY, O_WRONLY os), (RFS_OPEN_FLAG_RDWR, O_RDWR os)]"

definition spec_flags :: "'a fcntl_scheme \<Rightarrow> u32 \<Rightarrow> u32" where
  "spec_flags os flags = foldr (OR) (map snd (filter (\<lambda>(r, p). flags AND r \<noteq> 0) (flag_table os))) 0"

definition spec_whence :: "'a fcntl_scheme \<Rightarrow> u32 \<Rightarrow> u32 option" where
  "spec_whence os = map_of [(RFS_LSEEK_SET, SEEK_SET os), (RFS_LSEEK_CUR, SEEK_CUR os), (RFS_LSEEK_END, SEEK_END os)]"

text \<open>The next regular file of a directory stream, with the state after reading it.\<close>

inductive next_file :: "'os posix \<Rightarrow> u32 \<Rightarrow> 'os \<Rightarrow> u8 list option \<Rightarrow> 'os \<Rightarrow> bool" for os d where
  dir_end: "sys_readdir os s d = (None, s') \<Longrightarrow> next_file os d s None s'"
| dir_file: "sys_readdir os s d = (Some (name, DT_REG), s') \<Longrightarrow> next_file os d s (Some name) s'"
| dir_other: "sys_readdir os s d = (Some (name, ty), s1) \<Longrightarrow> ty \<noteq> DT_REG \<Longrightarrow> next_file os d s1 ent s' \<Longrightarrow> next_file os d s ent s'"

inductive answers :: "'os posix \<Rightarrow> u8 list \<Rightarrow> rfs_req \<Rightarrow> 'os \<Rightarrow> rfs_res \<Rightarrow> 'os \<Rightarrow> bool" for os base where
  ans_open: "sys_open os s (spec_path base name) (spec_flags os flags) open_mode = (fd, s')
    \<Longrightarrow> answers os base (ReqOpen name flags mode) s (ResInt RFS_OP_OPEN fd) s'"
| ans_write: "sys_write os s fd xs = (n, s') \<Longrightarrow> answers os base (ReqWrite fd xs) s (ResInt RFS_OP_WRITE n) s'"
| ans_read: "sys_read os s fd n = (r, xs, s') \<Longrightarrow> answers os base (ReqRead fd n) s (ResData xs) s'"
| ans_close: "sys_close os s fd = (r, s') \<Longrightarrow> answers os base (ReqClose fd) s (ResInt RFS_OP_CLOSE r) s'"
| ans_lseek: "spec_whence os w = Some whence \<Longrightarrow> sys_lseek os s fd off whence = (r, s')
    \<Longrightarrow> answers os base (ReqLseek fd off w) s (ResInt RFS_OP_LSEEK r) s'"
| ans_lseek_none: "spec_whence os w = None \<Longrightarrow> answers os base (ReqLseek fd off w) s (ResInt RFS_OP_LSEEK minus_one) s"
| ans_opendir: "sys_opendir os s (spec_path base name) = (d, s')
    \<Longrightarrow> answers os base (ReqOpendir name) s (ResInt RFS_OP_OPENDIR d) s'"
| ans_dir_end: "next_file os d s None s' \<Longrightarrow> answers os base (ReqReaddir d) s (ResDirent None 0) s'"
| ans_dir_file: "next_file os d s (Some name) s1 \<Longrightarrow> sys_open os s1 (spec_path base name) (O_RDONLY os) open_mode = (fd, s2)
    \<Longrightarrow> fd \<noteq> minus_one \<Longrightarrow> sys_lseek os s2 fd 0 (SEEK_END os) = (fsize, s3) \<Longrightarrow> sys_close os s3 fd = (r, s')
    \<Longrightarrow> answers os base (ReqReaddir d) s (ResDirent (Some name) fsize) s'"
| ans_dir_closed: "next_file os d s (Some name) s1 \<Longrightarrow> sys_open os s1 (spec_path base name) (O_RDONLY os) open_mode = (minus_one, s')
    \<Longrightarrow> answers os base (ReqReaddir d) s (ResDirent None 0) s'"
| ans_closedir: "sys_closedir os s d = (r, s') \<Longrightarrow> answers os base (ReqClosedir d) s (ResInt RFS_OP_CLOSEDIR r) s'"

text \<open>
  The requests on which the server keeps to the specification. It does not check the room for a path,
  sends a failed read as a length, takes every type with the bit of \<open>DT_REG\<close> for a regular file (a
  link or a socket too), cuts long names, takes the descriptor 0 for a failure to open an entry and
  the descriptor \<open>-1\<close> for success, and sends the handle of a directory for the result of closing it.
\<close>

definition path_fits :: "u8 list \<Rightarrow> u8 list \<Rightarrow> bool" where
  "path_fits base name \<longleftrightarrow> base \<noteq> [] \<and> length (spec_path base name) \<le> PLATFORM_MAX_FNAME_LEN"

definition entry_ok :: "'os posix \<Rightarrow> u8 list \<Rightarrow> u8 list \<Rightarrow> 'os \<Rightarrow> bool" where
  "entry_ok os base name s \<longleftrightarrow> 0 \<notin> set name \<and> length name \<le> RFS_MAX_FNAME_SIZE \<and> path_fits base name
     \<and> fst (sys_open os s (spec_path base name) (O_RDONLY os) open_mode) \<notin> {0, minus_one}"

definition plain_types :: "'os posix \<Rightarrow> bool" where
  "plain_types os \<longleftrightarrow> (\<forall>s d name ty s'. sys_readdir os s d = (Some (name, ty), s') \<longrightarrow> (ty AND DT_REG \<noteq> 0 \<longleftrightarrow> ty = DT_REG))"

fun server_copes :: "'os posix \<Rightarrow> u8 list \<Rightarrow> rfs_req \<Rightarrow> 'os \<Rightarrow> bool" where
  "server_copes os base (ReqOpen name flags mode) s \<longleftrightarrow> path_fits base name"
| "server_copes os base (ReqOpendir name) s \<longleftrightarrow> path_fits base name"
| "server_copes os base (ReqRead fd n) s \<longleftrightarrow>
     (case sys_read os s fd n of (r, xs, _) \<Rightarrow> r = of_nat (length xs) \<and> length xs < 60000)"
| "server_copes os base (ReqReaddir d) s \<longleftrightarrow>
     plain_types os \<and> (\<forall>name s1. next_file os d s (Some name) s1 \<longrightarrow> entry_ok os base name s1)"
| "server_copes os base (ReqClosedir d) s \<longleftrightarrow> fst (sys_closedir os s d) = d"
| "server_copes os base _ s \<longleftrightarrow> True"

lemma posix_flags_spec: "posix_flags os flags = spec_flags os flags"
  by (simp add: posix_flags_def spec_flags_def flag_table_def eluarpc_replace_flag_def or.assoc)

lemma posix_flags_rdonly: "posix_flags os RFS_OPEN_FLAG_RDONLY = O_RDONLY os"
  by (simp add: posix_flags_def eluarpc_replace_flag_def RFS_OPEN_FLAG_APPEND_def RFS_OPEN_FLAG_CREAT_def RFS_OPEN_FLAG_EXCL_def
      RFS_OPEN_FLAG_TRUNC_def RFS_OPEN_FLAG_SYNC_def RFS_OPEN_FLAG_RDONLY_def RFS_OPEN_FLAG_WRONLY_def RFS_OPEN_FLAG_RDWR_def)

lemma os_lseek_spec:
  "os_lseek os s fd off w = (case spec_whence os w of None \<Rightarrow> (minus_one, s) | Some whence \<Rightarrow> sys_lseek os s fd off whence)"
  by (simp add: os_lseek_def spec_whence_def RFS_LSEEK_SET_def RFS_LSEEK_CUR_def RFS_LSEEK_END_def)

lemma server_path_spec:
  assumes "path_fits base name"
  shows "server_path base name = Some (spec_path base name)"
proof -
  have "length base \<le> PLATFORM_MAX_FNAME_LEN" "length name \<le> PLATFORM_MAX_FNAME_LEN"
    using assms by (auto simp: path_fits_def spec_path_def split: if_splits)
  then show ?thesis using assms by (cases "name = []") (auto simp: server_path_def path_fits_def spec_path_def Let_def)
qed

lemma next_file_readdir:
  assumes "next_file os d s ent s'" "plain_types os"
  shows "os_readdir os s d = Some (map_option (take RFS_MAX_FNAME_SIZE) ent, s')"
  using assms
proof (induction rule: next_file.induct)
  case (dir_other s name ty s1 ent s')
  then have "ty AND DT_REG = 0" unfolding plain_types_def by blast
  then show ?case using dir_other by (subst os_readdir.simps) simp
qed (subst os_readdir.simps; simp add: DT_REG_def)+

lemma answers_readdir:
  assumes "answers os base (ReqReaddir d) s r s'" "server_copes os base (ReqReaddir d) s"
  shows "replies os base (ReqReaddir d) s = Some (r, s')"
proof -
  have types: "plain_types os" and ok: "\<And>name s1. next_file os d s (Some name) s1 \<Longrightarrow> entry_ok os base name s1"
    using assms(2) by auto
  from assms(1) show ?thesis
  proof (cases rule: answers.cases)
    case ans_dir_end
    then show ?thesis using next_file_readdir [OF _ types] by simp
  next
    case (ans_dir_file name s1 fd s2 fsize s3 x)
    note e = ok [OF ans_dir_file(2), unfolded entry_ok_def]
    have "os_readdir os s d = Some (Some name, s1)" using next_file_readdir [OF ans_dir_file(2) types] e by simp
    moreover have "rfs_name name" using e by (simp add: rfs_name_def RFS_MAX_FNAME_SIZE_def)
    moreover have "os_open os s1 (spec_path base name) RFS_OPEN_FLAG_RDONLY 0 = (fd, s2)" "fd \<noteq> 0"
      using ans_dir_file(3) e by (auto simp: os_open_def posix_flags_rdonly)
    moreover have "os_lseek os s2 fd 0 RFS_LSEEK_END = (fsize, s3)"
      using ans_dir_file(5) by (simp add: os_lseek_spec spec_whence_def RFS_LSEEK_SET_def RFS_LSEEK_CUR_def RFS_LSEEK_END_def)
    ultimately show ?thesis using ans_dir_file(1,6) e server_path_spec by (simp add: os_close_def)
  next
    case (ans_dir_closed name s1)
    then show ?thesis using ok [OF ans_dir_closed(2)] by (simp add: entry_ok_def)
  qed
qed

lemma answers_replies:
  assumes "answers os base q s r s'" "server_copes os base q s"
  shows "replies os base q s = Some (r, s')"
proof (cases "\<exists>d. q = ReqReaddir d")
  case True
  then obtain d where d: "q = ReqReaddir d" ..
  show ?thesis using answers_readdir [OF assms [unfolded d]] by (simp only: d)
next
  case False
  from assms(1) show ?thesis
    by (cases rule: answers.cases)
      (use assms(2) False in \<open>auto simp: server_path_spec posix_flags_spec os_lseek_spec\<close>)
qed

text \<open>
  C4: the server implements its specification. Let a request be encoded in a packet at \<open>p\<close>, and let
  the POSIX calls that the request stands for give the reply \<open>r\<close>. Then \<open>server_execute_request\<close> makes
  these calls and leaves the packet of \<open>r\<close> at \<open>p\<close>. This is for the requests of \<open>server_copes\<close>: an
  \<open>open\<close> or \<open>opendir\<close> whose path fits the array, a \<open>read\<close> that the system does not refuse, any \<open>write\<close>,
  \<open>close\<close> and \<open>lseek\<close>, a \<open>readdir\<close> that comes to the end or to a file with a short name that can be opened
  with a descriptor that is not 0 (and no links or sockets among the entries), and a \<open>closedir\<close> only if
  its result happens to be the handle.
\<close>

theorem server_implements_spec:
  assumes "mem_at m p (rpc_packet (enc_req q))" "req_ok q" "srv_ok sv p"
    and "answers os (server_basedir sv) q s r s'" "server_copes os (server_basedir sv) q s"
  shows "\<exists>m'. server_execute_request os sv m s p = Some (SERVER_OK, m', s')
    \<and> mem_at m' p (rpc_packet (enc_res r))"
  by (rule execute_reply [OF assms(1-3) answers_replies [OF assms(4,5)]])

theorem server_implements_spec_witness:
  "\<exists>m'. server_execute_request sample_os sample_srv
        (mem_write (\<lambda>_. 0) 1000 (rpc_packet (enc_req (ReqRead 3 2)))) [65, 66, 67] 1000
      = Some (SERVER_OK, m', [67])
    \<and> mem_at m' 1000 (rpc_packet (enc_res (ResData [65, 66])))"
proof (rule server_implements_spec)
  show "mem_at (mem_write (\<lambda>_. 0) 1000 (rpc_packet (enc_req (ReqRead 3 2)))) 1000
      (rpc_packet (enc_req (ReqRead 3 2)))"
    by (rule mem_at_write) (simp add: packet_len_def)
  show "srv_ok sample_srv 1000" by (rule sample_srv_ok)
  show "answers sample_os (server_basedir sample_srv) (ReqRead 3 2) [65, 66, 67] (ResData [65, 66]) [67]"
    by (rule ans_read [where r = 2]) (simp add: sample_os_def)
  show "server_copes sample_os (server_basedir sample_srv) (ReqRead 3 2) [65, 66, 67]"
    by (simp add: sample_os_def)
qed simp_all

text \<open>
  closing a directory loses the result. Whatever the operating system answers to the
  \<open>closedir\<close> call, the reply carries the directory handle of the request: the handler computes
  \<open>res\<close> and sends \<open>d\<close>.
\<close>

lemma closedir_reply_ignores_result:
  assumes "mem_at m p (rpc_packet (enc_req (ReqClosedir d)))"
  shows "\<exists>m'. server_execute_request os sv m s p = Some (SERVER_OK, m', snd (sys_closedir os s d))
    \<and> mem_at m' p (rpc_packet (enc_res (ResInt RFS_OP_CLOSEDIR d)))"
  using server_closedir_reply [OF assms, of os sv s] assms
  by (auto simp: execute_op(8) intro!: mem_at_write) (simp add: packet_len_def)

theorem closedir_reply_ignores_result_witness:
  "(\<exists>m'. server_execute_request sample_os sample_srv
        (mem_write (\<lambda>_. 0) 1000 (rpc_packet (enc_req (ReqClosedir 7)))) [] 1000
      = Some (SERVER_OK, m', snd (sys_closedir sample_os [] 7))
    \<and> mem_at m' 1000 (rpc_packet (enc_res (ResInt RFS_OP_CLOSEDIR 7))))
   \<and> fst (sys_closedir sample_os [] 7) = minus_one"
proof
  have "mem_at (mem_write (\<lambda>_. 0) 1000 (rpc_packet (enc_req (ReqClosedir 7)))) 1000
      (rpc_packet (enc_req (ReqClosedir 7)))"
    by (rule mem_at_write) (simp add: packet_len_def)
  then show "\<exists>m'. server_execute_request sample_os sample_srv
        (mem_write (\<lambda>_. 0) 1000 (rpc_packet (enc_req (ReqClosedir 7)))) [] 1000
      = Some (SERVER_OK, m', snd (sys_closedir sample_os [] 7))
    \<and> mem_at m' 1000 (rpc_packet (enc_res (ResInt RFS_OP_CLOSEDIR 7)))"
    by (rule closedir_reply_ignores_result)
qed (simp add: sample_os_def)

text \<open>
  a failed read makes a broken reply. When the operating system refuses a read, the
  handler uses the error code \<open>-1\<close> as the payload length: the end marker is written one byte
  before the payload, over the top byte of the length field, which then announces
  \<open>0x06FFFFFF\<close> bytes in a packet of 22.
\<close>

lemma read_error_reply:
  assumes "mem_at m p (rpc_packet (enc_req (ReqRead fd n)))"
    and "sys_read os s fd n = (minus_one, [], s')"
  shows "\<exists>m'. server_execute_request os sv m s p = Some (SERVER_OK, m', s')
    \<and> mem_at m' p [0xA5, 2, 22, 0, 5, 3, 0x84, 0xC2, 0xAF, 0x18,
                   0x83, 4, 3, 0xFF, 0xFF, 0xFF, 6, 3, 0x7B, 0x3D, 0x50, 0xE7]"
proof -
  have "remotefs_read_read_request m p = Some (ELUARPC_OK, fd, n)"
    using assms(1) by (intro remotefs_read_read_request_packet) simp
  then have "server_read os sv m s p =
      (case remotefs_read_write_response m p minus_one of None \<Rightarrow> None | Some m' \<Rightarrow> Some (SERVER_OK, m', s'))"
    using assms(2) by (simp add: server_read_def os_read_def split: option.splits)
  moreover have "\<exists>m'. remotefs_read_write_response m p minus_one = Some m' \<and>
      mem_at m' p [0xA5, 2, 22, 0, 5, 3, 0x84, 0xC2, 0xAF, 0x18,
                   0x83, 4, 3, 0xFF, 0xFF, 0xFF, 6, 3, 0x7B, 0x3D, 0x50, 0xE7]"
    by (simp add: remotefs_read_write_response_def eluarpc_gen_write_def eluarpc_start_packet_def
        eluarpc_end_packet_def Let_def eluarpc_write_spec_def eluarpc_write_ptr_def
        eluarpc_write_u32_def eluarpc_write_u16_def put8_def RFS_OP_READ_def minus_one_def
        PACKET_SIG_def rpc_eval ELUARPC_START_OFFSET_def add.assoc)
      (simp add: unsigned_minus_1_eq_mask mask_eq_exp_minus_1)
  ultimately show ?thesis
    using assms(1) by (auto simp: execute_op(3))
qed

theorem read_error_reply_witness:
  "\<exists>m'. server_execute_request sample_os sample_srv
        (mem_write (\<lambda>_. 0) 1000 (rpc_packet (enc_req (ReqRead 9 2)))) [65] 1000 = Some (SERVER_OK, m', [65])
    \<and> mem_at m' 1000 [0xA5, 2, 22, 0, 5, 3, 0x84, 0xC2, 0xAF, 0x18,
                   0x83, 4, 3, 0xFF, 0xFF, 0xFF, 6, 3, 0x7B, 0x3D, 0x50, 0xE7]"
proof (rule read_error_reply)
  show "mem_at (mem_write (\<lambda>_. 0) 1000 (rpc_packet (enc_req (ReqRead 9 2)))) 1000
      (rpc_packet (enc_req (ReqRead 9 2)))"
    by (rule mem_at_write) (simp add: packet_len_def)
qed (simp add: sample_os_def)

text \<open>
  a directory entry that cannot be opened is reported with a size. The handler takes any
  non-zero descriptor for success, and \<open>os_open\<close> fails with \<open>-1\<close>: when neither the open nor
  the seek on descriptor \<open>-1\<close> succeeds, the reply still names the file and gives it the size
  \<open>0xFFFFFFFF\<close>, instead of the empty reply the code prepares for this case.
\<close>

lemma readdir_unopenable_entry:
  assumes "mem_at m p (rpc_packet (enc_req (ReqReaddir d)))" "srv_ok sv p"
    and "os_readdir os s d = Some (Some fname, s1)" "rfs_name fname"
    and "server_path (server_basedir sv) fname = Some full"
    and "os_open os s1 full RFS_OPEN_FLAG_RDONLY 0 = (minus_one, s2)"
    and "os_lseek os s2 minus_one 0 RFS_LSEEK_END = (minus_one, s3)"
  shows "\<exists>m'. server_execute_request os sv m s p = Some (SERVER_OK, m', snd (os_close os s3 minus_one))
    \<and> mem_at m' p (rpc_packet (enc_res (ResDirent (Some fname) 0xFFFFFFFF)))"
proof -
  have "minus_one \<noteq> 0" "minus_one = 0xFFFFFFFF" by (simp_all add: minus_one_def)
  with assms(3-7) have "replies os (server_basedir sv) (ReqReaddir d) s =
      Some (ResDirent (Some fname) 0xFFFFFFFF, snd (os_close os s3 minus_one))"
    by (simp add: split_beta Let_def)
  then show ?thesis
    by (intro execute_reply [OF assms(1) _ assms(2)]) simp_all
qed

theorem readdir_unopenable_entry_witness:
  "\<exists>m'. server_execute_request sample_os sample_srv
        (mem_write (\<lambda>_. 0) 1000 (rpc_packet (enc_req (ReqReaddir 7)))) [65] 1000
      = Some (SERVER_OK, m', snd (os_close sample_os [65] minus_one))
    \<and> mem_at m' 1000 (rpc_packet (enc_res (ResDirent (Some [103]) 0xFFFFFFFF)))"
proof (rule readdir_unopenable_entry)
  show "mem_at (mem_write (\<lambda>_. 0) 1000 (rpc_packet (enc_req (ReqReaddir 7)))) 1000
      (rpc_packet (enc_req (ReqReaddir 7)))"
    by (rule mem_at_write) (simp add: packet_len_def)
  show "srv_ok sample_srv 1000" by (rule sample_srv_ok)
  show "os_readdir sample_os [65] 7 = Some (Some [103], [65])"
    by (simp add: os_readdir.simps sample_os_def DT_REG_def RFS_MAX_FNAME_SIZE_def)
  show "rfs_name [103]" by (simp add: rfs_name_def)
  show "server_path (server_basedir sample_srv) [103] = Some [47, 114, 47, 103]"
    by (simp add: server_path_def sample_srv_def PLATFORM_MAX_FNAME_LEN_def PLATFORM_PATH_SEPARATOR_def)
  show "os_open sample_os [65] [47, 114, 47, 103] RFS_OPEN_FLAG_RDONLY 0 = (minus_one, [65])"
    by (simp add: os_open_def sample_os_def)
  show "os_lseek sample_os [65] minus_one 0 RFS_LSEEK_END = (minus_one, [65])"
    by (simp add: os_lseek_def sample_os_def minus_one_def RFS_LSEEK_SET_def RFS_LSEEK_CUR_def RFS_LSEEK_END_def)
qed

end
