(* ===== verification/RfsClient.thy ===== *)
theory RfsClient
  imports RfsServer
begin

text \<open>
  The target side of the remote file system: \<open>src/remotefs/client.c\<close> (one remote call per
  operation), \<open>src/remotefs/elua_os_io.c\<close> (flag translation) and \<open>src/remotefs/elua_rfs.c\<close>
  (the device functions, with reads and writes cut into pieces that fit the packet buffer).

  The transport is the pair of functions given to \<open>rfsc_setup\<close>, on an abstract link state;
  a send whose peer is undefined is \<open>None\<close>. The locale \<open>rfs_recv\<close> is what a receive
  function promises, \<open>rfs_service\<close> what a link with a server behind it promises, and the
  client's behaviour is proved once inside them. They are interpreted on the multiplexer link
  of \<open>RfsServer\<close>, which gives the end-to-end properties.
\<close>

section \<open>Client\<close>

datatype client_status = CLIENT_OK | CLIENT_ERR

record 'l rfsc =
  rfsc_buffer :: u32
  rfsc_send :: "'l \<Rightarrow> u8 list \<Rightarrow> (u32 \<times> 'l) option"
  rfsc_recv :: "'l \<Rightarrow> u32 \<Rightarrow> u32 \<Rightarrow> u8 list \<times> 'l"
  rfsc_timeout :: u32

definition rfsc_setup ::
  "u32 \<Rightarrow> ('l \<Rightarrow> u8 list \<Rightarrow> (u32 \<times> 'l) option) \<Rightarrow> ('l \<Rightarrow> u32 \<Rightarrow> u32 \<Rightarrow> u8 list \<times> 'l) \<Rightarrow> u32 \<Rightarrow> 'l rfsc" where
  "rfsc_setup pbuf send_func recv_func timeout =
     \<lparr> rfsc_buffer = pbuf, rfsc_send = send_func, rfsc_recv = recv_func, rfsc_timeout = timeout \<rparr>"

definition rfsc_set_timeout :: "u32 \<Rightarrow> 'l rfsc \<Rightarrow> 'l rfsc" where
  "rfsc_set_timeout timeout c = c\<lparr> rfsc_timeout := timeout \<rparr>"

text \<open>
  \<open>while( rfsc_recv( rfsc_buffer, 1, 0 ) == 1 );\<close>, which stores each byte it throws away at
  the start of the buffer the request was just built in.
\<close>

partial_function (option) rfsc_drain :: "'l rfsc \<Rightarrow> mem \<Rightarrow> 'l \<Rightarrow> (mem \<times> 'l) option" where
  "rfsc_drain c m l =
     (case rfsc_recv c l 1 0 of (xs, l) \<Rightarrow>
        if length xs = 1 then rfsc_drain c (mem_write m (rfsc_buffer c) xs) l
        else Some (mem_write m (rfsc_buffer c) xs, l))"

definition rfsch_send_request_read_response ::
  "'l rfsc \<Rightarrow> mem \<Rightarrow> 'l \<Rightarrow> (client_status \<times> mem \<times> 'l) option" where
  "rfsch_send_request_read_response c m l =
     do { let b = rfsc_buffer c;
          (m, l) \<leftarrow> rfsc_drain c m l;
          let (st, temp16) = eluarpc_get_packet_size m b;
          if st = ELUARPC_ERR then Some (CLIENT_ERR, m, l)
          else do {
            (sent, l) \<leftarrow> rfsc_send c l (mem_read m b (unat temp16));
            if sent \<noteq> ucast temp16 then Some (CLIENT_ERR, m, l)
            else
              let (xs, l) = rfsc_recv c l ELUARPC_START_OFFSET (rfsc_timeout c);
                  m = mem_write m b xs
              in if of_nat (length xs) \<noteq> ELUARPC_START_OFFSET then Some (CLIENT_ERR, m, l)
              else
                let (st, temp16) = eluarpc_get_packet_size m b in
                if st = ELUARPC_ERR then Some (CLIENT_ERR, m, l)
                else
                  let n = ucast temp16 - ELUARPC_START_OFFSET;
                      (xs, l) = rfsc_recv c l n (rfsc_timeout c);
                      m = mem_write m (b + ELUARPC_START_OFFSET) xs
                  in Some (if of_nat (length xs) \<noteq> n then CLIENT_ERR else CLIENT_OK, m, l) } }"

definition rfsc_open ::
  "'a fcntl_scheme \<Rightarrow> 'l rfsc \<Rightarrow> mem \<Rightarrow> 'l \<Rightarrow> u32 \<Rightarrow> u32 \<Rightarrow> u32 \<Rightarrow> (u32 \<times> mem \<times> 'l) option" where
  "rfsc_open fc c m l pathname flags mode =
     do { m \<leftarrow> remotefs_open_write_request m (rfsc_buffer c) pathname
                 (os_open_sys_flags_to_rfs_flags fc flags) mode;
          (st, m, l) \<leftarrow> rfsch_send_request_read_response c m l;
          if st = CLIENT_ERR then Some (minus_one, m, l)
          else do {
            (st, fd) \<leftarrow> remotefs_open_read_response m (rfsc_buffer c);
            Some (if st = ELUARPC_ERR then minus_one else fd, m, l) } }"

definition rfsc_write ::
  "'l rfsc \<Rightarrow> mem \<Rightarrow> 'l \<Rightarrow> u32 \<Rightarrow> u32 \<Rightarrow> u32 \<Rightarrow> (u32 \<times> mem \<times> 'l) option" where
  "rfsc_write c m l fd buf count =
     do { m \<leftarrow> remotefs_write_write_request m (rfsc_buffer c) fd buf count;
          (st, m, l) \<leftarrow> rfsch_send_request_read_response c m l;
          if st = CLIENT_ERR then Some (minus_one, m, l)
          else do {
            (st, count) \<leftarrow> remotefs_write_read_response m (rfsc_buffer c);
            Some (if st = ELUARPC_ERR then minus_one else count, m, l) } }"

definition rfsc_read ::
  "'l rfsc \<Rightarrow> mem \<Rightarrow> 'l \<Rightarrow> u32 \<Rightarrow> u32 \<Rightarrow> u32 \<Rightarrow> (u32 \<times> mem \<times> 'l) option" where
  "rfsc_read c m l fd buf count =
     do { m \<leftarrow> remotefs_read_write_request m (rfsc_buffer c) fd count;
          (st, m, l) \<leftarrow> rfsch_send_request_read_response c m l;
          if st = CLIENT_ERR then Some (minus_one, m, l)
          else do {
            (st, resbuf, count) \<leftarrow> remotefs_read_read_response m (rfsc_buffer c);
            if st = ELUARPC_ERR then Some (minus_one, m, l)
            else Some (count, memcpy m buf resbuf (unat count), l) } }"

definition rfsc_lseek ::
  "'a fcntl_scheme \<Rightarrow> 'l rfsc \<Rightarrow> mem \<Rightarrow> 'l \<Rightarrow> u32 \<Rightarrow> u32 \<Rightarrow> u32 \<Rightarrow> (u32 \<times> mem \<times> 'l) option" where
  "rfsc_lseek fc c m l fd offset whence =
     do { m \<leftarrow> remotefs_lseek_write_request m (rfsc_buffer c) fd offset
                 (os_lseek_sys_whence_to_rfs_whence fc whence);
          (st, m, l) \<leftarrow> rfsch_send_request_read_response c m l;
          if st = CLIENT_ERR then Some (minus_one, m, l)
          else do {
            (st, res) \<leftarrow> remotefs_lseek_read_response m (rfsc_buffer c);
            Some (if st = ELUARPC_ERR then minus_one else res, m, l) } }"

definition rfsc_close :: "'l rfsc \<Rightarrow> mem \<Rightarrow> 'l \<Rightarrow> u32 \<Rightarrow> (u32 \<times> mem \<times> 'l) option" where
  "rfsc_close c m l fd =
     do { m \<leftarrow> remotefs_close_write_request m (rfsc_buffer c) fd;
          (st, m, l) \<leftarrow> rfsch_send_request_read_response c m l;
          if st = CLIENT_ERR then Some (minus_one, m, l)
          else do {
            (st, res) \<leftarrow> remotefs_close_read_response m (rfsc_buffer c);
            Some (if st = ELUARPC_ERR then minus_one else res, m, l) } }"

definition rfsc_opendir :: "'l rfsc \<Rightarrow> mem \<Rightarrow> 'l \<Rightarrow> u32 \<Rightarrow> (u32 \<times> mem \<times> 'l) option" where
  "rfsc_opendir c m l name =
     do { m \<leftarrow> remotefs_opendir_write_request m (rfsc_buffer c) name;
          (st, m, l) \<leftarrow> rfsch_send_request_read_response c m l;
          if st = CLIENT_ERR then Some (0, m, l)
          else do {
            (st, res) \<leftarrow> remotefs_opendir_read_response m (rfsc_buffer c);
            Some (if st = ELUARPC_ERR then 0 else res, m, l) } }"

text \<open>Gives the values left in \<open>*pname\<close>, \<open>*psize\<close> and \<open>*ptime\<close>.\<close>

definition rfsc_readdir ::
  "'l rfsc \<Rightarrow> mem \<Rightarrow> 'l \<Rightarrow> u32 \<Rightarrow> (u32 \<times> u32 \<times> u32) \<Rightarrow> ((u32 \<times> u32 \<times> u32) \<times> mem \<times> 'l) option" where
  "rfsc_readdir c m l d old =
     do { m \<leftarrow> remotefs_readdir_write_request m (rfsc_buffer c) d;
          (st, m, l) \<leftarrow> rfsch_send_request_read_response c m l;
          if st = CLIENT_ERR then Some ((NULL, snd old), m, l)
          else do {
            (st, name, fsize, ftime) \<leftarrow> remotefs_readdir_read_response m (rfsc_buffer c);
            Some ((if st = ELUARPC_ERR then NULL else name, fsize, ftime), m, l) } }"

definition rfsc_closedir :: "'l rfsc \<Rightarrow> mem \<Rightarrow> 'l \<Rightarrow> u32 \<Rightarrow> (u32 \<times> mem \<times> 'l) option" where
  "rfsc_closedir c m l d =
     do { m \<leftarrow> remotefs_closedir_write_request m (rfsc_buffer c) d;
          (st, m, l) \<leftarrow> rfsch_send_request_read_response c m l;
          if st = CLIENT_ERR then Some (minus_one, m, l)
          else do {
            (st, res) \<leftarrow> remotefs_closedir_read_response m (rfsc_buffer c);
            Some (if st = ELUARPC_ERR then minus_one else res, m, l) } }"

section \<open>Device functions\<close>

text \<open>
  \<open>RFS_REAL_BUFFER_SIZE\<close> for a serial buffer of \<open>1 << k\<close> bytes, and the two loops of
  \<open>elua_rfs.c\<close>. The comparison \<open>res < towrite\<close> is unsigned.
\<close>

definition RFS_REAL_BUFFER_SIZE :: "nat \<Rightarrow> u32" where
  "RFS_REAL_BUFFER_SIZE k = push_bit k 1 - (4 + 6 + 2 + 5 + 6 + 6)"

definition rfs_chunk :: "nat \<Rightarrow> u32 \<Rightarrow> u32" where
  "rfs_chunk k len = (if len > RFS_REAL_BUFFER_SIZE k then RFS_REAL_BUFFER_SIZE k else len)"

partial_function (option) rfs_write_loop ::
  "nat \<Rightarrow> 'l rfsc \<Rightarrow> mem \<Rightarrow> 'l \<Rightarrow> u32 \<Rightarrow> u32 \<Rightarrow> u32 \<Rightarrow> u32 \<Rightarrow> (u32 \<times> mem \<times> 'l) option" where
  "rfs_write_loop k c m l fd p len tot =
     (if len = 0 then Some (tot, m, l)
      else
        Option.bind (rfsc_write c m l fd p (rfs_chunk k len)) (\<lambda>(res, m, l).
          if res = minus_one then Some (tot, m, l)
          else if res < rfs_chunk k len then Some (tot + res, m, l)
          else rfs_write_loop k c m l fd (p + rfs_chunk k len) (len - rfs_chunk k len) (tot + res)))"

partial_function (option) rfs_read_loop ::
  "nat \<Rightarrow> 'l rfsc \<Rightarrow> mem \<Rightarrow> 'l \<Rightarrow> u32 \<Rightarrow> u32 \<Rightarrow> u32 \<Rightarrow> u32 \<Rightarrow> (u32 \<times> mem \<times> 'l) option" where
  "rfs_read_loop k c m l fd p len tot =
     (if len = 0 then Some (tot, m, l)
      else
        Option.bind (rfsc_read c m l fd p (rfs_chunk k len)) (\<lambda>(res, m, l).
          if res = minus_one then Some (tot, m, l)
          else if res < rfs_chunk k len then Some (tot + res, m, l)
          else rfs_read_loop k c m l fd (p + rfs_chunk k len) (len - rfs_chunk k len) (tot + res)))"



text \<open>The directory entry, or nothing when there is no name.\<close>

definition rfs_readdir_r ::
  "'l rfsc \<Rightarrow> mem \<Rightarrow> 'l \<Rightarrow> u32 \<Rightarrow> (u32 \<times> u32 \<times> u32) \<Rightarrow> ((u32 \<times> u32 \<times> u32) option \<times> mem \<times> 'l) option" where
  "rfs_readdir_r c m l d ent =
     do { (ent, m, l) \<leftarrow> rfsc_readdir c m l d ent;
          Some (if fst ent = NULL then None else Some ent, m, l) }"

section \<open>The serial transport\<close>

text \<open>
  \<open>rfs_send\<close> and \<open>rfs_recv\<close> over the platform's UART, which is a parameter: a
  receive gives a byte or, after the timeout, none.
\<close>

fun rfs_send :: "('u \<Rightarrow> u8 \<Rightarrow> 'u option) \<Rightarrow> 'u \<Rightarrow> u8 list \<Rightarrow> (u32 \<times> 'u) option" where
  "rfs_send platform_uart_send u [] = Some (0, u)"
| "rfs_send platform_uart_send u (x # xs) =
     do { u \<leftarrow> platform_uart_send u x;
          (n, u) \<leftarrow> rfs_send platform_uart_send u xs;
          Some (n + 1, u) }"

fun rfs_recv_n :: "('u \<Rightarrow> u32 \<Rightarrow> u8 option \<times> 'u) \<Rightarrow> 'u \<Rightarrow> nat \<Rightarrow> u32 \<Rightarrow> u8 list \<times> 'u" where
  "rfs_recv_n platform_uart_recv u 0 timeout = ([], u)"
| "rfs_recv_n platform_uart_recv u (Suc n) timeout =
     (case platform_uart_recv u timeout of
        (None, u) \<Rightarrow> ([], u)
      | (Some x, u) \<Rightarrow> (case rfs_recv_n platform_uart_recv u n timeout of (xs, u) \<Rightarrow> (x # xs, u)))"

definition rfs_recv :: "('u \<Rightarrow> u32 \<Rightarrow> u8 option \<times> 'u) \<Rightarrow> 'u \<Rightarrow> u32 \<Rightarrow> u32 \<Rightarrow> u8 list \<times> 'u" where
  "rfs_recv platform_uart_recv u n timeout = rfs_recv_n platform_uart_recv u (unat n) timeout"

section \<open>What the client relies on\<close>

text \<open>A receive function gives the next waiting bytes, at most as many as asked for.\<close>

locale rfs_recv_link =
  fixes recv :: "'l \<Rightarrow> u32 \<Rightarrow> u32 \<Rightarrow> u8 list \<times> 'l"
    and pending :: "'l \<Rightarrow> u8 list"
    and peer :: "'l \<Rightarrow> 's"
    and ready :: "'l \<Rightarrow> bool"
  assumes recv_take: "recv l n t = (xs, l')
      \<Longrightarrow> xs = take (unat n) (pending l) \<and> pending l' = drop (unat n) (pending l)"
    and recv_peer: "recv l n t = (xs, l') \<Longrightarrow> peer l' = peer l \<and> ready l' = ready l"
begin

lemma recv_all:
  assumes "pending l = xs @ ys" "unat n = length xs"
  shows "\<exists>l'. recv l n t = (xs, l') \<and> pending l' = ys \<and> peer l' = peer l \<and> ready l' = ready l"
proof (cases "recv l n t")
  case (Pair zs l')
  from recv_take [OF Pair] recv_peer [OF Pair] assms Pair show ?thesis by auto
qed

text \<open>Draining throws the waiting bytes away and leaves the last of them in the buffer.\<close>

lemma drain:
  assumes "rfsc_recv c = recv"
  shows "\<exists>l'. rfsc_drain c m l =
      Some (if pending l = [] then m else m(rfsc_buffer c := last (pending l)), l')
    \<and> pending l' = [] \<and> peer l' = peer l \<and> ready l' = ready l"
proof (induction "pending l" arbitrary: m l)
  case Nil
  with recv_all [of l "[]" "[]" 0] obtain l' where "recv l 1 0 = ([], l')" "pending l' = []"
    "peer l' = peer l" "ready l' = ready l"
    using recv_take [of l 1 0] recv_peer [of l 1 0] by (cases "recv l 1 0") fastforce
  with Nil assms show ?case by (subst rfsc_drain.simps) auto
next
  case (Cons x xs)
  then obtain l1 where l1: "recv l 1 0 = ([x], l1)" "pending l1 = xs" "peer l1 = peer l" "ready l1 = ready l"
    using recv_all [of l "[x]" xs 1 0] by auto
  from Cons.hyps(1) [of l1 "mem_write m (rfsc_buffer c) [x]"] l1(2) obtain l' where
    "rfsc_drain c (mem_write m (rfsc_buffer c) [x]) l1 =
      Some (if xs = [] then m(rfsc_buffer c := x) else m(rfsc_buffer c := last xs), l')"
    "pending l' = [] \<and> peer l' = peer l1 \<and> ready l' = ready l1"
    by auto
  with l1 assms Cons.hyps(2) [symmetric] show ?case
    by (subst rfsc_drain.simps) auto
qed

end

text \<open>
  A link with a server behind it: a request sent over an idle link is taken whole, and its
  reply is then waiting. \<open>serves\<close> is what the server at the other end answers.
\<close>

locale rfs_service = rfs_recv_link recv pending peer ready
  for recv :: "'l \<Rightarrow> u32 \<Rightarrow> u32 \<Rightarrow> u8 list \<times> 'l" and pending and peer :: "'l \<Rightarrow> 's" and ready +
  fixes send :: "'l \<Rightarrow> u8 list \<Rightarrow> (u32 \<times> 'l) option"
    and serves :: "'s \<Rightarrow> rfs_req \<Rightarrow> (rfs_res \<times> 's) option"
  assumes send_request: "\<lbrakk> ready l; req_ok q; serves (peer l) q = Some (r, s') \<rbrakk>
      \<Longrightarrow> \<exists>l'. send l (rpc_packet (enc_req q)) = Some (of_nat (packet_len (enc_req q)), l')
        \<and> pending l' = rpc_packet (enc_res r) \<and> peer l' = s' \<and> ready l'"
    and reply_len: "serves s q = Some (r, s') \<Longrightarrow> packet_len (enc_res r) < 65536"
begin

definition client :: "'l rfsc \<Rightarrow> bool" where
  "client c \<longleftrightarrow> rfsc_send c = send \<and> rfsc_recv c = recv \<and> buf_ok (rfsc_buffer c)"

definition idle :: "'l \<Rightarrow> bool" where
  "idle l \<longleftrightarrow> ready l \<and> pending l = []"

lemma exchange:
  assumes "client c" "idle l" "req_ok q" "serves (peer l) q = Some (r, s')"
    and "mem_at m (rfsc_buffer c) (rpc_packet (enc_req q))"
  shows "\<exists>l'. rfsch_send_request_read_response c m l =
      Some (CLIENT_OK, mem_write m (rfsc_buffer c) (rpc_packet (enc_res r)), l')
    \<and> idle l' \<and> peer l' = s'"
proof -
  let ?b = "rfsc_buffer c"
  let ?n = "packet_len (enc_req q)" and ?k = "packet_len (enc_res r)"
  have n: "?n < 65536" using assms(3) by (cases q) (auto simp: packet_len_def rfs_name_def)
  have k: "?k < 65536" by (rule reply_len [OF assms(4)])
  have c: "rfsc_send c = send" "rfsc_recv c = recv" using assms(1) by (simp_all add: client_def)
  from assms(2) have l: "ready l" "pending l = []" by (simp_all add: idle_def)
  from drain [OF c(2), of m l] l obtain l0 where
    l0: "rfsc_drain c m l = Some (m, l0)" "ready l0" "peer l0 = peer l" by auto
  have size: "eluarpc_get_packet_size m ?b = (ELUARPC_OK, of_nat ?n)"
    by (rule get_packet_size_hdr [OF packet_parts(1) [OF assms(5)]])
  have rd: "mem_read m ?b (unat (of_nat ?n :: u16)) = rpc_packet (enc_req q)"
    using assms(5) n by (simp add: unat_of_nat_small mem_at_read)
  from send_request [OF l0(2) assms(3), of r s'] assms(4) l0(3) obtain l1 where
    l1: "send l0 (rpc_packet (enc_req q)) = Some (of_nat ?n, l1)" "pending l1 = rpc_packet (enc_res r)"
      "peer l1 = s'" "ready l1" by auto
  have sent: "(of_nat ?n :: u32) = ucast (of_nat ?n :: u16)"
    using n by (intro word_unat_eq_iff [THEN iffD2]) (simp add: unat_of_nat_small unat_ucast_up)
  let ?hdr = "TYPE_PKT_SIZE # enc16 (of_nat ?k)"
  let ?rest = "TYPE_START # enc32 PACKET_SIG @ enc_res r @ TYPE_END # enc32 (NOT PACKET_SIG)"
  have pkt: "rpc_packet (enc_res r) = ?hdr @ ?rest" by (simp add: rpc_packet_def)
  from recv_all [of l1 ?hdr ?rest ELUARPC_START_OFFSET "rfsc_timeout c"] l1 pkt obtain l2 where
    l2: "recv l1 ELUARPC_START_OFFSET (rfsc_timeout c) = (?hdr, l2)" "pending l2 = ?rest"
      "peer l2 = s'" "ready l2" by (auto simp: ELUARPC_START_OFFSET_def)
  let ?m1 = "mem_write m ?b ?hdr"
  have size1: "eluarpc_get_packet_size ?m1 ?b = (ELUARPC_OK, of_nat ?k)"
    by (rule get_packet_size_hdr [OF mem_at_write]) simp
  let ?w = "ucast (of_nat ?k :: u16) - ELUARPC_START_OFFSET"
  have un: "unat (ucast (of_nat K :: u16) :: u32) = K" if "K < 65536" for K
    using that by (simp add: unat_ucast_up unat_of_nat_small)
  have w: "unat ?w = length ?rest"
  proof -
    have "unat (x - 4) = unat x - 4" if "4 \<le> unat x" for x :: u32
      using that by (simp add: unat_sub word_le_nat_alt)
    from this [of "ucast (of_nat ?k :: u16)"] un [OF k] show ?thesis
      by (simp add: packet_len_def ELUARPC_START_OFFSET_def)
  qed
  then have w': "of_nat (length ?rest) = ?w" by (simp only: w [symmetric]) simp
  from recv_all [of l2 ?rest "[]" ?w "rfsc_timeout c"] l2 w obtain l3 where
    l3: "recv l2 ?w (rfsc_timeout c) = (?rest, l3)" "pending l3 = []" "peer l3 = s'" "ready l3" by auto
  have "mem_write ?m1 (?b + ELUARPC_START_OFFSET) ?rest = mem_write m ?b (rpc_packet (enc_res r))"
    unfolding pkt mem_write_append by (simp add: ELUARPC_START_OFFSET_def)
  with l0 size rd l1 sent l2 size1 l3 w' c show ?thesis
    by (simp add: rfsch_send_request_read_response_def Let_def ELUARPC_START_OFFSET_def idle_def del: mem_write.simps)
qed

end

context rfs_service
begin

text \<open>
  Each client call is the server's answer: what \<open>serves\<close> says is what the call returns, the
  link is idle again and only the packet buffer (and the destination of a read) has changed.
\<close>

lemma exchange_at:
  assumes "client c" "idle l" "req_ok q" "serves (peer l) q = Some (r, s')"
  shows "\<exists>l'. rfsch_send_request_read_response c (mem_write m (rfsc_buffer c) (rpc_packet (enc_req q))) l =
      Some (CLIENT_OK, mem_write (mem_write m (rfsc_buffer c) (rpc_packet (enc_req q)))
        (rfsc_buffer c) (rpc_packet (enc_res r)), l')
    \<and> idle l' \<and> peer l' = s'"
proof (rule exchange [OF assms])
  have "packet_len (enc_req q) < 65536"
    using assms(3) by (cases q) (auto simp: packet_len_def rfs_name_def)
  then show "mem_at (mem_write m (rfsc_buffer c) (rpc_packet (enc_req q))) (rfsc_buffer c) (rpc_packet (enc_req q))"
    by (intro mem_at_write) simp
qed

lemma reply_at:
  "serves s q = Some (r, s') \<Longrightarrow> mem_at (mem_write m b (rpc_packet (enc_res r))) b (rpc_packet (enc_res r))"
  by (intro mem_at_write) (simp add: reply_len less_imp_le order_less_le_trans [OF reply_len])

text \<open>The memory after a call: the request and the reply have been in the buffer.\<close>

definition after_call :: "'l rfsc \<Rightarrow> mem \<Rightarrow> rfs_req \<Rightarrow> rfs_res \<Rightarrow> mem" where
  "after_call c m q r = mem_write (mem_write m (rfsc_buffer c) (rpc_packet (enc_req q)))
     (rfsc_buffer c) (rpc_packet (enc_res r))"

lemma close_call:
  assumes "client c" "idle l" "serves (peer l) (ReqClose fd) = Some (ResInt RFS_OP_CLOSE r, s')"
  shows "\<exists>l'. rfsc_close c m l fd = Some (r, after_call c m (ReqClose fd) (ResInt RFS_OP_CLOSE r), l')
    \<and> idle l' \<and> peer l' = s'"
proof -
  let ?b = "rfsc_buffer c" and ?q = "ReqClose fd"
  have ok: "req_ok ?q" by simp
  have wr: "remotefs_close_write_request m ?b fd = Some (mem_write m ?b (rpc_packet (enc_req ?q)))"
    by (simp add: msg_write)
  obtain l' where ex: "rfsch_send_request_read_response c (mem_write m ?b (rpc_packet (enc_req ?q))) l =
      Some (CLIENT_OK, after_call c m ?q (ResInt RFS_OP_CLOSE r), l')" "idle l'" "peer l' = s'"
    using exchange_at [OF assms(1,2) ok assms(3), of m] by (auto simp: after_call_def)
  have "remotefs_close_read_response (after_call c m ?q (ResInt RFS_OP_CLOSE r)) ?b = Some (ELUARPC_OK, r)"
    using reply_at [OF assms(3), of _ ?b] by (intro remotefs_close_read_response_packet) (simp add: after_call_def)
  with ex wr show ?thesis
    by (simp add: rfsc_close_def)
qed

lemma closedir_call:
  assumes "client c" "idle l" "serves (peer l) (ReqClosedir d) = Some (ResInt RFS_OP_CLOSEDIR r, s')"
  shows "\<exists>l'. rfsc_closedir c m l d = Some (r, after_call c m (ReqClosedir d) (ResInt RFS_OP_CLOSEDIR r), l')
    \<and> idle l' \<and> peer l' = s'"
proof -
  let ?b = "rfsc_buffer c" and ?q = "ReqClosedir d"
  have ok: "req_ok ?q" by simp
  have wr: "remotefs_closedir_write_request m ?b d = Some (mem_write m ?b (rpc_packet (enc_req ?q)))"
    by (simp add: msg_write)
  obtain l' where ex: "rfsch_send_request_read_response c (mem_write m ?b (rpc_packet (enc_req ?q))) l =
      Some (CLIENT_OK, after_call c m ?q (ResInt RFS_OP_CLOSEDIR r), l')" "idle l'" "peer l' = s'"
    using exchange_at [OF assms(1,2) ok assms(3), of m] by (auto simp: after_call_def)
  have "remotefs_closedir_read_response (after_call c m ?q (ResInt RFS_OP_CLOSEDIR r)) ?b = Some (ELUARPC_OK, r)"
    using reply_at [OF assms(3), of _ ?b] by (intro remotefs_closedir_read_response_packet) (simp add: after_call_def)
  with ex wr show ?thesis
    by (simp add: rfsc_closedir_def)
qed

lemma lseek_call:
  assumes "client c" "idle l" "serves (peer l) (ReqLseek fd off (os_lseek_sys_whence_to_rfs_whence fc w)) = Some (ResInt RFS_OP_LSEEK r, s')"
  shows "\<exists>l'. rfsc_lseek fc c m l fd off w = Some (r, after_call c m (ReqLseek fd off (os_lseek_sys_whence_to_rfs_whence fc w)) (ResInt RFS_OP_LSEEK r), l')
    \<and> idle l' \<and> peer l' = s'"
proof -
  let ?b = "rfsc_buffer c" and ?q = "ReqLseek fd off (os_lseek_sys_whence_to_rfs_whence fc w)"
  have ok: "req_ok ?q" by simp
  have wr: "remotefs_lseek_write_request m ?b fd off (os_lseek_sys_whence_to_rfs_whence fc w) =
      Some (mem_write m ?b (rpc_packet (enc_req ?q)))"
    by (simp add: msg_write)
  obtain l' where ex: "rfsch_send_request_read_response c (mem_write m ?b (rpc_packet (enc_req ?q))) l =
      Some (CLIENT_OK, after_call c m ?q (ResInt RFS_OP_LSEEK r), l')" "idle l'" "peer l' = s'"
    using exchange_at [OF assms(1,2) ok assms(3), of m] by (auto simp: after_call_def)
  have "remotefs_lseek_read_response (after_call c m ?q (ResInt RFS_OP_LSEEK r)) ?b = Some (ELUARPC_OK, r)"
    using reply_at [OF assms(3), of _ ?b] by (intro remotefs_lseek_read_response_packet) (simp add: after_call_def)
  with ex wr show ?thesis
    by (simp add: rfsc_lseek_def)
qed

lemma open_call:
  assumes "client c" "idle l" "serves (peer l) (ReqOpen name (os_open_sys_flags_to_rfs_flags fc flags) mode) = Some (ResInt RFS_OP_OPEN r, s')"
    and "rfs_name name" "a \<noteq> NULL" "ptr_arg m (rfsc_buffer c) (rfsc_buffer c + 12) a (name @ [0])"
  shows "\<exists>l'. rfsc_open fc c m l a flags mode = Some (r, after_call c m (ReqOpen name (os_open_sys_flags_to_rfs_flags fc flags) mode) (ResInt RFS_OP_OPEN r), l')
    \<and> idle l' \<and> peer l' = s'"
proof -
  let ?b = "rfsc_buffer c" and ?q = "ReqOpen name (os_open_sys_flags_to_rfs_flags fc flags) mode"
  have ok: "req_ok ?q" using assms(4) by simp
  have wr: "remotefs_open_write_request m ?b a (os_open_sys_flags_to_rfs_flags fc flags) mode =
      Some (mem_write m ?b (rpc_packet (enc_req ?q)))"
    using msg_write_ptrs(3) [OF assms(6,5)] assms(4) by (simp add: rfs_name_def)
  obtain l' where ex: "rfsch_send_request_read_response c (mem_write m ?b (rpc_packet (enc_req ?q))) l =
      Some (CLIENT_OK, after_call c m ?q (ResInt RFS_OP_OPEN r), l')" "idle l'" "peer l' = s'"
    using exchange_at [OF assms(1,2) ok assms(3), of m] by (auto simp: after_call_def)
  have "remotefs_open_read_response (after_call c m ?q (ResInt RFS_OP_OPEN r)) ?b = Some (ELUARPC_OK, r)"
    using reply_at [OF assms(3), of _ ?b] by (intro remotefs_open_read_response_packet) (simp add: after_call_def)
  with ex wr show ?thesis
    by (simp add: rfsc_open_def)
qed

lemma opendir_call:
  assumes "client c" "idle l" "serves (peer l) (ReqOpendir name) = Some (ResInt RFS_OP_OPENDIR r, s')"
    and "rfs_name name" "a \<noteq> NULL" "ptr_arg m (rfsc_buffer c) (rfsc_buffer c + 12) a (name @ [0])"
  shows "\<exists>l'. rfsc_opendir c m l a = Some (r, after_call c m (ReqOpendir name) (ResInt RFS_OP_OPENDIR r), l')
    \<and> idle l' \<and> peer l' = s'"
proof -
  let ?b = "rfsc_buffer c" and ?q = "ReqOpendir name"
  have ok: "req_ok ?q" using assms(4) by simp
  have wr: "remotefs_opendir_write_request m ?b a = Some (mem_write m ?b (rpc_packet (enc_req ?q)))"
    using msg_write_ptrs(4) [OF assms(6,5)] assms(4) by (simp add: rfs_name_def)
  obtain l' where ex: "rfsch_send_request_read_response c (mem_write m ?b (rpc_packet (enc_req ?q))) l =
      Some (CLIENT_OK, after_call c m ?q (ResInt RFS_OP_OPENDIR r), l')" "idle l'" "peer l' = s'"
    using exchange_at [OF assms(1,2) ok assms(3), of m] by (auto simp: after_call_def)
  have "remotefs_opendir_read_response (after_call c m ?q (ResInt RFS_OP_OPENDIR r)) ?b = Some (ELUARPC_OK, r)"
    using reply_at [OF assms(3), of _ ?b] by (intro remotefs_opendir_read_response_packet) (simp add: after_call_def)
  with ex wr show ?thesis
    by (simp add: rfsc_opendir_def)
qed

lemma write_call:
  assumes "client c" "idle l" "serves (peer l) (ReqWrite fd xs) = Some (ResInt RFS_OP_WRITE r, s')"
    and "length xs < 60000" "n = of_nat (length xs)" "ptr_arg m (rfsc_buffer c) (rfsc_buffer c + 17) a xs"
  shows "\<exists>l'. rfsc_write c m l fd a n = Some (r, after_call c m (ReqWrite fd xs) (ResInt RFS_OP_WRITE r), l')
    \<and> idle l' \<and> peer l' = s'"
proof -
  let ?b = "rfsc_buffer c" and ?q = "ReqWrite fd xs"
  have ok: "req_ok ?q" using assms(4) by simp
  have wr: "remotefs_write_write_request m ?b fd a n = Some (mem_write m ?b (rpc_packet (enc_req ?q)))"
    using msg_write_ptrs(1) [OF assms(6)] assms(5) by simp
  obtain l' where ex: "rfsch_send_request_read_response c (mem_write m ?b (rpc_packet (enc_req ?q))) l =
      Some (CLIENT_OK, after_call c m ?q (ResInt RFS_OP_WRITE r), l')" "idle l'" "peer l' = s'"
    using exchange_at [OF assms(1,2) ok assms(3), of m] by (auto simp: after_call_def)
  have "remotefs_write_read_response (after_call c m ?q (ResInt RFS_OP_WRITE r)) ?b = Some (ELUARPC_OK, r)"
    using reply_at [OF assms(3), of _ ?b] by (intro remotefs_write_read_response_packet) (simp add: after_call_def)
  with ex wr show ?thesis
    by (simp add: rfsc_write_def)
qed

lemma read_call:
  assumes "client c" "idle l" "serves (peer l) (ReqRead fd n) = Some (ResData xs, s')"
  shows "\<exists>l'. rfsc_read c m l fd a n =
      Some (of_nat (length xs), mem_write (after_call c m (ReqRead fd n) (ResData xs)) a xs, l')
    \<and> idle l' \<and> peer l' = s'"
proof -
  let ?b = "rfsc_buffer c" and ?q = "ReqRead fd n"
  let ?m = "after_call c m ?q (ResData xs)"
  have len: "length xs < 65536" using reply_len [OF assms(3)] by (simp add: packet_len_def)
  have wr: "remotefs_read_write_request m ?b fd n = Some (mem_write m ?b (rpc_packet (enc_req ?q)))"
    by (simp add: msg_write)
  obtain l' where ex: "rfsch_send_request_read_response c (mem_write m ?b (rpc_packet (enc_req ?q))) l =
      Some (CLIENT_OK, ?m, l')" "idle l'" "peer l' = s'"
    using exchange_at [OF assms(1,2) _ assms(3), of m] by (auto simp: after_call_def)
  have at: "mem_at ?m ?b (rpc_packet (enc_res (ResData xs)))"
    unfolding after_call_def by (rule reply_at [OF assms(3)])
  then have "remotefs_read_read_response ?m ?b = Some (ELUARPC_OK, in_packet (?b + 17) xs, of_nat (length xs))"
    using len by (intro remotefs_read_read_response_packet) simp_all
  moreover from packet_parts(3) [OF at] have "mem_at ?m (?b + 11) (enc_ptr xs @ [])"
    by (simp add: mem_at_append add.assoc)
  then have "mem_at ?m (?b + 17) xs"
    using enc_ptr_payload [of ?m "?b + 11" xs "[]"] by (simp add: add.assoc)
  then have "memcpy ?m a (in_packet (?b + 17) xs) (unat (of_nat (length xs) :: u32)) = mem_write ?m a xs"
    using len by (auto simp: memcpy_def in_packet_def unat_of_nat_small mem_at_read)
  ultimately show ?thesis using ex wr by (simp add: rfsc_read_def)
qed

lemma readdir_call:
  assumes "client c" "idle l" "serves (peer l) (ReqReaddir d) = Some (ResDirent name fsize, s')"
  shows "\<exists>l'. rfs_readdir_r c m l d old = Some (case name of None \<Rightarrow> None | Some s \<Rightarrow> Some (rfsc_buffer c + 17, fsize, 0),
        after_call c m (ReqReaddir d) (ResDirent name fsize), l')
    \<and> idle l' \<and> peer l' = s'"
proof -
  let ?b = "rfsc_buffer c" and ?q = "ReqReaddir d"
  let ?m = "after_call c m ?q (ResDirent name fsize)"
  let ?xs = "case name of None \<Rightarrow> [] | Some s \<Rightarrow> s @ [0]"
  have len: "length ?xs < 65536" using reply_len [OF assms(3)] by (simp add: packet_len_def)
  have b: "?b + 17 \<noteq> NULL" using assms(1) by (simp add: client_def)
  have wr: "remotefs_readdir_write_request m ?b d = Some (mem_write m ?b (rpc_packet (enc_req ?q)))"
    by (simp add: msg_write)
  obtain l' where ex: "rfsch_send_request_read_response c (mem_write m ?b (rpc_packet (enc_req ?q))) l =
      Some (CLIENT_OK, ?m, l')" "idle l'" "peer l' = s'"
    using exchange_at [OF assms(1,2) _ assms(3), of m] by (auto simp: after_call_def)
  have "mem_at ?m ?b (rpc_packet (enc_res (ResDirent name fsize)))"
    unfolding after_call_def by (rule reply_at [OF assms(3)])
  then have "remotefs_readdir_read_response ?m ?b = Some (ELUARPC_OK, in_packet (?b + 17) ?xs, fsize, 0)"
    using len by (intro remotefs_readdir_read_response_packet) simp_all
  with ex wr b show ?thesis
    by (cases name) (simp_all add: rfs_readdir_r_def rfsc_readdir_def in_packet_def)
qed

end

section \<open>Transfers in pieces\<close>

lemma mem_read_cong: "(\<And>i. i < n \<Longrightarrow> m (p + of_nat i) = m' (p + of_nat i)) \<Longrightarrow> mem_read m p n = mem_read m' p n"
  by (rule nth_equalityI) (simp_all add: nth_mem_read)

lemma off_from_behind: "i < j \<Longrightarrow> j \<le> n \<Longrightarrow> n < 4294967296 \<Longrightarrow> n - j \<le> off_from (p + of_nat j) (p + of_nat i)"
proof -
  assume a: "i < j" "j \<le> n" "n < 4294967296"
  have "off_from (p + of_nat j) (p + of_nat i) = unat (of_nat i - of_nat j :: u32)"
    by (simp add: off_from_def)
  also have "\<dots> = i + 4294967296 - j"
    using a by (simp add: unat_sub_if_size word_size unat_of_nat_small)
  finally show ?thesis using a by simp
qed

context rfs_service
begin

lemma after_call_frame:
  assumes "packet_len (enc_req q) \<le> n" "packet_len (enc_res r) \<le> n" "n < 65536" "n \<le> off_from (rfsc_buffer c) x"
  shows "after_call c m q r x = m x"
  using assms by (simp add: after_call_def mem_write_apply)

text \<open>
  Reading \<open>len\<close> bytes from a file whose unread part is \<open>rest\<close>: all of them, or what is left.
\<close>

lemma read_loop:
  fixes cap :: nat
  assumes c: "client c" and cap: "unat (RFS_REAL_BUFFER_SIZE k) = cap" "0 < cap" "cap < 60000"
    and src: "\<And>s n. unat n \<le> cap \<Longrightarrow> \<exists>s'. serves s (ReqRead fd n) =
      Some (ResData (take (unat n) (rest s)), s') \<and> rest s' = drop (unat n) (rest s)"
  shows "\<lbrakk> idle l; apart p (unat len) (rfsc_buffer c) (cap + 28) \<rbrakk>
    \<Longrightarrow> \<exists>m' l'. rfs_read_loop k c m l fd p len tot =
        Some (tot + of_nat (min (unat len) (length (rest (peer l)))), m', l')
      \<and> mem_read m' p (min (unat len) (length (rest (peer l)))) = take (unat len) (rest (peer l))
      \<and> (\<forall>x. unat len \<le> off_from p x \<and> cap + 28 \<le> off_from (rfsc_buffer c) x \<longrightarrow> m' x = m x)
      \<and> idle l' \<and> rest (peer l') = drop (unat len) (rest (peer l))"
proof (induction "unat len" arbitrary: len p tot m l rule: less_induct)
  case less
  let ?b = "rfsc_buffer c"
  show ?case
  proof (cases "len = 0")
    case True
    with less.prems show ?thesis by (subst rfs_read_loop.simps) auto
  next
    case False
    define n where "n = rfs_chunk k len"
    have n: "unat n = min cap (unat len)"
      using cap(1) by (auto simp: n_def rfs_chunk_def word_less_nat_alt)
    with False cap have n0: "0 < unat n" "unat n \<le> unat len" "unat n \<le> cap"
      by (auto simp: unat_eq_0 [symmetric] neq0_conv simp del: unat_eq_0)
    let ?rs = "rest (peer l)"
    let ?xs = "take (unat n) ?rs"
    from src [OF n0(3), of "peer l"] obtain s' where
      sv: "serves (peer l) (ReqRead fd n) = Some (ResData ?xs, s')" "rest s' = drop (unat n) ?rs" by auto
    let ?m1 = "after_call c m (ReqRead fd n) (ResData ?xs)"
    from read_call [OF c less.prems(1) sv(1), of m p] obtain l1 where
      l1: "rfsc_read c m l fd p n = Some (of_nat (length ?xs), mem_write ?m1 p ?xs, l1)"
        "idle l1" "peer l1 = s'" by auto
    have xs: "length ?xs \<le> cap" "length ?xs \<le> unat len" "length ?xs < 4294967296" using n0 cap(3) by auto
    have out: "?m1 x = m x" if "cap + 28 \<le> off_from ?b x" for x
      using that xs(1) cap(3) by (intro after_call_frame [of _ "cap + 28"]) (auto simp: packet_len_def)
    have not_err: "(of_nat (length ?xs) :: u32) \<noteq> minus_one"
    proof
      assume "(of_nat (length ?xs) :: u32) = minus_one"
      then have "unat (of_nat (length ?xs) :: u32) = unat minus_one" by simp
      with xs cap(3) show False by (simp add: minus_one_def unat_of_nat_small unsigned_minus_1_eq_mask mask_eq_exp_minus_1)
    qed
    have lt: "(of_nat (length ?xs) :: u32) < n \<longleftrightarrow> length ?xs < unat n"
      using xs(3) by (simp only: word_less_nat_alt unat_of_nat_small) (simp add: unat_of_nat_small)
    have frame1: "mem_write ?m1 p ?xs x = m x"
      if "unat len \<le> off_from p x" "cap + 28 \<le> off_from ?b x" for x
    proof -
      from that(1) xs(2) have "\<not> off_from p x < length ?xs" by linarith
      with xs(3) have "mem_write ?m1 p ?xs x = ?m1 x"
        by (simp only: mem_write_apply less_imp_le if_False)
      with out that(2) show ?thesis by simp
    qed
    have rd1: "mem_read (mem_write ?m1 p ?xs) p (length ?xs) = ?xs"
      using xs mem_at_write [of ?xs ?m1 p] by (simp only: mem_at_read)
    show ?thesis
    proof (cases "length ?xs < unat n")
      case True
      then have whole: "?xs = ?rs" "length ?rs < unat n" by auto
      with n0 have mn: "min (unat len) (length ?rs) = length ?rs" "take (unat len) ?rs = ?rs"
        "drop (unat len) ?rs = []" by auto
      have "rfs_read_loop k c m l fd p len tot = Some (tot + of_nat (length ?xs), mem_write ?m1 p ?xs, l1)"
        using False l1(1) not_err lt True by (subst rfs_read_loop.simps) (simp add: n_def min_less_iff_disj)
      moreover have "rest (peer l1) = []" using sv(2) l1(3) whole by simp
      ultimately show ?thesis
        using whole mn rd1 frame1 l1(2) by simp
    next
      case False': False
      then have full: "length ?xs = unat n" by auto
      define len' where "len' = len - n"
      have len': "unat len' = unat len - unat n"
        using n0 by (simp add: len'_def unat_sub word_le_nat_alt)
      have nat_n: "of_nat (unat n) = n" by simp
      have ap: "apart (p + n) (unat len') ?b (cap + 28)"
        unfolding apart_def
      proof
        fix i assume "i \<in> {0..<unat len'}"
        then have "unat n + i \<in> {0..<unat len}" using len' n0 by auto
        with less.prems(2) have "cap + 28 \<le> off_from ?b (p + of_nat (unat n + i))"
          unfolding apart_def by blast
        then show "cap + 28 \<le> off_from ?b (p + n + of_nat i)"
          by (simp add: add.assoc)
      qed
      have step: "rfs_read_loop k c m l fd p len tot =
          rfs_read_loop k c (mem_write ?m1 p ?xs) l1 fd (p + n) len' (tot + of_nat (unat n))"
        using False l1(1) not_err lt False' full
        by (subst rfs_read_loop.simps) (simp add: n_def [symmetric] len'_def)
      have "unat len' < unat len" using len' n0 by simp
      from less.hyps [OF this l1(2) ap] obtain m' l' where IH:
        "rfs_read_loop k c (mem_write ?m1 p ?xs) l1 fd (p + n) len' (tot + of_nat (unat n)) =
          Some (tot + of_nat (unat n) + of_nat (min (unat len') (length (rest (peer l1)))), m', l')"
        "mem_read m' (p + n) (min (unat len') (length (rest (peer l1)))) = take (unat len') (rest (peer l1))"
        "\<forall>x. unat len' \<le> off_from (p + n) x \<and> cap + 28 \<le> off_from ?b x \<longrightarrow> m' x = mem_write ?m1 p ?xs x"
        "idle l'" "rest (peer l') = drop (unat len') (rest (peer l1))" by blast
      have rest1: "rest (peer l1) = drop (unat n) ?rs" using sv(2) l1(3) by simp
      have t: "min (unat len) (length ?rs) = unat n + min (unat len') (length (rest (peer l1)))"
      proof -
        from full have "unat n \<le> length ?rs" by simp
        with n0(2) show ?thesis unfolding rest1 length_drop len' by linarith
      qed
      have keep: "mem_read m' p (unat n) = ?xs"
      proof -
        have "m' (p + of_nat i) = mem_write ?m1 p ?xs (p + of_nat i)" if "i < unat n" for i
        proof -
          have "unat len - unat n \<le> off_from (p + of_nat (unat n)) (p + of_nat i)"
            using that n0 by (intro off_from_behind) auto
          moreover have "cap + 28 \<le> off_from ?b (p + of_nat i)"
            using less.prems(2) that n0 by (auto simp: apart_def)
          ultimately show ?thesis using IH(3) len' by simp
        qed
        then have "mem_read m' p (unat n) = mem_read (mem_write ?m1 p ?xs) p (unat n)"
          by (rule mem_read_cong)
        with rd1 full show ?thesis by simp
      qed
      have data: "mem_read m' p (min (unat len) (length ?rs)) = take (unat len) ?rs"
      proof -
        have "take (unat len) ?rs = take (unat n) ?rs @ take (unat len') (drop (unat n) ?rs)"
          using len' n0 by (metis le_add_diff_inverse take_add)
        with keep IH(2) show ?thesis by (simp add: t mem_read_add rest1)
      qed
      have frame: "m' x = m x" if "unat len \<le> off_from p x" "cap + 28 \<le> off_from ?b x" for x
      proof -
        have "off_from (p + n) x = off_from p x - unat n"
          using that n0 unat_sub [of n "x - p"] by (simp add: off_from_def word_le_nat_alt algebra_simps)
        with IH(3) that len' frame1 show ?thesis by simp
      qed
      have "rest (peer l') = drop (unat len) ?rs"
        using IH(5) len' n0 by (simp add: rest1)
      with step IH(1,4) data frame t show ?thesis by (auto simp: add.assoc)
    qed
  qed
qed

end

lemma apart_shift:
  assumes "apart a n b (j + k)" "b + of_nat j = b'" "j < 4294967296"
  shows "apart a n b' k"
  unfolding apart_def
proof
  fix i assume "i \<in> {0..<n}"
  with assms(1) have le: "j + k \<le> off_from b (a + of_nat i)" by (auto simp: apart_def)
  let ?x = "a + of_nat i"
  have "off_from b' ?x = unat ((?x - b) - of_nat j)"
    using assms(2) by (simp add: off_from_def algebra_simps flip: assms(2))
  also have "\<dots> = off_from b ?x - j"
    using le assms(3) by (subst unat_sub) (auto simp: off_from_def word_le_nat_alt unat_of_nat_small)
  finally show "k \<le> off_from b' ?x" using le by simp
qed

context rfs_service
begin

text \<open>Writing \<open>len\<close> bytes to a file that takes every write whole: all of them, in order.\<close>

lemma write_loop:
  fixes cap :: nat
  assumes c: "client c" and cap: "unat (RFS_REAL_BUFFER_SIZE k) = cap" "0 < cap" "cap < 60000"
    and src: "\<And>s xs. length xs \<le> cap \<Longrightarrow> \<exists>s'. serves s (ReqWrite fd xs) =
      Some (ResInt RFS_OP_WRITE (of_nat (length xs)), s') \<and> written s' = written s @ xs"
  shows "\<lbrakk> idle l; apart p (unat len) (rfsc_buffer c) (cap + 44); p \<noteq> NULL; unat p + unat len \<le> 4294967296 \<rbrakk>
    \<Longrightarrow> \<exists>m' l'. rfs_write_loop k c m l fd p len tot = Some (tot + len, m', l')
      \<and> idle l' \<and> written (peer l') = written (peer l) @ mem_read m p (unat len)"
proof (induction "unat len" arbitrary: len p tot m l rule: less_induct)
  case less
  let ?b = "rfsc_buffer c"
  show ?case
  proof (cases "len = 0")
    case True
    with less.prems show ?thesis by (subst rfs_write_loop.simps) auto
  next
    case False
    define n where "n = rfs_chunk k len"
    have n: "unat n = min cap (unat len)"
      using cap(1) by (auto simp: n_def rfs_chunk_def word_less_nat_alt)
    with False cap have n0: "0 < unat n" "unat n \<le> unat len" "unat n \<le> cap"
      by (auto simp: unat_eq_0 [symmetric] neq0_conv simp del: unat_eq_0)
    define xs where "xs = mem_read m p (unat n)"
    have xs: "length xs = unat n" "mem_at m p xs" by (simp_all add: xs_def mem_at_read)
    then have nn: "n = of_nat (length xs)" by simp
    from src [of xs "peer l"] xs n0 obtain s' where
      sv: "serves (peer l) (ReqWrite fd xs) = Some (ResInt RFS_OP_WRITE (of_nat (length xs)), s')"
        "written s' = written (peer l) @ xs" by auto
    have "apart p (unat n) (?b + 4) (40 + unat n)"
    proof (rule apart_shift [of _ _ ?b 4])
      show "apart p (unat n) ?b (4 + (40 + unat n))"
        by (rule apart_sub [OF less.prems(2)]) (use n0 in simp_all)
    qed simp_all
    with xs less.prems(3) n0 cap(3) have arg: "ptr_arg m ?b (?b + 17) p xs"
      by (simp add: ptr_arg_def)
    let ?m1 = "after_call c m (ReqWrite fd xs) (ResInt RFS_OP_WRITE (of_nat (length xs)))"
    have len60: "length xs < 60000" using xs n0 cap(3) by simp
    from write_call [OF c less.prems(1) sv(1) len60 nn arg] obtain l1 where
      l1: "rfsc_write c m l fd p n = Some (n, ?m1, l1)" "idle l1" "peer l1 = s'"
      using nn by auto
    have out: "?m1 x = m x" if "cap + 44 \<le> off_from ?b x" for x
      using that xs(1) n0 cap(3) by (intro after_call_frame [of _ "cap + 44"]) (auto simp: packet_len_def)
    have not_err: "n \<noteq> minus_one"
    proof
      assume "n = minus_one"
      with n0 cap(3) show False
        by (simp add: minus_one_def unsigned_minus_1_eq_mask mask_eq_exp_minus_1)
    qed
    define len' where "len' = len - n"
    have len': "unat len' = unat len - unat n"
      using n0 by (simp add: len'_def unat_sub word_le_nat_alt)
    have step: "rfs_write_loop k c m l fd p len tot = rfs_write_loop k c ?m1 l1 fd (p + n) len' (tot + n)"
      using False l1(1) not_err by (subst rfs_write_loop.simps) (simp add: n_def [symmetric] len'_def)
    have shift: "apart (p + n) (unat len') ?b (cap + 44)"
      unfolding apart_def
    proof
      fix i assume "i \<in> {0..<unat len'}"
      then have "unat n + i \<in> {0..<unat len}" using len' n0 by auto
      with less.prems(2) have "cap + 44 \<le> off_from ?b (p + of_nat (unat n + i))"
        unfolding apart_def by blast
      then show "cap + 44 \<le> off_from ?b (p + n + of_nat i)"
        by (simp add: add.assoc)
    qed
    show ?thesis
    proof (cases "len' = 0")
      case True
      then have "len = n" by (simp add: len'_def)
      have "rfs_write_loop k c ?m1 l1 fd (p + n) len' (tot + n) = Some (tot + n, ?m1, l1)"
        using True by (subst rfs_write_loop.simps) simp
      with step l1 sv xs_def \<open>len = n\<close> show ?thesis by auto
    next
      case False
      then have pos: "0 < unat len'" by (simp add: unat_eq_0 [symmetric] del: unat_eq_0)
      with less.prems(4) len' n0 have "unat p + unat n < 4294967296" by linarith
      then have "unat (p + n) = unat p + unat n"
        by (subst unat_add_lem [THEN iffD1]) simp_all
      with n0 less.prems(4) len' have pn: "p + n \<noteq> NULL" "unat (p + n) + unat len' \<le> 4294967296"
        by (auto simp: unat_eq_0 [symmetric] simp del: unat_eq_0)
      have "unat len' < unat len" using len' n0 by simp
      from less.hyps [OF this l1(2) shift pn] obtain m' l' where IH:
        "rfs_write_loop k c ?m1 l1 fd (p + n) len' (tot + n) = Some (tot + n + len', m', l')"
        "idle l'" "written (peer l') = written (peer l1) @ mem_read ?m1 (p + n) (unat len')" by blast
      have "mem_read ?m1 (p + n) (unat len') = mem_read m (p + n) (unat len')"
        using shift out by (intro mem_read_cong) (simp add: apart_def)
      moreover have "mem_read m p (unat len) = xs @ mem_read m (p + n) (unat len')"
        using mem_read_add [of m p "unat n" "unat len'"] len' n0 by (simp add: xs_def)
      ultimately show ?thesis
        using step IH l1(3) sv(2) by (simp add: len'_def)
    qed
  qed
qed

end

section \<open>The link to the server\<close>

text \<open>
  The multiplexer sends the server's reply to the target byte by byte; over this link the serial
  transport of the client is a service in the sense of \<open>rfs_service\<close>.
\<close>

definition lk_recv_byte :: "'os rfslink \<Rightarrow> u32 \<Rightarrow> u8 option \<times> 'os rfslink" where
  "lk_recv_byte l timeout =
     (case lk_out l of [] \<Rightarrow> (None, l) | x # xs \<Rightarrow> (Some x, l\<lparr> lk_out := xs \<rparr>))"

lemma rfs_recv_n_lk:
  "rfs_recv_n lk_recv_byte l n t = (take n (lk_out l), l\<lparr> lk_out := drop n (lk_out l) \<rparr>)"
  by (induction n arbitrary: l) (auto simp: lk_recv_byte_def split: list.splits)

lemma rfs_send_mux:
  "rfs_send (mux_rfs_byte os sv p) l xs =
     map_option (\<lambda>l'. (of_nat (length xs), l')) (mux_rfs_bytes os sv p l xs)"
  by (induction xs arbitrary: l) (auto simp: bind_eq_None_conv split: Option.bind_splits)

interpretation lk: rfs_service
  "rfs_recv lk_recv_byte" lk_out lk_os "\<lambda>l. lk_idle l \<and> srv_ok sv p"
  "rfs_send (mux_rfs_byte os sv p)" "\<lambda>s q. replies os (server_basedir sv) q s"
  for os :: "'os posix" and sv p
proof
  fix l :: "'os rfslink" and n t xs l'
  assume "rfs_recv lk_recv_byte l n t = (xs, l')"
  then show "xs = take (unat n) (lk_out l) \<and> lk_out l' = drop (unat n) (lk_out l)"
    and "lk_os l' = lk_os l \<and> (lk_idle l' \<and> srv_ok sv p) = (lk_idle l \<and> srv_ok sv p)"
    by (auto simp: rfs_recv_def rfs_recv_n_lk lk_idle_def)
next
  fix l :: "'os rfslink" and q r s'
  assume "lk_idle l \<and> srv_ok sv p" "req_ok q" "replies os (server_basedir sv) q (lk_os l) = Some (r, s')"
  then obtain l' where "mux_rfs_bytes os sv p l (rpc_packet (enc_req q)) = Some l'"
    "lk_idle l'" "lk_out l' = rpc_packet (enc_res r)" "lk_os l' = s'"
    using mux_rfs_request [of l sv p q os r s'] by auto
  with \<open>lk_idle l \<and> srv_ok sv p\<close> show "\<exists>l'. rfs_send (mux_rfs_byte os sv p) l (rpc_packet (enc_req q)) =
        Some (of_nat (packet_len (enc_req q)), l')
      \<and> lk_out l' = rpc_packet (enc_res r) \<and> lk_os l' = s' \<and> lk_idle l' \<and> srv_ok sv p"
    by (simp add: rfs_send_mux)
qed (rule replies_res_len)

section \<open>Flag translation\<close>

text \<open>
  \<open>elua_os_io.c\<close> repeats the target half of \<open>os_io_posix.c\<close>; the combination of the two
  translations is the identity on flags each of which is one bit or, as \<open>O_RDONLY\<close>, none.
\<close>

definition flag_bit :: "u32 \<Rightarrow> u32 \<Rightarrow> bool" where
  "flag_bit f c \<longleftrightarrow> f AND c = 0 \<or> f AND c = c"

definition fcntl_flags :: "'a fcntl_scheme \<Rightarrow> u32 list" where
  "fcntl_flags fc = [O_APPEND fc, O_CREAT fc, O_EXCL fc, O_TRUNC fc, O_SYNC fc, O_RDONLY fc, O_WRONLY fc, O_RDWR fc]"

lemmas rfs_flag_defs = RFS_OPEN_FLAG_APPEND_def RFS_OPEN_FLAG_CREAT_def RFS_OPEN_FLAG_EXCL_def
  RFS_OPEN_FLAG_TRUNC_def RFS_OPEN_FLAG_SYNC_def RFS_OPEN_FLAG_RDONLY_def RFS_OPEN_FLAG_WRONLY_def
  RFS_OPEN_FLAG_RDWR_def

lemma and_if_0: "(if b then x else 0) AND y = (if b then x AND y else (0 :: u32))"
  by simp

lemma rfs_flags_bits:
  fixes b0 b1 b2 b3 b4 b5 b6 b7 :: bool
  defines "f \<equiv> (if b0 then 0x01 else 0) OR (if b1 then 0x02 else 0) OR (if b2 then 0x04 else 0)
    OR (if b3 then 0x08 else 0) OR (if b4 then 0x10 else 0) OR (if b5 then 0x20 else 0)
    OR (if b6 then 0x40 else 0) OR (if b7 then 0x80 else (0 :: u32))"
  shows "f AND 0x01 \<noteq> 0 \<longleftrightarrow> b0" "f AND 0x02 \<noteq> 0 \<longleftrightarrow> b1" "f AND 0x04 \<noteq> 0 \<longleftrightarrow> b2" "f AND 0x08 \<noteq> 0 \<longleftrightarrow> b3"
    "f AND 0x10 \<noteq> 0 \<longleftrightarrow> b4" "f AND 0x20 \<noteq> 0 \<longleftrightarrow> b5" "f AND 0x40 \<noteq> 0 \<longleftrightarrow> b6" "f AND 0x80 \<noteq> 0 \<longleftrightarrow> b7"
  unfolding f_def by (simp_all add: bit.conj_disj_distrib2 and_if_0)

lemma posix_flags_of_rfs:
  "posix_flags host (os_open_sys_flags_to_rfs_flags tgt f) =
     eluarpc_replace_flag f (O_APPEND tgt) (O_APPEND host)
     OR eluarpc_replace_flag f (O_CREAT tgt) (O_CREAT host)
     OR eluarpc_replace_flag f (O_EXCL tgt) (O_EXCL host)
     OR eluarpc_replace_flag f (O_TRUNC tgt) (O_TRUNC host)
     OR eluarpc_replace_flag f (O_SYNC tgt) (O_SYNC host)
     OR eluarpc_replace_flag f (O_RDONLY tgt) (O_RDONLY host)
     OR eluarpc_replace_flag f (O_WRONLY tgt) (O_WRONLY host)
     OR eluarpc_replace_flag f (O_RDWR tgt) (O_RDWR host)"
  unfolding posix_flags_def os_open_sys_flags_to_rfs_flags_def eluarpc_replace_flag_def rfs_flag_defs
  by (simp only: rfs_flags_bits)

lemma replace_flag_same: "flag_bit f c \<Longrightarrow> eluarpc_replace_flag f c c = f AND c"
  by (auto simp: flag_bit_def eluarpc_replace_flag_def)

section \<open>Properties\<close>

text \<open>The client of the serial transport over the link, as \<open>remotefs_init\<close> sets it up.\<close>

definition rfs_client :: "'os posix \<Rightarrow> srv \<Rightarrow> u32 \<Rightarrow> u32 \<Rightarrow> u32 \<Rightarrow> 'os rfslink rfsc" where
  "rfs_client os sv p b timeout =
     rfsc_setup b (rfs_send (mux_rfs_byte os sv p)) (rfs_recv lk_recv_byte) timeout"

lemma rfs_client_simps [simp]:
  "rfsc_buffer (rfs_client os sv p b t) = b"
  "rfsc_send (rfs_client os sv p b t) = rfs_send (mux_rfs_byte os sv p)"
  "rfsc_recv (rfs_client os sv p b t) = rfs_recv lk_recv_byte"
  by (simp_all add: rfs_client_def rfsc_setup_def)

definition link_ok :: "srv \<Rightarrow> u32 \<Rightarrow> 'os rfslink \<Rightarrow> bool" where
  "link_ok sv p l \<longleftrightarrow> lk_idle l \<and> srv_ok sv p \<and> lk_out l = []"

lemma lk_client: "buf_ok b \<Longrightarrow> lk.client os sv p (rfs_client os sv p b t)"
  by (simp add: lk.client_def)

lemma lk_idle_iff: "lk.idle sv p l \<longleftrightarrow> link_ok sv p l"
  by (auto simp: lk.idle_def link_ok_def)

lemma rfs_flags_identity:
  assumes "list_all (flag_bit f) (fcntl_flags fc)"
  shows "posix_flags fc (os_open_sys_flags_to_rfs_flags fc f) = f AND foldr (OR) (fcntl_flags fc) 0"
  using assms by (simp add: posix_flags_of_rfs fcntl_flags_def replace_flag_same bit.conj_disj_distrib)

text \<open>
  an open on the target is an open on the desktop. Over the link, \<open>rfsc_open\<close> makes the
  operating system open the base directory's path of the name, with exactly the flags of the
  call (when both sides use the same flag constants, each one bit or zero), and returns its
  descriptor; the link is idle again.
\<close>

lemma rfs_open_end_to_end:
  assumes "buf_ok b" "link_ok sv p l" "list_all (flag_bit flags) (fcntl_flags os)"
    and "rfs_name name" "a \<noteq> NULL" "ptr_arg m b (b + 12) a (name @ [0])"
    and "server_path (server_basedir sv) name = Some full"
    and "sys_open os (lk_os l) full (flags AND foldr (OR) (fcntl_flags os) 0) open_mode = (fd, s')"
  shows "\<exists>m' l'. rfsc_open os (rfs_client os sv p b t) m l a flags mode = Some (fd, m', l')
    \<and> link_ok sv p l' \<and> lk_os l' = s'"
proof -
  let ?q = "ReqOpen name (os_open_sys_flags_to_rfs_flags os flags) mode"
  have "replies os (server_basedir sv) ?q (lk_os l) = Some (ResInt RFS_OP_OPEN fd, s')"
    using assms(7,8) by (simp add: rfs_flags_identity [OF assms(3)])
  with assms(1,2,4-6) lk.open_call [of os sv p "rfs_client os sv p b t" l name os flags mode fd s' a m]
  show ?thesis by (auto simp: lk_client lk_idle_iff)
qed

definition sample_link :: "u8 list \<Rightarrow> u8 list rfslink" where
  "sample_link s = \<lparr> lk_tr = \<lparr> tr_mem = (\<lambda>_. 0), mem_read_len = 0, mem_expected_len = 0,
     mem_read_state = MEM_STATE_READ_LENGTH, mem_response_flag = False \<rparr>, lk_os = s, lk_out = [] \<rparr>"

lemma sample_link_ok: "link_ok sample_srv 1000 (sample_link s)"
  by (simp add: link_ok_def lk_idle_def sample_link_def sample_srv_ok)

theorem rfs_open_end_to_end_witness:
  "\<exists>m' l'. rfsc_open sample_os (rfs_client sample_os sample_srv 1000 2000 0)
        (mem_write (\<lambda>_. 0) 100 [102, 0]) (sample_link [65]) 100 66 0 = Some (3, m', l')
    \<and> link_ok sample_srv 1000 l' \<and> lk_os l' = [65]"
proof (rule rfs_open_end_to_end)
  show "link_ok sample_srv 1000 (sample_link [65])" by (rule sample_link_ok)
  show "list_all (flag_bit 66) (fcntl_flags sample_os)"
    by (simp add: flag_bit_def fcntl_flags_def sample_os_def)
  show "ptr_arg (mem_write (\<lambda>_. 0) 100 [102, 0]) 2000 (2000 + 12) 100 ([102] @ [0])"
    by (simp add: ptr_arg_def apart_def off_from_def atLeast0LessThan lessThan_nat_numeral lessThan_Suc)
  show "server_path (server_basedir sample_srv) [102] = Some [47, 114, 47, 102]"
    by (simp add: server_path_def sample_srv_def PLATFORM_MAX_FNAME_LEN_def PLATFORM_PATH_SEPARATOR_def)
  show "sys_open sample_os (lk_os (sample_link [65])) [47, 114, 47, 102]
      (66 AND foldr (OR) (fcntl_flags sample_os) 0) open_mode = (3, [65])"
    by (simp add: sample_os_def sample_link_def)
qed (simp_all add: buf_ok_def rfs_name_def)








text \<open>
  a stale byte on the line loses the request. The loop that empties the receive buffer
  stores what it reads over the first byte of the request, so when input is waiting and its last
  byte is not the packet marker, the call fails without sending anything: the server's state is
  what it was.
\<close>

lemma stale_input_loses_request:
  assumes "lk_out l \<noteq> []" "last (lk_out l) \<noteq> TYPE_PKT_SIZE"
  shows "\<exists>m' l'. rfsc_read (rfs_client os sv p b t) m l fd a n = Some (minus_one, m', l')
    \<and> lk_out l' = [] \<and> lk_os l' = lk_os l"
proof -
  let ?c = "rfs_client os sv p b t"
  let ?m = "mem_write m b (rpc_packet (enc_req (ReqRead fd n)))"
  from lk.drain [of ?c ?m l] assms(1) obtain l' where
    d: "rfsc_drain ?c ?m l = Some (?m(b := last (lk_out l)), l')" "lk_out l' = []" "lk_os l' = lk_os l"
    by auto
  have "fst (eluarpc_get_packet_size (?m(b := last (lk_out l))) b) = ELUARPC_ERR"
    using assms(2) read_sticky(2) [of "(b + 1, ELUARPC_ERR)" "?m(b := last (lk_out l))"]
    by (simp add: eluarpc_get_packet_size_def eluarpc_read_expect_at split_beta)
  with d have "rfsch_send_request_read_response ?c ?m l = Some (CLIENT_ERR, ?m(b := last (lk_out l)), l')"
    by (simp add: rfsch_send_request_read_response_def split_beta Let_def)
  with d show ?thesis
    by (simp add: rfsc_read_def msg_write)
qed

theorem stale_input_loses_request_witness:
  "\<exists>m' l'. rfsc_read (rfs_client sample_os sample_srv 1000 2000 0) (\<lambda>_. 0) ((sample_link [65])\<lparr> lk_out := [7] \<rparr>) 3 100 1
      = Some (minus_one, m', l')
    \<and> lk_out l' = [] \<and> lk_os l' = lk_os ((sample_link [65])\<lparr> lk_out := [7] \<rparr>)"
  by (rule stale_input_loses_request) (simp_all add: TYPE_PKT_SIZE_def)

end
