(* ===== verification/Buf.thy ===== *)
theory Buf
  imports Prelude
begin

text \<open>
  The character-device buffers of \<open>src/buf.c\<close>: one ring buffer per UART and per ADC
  channel, filled by interrupt handlers and drained by the program. A descriptor is the
  record \<open>buf_desc\<close>; its storage is a byte list (\<open>None\<close> for the NULL pointer), and the
  two indices are byte offsets into it, as in the source. The operations are modelled on one
  descriptor and then lifted to the table \<open>buf_desc_array\<close> with the resource number
  translation of the serial multiplexer.
\<close>

section \<open>Data\<close>

datatype buf_id = BUF_ID_UART | BUF_ID_ADC

record buf_desc =
  logsize :: u8
  wptr :: u16
  rptr :: u16
  count :: u16
  buf :: "u8 list option"
  logdsize :: u8

definition BUF_SIZE_NONE :: u8 where "BUF_SIZE_NONE = 0"
definition BUF_DSIZE_U8 :: u8 where "BUF_DSIZE_U8 = 0"
definition BUF_DSIZE_U16 :: u8 where "BUF_DSIZE_U16 = 1"
definition BUF_DSIZE_U32 :: u8 where "BUF_DSIZE_U32 = 2"

text \<open>The size macros; the shifts are done on a 32-bit \<open>int\<close>.\<close>

definition BUF_REALSIZE :: "buf_desc \<Rightarrow> nat" where
  "BUF_REALSIZE p = 2 ^ (unat (logsize p) - unat (logdsize p))"

definition BUF_BYTESIZE :: "buf_desc \<Rightarrow> nat" where
  "BUF_BYTESIZE p = 2 ^ unat (logsize p)"

definition BUF_REALDSIZE :: "buf_desc \<Rightarrow> nat" where
  "BUF_REALDSIZE p = 2 ^ unat (logdsize p)"

definition BUF_MOD_INCR :: "buf_desc \<Rightarrow> u16 \<Rightarrow> u16" where
  "BUF_MOD_INCR p m =
     ucast ((ucast m + push_bit (unat (logdsize p)) 1 :: u32) AND (push_bit (unat (logsize p)) 1 - 1))"

section \<open>Operations on one descriptor\<close>

text \<open>
  \<open>realloc\<close> is the C library's: it fails (\<open>fresh = None\<close>) or returns a block of the
  new size that starts with the old contents; the bytes beyond them are indeterminate, here
  whatever the block \<open>fresh\<close> holds.
\<close>

definition c_realloc :: "u8 list option \<Rightarrow> (nat \<Rightarrow> u8) option \<Rightarrow> nat \<Rightarrow> u8 list option" where
  "c_realloc old fresh n =
     (case fresh of
        None \<Rightarrow> None
      | Some junk \<Rightarrow>
          (let bs = (case old of None \<Rightarrow> [] | Some bs \<Rightarrow> bs)
           in Some (map (\<lambda>i. if i < length bs then bs ! i else junk i) [0..<n])))"

definition desc_set :: "(nat \<Rightarrow> u8) option \<Rightarrow> u8 \<Rightarrow> u8 \<Rightarrow> buf_desc \<Rightarrow> pstatus \<times> buf_desc" where
  "desc_set fresh lsize ldsize p =
     (let p1 = p\<lparr>logdsize := ldsize, logsize := lsize + ldsize\<rparr>;
          nbuf = c_realloc (buf p1) fresh (BUF_BYTESIZE p1);
          p2 = p1\<lparr>buf := nbuf\<rparr>
      in if nbuf = None
         then (let p3 = p2\<lparr>logsize := BUF_SIZE_NONE, rptr := 0, wptr := 0, count := 0\<rparr>
               in if lsize \<noteq> BUF_SIZE_NONE then (PLATFORM_ERR, p3) else (PLATFORM_OK, p3))
         else (PLATFORM_OK, p2))"

definition desc_flush :: "buf_desc \<Rightarrow> buf_desc" where
  "desc_flush p = p\<lparr>rptr := 0, wptr := 0, count := 0\<rparr>"

definition desc_write :: "u8 list \<Rightarrow> buf_desc \<Rightarrow> pstatus \<times> buf_desc" where
  "desc_write data p =
     (if logsize p = BUF_SIZE_NONE then (PLATFORM_ERR, p)
      else if unat (count p) > BUF_REALSIZE p then (PLATFORM_ERR, p)
      else (let bs = (case buf p of None \<Rightarrow> [] | Some bs \<Rightarrow> bs);
                src = take (duff_device_8 (BUF_REALDSIZE p)) data
            in (PLATFORM_OK,
                p\<lparr>buf := Some (put_bytes bs (unat (wptr p)) src),
                  wptr := BUF_MOD_INCR p (wptr p),
                  count := count p + 1\<rparr>)))"

definition desc_is_enabled :: "buf_desc \<Rightarrow> bool" where
  "desc_is_enabled p = (logsize p \<noteq> BUF_SIZE_NONE)"

definition desc_get_size :: "buf_desc \<Rightarrow> nat" where
  "desc_get_size p = (if logsize p = BUF_SIZE_NONE then 0 else BUF_REALSIZE p)"

definition desc_get_count :: "buf_desc \<Rightarrow> u16" where
  "desc_get_count p = count p"

definition desc_read :: "buf_desc \<Rightarrow> pstatus \<times> u8 list \<times> buf_desc" where
  "desc_read p =
     (if logsize p = BUF_SIZE_NONE \<or> count p = 0 then (PLATFORM_UNDERFLOW, [], p)
      else (let bs = (case buf p of None \<Rightarrow> [] | Some bs \<Rightarrow> bs);
                data = get_bytes bs (unat (rptr p)) (duff_device_8 (BUF_REALDSIZE p));
                p1 = p\<lparr>count := count p - 1\<rparr>
            in (PLATFORM_OK, data, p1\<lparr>rptr := BUF_MOD_INCR p1 (rptr p1)\<rparr>)))"

section \<open>The descriptor table\<close>

type_synonym buf_table = "buf_id \<Rightarrow> nat \<Rightarrow> buf_desc"

definition bufh_check_resnum :: "board \<Rightarrow> buf_id \<Rightarrow> nat \<Rightarrow> nat" where
  "bufh_check_resnum bd resid resnum =
     (if resid = BUF_ID_UART \<and> resnum \<ge> SERMUX_SERVICE_ID_FIRST
      then resnum - SERMUX_SERVICE_ID_FIRST + num_uart bd
      else resnum)"

definition upd_desc :: "buf_table \<Rightarrow> buf_id \<Rightarrow> nat \<Rightarrow> buf_desc \<Rightarrow> buf_table" where
  "upd_desc T resid n p = T(resid := (T resid)(n := p))"

definition buf_set :: "board \<Rightarrow> (nat \<Rightarrow> u8) option \<Rightarrow> buf_table \<Rightarrow> buf_id \<Rightarrow> nat \<Rightarrow> u8 \<Rightarrow> u8 \<Rightarrow> pstatus \<times> buf_table" where
  "buf_set bd fresh T resid resnum lsize ldsize =
     (let n = bufh_check_resnum bd resid resnum; (st, p) = desc_set fresh lsize ldsize (T resid n)
      in (st, upd_desc T resid n p))"

definition buf_flush :: "board \<Rightarrow> buf_table \<Rightarrow> buf_id \<Rightarrow> nat \<Rightarrow> buf_table" where
  "buf_flush bd T resid resnum =
     (let n = bufh_check_resnum bd resid resnum in upd_desc T resid n (desc_flush (T resid n)))"

definition buf_write :: "board \<Rightarrow> buf_table \<Rightarrow> buf_id \<Rightarrow> nat \<Rightarrow> u8 list \<Rightarrow> pstatus \<times> buf_table" where
  "buf_write bd T resid resnum data =
     (let n = bufh_check_resnum bd resid resnum; (st, p) = desc_write data (T resid n)
      in (st, upd_desc T resid n p))"

definition buf_is_enabled :: "board \<Rightarrow> buf_table \<Rightarrow> buf_id \<Rightarrow> nat \<Rightarrow> bool" where
  "buf_is_enabled bd T resid resnum = desc_is_enabled (T resid (bufh_check_resnum bd resid resnum))"

definition buf_get_size :: "board \<Rightarrow> buf_table \<Rightarrow> buf_id \<Rightarrow> nat \<Rightarrow> nat" where
  "buf_get_size bd T resid resnum = desc_get_size (T resid (bufh_check_resnum bd resid resnum))"

definition buf_get_count :: "board \<Rightarrow> buf_table \<Rightarrow> buf_id \<Rightarrow> nat \<Rightarrow> u16" where
  "buf_get_count bd T resid resnum = desc_get_count (T resid (bufh_check_resnum bd resid resnum))"

definition buf_read :: "board \<Rightarrow> buf_table \<Rightarrow> buf_id \<Rightarrow> nat \<Rightarrow> pstatus \<times> u8 list \<times> buf_table" where
  "buf_read bd T resid resnum =
     (let n = bufh_check_resnum bd resid resnum; (st, data, p) = desc_read (T resid n)
      in (st, data, upd_desc T resid n p))"

section \<open>Invariant and abstraction\<close>

text \<open>
  A descriptor set up with a size is well formed when its storage has the announced size,
  the read offset is on an element boundary, and the write offset is \<open>count\<close> elements
  further. Sizes go up to \<open>BUF_SIZE_32768\<close> elements and \<open>2 ^ 16\<close> bytes, the range of
  the 16-bit offsets.
\<close>

definition desc_shape :: "buf_desc \<Rightarrow> bool" where
  "desc_shape p \<longleftrightarrow>
     logsize p \<noteq> BUF_SIZE_NONE \<and> unat (logsize p) \<le> 16 \<and> logdsize p \<le> logsize p
     \<and> unat (logsize p) - unat (logdsize p) \<le> 15
     \<and> (case buf p of None \<Rightarrow> False | Some bs \<Rightarrow> length bs = BUF_BYTESIZE p)"

definition desc_inv :: "buf_desc \<Rightarrow> bool" where
  "desc_inv p \<longleftrightarrow>
     desc_shape p \<and> BUF_REALDSIZE p dvd unat (rptr p) \<and> unat (rptr p) < BUF_BYTESIZE p
     \<and> unat (wptr p) = (unat (rptr p) + unat (count p) * BUF_REALDSIZE p) mod BUF_BYTESIZE p
     \<and> unat (count p) \<le> BUF_REALSIZE p"

text \<open>The byte offset of the \<open>k\<close>-th oldest element, and the queue of elements.\<close>

definition slot :: "buf_desc \<Rightarrow> nat \<Rightarrow> nat" where
  "slot p k = (unat (rptr p) + k * BUF_REALDSIZE p) mod BUF_BYTESIZE p"

definition buf_elems :: "buf_desc \<Rightarrow> u8 list list" where
  "buf_elems p = map (\<lambda>k. get_bytes (the (buf p)) (slot p k) (BUF_REALDSIZE p)) [0..<unat (count p)]"

lemmas size_macros = BUF_REALSIZE_def BUF_BYTESIZE_def BUF_REALDSIZE_def

lemma bytesize_eq: "logdsize p \<le> logsize p \<Longrightarrow> BUF_BYTESIZE p = BUF_REALDSIZE p * BUF_REALSIZE p"
  by (simp add: size_macros word_le_nat_alt flip: power_add)

lemma sizes_pos [simp]: "0 < BUF_REALSIZE p" "0 < BUF_BYTESIZE p" "0 < BUF_REALDSIZE p"
  by (simp_all add: size_macros)

lemma realsize_bound: "desc_shape p \<Longrightarrow> BUF_REALSIZE p \<le> 32768"
  using power_increasing [of "unat (logsize p) - unat (logdsize p)" 15 "2::nat"]
  by (simp add: desc_shape_def BUF_REALSIZE_def)

lemma mod_incr:
  assumes "unat (logsize p) \<le> 16" "logdsize p \<le> logsize p"
  shows "unat (BUF_MOD_INCR p m) = (unat m + BUF_REALDSIZE p) mod BUF_BYTESIZE p"
proof -
  have ld: "unat (logdsize p) \<le> 16" using assms by (simp add: word_le_nat_alt)
  have "(2::nat) ^ unat (logdsize p) \<le> 2 ^ 16" by (rule power_increasing) (use ld in auto)
  then have d: "BUF_REALDSIZE p \<le> 65536" by (simp add: BUF_REALDSIZE_def)
  have "unat (ucast m + push_bit (unat (logdsize p)) 1 :: u32) = unat m + BUF_REALDSIZE p"
  proof -
    have "unat (push_bit (unat (logdsize p)) 1 :: u32) = BUF_REALDSIZE p"
      using ld by (simp add: push_bit_eq_mult BUF_REALDSIZE_def unat_pow2)
    moreover have "unat (ucast m :: u32) = unat m" by (simp add: unat_ucast_up)
    ultimately show ?thesis
      using d unat_u16_less [of m] by (simp add: unat_word_ariths del: unat_u16_less)
  qed
  then have "unat ((ucast m + push_bit (unat (logdsize p)) 1 :: u32) AND (push_bit (unat (logsize p)) 1 - 1))
      = (unat m + BUF_REALDSIZE p) mod BUF_BYTESIZE p" (is "unat ?w = ?r")
    by (simp add: unat_and_mask BUF_BYTESIZE_def)
  moreover have "?r < 65536"
  proof -
    have "(2::nat) ^ unat (logsize p) \<le> 2 ^ 16" by (rule power_increasing) (use assms in auto)
    then show ?thesis
      using mod_less_divisor [of "BUF_BYTESIZE p" "unat m + BUF_REALDSIZE p"]
      by (simp add: BUF_BYTESIZE_def del: mod_less_divisor)
  qed
  ultimately show ?thesis
    by (simp add: BUF_MOD_INCR_def unsigned_ucast_eq take_bit_nat_eq_self_iff)
qed

section \<open>Slots\<close>

lemma inv_bytesize: "desc_inv p \<Longrightarrow> BUF_BYTESIZE p = BUF_REALDSIZE p * BUF_REALSIZE p"
  by (simp add: bytesize_eq desc_inv_def desc_shape_def)

lemma slot_eq:
  assumes "desc_inv p"
  shows "slot p k = BUF_REALDSIZE p * ((unat (rptr p) div BUF_REALDSIZE p + k) mod BUF_REALSIZE p)"
proof -
  have "BUF_REALDSIZE p dvd unat (rptr p)" using assms by (simp add: desc_inv_def)
  then have "unat (rptr p) + k * BUF_REALDSIZE p
      = BUF_REALDSIZE p * (unat (rptr p) div BUF_REALDSIZE p + k)"
    by (simp add: distrib_left mult.commute [of k])
  then show ?thesis
    unfolding slot_def inv_bytesize [OF assms] by (simp only: mult_mod_right)
qed

lemma slot_in_block: "desc_inv p \<Longrightarrow> slot p k + BUF_REALDSIZE p \<le> BUF_BYTESIZE p"
proof -
  assume inv: "desc_inv p"
  define i where "i = (unat (rptr p) div BUF_REALDSIZE p + k) mod BUF_REALSIZE p"
  have "Suc i \<le> BUF_REALSIZE p" by (simp add: i_def Suc_leI)
  then have "BUF_REALDSIZE p * Suc i \<le> BUF_REALDSIZE p * BUF_REALSIZE p" by (rule mult_le_mono2)
  then show ?thesis
    unfolding slot_eq [OF inv] inv_bytesize [OF inv] i_def by simp
qed

lemma slots_disjoint:
  assumes inv: "desc_inv p" and "k < j" "j - k < BUF_REALSIZE p"
  shows "slot p k + BUF_REALDSIZE p \<le> slot p j \<or> slot p j + BUF_REALDSIZE p \<le> slot p k"
proof -
  define r n ds where "r = unat (rptr p) div BUF_REALDSIZE p" and "n = BUF_REALSIZE p" and "ds = BUF_REALDSIZE p"
  have "(r + k) mod n \<noteq> (r + j) mod n"
  proof
    assume "(r + k) mod n = (r + j) mod n"
    then have "n dvd (r + j) - (r + k)" using assms(2) by (metis add_le_cancel_left less_imp_le mod_eq_dvd_iff_nat)
    with assms(2,3) show False by (auto simp: n_def dest: dvd_imp_le)
  qed
  then consider "Suc ((r + k) mod n) \<le> (r + j) mod n" | "Suc ((r + j) mod n) \<le> (r + k) mod n"
    by linarith
  then have "ds * Suc ((r + k) mod n) \<le> ds * ((r + j) mod n) \<or> ds * Suc ((r + j) mod n) \<le> ds * ((r + k) mod n)"
    by cases (blast intro: mult_le_mono2)+
  then show ?thesis
    unfolding slot_eq [OF inv] r_def n_def ds_def by (simp add: add.commute)
qed

lemma wptr_slot: "desc_inv p \<Longrightarrow> unat (wptr p) = slot p (unat (count p))"
  by (simp add: desc_inv_def slot_def)

lemma length_buf_elems [simp]: "length (buf_elems p) = unat (count p)"
  by (simp add: buf_elems_def)

lemma desc_inv_storage:
  assumes "desc_inv p"
  obtains bs where "buf p = Some bs" "length bs = BUF_BYTESIZE p"
  using assms by (auto simp: desc_inv_def desc_shape_def split: option.splits)

section \<open>Each operation against the queue of elements\<close>

lemma desc_write_some:
  assumes inv: "desc_inv p" and b: "buf p = Some bs" and len: "length x = BUF_REALDSIZE p"
  shows "desc_write x p = (PLATFORM_OK, p\<lparr>buf := Some (put_bytes bs (unat (wptr p)) x),
           wptr := BUF_MOD_INCR p (wptr p), count := count p + 1\<rparr>)"
proof -
  from inv have "logsize p \<noteq> BUF_SIZE_NONE" "unat (count p) \<le> BUF_REALSIZE p"
    by (auto simp: desc_inv_def desc_shape_def)
  with b len show ?thesis by (simp add: desc_write_def)
qed

lemma count_plus_1: "desc_inv p \<Longrightarrow> unat (count p + 1) = unat (count p) + 1"
  using realsize_bound [of p] by (auto simp: desc_inv_def unat_word_ariths)

lemma desc_write_inv:
  assumes inv: "desc_inv p" and len: "length x = BUF_REALDSIZE p" and room: "unat (count p) < BUF_REALSIZE p"
  shows "desc_inv (snd (desc_write x p))"
proof -
  obtain bs where b: "buf p = Some bs" "length bs = BUF_BYTESIZE p" using inv by (rule desc_inv_storage)
  have w: "unat (BUF_MOD_INCR p (wptr p))
      = (unat (rptr p) + (unat (count p) + 1) * BUF_REALDSIZE p) mod BUF_BYTESIZE p"
    using inv by (simp add: mod_incr desc_inv_def desc_shape_def mod_simps algebra_simps)
  show ?thesis
    using inv b w room
    by (simp add: desc_write_some [OF inv b(1) len] desc_inv_def desc_shape_def size_macros
        count_plus_1 [OF inv])
qed

lemma desc_write_elems:
  assumes inv: "desc_inv p" and len: "length x = BUF_REALDSIZE p" and room: "unat (count p) < BUF_REALSIZE p"
  shows "buf_elems (snd (desc_write x p)) = buf_elems p @ [x]"
proof -
  obtain bs where b: "buf p = Some bs" "length bs = BUF_BYTESIZE p" using inv by (rule desc_inv_storage)
  let ?q = "snd (desc_write x p)"
  note q = desc_write_some [OF inv b(1) len]
  have s: "slot ?q k = slot p k" "BUF_REALDSIZE ?q = BUF_REALDSIZE p" for k
    by (simp_all add: q slot_def size_macros)
  have last: "get_bytes (the (buf ?q)) (slot p (unat (count p))) (BUF_REALDSIZE p) = x"
    using slot_in_block [OF inv, of "unat (count p)"] b
      get_put_same [of "slot p (unat (count p))" x bs]
    by (simp add: q wptr_slot [OF inv] len)
  have old: "get_bytes (the (buf ?q)) (slot p k) (BUF_REALDSIZE p) = get_bytes bs (slot p k) (BUF_REALDSIZE p)"
    if "k < unat (count p)" for k
  proof -
    have "slot p k + BUF_REALDSIZE p \<le> slot p (unat (count p)) \<or> slot p (unat (count p)) + BUF_REALDSIZE p \<le> slot p k"
      using that room by (intro slots_disjoint [OF inv]) auto
    then show ?thesis
      using slot_in_block [OF inv, of k] b len by (simp add: q wptr_slot [OF inv] get_put_disjoint)
  qed
  have "unat (count ?q) = unat (count p) + 1" by (simp add: q count_plus_1 [OF inv])
  then have "buf_elems ?q = map (\<lambda>k. get_bytes (the (buf ?q)) (slot p k) (BUF_REALDSIZE p)) [0..<unat (count p) + 1]"
    by (simp only: buf_elems_def s)
  also have "\<dots> = buf_elems p @ [x]"
    using old last by (simp add: buf_elems_def b(1))
  finally show ?thesis .
qed

lemma count_minus_1: "count p \<noteq> 0 \<Longrightarrow> unat (count p - 1) = unat (count p) - 1"
  by (simp add: unat_minus_one)

lemma desc_read_some:
  assumes inv: "desc_inv p" and b: "buf p = Some bs" and "count p \<noteq> 0"
  shows "desc_read p = (PLATFORM_OK, get_bytes bs (slot p 0) (BUF_REALDSIZE p),
           p\<lparr>count := count p - 1, rptr := BUF_MOD_INCR p (rptr p)\<rparr>)"
proof -
  have "slot p 0 = unat (rptr p)" "logsize p \<noteq> BUF_SIZE_NONE"
    using inv by (auto simp: slot_def desc_inv_def desc_shape_def)
  with assms show ?thesis by (simp add: desc_read_def Let_def BUF_MOD_INCR_def)
qed

lemma desc_read_slot:
  assumes inv: "desc_inv p" and "count p \<noteq> 0"
  shows "slot (snd (snd (desc_read p))) k = slot p (Suc k)"
proof -
  obtain bs where b: "buf p = Some bs" "length bs = BUF_BYTESIZE p" using inv by (rule desc_inv_storage)
  show ?thesis
    using inv
    by (simp add: desc_read_some [OF inv b(1) assms(2)] slot_def size_macros mod_incr [unfolded size_macros]
        desc_inv_def desc_shape_def mod_simps algebra_simps)
qed

lemma desc_read_inv:
  assumes inv: "desc_inv p" and c: "count p \<noteq> 0"
  shows "desc_inv (snd (snd (desc_read p)))"
proof -
  obtain bs where b: "buf p = Some bs" "length bs = BUF_BYTESIZE p" using inv by (rule desc_inv_storage)
  let ?q = "snd (snd (desc_read p))"
  note q = desc_read_some [OF inv b(1) c]
  have r: "unat (BUF_MOD_INCR p (rptr p)) = slot p 1"
    using inv by (simp add: mod_incr slot_def desc_inv_def desc_shape_def)
  have "BUF_REALDSIZE p dvd slot p 1" by (simp add: slot_eq [OF inv])
  moreover have "slot p 1 < BUF_BYTESIZE p" by (simp add: slot_def)
  moreover have "unat (wptr p) = (slot p 1 + (unat (count p) - 1) * BUF_REALDSIZE p) mod BUF_BYTESIZE p"
  proof -
    have "unat (count p) = Suc (unat (count p) - 1)" using c by (simp add: unat_gt_0 Suc_pred')
    then show ?thesis
      unfolding wptr_slot [OF inv] slot_def by (metis (no_types) add.assoc mod_add_left_eq mult_Suc nat_mult_1)
  qed
  ultimately show ?thesis
    using inv b c
    by (auto simp: q desc_inv_def desc_shape_def size_macros r [unfolded size_macros] count_minus_1)
qed

lemma desc_read_elems:
  assumes inv: "desc_inv p" and c: "count p \<noteq> 0"
  shows "fst (snd (desc_read p)) # buf_elems (snd (snd (desc_read p))) = buf_elems p"
proof -
  obtain bs where b: "buf p = Some bs" "length bs = BUF_BYTESIZE p" using inv by (rule desc_inv_storage)
  let ?q = "snd (snd (desc_read p))"
  note q = desc_read_some [OF inv b(1) c]
  have n: "[0..<unat (count p)] = 0 # map Suc [0..<unat (count p) - 1]"
    using c by (simp add: map_Suc_upt upt_conv_Cons unat_gt_0)
  have s: "BUF_REALDSIZE ?q = BUF_REALDSIZE p" "buf ?q = Some bs" "unat (count ?q) = unat (count p) - 1"
    using c by (simp_all add: q size_macros b(1) count_minus_1)
  show ?thesis
    unfolding buf_elems_def s n desc_read_slot [OF inv c] by (simp add: q b(1))
qed

section \<open>The ring buffer is a queue\<close>

definition ring_put :: "buf_desc \<Rightarrow> u8 list \<Rightarrow> buf_desc" where
  "ring_put p x = snd (desc_write x p)"

definition ring_get :: "buf_desc \<Rightarrow> (u8 list \<times> buf_desc) option" where
  "ring_get p = (case desc_read p of (st, x, p') \<Rightarrow> if st = PLATFORM_OK then Some (x, p') else None)"

definition ring_fits :: "buf_desc \<Rightarrow> u8 list \<Rightarrow> bool" where
  "ring_fits p x \<longleftrightarrow> length x = BUF_REALDSIZE p"

lemma desc_write_sizes:
  "BUF_REALDSIZE (snd (desc_write x p)) = BUF_REALDSIZE p"
  "BUF_REALSIZE (snd (desc_write x p)) = BUF_REALSIZE p"
  by (simp_all add: desc_write_def size_macros Let_def)

lemma desc_read_sizes:
  "BUF_REALDSIZE (snd (snd (desc_read p))) = BUF_REALDSIZE p"
  "BUF_REALSIZE (snd (snd (desc_read p))) = BUF_REALSIZE p"
  by (simp_all add: desc_read_def size_macros Let_def)

lemma buf_elems_Nil_iff: "buf_elems p = [] \<longleftrightarrow> count p = 0"
  by (simp add: buf_elems_def unat_eq_0)

lemma desc_read_status:
  "desc_inv p \<Longrightarrow> fst (desc_read p) = (if count p = 0 then PLATFORM_UNDERFLOW else PLATFORM_OK)"
  by (simp add: desc_read_def desc_inv_def desc_shape_def Let_def)

interpretation rb: fifo ring_put ring_get buf_elems desc_inv BUF_REALSIZE ring_fits
proof unfold_locales
  fix p x y
  assume "desc_inv p" "ring_fits p x" "length (buf_elems p) < BUF_REALSIZE p"
  then show "buf_elems (ring_put p x) = buf_elems p @ [x]" "desc_inv (ring_put p x)"
    "BUF_REALSIZE (ring_put p x) = BUF_REALSIZE p" "ring_fits (ring_put p x) y = ring_fits p y"
    by (simp_all add: ring_put_def ring_fits_def desc_write_elems desc_write_inv desc_write_sizes)
next
  fix p
  assume "desc_inv p" "buf_elems p = []"
  then show "ring_get p = None"
    by (simp add: ring_get_def buf_elems_Nil_iff desc_read_def)
next
  fix p x xs
  assume inv: "desc_inv p" and e: "buf_elems p = x # xs"
  then have c: "count p \<noteq> 0" using buf_elems_Nil_iff [of p] by auto
  obtain st y q where q: "desc_read p = (st, y, q)" by (cases "desc_read p") auto
  have "st = PLATFORM_OK" using desc_read_status [OF inv] q c by simp
  moreover have "y = x" "buf_elems q = xs" using desc_read_elems [OF inv c] q e by simp_all
  ultimately show "\<exists>q'. ring_get p = Some (x, q') \<and> buf_elems q' = xs \<and> desc_inv q' \<and>
      BUF_REALSIZE q' = BUF_REALSIZE p \<and> (\<forall>y. ring_fits q' y = ring_fits p y)"
    using desc_read_inv [OF inv c] desc_read_sizes [of p] q
    by (simp add: ring_get_def ring_fits_def)
qed

section \<open>The state after setting a buffer up\<close>

lemma desc_set_flush_inv:
  assumes "lsize \<noteq> 0" "unat lsize \<le> 15" "unat lsize + unat ldsize \<le> 16" "fresh \<noteq> None"
  shows "desc_inv (desc_flush (snd (desc_set fresh lsize ldsize p)))"
    "buf_elems (desc_flush (snd (desc_set fresh lsize ldsize p))) = []"
    "BUF_REALSIZE (desc_flush (snd (desc_set fresh lsize ldsize p))) = 2 ^ unat lsize"
    "BUF_REALDSIZE (desc_flush (snd (desc_set fresh lsize ldsize p))) = 2 ^ unat ldsize"
proof -
  have u: "unat (lsize + ldsize) = unat lsize + unat ldsize"
    using assms by (simp add: unat_word_ariths)
  then have "lsize + ldsize \<noteq> 0" using assms(1) by (metis add_eq_0_iff_both_eq_0 unat_eq_zero)
  with assms u show "desc_inv (desc_flush (snd (desc_set fresh lsize ldsize p)))"
    "buf_elems (desc_flush (snd (desc_set fresh lsize ldsize p))) = []"
    "BUF_REALSIZE (desc_flush (snd (desc_set fresh lsize ldsize p))) = 2 ^ unat lsize"
    "BUF_REALDSIZE (desc_flush (snd (desc_set fresh lsize ldsize p))) = 2 ^ unat ldsize"
    by (auto simp: desc_set_def desc_flush_def c_realloc_def Let_def desc_inv_def desc_shape_def
        size_macros BUF_SIZE_NONE_def buf_elems_def word_le_nat_alt)
qed

section \<open>Reading while the receive interrupt writes\<close>

text \<open>
  \<open>buf_read\<close> runs with interrupts enabled except around \<open>count --\<close>, so the handlers'
  \<open>buf_write\<close> calls can fall between its steps. \<open>desc_read_interrupted ws1 ws2 ws3\<close> is the
  reader with the writes \<open>ws1\<close> after the emptiness check, \<open>ws2\<close> after the copy and
  \<open>ws3\<close> between the decrement and the advance of \<open>rptr\<close>.
\<close>

definition desc_read_interrupted ::
  "u8 list list \<Rightarrow> u8 list list \<Rightarrow> u8 list list \<Rightarrow> buf_desc \<Rightarrow> pstatus \<times> u8 list \<times> buf_desc" where
  "desc_read_interrupted ws1 ws2 ws3 p =
     (let s = unat (rptr p)
      in if logsize p = BUF_SIZE_NONE \<or> count p = 0 then (PLATFORM_UNDERFLOW, [], p)
         else (let p1 = foldl ring_put p ws1;
                   bs = (case buf p1 of None \<Rightarrow> [] | Some bs \<Rightarrow> bs);
                   data = get_bytes bs s (duff_device_8 (BUF_REALDSIZE p1));
                   p2 = foldl ring_put p1 ws2;
                   p3 = p2\<lparr>count := count p2 - 1\<rparr>;
                   p4 = foldl ring_put p3 ws3
               in (PLATFORM_OK, data, p4\<lparr>rptr := BUF_MOD_INCR p4 (rptr p4)\<rparr>)))"

lemma ring_put_rptr [simp]: "rptr (ring_put p x) = rptr p" "logsize (ring_put p x) = logsize p"
  "logdsize (ring_put p x) = logdsize p"
  by (simp_all add: ring_put_def desc_write_def Let_def)

lemma ring_puts_frame [simp]:
  "rptr (foldl ring_put p ws) = rptr p" "logsize (foldl ring_put p ws) = logsize p"
  "logdsize (foldl ring_put p ws) = logdsize p"
  by (induction ws arbitrary: p) simp_all

lemma ring_put_rptr_commute: "(ring_put p x)\<lparr>rptr := r\<rparr> = ring_put (p\<lparr>rptr := r\<rparr>) x"
  by (cases p) (simp add: ring_put_def desc_write_def Let_def size_macros BUF_MOD_INCR_def)

lemma ring_puts_rptr_commute: "(foldl ring_put p ws)\<lparr>rptr := r\<rparr> = foldl ring_put (p\<lparr>rptr := r\<rparr>) ws"
  by (induction ws arbitrary: p) (simp_all add: ring_put_rptr_commute)

lemma desc_read_data:
  "desc_inv p \<Longrightarrow> count p \<noteq> 0 \<Longrightarrow>
     hd (buf_elems p) = get_bytes (case buf p of None \<Rightarrow> [] | Some bs \<Rightarrow> bs) (unat (rptr p)) (duff_device_8 (BUF_REALDSIZE p))"
proof -
  assume "desc_inv p" "count p \<noteq> 0"
  moreover from this have "hd (buf_elems p) = fst (snd (desc_read p))"
    using desc_read_elems [of p] by (metis list.sel(1))
  ultimately show ?thesis by (simp add: desc_read_def desc_inv_def desc_shape_def Let_def)
qed

section \<open>Properties\<close>

text \<open>The descriptor a call works on, after the virtual UART translation.\<close>

definition desc_of :: "board \<Rightarrow> buf_table \<Rightarrow> buf_id \<Rightarrow> nat \<Rightarrow> buf_desc" where
  "desc_of bd T resid resnum = T resid (bufh_check_resnum bd resid resnum)"

lemma upd_desc_apply: "upd_desc T r n p r' k = (if r' = r \<and> k = n then p else T r' k)"
  by (simp add: upd_desc_def)

lemma desc_get_size_inv: "desc_inv p \<Longrightarrow> desc_get_size p = BUF_REALSIZE p"
  by (simp add: desc_get_size_def desc_inv_def desc_shape_def)

text \<open>
  C25: \<open>buf_write\<close> on a buffer that is not full returns \<open>PLATFORM_OK\<close>, appends the element
  behind the ones waiting, keeps the descriptor well formed and touches no other descriptor.
\<close>

theorem buf_write_appends:
  assumes "desc_inv (desc_of bd T r n)"
    and "length x = BUF_REALDSIZE (desc_of bd T r n)"
    and "unat (buf_get_count bd T r n) < buf_get_size bd T r n"
  shows "\<exists>T'. buf_write bd T r n x = (PLATFORM_OK, T')
      \<and> desc_inv (desc_of bd T' r n)
      \<and> buf_elems (desc_of bd T' r n) = buf_elems (desc_of bd T r n) @ [x]
      \<and> T' = T(r := (T r)(bufh_check_resnum bd r n := desc_of bd T' r n))"
proof -
  let ?p = "desc_of bd T r n"
  have room: "unat (count ?p) < BUF_REALSIZE ?p"
    using assms by (simp add: desc_get_size_inv buf_get_size_def buf_get_count_def desc_get_count_def flip: desc_of_def)
  obtain bs where "buf ?p = Some bs" using assms(1) by (rule desc_inv_storage)
  note w = desc_write_some [OF assms(1) this assms(2)]
  from desc_write_inv [OF assms(1,2) room] desc_write_elems [OF assms(1,2) room] w show ?thesis
    by (simp add: buf_write_def upd_desc_def desc_of_def Let_def)
qed

text \<open>
  once a buffer has been given \<open>2 ^ lsize\<close> elements and flushed, any burst of writes that
  fits in it is returned by as many reads, element by element in the order of the writes,
  and leaves the buffer empty.
\<close>

lemma buf_set_write_read_roundtrip:
  assumes "lsize \<noteq> BUF_SIZE_NONE" "unat lsize \<le> 15" "unat lsize + unat ldsize \<le> 16"
    and "length xs \<le> 2 ^ unat lsize" "\<forall>x \<in> set xs. length x = 2 ^ unat ldsize"
  shows "let p = desc_flush (snd (desc_set (Some junk) lsize ldsize p0));
             (ys, q) = take_all ring_get (length xs) (foldl ring_put p xs)
         in ys = xs \<and> count q = 0"
proof -
  let ?p = "desc_flush (snd (desc_set (Some junk) lsize ldsize p0))"
  have p: "desc_inv ?p" "buf_elems ?p = []" "\<forall>x \<in> set xs. ring_fits ?p x" "length xs \<le> BUF_REALSIZE ?p"
    using assms desc_set_flush_inv [of lsize ldsize "Some junk" p0]
    by (simp_all add: BUF_SIZE_NONE_def ring_fits_def)
  from rb.puts_then_take_all [OF p] show ?thesis
    by (simp add: split_beta flip: buf_elems_Nil_iff)
qed

text \<open>
  the fullness test of \<open>buf_write\<close> is one too weak. On a buffer that already holds as
  many elements as it has room for, the write is accepted with \<open>PLATFORM_OK\<close>, the element
  count exceeds the size, and the next read returns the new element in place of the oldest.
\<close>

lemma buf_write_when_full_overwrites_oldest:
  assumes "desc_inv p" "unat (count p) = BUF_REALSIZE p" "length x = BUF_REALDSIZE p"
  shows "\<exists>q. desc_write x p = (PLATFORM_OK, q)
      \<and> unat (desc_get_count q) = desc_get_size q + 1
      \<and> fst (snd (desc_read q)) = x"
proof -
  obtain bs where b: "buf p = Some bs" "length bs = BUF_BYTESIZE p" using assms(1) by (rule desc_inv_storage)
  note w = desc_write_some [OF assms(1) b(1) assms(3)]
  let ?q = "snd (desc_write x p)"
  have s: "logsize p \<noteq> BUF_SIZE_NONE" "unat (rptr p) < BUF_BYTESIZE p"
    using assms(1) by (simp_all add: desc_inv_def desc_shape_def)
  have wp: "unat (wptr p) = unat (rptr p)"
    using assms(2) s(2)
    by (simp add: wptr_slot [OF assms(1)] slot_def inv_bytesize [OF assms(1)] mult.commute [of "BUF_REALSIZE p"])
  have "unat (rptr p) + BUF_REALDSIZE p \<le> length bs"
    using slot_in_block [OF assms(1), of 0] s(2) b(2) by (simp add: slot_def)
  then have "get_bytes (put_bytes bs (unat (rptr p)) x) (unat (rptr p)) (BUF_REALDSIZE p) = x"
    using get_put_same [of "unat (rptr p)" x bs] assms(3) by simp
  moreover have c: "unat (count ?q) = unat (count p) + 1" using count_plus_1 [OF assms(1)] by (simp add: w)
  moreover have "count ?q \<noteq> 0" using c by (metis Suc_eq_plus1 nat.simps(3) unat_0)
  ultimately show ?thesis
    using s(1) assms(2)
    by (simp add: w wp desc_get_count_def desc_get_size_def desc_read_def Let_def size_macros)
qed

text \<open>
  C10: interrupts that write between the steps of \<open>buf_read\<close> do no harm: as long as the
  buffer never fills beyond its size, the interrupted read returns the oldest element, and
  the descriptor it leaves is the one of the same writes and one undisturbed read.
\<close>

theorem buf_read_linearizable:
  assumes inv: "desc_inv p" and c: "count p \<noteq> 0"
    and fits: "\<forall>x \<in> set (ws1 @ ws2 @ ws3). length x = BUF_REALDSIZE p"
    and room: "unat (count p) + length (ws1 @ ws2) \<le> BUF_REALSIZE p"
  shows "desc_read_interrupted ws1 ws2 ws3 p =
      (PLATFORM_OK, hd (buf_elems p),
       foldl ring_put (snd (snd (desc_read (foldl ring_put p (ws1 @ ws2))))) ws3)"
proof -
  let ?p1 = "foldl ring_put p ws1" and ?p2 = "foldl ring_put p (ws1 @ ws2)"
  have ne: "buf_elems p \<noteq> []" using c by (simp add: buf_elems_Nil_iff)
  have p1: "buf_elems ?p1 = buf_elems p @ ws1" "desc_inv ?p1"
    using rb.puts_elems [of p ws1] inv fits room by (auto simp: ring_fits_def)
  have p2: "buf_elems ?p2 = buf_elems p @ ws1 @ ws2" "desc_inv ?p2"
    using rb.puts_elems [of p "ws1 @ ws2"] inv fits room by (auto simp: ring_fits_def)
  have c1: "count ?p1 \<noteq> 0" and c2: "count ?p2 \<noteq> 0"
    using ne p1(1) p2(1) by (simp_all flip: buf_elems_Nil_iff)
  have s: "logsize p \<noteq> BUF_SIZE_NONE" using inv by (simp add: desc_inv_def desc_shape_def)
  have "hd (buf_elems p) = hd (buf_elems ?p1)" using ne p1(1) by simp
  moreover have "snd (snd (desc_read ?p2)) = ?p2\<lparr>count := count ?p2 - 1, rptr := BUF_MOD_INCR ?p2 (rptr ?p2)\<rparr>"
    using c2 s by (simp add: desc_read_def Let_def BUF_MOD_INCR_def)
  ultimately show ?thesis
    using c s desc_read_data [OF p1(2) c1]
    by (simp add: desc_read_interrupted_def Let_def ring_puts_rptr_commute BUF_MOD_INCR_def)
qed

section \<open>Witnesses\<close>

definition sample_board :: board where
  "sample_board = \<lparr>num_uart = 2, sermux_num_vuart = 2, sermux_phys_id = 0\<rparr>"

definition sample_desc :: buf_desc where
  "sample_desc = \<lparr>logsize = 2, wptr = 3, rptr = 1, count = 2, buf = Some [9, 7, 8, 9], logdsize = 0\<rparr>"

definition sample_table :: buf_table where
  "sample_table r n = sample_desc"

lemma sample_desc_inv: "desc_inv sample_desc" "BUF_REALSIZE sample_desc = 4" "BUF_REALDSIZE sample_desc = 1"
  by (simp_all add: sample_desc_def desc_inv_def desc_shape_def size_macros BUF_SIZE_NONE_def)

lemma sample_desc_of: "desc_of sample_board sample_table r n = sample_desc"
  by (simp add: desc_of_def sample_table_def)

theorem buf_write_appends_witness:
  "\<exists>T'. buf_write sample_board sample_table BUF_ID_UART 0xD1 [5] = (PLATFORM_OK, T')
     \<and> buf_elems (desc_of sample_board T' BUF_ID_UART 0xD1) = [[7], [8], [5]]"
proof -
  have "buf_elems sample_desc = [[7], [8]]"
    by (simp add: buf_elems_def slot_def size_macros get_bytes_def sample_desc_def upt_conv_Cons)
  moreover have "buf_get_count sample_board sample_table BUF_ID_UART 0xD1 = 2"
    by (simp add: buf_get_count_def desc_get_count_def sample_table_def sample_desc_def)
  moreover have "buf_get_size sample_board sample_table BUF_ID_UART 0xD1 = 4"
    using sample_desc_inv by (simp add: buf_get_size_def desc_get_size_inv sample_table_def)
  ultimately show ?thesis
    using buf_write_appends [of sample_board sample_table BUF_ID_UART "0xD1" "[5]"]
    by (auto simp: sample_desc_of sample_desc_inv)
qed

theorem buf_set_write_read_roundtrip_witness:
  "let p = desc_flush (snd (desc_set (Some (\<lambda>_. 0)) 1 1 sample_desc));
       (ys, q) = take_all ring_get 2 (foldl ring_put p [[1, 2], [3, 4]])
   in ys = [[1, 2], [3, 4]] \<and> count q = 0"
  using buf_set_write_read_roundtrip [of 1 1 "[[1, 2], [3, 4]]" "\<lambda>_. 0" sample_desc]
  by (simp add: BUF_SIZE_NONE_def numeral_2_eq_2)

definition full_desc :: buf_desc where
  "full_desc = \<lparr>logsize = 1, wptr = 1, rptr = 1, count = 2, buf = Some [7, 8], logdsize = 0\<rparr>"

theorem buf_write_when_full_overwrites_oldest_witness:
  "buf_elems full_desc = [[8], [7]] \<and>
   (\<exists>q. desc_write [5] full_desc = (PLATFORM_OK, q) \<and> unat (desc_get_count q) = desc_get_size q + 1
      \<and> fst (snd (desc_read q)) = [5])"
proof
  show "buf_elems full_desc = [[8], [7]]"
    by (simp add: buf_elems_def full_desc_def slot_def size_macros get_bytes_def upt_conv_Cons)
  show "\<exists>q. desc_write [5] full_desc = (PLATFORM_OK, q) \<and> unat (desc_get_count q) = desc_get_size q + 1
      \<and> fst (snd (desc_read q)) = [5]"
    by (rule buf_write_when_full_overwrites_oldest)
      (simp_all add: full_desc_def desc_inv_def desc_shape_def size_macros BUF_SIZE_NONE_def)
qed

theorem buf_read_linearizable_witness:
  "desc_read_interrupted [[5]] [[6]] [[4]] sample_desc =
     (PLATFORM_OK, hd (buf_elems sample_desc),
      foldl ring_put (snd (snd (desc_read (foldl ring_put sample_desc [[5], [6]])))) [[4]])"
proof -
  have "count sample_desc = 2" by (simp add: sample_desc_def)
  then show ?thesis
    using buf_read_linearizable [of sample_desc "[[5]]" "[[6]]" "[[4]]"] by (simp add: sample_desc_inv)
qed

end
