(* ===== verification/Sermux.thy ===== *)
theory Sermux
  imports Buf
begin

text \<open>
  The serial multiplexer: \<open>src/common_uart.c\<close> on the target and the service loop of
  \<open>mux_src/main.c\<close> on the desktop, with \<open>inc/sermux.h\<close>. Several virtual UARTs share one
  line; a byte is preceded by the service id when the service changes, and bytes that look like
  control characters are escaped.

  The state of each side is a record of its globals, \<open>-1\<close> meaning unknown as in the code. A
  step gives the bytes it puts on the physical line; on the target received bytes go to the
  buffers of \<open>Buf\<close>, on the desktop they are given back with their service.

  The lemmas show that what one side sends the other receives, in order and per service, from
  any synchronised state, and that a receiver that has lost the service id gets the byte after
  one exchange.
\<close>

section \<open>Constants\<close>

definition SERMUX_ESCAPE_CHAR :: u8 where "SERMUX_ESCAPE_CHAR = 0xC0"
definition SERMUX_FORCE_SID_CHAR :: u8 where "SERMUX_FORCE_SID_CHAR = 0xFF"
definition SERMUX_ESCAPE_XOR_MASK :: u8 where "SERMUX_ESCAPE_XOR_MASK = 0x20"
definition SERMUX_ESC_MASK :: int where "SERMUX_ESC_MASK = 0x100"

lemmas sermux_consts = SERMUX_ESCAPE_CHAR_def SERMUX_FORCE_SID_CHAR_def SERMUX_ESCAPE_XOR_MASK_def
  SERMUX_ESC_MASK_def SERMUX_SERVICE_ID_FIRST_def SERMUX_SERVICE_ID_LAST_def

text \<open>The condition under which both senders escape a byte.\<close>

definition sermux_special :: "u8 \<Rightarrow> bool" where
  "sermux_special c \<longleftrightarrow> c = SERMUX_ESCAPE_CHAR \<or> c = SERMUX_FORCE_SID_CHAR
     \<or> (SERMUX_SERVICE_ID_FIRST \<le> unat c \<and> unat c \<le> SERMUX_SERVICE_ID_LAST)"

section \<open>Target\<close>

record vuart =
  uart_service_id_in :: int
  uart_service_id_out :: int
  uart_got_esc :: bool
  uart_last_sent :: int

definition is_vuart :: "board \<Rightarrow> int \<Rightarrow> bool" where
  "is_vuart bd i \<longleftrightarrow> int SERMUX_SERVICE_ID_FIRST \<le> i \<and> i < int (SERMUX_SERVICE_ID_FIRST + sermux_num_vuart bd)"

definition platform_uart_exists :: "board \<Rightarrow> nat \<Rightarrow> bool" where
  "platform_uart_exists bd i \<longleftrightarrow> i < num_uart bd \<or> is_vuart bd (int i)"

text \<open>
  \<open>platform_uart_send\<close> gives the calls of \<open>platform_s_uart_send\<close>: port and byte.
\<close>

definition platform_uart_send :: "board \<Rightarrow> nat \<Rightarrow> u8 \<Rightarrow> vuart \<Rightarrow> (nat \<times> u8) list \<times> vuart" where
  "platform_uart_send bd i d v =
     (if is_vuart bd (int i) then
        let phys = sermux_phys_id bd;
            out1 = (if int i \<noteq> uart_service_id_out v then [(phys, of_nat i)] else []);
            v = v\<lparr> uart_last_sent := uint d \<rparr>;
            (out2, v) =
              (if sermux_special d then
                 ([(phys, SERMUX_ESCAPE_CHAR), (phys, d XOR SERMUX_ESCAPE_XOR_MASK)],
                  v\<lparr> uart_last_sent := SERMUX_ESC_MASK OR uint (d XOR SERMUX_ESCAPE_XOR_MASK) \<rparr>)
               else ([(phys, d)], v))
        in (out1 @ out2, v\<lparr> uart_service_id_out := int i \<rparr>)
      else ([(i, d)], v))"

definition cmn_rx_handler ::
  "board \<Rightarrow> nat \<Rightarrow> u8 \<Rightarrow> vuart \<times> buf_table \<Rightarrow> u8 list \<times> vuart \<times> buf_table" where
  "cmn_rx_handler bd usart_id d vT =
     (let (v, T) = vT in
      if usart_id = sermux_phys_id bd then
        if d \<noteq> SERMUX_ESCAPE_CHAR then
          if is_vuart bd (uint d) then ([], v\<lparr> uart_service_id_in := uint d \<rparr>, T)
          else if d = SERMUX_FORCE_SID_CHAR \<and> uart_last_sent v \<noteq> -1 then
            ([of_int (uart_service_id_out v)]
               @ (if uart_last_sent v AND SERMUX_ESC_MASK \<noteq> 0 then [SERMUX_ESCAPE_CHAR] else [])
               @ [of_int (uart_last_sent v AND 0xFF)],
             v\<lparr> uart_last_sent := -1 \<rparr>, T)
          else
            let d = (if uart_got_esc v then d XOR SERMUX_ESCAPE_XOR_MASK else d);
                v = v\<lparr> uart_got_esc := False \<rparr>
            in if uart_service_id_in v = -1 then ([SERMUX_FORCE_SID_CHAR], v, T)
               else ([], v, snd (buf_write bd T BUF_ID_UART (nat (uart_service_id_in v)) [d]))
        else ([], v\<lparr> uart_got_esc := True \<rparr>, T)
      else ([], v, snd (buf_write bd T BUF_ID_UART usart_id [d])))"

fun cmn_rx_bytes :: "board \<Rightarrow> u8 list \<Rightarrow> vuart \<times> buf_table \<Rightarrow> u8 list \<times> vuart \<times> buf_table" where
  "cmn_rx_bytes bd [] vT = ([], vT)"
| "cmn_rx_bytes bd (d # ds) vT =
     (case cmn_rx_handler bd (sermux_phys_id bd) d vT of (o1, vT) \<Rightarrow>
        case cmn_rx_bytes bd ds vT of (o2, vT) \<Rightarrow> (o1 @ o2, vT))"

text \<open>
  \<open>platform_uart_set_buffer\<close>: \<open>fresh\<close> is the heap's answer, \<open>irq\<close> whether the platform can
  enable the receive interrupt; the handler itself is installed in the interrupt table.
\<close>

definition platform_uart_set_buffer ::
  "board \<Rightarrow> (nat \<Rightarrow> u8) option \<Rightarrow> bool \<Rightarrow> buf_table \<Rightarrow> nat \<Rightarrow> u8 \<Rightarrow> pstatus \<times> buf_table" where
  "platform_uart_set_buffer bd fresh irq T i log2size =
     (if i = sermux_phys_id bd then (PLATFORM_ERR, T)
      else if log2size = 0 then
        if i \<ge> SERMUX_SERVICE_ID_FIRST then (PLATFORM_ERR, T)
        else (PLATFORM_OK, snd (buf_set bd fresh T BUF_ID_UART i BUF_SIZE_NONE BUF_DSIZE_U8))
      else
        let (st, T) = buf_set bd fresh T BUF_ID_UART i log2size BUF_DSIZE_U8 in
        if st = PLATFORM_ERR then (PLATFORM_ERR, T)
        else if i \<ge> SERMUX_SERVICE_ID_FIRST then (PLATFORM_OK, T)
        else if \<not> irq then (PLATFORM_ERR, T)
        else (PLATFORM_OK, T))"

definition platform_uart_set_flow_control :: "(nat \<Rightarrow> int \<Rightarrow> pstatus) \<Rightarrow> nat \<Rightarrow> int \<Rightarrow> pstatus" where
  "platform_uart_set_flow_control platform_s_set i ty =
     (if i \<ge> SERMUX_SERVICE_ID_FIRST then PLATFORM_ERR else platform_s_set i ty)"

section \<open>Desktop\<close>

record muxst =
  service_id_in :: int
  service_id_out :: int
  prev_sent :: int
  got_esc :: bool

text \<open>
  What the command line fixes: the ports opened, and with the remote file system on the line (\<open>rfsmux\<close>)
  the service id of its server, by which the ids of the ports are shifted.
\<close>

record muxcfg =
  vport_num :: nat
  rfs_service_id :: int
  service_offset :: int

text \<open>Where a byte for a service goes; nothing for an id that has no entry in \<open>services\<close>.\<close>

datatype mux_dest = ToRfs | ToPort nat

definition mux_dest_of :: "muxcfg \<Rightarrow> int \<Rightarrow> mux_dest option" where
  "mux_dest_of M i =
     (if i = rfs_service_id M then Some ToRfs
      else let k = i - int SERMUX_SERVICE_ID_FIRST - service_offset M in
        if 0 \<le> k \<and> k < int (vport_num M) then Some (ToPort (nat k)) else None)"

text \<open>
  A byte from the transport: the bytes sent back, the byte delivered with its destination, and the
  new state; \<open>None\<close> is the program's exit on a protocol error, or an index outside \<open>services\<close>.
\<close>

definition mux_recv_byte :: "muxcfg \<Rightarrow> u8 \<Rightarrow> muxst \<Rightarrow> (u8 list \<times> (mux_dest \<times> u8) list \<times> muxst) option" where
  "mux_recv_byte M c s =
     (if c \<noteq> SERMUX_ESCAPE_CHAR then
        if SERMUX_SERVICE_ID_FIRST \<le> unat c \<and> unat c \<le> SERMUX_SERVICE_ID_LAST then
          Some ([], [], s\<lparr> service_id_in := uint c \<rparr>)
        else if c = SERMUX_FORCE_SID_CHAR then
          if prev_sent s = -1 then None
          else Some ([of_int (service_id_out s)]
                 @ (if prev_sent s AND SERMUX_ESC_MASK \<noteq> 0 then [SERMUX_ESCAPE_CHAR] else [])
                 @ [of_int (prev_sent s AND 0xFF)], [], s\<lparr> prev_sent := -1 \<rparr>)
        else
          let c' = c XOR SERMUX_ESCAPE_XOR_MASK in
          if got_esc s \<and> \<not> sermux_special c' then None
          else
            let c = (if got_esc s then c' else c);
                s = s\<lparr> got_esc := False \<rparr>
            in if service_id_in s = -1 then Some ([SERMUX_FORCE_SID_CHAR], [], s)
               else
                 case mux_dest_of M (service_id_in s) of
                   None \<Rightarrow> None
                 | Some d \<Rightarrow> Some ([], [(d, c)], s)
      else Some ([], [], s\<lparr> got_esc := True \<rparr>))"

text \<open>A byte from the service with id \<open>temp\<close>, to be sent over the transport.\<close>

definition mux_send_byte :: "int \<Rightarrow> u8 \<Rightarrow> muxst \<Rightarrow> u8 list \<times> muxst" where
  "mux_send_byte temp c s =
     (let s = s\<lparr> prev_sent := uint c \<rparr>;
          out1 = (if temp \<noteq> service_id_out s then [of_int temp] else []);
          (out2, s) =
            (if sermux_special c then
               ([SERMUX_ESCAPE_CHAR, c XOR SERMUX_ESCAPE_XOR_MASK],
                s\<lparr> prev_sent := SERMUX_ESC_MASK OR uint (c XOR SERMUX_ESCAPE_XOR_MASK) \<rparr>)
             else ([c], s))
      in (out1 @ out2, s\<lparr> service_id_out := temp \<rparr>))"

fun mux_recv_bytes :: "muxcfg \<Rightarrow> u8 list \<Rightarrow> muxst \<Rightarrow> (u8 list \<times> (mux_dest \<times> u8) list \<times> muxst) option" where
  "mux_recv_bytes M [] s = Some ([], [], s)"
| "mux_recv_bytes M (c # cs) s =
     (case mux_recv_byte M c s of
        None \<Rightarrow> None
      | Some (o1, d1, s) \<Rightarrow>
          (case mux_recv_bytes M cs s of
             None \<Rightarrow> None
           | Some (o2, d2, s) \<Rightarrow> Some (o1 @ o2, d1 @ d2, s)))"

text \<open>Sequences of sends on either side: the services' bytes in the order they come.\<close>

fun mux_sends :: "(int \<times> u8) list \<Rightarrow> muxst \<Rightarrow> u8 list \<times> muxst" where
  "mux_sends [] s = ([], s)"
| "mux_sends ((i, c) # es) s =
     (case mux_send_byte i c s of (o1, s) \<Rightarrow> case mux_sends es s of (o2, s) \<Rightarrow> (o1 @ o2, s))"

fun uart_sends :: "board \<Rightarrow> (nat \<times> u8) list \<Rightarrow> vuart \<Rightarrow> (nat \<times> u8) list \<times> vuart" where
  "uart_sends bd [] v = ([], v)"
| "uart_sends bd ((i, c) # es) v =
     (case platform_uart_send bd i c v of (o1, v) \<Rightarrow> case uart_sends bd es v of (o2, v) \<Rightarrow> (o1 @ o2, v))"

section \<open>Escaping\<close>

lemma sermux_special_cases:
  "sermux_special c \<longleftrightarrow> c \<in> set [0xC0, 0xFF, 0xD0, 0xD1, 0xD2, 0xD3, 0xD4, 0xD5, 0xD6, 0xD7]"
proof -
  have "208 \<le> unat c \<and> unat c \<le> 215 \<longleftrightarrow> unat c \<in> {208, 209, 210, 211, 212, 213, 214, 215}" by auto
  then show ?thesis
    by (simp add: sermux_special_def sermux_consts word_unat_eq_iff)
qed

lemma escaped_not_special: "sermux_special c \<Longrightarrow> \<not> sermux_special (c XOR SERMUX_ESCAPE_XOR_MASK)"
  by (auto simp: sermux_special_cases SERMUX_ESCAPE_XOR_MASK_def)

lemma unescape [simp]: "(c XOR SERMUX_ESCAPE_XOR_MASK) XOR SERMUX_ESCAPE_XOR_MASK = c"
  by (simp add: xor.assoc)

lemma xor_escape_char: "\<not> sermux_special c \<Longrightarrow> c \<noteq> SERMUX_ESCAPE_CHAR \<and> c \<noteq> SERMUX_FORCE_SID_CHAR"
  by (simp add: sermux_special_def)

lemma not_special_id:
  "\<not> sermux_special c \<Longrightarrow> \<not> (SERMUX_SERVICE_ID_FIRST \<le> unat c \<and> unat c \<le> SERMUX_SERVICE_ID_LAST)"
  by (simp add: sermux_special_def)

text \<open>The bytes a data byte becomes on the line.\<close>

definition sermux_encode :: "u8 \<Rightarrow> u8 list" where
  "sermux_encode c =
     (if sermux_special c then [SERMUX_ESCAPE_CHAR, c XOR SERMUX_ESCAPE_XOR_MASK] else [c])"

definition sermux_last :: "u8 \<Rightarrow> int" where
  "sermux_last c =
     (if sermux_special c then SERMUX_ESC_MASK OR uint (c XOR SERMUX_ESCAPE_XOR_MASK) else uint c)"

lemma mux_send_byte_eq:
  "mux_send_byte i c s = ((if i \<noteq> service_id_out s then [of_int i] else []) @ sermux_encode c,
     s\<lparr> prev_sent := sermux_last c, service_id_out := i \<rparr>)"
  by (simp add: mux_send_byte_def sermux_encode_def sermux_last_def Let_def)

lemma platform_uart_send_eq:
  assumes "is_vuart bd (int i)"
  shows "platform_uart_send bd i c v =
     (map (Pair (sermux_phys_id bd)) ((if int i \<noteq> uart_service_id_out v then [of_nat i] else []) @ sermux_encode c),
      v\<lparr> uart_last_sent := sermux_last c, uart_service_id_out := int i \<rparr>)"
  using assms by (simp add: platform_uart_send_def sermux_encode_def sermux_last_def Let_def)

text \<open>Boards have at most as many virtual UARTs as there are service ids.\<close>

definition board_ok :: "board \<Rightarrow> bool" where
  "board_ok bd \<longleftrightarrow> sermux_num_vuart bd \<le> 8 \<and> sermux_phys_id bd < SERMUX_SERVICE_ID_FIRST"

lemma vuart_byte:
  assumes "board_ok bd" "is_vuart bd i"
  shows "uint (of_int i :: u8) = i" "(of_int i :: u8) \<noteq> SERMUX_ESCAPE_CHAR"
    "(of_int i :: u8) \<noteq> SERMUX_FORCE_SID_CHAR" "i \<noteq> -1" "0 \<le> i"
    "SERMUX_SERVICE_ID_FIRST \<le> unat (of_int i :: u8) \<and> unat (of_int i :: u8) \<le> SERMUX_SERVICE_ID_LAST"
proof -
  from assms have i: "208 \<le> i" "i \<le> 215"
    by (auto simp: board_ok_def is_vuart_def sermux_consts)
  then show u: "uint (of_int i :: u8) = i" by (simp add: uint_word_of_int)
  have n: "unat (of_int i :: u8) = nat i" by (metis u unat_eq_nat_uint)
  then show "(of_int i :: u8) \<noteq> SERMUX_ESCAPE_CHAR" "(of_int i :: u8) \<noteq> SERMUX_FORCE_SID_CHAR"
    using i by (auto simp: sermux_consts word_unat_eq_iff)
  show "i \<noteq> -1" "0 \<le> i" using i by simp_all
  show "SERMUX_SERVICE_ID_FIRST \<le> unat (of_int i :: u8) \<and> unat (of_int i :: u8) \<le> SERMUX_SERVICE_ID_LAST"
    unfolding n using i by (simp add: sermux_consts nat_le_iff le_nat_iff)
qed

lemma special_of_vuart:
  assumes "board_ok bd" "is_vuart bd (uint c)"
  shows "sermux_special c"
  using vuart_byte(6) [OF assms] by (simp add: sermux_special_def)

section \<open>Receiving one byte\<close>

lemma rx_data:
  assumes "board_ok bd" "\<not> uart_got_esc v"
  shows "cmn_rx_bytes bd (sermux_encode c) (v, T) =
     (if uart_service_id_in v = -1 then ([SERMUX_FORCE_SID_CHAR], v, T)
      else ([], v, snd (buf_write bd T BUF_ID_UART (nat (uart_service_id_in v)) [c])))"
proof (cases "sermux_special c")
  case True
  let ?x = "c XOR SERMUX_ESCAPE_XOR_MASK"
  from escaped_not_special [OF True] have x: "?x \<noteq> SERMUX_ESCAPE_CHAR" "?x \<noteq> SERMUX_FORCE_SID_CHAR"
    "\<not> is_vuart bd (uint ?x)"
    using special_of_vuart [OF assms(1)] xor_escape_char by auto
  from assms(2) have "v\<lparr> uart_got_esc := False \<rparr> = v" by simp
  with True x show ?thesis by (simp add: sermux_encode_def cmn_rx_handler_def Let_def)
next
  case False
  then have x: "c \<noteq> SERMUX_ESCAPE_CHAR" "c \<noteq> SERMUX_FORCE_SID_CHAR" "\<not> is_vuart bd (uint c)"
    using special_of_vuart [OF assms(1)] xor_escape_char by auto
  from assms(2) have "v\<lparr> uart_got_esc := False \<rparr> = v" by simp
  with False x assms(2) show ?thesis by (simp add: sermux_encode_def cmn_rx_handler_def Let_def)
qed

lemma rx_id:
  assumes "board_ok bd" "is_vuart bd i"
  shows "cmn_rx_handler bd (sermux_phys_id bd) (of_int i) (v, T) = ([], v\<lparr> uart_service_id_in := i \<rparr>, T)"
  using vuart_byte [OF assms] assms(2) by (simp add: cmn_rx_handler_def)

lemma mux_rx_data:
  assumes "\<not> got_esc s"
  shows "mux_recv_bytes M (sermux_encode c) s =
     (if service_id_in s = -1 then Some ([SERMUX_FORCE_SID_CHAR], [], s)
      else case mux_dest_of M (service_id_in s) of None \<Rightarrow> None | Some d \<Rightarrow> Some ([], [(d, c)], s))"
proof -
  from assms have e: "s\<lparr> got_esc := False \<rparr> = s" by simp
  show ?thesis
  proof (cases "sermux_special c")
    case True
    note n = escaped_not_special [OF True]
    with True e show ?thesis
      using xor_escape_char [OF n] not_special_id [OF n]
      by (simp add: sermux_encode_def mux_recv_byte_def Let_def split: option.split)
  next
    case False
    with e assms show ?thesis
      using xor_escape_char [OF False] not_special_id [OF False]
      by (simp add: sermux_encode_def mux_recv_byte_def Let_def split: option.split)
  qed
qed

lemma mux_rx_id:
  assumes "board_ok bd" "is_vuart bd i"
  shows "mux_recv_byte M (of_int i) s = Some ([], [], s\<lparr> service_id_in := i \<rparr>)"
  using vuart_byte [OF assms] by (simp add: mux_recv_byte_def)

section \<open>From the desktop to the target\<close>

definition down_sync :: "muxst \<Rightarrow> vuart \<Rightarrow> bool" where
  "down_sync s v \<longleftrightarrow> (service_id_out s = -1 \<or> service_id_out s = uart_service_id_in v) \<and> \<not> uart_got_esc v"

lemma cmn_rx_bytes_append:
  "cmn_rx_bytes bd (xs @ ys) vT =
     (case cmn_rx_bytes bd xs vT of (o1, vT) \<Rightarrow> case cmn_rx_bytes bd ys vT of (o2, vT) \<Rightarrow> (o1 @ o2, vT))"
  by (induction xs arbitrary: vT) (simp_all add: split_beta)

lemma down_one:
  assumes "board_ok bd" "is_vuart bd i" "down_sync s v"
  shows "cmn_rx_bytes bd (fst (mux_send_byte i c s)) (v, T) =
      ([], v\<lparr> uart_service_id_in := i \<rparr>, snd (buf_write bd T BUF_ID_UART (nat i) [c]))
    \<and> down_sync (snd (mux_send_byte i c s)) (v\<lparr> uart_service_id_in := i \<rparr>)"
proof -
  let ?v = "v\<lparr> uart_service_id_in := i \<rparr>"
  from assms(3) have "\<not> uart_got_esc ?v" by (simp add: down_sync_def)
  from rx_data [OF assms(1) this, of c T] vuart_byte(4) [OF assms(1,2)]
  have d: "cmn_rx_bytes bd (sermux_encode c) (?v, T) = ([], ?v, snd (buf_write bd T BUF_ID_UART (nat i) [c]))"
    by simp
  have "?v = v" if "i = service_id_out s"
    using that assms(3) vuart_byte(4) [OF assms(1,2)] by (auto simp: down_sync_def)
  with d assms show ?thesis
    by (auto simp: mux_send_byte_eq rx_id down_sync_def split_beta)
qed

lemma down_all:
  assumes "board_ok bd" "\<forall>(i, c) \<in> set es. is_vuart bd i" "down_sync s v"
  shows "\<exists>v'. cmn_rx_bytes bd (fst (mux_sends es s)) (v, T) =
      ([], v', foldl (\<lambda>T (i, c). snd (buf_write bd T BUF_ID_UART (nat i) [c])) T es)
    \<and> down_sync (snd (mux_sends es s)) v'"
  using assms(2,3)
proof (induction es arbitrary: s v T)
  case Nil
  then show ?case by simp
next
  case (Cons e es)
  obtain i c where e: "e = (i, c)" by (cases e)
  with Cons.prems have "is_vuart bd i" by simp
  from down_one [OF assms(1) this Cons.prems(2), of c T] obtain v1 where
    one: "cmn_rx_bytes bd (fst (mux_send_byte i c s)) (v, T) = ([], v1, snd (buf_write bd T BUF_ID_UART (nat i) [c]))"
      "down_sync (snd (mux_send_byte i c s)) v1" by blast
  from Cons.prems(1) have "\<forall>(i, c) \<in> set es. is_vuart bd i" by simp
  from Cons.IH [OF this one(2), of "snd (buf_write bd T BUF_ID_UART (nat i) [c])"] one(1) show ?case
    by (auto simp: e split_beta cmn_rx_bytes_append)
qed

section \<open>From the target to the desktop\<close>

definition up_sync :: "vuart \<Rightarrow> muxst \<Rightarrow> bool" where
  "up_sync v s \<longleftrightarrow> (uart_service_id_out v = -1 \<or> uart_service_id_out v = service_id_in s) \<and> \<not> got_esc s"

lemma mux_recv_bytes_append:
  "mux_recv_bytes M (xs @ ys) s =
     (case mux_recv_bytes M xs s of None \<Rightarrow> None
      | Some (o1, d1, s) \<Rightarrow>
         (case mux_recv_bytes M ys s of None \<Rightarrow> None | Some (o2, d2, s) \<Rightarrow> Some (o1 @ o2, d1 @ d2, s)))"
  by (induction xs arbitrary: s) (auto split: option.splits)

lemma up_one:
  assumes "board_ok bd" "is_vuart bd (int i)" "up_sync v s" "mux_dest_of M (int i) = Some d"
  shows "mux_recv_bytes M (map snd (fst (platform_uart_send bd i c v))) s =
      Some ([], [(d, c)], s\<lparr> service_id_in := int i \<rparr>)
    \<and> up_sync (snd (platform_uart_send bd i c v)) (s\<lparr> service_id_in := int i \<rparr>)"
proof -
  let ?s = "s\<lparr> service_id_in := int i \<rparr>"
  from assms(3) have "\<not> got_esc ?s" by (simp add: up_sync_def)
  from mux_rx_data [OF this, of M c]
  have d: "mux_recv_bytes M (sermux_encode c) ?s = Some ([], [(d, c)], ?s)" using assms(4) by simp
  have "?s = s" if "int i = uart_service_id_out v"
    using that assms(3) by (auto simp: up_sync_def)
  moreover have "mux_recv_byte M (of_nat i) s = Some ([], [], ?s)"
    using mux_rx_id [OF assms(1,2)] by simp
  ultimately show ?thesis
    using d assms by (auto simp: platform_uart_send_eq up_sync_def comp_def)
qed

lemma up_all:
  assumes "board_ok bd" "\<forall>(i, c) \<in> set es. is_vuart bd (int i) \<and> mux_dest_of M (int i) = Some (to i)" "up_sync v s"
  shows "\<exists>s'. mux_recv_bytes M (map snd (fst (uart_sends bd es v))) s =
      Some ([], map (apfst to) es, s')
    \<and> up_sync (snd (uart_sends bd es v)) s'"
  using assms(2,3)
proof (induction es arbitrary: s v)
  case Nil
  then show ?case by simp
next
  case (Cons e es)
  obtain i c where e: "e = (i, c)" by (cases e)
  with Cons.prems have "is_vuart bd (int i)" "mux_dest_of M (int i) = Some (to i)" by simp_all
  from up_one [OF assms(1) this(1) Cons.prems(2) this(2), of c] obtain s1 where
    one: "mux_recv_bytes M (map snd (fst (platform_uart_send bd i c v))) s = Some ([], [(to i, c)], s1)"
      "up_sync (snd (platform_uart_send bd i c v)) s1" by blast
  from Cons.prems(1) have "\<forall>(i, c) \<in> set es. is_vuart bd (int i) \<and> mux_dest_of M (int i) = Some (to i)" by simp
  from Cons.IH [OF this one(2)] one(1) show ?case
    by (auto simp: e split_beta mux_recv_bytes_append)
qed

section \<open>Finding the service again\<close>

lemma last_low_byte: "(of_int (sermux_last c AND 0xFF) :: u8) = (if sermux_special c then c XOR SERMUX_ESCAPE_XOR_MASK else c)"
proof -
  have m: "(x :: int) AND 0xFF = take_bit 8 x" for x
    using take_bit_eq_mask [of 8 x] by (simp add: mask_eq_exp_minus_1)
  have "take_bit 8 (SERMUX_ESC_MASK OR uint (d :: u8)) = uint d" for d
  proof -
    have "take_bit 8 (256 :: int) = 0" by simp
    moreover have "take_bit 8 (uint d) = uint d" using uint_lt2p [of d] by (simp add: take_bit_int_eq_self_iff)
    ultimately show ?thesis by (simp add: take_bit_or SERMUX_ESC_MASK_def)
  qed
  moreover have "take_bit 8 (uint (d :: u8)) = uint d" for d
    using uint_lt2p [of d] by (simp add: take_bit_int_eq_self_iff)
  ultimately show ?thesis by (simp add: sermux_last_def m)
qed

lemma last_esc_bit: "sermux_last c AND SERMUX_ESC_MASK \<noteq> 0 \<longleftrightarrow> sermux_special c"
proof -
  have u: "uint (d :: u8) AND SERMUX_ESC_MASK = 0" for d
  proof (rule bit_eqI)
    fix n
    have "bit (256 :: int) n \<longleftrightarrow> n = 8"
      using bit_exp_iff [where 'a=int, of 8 n] by simp
    then show "bit (uint d AND SERMUX_ESC_MASK) n = bit 0 n"
      by (auto simp: SERMUX_ESC_MASK_def bit_and_iff bit_uint_iff)
  qed
  have "(SERMUX_ESC_MASK OR uint d) AND SERMUX_ESC_MASK = SERMUX_ESC_MASK" for d :: u8
    by (simp add: bit.conj_disj_distrib2 u)
  then show ?thesis using u by (simp add: sermux_last_def SERMUX_ESC_MASK_def)
qed

lemma sermux_last_known [simp]: "sermux_last c \<noteq> -1"
proof -
  have "0 \<le> sermux_last c" by (simp add: sermux_last_def SERMUX_ESC_MASK_def)
  then show ?thesis by simp
qed

text \<open>What the sender answers to a request for the service id.\<close>

lemma mux_resend:
  assumes "prev_sent s = sermux_last c" "service_id_out s = i"
  shows "mux_recv_byte M SERMUX_FORCE_SID_CHAR s =
    Some ([of_int i] @ sermux_encode c, [], s\<lparr> prev_sent := -1 \<rparr>)"
  using assms
  by (simp add: mux_recv_byte_def sermux_encode_def last_low_byte last_esc_bit)
    (simp add: sermux_consts)

lemma uart_resend:
  assumes "board_ok bd" "uart_last_sent v = sermux_last c" "uart_service_id_out v = i"
  shows "cmn_rx_handler bd (sermux_phys_id bd) SERMUX_FORCE_SID_CHAR (v, T) =
    ([of_int i] @ sermux_encode c, v\<lparr> uart_last_sent := -1 \<rparr>, T)"
proof -
  have "\<not> is_vuart bd (uint SERMUX_FORCE_SID_CHAR)"
    using assms(1) by (simp add: board_ok_def is_vuart_def sermux_consts)
  moreover have "SERMUX_FORCE_SID_CHAR \<noteq> SERMUX_ESCAPE_CHAR" by (simp add: sermux_consts)
  ultimately show ?thesis
    using assms by (simp add: cmn_rx_handler_def sermux_encode_def last_low_byte last_esc_bit)
qed

section \<open>What arrives in the buffers\<close>

lemma buf_write_desc_of:
  assumes "SERMUX_SERVICE_ID_FIRST \<le> i" "SERMUX_SERVICE_ID_FIRST \<le> j"
  shows "desc_of bd (snd (buf_write bd T BUF_ID_UART i x)) BUF_ID_UART j =
    (if i = j then ring_put (desc_of bd T BUF_ID_UART i) x else desc_of bd T BUF_ID_UART j)"
  using assms
  by (auto simp: buf_write_def desc_of_def bufh_check_resnum_def upd_desc_apply ring_put_def split_beta Let_def)

lemma buf_writes_desc_of:
  assumes "\<forall>(i, c) \<in> set es. int SERMUX_SERVICE_ID_FIRST \<le> i" "SERMUX_SERVICE_ID_FIRST \<le> j"
  shows "desc_of bd (foldl (\<lambda>T (i, c). snd (buf_write bd T BUF_ID_UART (nat i) [c])) T es) BUF_ID_UART j =
    foldl ring_put (desc_of bd T BUF_ID_UART j) (map (\<lambda>(i, c). [c]) (filter (\<lambda>(i, c). i = int j) es))"
  using assms(1)
proof (induction es arbitrary: T)
  case Nil
  then show ?case by simp
next
  case (Cons e es)
  obtain i c where e: "e = (i, c)" by (cases e)
  with Cons.prems have i: "int SERMUX_SERVICE_ID_FIRST \<le> i" by simp
  then have "SERMUX_SERVICE_ID_FIRST \<le> nat i" by (simp add: le_nat_iff)
  with Cons i assms(2) show ?case
    by (auto simp: e buf_write_desc_of)
qed

lemma sample_board_fields: "sermux_num_vuart sample_board = 2" "sermux_phys_id sample_board = 0"
  by (simp_all add: sample_board_def)

lemma sample_desc_count: "count sample_desc = 2"
  by (simp add: sample_desc_def)

section \<open>Properties\<close>

text \<open>
  C27: the multiplexed line delivers. Whatever bytes the services on the desktop send, in
  whatever interleaving, once they have been escaped, tagged and received by the target, every
  virtual UART's buffer holds what it held before followed by exactly that service's bytes in
  order (as long as they fit), and the target sends nothing back.
\<close>

theorem sermux_down_delivers:
  assumes "board_ok bd" "\<forall>(i, c) \<in> set es. is_vuart bd i" "down_sync s v"
    and "is_vuart bd (int j)" "desc_inv (desc_of bd T BUF_ID_UART j)"
    and "BUF_REALDSIZE (desc_of bd T BUF_ID_UART j) = 1"
    and "length (buf_elems (desc_of bd T BUF_ID_UART j)) + length (filter (\<lambda>(i, c). i = int j) es)
        \<le> BUF_REALSIZE (desc_of bd T BUF_ID_UART j)"
  shows "\<exists>v' T'. cmn_rx_bytes bd (fst (mux_sends es s)) (v, T) = ([], v', T')
    \<and> buf_elems (desc_of bd T' BUF_ID_UART j) =
        buf_elems (desc_of bd T BUF_ID_UART j) @ map (\<lambda>(i, c). [c]) (filter (\<lambda>(i, c). i = int j) es)"
proof -
  let ?xs = "map (\<lambda>(i, c). [c]) (filter (\<lambda>(i, c). i = int j) es)"
  let ?T = "foldl (\<lambda>T (i, c). snd (buf_write bd T BUF_ID_UART (nat i) [c])) T es"
  obtain v' where rx: "cmn_rx_bytes bd (fst (mux_sends es s)) (v, T) = ([], v', ?T)"
    using down_all [OF assms(1-3)] by blast
  have "\<forall>(i, c) \<in> set es. int SERMUX_SERVICE_ID_FIRST \<le> i"
    using assms(2) by (auto simp: is_vuart_def)
  moreover have "SERMUX_SERVICE_ID_FIRST \<le> j" using assms(4) by (simp add: is_vuart_def)
  ultimately have "desc_of bd ?T BUF_ID_UART j = foldl ring_put (desc_of bd T BUF_ID_UART j) ?xs"
    by (rule buf_writes_desc_of)
  moreover have "buf_elems (foldl ring_put (desc_of bd T BUF_ID_UART j) ?xs) = buf_elems (desc_of bd T BUF_ID_UART j) @ ?xs"
    using rb.puts_elems [OF assms(5), of ?xs] assms(6,7) by (auto simp: ring_fits_def)
  ultimately show ?thesis using rx by auto
qed

theorem sermux_down_delivers_witness:
  "\<exists>v' T'. cmn_rx_bytes sample_board (fst (mux_sends [(0xD0, 0xC0), (0xD1, 7), (0xD0, 0xD3)]
        \<lparr> service_id_in = -1, service_id_out = -1, prev_sent = -1, got_esc = False \<rparr>))
      (\<lparr> uart_service_id_in = -1, uart_service_id_out = -1, uart_got_esc = False, uart_last_sent = -1 \<rparr>, sample_table)
      = ([], v', T')
    \<and> buf_elems (desc_of sample_board T' BUF_ID_UART 0xD0) =
        buf_elems (desc_of sample_board sample_table BUF_ID_UART 0xD0)
          @ map (\<lambda>(i, c). [c]) (filter (\<lambda>(i, c). i = int 0xD0) [(0xD0, 0xC0), (0xD1, 7), (0xD0, 0xD3)])"
  by (rule sermux_down_delivers)
    (simp_all add: sample_desc_of sample_desc_inv board_ok_def sample_board_fields is_vuart_def sermux_consts
      down_sync_def sample_desc_count)

text \<open>
  The same in the other direction. Every byte sequence the target's virtual UARTs send is
  delivered by the desktop to the right destinations, in order, with no protocol error and nothing
  sent back, if the desktop has a port or the file server for each of them.
\<close>

lemma sermux_up_delivers:
  assumes "board_ok bd" "\<forall>(i, c) \<in> set es. is_vuart bd (int i) \<and> mux_dest_of M (int i) = Some (to i)" "up_sync v s"
  shows "\<exists>s'. mux_recv_bytes M (map snd (fst (uart_sends bd es v))) s = Some ([], map (apfst to) es, s')
    \<and> up_sync (snd (uart_sends bd es v)) s'"
  by (rule up_all [OF assms])

text \<open>Two ports, and the remote file system on the first service.\<close>

definition ex_mux :: muxcfg where
  "ex_mux = \<lparr> vport_num = 2, rfs_service_id = int SERMUX_SERVICE_ID_FIRST, service_offset = 1 \<rparr>"

lemma sermux_up_delivers_witness:
  "\<exists>s'. mux_recv_bytes ex_mux (map snd (fst (uart_sends sample_board [(0xD1, 0xFF), (0xD1, 9), (0xD0, 0xD0)]
        \<lparr> uart_service_id_in = -1, uart_service_id_out = -1, uart_got_esc = False, uart_last_sent = -1 \<rparr>)))
      \<lparr> service_id_in = -1, service_id_out = -1, prev_sent = -1, got_esc = False \<rparr>
      = Some ([], map (apfst (\<lambda>i :: nat. if i = 0xD0 then ToRfs else ToPort 0)) [(0xD1, 0xFF), (0xD1, 9), (0xD0, 0xD0)], s')
    \<and> up_sync (snd (uart_sends sample_board [(0xD1, 0xFF), (0xD1, 9), (0xD0, 0xD0)]
        \<lparr> uart_service_id_in = -1, uart_service_id_out = -1, uart_got_esc = False, uart_last_sent = -1 \<rparr>)) s'"
  by (rule sermux_up_delivers)
    (simp_all add: board_ok_def sample_board_fields is_vuart_def sermux_consts up_sync_def mux_dest_of_def ex_mux_def)

text \<open>A byte for a service that has no port is written through an entry behind \<open>services\<close>.\<close>

lemma id_without_port_undefined:
  assumes "\<not> got_esc s" "service_id_in s \<noteq> -1" "mux_dest_of M (service_id_in s) = None"
  shows "mux_recv_bytes M (sermux_encode c) s = None"
  using mux_rx_data [OF assms(1), of M c] assms(2,3) by simp

text \<open>
  A target that has lost the service id recovers it. If the desktop sends a byte of the
  service it last used to a target that no longer knows the service, the target asks for the id,
  the desktop sends id and byte again, and the target delivers the byte to the right buffer;
  after that the two sides are synchronised.
\<close>

lemma sermux_resynchronises:
  assumes "board_ok bd" "is_vuart bd i" "service_id_out s = i"
    and "uart_service_id_in v = -1" "\<not> uart_got_esc v"
  shows "\<exists>again s' v'.
      cmn_rx_bytes bd (fst (mux_send_byte i c s)) (v, T) = ([SERMUX_FORCE_SID_CHAR], v, T)
    \<and> mux_recv_byte M SERMUX_FORCE_SID_CHAR (snd (mux_send_byte i c s)) = Some (again, [], s')
    \<and> cmn_rx_bytes bd again (v, T) = ([], v', snd (buf_write bd T BUF_ID_UART (nat i) [c]))
    \<and> down_sync s' v'"
proof -
  let ?s = "snd (mux_send_byte i c s)"
  let ?v = "v\<lparr> uart_service_id_in := i \<rparr>"
  have "cmn_rx_bytes bd (fst (mux_send_byte i c s)) (v, T) = ([SERMUX_FORCE_SID_CHAR], v, T)"
    using rx_data [OF assms(1,5), of c T] assms(3,4) by (simp add: mux_send_byte_eq)
  moreover have "mux_recv_byte M SERMUX_FORCE_SID_CHAR ?s =
      Some ([of_int i] @ sermux_encode c, [], ?s\<lparr> prev_sent := -1 \<rparr>)"
    by (rule mux_resend) (simp_all add: mux_send_byte_eq)
  moreover have "cmn_rx_bytes bd ([of_int i] @ sermux_encode c) (v, T) =
      ([], ?v, snd (buf_write bd T BUF_ID_UART (nat i) [c]))"
    using rx_data [OF assms(1), of ?v c T] vuart_byte(4) [OF assms(1,2)] assms(5)
    by (simp add: rx_id [OF assms(1,2)])
  moreover have "down_sync (?s\<lparr> prev_sent := -1 \<rparr>) ?v"
    using assms(5) by (simp add: down_sync_def mux_send_byte_eq)
  ultimately show ?thesis by blast
qed

theorem sermux_resynchronises_witness:
  "\<exists>again s' v'.
      cmn_rx_bytes sample_board (fst (mux_send_byte 0xD1 0xC0
        \<lparr> service_id_in = -1, service_id_out = 0xD1, prev_sent = -1, got_esc = False \<rparr>))
        (\<lparr> uart_service_id_in = -1, uart_service_id_out = -1, uart_got_esc = False, uart_last_sent = -1 \<rparr>, sample_table)
      = ([SERMUX_FORCE_SID_CHAR],
         \<lparr> uart_service_id_in = -1, uart_service_id_out = -1, uart_got_esc = False, uart_last_sent = -1 \<rparr>, sample_table)
    \<and> mux_recv_byte ex_mux SERMUX_FORCE_SID_CHAR (snd (mux_send_byte 0xD1 0xC0
        \<lparr> service_id_in = -1, service_id_out = 0xD1, prev_sent = -1, got_esc = False \<rparr>)) = Some (again, [], s')
    \<and> cmn_rx_bytes sample_board again
        (\<lparr> uart_service_id_in = -1, uart_service_id_out = -1, uart_got_esc = False, uart_last_sent = -1 \<rparr>, sample_table)
      = ([], v', snd (buf_write sample_board sample_table BUF_ID_UART (nat 0xD1) [0xC0]))
    \<and> down_sync s' v'"
  by (rule sermux_resynchronises)
    (simp_all add: board_ok_def sample_board_fields is_vuart_def sermux_consts)

end
