(* ===== verification/Adc.thy ===== *)
theory Adc
  imports Buf
begin

text \<open>
  Analog to digital conversion: \<open>src/elua_adc.c\<close> with the part of the LM3S driver that feeds it
  (\<open>src/platform/lm3s/platform.c\<close>: the sample interrupt and the stop, clock and sequence
  calls; the register accesses themselves are left out). The model is the configuration with
  \<open>BUF_ENABLE_ADC\<close>, the one every platform of the repository selects.

  A channel is the record \<open>adc_ch\<close>, the device \<open>adc_dev\<close>; channel pointers are indices into
  \<open>adc_ch_state\<close>, \<open>value_ptr\<close> is an index into \<open>sample_buf\<close>. The buffers of the channels
  are descriptors of \<open>Buf\<close>.
\<close>

section \<open>State\<close>

record adc_ch =
  op_pending :: bool
  blocking :: bool
  freerunning :: bool
  smooth_ready :: bool
  value_fresh :: bool
  ch_id :: nat                     \<comment> \<open>\<open>id\<close>\<close>
  logsmoothlen :: u8
  smoothidx :: u16
  smoothsum :: u32
  smoothbuf :: "u16 list option"   \<comment> \<open>\<open>None\<close> is NULL\<close>
  reqsamples :: u16
  value_ptr :: "nat option"

record adc_dev =
  ch_state :: "nat option list"
  sample_buf :: "u16 list"
  clocked :: bool
  force_reseq :: bool
  skip_cycle :: bool
  running :: bool
  ch_active :: u32
  last_ch_active :: u32
  timer_id :: u32
  seq_id :: u32
  seq_ctr :: u8
  seq_len :: u8

record adc_sys =
  adc_ch_state :: "adc_ch list"    \<comment> \<open>\<open>NUM_ADC\<close> channels\<close>
  adc_dev_state :: adc_dev
  adc_bufs :: buf_table
  irq_on :: bool                   \<comment> \<open>the global interrupt flag\<close>

text \<open>
  The macros of the board, and the word that a read of \<open>id\<close> through a NULL channel pointer
  returns on the target (no fault there; the value is not the program's).
\<close>

record adc_cfg =
  adc_board :: board
  NUM_ADC :: nat
  ADC_BUF_SIZE :: u8
  null_id :: nat

definition adc_get_ch_state :: "nat \<Rightarrow> adc_sys \<Rightarrow> adc_ch" where
  "adc_get_ch_state ch S = adc_ch_state S ! ch"

definition upd_ch :: "nat \<Rightarrow> (adc_ch \<Rightarrow> adc_ch) \<Rightarrow> adc_sys \<Rightarrow> adc_sys" where
  "upd_ch ch f S = S\<lparr> adc_ch_state := (adc_ch_state S)[ch := f (adc_ch_state S ! ch)] \<rparr>"

definition upd_dev :: "(adc_dev \<Rightarrow> adc_dev) \<Rightarrow> adc_sys \<Rightarrow> adc_sys" where
  "upd_dev f S = S\<lparr> adc_dev_state := f (adc_dev_state S) \<rparr>"

definition SMOOTH_REALSIZE :: "adc_ch \<Rightarrow> nat" where
  "SMOOTH_REALSIZE s = 2 ^ unat (logsmoothlen s)"

definition ACTIVATE_CHANNEL :: "nat \<Rightarrow> adc_dev \<Rightarrow> adc_dev" where
  "ACTIVATE_CHANNEL ch d = d\<lparr> ch_active := ch_active d OR push_bit ch 1 \<rparr>"

definition INACTIVATE_CHANNEL :: "nat \<Rightarrow> adc_dev \<Rightarrow> adc_dev" where
  "INACTIVATE_CHANNEL ch d = d\<lparr> ch_active := ch_active d AND NOT (push_bit ch 1) \<rparr>"

text \<open>A \<open>u16\<close> sample in the byte buffers, little endian.\<close>

definition u16_bytes :: "u16 \<Rightarrow> u8 list" where
  "u16_bytes w = [ucast w, ucast (drop_bit 8 w)]"

definition bytes_u16 :: "u8 list \<Rightarrow> u16" where
  "bytes_u16 bs = ucast (bs ! 0) OR push_bit 8 (ucast (bs ! 1))"

section \<open>Driver\<close>

definition platform_cpu_set_global_interrupts :: "bool \<Rightarrow> adc_sys \<Rightarrow> bool \<times> adc_sys" where
  "platform_cpu_set_global_interrupts status S = (irq_on S, S\<lparr> irq_on := status \<rparr>)"

definition platform_cpu_get_global_interrupts :: "adc_sys \<Rightarrow> bool" where
  "platform_cpu_get_global_interrupts S = irq_on S"

definition platform_adc_stop :: "nat \<Rightarrow> adc_sys \<Rightarrow> adc_sys" where
  "platform_adc_stop ch S =
     (let S = upd_ch ch (\<lambda>s. s\<lparr> op_pending := False \<rparr>) S;
          S = upd_dev (INACTIVATE_CHANNEL ch) S
      in if ch_active (adc_dev_state S) = 0 then upd_dev (\<lambda>d. d\<lparr> running := False \<rparr>) S else S)"

text \<open>
  \<open>rate f\<close> is the frequency the hardware timer ends up with when \<open>f\<close> is asked for.
\<close>

definition platform_adc_setclock :: "(u32 \<Rightarrow> u32) \<Rightarrow> u32 \<Rightarrow> adc_sys \<Rightarrow> u32 \<times> adc_sys" where
  "platform_adc_setclock rate frequency S =
     (if 0 < frequency then (rate frequency, upd_dev (\<lambda>d. d\<lparr> clocked := True \<rparr>) S)
      else (frequency, upd_dev (\<lambda>d. d\<lparr> clocked := False \<rparr>) S))"

text \<open>Programs the hardware sequencer; the counter ends at 0.\<close>

definition platform_adc_update_sequence :: "adc_sys \<Rightarrow> adc_sys" where
  "platform_adc_update_sequence S = upd_dev (\<lambda>d. d\<lparr> seq_ctr := 0 \<rparr>) S"

section \<open>Sequence\<close>

definition adc_prev_id :: "adc_cfg \<Rightarrow> adc_sys \<Rightarrow> nat" where
  "adc_prev_id cf S =
     (let d = adc_dev_state S in
      case ch_state d ! unat (seq_ctr d) of None \<Rightarrow> null_id cf | Some c \<Rightarrow> ch_id (adc_get_ch_state c S))"

text \<open>One turn of the loop over the channels, on the state and \<open>tmp_seq_ctr\<close>.\<close>

definition adc_seq_step :: "nat \<Rightarrow> nat \<Rightarrow> adc_sys \<times> u8 \<Rightarrow> adc_sys \<times> u8" where
  "adc_seq_step previd ch = (\<lambda>(S, tmp_seq_ctr).
     (let d = adc_dev_state S; n = seq_ctr d in
      if ch_active d AND push_bit ch 1 > 0 then
        let S = upd_dev (\<lambda>d. d\<lparr> ch_state := (ch_state d)[unat n := Some ch] \<rparr>) S;
            S = upd_ch ch (\<lambda>s. s\<lparr> value_ptr := Some (unat n), value_fresh := False \<rparr>) S;
            tmp_seq_ctr = (if ch_id (adc_get_ch_state ch S) = previd then n else tmp_seq_ctr)
        in (upd_dev (\<lambda>d. d\<lparr> seq_ctr := n + 1 \<rparr>) S, tmp_seq_ctr)
      else (S, tmp_seq_ctr)))"

text \<open>The loop that clears the rest of the sequence.\<close>

definition adc_seq_null :: "adc_cfg \<Rightarrow> adc_dev \<Rightarrow> adc_dev" where
  "adc_seq_null cf d =
     d\<lparr> ch_state := map (\<lambda>i. if unat (seq_ctr d) \<le> i \<and> i < NUM_ADC cf then None else ch_state d ! i)
           [0..<length (ch_state d)] \<rparr>"

definition adc_update_dev_sequence :: "adc_cfg \<Rightarrow> adc_sys \<Rightarrow> adc_sys" where
  "adc_update_dev_sequence cf S =
     (let previd = adc_prev_id cf S; d = adc_dev_state S in
      if ch_active d \<noteq> last_ch_active d \<or> force_reseq d then
        let (old_status, S) = platform_cpu_set_global_interrupts False S;
            S = upd_dev (\<lambda>d. d\<lparr> seq_ctr := 0 \<rparr>) S;
            (S, tmp_seq_ctr) = fold (adc_seq_step previd) [0..<NUM_ADC cf] (S, 0);
            S = upd_dev (\<lambda>d. d\<lparr> seq_len := seq_ctr d \<rparr>) S;
            S = upd_dev (adc_seq_null cf) S;
            S = upd_dev (\<lambda>d. d\<lparr> seq_ctr := 0 \<rparr>) S;
            S = platform_adc_update_sequence S;
            S = upd_dev (\<lambda>d. d\<lparr> last_ch_active := ch_active d, seq_ctr := tmp_seq_ctr, force_reseq := False \<rparr>) S
        in snd (platform_cpu_set_global_interrupts old_status S)
      else S)"

section \<open>Set-up\<close>

text \<open>\<open>fresh\<close> is what \<open>realloc\<close> gives, as in \<open>Buf\<close>.\<close>

definition adc_setup_channel :: "adc_cfg \<Rightarrow> (nat \<Rightarrow> u8) option \<Rightarrow> nat \<Rightarrow> u8 \<Rightarrow> adc_sys \<Rightarrow> pstatus \<times> adc_sys" where
  "adc_setup_channel cf fresh ch logcount S =
     (let bd = adc_board cf;
          old_status = platform_cpu_get_global_interrupts S;
          (res, bufs) = (if 2 ^ unat logcount \<noteq> buf_get_size bd (adc_bufs S) BUF_ID_ADC ch
             then let (res, T) = buf_set bd fresh (adc_bufs S) BUF_ID_ADC ch logcount BUF_DSIZE_U16
                  in (res, if res = PLATFORM_OK then buf_flush bd T BUF_ID_ADC ch else T)
             else (PLATFORM_OK, adc_bufs S));
          S = S\<lparr> adc_bufs := bufs \<rparr>
      in if res \<noteq> PLATFORM_OK then (res, S)
         else
           let S = upd_ch ch (\<lambda>s. s\<lparr> reqsamples := push_bit (unat logcount) 1, op_pending := True \<rparr>) S;
               S = upd_dev (ACTIVATE_CHANNEL ch) S
           in (PLATFORM_OK, snd (platform_cpu_set_global_interrupts old_status S)))"

definition adc_init_ch_state :: "adc_cfg \<Rightarrow> (nat \<Rightarrow> u8) option \<Rightarrow> (u32 \<Rightarrow> u32) \<Rightarrow> nat \<Rightarrow> adc_sys \<Rightarrow> adc_sys" where
  "adc_init_ch_state cf fresh rate ch S =
     (let S = upd_dev (INACTIVATE_CHANNEL ch) S;
          S = upd_ch ch (\<lambda>s. s\<lparr> op_pending := False, blocking := True, smooth_ready := False, reqsamples := 0,
                freerunning := False, ch_id := ch, logsmoothlen := 0, smoothidx := 0, smoothsum := 0 \<rparr>) S;
          S = S\<lparr> adc_bufs := snd (buf_set (adc_board cf) fresh (adc_bufs S) BUF_ID_ADC ch (ADC_BUF_SIZE cf) BUF_DSIZE_U16) \<rparr>
      in snd (platform_adc_setclock rate 0 S))"

definition adc_init_dev_state :: "adc_sys \<Rightarrow> adc_sys" where
  "adc_init_dev_state S =
     upd_dev (\<lambda>d. d\<lparr> seq_id := 0, running := False, ch_active := 0, last_ch_active := 0,
        force_reseq := False, skip_cycle := False \<rparr>) S"

section \<open>Smoothing\<close>

definition adc_flush_smoothing :: "nat \<Rightarrow> adc_sys \<Rightarrow> adc_sys" where
  "adc_flush_smoothing ch S =
     upd_ch ch (\<lambda>s. (let s = s\<lparr> smoothidx := 0, smoothsum := 0, smooth_ready := False \<rparr> in
       if 0 < logsmoothlen s
       then s\<lparr> smoothbuf := map_option (\<lambda>b. put_bytes b 0 (replicate (duff_device_8 (SMOOTH_REALSIZE s)) 0)) (smoothbuf s) \<rparr>
       else s)) S"

text \<open>\<open>realloc\<close> of the smoothing buffer: \<open>fresh\<close> as above, on 16-bit items.\<close>

definition realloc_u16 :: "u16 list option \<Rightarrow> (nat \<Rightarrow> u16) option \<Rightarrow> nat \<Rightarrow> u16 list option" where
  "realloc_u16 old fresh n =
     (case fresh of
        None \<Rightarrow> None
      | Some junk \<Rightarrow>
          (let bs = (case old of None \<Rightarrow> [] | Some bs \<Rightarrow> bs)
           in Some (map (\<lambda>i. if i < length bs then bs ! i else junk i) [0..<n])))"

definition adc_update_smoothing :: "adc_cfg \<Rightarrow> (nat \<Rightarrow> u16) option \<Rightarrow> nat \<Rightarrow> u8 \<Rightarrow> adc_sys \<Rightarrow> pstatus \<times> adc_sys" where
  "adc_update_smoothing cf fresh ch loglen S =
     (let S = (if op_pending (adc_get_ch_state ch S) then platform_adc_stop ch S else S);
          finish = (\<lambda>S. let S = adc_flush_smoothing ch S
             in (PLATFORM_OK, S\<lparr> adc_bufs := buf_flush (adc_board cf) (adc_bufs S) BUF_ID_ADC ch \<rparr>))
      in if loglen \<noteq> logsmoothlen (adc_get_ch_state ch S) then
           let S = upd_ch ch (\<lambda>s. s\<lparr> logsmoothlen := loglen \<rparr>) S;
               S = upd_ch ch (\<lambda>s. s\<lparr> smoothbuf := realloc_u16 (smoothbuf s) fresh (SMOOTH_REALSIZE s) \<rparr>) S
           in if smoothbuf (adc_get_ch_state ch S) = None then
                let S = upd_ch ch (\<lambda>s. s\<lparr> logsmoothlen := 0, smoothidx := 0, smooth_ready := False, smoothsum := 0 \<rparr>) S
                in if loglen \<noteq> 0 then (PLATFORM_ERR, S) else finish S
              else finish S
         else finish S)"

text \<open>
  The sample of a channel: the fresh value, or the oldest of its buffer. When the buffer is
  empty the C variable keeps its value \<open>sample\<close>.
\<close>

definition adc_take_sample :: "adc_cfg \<Rightarrow> nat \<Rightarrow> u16 \<Rightarrow> adc_sys \<Rightarrow> u16 \<times> adc_sys" where
  "adc_take_sample cf ch sample S =
     (let s = adc_get_ch_state ch S in
      if value_fresh s
      then (sample_buf (adc_dev_state S) ! the (value_ptr s), upd_ch ch (\<lambda>s. s\<lparr> value_fresh := False \<rparr>) S)
      else
        let (st, bs, T) = buf_read (adc_board cf) (adc_bufs S) BUF_ID_ADC ch
        in (if st = PLATFORM_OK then bytes_u16 bs else sample, S\<lparr> adc_bufs := T \<rparr>))"

definition smooth_at :: "adc_ch \<Rightarrow> u16" where
  "smooth_at s = the (smoothbuf s) ! unat (smoothidx s)"

text \<open>\<open>junk\<close> is the indeterminate initial value of the local \<open>sample\<close>.\<close>

definition adc_smooth_data :: "adc_cfg \<Rightarrow> u16 \<Rightarrow> nat \<Rightarrow> adc_sys \<Rightarrow> adc_sys" where
  "adc_smooth_data cf junk ch S =
     (let S = upd_ch ch (\<lambda>s. if unat (smoothidx s) = SMOOTH_REALSIZE s
                then s\<lparr> smoothidx := 0, smooth_ready := True \<rparr> else s) S;
          S = upd_ch ch (\<lambda>s. s\<lparr> smoothsum := smoothsum s - ucast (smooth_at s) \<rparr>) S;
          (sample, S) = adc_take_sample cf ch junk S;
          S = upd_ch ch (\<lambda>s. s\<lparr> smoothbuf := map_option (\<lambda>b. b[unat (smoothidx s) := sample]) (smoothbuf s) \<rparr>) S;
          S = upd_ch ch (\<lambda>s. s\<lparr> smoothsum := smoothsum s + ucast (smooth_at s) \<rparr>) S
      in upd_ch ch (\<lambda>s. s\<lparr> smoothidx := smoothidx s + 1 \<rparr>) S)"

section \<open>Samples\<close>

definition adc_samples_available :: "adc_cfg \<Rightarrow> nat \<Rightarrow> adc_sys \<Rightarrow> u16" where
  "adc_samples_available cf ch S =
     (let buffer_count = buf_get_count (adc_board cf) (adc_bufs S) BUF_ID_ADC ch
      in if buffer_count = 0 then (if value_fresh (adc_get_ch_state ch S) then 1 else 0) else buffer_count)"

definition adc_samples_requested :: "nat \<Rightarrow> adc_sys \<Rightarrow> u16" where
  "adc_samples_requested ch S = reqsamples (adc_get_ch_state ch S)"

definition adc_dec_requested :: "adc_ch \<Rightarrow> adc_ch" where
  "adc_dec_requested s = (if 0 < reqsamples s then s\<lparr> reqsamples := reqsamples s - 1 \<rparr> else s)"

definition adc_get_processed_sample :: "adc_cfg \<Rightarrow> u16 \<Rightarrow> nat \<Rightarrow> adc_sys \<Rightarrow> u16 \<times> adc_sys" where
  "adc_get_processed_sample cf junk ch S =
     (let s = adc_get_ch_state ch S in
      if 0 < adc_samples_available cf ch S then
        if 0 < logsmoothlen s \<and> smooth_ready s then
          let S = upd_ch ch adc_dec_requested (adc_smooth_data cf junk ch S);
              s = adc_get_ch_state ch S
          in (ucast (drop_bit (unat (logsmoothlen s)) (smoothsum s)), S)
        else if logsmoothlen s = 0 then
          let (sample, S) = adc_take_sample cf ch 0 S
          in (sample, upd_ch ch adc_dec_requested S)
        else (0, S)
      else (0, S))"

text \<open>
  The waiting loop: \<open>world\<close> is what the interrupts do to the state between two tests of the
  condition; \<open>None\<close> is a wait that never ends.
\<close>

partial_function (option) adc_wait_loop :: "adc_cfg \<Rightarrow> (adc_sys \<Rightarrow> adc_sys) \<Rightarrow> nat \<Rightarrow> nat \<Rightarrow> adc_sys \<Rightarrow> adc_sys option" where
  "adc_wait_loop cf world ch samples S =
     (if op_pending (adc_get_ch_state ch S) \<and> unat (adc_samples_available cf ch S) < samples
      then adc_wait_loop cf world ch samples (world S) else Some S)"

definition adc_wait_samples :: "adc_cfg \<Rightarrow> (adc_sys \<Rightarrow> adc_sys) \<Rightarrow> nat \<Rightarrow> nat \<Rightarrow> adc_sys \<Rightarrow> (u16 \<times> adc_sys) option" where
  "adc_wait_samples cf world ch samples S =
     map_option (\<lambda>S. (adc_samples_available cf ch S, S))
       (if unat (adc_samples_available cf ch S) < samples \<and> blocking (adc_get_ch_state ch S)
        then adc_wait_loop cf world ch samples S else Some S)"

section \<open>The sample interrupt\<close>

text \<open>One slot of the sequence with its new conversion \<open>x\<close>, as in \<open>ADCIntHandler\<close>.\<close>

definition adc_isr_slot :: "adc_cfg \<Rightarrow> u16 \<Rightarrow> (nat \<Rightarrow> u32) \<Rightarrow> adc_sys \<Rightarrow> adc_sys" where
  "adc_isr_slot cf junk tmpbuff S =
     (let n = unat (seq_ctr (adc_dev_state S));
          ch = the (ch_state (adc_dev_state S) ! n);
          S = upd_dev (\<lambda>d. d\<lparr> sample_buf := (sample_buf d)[n := ucast (tmpbuff n)] \<rparr>) S;
          S = upd_ch ch (\<lambda>s. s\<lparr> value_fresh := True \<rparr>) S;
          s = adc_get_ch_state ch S; i = ch_id s;
          S = (if 0 < logsmoothlen s \<and> \<not> smooth_ready s then adc_smooth_data cf junk i S
               else if 1 < reqsamples s then
                 let T = snd (buf_write (adc_board cf) (adc_bufs S) BUF_ID_ADC i
                                (u16_bytes (sample_buf (adc_dev_state S) ! the (value_ptr s))))
                 in upd_ch ch (\<lambda>s. s\<lparr> value_fresh := False \<rparr>) (S\<lparr> adc_bufs := T \<rparr>)
               else S);
          s = adc_get_ch_state ch S;
          S = (if reqsamples s \<le> adc_samples_available cf (ch_id s) S \<and> \<not> freerunning s
               then platform_adc_stop (ch_id s) S else S)
      in upd_dev (\<lambda>d. d\<lparr> seq_ctr := seq_ctr d + 1 \<rparr>) S)"

text \<open>The loop over the slots, with \<open>fuel\<close> turns at most.\<close>

fun adc_isr_loop :: "adc_cfg \<Rightarrow> u16 \<Rightarrow> (nat \<Rightarrow> u32) \<Rightarrow> nat \<Rightarrow> adc_sys \<Rightarrow> adc_sys" where
  "adc_isr_loop cf junk tmpbuff 0 S = S"
| "adc_isr_loop cf junk tmpbuff (Suc fuel) S =
     (if seq_ctr (adc_dev_state S) < seq_len (adc_dev_state S)
      then adc_isr_loop cf junk tmpbuff fuel (adc_isr_slot cf junk tmpbuff S) else S)"

definition ADCIntHandler :: "adc_cfg \<Rightarrow> u16 \<Rightarrow> (nat \<Rightarrow> u32) \<Rightarrow> adc_sys \<Rightarrow> adc_sys" where
  "ADCIntHandler cf junk tmpbuff S =
     (let S = upd_dev (\<lambda>d. d\<lparr> seq_ctr := 0 \<rparr>) S;
          S = adc_isr_loop cf junk tmpbuff 256 S;
          S = upd_dev (\<lambda>d. d\<lparr> seq_ctr := 0 \<rparr>) S
      in if running (adc_dev_state S) then adc_update_dev_sequence cf S else S)"

definition platform_adc_start_sequence :: "adc_cfg \<Rightarrow> adc_sys \<Rightarrow> adc_sys" where
  "platform_adc_start_sequence cf S =
     (if \<not> running (adc_dev_state S)
      then upd_dev (\<lambda>d. d\<lparr> running := True \<rparr>) (adc_update_dev_sequence cf S) else S)"

section \<open>Reading the state back\<close>

lemma get_upd_ch:
  "c < length (adc_ch_state S) \<Longrightarrow>
   adc_get_ch_state i (upd_ch c f S) = (if i = c then f (adc_get_ch_state c S) else adc_get_ch_state i S)"
  by (simp add: adc_get_ch_state_def upd_ch_def)

lemma upd_ch_other [simp]:
  "adc_dev_state (upd_ch c f S) = adc_dev_state S" "adc_bufs (upd_ch c f S) = adc_bufs S"
  "length (adc_ch_state (upd_ch c f S)) = length (adc_ch_state S)" "irq_on (upd_ch c f S) = irq_on S"
  by (simp_all add: upd_ch_def)

lemma upd_dev_other [simp]:
  "adc_dev_state (upd_dev g S) = g (adc_dev_state S)" "adc_bufs (upd_dev g S) = adc_bufs S"
  "adc_ch_state (upd_dev g S) = adc_ch_state S" "irq_on (upd_dev g S) = irq_on S"
  "adc_get_ch_state i (upd_dev g S) = adc_get_ch_state i S"
  by (simp_all add: upd_dev_def adc_get_ch_state_def)

lemma samples_available_eq:
  "adc_samples_available cf i S = (let n = buf_get_count (adc_board cf) (adc_bufs S) BUF_ID_ADC i in
     if n = 0 then of_bool (value_fresh (adc_get_ch_state i S)) else n)"
  by (simp add: adc_samples_available_def Let_def)

lemma get_ch_bufs [simp]: "adc_get_ch_state i (S\<lparr> adc_bufs := T \<rparr>) = adc_get_ch_state i S"
  by (simp add: adc_get_ch_state_def)

section \<open>The smoothing window\<close>

text \<open>
  The smoothing ring is a window of the last \<open>2 ^ logsmoothlen\<close> samples, and \<open>smoothsum\<close> is
  their exact sum: 32768 samples of 16 bits do not overflow 32 bits.
\<close>

definition smooth_inv :: "adc_ch \<Rightarrow> bool" where
  "smooth_inv s \<longleftrightarrow>
     0 < unat (logsmoothlen s) \<and> unat (logsmoothlen s) \<le> 15
     \<and> unat (smoothidx s) \<le> SMOOTH_REALSIZE s
     \<and> (case smoothbuf s of None \<Rightarrow> False
        | Some b \<Rightarrow> length b = SMOOTH_REALSIZE s \<and> unat (smoothsum s) = sum_list (map unat b))"

definition smooth_window :: "adc_ch \<Rightarrow> u16 list" where
  "smooth_window s = rotate (unat (smoothidx s)) (the (smoothbuf s))"

definition smooth_put :: "u16 \<Rightarrow> adc_ch \<Rightarrow> adc_ch" where
  "smooth_put x s =
     (let s = (if unat (smoothidx s) = SMOOTH_REALSIZE s then s\<lparr> smoothidx := 0, smooth_ready := True \<rparr> else s)
      in s\<lparr> smoothsum := smoothsum s - ucast (smooth_at s) + ucast x,
            smoothbuf := map_option (\<lambda>b. b[unat (smoothidx s) := x]) (smoothbuf s),
            smoothidx := smoothidx s + 1 \<rparr>)"

lemma sum_samples_le: "sum_list (map unat (b :: u16 list)) \<le> length b * 65535"
proof (induction b)
  case (Cons x b)
  then show ?case using unat_u16_less [of x] by (simp del: unat_u16_less)
qed simp

lemma smooth_realsize_le: "unat (logsmoothlen s) \<le> 15 \<Longrightarrow> SMOOTH_REALSIZE s \<le> 32768"
  using power_increasing [of "unat (logsmoothlen s)" 15 "2::nat"] by (simp add: SMOOTH_REALSIZE_def)

lemma smooth_realsize_pos [simp]: "0 < SMOOTH_REALSIZE s"
  by (simp add: SMOOTH_REALSIZE_def)

lemma smooth_sum_update:
  assumes "i < length b" "length b \<le> 32768" "unat (s :: u32) = sum_list (map unat (b :: u16 list))"
  shows "unat (s - ucast (b ! i) + ucast x) = sum_list (map unat (b[i := x]))"
proof -
  have le: "unat (b ! i) \<le> sum_list (map unat b)"
    using assms(1) by (simp add: elem_le_sum_list [of i "map unat b", simplified])
  have bound: "sum_list (map unat b) \<le> 32768 * 65535"
    using sum_samples_le [of b] assms(2) by (meson le_trans mult_le_mono1)
  have uc: "unat (ucast y :: u32) = unat y" for y :: u16 by (simp add: unat_ucast_up)
  have "unat (s - ucast (b ! i)) = sum_list (map unat b) - unat (b ! i)"
    using le assms(3) by (simp add: unat_sub word_le_nat_alt uc)
  then have "unat (s - ucast (b ! i) + ucast x) = sum_list (map unat b) - unat (b ! i) + unat x"
    using bound unat_u16_less [of x] by (simp add: unat_word_ariths uc del: unat_u16_less)
  also have "\<dots> = sum_list (map unat b) + unat x - unat (b ! i)" using le by simp
  finally show ?thesis
    using assms(1) by (simp add: map_update sum_list_update)
qed

lemma smooth_put_fields [simp]:
  "logsmoothlen (smooth_put x s) = logsmoothlen s" "reqsamples (smooth_put x s) = reqsamples s"
  "value_fresh (smooth_put x s) = value_fresh s" "value_ptr (smooth_put x s) = value_ptr s"
  "ch_id (smooth_put x s) = ch_id s" "freerunning (smooth_put x s) = freerunning s"
  "SMOOTH_REALSIZE (smooth_put x s) = SMOOTH_REALSIZE s"
  "smooth_ready (smooth_put x s) \<longleftrightarrow> smooth_ready s \<or> unat (smoothidx s) = SMOOTH_REALSIZE s"
  by (simp_all add: smooth_put_def Let_def SMOOTH_REALSIZE_def)

lemma smooth_put_window:
  assumes "smooth_inv s"
  shows "smooth_inv (smooth_put x s)" "smooth_window (smooth_put x s) = tl (smooth_window s) @ [x]"
    "unat (smoothidx (smooth_put x s)) = (if unat (smoothidx s) = SMOOTH_REALSIZE s then 1 else unat (smoothidx s) + 1)"
proof -
  from assms obtain b where b: "smoothbuf s = Some b" "length b = SMOOTH_REALSIZE s"
    "unat (smoothsum s) = sum_list (map unat b)" by (auto simp: smooth_inv_def split: option.splits)
  define i where "i = (if unat (smoothidx s) = SMOOTH_REALSIZE s then 0 else smoothidx s)"
  have le: "SMOOTH_REALSIZE s \<le> 32768" using assms by (simp add: smooth_inv_def smooth_realsize_le)
  have i: "unat i < length b" using assms b by (auto simp: i_def smooth_inv_def)
  have put: "smooth_put x s = s\<lparr> smooth_ready := (smooth_ready s \<or> unat (smoothidx s) = SMOOTH_REALSIZE s),
      smoothsum := smoothsum s - ucast (b ! unat i) + ucast x, smoothbuf := Some (b[unat i := x]), smoothidx := i + 1 \<rparr>"
    by (simp add: smooth_put_def smooth_at_def i_def b)
  have i1: "unat (i + 1) = unat i + 1"
    using i b le by (simp add: unat_word_ariths)
  show "unat (smoothidx (smooth_put x s)) = (if unat (smoothidx s) = SMOOTH_REALSIZE s then 1 else unat (smoothidx s) + 1)"
    using i1 by (simp add: put i_def split: if_splits)
  show "smooth_inv (smooth_put x s)"
    using assms i b le i1 smooth_sum_update [of "unat i" b "smoothsum s" x]
    by (simp add: smooth_inv_def put) (simp add: SMOOTH_REALSIZE_def)
  have "rotate (unat (smoothidx s)) b = rotate (unat i) b"
    using b by (simp add: i_def)
  then show "smooth_window (smooth_put x s) = tl (smooth_window s) @ [x]"
    using rotate_Suc_update [OF i, of x] i1 by (simp add: smooth_window_def put b)
qed

lemma smooth_window_length: "smooth_inv s \<Longrightarrow> length (smooth_window s) = SMOOTH_REALSIZE s"
  by (auto simp: smooth_inv_def smooth_window_def split: option.splits)

lemma smooth_sum_window:
  assumes "smooth_inv s"
  shows "unat (smoothsum s) = sum_list (map unat (smooth_window s))"
proof -
  from assms obtain b where b: "smoothbuf s = Some b" "unat (smoothsum s) = sum_list (map unat b)"
    by (auto simp: smooth_inv_def split: option.splits)
  then have "sum_list (map unat (smooth_window s)) = sum_list (map unat b)"
    by (simp add: smooth_window_def sum_list_rotate)
  with b show ?thesis by simp
qed

section \<open>Sampling one channel\<close>

text \<open>
  The device converts the single channel \<open>c\<close>, its sequence is up to date and its sample
  buffer is empty.
\<close>

definition adc_single :: "adc_cfg \<Rightarrow> nat \<Rightarrow> adc_sys \<Rightarrow> bool" where
  "adc_single cf c S \<longleftrightarrow>
     (let d = adc_dev_state S; s = adc_get_ch_state c S in
      c < length (adc_ch_state S) \<and> ch_id s = c \<and> value_ptr s = Some 0 \<and> 0 < length (sample_buf d)
      \<and> 0 < length (ch_state d) \<and> ch_state d ! 0 = Some c \<and> seq_len d = 1
      \<and> ch_active d = push_bit c 1 \<and> last_ch_active d = push_bit c 1 \<and> \<not> force_reseq d
      \<and> buf_get_count (adc_board cf) (adc_bufs S) BUF_ID_ADC c = 0)"

lemma adc_isr_loop_one:
  assumes "0 < n" "seq_ctr (adc_dev_state S) = 0" "seq_len (adc_dev_state S) = 1"
    and "seq_ctr (adc_dev_state (adc_isr_slot cf junk tb S)) = 1"
    and "seq_len (adc_dev_state (adc_isr_slot cf junk tb S)) = 1"
  shows "adc_isr_loop cf junk tb n S = adc_isr_slot cf junk tb S"
proof -
  from assms(1) obtain k where k: "n = Suc k" by (cases n) auto
  have "adc_isr_loop cf junk tb k (adc_isr_slot cf junk tb S) = adc_isr_slot cf junk tb S"
    by (cases k) (simp_all add: assms)
  then show ?thesis by (simp add: k assms)
qed

lemma upd_ch_comp: "upd_ch c f (upd_ch c g S) = upd_ch c (\<lambda>s. f (g s)) S"
  by (cases "c < length (adc_ch_state S)") (simp_all add: upd_ch_def list_update_beyond)

lemma adc_smooth_fresh:
  assumes "c < length (adc_ch_state S)" "value_fresh (adc_get_ch_state c S)" "value_ptr (adc_get_ch_state c S) = Some n"
    and "smooth_inv (adc_get_ch_state c S)"
  shows "adc_smooth_data cf junk c S =
    upd_ch c (\<lambda>s. smooth_put (sample_buf (adc_dev_state S) ! n) (s\<lparr> value_fresh := False \<rparr>)) S"
proof -
  define x where "x = sample_buf (adc_dev_state S) ! n"
  from assms(4) obtain b where b: "smoothbuf (adc_get_ch_state c S) = Some b" "length b = SMOOTH_REALSIZE (adc_get_ch_state c S)"
    "unat (smoothidx (adc_get_ch_state c S)) \<le> length b" by (auto simp: smooth_inv_def split: option.splits)
  then show ?thesis
    using assms(1-3) smooth_realsize_pos [of "adc_get_ch_state c S"]
    by (simp add: adc_smooth_data_def adc_take_sample_def get_upd_ch upd_ch_comp Let_def x_def [symmetric])
      (cases "adc_ch_state S ! c", simp add: upd_ch_def smooth_put_def smooth_at_def adc_get_ch_state_def
        SMOOTH_REALSIZE_def Let_def)
qed

text \<open>A conversion while the filter warms up: it goes into the window and nowhere else.\<close>

lemma adc_warming_interrupt:
  assumes one: "adc_single cf c S" and inv: "smooth_inv (adc_get_ch_state c S)"
    and cold: "\<not> smooth_ready (adc_get_ch_state c S)" and req: "reqsamples (adc_get_ch_state c S) = 1"
  shows "adc_single cf c (ADCIntHandler cf junk (\<lambda>_. ucast x) S)
    \<and> adc_get_ch_state c (ADCIntHandler cf junk (\<lambda>_. ucast x) S)
        = smooth_put x ((adc_get_ch_state c S)\<lparr> value_fresh := False \<rparr>)"
proof -
  let ?s = "adc_get_ch_state c S"
  define S0 where "S0 = upd_dev (\<lambda>d. d\<lparr> seq_ctr := 0 \<rparr>) S"
  define S1 where "S1 = upd_ch c (\<lambda>s. s\<lparr> value_fresh := True \<rparr>) (upd_dev (\<lambda>d. d\<lparr> sample_buf := (sample_buf d)[0 := x] \<rparr>) S0)"
  define S2 where "S2 = upd_ch c (\<lambda>s. smooth_put x (s\<lparr> value_fresh := False \<rparr>)) S1"
  have c: "c < length (adc_ch_state S1)" "c < length (adc_ch_state S)"
    using one by (simp_all add: adc_single_def Let_def S1_def S0_def)
  have s1: "adc_get_ch_state c S1 = ?s\<lparr> value_fresh := True \<rparr>"
    using c by (simp add: S1_def S0_def get_upd_ch)
  then have inv1: "smooth_inv (adc_get_ch_state c S1)"
    using inv by (simp add: smooth_inv_def SMOOTH_REALSIZE_def split: option.splits)
  have x: "sample_buf (adc_dev_state S1) ! 0 = x"
    using one by (simp add: S1_def S0_def adc_single_def Let_def)
  have smooth: "adc_smooth_data cf junk c S1 = S2"
    using adc_smooth_fresh [OF c(1) _ _ inv1, of 0] s1 one x
    by (simp add: S2_def adc_single_def Let_def)
  have s2: "adc_get_ch_state c S2 = smooth_put x (?s\<lparr> value_fresh := False \<rparr>)"
    using c s1 by (simp add: S2_def get_upd_ch)
  have avail: "adc_samples_available cf c S2 = 0"
    using one s2 by (simp add: samples_available_eq S2_def S1_def S0_def adc_single_def Let_def)
  have len: "0 < logsmoothlen ?s" using inv by (auto simp: smooth_inv_def word_less_nat_alt)
  have ucx: "ucast (ucast x :: u32) = x" by (simp add: word_unat_eq_iff unsigned_ucast_eq take_bit_word_eq_self)
  have slot: "adc_isr_slot cf junk (\<lambda>_. ucast x) S0 = upd_dev (\<lambda>d. d\<lparr> seq_ctr := 1 \<rparr>) S2"
  proof -
    have "the (ch_state (adc_dev_state S0) ! 0) = c" "seq_ctr (adc_dev_state S0) = 0"
      using one by (simp_all add: S0_def adc_single_def Let_def)
    then show ?thesis
      using len cold req one
      by (simp add: adc_isr_slot_def Let_def ucx S1_def [symmetric] s1 smooth s2 avail adc_single_def)
        (simp add: upd_dev_def S2_def S1_def S0_def)
  qed
  have dev: "adc_dev_state S2 = (adc_dev_state S)\<lparr> sample_buf := (sample_buf (adc_dev_state S))[0 := x], seq_ctr := 0 \<rparr>"
    by (simp add: S2_def S1_def S0_def)
  have loop: "adc_isr_loop cf junk (\<lambda>_. ucast x) 256 S0 = upd_dev (\<lambda>d. d\<lparr> seq_ctr := 1 \<rparr>) S2"
    using adc_isr_loop_one [of 256 S0 cf junk "\<lambda>_. ucast x"] one
    by (simp add: slot dev) (simp add: S0_def adc_single_def Let_def)
  define S3 where "S3 = upd_dev (\<lambda>d. d\<lparr> seq_ctr := 0 \<rparr>) (upd_dev (\<lambda>d. d\<lparr> seq_ctr := 1 \<rparr>) S2)"
  have "adc_update_dev_sequence cf S3 = S3"
    using one by (simp add: adc_update_dev_sequence_def S3_def dev adc_single_def Let_def)
  then have h: "ADCIntHandler cf junk (\<lambda>_. ucast x) S = S3"
    unfolding ADCIntHandler_def by (simp add: S0_def [symmetric] loop S3_def [symmetric] Let_def)
  have "adc_single cf c S3"
    using one by (simp add: adc_single_def S3_def s2 Let_def dev) (simp add: S2_def S1_def S0_def)
  moreover have "adc_get_ch_state c S3 = smooth_put x (?s\<lparr> value_fresh := False \<rparr>)"
    by (simp add: S3_def s2)
  ultimately show ?thesis by (simp add: h)
qed

text \<open>Filling the window.\<close>

lemma smooth_fill:
  assumes "smooth_inv s" "smoothidx s = 0" "\<not> smooth_ready s" "length xs \<le> SMOOTH_REALSIZE s"
  shows "smooth_inv (foldl (\<lambda>s x. smooth_put x s) s xs)
    \<and> unat (smoothidx (foldl (\<lambda>s x. smooth_put x s) s xs)) = length xs
    \<and> \<not> smooth_ready (foldl (\<lambda>s x. smooth_put x s) s xs)
    \<and> smooth_window (foldl (\<lambda>s x. smooth_put x s) s xs) = drop (length xs) (smooth_window s) @ xs
    \<and> SMOOTH_REALSIZE (foldl (\<lambda>s x. smooth_put x s) s xs) = SMOOTH_REALSIZE s
    \<and> reqsamples (foldl (\<lambda>s x. smooth_put x s) s xs) = reqsamples s
    \<and> logsmoothlen (foldl (\<lambda>s x. smooth_put x s) s xs) = logsmoothlen s
    \<and> value_fresh (foldl (\<lambda>s x. smooth_put x s) s xs) = value_fresh s"
  using assms(4)
proof (induction xs rule: rev_induct)
  case Nil
  with assms show ?case by simp
next
  case (snoc x xs)
  let ?t = "foldl (\<lambda>s x. smooth_put x s) s xs"
  from snoc have t: "smooth_inv ?t" "unat (smoothidx ?t) = length xs" "length xs < SMOOTH_REALSIZE ?t"
    "smooth_window ?t = drop (length xs) (smooth_window s) @ xs" by auto
  have "length xs < length (smooth_window s)"
    using snoc.prems smooth_window_length [OF assms(1)] by simp
  then have "tl (drop (length xs) (smooth_window s) @ xs) = drop (Suc (length xs)) (smooth_window s) @ xs"
    by (simp add: drop_Suc tl_drop)
  with snoc t smooth_put_window [OF t(1), of x] show ?case by simp
qed

lemma adc_warming_run:
  assumes "adc_single cf c S" "s = adc_get_ch_state c S" "smooth_inv s" "smoothidx s = 0" "\<not> smooth_ready s"
    and "\<not> value_fresh s" "reqsamples s = 1" "length xs \<le> Suc (SMOOTH_REALSIZE s)"
  shows "adc_single cf c (foldl (\<lambda>S x. ADCIntHandler cf junk (\<lambda>_. ucast x) S) S xs)
    \<and> adc_get_ch_state c (foldl (\<lambda>S x. ADCIntHandler cf junk (\<lambda>_. ucast x) S) S xs)
        = foldl (\<lambda>s x. smooth_put x s) s xs"
  using assms(8)
proof (induction xs rule: rev_induct)
  case Nil
  with assms show ?case by simp
next
  case (snoc x xs)
  let ?t = "foldl (\<lambda>s x. smooth_put x s) s xs"
  have "length xs \<le> SMOOTH_REALSIZE s" using snoc.prems by simp
  then have t: "smooth_inv ?t" "\<not> smooth_ready ?t" "reqsamples ?t = 1" "\<not> value_fresh ?t"
    using smooth_fill [OF assms(3-5), of xs] assms by auto
  have nf: "u\<lparr> value_fresh := False \<rparr> = u" if "\<not> value_fresh u" for u :: adc_ch using that by simp
  from snoc t show ?case
    using adc_warming_interrupt [of cf c "foldl (\<lambda>S x. ADCIntHandler cf junk (\<lambda>_. ucast x) S) S xs" junk x]
    by (simp add: nf [OF t(4)])
qed

text \<open>A conversion when the filter is warm and a single sample is requested.\<close>

lemma adc_warm_interrupt:
  assumes one: "adc_single cf c S" and inv: "smooth_inv (adc_get_ch_state c S)"
    and warm: "smooth_ready (adc_get_ch_state c S)" and req: "reqsamples (adc_get_ch_state c S) = 1"
    and T_def: "T = ADCIntHandler cf junk (\<lambda>_. ucast x) S"
  shows "c < length (adc_ch_state T) \<and> sample_buf (adc_dev_state T) ! 0 = x \<and> adc_bufs T = adc_bufs S
    \<and> (\<exists>b. adc_get_ch_state c T = (adc_get_ch_state c S)\<lparr> value_fresh := True, op_pending := b \<rparr>)"
proof -
  let ?s = "adc_get_ch_state c S"
  define S0 where "S0 = upd_dev (\<lambda>d. d\<lparr> seq_ctr := 0 \<rparr>) S"
  define S1 where "S1 = upd_ch c (\<lambda>s. s\<lparr> value_fresh := True \<rparr>) (upd_dev (\<lambda>d. d\<lparr> sample_buf := (sample_buf d)[0 := x] \<rparr>) S0)"
  define S2 where "S2 = (if freerunning ?s then S1 else platform_adc_stop c S1)"
  have c: "c < length (adc_ch_state S1)" using one by (simp add: adc_single_def Let_def S1_def S0_def)
  have s1: "adc_get_ch_state c S1 = ?s\<lparr> value_fresh := True \<rparr>"
    using c by (simp add: S1_def S0_def get_upd_ch)
  have avail: "adc_samples_available cf c S1 = 1"
    using one s1 by (simp add: samples_available_eq S1_def S0_def adc_single_def Let_def)
  have ucx: "ucast (ucast x :: u32) = x" by (simp add: word_unat_eq_iff unsigned_ucast_eq take_bit_word_eq_self)
  have slot: "adc_isr_slot cf junk (\<lambda>_. ucast x) S0 = upd_dev (\<lambda>d. d\<lparr> seq_ctr := seq_ctr d + 1 \<rparr>) S2"
  proof -
    have "the (ch_state (adc_dev_state S0) ! 0) = c" "seq_ctr (adc_dev_state S0) = 0"
      using one by (simp_all add: S0_def adc_single_def Let_def)
    then show ?thesis
      using warm req one
      by (simp add: adc_isr_slot_def Let_def ucx S1_def [symmetric] s1 avail adc_single_def S2_def)
  qed
  have s2: "\<exists>b. adc_get_ch_state c S2 = ?s\<lparr> value_fresh := True, op_pending := b \<rparr>"
  proof (cases "freerunning ?s")
    case True
    then have "adc_get_ch_state c S2 = ?s\<lparr> value_fresh := True, op_pending := op_pending ?s \<rparr>" by (simp add: S2_def s1)
    then show ?thesis by blast
  next
    case False
    then have "adc_get_ch_state c S2 = ?s\<lparr> value_fresh := True, op_pending := False \<rparr>"
      using c by (simp add: S2_def platform_adc_stop_def Let_def get_upd_ch s1)
    then show ?thesis by blast
  qed
  have dev: "sample_buf (adc_dev_state S2) = (sample_buf (adc_dev_state S))[0 := x]" "seq_ctr (adc_dev_state S2) = 0"
    "seq_len (adc_dev_state S2) = seq_len (adc_dev_state S)" "adc_bufs S2 = adc_bufs S"
    "length (adc_ch_state S2) = length (adc_ch_state S)"
    by (simp_all add: S2_def S1_def S0_def platform_adc_stop_def Let_def INACTIVATE_CHANNEL_def)
  have keep: "running (adc_dev_state S2) \<longrightarrow>
      ch_active (adc_dev_state S2) = last_ch_active (adc_dev_state S2) \<and> \<not> force_reseq (adc_dev_state S2)"
    using one by (simp add: S2_def S1_def S0_def platform_adc_stop_def Let_def INACTIVATE_CHANNEL_def adc_single_def)
  have loop: "adc_isr_loop cf junk (\<lambda>_. ucast x) 256 S0 = upd_dev (\<lambda>d. d\<lparr> seq_ctr := seq_ctr d + 1 \<rparr>) S2"
    using adc_isr_loop_one [of 256 S0 cf junk "\<lambda>_. ucast x"] one
    by (simp add: slot dev) (simp add: S0_def adc_single_def Let_def)
  define S3 where "S3 = upd_dev (\<lambda>d. d\<lparr> seq_ctr := 0 \<rparr>) (upd_dev (\<lambda>d. d\<lparr> seq_ctr := seq_ctr d + 1 \<rparr>) S2)"
  have upd: "(if running (adc_dev_state S3) then adc_update_dev_sequence cf S3 else S3) = S3"
    using keep by (simp add: adc_update_dev_sequence_def S3_def Let_def)
  have "T = S3"
    unfolding T_def ADCIntHandler_def Let_def S0_def [symmetric] loop S3_def [symmetric] by (rule upd)
  moreover have "c < length (adc_ch_state S3) \<and> sample_buf (adc_dev_state S3) ! 0 = x \<and> adc_bufs S3 = adc_bufs S"
    using one by (simp add: S3_def dev adc_single_def Let_def)
  ultimately show ?thesis using s2 by (simp add: S3_def)
qed

section \<open>The channel sequence\<close>

text \<open>The channels that are active in the device, in ascending order.\<close>

definition active_channels :: "u32 \<Rightarrow> nat \<Rightarrow> nat list" where
  "active_channels m k = filter (bit m) [0..<k]"

lemma active_test: "k < 32 \<Longrightarrow> 0 < (m :: u32) AND push_bit k 1 \<longleftrightarrow> bit m k"
proof -
  assume "k < 32"
  then have "m AND push_bit k 1 = (if bit m k then push_bit k 1 else 0)"
    by (intro bit_word_eqI) (auto simp: bit_simps)
  moreover have "bit (push_bit k 1 :: u32) k" using \<open>k < 32\<close> by (simp add: bit_simps)
  then have "(push_bit k 1 :: u32) \<noteq> 0" by (metis bit_0_eq bot_apply bot_bool_def)
  ultimately show ?thesis by (simp add: word_gt_0)
qed

definition seq_prefix :: "nat \<Rightarrow> nat \<Rightarrow> adc_sys \<Rightarrow> adc_sys \<times> u8 \<Rightarrow> bool" where
  "seq_prefix previd k S0 = (\<lambda>(S, t).
     (let m = ch_active (adc_dev_state S0); act = active_channels m k in
      adc_dev_state S = (adc_dev_state S0)\<lparr> seq_ctr := of_nat (length act),
          ch_state := map Some act @ drop (length act) (ch_state (adc_dev_state S0)) \<rparr>
      \<and> length (adc_ch_state S) = length (adc_ch_state S0) \<and> adc_bufs S = adc_bufs S0 \<and> irq_on S = irq_on S0
      \<and> (\<forall>c < length (adc_ch_state S0). ch_id (adc_get_ch_state c S) = ch_id (adc_get_ch_state c S0))
      \<and> (\<forall>i < length act. value_ptr (adc_get_ch_state (act ! i) S) = Some i
            \<and> \<not> value_fresh (adc_get_ch_state (act ! i) S))
      \<and> (if previd \<in> set act then unat t < length act \<and> act ! unat t = previd else t = 0)))"

lemma active_channels_Suc: "active_channels m (Suc k) = active_channels m k @ (if bit m k then [k] else [])"
  by (simp add: active_channels_def)

lemma length_active: "length (active_channels m k) \<le> k"
  using length_filter_le [of "bit m" "[0..<k]"] by (simp add: active_channels_def)

lemma active_less: "c \<in> set (active_channels m k) \<Longrightarrow> c < k"
  by (simp add: active_channels_def)

lemma seq_prefix_step:
  assumes pre: "seq_prefix previd k S0 (S, t)" and k: "k < 32" "k < length (adc_ch_state S0)"
    "k < length (ch_state (adc_dev_state S0))" and ids: "ch_id (adc_get_ch_state k S0) = k"
  shows "seq_prefix previd (Suc k) S0 (adc_seq_step previd k (S, t))"
proof -
  define m where "m = ch_active (adc_dev_state S0)"
  define act where "act = active_channels m k"
  define n where "n = length act"
  have n: "n \<le> k" by (simp add: n_def act_def length_active)
  have dev: "adc_dev_state S = (adc_dev_state S0)\<lparr> seq_ctr := of_nat n,
      ch_state := map Some act @ drop n (ch_state (adc_dev_state S0)) \<rparr>"
    and len: "length (adc_ch_state S) = length (adc_ch_state S0)"
    and ptr: "\<And>i. i < n \<Longrightarrow> value_ptr (adc_get_ch_state (act ! i) S) = Some i \<and> \<not> value_fresh (adc_get_ch_state (act ! i) S)"
    and cid: "\<And>c. c < length (adc_ch_state S0) \<Longrightarrow> ch_id (adc_get_ch_state c S) = ch_id (adc_get_ch_state c S0)"
    using pre by (simp_all add: seq_prefix_def Let_def m_def act_def n_def)
  have t: "if previd \<in> set act then unat t < n \<and> act ! unat t = previd else t = 0"
    using pre by (simp add: seq_prefix_def Let_def m_def act_def n_def split: if_splits)
  have un: "unat (of_nat n :: u8) = n" using n k by (simp add: unat_of_nat_small)
  have act_lt: "act ! i \<noteq> k" if "i < n" for i
    using active_less [of "act ! i" m k] nth_mem [of i act] that by (auto simp: act_def n_def)
  have knotin: "k \<notin> set act" using active_less [of k m k] by (auto simp: act_def)
  show ?thesis
  proof (cases "bit m k")
    case False
    then have "active_channels m (Suc k) = act" by (simp add: active_channels_Suc act_def)
    moreover have "adc_seq_step previd k (S, t) = (S, t)"
      using False k by (simp add: adc_seq_step_def Let_def dev m_def active_test del: push_bit_of_1)
    ultimately show ?thesis using pre by (simp add: seq_prefix_def Let_def m_def act_def)
  next
    case True
    define S1 where "S1 = upd_ch k (\<lambda>s. s\<lparr> value_ptr := Some n, value_fresh := False \<rparr>)
        (upd_dev (\<lambda>d. d\<lparr> ch_state := (ch_state d)[n := Some k] \<rparr>) S)"
    define t1 where "t1 = (if k = previd then of_nat n else t)"
    have id1: "ch_id (adc_get_ch_state k S1) = k"
      using k len ids cid [of k] by (simp add: S1_def get_upd_ch)
    have step: "adc_seq_step previd k (S, t) = (upd_dev (\<lambda>d. d\<lparr> seq_ctr := of_nat n + 1 \<rparr>) S1, t1)"
      using True k id1 by (simp add: adc_seq_step_def Let_def dev m_def active_test un S1_def t1_def del: push_bit_of_1)
    have act': "active_channels m (Suc k) = act @ [k]" using True by (simp add: active_channels_Suc act_def)
    have nl: "n < length (ch_state (adc_dev_state S0))" using n k by simp
    have "(map Some act @ drop n (ch_state (adc_dev_state S0)))[n := Some k]
        = map Some (act @ [k]) @ drop (Suc n) (ch_state (adc_dev_state S0))"
      using nl by (simp add: n_def list_update_append Cons_nth_drop_Suc [symmetric])
    then have d1: "adc_dev_state (upd_dev (\<lambda>d. d\<lparr> seq_ctr := of_nat n + 1 \<rparr>) S1) =
        (adc_dev_state S0)\<lparr> seq_ctr := of_nat (length (act @ [k])),
          ch_state := map Some (act @ [k]) @ drop (length (act @ [k])) (ch_state (adc_dev_state S0)) \<rparr>"
      by (simp add: S1_def dev n_def add.commute)
    have p1: "value_ptr (adc_get_ch_state ((act @ [k]) ! i) S1) = Some i \<and> \<not> value_fresh (adc_get_ch_state ((act @ [k]) ! i) S1)"
      if "i < Suc n" for i
      using that ptr [of i] act_lt [of i] k len
      by (cases "i = n") (auto simp: S1_def get_upd_ch nth_append n_def)
    have t1: "if previd \<in> set (act @ [k]) then unat t1 < Suc n \<and> (act @ [k]) ! unat t1 = previd else t1 = 0"
      using t knotin un by (auto simp: t1_def nth_append n_def split: if_splits)
    have c1: "ch_id (adc_get_ch_state c S1) = ch_id (adc_get_ch_state c S0)" if "c < length (adc_ch_state S0)" for c
      using that cid [of c] cid [of k] k len by (auto simp: S1_def get_upd_ch)
    have o1: "length (adc_ch_state S1) = length (adc_ch_state S0)" "adc_bufs S1 = adc_bufs S0" "irq_on S1 = irq_on S0"
      using pre by (simp_all add: S1_def seq_prefix_def Let_def)
    show ?thesis
      unfolding step seq_prefix_def prod.case Let_def m_def [symmetric] act' d1
      using p1 t1 c1 o1 by (simp add: n_def split: if_splits)
  qed
qed

definition adc_wf :: "adc_cfg \<Rightarrow> adc_sys \<Rightarrow> bool" where
  "adc_wf cf S \<longleftrightarrow> NUM_ADC cf \<le> 32 \<and> length (adc_ch_state S) = NUM_ADC cf
     \<and> length (ch_state (adc_dev_state S)) = NUM_ADC cf
     \<and> (\<forall>c < NUM_ADC cf. ch_id (adc_get_ch_state c S) = c)"

lemma seq_prefix_all:
  assumes "adc_wf cf S" "k \<le> NUM_ADC cf" "seq_ctr (adc_dev_state S) = 0"
  shows "seq_prefix previd k S (fold (adc_seq_step previd) [0..<k] (S, 0))"
  using assms(2)
proof (induction k)
  case 0
  have "adc_dev_state S = (adc_dev_state S)\<lparr> seq_ctr := 0, ch_state := ch_state (adc_dev_state S) \<rparr>"
    using assms(3) by simp
  then show ?case using assms(3) by (simp add: seq_prefix_def active_channels_def)
next
  case (Suc k)
  define r where "r = fold (adc_seq_step previd) [0..<k] (S, 0)"
  have "seq_prefix previd k S (fst r, snd r)" using Suc by (simp add: r_def)
  then have "seq_prefix previd (Suc k) S (adc_seq_step previd k (fst r, snd r))"
    by (rule seq_prefix_step) (use assms Suc.prems in \<open>auto simp: adc_wf_def\<close>)
  then show ?case by (simp add: r_def)
qed

text \<open>A warm channel with a fresh value returns the average of the window that ends with it.\<close>

lemma processed_sample_is_average:
  assumes U: "c < length (adc_ch_state U)" "sample_buf (adc_dev_state U) ! 0 = x"
      "adc_get_ch_state c U = t\<lparr> value_fresh := True, op_pending := b \<rparr>"
    and t: "smooth_inv t" "smooth_ready t" "reqsamples t = 1" "value_ptr t = Some 0"
    and cnt: "buf_get_count (adc_board cf) (adc_bufs U) BUF_ID_ADC c = 0"
  shows "unat (fst (adc_get_processed_sample cf junk c U))
    = sum_list (map unat (tl (smooth_window t) @ [x])) div SMOOTH_REALSIZE t"
proof -
  let ?u = "t\<lparr> op_pending := b, value_fresh := False \<rparr>"
  let ?w = "tl (smooth_window t) @ [x]"
  have availU: "adc_samples_available cf c U = 1" using cnt U t by (simp add: samples_available_eq)
  have invU: "smooth_inv (adc_get_ch_state c U)" "smooth_inv ?u"
    using t(1) by (simp_all add: U smooth_inv_def SMOOTH_REALSIZE_def split: option.splits)
  have len: "0 < logsmoothlen t" "unat (logsmoothlen t) \<le> 15" using t(1) by (auto simp: smooth_inv_def word_less_nat_alt)
  define v where "v = smooth_put x ?u"
  have "smooth_window ?u = smooth_window t" by (simp add: smooth_window_def)
  then have win: "smooth_inv v" "smooth_window v = ?w" "logsmoothlen v = logsmoothlen t"
    using smooth_put_window [OF invU(2), of x] by (simp_all add: v_def)
  have sd: "adc_get_ch_state c (adc_smooth_data cf junk c U) = v" "c < length (adc_ch_state (adc_smooth_data cf junk c U))"
    using adc_smooth_fresh [OF U(1) _ _ invU(1), of 0] U t by (simp_all add: get_upd_ch v_def)
  have "adc_get_ch_state c (upd_ch c adc_dec_requested (adc_smooth_data cf junk c U)) = adc_dec_requested v"
    using sd by (simp add: get_upd_ch)
  then have "fst (adc_get_processed_sample cf junk c U) = ucast (drop_bit (unat (logsmoothlen v)) (smoothsum v))"
    using len t(2) win(3) by (simp add: adc_get_processed_sample_def Let_def availU U adc_dec_requested_def)
  moreover have "unat (drop_bit (unat (logsmoothlen v)) (smoothsum v)) = sum_list (map unat ?w) div SMOOTH_REALSIZE t"
    unfolding unat_drop_bit_eq using smooth_sum_window [OF win(1)] win
    by (simp only: drop_bit_eq_div SMOOTH_REALSIZE_def)
  moreover have "sum_list (map unat ?w) div SMOOTH_REALSIZE t \<le> 65535"
  proof -
    have "sum_list (map unat ?w) \<le> SMOOTH_REALSIZE t * 65535"
      using sum_samples_le [of ?w] smooth_window_length [OF win(1)] win by (simp add: SMOOTH_REALSIZE_def)
    then show ?thesis
      by (metis div_le_mono nonzero_mult_div_cancel_left smooth_realsize_pos less_numeral_extra(3))
  qed
  ultimately show ?thesis by (simp add: unsigned_ucast_eq take_bit_nat_eq_self_iff)
qed

section \<open>Properties\<close>

text \<open>
  C29: the moving average. A channel sampled on its own, with a smoothing window of
  \<open>2 ^ n\<close> samples that has just been flushed and one sample requested, takes
  \<open>2 ^ n + 1\<close> conversions to warm up, during which no sample is offered. After the next
  conversion \<open>x\<close>, \<open>adc_get_processed_sample\<close> gives the average, rounded down, of the last
  \<open>2 ^ n\<close> conversions, \<open>x\<close> included: the running sum is exact, for every window up to
  32768 samples.
\<close>

theorem smoothing_is_a_moving_average:
  fixes xs :: "u16 list" and x :: u16
  assumes "adc_single cf c S" "s = adc_get_ch_state c S" "smooth_inv s" "smoothidx s = 0" "\<not> smooth_ready s"
    and "\<not> value_fresh s" "reqsamples s = 1" "length xs = Suc (SMOOTH_REALSIZE s)"
    and "T = foldl (\<lambda>S x. ADCIntHandler cf junk (\<lambda>_. ucast x) S) S xs"
    and "U = ADCIntHandler cf junk (\<lambda>_. ucast x) T"
  shows "adc_samples_available cf c T = 0
    \<and> unat (fst (adc_get_processed_sample cf junk c U))
        = sum_list (map unat (drop 2 (xs @ [x]))) div SMOOTH_REALSIZE s"
proof -
  let ?t = "foldl (\<lambda>s x. smooth_put x s) s xs"
  have T: "adc_single cf c T" "adc_get_ch_state c T = ?t"
    using adc_warming_run [OF assms(1-7), of xs junk] assms by simp_all
  obtain ys y where xs: "xs = ys @ [y]" "length ys = SMOOTH_REALSIZE s"
    using assms(8) by (cases xs rule: rev_cases) auto
  let ?r = "foldl (\<lambda>s x. smooth_put x s) s ys"
  have r: "smooth_inv ?r" "unat (smoothidx ?r) = SMOOTH_REALSIZE ?r" "smooth_window ?r = ys"
    "SMOOTH_REALSIZE ?r = SMOOTH_REALSIZE s" "reqsamples ?r = 1" "logsmoothlen ?r = logsmoothlen s" "\<not> value_fresh ?r"
    using smooth_fill [OF assms(3-5), of ys] assms(6,7) xs smooth_window_length [OF assms(3)] by simp_all
  have t: "smooth_inv ?t" "smooth_ready ?t" "smooth_window ?t = tl ys @ [y]"
    "SMOOTH_REALSIZE ?t = SMOOTH_REALSIZE s" "reqsamples ?t = 1" "logsmoothlen ?t = logsmoothlen s" "\<not> value_fresh ?t"
    using r smooth_put_window [OF r(1), of y] by (simp_all add: xs)
  from adc_warm_interrupt [OF T(1), of U junk x] T(2) t assms(10)
  obtain b where U: "c < length (adc_ch_state U)" "sample_buf (adc_dev_state U) ! 0 = x" "adc_bufs U = adc_bufs T"
    "adc_get_ch_state c U = ?t\<lparr> value_fresh := True, op_pending := b \<rparr>" by auto
  have ptr: "value_ptr ?t = Some 0" and cnt: "buf_get_count (adc_board cf) (adc_bufs T) BUF_ID_ADC c = 0"
    using T by (simp_all add: adc_single_def Let_def)
  have "ys \<noteq> []" using xs(2) smooth_realsize_pos [of s] by (auto simp del: smooth_realsize_pos)
  then have "tl (tl ys @ [y]) @ [x] = drop 2 (xs @ [x])"
    by (cases ys; cases "tl ys") (simp_all add: xs numeral_2_eq_2)
  moreover have "adc_samples_available cf c T = 0" using cnt T(2) t by (simp add: samples_available_eq)
  ultimately show ?thesis
    using processed_sample_is_average [OF U(1,2,4) t(1,2,5) ptr, of cf junk] cnt U(3) t(3,4) by simp
qed

definition sample_ch :: adc_ch where
  "sample_ch = \<lparr> op_pending = True, blocking = True, freerunning = False, smooth_ready = False,
     value_fresh = False, ch_id = 0, logsmoothlen = 1, smoothidx = 0, smoothsum = 0,
     smoothbuf = Some [0, 0], reqsamples = 1, value_ptr = Some 0 \<rparr>"

definition sample_dev :: adc_dev where
  "sample_dev = \<lparr> ch_state = [Some 0, None], sample_buf = [0, 0], clocked = False, force_reseq = False,
     skip_cycle = False, running = True, ch_active = 1, last_ch_active = 1, timer_id = 0, seq_id = 0,
     seq_ctr = 0, seq_len = 1 \<rparr>"

definition sample_adc :: adc_sys where
  "sample_adc = \<lparr> adc_ch_state = [sample_ch, sample_ch\<lparr> ch_id := 1 \<rparr>], adc_dev_state = sample_dev,
     adc_bufs = (\<lambda>_ _. \<lparr> logsize = 0, wptr = 0, rptr = 0, count = 0, buf = None, logdsize = 0 \<rparr>),
     irq_on = True \<rparr>"

definition sample_adc_cfg :: adc_cfg where
  "sample_adc_cfg = \<lparr> adc_board = \<lparr> num_uart = 1, sermux_num_vuart = 0, sermux_phys_id = 0 \<rparr>, NUM_ADC = 2,
     ADC_BUF_SIZE = 2, null_id = 0 \<rparr>"

theorem smoothing_is_a_moving_average_witness:
  "let T = foldl (\<lambda>S x. ADCIntHandler sample_adc_cfg 0 (\<lambda>_. ucast x) S) sample_adc [10, 20, 31 :: u16];
       U = ADCIntHandler sample_adc_cfg 0 (\<lambda>_. ucast (40 :: u16)) T
   in adc_samples_available sample_adc_cfg 0 T = 0
      \<and> unat (fst (adc_get_processed_sample sample_adc_cfg 0 0 U)) = 35"
proof -
  have "adc_single sample_adc_cfg 0 sample_adc"
    by (simp add: adc_single_def sample_adc_def sample_dev_def sample_ch_def adc_get_ch_state_def Let_def
        buf_get_count_def desc_get_count_def)
  moreover have "smooth_inv sample_ch" and sz: "SMOOTH_REALSIZE sample_ch = 2"
    by (simp_all add: smooth_inv_def sample_ch_def SMOOTH_REALSIZE_def)
  moreover have "sample_ch = adc_get_ch_state 0 sample_adc" by (simp add: adc_get_ch_state_def sample_adc_def)
  moreover have "smoothidx sample_ch = 0" "\<not> smooth_ready sample_ch" "\<not> value_fresh sample_ch"
    "reqsamples sample_ch = 1" "length [10, 20, 31 :: u16] = Suc (SMOOTH_REALSIZE sample_ch)"
    by (simp_all add: sample_ch_def SMOOTH_REALSIZE_def)
  ultimately show ?thesis
    using smoothing_is_a_moving_average [of sample_adc_cfg 0 sample_adc sample_ch "[10, 20, 31]" _ 0 _ 40, OF _ _ _ _ _ _ _ _ refl refl]
    unfolding Let_def sz by simp
qed

text \<open>
  the conversion sequence. When the set of active channels changed (or a resequence is
  forced), \<open>adc_update_dev_sequence\<close> makes the sequence exactly the active channels in
  ascending order followed by NULL, points each of them at its own slot of the sample buffer with
  its old value marked as used, continues with the channel that was next if it is still active and
  with the first one otherwise, and leaves the interrupt flag as it found it.
\<close>

lemma adc_sequence_lists_active_channels:
  assumes "adc_wf cf S" "ch_active (adc_dev_state S) \<noteq> last_ch_active (adc_dev_state S) \<or> force_reseq (adc_dev_state S)"
    and "act = active_channels (ch_active (adc_dev_state S)) (NUM_ADC cf)"
    and "T = adc_update_dev_sequence cf S"
  shows "ch_state (adc_dev_state T) = map Some act @ replicate (NUM_ADC cf - length act) None
    \<and> unat (seq_len (adc_dev_state T)) = length act
    \<and> (\<forall>i < length act. value_ptr (adc_get_ch_state (act ! i) T) = Some i \<and> \<not> value_fresh (adc_get_ch_state (act ! i) T))
    \<and> (if adc_prev_id cf S \<in> set act then act ! unat (seq_ctr (adc_dev_state T)) = adc_prev_id cf S
       else seq_ctr (adc_dev_state T) = 0)
    \<and> last_ch_active (adc_dev_state T) = ch_active (adc_dev_state S) \<and> \<not> force_reseq (adc_dev_state T)
    \<and> irq_on T = irq_on S"
proof -
  define S0 where "S0 = upd_dev (\<lambda>d. d\<lparr> seq_ctr := 0 \<rparr>) (S\<lparr> irq_on := False \<rparr>)"
  obtain S1 t where S1: "fold (adc_seq_step (adc_prev_id cf S)) [0..<NUM_ADC cf] (S0, 0) = (S1, t)"
    by (cases "fold (adc_seq_step (adc_prev_id cf S)) [0..<NUM_ADC cf] (S0, 0)")
  have S0: "adc_wf cf S0" "seq_ctr (adc_dev_state S0) = 0"
    using assms(1) by (simp_all add: S0_def adc_wf_def upd_dev_def adc_get_ch_state_def)
  have m: "ch_active (adc_dev_state S0) = ch_active (adc_dev_state S)" by (simp add: S0_def)
  have len: "length act \<le> NUM_ADC cf" "NUM_ADC cf \<le> 32" "length (ch_state (adc_dev_state S)) = NUM_ADC cf"
    using assms(1,3) by (simp_all add: length_active adc_wf_def)
  have pre: "seq_prefix (adc_prev_id cf S) (NUM_ADC cf) S0 (S1, t)"
    using seq_prefix_all [OF S0(1) order_refl S0(2), of "adc_prev_id cf S"] S1 by simp
  then have dev: "adc_dev_state S1 = (adc_dev_state S0)\<lparr> seq_ctr := of_nat (length act),
      ch_state := map Some act @ drop (length act) (ch_state (adc_dev_state S0)) \<rparr>"
    and ptr: "\<forall>i < length act. value_ptr (adc_get_ch_state (act ! i) S1) = Some i \<and> \<not> value_fresh (adc_get_ch_state (act ! i) S1)"
    and t: "if adc_prev_id cf S \<in> set act then unat t < length act \<and> act ! unat t = adc_prev_id cf S else t = 0"
    unfolding seq_prefix_def prod.case Let_def m assms(3) [symmetric] by blast+
  have un: "unat (of_nat (length act) :: u8) = length act" using len by (simp add: unat_of_nat_small)
  define d where "d = adc_seq_null cf ((adc_dev_state S1)\<lparr> seq_len := seq_ctr (adc_dev_state S1) \<rparr>)"
  have d: "ch_state d = map Some act @ replicate (NUM_ADC cf - length act) None"
    by (rule nth_equalityI) (use len in \<open>auto simp: d_def dev un adc_seq_null_def nth_append S0_def\<close>)
  have S0': "S\<lparr> irq_on := False, adc_dev_state := (adc_dev_state S)\<lparr> seq_ctr := 0 \<rparr> \<rparr> = S0"
    by (simp add: S0_def upd_dev_def)
  have T: "T = S1\<lparr> adc_dev_state := d\<lparr> last_ch_active := ch_active d, seq_ctr := t, force_reseq := False \<rparr>,
      irq_on := irq_on S \<rparr>"
    using assms(2) S1
    by (simp add: assms(4) adc_update_dev_sequence_def Let_def platform_cpu_set_global_interrupts_def
        platform_adc_update_sequence_def upd_dev_def d_def S0')
  have "adc_get_ch_state i T = adc_get_ch_state i S1" for i by (simp add: T upd_dev_def adc_get_ch_state_def)
  moreover have "seq_len d = of_nat (length act)" "ch_active d = ch_active (adc_dev_state S)"
    by (simp_all add: d_def adc_seq_null_def dev S0_def)
  ultimately show ?thesis using d ptr t un by (simp add: T split: if_splits)
qed

theorem adc_sequence_lists_active_channels_witness:
  "let S = upd_dev (\<lambda>d. d\<lparr> ch_active := 2 \<rparr>) sample_adc; T = adc_update_dev_sequence sample_adc_cfg S
   in ch_state (adc_dev_state T) = [Some 1, None] \<and> irq_on T"
proof -
  define S where "S = upd_dev (\<lambda>d. d\<lparr> ch_active := 2 \<rparr>) sample_adc"
  have "adc_wf sample_adc_cfg S"
    by (auto simp: adc_wf_def S_def sample_adc_cfg_def sample_adc_def sample_dev_def sample_ch_def upd_dev_def
        adc_get_ch_state_def less_2_cases_iff)
  moreover have "ch_active (adc_dev_state S) \<noteq> last_ch_active (adc_dev_state S)"
    by (simp add: S_def sample_adc_def sample_dev_def)
  moreover have "active_channels (ch_active (adc_dev_state S)) (NUM_ADC sample_adc_cfg) = [1]"
    by (simp add: active_channels_def S_def sample_adc_cfg_def upt_rec numeral_2_eq_2)
  moreover have "irq_on S" by (simp add: S_def sample_adc_def)
  ultimately show ?thesis
    using adc_sequence_lists_active_channels [of sample_adc_cfg S, OF _ _ refl refl]
    by (simp add: S_def [symmetric] Let_def) (simp add: sample_adc_cfg_def)
qed

end
