(* ===== verification/EluaInt.thy ===== *)
theory EluaInt
  imports Prelude
begin

text \<open>
  Interrupt support, \<open>src/elua_int.c\<close> with \<open>inc/elua_int.h\<close>: the queue between the interrupt
  handlers and the Lua hook, the enable flags of the interrupt sources and the table of C
  handlers. The queue is a ring in which the id \<open>ELUA_INT_EMPTY_SLOT\<close> marks a free slot.

  The Lua state is a parameter: whether it exists (\<open>lua_up\<close>), and what the user's handler does
  to the interrupt state when the hook calls it. \<open>INT_ELUA_LAST\<close> and
  \<open>PLATFORM_INT_QUEUE_LOG_SIZE\<close> are per platform and arguments of the definitions.

  The queue is shown to be an instance of \<open>fifo\<close>, the flags to be a set of enabled sources.
\<close>

section \<open>State\<close>

definition ELUA_INT_EMPTY_SLOT :: u8 where "ELUA_INT_EMPTY_SLOT = 0"
definition ELUA_INT_FIRST_ID :: u8 where "ELUA_INT_FIRST_ID = 1"
definition LUA_INT_MAX_SOURCES :: nat where "LUA_INT_MAX_SOURCES = 128"

type_synonym int_element = "u8 \<times> u16"  \<comment> \<open>\<open>id\<close>, \<open>resnum\<close>\<close>

record int_cfg =
  queue_log :: nat      \<comment> \<open>\<open>PLATFORM_INT_QUEUE_LOG_SIZE\<close>\<close>
  int_last :: u8        \<comment> \<open>\<open>INT_ELUA_LAST\<close>\<close>

record int_st =
  elua_int_read_idx :: u8
  elua_int_write_idx :: u8
  elua_int_queue :: "int_element list"
  elua_int_flags :: "u32 list"
  lua_hook :: bool      \<comment> \<open>the Lua hook is set\<close>

definition int_idx_next :: "int_cfg \<Rightarrow> u8 \<Rightarrow> u8" where
  "int_idx_next cf i = ucast ((ucast i + 1 :: u32) AND (push_bit (queue_log cf) 1 - 1))"

section \<open>Enable flags\<close>

definition int_bit :: "u8 \<Rightarrow> u32" where
  "int_bit t = push_bit (unat (t AND 0x1F)) 1"

definition int_word :: "u8 \<Rightarrow> nat" where
  "int_word t = unat (drop_bit 5 t)"

definition elua_int_enable :: "u8 \<Rightarrow> int_st \<Rightarrow> int_st" where
  "elua_int_enable t s =
     (if unat t < LUA_INT_MAX_SOURCES then
        let fs = elua_int_flags s in s\<lparr> elua_int_flags := fs[int_word t := fs ! int_word t OR int_bit t] \<rparr>
      else s)"

definition elua_int_disable :: "u8 \<Rightarrow> int_st \<Rightarrow> int_st" where
  "elua_int_disable t s =
     (if unat t < LUA_INT_MAX_SOURCES then
        let fs = elua_int_flags s in s\<lparr> elua_int_flags := fs[int_word t := fs ! int_word t AND NOT (int_bit t)] \<rparr>
      else s)"

definition elua_int_is_enabled :: "u8 \<Rightarrow> int_st \<Rightarrow> bool" where
  "elua_int_is_enabled t s \<longleftrightarrow>
     unat t < LUA_INT_MAX_SOURCES \<and> elua_int_flags s ! int_word t AND int_bit t \<noteq> 0"

definition elua_int_disable_all :: "int_st \<Rightarrow> int_st" where
  "elua_int_disable_all s =
     foldl (\<lambda>s i. s\<lparr> elua_int_flags := (elua_int_flags s)[i := 0] \<rparr>) s [0..<LUA_INT_MAX_SOURCES div 32]"

definition elua_int_cleanup :: "int_st \<Rightarrow> int_st" where
  "elua_int_cleanup s =
     (let s = elua_int_disable_all s in
      s\<lparr> elua_int_read_idx := 0, elua_int_write_idx := 0,
         elua_int_queue := map (\<lambda>_. (ELUA_INT_EMPTY_SLOT, 0)) (elua_int_queue s) \<rparr>)"

section \<open>The queue\<close>

definition elua_int_add :: "int_cfg \<Rightarrow> bool \<Rightarrow> u8 \<Rightarrow> u16 \<Rightarrow> int_st \<Rightarrow> pstatus \<times> int_st" where
  "elua_int_add cf lua_up inttype resnum s =
     (if inttype < ELUA_INT_FIRST_ID \<or> inttype > int_last cf then (PLATFORM_ERR, s)
      else if \<not> lua_up \<or> \<not> elua_int_is_enabled inttype s then (PLATFORM_ERR, s)
      else if fst (elua_int_queue s ! unat (elua_int_write_idx s)) \<noteq> ELUA_INT_EMPTY_SLOT then (PLATFORM_ERR, s)
      else (PLATFORM_OK,
        s\<lparr> elua_int_queue := (elua_int_queue s)[unat (elua_int_write_idx s) := (inttype, resnum)],
           elua_int_write_idx := int_idx_next cf (elua_int_write_idx s),
           lua_hook := True \<rparr>))"

text \<open>The two halves of the hook, around the call of the Lua handler.\<close>

definition elua_int_take :: "int_cfg \<Rightarrow> int_st \<Rightarrow> int_element \<times> int_st" where
  "elua_int_take cf s =
     (let r = unat (elua_int_read_idx s);
          crt = elua_int_queue s ! r
      in (crt, s\<lparr> elua_int_queue := (elua_int_queue s)[r := (ELUA_INT_EMPTY_SLOT, snd crt)],
                  elua_int_read_idx := int_idx_next cf (elua_int_read_idx s) \<rparr>))"

definition elua_int_unhook :: "int_st \<Rightarrow> int_st" where
  "elua_int_unhook s =
     (if fst (elua_int_queue s ! unat (elua_int_read_idx s)) = ELUA_INT_EMPTY_SLOT
      then s\<lparr> lua_hook := False \<rparr> else s)"

text \<open>
  \<open>handler i\<close> is the Lua function registered for the interrupt, if any: given the resource
  number it changes the state (it may enable interrupts, and interrupts may be queued meanwhile).
\<close>

definition elua_int_hook :: "int_cfg \<Rightarrow> (u8 \<Rightarrow> (u16 \<Rightarrow> int_st \<Rightarrow> int_st) option) \<Rightarrow> int_st \<Rightarrow> int_st" where
  "elua_int_hook cf handler s =
     (let (crt, s) = elua_int_take cf s;
          s = (if elua_int_is_enabled (fst crt) s then
                 (case handler (fst crt) of None \<Rightarrow> s | Some f \<Rightarrow> f (snd crt) s)
               else s)
      in elua_int_unhook s)"

section \<open>C handlers\<close>

text \<open>\<open>elua_int_c_handler_list\<close>, \<open>INT_ELUA_LAST\<close> slots.\<close>

definition elua_int_set_c_handler :: "int_cfg \<Rightarrow> u8 \<Rightarrow> 'h option \<Rightarrow> 'h option list \<Rightarrow> 'h option \<times> 'h option list" where
  "elua_int_set_c_handler cf inttype phandler hs =
     (if inttype < ELUA_INT_FIRST_ID \<or> inttype > int_last cf then (None, hs)
      else let i = unat (inttype - ELUA_INT_FIRST_ID) in (hs ! i, hs[i := phandler]))"

definition elua_int_get_c_handler :: "int_cfg \<Rightarrow> u8 \<Rightarrow> 'h option list \<Rightarrow> 'h option" where
  "elua_int_get_c_handler cf inttype hs =
     (if inttype < ELUA_INT_FIRST_ID \<or> inttype > int_last cf then None
      else hs ! unat (inttype - ELUA_INT_FIRST_ID))"

section \<open>Flags as a set\<close>

definition flags_ok :: "int_st \<Rightarrow> bool" where
  "flags_ok s \<longleftrightarrow> length (elua_int_flags s) = LUA_INT_MAX_SOURCES div 32"

lemma int_word_eq: "int_word t = unat t div 32"
  by (simp add: int_word_def drop_bit_eq_div unat_div)

lemma int_word_less: "unat t < LUA_INT_MAX_SOURCES \<Longrightarrow> int_word t < 4"
  by (simp add: int_word_eq LUA_INT_MAX_SOURCES_def less_mult_imp_div_less)

lemma source_bit_less [simp]: "unat (t AND 0x1F :: u8) < 32"
proof -
  have "unat (t AND 0x1F) = unat t mod 32" using unat_and_mask [of t 5] by simp
  then show ?thesis by simp
qed

lemma int_bit_pos: "bit (int_bit t) n \<longleftrightarrow> n = unat (t AND 0x1F)"
  using source_bit_less [of t] by (auto simp: int_bit_def bit_simps)

lemma int_source_unique:
  assumes "int_word t = int_word u" "unat (t AND 0x1F) = unat (u AND 0x1F)"
  shows "t = u"
proof -
  have "unat t mod 32 = unat u mod 32" using assms(2) unat_and_mask [of t 5] unat_and_mask [of u 5] by simp
  moreover have "unat t div 32 = unat u div 32"
    using assms(1) by (simp add: int_word_eq)
  ultimately have "unat t = unat u" by (metis div_mult_mod_eq)
  then show ?thesis by (simp add: word_unat_eq_iff)
qed

lemma test_bit: "x AND int_bit t \<noteq> 0 \<longleftrightarrow> bit x (unat (t AND 0x1F))"
proof -
  have "x AND int_bit t \<noteq> 0 \<longleftrightarrow> (\<exists>n. bit (x AND int_bit t) n)"
    by (metis bit_0_eq bit_eqI bot_apply bot_bool_def)
  then show ?thesis by (simp add: bit_and_iff int_bit_pos)
qed

lemma is_enabled_enable:
  assumes "flags_ok s" "unat t < LUA_INT_MAX_SOURCES"
  shows "elua_int_is_enabled u (elua_int_enable t s) \<longleftrightarrow> u = t \<or> elua_int_is_enabled u s"
proof (cases "unat u < LUA_INT_MAX_SOURCES \<and> int_word u = int_word t")
  case True
  with assms int_word_less [of t] int_source_unique [of u t] show ?thesis
    by (auto simp: elua_int_is_enabled_def elua_int_enable_def Let_def test_bit bit_or_iff int_bit_pos
        flags_ok_def LUA_INT_MAX_SOURCES_def)
next
  case False
  with assms show ?thesis
    by (auto simp: elua_int_is_enabled_def elua_int_enable_def Let_def)
qed

lemma is_enabled_disable:
  assumes "flags_ok s" "unat t < LUA_INT_MAX_SOURCES"
  shows "elua_int_is_enabled u (elua_int_disable t s) \<longleftrightarrow> u \<noteq> t \<and> elua_int_is_enabled u s"
proof (cases "unat u < LUA_INT_MAX_SOURCES \<and> int_word u = int_word t")
  case True
  with assms int_word_less [of t] int_source_unique [of u t] show ?thesis
    by (auto simp: elua_int_is_enabled_def elua_int_disable_def Let_def test_bit bit_and_iff bit_not_iff int_bit_pos
        flags_ok_def LUA_INT_MAX_SOURCES_def)
next
  case False
  with assms show ?thesis
    by (auto simp: elua_int_is_enabled_def elua_int_disable_def Let_def)
qed

section \<open>The ring as a queue\<close>

text \<open>
  The elements in the order of arrival are the occupied slots from the read index on. In a
  well-formed state they are followed by free slots only, up to the read index again.
\<close>

definition int_ring :: "int_st \<Rightarrow> int_element list" where
  "int_ring s = rotate (unat (elua_int_read_idx s)) (elua_int_queue s)"

definition int_elems :: "int_st \<Rightarrow> int_element list" where
  "int_elems s = takeWhile (\<lambda>e. fst e \<noteq> ELUA_INT_EMPTY_SLOT) (int_ring s)"

definition int_inv :: "int_cfg \<Rightarrow> int_st \<Rightarrow> bool" where
  "int_inv cf s \<longleftrightarrow>
     queue_log cf \<le> 7 \<and> length (elua_int_queue s) = 2 ^ queue_log cf
     \<and> unat (elua_int_read_idx s) < 2 ^ queue_log cf
     \<and> unat (elua_int_write_idx s) = (unat (elua_int_read_idx s) + length (int_elems s)) mod 2 ^ queue_log cf
     \<and> (\<forall>e \<in> set (drop (length (int_elems s)) (int_ring s)). fst e = ELUA_INT_EMPTY_SLOT)"

lemma int_ring_split: "int_ring s = int_elems s @ drop (length (int_elems s)) (int_ring s)"
  unfolding int_elems_def by (metis dropWhile_eq_drop takeWhile_dropWhile_id)

lemma int_elems_occupied: "e \<in> set (int_elems s) \<Longrightarrow> fst e \<noteq> ELUA_INT_EMPTY_SLOT"
  unfolding int_elems_def by (auto dest: set_takeWhileD)

lemma int_elems_unique:
  assumes "int_ring s = xs @ ys" "\<forall>e \<in> set xs. fst e \<noteq> ELUA_INT_EMPTY_SLOT"
    and "\<forall>e \<in> set ys. fst e = ELUA_INT_EMPTY_SLOT"
  shows "int_elems s = xs"
  using assms by (cases ys) (auto simp: int_elems_def takeWhile_append2 takeWhile_append1)

lemma int_idx_next_eq:
  assumes "queue_log cf \<le> 7"
  shows "unat (int_idx_next cf i) = (unat i + 1) mod 2 ^ queue_log cf"
proof -
  have "unat (ucast i + 1 :: u32) = unat i + 1"
    using unat_u8_less [of i] by (simp add: unat_word_ariths unat_ucast_up del: unat_u8_less)
  then have u: "unat ((ucast i + 1 :: u32) AND (push_bit (queue_log cf) 1 - 1)) = (unat i + 1) mod 2 ^ queue_log cf"
    by (simp add: unat_and_mask)
  have "(2::nat) ^ queue_log cf \<le> 2 ^ 7" by (rule power_increasing) (use assms in auto)
  then have "(unat i + 1) mod 2 ^ queue_log cf < 256"
    using mod_less_divisor [of "2 ^ queue_log cf" "unat i + 1"] by (simp del: mod_less_divisor)
  with u show ?thesis
    by (simp add: int_idx_next_def unsigned_ucast_eq take_bit_nat_eq_self_iff)
qed

lemma int_elems_length: "int_inv cf s \<Longrightarrow> length (int_elems s) \<le> 2 ^ queue_log cf"
proof -
  assume "int_inv cf s"
  then have "length (int_ring s) = 2 ^ queue_log cf" by (simp add: int_inv_def int_ring_def)
  then show ?thesis by (metis int_elems_def length_takeWhile_le)
qed

text \<open>The slot at the write index is free exactly when there is room.\<close>

lemma int_write_slot:
  assumes "int_inv cf s"
  shows "fst (elua_int_queue s ! unat (elua_int_write_idx s)) = ELUA_INT_EMPTY_SLOT
    \<longleftrightarrow> length (int_elems s) < 2 ^ queue_log cf"
proof -
  let ?N = "2 ^ queue_log cf :: nat" and ?k = "length (int_elems s)"
  let ?r = "unat (elua_int_read_idx s)"
  have len: "length (int_ring s) = ?N" "length (elua_int_queue s) = ?N"
    using assms by (simp_all add: int_ring_def int_inv_def)
  have slot: "int_ring s ! i = elua_int_queue s ! ((?r + i) mod ?N)" if "i < ?N" for i
    using that len by (simp add: int_ring_def nth_rotate)
  show ?thesis
  proof (cases "?k < ?N")
    case True
    then have "int_ring s ! ?k \<in> set (drop ?k (int_ring s))"
      using len by (metis Cons_nth_drop_Suc list.set_intros(1))
    with assms True slot show ?thesis by (simp add: int_inv_def)
  next
    case False
    with int_elems_length [OF assms] have k: "?k = ?N" by simp
    then have "int_ring s = int_elems s" using int_ring_split [of s] len by simp
    with k have "fst (int_ring s ! 0) \<noteq> ELUA_INT_EMPTY_SLOT"
      using int_elems_occupied [of "int_elems s ! 0" s] by simp
    moreover have "unat (elua_int_write_idx s) = (?r + 0) mod ?N"
      using assms k by (simp add: int_inv_def)
    ultimately show ?thesis using slot [of 0] k by simp
  qed
qed

definition int_put :: "int_cfg \<Rightarrow> int_st \<Rightarrow> int_element \<Rightarrow> int_st" where
  "int_put cf s e = snd (elua_int_add cf True (fst e) (snd e) s)"

definition int_get :: "int_cfg \<Rightarrow> int_st \<Rightarrow> (int_element \<times> int_st) option" where
  "int_get cf s = (if int_elems s = [] then None else Some (elua_int_take cf s))"

definition int_accepts :: "int_cfg \<Rightarrow> int_st \<Rightarrow> int_element \<Rightarrow> bool" where
  "int_accepts cf s e \<longleftrightarrow> ELUA_INT_FIRST_ID \<le> fst e \<and> fst e \<le> int_last cf \<and> elua_int_is_enabled (fst e) s"

lemma elua_int_add_ok:
  assumes "int_inv cf s" "int_accepts cf s e" "length (int_elems s) < 2 ^ queue_log cf"
  shows "elua_int_add cf True (fst e) (snd e) s = (PLATFORM_OK,
      s\<lparr> elua_int_queue := (elua_int_queue s)[unat (elua_int_write_idx s) := e],
         elua_int_write_idx := int_idx_next cf (elua_int_write_idx s), lua_hook := True \<rparr>)"
  using assms int_write_slot [OF assms(1)]
  by (auto simp: elua_int_add_def int_accepts_def not_less)

lemma int_put_elems:
  assumes inv: "int_inv cf s" and acc: "int_accepts cf s e" and room: "length (int_elems s) < 2 ^ queue_log cf"
  shows "int_elems (int_put cf s e) = int_elems s @ [e] \<and> int_inv cf (int_put cf s e)"
proof -
  let ?N = "2 ^ queue_log cf :: nat" and ?k = "length (int_elems s)"
  let ?r = "unat (elua_int_read_idx s)" and ?s = "int_put cf s e"
  note q = elua_int_add_ok [OF inv acc room]
  have len: "length (elua_int_queue s) = ?N" using inv by (simp add: int_inv_def)
  have "int_ring ?s = (int_ring s)[?k := e]"
    using inv room len rotate_update [of ?k "elua_int_queue s" ?r e]
    by (simp add: int_ring_def int_put_def q int_inv_def)
  also have "\<dots> = (int_elems s @ [e]) @ drop (Suc ?k) (int_ring s)"
    using int_ring_split [of s] room len
    by (metis append.assoc append_Cons append_Nil id_take_nth_drop int_ring_def length_rotate take_append upd_conv_take_nth_drop append_eq_conv_conj)
  finally have ring: "int_ring ?s = (int_elems s @ [e]) @ drop (Suc ?k) (int_ring s)" .
  have e: "fst e \<noteq> ELUA_INT_EMPTY_SLOT"
    using acc by (auto simp: int_accepts_def ELUA_INT_FIRST_ID_def ELUA_INT_EMPTY_SLOT_def)
  have rest: "\<forall>x \<in> set (drop (Suc ?k) (int_ring s)). fst x = ELUA_INT_EMPTY_SLOT"
    using inv set_drop_subset_set_drop [of ?k "Suc ?k" "int_ring s"] by (auto simp: int_inv_def)
  have elems: "int_elems ?s = int_elems s @ [e]"
    using int_elems_unique [OF ring _ rest] e int_elems_occupied by auto
  have comps: "elua_int_read_idx ?s = elua_int_read_idx s" "length (elua_int_queue ?s) = ?N"
    "elua_int_write_idx ?s = int_idx_next cf (elua_int_write_idx s)"
    using len by (simp_all add: int_put_def q)
  have "unat (elua_int_write_idx s) = (?r + ?k) mod ?N" using inv by (simp add: int_inv_def)
  then have "unat (int_idx_next cf (elua_int_write_idx s)) = (?r + length (int_elems s @ [e])) mod ?N"
    using inv by (simp add: int_inv_def int_idx_next_eq mod_simps)
  then have "int_inv cf ?s"
    using inv rest unfolding int_inv_def elems ring comps by simp
  with elems show ?thesis by simp
qed

lemma int_get_elems:
  assumes inv: "int_inv cf s" and e: "int_elems s = e # es"
  shows "\<exists>s'. int_get cf s = Some (e, s') \<and> int_elems s' = es \<and> int_inv cf s'
    \<and> elua_int_flags s' = elua_int_flags s"
proof -
  let ?N = "2 ^ queue_log cf :: nat" and ?r = "unat (elua_int_read_idx s)"
  let ?x = "(ELUA_INT_EMPTY_SLOT, snd e)"
  let ?s = "snd (elua_int_take cf s)"
  have len: "length (elua_int_queue s) = ?N" "?r < ?N" "queue_log cf \<le> 7" using inv by (simp_all add: int_inv_def)
  define ys where "ys = drop (length (int_elems s)) (int_ring s)"
  have ring: "int_ring s = e # es @ ys" using int_ring_split [of s] e by (simp add: ys_def)
  have ys: "\<forall>y \<in> set ys. fst y = ELUA_INT_EMPTY_SLOT" using inv by (simp add: int_inv_def ys_def)
  have "int_ring s ! 0 = elua_int_queue s ! ?r"
    using len nth_rotate [of 0 "elua_int_queue s" ?r] by (simp add: int_ring_def)
  then have crt: "elua_int_queue s ! ?r = e" by (simp add: ring)
  have "rotate ?r ((elua_int_queue s)[?r := ?x]) = (int_ring s)[0 := ?x]"
    using len rotate_update [of 0 "elua_int_queue s" ?r ?x] by (simp add: int_ring_def)
  then have "int_ring ?s = es @ ys @ [?x]"
    using len by (simp add: int_ring_def elua_int_take_def Let_def crt int_idx_next_eq flip: rotate_conv_mod)
      (metis (no_types) len(1) length_list_update rotate1.simps(2) rotate_Suc rotate_conv_mod append_assoc list_update_code(2) ring int_ring_def append_Cons)
  then have ring': "int_ring ?s = es @ (ys @ [?x])" by simp
  have elems: "int_elems ?s = es"
    by (rule int_elems_unique [OF ring']) (use e int_elems_occupied [of _ s] ys in auto)
  have "unat (elua_int_write_idx s) = (?r + Suc (length es)) mod ?N" using inv e by (simp add: int_inv_def)
  then have "int_inv cf ?s"
    using len ys ring'
    by (simp add: int_inv_def elems) (simp add: elua_int_take_def Let_def int_idx_next_eq mod_simps)
  then show ?thesis
    using e elems by (auto simp: int_get_def elua_int_take_def Let_def crt)
qed

interpretation iq: fifo "int_put cf" "int_get cf" int_elems "int_inv cf" "\<lambda>_. 2 ^ queue_log cf" "int_accepts cf"
  for cf
proof unfold_locales
  fix s x y
  assume a: "int_inv cf s" "int_accepts cf s x" "length (int_elems s) < 2 ^ queue_log cf"
  then show "int_elems (int_put cf s x) = int_elems s @ [x]" "int_inv cf (int_put cf s x)"
    using int_put_elems by auto
  show "int_accepts cf (int_put cf s x) y = int_accepts cf s y"
    by (simp add: int_accepts_def int_put_def elua_int_add_ok [OF a] elua_int_is_enabled_def)
next
  fix s x xs
  assume "int_inv cf s" "int_elems s = x # xs"
  from int_get_elems [OF this] show "\<exists>s'. int_get cf s = Some (x, s') \<and> int_elems s' = xs \<and> int_inv cf s'
      \<and> 2 ^ queue_log cf = (2 :: nat) ^ queue_log cf \<and> (\<forall>y. int_accepts cf s' y = int_accepts cf s y)"
    by (auto simp: int_accepts_def elua_int_is_enabled_def)
qed (simp_all add: int_get_def)

section \<open>Properties\<close>

text \<open>
  C28: no interrupt is lost or reordered while there is room. From any well-formed state, a
  burst of interrupts that are enabled and fit in the queue is all accepted, and the hook then
  takes out first what was waiting and then the burst, in the order of arrival.
\<close>

theorem interrupts_in_order:
  assumes "int_inv cf s" "\<forall>e \<in> set es. int_accepts cf s e"
    and "length (int_elems s) + length es \<le> 2 ^ queue_log cf"
  shows "fst (take_all (int_get cf) (length (int_elems s) + length es) (foldl (int_put cf) s es)) = int_elems s @ es"
proof -
  from iq.puts_elems [OF assms] have "int_elems (foldl (int_put cf) s es) = int_elems s @ es"
    "int_inv cf (foldl (int_put cf) s es)" by auto
  then show ?thesis using iq.take_all_elems [of cf "foldl (int_put cf) s es"] by simp
qed

definition sample_int_cfg :: int_cfg where
  "sample_int_cfg = \<lparr> queue_log = 1, int_last = 10 \<rparr>"

definition sample_int :: int_st where
  "sample_int = \<lparr> elua_int_read_idx = 1, elua_int_write_idx = 1, elua_int_queue = [(0, 0), (0, 0)],
     elua_int_flags = [6, 0, 0, 0], lua_hook = False \<rparr>"

lemma sample_int_elems: "int_elems sample_int = []" "int_inv sample_int_cfg sample_int"
  by (simp_all add: int_inv_def int_elems_def int_ring_def sample_int_def sample_int_cfg_def ELUA_INT_EMPTY_SLOT_def)

theorem interrupts_in_order_witness:
  "fst (take_all (int_get sample_int_cfg) 2 (foldl (int_put sample_int_cfg) sample_int [(1, 7), (2, 9)]))
    = [(1, 7), (2, 9)]"
proof -
  have "int_accepts sample_int_cfg sample_int (1, 7)" "int_accepts sample_int_cfg sample_int (2, 9)"
    by (simp_all add: int_accepts_def sample_int_cfg_def sample_int_def ELUA_INT_FIRST_ID_def
        elua_int_is_enabled_def int_word_def int_bit_def LUA_INT_MAX_SOURCES_def)
  then show ?thesis
    using interrupts_in_order [of sample_int_cfg sample_int "[(1, 7), (2, 9)]"] sample_int_elems
    by (simp add: sample_int_cfg_def numeral_2_eq_2)
qed

text \<open>
  the enable flags are a set. Enabling or disabling a source changes the answer of
  \<open>elua_int_is_enabled\<close> for that source and for no other, over all 128 sources.
\<close>

lemma enable_flags_are_a_set:
  assumes "flags_ok s" "unat t < LUA_INT_MAX_SOURCES"
  shows "(elua_int_is_enabled u (elua_int_enable t s) \<longleftrightarrow> u = t \<or> elua_int_is_enabled u s)
    \<and> (elua_int_is_enabled u (elua_int_disable t s) \<longleftrightarrow> u \<noteq> t \<and> elua_int_is_enabled u s)"
  using is_enabled_enable [OF assms] is_enabled_disable [OF assms] by blast

theorem enable_flags_are_a_set_witness:
  "(elua_int_is_enabled 5 (elua_int_enable 37 sample_int) \<longleftrightarrow> 5 = (37 :: u8) \<or> elua_int_is_enabled 5 sample_int)
    \<and> (elua_int_is_enabled 5 (elua_int_disable 37 sample_int) \<longleftrightarrow> 5 \<noteq> (37 :: u8) \<and> elua_int_is_enabled 5 sample_int)"
  by (rule enable_flags_are_a_set) (simp_all add: flags_ok_def sample_int_def LUA_INT_MAX_SOURCES_def)

text \<open>
  the hook stays set while interrupts wait. After \<open>elua_int_hook\<close> has served an interrupt,
  the Lua hook is cleared only if the queue is empty, whatever the handler did to the state short
  of breaking its invariant.
\<close>

lemma hook_kept_while_pending:
  assumes "int_inv cf s" "int_elems s = e # es"
    and "\<forall>i f x t. handler i = Some f \<and> int_inv cf t \<and> lua_hook t \<longrightarrow> int_inv cf (f x t) \<and> lua_hook (f x t)"
    and "lua_hook s"
  shows "let t = elua_int_hook cf handler s in int_inv cf t \<and> (lua_hook t \<longleftrightarrow> int_elems t \<noteq> [])"
proof -
  obtain s1 where s1: "elua_int_take cf s = (e, s1)" "int_inv cf s1" "lua_hook s1"
  proof -
    from int_get_elems [OF assms(1,2)] obtain s1 where "int_get cf s = Some (e, s1)" "int_inv cf s1" by blast
    then show ?thesis
      using assms(2,4) that [of s1] by (auto simp: int_get_def elua_int_take_def Let_def split: if_splits)
  qed
  define s2 where "s2 = (if elua_int_is_enabled (fst e) s1 then
      (case handler (fst e) of None \<Rightarrow> s1 | Some f \<Rightarrow> f (snd e) s1) else s1)"
  have s2: "int_inv cf s2" "lua_hook s2"
    using s1 assms(3) by (auto simp: s2_def split: option.splits)
  have head: "fst (elua_int_queue s2 ! unat (elua_int_read_idx s2)) = ELUA_INT_EMPTY_SLOT \<longleftrightarrow> int_elems s2 = []"
  proof -
    have len: "length (elua_int_queue s2) = 2 ^ queue_log cf" "unat (elua_int_read_idx s2) < 2 ^ queue_log cf"
      using s2 by (simp_all add: int_inv_def)
    then have "int_ring s2 ! 0 = elua_int_queue s2 ! unat (elua_int_read_idx s2)"
      using nth_rotate [of 0 "elua_int_queue s2"] by (simp add: int_ring_def)
    moreover have "int_ring s2 \<noteq> []" using len by (auto simp: int_ring_def)
    ultimately show ?thesis
      by (cases "int_ring s2") (auto simp: int_elems_def)
  qed
  have inv: "int_inv cf (s2\<lparr> lua_hook := False \<rparr>) = int_inv cf s2" "int_elems (s2\<lparr> lua_hook := False \<rparr>) = int_elems s2"
    by (simp_all add: int_inv_def int_elems_def int_ring_def)
  have "elua_int_hook cf handler s = elua_int_unhook s2"
    by (simp add: elua_int_hook_def s1 s2_def)
  then show ?thesis
    using s2 head inv by (auto simp: elua_int_unhook_def Let_def)
qed

theorem hook_kept_while_pending_witness:
  "let t = elua_int_hook sample_int_cfg (\<lambda>_. None) (int_put sample_int_cfg sample_int (1, 7))
   in int_inv sample_int_cfg t \<and> (lua_hook t \<longleftrightarrow> int_elems t \<noteq> [])"
proof (rule hook_kept_while_pending)
  have acc: "int_accepts sample_int_cfg sample_int (1, 7)"
    by (simp add: int_accepts_def sample_int_cfg_def sample_int_def ELUA_INT_FIRST_ID_def
        elua_int_is_enabled_def int_word_def int_bit_def LUA_INT_MAX_SOURCES_def)
  have room: "length (int_elems sample_int) < 2 ^ queue_log sample_int_cfg"
    by (simp add: sample_int_elems)
  from int_put_elems [OF sample_int_elems(2) acc room]
  show "int_inv sample_int_cfg (int_put sample_int_cfg sample_int (1, 7))"
    and "int_elems (int_put sample_int_cfg sample_int (1, 7)) = (1, 7) # []"
    by (simp_all add: sample_int_elems)
  show "lua_hook (int_put sample_int_cfg sample_int (1, 7))"
    using elua_int_add_ok [OF sample_int_elems(2) acc room] by (simp add: int_put_def)
qed simp

end
