(* ===== verification/Vtimer.thy ===== *)
theory Vtimer
  imports EluaInt "HOL-Library.Monad_Syntax"
begin

text \<open>
  Timers, \<open>src/common_tmr.c\<close> with \<open>inc/common.h\<close>: the virtual timers that count the ticks
  of one hardware interrupt, their match interrupts, and the timer functions of the platform
  layer that choose between virtual and physical timers. The configuration is the one with virtual
  timers and interrupt support (\<open>CMN_TIMER_INT_SUPPORT\<close>).

  Time is explicit: the only thing that happens while the code waits is the timer interrupt, so a
  waiting loop runs \<open>cmn_virtual_timer_cb\<close> once per turn; a wait that never ends is
  \<open>None\<close>. The physical timers of a board and their interrupt functions are arguments.
\<close>

section \<open>State\<close>

definition VTMR_FIRST_ID :: nat where "VTMR_FIRST_ID = 32"

record vtmr_cfg =
  VTMR_NUM_TIMERS :: nat
  VTMR_FREQ_HZ :: u32
  INT_TMR_MATCH :: u8
  tmr_ints :: int_cfg
  tmr_lua_up :: bool          \<comment> \<open>\<open>lua_getstate() != NULL\<close>\<close>

record vtmr_st =
  vtmr_counters :: "u32 list"
  vtmr_reset_idx :: "8 word"  \<comment> \<open>an \<open>s8\<close>; \<open>-1\<close> is no request\<close>
  vtmr_period_limit :: "u32 list"
  vtmr_int_periodic_flag :: "u8 list"
  vtmr_int_enabled :: "u8 list"
  vtmr_int_flag :: "u8 list"
  vtmr_queue :: int_st        \<comment> \<open>the interrupt queue that \<open>elua_int_add\<close> works on\<close>

datatype timer_op = PLATFORM_TIMER_OP_START | PLATFORM_TIMER_OP_READ | PLATFORM_TIMER_OP_SET_CLOCK
  | PLATFORM_TIMER_OP_GET_CLOCK | PLATFORM_TIMER_OP_GET_MAX_DELAY | PLATFORM_TIMER_OP_GET_MIN_DELAY

datatype timer_int_type = PLATFORM_TIMER_INT_ONESHOT | PLATFORM_TIMER_INT_CYCLIC

datatype timer_int_status = PLATFORM_TIMER_INT_OK | PLATFORM_TIMER_INT_TOO_SHORT
  | PLATFORM_TIMER_INT_TOO_LONG | PLATFORM_TIMER_INT_INVALID_ID

definition PLATFORM_INT_INVALID :: int where "PLATFORM_INT_INVALID = -2"
definition PLATFORM_INT_NOT_HANDLED :: int where "PLATFORM_INT_NOT_HANDLED = -3"

definition VTMR_GET_ID :: "nat \<Rightarrow> nat" where
  "VTMR_GET_ID x = x - VTMR_FIRST_ID"

definition TIMER_IS_VIRTUAL :: "vtmr_cfg \<Rightarrow> nat \<Rightarrow> bool" where
  "TIMER_IS_VIRTUAL cf x \<longleftrightarrow> 0 < VTMR_NUM_TIMERS cf \<and> VTMR_FIRST_ID \<le> x \<and> x < VTMR_NUM_TIMERS cf + VTMR_FIRST_ID"

text \<open>The bit maps: bit \<open>i & 7\<close> of byte \<open>i >> 3\<close>.\<close>

definition tmr_msk :: "nat \<Rightarrow> u8" where
  "tmr_msk i = push_bit (i mod 8) 1"

definition flag_set :: "nat \<Rightarrow> u8 list \<Rightarrow> u8 list" where
  "flag_set i fs = fs[i div 8 := fs ! (i div 8) OR tmr_msk i]"

definition flag_clear :: "nat \<Rightarrow> u8 list \<Rightarrow> u8 list" where
  "flag_clear i fs = fs[i div 8 := fs ! (i div 8) AND NOT (tmr_msk i)]"

definition flag_test :: "nat \<Rightarrow> u8 list \<Rightarrow> bool" where
  "flag_test i fs \<longleftrightarrow> fs ! (i div 8) AND tmr_msk i \<noteq> 0"

section \<open>The tick\<close>

text \<open>The match of timer \<open>i\<close> whose counter has just been incremented.\<close>

definition vtmr_match :: "vtmr_cfg \<Rightarrow> nat \<Rightarrow> vtmr_st \<Rightarrow> vtmr_st" where
  "vtmr_match cf i S =
     (let S = S\<lparr> vtmr_int_flag := flag_set i (vtmr_int_flag S) \<rparr>;
          S = (if flag_test i (vtmr_int_enabled S)
               then S\<lparr> vtmr_queue := snd (elua_int_add (tmr_ints cf) (tmr_lua_up cf) (INT_TMR_MATCH cf)
                        (of_nat (i + VTMR_FIRST_ID)) (vtmr_queue S)) \<rparr>
               else S)
      in if flag_test i (vtmr_int_periodic_flag S)
         then S\<lparr> vtmr_counters := (vtmr_counters S)[i := 0] \<rparr>
         else S\<lparr> vtmr_int_enabled := flag_clear i (vtmr_int_enabled S) \<rparr>)"

definition vtmr_step :: "vtmr_cfg \<Rightarrow> nat \<Rightarrow> vtmr_st \<Rightarrow> vtmr_st" where
  "vtmr_step cf i S =
     (let S = S\<lparr> vtmr_counters := (vtmr_counters S)[i := vtmr_counters S ! i + 1] \<rparr>
      in if vtmr_period_limit S ! i \<le> vtmr_counters S ! i then vtmr_match cf i S else S)"

definition cmn_virtual_timer_cb :: "vtmr_cfg \<Rightarrow> vtmr_st \<Rightarrow> vtmr_st" where
  "cmn_virtual_timer_cb cf S =
     (let S = fold (vtmr_step cf) [0..<VTMR_NUM_TIMERS cf] S
      in if vtmr_reset_idx S \<noteq> -1
         then S\<lparr> vtmr_counters := (vtmr_counters S)[unat (vtmr_reset_idx S) := 0], vtmr_reset_idx := -1 \<rparr>
         else S)"

section \<open>Operations\<close>

partial_function (option) vtmr_wait_reset :: "vtmr_cfg \<Rightarrow> vtmr_st \<Rightarrow> vtmr_st option" where
  "vtmr_wait_reset cf S =
     (if vtmr_reset_idx S \<noteq> -1 then vtmr_wait_reset cf (cmn_virtual_timer_cb cf S) else Some S)"

definition vtmr_reset_timer :: "vtmr_cfg \<Rightarrow> nat \<Rightarrow> vtmr_st \<Rightarrow> vtmr_st option" where
  "vtmr_reset_timer cf vid S = vtmr_wait_reset cf (S\<lparr> vtmr_reset_idx := of_nat (VTMR_GET_ID vid) \<rparr>)"

partial_function (option) vtmr_wait_count :: "vtmr_cfg \<Rightarrow> nat \<Rightarrow> u32 \<Rightarrow> vtmr_st \<Rightarrow> vtmr_st option" where
  "vtmr_wait_count cf i final S =
     (if vtmr_counters S ! i < final then vtmr_wait_count cf i final (cmn_virtual_timer_cb cf S) else Some S)"

text \<open>\<open>( ( u64 )us * VTMR_FREQ_HZ ) / 1000000\<close>, cut to 32 bits.\<close>

definition vtmr_ticks :: "vtmr_cfg \<Rightarrow> u32 \<Rightarrow> u32" where
  "vtmr_ticks cf us = ucast ((ucast us * ucast (VTMR_FREQ_HZ cf) :: 64 word) div 1000000)"

definition vtmr_delay :: "vtmr_cfg \<Rightarrow> nat \<Rightarrow> u32 \<Rightarrow> vtmr_st \<Rightarrow> vtmr_st option" where
  "vtmr_delay cf vid delay_us S = do {
     S \<leftarrow> vtmr_reset_timer cf vid S;
     vtmr_wait_count cf (VTMR_GET_ID vid) (vtmr_ticks cf delay_us) S }"

definition vtmr_set_match_int ::
    "vtmr_cfg \<Rightarrow> nat \<Rightarrow> u32 \<Rightarrow> timer_int_type \<Rightarrow> vtmr_st \<Rightarrow> (timer_int_status \<times> vtmr_st) option" where
  "vtmr_set_match_int cf vid period_us type S =
     (let i = VTMR_GET_ID vid; final = vtmr_ticks cf period_us in
      if period_us = 0 then
        Some (PLATFORM_TIMER_INT_OK, S\<lparr> vtmr_int_enabled := flag_clear i (vtmr_int_enabled S),
                vtmr_int_flag := flag_clear i (vtmr_int_flag S) \<rparr>)
      else if final = 0 then Some (PLATFORM_TIMER_INT_TOO_SHORT, S)
      else do {
        S \<leftarrow> vtmr_reset_timer cf vid (S\<lparr> vtmr_period_limit := (vtmr_period_limit S)[i := final],
               vtmr_int_periodic_flag := (if type = PLATFORM_TIMER_INT_ONESHOT
                 then flag_clear i (vtmr_int_periodic_flag S) else flag_set i (vtmr_int_periodic_flag S)),
               vtmr_int_flag := flag_clear i (vtmr_int_flag S) \<rparr>);
        Some (PLATFORM_TIMER_INT_OK, S\<lparr> vtmr_int_enabled := flag_set i (vtmr_int_enabled S) \<rparr>) })"

definition vtmr_int_get_flag :: "nat \<Rightarrow> bool \<Rightarrow> vtmr_st \<Rightarrow> bool \<times> vtmr_st" where
  "vtmr_int_get_flag resnum clear S =
     (let i = VTMR_GET_ID resnum
      in (flag_test i (vtmr_int_flag S),
          if clear then S\<lparr> vtmr_int_flag := flag_clear i (vtmr_int_flag S) \<rparr> else S))"

definition vtmr_int_set_status :: "nat \<Rightarrow> bool \<Rightarrow> vtmr_st \<Rightarrow> bool \<times> vtmr_st" where
  "vtmr_int_set_status resnum enable S =
     (let i = VTMR_GET_ID resnum
      in (flag_test i (vtmr_int_enabled S),
          S\<lparr> vtmr_int_enabled := (if enable then flag_set i else flag_clear i) (vtmr_int_enabled S) \<rparr>))"

definition vtmr_int_get_status :: "nat \<Rightarrow> vtmr_st \<Rightarrow> bool" where
  "vtmr_int_get_status resnum S = flag_test (VTMR_GET_ID resnum) (vtmr_int_enabled S)"

section \<open>The platform functions\<close>

definition platform_timer_exists :: "vtmr_cfg \<Rightarrow> nat \<Rightarrow> nat \<Rightarrow> bool" where
  "platform_timer_exists cf NUM_TIMER n =
     (if VTMR_FIRST_ID \<le> n then TIMER_IS_VIRTUAL cf n else n < NUM_TIMER)"

text \<open>
  The physical timers: \<open>s_op\<close> is what \<open>platform_s_timer_op\<close> answers; a delay on one of
  them returns when the hardware says so and changes nothing here.
\<close>

definition platform_timer_delay :: "vtmr_cfg \<Rightarrow> nat \<Rightarrow> u32 \<Rightarrow> vtmr_st \<Rightarrow> vtmr_st option" where
  "platform_timer_delay cf n delay_us S =
     (if TIMER_IS_VIRTUAL cf n then vtmr_delay cf n delay_us S else Some S)"

text \<open>
  \<open>platform_timer_op\<close> and \<open>platform_timer_get_diff_us\<close> call each other; the nested
  call only asks for the clock.
\<close>

function platform_timer_op ::
    "vtmr_cfg \<Rightarrow> (nat \<Rightarrow> timer_op \<Rightarrow> u32 \<Rightarrow> u32) \<Rightarrow> nat \<Rightarrow> timer_op \<Rightarrow> u32 \<Rightarrow> vtmr_st \<Rightarrow> (u32 \<times> vtmr_st) option"
  and platform_timer_get_diff_us ::
    "vtmr_cfg \<Rightarrow> (nat \<Rightarrow> timer_op \<Rightarrow> u32 \<Rightarrow> u32) \<Rightarrow> nat \<Rightarrow> u32 \<Rightarrow> u32 \<Rightarrow> vtmr_st \<Rightarrow> (u32 \<times> vtmr_st) option"
where
  "platform_timer_op cf s_op n op data S =
     (if VTMR_NUM_TIMERS cf = 0 \<or> \<not> TIMER_IS_VIRTUAL cf n then Some (s_op n op data, S)
      else case op of
        PLATFORM_TIMER_OP_START \<Rightarrow> map_option (\<lambda>S. (0, S)) (vtmr_reset_timer cf n S)
      | PLATFORM_TIMER_OP_READ \<Rightarrow> Some (vtmr_counters S ! VTMR_GET_ID n, S)
      | PLATFORM_TIMER_OP_GET_MAX_DELAY \<Rightarrow> platform_timer_get_diff_us cf s_op n 0 0xFFFFFFFF S
      | PLATFORM_TIMER_OP_GET_MIN_DELAY \<Rightarrow> platform_timer_get_diff_us cf s_op n 0 1 S
      | PLATFORM_TIMER_OP_SET_CLOCK \<Rightarrow> Some (VTMR_FREQ_HZ cf, S)
      | PLATFORM_TIMER_OP_GET_CLOCK \<Rightarrow> Some (VTMR_FREQ_HZ cf, S))"
| "platform_timer_get_diff_us cf s_op n tend start S =
     (case platform_timer_op cf s_op n PLATFORM_TIMER_OP_GET_CLOCK 0 S of
        None \<Rightarrow> None
      | Some (freq, S) \<Rightarrow>
          (let (tend, start) = (if start < tend then (start, tend) else (tend, start))
           in Some (ucast ((ucast (start - tend) * 1000000 :: 64 word) div ucast freq), S)))"
  by pat_completeness auto
termination
  by (relation "measure (\<lambda>x. case x of
        Inl (_, _, _, op, _, _) \<Rightarrow>
          (if op = PLATFORM_TIMER_OP_GET_MAX_DELAY \<or> op = PLATFORM_TIMER_OP_GET_MIN_DELAY then 2 else 0)
      | Inr _ \<Rightarrow> 1)") auto

definition platform_timer_set_match_int ::
    "vtmr_cfg \<Rightarrow> (nat \<Rightarrow> u32 \<Rightarrow> timer_int_type \<Rightarrow> timer_int_status) \<Rightarrow> nat \<Rightarrow> u32 \<Rightarrow> timer_int_type
      \<Rightarrow> vtmr_st \<Rightarrow> (timer_int_status \<times> vtmr_st) option" where
  "platform_timer_set_match_int cf s_match n period_us type S =
     (if TIMER_IS_VIRTUAL cf n then vtmr_set_match_int cf n period_us type S
      else Some (s_match n period_us type, S))"

text \<open>The entries of \<open>elua_int_table\<close> for the physical timers are arguments; \<open>None\<close> is NULL.\<close>

definition cmn_tmr_int_set_status ::
    "vtmr_cfg \<Rightarrow> (nat \<Rightarrow> bool \<Rightarrow> int) option \<Rightarrow> nat \<Rightarrow> bool \<Rightarrow> vtmr_st \<Rightarrow> int \<times> vtmr_st" where
  "cmn_tmr_int_set_status cf ps resnum enable S =
     (if TIMER_IS_VIRTUAL cf resnum then
        let (prev, S) = vtmr_int_set_status resnum enable S in (of_bool prev, S)
      else case ps of None \<Rightarrow> (PLATFORM_INT_NOT_HANDLED, S) | Some f \<Rightarrow> (f resnum enable, S))"

definition cmn_tmr_int_get_status :: "vtmr_cfg \<Rightarrow> (nat \<Rightarrow> int) option \<Rightarrow> nat \<Rightarrow> vtmr_st \<Rightarrow> int" where
  "cmn_tmr_int_get_status cf pg resnum S =
     (if TIMER_IS_VIRTUAL cf resnum then of_bool (vtmr_int_get_status resnum S)
      else case pg of None \<Rightarrow> PLATFORM_INT_NOT_HANDLED | Some f \<Rightarrow> f resnum)"

definition cmn_tmr_int_get_flag ::
    "vtmr_cfg \<Rightarrow> (nat \<Rightarrow> bool \<Rightarrow> int) option \<Rightarrow> nat \<Rightarrow> bool \<Rightarrow> vtmr_st \<Rightarrow> int \<times> vtmr_st" where
  "cmn_tmr_int_get_flag cf pf resnum clear S =
     (if TIMER_IS_VIRTUAL cf resnum then
        let (flag, S) = vtmr_int_get_flag resnum clear S in (of_bool flag, S)
      else case pf of None \<Rightarrow> (PLATFORM_INT_NOT_HANDLED, S) | Some f \<Rightarrow> (f resnum clear, S))"

section \<open>One timer at a time\<close>

text \<open>
  What one timer is: counter, limit, and its three bits. A tick acts on every timer as
  \<open>tick_timer\<close> does on its view, whatever the others do.
\<close>

type_synonym timer_view = "u32 \<times> u32 \<times> bool \<times> bool \<times> bool"

definition timer_view :: "nat \<Rightarrow> vtmr_st \<Rightarrow> timer_view" where
  "timer_view i S = (vtmr_counters S ! i, vtmr_period_limit S ! i, flag_test i (vtmr_int_periodic_flag S),
     flag_test i (vtmr_int_enabled S), flag_test i (vtmr_int_flag S))"

fun tick_timer :: "timer_view \<Rightarrow> timer_view" where
  "tick_timer (c, l, periodic, enabled, flag) =
     (if l \<le> c + 1 then (if periodic then (0, l, periodic, enabled, True) else (c + 1, l, periodic, False, True))
      else (c + 1, l, periodic, enabled, flag))"

fun timer_fires :: "timer_view \<Rightarrow> bool" where
  "timer_fires (c, l, periodic, enabled, flag) \<longleftrightarrow> l \<le> c + 1 \<and> enabled"

definition vtmr_wf :: "vtmr_cfg \<Rightarrow> vtmr_st \<Rightarrow> bool" where
  "vtmr_wf cf S \<longleftrightarrow> (let n = VTMR_NUM_TIMERS cf in
     n \<le> 127 \<and> length (vtmr_counters S) = n \<and> length (vtmr_period_limit S) = n
     \<and> length (vtmr_int_periodic_flag S) = (n + 7) div 8 \<and> length (vtmr_int_enabled S) = (n + 7) div 8
     \<and> length (vtmr_int_flag S) = (n + 7) div 8)"

named_theorems flag_simps "the bit maps as sets of timers"

lemma tmr_msk_bit: "bit (tmr_msk i) n \<longleftrightarrow> n = i mod 8"
  by (auto simp: tmr_msk_def bit_simps)

lemma flag_test_bit: "flag_test i fs \<longleftrightarrow> bit (fs ! (i div 8)) (i mod 8)"
proof -
  have "fs ! (i div 8) AND tmr_msk i \<noteq> 0 \<longleftrightarrow> (\<exists>n. bit (fs ! (i div 8) AND tmr_msk i) n)"
    by (metis bit_0_eq bit_eqI bot_apply bot_bool_def)
  then show ?thesis by (simp add: flag_test_def bit_and_iff tmr_msk_bit)
qed

lemma same_flag: "i div 8 = j div 8 \<Longrightarrow> i mod 8 = j mod 8 \<Longrightarrow> i = (j :: nat)"
  by (metis div_mult_mod_eq)

lemma flag_byte: "i < 8 * n \<Longrightarrow> i div 8 < (n :: nat)"
  by linarith

lemma flag_test_set [flag_simps]:
  assumes "i < 8 * length fs" shows "flag_test j (flag_set i fs) \<longleftrightarrow> j = i \<or> flag_test j fs"
proof (cases "j div 8 = i div 8")
  case True
  then show ?thesis
    using flag_byte [OF assms] same_flag [of j i] by (auto simp: flag_test_bit flag_set_def bit_or_iff tmr_msk_bit)
next
  case False
  then show ?thesis by (auto simp: flag_test_bit flag_set_def)
qed

lemma flag_test_clear [flag_simps]:
  assumes "i < 8 * length fs" shows "flag_test j (flag_clear i fs) \<longleftrightarrow> j \<noteq> i \<and> flag_test j fs"
proof (cases "j div 8 = i div 8")
  case True
  have "j mod 8 < 8" by simp
  with True show ?thesis
    using flag_byte [OF assms] same_flag [of j i]
    by (auto simp: flag_test_bit flag_clear_def bit_and_iff bit_not_iff tmr_msk_bit)
next
  case False
  then show ?thesis by (auto simp: flag_test_bit flag_clear_def)
qed

lemma flag_lengths [simp]: "length (flag_set i fs) = length fs" "length (flag_clear i fs) = length fs"
  by (simp_all add: flag_set_def flag_clear_def)

lemma map_bytes: "i < n \<Longrightarrow> i < 8 * ((n + 7) div (8 :: nat))"
  by linarith

text \<open>The queue after timer \<open>i\<close> has fired or not.\<close>

definition queue_match :: "vtmr_cfg \<Rightarrow> vtmr_st \<Rightarrow> nat \<Rightarrow> int_st \<Rightarrow> int_st" where
  "queue_match cf S i q =
     (if timer_fires (timer_view i S)
      then snd (elua_int_add (tmr_ints cf) (tmr_lua_up cf) (INT_TMR_MATCH cf) (of_nat (i + VTMR_FIRST_ID)) q)
      else q)"

lemma vtmr_step_view:
  assumes "vtmr_wf cf S" "i < VTMR_NUM_TIMERS cf"
  shows "vtmr_wf cf (vtmr_step cf i S)" (is ?wf)
    and "timer_view j (vtmr_step cf i S) = (if j = i then tick_timer (timer_view i S) else timer_view j S)" (is ?view)
    and "vtmr_reset_idx (vtmr_step cf i S) = vtmr_reset_idx S" (is ?idx)
    and "vtmr_queue (vtmr_step cf i S) = queue_match cf S i (vtmr_queue S)" (is ?queue)
proof -
  have len: "i < length (vtmr_counters S)" "i < 8 * length (vtmr_int_flag S)" "i < 8 * length (vtmr_int_enabled S)"
    using assms map_bytes [OF assms(2)] by (simp_all add: vtmr_wf_def Let_def)
  show ?wf ?idx ?queue
    using assms len by (simp_all add: vtmr_wf_def vtmr_step_def vtmr_match_def timer_view_def queue_match_def Let_def)
  show ?view
  proof (cases "vtmr_period_limit S ! i \<le> vtmr_counters S ! i + 1")
    case True
    then show ?thesis
      using len by (simp add: vtmr_step_def vtmr_match_def timer_view_def Let_def flag_simps)
  next
    case False
    then show ?thesis using len by (simp add: vtmr_step_def timer_view_def)
  qed
qed

lemma vtmr_steps_view:
  assumes "vtmr_wf cf S" "k \<le> VTMR_NUM_TIMERS cf"
  shows "vtmr_wf cf (fold (vtmr_step cf) [0..<k] S)
    \<and> (\<forall>j. timer_view j (fold (vtmr_step cf) [0..<k] S) = (if j < k then tick_timer (timer_view j S) else timer_view j S))
    \<and> vtmr_reset_idx (fold (vtmr_step cf) [0..<k] S) = vtmr_reset_idx S
    \<and> vtmr_queue (fold (vtmr_step cf) [0..<k] S) = fold (queue_match cf S) [0..<k] (vtmr_queue S)"
  using assms(2)
proof (induction k)
  case 0
  with assms show ?case by simp
next
  case (Suc k)
  let ?T = "fold (vtmr_step cf) [0..<k] S"
  from Suc have T: "vtmr_wf cf ?T" "k < VTMR_NUM_TIMERS cf" "timer_view k ?T = timer_view k S" by simp_all
  then have "queue_match cf ?T k = queue_match cf S k" by (simp add: queue_match_def fun_eq_iff)
  with Suc vtmr_step_view [OF T(1,2)] T(3) show ?case
    by (auto simp: less_Suc_eq)
qed

lemma cb_view:
  assumes "vtmr_wf cf S" "vtmr_reset_idx S = -1"
  shows "vtmr_wf cf (cmn_virtual_timer_cb cf S)" "vtmr_reset_idx (cmn_virtual_timer_cb cf S) = -1"
    and "j < VTMR_NUM_TIMERS cf \<Longrightarrow> timer_view j (cmn_virtual_timer_cb cf S) = tick_timer (timer_view j S)"
  using assms vtmr_steps_view [OF assms(1) order_refl] by (simp_all add: cmn_virtual_timer_cb_def Let_def)

lemma ticks_view:
  assumes "vtmr_wf cf S" "vtmr_reset_idx S = -1" "j < VTMR_NUM_TIMERS cf"
  shows "vtmr_wf cf ((cmn_virtual_timer_cb cf ^^ k) S) \<and> vtmr_reset_idx ((cmn_virtual_timer_cb cf ^^ k) S) = -1
    \<and> timer_view j ((cmn_virtual_timer_cb cf ^^ k) S) = (tick_timer ^^ k) (timer_view j S)"
proof (induction k)
  case (Suc k)
  then show ?case using assms(3) by (simp add: cb_view)
qed (use assms in simp)

text \<open>A reset request is served by the next tick.\<close>

fun reset_view :: "timer_view \<Rightarrow> timer_view" where
  "reset_view (c, l, periodic, enabled, flag) = (0, l, periodic, enabled, flag)"

lemma reset_timer_view:
  assumes "vtmr_wf cf S" "i < VTMR_NUM_TIMERS cf"
  shows "\<exists>T. vtmr_reset_timer cf (i + VTMR_FIRST_ID) S = Some T \<and> vtmr_wf cf T \<and> vtmr_reset_idx T = -1
    \<and> (\<forall>j < VTMR_NUM_TIMERS cf. timer_view j T =
        (if j = i then reset_view (tick_timer (timer_view j S)) else tick_timer (timer_view j S)))"
proof -
  define S1 where "S1 = S\<lparr> vtmr_reset_idx := of_nat i \<rparr>"
  define F where "F = fold (vtmr_step cf) [0..<VTMR_NUM_TIMERS cf] S1"
  define T where "T = F\<lparr> vtmr_counters := (vtmr_counters F)[i := 0], vtmr_reset_idx := -1 \<rparr>"
  have "i < 127" using assms by (simp add: vtmr_wf_def Let_def)
  then have ui: "unat (of_nat i :: 8 word) = i" by (simp add: unat_of_nat_small)
  moreover have "unat (-1 :: 8 word) = 255" by (simp add: unsigned_minus_1_eq_mask mask_eq_exp_minus_1)
  ultimately have ne: "(of_nat i :: 8 word) \<noteq> -1" using \<open>i < 127\<close> by force
  have wf1: "vtmr_wf cf S1" using assms by (simp add: S1_def vtmr_wf_def Let_def)
  have F: "vtmr_wf cf F" "\<And>j. timer_view j F = (if j < VTMR_NUM_TIMERS cf then tick_timer (timer_view j S1) else timer_view j S1)"
    "vtmr_reset_idx F = of_nat i"
    using vtmr_steps_view [OF wf1 order_refl] by (simp_all add: F_def S1_def)
  have "cmn_virtual_timer_cb cf S1 = T"
    using F ne ui by (simp add: cmn_virtual_timer_cb_def F_def [symmetric] T_def Let_def)
  moreover have "vtmr_wait_reset cf T = Some T" by (subst vtmr_wait_reset.simps) (simp add: T_def)
  ultimately have "vtmr_reset_timer cf (i + VTMR_FIRST_ID) S = Some T"
    using ne by (simp add: vtmr_reset_timer_def VTMR_GET_ID_def S1_def [symmetric])
      (subst vtmr_wait_reset.simps, simp add: S1_def)
  moreover have "vtmr_wf cf T" "vtmr_reset_idx T = -1" using F by (simp_all add: T_def vtmr_wf_def Let_def)
  moreover have "timer_view j T = (if j = i then reset_view (tick_timer (timer_view j S)) else tick_timer (timer_view j S))"
    if "j < VTMR_NUM_TIMERS cf" for j
  proof -
    have "timer_view j S1 = timer_view j S" by (simp add: S1_def timer_view_def)
    then have jF: "timer_view j F = tick_timer (timer_view j S)" using F that by simp
    have "timer_view j T = (if j = i then reset_view (timer_view j F) else timer_view j F)"
      using F(1) assms(2) by (simp add: T_def timer_view_def vtmr_wf_def Let_def)
    with jF show ?thesis by (cases "j = i") simp_all
  qed
  ultimately show ?thesis by blast
qed

section \<open>Match interrupts\<close>

lemma tick_cyclic:
  assumes "0 < unat l"
  shows "\<exists>f. (tick_timer ^^ k) (0, l, True, True, f0) = (of_nat (k mod unat l), l, True, True, f)"
proof (induction k)
  case 0
  show ?case by simp
next
  case (Suc k)
  then obtain f where IH: "(tick_timer ^^ k) (0, l, True, True, f0) = (of_nat (k mod unat l), l, True, True, f)" by blast
  have lt: "k mod unat l < unat l" using assms by simp
  then have c: "unat (of_nat (k mod unat l) + 1 :: u32) = (k mod unat l + 1) mod 2 ^ 32"
    using unat_u32_less [of l] by (simp add: unat_word_ariths unat_of_nat_small del: unat_u32_less)
  have small: "k mod unat l + 1 < 2 ^ 32" using lt unat_u32_less [of l] by (simp del: unat_u32_less)
  with c have c: "unat (of_nat (k mod unat l) + 1 :: u32) = k mod unat l + 1" by simp
  show ?case
  proof (cases "k mod unat l + 1 = unat l")
    case True
    then have "Suc k mod unat l = 0" by (simp add: mod_Suc)
    moreover have "l \<le> of_nat (k mod unat l) + 1" using c True by (simp add: word_le_nat_alt)
    ultimately show ?thesis by (auto simp: IH)
  next
    case False
    then have "Suc k mod unat l = Suc (k mod unat l)" by (simp add: mod_Suc)
    moreover have "\<not> l \<le> of_nat (k mod unat l) + 1" using c False lt by (simp add: word_le_nat_alt)
    ultimately show ?thesis by (simp add: IH add.commute)
  qed
qed

lemma fires_cyclic:
  assumes "0 < unat l"
  shows "timer_fires ((tick_timer ^^ k) (0, l, True, True, f0)) \<longleftrightarrow> unat l dvd Suc k"
proof -
  obtain f where v: "(tick_timer ^^ k) (0, l, True, True, f0) = (of_nat (k mod unat l), l, True, True, f)"
    using tick_cyclic [OF assms] by blast
  have lt: "k mod unat l < unat l" using assms by simp
  have "unat (of_nat (k mod unat l) + 1 :: u32) = k mod unat l + 1 \<or> unat (of_nat (k mod unat l) + 1 :: u32) = 0 \<and> False"
    using lt unat_u32_less [of l] by (simp add: unat_word_ariths unat_of_nat_small del: unat_u32_less)
  then have "l \<le> of_nat (k mod unat l) + 1 \<longleftrightarrow> unat l \<le> k mod unat l + 1" by (simp add: word_le_nat_alt)
  also have "\<dots> \<longleftrightarrow> unat l dvd Suc k"
    using lt by (auto simp: dvd_eq_mod_eq_0 mod_Suc)
  finally show ?thesis by (simp add: v)
qed

lemma tick_oneshot:
  assumes "0 < unat l"
  shows "(k < unat l \<longrightarrow> (\<exists>f. (tick_timer ^^ k) (0, l, False, True, f0) = (of_nat k, l, False, True, f)))
    \<and> (unat l \<le> k \<longrightarrow> (\<exists>c f. (tick_timer ^^ k) (0, l, False, True, f0) = (c, l, False, False, f)))"
proof (induction k)
  case 0
  with assms show ?case by simp
next
  case (Suc k)
  show ?case
  proof (cases "k < unat l")
    case True
    then obtain f where IH: "(tick_timer ^^ k) (0, l, False, True, f0) = (of_nat k, l, False, True, f)" using Suc by blast
    have c: "unat (of_nat k + 1 :: u32) = Suc k"
      using True unat_u32_less [of l] by (simp add: unat_word_ariths unat_of_nat_small del: unat_u32_less)
    then have "l \<le> of_nat k + 1 \<longleftrightarrow> unat l \<le> Suc k" by (simp add: word_le_nat_alt)
    then show ?thesis by (auto simp: IH add.commute)
  next
    case False
    then obtain c f where "(tick_timer ^^ k) (0, l, False, True, f0) = (c, l, False, False, f)" using Suc by auto
    with False show ?thesis by auto
  qed
qed

lemma fires_oneshot:
  assumes "0 < unat l"
  shows "timer_fires ((tick_timer ^^ k) (0, l, False, True, f0)) \<longleftrightarrow> Suc k = unat l"
proof (cases "k < unat l")
  case True
  then obtain f where v: "(tick_timer ^^ k) (0, l, False, True, f0) = (of_nat k, l, False, True, f)"
    using tick_oneshot [OF assms] by blast
  have c: "unat (of_nat k + 1 :: u32) = Suc k"
    using True unat_u32_less [of l] by (simp add: unat_word_ariths unat_of_nat_small del: unat_u32_less)
  with True show ?thesis by (auto simp: v word_le_nat_alt)
next
  case False
  then obtain c f where "(tick_timer ^^ k) (0, l, False, True, f0) = (c, l, False, False, f)"
    using tick_oneshot [OF assms, of k f0] by auto
  with False show ?thesis by auto
qed

text \<open>The state in which \<open>vtmr_set_match_int\<close> leaves its timer.\<close>

lemma set_match_view:
  assumes "vtmr_wf cf S" "i < VTMR_NUM_TIMERS cf" "period \<noteq> 0" "vtmr_ticks cf period \<noteq> 0"
  shows "\<exists>T. vtmr_set_match_int cf (i + VTMR_FIRST_ID) period type S = Some (PLATFORM_TIMER_INT_OK, T)
    \<and> vtmr_wf cf T \<and> vtmr_reset_idx T = -1
    \<and> timer_view i T = (0, vtmr_ticks cf period, type = PLATFORM_TIMER_INT_CYCLIC, True,
        vtmr_ticks cf period \<le> vtmr_counters S ! i + 1)"
proof -
  define S1 where "S1 = S\<lparr> vtmr_period_limit := (vtmr_period_limit S)[i := vtmr_ticks cf period],
               vtmr_int_periodic_flag := (if type = PLATFORM_TIMER_INT_ONESHOT
                 then flag_clear i (vtmr_int_periodic_flag S) else flag_set i (vtmr_int_periodic_flag S)),
               vtmr_int_flag := flag_clear i (vtmr_int_flag S) \<rparr>"
  have wf1: "vtmr_wf cf S1" using assms by (simp add: S1_def vtmr_wf_def Let_def)
  from reset_timer_view [OF wf1 assms(2)] obtain T where T: "vtmr_reset_timer cf (i + VTMR_FIRST_ID) S1 = Some T"
    "vtmr_wf cf T" "vtmr_reset_idx T = -1" "timer_view i T = reset_view (tick_timer (timer_view i S1))"
    using assms(2) by auto
  have bytes: "i < 8 * length (vtmr_int_periodic_flag S)" "i < 8 * length (vtmr_int_flag S)" "i < 8 * length (vtmr_int_enabled T)"
    using assms(1,2) T(2) map_bytes [OF assms(2)] by (simp_all add: vtmr_wf_def Let_def)
  obtain e where v1: "timer_view i S1 = (vtmr_counters S ! i, vtmr_ticks cf period, type = PLATFORM_TIMER_INT_CYCLIC, e, False)"
    using assms(1,2) bytes by (cases type) (simp_all add: S1_def timer_view_def vtmr_wf_def Let_def flag_simps)
  then obtain e' where v2: "timer_view i T = (0, vtmr_ticks cf period, type = PLATFORM_TIMER_INT_CYCLIC, e',
      vtmr_ticks cf period \<le> vtmr_counters S ! i + 1)"
    using T(4) by (cases "vtmr_ticks cf period \<le> vtmr_counters S ! i + 1"; cases type) auto
  define U where "U = T\<lparr> vtmr_int_enabled := flag_set i (vtmr_int_enabled T) \<rparr>"
  have "vtmr_set_match_int cf (i + VTMR_FIRST_ID) period type S = Some (PLATFORM_TIMER_INT_OK, U)"
    using assms(3,4) T(1) by (simp add: vtmr_set_match_int_def VTMR_GET_ID_def S1_def [symmetric] U_def Let_def)
  moreover have "vtmr_wf cf U" "vtmr_reset_idx U = -1" using T by (simp_all add: U_def vtmr_wf_def Let_def)
  moreover have "timer_view i U = (0, vtmr_ticks cf period, type = PLATFORM_TIMER_INT_CYCLIC, True,
      vtmr_ticks cf period \<le> vtmr_counters S ! i + 1)"
    using v2 bytes(3) by (simp add: U_def timer_view_def flag_simps)
  ultimately show ?thesis by blast
qed

lemma ticks_pos: "vtmr_ticks cf p \<noteq> 0 \<Longrightarrow> 0 < unat (vtmr_ticks cf p)"
  by (simp add: unat_gt_0)

section \<open>Properties\<close>

text \<open>
  C30: a tick queues match interrupts for exactly the timers that reach their limit with their
  interrupt enabled, in ascending order of the timers.
\<close>

theorem tick_queues_matching_timers:
  assumes "vtmr_wf cf S"
  shows "vtmr_queue (cmn_virtual_timer_cb cf S)
    = fold (\<lambda>i q. if timer_fires (timer_view i S)
         then snd (elua_int_add (tmr_ints cf) (tmr_lua_up cf) (INT_TMR_MATCH cf) (of_nat (i + VTMR_FIRST_ID)) q)
         else q) [0..<VTMR_NUM_TIMERS cf] (vtmr_queue S)"
proof -
  have "vtmr_queue (fold (vtmr_step cf) [0..<VTMR_NUM_TIMERS cf] S)
      = fold (queue_match cf S) [0..<VTMR_NUM_TIMERS cf] (vtmr_queue S)"
    using vtmr_steps_view [OF assms order_refl] by blast
  moreover have "queue_match cf S = (\<lambda>i q. if timer_fires (timer_view i S)
         then snd (elua_int_add (tmr_ints cf) (tmr_lua_up cf) (INT_TMR_MATCH cf) (of_nat (i + VTMR_FIRST_ID)) q)
         else q)" by (simp add: fun_eq_iff queue_match_def)
  ultimately show ?thesis by (simp add: cmn_virtual_timer_cb_def Let_def)
qed

definition sample_vtmr_cfg :: vtmr_cfg where
  "sample_vtmr_cfg = \<lparr> VTMR_NUM_TIMERS = 2, VTMR_FREQ_HZ = 4, INT_TMR_MATCH = 1, tmr_ints = sample_int_cfg,
     tmr_lua_up = True \<rparr>"

definition sample_vtmr :: vtmr_st where
  "sample_vtmr = \<lparr> vtmr_counters = [9, 9], vtmr_reset_idx = -1, vtmr_period_limit = [10, 50],
     vtmr_int_periodic_flag = [0], vtmr_int_enabled = [3], vtmr_int_flag = [0], vtmr_queue = sample_int \<rparr>"

lemma sample_vtmr_wf: "vtmr_wf sample_vtmr_cfg sample_vtmr"
  by (simp add: vtmr_wf_def sample_vtmr_cfg_def sample_vtmr_def)

theorem tick_queues_matching_timers_witness:
  "int_elems (vtmr_queue (cmn_virtual_timer_cb sample_vtmr_cfg sample_vtmr)) = [(1, 32)]"
proof -
  have fires: "timer_fires (timer_view 0 sample_vtmr)" "\<not> timer_fires (timer_view 1 sample_vtmr)"
    by (simp_all add: timer_view_def sample_vtmr_def flag_test_def tmr_msk_def)
  have "vtmr_queue (cmn_virtual_timer_cb sample_vtmr_cfg sample_vtmr)
      = int_put sample_int_cfg sample_int (1, 32)"
    using tick_queues_matching_timers [OF sample_vtmr_wf] fires
    by (simp add: sample_vtmr_cfg_def upt_rec numeral_2_eq_2 VTMR_FIRST_ID_def int_put_def)
      (simp add: sample_vtmr_def)
  moreover have "int_accepts sample_int_cfg sample_int (1, 32)"
    by (simp add: int_accepts_def sample_int_cfg_def sample_int_def ELUA_INT_FIRST_ID_def
        elua_int_is_enabled_def int_word_def int_bit_def LUA_INT_MAX_SOURCES_def)
  ultimately show ?thesis
    using int_put_elems [of sample_int_cfg sample_int "(1, 32)"] sample_int_elems by (simp add: sample_int_cfg_def)
qed

text \<open>
  C31: a match interrupt set on a virtual timer comes when it should. \<open>vtmr_set_match_int\<close>
  returns (after one tick); from then on a cyclic interrupt is raised by every tick whose number
  is a multiple of the period in ticks and by no other, a one-shot interrupt by exactly one tick,
  the one that completes the period. The other timers and their interrupts play no role.
\<close>

theorem match_interrupt_schedule:
  assumes "vtmr_wf cf S" "i < VTMR_NUM_TIMERS cf" "period \<noteq> 0" "vtmr_ticks cf period \<noteq> 0"
  shows "\<exists>T. vtmr_set_match_int cf (i + VTMR_FIRST_ID) period type S = Some (PLATFORM_TIMER_INT_OK, T)
    \<and> (\<forall>k. timer_fires (timer_view i ((cmn_virtual_timer_cb cf ^^ k) T)) \<longleftrightarrow>
        (if type = PLATFORM_TIMER_INT_CYCLIC then unat (vtmr_ticks cf period) dvd Suc k
         else Suc k = unat (vtmr_ticks cf period)))"
proof -
  from set_match_view [OF assms, of type] obtain T where
    T: "vtmr_set_match_int cf (i + VTMR_FIRST_ID) period type S = Some (PLATFORM_TIMER_INT_OK, T)"
    "vtmr_wf cf T" "vtmr_reset_idx T = -1"
    "timer_view i T = (0, vtmr_ticks cf period, type = PLATFORM_TIMER_INT_CYCLIC, True,
        vtmr_ticks cf period \<le> vtmr_counters S ! i + 1)" by blast
  have "timer_view i ((cmn_virtual_timer_cb cf ^^ k) T) = (tick_timer ^^ k) (timer_view i T)" for k
    using ticks_view [OF T(2,3) assms(2)] by blast
  then show ?thesis
    using T(1,4) ticks_pos [OF assms(4)] by (cases type) (simp_all add: fires_cyclic fires_oneshot)
qed

lemma sample_ticks: "vtmr_ticks sample_vtmr_cfg 750000 = 3"
  by (simp add: vtmr_ticks_def sample_vtmr_cfg_def)

theorem match_interrupt_schedule_witness:
  "\<exists>T. vtmr_set_match_int sample_vtmr_cfg 33 750000 PLATFORM_TIMER_INT_CYCLIC sample_vtmr = Some (PLATFORM_TIMER_INT_OK, T)
    \<and> timer_fires (timer_view 1 ((cmn_virtual_timer_cb sample_vtmr_cfg ^^ 5) T))
    \<and> \<not> timer_fires (timer_view 1 ((cmn_virtual_timer_cb sample_vtmr_cfg ^^ 6) T))"
proof -
  have "1 < VTMR_NUM_TIMERS sample_vtmr_cfg" by (simp add: sample_vtmr_cfg_def)
  from match_interrupt_schedule [OF sample_vtmr_wf this, of 750000 PLATFORM_TIMER_INT_CYCLIC]
  obtain T where T: "vtmr_set_match_int sample_vtmr_cfg 33 750000 PLATFORM_TIMER_INT_CYCLIC sample_vtmr = Some (PLATFORM_TIMER_INT_OK, T)"
    and f: "\<And>k. timer_fires (timer_view 1 ((cmn_virtual_timer_cb sample_vtmr_cfg ^^ k) T)) \<longleftrightarrow> 3 dvd Suc k"
    by (auto simp: sample_ticks VTMR_FIRST_ID_def)
  from f [of 5] f [of 6] T show ?thesis by auto
qed

text \<open>
  the flag can be raised before the period has begun. \<open>vtmr_set_match_int\<close> clears the
  match flag of the timer and only then waits for the tick that resets the counter; that tick
  still compares the old counter with the new limit, so the flag that the call leaves behind is
  set exactly when the old counter was already there.
\<close>

lemma match_flag_stale_after_set:
  assumes "vtmr_wf cf S" "i < VTMR_NUM_TIMERS cf" "period \<noteq> 0" "vtmr_ticks cf period \<noteq> 0"
  shows "\<exists>T. vtmr_set_match_int cf (i + VTMR_FIRST_ID) period type S = Some (PLATFORM_TIMER_INT_OK, T)
    \<and> vtmr_counters T ! i = 0
    \<and> (fst (vtmr_int_get_flag (i + VTMR_FIRST_ID) clear T) \<longleftrightarrow> vtmr_ticks cf period \<le> vtmr_counters S ! i + 1)"
  using set_match_view [OF assms, of type]
  by (auto simp: timer_view_def vtmr_int_get_flag_def VTMR_GET_ID_def)

theorem match_flag_stale_after_set_witness:
  "\<exists>T. vtmr_set_match_int sample_vtmr_cfg 33 750000 PLATFORM_TIMER_INT_ONESHOT sample_vtmr = Some (PLATFORM_TIMER_INT_OK, T)
    \<and> vtmr_counters T ! 1 = 0 \<and> fst (vtmr_int_get_flag 33 False T)"
proof -
  have "1 < VTMR_NUM_TIMERS sample_vtmr_cfg" by (simp add: sample_vtmr_cfg_def)
  from match_flag_stale_after_set [OF sample_vtmr_wf this, of 750000 PLATFORM_TIMER_INT_ONESHOT False]
  show ?thesis by (simp add: sample_ticks VTMR_FIRST_ID_def) (simp add: sample_vtmr_def)
qed

section \<open>Delays\<close>

definition delay_blocked :: "u32 \<Rightarrow> timer_view \<Rightarrow> bool" where
  "delay_blocked final = (\<lambda>(c, l, periodic, enabled, flag). periodic \<and> l \<le> final \<and> 0 < final \<and> c < final)"

lemma word_Suc_le: "c < (m :: u32) \<Longrightarrow> c + 1 \<le> m"
  by (rule inc_le)

lemma unat_Suc_less: "c < (m :: u32) \<Longrightarrow> unat (c + 1) = Suc (unat c)"
  using unat_u32_less [of m] by (simp add: unat_word_ariths word_less_nat_alt del: unat_u32_less)

lemma delay_blocked_tick: "delay_blocked final v \<Longrightarrow> delay_blocked final (tick_timer v)"
proof (cases v)
  case (fields c l p e f)
  assume b: "delay_blocked final v"
  show ?thesis
  proof (cases "l \<le> c + 1")
    case False
    then have "c + 1 < final" using b fields by (auto simp: delay_blocked_def)
    with b fields False show ?thesis by (simp add: delay_blocked_def)
  qed (use b fields in \<open>simp add: delay_blocked_def\<close>)
qed

lemma wait_count_blocked:
  assumes "vtmr_wait_count cf i final S = Some T"
  shows "vtmr_wf cf S \<Longrightarrow> vtmr_reset_idx S = -1 \<Longrightarrow> i < VTMR_NUM_TIMERS cf \<Longrightarrow> \<not> delay_blocked final (timer_view i S)"
proof (induction rule: vtmr_wait_count.raw_induct [OF _ assms])
  case (1 g cf i final S T)
  show ?case
  proof
    assume b: "delay_blocked final (timer_view i S)"
    then have "vtmr_counters S ! i < final" by (simp add: delay_blocked_def timer_view_def)
    with 1 have "g cf i final (cmn_virtual_timer_cb cf S) = Some T" by simp
    with 1 cb_view [OF 1(3,4)] have "\<not> delay_blocked final (timer_view i (cmn_virtual_timer_cb cf S))" by blast
    with cb_view(3) [OF 1(3,4), of i] 1(5) b delay_blocked_tick show False by simp
  qed
qed

lemma wait_count_returns:
  assumes "vtmr_wf cf S" "vtmr_reset_idx S = -1" "i < VTMR_NUM_TIMERS cf" "timer_view i S = (c, l, p, e, f)"
    and "c \<le> final" "\<not> p \<or> final < l"
  shows "\<exists>T. vtmr_wait_count cf i final S = Some T \<and> vtmr_counters T ! i = final"
  using assms
proof (induction "unat final - unat c" arbitrary: S c e f)
  case 0
  then have "c = final" by (simp add: word_le_nat_alt word_unat_eq_iff)
  with 0 show ?case by (subst vtmr_wait_count.simps) (simp add: timer_view_def)
next
  case (Suc n)
  let ?S = "cmn_virtual_timer_cb cf S"
  have c: "c < final" "vtmr_counters S ! i = c" using Suc.hyps(2) Suc.prems(4) by (simp_all add: word_less_nat_alt timer_view_def)
  have n: "n = unat final - unat (c + 1)" using Suc.hyps(2) unat_Suc_less [OF c(1)] by simp
  have "p \<longrightarrow> \<not> l \<le> c + 1" using Suc.prems(6) word_Suc_le [OF c(1)] by auto
  then obtain e' f' where v: "timer_view i ?S = (c + 1, l, p, e', f')"
    using cb_view(3) [OF Suc.prems(1,2,3)] Suc.prems(4) by (cases "l \<le> c + 1"; cases p) auto
  have "\<exists>T. vtmr_wait_count cf i final ?S = Some T \<and> vtmr_counters T ! i = final"
    by (rule Suc.hyps(1) [OF n _ _ Suc.prems(3) v word_Suc_le [OF c(1)] Suc.prems(6)])
      (use cb_view Suc.prems in auto)
  then show ?case by (subst vtmr_wait_count.simps) (simp add: c)
qed

text \<open>
  when a delay on a virtual timer ends. \<open>vtmr_delay\<close> returns, with the counter exactly at
  the requested number of ticks, unless the timer has a cyclic match period of no more than that
  many ticks: then every match resets the counter, the delay is never reached and the call does
  not return, whether or not the match interrupt is enabled.
\<close>

lemma delay_returns_iff:
  assumes "vtmr_wf cf S" "i < VTMR_NUM_TIMERS cf"
    and "final = vtmr_ticks cf delay_us"
    and "stuck \<longleftrightarrow> flag_test i (vtmr_int_periodic_flag S) \<and> vtmr_period_limit S ! i \<le> final \<and> 0 < final"
  shows "if stuck then vtmr_delay cf (i + VTMR_FIRST_ID) delay_us S = None
    else \<exists>T. vtmr_delay cf (i + VTMR_FIRST_ID) delay_us S = Some T \<and> vtmr_counters T ! i = final"
proof -
  from reset_timer_view [OF assms(1,2)] obtain T where T: "vtmr_reset_timer cf (i + VTMR_FIRST_ID) S = Some T"
    "vtmr_wf cf T" "vtmr_reset_idx T = -1" "timer_view i T = reset_view (tick_timer (timer_view i S))"
    using assms(2) by auto
  obtain e f where v: "timer_view i T = (0, vtmr_period_limit S ! i, flag_test i (vtmr_int_periodic_flag S), e, f)"
    using T(4) by (simp add: timer_view_def split: if_splits)
  have d: "vtmr_delay cf (i + VTMR_FIRST_ID) delay_us S = vtmr_wait_count cf i final T"
    by (simp add: vtmr_delay_def T(1) assms(3) VTMR_GET_ID_def)
  show ?thesis
  proof (cases stuck)
    case True
    then have "delay_blocked final (timer_view i T)" using assms(4) v by (simp add: delay_blocked_def)
    with wait_count_blocked [OF _ T(2,3) assms(2)] True show ?thesis
      by (cases "vtmr_wait_count cf i final T") (auto simp: d)
  next
    case False
    show ?thesis
    proof (cases "final = 0")
      case True
      then have "vtmr_wait_count cf i final T = Some T" by (subst vtmr_wait_count.simps) simp
      moreover have "vtmr_counters T ! i = 0" using v by (simp add: timer_view_def)
      ultimately show ?thesis using False True by (simp add: d)
    next
      case nz: False
      have "\<not> flag_test i (vtmr_int_periodic_flag S) \<or> final < vtmr_period_limit S ! i"
        using False assms(4) nz by (auto simp: word_gt_0 not_le)
      with wait_count_returns [OF T(2,3) assms(2) v, of final] False show ?thesis by (simp add: d)
    qed
  qed
qed

theorem delay_returns_iff_witness:
  "(\<exists>T. vtmr_delay sample_vtmr_cfg 33 750000 sample_vtmr = Some T \<and> vtmr_counters T ! 1 = 3)
    \<and> vtmr_delay sample_vtmr_cfg 33 750000
        (sample_vtmr\<lparr> vtmr_int_periodic_flag := [2], vtmr_period_limit := [10, 2] \<rparr>) = None"
proof -
  have i: "1 < VTMR_NUM_TIMERS sample_vtmr_cfg" by (simp add: sample_vtmr_cfg_def)
  let ?S = "sample_vtmr\<lparr> vtmr_int_periodic_flag := [2], vtmr_period_limit := [10, 2] \<rparr>"
  have "vtmr_wf sample_vtmr_cfg ?S" by (simp add: vtmr_wf_def sample_vtmr_cfg_def sample_vtmr_def)
  from delay_returns_iff [OF this i refl, of True 750000]
  have "vtmr_delay sample_vtmr_cfg 33 750000 ?S = None"
    by (simp add: sample_ticks VTMR_FIRST_ID_def flag_test_def tmr_msk_def)
  moreover from delay_returns_iff [OF sample_vtmr_wf i refl, of False 750000]
  have "\<exists>T. vtmr_delay sample_vtmr_cfg 33 750000 sample_vtmr = Some T \<and> vtmr_counters T ! 1 = 3"
    by (simp add: sample_ticks VTMR_FIRST_ID_def) (simp add: sample_vtmr_def flag_test_def tmr_msk_def)
  ultimately show ?thesis by blast
qed

text \<open>
  time differences. For any timer, virtual or physical, whose clock is \<open>freq\<close>, the
  difference of two readings does not depend on their order and is the time between them in
  microseconds, rounded down, modulo \<open>2 ^ 32\<close>: the 64-bit product does not overflow.
\<close>

lemma timer_diff_in_us:
  assumes "platform_timer_op cf s_op n PLATFORM_TIMER_OP_GET_CLOCK 0 S = Some (freq, S)" "0 < freq"
  shows "\<exists>r. platform_timer_get_diff_us cf s_op n a b S = Some (r, S)
    \<and> platform_timer_get_diff_us cf s_op n b a S = Some (r, S)
    \<and> unat r = (max (unat a) (unat b) - min (unat a) (unat b)) * 1000000 div unat freq mod 2 ^ 32"
proof -
  define d where "d = (if b < a then a - b else b - a)"
  have d: "unat d = (max (unat a) (unat b) - min (unat a) (unat b))"
    by (auto simp: d_def max_def min_def unat_sub word_le_nat_alt word_less_nat_alt)
  define r where "r = (ucast ((ucast d * 1000000 :: 64 word) div ucast freq) :: u32)"
  have "unat (ucast d * 1000000 :: 64 word) = unat d * 1000000"
    using unat_u32_less [of d] by (simp add: unat_word_ariths unat_ucast_up del: unat_u32_less)
  moreover have "unat freq mod 18446744073709551616 = unat freq"
    using unat_u32_less [of freq] by (simp del: unat_u32_less)
  ultimately have "unat r = unat d * 1000000 div unat freq mod 2 ^ 32"
    by (simp add: r_def unsigned_ucast_eq unat_div unat_ucast_up take_bit_eq_mod)
  moreover have "platform_timer_get_diff_us cf s_op n a b S = Some (r, S)"
    "platform_timer_get_diff_us cf s_op n b a S = Some (r, S)"
    using assms(1) by (auto simp: r_def d_def simp del: platform_timer_op.simps)
  ultimately show ?thesis by (simp add: d)
qed

theorem timer_diff_in_us_witness:
  "\<exists>r. platform_timer_get_diff_us sample_vtmr_cfg (\<lambda>_ _ _. 0) 32 7 10 sample_vtmr = Some (r, sample_vtmr) \<and> unat r = 750000"
proof -
  have "platform_timer_op sample_vtmr_cfg (\<lambda>_ _ _. 0) 32 PLATFORM_TIMER_OP_GET_CLOCK 0 sample_vtmr = Some (4, sample_vtmr)"
    by (simp add: sample_vtmr_cfg_def TIMER_IS_VIRTUAL_def VTMR_FIRST_ID_def)
  from timer_diff_in_us [OF this, of 7 10] show ?thesis by (auto simp del: platform_timer_get_diff_us.simps)
qed

end
