(* ===== verification/Common.thy ===== *)
theory Common
  imports Adc Vtimer
begin

text \<open>
  The common platform layer, \<open>src/common.c\<close>: existence tests of the peripherals, the ADC
  operations of the Lua module, the bounds of the RAM blocks handed to the allocator, the dispatch
  of interrupt requests and \<open>intlog2\<close>. (Its terminal support is in \<open>Term\<close>.) The sizes and
  address tables of \<open>platform_conf.h\<close> are arguments.
\<close>

section \<open>Logarithm\<close>

text \<open>\<open>while( v >>= 1 ) r++\<close>.\<close>

function intlog2_loop :: "u32 \<Rightarrow> u32 \<Rightarrow> u32" where
  "intlog2_loop v r = (let v' = drop_bit 1 v in if v' \<noteq> 0 then intlog2_loop v' (r + 1) else r)"
  by auto

lemma unat_half: "unat (drop_bit 1 v :: u32) = unat v div 2"
  by (simp only: unat_drop_bit_eq) (simp add: drop_bit_eq_div)

termination intlog2_loop
proof (relation "measure (\<lambda>(v, r). unat v)")
  fix v v' :: u32 and r :: u32
  assume "v' = drop_bit 1 v" "v' \<noteq> 0"
  moreover have "unat v' \<noteq> 0" using \<open>v' \<noteq> 0\<close> by (simp add: unat_eq_0)
  ultimately have "unat v' = unat v div 2" "unat v' \<noteq> 0" using unat_half [of v] by blast+
  then have "unat v' < unat v" by linarith
  then show "((v', r + 1), (v, r)) \<in> measure (\<lambda>(v, r). unat v)" by simp
qed simp

declare intlog2_loop.simps [simp del]

definition intlog2 :: "u32 \<Rightarrow> u32" where
  "intlog2 v = intlog2_loop v 0"

section \<open>Peripherals\<close>

definition platform_pio_has_port :: "nat \<Rightarrow> nat \<Rightarrow> bool" where
  "platform_pio_has_port NUM_PIO port \<longleftrightarrow> port < NUM_PIO"

text \<open>\<open>P\<close> and the letter or digit of the port; \<open>PIO_PREFIX\<close> is \<open>'A'\<close> or \<open>'0'\<close>.\<close>

definition platform_pio_get_prefix :: "nat \<Rightarrow> nat \<Rightarrow> u8 list" where
  "platform_pio_get_prefix PIO_PREFIX port = [0x50, of_nat (port + PIO_PREFIX)]"

text \<open>The pins of each port: one number for all (\<open>PIO_PINS_PER_PORT\<close>) or a table.\<close>

datatype pio_pins = PIO_PINS_PER_PORT nat | PIO_PIN_ARRAY "nat list"

definition platform_pio_has_pin :: "nat \<Rightarrow> pio_pins \<Rightarrow> nat \<Rightarrow> nat \<Rightarrow> bool" where
  "platform_pio_has_pin NUM_PIO pins port pin \<longleftrightarrow>
     (case pins of
        PIO_PINS_PER_PORT k \<Rightarrow> port < NUM_PIO \<and> pin < k
      | PIO_PIN_ARRAY ks \<Rightarrow> port < NUM_PIO \<and> pin < ks ! port)"

definition platform_can_exists :: "nat \<Rightarrow> nat \<Rightarrow> bool" where
  "platform_can_exists NUM_CAN n \<longleftrightarrow> n < NUM_CAN"
definition platform_spi_exists :: "nat \<Rightarrow> nat \<Rightarrow> bool" where
  "platform_spi_exists NUM_SPI n \<longleftrightarrow> n < NUM_SPI"
definition platform_pwm_exists :: "nat \<Rightarrow> nat \<Rightarrow> bool" where
  "platform_pwm_exists NUM_PWM n \<longleftrightarrow> n < NUM_PWM"
definition platform_adc_exists :: "adc_cfg \<Rightarrow> nat \<Rightarrow> bool" where
  "platform_adc_exists cf n \<longleftrightarrow> n < NUM_ADC cf"
definition platform_i2c_exists :: "nat option \<Rightarrow> nat \<Rightarrow> bool" where
  "platform_i2c_exists NUM_I2C n \<longleftrightarrow> (case NUM_I2C of None \<Rightarrow> False | Some k \<Rightarrow> n < k)"

section \<open>ADC operations\<close>

datatype adc_op = PLATFORM_ADC_GET_MAXVAL | PLATFORM_ADC_SET_SMOOTHING | PLATFORM_ADC_SET_BLOCKING
  | PLATFORM_ADC_SET_FREERUNNING | PLATFORM_ADC_IS_DONE | PLATFORM_ADC_OP_SET_TIMER | PLATFORM_ADC_OP_SET_CLOCK

definition pstatus_code :: "pstatus \<Rightarrow> u32" where
  "pstatus_code st = (case st of PLATFORM_ERR \<Rightarrow> 0 | PLATFORM_OK \<Rightarrow> 1 | PLATFORM_UNDERFLOW \<Rightarrow> -1)"

text \<open>\<open>bits\<close> is \<open>ADC_BIT_RESOLUTION\<close>; \<open>fresh\<close> and \<open>rate\<close> as in \<open>Adc\<close>.\<close>

definition platform_adc_op :: "adc_cfg \<Rightarrow> nat \<Rightarrow> (nat \<Rightarrow> u16) option \<Rightarrow> (u32 \<Rightarrow> u32) \<Rightarrow> nat \<Rightarrow> adc_op \<Rightarrow> u32
    \<Rightarrow> adc_sys \<Rightarrow> u32 \<times> adc_sys" where
  "platform_adc_op cf bits fresh rate ch op data S =
     (case op of
        PLATFORM_ADC_GET_MAXVAL \<Rightarrow> (2 ^ bits - 1, S)
      | PLATFORM_ADC_SET_SMOOTHING \<Rightarrow>
          (let (st, S) = adc_update_smoothing cf fresh ch (ucast (intlog2 data)) S in (pstatus_code st, S))
      | PLATFORM_ADC_SET_BLOCKING \<Rightarrow> (0, upd_ch ch (\<lambda>s. s\<lparr> blocking := bit data 0 \<rparr>) S)
      | PLATFORM_ADC_IS_DONE \<Rightarrow> (if op_pending (adc_get_ch_state ch S) then 0 else 1, S)
      | PLATFORM_ADC_OP_SET_TIMER \<Rightarrow>
          (let S = (if timer_id (adc_dev_state S) \<noteq> data then upd_dev (\<lambda>d. d\<lparr> running := False \<rparr>) S else S);
               S = platform_adc_stop ch S
           in (0, upd_dev (\<lambda>d. d\<lparr> timer_id := data \<rparr>) S))
      | PLATFORM_ADC_OP_SET_CLOCK \<Rightarrow> platform_adc_setclock rate data S
      | PLATFORM_ADC_SET_FREERUNNING \<Rightarrow> (0, upd_ch ch (\<lambda>s. s\<lparr> freerunning := bit data 0 \<rparr>) S))"

section \<open>Memory for the allocator\<close>

definition MIN_ALIGN :: u32 where "MIN_ALIGN = 8"
definition MIN_ALIGN_SHIFT :: nat where "MIN_ALIGN_SHIFT = 3"

text \<open>\<open>mstart\<close> and \<open>mend\<close> are \<open>MEM_START_ADDRESS\<close> and \<open>MEM_END_ADDRESS\<close>.\<close>

definition platform_get_first_free_ram :: "u32 list \<Rightarrow> nat \<Rightarrow> u32" where
  "platform_get_first_free_ram mstart n =
     (if length mstart \<le> n then NULL
      else let p = mstart ! n
           in if p AND (MIN_ALIGN - 1) \<noteq> 0 then push_bit MIN_ALIGN_SHIFT (drop_bit MIN_ALIGN_SHIFT p + 1) else p)"

definition platform_get_last_free_ram :: "u32 list \<Rightarrow> nat \<Rightarrow> u32" where
  "platform_get_last_free_ram mend n =
     (if length mend \<le> n then NULL
      else let p = mend ! n
           in if p AND (MIN_ALIGN - 1) \<noteq> 0 then push_bit MIN_ALIGN_SHIFT (drop_bit MIN_ALIGN_SHIFT p - 1) else p)"

section \<open>Interrupt requests\<close>

text \<open>An entry of \<open>elua_int_table\<close>; \<open>None\<close> is a NULL function.\<close>

record int_desc =
  int_set_status :: "(nat \<Rightarrow> bool \<Rightarrow> int) option"
  int_get_status :: "(nat \<Rightarrow> int) option"
  int_get_flag :: "(nat \<Rightarrow> bool \<Rightarrow> int) option"

definition int_desc_of :: "int_desc list \<Rightarrow> u8 \<Rightarrow> int_desc" where
  "int_desc_of tbl n = tbl ! unat (n - ELUA_INT_FIRST_ID)"

definition platform_cpu_set_interrupt ::
    "vtmr_cfg \<Rightarrow> int_desc list \<Rightarrow> u8 \<Rightarrow> nat \<Rightarrow> bool \<Rightarrow> vtmr_st \<Rightarrow> int \<times> vtmr_st" where
  "platform_cpu_set_interrupt cf tbl n resnum status S =
     (if n < ELUA_INT_FIRST_ID \<or> n > int_last (tmr_ints cf) then (PLATFORM_INT_INVALID, S)
      else case int_set_status (int_desc_of tbl n) of
        None \<Rightarrow> (PLATFORM_INT_NOT_HANDLED, S)
      | Some ps \<Rightarrow>
          if n = INT_TMR_MATCH cf
          then cmn_tmr_int_set_status cf (int_set_status (int_desc_of tbl (INT_TMR_MATCH cf))) resnum status S
          else (ps resnum status, S))"

definition platform_cpu_get_interrupt ::
    "vtmr_cfg \<Rightarrow> int_desc list \<Rightarrow> u8 \<Rightarrow> nat \<Rightarrow> vtmr_st \<Rightarrow> int" where
  "platform_cpu_get_interrupt cf tbl n resnum S =
     (if n < ELUA_INT_FIRST_ID \<or> n > int_last (tmr_ints cf) then PLATFORM_INT_INVALID
      else case int_get_status (int_desc_of tbl n) of
        None \<Rightarrow> PLATFORM_INT_NOT_HANDLED
      | Some pg \<Rightarrow>
          if n = INT_TMR_MATCH cf
          then cmn_tmr_int_get_status cf (int_get_status (int_desc_of tbl (INT_TMR_MATCH cf))) resnum S
          else pg resnum)"

definition platform_cpu_get_interrupt_flag ::
    "vtmr_cfg \<Rightarrow> int_desc list \<Rightarrow> u8 \<Rightarrow> nat \<Rightarrow> bool \<Rightarrow> vtmr_st \<Rightarrow> int \<times> vtmr_st" where
  "platform_cpu_get_interrupt_flag cf tbl n resnum clear S =
     (if n < ELUA_INT_FIRST_ID \<or> n > int_last (tmr_ints cf) then (PLATFORM_INT_INVALID, S)
      else case int_get_flag (int_desc_of tbl n) of
        None \<Rightarrow> (PLATFORM_INT_NOT_HANDLED, S)
      | Some pf \<Rightarrow>
          if n = INT_TMR_MATCH cf
          then cmn_tmr_int_get_flag cf (int_get_flag (int_desc_of tbl (INT_TMR_MATCH cf))) resnum clear S
          else (pf resnum clear, S))"

text \<open>
  The common handler queues the interrupt for Lua and calls the C handler, if any; the handler's
  effect on the rest of the system \<open>'s\<close> is its own.
\<close>

definition cmn_int_handler ::
    "vtmr_cfg \<Rightarrow> (u16 \<Rightarrow> 's \<Rightarrow> 's) option list \<Rightarrow> u8 \<Rightarrow> u16 \<Rightarrow> int_st \<times> 's \<Rightarrow> int_st \<times> 's" where
  "cmn_int_handler cf hs n resnum = (\<lambda>(q, s).
     (let q = snd (elua_int_add (tmr_ints cf) (tmr_lua_up cf) n resnum q)
      in case elua_int_get_c_handler (tmr_ints cf) n hs of None \<Rightarrow> (q, s) | Some phnd \<Rightarrow> (q, phnd resnum s)))"

section \<open>Lemmas\<close>

lemma intlog2_loop_bounds:
  "v \<noteq> 0 \<Longrightarrow> unat r + unat v < 2 ^ 32
    \<Longrightarrow> unat r \<le> unat (intlog2_loop v r) \<and> 2 ^ (unat (intlog2_loop v r) - unat r) \<le> unat v
        \<and> unat v < 2 * 2 ^ (unat (intlog2_loop v r) - unat r)"
proof (induction v r rule: intlog2_loop.induct)
  case (1 v r)
  let ?h = "drop_bit 1 v"
  have h: "unat ?h = unat v div 2" by (rule unat_half)
  show ?case
  proof (cases "?h = 0")
    case True
    then have "unat v div 2 = 0" using h by simp
    moreover have "unat v \<noteq> 0" using 1(2) by (simp add: unat_eq_0)
    ultimately have "unat v = 1" by linarith
    moreover have "intlog2_loop v r = r" using True by (subst intlog2_loop.simps) (simp only: Let_def simp_thms if_False)
    ultimately show ?thesis by simp
  next
    case False
    then have hv: "0 < unat v div 2" using h by (metis gr0I unat_eq_0)
    then have r1: "unat (r + 1) = Suc (unat r)" using 1(3) by (simp add: unat_word_ariths)
    have "unat (r + 1) + unat ?h < 2 ^ 32" using r1 h hv 1(3) by linarith
    have IH: "Suc (unat r) \<le> unat (intlog2_loop ?h (r + 1))"
      "2 ^ (unat (intlog2_loop ?h (r + 1)) - Suc (unat r)) \<le> unat v div 2"
      "unat v div 2 < 2 * 2 ^ (unat (intlog2_loop ?h (r + 1)) - Suc (unat r))"
      using 1(1) [OF refl False False \<open>unat (r + 1) + unat ?h < 2 ^ 32\<close>] unfolding h r1 by blast+
    have step: "intlog2_loop v r = intlog2_loop ?h (r + 1)"
      using False by (subst intlog2_loop.simps) (simp only: Let_def if_True not_False_eq_True)
    define k where "k = unat (intlog2_loop ?h (r + 1)) - Suc (unat r)"
    have "unat (intlog2_loop ?h (r + 1)) - unat r = Suc k" using IH(1) by (simp add: k_def)
    moreover have "2 * 2 ^ k \<le> unat v" "unat v < 2 * (2 * 2 ^ k)"
      using IH(2,3) unfolding k_def [symmetric] by linarith+
    ultimately show ?thesis using IH(1) by (simp add: step)
  qed
qed

lemma intlog2_bounds:
  assumes "v \<noteq> 0"
  shows "2 ^ unat (intlog2 v) \<le> unat v" "unat v < 2 * 2 ^ unat (intlog2 v)" "unat (intlog2 v) < 32"
proof -
  show b: "2 ^ unat (intlog2 v) \<le> unat v" "unat v < 2 * 2 ^ unat (intlog2 v)"
    using intlog2_loop_bounds [OF assms, of 0] by (simp_all add: intlog2_def)
  show "unat (intlog2 v) < 32"
  proof (rule ccontr)
    assume "\<not> unat (intlog2 v) < 32"
    then have "(2::nat) ^ 32 \<le> 2 ^ unat (intlog2 v)" by (intro power_increasing) auto
    with b(1) unat_u32_less [of v] show False by (simp del: unat_u32_less)
  qed
qed

lemma round_up_8:
  fixes s :: nat
  shows "8 dvd (if 8 dvd s then s else (s div 8 + 1) * 8) \<and> s \<le> (if 8 dvd s then s else (s div 8 + 1) * 8)
    \<and> (if 8 dvd s then s else (s div 8 + 1) * 8) < s + 8"
  by presburger

lemma round_down_8:
  fixes s :: nat
  assumes "8 \<le> s"
  shows "8 dvd (if 8 dvd s then s else (s div 8 - 1) * 8) \<and> (if 8 dvd s then s else (s div 8 - 1) * 8) \<le> s
    \<and> s < (if 8 dvd s then s else (s div 8 - 1) * 8) + 16"
  using assms by presburger

section \<open>Properties\<close>

text \<open>
  the smoothing length the user asks for is rounded down to a power of two, and the channel is
  then ready for a fresh warm-up. For a request of 2 to 65535 samples, if the memory for the
  window is available, the operation reports success and leaves the channel with an empty window
  of the largest power of two not above the request, its sum and index zero, in the state from which
  the moving average of \<open>Adc\<close> starts; if the memory is not available it fails and switches
  smoothing off.
\<close>

lemma set_smoothing_rounds_down:
  assumes "ch < length (adc_ch_state S)" "2 \<le> unat data" "unat data < 65536"
    and "unat (logsmoothlen (adc_get_ch_state ch S)) \<noteq> unat (intlog2 data)"
    and "(r, T) = platform_adc_op cf bits fresh rate ch PLATFORM_ADC_SET_SMOOTHING data S"
    and "s = adc_get_ch_state ch T"
  shows "case fresh of
      None \<Rightarrow> r = 0 \<and> logsmoothlen s = 0 \<and> smoothbuf s = None
    | Some _ \<Rightarrow> r = 1 \<and> smooth_inv s \<and> SMOOTH_REALSIZE s \<le> unat data \<and> unat data < 2 * SMOOTH_REALSIZE s
        \<and> smoothidx s = 0 \<and> \<not> smooth_ready s \<and> smooth_window s = replicate (SMOOTH_REALSIZE s) 0"
proof -
  define l where "l = (ucast (intlog2 data) :: u8)"
  have data0: "data \<noteq> 0" using assms(2) by auto
  note b = intlog2_bounds [OF data0]
  have ul: "unat l = unat (intlog2 data)" using b(3) by (simp add: l_def unsigned_ucast_eq take_bit_nat_eq_self_iff)
  have l15: "unat l \<le> 15"
  proof (rule ccontr)
    assume "\<not> unat l \<le> 15"
    then have "(2::nat) ^ 16 \<le> 2 ^ unat l" by (intro power_increasing) auto
    with b(1) ul assms(3) show False by simp
  qed
  have l0: "0 < unat l"
  proof (rule ccontr)
    assume "\<not> 0 < unat l"
    with b(2) ul assms(2) show False by simp
  qed
  then have lne: "l \<noteq> 0" "0 < l" by (auto simp: word_gt_0)
  define S1 where "S1 = (if op_pending (adc_get_ch_state ch S) then platform_adc_stop ch S else S)"
  have S1: "ch < length (adc_ch_state S1)" "logsmoothlen (adc_get_ch_state ch S1) = logsmoothlen (adc_get_ch_state ch S)"
    using assms(1) by (simp_all add: S1_def platform_adc_stop_def Let_def get_upd_ch)
  have ldiff: "l \<noteq> logsmoothlen (adc_get_ch_state ch S1)" using assms(4) S1(2) ul by auto
  show ?thesis
  proof (cases fresh)
    case None
    then show ?thesis
      using assms(5,6) ldiff S1(1) lne
      by (simp add: platform_adc_op_def l_def [symmetric] adc_update_smoothing_def S1_def [symmetric] Let_def
          upd_ch_comp get_upd_ch realloc_u16_def pstatus_code_def)
  next
    case (Some junk)
    obtain bs where bs: "realloc_u16 (smoothbuf (adc_get_ch_state ch S1)) (Some junk) (2 ^ unat l) = Some bs"
      "length bs = 2 ^ unat l" by (simp add: realloc_u16_def Let_def)
    have put0: "put_bytes bs 0 (replicate (duff_device_8 (2 ^ unat l)) 0) = replicate (2 ^ unat l) 0"
      by (rule nth_equalityI) (auto simp: nth_put_bytes bs)
    have T: "r = 1" "s = (adc_get_ch_state ch S1)\<lparr> logsmoothlen := l, smoothidx := 0, smoothsum := 0, smooth_ready := False,
        smoothbuf := Some (replicate (2 ^ unat l) 0) \<rparr>"
      using assms(5,6) ldiff S1(1) lne Some bs put0
      by (simp_all add: platform_adc_op_def l_def [symmetric] adc_update_smoothing_def S1_def [symmetric] Let_def
          upd_ch_comp get_upd_ch pstatus_code_def SMOOTH_REALSIZE_def adc_flush_smoothing_def)
    then show ?thesis
      using Some l0 l15 \<open>2 ^ unat (intlog2 data) \<le> unat data\<close> \<open>unat data < 2 * 2 ^ unat (intlog2 data)\<close>
      by (simp add: smooth_inv_def SMOOTH_REALSIZE_def smooth_window_def ul [symmetric] sum_list_replicate)
  qed
qed

definition sample_smooth_req :: "u32 \<times> adc_sys" where
  "sample_smooth_req = platform_adc_op sample_adc_cfg 10 (Some (\<lambda>_. 7)) (\<lambda>f. f) 1 PLATFORM_ADC_SET_SMOOTHING 5 sample_adc"

theorem set_smoothing_rounds_down_witness:
  "fst sample_smooth_req = 1 \<and> SMOOTH_REALSIZE (adc_get_ch_state 1 (snd sample_smooth_req)) \<le> 5
    \<and> 5 < 2 * SMOOTH_REALSIZE (adc_get_ch_state 1 (snd sample_smooth_req))"
proof -
  have i: "unat (intlog2 5) \<noteq> 1" using intlog2_bounds(2) [of 5] by auto
  have n: "unat (logsmoothlen (adc_get_ch_state 1 sample_adc)) \<noteq> unat (intlog2 5)"
    using i by (simp add: adc_get_ch_state_def sample_adc_def sample_ch_def)
  have len: "1 < length (adc_ch_state sample_adc)" by (simp add: sample_adc_def)
  have req: "(fst sample_smooth_req, snd sample_smooth_req) =
      platform_adc_op sample_adc_cfg 10 (Some (\<lambda>_. 7)) (\<lambda>f. f) 1 PLATFORM_ADC_SET_SMOOTHING 5 sample_adc"
    by (simp add: sample_smooth_req_def)
  show ?thesis
    using set_smoothing_rounds_down [OF len _ _ n req refl] by simp
qed

text \<open>
  the RAM blocks given to the allocator are aligned and stay inside the memory of the board.
  The first free address is the configured start rounded up to a multiple of 8, the last one a
  multiple of 8 not above the configured end and less than 16 bytes below it.
\<close>

lemma ram_bounds_aligned:
  assumes "n < length mstart" "n < length mend"
    and "unat (mstart ! n) \<le> 4294967288" "8 \<le> unat (mend ! n)"
    and "p = unat (platform_get_first_free_ram mstart n)" "q = unat (platform_get_last_free_ram mend n)"
  shows "8 dvd p \<and> unat (mstart ! n) \<le> p \<and> p < unat (mstart ! n) + 8
    \<and> 8 dvd q \<and> q \<le> unat (mend ! n) \<and> unat (mend ! n) < q + 16"
proof -
  have low: "unat (x AND (MIN_ALIGN - 1)) = unat x mod 8" for x
    using unat_and_mask [of x 3] by (simp add: MIN_ALIGN_def)
  have zero: "x AND (MIN_ALIGN - 1) = 0 \<longleftrightarrow> 8 dvd unat x" for x
    using low [of x] by (metis dvd_eq_mod_eq_0 unat_eq_zero)
  have sh: "unat (drop_bit MIN_ALIGN_SHIFT x :: u32) = unat x div 8" for x
    by (simp only: unat_drop_bit_eq) (simp add: drop_bit_eq_div MIN_ALIGN_SHIFT_def)
  have push: "unat (push_bit MIN_ALIGN_SHIFT x :: u32) = unat x * 8 mod 2 ^ 32" for x
    by (simp add: push_bit_eq_mult MIN_ALIGN_SHIFT_def unat_word_ariths mult.commute)
  let ?s = "mstart ! n" and ?e = "mend ! n"
  have p: "p = (if 8 dvd unat ?s then unat ?s else (unat ?s div 8 + 1) * 8)"
  proof (cases "8 dvd unat ?s")
    case False
    have "(unat ?s div 8 + 1) * 8 \<noteq> 4294967296"
    proof
      assume "(unat ?s div 8 + 1) * 8 = 4294967296"
      then have "unat ?s div 8 = 536870911" by simp
      then have "unat ?s = 4294967288" using assms(3) by linarith
      with False show False by simp
    qed
    moreover have "(unat ?s div 8 + 1) * 8 \<le> 4294967296"
      using div_le_mono [OF assms(3), of 8] by simp
    moreover have "unat (drop_bit MIN_ALIGN_SHIFT ?s + 1) = unat ?s div 8 + 1"
      using unat_u32_less [of ?s] by (simp add: unat_word_ariths sh del: unat_u32_less)
    ultimately show ?thesis
      using False assms(1) by (simp add: assms(5) platform_get_first_free_ram_def zero push Let_def)
  qed (use assms(1) in \<open>simp add: assms(5) platform_get_first_free_ram_def zero\<close>)
  have q: "q = (if 8 dvd unat ?e then unat ?e else (unat ?e div 8 - 1) * 8)"
  proof (cases "8 dvd unat ?e")
    case False
    have "1 \<le> drop_bit MIN_ALIGN_SHIFT ?e" using assms(4) by (simp add: word_le_nat_alt sh)
    then have "unat (drop_bit MIN_ALIGN_SHIFT ?e - 1) = unat ?e div 8 - 1" by (simp add: unat_sub sh)
    moreover have "(unat ?e div 8 - 1) * 8 < 2 ^ 32" using unat_u32_less [of ?e] by (simp del: unat_u32_less)
    ultimately show ?thesis
      using False assms(2) by (simp add: assms(6) platform_get_last_free_ram_def zero push Let_def)
  qed (use assms(2) in \<open>simp add: assms(6) platform_get_last_free_ram_def zero\<close>)
  show ?thesis
    unfolding p q using round_up_8 [of "unat ?s"] round_down_8 [OF assms(4)] by blast
qed

theorem ram_bounds_aligned_witness:
  "8 dvd unat (platform_get_first_free_ram [0x20000123] 0) \<and> unat (platform_get_last_free_ram [0x20008001] 0) \<le> 0x20008001"
  using ram_bounds_aligned [of 0 "[0x20000123]" "[0x20008001]"] by simp

end
