(* ===== verification/Term.thy ===== *)
theory Term
  imports Prelude
begin

text \<open>
  The terminal: \<open>src/term.c\<close> with \<open>inc/term.h\<close>, and the terminal support of
  \<open>src/common.c\<close>, which reads key presses from the console UART and translates their escape
  sequences to key codes.

  The output is the list of bytes given to \<open>term_out\<close>. The input is the list of answers of
  \<open>platform_uart_recv\<close>: a byte, or \<open>None\<close> for a time-out; when the list ends nothing
  more arrives. A read that waits for ever is \<open>None\<close>.
\<close>

section \<open>State\<close>

record term_st =
  term_num_lines :: u32
  term_num_cols :: u32
  term_cx :: u32
  term_cy :: u32
  term_output :: "u8 list"
  term_input :: "u8 option list"

definition TERM_MAX_ANSI_SIZE :: nat where "TERM_MAX_ANSI_SIZE = 14"

datatype term_mode = TERM_INPUT_DONT_WAIT | TERM_INPUT_WAIT

text \<open>The key codes, numbered from 256.\<close>

definition KC_UP :: int where "KC_UP = 256"
definition KC_DOWN :: int where "KC_DOWN = 257"
definition KC_LEFT :: int where "KC_LEFT = 258"
definition KC_RIGHT :: int where "KC_RIGHT = 259"
definition KC_HOME :: int where "KC_HOME = 260"
definition KC_END :: int where "KC_END = 261"
definition KC_PAGEUP :: int where "KC_PAGEUP = 262"
definition KC_PAGEDOWN :: int where "KC_PAGEDOWN = 263"
definition KC_ENTER :: int where "KC_ENTER = 264"
definition KC_TAB :: int where "KC_TAB = 265"
definition KC_BACKSPACE :: int where "KC_BACKSPACE = 266"
definition KC_ESC :: int where "KC_ESC = 267"
definition KC_CTRL_Z :: int where "KC_CTRL_Z = 268"
definition KC_CTRL_A :: int where "KC_CTRL_A = 269"
definition KC_CTRL_E :: int where "KC_CTRL_E = 270"
definition KC_CTRL_C :: int where "KC_CTRL_C = 271"
definition KC_CTRL_T :: int where "KC_CTRL_T = 272"
definition KC_CTRL_U :: int where "KC_CTRL_U = 273"
definition KC_CTRL_K :: int where "KC_CTRL_K = 274"
definition KC_DEL :: int where "KC_DEL = 275"
definition KC_UNKNOWN :: int where "KC_UNKNOWN = 276"

lemmas key_codes = KC_UP_def KC_DOWN_def KC_LEFT_def KC_RIGHT_def KC_HOME_def KC_END_def KC_PAGEUP_def KC_PAGEDOWN_def KC_ENTER_def KC_TAB_def KC_BACKSPACE_def KC_ESC_def KC_CTRL_Z_def KC_CTRL_A_def KC_CTRL_E_def KC_CTRL_C_def KC_CTRL_T_def KC_CTRL_U_def KC_CTRL_K_def KC_DEL_def KC_UNKNOWN_def

section \<open>Output\<close>

definition term_out :: "u8 \<Rightarrow> term_st \<Rightarrow> term_st" where
  "term_out b S = S\<lparr> term_output := term_output S @ [b] \<rparr>"

fun term_putstr :: "u8 list \<Rightarrow> term_st \<Rightarrow> term_st" where
  "term_putstr [] S = S"
| "term_putstr (b # bs) S = term_putstr bs (term_out b S)"

text \<open>\<open>%u\<close> of the C library.\<close>

fun dec_digits :: "nat \<Rightarrow> u8 list" where
  "dec_digits n = (if n < 10 then [of_nat (48 + n)] else dec_digits (n div 10) @ [of_nat (48 + n mod 10)])"

declare dec_digits.simps [simp del]

text \<open>
  \<open>term_ansi\<close> on a formatted text: \<open>vsnprintf\<close> keeps what fits with its terminator into
  \<open>TERM_MAX_ANSI_SIZE - 2\<close> bytes.
\<close>

definition term_ansi :: "u8 list \<Rightarrow> term_st \<Rightarrow> term_st" where
  "term_ansi s = term_putstr ([0x1B, 0x5B] @ take (TERM_MAX_ANSI_SIZE - 2 - 1) s)"

definition term_clrscr :: "term_st \<Rightarrow> term_st" where
  "term_clrscr S = (term_ansi [0x32, 0x4A] S)\<lparr> term_cx := 0, term_cy := 0 \<rparr>"

definition term_clreol :: "term_st \<Rightarrow> term_st" where
  "term_clreol S = term_ansi [0x4B] S"

definition term_gotoxy :: "u32 \<Rightarrow> u32 \<Rightarrow> term_st \<Rightarrow> term_st" where
  "term_gotoxy x y S =
     (term_ansi (dec_digits (unat y) @ [0x3B] @ dec_digits (unat x) @ [0x48]) S)\<lparr> term_cx := x, term_cy := y \<rparr>"

definition term_up :: "u32 \<Rightarrow> term_st \<Rightarrow> term_st" where
  "term_up delta S = (let S = term_ansi (dec_digits (unat delta) @ [0x41]) S in S\<lparr> term_cy := term_cy S - delta \<rparr>)"

definition term_down :: "u32 \<Rightarrow> term_st \<Rightarrow> term_st" where
  "term_down delta S = (let S = term_ansi (dec_digits (unat delta) @ [0x42]) S in S\<lparr> term_cy := term_cy S + delta \<rparr>)"

definition term_right :: "u32 \<Rightarrow> term_st \<Rightarrow> term_st" where
  "term_right delta S = (let S = term_ansi (dec_digits (unat delta) @ [0x43]) S in S\<lparr> term_cx := term_cx S - delta \<rparr>)"

definition term_left :: "u32 \<Rightarrow> term_st \<Rightarrow> term_st" where
  "term_left delta S = (let S = term_ansi (dec_digits (unat delta) @ [0x44]) S in S\<lparr> term_cx := term_cx S + delta \<rparr>)"

definition term_get_lines :: "term_st \<Rightarrow> u32" where "term_get_lines S = term_num_lines S"
definition term_get_cols :: "term_st \<Rightarrow> u32" where "term_get_cols S = term_num_cols S"
definition term_get_cx :: "term_st \<Rightarrow> u32" where "term_get_cx S = term_cx S"
definition term_get_cy :: "term_st \<Rightarrow> u32" where "term_get_cy S = term_cy S"

definition term_putch :: "u8 \<Rightarrow> term_st \<Rightarrow> term_st" where
  "term_putch ch S =
     (let S = (if ch = 0x0A
               then (let S = (if term_cy S < term_num_lines S then S\<lparr> term_cy := term_cy S + 1 \<rparr> else S)
                     in S\<lparr> term_cx := 0 \<rparr>)
               else S)
      in term_out ch S)"

definition term_init :: "u32 \<Rightarrow> u32 \<Rightarrow> term_st \<Rightarrow> term_st" where
  "term_init lines cols S = S\<lparr> term_num_lines := lines, term_num_cols := cols, term_cx := 0, term_cy := 0 \<rparr>"

section \<open>Input\<close>

text \<open>A receive with a time-out; \<open>-1\<close> when it expires.\<close>

definition uart_recv_timeout :: "term_st \<Rightarrow> int \<times> term_st" where
  "uart_recv_timeout S =
     (case term_input S of
        [] \<Rightarrow> (-1, S)
      | None # r \<Rightarrow> (-1, S\<lparr> term_input := r \<rparr>)
      | Some b # r \<Rightarrow> (uint b, S\<lparr> term_input := r \<rparr>))"

text \<open>A receive without one: it passes over the silence.\<close>

fun input_wait :: "u8 option list \<Rightarrow> (u8 \<times> u8 option list) option" where
  "input_wait [] = None"
| "input_wait (None # r) = input_wait r"
| "input_wait (Some b # r) = Some (b, r)"

definition term_in :: "term_mode \<Rightarrow> term_st \<Rightarrow> (int \<times> term_st) option" where
  "term_in mode S =
     (case mode of
        TERM_INPUT_DONT_WAIT \<Rightarrow> Some (uart_recv_timeout S)
      | TERM_INPUT_WAIT \<Rightarrow> map_option (\<lambda>(b, r). (uint b, S\<lparr> term_input := r \<rparr>)) (input_wait (term_input S)))"

text \<open>\<open>isprint\<close> in the C locale.\<close>

definition isprint :: "int \<Rightarrow> bool" where
  "isprint c \<longleftrightarrow> 0x20 \<le> c \<and> c \<le> 0x7E"

text \<open>The escape sequences: what follows the byte \<open>0x1B\<close>.\<close>

definition term_escape :: "term_st \<Rightarrow> int \<times> term_st" where
  "term_escape S =
     (let (b, S) = uart_recv_timeout S in
      if b = -1 then (KC_ESC, S)
      else
        let (c, S) = uart_recv_timeout S in
        if c = -1 then (KC_UNKNOWN, S)
        else if 0x41 \<le> c \<and> c \<le> 0x44 then
          (if c = 0x41 then KC_UP else if c = 0x42 then KC_DOWN else if c = 0x43 then KC_RIGHT else KC_LEFT, S)
        else if 48 < c \<and> c < 55 then
          let (e, S) = uart_recv_timeout S in
          if e \<noteq> 126 then (KC_UNKNOWN, S)
          else if c = 49 then (KC_HOME, S)
          else if c = 52 then (KC_END, S)
          else if c = 53 then (KC_PAGEUP, S)
          else if c = 54 then (KC_PAGEDOWN, S)
          else (KC_UNKNOWN, S)
        else (KC_UNKNOWN, S))"

definition term_control :: "int \<Rightarrow> int" where
  "term_control data =
     (if data = 0x09 then KC_TAB
      else if data = 0x7F \<or> data = 0x08 then KC_BACKSPACE
      else if data = 26 then KC_CTRL_Z
      else if data = 1 then KC_CTRL_A
      else if data = 5 then KC_CTRL_E
      else if data = 3 then KC_CTRL_C
      else if data = 20 then KC_CTRL_T
      else if data = 21 then KC_CTRL_U
      else if data = 11 then KC_CTRL_K
      else KC_UNKNOWN)"

definition term_translate :: "int \<Rightarrow> term_st \<Rightarrow> int \<times> term_st" where
  "term_translate data S =
     (if isprint data then (data, S)
      else if data = 0x1B then term_escape S
      else if data = 0x0D then (KC_ENTER, snd (uart_recv_timeout S))
      else (term_control data, S))"

definition term_getch :: "term_mode \<Rightarrow> term_st \<Rightarrow> (int \<times> term_st) option" where
  "term_getch mode S =
     (case term_in mode S of
        None \<Rightarrow> None
      | Some (ch, S) \<Rightarrow> Some (if ch = -1 then (-1, S) else term_translate ch S))"

section \<open>A terminal\<close>

text \<open>
  The other end of the line: the cursor of an ANSI terminal that receives the control sequences,
  away from the borders of the screen. \<open>csi\<close> reads one control sequence: its one or two
  parameters and its final byte.
\<close>

fun csi_number :: "nat \<Rightarrow> u8 list \<Rightarrow> nat \<times> u8 list" where
  "csi_number acc [] = (acc, [])"
| "csi_number acc (c # cs) =
     (if 48 \<le> c \<and> c \<le> 57 then csi_number (acc * 10 + (unat c - 48)) cs else (acc, c # cs))"

definition csi :: "u8 list \<Rightarrow> (nat list \<times> u8) option" where
  "csi bs =
     (case csi_number 0 bs of
        (n, []) \<Rightarrow> None
      | (n, c # r) \<Rightarrow>
          if c = 0x3B then
            (case csi_number 0 r of (m, [c]) \<Rightarrow> Some ([n, m], c) | _ \<Rightarrow> None)
          else if r = [] then Some ([n], c) else None)"

text \<open>The cursor is a pair of column and line, as in the program.\<close>

definition ansi_cursor :: "u8 list \<Rightarrow> nat \<times> nat \<Rightarrow> (nat \<times> nat) option" where
  "ansi_cursor bs = (\<lambda>(x, y).
     (if take 2 bs \<noteq> [0x1B, 0x5B] then None
      else case csi (drop 2 bs) of
        Some ([n, m], c) \<Rightarrow> if c = 0x48 then Some (m, n) else None
      | Some ([n], c) \<Rightarrow>
          if c = 0x41 then Some (x, y - n)
          else if c = 0x42 then Some (x, y + n)
          else if c = 0x43 then Some (x + n, y)
          else if c = 0x44 then Some (x - n, y)
          else None
      | _ \<Rightarrow> None))"

section \<open>Lemmas\<close>

lemma term_putstr_output: "term_putstr bs S = S\<lparr> term_output := term_output S @ bs \<rparr>"
  by (induction bs S rule: term_putstr.induct) (simp_all add: term_out_def)

lemma digit_byte: "n < 10 \<Longrightarrow> 48 \<le> (of_nat (48 + n) :: u8) \<and> (of_nat (48 + n) :: u8) \<le> 57 \<and> unat (of_nat (48 + n) :: u8) = 48 + n"
  by (simp add: word_le_nat_alt unat_of_nat_small del: of_nat_add)

lemma csi_number_digits: "csi_number a (dec_digits n @ r) = csi_number (a * 10 ^ length (dec_digits n) + n) r"
proof (induction n arbitrary: a r rule: dec_digits.induct)
  case (1 n)
  show ?case
  proof (cases "n < 10")
    case True
    then show ?thesis using digit_byte [OF True] by (subst (1 2) dec_digits.simps) (simp del: of_nat_add)
  next
    case False
    have d: "dec_digits n = dec_digits (n div 10) @ [of_nat (48 + n mod 10)]"
      using False by (subst dec_digits.simps) simp
    have m: "n mod 10 < 10" by simp
    show ?thesis
      using 1 [OF False] digit_byte [OF m] by (simp add: d algebra_simps del: of_nat_add)
  qed
qed

lemma length_dec_digits: "n < 10 ^ Suc k \<Longrightarrow> length (dec_digits n) \<le> Suc k"
proof (induction k arbitrary: n)
  case 0
  then show ?case by (simp add: dec_digits.simps)
next
  case (Suc k)
  have "n div 10 < 10 ^ Suc k" using Suc.prems by (simp add: less_mult_imp_div_less mult.commute)
  with Suc.IH [of "n div 10"] show ?case by (subst dec_digits.simps) simp
qed

lemma csi_one:
  assumes "\<not> (48 \<le> c \<and> c \<le> 57)" "c \<noteq> 0x3B"
  shows "csi (dec_digits n @ [c]) = Some ([n], c)"
  using assms by (auto simp: csi_def csi_number_digits)

lemma csi_two:
  assumes "\<not> (48 \<le> c \<and> c \<le> 57)"
  shows "csi (dec_digits n @ [0x3B] @ dec_digits m @ [c]) = Some ([n, m], c)"
proof -
  have "csi_number 0 (dec_digits n @ [0x3B] @ dec_digits m @ [c]) = (n, 0x3B # dec_digits m @ [c])"
    by (simp add: csi_number_digits)
  moreover have "csi_number 0 (dec_digits m @ [c]) = (m, [c])"
    using assms by (auto simp: csi_number_digits)
  ultimately show ?thesis by (simp add: csi_def)
qed

text \<open>What an output operation sends.\<close>

definition term_sent :: "(term_st \<Rightarrow> term_st) \<Rightarrow> term_st \<Rightarrow> u8 list" where
  "term_sent f S = drop (length (term_output S)) (term_output (f S))"

lemma length_dec_4: "n < 10000 \<Longrightarrow> length (dec_digits n) \<le> 4"
  using length_dec_digits [of n 3] by simp

lemma sent_move:
  assumes "unat delta < 10000" "c \<in> {0x41, 0x42, 0x43, 0x44}"
  shows "ansi_cursor (drop (length (term_output S)) (term_output (term_ansi (dec_digits (unat delta) @ [c]) S))) (x, y)
    = (if c = 0x41 then Some (x, y - unat delta) else if c = 0x42 then Some (x, y + unat delta)
       else if c = 0x43 then Some (x + unat delta, y) else Some (x - unat delta, y))"
proof -
  have take: "take 11 (dec_digits (unat delta) @ [c]) = dec_digits (unat delta) @ [c]"
    using length_dec_4 [OF assms(1)] by simp
  have "csi (dec_digits (unat delta) @ [c]) = Some ([unat delta], c)"
    by (rule csi_one) (use assms(2) in auto)
  moreover have "drop (length (term_output S)) (term_output (term_ansi (dec_digits (unat delta) @ [c]) S))
      = 0x1B # 0x5B # dec_digits (unat delta) @ [c]"
    using take by (simp add: term_ansi_def term_putstr_output TERM_MAX_ANSI_SIZE_def)
  ultimately have "ansi_cursor (drop (length (term_output S)) (term_output (term_ansi (dec_digits (unat delta) @ [c]) S))) (x, y)
      = (if c = 0x41 then Some (x, y - unat delta) else if c = 0x42 then Some (x, y + unat delta)
         else if c = 0x43 then Some (x + unat delta, y) else if c = 0x44 then Some (x - unat delta, y) else None)"
    by (simp only: ansi_cursor_def) simp
  then show ?thesis using assms(2) by (elim insertE) simp_all
qed

section \<open>Properties\<close>

text \<open>
  C32: the cursor position the program keeps is the one of the terminal. For coordinates and
  distances below 10000, \<open>term_gotoxy\<close>, \<open>term_up\<close> and \<open>term_down\<close> send one control
  sequence that an ANSI terminal reads back with exactly these numbers, and if the terminal's cursor
  was where the program thought, it is so again afterwards (no border being crossed).
\<close>

theorem cursor_follows_terminal:
  assumes "unat x < 10000" "unat y < 10000" "unat d < 10000" "unat (term_cy S) + unat d < 2 ^ 32"
    and "cursor = (\<lambda>S. (unat (term_cx S), unat (term_cy S)))"
  shows "ansi_cursor (term_sent (term_gotoxy x y) S) p = Some (cursor (term_gotoxy x y S))
    \<and> ansi_cursor (term_sent (term_down d) S) (cursor S) = Some (cursor (term_down d S))
    \<and> (d \<le> term_cy S \<longrightarrow> ansi_cursor (term_sent (term_up d) S) (cursor S) = Some (cursor (term_up d S)))"
proof -
  let ?s = "dec_digits (unat y) @ [0x3B] @ dec_digits (unat x) @ [0x48]"
  have "length ?s \<le> 11" using length_dec_4 [OF assms(1)] length_dec_4 [OF assms(2)] by simp
  then have "take 11 ?s = ?s" by (rule take_all)
  moreover have "csi ?s = Some ([unat y, unat x], 0x48)" by (rule csi_two) simp
  ultimately have goto: "ansi_cursor (term_sent (term_gotoxy x y) S) p = Some (cursor (term_gotoxy x y S))"
    by (cases p) (simp add: assms(5) term_sent_def term_gotoxy_def ansi_cursor_def term_ansi_def term_putstr_output
        TERM_MAX_ANSI_SIZE_def)
  have cx: "term_cx (term_ansi s S) = term_cx S" "term_cy (term_ansi s S) = term_cy S" for s
    by (simp_all add: term_ansi_def term_putstr_output)
  have "unat (term_cy S + d) = unat (term_cy S) + unat d" using assms(4) by (simp add: unat_word_ariths)
  then have down: "ansi_cursor (term_sent (term_down d) S) (cursor S) = Some (cursor (term_down d S))"
    using sent_move [OF assms(3), where c="0x42" and S=S] by (simp add: assms(5) term_sent_def term_down_def Let_def cx)
  have up: "ansi_cursor (term_sent (term_up d) S) (cursor S) = Some (cursor (term_up d S))" if "d \<le> term_cy S"
    using sent_move [OF assms(3), where c="0x41" and S=S] that
    by (simp add: assms(5) term_sent_def term_up_def Let_def cx unat_sub)
  from goto down up show ?thesis by blast
qed

definition sample_term :: term_st where
  "sample_term = \<lparr> term_num_lines = 25, term_num_cols = 80, term_cx = 10, term_cy = 5, term_output = [], term_input = [] \<rparr>"

theorem cursor_follows_terminal_witness:
  "ansi_cursor (term_sent (term_gotoxy 12 7) sample_term) (10, 5) = Some (12, 7)
    \<and> ansi_cursor (term_sent (term_up 2) sample_term) (10, 5) = Some (10, 3)"
  using cursor_follows_terminal [of 12 7 2 sample_term "\<lambda>S. (unat (term_cx S), unat (term_cy S))" "(10, 5)", OF _ _ _ _ refl]
  by (simp add: sample_term_def term_gotoxy_def term_up_def term_ansi_def term_putstr_output)

text \<open>
  moves along the line break this. After \<open>term_right d\<close> the terminal's cursor is \<open>d\<close>
  columns further right, but the program subtracts \<open>d\<close> from its column, and the other way
  round for \<open>term_left\<close>: the two positions are \<open>2 * d\<close> columns apart.
\<close>

lemma horizontal_moves_lose_cursor:
  assumes "0 < unat d" "unat d < 10000" "d \<le> term_cx S" "unat (term_cx S) + unat d < 2 ^ 32"
    and "cursor = (\<lambda>S. (unat (term_cx S), unat (term_cy S)))"
  shows "\<exists>u v. ansi_cursor (term_sent (term_right d) S) (cursor S) = Some u
    \<and> fst u = fst (cursor (term_right d S)) + 2 * unat d
    \<and> ansi_cursor (term_sent (term_left d) S) (cursor S) = Some v
    \<and> fst (cursor (term_left d S)) = fst v + 2 * unat d"
proof -
  have cx: "term_cx (term_ansi s S) = term_cx S" "term_cy (term_ansi s S) = term_cy S" for s
    by (simp_all add: term_ansi_def term_putstr_output)
  have r: "ansi_cursor (term_sent (term_right d) S) (cursor S) = Some (unat (term_cx S) + unat d, unat (term_cy S))"
    using sent_move [OF assms(2), where c="0x43" and S=S] by (simp add: assms(5) term_sent_def term_right_def Let_def)
  have l: "ansi_cursor (term_sent (term_left d) S) (cursor S) = Some (unat (term_cx S) - unat d, unat (term_cy S))"
    using sent_move [OF assms(2), where c="0x44" and S=S] by (simp add: assms(5) term_sent_def term_left_def Let_def)
  have "unat d \<le> unat (term_cx S)" using assms(3) by (simp add: word_le_nat_alt)
  moreover have "unat (term_cx S - d) = unat (term_cx S) - unat d" using assms(3) by (simp add: unat_sub)
  moreover have "unat (term_cx S + d) = unat (term_cx S) + unat d" using assms(4) by (simp add: unat_word_ariths)
  ultimately have "unat (term_cx S) + unat d = fst (cursor (term_right d S)) + 2 * unat d"
    "fst (cursor (term_left d S)) = (unat (term_cx S) - unat d) + 2 * unat d"
    by (simp_all add: assms(5) term_right_def term_left_def Let_def cx)
  with r l show ?thesis by auto
qed

theorem horizontal_moves_lose_cursor_witness:
  "\<exists>u. ansi_cursor (term_sent (term_right 3) sample_term) (10, 5) = Some u
    \<and> fst u = unat (term_cx (term_right 3 sample_term)) + 6"
proof -
  have "0 < unat (3 :: u32)" "unat (3 :: u32) < 10000" "3 \<le> term_cx sample_term"
    "unat (term_cx sample_term) + unat (3 :: u32) < 2 ^ 32" by (simp_all add: sample_term_def)
  from horizontal_moves_lose_cursor [OF this refl]
  show ?thesis by (auto simp: sample_term_def)
qed

text \<open>
  key presses. For every key of the table, \<open>term_getch\<close> that finds the byte sequence of the
  key at the head of the input returns the code of that key and leaves the rest of the input; a
  byte that prints is returned as it is.
\<close>

definition key_table :: "(u8 list \<times> int) list" where
  "key_table =
     [([0x1B, 0x5B, 0x41], KC_UP), ([0x1B, 0x5B, 0x42], KC_DOWN), ([0x1B, 0x5B, 0x43], KC_RIGHT),
      ([0x1B, 0x5B, 0x44], KC_LEFT), ([0x1B, 0x5B, 0x31, 0x7E], KC_HOME), ([0x1B, 0x5B, 0x34, 0x7E], KC_END),
      ([0x1B, 0x5B, 0x35, 0x7E], KC_PAGEUP), ([0x1B, 0x5B, 0x36, 0x7E], KC_PAGEDOWN), ([0x0D, 0x0A], KC_ENTER),
      ([0x09], KC_TAB), ([0x7F], KC_BACKSPACE), ([0x08], KC_BACKSPACE), ([0x1A], KC_CTRL_Z), ([0x01], KC_CTRL_A),
      ([0x05], KC_CTRL_E), ([0x03], KC_CTRL_C), ([0x14], KC_CTRL_T), ([0x15], KC_CTRL_U), ([0x0B], KC_CTRL_K)]"

lemma keys_are_recognised:
  assumes "term_input S = map Some bs @ rest"
    and "(bs, key) \<in> set key_table \<or> (\<exists>b. bs = [b] \<and> 0x20 \<le> b \<and> b \<le> 0x7E \<and> key = uint b)"
  shows "term_getch mode S = Some (key, S\<lparr> term_input := rest \<rparr>)"
proof -
  have ne: "bs \<noteq> []" using assms(2) by (auto simp: key_table_def)
  then obtain b cs where bs: "bs = b # cs" by (cases bs) auto
  have first: "term_in mode S = Some (uint b, S\<lparr> term_input := map Some cs @ rest \<rparr>)"
    by (cases mode) (simp_all add: term_in_def uart_recv_timeout_def assms(1) bs)
  have "uint b \<noteq> -1" using unsigned_greater_eq [of b, where 'a=int] by linarith
  then have get: "term_getch mode S = Some (term_translate (uint b) (S\<lparr> term_input := map Some cs @ rest \<rparr>))"
    by (simp add: term_getch_def first)
  from assms(2) show ?thesis
  proof
    assume "\<exists>b. bs = [b] \<and> 0x20 \<le> b \<and> b \<le> 0x7E \<and> key = uint b"
    then have "cs = []" "isprint (uint b)" "key = uint b" by (auto simp: bs isprint_def word_le_def)
    then show ?thesis by (simp add: get term_translate_def)
  next
    assume "(bs, key) \<in> set key_table"
    then show ?thesis
      unfolding key_table_def bs
      by (elim set_ConsD [elim_format] disjE)
        (auto simp: get term_translate_def isprint_def term_escape_def uart_recv_timeout_def term_control_def)
  qed
qed

theorem keys_are_recognised_witness:
  "term_getch TERM_INPUT_WAIT (sample_term\<lparr> term_input := [Some 0x1B, Some 0x5B, Some 0x35, Some 0x7E, Some 0x41] \<rparr>)
    = Some (KC_PAGEUP, sample_term\<lparr> term_input := [Some 0x41] \<rparr>)"
  using keys_are_recognised [of "sample_term\<lparr> term_input := [Some 0x1B, Some 0x5B, Some 0x35, Some 0x7E, Some 0x41] \<rparr>"
      "[0x1B, 0x5B, 0x35, 0x7E]" "[Some 0x41]" KC_PAGEUP TERM_INPUT_WAIT]
  by (simp add: key_table_def)

end
