(* ===== verification/Xmodem.thy ===== *)
theory Xmodem
  imports Buf
begin

text \<open>
  The XMODEM receiver, \<open>src/xmodem.c\<close> with \<open>inc/xmodem.h\<close>: the program's way to get a Lua
  file over the console. The line is a list of answers of \<open>xmodem_in_func\<close>, one per call: a byte,
  or \<open>None\<close> when the call timed out; after its end every call times out. What the receiver sends
  is collected in a list. \<open>*dest\<close> is a byte block that \<open>realloc\<close> may enlarge.
\<close>

section \<open>Constants and line\<close>

definition PXM_ACKET_SIZE :: nat where "PXM_ACKET_SIZE = 128"
definition XM_SOH :: u8 where "XM_SOH = 0x01"
definition XM_ACK :: u8 where "XM_ACK = 0x06"
definition XM_NAK :: u8 where "XM_NAK = 0x15"
definition XM_CAN :: u8 where "XM_CAN = 0x18"
definition XM_EOT :: u8 where "XM_EOT = 0x04"
definition XMODEM_INITIAL_BUFFER_SIZE :: u32 where "XMODEM_INITIAL_BUFFER_SIZE = 1024"
definition XMODEM_INCREMENT_AMMOUNT :: u32 where "XMODEM_INCREMENT_AMMOUNT = 512"
definition XMODEM_RETRY_LIMIT :: nat where "XMODEM_RETRY_LIMIT = 20"
definition XMODEM_ERROR_REMOTECANCEL :: int where "XMODEM_ERROR_REMOTECANCEL = -1"
definition XMODEM_ERROR_RETRYEXCEED :: int where "XMODEM_ERROR_RETRYEXCEED = -3"
definition XMODEM_ERROR_OUTOFMEM :: int where "XMODEM_ERROR_OUTOFMEM = -4"

lemmas xm_codes = XM_SOH_def XM_ACK_def XM_NAK_def XM_CAN_def XM_EOT_def

datatype xm_flush = XMODEM_FLUSH_ONLY | XMODEM_FLUSH_AND_XM_CAN

record xm_line =
  xm_input :: "u8 option list"
  xm_output :: "u8 list"

definition xmodem_out_func :: "u8 \<Rightarrow> xm_line \<Rightarrow> xm_line" where
  "xmodem_out_func b S = S\<lparr> xm_output := xm_output S @ [b] \<rparr>"

definition xmodem_in_func :: "xm_line \<Rightarrow> u8 option \<times> xm_line" where
  "xmodem_in_func S = (case xm_input S of [] \<Rightarrow> (None, S) | x # r \<Rightarrow> (x, S\<lparr> xm_input := r \<rparr>))"

text \<open>Reading until a time-out.\<close>

fun quiet :: "u8 option list \<Rightarrow> u8 option list" where
  "quiet [] = []"
| "quiet (None # r) = r"
| "quiet (Some b # r) = quiet r"

definition xmodem_flush :: "xm_flush \<Rightarrow> xm_line \<Rightarrow> xm_line" where
  "xmodem_flush how S =
     (let S = S\<lparr> xm_input := quiet (xm_input S) \<rparr>
      in if how = XMODEM_FLUSH_AND_XM_CAN
         then xmodem_out_func XM_CAN (xmodem_out_func XM_CAN (xmodem_out_func XM_CAN S)) else S)"

section \<open>Records\<close>

text \<open>The checksum as the source computes it, on a 32-bit word that is cut at the end.\<close>

definition xm_crc_bit :: "u32 \<Rightarrow> u32" where
  "xm_crc_bit chk = (if chk AND 0x8000 \<noteq> 0 then push_bit 1 chk XOR 0x1021 else push_bit 1 chk)"

definition xm_crc_byte :: "u32 \<Rightarrow> u8 \<Rightarrow> u32" where
  "xm_crc_byte chk b = (xm_crc_bit ^^ 8) (chk XOR push_bit 8 (ucast b))"

definition xm_crc :: "u8 list \<Rightarrow> u32" where
  "xm_crc bs = foldl xm_crc_byte 0 bs AND 0xFFFF"

text \<open>The loop that reads the record; \<open>None\<close> when a byte does not come.\<close>

fun xm_read :: "nat \<Rightarrow> xm_line \<Rightarrow> u8 list option \<times> xm_line" where
  "xm_read 0 S = (Some [], S)"
| "xm_read (Suc n) S =
     (case xmodem_in_func S of
        (None, S) \<Rightarrow> (None, S)
      | (Some ch, S) \<Rightarrow> (let (r, S) = xm_read n S in (map_option ((#) ch) r, S)))"

text \<open>The checks on the \<open>PXM_ACKET_SIZE + 4\<close> bytes of a record.\<close>

definition xm_record_ok :: "u8 \<Rightarrow> u8 list \<Rightarrow> bool" where
  "xm_record_ok blocknum pbuf \<longleftrightarrow>
     (let chk = xm_crc (take PXM_ACKET_SIZE (drop 2 pbuf))
      in pbuf ! 0 = blocknum \<and> pbuf ! 1 = NOT blocknum
         \<and> ucast (pbuf ! (PXM_ACKET_SIZE + 2)) = drop_bit 8 chk AND 0xFF
         \<and> ucast (pbuf ! (PXM_ACKET_SIZE + 3)) = chk AND 0xFF)"

definition xmodem_get_record :: "u8 \<Rightarrow> xm_line \<Rightarrow> u8 list option \<times> xm_line" where
  "xmodem_get_record blocknum S =
     (case xm_read (PXM_ACKET_SIZE + 4) S of
        (Some pbuf, S) \<Rightarrow>
          if xm_record_ok blocknum pbuf then (Some pbuf, S) else (None, xmodem_out_func XM_NAK S)
      | (None, S) \<Rightarrow> (None, xmodem_out_func XM_NAK S))"

section \<open>Reception\<close>

text \<open>
  The variables of the loop. \<open>fresh l\<close> is what \<open>realloc\<close> to \<open>l\<close> bytes gives: \<open>None\<close> for
  a failure, otherwise the indeterminate contents of the block.
\<close>

record xm_vars =
  xm_starting :: bool
  xm_packnum :: u8
  xm_limit :: u32
  xm_size :: u32
  xm_dest :: "u8 list"

lemma length_quiet: "length (quiet r) \<le> length r"
  by (induction r rule: quiet.induct) auto

lemma in_func_shorter:
  "xmodem_in_func S = (Some b, T) \<Longrightarrow> length (xm_input T) < length (xm_input S)"
  "xmodem_in_func S = (None, T) \<Longrightarrow> length (xm_input T) \<le> length (xm_input S)"
  by (auto simp: xmodem_in_func_def split: list.splits)

lemma xm_read_shorter: "xm_read n S = (r, T) \<Longrightarrow> length (xm_input T) \<le> length (xm_input S)"
proof (induction n arbitrary: S r T)
  case (Suc n)
  obtain x U where xU: "xmodem_in_func S = (x, U)" by (cases "xmodem_in_func S")
  then have le: "length (xm_input U) \<le> length (xm_input S)"
    using in_func_shorter [where S=S and T=U] by (cases x) auto
  obtain q V where V: "xm_read n U = (q, V)" by (cases "xm_read n U")
  show ?case
    using Suc.prems Suc.IH [OF V] le by (cases x) (auto simp: xU V)
qed simp

lemma out_func_input [simp]: "xm_input (xmodem_out_func b S) = xm_input S"
  by (simp add: xmodem_out_func_def)

lemma get_record_shorter:
  "xmodem_get_record n S = (r, T) \<Longrightarrow> length (xm_input T) \<le> length (xm_input S)"
  by (auto simp: xmodem_get_record_def dest: xm_read_shorter split: prod.splits option.splits if_splits)

lemma flush_shorter: "length (xm_input (xmodem_flush how S)) \<le> length (xm_input S)"
  by (simp add: xmodem_flush_def Let_def length_quiet)

text \<open>Storing a packet: enlarging \<open>*dest\<close> if needed; \<open>None\<close> when there is no memory.\<close>

definition xm_grow :: "(nat \<Rightarrow> (nat \<Rightarrow> u8) option) \<Rightarrow> xm_vars \<Rightarrow> xm_vars option" where
  "xm_grow fresh v =
     (if xm_size v + of_nat PXM_ACKET_SIZE > xm_limit v then
        let limit = xm_limit v + XMODEM_INCREMENT_AMMOUNT
        in map_option (\<lambda>p. v\<lparr> xm_limit := limit, xm_dest := p \<rparr>)
             (c_realloc (Some (xm_dest v)) (fresh (unat limit)) (unat limit))
      else Some v)"

definition xm_store :: "u8 list \<Rightarrow> xm_vars \<Rightarrow> xm_vars" where
  "xm_store pbuf v =
     v\<lparr> xm_dest := put_bytes (xm_dest v) (unat (xm_size v)) (take PXM_ACKET_SIZE (drop 2 pbuf)),
        xm_size := xm_size v + of_nat PXM_ACKET_SIZE \<rparr>"

function xm_loop :: "(nat \<Rightarrow> (nat \<Rightarrow> u8) option) \<Rightarrow> nat \<Rightarrow> xm_vars \<Rightarrow> xm_line \<Rightarrow> int \<times> u8 list \<times> xm_line" where
  "xm_loop fresh 0 v S = (XMODEM_ERROR_RETRYEXCEED, xm_dest v, xmodem_flush XMODEM_FLUSH_AND_XM_CAN S)"
| "xm_loop fresh (Suc retries) v S =
     (let S = (if xm_starting v then xmodem_out_func 0x43 S else S) in
      case xmodem_in_func S of
        (None, S) \<Rightarrow> xm_loop fresh retries v S
      | (Some ch, S) \<Rightarrow>
          if ch \<noteq> XM_SOH \<and> ch \<noteq> XM_EOT \<and> ch \<noteq> XM_CAN then xm_loop fresh retries v S
          else if ch = XM_EOT then
            (uint (xm_size v), xm_dest v, xmodem_flush XMODEM_FLUSH_ONLY (xmodem_out_func XM_ACK S))
          else if ch = XM_CAN then
            (XMODEM_ERROR_REMOTECANCEL, xm_dest v, xmodem_flush XMODEM_FLUSH_ONLY (xmodem_out_func XM_ACK S))
          else
            (let v = v\<lparr> xm_starting := False \<rparr> in
             case xmodem_get_record (xm_packnum v) S of
               (None, S) \<Rightarrow> xm_loop fresh retries v S
             | (Some pbuf, S) \<Rightarrow>
                 (let S = xmodem_flush XMODEM_FLUSH_ONLY S; v = v\<lparr> xm_packnum := xm_packnum v + 1 \<rparr> in
                  case xm_grow fresh v of
                    None \<Rightarrow> (XMODEM_ERROR_OUTOFMEM, xm_dest v, xmodem_flush XMODEM_FLUSH_AND_XM_CAN S)
                  | Some v \<Rightarrow> xm_loop fresh XMODEM_RETRY_LIMIT (xm_store pbuf v) (xmodem_out_func XM_ACK S))))"
  by pat_completeness auto

termination xm_loop
  by (relation "measures [\<lambda>(fresh, retries, v, S). length (xm_input S), \<lambda>(fresh, retries, v, S). retries]")
    (auto dest!: in_func_shorter [OF sym] get_record_shorter [OF sym] split: if_splits,
      (meson flush_shorter le_less_trans)+)

definition xmodem_receive :: "(nat \<Rightarrow> (nat \<Rightarrow> u8) option) \<Rightarrow> u8 list \<Rightarrow> xm_line \<Rightarrow> int \<times> u8 list \<times> xm_line" where
  "xmodem_receive fresh dest S =
     xm_loop fresh XMODEM_RETRY_LIMIT
       \<lparr> xm_starting = True, xm_packnum = 1, xm_limit = XMODEM_INITIAL_BUFFER_SIZE, xm_size = 0, xm_dest = dest \<rparr> S"

section \<open>The checksum\<close>

text \<open>
  CRC-16 with the polynomial 0x1021 on a 16-bit register: what the source's 32-bit loop computes
  in its low half.
\<close>

definition crc16_bit :: "u16 \<Rightarrow> u16" where
  "crc16_bit c = (if bit c 15 then push_bit 1 c XOR 0x1021 else push_bit 1 c)"

definition crc16_byte :: "u16 \<Rightarrow> u8 \<Rightarrow> u16" where
  "crc16_byte c b = (crc16_bit ^^ 8) (c XOR push_bit 8 (ucast b))"

definition crc16 :: "u8 list \<Rightarrow> u16" where
  "crc16 bs = foldl crc16_byte 0 bs"

lemma test_bit_15: "(x :: u32) AND 0x8000 \<noteq> 0 \<longleftrightarrow> bit x 15"
proof -
  have "(0x8000 :: u32) = 2 ^ 15" by simp
  then show ?thesis by (simp only: and_exp_eq_0_iff_not_bit not_not)
qed

lemma low_bytes: "(y :: u32) AND 0xFFFF = take_bit 16 y" "y AND 0xFF = take_bit 8 y"
  using and_pow2_minus_1 [of y 16] and_pow2_minus_1 [of y 8] by simp_all

lemma bit_shift_1: "bit (push_bit 1 (z :: 'a::len word)) n \<longleftrightarrow> 0 < n \<and> n < LENGTH('a) \<and> bit z (n - 1)"
  by (auto simp: bit_push_bit_iff Suc_le_eq simp del: push_bit_Suc)

lemma ucast_xor: "ucast (a XOR b :: 'a::len word) = (ucast a XOR ucast b :: 'b::len word)"
  by (intro bit_word_eqI) (auto simp: bit_simps)

lemma ucast_push_bit: "LENGTH('b) \<le> LENGTH('a) \<Longrightarrow> ucast (push_bit n (a :: 'a::len word)) = (push_bit n (ucast a) :: 'b::len word)"
  by (intro bit_word_eqI) (auto simp: bit_simps)

lemma xm_crc_bit_low: "ucast (xm_crc_bit x) = crc16_bit (ucast x)"
proof -
  have "bit (ucast x :: u16) 15 = bit x 15" by (simp add: bit_simps)
  moreover have "ucast (push_bit 1 x) = (push_bit 1 (ucast x) :: u16)" by (rule ucast_push_bit) simp
  moreover have "ucast (0x1021 :: u32) = (0x1021 :: u16)" by simp
  ultimately show ?thesis
    by (simp only: xm_crc_bit_def crc16_bit_def test_bit_15 if_distrib [of ucast] ucast_xor)
qed

lemma xm_crc_byte_low: "ucast (xm_crc_byte x b) = crc16_byte (ucast x) b"
proof -
  have "ucast ((xm_crc_bit ^^ n) y) = (crc16_bit ^^ n) (ucast y)" for n y
    by (induction n) (simp_all add: xm_crc_bit_low)
  moreover have "ucast (x XOR push_bit 8 (ucast b)) = (ucast x XOR push_bit 8 (ucast b) :: u16)"
    by (intro bit_word_eqI) (auto simp: bit_simps)
  ultimately show ?thesis by (simp add: xm_crc_byte_def crc16_byte_def)
qed

lemma xm_crc_low: "xm_crc bs = ucast (crc16 bs)"
proof -
  have "ucast (foldl xm_crc_byte x bs) = foldl crc16_byte (ucast x) bs" for x
    by (induction bs arbitrary: x) (simp_all add: xm_crc_byte_low)
  from this [of 0] have "ucast (foldl xm_crc_byte 0 bs) = crc16 bs" by (simp add: crc16_def)
  then have "(ucast (crc16 bs) :: u32) = ucast (ucast (foldl xm_crc_byte 0 bs) :: u16)" by simp
  also have "\<dots> = foldl xm_crc_byte 0 bs AND 0xFFFF"
    unfolding low_bytes by (intro bit_word_eqI) (auto simp: bit_simps)
  finally show ?thesis by (simp add: xm_crc_def)
qed

text \<open>No two states of the register lead to the same state: a byte error is never forgotten.\<close>

lemma xor_cancel: "a XOR p = a XOR q \<longleftrightarrow> p = q" "p XOR a = q XOR a \<longleftrightarrow> p = q" for a p q :: "'a::len word"
proof -
  show *: "a XOR p = a XOR q \<longleftrightarrow> p = q" for a p q :: "'a word"
  proof
    assume "a XOR p = a XOR q"
    then have "a XOR (a XOR p) = a XOR (a XOR q)" by simp
    then show "p = q" by (simp flip: xor.assoc)
  qed simp
  show "p XOR a = q XOR a \<longleftrightarrow> p = q" using * [of a p q] by (simp add: xor.commute)
qed

lemma crc16_bit_inj: "crc16_bit x = crc16_bit y \<Longrightarrow> x = y"
proof -
  assume eq: "crc16_bit x = crc16_bit y"
  have low: "bit (crc16_bit z) 0 = bit z 15" for z
    by (simp add: crc16_bit_def bit_xor_iff bit_shift_1 del: push_bit_Suc One_nat_def)
  have top: "bit x 15 = bit y 15" using eq low by metis
  then have "push_bit 1 x = push_bit 1 y" using eq
    by (cases "bit x 15") (simp_all only: crc16_bit_def if_True if_False xor_cancel simp_thms)
  then have sh: "bit (push_bit 1 x) n = bit (push_bit 1 y) n" for n by simp
  show "x = y"
  proof (rule bit_word_eqI)
    fix n assume n: "n < LENGTH(16)"
    show "bit x n = bit y n"
    proof (cases "n = 15")
      case False
      with n have "Suc n < 16" by simp
      with sh [of "Suc n"] show ?thesis by (simp add: bit_shift_1 del: push_bit_Suc One_nat_def)
    qed (use top in simp)
  qed
qed

lemma crc16_bits_inj: "(crc16_bit ^^ n) x = (crc16_bit ^^ n) y \<Longrightarrow> x = y"
  by (induction n) (auto dest: crc16_bit_inj)

lemma crc16_byte_inj: "crc16_byte c b = crc16_byte c d \<Longrightarrow> b = d" "crc16_byte x b = crc16_byte y b \<Longrightarrow> x = y"
proof -
  show "x = y" if "crc16_byte x b = crc16_byte y b"
  proof -
    from that have "x XOR push_bit 8 (ucast b) = y XOR push_bit 8 (ucast b)"
      unfolding crc16_byte_def by (rule crc16_bits_inj)
    then show ?thesis by (simp only: xor_cancel)
  qed
  assume "crc16_byte c b = crc16_byte c d"
  then have "c XOR push_bit 8 (ucast b) = c XOR push_bit 8 (ucast d)"
    unfolding crc16_byte_def by (rule crc16_bits_inj)
  then have "(push_bit 8 (ucast b) :: u16) = push_bit 8 (ucast d)" by (simp only: xor_cancel)
  then have *: "bit (push_bit 8 (ucast b) :: u16) n = bit (push_bit 8 (ucast d) :: u16) n" for n by simp
  show "b = d"
  proof (rule bit_word_eqI)
    fix n assume "n < LENGTH(8)"
    with * [of "n + 8"] show "bit b n = bit d n" by (simp add: bit_simps)
  qed
qed

lemma crc16_detects_byte:
  assumes "i < length bs" "bs ! i \<noteq> b"
  shows "crc16 (bs[i := b]) \<noteq> crc16 bs"
proof
  assume eq: "crc16 (bs[i := b]) = crc16 bs"
  define c where "c = foldl crc16_byte 0 (take i bs)"
  have split: "bs = take i bs @ (bs ! i) # drop (Suc i) bs" using assms(1) by (simp add: id_take_nth_drop)
  have upd: "bs[i := b] = take i bs @ b # drop (Suc i) bs" using assms(1) by (simp add: upd_conv_take_nth_drop)
  have suffix: "foldl crc16_byte x ds = foldl crc16_byte y ds \<Longrightarrow> x = y" for x y ds
    by (induction ds arbitrary: x y) (auto dest: crc16_byte_inj(2))
  have "crc16 (bs[i := b]) = foldl crc16_byte (crc16_byte c b) (drop (Suc i) bs)"
    by (simp add: crc16_def upd c_def)
  moreover have "crc16 bs = foldl crc16_byte (crc16_byte c (bs ! i)) (drop (Suc i) bs)"
    using split unfolding crc16_def c_def by (metis foldl_Cons foldl_append)
  ultimately have "crc16_byte c b = crc16_byte c (bs ! i)" using eq suffix by metis
  with assms(2) show False by (auto dest: crc16_byte_inj(1))
qed

text \<open>What a correct record is.\<close>

lemma record_ok_iff:
  "xm_record_ok n pbuf \<longleftrightarrow> pbuf ! 0 = n \<and> pbuf ! 1 = NOT n
    \<and> pbuf ! 130 = ucast (drop_bit 8 (crc16 (take 128 (drop 2 pbuf))))
    \<and> pbuf ! 131 = ucast (crc16 (take 128 (drop 2 pbuf)))"
proof -
  define c where "c = crc16 (take 128 (drop 2 pbuf))"
  have hi: "drop_bit 8 (ucast c) AND 0xFF = (ucast (ucast (drop_bit 8 c) :: u8) :: u32)"
    unfolding low_bytes by (intro bit_word_eqI) (auto simp: bit_simps)
  have lo: "ucast c AND 0xFF = (ucast (ucast c :: u8) :: u32)"
    unfolding low_bytes by (intro bit_word_eqI) (auto simp: bit_simps)
  have inj: "(ucast x :: u32) = ucast y \<longleftrightarrow> x = y" for x y :: u8
    by (simp add: word_unat_eq_iff unat_ucast_up)
  show ?thesis
    by (simp only: xm_record_ok_def Let_def xm_crc_low PXM_ACKET_SIZE_def c_def [symmetric] hi lo inj) simp
qed

section \<open>Frames on the line\<close>

text \<open>The sender of the protocol: block \<open>n\<close> with 128 bytes of data.\<close>

definition xm_frame :: "u8 \<Rightarrow> u8 list \<Rightarrow> u8 list" where
  "xm_frame n d = [n, NOT n] @ d @ [ucast (drop_bit 8 (crc16 d)), ucast (crc16 d)]"

lemma length_frame: "length d = 128 \<Longrightarrow> length (xm_frame n d) = 132"
  by (simp add: xm_frame_def)

lemma frame_data: "length d = 128 \<Longrightarrow> take 128 (drop 2 (xm_frame n d)) = d"
  by (simp add: xm_frame_def)

lemma frame_ok: "length d = 128 \<Longrightarrow> xm_record_ok n (xm_frame n d)"
  unfolding record_ok_iff frame_data by (simp add: xm_frame_def nth_append)

lemma xm_read_bytes:
  "xm_input S = map Some bs @ rest \<Longrightarrow> xm_read (length bs) S = (Some bs, S\<lparr> xm_input := rest \<rparr>)"
  by (induction bs arbitrary: S) (simp_all add: xmodem_in_func_def)

lemma in_func_some: "xm_input S = Some b # rest \<Longrightarrow> xmodem_in_func S = (Some b, S\<lparr> xm_input := rest \<rparr>)"
  by (simp add: xmodem_in_func_def)

lemma get_record_line:
  assumes "xm_input S = map Some bs @ rest" "length bs = 132"
  shows "xmodem_get_record n S = (if xm_record_ok n bs then (Some bs, S\<lparr> xm_input := rest \<rparr>)
    else (None, xmodem_out_func XM_NAK (S\<lparr> xm_input := rest \<rparr>)))"
  using xm_read_bytes [OF assms(1)] assms(2) by (simp add: xmodem_get_record_def PXM_ACKET_SIZE_def)

text \<open>
  The failures of one attempt: silence, or a record of the right length that does not check.
\<close>

datatype xm_attempt = Silence | Garbled "u8 list"

fun attempt_line :: "xm_attempt \<Rightarrow> u8 option list" where
  "attempt_line Silence = [None]"
| "attempt_line (Garbled bs) = Some XM_SOH # map Some bs"

fun attempt_fails :: "u8 \<Rightarrow> xm_attempt \<Rightarrow> bool" where
  "attempt_fails n Silence = True"
| "attempt_fails n (Garbled bs) \<longleftrightarrow> length bs = 132 \<and> \<not> xm_record_ok n bs"

lemma failed_attempt:
  assumes "attempt_fails (xm_packnum v) a" "xm_input S = attempt_line a @ rest"
  shows "\<exists>st out. xm_loop fresh (Suc r) v S
    = xm_loop fresh r (v\<lparr> xm_starting := st \<rparr>) (S\<lparr> xm_input := rest, xm_output := out \<rparr>)"
proof -
  define S1 where "S1 = (if xm_starting v then xmodem_out_func 0x43 S else S)"
  define out where "out = xm_output S1"
  have S1: "S1 = S\<lparr> xm_output := out \<rparr>" by (simp add: out_def S1_def xmodem_out_func_def)
  show ?thesis
  proof (cases a)
    case Silence
    then have "xmodem_in_func S1 = (None, S\<lparr> xm_input := rest, xm_output := out \<rparr>)"
      using assms(2) by (simp add: S1 xmodem_in_func_def)
    then have "xm_loop fresh (Suc r) v S = xm_loop fresh r v (S\<lparr> xm_input := rest, xm_output := out \<rparr>)"
      by (simp add: S1_def [symmetric] Let_def)
    then have "xm_loop fresh (Suc r) v S
        = xm_loop fresh r (v\<lparr> xm_starting := xm_starting v \<rparr>) (S\<lparr> xm_input := rest, xm_output := out \<rparr>)" by simp
    then show ?thesis by blast
  next
    case (Garbled bs)
    then have inp: "xmodem_in_func S1 = (Some XM_SOH, S1\<lparr> xm_input := map Some bs @ rest \<rparr>)"
      using assms(2) by (simp add: S1 in_func_some)
    let ?S2 = "S1\<lparr> xm_input := map Some bs @ rest \<rparr>"
    have "xmodem_get_record (xm_packnum v) ?S2 = (None, xmodem_out_func XM_NAK (?S2\<lparr> xm_input := rest \<rparr>))"
      using get_record_line [of ?S2 bs rest "xm_packnum v"] assms(1) Garbled by simp
    then have "xm_loop fresh (Suc r) v S = xm_loop fresh r (v\<lparr> xm_starting := False \<rparr>)
        (xmodem_out_func XM_NAK (?S2\<lparr> xm_input := rest \<rparr>))"
      using inp by (simp add: S1_def [symmetric] Let_def) (simp add: xm_codes)
    moreover have "xmodem_out_func XM_NAK (?S2\<lparr> xm_input := rest \<rparr>)
        = S\<lparr> xm_input := rest, xm_output := out @ [XM_NAK] \<rparr>"
      by (simp add: S1 xmodem_out_func_def)
    ultimately show ?thesis by auto
  qed
qed

lemma failed_attempts:
  assumes "\<forall>a \<in> set as. attempt_fails (xm_packnum v) a" "xm_input S = concat (map attempt_line as) @ rest"
    and "length as \<le> r"
  shows "\<exists>st out. xm_loop fresh r v S
    = xm_loop fresh (r - length as) (v\<lparr> xm_starting := st \<rparr>) (S\<lparr> xm_input := rest, xm_output := out \<rparr>)"
  using assms
proof (induction as arbitrary: v S r)
  case Nil
  then have "xm_input S = rest" by simp
  then have "S = S\<lparr> xm_input := rest, xm_output := xm_output S \<rparr>" by auto
  then have "xm_loop fresh r v S = xm_loop fresh r (v\<lparr> xm_starting := xm_starting v \<rparr>)
      (S\<lparr> xm_input := rest, xm_output := xm_output S \<rparr>)" by simp
  then show ?case unfolding list.size diff_zero by blast
next
  case (Cons a as)
  then obtain r' where r: "r = Suc r'" by (cases r) auto
  let ?rest = "concat (map attempt_line as) @ rest"
  from Cons.prems failed_attempt [of v a S ?rest fresh r'] r obtain st out where
    1: "xm_loop fresh r v S = xm_loop fresh r' (v\<lparr> xm_starting := st \<rparr>) (S\<lparr> xm_input := ?rest, xm_output := out \<rparr>)"
    by auto
  from Cons.IH [of "v\<lparr> xm_starting := st \<rparr>" "S\<lparr> xm_input := ?rest, xm_output := out \<rparr>" r'] Cons.prems r
  obtain st2 out2 where "xm_loop fresh r' (v\<lparr> xm_starting := st \<rparr>) (S\<lparr> xm_input := ?rest, xm_output := out \<rparr>)
      = xm_loop fresh (r' - length as) (v\<lparr> xm_starting := st2 \<rparr>) (S\<lparr> xm_input := rest, xm_output := out2 \<rparr>)"
    by auto
  with 1 r show ?case by auto
qed

lemma accepted_block:
  assumes "xm_input S = Some XM_SOH # map Some (xm_frame (xm_packnum v) d) @ None # rest" "length d = 128"
    and "xm_grow fresh (v\<lparr> xm_starting := False, xm_packnum := xm_packnum v + 1 \<rparr>) = Some w"
  shows "\<exists>out. xm_loop fresh (Suc r) v S
    = xm_loop fresh XMODEM_RETRY_LIMIT (xm_store (xm_frame (xm_packnum v) d) w) (S\<lparr> xm_input := rest, xm_output := out \<rparr>)"
proof -
  define S1 where "S1 = (if xm_starting v then xmodem_out_func 0x43 S else S)"
  define out where "out = xm_output S1"
  have S1: "S1 = S\<lparr> xm_output := out \<rparr>" by (simp add: out_def S1_def xmodem_out_func_def)
  let ?fr = "xm_frame (xm_packnum v) d"
  let ?S2 = "S1\<lparr> xm_input := map Some ?fr @ None # rest \<rparr>"
  have inp: "xmodem_in_func S1 = (Some XM_SOH, ?S2)" using assms(1) by (simp add: S1 in_func_some)
  have "xmodem_get_record (xm_packnum v) ?S2 = (Some ?fr, ?S2\<lparr> xm_input := None # rest \<rparr>)"
    using get_record_line [of ?S2 ?fr "None # rest" "xm_packnum v"] length_frame [OF assms(2)] frame_ok [OF assms(2)] by simp
  moreover have "xmodem_flush XMODEM_FLUSH_ONLY (?S2\<lparr> xm_input := None # rest \<rparr>) = S1\<lparr> xm_input := rest \<rparr>"
    by (simp add: xmodem_flush_def)
  ultimately have "xm_loop fresh (Suc r) v S
    = xm_loop fresh XMODEM_RETRY_LIMIT (xm_store ?fr w) (xmodem_out_func XM_ACK (S1\<lparr> xm_input := rest \<rparr>))"
    using inp assms(3) by (simp add: S1_def [symmetric] Let_def) (simp add: xm_codes)
  moreover have "xmodem_out_func XM_ACK (S1\<lparr> xm_input := rest \<rparr>) = S\<lparr> xm_input := rest, xm_output := out @ [XM_ACK] \<rparr>"
    by (simp add: S1 xmodem_out_func_def)
  ultimately show ?thesis by auto
qed

section \<open>A whole transmission\<close>

text \<open>
  What reaches the receiver when every block is preceded by some failed attempts: the block
  numbers count up from the first one, and the line is silent after every accepted block.
\<close>

type_synonym xm_block = "xm_attempt list \<times> u8 list"

fun xm_transmission :: "u8 \<Rightarrow> xm_block list \<Rightarrow> u8 option list" where
  "xm_transmission n [] = []"
| "xm_transmission n ((as, d) # bl) =
     concat (map attempt_line as) @ Some XM_SOH # map Some (xm_frame n d) @ None # xm_transmission (n + 1) bl"

fun xm_blocks_ok :: "u8 \<Rightarrow> xm_block list \<Rightarrow> bool" where
  "xm_blocks_ok n [] = True"
| "xm_blocks_ok n ((as, d) # bl) \<longleftrightarrow>
     length d = 128 \<and> length as < XMODEM_RETRY_LIMIT \<and> (\<forall>a \<in> set as. attempt_fails n a) \<and> xm_blocks_ok (n + 1) bl"

definition xm_room :: "nat \<Rightarrow> xm_vars \<Rightarrow> bool" where
  "xm_room k v \<longleftrightarrow> unat (xm_size v) \<le> unat (xm_limit v) \<and> unat (xm_limit v) \<le> length (xm_dest v)
     \<and> unat (xm_limit v) \<le> max 1024 (unat (xm_size v) + 512) \<and> unat (xm_size v) + 128 * k \<le> 2 ^ 31"

lemma grow_room:
  assumes "xm_room (Suc k) v" "\<forall>l. fresh l \<noteq> None"
  shows "\<exists>w. xm_grow fresh v = Some w \<and> xm_size w = xm_size v \<and> xm_packnum w = xm_packnum v
    \<and> take (unat (xm_size v)) (xm_dest w) = take (unat (xm_size v)) (xm_dest v)
    \<and> unat (xm_size v) + 128 \<le> unat (xm_limit w) \<and> unat (xm_limit w) \<le> length (xm_dest w)
    \<and> unat (xm_limit w) \<le> max 1024 (unat (xm_size v) + 128 + 512)"
proof -
  let ?n = "unat (xm_size v)"
  have b: "?n \<le> unat (xm_limit v)" "unat (xm_limit v) \<le> length (xm_dest v)" "?n + 128 \<le> 2147483648"
    "unat (xm_limit v) \<le> max 1024 (?n + 512)"
    using assms(1) by (simp_all add: xm_room_def)
  have sz: "unat (xm_size v + of_nat PXM_ACKET_SIZE) = ?n + 128"
    using b(3) by (simp add: PXM_ACKET_SIZE_def unat_word_ariths)
  show ?thesis
  proof (cases "xm_size v + of_nat PXM_ACKET_SIZE > xm_limit v")
    case False
    with sz have "?n + 128 \<le> unat (xm_limit v)" by (simp add: word_less_nat_alt)
    with False b show ?thesis by (auto simp: xm_grow_def)
  next
    case True
    with sz have lt: "unat (xm_limit v) < ?n + 128" by (simp add: word_less_nat_alt)
    then have l2: "unat (xm_limit v + XMODEM_INCREMENT_AMMOUNT) = unat (xm_limit v) + 512"
      using b(3) by (simp add: XMODEM_INCREMENT_AMMOUNT_def unat_word_ariths)
    obtain junk where "fresh (unat (xm_limit v + XMODEM_INCREMENT_AMMOUNT)) = Some junk" using assms(2) by blast
    then obtain p where p: "c_realloc (Some (xm_dest v)) (fresh (unat (xm_limit v + XMODEM_INCREMENT_AMMOUNT)))
        (unat (xm_limit v + XMODEM_INCREMENT_AMMOUNT)) = Some p" "length p = unat (xm_limit v) + 512"
      "\<And>i. i < length (xm_dest v) \<Longrightarrow> i < unat (xm_limit v) + 512 \<Longrightarrow> p ! i = xm_dest v ! i"
      by (simp add: c_realloc_def Let_def l2)
    have "take ?n p = take ?n (xm_dest v)"
      by (rule nth_equalityI) (use p b in auto)
    with True p(1,2) lt b l2 show ?thesis by (auto simp: xm_grow_def Let_def)
  qed
qed

lemma transmission_received:
  assumes "xm_blocks_ok (xm_packnum v) bl" "xm_room (length bl) v" "\<forall>l. fresh l \<noteq> None"
    and "xm_input S = xm_transmission (xm_packnum v) bl @ rest"
  shows "\<exists>w out. xm_loop fresh XMODEM_RETRY_LIMIT v S
      = xm_loop fresh XMODEM_RETRY_LIMIT w (S\<lparr> xm_input := rest, xm_output := out \<rparr>)
    \<and> unat (xm_size w) = unat (xm_size v) + 128 * length bl
    \<and> take (unat (xm_size w)) (xm_dest w) = take (unat (xm_size v)) (xm_dest v) @ concat (map snd bl)"
  using assms
proof (induction bl arbitrary: v S)
  case Nil
  then have "xm_input S = rest" by simp
  then have "S = S\<lparr> xm_input := rest, xm_output := xm_output S \<rparr>" by auto
  then show ?case by (intro exI [of _ v] exI [of _ "xm_output S"]) simp
next
  case (Cons b bl)
  obtain as d where b: "b = (as, d)" by (cases b)
  let ?n = "xm_packnum v" and ?k = "unat (xm_size v)"
  let ?rest = "xm_transmission (?n + 1) bl @ rest"
  have ok: "length d = 128" "length as < XMODEM_RETRY_LIMIT" "\<forall>a \<in> set as. attempt_fails ?n a" "xm_blocks_ok (?n + 1) bl"
    using Cons.prems(1) by (simp_all add: b)
  have room: "xm_room (Suc (length bl)) v" using Cons.prems(2) by simp
  have line: "xm_input S = concat (map attempt_line as) @ (Some XM_SOH # map Some (xm_frame ?n d) @ None # ?rest)"
    using Cons.prems(4) by (simp add: b)
  obtain st out where 1: "xm_loop fresh XMODEM_RETRY_LIMIT v S = xm_loop fresh (XMODEM_RETRY_LIMIT - length as)
      (v\<lparr> xm_starting := st \<rparr>) (S\<lparr> xm_input := Some XM_SOH # map Some (xm_frame ?n d) @ None # ?rest, xm_output := out \<rparr>)"
    using failed_attempts [OF ok(3) line less_imp_le [OF ok(2)], of fresh] by blast
  obtain r where r: "XMODEM_RETRY_LIMIT - length as = Suc r" using ok(2) by (cases "XMODEM_RETRY_LIMIT - length as") auto
  let ?v = "v\<lparr> xm_starting := False, xm_packnum := ?n + 1 \<rparr>"
  have "xm_room (Suc (length bl)) ?v" using room by (simp add: xm_room_def)
  from grow_room [OF this Cons.prems(3)] obtain w where w: "xm_grow fresh ?v = Some w" "xm_size w = xm_size v"
    "xm_packnum w = ?n + 1" "take ?k (xm_dest w) = take ?k (xm_dest v)" "?k + 128 \<le> unat (xm_limit w)"
    "unat (xm_limit w) \<le> length (xm_dest w)" "unat (xm_limit w) \<le> max 1024 (?k + 128 + 512)" by auto
  define u where "u = xm_store (xm_frame ?n d) w"
  obtain out2 where 2: "xm_loop fresh (Suc r) (v\<lparr> xm_starting := st \<rparr>)
      (S\<lparr> xm_input := Some XM_SOH # map Some (xm_frame ?n d) @ None # ?rest, xm_output := out \<rparr>)
      = xm_loop fresh XMODEM_RETRY_LIMIT u (S\<lparr> xm_input := ?rest, xm_output := out2 \<rparr>)"
    using accepted_block [of "S\<lparr> xm_input := Some XM_SOH # map Some (xm_frame ?n d) @ None # ?rest, xm_output := out \<rparr>"
        "v\<lparr> xm_starting := st \<rparr>" d ?rest fresh w r] w(1) ok(1) by (auto simp: u_def)
  have k31: "?k + 128 * Suc (length bl) \<le> 2147483648" using room by (simp add: xm_room_def)
  have usz: "unat (xm_size u) = ?k + 128"
    using k31 by (simp add: u_def xm_store_def w PXM_ACKET_SIZE_def unat_word_ariths)
  have dest: "xm_dest u = put_bytes (xm_dest w) ?k d"
    by (simp add: u_def xm_store_def w PXM_ACKET_SIZE_def frame_data [OF ok(1)])
  have "xm_packnum u = ?n + 1" "xm_limit u = xm_limit w" by (simp_all add: u_def xm_store_def w)
  moreover have "xm_room (length bl) u"
    using w k31 calculation(2) by (simp add: xm_room_def usz dest)
  ultimately obtain x out3 where 3: "xm_loop fresh XMODEM_RETRY_LIMIT u (S\<lparr> xm_input := ?rest, xm_output := out2 \<rparr>)
      = xm_loop fresh XMODEM_RETRY_LIMIT x (S\<lparr> xm_input := rest, xm_output := out3 \<rparr>)"
    "unat (xm_size x) = unat (xm_size u) + 128 * length bl"
    "take (unat (xm_size x)) (xm_dest x) = take (unat (xm_size u)) (xm_dest u) @ concat (map snd bl)"
    using Cons.IH [of u "S\<lparr> xm_input := ?rest, xm_output := out2 \<rparr>"] ok(4) Cons.prems(3) by auto
  have "take (?k + 128) (put_bytes (xm_dest w) ?k d) = take ?k (xm_dest w) @ d"
    by (rule nth_equalityI) (use w(5,6) ok(1) in \<open>auto simp: nth_put_bytes nth_append\<close>)
  then have "take (unat (xm_size x)) (xm_dest x) = take ?k (xm_dest v) @ concat (map snd (b # bl))"
    using 3(3) by (simp add: usz dest w(4) b)
  with 1 2 3 r usz show ?case by auto
qed

section \<open>Properties\<close>

text \<open>
  C9: a file arrives complete. If every block of 128 bytes reaches the receiver intact after
  fewer than 20 failed attempts (silence, or a record that does not check), and the end of the
  transmission follows, and memory is available, then \<open>xmodem_receive\<close> returns the number of
  bytes sent and \<open>*dest\<close> starts with exactly these bytes in order, however many blocks there
  are (the block number wraps) up to 2 GB.
\<close>

theorem xmodem_receives_file:
  assumes "xm_blocks_ok 1 bl" "128 * length bl \<le> 2 ^ 31" "\<forall>l. fresh l \<noteq> None" "1024 \<le> length dest"
    and "xm_input S = xm_transmission 1 bl @ Some XM_EOT # rest"
  shows "\<exists>dest' T. xmodem_receive fresh dest S = (int (128 * length bl), dest', T)
    \<and> take (128 * length bl) dest' = concat (map snd bl)"
proof -
  let ?v = "\<lparr> xm_starting = True, xm_packnum = 1, xm_limit = XMODEM_INITIAL_BUFFER_SIZE, xm_size = 0, xm_dest = dest \<rparr>"
  have "xm_room (length bl) ?v" using assms(2,4) by (simp add: xm_room_def XMODEM_INITIAL_BUFFER_SIZE_def)
  from transmission_received [OF _ this assms(3), where S=S and rest="Some XM_EOT # rest"] assms(1,5)
  obtain w out where w: "xm_loop fresh XMODEM_RETRY_LIMIT ?v S
      = xm_loop fresh XMODEM_RETRY_LIMIT w (S\<lparr> xm_input := Some XM_EOT # rest, xm_output := out \<rparr>)"
    "unat (xm_size w) = 128 * length bl" "take (unat (xm_size w)) (xm_dest w) = concat (map snd bl)" by auto
  obtain k where k: "XMODEM_RETRY_LIMIT = Suc k" by (cases XMODEM_RETRY_LIMIT) (simp_all add: XMODEM_RETRY_LIMIT_def)
  have "\<exists>T. xm_loop fresh XMODEM_RETRY_LIMIT w (S\<lparr> xm_input := Some XM_EOT # rest, xm_output := out \<rparr>)
      = (uint (xm_size w), xm_dest w, T)"
    unfolding k by (simp add: Let_def xmodem_in_func_def xmodem_out_func_def xm_codes)
  moreover have "uint (xm_size w) = int (128 * length bl)"
    using w(2) by (metis int_nat_eq of_nat_unat)
  ultimately show ?thesis using w by (auto simp: xmodem_receive_def)
qed

theorem xmodem_receives_file_witness:
  "\<exists>dest' T. xmodem_receive (\<lambda>_. Some (\<lambda>_. 0)) (replicate 1024 0)
     \<lparr> xm_input = xm_transmission 1 [([Silence, Silence], replicate 128 7), ([], replicate 128 9)] @ [Some XM_EOT], xm_output = [] \<rparr>
     = (256, dest', T) \<and> take 256 dest' = replicate 128 7 @ replicate 128 9"
  using xmodem_receives_file [of "[([Silence, Silence], replicate 128 7), ([], replicate 128 9)]" "\<lambda>_. Some (\<lambda>_. 0)"
      "replicate 1024 0" "\<lparr> xm_input = xm_transmission 1 [([Silence, Silence], replicate 128 7), ([], replicate 128 9)] @ [Some XM_EOT], xm_output = [] \<rparr>" "[]"]
  by (simp add: XMODEM_RETRY_LIMIT_def del: xm_transmission.simps replicate.simps)

text \<open>
  a record with one wrong byte is refused. Whatever byte of an intact record is changed, be it
  in the block number, its complement, the data or the checksum, the changed record does not check.
\<close>

lemma one_byte_error_detected:
  assumes "length pbuf = 132" "xm_record_ok n pbuf" "i < 132" "b \<noteq> pbuf ! i"
  shows "\<not> xm_record_ok n (pbuf[i := b])"
proof -
  consider "i < 2" | "2 \<le> i" "i < 130" | "130 \<le> i" by linarith
  then show ?thesis
  proof cases
    case 2
    from 2(1) obtain j where j: "i = Suc (Suc j)" by (metis add_2_eq_Suc le_Suc_ex)
    have "take 128 (drop 2 (pbuf[i := b])) = (take 128 (drop 2 pbuf))[j := b]"
      by (simp add: j drop_update_swap take_update_swap)
    moreover have "j < length (take 128 (drop 2 pbuf))" "(take 128 (drop 2 pbuf)) ! j \<noteq> b"
      using 2 assms by (auto simp: j)
    ultimately have ne: "crc16 (take 128 (drop 2 (pbuf[i := b]))) \<noteq> crc16 (take 128 (drop 2 pbuf))"
      using crc16_detects_byte [of j "take 128 (drop 2 pbuf)" b] by simp
    have split: "c = d" if "ucast (drop_bit 8 c) = (ucast (drop_bit 8 d) :: u8)" "ucast c = (ucast d :: u8)" for c d :: u16
    proof (rule bit_word_eqI)
      fix k assume k: "k < LENGTH(16)"
      have hi: "bit (ucast (drop_bit 8 c) :: u8) m = bit (ucast (drop_bit 8 d) :: u8) m" for m using that(1) by simp
      have lo: "bit (ucast c :: u8) m = bit (ucast d :: u8) m" for m using that(2) by simp
      show "bit c k = bit d k"
        using lo [of k] hi [of "k - 8"] k by (cases "k < 8") (auto simp: bit_simps)
    qed
    show ?thesis
    proof
      assume "xm_record_ok n (pbuf[i := b])"
      moreover have "(pbuf[i := b]) ! 130 = pbuf ! 130" "(pbuf[i := b]) ! 131 = pbuf ! 131" using 2 by simp_all
      ultimately have "crc16 (take 128 (drop 2 (pbuf[i := b]))) = crc16 (take 128 (drop 2 pbuf))"
        using assms(2) unfolding record_ok_iff by (intro split) simp_all
      with ne show False by contradiction
    qed
  next
    case 1
    then have "i = 0 \<or> i = 1" by linarith
    then show ?thesis using assms unfolding record_ok_iff by auto
  next
    case 3
    then have "take 128 (drop 2 (pbuf[i := b])) = take 128 (drop 2 pbuf)" "i = 130 \<or> i = 131"
      using assms(3) by (auto simp: drop_update_swap)
    then show ?thesis using assms unfolding record_ok_iff by auto
  qed
qed

theorem one_byte_error_detected_witness:
  "\<not> xm_record_ok 3 ((xm_frame 3 (replicate 128 0x41))[77 := 0x42])"
proof (rule one_byte_error_detected)
  show "length (xm_frame 3 (replicate 128 0x41)) = 132" "xm_record_ok 3 (xm_frame 3 (replicate 128 0x41))"
    by (simp_all add: length_frame frame_ok)
  show "0x42 \<noteq> xm_frame 3 (replicate 128 0x41) ! 77" by (simp add: xm_frame_def nth_append)
qed simp

text \<open>
  a lost acknowledgement is fatal. When the receiver waits for block \<open>n + 1\<close> and the sender,
  that did not see the acknowledgement, keeps repeating block \<open>n\<close>, the receiver refuses every
  copy (the protocol asks for it to be acknowledged and dropped) and gives up after the retry
  limit.
\<close>

lemma repeated_block_never_acknowledged:
  assumes "length d = 128" "xm_packnum v = n + 1"
    and "xm_input S = concat (replicate XMODEM_RETRY_LIMIT (Some XM_SOH # map Some (xm_frame n d))) @ rest"
  shows "fst (xm_loop fresh XMODEM_RETRY_LIMIT v S) = XMODEM_ERROR_RETRYEXCEED
    \<and> fst (snd (xm_loop fresh XMODEM_RETRY_LIMIT v S)) = xm_dest v"
proof -
  let ?as = "replicate XMODEM_RETRY_LIMIT (Garbled (xm_frame n d))"
  have "\<not> xm_record_ok (n + 1) (xm_frame n d)" unfolding record_ok_iff by (simp add: xm_frame_def)
  then have "\<forall>a \<in> set ?as. attempt_fails (xm_packnum v) a" using assms by (simp add: length_frame)
  moreover have "xm_input S = concat (map attempt_line ?as) @ rest" using assms(3) by simp
  ultimately obtain st out where "xm_loop fresh XMODEM_RETRY_LIMIT v S
    = xm_loop fresh 0 (v\<lparr> xm_starting := st \<rparr>) (S\<lparr> xm_input := rest, xm_output := out \<rparr>)"
    using failed_attempts [of ?as v S rest XMODEM_RETRY_LIMIT fresh] by auto
  then show ?thesis by simp
qed

theorem repeated_block_never_acknowledged_witness:
  "fst (xm_loop (\<lambda>_. None) XMODEM_RETRY_LIMIT
      \<lparr> xm_starting = False, xm_packnum = 2, xm_limit = 1024, xm_size = 128, xm_dest = replicate 1024 0 \<rparr>
      \<lparr> xm_input = concat (replicate XMODEM_RETRY_LIMIT (Some XM_SOH # map Some (xm_frame 1 (replicate 128 7)))), xm_output = [] \<rparr>)
    = XMODEM_ERROR_RETRYEXCEED"
proof -
  let ?v = "\<lparr> xm_starting = False, xm_packnum = 2, xm_limit = 1024, xm_size = 128, xm_dest = replicate 1024 (0 :: u8) \<rparr>"
  let ?S = "\<lparr> xm_input = concat (replicate XMODEM_RETRY_LIMIT (Some XM_SOH # map Some (xm_frame 1 (replicate 128 7)))),
    xm_output = [] :: u8 list \<rparr>"
  have "length (replicate 128 (7 :: u8)) = 128" "xm_packnum ?v = 1 + 1"
    "xm_input ?S = concat (replicate XMODEM_RETRY_LIMIT (Some XM_SOH # map Some (xm_frame 1 (replicate 128 7)))) @ []"
    by simp_all
  from repeated_block_never_acknowledged [OF this] show ?thesis by blast
qed

end
