(* ===== verification/Devman.thy ===== *)
theory Devman
  imports Prelude
begin

text \<open>
  The device manager, \<open>src/newlib/devman.c\<close> with \<open>inc/newlib/devman.h\<close>, and the system
  calls of \<open>src/newlib/stubs.c\<close> that go through it: a path names a device and a file of it, an
  open file is a descriptor that packs the device index with the device's own descriptor.

  A device is a record of optional functions (\<open>None\<close> is NULL) on a state \<open>'s\<close> that all
  devices share; a device function also says which \<open>errno\<close> it sets. Strings are the bytes up to
  their terminator. A call through a NULL device pointer is the result \<open>None\<close>.
\<close>

section \<open>Strings\<close>

definition c_tolower :: "u8 \<Rightarrow> u8" where
  "c_tolower c = (if 0x41 \<le> c \<and> c \<le> 0x5A then c + 0x20 else c)"

text \<open>\<open>strcasecmp( a, b ) == 0\<close> and \<open>strncasecmp( a, b, n ) == 0\<close>.\<close>

definition strcaseeq :: "u8 list \<Rightarrow> u8 list \<Rightarrow> bool" where
  "strcaseeq a b \<longleftrightarrow> map c_tolower a = map c_tolower b"

definition strncaseeq :: "nat \<Rightarrow> u8 list \<Rightarrow> u8 list \<Rightarrow> bool" where
  "strncaseeq n a b \<longleftrightarrow> map c_tolower (take n a) = map c_tolower (take n b)"

definition SLASH :: u8 where "SLASH = 0x2F"

text \<open>\<open>strchr\<close>: the offset of the first occurrence.\<close>

fun strchr :: "u8 \<Rightarrow> u8 list \<Rightarrow> nat option" where
  "strchr c [] = None"
| "strchr c (x # xs) = (if x = c then Some 0 else map_option Suc (strchr c xs))"

section \<open>Devices\<close>

datatype dm_errno = ENOSYS | ENODEV | ENOMEM | EBADF | EINVAL | ENFILE | ENOENT

type_synonym ('r, 's) devcall = "'s \<Rightarrow> 'r \<times> dm_errno option \<times> 's"

record dm_dirent =
  de_fsize :: u32
  de_fname :: "u8 list"
  de_ftime :: u32

record 's dm_device =
  dev_name :: "u8 list"
  p_open_r :: "(u8 list \<Rightarrow> int \<Rightarrow> int \<Rightarrow> (int, 's) devcall) option"
  p_close_r :: "(int \<Rightarrow> (int, 's) devcall) option"
  p_write_r :: "(int \<Rightarrow> u8 list \<Rightarrow> (int, 's) devcall) option"
  p_read_r :: "(int \<Rightarrow> nat \<Rightarrow> (int \<times> u8 list, 's) devcall) option"
  p_lseek_r :: "(int \<Rightarrow> int \<Rightarrow> int \<Rightarrow> (int, 's) devcall) option"
  p_fstat_r :: "(int \<Rightarrow> (int, 's) devcall) option"
  p_opendir_r :: "(u8 list \<Rightarrow> (u32 option, 's) devcall) option"
  p_readdir_r :: "(u32 \<Rightarrow> (dm_dirent option, 's) devcall) option"
  p_closedir_r :: "(u32 \<Rightarrow> (int, 's) devcall) option"

definition DM_MAX_DEVICES :: nat where "DM_MAX_DEVICES = 16"
definition DM_MAX_DEVICES_BITS :: nat where "DM_MAX_DEVICES_BITS = 4"
definition DM_MAX_DEV_NAME :: nat where "DM_MAX_DEV_NAME = 12"
definition DM_MAX_FNAME_LENGTH :: nat where "DM_MAX_FNAME_LENGTH = 30"

definition DM_ERR_ALREADY_REGISTERED :: int where "DM_ERR_ALREADY_REGISTERED = -1"
definition DM_ERR_NOT_REGISTERED :: int where "DM_ERR_NOT_REGISTERED = -2"
definition DM_ERR_NO_SPACE :: int where "DM_ERR_NO_SPACE = -3"
definition DM_ERR_INVALID_NAME :: int where "DM_ERR_INVALID_NAME = -4"
definition DM_ERR_NO_DEVICE :: int where "DM_ERR_NO_DEVICE = -5"
definition DM_OK :: int where "DM_OK = 0"

definition DM_STDIN_NUM :: int where "DM_STDIN_NUM = 0"
definition DM_STDOUT_NUM :: int where "DM_STDOUT_NUM = 1"
definition DM_STDERR_NUM :: int where "DM_STDERR_NUM = 2"

text \<open>The descriptor macros, on the bits of an \<open>int\<close>.\<close>

definition DM_MAKE_DESC :: "int \<Rightarrow> int \<Rightarrow> int" where
  "DM_MAKE_DESC devid fd = push_bit (15 - DM_MAX_DEVICES_BITS) devid OR fd"
definition DM_GET_DEVID :: "int \<Rightarrow> int" where
  "DM_GET_DEVID desc = drop_bit (15 - DM_MAX_DEVICES_BITS) desc"
definition DM_GET_FD :: "int \<Rightarrow> int" where
  "DM_GET_FD desc = desc AND (push_bit (15 - DM_MAX_DEVICES_BITS) 1 - 1)"

record 's dm_world =
  dm_list :: "'s dm_device option list"  \<comment> \<open>\<open>DM_MAX_DEVICES\<close> pointers\<close>
  dm_num_devs :: nat
  dm_errno :: "dm_errno option"
  dev_state :: 's

definition set_errno :: "dm_errno \<Rightarrow> 's dm_world \<Rightarrow> 's dm_world" where
  "set_errno e W = W\<lparr> dm_errno := Some e \<rparr>"

text \<open>Calling a device function.\<close>

definition dm_call :: "('r, 's) devcall \<Rightarrow> 's dm_world \<Rightarrow> 'r \<times> 's dm_world" where
  "dm_call f W =
     (case f (dev_state W) of (r, e, s) \<Rightarrow>
        (r, W\<lparr> dev_state := s, dm_errno := (case e of None \<Rightarrow> dm_errno W | Some _ \<Rightarrow> e) \<rparr>))"

section \<open>The device table\<close>

definition dm_name_at :: "'s dm_world \<Rightarrow> nat \<Rightarrow> u8 list" where
  "dm_name_at W i = dev_name (the (dm_list W ! i))"

text \<open>The loops over the registered devices: the first one with this name, ignoring case.\<close>

definition dm_find_name :: "'s dm_world \<Rightarrow> u8 list \<Rightarrow> nat option" where
  "dm_find_name W name = find (\<lambda>i. strcaseeq name (dm_name_at W i)) [0..<dm_num_devs W]"

definition dm_register :: "'s dm_device option \<Rightarrow> 's dm_world \<Rightarrow> int \<times> 's dm_world" where
  "dm_register pdev W =
     (case pdev of
        None \<Rightarrow> (DM_ERR_INVALID_NAME, W)
      | Some d \<Rightarrow>
          if dev_name d = [] \<or> hd (dev_name d) \<noteq> SLASH \<or> length (dev_name d) > DM_MAX_DEV_NAME
          then (DM_ERR_INVALID_NAME, W)
          else if dm_find_name W (dev_name d) \<noteq> None then (DM_ERR_ALREADY_REGISTERED, W)
          else if dm_num_devs W = DM_MAX_DEVICES then (DM_ERR_NO_SPACE, W)
          else (int (dm_num_devs W),
                W\<lparr> dm_list := (dm_list W)[dm_num_devs W := Some d], dm_num_devs := dm_num_devs W + 1 \<rparr>))"

text \<open>
  The longest-prefix search: a fold over the table that keeps \<open>matchlen\<close> and \<open>pos\<close>. The
  result is the index with the rest of the name, if a device matched.
\<close>

definition dm_device_id_from_name :: "'s dm_world \<Rightarrow> u8 list \<Rightarrow> (nat \<times> u8 list) option" where
  "dm_device_id_from_name W name =
     (let (matchlen, pos) = foldl (\<lambda>(matchlen, pos) i.
            (let dn = dm_name_at W i in
             if strncaseeq (length dn) name dn \<and> matchlen < length dn then (length dn, i) else (matchlen, pos)))
          (0, 0) [0..<dm_num_devs W]
      in if matchlen = 0 then None else Some (pos, drop (length (dm_name_at W pos)) name))"

text \<open>The removal moves one pointer down, as \<open>memmove\<close> of \<open>sizeof( DM_DEVICE* )\<close> bytes does.\<close>

definition dm_unregister :: "u8 list option \<Rightarrow> 's dm_world \<Rightarrow> int \<times> 's dm_world" where
  "dm_unregister name W =
     (case name of
        None \<Rightarrow> (DM_ERR_INVALID_NAME, W)
      | Some n \<Rightarrow>
          if n = [] \<or> hd n \<noteq> SLASH \<or> length n > DM_MAX_DEV_NAME then (DM_ERR_INVALID_NAME, W)
          else case dm_find_name W n of
            None \<Rightarrow> (DM_ERR_NOT_REGISTERED, W)
          | Some i \<Rightarrow>
              (let W = (if i \<noteq> dm_num_devs W - 1 then W\<lparr> dm_list := (dm_list W)[i := dm_list W ! (i + 1)] \<rparr> else W)
               in (DM_OK, W\<lparr> dm_num_devs := dm_num_devs W - 1 \<rparr>)))"

definition dm_get_device_at :: "'s dm_world \<Rightarrow> int \<Rightarrow> 's dm_device option" where
  "dm_get_device_at W idx = (if idx < 0 \<or> int (dm_num_devs W) \<le> idx then None else dm_list W ! nat idx)"

lemma dm_get_device_at_Some:
  "dm_get_device_at W (int i) = Some d \<longleftrightarrow> i < dm_num_devs W \<and> dm_list W ! i = Some d"
  by (auto simp: dm_get_device_at_def)

definition dm_get_num_devices :: "'s dm_world \<Rightarrow> nat" where
  "dm_get_num_devices W = dm_num_devs W"

text \<open>\<open>std\<close> is the device that \<open>std_get_desc\<close> returns.\<close>

definition dm_init :: "'s dm_device option \<Rightarrow> 's dm_world \<Rightarrow> int \<times> 's dm_world" where
  "dm_init std W = (DM_OK, snd (dm_register std W))"

section \<open>Directories\<close>

record dm_dir =
  dd_devid :: nat
  dd_userdata :: u32

text \<open>\<open>have_mem\<close> says whether \<open>malloc\<close> of the directory descriptor succeeds.\<close>

definition dm_opendir :: "bool \<Rightarrow> u8 list \<Rightarrow> 's dm_world \<Rightarrow> dm_dir option \<times> 's dm_world" where
  "dm_opendir have_mem dirname W =
     (case dm_device_id_from_name W dirname of
        None \<Rightarrow> (None, set_errno ENOSYS W)
      | Some (pos, rest) \<Rightarrow>
          case p_opendir_r (the (dm_list W ! pos)) of
            None \<Rightarrow> (None, set_errno ENOSYS W)
          | Some f \<Rightarrow>
              case dm_call (f rest) W of
                (None, W) \<Rightarrow> (None, W)
              | (Some data, W) \<Rightarrow>
                  if have_mem then (Some \<lparr> dd_devid = pos, dd_userdata = data \<rparr>, W)
                  else (None, set_errno ENOMEM W))"

definition dm_readdir :: "dm_dir \<Rightarrow> 's dm_world \<Rightarrow> dm_dirent option \<times> 's dm_world" where
  "dm_readdir d W =
     (if dm_num_devs W \<le> dd_devid d then (None, set_errno EBADF W)
      else case p_readdir_r (the (dm_list W ! dd_devid d)) of
        None \<Rightarrow> (None, set_errno EBADF W)
      | Some f \<Rightarrow> dm_call (f (dd_userdata d)) W)"

text \<open>The call of \<open>p_closedir_r\<close> is not guarded: \<open>None\<close> is a call through NULL.\<close>

definition dm_closedir :: "dm_dir \<Rightarrow> 's dm_world \<Rightarrow> (int \<times> 's dm_world) option" where
  "dm_closedir d W =
     (if dm_num_devs W \<le> dd_devid d then Some (-1, set_errno EBADF W)
      else case dm_list W ! dd_devid d of
        None \<Rightarrow> Some (-1, set_errno EBADF W)
      | Some pdev \<Rightarrow> map_option (\<lambda>f. dm_call (f (dd_userdata d)) W) (p_closedir_r pdev))"

section \<open>System calls\<close>

text \<open>
  \<open>find_dm_entry\<close>: the device of a path and the file name in it. \<open>name\<close> is \<open>None\<close> for NULL.
\<close>

definition find_dm_entry :: "'s dm_world \<Rightarrow> u8 list option \<Rightarrow> (nat \<times> u8 list) option" where
  "find_dm_entry W name =
     (case name of
        None \<Rightarrow> None
      | Some name \<Rightarrow>
          if name = [] \<or> hd name \<noteq> SLASH then None
          else
            let found = map_option Suc (strchr SLASH (tl name));
                preal = (case found of None \<Rightarrow> 0 | Some k \<Rightarrow> k);
                tempname = (case found of None \<Rightarrow> [SLASH] | Some k \<Rightarrow> take k name)
            in if found \<noteq> None \<and> (preal > DM_MAX_DEV_NAME \<or> preal = 1) then None
               else case find (\<lambda>i. strcaseeq tempname (dm_name_at W i)) [0..<dm_get_num_devices W] of
                 None \<Rightarrow> None
               | Some i \<Rightarrow> (let actname = drop (preal + 1) name in if actname = [] then None else Some (i, actname)))"

definition open_r :: "u8 list option \<Rightarrow> int \<Rightarrow> int \<Rightarrow> 's dm_world \<Rightarrow> (int \<times> 's dm_world) option" where
  "open_r name flags mode W =
     (case find_dm_entry W name of
        None \<Rightarrow> Some (-1, set_errno ENODEV W)
      | Some (devid, actname) \<Rightarrow>
          case dm_get_device_at W (int devid) of
            None \<Rightarrow> None
          | Some pdev \<Rightarrow>
              case p_open_r pdev of
                None \<Rightarrow> Some (-1, set_errno ENOSYS W)
              | Some f \<Rightarrow>
                  (let (res, W) = dm_call (f actname flags mode) W
                   in Some (if res < 0 then res else DM_MAKE_DESC (int devid) res, W)))"

text \<open>
  The calls on a descriptor share their shape: look up the device, check that it has the
  function, call it with the device's own descriptor; \<open>err\<close> is the error result.
\<close>

definition dm_dispatch ::
    "('s dm_device \<Rightarrow> (int \<Rightarrow> ('r, 's) devcall) option) \<Rightarrow> 'r \<Rightarrow> int \<Rightarrow> 's dm_world \<Rightarrow> ('r \<times> 's dm_world) option" where
  "dm_dispatch sel err desc W =
     (case dm_get_device_at W (DM_GET_DEVID desc) of
        None \<Rightarrow> None
      | Some pdev \<Rightarrow>
          case sel pdev of
            None \<Rightarrow> Some (err, set_errno ENOSYS W)
          | Some f \<Rightarrow> Some (dm_call (f (DM_GET_FD desc)) W))"

definition close_r :: "int \<Rightarrow> 's dm_world \<Rightarrow> (int \<times> 's dm_world) option" where
  "close_r desc = dm_dispatch p_close_r (-1) desc"

definition read_r :: "int \<Rightarrow> nat \<Rightarrow> 's dm_world \<Rightarrow> ((int \<times> u8 list) \<times> 's dm_world) option" where
  "read_r desc len = dm_dispatch (\<lambda>d. map_option (\<lambda>f fd. f fd len) (p_read_r d)) (-1, []) desc"

definition write_r :: "int \<Rightarrow> u8 list \<Rightarrow> 's dm_world \<Rightarrow> (int \<times> 's dm_world) option" where
  "write_r desc bs = dm_dispatch (\<lambda>d. map_option (\<lambda>f fd. f fd bs) (p_write_r d)) (-1) desc"

definition lseek_r :: "int \<Rightarrow> int \<Rightarrow> int \<Rightarrow> 's dm_world \<Rightarrow> (int \<times> 's dm_world) option" where
  "lseek_r desc off whence = dm_dispatch (\<lambda>d. map_option (\<lambda>f fd. f fd off whence) (p_lseek_r d)) (-1) desc"

text \<open>The standard descriptors are answered without a device: a character device.\<close>

definition fstat_r :: "int \<Rightarrow> 's dm_world \<Rightarrow> (int \<times> 's dm_world) option" where
  "fstat_r desc W =
     (if DM_STDIN_NUM \<le> desc \<and> desc \<le> DM_STDERR_NUM then Some (0, W)
      else dm_dispatch p_fstat_r (-1) desc W)"

definition isatty_r :: "int \<Rightarrow> int" where "isatty_r fd = 1"
definition unlink_r :: "u8 list \<Rightarrow> 's dm_world \<Rightarrow> int \<times> 's dm_world" where
  "unlink_r name W = (-1, set_errno ENOSYS W)"
definition link_r :: "u8 list \<Rightarrow> u8 list \<Rightarrow> 's dm_world \<Rightarrow> int \<times> 's dm_world" where
  "link_r c1 c2 W = (-1, set_errno ENOSYS W)"
definition gettimeofday_r :: "'s dm_world \<Rightarrow> int \<times> 's dm_world" where
  "gettimeofday_r W = (-1, set_errno ENOSYS W)"

section \<open>Descriptors\<close>

text \<open>What a descriptor of device \<open>devid\<close> and file \<open>fd\<close> can hold: 4 and 11 bits.\<close>

definition desc_range :: "int \<Rightarrow> int \<Rightarrow> bool" where
  "desc_range devid fd \<longleftrightarrow> 0 \<le> devid \<and> devid < int DM_MAX_DEVICES \<and> 0 \<le> fd \<and> fd < 2048"

lemma or_shifted: "0 \<le> fd \<Longrightarrow> fd < 2048 \<Longrightarrow> push_bit 11 devid OR fd = devid * 2048 + fd" for devid fd :: int
proof -
  assume fd: "0 \<le> fd" "fd < 2048"
  then have tb: "take_bit 11 fd = fd" by (simp add: take_bit_int_eq_self)
  have "bit (push_bit 11 devid) n \<Longrightarrow> \<not> bit fd n" for n
  proof -
    assume "bit (push_bit 11 devid) n"
    then have "11 \<le> n" by (simp add: bit_push_bit_iff_int)
    moreover have "bit fd n = bit (take_bit 11 fd) n" using tb by simp
    ultimately show ?thesis by (simp add: bit_take_bit_iff)
  qed
  then have "push_bit 11 devid + fd = push_bit 11 devid OR fd"
    by (intro disjunctive_add) blast
  then show ?thesis by (simp add: push_bit_eq_mult)
qed

lemma make_desc_eq: "desc_range devid fd \<Longrightarrow> DM_MAKE_DESC devid fd = devid * 2048 + fd"
  using or_shifted [of fd devid] by (simp add: DM_MAKE_DESC_def desc_range_def DM_MAX_DEVICES_BITS_def)

lemma get_desc:
  assumes "desc_range devid fd"
  shows "DM_GET_DEVID (DM_MAKE_DESC devid fd) = devid" "DM_GET_FD (DM_MAKE_DESC devid fd) = fd"
proof -
  have fd: "0 \<le> fd" "fd < 2048" using assms by (simp_all add: desc_range_def)
  show "DM_GET_DEVID (DM_MAKE_DESC devid fd) = devid"
    using fd by (simp add: make_desc_eq [OF assms] DM_GET_DEVID_def DM_MAX_DEVICES_BITS_def drop_bit_eq_div)
  have "DM_GET_FD x = x mod 2048" for x
    using and_exp_eq_0_iff_not_bit [of x 11] take_bit_eq_mask [of 11 x]
    by (simp add: DM_GET_FD_def DM_MAX_DEVICES_BITS_def mask_eq_exp_minus_1 take_bit_eq_mod)
  then show "DM_GET_FD (DM_MAKE_DESC devid fd) = fd"
    using fd by (simp add: make_desc_eq [OF assms])
qed

section \<open>The table\<close>

text \<open>The registered devices, in order; what the table is when only \<open>dm_register\<close> changed it.\<close>

definition dm_devices :: "'s dm_world \<Rightarrow> 's dm_device list" where
  "dm_devices W = map the (take (dm_num_devs W) (dm_list W))"

definition dev_name_ok :: "u8 list \<Rightarrow> bool" where
  "dev_name_ok n \<longleftrightarrow> n \<noteq> [] \<and> hd n = SLASH \<and> length n \<le> DM_MAX_DEV_NAME"

definition dm_wf :: "'s dm_world \<Rightarrow> bool" where
  "dm_wf W \<longleftrightarrow>
     length (dm_list W) = DM_MAX_DEVICES \<and> dm_num_devs W \<le> DM_MAX_DEVICES
     \<and> (\<forall>i < dm_num_devs W. dm_list W ! i \<noteq> None \<and> dev_name_ok (dm_name_at W i))
     \<and> (\<forall>i < dm_num_devs W. \<forall>j < dm_num_devs W. strcaseeq (dm_name_at W i) (dm_name_at W j) \<longrightarrow> i = j)"

lemma strcaseeq_refl [simp]: "strcaseeq a a"
  by (simp add: strcaseeq_def)

lemma strcaseeq_sym: "strcaseeq a b \<Longrightarrow> strcaseeq b a"
  by (simp add: strcaseeq_def)

lemma strcaseeq_trans: "strcaseeq a b \<Longrightarrow> strcaseeq b c \<Longrightarrow> strcaseeq a c"
  by (simp add: strcaseeq_def)

lemma find_upt_unique:
  assumes "i < n" "P i" "\<And>j. j < n \<Longrightarrow> P j \<Longrightarrow> j = i"
  shows "find P [0..<n] = Some i"
proof -
  have "find P [0..<n] \<noteq> None" using assms(1,2) by (auto simp: find_None_iff)
  then obtain j where "find P [0..<n] = Some j" by blast
  then have "j < n" "P j" by (auto simp: find_Some_iff)
  with assms(3) \<open>find P [0..<n] = Some j\<close> show ?thesis by blast
qed

lemma dm_find_name_unique:
  assumes "dm_wf W" "i < dm_num_devs W" "strcaseeq n (dm_name_at W i)"
  shows "dm_find_name W n = Some i"
  unfolding dm_find_name_def
proof (rule find_upt_unique)
  fix j assume "j < dm_num_devs W" "strcaseeq n (dm_name_at W j)"
  moreover from this have "strcaseeq (dm_name_at W j) (dm_name_at W i)"
    using assms(3) by (simp add: strcaseeq_def)
  ultimately show "j = i" using assms(1,2) by (simp add: dm_wf_def)
qed (use assms in auto)

lemma dm_find_name_None: "dm_find_name W n = None \<longleftrightarrow> (\<forall>i < dm_num_devs W. \<not> strcaseeq n (dm_name_at W i))"
  by (auto simp: dm_find_name_def find_None_iff)

lemma dm_name_at_append:
  "i < dm_num_devs W \<Longrightarrow> dm_num_devs W < length (dm_list W) \<Longrightarrow>
   dm_name_at (W\<lparr> dm_list := (dm_list W)[dm_num_devs W := x], dm_num_devs := k \<rparr>) i = dm_name_at W i"
  by (simp add: dm_name_at_def)

text \<open>Registration keeps the table well formed and adds the device at the end.\<close>

lemma dm_register_wf:
  assumes "dm_wf W" "(r, W') = dm_register pdev W"
  shows "dm_wf W'"
    and "0 \<le> r \<Longrightarrow> \<exists>d. pdev = Some d \<and> r = int (dm_num_devs W) \<and> dm_devices W' = dm_devices W @ [d]
      \<and> dm_get_device_at W' r = Some d"
    and "r < 0 \<Longrightarrow> W' = W"
proof -
  have neg: "DM_ERR_INVALID_NAME < 0" "DM_ERR_ALREADY_REGISTERED < 0" "DM_ERR_NO_SPACE < 0"
    by (simp_all add: DM_ERR_INVALID_NAME_def DM_ERR_ALREADY_REGISTERED_def DM_ERR_NO_SPACE_def)
  consider (fail) "W' = W" "r < 0"
    | (ok) d where "pdev = Some d" "dev_name_ok (dev_name d)" "dm_find_name W (dev_name d) = None"
        "dm_num_devs W \<noteq> DM_MAX_DEVICES" "r = int (dm_num_devs W)"
        "W' = W\<lparr> dm_list := (dm_list W)[dm_num_devs W := Some d], dm_num_devs := dm_num_devs W + 1 \<rparr>"
    using assms(2) neg by (auto simp: dm_register_def dev_name_ok_def not_less split: option.splits if_splits)
  then have "dm_wf W' \<and> (0 \<le> r \<longrightarrow> (\<exists>d. pdev = Some d \<and> r = int (dm_num_devs W) \<and> dm_devices W' = dm_devices W @ [d]
      \<and> dm_get_device_at W' r = Some d)) \<and> (r < 0 \<longrightarrow> W' = W)"
  proof cases
    case fail
    with assms(1) show ?thesis by simp
  next
    case ok
    let ?n = "dm_num_devs W"
    have n: "?n < length (dm_list W)" "length (dm_list W) = DM_MAX_DEVICES" using assms(1) ok(4) by (auto simp: dm_wf_def)
    have old: "dm_name_at W' i = dm_name_at W i" "dm_list W' ! i = dm_list W ! i" if "i < ?n" for i
      using that n by (simp_all add: ok(6) dm_name_at_def)
    have new: "dm_name_at W' ?n = dev_name d" "dm_list W' ! ?n = Some d" "dm_num_devs W' = Suc ?n"
      using n by (simp_all add: ok(6) dm_name_at_def)
    have no: "\<not> strcaseeq (dev_name d) (dm_name_at W i)" "\<not> strcaseeq (dm_name_at W i) (dev_name d)" if "i < ?n" for i
      using ok(3) that by (auto simp: dm_find_name_None dest: strcaseeq_sym)
    have "length (dm_list W') = DM_MAX_DEVICES" using n by (simp add: ok(6))
    moreover have "dm_num_devs W' \<le> DM_MAX_DEVICES" using n by (simp add: new)
    moreover have "\<forall>i < dm_num_devs W'. dm_list W' ! i \<noteq> None \<and> dev_name_ok (dm_name_at W' i)"
      using assms(1) ok(2) old new by (auto simp: dm_wf_def less_Suc_eq)
    moreover have "\<forall>i < dm_num_devs W'. \<forall>j < dm_num_devs W'. strcaseeq (dm_name_at W' i) (dm_name_at W' j) \<longrightarrow> i = j"
      using assms(1) old new no by (auto simp: dm_wf_def less_Suc_eq)
    ultimately have "dm_wf W'" by (simp add: dm_wf_def)
    moreover have "dm_devices W' = dm_devices W @ [d]"
      using n by (simp add: dm_devices_def ok(6) take_Suc_conv_app_nth)
    moreover have "dm_get_device_at W' r = Some d" using new by (simp add: dm_get_device_at_def ok(5))
    ultimately show ?thesis using ok by auto
  qed
  then show "dm_wf W'"
    and "0 \<le> r \<Longrightarrow> \<exists>d. pdev = Some d \<and> r = int (dm_num_devs W) \<and> dm_devices W' = dm_devices W @ [d]
      \<and> dm_get_device_at W' r = Some d"
    and "r < 0 \<Longrightarrow> W' = W" by blast+
qed

text \<open>Path resolution.\<close>

lemma strchr_append: "c \<notin> set xs \<Longrightarrow> strchr c (xs @ c # ys) = Some (length xs)"
  by (induction xs) auto

lemma find_dm_entry_path:
  assumes "dm_wf W" "i < dm_num_devs W" "strcaseeq (SLASH # dn) (dm_name_at W i)" "SLASH \<notin> set dn" "dn \<noteq> []" "fname \<noteq> []"
  shows "find_dm_entry W (Some (SLASH # dn @ SLASH # fname)) = Some (i, fname)"
proof -
  have "length (SLASH # dn) \<le> DM_MAX_DEV_NAME"
    using assms(1-3) by (metis dev_name_ok_def dm_wf_def length_map strcaseeq_def)
  moreover have "find (\<lambda>i. strcaseeq (SLASH # dn) (dm_name_at W i)) [0..<dm_num_devs W] = Some i"
    using dm_find_name_unique [OF assms(1-3)] by (simp add: dm_find_name_def)
  ultimately show ?thesis
    using assms(4-6) by (simp add: find_dm_entry_def strchr_append dm_get_num_devices_def Let_def)
qed

section \<open>Files behind the system calls\<close>

text \<open>
  What the system calls rely on in a device that serves files for reading: \<open>lookup\<close> gives the
  contents of a file by name, \<open>handle\<close> what an open descriptor stands for, the contents and the
  position. Opening a file that exists gives an unused descriptor at position 0, a read returns the
  next bytes, as many as there are, a seek sets the position.
\<close>

locale file_device =
  fixes dopen :: "u8 list \<Rightarrow> int \<Rightarrow> int \<Rightarrow> (int, 's) devcall"
    and dread :: "int \<Rightarrow> nat \<Rightarrow> (int \<times> u8 list, 's) devcall"
    and dclose :: "int \<Rightarrow> (int, 's) devcall"
    and inv :: "'s \<Rightarrow> bool"
    and room :: "'s \<Rightarrow> bool"
    and lookup :: "u8 list \<Rightarrow> u8 list option"
    and handle :: "'s \<Rightarrow> int \<Rightarrow> (u8 list \<times> nat) option"
  assumes dopen_ok: "\<lbrakk> inv s; room s; lookup n = Some c \<rbrakk>
      \<Longrightarrow> \<exists>fd s'. dopen n flags mode s = (fd, None, s') \<and> 0 \<le> fd \<and> fd < 2048 \<and> inv s' \<and> handle s fd = None
        \<and> handle s' = (handle s)(fd \<mapsto> (c, 0))"
    and dopen_missing: "\<lbrakk> inv s; room s; lookup n = None \<rbrakk> \<Longrightarrow> dopen n flags mode s = (-1, Some ENOENT, s)"
    and dread_ok: "\<lbrakk> inv s; handle s fd = Some (c, p); len < 2 ^ 32 \<rbrakk>
      \<Longrightarrow> \<exists>s'. dread fd len s = ((int (length (take len (drop p c))), take len (drop p c)), None, s') \<and> inv s'
        \<and> handle s' = (handle s)(fd \<mapsto> (c, p + length (take len (drop p c))))"
    and dclose_ok: "\<lbrakk> inv s; handle s fd = Some h \<rbrakk>
      \<Longrightarrow> \<exists>s'. dclose fd s = (0, None, s') \<and> inv s' \<and> room s' \<and> handle s' = (handle s)(fd := None)"

text \<open>A program that reads the open file \<open>desc\<close> in pieces of the given lengths.\<close>

fun read_pieces :: "int \<Rightarrow> nat list \<Rightarrow> 's dm_world \<Rightarrow> (u8 list list \<times> 's dm_world) option" where
  "read_pieces desc [] W = Some ([], W)"
| "read_pieces desc (len # ls) W =
     (case read_r desc len W of
        None \<Rightarrow> None
      | Some ((r, bs), W) \<Rightarrow> map_option (\<lambda>(bss, W). (bs # bss, W)) (read_pieces desc ls W))"

text \<open>The slices of a byte string at consecutive positions.\<close>

fun pieces :: "u8 list \<Rightarrow> nat list \<Rightarrow> u8 list list" where
  "pieces c [] = []"
| "pieces c (len # ls) = take len c # pieces (drop len c) ls"

lemma concat_pieces: "concat (pieces c ls) = take (sum_list ls) c"
  by (induction c ls rule: pieces.induct) (simp_all add: take_add)

text \<open>The device table is not changed by device calls.\<close>

lemma dm_call_table [simp]:
  "dm_list (snd (dm_call f W)) = dm_list W" "dm_num_devs (snd (dm_call f W)) = dm_num_devs W"
  by (simp_all add: dm_call_def split: prod.splits)

definition served_by :: "'s dm_world \<Rightarrow> int \<Rightarrow> 's dm_device \<Rightarrow> bool" where
  "served_by W i d \<longleftrightarrow> 0 \<le> i \<and> i < int DM_MAX_DEVICES \<and> dm_get_device_at W i = Some d"

lemma served_by_call [simp]: "served_by (snd (dm_call f W)) i d = served_by W i d"
  by (simp add: served_by_def dm_get_device_at_def)

context file_device
begin

lemma open_r_file:
  assumes "served_by W (int i) d" "p_open_r d = Some dopen" "find_dm_entry W (Some path) = Some (i, n)"
    and "inv (dev_state W)" "room (dev_state W)" "lookup n = Some c"
  shows "\<exists>fd W'. open_r (Some path) flags mode W = Some (DM_MAKE_DESC (int i) fd, W') \<and> desc_range (int i) fd
    \<and> served_by W' (int i) d \<and> inv (dev_state W') \<and> handle (dev_state W) fd = None
    \<and> handle (dev_state W') = (handle (dev_state W))(fd \<mapsto> (c, 0)) \<and> dm_errno W' = dm_errno W"
proof -
  from dopen_ok [OF assms(4-6), of flags mode] obtain fd s' where
    f: "dopen n flags mode (dev_state W) = (fd, None, s')" "0 \<le> fd" "fd < 2048" "inv s'" "handle (dev_state W) fd = None"
    "handle s' = (handle (dev_state W))(fd \<mapsto> (c, 0))" by blast
  define W' where "W' = W\<lparr> dev_state := s' \<rparr>"
  have call: "dm_call (dopen n flags mode) W = (fd, W')"
    by (simp add: dm_call_def f W'_def)
  then have "served_by W' (int i) d" using assms(1) served_by_call [of "dopen n flags mode" W] by simp
  moreover have "open_r (Some path) flags mode W = Some (DM_MAKE_DESC (int i) fd, W')"
    using assms(1-3) f(2) by (simp add: open_r_def served_by_def call)
  moreover have "desc_range (int i) fd" using assms(1) f by (simp add: desc_range_def served_by_def)
  ultimately show ?thesis using f by (auto simp: W'_def)
qed

lemma read_r_file:
  assumes "served_by W i d" "p_read_r d = Some dread" "desc_range i fd" "inv (dev_state W)"
    and "handle (dev_state W) fd = Some (c, p)" "len < 2 ^ 32"
  shows "\<exists>W'. read_r (DM_MAKE_DESC i fd) len W = Some ((int (length (take len (drop p c))), take len (drop p c)), W')
    \<and> served_by W' i d \<and> inv (dev_state W')
    \<and> handle (dev_state W') = (handle (dev_state W))(fd \<mapsto> (c, p + length (take len (drop p c)))) \<and> dm_errno W' = dm_errno W"
proof -
  from dread_ok [OF assms(4-6)] obtain s' where
    f: "dread fd len (dev_state W) = ((int (length (take len (drop p c))), take len (drop p c)), None, s')" "inv s'"
    "handle s' = (handle (dev_state W))(fd \<mapsto> (c, p + length (take len (drop p c))))" by blast
  define W' where "W' = W\<lparr> dev_state := s' \<rparr>"
  have call: "dm_call (dread fd len) W = ((int (length (take len (drop p c))), take len (drop p c)), W')"
    by (simp add: dm_call_def f W'_def)
  then have "served_by W' i d" using assms(1) served_by_call [of "dread fd len" W] by simp
  moreover have "read_r (DM_MAKE_DESC i fd) len W = Some ((int (length (take len (drop p c))), take len (drop p c)), W')"
    using assms(1,2) by (simp add: read_r_def dm_dispatch_def served_by_def get_desc [OF assms(3)] call)
  ultimately show ?thesis using f by (auto simp: W'_def)
qed

lemma read_pieces_file:
  assumes "served_by W i d" "p_read_r d = Some dread" "desc_range i fd" "inv (dev_state W)"
    and "handle (dev_state W) fd = Some (c, p)" "\<forall>len \<in> set ls. len < 2 ^ 32"
  shows "\<exists>W'. read_pieces (DM_MAKE_DESC i fd) ls W = Some (pieces (drop p c) ls, W') \<and> dm_errno W' = dm_errno W
    \<and> served_by W' i d \<and> inv (dev_state W') \<and> (\<exists>q. handle (dev_state W') = (handle (dev_state W))(fd \<mapsto> (c, q)))"
  using assms
proof (induction ls arbitrary: W p)
  case Nil
  then have "handle (dev_state W) = (handle (dev_state W))(fd \<mapsto> (c, p))" by auto
  then have "\<exists>q. handle (dev_state W) = (handle (dev_state W))(fd \<mapsto> (c, q))" by (rule exI)
  with Nil show ?case unfolding read_pieces.simps pieces.simps by blast
next
  case (Cons len ls)
  let ?k = "length (take len (drop p c))"
  from read_r_file [OF Cons.prems(1-5)] Cons.prems(6) obtain W1 where
    W1: "read_r (DM_MAKE_DESC i fd) len W = Some ((int ?k, take len (drop p c)), W1)" "served_by W1 i d" "inv (dev_state W1)"
      "handle (dev_state W1) = (handle (dev_state W))(fd \<mapsto> (c, p + ?k))" "dm_errno W1 = dm_errno W" by auto
  have h: "handle (dev_state W1) fd = Some (c, p + ?k)" and ls: "\<forall>len \<in> set ls. len < 2 ^ 32"
    using W1(4) Cons.prems(6) by simp_all
  from Cons.IH [OF W1(2) Cons.prems(2,3) W1(3) h ls] obtain W2 q where
    W2: "read_pieces (DM_MAKE_DESC i fd) ls W1 = Some (pieces (drop (p + ?k) c) ls, W2)" "dm_errno W2 = dm_errno W1"
      "served_by W2 i d" "inv (dev_state W2)" "handle (dev_state W2) = (handle (dev_state W1))(fd \<mapsto> (c, q))" by blast
  have "drop (p + ?k) c = drop len (drop p c)"
    by (cases "len \<le> length c - p") (simp_all add: add.commute min_def)
  then have "read_pieces (DM_MAKE_DESC i fd) (len # ls) W = Some (pieces (drop p c) (len # ls), W2)"
    using W1(1) W2(1) by simp
  moreover have "handle (dev_state W2) = (handle (dev_state W))(fd \<mapsto> (c, q))" using W1(4) W2(5) by simp
  then have "\<exists>q. handle (dev_state W2) = (handle (dev_state W))(fd \<mapsto> (c, q))" by (rule exI)
  moreover have "dm_errno W2 = dm_errno W" using W1(5) W2(2) by simp
  ultimately show ?case using W2(3,4) by blast
qed

text \<open>Open, read in any pieces, close: the file's contents come out in order.\<close>

lemma open_read_close_file:
  assumes "served_by W (int i) d" "p_open_r d = Some dopen" "p_read_r d = Some dread" "p_close_r d = Some dclose"
    and "find_dm_entry W (Some path) = Some (i, n)"
    and "inv (dev_state W)" "room (dev_state W)" "lookup n = Some c" "\<forall>len \<in> set ls. len < 2 ^ 32"
  shows "\<exists>desc W1 W2 W3. open_r (Some path) flags mode W = Some (desc, W1) \<and> 0 \<le> desc
    \<and> read_pieces desc ls W1 = Some (pieces c ls, W2) \<and> close_r desc W2 = Some (0, W3)
    \<and> inv (dev_state W3) \<and> room (dev_state W3) \<and> handle (dev_state W3) = handle (dev_state W)"
proof -
  from open_r_file [OF assms(1,2,5-8), of flags mode] obtain fd W1 where
    W1: "open_r (Some path) flags mode W = Some (DM_MAKE_DESC (int i) fd, W1)" "desc_range (int i) fd"
    "served_by W1 (int i) d" "inv (dev_state W1)" "handle (dev_state W) fd = None"
    "handle (dev_state W1) = (handle (dev_state W))(fd \<mapsto> (c, 0))" by blast
  have "handle (dev_state W1) fd = Some (c, 0)" using W1(6) by simp
  from read_pieces_file [OF W1(3) assms(3) W1(2,4) this assms(9), unfolded drop_0] obtain W2 q where
    W2: "read_pieces (DM_MAKE_DESC (int i) fd) ls W1 = Some (pieces c ls, W2)" "served_by W2 (int i) d" "inv (dev_state W2)"
    "handle (dev_state W2) = (handle (dev_state W1))(fd \<mapsto> (c, q))" by blast
  have "handle (dev_state W2) fd = Some (c, q)" using W2(4) by simp
  from dclose_ok [OF W2(3) this] obtain s where s: "dclose fd (dev_state W2) = (0, None, s)" "inv s" "room s"
    "handle s = (handle (dev_state W2))(fd := None)" by blast
  have "close_r (DM_MAKE_DESC (int i) fd) W2 = Some (0, W2\<lparr> dev_state := s \<rparr>)"
    using W2(2) assms(4) s(1) by (simp add: close_r_def dm_dispatch_def served_by_def get_desc [OF W1(2)] dm_call_def)
  moreover have "handle s = handle (dev_state W)"
    using s(4) W2(4) W1(5,6) by (auto simp: fun_eq_iff)
  moreover have "0 \<le> DM_MAKE_DESC (int i) fd"
    using W1(2) by (simp add: make_desc_eq desc_range_def)
  ultimately show ?thesis using W1(1) W2(1) s by auto
qed

end

section \<open>Listing a device's directory\<close>

text \<open>A path that is a device's name finds it, whatever other names are prefixes of it.\<close>

abbreviation dm_longer :: "'s dm_world \<Rightarrow> u8 list \<Rightarrow> nat \<times> nat \<Rightarrow> nat \<Rightarrow> nat \<times> nat" where
  "dm_longer W name \<equiv> \<lambda>(matchlen, pos) i.
     (let dn = dm_name_at W i in
      if strncaseeq (length dn) name dn \<and> matchlen < length dn then (length dn, i) else (matchlen, pos))"

lemma strncaseeq_length: "strncaseeq (length dn) name dn \<Longrightarrow> length dn \<le> length name"
  by (auto simp: strncaseeq_def dest: arg_cong [of _ _ length])

lemma longest_found:
  assumes "\<And>j. j \<in> set js \<Longrightarrow> strncaseeq (length (dm_name_at W j)) name (dm_name_at W j)
      \<Longrightarrow> length (dm_name_at W j) \<le> l \<and> (length (dm_name_at W j) = l \<longrightarrow> j = i)"
    and "length (dm_name_at W i) = l" "strncaseeq l name (dm_name_at W i)"
    and "(m, p) = (l, i) \<or> i \<in> set js \<and> m < l"
  shows "foldl (dm_longer W name) (m, p) js = (l, i)"
  using assms(1,4)
proof (induction js arbitrary: m p)
  case (Cons j js)
  have j: "strncaseeq (length (dm_name_at W j)) name (dm_name_at W j)
      \<Longrightarrow> length (dm_name_at W j) \<le> l \<and> (length (dm_name_at W j) = l \<longrightarrow> j = i)"
    using Cons.prems(1) [of j] by simp
  obtain m' p' where mp: "dm_longer W name (m, p) j = (m', p')" by (cases "dm_longer W name (m, p) j")
  have "(m', p') = (l, i) \<or> i \<in> set js \<and> m' < l"
    using j mp Cons.prems(2) assms(2,3) by (force simp: Let_def split: if_splits)
  then have "foldl (dm_longer W name) (m', p') js = (l, i)"
    by (intro Cons.IH) (use Cons.prems(1) in auto)
  then show ?case using mp by simp
qed simp

lemma dm_device_id_from_its_name:
  assumes "dm_wf W" "i < dm_num_devs W" "strcaseeq name (dm_name_at W i)"
  shows "dm_device_id_from_name W name = Some (i, [])"
proof -
  let ?l = "length (dm_name_at W i)"
  have len: "length name = ?l" using assms(3) by (metis length_map strcaseeq_def)
  have pos: "0 < ?l" using assms(1,2) by (auto simp: dm_wf_def dev_name_ok_def)
  have "foldl (dm_longer W name) (0, 0) [0..<dm_num_devs W] = (?l, i)"
  proof (rule longest_found)
    fix j assume j: "j \<in> set [0..<dm_num_devs W]"
      and pre: "strncaseeq (length (dm_name_at W j)) name (dm_name_at W j)"
    have "j = i" if "length (dm_name_at W j) = ?l"
    proof -
      have "strcaseeq name (dm_name_at W j)" using pre that len by (simp add: strncaseeq_def strcaseeq_def)
      then have "strcaseeq (dm_name_at W j) (dm_name_at W i)" using assms(3) by (simp add: strcaseeq_def)
      then show ?thesis using assms(1,2) j by (simp add: dm_wf_def)
    qed
    then show "length (dm_name_at W j) \<le> ?l \<and> (length (dm_name_at W j) = ?l \<longrightarrow> j = i)"
      using strncaseeq_length [OF pre] len by simp
  qed (use assms pos len in \<open>auto simp: strncaseeq_def strcaseeq_def\<close>)
  then show ?thesis using pos len by (simp add: dm_device_id_from_name_def)
qed

text \<open>A program that reads \<open>k\<close> entries of an open directory.\<close>

fun read_entries :: "dm_dir \<Rightarrow> nat \<Rightarrow> 's dm_world \<Rightarrow> dm_dirent option list \<times> 's dm_world" where
  "read_entries d 0 W = ([], W)"
| "read_entries d (Suc k) W =
     (let (e, W) = dm_readdir d W; (es, W) = read_entries d k W in (e # es, W))"

section \<open>Removal\<close>

text \<open>
  With three devices, removing the first leaves the second twice and loses the third, which is
  still registered as far as its driver knows.
\<close>

definition three_devices :: "unit dm_world" where
  "three_devices =
     (let dev = \<lambda>c. \<lparr> dev_name = [SLASH, c], p_open_r = None, p_close_r = None, p_write_r = None, p_read_r = None,
            p_lseek_r = None, p_fstat_r = None, p_opendir_r = None, p_readdir_r = None, p_closedir_r = None \<rparr>
      in \<lparr> dm_list = [Some (dev 0x61), Some (dev 0x62), Some (dev 0x63)] @ replicate 13 None, dm_num_devs = 3,
           dm_errno = None, dev_state = () \<rparr>)"

lemma unregister_loses_a_device:
  "dm_wf three_devices"
  "map dev_name (dm_devices three_devices) = [[SLASH, 0x61], [SLASH, 0x62], [SLASH, 0x63]]"
  "fst (dm_unregister (Some [SLASH, 0x61]) three_devices) = DM_OK"
  "map dev_name (dm_devices (snd (dm_unregister (Some [SLASH, 0x61]) three_devices))) = [[SLASH, 0x62], [SLASH, 0x62]]"
  "dm_find_name (snd (dm_unregister (Some [SLASH, 0x61]) three_devices)) [SLASH, 0x63] = None"
proof -
  show "dm_wf three_devices"
    by (simp add: dm_wf_def three_devices_def DM_MAX_DEVICES_def dm_name_at_def dev_name_ok_def DM_MAX_DEV_NAME_def
        All_less_Suc numeral_3_eq_3 strcaseeq_def c_tolower_def SLASH_def)
qed code_simp+

text \<open>A device name is matched as a prefix with no boundary: \<open>/romx\<close> names a file of \<open>/rom\<close>'s directory.\<close>

lemma device_prefix_without_boundary:
  "dm_device_id_from_name three_devices [SLASH, 0x61, 0x78] = Some (0, [0x78])"
  by code_simp

end
