(* ===== verification/Romfs.thy ===== *)
theory Romfs
  imports Devman
begin

text \<open>
  The read-only file system in ROM, \<open>src/romfs.c\<close> with \<open>inc/romfs.h\<close>, and the device
  \<open>/rom\<close> it registers. The image is a constant array behind the function \<open>img\<close> from addresses to
  bytes (\<open>romfiles_fs\<close>); the table of open files is a list of \<open>ROMFS_MAX_FDS\<close> records.

  A descriptor outside the table and a copy to entry \<open>-1\<close> (when the table is full although the
  count says it is not) touch memory that is not modelled.
\<close>

section \<open>State\<close>

definition ROMFS_MAX_FDS :: nat where "ROMFS_MAX_FDS = 4"

record FS =
  fs_baseaddr :: u32
  fs_offset :: u32
  fs_size :: u16
  fs_used :: bool        \<comment> \<open>\<open>p_read_func != NULL\<close>\<close>

record romfs_st =
  romfs_fd_table :: "FS list"
  romfs_num_fd :: int
  romfs_dir_data :: u32

definition fs_zero :: FS where
  "fs_zero = \<lparr> fs_baseaddr = 0, fs_offset = 0, fs_size = 0, fs_used = False \<rparr>"

type_synonym romimg = "u32 \<Rightarrow> u8"

definition romfs_find_empty_fd :: "romfs_st \<Rightarrow> nat option" where
  "romfs_find_empty_fd s = find (\<lambda>i. \<not> fs_used (romfs_fd_table s ! i)) [0..<ROMFS_MAX_FDS]"

definition romfs_close_fd :: "int \<Rightarrow> romfs_st \<Rightarrow> romfs_st" where
  "romfs_close_fd fd s = s\<lparr> romfs_fd_table := (romfs_fd_table s)[nat fd := fs_zero] \<rparr>"

section \<open>The directory\<close>

text \<open>The loop that reads a name of at most \<open>k\<close> bytes, without its terminator.\<close>

fun romfs_name :: "romimg \<Rightarrow> u32 \<Rightarrow> nat \<Rightarrow> u8 list" where
  "romfs_name img a 0 = []"
| "romfs_name img a (Suc k) = (if img a = 0 then [] else img a # romfs_name img (a + 1) k)"

definition romfs_fsize :: "romimg \<Rightarrow> u32 \<Rightarrow> u16" where
  "romfs_fsize img j = ucast (ucast (img j) + push_bit 8 (ucast (img (j + 1))) :: u32)"

text \<open>
  The search: \<open>None\<close> when the fuel runs out, \<open>Some None\<close> is \<open>FS_FILE_NOT_FOUND\<close>.
\<close>

fun romfs_search :: "nat \<Rightarrow> u8 list \<Rightarrow> romimg \<Rightarrow> u32 \<Rightarrow> FS option option" where
  "romfs_search 0 fname img i = None"
| "romfs_search (Suc fuel) fname img i =
     (let fsname = romfs_name img i DM_MAX_FNAME_LENGTH in
      if fsname = [] then Some None
      else
        let j = i + of_nat (length fsname) + 1;
            fsize = romfs_fsize img j
        in if strncaseeq DM_MAX_FNAME_LENGTH fname fsname
           then Some (Some \<lparr> fs_baseaddr = j + 2, fs_offset = 0, fs_size = fsize, fs_used = True \<rparr>)
           else romfs_search fuel fname img (j + 2 + ucast fsize))"

text \<open>
  One turn per address is fuel enough: a search that takes more turns comes back to an address it
  has seen and never ends.
\<close>

definition romfs_open_file :: "u8 list \<Rightarrow> romimg \<Rightarrow> FS option option" where
  "romfs_open_file fname img = romfs_search (2 ^ 32) fname img 0"

section \<open>Device functions\<close>

definition romfs_open_r :: "romimg \<Rightarrow> u8 list \<Rightarrow> int \<Rightarrow> int \<Rightarrow> (int, romfs_st) devcall" where
  "romfs_open_r img path flags mode s =
     (if romfs_num_fd s = int ROMFS_MAX_FDS then (-1, Some ENFILE, s)
      else case romfs_open_file path img of
        Some (Some tempfs) \<Rightarrow>
          (case romfs_find_empty_fd s of
             Some i \<Rightarrow> (int i, None, s\<lparr> romfs_fd_table := (romfs_fd_table s)[i := tempfs],
                          romfs_num_fd := romfs_num_fd s + 1 \<rparr>)
           | None \<Rightarrow> (-1, None, s\<lparr> romfs_num_fd := romfs_num_fd s + 1 \<rparr>))
      | _ \<Rightarrow> (-1, Some ENOENT, s))"

definition romfs_close_r :: "int \<Rightarrow> (int, romfs_st) devcall" where
  "romfs_close_r fd s = (0, None, (romfs_close_fd fd s)\<lparr> romfs_num_fd := romfs_num_fd s - 1 \<rparr>)"

definition romfs_write_r :: "int \<Rightarrow> u8 list \<Rightarrow> (int, romfs_st) devcall" where
  "romfs_write_r fd bs s = (-1, Some EINVAL, s)"

definition romfs_upd_fs :: "int \<Rightarrow> FS \<Rightarrow> romfs_st \<Rightarrow> romfs_st" where
  "romfs_upd_fs fd p s = s\<lparr> romfs_fd_table := (romfs_fd_table s)[nat fd := p] \<rparr>"

definition romfs_read_r :: "romimg \<Rightarrow> int \<Rightarrow> nat \<Rightarrow> (int \<times> u8 list, romfs_st) devcall" where
  "romfs_read_r img fd len s =
     (let pfs = romfs_fd_table s ! nat fd;
          actlen = min len (unat (ucast (fs_size pfs) - fs_offset pfs))
      in ((int actlen, mem_read img (fs_offset pfs + fs_baseaddr pfs) actlen), None,
          romfs_upd_fs fd (pfs\<lparr> fs_offset := fs_offset pfs + of_nat actlen \<rparr>) s))"

definition SEEK_SET :: int where "SEEK_SET = 0"
definition SEEK_CUR :: int where "SEEK_CUR = 1"
definition SEEK_END :: int where "SEEK_END = 2"

definition romfs_lseek_r :: "int \<Rightarrow> int \<Rightarrow> int \<Rightarrow> (int, romfs_st) devcall" where
  "romfs_lseek_r fd off whence s =
     (let pfs = romfs_fd_table s ! nat fd in
      if whence \<noteq> SEEK_SET \<and> whence \<noteq> SEEK_CUR \<and> whence \<noteq> SEEK_END then (-1, None, s)
      else
        let newpos = (if whence = SEEK_SET then of_int off
              else if whence = SEEK_CUR then fs_offset pfs + of_int off
              else ucast (fs_size pfs) + of_int off :: u32)
        in if newpos > ucast (fs_size pfs) then (-1, None, s)
           else (uint newpos, None, romfs_upd_fs fd (pfs\<lparr> fs_offset := newpos \<rparr>) s))"

text \<open>
  The directory descriptor is the address of \<open>romfs_dir_data\<close> (\<open>ROMFS_DIR\<close> here). A NULL path is
  not distinguished from an empty one.
\<close>

definition ROMFS_DIR :: u32 where "ROMFS_DIR = 0x20000000"

definition romfs_opendir_r :: "u8 list \<Rightarrow> (u32 option, romfs_st) devcall" where
  "romfs_opendir_r dname s =
     (if dname = [] \<or> dname = [SLASH] then (Some ROMFS_DIR, None, s\<lparr> romfs_dir_data := 0 \<rparr>)
      else (None, None, s))"

text \<open>The name loop ends at the terminator; \<open>2 ^ 32\<close> bytes are the whole address space.\<close>

definition romfs_readdir_r :: "romimg \<Rightarrow> u32 \<Rightarrow> (dm_dirent option, romfs_st) devcall" where
  "romfs_readdir_r img d s =
     (let off = romfs_dir_data s in
      if img off = 0 then (None, None, s)
      else
        let fname = romfs_name img off (2 ^ 32);
            j = off + of_nat (length fname) + 1;
            fsize = ucast (img j) + push_bit 8 (ucast (img (j + 1))) :: u32
        in (Some \<lparr> de_fsize = fsize, de_fname = fname, de_ftime = 0 \<rparr>, None,
            s\<lparr> romfs_dir_data := j + 2 + fsize \<rparr>))"

definition romfs_closedir_r :: "u32 \<Rightarrow> (int, romfs_st) devcall" where
  "romfs_closedir_r d s = (0, None, s\<lparr> romfs_dir_data := 0 \<rparr>)"

definition romfs_device :: "romimg \<Rightarrow> romfs_st dm_device" where
  "romfs_device img =
     \<lparr> dev_name = [SLASH, 0x72, 0x6F, 0x6D],
       p_open_r = Some (romfs_open_r img), p_close_r = Some romfs_close_r, p_write_r = Some romfs_write_r,
       p_read_r = Some (romfs_read_r img), p_lseek_r = Some romfs_lseek_r, p_fstat_r = None,
       p_opendir_r = Some romfs_opendir_r, p_readdir_r = Some (romfs_readdir_r img), p_closedir_r = Some romfs_closedir_r \<rparr>"

section \<open>Images\<close>

text \<open>
  The layout the header file prescribes: for every file its name with a terminator, its size in two
  bytes and its data; an empty name ends the image.
\<close>

type_synonym romfile = "u8 list \<times> u8 list"

definition rom_entry :: "romfile \<Rightarrow> u8 list" where
  "rom_entry f = fst f @ [0] @ [of_nat (length (snd f) mod 256), of_nat (length (snd f) div 256)] @ snd f"

fun rom_image :: "romfile list \<Rightarrow> u8 list" where
  "rom_image [] = [0]"
| "rom_image (f # fs) = rom_entry f @ rom_image fs"

definition rom_file_ok :: "romfile \<Rightarrow> bool" where
  "rom_file_ok f \<longleftrightarrow> fst f \<noteq> [] \<and> 0 \<notin> set (fst f) \<and> length (fst f) \<le> DM_MAX_FNAME_LENGTH \<and> length (snd f) < 65536"

definition rom_ok :: "romfile list \<Rightarrow> romimg \<Rightarrow> bool" where
  "rom_ok fs img \<longleftrightarrow> (\<forall>f \<in> set fs. rom_file_ok f) \<and> length (rom_image fs) < 2 ^ 32 \<and> mem_at img 0 (rom_image fs)"

text \<open>The file a name stands for: the first one that matches, ignoring case.\<close>

definition rom_lookup :: "romfile list \<Rightarrow> u8 list \<Rightarrow> u8 list option" where
  "rom_lookup fs name = map_option snd (find (\<lambda>f. strncaseeq DM_MAX_FNAME_LENGTH name (fst f)) fs)"

lemma romfs_name_at:
  "mem_at img a (n @ 0 # r) \<Longrightarrow> 0 \<notin> set n \<Longrightarrow> length n \<le> k \<Longrightarrow> romfs_name img a k = n"
proof (induction n arbitrary: a k)
  case Nil
  then show ?case by (cases k) auto
next
  case (Cons x n)
  then show ?case by (cases k) auto
qed

lemma size_bytes:
  assumes "n < 65536"
  shows "unat (ucast (of_nat (n mod 256) :: u8) + push_bit 8 (ucast (of_nat (n div 256) :: u8)) :: u32) = n"
proof -
  have "unat (ucast (of_nat (n mod 256) :: u8) :: u32) = n mod 256"
    by (simp add: unat_ucast_up unat_of_nat_small)
  moreover have "unat (ucast (of_nat (n div 256) :: u8) :: u32) = n div 256"
    using assms by (simp add: unat_ucast_up unat_of_nat_small)
  moreover have "n div 256 < 256" using assms by simp
  ultimately show ?thesis
    by (simp add: push_bit_eq_mult unat_word_ariths)
qed

text \<open>Reading one entry of the image.\<close>

lemma entry_at:
  assumes "mem_at img i (rom_entry f @ r)" "rom_file_ok f" "DM_MAX_FNAME_LENGTH \<le> k"
    and "j = i + of_nat (length (fst f)) + 1"
  shows "romfs_name img i k = fst f" "img i \<noteq> 0"
    and "ucast (img j) + push_bit 8 (ucast (img (j + 1))) = (of_nat (length (snd f)) :: u32)"
    and "unat (romfs_fsize img j) = length (snd f)"
    and "mem_at img (j + 2) (snd f)" "mem_at img (j + 2 + of_nat (length (snd f))) r"
proof -
  obtain n c where f: "f = (n, c)" by (cases f)
  have ok: "n \<noteq> []" "0 \<notin> set n" "length n \<le> DM_MAX_FNAME_LENGTH" "length c < 65536"
    using assms(2) by (simp_all add: rom_file_ok_def f)
  have at: "mem_at img i (n @ 0 # [of_nat (length c mod 256), of_nat (length c div 256)] @ c @ r)"
    using assms(1) by (simp add: rom_entry_def f)
  show "romfs_name img i k = fst f"
    using romfs_name_at [OF at] ok assms(3) by (simp add: f)
  show "img i \<noteq> 0" using at ok(1,2) by (cases n) auto
  have at2: "mem_at img (i + of_nat (length n)) (0 # [of_nat (length c mod 256), of_nat (length c div 256)] @ c @ r)"
    using at by (simp add: mem_at_append)
  then have bytes: "img j = of_nat (length c mod 256)" "img (j + 1) = of_nat (length c div 256)"
    "mem_at img (j + 2) (c @ r)" using assms(4) by (simp_all add: f add.assoc)
  show sz: "ucast (img j) + push_bit 8 (ucast (img (j + 1))) = (of_nat (length (snd f)) :: u32)"
    using size_bytes [OF ok(4)] ok(4) by (simp add: word_unat_eq_iff bytes unat_of_nat_small f)
  show "unat (romfs_fsize img j) = length (snd f)"
    unfolding romfs_fsize_def sz using ok(4) by (simp add: f unsigned_ucast_eq unat_of_nat_small take_bit_nat_eq_self_iff)
  show "mem_at img (j + 2) (snd f)" "mem_at img (j + 2 + of_nat (length (snd f))) r"
    using bytes(3) by (simp_all add: f mem_at_append)
qed

lemma romfs_search_correct:
  assumes "\<forall>f \<in> set fs. rom_file_ok f" "mem_at img i (rom_image fs)" "length fs < fuel"
  shows "case find (\<lambda>f. strncaseeq DM_MAX_FNAME_LENGTH name (fst f)) fs of
      None \<Rightarrow> romfs_search fuel name img i = Some None
    | Some f \<Rightarrow> \<exists>p. romfs_search fuel name img i = Some (Some p) \<and> fs_offset p = 0 \<and> fs_used p
        \<and> unat (fs_size p) = length (snd f) \<and> mem_at img (fs_baseaddr p) (snd f)"
  using assms
proof (induction fs arbitrary: i fuel)
  case Nil
  then obtain k where "fuel = Suc k" by (cases fuel) auto
  moreover have "romfs_name img i DM_MAX_FNAME_LENGTH = []"
    using Nil romfs_name_at [of img i "[]" "[]"] by simp
  ultimately show ?case by simp
next
  case (Cons f fs)
  then obtain k where k: "fuel = Suc k" "length fs < k" by (cases fuel) auto
  define j where "j = i + of_nat (length (fst f)) + 1"
  have ok: "rom_file_ok f" and at: "mem_at img i (rom_entry f @ rom_image fs)" using Cons.prems by simp_all
  note e = entry_at [OF at ok order_refl j_def]
  have ne: "fst f \<noteq> []" using ok by (simp add: rom_file_ok_def)
  have uc: "(ucast (romfs_fsize img j) :: u32) = of_nat (length (snd f))"
    using e(4) by (metis of_nat_unat)
  show ?case
  proof (cases "strncaseeq DM_MAX_FNAME_LENGTH name (fst f)")
    case True
    then show ?thesis using e ne by (simp add: k Let_def j_def [symmetric])
  next
    case False
    have "romfs_search fuel name img i = romfs_search k name img (j + 2 + of_nat (length (snd f)))"
      using False e(1) ne by (simp add: k Let_def j_def [symmetric] uc)
    then show ?thesis
      using Cons.IH [OF _ e(6) k(2)] Cons.prems(1) False by (auto split: option.splits)
  qed
qed

lemma length_image: "4 * length fs < length (rom_image fs) \<or> fs = [] \<or> (\<exists>f \<in> set fs. fst f = [])"
proof (induction fs)
  case (Cons f fs)
  then show ?case by (cases "fst f") (auto simp: rom_entry_def)
qed simp

lemma romfs_open_file_correct:
  assumes "rom_ok fs img"
  shows "case find (\<lambda>f. strncaseeq DM_MAX_FNAME_LENGTH name (fst f)) fs of
      None \<Rightarrow> romfs_open_file name img = Some None
    | Some f \<Rightarrow> \<exists>p. romfs_open_file name img = Some (Some p) \<and> fs_offset p = 0 \<and> fs_used p
        \<and> unat (fs_size p) = length (snd f) \<and> mem_at img (fs_baseaddr p) (snd f)"
  unfolding romfs_open_file_def
proof (rule romfs_search_correct)
  show ok: "\<forall>f \<in> set fs. rom_file_ok f" and "mem_at img 0 (rom_image fs)" using assms by (simp_all add: rom_ok_def)
  show "length fs < 2 ^ 32"
    using length_image [of fs] assms ok by (auto simp: rom_ok_def rom_file_ok_def)
qed

section \<open>Open files\<close>

definition romfs_handle :: "romimg \<Rightarrow> romfs_st \<Rightarrow> int \<Rightarrow> (u8 list \<times> nat) option" where
  "romfs_handle img s fd =
     (if 0 \<le> fd \<and> fd < int ROMFS_MAX_FDS \<and> fs_used (romfs_fd_table s ! nat fd)
      then (let p = romfs_fd_table s ! nat fd
            in Some (mem_read img (fs_baseaddr p) (unat (fs_size p)), unat (fs_offset p)))
      else None)"

definition romfs_used :: "romfs_st \<Rightarrow> nat" where
  "romfs_used s = length (filter fs_used (romfs_fd_table s))"

text \<open>
  The table is well typed: the count is the number of open files and no position lies behind the
  end of its file.
\<close>

definition romfs_wf :: "romfs_st \<Rightarrow> bool" where
  "romfs_wf s \<longleftrightarrow> length (romfs_fd_table s) = ROMFS_MAX_FDS \<and> romfs_num_fd s = int (romfs_used s)
     \<and> (\<forall>p \<in> set (romfs_fd_table s). unat (fs_offset p) \<le> unat (fs_size p))"

definition romfs_room :: "romfs_st \<Rightarrow> bool" where
  "romfs_room s \<longleftrightarrow> romfs_num_fd s < int ROMFS_MAX_FDS"

lemma filter_update:
  "i < length xs \<Longrightarrow> length (filter P (xs[i := y])) + (if P (xs ! i) then 1 else 0)
    = length (filter P xs) + (if P y then 1 else 0)"
proof (induction xs arbitrary: i)
  case (Cons x xs)
  then show ?case by (cases i) auto
qed simp

lemma find_empty_fd:
  assumes "romfs_wf s" "romfs_room s"
  shows "\<exists>i. romfs_find_empty_fd s = Some i \<and> i < ROMFS_MAX_FDS \<and> \<not> fs_used (romfs_fd_table s ! i)"
proof -
  have len: "length (romfs_fd_table s) = ROMFS_MAX_FDS" using assms(1) by (simp add: romfs_wf_def)
  have "romfs_find_empty_fd s \<noteq> None"
  proof
    assume "romfs_find_empty_fd s = None"
    then have "\<forall>p \<in> set (romfs_fd_table s). fs_used p"
      using len by (auto simp: romfs_find_empty_fd_def find_None_iff in_set_conv_nth)
    then have "filter fs_used (romfs_fd_table s) = romfs_fd_table s" by (simp add: filter_True)
    then show False using assms len by (simp add: romfs_wf_def romfs_room_def romfs_used_def)
  qed
  then show ?thesis by (auto simp: romfs_find_empty_fd_def find_Some_iff)
qed

lemma size_minus_offset:
  assumes "unat (fs_offset p) \<le> unat (fs_size p)"
  shows "unat (ucast (fs_size p) - fs_offset p) = unat (fs_size p) - unat (fs_offset p)"
  using assms by (simp add: unat_sub word_le_nat_alt unat_ucast_up)

definition romfs_inv :: "romfile list \<Rightarrow> romimg \<Rightarrow> romfs_st \<Rightarrow> bool" where
  "romfs_inv fs img s \<longleftrightarrow> rom_ok fs img \<and> romfs_wf s"

lemma romfs_read_slice:
  assumes "romfs_wf s" "romfs_handle img s fd = Some (c, p)"
  shows "\<exists>s'. romfs_read_r img fd len s = ((int (length (take len (drop p c))), take len (drop p c)), None, s')
    \<and> romfs_wf s' \<and> romfs_handle img s' = (romfs_handle img s)(fd \<mapsto> (c, p + length (take len (drop p c))))"
proof -
  let ?q = "romfs_fd_table s ! nat fd"
  have fd: "0 \<le> fd" "fd < int ROMFS_MAX_FDS" "fs_used ?q"
    and c: "c = mem_read img (fs_baseaddr ?q) (unat (fs_size ?q))" and p: "p = unat (fs_offset ?q)"
    using assms(2) by (auto simp: romfs_handle_def Let_def split: if_splits)
  have len: "nat fd < length (romfs_fd_table s)" using assms(1) fd by (auto simp: romfs_wf_def)
  then have le: "unat (fs_offset ?q) \<le> unat (fs_size ?q)" using assms(1) by (simp add: romfs_wf_def)
  define k where "k = min len (unat (fs_size ?q) - p)"
  have slice: "take len (drop p c) = mem_read img (fs_offset ?q + fs_baseaddr ?q) k"
    using le by (simp add: c p drop_mem_read take_mem_read k_def add.commute)
  have off: "unat (fs_offset ?q + of_nat k) = p + k"
  proof -
    have "p + k \<le> unat (fs_size ?q)" using le unfolding k_def p by arith
    then have "p + k < 2 ^ 32" using unat_u16_less [of "fs_size ?q"] by (simp del: unat_u16_less)
    then show ?thesis by (simp add: unat_word_ariths unat_of_nat_small p)
  qed
  define s' where "s' = romfs_upd_fs fd (?q\<lparr> fs_offset := fs_offset ?q + of_nat k \<rparr>) s"
  have "romfs_read_r img fd len s = ((int k, mem_read img (fs_offset ?q + fs_baseaddr ?q) k), None, s')"
    using le by (simp add: romfs_read_r_def Let_def size_minus_offset k_def p s'_def)
  moreover have "romfs_wf s'"
  proof -
    have "romfs_used s' = romfs_used s"
      using filter_update [OF len, of fs_used "?q\<lparr> fs_offset := fs_offset ?q + of_nat k \<rparr>"] fd(3)
      by (simp add: romfs_used_def s'_def romfs_upd_fs_def)
    moreover have "p + k \<le> unat (fs_size ?q)" using le unfolding k_def p by arith
    ultimately show ?thesis
      using assms(1) off by (auto simp: romfs_wf_def s'_def romfs_upd_fs_def dest!: set_update_subset_insert [THEN subsetD])
  qed
  moreover have "romfs_handle img s' = (romfs_handle img s)(fd \<mapsto> (c, p + k))"
  proof
    fix x
    show "romfs_handle img s' x = ((romfs_handle img s)(fd \<mapsto> (c, p + k))) x"
      using fd len off by (cases "x = fd") (auto simp: romfs_handle_def s'_def romfs_upd_fs_def c Let_def nat_eq_iff2 nth_list_update)
  qed
  ultimately show ?thesis using slice by simp
qed

lemma romfs_open_handle:
  assumes "romfs_wf s" "romfs_room s" "rom_ok fs img" "rom_lookup fs n = Some c"
  shows "\<exists>fd s'. romfs_open_r img n flags mode s = (fd, None, s') \<and> 0 \<le> fd \<and> fd < 2048 \<and> romfs_wf s'
    \<and> romfs_handle img s fd = None \<and> romfs_handle img s' = (romfs_handle img s)(fd \<mapsto> (c, 0))"
proof -
  obtain f where f: "find (\<lambda>f. strncaseeq DM_MAX_FNAME_LENGTH n (fst f)) fs = Some f" "c = snd f"
    using assms(4) by (auto simp: rom_lookup_def)
  from romfs_open_file_correct [OF assms(3), of n] obtain p where
    p: "romfs_open_file n img = Some (Some p)" "fs_offset p = 0" "fs_used p" "unat (fs_size p) = length c"
      "mem_at img (fs_baseaddr p) c" by (auto simp: f)
  obtain i where i: "romfs_find_empty_fd s = Some i" "i < ROMFS_MAX_FDS" "\<not> fs_used (romfs_fd_table s ! i)"
    using find_empty_fd [OF assms(1,2)] by blast
  define s' where "s' = s\<lparr> romfs_fd_table := (romfs_fd_table s)[i := p], romfs_num_fd := romfs_num_fd s + 1 \<rparr>"
  have len: "i < length (romfs_fd_table s)" "length (romfs_fd_table s) = ROMFS_MAX_FDS"
    using assms(1) i(2) by (simp_all add: romfs_wf_def)
  have "romfs_open_r img n flags mode s = (int i, None, s')"
    using assms(2) by (simp add: romfs_open_r_def romfs_room_def p(1) i(1) s'_def)
  moreover have "romfs_wf s'"
    using assms(1) filter_update [OF len(1), of fs_used p] i(3) p(2,3)
    by (auto simp: romfs_wf_def s'_def romfs_used_def dest!: set_update_subset_insert [THEN subsetD])
  moreover have "romfs_handle img s' = (romfs_handle img s)(int i \<mapsto> (c, 0))"
  proof
    fix x
    show "romfs_handle img s' x = ((romfs_handle img s)(int i \<mapsto> (c, 0))) x"
      using i len p by (cases "x = int i")
        (auto simp: romfs_handle_def s'_def Let_def nat_eq_iff2 nth_list_update mem_at_read)
  qed
  moreover have "romfs_handle img s (int i) = None" using i(3) by (simp add: romfs_handle_def)
  moreover have "int i < 2048" using i(2) by (simp add: ROMFS_MAX_FDS_def)
  ultimately show ?thesis by (intro exI [of _ "int i"] exI [of _ s']) simp
qed

lemma romfs_close_handle:
  assumes "romfs_wf s" "romfs_handle img s fd = Some h"
  shows "\<exists>s'. romfs_close_r fd s = (0, None, s') \<and> romfs_wf s' \<and> romfs_room s'
    \<and> romfs_handle img s' = (romfs_handle img s)(fd := None)"
proof -
  have fd: "0 \<le> fd" "fd < int ROMFS_MAX_FDS" "fs_used (romfs_fd_table s ! nat fd)"
    using assms(2) by (auto simp: romfs_handle_def split: if_splits)
  define s' where "s' = (romfs_close_fd fd s)\<lparr> romfs_num_fd := romfs_num_fd s - 1 \<rparr>"
  have len: "nat fd < length (romfs_fd_table s)" "length (romfs_fd_table s) = ROMFS_MAX_FDS"
    using assms(1) fd by (auto simp: romfs_wf_def)
  have cnt: "Suc (romfs_used s') = romfs_used s" "romfs_used s \<le> ROMFS_MAX_FDS"
    using filter_update [OF len(1), of fs_used fs_zero] fd(3) len(2) length_filter_le [of fs_used "romfs_fd_table s"]
    by (simp_all add: romfs_used_def s'_def romfs_close_fd_def fs_zero_def)
  then have "romfs_wf s'"
    using assms(1) by (auto simp: romfs_wf_def s'_def romfs_close_fd_def fs_zero_def dest!: set_update_subset_insert [THEN subsetD])
  moreover have "romfs_room s'" using calculation cnt by (simp add: romfs_room_def romfs_wf_def)
  moreover have "romfs_handle img s' = (romfs_handle img s)(fd := None)"
  proof
    fix x
    show "romfs_handle img s' x = ((romfs_handle img s)(fd := None)) x"
      using fd len by (cases "x = fd") (auto simp: romfs_handle_def s'_def romfs_close_fd_def fs_zero_def Let_def nat_eq_iff2 nth_list_update)
  qed
  ultimately show ?thesis by (simp add: romfs_close_r_def s'_def)
qed

text \<open>The ROM file system is a file device.\<close>

interpretation rom: file_device "romfs_open_r img" "romfs_read_r img" romfs_close_r "romfs_inv fs img" romfs_room
    "rom_lookup fs" "romfs_handle img"
  for img fs
proof unfold_locales
  fix s n c and flags mode :: int
  assume "romfs_inv fs img s" "romfs_room s" "rom_lookup fs n = Some c"
  then show "\<exists>fd s'. romfs_open_r img n flags mode s = (fd, None, s') \<and> 0 \<le> fd \<and> fd < 2048 \<and> romfs_inv fs img s'
      \<and> romfs_handle img s fd = None \<and> romfs_handle img s' = (romfs_handle img s)(fd \<mapsto> (c, 0))"
    using romfs_open_handle [of s fs img n c flags mode] by (simp add: romfs_inv_def)
next
  fix s n and flags mode :: int
  assume a: "romfs_inv fs img s" "romfs_room s" "rom_lookup fs n = None"
  then have "find (\<lambda>f. strncaseeq DM_MAX_FNAME_LENGTH n (fst f)) fs = None" by (simp add: rom_lookup_def)
  then have "romfs_open_file n img = Some None"
    using a(1) romfs_open_file_correct [of fs img n] by (simp add: romfs_inv_def)
  then show "romfs_open_r img n flags mode s = (- 1, Some ENOENT, s)"
    using a(2) by (simp add: romfs_open_r_def romfs_room_def)
next
  fix s fd c p and len :: nat
  assume "romfs_inv fs img s" "romfs_handle img s fd = Some (c, p)"
  then show "\<exists>s'. romfs_read_r img fd len s = ((int (length (take len (drop p c))), take len (drop p c)), None, s')
      \<and> romfs_inv fs img s' \<and> romfs_handle img s' = (romfs_handle img s)(fd \<mapsto> (c, p + length (take len (drop p c))))"
    using romfs_read_slice [of s img fd c p len] by (simp add: romfs_inv_def)
next
  fix s fd h
  assume "romfs_inv fs img s" "romfs_handle img s fd = Some h"
  then show "\<exists>s'. romfs_close_r fd s = (0, None, s') \<and> romfs_inv fs img s' \<and> romfs_room s'
      \<and> romfs_handle img s' = (romfs_handle img s)(fd := None)"
    using romfs_close_handle [of s img fd h] by (simp add: romfs_inv_def)
qed

section \<open>Every history of calls keeps the table well typed\<close>

text \<open>
  The calls on the device with descriptors of its table. A read, a write or a seek may name a
  descriptor that is not open; a close may not, because \<open>romfs_close_r\<close> does not look whether the
  descriptor is open (\<open>romfs_close_any\<close> says what it does then). The table starts zeroed.
\<close>

definition romfs_start :: romfs_st where
  "romfs_start = \<lparr> romfs_fd_table = replicate ROMFS_MAX_FDS fs_zero, romfs_num_fd = 0, romfs_dir_data = 0 \<rparr>"

definition romfs_fds :: "int set" where "romfs_fds = {0..<int ROMFS_MAX_FDS}"

inductive romfs_step :: "romimg \<Rightarrow> romfs_st \<Rightarrow> romfs_st \<Rightarrow> bool" for img where
  step_open: "romfs_step img s (snd (snd (romfs_open_r img n flags mode s)))"
| step_read: "fd \<in> romfs_fds \<Longrightarrow> romfs_step img s (snd (snd (romfs_read_r img fd len s)))"
| step_write: "romfs_step img s (snd (snd (romfs_write_r fd bs s)))"
| step_lseek: "fd \<in> romfs_fds \<Longrightarrow> romfs_step img s (snd (snd (romfs_lseek_r fd off whence s)))"
| step_close: "romfs_handle img s fd \<noteq> None \<Longrightarrow> romfs_step img s (snd (snd (romfs_close_r fd s)))"
| step_opendir: "romfs_step img s (snd (snd (romfs_opendir_r dn s)))"
| step_readdir: "romfs_step img s (snd (snd (romfs_readdir_r img d s)))"
| step_closedir: "romfs_step img s (snd (snd (romfs_closedir_r d s)))"

inductive_cases romfs_stepE: "romfs_step img s s'"

lemma romfs_search_fresh: "romfs_search fuel name img i = Some (Some p) \<Longrightarrow> fs_offset p = 0 \<and> fs_used p"
  by (induction fuel name img i rule: romfs_search.induct) (auto simp: Let_def split: if_splits)

lemma romfs_wf_update:
  assumes "romfs_wf s" "nat fd < ROMFS_MAX_FDS" "unat (fs_offset p) \<le> unat (fs_size p)"
    and "n + (if fs_used (romfs_fd_table s ! nat fd) then 1 else 0) = romfs_num_fd s + (if fs_used p then 1 else 0)"
  shows "romfs_wf (s\<lparr> romfs_fd_table := (romfs_fd_table s)[nat fd := p], romfs_num_fd := n \<rparr>)"
  using assms filter_update [of "nat fd" "romfs_fd_table s" fs_used p]
  by (auto simp: romfs_wf_def romfs_used_def dest!: set_update_subset_insert [THEN subsetD] split: if_splits)

lemma romfs_wf_dir: "romfs_wf s \<Longrightarrow> romfs_wf (s\<lparr> romfs_dir_data := x \<rparr>)"
  by (simp add: romfs_wf_def romfs_used_def)

lemma romfs_wf_num: "romfs_wf s \<Longrightarrow> romfs_num_fd s \<le> int ROMFS_MAX_FDS"
  using length_filter_le [of fs_used "romfs_fd_table s"] by (simp add: romfs_wf_def romfs_used_def)

lemma romfs_wf_open: "romfs_wf s \<Longrightarrow> romfs_wf (snd (snd (romfs_open_r img n flags mode s)))"
proof (cases "\<exists>p. romfs_open_file n img = Some (Some p) \<and> romfs_room s")
  case True
  then obtain p where p: "romfs_open_file n img = Some (Some p)" "romfs_room s" by blast
  assume wf: "romfs_wf s"
  obtain i where i: "romfs_find_empty_fd s = Some i" "i < ROMFS_MAX_FDS" "\<not> fs_used (romfs_fd_table s ! i)"
    using find_empty_fd [OF wf p(2)] by blast
  have "fs_offset p = 0 \<and> fs_used p" using p(1) by (simp add: romfs_open_file_def romfs_search_fresh)
  then show ?thesis
    using romfs_wf_update [OF wf, of "int i" p "romfs_num_fd s + 1"] i p
    by (simp add: romfs_open_r_def romfs_room_def)
next
  case False
  assume wf: "romfs_wf s"
  with False show ?thesis using romfs_wf_num [OF wf]
    by (auto simp: romfs_open_r_def romfs_room_def split: option.splits)
qed

lemma romfs_wf_lseek:
  assumes "romfs_wf s" "fd \<in> romfs_fds"
  shows "romfs_wf (snd (snd (romfs_lseek_r fd off whence s)))"
proof -
  have fd: "nat fd < ROMFS_MAX_FDS" using assms(2) by (auto simp: romfs_fds_def)
  have le: "unat x \<le> unat (fs_size q)" if "\<not> ucast (fs_size q) < x" for x :: u32 and q
    using that by (simp add: not_less word_le_nat_alt unat_ucast_up)
  have upd: "romfs_wf (romfs_upd_fs fd ((romfs_fd_table s ! nat fd)\<lparr> fs_offset := x \<rparr>) s)"
    if "\<not> ucast (fs_size (romfs_fd_table s ! nat fd)) < x" for x
    using romfs_wf_update [OF assms(1) fd, of "(romfs_fd_table s ! nat fd)\<lparr> fs_offset := x \<rparr>" "romfs_num_fd s"]
      le [OF that] by (simp add: romfs_upd_fs_def)
  have "romfs_lseek_r fd off whence s = (-1, None, s) \<or>
    (\<exists>x. \<not> ucast (fs_size (romfs_fd_table s ! nat fd)) < x
      \<and> romfs_lseek_r fd off whence s = (uint x, None, romfs_upd_fs fd ((romfs_fd_table s ! nat fd)\<lparr> fs_offset := x \<rparr>) s))"
    unfolding romfs_lseek_r_def Let_def by auto
  then show ?thesis
    using assms(1) upd by auto
qed

lemma romfs_wf_read:
  assumes "romfs_wf s" "fd \<in> romfs_fds"
  shows "romfs_wf (snd (snd (romfs_read_r img fd len s)))"
proof -
  let ?q = "romfs_fd_table s ! nat fd"
  define k where "k = min len (unat (fs_size ?q) - unat (fs_offset ?q))"
  have fd: "nat fd < ROMFS_MAX_FDS" using assms(2) by (auto simp: romfs_fds_def)
  then have le: "unat (fs_offset ?q) \<le> unat (fs_size ?q)" using assms(1) by (simp add: romfs_wf_def)
  then have k: "unat (fs_offset ?q) + k \<le> unat (fs_size ?q)" unfolding k_def by arith
  then have "unat (fs_offset ?q) + k < 2 ^ 32" using unat_u16_less [of "fs_size ?q"] by (simp del: unat_u16_less)
  then have "unat (fs_offset ?q + of_nat k) = unat (fs_offset ?q) + k" by (simp add: unat_word_ariths unat_of_nat_small)
  then show ?thesis
    using romfs_wf_update [OF assms(1) fd, of "?q\<lparr> fs_offset := fs_offset ?q + of_nat k \<rparr>" "romfs_num_fd s"] k le
    by (simp add: romfs_read_r_def Let_def size_minus_offset k_def romfs_upd_fs_def)
qed

text \<open>A close takes one from the count; it is the count of open files again only if the descriptor was open.\<close>

lemma romfs_close_any:
  assumes "romfs_wf s" "fd \<in> romfs_fds"
  shows "romfs_wf (snd (snd (romfs_close_r fd s))) \<longleftrightarrow> romfs_handle img s fd \<noteq> None"
proof (cases "romfs_handle img s fd")
  case None
  have len: "nat fd < length (romfs_fd_table s)" using assms by (auto simp: romfs_wf_def romfs_fds_def)
  have "\<not> fs_used (romfs_fd_table s ! nat fd)"
    using None assms(2) by (simp add: romfs_handle_def romfs_fds_def Let_def split: if_splits)
  then have "romfs_used (snd (snd (romfs_close_r fd s))) = romfs_used s"
    using filter_update [OF len, of fs_used fs_zero] by (simp add: romfs_used_def romfs_close_r_def romfs_close_fd_def fs_zero_def)
  moreover have "romfs_num_fd (snd (snd (romfs_close_r fd s))) = romfs_num_fd s - 1" by (simp add: romfs_close_r_def)
  ultimately show ?thesis using assms(1) None by (simp add: romfs_wf_def)
next
  case (Some h)
  then show ?thesis using romfs_close_handle [OF assms(1) Some] by auto
qed

text \<open>
  C34: After any calls that open, read, write, seek and list files of the ROM file system and close
  descriptors that are open, its table of descriptors is well typed: it has \<open>ROMFS_MAX_FDS\<close> records, the
  count of open files is the number of records in use, and no position lies behind the end of its
  file. Reads, writes and seeks may name any descriptor of the table. A further close keeps the table
  well typed exactly when its descriptor is open: \<open>romfs_close_r\<close> does not look, and a close of any
  other descriptor makes the count wrong.
\<close>

theorem romfs_reachable_wf:
  assumes "(romfs_step img)\<^sup>*\<^sup>* romfs_start s"
  shows "romfs_wf s \<and> romfs_num_fd s \<le> int ROMFS_MAX_FDS
    \<and> (\<forall>fd \<in> romfs_fds. romfs_wf (snd (snd (romfs_close_r fd s))) \<longleftrightarrow> romfs_handle img s fd \<noteq> None)"
proof -
  from assms have wf: "romfs_wf s"
  proof (induction rule: rtranclp_induct)
    case base
    show ?case by (simp add: romfs_wf_def romfs_start_def romfs_used_def fs_zero_def)
  next
    case (step s t)
    from step(2) step.IH show ?case
    proof (cases rule: romfs_step.cases)
      case (step_close fd)
      then have "fd \<in> romfs_fds" by (auto simp: romfs_handle_def romfs_fds_def split: if_splits)
      with step_close step.IH show ?thesis using romfs_close_any by simp
    qed (simp_all add: step.IH romfs_wf_open romfs_wf_read romfs_wf_lseek romfs_wf_dir romfs_write_r_def romfs_opendir_r_def
        romfs_readdir_r_def romfs_closedir_r_def Let_def)
  qed
  then show ?thesis using romfs_wf_num romfs_close_any by blast
qed

section \<open>The ROM file system behind the system calls\<close>

definition ROM_NAME :: "u8 list" where "ROM_NAME = [0x72, 0x6F, 0x6D]"

text \<open>A world in which device \<open>i\<close> is the ROM file system over the image of \<open>fs\<close>.\<close>

definition rom_mounted :: "romfile list \<Rightarrow> romimg \<Rightarrow> nat \<Rightarrow> romfs_st dm_world \<Rightarrow> bool" where
  "rom_mounted fs img i W \<longleftrightarrow> dm_wf W \<and> i < dm_num_devs W \<and> dm_get_device_at W (int i) = Some (romfs_device img)
     \<and> romfs_inv fs img (dev_state W)"

lemma rom_mounted_name:
  assumes "rom_mounted fs img i W" "map c_tolower dn = ROM_NAME"
  shows "strcaseeq (SLASH # dn) (dm_name_at W i)" "dn \<noteq> []" "SLASH \<notin> set dn"
proof -
  have "dm_name_at W i = SLASH # ROM_NAME"
    using assms(1) by (auto simp: rom_mounted_def dm_get_device_at_def dm_name_at_def romfs_device_def ROM_NAME_def)
  moreover have "map c_tolower ROM_NAME = ROM_NAME" by (simp add: ROM_NAME_def c_tolower_def)
  ultimately show "strcaseeq (SLASH # dn) (dm_name_at W i)" using assms(2) by (simp add: strcaseeq_def)
  show "dn \<noteq> []" using assms(2) by (auto simp: ROM_NAME_def)
  have "c_tolower SLASH \<notin> set (map c_tolower dn)" unfolding assms(2) by (simp add: ROM_NAME_def c_tolower_def SLASH_def)
  then show "SLASH \<notin> set dn" by (simp add: image_iff) blast
qed

text \<open>
  C11: Opening \<open>/rom/<name>\<close> of a file of the image, reading it in pieces of any lengths and
  closing it, through the system calls, gives the bytes of the file in order and nothing behind
  their end; afterwards every other open file is as it was and a descriptor is free.
\<close>

theorem rom_file_read_through_system_calls:
  assumes "rom_mounted fs img i W" "romfs_room (dev_state W)" "map c_tolower dn = ROM_NAME" "n \<noteq> []"
    and "rom_lookup fs n = Some c" "\<forall>len \<in> set ls. len < 2 ^ 32"
  shows "\<exists>desc W1 W2 W3. open_r (Some (SLASH # dn @ SLASH # n)) flags mode W = Some (desc, W1) \<and> 0 \<le> desc
    \<and> read_pieces desc ls W1 = Some (pieces c ls, W2) \<and> close_r desc W2 = Some (0, W3)
    \<and> romfs_inv fs img (dev_state W3) \<and> romfs_room (dev_state W3)
    \<and> romfs_handle img (dev_state W3) = romfs_handle img (dev_state W)"
proof (rule rom.open_read_close_file [where d = "romfs_device img" and i = i and n = n])
  note m = rom_mounted_name [OF assms(1,3)]
  have wf: "dm_wf W" "i < dm_num_devs W" using assms(1) by (simp_all add: rom_mounted_def)
  show "find_dm_entry W (Some (SLASH # dn @ SLASH # n)) = Some (i, n)"
    by (rule find_dm_entry_path [OF wf m(1) m(3,2) assms(4)])
  show "served_by W (int i) (romfs_device img)"
    using assms(1) by (auto simp: served_by_def rom_mounted_def dm_wf_def)
  show "romfs_inv fs img (dev_state W)" using assms(1) by (simp add: rom_mounted_def)
qed (use assms in \<open>simp_all add: romfs_device_def\<close>)

lemma romfs_readdir_entry:
  assumes "mem_at img (romfs_dir_data s) (rom_entry f @ r)" "rom_file_ok f"
  shows "romfs_readdir_r img d s = (Some \<lparr> de_fsize = of_nat (length (snd f)), de_fname = fst f, de_ftime = 0 \<rparr>, None,
    s\<lparr> romfs_dir_data := romfs_dir_data s + of_nat (length (rom_entry f)) \<rparr>)"
proof -
  have "DM_MAX_FNAME_LENGTH \<le> 2 ^ 32" by (simp add: DM_MAX_FNAME_LENGTH_def)
  note e = entry_at [OF assms this refl]
  have "romfs_dir_data s + of_nat (length (fst f)) + 1 + 2 + of_nat (length (snd f))
      = romfs_dir_data s + of_nat (length (rom_entry f))"
    by (simp add: rom_entry_def)
  then show ?thesis using e(1-3) by (simp only: romfs_readdir_r_def Let_def if_False)
qed

definition rom_dirent :: "romfile \<Rightarrow> dm_dirent" where
  "rom_dirent f = \<lparr> de_fsize = of_nat (length (snd f)), de_fname = fst f, de_ftime = 0 \<rparr>"

lemma read_entries_image:
  assumes "dm_get_device_at W (int (dd_devid d)) = Some (romfs_device img)"
    and "\<forall>f \<in> set fs. rom_file_ok f" "mem_at img (romfs_dir_data (dev_state W)) (rom_image fs)"
  shows "\<exists>x. read_entries d (length fs + 1) W
    = (map (\<lambda>f. Some (rom_dirent f)) fs @ [None], W\<lparr> dev_state := (dev_state W)\<lparr> romfs_dir_data := x \<rparr> \<rparr>)"
  using assms
proof (induction fs arbitrary: W)
  case Nil
  then have "dm_readdir d W = (None, W)"
    by (auto simp: dm_readdir_def dm_get_device_at_def romfs_device_def dm_call_def romfs_readdir_r_def split: if_splits)
  then have "read_entries d (length [] + 1) W = ([None], W\<lparr> dev_state := (dev_state W)\<lparr> romfs_dir_data := romfs_dir_data (dev_state W) \<rparr> \<rparr>)"
    by simp
  then show ?case unfolding list.map append_Nil by (rule exI)
next
  case (Cons f fs)
  let ?W = "W\<lparr> dev_state := (dev_state W)\<lparr> romfs_dir_data := romfs_dir_data (dev_state W) + of_nat (length (rom_entry f)) \<rparr> \<rparr>"
  have "dm_readdir d W = (Some (rom_dirent f), ?W)"
    using Cons.prems romfs_readdir_entry [of img "dev_state W" f "rom_image fs"]
    by (simp add: dm_readdir_def dm_get_device_at_Some romfs_device_def dm_call_def rom_dirent_def)
  moreover have "\<exists>x. read_entries d (length fs + 1) ?W
    = (map (\<lambda>f. Some (rom_dirent f)) fs @ [None], ?W\<lparr> dev_state := (dev_state ?W)\<lparr> romfs_dir_data := x \<rparr> \<rparr>)"
    using Cons.prems by (intro Cons.IH) (simp_all add: dm_get_device_at_Some mem_at_append)
  ultimately show ?case by auto
qed

text \<open>
  Listing \<open>/rom\<close> through \<open>dm_opendir\<close>, \<open>dm_readdir\<close> and \<open>dm_closedir\<close> gives
  exactly the files of the image, in its order, each with its name and its size, and then NULL.
\<close>

lemma rom_directory_listing:
  assumes "rom_mounted fs img i W" "map c_tolower dn = ROM_NAME"
  shows "\<exists>d W1 W2 W3. dm_opendir True (SLASH # dn) W = (Some d, W1)
    \<and> read_entries d (length fs + 1) W1 = (map (\<lambda>f. Some (rom_dirent f)) fs @ [None], W2)
    \<and> dm_closedir d W2 = Some (0, W3) \<and> romfs_inv fs img (dev_state W3)"
proof -
  have wf: "dm_wf W" "i < dm_num_devs W" and dev: "dm_get_device_at W (int i) = Some (romfs_device img)"
    and inv: "romfs_inv fs img (dev_state W)" using assms(1) by (simp_all add: rom_mounted_def)
  define W1 where "W1 = W\<lparr> dev_state := (dev_state W)\<lparr> romfs_dir_data := 0 \<rparr> \<rparr>"
  define d where "d = \<lparr> dd_devid = i, dd_userdata = ROMFS_DIR \<rparr>"
  have "dm_opendir True (SLASH # dn) W = (Some d, W1)"
    using dm_device_id_from_its_name [OF wf rom_mounted_name(1) [OF assms]] dev wf(2)
    by (simp add: dm_opendir_def dm_get_device_at_Some romfs_device_def dm_call_def romfs_opendir_r_def d_def W1_def)
  moreover have dev1: "dm_get_device_at W1 (int (dd_devid d)) = Some (romfs_device img)"
    using dev by (simp add: W1_def d_def dm_get_device_at_Some)
  then obtain x where x: "read_entries d (length fs + 1) W1 =
      (map (\<lambda>f. Some (rom_dirent f)) fs @ [None], W1\<lparr> dev_state := (dev_state W1)\<lparr> romfs_dir_data := x \<rparr> \<rparr>)"
    using inv read_entries_image [of W1 d img fs] by (auto simp: W1_def romfs_inv_def rom_ok_def)
  moreover have "dm_closedir d (W1\<lparr> dev_state := (dev_state W1)\<lparr> romfs_dir_data := x \<rparr> \<rparr>)
      = Some (0, W1\<lparr> dev_state := (dev_state W1)\<lparr> romfs_dir_data := 0 \<rparr> \<rparr>)"
    using dev1 by (auto simp: dm_closedir_def dm_get_device_at_def romfs_device_def dm_call_def romfs_closedir_r_def split: if_splits)
  moreover have "romfs_inv fs img (dev_state (W1\<lparr> dev_state := (dev_state W1)\<lparr> romfs_dir_data := 0 \<rparr> \<rparr>))"
    using inv by (simp add: W1_def romfs_inv_def romfs_wf_dir)
  ultimately show ?thesis by blast
qed

text \<open>
  C33: The search through the image agrees with its reference definition: the first file whose
  name matches, ignoring case, with its bytes; \<open>FS_FILE_NOT_FOUND\<close> when none does. It ends.
\<close>

theorem romfs_open_file_is_lookup:
  assumes "rom_ok fs img"
  shows "map_option (map_option (\<lambda>p. mem_read img (fs_baseaddr p) (unat (fs_size p)))) (romfs_open_file name img)
    = Some (rom_lookup fs name)"
  using romfs_open_file_correct [OF assms, of name]
  by (auto simp: rom_lookup_def mem_at_read split: option.splits)

section \<open>An example image\<close>

definition ex_files :: "romfile list" where
  "ex_files = [([0x61], [1, 2, 3]), ([0x62, 0x63], [])]"

definition rom_bytes :: "u8 list \<Rightarrow> romimg" where
  "rom_bytes bs a = (if unat a < length bs then bs ! unat a else 0)"

definition ex_world :: "romfs_st dm_world" where
  "ex_world = \<lparr> dm_list = Some (romfs_device (rom_bytes (rom_image ex_files))) # replicate 15 None, dm_num_devs = 1,
     dm_errno = None, dev_state = romfs_start \<rparr>"

lemma ex_rom_ok: "rom_ok ex_files (rom_bytes (rom_image ex_files))"
  by (simp add: rom_ok_def ex_files_def rom_file_ok_def DM_MAX_FNAME_LENGTH_def rom_entry_def rom_bytes_def)

lemma ex_start: "romfs_wf romfs_start" "romfs_room romfs_start"
  by (simp_all add: romfs_wf_def romfs_start_def romfs_used_def fs_zero_def romfs_room_def ROMFS_MAX_FDS_def)

lemma ex_mounted: "rom_mounted ex_files (rom_bytes (rom_image ex_files)) 0 ex_world"
  using ex_rom_ok ex_start
  by (simp add: rom_mounted_def ex_world_def dm_wf_def DM_MAX_DEVICES_def dm_get_device_at_def romfs_inv_def dm_name_at_def
      romfs_device_def dev_name_ok_def DM_MAX_DEV_NAME_def)

lemma rom_file_read_witness:
  "\<exists>desc W1 W2 W3. open_r (Some (SLASH # [0x52, 0x4F, 0x4D] @ SLASH # [0x61])) 0 0 ex_world = Some (desc, W1) \<and> 0 \<le> desc
    \<and> read_pieces desc [2, 5] W1 = Some (pieces [1, 2, 3] [2, 5], W2) \<and> close_r desc W2 = Some (0, W3)
    \<and> romfs_inv ex_files (rom_bytes (rom_image ex_files)) (dev_state W3) \<and> romfs_room (dev_state W3)
    \<and> romfs_handle (rom_bytes (rom_image ex_files)) (dev_state W3) = romfs_handle (rom_bytes (rom_image ex_files)) (dev_state ex_world)"
  by (rule rom_file_read_through_system_calls [OF ex_mounted])
    (simp_all add: ex_world_def ex_start c_tolower_def ROM_NAME_def rom_lookup_def ex_files_def strncaseeq_def
      DM_MAX_FNAME_LENGTH_def)

lemma rom_directory_listing_witness:
  "\<exists>d W1 W2 W3. dm_opendir True (SLASH # [0x72, 0x4F, 0x6D]) ex_world = (Some d, W1)
    \<and> read_entries d (length ex_files + 1) W1 = (map (\<lambda>f. Some (rom_dirent f)) ex_files @ [None], W2)
    \<and> dm_closedir d W2 = Some (0, W3) \<and> romfs_inv ex_files (rom_bytes (rom_image ex_files)) (dev_state W3)"
  by (rule rom_directory_listing [OF ex_mounted]) (simp add: c_tolower_def ROM_NAME_def)

lemma romfs_open_file_witness:
  "map_option (map_option (\<lambda>p. mem_read (rom_bytes (rom_image ex_files)) (fs_baseaddr p) (unat (fs_size p))))
     (romfs_open_file [0x42, 0x43] (rom_bytes (rom_image ex_files))) = Some (rom_lookup ex_files [0x42, 0x43])"
  by (rule romfs_open_file_is_lookup [OF ex_rom_ok])

definition ex_start2 :: romfs_st where
  "ex_start2 = snd (snd (romfs_read_r (rom_bytes (rom_image ex_files)) 3 5 (snd (snd (romfs_open_r (rom_bytes (rom_image ex_files)) [0x42, 0x43] 0 0 romfs_start)))))"

lemma romfs_reachable_witness:
  "romfs_wf ex_start2 \<and> romfs_num_fd ex_start2 \<le> int ROMFS_MAX_FDS
   \<and> (romfs_wf (snd (snd (romfs_close_r 0 ex_start2))) \<longleftrightarrow> romfs_handle (rom_bytes (rom_image ex_files)) ex_start2 0 \<noteq> None)
   \<and> (romfs_wf (snd (snd (romfs_close_r 1 ex_start2))) \<longleftrightarrow> romfs_handle (rom_bytes (rom_image ex_files)) ex_start2 1 \<noteq> None)"
proof -
  let ?s = "snd (snd (romfs_open_r (rom_bytes (rom_image ex_files)) [0x42, 0x43] 0 0 romfs_start))"
  have "romfs_step (rom_bytes (rom_image ex_files)) romfs_start ?s" by (rule step_open)
  moreover have "romfs_step (rom_bytes (rom_image ex_files)) ?s ex_start2" unfolding ex_start2_def by (rule step_read) (simp add: romfs_fds_def ROMFS_MAX_FDS_def)
  ultimately have "(romfs_step (rom_bytes (rom_image ex_files)))\<^sup>*\<^sup>* romfs_start ex_start2"
    by (rule rtranclp_trans [OF r_into_rtranclp r_into_rtranclp])
  moreover have "0 \<in> romfs_fds" "1 \<in> romfs_fds" by (simp_all add: romfs_fds_def ROMFS_MAX_FDS_def)
  ultimately show ?thesis using romfs_reachable_wf by blast
qed

end
