(* ===== verification/Psock.thy ===== *)
theory Psock
  imports Prelude
begin

text \<open>
  Protosockets, \<open>src/uip/psock.c\<close> with \<open>psock.h\<close>, \<open>pt.h\<close> and \<open>lc-switch.h\<close>:
  buffered reading from a TCP connection up to a marker byte and sending with waiting for the
  acknowledgement, as protothreads that return to uIP whenever they wait and are called again on
  the next event.

  A local continuation is the place in a function where it waits. An event says which of uIP's flags
  are set, the new data and the maximum segment size. What a call hands to \<open>uip_send\<close> is the
  byte string \<open>out\<close> (empty: nothing), the last call counts. Data to be sent lies in the flat
  memory; received data is the list of bytes that \<open>readptr\<close> and \<open>readlen\<close> describe.
  A call that loops for ever is \<open>None\<close>.
\<close>

section \<open>Protothreads and events\<close>

datatype pt_res = PT_WAITING | PT_EXITED | PT_ENDED

record uip_ev =
  ev_newdata :: bool
  ev_acked :: bool
  ev_rexmit :: bool
  ev_data :: "u8 list"
  ev_mss :: u16

datatype psock_state = STATE_NONE | STATE_ACKED | STATE_READ | STATE_BLOCKED_NEWDATA | STATE_DATA_SENT

datatype psock_lc = LC_INIT | LC_SEND | LC_GENERATOR | LC_READ

record psock =
  ps_lc :: psock_lc
  ps_sendptr :: u32
  ps_read :: "u8 list"
  ps_bufsize :: nat
  ps_sendlen :: u16
  ps_ptr :: nat      \<comment> \<open>\<open>buf.ptr\<close>, from \<open>bufptr\<close>\<close>
  ps_left :: nat     \<comment> \<open>\<open>buf.left\<close>\<close>
  ps_state :: psock_state

definition buf_setup :: "nat \<Rightarrow> psock \<Rightarrow> psock" where
  "buf_setup bufsize s = s\<lparr> ps_ptr := 0, ps_left := bufsize \<rparr>"

definition psock_init :: "nat \<Rightarrow> psock \<Rightarrow> psock" where
  "psock_init bufsize s =
     buf_setup bufsize (s\<lparr> ps_state := STATE_NONE, ps_read := [], ps_bufsize := bufsize, ps_lc := LC_INIT \<rparr>)"

section \<open>Reading\<close>

text \<open>
  \<open>buf_bufto\<close>: the first loop stores, the second one drops. \<open>mem\<close> is the input buffer.
  The result says whether the marker was found, with the rest of the data.
\<close>

fun buf_skipto :: "u8 \<Rightarrow> u8 list \<Rightarrow> bool \<times> u8 list" where
  "buf_skipto c [] = (False, [])"
| "buf_skipto c (x # xs) = (if x = c then (True, xs) else buf_skipto c xs)"

fun buf_bufto :: "u8 \<Rightarrow> u8 list \<Rightarrow> nat \<Rightarrow> nat \<Rightarrow> u8 list \<Rightarrow> bool \<times> u8 list \<times> nat \<times> nat \<times> u8 list" where
  "buf_bufto c mem ptr left [] = (False, mem, ptr, left, [])"
| "buf_bufto c mem ptr 0 (x # xs) = (case buf_skipto c (x # xs) of (f, r) \<Rightarrow> (f, mem, ptr, 0, r))"
| "buf_bufto c mem ptr (Suc left) (x # xs) =
     (if x = c then (True, mem[ptr := x], ptr + 1, left, xs)
      else buf_bufto c (mem[ptr := x]) (ptr + 1) left xs)"

definition psock_datalen :: "psock \<Rightarrow> nat" where
  "psock_datalen s = ps_bufsize s - ps_left s"

definition psock_newdata :: "uip_ev \<Rightarrow> psock \<Rightarrow> bool \<times> psock" where
  "psock_newdata ev s =
     (if ps_read s \<noteq> [] then (True, s)
      else if ps_state s = STATE_READ then (False, s\<lparr> ps_state := STATE_BLOCKED_NEWDATA \<rparr>)
      else (ev_newdata ev, s))"

text \<open>The body of the \<open>do\<close> loop from \<open>buf_bufto\<close> on, and the wait at its head.\<close>

partial_function (option) psock_readto_loop ::
    "uip_ev \<Rightarrow> u8 \<Rightarrow> u8 list \<Rightarrow> psock \<Rightarrow> (pt_res \<times> u8 list \<times> psock) option" where
  "psock_readto_loop ev c mem s =
     (let (ok, s) = (if ps_read s = [] then psock_newdata ev s else (True, s)) in
      if \<not> ok then Some (PT_WAITING, mem, s\<lparr> ps_lc := LC_READ \<rparr>)
      else
        let s = (if ps_read s = [] then s\<lparr> ps_state := STATE_READ, ps_read := ev_data ev \<rparr> else s);
            (found, mem, ptr, left, rest) = buf_bufto c mem (ps_ptr s) (ps_left s) (ps_read s);
            s = s\<lparr> ps_ptr := ptr, ps_left := left, ps_read := rest \<rparr>
        in if \<not> found then psock_readto_loop ev c mem s
           else if psock_datalen s = 0 then Some (PT_WAITING, mem, s\<lparr> ps_state := STATE_NONE, ps_lc := LC_INIT \<rparr>)
           else Some (PT_ENDED, mem, s\<lparr> ps_lc := LC_INIT \<rparr>))"

text \<open>Other continuations are no label of this function: the switch falls to its end.\<close>

definition psock_readto ::
    "uip_ev \<Rightarrow> u8 \<Rightarrow> u8 list \<Rightarrow> psock \<Rightarrow> (pt_res \<times> u8 list \<times> psock) option" where
  "psock_readto ev c mem s =
     (case ps_lc s of
        LC_INIT \<Rightarrow> psock_readto_loop ev c mem (buf_setup (ps_bufsize s) s)
      | LC_READ \<Rightarrow> psock_readto_loop ev c mem s
      | _ \<Rightarrow> Some (PT_ENDED, mem, s\<lparr> ps_lc := LC_INIT \<rparr>))"

section \<open>Sending\<close>

definition uip_send :: "mem \<Rightarrow> u32 \<Rightarrow> nat \<Rightarrow> u8 list \<Rightarrow> u8 list" where
  "uip_send m ptr len out = (if 0 < len then mem_read m ptr len else out)"

definition send_data :: "uip_ev \<Rightarrow> mem \<Rightarrow> psock \<times> u8 list \<Rightarrow> bool \<times> psock \<times> u8 list" where
  "send_data ev m w =
     (case w of (s, out) \<Rightarrow>
        if ps_state s \<noteq> STATE_DATA_SENT \<or> ev_rexmit ev then
          (True, s\<lparr> ps_state := STATE_DATA_SENT \<rparr>,
           uip_send m (ps_sendptr s) (unat (if ps_sendlen s > ev_mss ev then ev_mss ev else ps_sendlen s)) out)
        else (False, s, out))"

definition data_acked :: "uip_ev \<Rightarrow> psock \<times> u8 list \<Rightarrow> bool \<times> psock \<times> u8 list" where
  "data_acked ev w =
     (case w of (s, out) \<Rightarrow>
        if ps_state s = STATE_DATA_SENT \<and> ev_acked ev then
          (True,
           (if ps_sendlen s > ev_mss ev
            then s\<lparr> ps_sendlen := ps_sendlen s - ev_mss ev, ps_sendptr := ps_sendptr s + ucast (ev_mss ev) \<rparr>
            else s\<lparr> ps_sendptr := ps_sendptr s + ucast (ps_sendlen s), ps_sendlen := 0 \<rparr>)\<lparr> ps_state := STATE_ACKED \<rparr>,
           out)
        else (False, s, out))"

text \<open>
  \<open>data_acked( s ) & send_data( s )\<close>. C leaves the order of the operands open; the comment in
  the source, and the code around it, need the left one first, as here.
\<close>

definition acked_and_sent :: "uip_ev \<Rightarrow> mem \<Rightarrow> psock \<times> u8 list \<Rightarrow> bool \<times> psock \<times> u8 list" where
  "acked_and_sent ev m w =
     (let (a, w) = data_acked ev w; (b, w) = send_data ev m w in (a \<and> b, w))"

text \<open>From the wait on: the rest of the \<open>while\<close> loop.\<close>

partial_function (option) psock_send_wait ::
    "uip_ev \<Rightarrow> mem \<Rightarrow> psock \<times> u8 list \<Rightarrow> (pt_res \<times> psock \<times> u8 list) option" where
  "psock_send_wait ev m w =
     (let (ok, s, out) = acked_and_sent ev m w in
      if \<not> ok then Some (PT_WAITING, s\<lparr> ps_lc := LC_SEND \<rparr>, out)
      else if 0 < ps_sendlen s then psock_send_wait ev m (s, out)
      else Some (PT_ENDED, s\<lparr> ps_state := STATE_NONE, ps_lc := LC_INIT \<rparr>, out))"

definition psock_send ::
    "uip_ev \<Rightarrow> mem \<Rightarrow> u32 \<Rightarrow> u32 \<Rightarrow> psock \<times> u8 list \<Rightarrow> (pt_res \<times> psock \<times> u8 list) option" where
  "psock_send ev m buf len w =
     (case w of (s, out) \<Rightarrow>
        (case ps_lc s of
           LC_INIT \<Rightarrow>
             if len = 0 then Some (PT_EXITED, s, out)
             else
               let s = s\<lparr> ps_sendptr := buf, ps_sendlen := ucast len, ps_state := STATE_NONE \<rparr> in
               if 0 < ps_sendlen s then psock_send_wait ev m (s, out)
               else Some (PT_ENDED, s\<lparr> ps_state := STATE_NONE, ps_lc := LC_INIT \<rparr>, out)
         | LC_SEND \<Rightarrow> psock_send_wait ev m (s, out)
         | _ \<Rightarrow> Some (PT_ENDED, s\<lparr> ps_lc := LC_INIT \<rparr>, out)))"

text \<open>
  \<open>psock_generator_send\<close>: the label of the wait lies behind the second call of the generator,
  so only a turn of the loop calls it again. \<open>generate\<close> writes at \<open>uip_appdata\<close> and
  returns a length; \<open>g\<close> is the memory with the generator's own state.
\<close>

partial_function (option) psock_gen_wait ::
    "uip_ev \<Rightarrow> (mem \<times> 'a \<Rightarrow> u16 \<times> mem \<times> 'a) \<Rightarrow> mem \<times> 'a \<Rightarrow> psock \<times> u8 list
      \<Rightarrow> (pt_res \<times> (mem \<times> 'a) \<times> psock \<times> u8 list) option" where
  "psock_gen_wait ev generate g w =
     (let (ok, s, out) = acked_and_sent ev (fst g) w in
      if \<not> ok then Some (PT_WAITING, g, s\<lparr> ps_lc := LC_GENERATOR \<rparr>, out)
      else if 0 < ps_sendlen s then psock_gen_wait ev generate (if ev_rexmit ev then snd (generate g) else g) (s, out)
      else Some (PT_ENDED, g, s\<lparr> ps_state := STATE_NONE, ps_lc := LC_INIT \<rparr>, out))"

definition psock_generator_send ::
    "uip_ev \<Rightarrow> (mem \<times> 'a \<Rightarrow> u16 \<times> mem \<times> 'a) \<Rightarrow> u32 \<Rightarrow> mem \<times> 'a \<Rightarrow> psock \<times> u8 list
      \<Rightarrow> (pt_res \<times> (mem \<times> 'a) \<times> psock \<times> u8 list) option" where
  "psock_generator_send ev generate uip_appdata g w =
     (case w of (s, out) \<Rightarrow>
        (case ps_lc s of
           LC_INIT \<Rightarrow>
             (let (len, g) = generate g;
                  s = s\<lparr> ps_sendlen := len, ps_sendptr := uip_appdata, ps_state := STATE_NONE \<rparr>;
                  g = (if ev_rexmit ev then snd (generate g) else g)
              in psock_gen_wait ev generate g (s, out))
         | LC_GENERATOR \<Rightarrow> psock_gen_wait ev generate g (s, out)
         | _ \<Rightarrow> Some (PT_ENDED, g, s\<lparr> ps_lc := LC_INIT \<rparr>, out)))"

section \<open>Reading up to a marker\<close>

text \<open>The bytes of a stream through the first marker, and those behind it.\<close>

definition through :: "u8 \<Rightarrow> u8 list \<Rightarrow> u8 list" where
  "through c xs = take (Suc (length (takeWhile (\<lambda>x. x \<noteq> c) xs))) xs"

definition past :: "u8 \<Rightarrow> u8 list \<Rightarrow> u8 list" where
  "past c xs = drop (Suc (length (takeWhile (\<lambda>x. x \<noteq> c) xs))) xs"

lemma through_Cons [simp]: "through c (x # xs) = (if x = c then [x] else x # through c xs)"
  by (simp add: through_def)

lemma through_Nil [simp]: "through c [] = []" "past c [] = []"
  by (simp_all add: through_def past_def)

lemma past_Cons [simp]: "past c (x # xs) = (if x = c then xs else past c xs)"
  by (simp add: past_def)

lemma through_append: "through c (xs @ ys) = (if c \<in> set xs then through c xs else xs @ through c ys)"
  by (induction xs) auto

lemma past_append: "past c (xs @ ys) = (if c \<in> set xs then past c xs @ ys else past c ys)"
  by (induction xs) auto

lemma through_past: "through c xs @ past c xs = xs"
  by (simp add: through_def past_def)

lemma through_all: "c \<notin> set xs \<Longrightarrow> through c xs = xs \<and> past c xs = []"
  by (induction xs) auto

lemma length_past: "c \<in> set xs \<Longrightarrow> length (past c xs) < length xs"
  by (induction xs) auto

lemma buf_skipto_eq: "buf_skipto c xs = (c \<in> set xs, past c xs)"
  by (induction c xs rule: buf_skipto.induct) auto

text \<open>
  What the buffer holds after the bytes \<open>t\<close> of a token: its first \<open>bufsize\<close> bytes.
\<close>

definition reading :: "u8 list \<Rightarrow> u8 list \<Rightarrow> psock \<Rightarrow> bool" where
  "reading mem t s \<longleftrightarrow> ps_bufsize s \<le> length mem \<and> ps_ptr s = min (ps_bufsize s) (length t)
     \<and> ps_left s = ps_bufsize s - length t \<and> take (ps_ptr s) mem = take (ps_bufsize s) t"

lemma buf_bufto_eq:
  assumes "n \<le> length mem" "ptr = min n (length t)" "left = n - length t" "take ptr mem = take n t"
  shows "\<exists>mem'. buf_bufto c mem ptr left xs = (c \<in> set xs, mem', min n (length (t @ through c xs)),
      n - length (t @ through c xs), past c xs)
    \<and> length mem' = length mem \<and> take (min n (length (t @ through c xs))) mem' = take n (t @ through c xs)"
  using assms
proof (induction c mem ptr left xs arbitrary: t rule: buf_bufto.induct)
  case (2 c mem ptr x xs)
  have "buf_skipto c (x # xs) = (c \<in> set (x # xs), past c (x # xs))" by (rule buf_skipto_eq)
  with 2 show ?case by (auto simp del: buf_skipto.simps)
next
  case (3 c mem ptr left x xs)
  have t: "length t < n" "ptr = length t" "left = n - Suc (length t)" "take (length t) mem = t" using 3(3-5) by auto
  have tk: "take (Suc (length t)) (mem[length t := x]) = t @ [x]"
    using 3(2) t by (simp add: take_Suc_conv_app_nth)
  show ?case
  proof (cases "x = c")
    case True
    then have "buf_bufto c mem ptr (Suc left) (x # xs) = (True, mem[ptr := x], ptr + 1, left, xs)" by simp
    then show ?thesis using True t tk by (intro exI [of _ "mem[ptr := x]"]) (auto simp: min_def le_Suc_eq)
  next
    case False
    have "\<exists>mem'. buf_bufto c (mem[ptr := x]) (ptr + 1) left xs =
      (c \<in> set xs, mem', min n (length ((t @ [x]) @ through c xs)), n - length ((t @ [x]) @ through c xs), past c xs)
      \<and> length mem' = length (mem[ptr := x]) \<and> take (min n (length ((t @ [x]) @ through c xs))) mem' = take n ((t @ [x]) @ through c xs)"
      by (intro 3(1)) (use False 3(2) t tk in auto)
    with False show ?thesis by (simp del: buf_bufto.simps(1,2))
  qed
qed simp

text \<open>What is still to be read in this event.\<close>

definition ps_pending :: "uip_ev \<Rightarrow> psock \<Rightarrow> u8 list" where
  "ps_pending ev s = (if ps_state s = STATE_READ then ps_read s else if ev_newdata ev then ev_data ev else [])"

definition ps_ok :: "psock \<Rightarrow> bool" where
  "ps_ok s \<longleftrightarrow> 0 < ps_bufsize s \<and> (ps_state s \<noteq> STATE_READ \<longrightarrow> ps_read s = [])"

text \<open>
  One call of \<open>psock_readto\<close>: when the marker is among the bytes at hand the token is
  complete and the rest stays for the next call; otherwise everything is taken and the thread waits.
\<close>

lemma psock_readto_loop_spec:
  assumes "reading mem t s" "ps_ok s" "ps_lc s = l"
  shows "\<exists>mem' s'. psock_readto_loop ev c mem s = Some (if c \<in> set (ps_pending ev s) then PT_ENDED else PT_WAITING, mem', s')
    \<and> reading mem' (t @ through c (ps_pending ev s)) s' \<and> ps_ok s' \<and> length mem' = length mem \<and> ps_bufsize s' = ps_bufsize s
    \<and> ps_lc s' = (if c \<in> set (ps_pending ev s) then LC_INIT else LC_READ)
    \<and> (c \<in> set (ps_pending ev s) \<longrightarrow> ps_state s' = STATE_READ \<and> ps_read s' = past c (ps_pending ev s))
    \<and> (c \<notin> set (ps_pending ev s) \<longrightarrow> ps_state s' \<noteq> STATE_READ)"
proof -
  have wait: "psock_readto_loop ev c mem s = Some (PT_WAITING, mem, s\<lparr> ps_state := STATE_BLOCKED_NEWDATA, ps_lc := LC_READ \<rparr>)"
    if "ps_read s = []" "ps_state s = STATE_READ" for mem s
    using that by (subst psock_readto_loop.simps) (simp add: psock_newdata_def)
  have take_it: "\<exists>mem' s'. psock_readto_loop ev c mem s0 = Some (if c \<in> set d then PT_ENDED else PT_WAITING, mem', s')
    \<and> reading mem' (t @ through c d) s' \<and> ps_ok s' \<and> length mem' = length mem \<and> ps_bufsize s' = ps_bufsize s
    \<and> ps_lc s' = (if c \<in> set d then LC_INIT else LC_READ)
    \<and> (c \<in> set d \<longrightarrow> ps_state s' = STATE_READ \<and> ps_read s' = past c d)
    \<and> (c \<notin> set d \<longrightarrow> ps_state s' \<noteq> STATE_READ)"
    if s0: "s0 = s \<and> ps_state s = STATE_READ \<and> ps_read s = d \<and> d \<noteq> []
      \<or> ps_state s \<noteq> STATE_READ \<and> ev_newdata ev \<and> ev_data ev = d \<and> s0 = s" for d s0
  proof -
    define s1 where "s1 = s\<lparr> ps_state := STATE_READ, ps_read := d \<rparr>"
    obtain mem' where m: "buf_bufto c mem (ps_ptr s) (ps_left s) d = (c \<in> set d, mem', min (ps_bufsize s) (length (t @ through c d)),
        ps_bufsize s - length (t @ through c d), past c d)"
      "length mem' = length mem" "take (min (ps_bufsize s) (length (t @ through c d))) mem' = take (ps_bufsize s) (t @ through c d)"
      using buf_bufto_eq [of "ps_bufsize s" mem "ps_ptr s" t "ps_left s" c d] assms(1) by (auto simp: reading_def)
    define s2 where "s2 = s1\<lparr> ps_ptr := min (ps_bufsize s) (length (t @ through c d)),
      ps_left := ps_bufsize s - length (t @ through c d), ps_read := past c d \<rparr>"
    have r: "reading mem' (t @ through c d) s2" using m assms(1) by (simp add: reading_def s2_def s1_def)
    have ne: "c \<in> set d \<Longrightarrow> psock_datalen s2 \<noteq> 0"
      using assms(2) by (cases d) (auto simp: psock_datalen_def s2_def s1_def ps_ok_def min_def)
    have "psock_readto_loop ev c mem s0 = (if c \<notin> set d then psock_readto_loop ev c mem' s2
        else if psock_datalen s2 = 0 then Some (PT_WAITING, mem', s2\<lparr> ps_state := STATE_NONE, ps_lc := LC_INIT \<rparr>)
        else Some (PT_ENDED, mem', s2\<lparr> ps_lc := LC_INIT \<rparr>))"
      using s0
    proof
      assume a: "s0 = s \<and> ps_state s = STATE_READ \<and> ps_read s = d \<and> d \<noteq> []"
      then have "s1 = s" by (cases s) (simp add: s1_def)
      then show ?thesis using a m(1) by (subst psock_readto_loop.simps) (simp add: s2_def)
    next
      assume a: "ps_state s \<noteq> STATE_READ \<and> ev_newdata ev \<and> ev_data ev = d \<and> s0 = s"
      then have "ps_read s = []" using assms(2) by (simp add: ps_ok_def)
      then show ?thesis using a m(1) by (subst psock_readto_loop.simps) (simp add: psock_newdata_def s1_def s2_def)
    qed
    moreover have "c \<notin> set d \<Longrightarrow> psock_readto_loop ev c mem' s2
        = Some (PT_WAITING, mem', s2\<lparr> ps_state := STATE_BLOCKED_NEWDATA, ps_lc := LC_READ \<rparr>)"
      by (rule wait) (simp_all add: s2_def s1_def through_all)
    ultimately show ?thesis using r ne assms(2) m(2)
      by (cases "c \<in> set d") (auto simp: reading_def ps_ok_def s2_def s1_def through_all)
  qed
  show ?thesis
  proof (cases "ps_state s = STATE_READ")
    case True
    then have p: "ps_pending ev s = ps_read s" by (simp add: ps_pending_def)
    show ?thesis
    proof (cases "ps_read s = []")
      case empty: True
      have "reading mem t (s\<lparr> ps_state := STATE_BLOCKED_NEWDATA, ps_lc := LC_READ \<rparr>)" using assms(1) by (auto simp: reading_def)
      then show ?thesis using wait [OF empty True, of mem] assms(2) empty by (simp add: p ps_ok_def)
    next
      case False
      then show ?thesis unfolding p using take_it [of s "ps_read s"] True by simp
    qed
  next
    case False
    show ?thesis
    proof (cases "ev_newdata ev")
      case True
      then show ?thesis using take_it [of s "ev_data ev"] False by (simp add: ps_pending_def)
    next
      case no: False
      have "psock_readto_loop ev c mem s = Some (PT_WAITING, mem, s\<lparr> ps_lc := LC_READ \<rparr>)"
        using assms(2) False no by (subst psock_readto_loop.simps) (simp add: psock_newdata_def ps_ok_def)
      moreover have "reading mem t (s\<lparr> ps_lc := LC_READ \<rparr>)" using assms(1) by (auto simp: reading_def)
      ultimately show ?thesis using assms(2) False no by (simp add: ps_pending_def ps_ok_def)
    qed
  qed
qed

lemma psock_readto_spec:
  assumes "ps_lc s = LC_INIT \<and> t = [] \<and> ps_bufsize s \<le> length mem \<or> ps_lc s = LC_READ \<and> reading mem t s" "ps_ok s"
  shows "\<exists>mem' s'. psock_readto ev c mem s = Some (if c \<in> set (ps_pending ev s) then PT_ENDED else PT_WAITING, mem', s')
    \<and> reading mem' (t @ through c (ps_pending ev s)) s' \<and> ps_ok s' \<and> length mem' = length mem \<and> ps_bufsize s' = ps_bufsize s
    \<and> ps_lc s' = (if c \<in> set (ps_pending ev s) then LC_INIT else LC_READ)
    \<and> (c \<in> set (ps_pending ev s) \<longrightarrow> ps_state s' = STATE_READ \<and> ps_read s' = past c (ps_pending ev s))
    \<and> (c \<notin> set (ps_pending ev s) \<longrightarrow> ps_state s' \<noteq> STATE_READ)"
  using assms(1)
proof
  assume a: "ps_lc s = LC_INIT \<and> t = [] \<and> ps_bufsize s \<le> length mem"
  let ?s = "buf_setup (ps_bufsize s) s"
  have "reading mem t ?s" "ps_ok ?s" "ps_lc ?s = LC_INIT" "ps_pending ev ?s = ps_pending ev s" "ps_bufsize ?s = ps_bufsize s"
    using a assms(2) by (simp_all add: reading_def buf_setup_def ps_ok_def ps_pending_def)
  then show ?thesis using psock_readto_loop_spec [of mem t ?s LC_INIT ev c] a by (simp add: psock_readto_def)
next
  assume "ps_lc s = LC_READ \<and> reading mem t s"
  then show ?thesis using psock_readto_loop_spec [of mem t s LC_READ ev c] assms(2) by (simp add: psock_readto_def)
qed

section \<open>Sending one segment\<close>

text \<open>A segment handed to uIP that waits for its acknowledgement.\<close>

definition in_flight :: "psock_lc \<Rightarrow> u32 \<Rightarrow> u16 \<Rightarrow> psock \<Rightarrow> bool" where
  "in_flight l p n s \<longleftrightarrow> ps_lc s = l \<and> ps_state s = STATE_DATA_SENT \<and> ps_sendptr s = p \<and> ps_sendlen s = n"

lemmas ack_defs = acked_and_sent_def data_acked_def send_data_def uip_send_def in_flight_def

lemma u16_pos: "0 < unat (n :: u16) \<longleftrightarrow> 0 < n"
  by (simp add: word_less_nat_alt)

lemma send_wait_acked:
  assumes "in_flight l p n s" "n \<le> ev_mss ev" "ev_acked ev"
  shows "psock_send_wait ev m (s, out) = Some (PT_ENDED, s\<lparr> ps_sendptr := p + ucast n, ps_sendlen := 0,
    ps_state := STATE_NONE, ps_lc := LC_INIT \<rparr>, out)"
  using assms by (subst psock_send_wait.simps) (simp add: ack_defs not_less [symmetric])

lemma send_wait_sent:
  assumes "ps_state s = STATE_NONE \<or> ps_state s = STATE_DATA_SENT \<and> \<not> ev_acked ev \<and> ev_rexmit ev"
    and "ps_sendlen s = n" "n \<le> ev_mss ev" "0 < n"
  shows "psock_send_wait ev m (s, out) = Some (PT_WAITING, s\<lparr> ps_state := STATE_DATA_SENT, ps_lc := LC_SEND \<rparr>,
    mem_read m (ps_sendptr s) (unat n))"
  using assms by (subst psock_send_wait.simps) (auto simp: ack_defs not_less [symmetric] u16_pos)

lemma psock_send_start:
  assumes "ps_lc s = LC_INIT" "0 < unat len" "unat len \<le> unat (ev_mss ev)"
  shows "\<exists>s'. psock_send ev m p len (s, out) = Some (PT_WAITING, s', mem_read m p (unat len)) \<and> in_flight LC_SEND p (ucast len) s'"
proof -
  have small: "unat len < 65536" using assms(3) unat_u16_less [of "ev_mss ev"] by (simp del: unat_u16_less)
  then have u: "unat (ucast len :: u16) = unat len" by (simp add: unsigned_ucast_eq take_bit_nat_eq_self_iff)
  then have pos: "0 < (ucast len :: u16)" "(ucast len :: u16) \<le> ev_mss ev" "len \<noteq> 0"
    using assms(2,3) by (auto simp: word_less_nat_alt word_le_nat_alt)
  let ?s = "s\<lparr> ps_sendptr := p, ps_sendlen := ucast len, ps_state := STATE_NONE \<rparr>"
  have "psock_send ev m p len (s, out) = psock_send_wait ev m (?s, out)"
    using assms(1) pos(1,3) by (simp add: psock_send_def)
  also have "\<dots> = Some (PT_WAITING, ?s\<lparr> ps_state := STATE_DATA_SENT, ps_lc := LC_SEND \<rparr>, mem_read m p (unat len))"
    using send_wait_sent [of ?s ev "ucast len" m out] pos u by simp
  finally show ?thesis by (simp add: in_flight_def)
qed

lemma psock_send_acked:
  assumes "in_flight LC_SEND p n s" "n \<le> ev_mss ev" "ev_acked ev"
  shows "\<exists>s'. psock_send ev m q len (s, out) = Some (PT_ENDED, s', out) \<and> ps_lc s' = LC_INIT"
  using assms(1) send_wait_acked [OF assms] by (simp add: psock_send_def in_flight_def)

lemma psock_send_rexmit:
  assumes "in_flight LC_SEND p n s" "n \<le> ev_mss ev" "\<not> ev_acked ev" "ev_rexmit ev" "0 < n"
  shows "\<exists>s'. psock_send ev m q len (s, out) = Some (PT_WAITING, s', mem_read m p (unat n)) \<and> in_flight LC_SEND p n s'"
  using assms send_wait_sent [of s ev n m out] by (simp add: psock_send_def in_flight_def)

lemma psock_send_idle:
  assumes "in_flight LC_SEND p n s" "\<not> ev_acked ev" "\<not> ev_rexmit ev"
  shows "\<exists>s'. psock_send ev m q len (s, out) = Some (PT_WAITING, s', out) \<and> in_flight LC_SEND p n s'"
proof -
  have "psock_send_wait ev m (s, out) = Some (PT_WAITING, s\<lparr> ps_lc := LC_SEND \<rparr>, out)"
    using assms by (subst psock_send_wait.simps) (simp add: ack_defs)
  then show ?thesis using assms(1) by (simp add: psock_send_def in_flight_def)
qed

text \<open>The same for the generator; a retransmission sends what lies at \<open>uip_appdata\<close> by then.\<close>

lemma gen_wait_acked:
  assumes "in_flight l p n s" "n \<le> ev_mss ev" "ev_acked ev"
  shows "psock_gen_wait ev h g (s, out) = Some (PT_ENDED, g, s\<lparr> ps_sendptr := p + ucast n, ps_sendlen := 0,
    ps_state := STATE_NONE, ps_lc := LC_INIT \<rparr>, out)"
  using assms by (subst psock_gen_wait.simps) (simp add: ack_defs not_less [symmetric])

lemma gen_wait_sent:
  assumes "ps_state s = STATE_NONE \<or> ps_state s = STATE_DATA_SENT \<and> \<not> ev_acked ev \<and> ev_rexmit ev"
    and "ps_sendlen s = n" "n \<le> ev_mss ev"
  shows "psock_gen_wait ev h g (s, out) = Some (PT_WAITING, g, s\<lparr> ps_state := STATE_DATA_SENT, ps_lc := LC_GENERATOR \<rparr>,
    if n = 0 then out else mem_read (fst g) (ps_sendptr s) (unat n))"
  using assms by (subst psock_gen_wait.simps) (auto simp: ack_defs not_less [symmetric] u16_pos word_neq_0_conv)

lemma psock_gen_start:
  assumes "ps_lc s = LC_INIT" "generate g = (n, g')" "\<not> ev_rexmit ev" "n \<le> ev_mss ev"
  shows "\<exists>s'. psock_generator_send ev generate app g (s, out)
      = Some (PT_WAITING, g', s', if n = 0 then out else mem_read (fst g') app (unat n)) \<and> in_flight LC_GENERATOR app n s'"
  using assms gen_wait_sent [of "s\<lparr> ps_sendlen := n, ps_sendptr := app, ps_state := STATE_NONE \<rparr>" ev n generate g' out]
  by (simp add: psock_generator_send_def in_flight_def Let_def)

lemma psock_gen_start_any:
  assumes "ps_lc s = LC_INIT" "generate g = (n, g')" "generate g' = (n, g')" "n \<le> ev_mss ev"
  shows "\<exists>s'. psock_generator_send ev generate app g (s, out)
      = Some (PT_WAITING, g', s', if n = 0 then out else mem_read (fst g') app (unat n)) \<and> in_flight LC_GENERATOR app n s'"
  using assms gen_wait_sent [of "s\<lparr> ps_sendlen := n, ps_sendptr := app, ps_state := STATE_NONE \<rparr>" ev n generate g' out]
  by (simp add: psock_generator_send_def in_flight_def Let_def)

lemma psock_gen_acked:
  assumes "in_flight LC_GENERATOR p n s" "n \<le> ev_mss ev" "ev_acked ev"
  shows "\<exists>s'. psock_generator_send ev generate app g (s, out) = Some (PT_ENDED, g, s', out) \<and> ps_lc s' = LC_INIT"
  using assms(1) gen_wait_acked [OF assms, of generate g out] by (simp add: psock_generator_send_def in_flight_def)

lemma psock_gen_idle:
  assumes "in_flight LC_GENERATOR p n s" "\<not> ev_acked ev" "\<not> ev_rexmit ev"
  shows "\<exists>s'. psock_generator_send ev generate app g (s, out) = Some (PT_WAITING, g, s', out) \<and> in_flight LC_GENERATOR p n s'"
proof -
  have "psock_gen_wait ev generate g (s, out) = Some (PT_WAITING, g, s\<lparr> ps_lc := LC_GENERATOR \<rparr>, out)"
    using assms by (subst psock_gen_wait.simps) (simp add: ack_defs)
  then show ?thesis using assms(1) by (simp add: psock_generator_send_def in_flight_def)
qed

lemma psock_gen_rexmit:
  assumes "in_flight LC_GENERATOR p n s" "n \<le> ev_mss ev" "\<not> ev_acked ev" "ev_rexmit ev"
  shows "\<exists>s'. psock_generator_send ev generate app g (s, out)
      = Some (PT_WAITING, g, s', if n = 0 then out else mem_read (fst g) p (unat n)) \<and> in_flight LC_GENERATOR p n s'"
  using assms gen_wait_sent [of s ev n generate g out] by (simp add: psock_generator_send_def in_flight_def)

section \<open>Longer data\<close>

text \<open>
  With more than one segment to send, the acknowledgement of the first is counted again for every
  further one in the same call: only the last one is handed to uIP.
\<close>

lemma psock_send_wait_long:
  assumes "ps_state s = STATE_DATA_SENT" "ps_sendlen s > ev_mss ev" "0 < ev_mss ev" "ev_acked ev"
  shows "\<exists>s' k. psock_send_wait ev m (s, out) = Some (PT_ENDED, s', mem_read m (ps_sendptr s + of_nat (k * unat (ev_mss ev)))
      (unat (ps_sendlen s) - k * unat (ev_mss ev))) \<and> ps_lc s' = LC_INIT
    \<and> k * unat (ev_mss ev) < unat (ps_sendlen s) \<and> unat (ps_sendlen s) \<le> (k + 1) * unat (ev_mss ev)"
  using assms
proof (induction "unat (ps_sendlen s)" arbitrary: s out rule: less_induct)
  case less
  let ?mss = "unat (ev_mss ev)"
  let ?n = "ps_sendlen s - ev_mss ev"
  have n: "unat ?n = unat (ps_sendlen s) - ?mss" "?mss < unat (ps_sendlen s)" "0 < ?mss"
    using less.prems by (auto simp: unat_sub word_less_nat_alt word_le_nat_alt)
  let ?s = "s\<lparr> ps_sendlen := ?n, ps_sendptr := ps_sendptr s + ucast (ev_mss ev), ps_state := STATE_DATA_SENT \<rparr>"
  have sel: "ps_sendlen ?s = ?n" "ps_sendptr ?s = ps_sendptr s + ucast (ev_mss ev)" by simp_all
  have pos: "0 < ?n" using n by (simp add: word_less_nat_alt)
  show ?case
  proof (cases "?n > ev_mss ev")
    case True
    have "psock_send_wait ev m (s, out) = psock_send_wait ev m (?s, mem_read m (ps_sendptr s + ucast (ev_mss ev)) ?mss)"
      using less.prems True pos n(3) by (subst psock_send_wait.simps) (simp add: ack_defs u16_pos)
    moreover have "\<exists>s' k. psock_send_wait ev m (?s, mem_read m (ps_sendptr s + ucast (ev_mss ev)) ?mss)
        = Some (PT_ENDED, s', mem_read m (ps_sendptr ?s + of_nat (k * ?mss)) (unat (ps_sendlen ?s) - k * ?mss))
      \<and> ps_lc s' = LC_INIT \<and> k * ?mss < unat (ps_sendlen ?s) \<and> unat (ps_sendlen ?s) \<le> (k + 1) * ?mss"
      by (rule less.hyps) (use n True less.prems in simp_all)
    then obtain s' k where
      "psock_send_wait ev m (?s, mem_read m (ps_sendptr s + ucast (ev_mss ev)) ?mss)
        = Some (PT_ENDED, s', mem_read m (ps_sendptr s + ucast (ev_mss ev) + of_nat (k * ?mss)) (unat ?n - k * ?mss))"
      "ps_lc s' = LC_INIT" "k * ?mss < unat ?n" "unat ?n \<le> (k + 1) * ?mss"
      unfolding sel by blast
    moreover have "ps_sendptr s + ucast (ev_mss ev) + of_nat (k * ?mss) = ps_sendptr s + of_nat ((k + 1) * ?mss)"
      by (simp add: algebra_simps)
    ultimately show ?thesis using n
      by (intro exI [of _ s'] exI [of _ "k + 1"]) (simp del: of_nat_mult, linarith)
  next
    case False
    have "psock_send_wait ev m (s, out) = psock_send_wait ev m (?s, mem_read m (ps_sendptr s + ucast (ev_mss ev)) (unat ?n))"
      using less.prems False pos by (subst psock_send_wait.simps) (simp add: ack_defs u16_pos)
    also have "\<dots> = Some (PT_ENDED, ?s\<lparr> ps_sendptr := ps_sendptr ?s + ucast ?n, ps_sendlen := 0, ps_state := STATE_NONE,
        ps_lc := LC_INIT \<rparr>, mem_read m (ps_sendptr s + ucast (ev_mss ev)) (unat ?n))"
      using send_wait_acked [of "ps_lc s" "ps_sendptr ?s" ?n ?s ev m] less.prems False by (simp add: in_flight_def)
    finally show ?thesis using n False
      by (intro exI exI [of _ 1]) (auto simp: word_less_nat_alt not_less)
  qed
qed

section \<open>A send over its events\<close>

text \<open>The calls of one \<open>PSOCK_SEND\<close> on successive events, with what each hands to uIP.\<close>

fun psock_send_run :: "mem \<Rightarrow> u32 \<Rightarrow> u32 \<Rightarrow> uip_ev list \<Rightarrow> psock \<Rightarrow> (u8 list list \<times> pt_res) option" where
  "psock_send_run m p len [] s = Some ([], PT_WAITING)"
| "psock_send_run m p len (e # es) s =
     (case psock_send e m p len (s, []) of
        None \<Rightarrow> None
      | Some (r, s, out) \<Rightarrow>
          if r = PT_WAITING then map_option (\<lambda>(os, r). (out # os, r)) (psock_send_run m p len es s)
          else Some ([out], r))"

lemma psock_send_run_in_flight:
  assumes "in_flight LC_SEND p n s" "0 < n" "\<forall>e \<in> set es. n \<le> ev_mss e \<and> \<not> ev_acked e" "n \<le> ev_mss ea" "ev_acked ea"
  shows "psock_send_run m q len (es @ [ea]) s
    = Some (map (\<lambda>e. if ev_rexmit e then mem_read m p (unat n) else []) es @ [[]], PT_ENDED)"
  using assms(1,3)
proof (induction es arbitrary: s)
  case Nil
  then show ?case using psock_send_acked [OF Nil(1) assms(4,5), of m q len "[]"] by auto
next
  case (Cons e es)
  obtain s' where "psock_send e m q len (s, []) = Some (PT_WAITING, s', if ev_rexmit e then mem_read m p (unat n) else [])"
    "in_flight LC_SEND p n s'"
    using Cons.prems psock_send_rexmit [OF Cons.prems(1) _ _ _ assms(2), of e m q len "[]"]
      psock_send_idle [OF Cons.prems(1), of e m q len "[]"] by (cases "ev_rexmit e") auto
  with Cons show ?case by simp
qed

text \<open>
  C35: Data of at most one segment is handed to uIP at once, again on every retransmission and at no
  other event, and the send ends with the first acknowledgement, however the events come.
\<close>

theorem psock_send_one_segment:
  assumes "ps_lc s = LC_INIT" "0 < unat len" "unat len \<le> unat (ev_mss e0)"
    and "\<forall>e \<in> set es. unat len \<le> unat (ev_mss e) \<and> \<not> ev_acked e" "unat len \<le> unat (ev_mss ea)" "ev_acked ea"
  shows "psock_send_run m p len (e0 # es @ [ea]) s
    = Some (mem_read m p (unat len) # map (\<lambda>e. if ev_rexmit e then mem_read m p (unat len) else []) es @ [[]], PT_ENDED)"
proof -
  have "unat len < 65536" using assms(3) unat_u16_less [of "ev_mss e0"] by (simp del: unat_u16_less)
  then have n: "unat (ucast len :: u16) = unat len" by (simp add: unsigned_ucast_eq take_bit_nat_eq_self_iff)
  obtain s' where "psock_send e0 m p len (s, []) = Some (PT_WAITING, s', mem_read m p (unat len))" "in_flight LC_SEND p (ucast len) s'"
    using psock_send_start [OF assms(1-3)] by blast
  moreover from this(2) have "psock_send_run m p len (es @ [ea]) s'
    = Some (map (\<lambda>e. if ev_rexmit e then mem_read m p (unat (ucast len :: u16)) else []) es @ [[]], PT_ENDED)"
    by (rule psock_send_run_in_flight) (use assms n in \<open>auto simp: word_less_nat_alt word_le_nat_alt\<close>)
  ultimately show ?thesis by (simp add: n)
qed

text \<open>
  Data longer than a segment is not sent: after the first segment the acknowledgement ends the
  send with only the last segment handed to uIP; what lies between is lost.
\<close>

lemma psock_send_loses_segments:
  assumes "ps_lc s = LC_INIT" "unat (ev_mss e0) < unat len" "unat len < 65536" "0 < unat (ev_mss e0)"
    and "ev_mss ea = ev_mss e0" "ev_acked ea"
  shows "\<exists>k. psock_send_run m p len [e0, ea] s
      = Some ([mem_read m p (unat (ev_mss e0)), mem_read m (p + of_nat (k * unat (ev_mss e0))) (unat len - k * unat (ev_mss e0))], PT_ENDED)
    \<and> k * unat (ev_mss e0) < unat len \<and> unat len \<le> (k + 1) * unat (ev_mss e0)"
proof -
  let ?n = "ucast len :: u16"
  have n: "unat ?n = unat len" using assms(3) by (simp add: unsigned_ucast_eq take_bit_nat_eq_self_iff)
  have gt: "ev_mss e0 < ?n" "0 < ?n" "len \<noteq> 0" "0 < ev_mss e0" using assms(2,4) n by (auto simp: word_less_nat_alt)
  let ?s = "s\<lparr> ps_sendptr := p, ps_sendlen := ?n, ps_state := STATE_DATA_SENT, ps_lc := LC_SEND \<rparr>"
  have "psock_send e0 m p len (s, []) = Some (PT_WAITING, ?s, mem_read m p (unat (ev_mss e0)))"
    using assms(1) gt by (simp add: psock_send_def, subst psock_send_wait.simps) (simp add: ack_defs Let_def)
  moreover obtain s' k where "psock_send_wait ea m (?s, []) = Some (PT_ENDED, s',
      mem_read m (p + of_nat (k * unat (ev_mss e0))) (unat len - k * unat (ev_mss e0)))"
    "k * unat (ev_mss e0) < unat len" "unat len \<le> (k + 1) * unat (ev_mss e0)"
    using psock_send_wait_long [of ?s ea m "[]"] gt assms(5,6) n by (auto simp del: of_nat_mult)
  ultimately show ?thesis by (intro exI [of _ k]) (simp add: psock_send_def del: of_nat_mult)
qed

text \<open>A retransmission of generated data sends what lies at \<open>uip_appdata\<close> when it is asked for.\<close>

lemma generator_not_called_on_rexmit:
  assumes "in_flight LC_GENERATOR app n s" "0 < n" "n \<le> ev_mss e" "\<not> ev_acked e" "ev_rexmit e"
  shows "\<exists>s'. psock_generator_send e generate app g (s, out) = Some (PT_WAITING, g, s', mem_read (fst g) app (unat n))"
  using psock_gen_rexmit [OF assms(1,3,4,5), of generate app g out] assms(2) by auto

definition ex_ev :: uip_ev where
  "ex_ev = \<lparr> ev_newdata = False, ev_acked = False, ev_rexmit = False, ev_data = [], ev_mss = 4 \<rparr>"

definition ex_psock :: psock where
  "ex_psock = \<lparr> ps_lc = LC_INIT, ps_sendptr = 0, ps_read = [], ps_bufsize = 49, ps_sendlen = 0, ps_ptr = 0, ps_left = 49,
     ps_state = STATE_NONE \<rparr>"

lemma psock_send_one_segment_witness:
  "psock_send_run (\<lambda>a. ucast a) 16 3 (ex_ev # [ex_ev, ex_ev\<lparr> ev_rexmit := True \<rparr>] @ [ex_ev\<lparr> ev_acked := True \<rparr>]) ex_psock
    = Some (mem_read (\<lambda>a. ucast a) 16 (unat (3 :: u32)) # map (\<lambda>e. if ev_rexmit e then mem_read (\<lambda>a. ucast a) 16 (unat (3 :: u32)) else [])
        [ex_ev, ex_ev\<lparr> ev_rexmit := True \<rparr>] @ [[]], PT_ENDED)"
  by (rule psock_send_one_segment) (simp_all add: ex_ev_def ex_psock_def)

lemma psock_send_loses_segments_witness:
  "\<exists>k. psock_send_run (\<lambda>a. ucast a) 16 11 [ex_ev, ex_ev\<lparr> ev_acked := True \<rparr>] ex_psock
      = Some ([mem_read (\<lambda>a. ucast a) 16 (unat (ev_mss ex_ev)),
          mem_read (\<lambda>a. ucast a) (16 + of_nat (k * unat (ev_mss ex_ev))) (unat (11 :: u32) - k * unat (ev_mss ex_ev))], PT_ENDED)
    \<and> k * unat (ev_mss ex_ev) < unat (11 :: u32) \<and> unat (11 :: u32) \<le> (k + 1) * unat (ev_mss ex_ev)"
  by (rule psock_send_loses_segments) (simp_all add: ex_ev_def ex_psock_def)

end
