(* ===== verification/Httpd.thy ===== *)
theory Httpd
  imports Psock
begin

text \<open>
  The web server, \<open>src/webserver/httpd.c\<close> with \<open>httpd.h\<close>, \<open>httpd-fs.c\<close> and the
  constants of \<open>httpd-strings.c\<close>. This theory holds the state of a connection and the input
  side: the protothread \<open>handle_input\<close> that reads the request.

  The arrays of \<open>struct httpd_state\<close> are byte lists of their declared length; writing behind
  the end of one, or reading a string that has no terminator in its array, is \<open>None\<close>. The file
  and the script output are addresses in the flat memory. Lua interpreters are values of a
  parameter type \<open>'L\<close>.
\<close>

section \<open>Constants\<close>

definition ISO_nl :: u8 where "ISO_nl = 0x0A"
definition ISO_space :: u8 where "ISO_space = 0x20"
definition ISO_slash :: u8 where "ISO_slash = 0x2F"
definition ISO_question :: u8 where "ISO_question = 0x3F"
definition ISO_minor :: u8 where "ISO_minor = 0x3C"
definition ISO_period :: u8 where "ISO_period = 0x2E"

definition http_get :: "u8 list" where "http_get = [0x47, 0x45, 0x54, 0x20]"
definition http_referer :: "u8 list" where
  "http_referer = [0x52, 0x65, 0x66, 0x65, 0x72, 0x65, 0x72, 0x3A]"
definition http_index_pht :: "u8 list" where
  "http_index_pht = [0x2F, 0x69, 0x6E, 0x64, 0x65, 0x78, 0x2E, 0x70, 0x68, 0x74]"

section \<open>Connections\<close>

datatype conn_state = STATE_WAITING | STATE_OUTPUT

datatype in_lc = IN_INIT | IN_METHOD | IN_TARGET | IN_HEADER

datatype sout_lc = SOUT_INIT | SOUT_STATUS | SOUT_TYPE "u8 list" | SOUT_FILE | SOUT_PART | SOUT_SCRIPT

datatype script_lc = SCR_INIT | SCR_RUN | SCR_TAG | SCR_TEXT

datatype out_lc = OUT_INIT | OUT_404_HEADERS | OUT_404_FILE | OUT_HEADERS | OUT_TAGS | OUT_SCRIPTS | OUT_FILE

record 'L httpd_state =
  hs_timer :: u8
  hs_sin :: psock
  hs_sout :: psock
  hs_sinpt :: in_lc
  hs_soutpt :: sout_lc
  hs_outputpt :: out_lc
  hs_scriptpt :: script_lc
  hs_inputbuf :: "u8 list"     \<comment> \<open>50 bytes\<close>
  hs_filename :: "u8 list"     \<comment> \<open>20 bytes\<close>
  hs_state :: conn_state
  hs_data :: u32               \<comment> \<open>\<open>file.data\<close>\<close>
  hs_flen :: u32               \<comment> \<open>\<open>file.len\<close>\<close>
  hs_len :: u32
  hs_scriptptr :: u32
  hs_scriptlen :: u32
  hs_ripaddr :: "u16 \<times> u16"
  hs_L :: "'L option"
  hs_nr :: nat                 \<comment> \<open>\<open>http_connection_nr\<close>\<close>
  hs_new_pht :: bool
  hs_params :: "u8 list"       \<comment> \<open>\<open>http_params\<close>, 30 bytes\<close>
  hs_wbuf :: u32               \<comment> \<open>the address of \<open>write_buffer\<close>\<close>
  hs_wlen :: u32

section \<open>C strings in arrays\<close>

definition c_string :: "u8 list \<Rightarrow> u8 list option" where
  "c_string a = (if 0 \<in> set a then Some (takeWhile (\<lambda>x. x \<noteq> 0) a) else None)"

definition strcpy :: "u8 list \<Rightarrow> u8 list \<Rightarrow> u8 list option" where
  "strcpy dst str = (if length str < length dst then Some (str @ 0 # drop (length str + 1) dst) else None)"

definition strncpy :: "nat \<Rightarrow> u8 list \<Rightarrow> u8 list \<Rightarrow> u8 list option" where
  "strncpy n dst str =
     (if n \<le> length dst then Some (take n str @ replicate (n - length str) 0 @ drop n dst) else None)"

section \<open>Reading the request\<close>

text \<open>
  The endless loop over the header lines, in this event. The two bytes before the end of a
  \<open>Referer\<close> line are cut off.
\<close>

partial_function (option) in_headers :: "uip_ev \<Rightarrow> u8 list \<Rightarrow> psock \<Rightarrow> (u8 list \<times> psock) option" where
  "in_headers ev mem s =
     (case psock_readto ev ISO_nl mem s of
        None \<Rightarrow> None
      | Some (r, mem, s) \<Rightarrow>
          if r = PT_WAITING then Some (mem, s)
          else if take 8 mem = http_referer then
            (if psock_datalen s < 2 then None else in_headers ev (mem[psock_datalen s - 2 := 0]) s)
          else in_headers ev mem s)"

text \<open>The request target in the input buffer: file name and parameters.\<close>

definition in_parse :: "'L httpd_state \<Rightarrow> 'L httpd_state option" where
  "in_parse h =
     (if hs_inputbuf h ! 1 = ISO_space then
        map_option (\<lambda>f. h\<lparr> hs_filename := f \<rparr>) (strncpy (length http_index_pht) (replicate (length (hs_filename h)) 0) http_index_pht)
      else
        let mem = (hs_inputbuf h)[psock_datalen (hs_sin h) - 1 := 0];
            h = h\<lparr> hs_inputbuf := mem \<rparr>
        in case c_string mem of
             None \<Rightarrow> None
           | Some str \<Rightarrow>
               if ISO_question \<in> set str then
                 let path = takeWhile (\<lambda>x. x \<noteq> ISO_question) str
                 in (case strcpy (hs_filename h) path of
                       None \<Rightarrow> None
                     | Some f \<Rightarrow>
                         (case strcpy (hs_params h) (drop (length path + 1) str) of
                            None \<Rightarrow> None
                          | Some p \<Rightarrow> Some (h\<lparr> hs_inputbuf := mem[length path := 0], hs_filename := f, hs_params := p \<rparr>)))
               else
                 (case strncpy (length (hs_filename h)) (hs_filename h) str of
                    None \<Rightarrow> None
                  | Some f \<Rightarrow> Some (h\<lparr> hs_filename := f, hs_params := (hs_params h)[0 := 0] \<rparr>)))"

text \<open>
  The thread from each of its labels. The boolean says whether the connection is closed
  (\<open>PSOCK_CLOSE_EXIT\<close>).
\<close>

definition in_header :: "uip_ev \<Rightarrow> 'L httpd_state \<Rightarrow> ('L httpd_state \<times> bool) option" where
  "in_header ev h =
     map_option (\<lambda>(mem, s). (h\<lparr> hs_inputbuf := mem, hs_sin := s, hs_sinpt := IN_HEADER \<rparr>, False))
       (in_headers ev (hs_inputbuf h) (hs_sin h))"

definition in_target :: "uip_ev \<Rightarrow> 'L httpd_state \<Rightarrow> ('L httpd_state \<times> bool) option" where
  "in_target ev h =
     (case psock_readto ev ISO_space (hs_inputbuf h) (hs_sin h) of
        None \<Rightarrow> None
      | Some (r, mem, s) \<Rightarrow>
          let h = h\<lparr> hs_inputbuf := mem, hs_sin := s \<rparr> in
          if r = PT_WAITING then Some (h\<lparr> hs_sinpt := IN_TARGET \<rparr>, False)
          else if mem ! 0 \<noteq> ISO_slash then Some (h\<lparr> hs_sinpt := IN_INIT \<rparr>, True)
          else (case in_parse h of
                  None \<Rightarrow> None
                | Some h \<Rightarrow> in_header ev (h\<lparr> hs_state := STATE_OUTPUT \<rparr>)))"

definition in_method :: "uip_ev \<Rightarrow> 'L httpd_state \<Rightarrow> ('L httpd_state \<times> bool) option" where
  "in_method ev h =
     (case psock_readto ev ISO_space (hs_inputbuf h) (hs_sin h) of
        None \<Rightarrow> None
      | Some (r, mem, s) \<Rightarrow>
          let h = h\<lparr> hs_inputbuf := mem, hs_sin := s \<rparr> in
          if r = PT_WAITING then Some (h\<lparr> hs_sinpt := IN_METHOD \<rparr>, False)
          else if take 4 mem \<noteq> http_get then Some (h\<lparr> hs_sinpt := IN_INIT \<rparr>, True)
          else in_target ev h)"

definition handle_input :: "uip_ev \<Rightarrow> 'L httpd_state \<Rightarrow> ('L httpd_state \<times> bool) option" where
  "handle_input ev h =
     (case hs_sinpt h of
        IN_INIT \<Rightarrow> in_method ev h
      | IN_METHOD \<Rightarrow> in_method ev h
      | IN_TARGET \<Rightarrow> in_target ev h
      | IN_HEADER \<Rightarrow> in_header ev h)"

section \<open>What the input thread does, byte by byte\<close>

lemma through_last: "c \<in> set xs \<Longrightarrow> through c xs \<noteq> [] \<and> last (through c xs) = c"
  by (induction xs) auto

lemma past_pending_less: "c \<in> set (ps_pending ev s) \<Longrightarrow> ps_state s' = STATE_READ \<Longrightarrow> ps_read s' = past c (ps_pending ev s)
    \<Longrightarrow> length (ps_pending ev s') < length (ps_pending ev s)"
  by (simp add: ps_pending_def [of ev s'] length_past)

lemma in_headers_returns:
  assumes "ps_lc s = LC_INIT \<and> t = [] \<and> ps_bufsize s \<le> length mem \<or> ps_lc s = LC_READ \<and> reading mem t s"
    and "ps_ok s" "8 \<le> ps_bufsize s"
  shows "\<exists>mem' s' t'. in_headers ev mem s = Some (mem', s') \<and> ps_lc s' = LC_READ \<and> reading mem' t' s' \<and> ps_ok s'
    \<and> ps_state s' \<noteq> STATE_READ \<and> length mem' = length mem \<and> ps_bufsize s' = ps_bufsize s"
  using assms
proof (induction "length (ps_pending ev s)" arbitrary: mem s t rule: less_induct)
  case less
  let ?P = "ps_pending ev s"
  obtain mem1 s1 where r: "psock_readto ev ISO_nl mem s = Some (if ISO_nl \<in> set ?P then PT_ENDED else PT_WAITING, mem1, s1)"
    "reading mem1 (t @ through ISO_nl ?P) s1" "ps_ok s1" "length mem1 = length mem" "ps_bufsize s1 = ps_bufsize s"
    "ps_lc s1 = (if ISO_nl \<in> set ?P then LC_INIT else LC_READ)"
    "ISO_nl \<in> set ?P \<longrightarrow> ps_state s1 = STATE_READ \<and> ps_read s1 = past ISO_nl ?P"
    "ISO_nl \<notin> set ?P \<longrightarrow> ps_state s1 \<noteq> STATE_READ"
    using psock_readto_spec [OF less.prems(1,2), of ev ISO_nl] by blast
  show ?case
  proof (cases "ISO_nl \<in> set ?P")
    case False
    have "in_headers ev mem s = Some (mem1, s1)" using r(1) False by (subst in_headers.simps) simp
    then show ?thesis using r False by auto
  next
    case True
    let ?tok = "t @ through ISO_nl ?P"
    have again: "\<exists>mem' s' t'. in_headers ev mem2 s1 = Some (mem', s') \<and> ps_lc s' = LC_READ \<and> reading mem' t' s' \<and> ps_ok s'
        \<and> ps_state s' \<noteq> STATE_READ \<and> length mem' = length mem \<and> ps_bufsize s' = ps_bufsize s" if "length mem2 = length mem" for mem2
      using less.hyps [of s1 "[]" mem2] past_pending_less [of ISO_nl ev s s1] True r less.prems(3) that by (auto simp: reading_def)
    have len: "\<not> psock_datalen s1 < 2" if "take 8 mem1 = http_referer"
    proof (rule ccontr)
      assume "\<not> \<not> psock_datalen s1 < 2"
      then have short: "length ?tok < 2" using r(2,5) less.prems(3) by (auto simp: psock_datalen_def reading_def)
      then obtain b where tok: "?tok = [b]" using through_last [OF True] by (cases ?tok) auto
      then have "b = ISO_nl" using through_last [OF True] by (metis last.simps last_appendR)
      moreover have "take 1 mem1 = [b]" using r(2,5) tok less.prems(3) by (auto simp: reading_def min_def)
      ultimately have "mem1 ! 0 = ISO_nl" by (cases mem1) auto
      moreover have "mem1 ! 0 = take 8 mem1 ! 0" by simp
      ultimately show False using that by (simp add: http_referer_def ISO_nl_def)
    qed
    have "in_headers ev mem s = (if take 8 mem1 = http_referer then in_headers ev (mem1[psock_datalen s1 - 2 := 0]) s1
        else in_headers ev mem1 s1)"
      using r(1) True len by (subst in_headers.simps) simp
    then show ?thesis using again [of mem1] again [of "mem1[psock_datalen s1 - 2 := 0]"] r(4) by simp
  qed
qed

text \<open>
  The input thread as an automaton on single bytes: the bytes of the token read so far; with the
  space that ends it the method is checked and the target is taken.
\<close>

datatype in_abs = A_METHOD "u8 list" | A_TARGET "u8 list" | A_CLOSED | A_OUT "u8 list"

fun in_byte :: "in_abs \<Rightarrow> u8 \<Rightarrow> in_abs" where
  "in_byte (A_METHOD t) b =
     (if b \<noteq> ISO_space then A_METHOD (t @ [b]) else if take 4 (t @ [b]) = http_get then A_TARGET [] else A_CLOSED)"
| "in_byte (A_TARGET t) b =
     (if b \<noteq> ISO_space then A_TARGET (t @ [b]) else if hd (t @ [b]) = ISO_slash then A_OUT (t @ [b]) else A_CLOSED)"
| "in_byte a b = a"

lemma in_bytes_final [simp]: "foldl in_byte A_CLOSED bs = A_CLOSED" "foldl in_byte (A_OUT t) bs = A_OUT t"
  by (induction bs) auto

lemma in_bytes_method:
  "foldl in_byte (A_METHOD t) bs =
     (if ISO_space \<in> set bs then (if take 4 (t @ through ISO_space bs) = http_get
        then foldl in_byte (A_TARGET []) (past ISO_space bs) else A_CLOSED) else A_METHOD (t @ bs))"
  by (induction bs arbitrary: t) auto

lemma in_bytes_target:
  "foldl in_byte (A_TARGET t) bs =
     (if ISO_space \<in> set bs then (if hd (t @ through ISO_space bs) = ISO_slash
        then A_OUT (t @ through ISO_space bs) else A_CLOSED) else A_TARGET (t @ bs))"
proof (induction bs arbitrary: t)
  case (Cons b bs)
  then show ?case by simp
qed simp

text \<open>What a complete target leaves in \<open>filename\<close> and \<open>http_params\<close>, if it fits.\<close>

definition target_path :: "u8 list \<Rightarrow> u8 list" where
  "target_path t = (if t ! 1 = ISO_space then http_index_pht else takeWhile (\<lambda>x. x \<noteq> ISO_question) (butlast t))"

definition target_query :: "u8 list \<Rightarrow> u8 list option" where
  "target_query t =
     (if t ! 1 = ISO_space then None
      else Some (drop (length (takeWhile (\<lambda>x. x \<noteq> ISO_question) (butlast t)) + 1) (butlast t)))"

definition target_fits :: "u8 list \<Rightarrow> bool" where
  "target_fits t \<longleftrightarrow> length t < 50 \<and> 0 \<notin> set t \<and> length (target_path t) < 20
     \<and> (\<forall>q. target_query t = Some q \<longrightarrow> length q < 30)"

definition in_arrays :: "'L httpd_state \<Rightarrow> bool" where
  "in_arrays h \<longleftrightarrow> length (hs_inputbuf h) = 50 \<and> length (hs_filename h) = 20 \<and> length (hs_params h) = 30
     \<and> ps_bufsize (hs_sin h) = 49"

text \<open>The relation between a connection and the automaton between two events.\<close>

definition in_rel :: "'L httpd_state \<Rightarrow> in_abs \<Rightarrow> 'L httpd_state \<Rightarrow> bool" where
  "in_rel h0 a h \<longleftrightarrow> in_arrays h \<and> ps_ok (hs_sin h) \<and> ps_state (hs_sin h) \<noteq> STATE_READ \<and>
     (case a of
        A_METHOD t \<Rightarrow> hs_state h = STATE_WAITING \<and> hs_params h = hs_params h0 \<and>
          (hs_sinpt h = IN_INIT \<and> ps_lc (hs_sin h) = LC_INIT \<and> t = []
           \<or> hs_sinpt h = IN_METHOD \<and> ps_lc (hs_sin h) = LC_READ \<and> reading (hs_inputbuf h) t (hs_sin h))
      | A_TARGET t \<Rightarrow> hs_state h = STATE_WAITING \<and> hs_params h = hs_params h0
          \<and> hs_sinpt h = IN_TARGET \<and> ps_lc (hs_sin h) = LC_READ \<and> reading (hs_inputbuf h) t (hs_sin h)
      | A_CLOSED \<Rightarrow> False
      | A_OUT t \<Rightarrow> hs_state h = STATE_OUTPUT \<and> hs_sinpt h = IN_HEADER \<and> ps_lc (hs_sin h) = LC_READ
          \<and> (\<exists>u. reading (hs_inputbuf h) u (hs_sin h))
          \<and> c_string (hs_filename h) = Some (target_path t)
          \<and> (case target_query t of None \<Rightarrow> hs_params h = hs_params h0 | Some q \<Rightarrow> c_string (hs_params h) = Some q))"

lemma in_header_returns:
  assumes "ps_lc (hs_sin h) = LC_INIT \<and> t = [] \<or> ps_lc (hs_sin h) = LC_READ \<and> reading (hs_inputbuf h) t (hs_sin h)"
    and "ps_ok (hs_sin h)" "in_arrays h"
  shows "\<exists>mem s u. in_header ev h = Some (h\<lparr> hs_inputbuf := mem, hs_sin := s, hs_sinpt := IN_HEADER \<rparr>, False)
    \<and> ps_lc s = LC_READ \<and> reading mem u s \<and> ps_ok s \<and> ps_state s \<noteq> STATE_READ \<and> length mem = 50 \<and> ps_bufsize s = 49"
  using in_headers_returns [of "hs_sin h" t "hs_inputbuf h" ev] assms by (auto simp: in_header_def in_arrays_def)

lemma c_string_strcpy: "strcpy dst str = Some a \<Longrightarrow> 0 \<notin> set str \<Longrightarrow> c_string a = Some str \<and> length a = length dst"
  by (auto simp: strcpy_def c_string_def takeWhile_tail split: if_splits)

lemma takeWhile_absent: "c \<notin> set xs \<Longrightarrow> takeWhile (\<lambda>x. x \<noteq> c) (xs @ c # ys) = xs"
  by (induction xs) auto

lemma c_string_terminated: "0 \<notin> set str \<Longrightarrow> c_string (str @ 0 # r) = Some str"
  by (simp add: c_string_def takeWhile_absent)

text \<open>Parsing a complete target that fits.\<close>

lemma in_parse_ok:
  assumes "in_arrays h" "reading (hs_inputbuf h) t (hs_sin h)" "target_fits t" "2 \<le> length t" "last t = ISO_space"
  shows "\<exists>mem f p. in_parse h = Some (h\<lparr> hs_inputbuf := mem, hs_filename := f, hs_params := p \<rparr>)
    \<and> length mem = 50 \<and> length f = 20 \<and> length p = 30 \<and> c_string f = Some (target_path t)
    \<and> (case target_query t of None \<Rightarrow> p = hs_params h | Some q \<Rightarrow> c_string p = Some q)"
proof -
  have a: "length (hs_inputbuf h) = 50" "length (hs_filename h) = 20" "length (hs_params h) = 30" "ps_bufsize (hs_sin h) = 49"
    using assms(1) by (simp_all add: in_arrays_def)
  have t: "length t < 50" "0 \<notin> set t" "length (target_path t) < 20" and q: "\<And>q. target_query t = Some q \<Longrightarrow> length q < 30"
    using assms(3) by (simp_all add: target_fits_def)
  have mem: "take (length t) (hs_inputbuf h) = t" and dl: "psock_datalen (hs_sin h) = length t"
    using assms(2) a t(1) by (auto simp: reading_def psock_datalen_def min_def)
  have n1: "hs_inputbuf h ! 1 = t ! 1"
    using mem assms(4) by (metis Suc_1 Suc_le_lessD nth_take One_nat_def)
  show ?thesis
  proof (cases "t ! 1 = ISO_space")
    case True
    obtain f where f: "f = http_index_pht @ replicate 10 0" by simp
    then have "strncpy (length http_index_pht) (replicate 20 0) http_index_pht = Some f"
      by (simp add: strncpy_def http_index_pht_def)
    moreover have "c_string f = Some http_index_pht" by (simp add: f http_index_pht_def c_string_def)
    ultimately show ?thesis using True n1 a f
      by (intro exI [of _ "hs_inputbuf h"] exI [of _ f] exI [of _ "hs_params h"])
        (simp add: in_parse_def target_path_def target_query_def http_index_pht_def)
  next
    case False
    let ?str = "butlast t"
    let ?mem = "(hs_inputbuf h)[length t - 1 := 0]"
    let ?path = "takeWhile (\<lambda>x. x \<noteq> ISO_question) ?str"
    have split: "?mem = ?str @ 0 # drop (length t) (hs_inputbuf h)"
    proof -
      have "hs_inputbuf h = butlast t @ last t # drop (length t) (hs_inputbuf h)"
        using mem assms(4) by (metis append_butlast_last_id append_Cons append_assoc append_Nil append_take_drop_id list.size(3) not_numeral_le_zero)
      then show ?thesis by (metis length_butlast list_update_length)
    qed
    have nz: "0 \<notin> set ?str" using t(2) by (meson in_set_butlastD)
    have str: "c_string ?mem = Some ?str" unfolding split by (rule c_string_terminated [OF nz])
    have path: "target_path t = ?path" "target_query t = Some (drop (length ?path + 1) ?str)"
      using False by (simp_all add: target_path_def target_query_def)
    have nzp: "0 \<notin> set ?path" "0 \<notin> set (drop (length ?path + 1) ?str)"
      using nz by (auto dest: set_takeWhileD in_set_dropD)
    show ?thesis
    proof (cases "ISO_question \<in> set ?str")
      case q1: True
      obtain f where f: "strcpy (hs_filename h) ?path = Some f" using t(3) a path by (simp add: strcpy_def)
      obtain p where p: "strcpy (hs_params h) (drop (length ?path + 1) ?str) = Some p"
        using q [OF path(2)] a by (simp add: strcpy_def)
      show ?thesis
        using c_string_strcpy [OF f nzp(1)] c_string_strcpy [OF p nzp(2)] f p a str q1 False n1 dl
        by (intro exI [of _ "?mem[length ?path := 0]"] exI [of _ f] exI [of _ p]) (simp add: in_parse_def path Let_def)
    next
      case q0: False
      then have p: "?path = ?str" by (simp add: takeWhile_eq_all_conv) blast
      obtain f where f: "f = ?str @ replicate (20 - length ?str) 0" by simp
      have fit: "length ?str < 20" using t(3) path p by simp
      then have "strncpy 20 (hs_filename h) ?str = Some f" using a by (simp add: strncpy_def f)
      moreover have "c_string f = Some ?str"
        using fit nz by (cases "20 - length ?str") (simp_all add: f c_string_terminated)
      moreover have "c_string ((hs_params h)[0 := 0]) = Some []" using a by (cases "hs_params h") (simp_all add: c_string_def)
      ultimately show ?thesis using a str q0 False n1 dl fit
        by (intro exI [of _ ?mem] exI [of _ f] exI [of _ "(hs_params h)[0 := 0]"]) (simp add: in_parse_def path p Let_def f)
    qed
  qed
qed

lemma reading_take:
  assumes "reading mem t s" "k \<le> length t" "k \<le> ps_bufsize s"
  shows "take k mem = take k t"
proof -
  have "take (ps_ptr s) mem = take (ps_bufsize s) t" using assms(1) unfolding reading_def by blast
  then have "take k (take (ps_ptr s) mem) = take k (take (ps_bufsize s) t)" by (rule arg_cong)
  moreover have "k \<le> ps_ptr s" using assms by (simp add: reading_def)
  ultimately show ?thesis using assms(3) by (simp add: min_def)
qed

lemma in_target_step:
  assumes "in_arrays h" "ps_ok (hs_sin h)" "hs_state h = STATE_WAITING" "hs_params h = hs_params h0"
    and "ps_lc (hs_sin h) = LC_INIT \<and> t = [] \<or> ps_lc (hs_sin h) = LC_READ \<and> reading (hs_inputbuf h) t (hs_sin h)"
    and "a' = foldl in_byte (A_TARGET t) (ps_pending ev (hs_sin h))" "a' \<noteq> A_CLOSED" "\<forall>u. a' = A_OUT u \<longrightarrow> target_fits u"
  shows "\<exists>h'. in_target ev h = Some (h', False) \<and> in_rel h0 a' h'"
proof -
  let ?P = "ps_pending ev (hs_sin h)"
  let ?tok = "t @ through ISO_space ?P"
  have "ps_lc (hs_sin h) = LC_INIT \<and> t = [] \<and> ps_bufsize (hs_sin h) \<le> length (hs_inputbuf h)
    \<or> ps_lc (hs_sin h) = LC_READ \<and> reading (hs_inputbuf h) t (hs_sin h)" using assms(1,5) by (auto simp: in_arrays_def)
  then obtain mem s where r: "psock_readto ev ISO_space (hs_inputbuf h) (hs_sin h) = Some (if ISO_space \<in> set ?P then PT_ENDED else PT_WAITING, mem, s)"
    "reading mem ?tok s" "ps_ok s" "length mem = length (hs_inputbuf h)" "ps_bufsize s = ps_bufsize (hs_sin h)"
    "ps_lc s = (if ISO_space \<in> set ?P then LC_INIT else LC_READ)" "ISO_space \<notin> set ?P \<longrightarrow> ps_state s \<noteq> STATE_READ"
    using psock_readto_spec [OF _ assms(2), of t "hs_inputbuf h" ev ISO_space] by blast
  let ?h = "h\<lparr> hs_inputbuf := mem, hs_sin := s \<rparr>"
  have arr: "in_arrays ?h" using assms(1) r(4,5) by (simp add: in_arrays_def)
  show ?thesis
  proof (cases "ISO_space \<in> set ?P")
    case False
    then have "a' = A_TARGET ?tok" using assms(6) by (simp add: in_bytes_target through_all)
    moreover have "in_target ev h = Some (?h\<lparr> hs_sinpt := IN_TARGET \<rparr>, False)"
      using False r(1) by (simp add: in_target_def)
    moreover have "in_rel h0 (A_TARGET ?tok) (?h\<lparr> hs_sinpt := IN_TARGET \<rparr>)"
      using False arr r assms(3,4) by (simp add: in_rel_def in_arrays_def)
    ultimately show ?thesis by simp
  next
    case True
    then have out: "hd ?tok = ISO_slash" "a' = A_OUT ?tok" using assms(6,7) by (auto simp: in_bytes_target split: if_splits)
    then have fits: "target_fits ?tok" using assms(8) by simp
    have last: "last ?tok = ISO_space" "?tok \<noteq> []" using through_last [OF True] by simp_all
    then have two: "2 \<le> length ?tok"
      using out(1) by (cases ?tok; cases "tl ?tok") (auto simp: ISO_slash_def ISO_space_def)
    have "take (length ?tok) mem = ?tok"
      using reading_take [OF r(2), of "length ?tok"] r(5) fits assms(1) by (simp add: target_fits_def in_arrays_def)
    then have m0: "mem ! 0 = ISO_slash" using out(1) last(2) by (metis hd_conv_nth length_greater_0_conv nth_take)
    have rd: "reading (hs_inputbuf ?h) ?tok (hs_sin ?h)" using r(2) by simp
    obtain mem' f p where p: "in_parse ?h = Some (?h\<lparr> hs_inputbuf := mem', hs_filename := f, hs_params := p \<rparr>)"
      "length mem' = 50" "length f = 20" "length p = 30" "c_string f = Some (target_path ?tok)"
      "case target_query ?tok of None \<Rightarrow> p = hs_params ?h | Some q \<Rightarrow> c_string p = Some q"
      using in_parse_ok [OF arr rd fits two last(1)] by blast
    let ?g = "?h\<lparr> hs_inputbuf := mem', hs_filename := f, hs_params := p, hs_state := STATE_OUTPUT \<rparr>"
    have g: "ps_lc (hs_sin ?g) = LC_INIT \<and> [] = [] \<or> ps_lc (hs_sin ?g) = LC_READ \<and> reading (hs_inputbuf ?g) [] (hs_sin ?g)"
      "ps_ok (hs_sin ?g)" "in_arrays ?g" using r(3,6) arr p True by (simp_all add: in_arrays_def)
    obtain mem2 s2 u where f: "in_header ev ?g = Some (?g\<lparr> hs_inputbuf := mem2, hs_sin := s2, hs_sinpt := IN_HEADER \<rparr>, False)"
      "ps_lc s2 = LC_READ" "reading mem2 u s2" "ps_ok s2" "ps_state s2 \<noteq> STATE_READ" "length mem2 = 50" "ps_bufsize s2 = 49"
      using in_header_returns [OF g, of ev] by blast
    have "in_target ev h = Some (?g\<lparr> hs_inputbuf := mem2, hs_sin := s2, hs_sinpt := IN_HEADER \<rparr>, False)"
      using True r(1) m0 p(1) f(1) by (simp add: in_target_def)
    moreover have "in_rel h0 a' (?g\<lparr> hs_inputbuf := mem2, hs_sin := s2, hs_sinpt := IN_HEADER \<rparr>)"
      using f(2-) p(2-) assms(4) by (auto simp: in_rel_def in_arrays_def out(2) split: option.splits)
    ultimately show ?thesis by blast
  qed
qed

lemma in_method_step:
  assumes "in_arrays h" "ps_ok (hs_sin h)" "hs_state h = STATE_WAITING" "hs_params h = hs_params h0"
    and "ps_lc (hs_sin h) = LC_INIT \<and> t = [] \<or> ps_lc (hs_sin h) = LC_READ \<and> reading (hs_inputbuf h) t (hs_sin h)"
    and "a' = foldl in_byte (A_METHOD t) (ps_pending ev (hs_sin h))" "a' \<noteq> A_CLOSED" "\<forall>u. a' = A_OUT u \<longrightarrow> target_fits u"
  shows "\<exists>h'. in_method ev h = Some (h', False) \<and> in_rel h0 a' h'"
proof -
  let ?P = "ps_pending ev (hs_sin h)"
  let ?tok = "t @ through ISO_space ?P"
  have "ps_lc (hs_sin h) = LC_INIT \<and> t = [] \<and> ps_bufsize (hs_sin h) \<le> length (hs_inputbuf h)
    \<or> ps_lc (hs_sin h) = LC_READ \<and> reading (hs_inputbuf h) t (hs_sin h)" using assms(1,5) by (auto simp: in_arrays_def)
  then obtain mem s where r: "psock_readto ev ISO_space (hs_inputbuf h) (hs_sin h) = Some (if ISO_space \<in> set ?P then PT_ENDED else PT_WAITING, mem, s)"
    "reading mem ?tok s" "ps_ok s" "length mem = length (hs_inputbuf h)" "ps_bufsize s = ps_bufsize (hs_sin h)"
    "ps_lc s = (if ISO_space \<in> set ?P then LC_INIT else LC_READ)" "ISO_space \<notin> set ?P \<longrightarrow> ps_state s \<noteq> STATE_READ"
    "ISO_space \<in> set ?P \<longrightarrow> ps_state s = STATE_READ \<and> ps_read s = past ISO_space ?P"
    using psock_readto_spec [OF _ assms(2), of t "hs_inputbuf h" ev ISO_space] by blast
  let ?h = "h\<lparr> hs_inputbuf := mem, hs_sin := s \<rparr>"
  have arr: "in_arrays ?h" using assms(1) r(4,5) by (simp add: in_arrays_def)
  show ?thesis
  proof (cases "ISO_space \<in> set ?P")
    case False
    then have "a' = A_METHOD ?tok" using assms(6) by (simp add: in_bytes_method through_all)
    moreover have "in_method ev h = Some (?h\<lparr> hs_sinpt := IN_METHOD \<rparr>, False)"
      using False r(1) by (simp add: in_method_def)
    moreover have "in_rel h0 (A_METHOD ?tok) (?h\<lparr> hs_sinpt := IN_METHOD \<rparr>)"
      using False arr r assms(3,4) by (simp add: in_rel_def in_arrays_def)
    ultimately show ?thesis by simp
  next
    case True
    then have get: "take 4 ?tok = http_get" and a': "a' = foldl in_byte (A_TARGET []) (past ISO_space ?P)"
      using assms(6,7) by (auto simp: in_bytes_method split: if_splits)
    have "4 \<le> length ?tok"
    proof -
      have "length (take 4 ?tok) = 4" unfolding get by (simp add: http_get_def)
      then show ?thesis by simp
    qed
    then have "take 4 mem = take 4 ?tok"
      using reading_take [OF r(2), of 4] r(5) assms(1) by (simp add: in_arrays_def)
    then have "in_method ev h = in_target ev ?h" using True r(1) get by (simp add: in_method_def)
    moreover have "\<exists>h'. in_target ev ?h = Some (h', False) \<and> in_rel h0 a' h'"
    proof (rule in_target_step [where t = "[]"])
      have "ps_pending ev s = past ISO_space ?P" using r(8) True by (simp add: ps_pending_def [of ev s])
      then show "a' = foldl in_byte (A_TARGET []) (ps_pending ev (hs_sin ?h))" using a' by simp
    qed (use r(3,6) arr assms(3,4,7,8) True in simp_all)
    ultimately show ?thesis by simp
  qed
qed

lemma handle_input_step:
  assumes "in_rel h0 a h" "a' = foldl in_byte a (if ev_newdata ev then ev_data ev else [])" "a' \<noteq> A_CLOSED"
    and "\<forall>u. a' = A_OUT u \<longrightarrow> target_fits u"
  shows "\<exists>h'. handle_input ev h = Some (h', False) \<and> in_rel h0 a' h'"
proof -
  have pend: "ps_pending ev (hs_sin h) = (if ev_newdata ev then ev_data ev else [])"
    using assms(1) by (simp add: in_rel_def ps_pending_def)
  have base: "in_arrays h" "ps_ok (hs_sin h)" using assms(1) by (simp_all add: in_rel_def)
  show ?thesis
  proof (cases a)
    case (A_METHOD t)
    then have "handle_input ev h = in_method ev h" using assms(1) by (auto simp: in_rel_def handle_input_def)
    moreover have "\<exists>h'. in_method ev h = Some (h', False) \<and> in_rel h0 a' h'"
      using assms(1) A_METHOD by (intro in_method_step [OF base _ _ _ _ assms(3,4), of h0 t]) (auto simp: in_rel_def pend assms(2))
    ultimately show ?thesis by simp
  next
    case (A_TARGET t)
    then have "handle_input ev h = in_target ev h" using assms(1) by (auto simp: in_rel_def handle_input_def)
    moreover have "\<exists>h'. in_target ev h = Some (h', False) \<and> in_rel h0 a' h'"
      using assms(1) A_TARGET by (intro in_target_step [OF base _ _ _ _ assms(3,4), of h0 t]) (auto simp: in_rel_def pend assms(2))
    ultimately show ?thesis by simp
  next
    case (A_OUT t)
    obtain u where u: "ps_lc (hs_sin h) = LC_READ" "reading (hs_inputbuf h) u (hs_sin h)" "hs_sinpt h = IN_HEADER"
      using assms(1) A_OUT by (auto simp: in_rel_def)
    then obtain mem s v where r: "in_header ev h = Some (h\<lparr> hs_inputbuf := mem, hs_sin := s, hs_sinpt := IN_HEADER \<rparr>, False)"
      "ps_lc s = LC_READ" "reading mem v s" "ps_ok s" "ps_state s \<noteq> STATE_READ" "length mem = 50" "ps_bufsize s = 49"
      using in_header_returns [of h u ev] base by auto
    have "a' = A_OUT t" using assms(2) A_OUT by simp
    then have "in_rel h0 a' (h\<lparr> hs_inputbuf := mem, hs_sin := s, hs_sinpt := IN_HEADER \<rparr>)"
      using assms(1) r A_OUT by (auto simp: in_rel_def in_arrays_def split: option.splits)
    then show ?thesis using r(1) u(3) by (simp add: handle_input_def)
  qed (use assms(1) in \<open>simp add: in_rel_def\<close>)
qed

text \<open>The events of a connection until the request is refused.\<close>

fun in_run :: "uip_ev list \<Rightarrow> 'L httpd_state \<Rightarrow> ('L httpd_state \<times> bool) option" where
  "in_run [] h = Some (h, False)"
| "in_run (e # es) h =
     (case handle_input e h of
        None \<Rightarrow> None
      | Some (h, closed) \<Rightarrow> if closed then Some (h, True) else in_run es h)"

definition ev_bytes :: "uip_ev \<Rightarrow> u8 list" where
  "ev_bytes ev = (if ev_newdata ev then ev_data ev else [])"

lemma in_bytes_out_prefix: "foldl in_byte a (xs @ ys) = A_OUT t \<Longrightarrow> foldl in_byte a xs \<noteq> A_CLOSED"
  by auto

lemma in_run_step:
  assumes "in_rel h0 a h" "foldl in_byte a (concat (map ev_bytes es)) = A_OUT t" "target_fits t"
  shows "\<exists>h'. in_run es h = Some (h', False) \<and> in_rel h0 (A_OUT t) h'"
  using assms(1,2)
proof (induction es arbitrary: a h)
  case (Cons e es)
  let ?a = "foldl in_byte a (ev_bytes e)"
  have fold: "foldl in_byte ?a (concat (map ev_bytes es)) = A_OUT t" using Cons.prems(2) by simp
  have "?a \<noteq> A_CLOSED" using fold by auto
  moreover have "\<forall>u. ?a = A_OUT u \<longrightarrow> target_fits u" using fold assms(3) by auto
  ultimately obtain h' where "handle_input e h = Some (h', False)" "in_rel h0 ?a h'"
    using handle_input_step [OF Cons.prems(1), of ?a e] by (auto simp: ev_bytes_def)
  with Cons.IH [OF _ fold, of h'] show ?case by simp
qed simp

text \<open>A connection after \<open>PSOCK_INIT\<close>.\<close>

definition in_fresh :: "'L httpd_state \<Rightarrow> bool" where
  "in_fresh h \<longleftrightarrow> in_arrays h \<and> hs_sinpt h = IN_INIT \<and> ps_lc (hs_sin h) = LC_INIT \<and> ps_read (hs_sin h) = []
     \<and> ps_state (hs_sin h) = STATE_NONE \<and> hs_state h = STATE_WAITING"

text \<open>
  C5: However TCP cuts the request \<open>GET <target> ...\<close> into segments, with any other events in
  between, the input thread takes the file name and the parameters from the target and switches to
  output, if they fit in their arrays; without parameters in the target \<open>/\<close> the old ones stay.
\<close>

theorem request_parsed:
  assumes "in_fresh h" "concat (map ev_bytes es) = http_get @ target @ ISO_space # rest"
    and "ISO_space \<notin> set target" "target \<noteq> []" "hd target = ISO_slash" "target_fits (target @ [ISO_space])"
  shows "\<exists>h'. in_run es h = Some (h', False) \<and> hs_state h' = STATE_OUTPUT
    \<and> c_string (hs_filename h') = Some (target_path (target @ [ISO_space]))
    \<and> (case target_query (target @ [ISO_space]) of None \<Rightarrow> hs_params h' = hs_params h | Some q \<Rightarrow> c_string (hs_params h') = Some q)"
proof -
  have "in_rel h (A_METHOD []) h"
    using assms(1) by (simp add: in_rel_def in_fresh_def ps_ok_def in_arrays_def)
  moreover have thr: "through ISO_space (target @ ISO_space # rest) = target @ [ISO_space]"
    using assms(3) by (simp add: through_append)
  have "foldl in_byte (A_METHOD []) (http_get @ target @ ISO_space # rest) = A_OUT (target @ [ISO_space])"
    using assms(4,5) thr by (simp add: http_get_def ISO_space_def [symmetric] in_bytes_target del: foldl_append)
      (simp add: ISO_space_def in_bytes_target thr [unfolded ISO_space_def])
  then have "foldl in_byte (A_METHOD []) (concat (map ev_bytes es)) = A_OUT (target @ [ISO_space])"
    using assms(2) by simp
  ultimately obtain h' where "in_run es h = Some (h', False)" "in_rel h (A_OUT (target @ [ISO_space])) h'"
    using in_run_step assms(6) by blast
  then show ?thesis by (auto simp: in_rel_def)
qed

text \<open>
  A request whose path has 20 bytes or more and is followed by parameters is copied over the end
  of \<open>filename\<close>: nothing checks its length before \<open>strcpy\<close>.
\<close>

lemma long_path_overflows:
  assumes "in_fresh h" "ev_newdata ev" "ev_data ev = http_get @ (path @ ISO_question # query) @ ISO_space # rest"
    and "path \<noteq> []" "hd path = ISO_slash" "ISO_space \<notin> set (path @ query)" "0 \<notin> set (path @ query)" "ISO_question \<notin> set path"
    and "20 \<le> length path" "length path + length query < 48"
  shows "handle_input ev h = None"
proof -
  let ?target = "path @ ISO_question # query"
  let ?tok = "?target @ [ISO_space]"
  have ne: "ISO_space \<noteq> ISO_question" by (simp add: ISO_space_def ISO_question_def)
  have arr: "ps_bufsize (hs_sin h) = 49" "length (hs_inputbuf h) = 50" "length (hs_filename h) = 20"
    and ok: "ps_ok (hs_sin h)" and lc: "ps_lc (hs_sin h) = LC_INIT" and pt: "hs_sinpt h = IN_INIT"
    using assms(1) by (simp_all add: in_fresh_def in_arrays_def ps_ok_def)
  have pend: "ps_pending ev (hs_sin h) = http_get @ ?target @ ISO_space # rest"
    using assms(1-3) by (simp add: ps_pending_def in_fresh_def)
  have get: "through ISO_space (http_get @ xs) = http_get" "past ISO_space (http_get @ xs) = xs" "ISO_space \<in> set (http_get @ xs)" for xs
    by (simp_all add: http_get_def ISO_space_def)
  obtain mem s where r: "psock_readto ev ISO_space (hs_inputbuf h) (hs_sin h) = Some (PT_ENDED, mem, s)"
    "reading mem http_get s" "ps_ok s" "length mem = 50" "ps_bufsize s = 49" "ps_lc s = LC_INIT" "ps_state s = STATE_READ"
    "ps_read s = ?target @ ISO_space # rest"
    using psock_readto_spec [OF _ ok, of "[]" "hs_inputbuf h" ev ISO_space] lc arr unfolding pend get by auto
  have m4: "take 4 mem = http_get"
    using reading_take [OF r(2), of 4] r(5) by (simp add: http_get_def)
  have pend2: "ps_pending ev s = ?target @ ISO_space # rest" using r(7,8) by (simp add: ps_pending_def)
  have thr: "through ISO_space (?target @ ISO_space # rest) = ?tok" "ISO_space \<in> set (?target @ ISO_space # rest)"
    using assms(6) ne by (auto simp: through_append)
  obtain mem2 s2 where r2: "psock_readto ev ISO_space mem s = Some (PT_ENDED, mem2, s2)"
    "reading mem2 ?tok s2" "length mem2 = 50" "ps_bufsize s2 = 49"
    using psock_readto_spec [OF _ r(3), of "[]" mem ev ISO_space] r(4-6) unfolding pend2 thr(1) using thr(2) by auto
  let ?h = "h\<lparr> hs_inputbuf := mem2, hs_sin := s2 \<rparr>"
  have tok: "take (length ?tok) mem2 = ?tok"
    using reading_take [OF r2(2), of "length ?tok"] r2(4) assms(10) by simp
  have dl: "psock_datalen s2 = length ?tok" using r2(2,4) assms(10) by (simp add: psock_datalen_def reading_def)
  have split: "mem2 = ?target @ ISO_space # drop (length ?tok) mem2"
    using tok by (metis append.assoc append_Cons append_Nil append_take_drop_id)
  have m0: "mem2 ! 0 = ISO_slash"
    using assms(4,5) by (subst split) (simp add: nth_append hd_conv_nth)
  have m1: "mem2 ! 1 \<noteq> ISO_space"
  proof -
    have "path ! 1 \<in> set path" using assms(9) by (intro nth_mem) simp
    then have "path ! 1 \<noteq> ISO_space" using assms(6) by auto
    then show ?thesis using assms(9) by (subst split) (simp add: nth_append)
  qed
  have "mem2[psock_datalen s2 - 1 := 0] = ?target @ 0 # drop (length ?tok) mem2"
    unfolding dl by (subst (1) split) (simp add: list_update_append)
  moreover have "0 \<notin> set ?target" using assms(7) by (simp add: ISO_question_def)
  ultimately have str: "c_string (mem2[psock_datalen s2 - 1 := 0]) = Some ?target"
    using c_string_terminated by metis
  have "takeWhile (\<lambda>x. x \<noteq> ISO_question) ?target = path" using assms(8) by (rule takeWhile_absent)
  then have "in_parse ?h = None"
    using m1 str assms(9) arr(3) by (simp add: in_parse_def Let_def strcpy_def)
  then have "in_target ev (h\<lparr> hs_inputbuf := mem, hs_sin := s \<rparr>) = None"
    using r2(1) m0 by (simp add: in_target_def)
  then show ?thesis using r(1) m4 pt by (simp add: handle_input_def in_method_def)
qed

definition ex_conn :: "unit httpd_state" where
  "ex_conn = \<lparr> hs_timer = 0, hs_sin = ex_psock, hs_sout = ex_psock, hs_sinpt = IN_INIT, hs_soutpt = SOUT_INIT, hs_outputpt = OUT_INIT,
     hs_scriptpt = SCR_INIT, hs_inputbuf = replicate 50 0, hs_filename = replicate 20 0, hs_state = STATE_WAITING, hs_data = 0,
     hs_flen = 0, hs_len = 0, hs_scriptptr = 0, hs_scriptlen = 0, hs_ripaddr = (0, 0), hs_L = None, hs_nr = 0, hs_new_pht = False,
     hs_params = replicate 30 0, hs_wbuf = 0x20001000, hs_wlen = 0 \<rparr>"

definition ex_data :: "u8 list \<Rightarrow> uip_ev" where
  "ex_data d = \<lparr> ev_newdata = True, ev_acked = False, ev_rexmit = False, ev_data = d, ev_mss = 536 \<rparr>"

lemma ex_fresh: "in_fresh ex_conn"
  by (simp add: in_fresh_def in_arrays_def ex_conn_def ex_psock_def)

text \<open>The request \<open>GET /a.pht?x=1 \<close> in two segments with a poll in between.\<close>

lemma request_parsed_witness:
  "\<exists>h'. in_run [ex_data [0x47, 0x45, 0x54, 0x20, 0x2F, 0x61], ex_ev, ex_data [0x2E, 0x70, 0x3F, 0x78, 0x3D, 0x31, 0x20, 0x48]] ex_conn = Some (h', False)
    \<and> hs_state h' = STATE_OUTPUT
    \<and> c_string (hs_filename h') = Some (target_path ([0x2F, 0x61, 0x2E, 0x70, 0x3F, 0x78, 0x3D, 0x31] @ [ISO_space]))
    \<and> (case target_query ([0x2F, 0x61, 0x2E, 0x70, 0x3F, 0x78, 0x3D, 0x31] @ [ISO_space]) of None \<Rightarrow> hs_params h' = hs_params ex_conn
        | Some q \<Rightarrow> c_string (hs_params h') = Some q)"
  by (rule request_parsed [OF ex_fresh, where rest = "[0x48]"])
    (simp_all add: ev_bytes_def ex_data_def ex_ev_def http_get_def ISO_space_def ISO_slash_def target_fits_def target_path_def
      target_query_def ISO_question_def)

lemma long_path_overflows_witness:
  "handle_input (ex_data (http_get @ ((ISO_slash # replicate 19 0x61) @ ISO_question # []) @ ISO_space # [])) ex_conn = None"
  by (rule long_path_overflows [OF ex_fresh, where path = "ISO_slash # replicate 19 0x61" and query = "[]" and rest = "[]"])
    (simp_all add: ex_data_def ISO_space_def ISO_slash_def ISO_question_def)

end
