(* ===== verification/HttpdScript.thy ===== *)
theory HttpdScript
  imports Httpd
begin

text \<open>
  Running Lua scripts for a page: the request parameters (\<open>http_run_elua\<close> of
  \<open>src/webserver/httpd.c\<close>) and the device that collects the output (\<open>uip_write\<close> of
  \<open>src/newlib/genstd.c\<close>).

  The interpreter is a parameter: opening one, the accesses to the parameter table, and running a
  chunk, which gives the byte strings it writes to the standard output. The slots of its stack that a
  run leaves behind (the table, when the request has no parameters) are not modelled, nor is the
  \<open>lua_pop\<close> from the empty stack of a new interpreter.
\<close>

section \<open>Request parameters\<close>

definition CH_PLUS :: u8 where "CH_PLUS = 0x2B"
definition CH_EQ :: u8 where "CH_EQ = 0x3D"
definition CH_AMP :: u8 where "CH_AMP = 0x26"

definition PARAM_STR_SIZE :: nat where "PARAM_STR_SIZE = 20"

text \<open>
  \<open>PAR_OVERFLOW\<close> is a write behind \<open>str\<close> or a read behind \<open>http_params\<close>,
  \<open>PAR_LUA\<close> is \<open>lua_settable\<close> on a string, an error outside any protected call.
\<close>

datatype par_err = PAR_OVERFLOW | PAR_LUA

definition push_str :: "u8 list \<Rightarrow> nat \<Rightarrow> u8 list" where
  "push_str str c = takeWhile (\<lambda>x. x \<noteq> 0) (take c str)"

text \<open>
  The loop over \<open>http_params\<close>, from the bytes still to come: \<open>st\<close> are the strings pushed
  since the table, \<open>acc\<close> the fields set so far. \<open>c\<close> is the index after \<open>c++\<close>.
\<close>

fun par_loop :: "u8 list \<Rightarrow> u8 list \<Rightarrow> nat \<Rightarrow> bool \<Rightarrow> u8 list list \<Rightarrow> (u8 list \<times> u8 list) list
    \<Rightarrow> par_err + (u8 list \<times> u8 list) list" where
  "par_loop [] str c pair st acc = Inr acc"
| "par_loop (x # xs) str c pair st acc =
     (if length str \<le> c then Inl PAR_OVERFLOW
      else
        let str = str[c := if x = CH_PLUS then ISO_space else x] in
        if x = CH_EQ \<and> xs = [] then Inl PAR_OVERFLOW
        else if x = CH_EQ \<and> hd xs \<noteq> 0 then par_loop xs (str[c := 0]) 0 True (st @ [push_str str c]) acc
        else if x = 0 \<and> pair then
          (case st of [k] \<Rightarrow> Inr (acc @ [(k, push_str str c)]) | _ \<Rightarrow> Inl PAR_LUA)
        else if x = CH_AMP \<and> pair then
          (case st of [k] \<Rightarrow> par_loop xs (str[c := 0]) 0 False [] (acc @ [(k, push_str str c)]) | _ \<Rightarrow> Inl PAR_LUA)
        else par_loop xs str (c + 1) pair st acc)"

text \<open>\<open>str\<close> is on the stack of the C function: its first contents are arbitrary.\<close>

definition par_parse :: "u8 list \<Rightarrow> u8 list \<Rightarrow> par_err + (u8 list \<times> u8 list) list" where
  "par_parse str params = (if params ! 0 = 0 then Inr [] else par_loop params str 0 False [] [])"

section \<open>Script output\<close>

definition WRITE_BUFFER_SIZE :: nat where "WRITE_BUFFER_SIZE = 1024"

text \<open>\<open>for( i = 0; i < len; i ++ )\<close>, where a newline shortens \<open>len\<close>.\<close>

function uip_write_loop :: "u8 list \<Rightarrow> u32 \<Rightarrow> nat \<Rightarrow> nat \<Rightarrow> mem \<Rightarrow> mem \<times> nat" where
  "uip_write_loop bs base i len m =
     (if i < len then
        (if bs ! i \<noteq> ISO_nl then uip_write_loop bs base (i + 1) len (m(base + of_nat i := bs ! i))
         else uip_write_loop bs base (i + 1) (len - 1) m)
      else (m, len))"
  by pat_completeness auto
termination by (relation "measure (\<lambda>(bs, base, i, len, m). len - i)") auto

declare uip_write_loop.simps [simp del]

text \<open>
  Writing to the standard output while \<open>h\<close> is the current connection: the result is the
  length, the memory and the new \<open>write_buffer_len\<close>. The \<open>assert\<close> is compiled out; a write
  behind the buffer is \<open>None\<close>.
\<close>

definition uip_write :: "u8 list \<Rightarrow> 'L httpd_state \<Rightarrow> mem \<Rightarrow> (nat \<times> mem \<times> 'L httpd_state) option" where
  "uip_write bs h m =
     (if WRITE_BUFFER_SIZE < unat (hs_wlen h) + length bs then None
      else
        let (m, len) = uip_write_loop bs (hs_wbuf h + hs_wlen h) 0 (length bs) m
        in Some (len, m, h\<lparr> hs_wlen := hs_wlen h + of_nat len \<rparr>))"

fun uip_writes :: "u8 list list \<Rightarrow> 'L httpd_state \<Rightarrow> mem \<Rightarrow> (mem \<times> 'L httpd_state) option" where
  "uip_writes [] h m = Some (m, h)"
| "uip_writes (bs # bss) h m =
     (case uip_write bs h m of None \<Rightarrow> None | Some (len, m, h) \<Rightarrow> uip_writes bss h m)"

section \<open>Running a chunk\<close>

text \<open>
  \<open>lua_getn\<close> is the length of the parameter table, if the global still is a table, \<open>lua_movei\<close> copies one of its elements to another index,
  \<open>lua_first\<close> is a reference to its first element and \<open>lua_setin\<close> sets a field of a referenced value, which
  is an error if that is no table.
\<close>

record 'L lua_api =
  lua_open :: "'L option"
  lua_getn :: "'L \<Rightarrow> nat option"
  lua_first :: "'L \<Rightarrow> nat"
  lua_movei :: "nat \<Rightarrow> nat \<Rightarrow> 'L \<Rightarrow> 'L"
  lua_setparam :: "u8 list \<times> u8 list \<Rightarrow> 'L \<Rightarrow> 'L"
  lua_setin :: "nat \<Rightarrow> u8 list \<times> u8 list \<Rightarrow> 'L \<Rightarrow> 'L option"
  lua_chunk :: "u8 list \<Rightarrow> 'L \<Rightarrow> 'L \<times> u8 list list"

text \<open>
  Where the parameters go: to the table; but when a script has put elements into it, the first element
  is on top of the stack, and the parameters are set in that. The elements move down, except the last.
  \<open>None\<close> is an error outside any protected call, as for a global that is no table.
\<close>

definition http_set_params :: "'L lua_api \<Rightarrow> (u8 list \<times> u8 list) list \<Rightarrow> 'L \<Rightarrow> 'L option" where
  "http_set_params A ps L =
     (case lua_getn A L of
        None \<Rightarrow> None
      | Some c \<Rightarrow>
          if 0 < c then
            let e = lua_first A L; L = fold (\<lambda>i. lua_movei A i (i - 1)) [2..<c] L
            in fold (\<lambda>p r. Option.bind r (lua_setin A e p)) ps (Some L)
          else Some (fold (lua_setparam A) ps L))"

text \<open>
  \<open>http_run_elua\<close>: a new page closes the old interpreter, a missing one is opened, the parameters
  are set, the chunk of \<open>len\<close> bytes at \<open>data\<close> runs. Without memory for an interpreter nothing
  runs. \<open>str\<close> are the initial contents of the local buffer.
\<close>

definition http_run_elua ::
    "'L lua_api \<Rightarrow> u8 list \<Rightarrow> u32 \<Rightarrow> u32 \<Rightarrow> mem \<Rightarrow> 'L httpd_state \<Rightarrow> (mem \<times> 'L httpd_state) option" where
  "http_run_elua A str data len m h =
     (let h = h\<lparr> hs_wlen := 0 \<rparr>;
          h = (if hs_new_pht h \<and> hs_L h \<noteq> None then h\<lparr> hs_L := None, hs_new_pht := False \<rparr> else h);
          h = (if hs_L h = None then h\<lparr> hs_L := lua_open A \<rparr> else h)
      in case hs_L h of
           None \<Rightarrow> Some (m, h)
         | Some L \<Rightarrow>
             (case par_parse str (hs_params h) of
                Inl e \<Rightarrow> None
              | Inr ps \<Rightarrow>
                  (case http_set_params A ps L of
                     None \<Rightarrow> None
                   | Some L \<Rightarrow>
                       (let (L, out) = lua_chunk A (mem_read m data (unat len)) L
                        in uip_writes out (h\<lparr> hs_L := Some L \<rparr>) m))))"

section \<open>Form encoding\<close>

text \<open>The query string of a form: \<open>k=v\<close> pairs joined by \<open>&\<close>, blanks as \<open>+\<close>.\<close>

definition form_byte :: "u8 \<Rightarrow> u8" where
  "form_byte b = (if b = ISO_space then CH_PLUS else b)"

fun form_encode :: "(u8 list \<times> u8 list) list \<Rightarrow> u8 list" where
  "form_encode [] = []"
| "form_encode [(k, v)] = map form_byte k @ CH_EQ # map form_byte v"
| "form_encode ((k, v) # p # ps) = map form_byte k @ CH_EQ # map form_byte v @ CH_AMP # form_encode (p # ps)"

definition form_ok :: "u8 list \<Rightarrow> bool" where
  "form_ok b \<longleftrightarrow> length b < PARAM_STR_SIZE \<and> 0 \<notin> set b \<and> CH_EQ \<notin> set b \<and> CH_AMP \<notin> set b \<and> CH_PLUS \<notin> set b"

text \<open>A run of ordinary bytes is copied, with \<open>+\<close> as a blank.\<close>

lemma par_loop_copy:
  assumes "0 \<notin> set bs" "CH_EQ \<notin> set bs" "CH_AMP \<notin> set bs" "CH_PLUS \<notin> set bs" "c + length bs < length str" "xs \<noteq> []"
  shows "\<exists>str'. par_loop (map form_byte bs @ xs) str c pair st acc = par_loop xs str' (c + length bs) pair st acc
    \<and> length str' = length str \<and> take (c + length bs) str' = take c str @ bs"
  using assms
proof (induction bs arbitrary: c str)
  case (Cons b bs)
  have ne: "form_byte b \<noteq> CH_EQ" "form_byte b \<noteq> 0" "form_byte b \<noteq> CH_AMP" "(if form_byte b = CH_PLUS then ISO_space else form_byte b) = b"
    using Cons.prems(1-4) by (auto simp: form_byte_def CH_PLUS_def CH_EQ_def CH_AMP_def ISO_space_def)
  have "\<exists>str'. par_loop (map form_byte bs @ xs) (str[c := b]) (c + 1) pair st acc = par_loop xs str' (c + 1 + length bs) pair st acc
    \<and> length str' = length (str[c := b]) \<and> take (c + 1 + length bs) str' = take (c + 1) (str[c := b]) @ bs"
    by (rule Cons.IH) (use Cons.prems in auto)
  moreover have "take (c + 1) (str[c := b]) = take c str @ [b]"
    using Cons.prems(5) by (simp add: take_Suc_conv_app_nth)
  ultimately show ?case using ne Cons.prems(5) by (auto simp: Let_def)
qed auto

lemma push_str_eq: "take c str = bs \<Longrightarrow> 0 \<notin> set bs \<Longrightarrow> push_str str c = bs"
  by (auto simp: push_str_def)

lemma push_str_update: "push_str (str[c := x]) c = push_str str c"
  by (simp add: push_str_def)

lemma par_loop_pair:
  assumes "form_ok k" "form_ok v" "length str = PARAM_STR_SIZE" "xs \<noteq> []" "hd xs \<noteq> CH_EQ"
    and "v = [] \<longrightarrow> hd xs \<noteq> 0"
  shows "\<exists>str'. par_loop (map form_byte k @ CH_EQ # map form_byte v @ xs) str 0 False [] acc = par_loop xs str' (length v) True [k] acc
    \<and> length str' = PARAM_STR_SIZE \<and> take (length v) str' = v"
proof -
  obtain s1 where s1: "par_loop (map form_byte k @ CH_EQ # map form_byte v @ xs) str 0 False [] acc
      = par_loop (CH_EQ # map form_byte v @ xs) s1 (length k) False [] acc" "length s1 = length str" "take (length k) s1 = k"
    using par_loop_copy [of k 0 str "CH_EQ # map form_byte v @ xs" False "[]" acc] assms(1,3) by (auto simp: form_ok_def)
  let ?s2 = "s1[length k := CH_EQ, length k := 0]"
  have "map form_byte v @ xs \<noteq> []" "hd (map form_byte v @ xs) \<noteq> 0"
    using assms(2,4,6) by (cases v; auto simp: form_ok_def form_byte_def CH_PLUS_def)+
  moreover have "push_str (s1[length k := CH_EQ]) (length k) = k"
    using s1(3) assms(1) by (simp add: push_str_update push_str_eq form_ok_def)
  ultimately have "par_loop (CH_EQ # map form_byte v @ xs) s1 (length k) False [] acc = par_loop (map form_byte v @ xs) ?s2 0 True [k] acc"
    using s1(2) assms(1,3) by (simp add: form_ok_def CH_EQ_def CH_PLUS_def Let_def)
  moreover have "\<exists>str'. par_loop (map form_byte v @ xs) ?s2 0 True [k] acc = par_loop xs str' (0 + length v) True [k] acc
    \<and> length str' = length ?s2 \<and> take (0 + length v) str' = take 0 ?s2 @ v"
    by (rule par_loop_copy) (use assms s1(2) in \<open>auto simp: form_ok_def\<close>)
  ultimately show ?thesis using s1 assms(3) by auto
qed

lemma par_loop_form:
  assumes "ps \<noteq> []" "\<forall>(k, v) \<in> set ps. form_ok k \<and> form_ok v" "snd (last ps) \<noteq> []" "length str = PARAM_STR_SIZE"
  shows "par_loop (form_encode ps @ 0 # rest) str 0 False [] acc = Inr (acc @ ps)"
  using assms
proof (induction ps arbitrary: str acc rule: form_encode.induct)
  case (2 k v)
  obtain s where s: "par_loop (map form_byte k @ CH_EQ # map form_byte v @ 0 # rest) str 0 False [] acc = par_loop (0 # rest) s (length v) True [k] acc"
    "length s = PARAM_STR_SIZE" "take (length v) s = v"
    using par_loop_pair [of k v str "0 # rest" acc] 2 by (auto simp: CH_EQ_def)
  have "push_str (s[length v := 0]) (length v) = v" using s(3) 2 by (simp add: push_str_update push_str_eq form_ok_def)
  then have "par_loop (0 # rest) s (length v) True [k] acc = Inr (acc @ [(k, v)])"
    using s(2) 2 by (simp add: form_ok_def Let_def CH_EQ_def CH_PLUS_def)
  then show ?case using s(1) by simp
next
  case (3 k v p ps)
  let ?xs = "CH_AMP # form_encode (p # ps) @ 0 # rest"
  obtain s where s: "par_loop (map form_byte k @ CH_EQ # map form_byte v @ ?xs) str 0 False [] acc = par_loop ?xs s (length v) True [k] acc"
    "length s = PARAM_STR_SIZE" "take (length v) s = v"
    using par_loop_pair [of k v str ?xs acc] 3 by (auto simp: CH_EQ_def CH_AMP_def)
  have "push_str (s[length v := CH_AMP]) (length v) = v" using s(3) 3 by (simp add: push_str_update push_str_eq form_ok_def)
  then have "par_loop ?xs s (length v) True [k] acc
      = par_loop (form_encode (p # ps) @ 0 # rest) (s[length v := CH_AMP, length v := 0]) 0 False [] (acc @ [(k, v)])"
    using s(2) 3 by (simp add: form_ok_def Let_def CH_EQ_def CH_PLUS_def CH_AMP_def)
  also have "\<dots> = Inr ((acc @ [(k, v)]) @ p # ps)"
    by (rule 3(1)) (use 3 s(2) in auto)
  finally show ?case using s(1) by simp
qed simp

text \<open>
  C36: A form query is decoded to the pairs it was made from, in order, with \<open>+\<close> read as a
  blank, when names and values fit in the local buffer and hold no zero byte, \<open>=\<close>, \<open>&\<close> or \<open>+\<close>, and
  the last value is not empty. The code knows no \<open>%XX\<close>, so neither does the encoder: such bytes stay
  as they are.
\<close>

theorem form_query_roundtrip:
  assumes "ps \<noteq> []" "\<forall>(k, v) \<in> set ps. form_ok k \<and> form_ok v" "snd (last ps) \<noteq> []" "length str = PARAM_STR_SIZE"
  shows "par_parse str (form_encode ps @ 0 # rest) = Inr ps"
proof -
  have "(form_encode ps @ 0 # rest) ! 0 \<noteq> 0"
  proof (cases ps rule: form_encode.cases)
    case (2 k v)
    then show ?thesis using assms(2) by (cases k) (auto simp: form_ok_def form_byte_def CH_EQ_def CH_PLUS_def)
  next
    case (3 k v p ps)
    then show ?thesis using assms(2) by (cases k) (auto simp: form_ok_def form_byte_def CH_EQ_def CH_PLUS_def)
  qed (use assms(1) in simp)
  then show ?thesis using par_loop_form [OF assms, of rest "[]"] by (simp add: par_parse_def)
qed

lemma par_loop_overflow:
  assumes "CH_EQ \<notin> set params" "c \<le> length str" "length str < c + length params"
  shows "par_loop params str c False [] acc = Inl PAR_OVERFLOW"
  using assms
proof (induction params arbitrary: str c)
  case (Cons x xs)
  then show ?case by (auto simp: Let_def)
qed simp

text \<open>
  A query without \<open>=\<close> is copied past the end of the local buffer: the loop does not stop at
  the terminator of \<open>http_params\<close> and runs to the end of that longer array.
\<close>

lemma query_without_value_overflows:
  assumes "length params = 30" "params ! 0 \<noteq> 0" "CH_EQ \<notin> set params" "length str = PARAM_STR_SIZE"
  shows "par_parse str params = Inl PAR_OVERFLOW"
  using assms by (simp add: par_parse_def par_loop_overflow PARAM_STR_SIZE_def)

section \<open>Collecting the output\<close>

lemma uip_write_loop_plain:
  assumes "ISO_nl \<notin> set (drop i (take len bs))" "len \<le> length bs"
  shows "uip_write_loop bs base i len m = (mem_write m (base + of_nat i) (drop i (take len bs)), len)"
  using assms
proof (induction bs base i len m rule: uip_write_loop.induct)
  case (1 bs base i len m)
  show ?case
  proof (cases "i < len")
    case True
    then have dr: "drop i (take len bs) = bs ! i # drop (i + 1) (take len bs)"
      using 1(4) by (simp add: Cons_nth_drop_Suc [symmetric])
    then have ne: "bs ! i \<noteq> ISO_nl" "ISO_nl \<notin> set (drop (i + 1) (take len bs))" using 1(3) by auto
    from 1(1) [OF True ne(1) ne(2) 1(4)] show ?thesis
      using True ne(1) by (subst uip_write_loop.simps) (simp add: dr algebra_simps fun_upd_def)
  next
    case False
    then show ?thesis by (subst uip_write_loop.simps) simp
  qed
qed

lemma uip_write_loop_skip:
  assumes "bs = a @ ISO_nl # b" "ISO_nl \<notin> set a" "ISO_nl \<notin> set b" "b \<noteq> []" "i \<le> length a"
  shows "uip_write_loop bs base i (length bs) m
    = (mem_write (mem_write m (base + of_nat i) (drop i a)) (base + of_nat (length a + 1)) (butlast b), length a + length b)"
  using assms(5)
proof (induction "length a - i" arbitrary: i m)
  case 0
  then have i: "i = length a" by simp
  let ?n = "length a + length b"
  have bl: "drop (length a + 1) (take ?n bs) = butlast b"
    using assms(4) by (cases b rule: rev_cases) (simp_all add: assms(1))
  have "uip_write_loop bs base i (length bs) m = uip_write_loop bs base (length a + 1) ?n m"
    by (subst uip_write_loop.simps) (simp add: assms(1) i)
  also have "\<dots> = (mem_write m (base + of_nat (length a + 1)) (drop (length a + 1) (take ?n bs)), ?n)"
    by (rule uip_write_loop_plain) (use assms(1,3) bl in \<open>auto dest: in_set_butlastD\<close>)
  finally show ?case unfolding bl by (simp add: i)
next
  case (Suc k)
  then have i: "i < length a" by simp
  then have "a ! i \<noteq> ISO_nl" using assms(2) by (metis nth_mem)
  then have "uip_write_loop bs base i (length bs) m = uip_write_loop bs base (i + 1) (length bs) (m(base + of_nat i := a ! i))"
    using i by (subst uip_write_loop.simps) (simp add: assms(1) nth_append)
  also have "\<dots> = (mem_write (mem_write (m(base + of_nat i := a ! i)) (base + of_nat (i + 1)) (drop (i + 1) a)) (base + of_nat (length a + 1)) (butlast b),
      length a + length b)"
    using Suc(2) i by (intro Suc(1)) simp_all
  also have "mem_write (m(base + of_nat i := a ! i)) (base + of_nat (i + 1)) (drop (i + 1) a) = mem_write m (base + of_nat i) (drop i a)"
    using i by (simp add: Cons_nth_drop_Suc [symmetric] algebra_simps)
  finally show ?case .
qed

text \<open>Writing behind a block leaves the block as it is.\<close>

lemma mem_write_same: "mem_write m p (mem_read m p n) = m"
  by (induction m p n rule: mem_read.induct) simp_all

lemma mem_write_behind: "mem_write m (p + of_nat n) xs = mem_write m p (mem_read m p n @ xs)"
  by (simp add: mem_write_append mem_write_same)

lemma mem_read_write: "length xs \<le> 4294967296 \<Longrightarrow> mem_read (mem_write m p xs) p (length xs) = xs"
  using mem_at_write [of xs m p] by (simp add: mem_at_read)

text \<open>
  Output without newlines is appended to what the script has written so far, byte for byte.
\<close>

lemma uip_write_appends:
  assumes "ISO_nl \<notin> set bs" "unat (hs_wlen h) + length bs \<le> WRITE_BUFFER_SIZE"
  shows "\<exists>m' h'. uip_write bs h m = Some (length bs, m', h')
    \<and> mem_read m' (hs_wbuf h') (unat (hs_wlen h')) = mem_read m (hs_wbuf h) (unat (hs_wlen h)) @ bs"
proof -
  let ?n = "unat (hs_wlen h)"
  let ?m = "mem_write m (hs_wbuf h + hs_wlen h) bs"
  have len: "unat (hs_wlen h + of_nat (length bs)) = ?n + length bs"
    using assms(2) by (simp add: unat_word_ariths unat_of_nat_small WRITE_BUFFER_SIZE_def)
  have "uip_write bs h m = Some (length bs, ?m, h\<lparr> hs_wlen := hs_wlen h + of_nat (length bs) \<rparr>)"
    using assms uip_write_loop_plain [of 0 "length bs" bs "hs_wbuf h + hs_wlen h" m] by (simp add: uip_write_def)
  moreover have "?m = mem_write m (hs_wbuf h) (mem_read m (hs_wbuf h) ?n @ bs)"
    using mem_write_behind [of m "hs_wbuf h" ?n bs] by simp
  ultimately show ?thesis
    using mem_read_write [of "mem_read m (hs_wbuf h) ?n @ bs" m "hs_wbuf h"] assms(2)
    by (simp add: len WRITE_BUFFER_SIZE_def)
qed

text \<open>
  A newline inside the output is not removed cleanly: its place in the buffer keeps an old byte
  and the last byte of the output is lost, since the newline shortens the length of the copy.
\<close>

lemma uip_write_newline_garbles:
  assumes "ISO_nl \<notin> set a" "ISO_nl \<notin> set b" "b \<noteq> []" "unat (hs_wlen h) + length a + length b < WRITE_BUFFER_SIZE"
  shows "\<exists>m' h'. uip_write (a @ ISO_nl # b) h m = Some (length a + length b, m', h')
    \<and> mem_read m' (hs_wbuf h') (unat (hs_wlen h'))
      = mem_read m (hs_wbuf h) (unat (hs_wlen h)) @ a @ m (hs_wbuf h + hs_wlen h + of_nat (length a)) # butlast b"
proof -
  let ?n = "unat (hs_wlen h)"
  let ?p = "hs_wbuf h + hs_wlen h"
  let ?x = "m (?p + of_nat (length a))"
  let ?m = "mem_write (mem_write m ?p a) (?p + of_nat (length a + 1)) (butlast b)"
  have len: "unat (hs_wlen h + of_nat (length a + length b)) = ?n + (length a + length b)"
    using assms(4) by (simp add: unat_word_ariths unat_of_nat_small WRITE_BUFFER_SIZE_def del: of_nat_add)
  have "uip_write (a @ ISO_nl # b) h m = Some (length a + length b, ?m, h\<lparr> hs_wlen := hs_wlen h + of_nat (length a + length b) \<rparr>)"
    using assms uip_write_loop_skip [OF refl assms(1-3), of 0 ?p m] by (simp add: uip_write_def del: of_nat_add)
  moreover have "?m = mem_write m (hs_wbuf h) (mem_read m (hs_wbuf h) ?n @ a @ ?x # butlast b)"
  proof -
    have "(mem_write m ?p a) (?p + of_nat (length a)) = ?x"
      using assms(4) by (simp add: mem_write_apply off_from_offset WRITE_BUFFER_SIZE_def)
    then have "(mem_write m ?p a)(?p + of_nat (length a) := ?x) = mem_write m ?p a" by (metis fun_upd_triv)
    then have "?m = mem_write m ?p (a @ ?x # butlast b)"
      by (simp add: mem_write_append algebra_simps)
    then show ?thesis using mem_write_behind [of m "hs_wbuf h" ?n "a @ ?x # butlast b"] by simp
  qed
  moreover have "length (mem_read m (hs_wbuf h) ?n @ a @ ?x # butlast b) = ?n + (length a + length b)"
    using assms(3) by simp
  ultimately show ?thesis
    using mem_read_write [of "mem_read m (hs_wbuf h) ?n @ a @ ?x # butlast b" m "hs_wbuf h"] assms(4) len
    by (simp add: WRITE_BUFFER_SIZE_def del: of_nat_add)
qed

section \<open>The interpreter of a page\<close>

text \<open>
  On the first page of a client every script block runs in an interpreter of its own: the
  first block opens one, and since the flag for a new page is only reset when there was one before,
  the second block closes it and starts from a fresh one.
\<close>

lemma first_page_runs_each_block_afresh:
  assumes "lua_open A = Some L0" "lua_getn A L0 = Some 0" "hs_L h = None" "hs_new_pht h" "hs_params h ! 0 = 0"
    and "snd (lua_chunk A (mem_read m d1 (unat n1)) L0) = []"
    and "snd (lua_chunk A (mem_read m d2 (unat n2)) L0) = []"
  shows "\<exists>h1 h2. http_run_elua A str1 d1 n1 m h = Some (m, h1) \<and> hs_L h1 = Some (fst (lua_chunk A (mem_read m d1 (unat n1)) L0))
    \<and> http_run_elua A str2 d2 n2 m h1 = Some (m, h2) \<and> hs_L h2 = Some (fst (lua_chunk A (mem_read m d2 (unat n2)) L0))"
  using assms by (simp add: http_run_elua_def http_set_params_def par_parse_def Let_def split_beta)

text \<open>On later pages the flag is reset and the blocks of a page share one interpreter.\<close>

lemma later_blocks_share:
  assumes "\<not> hs_new_pht h" "hs_L h = Some L" "lua_getn A L = Some 0" "hs_params h ! 0 = 0" "snd (lua_chunk A (mem_read m d (unat n)) L) = []"
  shows "http_run_elua A str d n m h = Some (m, h\<lparr> hs_wlen := 0, hs_L := Some (fst (lua_chunk A (mem_read m d (unat n)) L)) \<rparr>)"
  using assms by (simp add: http_run_elua_def http_set_params_def par_parse_def Let_def split_beta)

text \<open>
  A script that leaves a string at index 1 of the table makes the next request with a parameter raise
  an error outside any protected call.
\<close>

lemma element_catches_parameters:
  assumes "lua_getn A L = Some c" "0 < c" "\<And>p L'. lua_setin A (lua_first A L) p L' = None"
  shows "http_set_params A (p # ps) L = None"
proof -
  have "fold (\<lambda>p r. Option.bind r (lua_setin A e p)) ps None = None" for e by (induction ps) simp_all
  then show ?thesis using assms by (simp add: http_set_params_def Let_def)
qed

definition ex_api :: "nat lua_api" where
  "ex_api = \<lparr> lua_open = Some 0, lua_getn = (\<lambda>_. Some 0), lua_first = (\<lambda>_. 0), lua_movei = (\<lambda>_ _ L. L),
     lua_setparam = (\<lambda>_ L. L), lua_setin = (\<lambda>_ _ _. None), lua_chunk = (\<lambda>c L. (L + length c, [])) \<rparr>"

definition ex_page_conn :: "nat httpd_state" where
  "ex_page_conn = \<lparr> hs_timer = 0, hs_sin = ex_psock, hs_sout = ex_psock, hs_sinpt = IN_HEADER, hs_soutpt = SOUT_INIT,
     hs_outputpt = OUT_INIT, hs_scriptpt = SCR_INIT, hs_inputbuf = replicate 50 0, hs_filename = replicate 20 0,
     hs_state = STATE_OUTPUT, hs_data = 0, hs_flen = 0, hs_len = 0, hs_scriptptr = 0, hs_scriptlen = 0, hs_ripaddr = (0, 0),
     hs_L = None, hs_nr = 0, hs_new_pht = True, hs_params = replicate 30 0, hs_wbuf = 0x20001000, hs_wlen = 0 \<rparr>"

lemma first_page_witness:
  "\<exists>h1 h2. http_run_elua ex_api [] 0 3 (\<lambda>_. 0) ex_page_conn = Some (\<lambda>_. 0, h1)
    \<and> hs_L h1 = Some (fst (lua_chunk ex_api (mem_read (\<lambda>_. 0) 0 (unat (3 :: u32))) 0))
    \<and> http_run_elua ex_api [] 8 4 (\<lambda>_. 0) h1 = Some (\<lambda>_. 0, h2)
    \<and> hs_L h2 = Some (fst (lua_chunk ex_api (mem_read (\<lambda>_. 0) 8 (unat (4 :: u32))) 0))"
  by (rule first_page_runs_each_block_afresh) (simp_all add: ex_api_def ex_page_conn_def)

lemma form_query_roundtrip_witness:
  "par_parse (replicate 20 0) (form_encode [([0x61], [0x31, 0x20]), ([0x62, 0x63], [0x32])] @ 0 # [])
    = Inr [([0x61], [0x31, 0x20]), ([0x62, 0x63], [0x32])]"
  by (rule form_query_roundtrip) (simp_all add: form_ok_def PARAM_STR_SIZE_def CH_EQ_def CH_AMP_def CH_PLUS_def)

lemma query_without_value_witness:
  "par_parse (replicate 20 0) (replicate 5 0x61 @ replicate 25 0) = Inl PAR_OVERFLOW"
  by (rule query_without_value_overflows) (simp_all add: CH_EQ_def PARAM_STR_SIZE_def nth_append)

lemma uip_write_appends_witness:
  "\<exists>m' h'. uip_write [0x61, 0x62] ex_page_conn (\<lambda>_. 0) = Some (length [0x61 :: u8, 0x62], m', h')
    \<and> mem_read m' (hs_wbuf h') (unat (hs_wlen h')) = mem_read (\<lambda>_. 0) (hs_wbuf ex_page_conn) (unat (hs_wlen ex_page_conn)) @ [0x61, 0x62]"
  by (rule uip_write_appends) (simp_all add: ISO_nl_def ex_page_conn_def WRITE_BUFFER_SIZE_def)

lemma uip_write_newline_witness:
  "\<exists>m' h'. uip_write ([0x61] @ ISO_nl # [0x62]) ex_page_conn (\<lambda>_. 0xFF) = Some (length [0x61 :: u8] + length [0x62 :: u8], m', h')
    \<and> mem_read m' (hs_wbuf h') (unat (hs_wlen h'))
      = mem_read (\<lambda>_. 0xFF) (hs_wbuf ex_page_conn) (unat (hs_wlen ex_page_conn)) @ [0x61]
        @ (\<lambda>_. 0xFF) (hs_wbuf ex_page_conn + hs_wlen ex_page_conn + of_nat (length [0x61 :: u8])) # butlast [0x62]"
  by (rule uip_write_newline_garbles) (simp_all add: ISO_nl_def ex_page_conn_def WRITE_BUFFER_SIZE_def)

end
