(* ===== verification/HttpdOut.thy ===== *)
theory HttpdOut
  imports HttpdScript Devman
begin

text \<open>
  The output side of the web server: \<open>src/webserver/httpd-fs.c\<close>, which reads a page from the
  card into the one large buffer, and the protothreads of \<open>httpd.c\<close> that send the headers, a
  static file, the output of a script or a page with embedded script tags.

  A world is a connection, the memory, the file buffers and what the current event hands to uIP. The
  card, the Lua interface, the place of the string constants and of \<open>uip_appdata\<close> are the
  parameters \<open>web_env\<close>. Messages to the console are left out.
\<close>

section \<open>Constants\<close>

definition http_404_html :: "u8 list" where
  "http_404_html = [0x2F, 0x34, 0x30, 0x34, 0x2E, 0x68, 0x74, 0x6D, 0x6C]"

definition http_header_200 :: "u8 list" where
  "http_header_200 = [0x48, 0x54, 0x54, 0x50, 0x2F, 0x31, 0x2E, 0x30, 0x20, 0x32, 0x30, 0x30, 0x20, 0x4F,
     0x4B, 0x0D, 0x0A, 0x53, 0x65, 0x72, 0x76, 0x65, 0x72, 0x3A, 0x20, 0x75, 0x49, 0x50, 0x2F, 0x31, 0x2E,
     0x30, 0x20, 0x68, 0x74, 0x74, 0x70, 0x3A, 0x2F, 0x2F, 0x77, 0x77, 0x77, 0x2E, 0x73, 0x69, 0x63, 0x73,
     0x2E, 0x73, 0x65, 0x2F, 0x7E, 0x61, 0x64, 0x61, 0x6D, 0x2F, 0x75, 0x69, 0x70, 0x2F, 0x0D, 0x0A, 0x43,
     0x6F, 0x6E, 0x6E, 0x65, 0x63, 0x74, 0x69, 0x6F, 0x6E, 0x3A, 0x20, 0x63, 0x6C, 0x6F, 0x73, 0x65, 0x0D,
     0x0A]"

definition http_header_404 :: "u8 list" where
  "http_header_404 = [0x48, 0x54, 0x54, 0x50, 0x2F, 0x31, 0x2E, 0x30, 0x20, 0x34, 0x30, 0x34, 0x20, 0x4E,
     0x6F, 0x74, 0x20, 0x66, 0x6F, 0x75, 0x6E, 0x64, 0x0D, 0x0A, 0x53, 0x65, 0x72, 0x76, 0x65, 0x72, 0x3A,
     0x20, 0x75, 0x49, 0x50, 0x2F, 0x31, 0x2E, 0x30, 0x20, 0x68, 0x74, 0x74, 0x70, 0x3A, 0x2F, 0x2F, 0x77,
     0x77, 0x77, 0x2E, 0x73, 0x69, 0x63, 0x73, 0x2E, 0x73, 0x65, 0x2F, 0x7E, 0x61, 0x64, 0x61, 0x6D, 0x2F,
     0x75, 0x69, 0x70, 0x2F, 0x0D, 0x0A, 0x43, 0x6F, 0x6E, 0x6E, 0x65, 0x63, 0x74, 0x69, 0x6F, 0x6E, 0x3A,
     0x20, 0x63, 0x6C, 0x6F, 0x73, 0x65, 0x0D, 0x0A]"

definition http_content_type_plain :: "u8 list" where
  "http_content_type_plain = [0x43, 0x6F, 0x6E, 0x74, 0x65, 0x6E, 0x74, 0x2D, 0x74, 0x79, 0x70, 0x65, 0x3A,
     0x20, 0x74, 0x65, 0x78, 0x74, 0x2F, 0x70, 0x6C, 0x61, 0x69, 0x6E, 0x0D, 0x0A, 0x0D, 0x0A]"

definition http_content_type_html :: "u8 list" where
  "http_content_type_html = [0x43, 0x6F, 0x6E, 0x74, 0x65, 0x6E, 0x74, 0x2D, 0x74, 0x79, 0x70, 0x65, 0x3A,
     0x20, 0x74, 0x65, 0x78, 0x74, 0x2F, 0x68, 0x74, 0x6D, 0x6C, 0x0D, 0x0A, 0x0D, 0x0A]"

definition http_content_type_css :: "u8 list" where
  "http_content_type_css = [0x43, 0x6F, 0x6E, 0x74, 0x65, 0x6E, 0x74, 0x2D, 0x74, 0x79, 0x70, 0x65, 0x3A,
     0x20, 0x74, 0x65, 0x78, 0x74, 0x2F, 0x63, 0x73, 0x73, 0x0D, 0x0A, 0x0D, 0x0A]"

definition http_content_type_png :: "u8 list" where
  "http_content_type_png = [0x43, 0x6F, 0x6E, 0x74, 0x65, 0x6E, 0x74, 0x2D, 0x74, 0x79, 0x70, 0x65, 0x3A,
     0x20, 0x69, 0x6D, 0x61, 0x67, 0x65, 0x2F, 0x70, 0x6E, 0x67, 0x0D, 0x0A, 0x0D, 0x0A]"

definition http_content_type_gif :: "u8 list" where
  "http_content_type_gif = [0x43, 0x6F, 0x6E, 0x74, 0x65, 0x6E, 0x74, 0x2D, 0x74, 0x79, 0x70, 0x65, 0x3A,
     0x20, 0x69, 0x6D, 0x61, 0x67, 0x65, 0x2F, 0x67, 0x69, 0x66, 0x0D, 0x0A, 0x0D, 0x0A]"

definition http_content_type_jpg :: "u8 list" where
  "http_content_type_jpg = [0x43, 0x6F, 0x6E, 0x74, 0x65, 0x6E, 0x74, 0x2D, 0x74, 0x79, 0x70, 0x65, 0x3A,
     0x20, 0x69, 0x6D, 0x61, 0x67, 0x65, 0x2F, 0x6A, 0x70, 0x65, 0x67, 0x0D, 0x0A, 0x0D, 0x0A]"

definition http_content_type_binary :: "u8 list" where
  "http_content_type_binary = [0x43, 0x6F, 0x6E, 0x74, 0x65, 0x6E, 0x74, 0x2D, 0x74, 0x79, 0x70, 0x65, 0x3A,
     0x20, 0x61, 0x70, 0x70, 0x6C, 0x69, 0x63, 0x61, 0x74, 0x69, 0x6F, 0x6E, 0x2F, 0x6F, 0x63, 0x74, 0x65,
     0x74, 0x2D, 0x73, 0x74, 0x72, 0x65, 0x61, 0x6D, 0x0D, 0x0A, 0x0D, 0x0A]"

definition http_html :: "u8 list" where
  "http_html = [0x2E, 0x68, 0x74, 0x6D, 0x6C]"

definition http_pht :: "u8 list" where
  "http_pht = [0x2E, 0x70, 0x68, 0x74]"

definition http_lua :: "u8 list" where
  "http_lua = [0x2E, 0x6C, 0x75, 0x61]"

definition http_css :: "u8 list" where
  "http_css = [0x2E, 0x63, 0x73, 0x73]"

definition http_png :: "u8 list" where
  "http_png = [0x2E, 0x70, 0x6E, 0x67]"

definition http_gif :: "u8 list" where
  "http_gif = [0x2E, 0x67, 0x69, 0x66]"

definition http_jpg :: "u8 list" where
  "http_jpg = [0x2E, 0x6A, 0x70, 0x67]"

section \<open>The world\<close>

definition FILE_HUGE_SIZE :: nat where "FILE_HUGE_SIZE = 1024 * 300"
definition FILE_CACHE_SIZE :: nat where "FILE_CACHE_SIZE = 0"
definition FILE_NAME_MAX_SIZE :: nat where "FILE_NAME_MAX_SIZE = 10"
definition FILE_CACHE_NR :: nat where "FILE_CACHE_NR = 10"

definition FILE_NAME_PREFIX :: "u8 list" where "FILE_NAME_PREFIX = [0x2F, 0x6D, 0x6D, 0x63]"

record file_cache =
  fc_data :: u32
  fc_name :: "u8 list"
  fc_len :: nat

record file_fs =
  ff_huge :: u32
  ff_cache :: "file_cache list"   \<comment> \<open>\<open>FILE_CACHE_NR\<close> entries\<close>

text \<open>
  \<open>we_stat\<close> is \<open>None\<close> when \<open>_fstat_r\<close> fails, \<open>we_read f n\<close> are the bytes that
  \<open>fread\<close> of \<open>n\<close> gives, \<open>we_malloc n\<close> is an address or NULL, \<open>we_lit\<close> the
  address of a string constant, \<open>we_str\<close> the initial contents of the local buffer of
  \<open>http_run_elua\<close>.
\<close>

record ('L, 'f) web_env =
  we_api :: "'L lua_api"
  we_str :: "u8 list"
  we_open :: "u8 list \<Rightarrow> 'f option"
  we_stat :: "'f \<Rightarrow> nat option"
  we_read :: "'f \<Rightarrow> nat \<Rightarrow> u8 list"
  we_malloc :: "nat \<Rightarrow> nat \<Rightarrow> u32"
  we_lit :: "u8 list \<Rightarrow> u32"
  we_appdata :: u32

record 'L web =
  w_conn :: "'L httpd_state"
  w_mem :: mem
  w_fs :: file_fs
  w_out :: "u8 list"
  w_close :: bool

abbreviation upd_conn :: "('L httpd_state \<Rightarrow> 'L httpd_state) \<Rightarrow> 'L web \<Rightarrow> 'L web" where
  "upd_conn f W \<equiv> W\<lparr> w_conn := f (w_conn W) \<rparr>"

section \<open>Reading a page\<close>

text \<open>The \<open>k\<close>-th call of \<open>malloc\<close> in \<open>httpd_fs_int\<close> is \<open>we_malloc k\<close>.\<close>

fun fs_alloc_cache :: "('L, 'f) web_env \<Rightarrow> nat \<Rightarrow> nat \<Rightarrow> file_fs \<Rightarrow> bool \<times> file_fs" where
  "fs_alloc_cache E i 0 fs = (False, fs)"
| "fs_alloc_cache E i (Suc k) fs =
     (let p = we_malloc E (i + 1) FILE_CACHE_SIZE in
      if p = 0 then (True, fs\<lparr> ff_cache := (ff_cache fs)[i := (ff_cache fs ! i)\<lparr> fc_data := 0 \<rparr>] \<rparr>)
      else fs_alloc_cache E (i + 1) k
             (fs\<lparr> ff_cache := (ff_cache fs)[i := \<lparr> fc_data = p, fc_name = [], fc_len = 0 \<rparr>] \<rparr>))"

definition httpd_fs_int :: "('L, 'f) web_env \<Rightarrow> file_fs \<Rightarrow> bool \<times> file_fs" where
  "httpd_fs_int E fs =
     (if ff_huge fs \<noteq> 0 then (False, fs)
      else
        let p = we_malloc E 0 FILE_HUGE_SIZE in
        if p = 0 then (True, fs)
        else fs_alloc_cache E 0 FILE_CACHE_NR (fs\<lparr> ff_huge := p \<rparr>))"

definition httpd_fs_get_free_index :: "file_fs \<Rightarrow> nat option" where
  "httpd_fs_get_free_index fs = find (\<lambda>i. fc_len (ff_cache fs ! i) = 0) [0..<FILE_CACHE_NR]"

definition httpd_fs_search_name :: "u8 list \<Rightarrow> file_fs \<Rightarrow> nat option" where
  "httpd_fs_search_name name fs = find (\<lambda>i. fc_name (ff_cache fs ! i) = name) [0..<FILE_CACHE_NR]"

text \<open>
  \<open>httpd_fs_open\<close>: \<open>None\<close> when \<open>fullpath\<close>, a cache name or a data buffer is written behind its
  end. The boolean is the result; the file goes to the connection.
\<close>

definition fs_load :: "('L, 'f) web_env \<Rightarrow> 'f \<Rightarrow> nat \<Rightarrow> u32 \<Rightarrow> nat \<Rightarrow> 'L web \<Rightarrow> (bool \<times> 'L web) option" where
  "fs_load E f n p bufsize W =
     (let bs = we_read E f n in
      if bufsize < length bs then None
      else
        let W = W\<lparr> w_mem := mem_write (w_mem W) p bs \<rparr> in
        if length bs \<noteq> n then Some (False, W)
        else if bufsize \<le> n + 1 then None
        else Some (True, upd_conn (\<lambda>h. h\<lparr> hs_data := p \<rparr>) (W\<lparr> w_mem := (w_mem W)(p + of_nat (n + 1) := 0) \<rparr>)))"

definition httpd_fs_open :: "('L, 'f) web_env \<Rightarrow> u8 list \<Rightarrow> 'L web \<Rightarrow> (bool \<times> 'L web) option" where
  "httpd_fs_open E name W =
     (let W = upd_conn (\<lambda>h. h\<lparr> hs_flen := 0 \<rparr>) W;
          (err, fs) = httpd_fs_int E (w_fs W);
          W = W\<lparr> w_fs := fs \<rparr>
      in if err then Some (False, W)
         else case httpd_fs_search_name name fs of
           Some i \<Rightarrow> Some (True, upd_conn (\<lambda>h. h\<lparr> hs_flen := of_nat (fc_len (ff_cache fs ! i)), hs_data := fc_data (ff_cache fs ! i) \<rparr>) W)
         | None \<Rightarrow>
             if length FILE_NAME_PREFIX + length name + 1 > length FILE_NAME_PREFIX + 1 + FILE_NAME_MAX_SIZE then None
             else case we_open E (FILE_NAME_PREFIX @ name) of
               None \<Rightarrow> Some (False, W)
             | Some f \<Rightarrow>
                 (case we_stat E f of
                    None \<Rightarrow> Some (False, W)
                  | Some n \<Rightarrow>
                      let W = upd_conn (\<lambda>h. h\<lparr> hs_flen := of_nat n \<rparr>) W in
                      if FILE_HUGE_SIZE < n then Some (False, W)
                      else if n < FILE_CACHE_SIZE then
                        (case httpd_fs_get_free_index fs of
                           Some i \<Rightarrow>
                             (case fs_load E f n (fc_data (ff_cache fs ! i)) FILE_CACHE_SIZE W of
                                None \<Rightarrow> None
                              | Some (ok, W) \<Rightarrow>
                                  if \<not> ok then Some (False, W)
                                  else if FILE_NAME_MAX_SIZE \<le> length name then None
                                  else Some (True, W\<lparr> w_fs := fs\<lparr> ff_cache := (ff_cache fs)[i := (ff_cache fs ! i)\<lparr> fc_len := n, fc_name := name \<rparr>] \<rparr> \<rparr>))
                         | None \<Rightarrow> fs_load E f n (ff_huge fs) FILE_HUGE_SIZE W)
                      else fs_load E f n (ff_huge fs) FILE_HUGE_SIZE W))"

section \<open>Headers\<close>

definition w_send :: "uip_ev \<Rightarrow> u32 \<Rightarrow> u32 \<Rightarrow> 'L web \<Rightarrow> (pt_res \<times> 'L web) option" where
  "w_send ev ptr len W =
     map_option (\<lambda>(r, s, out). (r, upd_conn (\<lambda>h. h\<lparr> hs_sout := s \<rparr>) (W\<lparr> w_out := out \<rparr>)))
       (psock_send ev (w_mem W) ptr len (hs_sout (w_conn W), w_out W))"

abbreviation sout_at :: "sout_lc \<Rightarrow> 'L web \<Rightarrow> 'L web" where
  "sout_at l W \<equiv> upd_conn (\<lambda>h. h\<lparr> hs_soutpt := l \<rparr>) W"

text \<open>The suffix that \<open>strrchr\<close> finds, and the content type for it.\<close>

definition strrchr :: "u8 \<Rightarrow> u8 list \<Rightarrow> u8 list option" where
  "strrchr c str = (if c \<in> set str then Some (c # rev (takeWhile (\<lambda>x. x \<noteq> c) (rev str))) else None)"

definition content_type :: "u8 list \<Rightarrow> u8 list" where
  "content_type filename =
     (case strrchr ISO_period filename of
        None \<Rightarrow> http_content_type_binary
      | Some ptr \<Rightarrow>
          if take 5 ptr = http_html \<or> take 4 ptr = http_pht \<or> take 4 ptr = http_lua then http_content_type_html
          else if take 4 ptr = http_css then http_content_type_css
          else if take 4 ptr = http_png then http_content_type_png
          else if take 4 ptr = http_gif then http_content_type_gif
          else if take 4 ptr = http_jpg then http_content_type_jpg
          else http_content_type_plain)"

definition send_type :: "('L, 'f) web_env \<Rightarrow> uip_ev \<Rightarrow> u8 list \<Rightarrow> 'L web \<Rightarrow> (pt_res \<times> 'L web) option" where
  "send_type E ev k W =
     (case w_send ev (we_lit E k) (of_nat (length k)) W of
        None \<Rightarrow> None
      | Some (r, W) \<Rightarrow>
          if r = PT_WAITING then Some (PT_WAITING, sout_at (SOUT_TYPE k) W) else Some (PT_ENDED, sout_at SOUT_INIT W))"

definition send_status :: "('L, 'f) web_env \<Rightarrow> uip_ev \<Rightarrow> u8 list \<Rightarrow> 'L web \<Rightarrow> (pt_res \<times> 'L web) option" where
  "send_status E ev status W =
     (case w_send ev (we_lit E status) (of_nat (length status)) W of
        None \<Rightarrow> None
      | Some (r, W) \<Rightarrow>
          if r = PT_WAITING then Some (PT_WAITING, sout_at SOUT_STATUS W)
          else (case c_string (hs_filename (w_conn W)) of
                  None \<Rightarrow> None
                | Some f \<Rightarrow> send_type E ev (content_type f) W))"

definition send_headers :: "('L, 'f) web_env \<Rightarrow> uip_ev \<Rightarrow> u8 list \<Rightarrow> 'L web \<Rightarrow> (pt_res \<times> 'L web) option" where
  "send_headers E ev status W =
     (case hs_soutpt (w_conn W) of
        SOUT_INIT \<Rightarrow> send_status E ev status W
      | SOUT_STATUS \<Rightarrow> send_status E ev status W
      | SOUT_TYPE k \<Rightarrow> send_type E ev k W
      | _ \<Rightarrow> Some (PT_ENDED, sout_at SOUT_INIT W))"

section \<open>Static files\<close>

definition generate_part_of_file :: "('L, 'f) web_env \<Rightarrow> uip_ev \<Rightarrow> 'L httpd_state \<Rightarrow> mem \<times> u32 \<Rightarrow> u16 \<times> mem \<times> u32" where
  "generate_part_of_file E ev h g =
     (let len = (if hs_flen h > ucast (ev_mss ev) then ucast (ev_mss ev) else hs_flen h)
      in (ucast len, memcpy (fst g) (we_appdata E) (hs_data h) (unat len), len))"

definition w_gen_send :: "('L, 'f) web_env \<Rightarrow> uip_ev \<Rightarrow> 'L web \<Rightarrow> (pt_res \<times> 'L web) option" where
  "w_gen_send E ev W =
     map_option (\<lambda>(r, (m, len), s, out). (r, upd_conn (\<lambda>h. h\<lparr> hs_sout := s, hs_len := len \<rparr>) (W\<lparr> w_mem := m, w_out := out \<rparr>)))
       (psock_generator_send ev (generate_part_of_file E ev (w_conn W)) (we_appdata E) (w_mem W, hs_len (w_conn W))
          (hs_sout (w_conn W), w_out W))"

partial_function (option) send_file_loop :: "('L, 'f) web_env \<Rightarrow> uip_ev \<Rightarrow> 'L web \<Rightarrow> (pt_res \<times> 'L web) option" where
  "send_file_loop E ev W =
     (case w_gen_send E ev W of
        None \<Rightarrow> None
      | Some (r, W) \<Rightarrow>
          if r = PT_WAITING then Some (PT_WAITING, sout_at SOUT_FILE W)
          else
            let W = upd_conn (\<lambda>h. h\<lparr> hs_flen := hs_flen h - hs_len h, hs_data := hs_data h + hs_len h \<rparr>) W
            in if 0 < hs_flen (w_conn W) then send_file_loop E ev W else Some (PT_ENDED, sout_at SOUT_INIT W))"

definition send_file :: "('L, 'f) web_env \<Rightarrow> uip_ev \<Rightarrow> 'L web \<Rightarrow> (pt_res \<times> 'L web) option" where
  "send_file E ev W =
     (if hs_soutpt (w_conn W) = SOUT_INIT \<or> hs_soutpt (w_conn W) = SOUT_FILE then send_file_loop E ev W
      else Some (PT_ENDED, sout_at SOUT_INIT W))"

definition send_part_of_file :: "uip_ev \<Rightarrow> 'L web \<Rightarrow> (pt_res \<times> 'L web) option" where
  "send_part_of_file ev W =
     (if hs_soutpt (w_conn W) = SOUT_INIT \<or> hs_soutpt (w_conn W) = SOUT_PART then
        (case w_send ev (hs_data (w_conn W)) (hs_len (w_conn W)) W of
           None \<Rightarrow> None
         | Some (r, W) \<Rightarrow>
             if r = PT_WAITING then Some (PT_WAITING, sout_at SOUT_PART W) else Some (PT_ENDED, sout_at SOUT_INIT W))
      else Some (PT_ENDED, sout_at SOUT_INIT W))"

section \<open>Scripts\<close>

definition http_output_elua :: "uip_ev \<Rightarrow> 'L web \<Rightarrow> (pt_res \<times> 'L web) option" where
  "http_output_elua ev W =
     (if hs_soutpt (w_conn W) = SOUT_INIT \<or> hs_soutpt (w_conn W) = SOUT_SCRIPT then
        (case w_send ev (hs_wbuf (w_conn W)) (hs_wlen (w_conn W)) W of
           None \<Rightarrow> None
         | Some (r, W) \<Rightarrow>
             if r = PT_WAITING then Some (PT_WAITING, sout_at SOUT_SCRIPT W) else Some (PT_ENDED, sout_at SOUT_INIT W))
      else Some (PT_ENDED, sout_at SOUT_INIT W))"

definition w_run :: "('L, 'f) web_env \<Rightarrow> u32 \<Rightarrow> u32 \<Rightarrow> 'L web \<Rightarrow> 'L web option" where
  "w_run E data len W =
     map_option (\<lambda>(m, h). W\<lparr> w_mem := m, w_conn := h \<rparr>)
       (http_run_elua (we_api E) (we_str E) data len (w_mem W) (w_conn W))"

abbreviation script_at :: "script_lc \<Rightarrow> 'L web \<Rightarrow> 'L web" where
  "script_at l W \<equiv> upd_conn (\<lambda>h. h\<lparr> hs_scriptpt := l \<rparr>) W"

definition elua_scripts_wait :: "uip_ev \<Rightarrow> 'L web \<Rightarrow> (pt_res \<times> 'L web) option" where
  "elua_scripts_wait ev W =
     (case http_output_elua ev W of
        None \<Rightarrow> None
      | Some (r, W) \<Rightarrow>
          if r = PT_WAITING then Some (PT_WAITING, script_at SCR_RUN W) else Some (PT_ENDED, script_at SCR_INIT W))"

definition handle_elua_scripts :: "('L, 'f) web_env \<Rightarrow> uip_ev \<Rightarrow> 'L web \<Rightarrow> (pt_res \<times> 'L web) option" where
  "handle_elua_scripts E ev W =
     (case hs_scriptpt (w_conn W) of
        SCR_INIT \<Rightarrow>
          (case w_run E (hs_data (w_conn W)) (hs_flen (w_conn W)) W of
             None \<Rightarrow> None
           | Some W \<Rightarrow> elua_scripts_wait ev W)
      | SCR_RUN \<Rightarrow> elua_scripts_wait ev W
      | _ \<Rightarrow> Some (PT_ENDED, script_at SCR_INIT W))"

section \<open>Pages with script tags\<close>

text \<open>The C string at an address, of at most \<open>k\<close> bytes; and the first occurrence of a string in one.\<close>

fun mem_str :: "mem \<Rightarrow> u32 \<Rightarrow> nat \<Rightarrow> u8 list" where
  "mem_str m p 0 = []"
| "mem_str m p (Suc k) = (if m p = 0 then [] else m p # mem_str m (p + 1) k)"

fun strstr :: "u8 list \<Rightarrow> u8 list \<Rightarrow> nat option" where
  "strstr [] n = (if n = [] then Some 0 else None)"
| "strstr (x # xs) n = (if take (length n) (x # xs) = n then Some 0 else map_option Suc (strstr xs n))"

abbreviation c_str :: "mem \<Rightarrow> u32 \<Rightarrow> u8 list" where
  "c_str m p \<equiv> mem_str m p (2 ^ 32)"

definition TAG_OPEN :: "u8 list" where "TAG_OPEN = [0x3C, 0x3F, 0x6C, 0x75, 0x61]"
definition CGI_close :: "u8 list" where "CGI_close = [0x3F, 0x3E]"

text \<open>
  The start of a script block at the current place: run it, if it is closed, and leave the place
  behind it. The result says whether there is output to send.
\<close>

definition tags_script :: "('L, 'f) web_env \<Rightarrow> 'L web \<Rightarrow> (bool \<times> 'L web) option" where
  "tags_script E W =
     (let h = w_conn W;
          h = h\<lparr> hs_scriptptr := hs_data h + 6, hs_scriptlen := hs_flen h - 6 \<rparr>;
          W = W\<lparr> w_conn := h \<rparr>
      in case strstr (c_str (w_mem W) (hs_scriptptr h)) CGI_close of
           None \<Rightarrow> Some (False, upd_conn (\<lambda>h. h\<lparr> hs_data := hs_scriptptr h, hs_flen := hs_scriptlen h \<rparr>) W)
         | Some i \<Rightarrow>
             (let p = hs_scriptptr h + of_nat i + of_nat (length CGI_close)
              in case w_run E (hs_scriptptr h) (p - (hs_scriptptr h + of_nat (length CGI_close))) W of
                   None \<Rightarrow> None
                 | Some W \<Rightarrow>
                     Some (True, upd_conn (\<lambda>h. h\<lparr> hs_scriptlen := hs_scriptlen h - (p - hs_scriptptr h), hs_scriptptr := p,
                       hs_data := p, hs_flen := hs_scriptlen h - (p - hs_scriptptr h) \<rparr>) W)))"

text \<open>The length of the text up to the next place where a block could start, at most one segment.\<close>

definition tags_text_len :: "uip_ev \<Rightarrow> 'L web \<Rightarrow> u32" where
  "tags_text_len ev W =
     (let h = w_conn W; m = w_mem W; mss = ucast (ev_mss ev);
          len = (if hs_flen h > mss then mss else hs_flen h);
          ptr = (if m (hs_data h) = ISO_minor then map_option Suc (strchr ISO_minor (c_str m (hs_data h + 1)))
                 else strchr ISO_minor (c_str m (hs_data h)))
      in case ptr of
           None \<Rightarrow> len
         | Some i \<Rightarrow> if i = 0 then len else if mss \<le> of_nat i then mss else of_nat i)"

datatype tags_mode = M_LOOP | M_TAG | M_TEXT

partial_function (option) handle_elua_tags_from ::
    "('L, 'f) web_env \<Rightarrow> uip_ev \<Rightarrow> tags_mode \<Rightarrow> 'L web \<Rightarrow> (pt_res \<times> 'L web) option" where
  "handle_elua_tags_from E ev mode W =
     (case mode of
        M_LOOP \<Rightarrow>
          if hs_flen (w_conn W) = 0 then Some (PT_ENDED, script_at SCR_INIT W)
          else if mem_read (w_mem W) (hs_data (w_conn W)) 5 = TAG_OPEN then
            (case tags_script E W of
               None \<Rightarrow> None
             | Some (run, W) \<Rightarrow> handle_elua_tags_from E ev (if run then M_TAG else M_LOOP) W)
          else handle_elua_tags_from E ev M_TEXT (upd_conn (\<lambda>h. h\<lparr> hs_len := tags_text_len ev W \<rparr>) W)
      | M_TAG \<Rightarrow>
          (case http_output_elua ev W of
             None \<Rightarrow> None
           | Some (r, W) \<Rightarrow>
               if r = PT_WAITING then Some (PT_WAITING, script_at SCR_TAG W) else handle_elua_tags_from E ev M_LOOP W)
      | M_TEXT \<Rightarrow>
          (case send_part_of_file ev W of
             None \<Rightarrow> None
           | Some (r, W) \<Rightarrow>
               if r = PT_WAITING then Some (PT_WAITING, script_at SCR_TEXT W)
               else handle_elua_tags_from E ev M_LOOP
                      (upd_conn (\<lambda>h. h\<lparr> hs_data := hs_data h + hs_len h, hs_flen := hs_flen h - hs_len h \<rparr>) W)))"

definition handle_elua_tags :: "('L, 'f) web_env \<Rightarrow> uip_ev \<Rightarrow> 'L web \<Rightarrow> (pt_res \<times> 'L web) option" where
  "handle_elua_tags E ev W =
     (case hs_scriptpt (w_conn W) of
        SCR_INIT \<Rightarrow> handle_elua_tags_from E ev M_LOOP W
      | SCR_TAG \<Rightarrow> handle_elua_tags_from E ev M_TAG W
      | SCR_TEXT \<Rightarrow> handle_elua_tags_from E ev M_TEXT W
      | SCR_RUN \<Rightarrow> Some (PT_ENDED, script_at SCR_INIT W))"

section \<open>The output thread\<close>

abbreviation out_at :: "out_lc \<Rightarrow> 'L web \<Rightarrow> 'L web" where
  "out_at l W \<equiv> upd_conn (\<lambda>h. h\<lparr> hs_outputpt := l \<rparr>) W"

text \<open>Waiting for a thread at a label, then going on.\<close>

definition out_wait :: "out_lc \<Rightarrow> ('L web \<Rightarrow> 'L web option) \<Rightarrow> (pt_res \<times> 'L web) option \<Rightarrow> 'L web option" where
  "out_wait l k x =
     (case x of
        None \<Rightarrow> None
      | Some (r, W) \<Rightarrow> if r = PT_WAITING then Some (out_at l W) else k W)"

definition out_end :: "'L web \<Rightarrow> 'L web option" where
  "out_end W = Some (out_at OUT_INIT (W\<lparr> w_close := True \<rparr>))"

definition out_404 :: "('L, 'f) web_env \<Rightarrow> uip_ev \<Rightarrow> 'L web \<Rightarrow> 'L web option" where
  "out_404 E ev W =
     out_wait OUT_404_HEADERS (\<lambda>W. out_wait OUT_404_FILE out_end (send_file E ev W)) (send_headers E ev http_header_404 W)"

definition out_body :: "('L, 'f) web_env \<Rightarrow> uip_ev \<Rightarrow> 'L web \<Rightarrow> 'L web option" where
  "out_body E ev W =
     (case c_string (hs_filename (w_conn W)) of
        None \<Rightarrow> None
      | Some f \<Rightarrow>
          let ptr = map_option (\<lambda>i. drop i f) (strchr ISO_period f) in
          if ptr \<noteq> None \<and> take 4 (the ptr) = http_pht then
            out_wait OUT_TAGS out_end (handle_elua_tags E ev (upd_conn (\<lambda>h. h\<lparr> hs_new_pht := True, hs_scriptpt := SCR_INIT \<rparr>) W))
          else if ptr \<noteq> None \<and> take 4 (the ptr) = http_lua then
            out_wait OUT_SCRIPTS out_end (handle_elua_scripts E ev (script_at SCR_INIT W))
          else out_wait OUT_FILE out_end (send_file E ev W))"

definition out_200 :: "('L, 'f) web_env \<Rightarrow> uip_ev \<Rightarrow> 'L web \<Rightarrow> 'L web option" where
  "out_200 E ev W = out_wait OUT_HEADERS (out_body E ev) (send_headers E ev http_header_200 W)"

definition handle_output :: "('L, 'f) web_env \<Rightarrow> uip_ev \<Rightarrow> 'L web \<Rightarrow> 'L web option" where
  "handle_output E ev W =
     (case hs_outputpt (w_conn W) of
        OUT_INIT \<Rightarrow>
          (case c_string (hs_filename (w_conn W)) of
             None \<Rightarrow> None
           | Some f \<Rightarrow>
               (case httpd_fs_open E f W of
                  None \<Rightarrow> None
                | Some (True, W) \<Rightarrow> out_200 E ev W
                | Some (False, W) \<Rightarrow>
                    (case httpd_fs_open E http_404_html W of
                       None \<Rightarrow> None
                     | Some (_, W) \<Rightarrow>
                         (case strcpy (hs_filename (w_conn W)) http_404_html of
                            None \<Rightarrow> None
                          | Some g \<Rightarrow> out_404 E ev (upd_conn (\<lambda>h. h\<lparr> hs_filename := g \<rparr>) W)))))
      | OUT_404_HEADERS \<Rightarrow> out_404 E ev W
      | OUT_404_FILE \<Rightarrow> out_wait OUT_404_FILE out_end (send_file E ev W)
      | OUT_HEADERS \<Rightarrow> out_200 E ev W
      | OUT_TAGS \<Rightarrow> out_wait OUT_TAGS out_end (handle_elua_tags E ev W)
      | OUT_SCRIPTS \<Rightarrow> out_wait OUT_SCRIPTS out_end (handle_elua_scripts E ev W)
      | OUT_FILE \<Rightarrow> out_wait OUT_FILE out_end (send_file E ev W))"

end
