(* ===== verification/HttpdSend.thy ===== *)
theory HttpdSend
  imports HttpdOut
begin

text \<open>
  What a client receives: the output thread of the web server over the calls that uIP makes for a
  connection. A segment is sent, again when uIP asks for it, and the next one follows when it is
  acknowledged. The locale \<open>sender\<close> states this contract for one call; its lemma is what a whole
  connection does. Its interpretation is a static file on its way.
\<close>

section \<open>Connections over their events\<close>

text \<open>What each call hands to uIP, up to the one that closes the connection.\<close>

fun out_run :: "('e \<Rightarrow> 'L web \<Rightarrow> 'L web option) \<Rightarrow> 'e list \<Rightarrow> 'L web \<Rightarrow> (u8 list list \<times> 'L web) option" where
  "out_run step [] W = Some ([], W)"
| "out_run step (e # es) W =
     (case step e (W\<lparr> w_out := [] \<rparr>) of
        None \<Rightarrow> None
      | Some W \<Rightarrow>
          if w_close W then Some ([w_out W], W)
          else map_option (\<lambda>(os, W'). (w_out W # os, W')) (out_run step es W))"

text \<open>
  uIP has one buffer for what comes in and what goes out, of all connections, and \<open>uip_appdata\<close> lies
  in it. A call of the web server is an event with the contents of the first \<open>mss\<close> bytes there,
  which uIP and the other connections have left.
\<close>

type_synonym uip_call = "uip_ev \<times> u8 list"

definition uip_calls :: "('L, 'f) web_env \<Rightarrow> uip_call \<Rightarrow> 'L web \<Rightarrow> 'L web option" where
  "uip_calls E x W = handle_output E (fst x) (W\<lparr> w_mem := mem_write (w_mem W) (we_appdata E) (snd x) \<rparr>)"

text \<open>
  The specification. A header lies in memory of its own and can be sent again; a piece of the file was
  put at \<open>uip_appdata\<close>, and what is sent again is what lies there by then. Each acknowledgement lets
  the next of the segments \<open>ds\<close> go.
\<close>

datatype page_seg = Header "u8 list" | Piece "u8 list"

fun seg_bytes :: "page_seg \<Rightarrow> u8 list" where
  "seg_bytes (Header k) = k"
| "seg_bytes (Piece d) = d"

fun seg_again :: "page_seg \<Rightarrow> u8 list \<Rightarrow> u8 list" where
  "seg_again (Header k) b = k"
| "seg_again (Piece d) b = take (length d) b"

fun page_sent :: "page_seg \<Rightarrow> page_seg list \<Rightarrow> uip_call list \<Rightarrow> u8 list list" where
  "page_sent cur ds [] = []"
| "page_sent cur ds (x # es) =
     (if ev_acked (fst x) then
        case ds of [] \<Rightarrow> [[]] | d # ds \<Rightarrow> seg_bytes d # page_sent d ds es
      else (if ev_rexmit (fst x) then seg_again cur (snd x) else []) # page_sent cur ds es)"

definition acks :: "uip_call list \<Rightarrow> nat" where
  "acks es = length (filter (\<lambda>x. ev_acked (fst x)) es)"

text \<open>Without retransmissions of pieces that have been overwritten, nothing else is sent.\<close>

lemma concat_page_sent:
  "length ds \<le> acks es \<Longrightarrow> \<forall>x \<in> set es. \<not> ev_rexmit (fst x) \<Longrightarrow> concat (page_sent cur ds es) = concat (map seg_bytes ds)"
proof (induction cur ds es rule: page_sent.induct)
  case (2 cur ds x es)
  then show ?case by (cases ds) (auto simp: acks_def)
qed (simp add: acks_def)

locale sender =
  fixes step :: "uip_call \<Rightarrow> 'L web \<Rightarrow> 'L web option"
    and good :: "uip_call \<Rightarrow> bool"
    and flight :: "page_seg \<Rightarrow> page_seg list \<Rightarrow> 'L web \<Rightarrow> bool"
  assumes wait: "\<lbrakk> flight cur ds W; good x; \<not> ev_acked (fst x); w_out W = [] \<rbrakk>
      \<Longrightarrow> \<exists>W'. step x W = Some W' \<and> w_out W' = (if ev_rexmit (fst x) then seg_again cur (snd x) else [])
        \<and> \<not> w_close W' \<and> flight cur ds W'"
    and acked_last: "\<lbrakk> flight cur [] W; good x; ev_acked (fst x); w_out W = [] \<rbrakk>
      \<Longrightarrow> \<exists>W'. step x W = Some W' \<and> w_out W' = [] \<and> w_close W'"
    and acked_next: "\<lbrakk> flight cur (d # ds) W; good x; ev_acked (fst x); w_out W = [] \<rbrakk>
      \<Longrightarrow> \<exists>W'. step x W = Some W' \<and> w_out W' = seg_bytes d \<and> \<not> w_close W' \<and> flight d ds W'"
    and any_out: "flight cur ds W \<Longrightarrow> flight cur ds (W\<lparr> w_out := [] \<rparr>)"
    and open_conn: "flight cur ds W \<Longrightarrow> \<not> w_close W"
begin

lemma run_sends:
  assumes "flight cur ds W" "\<forall>x \<in> set es. good x"
  shows "\<exists>W'. out_run step es W = Some (page_sent cur ds es, W') \<and> w_close W' = (length ds < acks es)"
  using assms
proof (induction es arbitrary: cur ds W)
  case Nil
  then show ?case using open_conn by (auto simp: acks_def)
next
  case (Cons x es)
  have f: "flight cur ds (W\<lparr> w_out := [] \<rparr>)" "good x" "w_out (W\<lparr> w_out := [] \<rparr>) = []" using Cons.prems any_out by simp_all
  show ?case
  proof (cases "ev_acked (fst x)")
    case False
    obtain W1 where "step x (W\<lparr> w_out := [] \<rparr>) = Some W1" "w_out W1 = (if ev_rexmit (fst x) then seg_again cur (snd x) else [])"
      "\<not> w_close W1" "flight cur ds W1"
      using wait [OF f(1,2) False f(3)] by blast
    with Cons.IH [of cur ds W1] Cons.prems(2) False show ?thesis by (auto simp: acks_def)
  next
    case ack: True
    show ?thesis
    proof (cases ds)
      case Nil
      obtain W1 where "step x (W\<lparr> w_out := [] \<rparr>) = Some W1" "w_out W1 = []" "w_close W1"
        using acked_last [OF _ f(2) ack f(3)] f(1) Nil by auto
      then show ?thesis using ack Nil by (simp add: acks_def)
    next
      case (Cons d ds')
      obtain W1 where "step x (W\<lparr> w_out := [] \<rparr>) = Some W1" "w_out W1 = seg_bytes d" "\<not> w_close W1" "flight d ds' W1"
        using acked_next [of cur d ds' "W\<lparr> w_out := [] \<rparr>" x] f ack Cons by blast
      with Cons.IH [of d ds' W1] Cons.prems(2) ack Cons show ?thesis by (auto simp: acks_def)
    qed
  qed
qed

end

section \<open>One send\<close>

lemma w_send_start:
  assumes "ps_lc (hs_sout (w_conn W)) = LC_INIT" "0 < unat len" "unat len \<le> unat (ev_mss e)"
  shows "\<exists>s. w_send e p len W = Some (PT_WAITING, upd_conn (\<lambda>h. h\<lparr> hs_sout := s \<rparr>) (W\<lparr> w_out := mem_read (w_mem W) p (unat len) \<rparr>))
    \<and> in_flight LC_SEND p (ucast len) s"
  using psock_send_start [OF assms, of "w_mem W" p "w_out W"] by (auto simp: w_send_def)

lemma w_send_acked:
  assumes "in_flight LC_SEND p n (hs_sout (w_conn W))" "n \<le> ev_mss e" "ev_acked e"
  shows "\<exists>s. w_send e q len W = Some (PT_ENDED, upd_conn (\<lambda>h. h\<lparr> hs_sout := s \<rparr>) W) \<and> ps_lc s = LC_INIT"
  using psock_send_acked [OF assms, of "w_mem W" q len "w_out W"] by (auto simp: w_send_def)

lemma w_send_idle:
  assumes "in_flight LC_SEND p n (hs_sout (w_conn W))" "\<not> ev_acked e" "\<not> ev_rexmit e"
  shows "\<exists>s. w_send e q len W = Some (PT_WAITING, upd_conn (\<lambda>h. h\<lparr> hs_sout := s \<rparr>) W) \<and> in_flight LC_SEND p n s"
  using psock_send_idle [OF assms, of "w_mem W" q len "w_out W"] by (auto simp: w_send_def)

lemma w_send_rexmit:
  assumes "in_flight LC_SEND p n (hs_sout (w_conn W))" "n \<le> ev_mss e" "\<not> ev_acked e" "ev_rexmit e" "0 < n"
  shows "\<exists>s. w_send e q len W = Some (PT_WAITING, upd_conn (\<lambda>h. h\<lparr> hs_sout := s \<rparr>) (W\<lparr> w_out := mem_read (w_mem W) p (unat n) \<rparr>))
    \<and> in_flight LC_SEND p n s"
  using psock_send_rexmit [OF assms, of "w_mem W" q len "w_out W"] by (auto simp: w_send_def)

text \<open>
  The generator: a piece of the file goes through \<open>uip_appdata\<close>. When the first call comes with a
  retransmission, which is then none, the piece is generated twice.
\<close>

lemma mem_write_again: "length xs \<le> 4294967296 \<Longrightarrow> mem_write (mem_write m p xs) p xs = mem_write m p xs"
  by (rule ext) (simp add: mem_write_apply)

lemma w_gen_start:
  assumes "ps_lc (hs_sout (w_conn W)) = LC_INIT" "apart (hs_data (w_conn W)) (length c) (we_appdata E) (unat (ev_mss e))"
    and "mem_at (w_mem W) (hs_data (w_conn W)) c"
    and "unat (hs_flen (w_conn W)) = length c" "k = min (unat (ev_mss e)) (length c)"
  shows "\<exists>s. w_gen_send E e W = Some (PT_WAITING, upd_conn (\<lambda>h. h\<lparr> hs_sout := s, hs_len := of_nat k \<rparr>)
      (W\<lparr> w_mem := mem_write (w_mem W) (we_appdata E) (take k c), w_out := if k = 0 then w_out W else take k c \<rparr>))
    \<and> in_flight LC_GENERATOR (we_appdata E) (of_nat k) s"
proof -
  let ?h = "w_conn W"
  have small: "k < 65536" using assms(5) unat_u16_less [of "ev_mss e"] by (simp add: min_def del: unat_u16_less)
  have len: "(if hs_flen ?h > ucast (ev_mss e) then ucast (ev_mss e) else hs_flen ?h) = (of_nat k :: u32)"
    using assms(4,5) small by (auto simp: word_less_nat_alt word_unat_eq_iff unat_ucast_up unat_of_nat_small min_def)
  have k32: "unat (of_nat k :: u32) = k" "(ucast (of_nat k :: u32) :: u16) = of_nat k" "unat (of_nat k :: u16) = k"
    using small by (simp_all add: unat_of_nat_small word_unat_eq_iff unsigned_ucast_eq take_bit_nat_eq_self_iff)
  have rd: "mem_read (w_mem W) (hs_data ?h) k = take k c"
    using assms(3,5) take_mem_read [of k "w_mem W" "hs_data ?h" "length c"] by (simp add: mem_at_read min_def)
  let ?m = "mem_write (w_mem W) (we_appdata E) (take k c)"
  have gen: "generate_part_of_file E e ?h (w_mem W, hs_len ?h) = (of_nat k, (?m, of_nat k))"
    by (simp add: generate_part_of_file_def len k32 memcpy_def rd)
  have le: "(of_nat k :: u16) \<le> ev_mss e" using assms(5) k32(3) by (simp add: word_le_nat_alt)
  have app: "mem_read ?m (we_appdata E) k = take k c"
  proof -
    have lk: "length (take k c) = k" using assms(5) by simp
    then have "length (take k c) \<le> 4294967296" using small by linarith
    from mem_read_write [OF this, of "w_mem W" "we_appdata E"] show ?thesis unfolding lk .
  qed
  have k0: "(of_nat k :: u16) = 0 \<longleftrightarrow> k = 0" unfolding word_unat_eq_iff k32(3) by simp
  have lk: "length (take k c) = k" "length (take k c) \<le> unat (ev_mss e)" "length (take k c) \<le> 4294967296"
    using assms(5) small by auto
  have "mem_read ?m (hs_data ?h) (length c) = mem_read (w_mem W) (hs_data ?h) (length c)"
    by (rule mem_read_write_apart [OF apart_mono [OF assms(2) lk(2)] lk(3)])
  then have "take k (mem_read ?m (hs_data ?h) (length c)) = take k c"
    using assms(3) by (simp add: mem_at_read)
  moreover have "min k (length c) = k" using assms(5) by simp
  ultimately have "mem_read ?m (hs_data ?h) k = take k c" by (simp only: take_mem_read)
  then have gen2: "generate_part_of_file E e ?h (?m, of_nat k) = (of_nat k, (?m, of_nat k))"
    by (simp add: generate_part_of_file_def len k32 memcpy_def mem_write_again [OF lk(3)])
  from psock_gen_start_any [where generate = "generate_part_of_file E e ?h", OF assms(1) gen _ le, of "we_appdata E" "w_out W"] gen2
  obtain s where
    s: "psock_generator_send e (generate_part_of_file E e ?h) (we_appdata E) (w_mem W, hs_len ?h) (hs_sout ?h, w_out W)
      = Some (PT_WAITING, (?m, of_nat k), s, if k = 0 then w_out W else take k c)" "in_flight LC_GENERATOR (we_appdata E) (of_nat k) s"
    by (auto simp: k0 k32(3) app)
  then show ?thesis by (auto simp: w_gen_send_def)
qed

lemma w_gen_acked:
  assumes "in_flight LC_GENERATOR p n (hs_sout (w_conn W))" "n \<le> ev_mss e" "ev_acked e"
  shows "\<exists>s. w_gen_send E e W = Some (PT_ENDED, upd_conn (\<lambda>h. h\<lparr> hs_sout := s \<rparr>) W) \<and> ps_lc s = LC_INIT"
  using psock_gen_acked [OF assms, of "generate_part_of_file E e (w_conn W)" "we_appdata E" "(w_mem W, hs_len (w_conn W))" "w_out W"]
  by (auto simp: w_gen_send_def)

lemma w_gen_rexmit:
  assumes "in_flight LC_GENERATOR p n (hs_sout (w_conn W))" "n \<le> ev_mss e" "\<not> ev_acked e" "ev_rexmit e" "0 < n"
  shows "\<exists>s. w_gen_send E e W = Some (PT_WAITING, upd_conn (\<lambda>h. h\<lparr> hs_sout := s \<rparr>) (W\<lparr> w_out := mem_read (w_mem W) p (unat n) \<rparr>))
    \<and> in_flight LC_GENERATOR p n s"
  using psock_gen_rexmit [OF assms(1-4), of "generate_part_of_file E e (w_conn W)" "we_appdata E" "(w_mem W, hs_len (w_conn W))" "w_out W"]
    assms(5) by (auto simp: w_gen_send_def)

lemma w_gen_idle:
  assumes "in_flight LC_GENERATOR p n (hs_sout (w_conn W))" "\<not> ev_acked e" "\<not> ev_rexmit e"
  shows "\<exists>s. w_gen_send E e W = Some (PT_WAITING, upd_conn (\<lambda>h. h\<lparr> hs_sout := s \<rparr>) W) \<and> in_flight LC_GENERATOR p n s"
  using psock_gen_idle [OF assms, of "generate_part_of_file E e (w_conn W)" "we_appdata E" "(w_mem W, hs_len (w_conn W))" "w_out W"]
  by (auto simp: w_gen_send_def)

section \<open>Static files\<close>

text \<open>A file cut into segments.\<close>

function chunks :: "nat \<Rightarrow> u8 list \<Rightarrow> u8 list list" where
  "chunks k c = (if k = 0 \<or> c = [] then [] else take k c # chunks k (drop k c))"
  by pat_completeness auto
termination by (relation "measure (\<lambda>(k, c). length c)") auto

declare chunks.simps [simp del]

lemma chunks_Nil [simp]: "chunks k [] = []"
  by (simp add: chunks.simps)

lemma concat_chunks: "0 < k \<Longrightarrow> concat (chunks k c) = c"
  by (induction k c rule: chunks.induct) (subst chunks.simps, simp)

definition static_name :: "u8 list \<Rightarrow> bool" where
  "static_name f \<longleftrightarrow> (\<forall>i. strchr ISO_period f = Some i \<longrightarrow> take 4 (drop i f) \<noteq> http_pht \<and> take 4 (drop i f) \<noteq> http_lua)"

text \<open>The rest \<open>c\<close> of a file at the current place, out of reach of \<open>uip_appdata\<close>.\<close>

definition file_here :: "('L, 'f) web_env \<Rightarrow> nat \<Rightarrow> u8 list \<Rightarrow> 'L web \<Rightarrow> bool" where
  "file_here E k c W \<longleftrightarrow> mem_at (w_mem W) (hs_data (w_conn W)) c \<and> unat (hs_flen (w_conn W)) = length c
     \<and> apart (hs_data (w_conn W)) (length c) (we_appdata E) k"

lemma apart_part:
  assumes "apart s n p k" "j + l \<le> n"
  shows "apart (s + of_nat j) l p k"
proof -
  have "k \<le> off_from p (s + of_nat j + of_nat i)" if "i < l" for i
  proof -
    have "j + i \<in> {0..<n}" using that assms(2) by simp
    then have "k \<le> off_from p (s + of_nat (j + i))" using assms(1) unfolding apart_def by blast
    then show ?thesis by (simp add: add.assoc)
  qed
  then show ?thesis by (simp add: apart_def)
qed

lemma file_here_write:
  assumes "file_here E k c W" "length xs \<le> k" "length xs \<le> 4294967296"
  shows "file_here E k c (W\<lparr> w_mem := mem_write (w_mem W) (we_appdata E) xs, w_out := o1 \<rparr>)"
  using assms mem_read_write_apart [OF apart_mono, of "hs_data (w_conn W)" "length c" "we_appdata E" k xs "w_mem W"]
  by (simp add: file_here_def mem_at_read)

lemma file_here_drop:
  assumes "file_here E k c W" "n \<le> length c"
  shows "file_here E k (drop n c) (upd_conn (\<lambda>h. h\<lparr> hs_data := hs_data h + of_nat n, hs_flen := hs_flen h - of_nat n \<rparr>) W)"
proof -
  have "mem_at (w_mem W) (hs_data (w_conn W)) (take n c @ drop n c)" using assms(1) by (simp add: file_here_def)
  then have "mem_at (w_mem W) (hs_data (w_conn W) + of_nat n) (drop n c)"
    unfolding mem_at_append using assms(2) by simp
  moreover have "unat (hs_flen (w_conn W) - of_nat n) = length c - n"
  proof -
    have len: "unat (hs_flen (w_conn W)) = length c" using assms(1) by (simp add: file_here_def)
    then have n: "unat (of_nat n :: u32) = n" using assms(2) by (metis le_unat_uoi)
    then have "(of_nat n :: u32) \<le> hs_flen (w_conn W)" using assms(2) len by (simp add: word_le_nat_alt)
    then show ?thesis using n len by (simp add: unat_sub)
  qed
  moreover have "apart (hs_data (w_conn W) + of_nat n) (length c - n) (we_appdata E) k"
    using assms by (intro apart_part [where n = "length c"]) (simp_all add: file_here_def)
  ultimately show ?thesis by (simp add: file_here_def)
qed

text \<open>Starting and going on with a file.\<close>

definition file_flight :: "('L, 'f) web_env \<Rightarrow> u16 \<Rightarrow> u8 list \<Rightarrow> 'L web \<Rightarrow> bool" where
  "file_flight E mss c W \<longleftrightarrow> c \<noteq> [] \<and> file_here E (unat mss) c W \<and> hs_soutpt (w_conn W) = SOUT_FILE
     \<and> hs_len (w_conn W) = of_nat (min (unat mss) (length c))
     \<and> in_flight LC_GENERATOR (we_appdata E) (of_nat (min (unat mss) (length c))) (hs_sout (w_conn W))"

lemma min_u16: "unat (of_nat (min (unat (mss :: u16)) n) :: u16) = min (unat mss) n"
proof -
  have "min (unat mss) n < 65536" using unat_u16_less [of mss] by (simp add: min_def del: unat_u16_less)
  then show ?thesis by (simp add: unat_of_nat_small)
qed

lemma send_file_loop_start:
  assumes "ps_lc (hs_sout (w_conn W)) = LC_INIT" "ev_mss e = mss" "0 < unat mss" "c \<noteq> []" "file_here E (unat mss) c W"
  shows "\<exists>W'. send_file_loop E e W = Some (PT_WAITING, W') \<and> w_out W' = take (unat mss) c \<and> file_flight E mss c W'
    \<and> w_close W' = w_close W \<and> hs_outputpt (w_conn W') = hs_outputpt (w_conn W)"
proof -
  let ?k = "min (unat mss) (length c)"
  have k: "take ?k c = take (unat mss) c" "0 < ?k" using assms(3,4) by (simp_all add: min_def)
  have len: "length (take ?k c) \<le> unat mss" "length (take ?k c) \<le> 4294967296"
    using unat_u16_less [of mss] by (auto simp: min_def simp del: unat_u16_less)
  from w_gen_start [of W c E e ?k] obtain s where
    s: "w_gen_send E e W = Some (PT_WAITING, upd_conn (\<lambda>h. h\<lparr> hs_sout := s, hs_len := of_nat ?k \<rparr>)
      (W\<lparr> w_mem := mem_write (w_mem W) (we_appdata E) (take ?k c), w_out := take ?k c \<rparr>))"
    "in_flight LC_GENERATOR (we_appdata E) (of_nat ?k) s"
    using assms k(2) by (auto simp: file_here_def)
  let ?W = "sout_at SOUT_FILE (upd_conn (\<lambda>h. h\<lparr> hs_sout := s, hs_len := of_nat ?k \<rparr>)
      (W\<lparr> w_mem := mem_write (w_mem W) (we_appdata E) (take ?k c), w_out := take ?k c \<rparr>))"
  have "send_file_loop E e W = Some (PT_WAITING, ?W)" using s(1) by (subst send_file_loop.simps) simp
  moreover have "file_flight E mss c ?W"
    using file_here_write [OF assms(5) len, of "take ?k c"] s(2) assms(4) by (simp add: file_flight_def file_here_def)
  ultimately show ?thesis using k(1) by auto
qed

lemma send_file_wait:
  assumes "file_flight E mss c W" "\<not> ev_acked e" "ev_mss e = mss" "0 < unat mss" "mem_read (w_mem W) (we_appdata E) (unat mss) = b"
  shows "\<exists>W'. send_file E e W = Some (PT_WAITING, W') \<and> w_out W' = (if ev_rexmit e then take (length (take (unat mss) c)) b else w_out W)
    \<and> file_flight E mss c W' \<and> w_close W' = w_close W \<and> hs_outputpt (w_conn W') = hs_outputpt (w_conn W)"
proof -
  let ?n = "of_nat (min (unat mss) (length c)) :: u16"
  have fl: "in_flight LC_GENERATOR (we_appdata E) ?n (hs_sout (w_conn W))" using assms(1) by (simp add: file_flight_def)
  have n: "unat ?n = min (unat mss) (length c)" by (rule min_u16)
  have n0: "?n \<le> ev_mss e" "0 < ?n"
    using assms(1,3,4) n by (auto simp: word_le_nat_alt word_less_nat_alt file_flight_def)
  have "min (unat ?n) (unat mss) = unat ?n" "length (take (unat mss) c) = unat ?n" using n by simp_all
  then have rd: "mem_read (w_mem W) (we_appdata E) (unat ?n) = take (length (take (unat mss) c)) b"
    using take_mem_read [of "unat ?n" "w_mem W" "we_appdata E" "unat mss"] assms(5) by (simp only:)
  obtain s where
    s: "w_gen_send E e W = Some (PT_WAITING, upd_conn (\<lambda>h. h\<lparr> hs_sout := s \<rparr>)
        (W\<lparr> w_out := if ev_rexmit e then take (length (take (unat mss) c)) b else w_out W \<rparr>))"
      "in_flight LC_GENERATOR (we_appdata E) ?n s"
  proof (cases "ev_rexmit e")
    case True
    from w_gen_rexmit [OF fl n0(1) assms(2) True n0(2), of E] show thesis using that True unfolding rd by auto
  next
    case False
    from w_gen_idle [OF fl assms(2) False, of E] show thesis using that False by auto
  qed
  let ?W = "sout_at SOUT_FILE (upd_conn (\<lambda>h. h\<lparr> hs_sout := s \<rparr>)
      (W\<lparr> w_out := if ev_rexmit e then take (length (take (unat mss) c)) b else w_out W \<rparr>))"
  have "send_file E e W = Some (PT_WAITING, ?W)"
    using s(1) assms(1) send_file_loop.simps [of E e W] by (simp add: send_file_def file_flight_def)
  moreover have "file_flight E mss c ?W" using assms(1) s(2) by (simp add: file_flight_def file_here_def)
  ultimately show ?thesis by auto
qed

lemma send_file_acked:
  assumes "file_flight E mss c W" "ev_acked e" "ev_mss e = mss" "0 < unat mss"
  shows "(length c \<le> unat mss \<longrightarrow> (\<exists>W'. send_file E e W = Some (PT_ENDED, W') \<and> w_out W' = w_out W \<and> w_close W' = w_close W))
    \<and> (unat mss < length c \<longrightarrow> (\<exists>W'. send_file E e W = Some (PT_WAITING, W') \<and> w_out W' = take (unat mss) (drop (unat mss) c)
        \<and> file_flight E mss (drop (unat mss) c) W' \<and> w_close W' = w_close W \<and> hs_outputpt (w_conn W') = hs_outputpt (w_conn W)))"
proof -
  let ?k = "min (unat mss) (length c)"
  have f: "c \<noteq> []" "file_here E (unat mss) c W" "hs_soutpt (w_conn W) = SOUT_FILE" "hs_len (w_conn W) = of_nat ?k"
    "in_flight LC_GENERATOR (we_appdata E) (of_nat ?k) (hs_sout (w_conn W))" using assms(1) by (simp_all add: file_flight_def)
  have "(of_nat ?k :: u16) \<le> ev_mss e" using assms(3) by (simp add: word_le_nat_alt min_u16)
  from w_gen_acked [OF f(5) this assms(2), of E] obtain s where
    s: "w_gen_send E e W = Some (PT_ENDED, upd_conn (\<lambda>h. h\<lparr> hs_sout := s \<rparr>) W)" "ps_lc s = LC_INIT" by blast
  let ?W = "upd_conn (\<lambda>h. h\<lparr> hs_flen := hs_flen h - hs_len h, hs_data := hs_data h + hs_len h \<rparr>) (upd_conn (\<lambda>h. h\<lparr> hs_sout := s \<rparr>) W)"
  have here: "file_here E (unat mss) (drop ?k c) ?W"
    using file_here_drop [OF f(2), of ?k] f(4) by (simp add: file_here_def)
  have "send_file_loop E e W = (if 0 < hs_flen (w_conn ?W) then send_file_loop E e ?W else Some (PT_ENDED, sout_at SOUT_INIT ?W))"
    using s(1) by (subst send_file_loop.simps) simp
  then have step: "send_file E e W = (if 0 < hs_flen (w_conn ?W) then send_file_loop E e ?W else Some (PT_ENDED, sout_at SOUT_INIT ?W))"
    using f(3) by (simp add: send_file_def)
  have len: "unat (hs_flen (w_conn ?W)) = length c - ?k" using here by (simp add: file_here_def)
  show ?thesis
  proof (cases "unat mss < length c")
    case False
    then have "\<not> 0 < hs_flen (w_conn ?W)" using len by (simp add: word_less_nat_alt min_def)
    then show ?thesis using step False by simp
  next
    case True
    then have pos: "0 < hs_flen (w_conn ?W)" and k: "drop ?k c = drop (unat mss) c" "drop (unat mss) c \<noteq> []"
      using len by (simp_all add: word_less_nat_alt min_def)
    have "\<exists>W'. send_file_loop E e ?W = Some (PT_WAITING, W') \<and> w_out W' = take (unat mss) (drop (unat mss) c)
      \<and> file_flight E mss (drop (unat mss) c) W' \<and> w_close W' = w_close ?W \<and> hs_outputpt (w_conn W') = hs_outputpt (w_conn ?W)"
      by (rule send_file_loop_start) (use s(2) assms(3,4) k here in simp_all)
    then show ?thesis using step pos True by simp
  qed
qed

section \<open>Headers\<close>

text \<open>The string constants lie in memory, out of reach of \<open>uip_appdata\<close>, and fit in a segment.\<close>

definition lit_ok :: "('L, 'f) web_env \<Rightarrow> u16 \<Rightarrow> u8 list \<Rightarrow> 'L web \<Rightarrow> bool" where
  "lit_ok E mss k W \<longleftrightarrow> mem_at (w_mem W) (we_lit E k) k \<and> k \<noteq> [] \<and> length k \<le> unat mss
     \<and> apart (we_lit E k) (length k) (we_appdata E) (unat mss)"

definition lit_flight :: "('L, 'f) web_env \<Rightarrow> u16 \<Rightarrow> u8 list \<Rightarrow> 'L web \<Rightarrow> bool" where
  "lit_flight E mss k W \<longleftrightarrow> in_flight LC_SEND (we_lit E k) (of_nat (length k)) (hs_sout (w_conn W)) \<and> lit_ok E mss k W"

lemma lit_flight_len: "lit_flight E mss k W \<Longrightarrow> length k \<le> unat mss"
  by (simp add: lit_flight_def lit_ok_def)

lemma len_le_mss: "n \<le> unat (mss :: u16) \<Longrightarrow> unat (of_nat n :: u32) = n \<and> (ucast (of_nat n :: u32) :: u16) = of_nat n
    \<and> (of_nat n :: u16) \<le> mss"
proof -
  assume n: "n \<le> unat mss"
  then have "n < 65536" using unat_u16_less [of mss] by (simp del: unat_u16_less)
  then show ?thesis
    using n by (simp add: unat_of_nat_small word_unat_eq_iff word_le_nat_alt unsigned_ucast_eq take_bit_nat_eq_self_iff)
qed

lemma w_send_lit:
  assumes "lit_ok E mss k W" "ps_lc (hs_sout (w_conn W)) = LC_INIT" "ev_mss e = mss"
  shows "\<exists>s. w_send e (we_lit E k) (of_nat (length k)) W = Some (PT_WAITING, upd_conn (\<lambda>h. h\<lparr> hs_sout := s \<rparr>) (W\<lparr> w_out := k \<rparr>))
    \<and> in_flight LC_SEND (we_lit E k) (of_nat (length k)) s"
proof -
  have n: "unat (of_nat (length k) :: u32) = length k" "(ucast (of_nat (length k) :: u32) :: u16) = of_nat (length k)"
    using assms(1) len_le_mss [of "length k" mss] by (simp_all add: lit_ok_def)
  have "mem_read (w_mem W) (we_lit E k) (length k) = k" using assms(1) by (simp add: lit_ok_def mem_at_read)
  then show ?thesis
    using w_send_start [OF assms(2), of "of_nat (length k)" e "we_lit E k"] assms(1,3) n by (auto simp: lit_ok_def)
qed

lemma send_type_start:
  assumes "lit_ok E mss k W" "ps_lc (hs_sout (w_conn W)) = LC_INIT" "ev_mss e = mss"
  shows "\<exists>s. send_type E e k W = Some (PT_WAITING, sout_at (SOUT_TYPE k) (upd_conn (\<lambda>h. h\<lparr> hs_sout := s \<rparr>) (W\<lparr> w_out := k \<rparr>)))
    \<and> in_flight LC_SEND (we_lit E k) (of_nat (length k)) s"
  using w_send_lit [OF assms] by (auto simp: send_type_def)

text \<open>What follows the headers of a file: \<open>f\<close> is the file name.\<close>

lemma send_headers_start:
  assumes "lit_ok E mss st W" "ps_lc (hs_sout (w_conn W)) = LC_INIT" "ev_mss e = mss" "hs_soutpt (w_conn W) = SOUT_INIT"
  shows "\<exists>s. send_headers E e st W = Some (PT_WAITING, sout_at SOUT_STATUS (upd_conn (\<lambda>h. h\<lparr> hs_sout := s \<rparr>) (W\<lparr> w_out := st \<rparr>)))
    \<and> in_flight LC_SEND (we_lit E st) (of_nat (length st)) s"
  using w_send_lit [OF assms(1-3)] assms(4) by (auto simp: send_headers_def send_status_def)

text \<open>Waiting for the acknowledgement of a header.\<close>

lemma w_send_lit_wait:
  assumes "lit_flight E mss k W" "\<not> ev_acked e" "ev_mss e = mss"
  shows "\<exists>s. (\<forall>q len. w_send e q len W = Some (PT_WAITING, upd_conn (\<lambda>h. h\<lparr> hs_sout := s \<rparr>) (W\<lparr> w_out := if ev_rexmit e then k else w_out W \<rparr>)))
    \<and> in_flight LC_SEND (we_lit E k) (of_nat (length k)) s"
proof -
  let ?s = "hs_sout (w_conn W)"
  have fl: "in_flight LC_SEND (we_lit E k) (of_nat (length k)) ?s" and lit: "lit_ok E mss k W" using assms(1) by (simp_all add: lit_flight_def)
  have n: "unat (of_nat (length k) :: u16) = length k"
  proof -
    have "length k < 65536" using lit unat_u16_less [of mss] by (simp add: lit_ok_def del: unat_u16_less)
    then show ?thesis by (simp add: unat_of_nat_small)
  qed
  have nn: "(of_nat (length k) :: u16) \<le> ev_mss e" "0 < (of_nat (length k) :: u16)"
    using lit assms(3) n by (auto simp: lit_ok_def word_le_nat_alt word_less_nat_alt)
  have rd: "mem_read (w_mem W) (we_lit E k) (length k) = k" using lit by (simp add: lit_ok_def mem_at_read)
  let ?s' = "if ev_rexmit e then ?s\<lparr> ps_state := STATE_DATA_SENT, ps_lc := LC_SEND \<rparr> else ?s\<lparr> ps_lc := LC_SEND \<rparr>"
  have "psock_send_wait e (w_mem W) (?s, w_out W) = Some (PT_WAITING, ?s', if ev_rexmit e then k else w_out W)"
  proof (cases "ev_rexmit e")
    case True
    then show ?thesis using send_wait_sent [of ?s e "of_nat (length k)" "w_mem W" "w_out W"] fl assms(2) nn
      by (simp add: in_flight_def n rd)
  next
    case False
    then show ?thesis using fl assms(2) by (subst psock_send_wait.simps) (simp add: ack_defs)
  qed
  then have "w_send e q len W = Some (PT_WAITING, upd_conn (\<lambda>h. h\<lparr> hs_sout := ?s' \<rparr>) (W\<lparr> w_out := if ev_rexmit e then k else w_out W \<rparr>))" for q len
    using fl by (simp add: w_send_def psock_send_def in_flight_def)
  then show ?thesis using fl by (intro exI [of _ ?s']) (simp add: in_flight_def)
qed

lemma send_headers_wait:
  assumes "hs_soutpt (w_conn W) = SOUT_STATUS \<and> j = st \<or> hs_soutpt (w_conn W) = SOUT_TYPE k \<and> j = k"
    and "lit_flight E mss j W" "\<not> ev_acked e" "ev_mss e = mss"
  shows "\<exists>s. send_headers E e st W = Some (PT_WAITING, upd_conn (\<lambda>h. h\<lparr> hs_sout := s \<rparr>) (W\<lparr> w_out := if ev_rexmit e then j else w_out W \<rparr>))
    \<and> in_flight LC_SEND (we_lit E j) (of_nat (length j)) s"
proof -
  obtain s where s: "\<And>q len. w_send e q len W = Some (PT_WAITING, upd_conn (\<lambda>h. h\<lparr> hs_sout := s \<rparr>) (W\<lparr> w_out := if ev_rexmit e then j else w_out W \<rparr>))"
    "in_flight LC_SEND (we_lit E j) (of_nat (length j)) s" using w_send_lit_wait [OF assms(2-4)] by blast
  have upd: "hs_soutpt h = l \<Longrightarrow> h\<lparr> hs_sout := s, hs_soutpt := l \<rparr> = h\<lparr> hs_sout := s \<rparr>" for h :: "'a httpd_state" and l
    by (cases h) simp
  have "send_headers E e st W = Some (PT_WAITING, upd_conn (\<lambda>h. h\<lparr> hs_sout := s \<rparr>) (W\<lparr> w_out := if ev_rexmit e then j else w_out W \<rparr>))"
    using assms(1) s(1) upd [of "w_conn W"] by (auto simp: send_headers_def send_status_def send_type_def)
  then show ?thesis using s(2) by blast
qed

lemma send_headers_status_acked:
  assumes "hs_soutpt (w_conn W) = SOUT_STATUS" "lit_flight E mss st W" "ev_acked e" "ev_mss e = mss"
    and "c_string (hs_filename (w_conn W)) = Some f" "lit_ok E mss (content_type f) W"
  shows "\<exists>s. send_headers E e st W = Some (PT_WAITING, sout_at (SOUT_TYPE (content_type f))
      (upd_conn (\<lambda>h. h\<lparr> hs_sout := s \<rparr>) (W\<lparr> w_out := content_type f \<rparr>)))
    \<and> in_flight LC_SEND (we_lit E (content_type f)) (of_nat (length (content_type f))) s"
proof -
  have "(of_nat (length st) :: u16) \<le> ev_mss e" using assms(2,4) len_le_mss [of "length st" mss] lit_flight_len [OF assms(2)] by simp
  then obtain s1 where s1: "w_send e (we_lit E st) (of_nat (length st)) W = Some (PT_ENDED, upd_conn (\<lambda>h. h\<lparr> hs_sout := s1 \<rparr>) W)"
    "ps_lc s1 = LC_INIT" using w_send_acked [of "we_lit E st" "of_nat (length st)" W e] assms(2,3) by (auto simp: lit_flight_def)
  let ?W = "upd_conn (\<lambda>h. h\<lparr> hs_sout := s1 \<rparr>) W"
  have "lit_ok E mss (content_type f) ?W" "ps_lc (hs_sout (w_conn ?W)) = LC_INIT" using assms(6) s1(2) by (simp_all add: lit_ok_def)
  from send_type_start [OF this assms(4)] obtain s where
    s: "send_type E e (content_type f) ?W = Some (PT_WAITING, sout_at (SOUT_TYPE (content_type f))
      (upd_conn (\<lambda>h. h\<lparr> hs_sout := s \<rparr>) (?W\<lparr> w_out := content_type f \<rparr>)))"
    "in_flight LC_SEND (we_lit E (content_type f)) (of_nat (length (content_type f))) s" by blast
  then show ?thesis using s1(1) assms(1,5) by (auto simp: send_headers_def send_status_def)
qed

lemma send_headers_type_acked:
  assumes "hs_soutpt (w_conn W) = SOUT_TYPE k" "lit_flight E mss k W" "ev_acked e" "ev_mss e = mss"
  shows "\<exists>s. send_headers E e st W = Some (PT_ENDED, sout_at SOUT_INIT (upd_conn (\<lambda>h. h\<lparr> hs_sout := s \<rparr>) W)) \<and> ps_lc s = LC_INIT"
proof -
  have "(of_nat (length k) :: u16) \<le> ev_mss e" using assms(2,4) len_le_mss [of "length k" mss] lit_flight_len [OF assms(2)] by simp
  then obtain s where "w_send e (we_lit E k) (of_nat (length k)) W = Some (PT_ENDED, upd_conn (\<lambda>h. h\<lparr> hs_sout := s \<rparr>) W)"
    "ps_lc s = LC_INIT" using w_send_acked [of "we_lit E k" "of_nat (length k)" W e] assms(2,3) by (auto simp: lit_flight_def)
  then show ?thesis using assms(1) by (auto simp: send_headers_def send_type_def)
qed

section \<open>A static page on its way\<close>

text \<open>
  The places where the output thread waits while it sends a file \<open>c\<close> with the name \<open>f\<close>, with the
  segment in flight and those that are still to follow.
\<close>

definition static_call :: "u16 \<Rightarrow> uip_call \<Rightarrow> bool" where
  "static_call mss x \<longleftrightarrow> ev_mss (fst x) = mss \<and> length (snd x) = unat mss"

abbreviation pieces_of :: "u16 \<Rightarrow> u8 list \<Rightarrow> page_seg list" where
  "pieces_of mss c \<equiv> map Piece (chunks (unat mss) c)"

definition static_flight :: "('L, 'f) web_env \<Rightarrow> u16 \<Rightarrow> u8 list \<Rightarrow> page_seg \<Rightarrow> page_seg list \<Rightarrow> 'L web \<Rightarrow> bool" where
  "static_flight E mss f cur ds W \<longleftrightarrow> 0 < unat mss \<and> \<not> w_close W \<and>
     (hs_outputpt (w_conn W) = OUT_HEADERS \<and> c_string (hs_filename (w_conn W)) = Some f \<and> static_name f \<and>
        (\<exists>c. c \<noteq> [] \<and> file_here E (unat mss) c W \<and>
          (hs_soutpt (w_conn W) = SOUT_STATUS \<and> lit_flight E mss http_header_200 W \<and> lit_ok E mss (content_type f) W
             \<and> cur = Header http_header_200 \<and> ds = Header (content_type f) # pieces_of mss c
           \<or> hs_soutpt (w_conn W) = SOUT_TYPE (content_type f) \<and> lit_flight E mss (content_type f) W
             \<and> cur = Header (content_type f) \<and> ds = pieces_of mss c))
      \<or> hs_outputpt (w_conn W) = OUT_FILE \<and>
        (\<exists>c. file_flight E mss c W \<and> cur = Piece (take (unat mss) c) \<and> ds = pieces_of mss (drop (unat mss) c)))"

lemma out_body_static:
  assumes "c_string (hs_filename (w_conn W)) = Some f" "static_name f"
  shows "out_body E e W = out_wait OUT_FILE out_end (send_file E e W)"
  using assms by (auto simp: out_body_def static_name_def Let_def split: option.splits)

lemma file_flight_out_at [simp]: "file_flight E mss c (out_at l W) = file_flight E mss c W"
  by (simp add: file_flight_def file_here_def)

lemma static_flight_file:
  assumes "file_flight E mss c W" "0 < unat mss" "\<not> w_close W" "ds = pieces_of mss (drop (unat mss) c)" "cur = Piece (take (unat mss) c)"
  shows "static_flight E mss f cur ds (out_at OUT_FILE W)"
  using assms by (auto simp: static_flight_def)

lemma pieces_step: "0 < unat (mss :: u16) \<Longrightarrow> c \<noteq> [] \<Longrightarrow> pieces_of mss c = Piece (take (unat mss) c) # pieces_of mss (drop (unat mss) c)"
  by (subst chunks.simps) simp

text \<open>What uIP leaves in its buffer does not touch what the thread needs.\<close>

lemma lit_ok_write:
  assumes "lit_ok E mss k W" "length b = unat mss"
  shows "lit_ok E mss k (W\<lparr> w_mem := mem_write (w_mem W) (we_appdata E) b \<rparr>)"
proof -
  have "length b \<le> 4294967296" using assms(2) unat_u16_less [of mss] by (simp del: unat_u16_less)
  then show ?thesis using assms mem_read_write_apart [of "we_lit E k" "length k" "we_appdata E" b "w_mem W"]
    by (simp add: lit_ok_def mem_at_read)
qed

lemma file_here_appdata:
  assumes "file_here E (unat mss) c W" "length b = unat (mss :: u16)"
  shows "file_here E (unat mss) c (W\<lparr> w_mem := mem_write (w_mem W) (we_appdata E) b \<rparr>)"
proof -
  have "length b \<le> 4294967296" using assms(2) unat_u16_less [of mss] by (simp del: unat_u16_less)
  then show ?thesis using assms mem_read_write_apart [of "hs_data (w_conn W)" "length c" "we_appdata E" b "w_mem W"]
    by (simp add: file_here_def mem_at_read)
qed

lemma static_flight_write:
  assumes "static_flight E mss f cur ds W" "length b = unat mss"
  shows "static_flight E mss f cur ds (W\<lparr> w_mem := mem_write (w_mem W) (we_appdata E) b \<rparr>)"
proof -
  let ?W = "W\<lparr> w_mem := mem_write (w_mem W) (we_appdata E) b \<rparr>"
  have "file_here E (unat mss) c ?W" if "file_here E (unat mss) c W" for c using file_here_appdata [OF that assms(2)] .
  moreover have "lit_ok E mss k ?W" if "lit_ok E mss k W" for k using lit_ok_write [OF that assms(2)] .
  moreover from calculation have "file_flight E mss c ?W" if "file_flight E mss c W" for c using that by (simp add: file_flight_def)
  moreover from calculation have "lit_flight E mss k ?W" if "lit_flight E mss k W" for k using that by (simp add: lit_flight_def)
  ultimately show ?thesis using assms(1) unfolding static_flight_def by simp blast
qed

lemma static_wait:
  assumes "static_flight E mss f cur ds W" "ev_mss e = mss" "\<not> ev_acked e" "w_out W = []"
    and "mem_read (w_mem W) (we_appdata E) (unat mss) = b"
  shows "\<exists>W'. handle_output E e W = Some W' \<and> w_out W' = (if ev_rexmit e then seg_again cur b else []) \<and> \<not> w_close W'
    \<and> static_flight E mss f cur ds W'"
proof (cases "hs_outputpt (w_conn W) = OUT_FILE")
  case True
  then obtain c where c: "file_flight E mss c W" "ds = pieces_of mss (drop (unat mss) c)" "cur = Piece (take (unat mss) c)"
    using assms(1) by (auto simp: static_flight_def)
  have m: "0 < unat mss" "\<not> w_close W" using assms(1) by (simp_all add: static_flight_def)
  from send_file_wait [OF c(1) assms(3,2) m(1) assms(5)] obtain W' where
    w: "send_file E e W = Some (PT_WAITING, W')" "w_out W' = (if ev_rexmit e then take (length (take (unat mss) c)) b else w_out W)"
      "file_flight E mss c W'" "w_close W' = w_close W" by blast
  have "handle_output E e W = Some (out_at OUT_FILE W')" using True w(1) by (simp add: handle_output_def out_wait_def)
  moreover have "static_flight E mss f cur ds (out_at OUT_FILE W')" using w(4) m c by (intro static_flight_file [OF w(3)]) simp_all
  ultimately show ?thesis using w(2,4) m(2) assms(4) c(3) by simp
next
  case False
  then have h: "hs_outputpt (w_conn W) = OUT_HEADERS" "c_string (hs_filename (w_conn W)) = Some f" "static_name f"
    using assms(1) by (auto simp: static_flight_def)
  obtain c where c: "c \<noteq> []" "file_here E (unat mss) c W"
    "hs_soutpt (w_conn W) = SOUT_STATUS \<and> lit_flight E mss http_header_200 W \<and> lit_ok E mss (content_type f) W
             \<and> cur = Header http_header_200 \<and> ds = Header (content_type f) # pieces_of mss c
     \<or> hs_soutpt (w_conn W) = SOUT_TYPE (content_type f) \<and> lit_flight E mss (content_type f) W
             \<and> cur = Header (content_type f) \<and> ds = pieces_of mss c"
    using assms(1) False by (auto simp: static_flight_def)
  obtain j where j: "cur = Header j" "lit_flight E mss j W"
    "hs_soutpt (w_conn W) = SOUT_STATUS \<and> j = http_header_200 \<or> hs_soutpt (w_conn W) = SOUT_TYPE (content_type f) \<and> j = content_type f"
    using c(3) by blast
  from send_headers_wait [OF j(3,2) assms(3,2)] obtain s where
    s: "send_headers E e http_header_200 W = Some (PT_WAITING, upd_conn (\<lambda>h. h\<lparr> hs_sout := s \<rparr>) (W\<lparr> w_out := if ev_rexmit e then j else w_out W \<rparr>))"
    "in_flight LC_SEND (we_lit E j) (of_nat (length j)) s" by blast
  let ?W = "out_at OUT_HEADERS (upd_conn (\<lambda>h. h\<lparr> hs_sout := s \<rparr>) (W\<lparr> w_out := if ev_rexmit e then j else w_out W \<rparr>))"
  have "handle_output E e W = Some ?W" using h(1) s(1) by (simp add: handle_output_def out_200_def out_wait_def)
  moreover have "static_flight E mss f cur ds ?W"
    using assms(1) h c j s(2) by (auto simp: static_flight_def file_here_def lit_flight_def lit_ok_def)
  moreover have "\<not> w_close ?W" using assms(1) by (simp add: static_flight_def)
  ultimately show ?thesis using assms(4) j(1) by (intro exI [of _ ?W]) simp
qed

lemma static_acked_file:
  assumes "file_flight E mss c W" "hs_outputpt (w_conn W) = OUT_FILE" "0 < unat mss" "\<not> w_close W" "ev_mss e = mss" "ev_acked e" "w_out W = []"
  shows "\<exists>W'. handle_output E e W = Some W' \<and>
    (case pieces_of mss (drop (unat mss) c) of [] \<Rightarrow> w_out W' = [] \<and> w_close W'
     | d # ds' \<Rightarrow> w_out W' = seg_bytes d \<and> \<not> w_close W' \<and> static_flight E mss f d ds' W')"
proof -
  note r = send_file_acked [OF assms(1,6,5,3)]
  show ?thesis
  proof (cases "unat mss < length c")
    case long: True
    obtain W' where w: "send_file E e W = Some (PT_WAITING, W')" "w_out W' = take (unat mss) (drop (unat mss) c)"
      "file_flight E mss (drop (unat mss) c) W'" "w_close W' = w_close W" using r long by blast
    have "handle_output E e W = Some (out_at OUT_FILE W')" using assms(2) w(1) by (simp add: handle_output_def out_wait_def)
    moreover have "static_flight E mss f (Piece (take (unat mss) (drop (unat mss) c))) (pieces_of mss (drop (unat mss) (drop (unat mss) c)))
        (out_at OUT_FILE W')"
      using w(4) assms(3,4) by (intro static_flight_file [OF w(3)]) simp_all
    moreover have "pieces_of mss (drop (unat mss) c)
        = Piece (take (unat mss) (drop (unat mss) c)) # pieces_of mss (drop (unat mss) (drop (unat mss) c))"
      using long by (intro pieces_step assms(3)) simp
    ultimately show ?thesis using w(2,4) assms(4) by (simp del: drop_drop)
  next
    case False
    then obtain W' where "send_file E e W = Some (PT_ENDED, W')" "w_out W' = w_out W" using r by auto
    then have "handle_output E e W = Some (out_at OUT_INIT (W'\<lparr> w_close := True \<rparr>))" "w_out W' = []"
      using assms(2,7) by (simp_all add: handle_output_def out_wait_def out_end_def)
    then show ?thesis using False by simp
  qed
qed

lemma static_acked_status:
  assumes "hs_outputpt (w_conn W) = OUT_HEADERS" "c_string (hs_filename (w_conn W)) = Some f" "static_name f" "0 < unat mss" "\<not> w_close W"
    and "c \<noteq> []" "file_here E (unat mss) c W" "hs_soutpt (w_conn W) = SOUT_STATUS" "lit_flight E mss http_header_200 W"
    and "lit_ok E mss (content_type f) W" "ev_mss e = mss" "ev_acked e"
  shows "\<exists>W'. handle_output E e W = Some W' \<and> w_out W' = content_type f \<and> \<not> w_close W'
    \<and> static_flight E mss f (Header (content_type f)) (pieces_of mss c) W'"
proof -
  obtain s where s: "send_headers E e http_header_200 W = Some (PT_WAITING, sout_at (SOUT_TYPE (content_type f))
      (upd_conn (\<lambda>h. h\<lparr> hs_sout := s \<rparr>) (W\<lparr> w_out := content_type f \<rparr>)))"
    "in_flight LC_SEND (we_lit E (content_type f)) (of_nat (length (content_type f))) s"
    using send_headers_status_acked [OF assms(8,9,12,11,2,10)] by blast
  let ?W = "out_at OUT_HEADERS (sout_at (SOUT_TYPE (content_type f)) (upd_conn (\<lambda>h. h\<lparr> hs_sout := s \<rparr>) (W\<lparr> w_out := content_type f \<rparr>)))"
  have "handle_output E e W = Some ?W" using assms(1) s(1) by (simp add: handle_output_def out_200_def out_wait_def)
  moreover have "static_flight E mss f (Header (content_type f)) (pieces_of mss c) ?W"
    using s(2) assms by (auto simp: static_flight_def lit_flight_def file_here_def lit_ok_def)
  ultimately show ?thesis using assms(5) by (intro exI [of _ ?W]) simp
qed

lemma static_acked_type:
  assumes "hs_outputpt (w_conn W) = OUT_HEADERS" "c_string (hs_filename (w_conn W)) = Some f" "static_name f" "0 < unat mss" "\<not> w_close W"
    and "c \<noteq> []" "file_here E (unat mss) c W" "hs_soutpt (w_conn W) = SOUT_TYPE (content_type f)" "lit_flight E mss (content_type f) W"
    and "ev_mss e = mss" "ev_acked e"
  shows "\<exists>W'. handle_output E e W = Some W' \<and> w_out W' = take (unat mss) c \<and> \<not> w_close W'
    \<and> static_flight E mss f (Piece (take (unat mss) c)) (pieces_of mss (drop (unat mss) c)) W'"
proof -
  obtain s where s: "send_headers E e http_header_200 W = Some (PT_ENDED, sout_at SOUT_INIT (upd_conn (\<lambda>h. h\<lparr> hs_sout := s \<rparr>) W))"
    "ps_lc s = LC_INIT" using send_headers_type_acked [OF assms(8,9,11,10)] by blast
  let ?W = "sout_at SOUT_INIT (upd_conn (\<lambda>h. h\<lparr> hs_sout := s \<rparr>) W)"
  have "file_here E (unat mss) c ?W" using assms(7) by (simp add: file_here_def)
  from send_file_loop_start [OF _ assms(10,4,6) this] s(2) obtain W' where
    w: "send_file_loop E e ?W = Some (PT_WAITING, W')" "w_out W' = take (unat mss) c" "file_flight E mss c W'" "w_close W' = w_close W"
    by auto
  have "handle_output E e W = Some (out_at OUT_FILE W')"
    using assms(1-3) s(1) w(1) out_body_static [of ?W f E e] by (simp add: handle_output_def out_200_def out_wait_def send_file_def)
  moreover have "static_flight E mss f (Piece (take (unat mss) c)) (pieces_of mss (drop (unat mss) c)) (out_at OUT_FILE W')"
    using w(4) assms(4,5) by (intro static_flight_file [OF w(3)]) simp_all
  ultimately show ?thesis using w(2,4) assms(5) by simp
qed

lemma static_acked:
  assumes "static_flight E mss f cur ds W" "ev_mss e = mss" "ev_acked e" "w_out W = []"
  shows "\<exists>W'. handle_output E e W = Some W' \<and>
    (case ds of [] \<Rightarrow> w_out W' = [] \<and> w_close W' | d # ds' \<Rightarrow> w_out W' = seg_bytes d \<and> \<not> w_close W' \<and> static_flight E mss f d ds' W')"
proof -
  have m: "0 < unat mss" "\<not> w_close W" using assms(1) by (simp_all add: static_flight_def)
  from assms(1) consider
    (piece) c where "hs_outputpt (w_conn W) = OUT_FILE" "file_flight E mss c W" "ds = pieces_of mss (drop (unat mss) c)"
  | (stat) c where "hs_outputpt (w_conn W) = OUT_HEADERS" "c_string (hs_filename (w_conn W)) = Some f" "static_name f"
      "c \<noteq> []" "file_here E (unat mss) c W" "hs_soutpt (w_conn W) = SOUT_STATUS" "lit_flight E mss http_header_200 W"
      "lit_ok E mss (content_type f) W" "ds = Header (content_type f) # pieces_of mss c"
  | (ctype) c where "hs_outputpt (w_conn W) = OUT_HEADERS" "c_string (hs_filename (w_conn W)) = Some f" "static_name f"
      "c \<noteq> []" "file_here E (unat mss) c W" "hs_soutpt (w_conn W) = SOUT_TYPE (content_type f)" "lit_flight E mss (content_type f) W"
      "ds = pieces_of mss c"
    unfolding static_flight_def by blast
  then show ?thesis
  proof cases
    case piece
    then show ?thesis using static_acked_file [OF piece(2,1) m assms(2-4), of f] by simp
  next
    case stat
    then show ?thesis using static_acked_status [OF stat(1-3) m stat(4-8) assms(2,3)] by simp
  next
    case ctype
    then show ?thesis using static_acked_type [OF ctype(1-3) m ctype(4-7) assms(2,3)] pieces_step [OF m(1) ctype(4)] by simp
  qed
qed

interpretation static: sender "uip_calls E" "static_call mss" "static_flight E mss f"
  for E mss f
proof unfold_locales
  fix cur ds and x :: uip_call and W :: "'a web"
  let ?W = "W\<lparr> w_mem := mem_write (w_mem W) (we_appdata E) (snd x) \<rparr>"
  assume a: "static_flight E mss f cur ds W" "static_call mss x" "\<not> ev_acked (fst x)" "w_out W = []"
  have len: "length (snd x) = unat mss" using a(2) by (simp add: static_call_def)
  have "mem_read (w_mem ?W) (we_appdata E) (unat mss) = snd x"
    using mem_read_write [of "snd x" "w_mem W" "we_appdata E"] len unat_u16_less [of mss] by (simp del: unat_u16_less)
  from static_wait [OF static_flight_write [OF a(1) len] _ a(3) _ this] a(2,4)
  show "\<exists>W'. uip_calls E x W = Some W' \<and> w_out W' = (if ev_rexmit (fst x) then seg_again cur (snd x) else [])
      \<and> \<not> w_close W' \<and> static_flight E mss f cur ds W'"
    by (simp add: uip_calls_def static_call_def)
next
  fix cur and x :: uip_call and W :: "'a web"
  assume a: "static_flight E mss f cur [] W" "static_call mss x" "ev_acked (fst x)" "w_out W = []"
  then have "length (snd x) = unat mss" by (simp add: static_call_def)
  from static_acked [OF static_flight_write [OF a(1) this] _ a(3)] a(2,4)
  show "\<exists>W'. uip_calls E x W = Some W' \<and> w_out W' = [] \<and> w_close W'" by (simp add: uip_calls_def static_call_def)
next
  fix cur d ds and x :: uip_call and W :: "'a web"
  assume a: "static_flight E mss f cur (d # ds) W" "static_call mss x" "ev_acked (fst x)" "w_out W = []"
  then have "length (snd x) = unat mss" by (simp add: static_call_def)
  from static_acked [OF static_flight_write [OF a(1) this] _ a(3)] a(2,4)
  show "\<exists>W'. uip_calls E x W = Some W' \<and> w_out W' = seg_bytes d \<and> \<not> w_close W' \<and> static_flight E mss f d ds W'"
    by (simp add: uip_calls_def static_call_def)
qed (auto simp: static_flight_def file_here_def lit_flight_def lit_ok_def file_flight_def)

section \<open>A static page from the card to the client\<close>

text \<open>
  The file buffers after the first page: the large buffer is there and the cache is never filled,
  because a file would have to be shorter than \<open>FILE_CACHE_SIZE\<close>, which is 0.
\<close>

definition fs_ready :: "file_fs \<Rightarrow> bool" where
  "fs_ready fs \<longleftrightarrow> ff_huge fs \<noteq> 0 \<and> (\<forall>i < FILE_CACHE_NR. fc_name (ff_cache fs ! i) = [])"

definition on_card :: "('L, 'f) web_env \<Rightarrow> u8 list \<Rightarrow> u8 list \<Rightarrow> bool" where
  "on_card E name c \<longleftrightarrow> (\<exists>g. we_open E (FILE_NAME_PREFIX @ name) = Some g \<and> we_stat E g = Some (length c) \<and> we_read E g (length c) = c)"

lemma httpd_fs_open_reads:
  assumes "fs_ready (w_fs W)" "on_card E name c" "name \<noteq> []" "length name \<le> FILE_NAME_MAX_SIZE" "length c + 1 < FILE_HUGE_SIZE"
  shows "httpd_fs_open E name W = Some (True, upd_conn (\<lambda>h. h\<lparr> hs_flen := of_nat (length c), hs_data := ff_huge (w_fs W) \<rparr>)
    (W\<lparr> w_mem := (mem_write (w_mem W) (ff_huge (w_fs W)) c)(ff_huge (w_fs W) + of_nat (length c + 1) := 0) \<rparr>))"
proof -
  obtain g where g: "we_open E (FILE_NAME_PREFIX @ name) = Some g" "we_stat E g = Some (length c)" "we_read E g (length c) = c"
    using assms(2) by (auto simp: on_card_def)
  have "httpd_fs_search_name name (w_fs W) = None"
    using assms(1,3) by (auto simp: httpd_fs_search_name_def find_None_iff fs_ready_def)
  then show ?thesis
    using assms(1,4,5) g
    by (simp add: httpd_fs_open_def httpd_fs_int_def fs_ready_def fs_load_def FILE_CACHE_SIZE_def Let_def del: of_nat_add)
qed

text \<open>The constants of the two headers lie outside the large buffer.\<close>

definition lits_ok :: "('L, 'f) web_env \<Rightarrow> u16 \<Rightarrow> u8 list \<Rightarrow> 'L web \<Rightarrow> bool" where
  "lits_ok E mss f W \<longleftrightarrow> (\<forall>k \<in> {http_header_200, content_type f}. lit_ok E mss k W
     \<and> apart (we_lit E k) (length k) (ff_huge (w_fs W)) FILE_HUGE_SIZE)"

lemma write_outside:
  assumes "apart s n p FILE_HUGE_SIZE" "length c + 1 < FILE_HUGE_SIZE"
  shows "mem_read ((mem_write m p c)(p + of_nat (length c + 1) := x)) s n = mem_read m s n"
proof -
  have c: "length c \<le> 4294967296" "length c + 1 < 4294967296" using assms(2) by (simp_all add: FILE_HUGE_SIZE_def)
  have off: "off_from p (p + of_nat (length c + 1)) = length c + 1" by (rule off_from_offset [OF c(2)])
  show ?thesis
  proof (rule nth_equalityI)
    fix i assume "i < length (mem_read ((mem_write m p c)(p + of_nat (length c + 1) := x)) s n)"
    then have i: "i < n" by simp
    then have far: "FILE_HUGE_SIZE \<le> off_from p (s + of_nat i)" using assms(1) by (simp add: apart_def)
    then have "s + of_nat i \<noteq> p + of_nat (length c + 1)" using off assms(2) by force
    moreover have "mem_write m p c (s + of_nat i) = m (s + of_nat i)" using far assms(2) c(1) by (simp add: mem_write_apply)
    ultimately show "mem_read ((mem_write m p c)(p + of_nat (length c + 1) := x)) s n ! i = mem_read m s n ! i"
      using i by (simp only: nth_mem_read fun_upd_apply if_False)
  qed simp
qed

lemma file_loaded:
  assumes "length c + 1 < FILE_HUGE_SIZE"
  shows "mem_at ((mem_write m p c)(p + of_nat (length c + 1) := x)) p c"
proof -
  have c: "length c \<le> 4294967296" "length c + 1 < 4294967296" using assms by (simp_all add: FILE_HUGE_SIZE_def)
  have "mem_read ((mem_write m p c)(p + of_nat (length c + 1) := x)) p (length c) = mem_read (mem_write m p c) p (length c)"
  proof (rule nth_equalityI)
    fix i assume "i < length (mem_read ((mem_write m p c)(p + of_nat (length c + 1) := x)) p (length c))"
    then have i: "i < length c" by simp
    then have "off_from p (p + of_nat i) = i" using c(2) by (intro off_from_offset) simp
    moreover have "off_from p (p + of_nat (length c + 1)) = length c + 1" by (rule off_from_offset [OF c(2)])
    ultimately have "p + of_nat i \<noteq> p + of_nat (length c + 1)" using i by (metis add.commute less_irrefl not_add_less2 trans_less_add1)
    then show "mem_read ((mem_write m p c)(p + of_nat (length c + 1) := x)) p (length c) ! i = mem_read (mem_write m p c) p (length c) ! i"
      using i by (simp only: nth_mem_read fun_upd_apply if_False)
  qed simp
  then show ?thesis using mem_read_write [OF c(1)] by (simp add: mem_at_read)
qed

text \<open>
  C3: A static page of the card on its way to the client, whatever acknowledgements, retransmissions
  and other events come and whatever uIP and other connections leave at \<open>uip_appdata\<close> before each
  call. The status line is handed to uIP, then the header for the type of the page, then the bytes of
  the file in segments of the maximum size: each when the one before is acknowledged, and nothing at
  events that neither acknowledge nor ask for a retransmission; after the last acknowledgement the
  connection is closed. So without retransmissions the client has the page whole. When uIP asks for a
  retransmission, a header is sent again as it was, but in place of a piece of the file goes what lies
  at \<open>uip_appdata\<close> by then (the comment in \<open>psock.c\<close> says that the piece is generated again). This is
  for a page that is not empty and fits the large buffer, with a name of at most \<open>FILE_NAME_MAX_SIZE\<close>
  bytes, while no other page is loaded into the buffer and the maximum segment size stays the same and
  is not less than the headers.
\<close>

theorem static_page_sent:
  assumes "hs_outputpt (w_conn W) = OUT_INIT" "hs_soutpt (w_conn W) = SOUT_INIT" "ps_lc (hs_sout (w_conn W)) = LC_INIT"
    and "c_string (hs_filename (w_conn W)) = Some f" "static_name f" "f \<noteq> []" "length f \<le> FILE_NAME_MAX_SIZE"
    and "fs_ready (w_fs W)" "on_card E f c" "c \<noteq> []" "length c + 1 < FILE_HUGE_SIZE"
    and "lits_ok E mss f W" "apart (ff_huge (w_fs W)) (length c) (we_appdata E) (unat mss)" "0 < unat mss" "\<not> w_close W"
    and "\<forall>x \<in> set (x0 # es). ev_mss (fst x) = mss \<and> length (snd x) = unat mss"
  shows "\<exists>W'. out_run (uip_calls E) (x0 # es) W
      = Some (http_header_200 # page_sent (Header http_header_200) (Header (content_type f) # pieces_of mss c) es, W')
    \<and> w_close W' = (length (content_type f # chunks (unat mss) c) < acks es)
    \<and> ((\<forall>x \<in> set es. \<not> ev_rexmit (fst x)) \<and> length (content_type f # chunks (unat mss) c) \<le> acks es \<longrightarrow>
        concat (page_sent (Header http_header_200) (Header (content_type f) # pieces_of mss c) es) = content_type f @ c)"
proof -
  let ?p = "ff_huge (w_fs W)"
  let ?base = "mem_write (w_mem W) (we_appdata E) (snd x0)"
  let ?V = "W\<lparr> w_out := [], w_mem := ?base \<rparr>"
  let ?m = "(mem_write ?base ?p c)(?p + of_nat (length c + 1) := 0)"
  define W1 where "W1 = upd_conn (\<lambda>h. h\<lparr> hs_flen := of_nat (length c), hs_data := ?p \<rparr>) (?V\<lparr> w_mem := ?m \<rparr>)"
  have x0: "ev_mss (fst x0) = mss" "length (snd x0) = unat mss" using assms(16) by simp_all
  have open1: "httpd_fs_open E f ?V = Some (True, W1)"
    using httpd_fs_open_reads [of ?V E f c] assms(6-9,11) by (simp add: W1_def del: of_nat_add)
  have lit: "lit_ok E mss k W1" if "k = http_header_200 \<or> k = content_type f" for k
  proof -
    have k: "lit_ok E mss k W" "apart (we_lit E k) (length k) ?p FILE_HUGE_SIZE" using that assms(12) by (auto simp: lits_ok_def)
    from lit_ok_write [OF k(1) x0(2)] have "lit_ok E mss k (W\<lparr> w_mem := ?base \<rparr>)" by simp
    then show ?thesis using write_outside [OF k(2) assms(11), of ?base 0]
      by (simp add: lit_ok_def W1_def mem_at_read del: of_nat_add)
  qed
  have small: "length c < 4294967296" using assms(11) by (simp add: FILE_HUGE_SIZE_def)
  then have here: "file_here E (unat mss) c W1"
    using assms(13) file_loaded [OF assms(11), of ?base ?p 0] by (simp add: file_here_def W1_def unat_of_nat_small del: of_nat_add)
  have l200: "lit_ok E mss http_header_200 W1" by (rule lit) simp
  have w1: "ps_lc (hs_sout (w_conn W1)) = LC_INIT" "hs_soutpt (w_conn W1) = SOUT_INIT" using assms(2,3) by (simp_all add: W1_def)
  from send_headers_start [OF l200 w1(1) x0(1) w1(2)] obtain s where
    s: "send_headers E (fst x0) http_header_200 W1 = Some (PT_WAITING, sout_at SOUT_STATUS (upd_conn (\<lambda>h. h\<lparr> hs_sout := s \<rparr>) (W1\<lparr> w_out := http_header_200 \<rparr>)))"
    "in_flight LC_SEND (we_lit E http_header_200) (of_nat (length http_header_200)) s" by blast
  let ?W2 = "out_at OUT_HEADERS (sout_at SOUT_STATUS (upd_conn (\<lambda>h. h\<lparr> hs_sout := s \<rparr>) (W1\<lparr> w_out := http_header_200 \<rparr>)))"
  have step: "uip_calls E x0 (W\<lparr> w_out := [] \<rparr>) = Some ?W2"
    using assms(1,4) open1 s(1) by (simp add: uip_calls_def handle_output_def out_200_def out_wait_def)
  have "static_flight E mss f (Header http_header_200) (Header (content_type f) # pieces_of mss c) ?W2"
    using s(2) here l200 lit [of "content_type f"] assms(4,5,10,14,15)
    by (auto simp: static_flight_def lit_flight_def lit_ok_def file_here_def W1_def)
  from static.run_sends [OF this, of es] assms(16) obtain W' where
    "out_run (uip_calls E) es ?W2 = Some (page_sent (Header http_header_200) (Header (content_type f) # pieces_of mss c) es, W')"
    "w_close W' = (length (content_type f # chunks (unat mss) c) < acks es)" by (auto simp: static_call_def)
  moreover have "\<not> w_close ?W2" using assms(15) by (simp add: W1_def)
  moreover have "concat (map seg_bytes (Header (content_type f) # pieces_of mss c)) = content_type f @ c"
    using concat_chunks [OF assms(14), of c] by (simp add: comp_def)
  ultimately show ?thesis
    using step concat_page_sent [of "Header (content_type f) # pieces_of mss c" es "Header http_header_200"] by simp
qed

section \<open>Where static pages go wrong\<close>

text \<open>The wait of the generator for a piece of length 0.\<close>

definition empty_wait :: "('L, 'f) web_env \<Rightarrow> 'L web \<Rightarrow> bool" where
  "empty_wait E W \<longleftrightarrow> hs_outputpt (w_conn W) = OUT_FILE \<and> hs_soutpt (w_conn W) = SOUT_FILE
     \<and> in_flight LC_GENERATOR (we_appdata E) 0 (hs_sout (w_conn W)) \<and> \<not> w_close W"

lemma empty_wait_step:
  assumes "empty_wait E W" "\<not> ev_acked e" "\<not> ev_rexmit e"
  shows "\<exists>W'. handle_output E e W = Some W' \<and> w_out W' = w_out W \<and> empty_wait E W'"
proof -
  from w_gen_idle [OF _ assms(2,3)] assms(1) obtain s where
    s: "w_gen_send E e W = Some (PT_WAITING, upd_conn (\<lambda>h. h\<lparr> hs_sout := s \<rparr>) W)" "in_flight LC_GENERATOR (we_appdata E) 0 s"
    unfolding empty_wait_def by blast
  let ?W = "sout_at SOUT_FILE (upd_conn (\<lambda>h. h\<lparr> hs_sout := s \<rparr>) W)"
  have "send_file_loop E e W = Some (PT_WAITING, ?W)" using s(1) by (subst send_file_loop.simps) simp
  then have "handle_output E e W = Some (out_at OUT_FILE ?W)"
    using assms(1) by (simp add: handle_output_def out_wait_def send_file_def empty_wait_def)
  then show ?thesis using assms(1) s(2) by (auto simp: empty_wait_def)
qed

lemma empty_wait_run:
  assumes "empty_wait E W" "\<forall>e \<in> set es. \<not> ev_acked e \<and> \<not> ev_rexmit e"
  shows "\<exists>W'. out_run (handle_output E) es W = Some (replicate (length es) [], W') \<and> empty_wait E W'"
  using assms
proof (induction es arbitrary: W)
  case (Cons e es)
  have "empty_wait E (W\<lparr> w_out := [] \<rparr>)" using Cons.prems(1) by (simp add: empty_wait_def)
  from empty_wait_step [OF this] Cons.prems(2) obtain W1 where
    "handle_output E e (W\<lparr> w_out := [] \<rparr>) = Some W1" "w_out W1 = []" "empty_wait E W1" by auto
  with Cons.IH [of W1] Cons.prems(2) show ?case by (auto simp: empty_wait_def)
qed simp

text \<open>
  An empty file, and likewise a page that is not found when there is no \<open>/404.html\<close>, never
  completes: once the headers are acknowledged the thread waits for the acknowledgement of a segment
  that was not sent, so the connection is not closed however many events follow.
\<close>

lemma empty_page_hangs:
  assumes "hs_outputpt (w_conn W) = OUT_HEADERS" "hs_soutpt (w_conn W) = SOUT_TYPE (content_type f)" "lit_flight E mss (content_type f) W"
    and "c_string (hs_filename (w_conn W)) = Some f" "static_name f" "file_here E (unat mss) [] W" "\<not> w_close W"
    and "ev_mss e0 = mss" "ev_acked e0" "\<forall>e \<in> set es. \<not> ev_acked e \<and> \<not> ev_rexmit e"
  shows "\<exists>W'. out_run (handle_output E) (e0 # es) W = Some ([] # replicate (length es) [], W') \<and> \<not> w_close W'"
proof -
  let ?V = "W\<lparr> w_out := [] \<rparr>"
  have v: "hs_soutpt (w_conn ?V) = SOUT_TYPE (content_type f)" "lit_flight E mss (content_type f) ?V"
    using assms(2,3) by (simp_all add: lit_flight_def lit_ok_def)
  from send_headers_type_acked [OF v assms(9,8), of http_header_200] obtain s where
    s: "send_headers E e0 http_header_200 ?V = Some (PT_ENDED, sout_at SOUT_INIT (upd_conn (\<lambda>h. h\<lparr> hs_sout := s \<rparr>) ?V))"
    "ps_lc s = LC_INIT" by blast
  let ?W = "sout_at SOUT_INIT (upd_conn (\<lambda>h. h\<lparr> hs_sout := s \<rparr>) ?V)"
  have "mem_at (w_mem ?W) (hs_data (w_conn ?W)) []" "unat (hs_flen (w_conn ?W)) = length []" "ps_lc (hs_sout (w_conn ?W)) = LC_INIT"
    "0 = min (unat (ev_mss e0)) (length ([] :: u8 list))"
    using assms(6) s(2) by (simp_all add: file_here_def)
  moreover have "apart (hs_data (w_conn ?W)) (length ([] :: u8 list)) (we_appdata E) (unat (ev_mss e0))" by (simp add: apart_def)
  ultimately obtain s2 where
    s2: "w_gen_send E e0 ?W = Some (PT_WAITING, upd_conn (\<lambda>h. h\<lparr> hs_sout := s2, hs_len := 0 \<rparr>) ?W)"
    "in_flight LC_GENERATOR (we_appdata E) 0 s2" using w_gen_start [of ?W "[]" E e0 0] by auto
  let ?W2 = "out_at OUT_FILE (sout_at SOUT_FILE (upd_conn (\<lambda>h. h\<lparr> hs_sout := s2, hs_len := 0 \<rparr>) ?W))"
  have "send_file E e0 ?W = Some (PT_WAITING, sout_at SOUT_FILE (upd_conn (\<lambda>h. h\<lparr> hs_sout := s2, hs_len := 0 \<rparr>) ?W))"
    using s2(1) by (simp add: send_file_def, subst send_file_loop.simps) simp
  then have "handle_output E e0 ?V = Some ?W2"
    using assms(1,4,5) s(1) out_body_static [of ?W f E e0] by (simp add: handle_output_def out_200_def out_wait_def)
  moreover have "empty_wait E ?W2" using s2(2) assms(7) by (simp add: empty_wait_def)
  ultimately show ?thesis
    using empty_wait_run [of E ?W2 es] assms(10) by (auto simp: empty_wait_def)
qed

text \<open>
  All connections read their pages into the one large buffer: when another page is loaded while
  one is on its way, the rest that is sent comes from the other page.
\<close>

lemma page_continues_with_other_file:
  assumes "file_flight E mss c W" "hs_outputpt (w_conn W) = OUT_FILE" "0 < unat mss" "\<not> w_close W"
    and "mem_at m2 (hs_data (w_conn W)) c2" "length c2 = length c"
    and "\<forall>x \<in> set es. ev_mss (fst x) = mss \<and> length (snd x) = unat mss"
  shows "\<exists>W'. out_run (uip_calls E) es (W\<lparr> w_mem := m2 \<rparr>)
    = Some (page_sent (Piece (take (unat mss) c2)) (pieces_of mss (drop (unat mss) c2)) es, W')"
proof -
  have "file_flight E mss c2 (W\<lparr> w_mem := m2 \<rparr>)"
    using assms(1,5,6) by (auto simp: file_flight_def file_here_def)
  then have "static_flight E mss f (Piece (take (unat mss) c2)) (pieces_of mss (drop (unat mss) c2)) (W\<lparr> w_mem := m2 \<rparr>)" for f
    using assms(2-4) by (auto simp: static_flight_def)
  from static.run_sends [OF this, of es] assms(7) show ?thesis by (auto simp: static_call_def)
qed

section \<open>Examples\<close>

lemma apart_ranges:
  assumes "unat s + n \<le> 2 ^ 32" "unat p + k \<le> 2 ^ 32" "unat p + k \<le> unat s \<or> unat s + n \<le> unat p"
  shows "apart s n p k"
  unfolding apart_def
proof
  fix i assume "i \<in> {0..<n}"
  then have i: "i < n" by simp
  then have si: "unat (s + of_nat i) = unat s + i"
    using assms(1) by (simp add: unat_word_ariths unat_of_nat_small)
  show "k \<le> off_from p (s + of_nat i)"
  proof (cases "p \<le> s + of_nat i")
    case True
    then have "unat (s + of_nat i - p) = unat s + i - unat p" by (simp add: unat_sub si)
    moreover have "unat p \<le> unat s + i" using True by (simp add: word_le_nat_alt si)
    ultimately show ?thesis using assms(3) i by (simp add: off_from_def)
  next
    case False
    then have lt: "unat s + i < unat p" by (simp add: word_le_nat_alt si not_le)
    have "unat (s + of_nat i - p) = unat s + i + 2 ^ 32 - unat p"
      using lt by (simp add: unat_sub_if' si not_le)
    then show ?thesis using assms(2) lt by (simp add: off_from_def)
  qed
qed

definition ex_name :: "u8 list" where "ex_name = [0x2F, 0x61, 0x2E, 0x74, 0x78, 0x74]"

definition ex_env :: "(unit, u8 list) web_env" where
  "ex_env = \<lparr> we_api = \<lparr> lua_open = None, lua_getn = (\<lambda>_. Some 0), lua_first = (\<lambda>_. 0),
       lua_movei = (\<lambda>_ _ L. L), lua_setparam = (\<lambda>_ L. L), lua_setin = (\<lambda>_ _ _. None), lua_chunk = (\<lambda>_ L. (L, [])) \<rparr>,
     we_str = replicate 20 0, we_open = (\<lambda>p. if p = FILE_NAME_PREFIX @ ex_name then Some [1, 2, 3] else None),
     we_stat = (\<lambda>f. Some (length f)), we_read = (\<lambda>f n. take n f), we_malloc = (\<lambda>_ _. 0),
     we_lit = (\<lambda>k. if k = http_header_200 then 0x80000000 else 0x80001000), we_appdata = 0x10000000 \<rparr>"

definition ex_mem :: mem where
  "ex_mem = mem_write (mem_write (\<lambda>_. 0) 0x80000000 http_header_200) 0x80001000 http_content_type_plain"

definition ex_web :: "unit web" where
  "ex_web = \<lparr> w_conn = ex_conn\<lparr> hs_filename := ex_name @ replicate 14 0, hs_state := STATE_OUTPUT \<rparr>, w_mem = ex_mem,
     w_fs = \<lparr> ff_huge = 0x20000000, ff_cache = replicate 10 \<lparr> fc_data = 0, fc_name = [], fc_len = 0 \<rparr> \<rparr>,
     w_out = [], w_close = False \<rparr>"

definition ex_send_ev :: "bool \<Rightarrow> uip_ev" where
  "ex_send_ev a = \<lparr> ev_newdata = False, ev_acked = a, ev_rexmit = False, ev_data = [], ev_mss = 536 \<rparr>"

lemma ex_content_type: "content_type ex_name = http_content_type_plain"
  by code_simp

lemma ex_lits: "lits_ok ex_env 536 ex_name ex_web"
proof -
  have len: "length http_header_200 = 83" "length http_content_type_plain = 28"
    by (simp_all add: http_header_200_def http_content_type_plain_def)
  have a: "mem_at ex_mem 0x80001000 http_content_type_plain"
    unfolding ex_mem_def by (rule mem_at_write) (simp add: http_content_type_plain_def)
  have "mem_read ex_mem 0x80000000 (length http_header_200) = mem_read (mem_write (\<lambda>_. 0) 0x80000000 http_header_200) 0x80000000 (length http_header_200)"
    unfolding ex_mem_def
    by (rule mem_read_write_apart) (auto intro!: apart_ranges simp: len)
  also have "\<dots> = http_header_200" by (rule mem_read_write) (simp add: http_header_200_def)
  finally have b: "mem_at ex_mem 0x80000000 http_header_200" by (simp add: mem_at_read)
  have "http_content_type_plain \<noteq> http_header_200" by (simp add: http_content_type_plain_def http_header_200_def)
  moreover have "apart 0x80000000 83 0x20000000 FILE_HUGE_SIZE" "apart 0x80001000 28 0x20000000 FILE_HUGE_SIZE"
    by (rule apart_ranges; simp add: FILE_HUGE_SIZE_def)+
  moreover have "http_header_200 \<noteq> []" "http_content_type_plain \<noteq> []"
    by (simp_all add: http_header_200_def http_content_type_plain_def)
  moreover have "apart 0x80000000 83 0x10000000 536" "apart 0x80001000 28 0x10000000 536"
    by (rule apart_ranges; simp)+
  ultimately show ?thesis
    using a b by (simp add: lits_ok_def lit_ok_def ex_content_type ex_web_def ex_env_def len)
qed

text \<open>The page is acknowledged piece by piece; the status line is asked for again, and so is the file.\<close>

definition ex_call :: "bool \<Rightarrow> bool \<Rightarrow> uip_call" where
  "ex_call a r = ((ex_send_ev a)\<lparr> ev_rexmit := r \<rparr>, replicate 536 0x55)"

definition ex_calls :: "uip_call list" where
  "ex_calls = [ex_call False True, ex_call True False, ex_call False False, ex_call True False, ex_call False True, ex_call True False]"

lemma static_page_sent_witness:
  "\<exists>W'. out_run (uip_calls ex_env) (ex_call False False # ex_calls) ex_web
      = Some (http_header_200 # page_sent (Header http_header_200) (Header (content_type ex_name) # pieces_of 536 [1, 2, 3]) ex_calls, W')
    \<and> w_close W' = (length (content_type ex_name # chunks (unat (536 :: u16)) [1, 2, 3]) < acks ex_calls)"
proof -
  have "\<exists>W'. out_run (uip_calls ex_env) (ex_call False False # ex_calls) ex_web
        = Some (http_header_200 # page_sent (Header http_header_200) (Header (content_type ex_name) # pieces_of 536 [1, 2, 3]) ex_calls, W')
      \<and> w_close W' = (length (content_type ex_name # chunks (unat (536 :: u16)) [1, 2, 3]) < acks ex_calls)
      \<and> ((\<forall>x \<in> set ex_calls. \<not> ev_rexmit (fst x)) \<and> length (content_type ex_name # chunks (unat (536 :: u16)) [1, 2, 3]) \<le> acks ex_calls \<longrightarrow>
          concat (page_sent (Header http_header_200) (Header (content_type ex_name) # pieces_of 536 [1, 2, 3]) ex_calls)
            = content_type ex_name @ [1, 2, 3])"
  proof (rule static_page_sent)
    show "c_string (hs_filename (w_conn ex_web)) = Some ex_name" by code_simp
    have "strchr ISO_period ex_name = Some 2" by code_simp
    moreover have "take 4 (drop 2 ex_name) \<noteq> http_pht" "take 4 (drop 2 ex_name) \<noteq> http_lua"
      by (simp_all add: ex_name_def http_pht_def http_lua_def)
    ultimately show "static_name ex_name" by (simp add: static_name_def)
    show "on_card ex_env ex_name [1, 2, 3]" by (simp add: on_card_def ex_env_def)
    show "lits_ok ex_env 536 ex_name ex_web" by (rule ex_lits)
    show "fs_ready (w_fs ex_web)" by (simp add: fs_ready_def ex_web_def FILE_CACHE_NR_def)
    show "apart (ff_huge (w_fs ex_web)) (length [1, 2, 3 :: u8]) (we_appdata ex_env) (unat (536 :: u16))"
      by (rule apart_ranges) (simp_all add: ex_web_def ex_env_def)
  qed (simp_all add: ex_web_def ex_conn_def ex_psock_def ex_name_def FILE_NAME_MAX_SIZE_def FILE_HUGE_SIZE_def ex_send_ev_def ex_call_def ex_calls_def)
  then show ?thesis by blast
qed

definition ex_waiting :: "unit web" where
  "ex_waiting = ex_web\<lparr> w_conn := (w_conn ex_web)\<lparr> hs_outputpt := OUT_HEADERS, hs_soutpt := SOUT_TYPE http_content_type_plain,
     hs_sout := ex_psock\<lparr> ps_lc := LC_SEND, ps_state := STATE_DATA_SENT, ps_sendptr := 0x80001000, ps_sendlen := 28 \<rparr> \<rparr> \<rparr>"

lemma empty_page_hangs_witness:
  "\<exists>W'. out_run (handle_output ex_env) (ex_send_ev True # [ex_send_ev False, ex_send_ev False]) ex_waiting
    = Some ([] # replicate (length [ex_send_ev False, ex_send_ev False]) [], W') \<and> \<not> w_close W'"
proof (rule empty_page_hangs)
  show "c_string (hs_filename (w_conn ex_waiting)) = Some ex_name" by code_simp
  have "strchr ISO_period ex_name = Some 2" by code_simp
  moreover have "take 4 (drop 2 ex_name) \<noteq> http_pht" "take 4 (drop 2 ex_name) \<noteq> http_lua"
    by (simp_all add: ex_name_def http_pht_def http_lua_def)
  ultimately show "static_name ex_name" by (simp add: static_name_def)
  have "lit_ok ex_env 536 (content_type ex_name) ex_waiting"
    using ex_lits by (simp add: lits_ok_def lit_ok_def ex_waiting_def)
  then show "lit_flight ex_env 536 (content_type ex_name) ex_waiting"
    by (simp add: ex_content_type lit_flight_def in_flight_def)
      (simp add: ex_waiting_def ex_env_def http_content_type_plain_def http_header_200_def)
  show "hs_soutpt (w_conn ex_waiting) = SOUT_TYPE (content_type ex_name)" by (simp add: ex_waiting_def ex_content_type)
qed (simp_all add: ex_waiting_def ex_web_def ex_conn_def file_here_def apart_def ex_send_ev_def)

definition ex_sending :: "unit web" where
  "ex_sending = ex_web\<lparr> w_mem := mem_write ex_mem 0x20000000 [1, 2, 3], w_conn := (w_conn ex_web)\<lparr> hs_outputpt := OUT_FILE,
     hs_soutpt := SOUT_FILE, hs_data := 0x20000000, hs_flen := 3, hs_len := 2,
     hs_sout := ex_psock\<lparr> ps_lc := LC_GENERATOR, ps_state := STATE_DATA_SENT, ps_sendptr := 0x10000000, ps_sendlen := 2 \<rparr> \<rparr> \<rparr>"

lemma page_continues_witness:
  "\<exists>W'. out_run (uip_calls ex_env) [((ex_send_ev True)\<lparr> ev_mss := 2 \<rparr>, [0, 0])] (ex_sending\<lparr> w_mem := mem_write ex_mem 0x20000000 [7, 8, 9] \<rparr>)
    = Some (page_sent (Piece (take (unat (2 :: u16)) [7, 8, 9])) (pieces_of 2 (drop (unat (2 :: u16)) [7, 8, 9]))
        [((ex_send_ev True)\<lparr> ev_mss := 2 \<rparr>, [0, 0])], W')"
proof (rule page_continues_with_other_file [where c = "[1, 2, 3]"])
  show "file_flight ex_env 2 [1, 2, 3] ex_sending"
    by (auto simp: file_flight_def file_here_def ex_sending_def ex_web_def ex_conn_def ex_env_def in_flight_def intro!: apart_ranges)
  show "mem_at (mem_write ex_mem 0x20000000 [7, 8, 9]) (hs_data (w_conn ex_sending)) [7, 8, 9]"
    by (simp add: ex_sending_def ex_web_def)
qed (simp_all add: ex_sending_def ex_web_def ex_send_ev_def)

end
