(* ===== verification/HttpdConn.thy ===== *)
theory HttpdConn
  imports HttpdSend
begin

text \<open>
  The clients of the web server: \<open>handle_connection\<close> and \<open>httpd_appcall\<close> of
  \<open>src/webserver/httpd.c\<close>, which uIP calls for every event of a connection. A table of
  \<open>WEB_MAX_CLIENT\<close> entries keeps the Lua interpreter of each client address from one request to
  the next.
\<close>

section \<open>Definitions\<close>

definition WEB_MAX_CLIENT :: nat where "WEB_MAX_CLIENT = 4"

type_synonym ipaddr = "u16 \<times> u16"

record 'L client =
  cl_L :: "'L option"
  cl_ripaddr :: ipaddr

text \<open>What the flags say about the connection besides the events of the protosockets.\<close>

record app_flags =
  af_gone :: bool        \<comment> \<open>closed, aborted or timed out\<close>
  af_connected :: bool
  af_poll :: bool

definition handle_connection :: "('L, 'f) web_env \<Rightarrow> uip_ev \<Rightarrow> 'L web \<Rightarrow> 'L web option" where
  "handle_connection E ev W =
     (case handle_input ev (w_conn W) of
        None \<Rightarrow> None
      | Some (h, closed) \<Rightarrow>
          let W = W\<lparr> w_conn := h, w_close := w_close W \<or> closed \<rparr>
          in if hs_state h = STATE_OUTPUT then handle_output E ev W else Some W)"

definition find_client :: "ipaddr \<Rightarrow> 'L client list \<Rightarrow> nat option" where
  "find_client ip cs = find (\<lambda>i. cl_ripaddr (cs ! i) = ip) [0..<WEB_MAX_CLIENT]"

definition PSOCK_INIT_conn :: "'L httpd_state \<Rightarrow> 'L httpd_state" where
  "PSOCK_INIT_conn h = h\<lparr> hs_sin := psock_init 49 (hs_sin h), hs_sinpt := IN_INIT, hs_sout := psock_init 49 (hs_sout h),
     hs_soutpt := SOUT_INIT, hs_outputpt := OUT_INIT, hs_state := STATE_WAITING, hs_timer := 0,
     hs_filename := (hs_filename h)[0 := 0], hs_len := 0 \<rparr>"

text \<open>The middle part: what the event does. After \<open>uip_abort\<close> no event flag is left.\<close>

definition app_event ::
    "('L, 'f) web_env \<Rightarrow> app_flags \<Rightarrow> uip_ev \<Rightarrow> 'L web \<Rightarrow> ('L web \<times> bool) option" where
  "app_event E fl ev W =
     (if af_gone fl then Some (W, False)
      else if af_connected fl then
        map_option (\<lambda>W. (W, False)) (handle_connection E ev (upd_conn PSOCK_INIT_conn W))
      else
        let W = upd_conn (\<lambda>h. h\<lparr> hs_timer := (if af_poll fl then hs_timer h + 1 else 0) \<rparr>) W;
            abort = (af_poll fl \<and> 20 \<le> hs_timer (w_conn W));
            ev = (if abort then ev\<lparr> ev_newdata := False, ev_acked := False, ev_rexmit := False \<rparr> else ev)
        in map_option (\<lambda>W. (W, abort)) (handle_connection E ev W))"

text \<open>The end: the client's entry. A new client takes an empty entry or, when there is none, the
  next one after the last number this connection had.\<close>

definition app_store :: "bool \<Rightarrow> 'L client list \<Rightarrow> 'L httpd_state \<Rightarrow> 'L client list \<times> 'L httpd_state" where
  "app_store isnew cs h =
     (let entry = \<lparr> cl_L = hs_L h, cl_ripaddr = hs_ripaddr h \<rparr> in
      if isnew then
        (case find_client (0, 0) cs of
           Some i \<Rightarrow> (cs[i := entry], h\<lparr> hs_nr := i \<rparr>)
         | None \<Rightarrow>
             let nr = (if hs_nr h < WEB_MAX_CLIENT - 1 then hs_nr h + 1 else 0)
             in (cs[nr := entry], h\<lparr> hs_nr := nr \<rparr>))
      else (cs[hs_nr h := (cs ! hs_nr h)\<lparr> cl_L := hs_L h \<rparr>], h))"

definition httpd_appcall ::
    "('L, 'f) web_env \<Rightarrow> ipaddr \<Rightarrow> app_flags \<Rightarrow> uip_ev \<Rightarrow> 'L client list \<times> 'L web \<Rightarrow> ('L client list \<times> 'L web \<times> bool) option" where
  "httpd_appcall E ip fl ev w =
     (case w of (cs, W) \<Rightarrow>
        let known = find_client ip cs;
            W = upd_conn (\<lambda>h. h\<lparr> hs_ripaddr := ip, hs_L := None \<rparr>) W;
            W = (case known of None \<Rightarrow> W | Some i \<Rightarrow> upd_conn (\<lambda>h. h\<lparr> hs_nr := i, hs_L := cl_L (cs ! i) \<rparr>) W)
        in case app_event E fl ev W of
             None \<Rightarrow> None
           | Some (W, abort) \<Rightarrow>
               (let (cs, h) = app_store (known = None) cs (w_conn W)
                in Some (cs, W\<lparr> w_conn := h \<rparr>, abort)))"

section \<open>The threads keep the client\<close>

text \<open>Nothing below \<open>httpd_appcall\<close> changes the address or the number of the client.\<close>

definition same_client :: "'L httpd_state \<Rightarrow> 'L httpd_state \<Rightarrow> bool" where
  "same_client h h' \<longleftrightarrow> hs_ripaddr h' = hs_ripaddr h \<and> hs_nr h' = hs_nr h"

lemma same_client_refl [simp]: "same_client h h"
  by (simp add: same_client_def)

lemma same_client_trans [trans]: "same_client h h1 \<Longrightarrow> same_client h1 h2 \<Longrightarrow> same_client h h2"
  by (simp add: same_client_def)

named_theorems keeps

lemma in_parse_keeps [keeps]: "in_parse h = Some h' \<Longrightarrow> same_client h h'"
  by (auto simp: in_parse_def Let_def same_client_def split: if_splits option.splits)

lemma handle_input_keeps [keeps]: "handle_input ev h = Some (h', b) \<Longrightarrow> same_client h h'"
proof -
  have hd: "same_client h h'" if "in_header ev h = Some (h', b)" for h :: "'a httpd_state" and h' b
    using that by (auto simp: in_header_def same_client_def)
  have tg: "same_client h h'" if "in_target ev h = Some (h', b)" for h :: "'a httpd_state" and h' b
    using that by (auto simp: in_target_def Let_def same_client_def dest!: hd in_parse_keeps split: option.splits if_splits)
  have "same_client h h'" if "in_method ev h = Some (h', b)" for h :: "'a httpd_state" and h' b
    using that by (auto simp: in_method_def Let_def same_client_def dest!: tg split: option.splits if_splits)
  then show "handle_input ev h = Some (h', b) \<Longrightarrow> same_client h h'"
    using hd tg by (auto simp: handle_input_def split: in_lc.splits)
qed

lemma uip_writes_keeps [keeps]: "uip_writes bss h m = Some (m', h') \<Longrightarrow> same_client h h'"
  by (induction bss h m rule: uip_writes.induct)
    (auto simp: uip_write_def Let_def same_client_def split: option.splits if_splits prod.splits)

lemma w_run_keeps [keeps]: "w_run E d l W = Some W' \<Longrightarrow> same_client (w_conn W) (w_conn W')"
  by (auto simp: w_run_def http_run_elua_def Let_def same_client_def dest!: uip_writes_keeps
      split: option.splits if_splits sum.splits prod.splits)

lemma w_send_keeps [keeps]: "w_send ev p l W = Some (r, W') \<Longrightarrow> same_client (w_conn W) (w_conn W')"
  by (auto simp: w_send_def same_client_def)

lemma w_gen_send_keeps [keeps]: "w_gen_send E ev W = Some (r, W') \<Longrightarrow> same_client (w_conn W) (w_conn W')"
  by (auto simp: w_gen_send_def same_client_def)

lemma send_headers_keeps [keeps]: "send_headers E ev st W = Some (r, W') \<Longrightarrow> same_client (w_conn W) (w_conn W')"
  by (auto simp: send_headers_def send_status_def send_type_def same_client_def dest!: w_send_keeps
      split: sout_lc.splits option.splits if_splits)

lemma send_file_loop_keeps: "send_file_loop E ev W = Some y \<Longrightarrow> same_client (w_conn W) (w_conn (snd y))"
proof (rule send_file_loop.raw_induct [where P = "\<lambda>E ev W y. same_client (w_conn W) (w_conn (snd y))"])
  fix f :: "('a, 'b) web_env \<Rightarrow> uip_ev \<Rightarrow> 'a web \<Rightarrow> (pt_res \<times> 'a web) option"
  fix E :: "('a, 'b) web_env" and ev :: uip_ev and W :: "'a web" and y
  assume IH: "\<And>E ev W y. f E ev W = Some y \<Longrightarrow> same_client (w_conn W) (w_conn (snd y))"
    and step: "(case w_gen_send E ev W of None \<Rightarrow> None
      | Some (r, W) \<Rightarrow>
          if r = PT_WAITING then Some (PT_WAITING, sout_at SOUT_FILE W)
          else
            let W = upd_conn (\<lambda>h. h\<lparr> hs_flen := hs_flen h - hs_len h, hs_data := hs_data h + hs_len h \<rparr>) W
            in if 0 < hs_flen (w_conn W) then f E ev W else Some (PT_ENDED, sout_at SOUT_INIT W)) = Some y"
  show "same_client (w_conn W) (w_conn (snd y))"
    using step by (auto simp: Let_def same_client_def dest!: w_gen_send_keeps IH split: option.splits if_splits)
qed

lemma send_file_keeps [keeps]: "send_file E ev W = Some (r, W') \<Longrightarrow> same_client (w_conn W) (w_conn W')"
  by (auto simp: send_file_def same_client_def dest!: send_file_loop_keeps split: if_splits)

lemma send_part_keeps [keeps]: "send_part_of_file ev W = Some (r, W') \<Longrightarrow> same_client (w_conn W) (w_conn W')"
  by (auto simp: send_part_of_file_def same_client_def dest!: w_send_keeps split: option.splits if_splits)

lemma http_output_keeps [keeps]: "http_output_elua ev W = Some (r, W') \<Longrightarrow> same_client (w_conn W) (w_conn W')"
  by (auto simp: http_output_elua_def same_client_def dest!: w_send_keeps split: option.splits if_splits)

lemma scripts_keeps [keeps]: "handle_elua_scripts E ev W = Some (r, W') \<Longrightarrow> same_client (w_conn W) (w_conn W')"
  by (auto simp: handle_elua_scripts_def elua_scripts_wait_def same_client_def dest!: http_output_keeps w_run_keeps
      split: script_lc.splits option.splits if_splits)

lemma tags_script_keeps [keeps]: "tags_script E W = Some (b, W') \<Longrightarrow> same_client (w_conn W) (w_conn W')"
  by (auto simp: tags_script_def Let_def same_client_def dest!: w_run_keeps split: option.splits)

lemma tags_from_keeps: "handle_elua_tags_from E ev mode W = Some y \<Longrightarrow> same_client (w_conn W) (w_conn (snd y))"
proof (rule handle_elua_tags_from.raw_induct [where P = "\<lambda>E ev mode W y. same_client (w_conn W) (w_conn (snd y))"])
  fix f :: "('a, 'b) web_env \<Rightarrow> uip_ev \<Rightarrow> tags_mode \<Rightarrow> 'a web \<Rightarrow> (pt_res \<times> 'a web) option"
  fix E :: "('a, 'b) web_env" and ev :: uip_ev and mode :: tags_mode and W :: "'a web" and y
  assume IH: "\<And>E ev mode W y. f E ev mode W = Some y \<Longrightarrow> same_client (w_conn W) (w_conn (snd y))"
    and step: "(case mode of
        M_LOOP \<Rightarrow>
          if hs_flen (w_conn W) = 0 then Some (PT_ENDED, script_at SCR_INIT W)
          else if mem_read (w_mem W) (hs_data (w_conn W)) 5 = TAG_OPEN then
            (case tags_script E W of
               None \<Rightarrow> None
             | Some (run, W) \<Rightarrow> f E ev (if run then M_TAG else M_LOOP) W)
          else f E ev M_TEXT (upd_conn (\<lambda>h. h\<lparr> hs_len := tags_text_len ev W \<rparr>) W)
      | M_TAG \<Rightarrow>
          (case http_output_elua ev W of
             None \<Rightarrow> None
           | Some (r, W) \<Rightarrow>
               if r = PT_WAITING then Some (PT_WAITING, script_at SCR_TAG W) else f E ev M_LOOP W)
      | M_TEXT \<Rightarrow>
          (case send_part_of_file ev W of
             None \<Rightarrow> None
           | Some (r, W) \<Rightarrow>
               if r = PT_WAITING then Some (PT_WAITING, script_at SCR_TEXT W)
               else f E ev M_LOOP
                      (upd_conn (\<lambda>h. h\<lparr> hs_data := hs_data h + hs_len h, hs_flen := hs_flen h - hs_len h \<rparr>) W))) = Some y"
  show "same_client (w_conn W) (w_conn (snd y))"
  proof (cases mode)
    case M_LOOP
    then show ?thesis using step
      by (auto simp: same_client_def dest!: tags_script_keeps IH split: option.splits if_splits)
  next
    case M_TAG
    then show ?thesis using step
      by (auto simp: same_client_def dest!: http_output_keeps IH split: option.splits if_splits)
  next
    case M_TEXT
    then show ?thesis using step
      by (auto simp: same_client_def dest!: send_part_keeps IH split: option.splits if_splits)
  qed
qed

lemma handle_elua_tags_keeps [keeps]: "handle_elua_tags E ev W = Some (r, W') \<Longrightarrow> same_client (w_conn W) (w_conn W')"
  by (auto simp: handle_elua_tags_def same_client_def dest!: tags_from_keeps split: script_lc.splits)

lemma fs_load_keeps [keeps]: "fs_load E f n p k W = Some (b, W') \<Longrightarrow> same_client (w_conn W) (w_conn W')"
  by (auto simp: fs_load_def Let_def same_client_def split: if_splits)

lemma httpd_fs_open_keeps [keeps]: "httpd_fs_open E name W = Some (b, W') \<Longrightarrow> same_client (w_conn W) (w_conn W')"
  by (auto simp: httpd_fs_open_def Let_def same_client_def dest!: fs_load_keeps split: if_splits option.splits prod.splits)

lemma out_wait_keeps:
  assumes "out_wait l k x = Some W'"
    and "\<And>r V. x = Some (r, V) \<Longrightarrow> same_client h (w_conn V)"
    and "\<And>V V'. k V = Some V' \<Longrightarrow> same_client (w_conn V) (w_conn V')"
  shows "same_client h (w_conn W')"
  using assms by (fastforce simp: out_wait_def same_client_def split: option.splits prod.splits if_splits)

lemma out_end_keeps: "out_end W = Some W' \<Longrightarrow> same_client (w_conn W) (w_conn W')"
  by (auto simp: out_end_def same_client_def)

lemma out_404_keeps: "out_404 E ev W = Some W' \<Longrightarrow> same_client (w_conn W) (w_conn W')"
  unfolding out_404_def
  by (erule out_wait_keeps) (auto elim!: out_wait_keeps intro: send_headers_keeps send_file_keeps out_end_keeps)

lemma out_body_keeps: "out_body E ev W = Some W' \<Longrightarrow> same_client (w_conn W) (w_conn W')"
proof -
  have tags: "same_client (w_conn W) (w_conn W')"
    if "out_wait OUT_TAGS out_end (handle_elua_tags E ev (upd_conn (\<lambda>h. h\<lparr> hs_new_pht := True, hs_scriptpt := SCR_INIT \<rparr>) W)) = Some W'"
    using that by (rule out_wait_keeps) (auto simp: same_client_def dest!: handle_elua_tags_keeps out_end_keeps)
  have scripts: "same_client (w_conn W) (w_conn W')"
    if "out_wait OUT_SCRIPTS out_end (handle_elua_scripts E ev (script_at SCR_INIT W)) = Some W'"
    using that by (rule out_wait_keeps) (auto simp: same_client_def dest!: scripts_keeps out_end_keeps)
  have plain: "same_client (w_conn W) (w_conn W')" if "out_wait OUT_FILE out_end (send_file E ev W) = Some W'"
    using that by (rule out_wait_keeps) (auto intro: send_file_keeps out_end_keeps)
  show "out_body E ev W = Some W' \<Longrightarrow> same_client (w_conn W) (w_conn W')"
    unfolding out_body_def Let_def by (auto split: option.splits if_splits intro: tags scripts plain)
qed

lemma out_200_keeps: "out_200 E ev W = Some W' \<Longrightarrow> same_client (w_conn W) (w_conn W')"
  unfolding out_200_def by (erule out_wait_keeps) (auto intro: send_headers_keeps out_body_keeps)

lemma out_first_keeps:
  assumes "httpd_fs_open E f W = Some (b, V)" and "same_client (w_conn V) (w_conn W')"
  shows "same_client (w_conn W) (w_conn W')"
  using httpd_fs_open_keeps [OF assms(1)] assms(2) by (rule same_client_trans)

lemma handle_output_keeps [keeps]: "handle_output E ev W = Some W' \<Longrightarrow> same_client (w_conn W) (w_conn W')"
proof (cases "hs_outputpt (w_conn W)")
  case OUT_INIT
  assume "handle_output E ev W = Some W'"
  then show ?thesis
    using OUT_INIT unfolding handle_output_def
    by (auto simp: same_client_def dest!: httpd_fs_open_keeps out_200_keeps out_404_keeps split: option.splits bool.splits)
qed (auto simp: handle_output_def intro: out_404_keeps out_200_keeps
    elim!: out_wait_keeps intro: send_file_keeps handle_elua_tags_keeps scripts_keeps out_end_keeps)

lemma handle_connection_keeps [keeps]: "handle_connection E ev W = Some W' \<Longrightarrow> same_client (w_conn W) (w_conn W')"
  by (auto simp: handle_connection_def Let_def same_client_def dest!: handle_input_keeps handle_output_keeps
      split: option.splits if_splits)

lemma app_event_keeps: "app_event E fl ev W = Some (W', ab) \<Longrightarrow> same_client (w_conn W) (w_conn W')"
  by (auto simp: app_event_def Let_def PSOCK_INIT_conn_def same_client_def dest!: handle_connection_keeps
      split: if_splits)

section \<open>The table of clients\<close>

lemma find_client_Some: "find_client ip cs = Some i \<Longrightarrow> i < WEB_MAX_CLIENT \<and> cl_ripaddr (cs ! i) = ip"
  by (auto simp: find_client_def find_Some_iff)

lemma find_client_None: "find_client ip cs = None \<longleftrightarrow> (\<forall>i < WEB_MAX_CLIENT. cl_ripaddr (cs ! i) \<noteq> ip)"
  by (auto simp: find_client_def find_None_iff)

text \<open>The addresses in the table, but for the empty entries, are distinct.\<close>

definition clients_ok :: "'L client list \<Rightarrow> bool" where
  "clients_ok cs \<longleftrightarrow> length cs = WEB_MAX_CLIENT \<and>
     (\<forall>i < WEB_MAX_CLIENT. \<forall>j < WEB_MAX_CLIENT.
        cl_ripaddr (cs ! i) = cl_ripaddr (cs ! j) \<and> cl_ripaddr (cs ! i) \<noteq> (0, 0) \<longrightarrow> i = j)"

lemma all_clients: "(\<forall>i < WEB_MAX_CLIENT. P i) \<longleftrightarrow> P 0 \<and> P 1 \<and> P 2 \<and> P 3"
proof
  assume "P 0 \<and> P 1 \<and> P 2 \<and> P 3"
  moreover have "i = 0 \<or> i = 1 \<or> i = 2 \<or> i = 3" if "i < WEB_MAX_CLIENT" for i
    using that by (auto simp: WEB_MAX_CLIENT_def)
  ultimately show "\<forall>i < WEB_MAX_CLIENT. P i" by blast
qed (simp add: WEB_MAX_CLIENT_def)

lemma clients_okD:
  assumes "clients_ok cs" "i < WEB_MAX_CLIENT" "j < WEB_MAX_CLIENT" "cl_ripaddr (cs ! i) = cl_ripaddr (cs ! j)"
    "cl_ripaddr (cs ! i) \<noteq> (0, 0)"
  shows "i = j"
  using assms unfolding clients_ok_def by metis

lemma clients_okI:
  assumes "length cs = WEB_MAX_CLIENT"
    and "\<And>i j. i < WEB_MAX_CLIENT \<Longrightarrow> j < WEB_MAX_CLIENT \<Longrightarrow> cl_ripaddr (cs ! i) = cl_ripaddr (cs ! j) \<Longrightarrow>
      cl_ripaddr (cs ! i) \<noteq> (0, 0) \<Longrightarrow> i = j"
  shows "clients_ok cs"
  unfolding clients_ok_def
  by (intro conjI allI impI assms(1); elim conjE; rule assms(2))

text \<open>The interpreter that the table keeps for an address.\<close>

definition client_L :: "'L client list \<Rightarrow> ipaddr \<Rightarrow> 'L option" where
  "client_L cs ip = (case find_client ip cs of None \<Rightarrow> None | Some i \<Rightarrow> cl_L (cs ! i))"

lemma find_client_unique:
  assumes "clients_ok cs" "ip \<noteq> (0, 0)" "i < WEB_MAX_CLIENT" "cl_ripaddr (cs ! i) = ip"
  shows "find_client ip cs = Some i"
proof (cases "find_client ip cs")
  case None
  then show ?thesis using assms by (auto simp: find_client_None)
next
  case (Some j)
  have "j = i"
    by (rule clients_okD [OF assms(1)]) (use find_client_Some [OF Some] assms in auto)
  with Some show ?thesis by simp
qed

lemma find_client_iff:
  assumes "clients_ok cs" "ip \<noteq> (0, 0)"
  shows "find_client ip cs = Some i \<longleftrightarrow> i < WEB_MAX_CLIENT \<and> cl_ripaddr (cs ! i) = ip"
  using find_client_Some [of ip cs i] find_client_unique [OF assms, of i] by blast

text \<open>Putting an entry for an address that the table does not have, or has at this place.\<close>

lemma clients_ok_put:
  assumes ok: "clients_ok cs" and i: "i < WEB_MAX_CLIENT"
    and fresh: "find_client (cl_ripaddr e) cs = None \<or> cl_ripaddr (cs ! i) = cl_ripaddr e"
    and nz: "cl_ripaddr e \<noteq> (0, 0)"
  shows "clients_ok (cs[i := e])"
proof -
  have other: "cl_ripaddr (cs ! j) \<noteq> cl_ripaddr e" if "j < WEB_MAX_CLIENT" "j \<noteq> i" for j
  proof
    assume e: "cl_ripaddr (cs ! j) = cl_ripaddr e"
    with that(1) have "find_client (cl_ripaddr e) cs \<noteq> None" by (auto simp: find_client_None)
    with fresh have "cl_ripaddr (cs ! i) = cl_ripaddr (cs ! j)" by (simp add: e)
    have "j = i" by (rule clients_okD [OF ok]) (use that i nz e \<open>cl_ripaddr (cs ! i) = _\<close> in auto)
    with that show False by simp
  qed
  have len: "length cs = WEB_MAX_CLIENT" using ok by (simp add: clients_ok_def)
  show ?thesis
  proof (rule clients_okI)
    fix j k
    assume jk: "j < WEB_MAX_CLIENT" "k < WEB_MAX_CLIENT" "cl_ripaddr (cs[i := e] ! j) = cl_ripaddr (cs[i := e] ! k)"
      "cl_ripaddr (cs[i := e] ! j) \<noteq> (0, 0)"
    show "j = k"
    proof (cases "j = i \<or> k = i")
      case True
      then show ?thesis using jk other [of j] other [of k] i len by (cases "j = k") auto
    next
      case False
      then show ?thesis using jk clients_okD [OF ok, of j k] by auto
    qed
  qed (simp add: len)
qed

text \<open>The place that \<open>app_store\<close> takes.\<close>

lemma app_store_put:
  assumes "isnew \<or> hs_nr h < WEB_MAX_CLIENT \<and> cl_ripaddr (cs ! hs_nr h) = hs_ripaddr h"
  obtains i where "i < WEB_MAX_CLIENT"
    "app_store isnew cs h = (cs[i := \<lparr> cl_L = hs_L h, cl_ripaddr = hs_ripaddr h \<rparr>], h\<lparr> hs_nr := i \<rparr>)"
    "\<not> isnew \<Longrightarrow> i = hs_nr h"
    "isnew \<Longrightarrow> find_client (0, 0) cs \<noteq> None \<Longrightarrow> cl_ripaddr (cs ! i) = (0, 0)"
proof (cases isnew)
  case False
  have "(cs ! hs_nr h)\<lparr> cl_L := hs_L h \<rparr> = \<lparr> cl_L = hs_L h, cl_ripaddr = hs_ripaddr h \<rparr>"
    using assms False by (cases "cs ! hs_nr h") auto
  then show ?thesis using that [of "hs_nr h"] False assms by (auto simp: app_store_def)
next
  case True
  show ?thesis
  proof (cases "find_client (0, 0) cs")
    case None
    show ?thesis
      by (rule that [of "if hs_nr h < WEB_MAX_CLIENT - 1 then hs_nr h + 1 else 0"])
        (auto simp: app_store_def Let_def None True WEB_MAX_CLIENT_def)
  next
    case (Some i)
    show ?thesis using find_client_Some [OF Some] that [of i] by (auto simp: app_store_def Let_def Some True)
  qed
qed

text \<open>What an event of a connection does to the table: it writes one entry.\<close>

lemma httpd_appcall_put:
  assumes call: "httpd_appcall E ip fl ev (cs, W) = Some (cs', W', ab)"
  obtains i where "i < WEB_MAX_CLIENT" "cs' = cs[i := \<lparr> cl_L = hs_L (w_conn W'), cl_ripaddr = ip \<rparr>]"
    "find_client ip cs \<noteq> None \<longrightarrow> cl_ripaddr (cs ! i) = ip"
    "find_client ip cs = None \<longrightarrow> find_client (0, 0) cs \<noteq> None \<longrightarrow> cl_ripaddr (cs ! i) = (0, 0)"
proof -
  let ?W0 = "upd_conn (\<lambda>h. h\<lparr> hs_ripaddr := ip, hs_L := None \<rparr>) W"
  define W1 where "W1 = (case find_client ip cs of None \<Rightarrow> ?W0
    | Some i \<Rightarrow> upd_conn (\<lambda>h. h\<lparr> hs_nr := i, hs_L := cl_L (cs ! i) \<rparr>) ?W0)"
  obtain V where ev: "app_event E fl ev W1 = Some (V, ab)"
    and st: "app_store (find_client ip cs = None) cs (w_conn V) = (cs', w_conn W')"
    using call unfolding httpd_appcall_def by (auto simp: Let_def W1_def [symmetric] split: option.splits prod.splits)
  have keep: "same_client (w_conn W1) (w_conn V)" by (rule app_event_keeps [OF ev])
  have rip: "hs_ripaddr (w_conn V) = ip"
    using keep by (auto simp: same_client_def W1_def split: option.splits)
  have nr: "hs_nr (w_conn V) = i" if "find_client ip cs = Some i" for i
    using keep that by (simp add: same_client_def W1_def)
  have pre: "find_client ip cs = None \<or>
      hs_nr (w_conn V) < WEB_MAX_CLIENT \<and> cl_ripaddr (cs ! hs_nr (w_conn V)) = hs_ripaddr (w_conn V)"
    using nr find_client_Some [of ip cs] by (cases "find_client ip cs") (auto simp: rip)
  show ?thesis
  proof (rule app_store_put [OF pre])
    fix i
    assume i: "i < WEB_MAX_CLIENT"
      "app_store (find_client ip cs = None) cs (w_conn V)
        = (cs[i := \<lparr> cl_L = hs_L (w_conn V), cl_ripaddr = hs_ripaddr (w_conn V) \<rparr>], (w_conn V)\<lparr> hs_nr := i \<rparr>)"
      "\<not> find_client ip cs = None \<Longrightarrow> i = hs_nr (w_conn V)"
      "find_client ip cs = None \<Longrightarrow> find_client (0, 0) cs \<noteq> None \<Longrightarrow> cl_ripaddr (cs ! i) = (0, 0)"
    show ?thesis by (rule that [OF i(1)]) (use i st pre rip in auto)
  qed
qed

text \<open>The other clients after such a write.\<close>

lemma put_other_client:
  assumes ok: "clients_ok cs" "clients_ok (cs[i := e])" and i: "i < WEB_MAX_CLIENT"
    and other: "cl_ripaddr e \<noteq> ip" "ip \<noteq> (0, 0)"
  shows "if cl_ripaddr (cs ! i) = ip then find_client ip (cs[i := e]) = None
    else client_L (cs[i := e]) ip = client_L cs ip \<and> find_client ip (cs[i := e]) = find_client ip cs"
proof -
  have len: "length cs = WEB_MAX_CLIENT" using ok by (simp add: clients_ok_def)
  have evicted: "find_client ip (cs[i := e]) = None" if "cl_ripaddr (cs ! i) = ip"
  proof -
    have "cl_ripaddr (cs[i := e] ! j) \<noteq> ip" if "j < WEB_MAX_CLIENT" for j
      using that \<open>cl_ripaddr (cs ! i) = ip\<close> clients_okD [OF ok(1) i that] other i by (cases "j = i") (auto simp: len)
    then show ?thesis by (simp add: find_client_None)
  qed
  have kept: "client_L (cs[i := e]) ip = client_L cs ip \<and> find_client ip (cs[i := e]) = find_client ip cs"
    if ne: "cl_ripaddr (cs ! i) \<noteq> ip"
  proof -
    have iff: "find_client ip (cs[i := e]) = Some j \<longleftrightarrow> find_client ip cs = Some j" for j
      unfolding find_client_iff [OF ok(2) other(2)] find_client_iff [OF ok(1) other(2)]
      using ne other i by (cases "j = i") (auto simp: len)
    have same: "find_client ip (cs[i := e]) = find_client ip cs"
      using iff [of "the (find_client ip (cs[i := e]))"] iff [of "the (find_client ip cs)"]
      by (cases "find_client ip (cs[i := e])"; cases "find_client ip cs") simp_all
    have "cl_L (cs[i := e] ! j) = cl_L (cs ! j)" if "find_client ip cs = Some j" for j
      using that ne find_client_Some [OF that] by (cases "j = i") auto
    with same show ?thesis by (auto simp: client_L_def split: option.splits)
  qed
  show ?thesis using evicted kept by auto
qed

text \<open>
  C20: the table keeps one interpreter for each client. After every event of a connection the
  addresses in the table are still distinct, the table has the client of the connection, with the
  interpreter the connection now uses, and the interpreter of every other client is as before; only
  when the client is new and no entry is empty another client leaves the table.
\<close>

theorem client_table_keeps_interpreters:
  assumes ok: "clients_ok cs" and ip: "ip \<noteq> (0, 0)"
    and call: "httpd_appcall E ip fl ev (cs, W) = Some (cs', W', ab)"
  shows "clients_ok cs' \<and> find_client ip cs' \<noteq> None \<and> client_L cs' ip = hs_L (w_conn W') \<and>
    (\<forall>ip'. ip' \<noteq> ip \<and> ip' \<noteq> (0, 0) \<longrightarrow>
       client_L cs' ip' = client_L cs ip' \<and> (find_client ip' cs' = None \<longleftrightarrow> find_client ip' cs = None) \<or>
       find_client ip cs = None \<and> find_client (0, 0) cs = None \<and> find_client ip' cs' = None)"
proof -
  obtain i where i: "i < WEB_MAX_CLIENT" and put: "cs' = cs[i := \<lparr> cl_L = hs_L (w_conn W'), cl_ripaddr = ip \<rparr>]"
    and at: "find_client ip cs \<noteq> None \<longrightarrow> cl_ripaddr (cs ! i) = ip"
      "find_client ip cs = None \<longrightarrow> find_client (0, 0) cs \<noteq> None \<longrightarrow> cl_ripaddr (cs ! i) = (0, 0)"
    by (rule httpd_appcall_put [OF call])
  have len: "length cs = WEB_MAX_CLIENT" using ok by (simp add: clients_ok_def)
  have ok': "clients_ok cs'"
    unfolding put by (rule clients_ok_put [OF ok i]) (use at(1) ip in \<open>cases "find_client ip cs"; simp\<close>)+
  have here: "find_client ip cs' = Some i"
    unfolding find_client_iff [OF ok' ip] by (simp add: put i len)
  then have "client_L cs' ip = hs_L (w_conn W')" by (simp add: client_L_def put i len)
  moreover have "client_L cs' ip' = client_L cs ip' \<and> (find_client ip' cs' = None \<longleftrightarrow> find_client ip' cs = None)
      \<or> find_client ip cs = None \<and> find_client (0, 0) cs = None \<and> find_client ip' cs' = None"
    if "ip' \<noteq> ip" "ip' \<noteq> (0, 0)" for ip'
    using put_other_client [OF ok ok' [unfolded put] i, of ip'] at that
    unfolding put by (cases "cl_ripaddr (cs ! i) = ip'") auto
  ultimately show ?thesis using ok' here by simp
qed

text \<open>A fifth client while the table is full, at its connection.\<close>

definition ex_clients :: "unit client list" where
  "ex_clients = map (\<lambda>i. \<lparr> cl_L = Some (), cl_ripaddr = (0xC0A8, i) \<rparr>) [1, 2, 3, 4]"

definition ex_connected :: app_flags where
  "ex_connected = \<lparr> af_gone = False, af_connected = True, af_poll = False \<rparr>"

lemma ex_readto: "ps_lc s = LC_INIT \<Longrightarrow> ps_read s = [] \<Longrightarrow> ps_state s = STATE_NONE \<Longrightarrow> psock_readto ex_ev c mem s = Some (PT_WAITING, mem, (buf_setup (ps_bufsize s) s)\<lparr> ps_lc := LC_READ \<rparr>)"
proof -
  assume lc: "ps_lc s = LC_INIT" "ps_read s = []" "ps_state s = STATE_NONE"
  have "psock_readto_loop ex_ev c mem (buf_setup (ps_bufsize s) s) = Some (PT_WAITING, mem, (buf_setup (ps_bufsize s) s)\<lparr> ps_lc := LC_READ \<rparr>)"
    by (subst psock_readto_loop.simps) (simp add: lc buf_setup_def psock_newdata_def ex_ev_def Let_def)
  then show ?thesis by (simp add: psock_readto_def lc)
qed

lemma ex_appcall:
  "\<exists>cs' W'. httpd_appcall ex_env (0xC0A8, 5) ex_connected ex_ev (ex_clients, ex_web\<lparr> w_conn := ex_conn \<rparr>) = Some (cs', W', False)
    \<and> map cl_ripaddr cs' = [(0xC0A8, 1), (0xC0A8, 5), (0xC0A8, 3), (0xC0A8, 4)]"
proof -
  have new: "find_client (0xC0A8, 5) ex_clients = None" "find_client (0, 0) ex_clients = None"
    unfolding find_client_None all_clients by (simp_all add: ex_clients_def)
  let ?h = "PSOCK_INIT_conn (ex_conn\<lparr> hs_ripaddr := (0xC0A8, 5), hs_L := None \<rparr>)"
  have "\<exists>mem s. handle_input ex_ev ?h = Some (?h\<lparr> hs_inputbuf := mem, hs_sin := s, hs_sinpt := IN_METHOD \<rparr>, False)"
    by (simp add: handle_input_def in_method_def PSOCK_INIT_conn_def psock_init_def buf_setup_def ex_readto ex_conn_def ex_psock_def)
  then obtain mem s where "handle_input ex_ev ?h = Some (?h\<lparr> hs_inputbuf := mem, hs_sin := s, hs_sinpt := IN_METHOD \<rparr>, False)"
    by blast
  then have "handle_connection ex_env ex_ev (ex_web\<lparr> w_conn := ?h \<rparr>)
      = Some (ex_web\<lparr> w_conn := ?h\<lparr> hs_inputbuf := mem, hs_sin := s, hs_sinpt := IN_METHOD \<rparr> \<rparr>)"
    by (simp add: handle_connection_def PSOCK_INIT_conn_def ex_web_def)
  then show ?thesis
    by (simp add: httpd_appcall_def new app_event_def ex_connected_def app_store_def)
      (simp add: PSOCK_INIT_conn_def ex_conn_def ex_clients_def WEB_MAX_CLIENT_def)
qed

lemma client_table_witness:
  "\<exists>cs' (W' :: unit web). clients_ok cs' \<and> find_client (0xC0A8, 5) cs' \<noteq> None \<and> client_L cs' (0xC0A8, 5) = hs_L (w_conn W')"
proof -
  obtain cs' W' where c: "httpd_appcall ex_env (0xC0A8, 5) ex_connected ex_ev (ex_clients, ex_web\<lparr> w_conn := ex_conn \<rparr>) = Some (cs', W', False)"
    using ex_appcall by blast
  have ok: "clients_ok ex_clients"
    unfolding clients_ok_def all_clients by (simp add: ex_clients_def WEB_MAX_CLIENT_def)
  show ?thesis using client_table_keeps_interpreters [OF ok _ c] by auto
qed

end
