(* ===== verification/Json.thy ===== *)
theory Json
  imports Prelude "HOL-Library.Signed_Division"
begin

text \<open>
  Writing JSON, the second half of \<open>src/webserver/luajson_lib.c\<close>: quoting strings into a block of
  the heap and turning a Lua value into text. Lua is a parameter: what a table iterates over and
  how a number is printed. The allocation succeeds; a write outside the block is \<open>JBad\<close>.
\<close>

section \<open>Results\<close>

text \<open>A value, a Lua error, a step C gives no meaning to, or no result within the fuel.\<close>

datatype 'a jres = JOk 'a | JErr | JBad | JFuel

fun jbind :: "'a jres \<Rightarrow> ('a \<Rightarrow> 'b jres) \<Rightarrow> 'b jres" where
  "jbind (JOk x) f = f x"
| "jbind JErr f = JErr"
| "jbind JBad f = JBad"
| "jbind JFuel f = JFuel"

section \<open>Characters\<close>

definition QUOT :: u8 where "QUOT = 0x22"
definition BSL :: u8 where "BSL = 0x5C"
definition COMMA :: u8 where "COMMA = 0x2C"
definition COLON :: u8 where "COLON = 0x3A"
definition LBRACK :: u8 where "LBRACK = 0x5B"
definition RBRACK :: u8 where "RBRACK = 0x5D"
definition LBRACE :: u8 where "LBRACE = 0x7B"
definition RBRACE :: u8 where "RBRACE = 0x7D"
definition CH_u :: u8 where "CH_u = 0x75"

definition txt_true :: "u8 list" where "txt_true = [0x74, 0x72, 0x75, 0x65]"
definition txt_false :: "u8 list" where "txt_false = [0x66, 0x61, 0x6C, 0x73, 0x65]"
definition txt_null :: "u8 list" where "txt_null = [0x6E, 0x75, 0x6C, 0x6C]"
definition txt_FUNCTION :: "u8 list" where "txt_FUNCTION = [0x46, 0x55, 0x4E, 0x43, 0x54, 0x49, 0x4F, 0x4E]"
definition txt_USERDATA :: "u8 list" where "txt_USERDATA = [0x55, 0x53, 0x45, 0x52, 0x44, 0x41, 0x54, 0x41]"
definition txt_wtf :: "u8 list" where "txt_wtf = [0x77, 0x74, 0x66, 0x3F]"
definition txt_RECURSION :: "u8 list" where
  "txt_RECURSION = [0x52, 0x45, 0x43, 0x55, 0x52, 0x53, 0x49, 0x4F, 0x4E]"

section \<open>Quoting\<close>

text \<open>The value of a \<open>char\<close>, which is signed or not as the compiler has it.\<close>

definition char_val :: "bool \<Rightarrow> u8 \<Rightarrow> int" where
  "char_val sg c = (if sg then sint c else uint c)"

definition int2digit :: "int \<Rightarrow> u8" where
  "int2digit val = (if 10 \<le> val then of_int (0x61 + val - 10) else of_int (0x30 + val))"

definition int2fourhex :: "int \<Rightarrow> u8 list" where
  "int2fourhex num =
     (let d0 = int2digit (num sdiv 4096); num = num smod 4096;
          d1 = int2digit (num sdiv 256); num = num smod 256;
          d2 = int2digit (num sdiv 16); num = num smod 16
      in [d0, d1, d2, int2digit num, 0])"

text \<open>The letter behind the backslash, for the seven characters that have one.\<close>

definition short_escape :: "u8 \<Rightarrow> u8 option" where
  "short_escape c =
     (if c = BSL then Some BSL
      else if c = QUOT then Some QUOT
      else if c = 0x08 then Some 0x62
      else if c = 0x0C then Some 0x66
      else if c = 0x0A then Some 0x6E
      else if c = 0x0D then Some 0x72
      else if c = 0x09 then Some 0x74
      else None)"

definition quote_extra :: "bool \<Rightarrow> u8 \<Rightarrow> nat" where
  "quote_extra sg c = (if short_escape c \<noteq> None then 1 else if char_val sg c < 32 then 5 else 0)"

definition quote_count :: "bool \<Rightarrow> u8 list \<Rightarrow> nat" where
  "quote_count sg S = foldl (\<lambda>count c. count + quote_extra sg c) (2 + length S) S"

definition put_at :: "nat \<Rightarrow> u8 list \<Rightarrow> u8 list \<Rightarrow> u8 list option" where
  "put_at i bs b = (if i + length bs \<le> length b then Some (put_bytes b i bs) else None)"

text \<open>What a character writes, and by how much \<open>newc\<close> advances.\<close>

definition quote_step :: "bool \<Rightarrow> u8 \<Rightarrow> nat \<times> u8 list" where
  "quote_step sg c =
     (case short_escape c of
        Some e \<Rightarrow> (2, [BSL, e])
      | None \<Rightarrow> if char_val sg c < 32 then (6, [BSL, CH_u] @ int2fourhex (char_val sg c)) else (1, [c]))"

fun quote_loop :: "bool \<Rightarrow> u8 list \<Rightarrow> nat \<Rightarrow> u8 list \<Rightarrow> (nat \<times> u8 list) option" where
  "quote_loop sg [] i b = Some (i, b)"
| "quote_loop sg (c # cs) i b =
     (case put_at i (snd (quote_step sg c)) b of
        None \<Rightarrow> None
      | Some b \<Rightarrow> quote_loop sg cs (i + fst (quote_step sg c)) b)"

text \<open>\<open>junk\<close> is what the allocated block holds.\<close>

definition quote :: "bool \<Rightarrow> (nat \<Rightarrow> u8) \<Rightarrow> u8 list \<Rightarrow> u8 list option" where
  "quote sg junk S =
     (case put_at 0 [QUOT, 0x61, 0x62, 0x63] (map junk [0..<quote_count sg S + 1]) of
        None \<Rightarrow> None
      | Some b \<Rightarrow>
          (case quote_loop sg S 1 b of
             None \<Rightarrow> None
           | Some (i, b) \<Rightarrow> put_at i [QUOT, 0] b))"

section \<open>The list of open tables\<close>

text \<open>
  A linked list is the list of its values, NULL the empty one. \<open>addToList\<close> gets the pointer by
  value: it extends a list in place, but a new first element stays in its own variable.
\<close>

fun addToList :: "nat \<Rightarrow> nat list \<Rightarrow> nat list" where
  "addToList v [] = []"
| "addToList v (x # xs) = (if xs \<noteq> [] then x # addToList v xs else [x, v])"

definition findInList :: "nat list \<Rightarrow> nat \<Rightarrow> nat option" where
  "findInList xs p = find (\<lambda>i. xs ! i = p) [0..<length xs]"

text \<open>The boolean is \<open>Last \<noteq> NULL\<close>. Freeing the only node leaves the caller's pointer dangling.\<close>

fun removeLastFromList :: "bool \<Rightarrow> nat list \<Rightarrow> nat list option" where
  "removeLastFromList prev [] = Some []"
| "removeLastFromList prev [x] = (if prev then Some [] else None)"
| "removeLastFromList prev (x # y # xs) = map_option (\<lambda>ys. x # ys) (removeLastFromList True (y # xs))"

section \<open>Turning a value into text\<close>

text \<open>A Lua value as the type tests of the API see it; a table is its address.\<close>

datatype 'd lval = LNil | LBool bool | LNum 'd | LStr "u8 list" | LTab nat | LFun | LUser | LThread

text \<open>
  What Lua gives: the elements that \<open>ipairs\<close> and the entries that \<open>pairs\<close> iterate over, the table
  \<open>json.null\<close>, the number a string converts to, and the text of a number (\<open>"%.14g"\<close>).
\<close>

record 'd lua_json =
  lj_array :: "nat \<Rightarrow> 'd lval list"
  lj_pairs :: "nat \<Rightarrow> ('d lval \<times> 'd lval) list"
  lj_null :: nat
  lj_num :: "u8 list \<Rightarrow> 'd option"
  lj_fmt :: "'d \<Rightarrow> u8 list"
  lj_signed :: bool
  lj_junk :: "nat \<Rightarrow> u8"

record js_st =
  js_list :: "nat list"    \<comment> \<open>\<open>baseList\<close>\<close>
  js_out :: "u8 list"

definition js_add :: "u8 list \<Rightarrow> js_st \<Rightarrow> js_st" where
  "js_add bs s = s\<lparr> js_out := js_out s @ bs \<rparr>"

definition lua_isstring :: "'d lval \<Rightarrow> bool" where
  "lua_isstring v = (case v of LStr _ \<Rightarrow> True | LNum _ \<Rightarrow> True | _ \<Rightarrow> False)"

definition stringifyString :: "'d lua_json \<Rightarrow> u8 list \<Rightarrow> js_st \<Rightarrow> js_st jres" where
  "stringifyString E S s =
     (case quote (lj_signed E) (lj_junk E) S of
        None \<Rightarrow> JBad
      | Some b \<Rightarrow> JOk (js_add (takeWhile (\<lambda>x. x \<noteq> 0) b) s))"

fun js_items :: "('d lval \<Rightarrow> js_st \<Rightarrow> js_st jres) \<Rightarrow> bool \<Rightarrow> 'd lval list \<Rightarrow> js_st \<Rightarrow> js_st jres" where
  "js_items f first [] s = JOk s"
| "js_items f first (v # vs) s =
     jbind (f v (if first then s else js_add [COMMA] s)) (js_items f False vs)"

fun js_fields :: "('d lval \<Rightarrow> js_st \<Rightarrow> js_st jres) \<Rightarrow> bool \<Rightarrow> ('d lval \<times> 'd lval) list \<Rightarrow> js_st \<Rightarrow> js_st jres" where
  "js_fields f first [] s = JOk s"
| "js_fields f first ((k, v) # xs) s =
     (if \<not> lua_isstring k then js_fields f first xs s
      else
        jbind (f k (if first then s else js_add [COMMA] s)) (\<lambda>s.
        jbind (f v (js_add [COLON] s)) (js_fields f False xs)))"

definition stringifyTable :: "('d lval \<Rightarrow> js_st \<Rightarrow> js_st jres) \<Rightarrow> 'd lua_json \<Rightarrow> nat \<Rightarrow> js_st \<Rightarrow> js_st jres" where
  "stringifyTable f E p s =
     (case findInList (js_list s) p of
        Some _ \<Rightarrow> JOk (js_add txt_RECURSION s)
      | None \<Rightarrow>
          jbind
            (let s = s\<lparr> js_list := addToList p (js_list s) \<rparr> in
             if lj_array E p = [] then
               jbind (js_fields f True (lj_pairs E p) (js_add [LBRACE] s)) (\<lambda>s. JOk (js_add [RBRACE] s))
             else
               jbind (js_items f True (lj_array E p) (js_add [LBRACK] s)) (\<lambda>s. JOk (js_add [RBRACK] s)))
            (\<lambda>s. case removeLastFromList False (js_list s) of
                   None \<Rightarrow> JBad
                 | Some l \<Rightarrow> JOk (s\<lparr> js_list := l \<rparr>)))"

text \<open>The fuel bounds the nesting of the calls.\<close>

fun stringify :: "'d lua_json \<Rightarrow> nat \<Rightarrow> 'd lval \<Rightarrow> js_st \<Rightarrow> js_st jres" where
  "stringify E 0 v s = JFuel"
| "stringify E (Suc k) v s =
     (case v of
        LBool b \<Rightarrow> JOk (js_add (if b then txt_true else txt_false) s)
      | LNum d \<Rightarrow> JOk (js_add (lj_fmt E d) s)
      | LStr S \<Rightarrow> (case lj_num E S of
                   Some d \<Rightarrow> JOk (js_add (lj_fmt E d) s)
                 | None \<Rightarrow> stringifyString E S s)
      | LTab p \<Rightarrow> if p = lj_null E then JOk (js_add txt_null s) else stringifyTable (stringify E k) E p s
      | LFun \<Rightarrow> JOk (js_add txt_FUNCTION s)
      | LUser \<Rightarrow> JOk (js_add txt_USERDATA s)
      | LNil \<Rightarrow> JOk (js_add [] s)
      | LThread \<Rightarrow> JOk (js_add txt_wtf s))"

definition JSON_stringify :: "'d lua_json \<Rightarrow> nat \<Rightarrow> nat list \<Rightarrow> 'd lval \<Rightarrow> js_st jres" where
  "JSON_stringify E k base v = stringify E k v \<lparr> js_list = base, js_out = [] \<rparr>"

section \<open>Strings\<close>

lemma sdiv_pos: "0 \<le> (x :: int) \<Longrightarrow> 0 < y \<Longrightarrow> x sdiv y = x div y"
  by (simp add: signed_divide_int_def sgn_if)

lemma smod_pos: "0 \<le> (x :: int) \<Longrightarrow> 0 < y \<Longrightarrow> x smod y = x mod y"
  by (simp add: signed_modulo_int_def sgn_if)

text \<open>The JSON text of a byte, as the standard gives it: control characters with four hexadecimal digits.\<close>

definition hex_digit :: "nat \<Rightarrow> u8" where
  "hex_digit n = [0x30, 0x31, 0x32, 0x33, 0x34, 0x35, 0x36, 0x37, 0x38, 0x39, 0x61, 0x62, 0x63, 0x64, 0x65, 0x66] ! n"

definition json_char :: "u8 \<Rightarrow> u8 list" where
  "json_char c =
     (case short_escape c of
        Some e \<Rightarrow> [BSL, e]
      | None \<Rightarrow> if c < 32 then [BSL, CH_u, 0x30, 0x30, hex_digit (unat c div 16), hex_digit (unat c mod 16)] else [c])"

definition json_string :: "u8 list \<Rightarrow> u8 list" where
  "json_string S = [QUOT] @ concat (map json_char S) @ [QUOT]"

text \<open>The bytes for which \<open>quote\<close> decides rightly whether they are control characters.\<close>

definition char_ok :: "bool \<Rightarrow> u8 \<Rightarrow> bool" where
  "char_ok sg c \<longleftrightarrow> (sg \<longrightarrow> c < 128)"

lemma sint_u8_small: "(c :: u8) < 128 \<Longrightarrow> sint c = uint c"
proof -
  assume "c < 128"
  then have "uint c < 128" by (simp add: word_less_def)
  moreover have "- 128 \<le> uint c" using uint_ge_0 [of c] by linarith
  ultimately have "signed_take_bit 7 (uint c) = uint c" by (intro signed_take_bit_int_eq_self) simp_all
  then show ?thesis by (simp add: sint_uint)
qed

lemma char_val_less: "char_ok sg c \<Longrightarrow> char_val sg c < 32 \<longleftrightarrow> c < 32"
  by (simp add: char_val_def char_ok_def sint_u8_small word_less_def)

lemma int2digit_hex: "n < 16 \<Longrightarrow> int2digit (int n) = hex_digit n"
proof -
  have "\<forall>n \<in> set [0..<16]. int2digit (int n) = hex_digit n" by code_simp
  then show "n < 16 \<Longrightarrow> ?thesis" by simp
qed

lemma int2fourhex_control:
  assumes "char_ok sg c" "c < 32"
  shows "int2fourhex (char_val sg c) = [0x30, 0x30, hex_digit (unat c div 16), hex_digit (unat c mod 16), 0]"
proof -
  have v: "char_val sg c = int (unat c)"
    using assms by (simp add: char_val_def char_ok_def sint_u8_small)
  have n: "unat c < 32" using assms(2) by (simp add: word_less_nat_alt)
  have u: "uint c < 32" using assms(2) by (simp add: word_less_def)
  have "int (unat c) sdiv 16 = int (unat c div 16)" "int (unat c) smod 16 = int (unat c mod 16)"
    by (simp_all add: sdiv_pos smod_pos zdiv_int zmod_int)
  moreover have "int (unat c) sdiv k = 0" "int (unat c) smod k = int (unat c)" if "32 \<le> k" for k
    using u that by (simp_all add: sdiv_pos smod_pos)
  moreover have "hex_digit 0 = 0x30" by (simp add: hex_digit_def)
  ultimately show ?thesis
    using n int2digit_hex [of 0] int2digit_hex [of "unat c div 16"] int2digit_hex [of "unat c mod 16"]
    unfolding v int2fourhex_def Let_def by simp
qed

lemma quote_step_eq:
  assumes "char_ok sg c"
  shows "quote_step sg c = (length (json_char c), json_char c @ (if short_escape c = None \<and> c < 32 then [0] else []))"
  using assms by (auto simp: quote_step_def json_char_def char_val_less int2fourhex_control split: option.splits)

lemma quote_extra_eq: "char_ok sg c \<Longrightarrow> 1 + quote_extra sg c = length (json_char c)"
  by (auto simp: quote_extra_def json_char_def char_val_less split: option.splits)

lemma quote_count_eq:
  assumes "\<forall>c \<in> set S. char_ok sg c"
  shows "quote_count sg S = 2 + length (concat (map json_char S))"
proof -
  have "foldl (\<lambda>count c. count + quote_extra sg c) n S + length S = n + length (concat (map json_char S))" for n
    using assms
  proof (induction S arbitrary: n)
    case (Cons c S)
    then show ?case using quote_extra_eq [of sg c] Cons.IH [of "n + quote_extra sg c"] by simp
  qed simp
  from this [of "2 + length S"] show ?thesis by (simp add: quote_count_def)
qed

lemma take_put_bytes: "i + length bs \<le> length b \<Longrightarrow> take (i + length bs) (put_bytes b i bs) = take i b @ bs"
  by (rule nth_equalityI) (auto simp: nth_put_bytes nth_append)

lemma quote_loop_eq:
  assumes "\<forall>c \<in> set S. char_ok sg c" "i + length (concat (map json_char S)) + 2 \<le> length b"
  shows "\<exists>b'. quote_loop sg S i b = Some (i + length (concat (map json_char S)), b') \<and> length b' = length b
    \<and> take (i + length (concat (map json_char S))) b' = take i b @ concat (map json_char S)"
  using assms
proof (induction S arbitrary: i b)
  case (Cons c S)
  let ?w = "snd (quote_step sg c)" and ?j = "json_char c"
  have st: "fst (quote_step sg c) = length ?j" "take (length ?j) ?w = ?j" "length ?w \<le> length ?j + 1" "length ?j \<le> length ?w"
    using quote_step_eq [of sg c] Cons.prems(1) by simp_all
  have room: "i + length ?w \<le> length b" using Cons.prems(2) st(3) by simp
  let ?b = "put_bytes b i ?w"
  have tk: "take (i + length ?j) ?b = take i b @ ?j"
  proof -
    have "take (i + length ?j) ?b = take (i + length ?j) (take (i + length ?w) ?b)"
      using st(4) by (simp add: min_def)
    also have "\<dots> = take i b @ ?j"
      unfolding take_put_bytes [OF room] using room st(2) by (simp add: take_all)
    finally show ?thesis .
  qed
  obtain b' where "quote_loop sg S (i + length ?j) ?b = Some (i + length ?j + length (concat (map json_char S)), b')"
    "length b' = length b"
    "take (i + length ?j + length (concat (map json_char S))) b' = take (i + length ?j) ?b @ concat (map json_char S)"
    using Cons.IH [of "i + length ?j" ?b] Cons.prems by auto
  then show ?case using st(1) room tk by (auto simp: put_at_def add.assoc)
qed simp

text \<open>\<open>quote\<close> fills its block exactly.\<close>

lemma quote_is_json_string:
  assumes "S \<noteq> []" "\<forall>c \<in> set S. char_ok sg c"
  shows "quote sg junk S = Some (json_string S @ [0])"
proof -
  let ?j = "concat (map json_char S)"
  have pos: "0 < length (json_char c)" for c by (simp add: json_char_def split: option.splits)
  then have "0 < length ?j" using assms(1) by (cases S) auto
  then obtain k where k: "length ?j = Suc k" by (cases "length ?j") simp_all
  define b where "b = put_bytes (map junk [0..<quote_count sg S + 1]) 0 [QUOT, 0x61, 0x62, 0x63]"
  have len: "length b = length ?j + 3" using quote_count_eq [OF assms(2)] by (simp add: b_def)
  have b0: "take 1 b = [QUOT]"
    using quote_count_eq [OF assms(2)] by (cases "quote_count sg S") (simp_all add: b_def upt_rec)
  obtain b' where l: "quote_loop sg S 1 b = Some (1 + length ?j, b')" "length b' = length b"
      "take (1 + length ?j) b' = take 1 b @ ?j"
    using quote_loop_eq [of S sg 1 b] assms(2) len by auto
  have "take (1 + length ?j + 2) (put_bytes b' (1 + length ?j) [QUOT, 0]) = take (1 + length ?j) b' @ [QUOT, 0]"
    using take_put_bytes [of "1 + length ?j" "[QUOT, 0]" b'] l(2) len by simp
  then have "put_bytes b' (1 + length ?j) [QUOT, 0] = json_string S @ [0]"
    using l len b0 by (simp add: json_string_def)
  moreover have "put_at 0 [QUOT, 0x61, 0x62, 0x63] (map junk [0..<quote_count sg S + 1]) = Some b"
    unfolding put_at_def b_def quote_count_eq [OF assms(2)] k by simp
  ultimately show ?thesis using l len by (simp add: quote_def put_at_def)
qed

text \<open>The block for the empty string has three bytes, but four are written to start with.\<close>

lemma quote_empty_overflows: "quote sg junk [] = None"
  by (simp add: quote_def quote_count_def put_at_def)

text \<open>With a signed \<open>char\<close>, a byte of a UTF-8 sequence is taken for a control character.\<close>

lemma quote_signed_garbles: "quote True (\<lambda>_. 0) [0xFF] = Some [QUOT, BSL, CH_u, 0x30, 0x30, 0x30, 0x2F, QUOT, 0]"
  by code_simp

section \<open>Trees\<close>

text \<open>The JSON values, and their text.\<close>

datatype 'd jtree = TBool bool | TNull | TNum 'd | TStr "u8 list" | TArr "'d jtree list" | TObj "(u8 list \<times> 'd jtree) list"

definition commas :: "u8 list list \<Rightarrow> u8 list" where
  "commas xs = concat (map (\<lambda>i. (if i = 0 then [] else [COMMA]) @ xs ! i) [0..<length xs])"

fun print_json :: "('d \<Rightarrow> u8 list) \<Rightarrow> 'd jtree \<Rightarrow> u8 list" where
  "print_json fmt (TBool b) = (if b then txt_true else txt_false)"
| "print_json fmt TNull = txt_null"
| "print_json fmt (TNum d) = fmt d"
| "print_json fmt (TStr S) = json_string S"
| "print_json fmt (TArr ts) = [LBRACK] @ commas (map (print_json fmt) ts) @ [RBRACK]"
| "print_json fmt (TObj fs) = [LBRACE] @ commas (map (\<lambda>(k, t). json_string k @ [COLON] @ print_json fmt t) fs) @ [RBRACE]"

fun tree_height :: "'d jtree \<Rightarrow> nat" where
  "tree_height (TArr ts) = Suc (foldr (\<lambda>t n. max (tree_height t) n) ts 0)"
| "tree_height (TObj fs) = Suc (foldr (\<lambda>(k, t) n. max (max 1 (tree_height t)) n) fs 0)"
| "tree_height t = 1"

text \<open>
  The tree of a Lua value: strings that \<open>quote\<close> handles and that Lua does not take for numbers,
  tables that are an array or an object of such values; entries whose key is no string are left out.
\<close>

definition plain_str :: "'d lua_json \<Rightarrow> u8 list \<Rightarrow> bool" where
  "plain_str E S \<longleftrightarrow> lj_num E S = None \<and> S \<noteq> [] \<and> (\<forall>c \<in> set S. char_ok (lj_signed E) c)"

inductive tree_of :: "'d lua_json \<Rightarrow> 'd lval \<Rightarrow> 'd jtree \<Rightarrow> bool" for E where
  tree_bool: "tree_of E (LBool b) (TBool b)"
| tree_null: "tree_of E (LTab (lj_null E)) TNull"
| tree_num: "tree_of E (LNum d) (TNum d)"
| tree_numeric: "lj_num E S = Some d \<Longrightarrow> tree_of E (LStr S) (TNum d)"
| tree_str: "plain_str E S \<Longrightarrow> tree_of E (LStr S) (TStr S)"
| tree_arr: "p \<noteq> lj_null E \<Longrightarrow> lj_array E p \<noteq> [] \<Longrightarrow> list_all2 (tree_of E) (lj_array E p) ts \<Longrightarrow> tree_of E (LTab p) (TArr ts)"
| tree_obj: "p \<noteq> lj_null E \<Longrightarrow> lj_array E p = [] \<Longrightarrow>
    list_all2 (\<lambda>kv ft. fst kv = LStr (fst ft) \<and> plain_str E (fst ft) \<and> tree_of E (snd kv) (snd ft))
      (filter (\<lambda>kv. lua_isstring (fst kv)) (lj_pairs E p)) fs \<Longrightarrow> tree_of E (LTab p) (TObj fs)"

lemma js_add_add [simp]: "js_add b (js_add a s) = js_add (a @ b) s"
  by (simp add: js_add_def)

lemma js_list_add [simp]: "js_list (js_add a s) = js_list s"
  by (simp add: js_add_def)

lemma json_char_nonzero: "0 \<notin> set (json_char c)"
proof -
  have "hex_digit n \<noteq> 0" if "n < 16" for n
  proof -
    have "\<forall>n \<in> set [0..<16]. hex_digit n \<noteq> 0" by code_simp
    with that show ?thesis by simp
  qed
  moreover have "unat c div 16 < 16" "unat c mod 16 < 16" using unat_u8_less [of c] by (simp_all add: less_mult_imp_div_less)
  moreover have "short_escape c \<noteq> Some 0" "BSL \<noteq> 0" "CH_u \<noteq> 0" by (simp_all add: short_escape_def BSL_def QUOT_def CH_u_def)
  ultimately show ?thesis by (auto simp: json_char_def split: option.splits)
qed

lemma stringifyString_text: "plain_str E S \<Longrightarrow> stringifyString E S s = JOk (js_add (json_string S) s)"
proof -
  assume p: "plain_str E S"
  have "0 \<notin> set (json_string S)" using json_char_nonzero by (auto simp: json_string_def QUOT_def)
  then have "takeWhile (\<lambda>x. x \<noteq> 0) (json_string S @ [0]) = json_string S"
    by (subst takeWhile_append2) auto
  then show ?thesis
    using p quote_is_json_string [of S "lj_signed E" "lj_junk E"] by (simp add: plain_str_def stringifyString_def)
qed

text \<open>A list of values, when each is written as its tree.\<close>

definition comma_tail :: "u8 list list \<Rightarrow> u8 list" where
  "comma_tail xs = concat (map (\<lambda>x. [COMMA] @ x) xs)"

lemma commas_Cons: "commas (x # xs) = x @ comma_tail xs"
proof -
  have "map (\<lambda>i. (if i = 0 then [] else [COMMA]) @ (x # xs) ! i) [Suc 0..<Suc (length xs)] = map (\<lambda>x. [COMMA] @ x) xs"
    by (rule nth_equalityI) (simp_all del: upt_Suc)
  then show ?thesis by (simp add: commas_def comma_tail_def upt_conv_Cons del: upt_Suc)
qed

lemma commas_Nil [simp]: "commas [] = []"
  by (simp add: commas_def)

lemma js_items_more:
  assumes "list_all2 (\<lambda>v x. \<forall>s. js_list s = l \<longrightarrow> f v s = JOk (js_add x s)) vs xs" "js_list s = l"
  shows "js_items f False vs s = JOk (js_add (comma_tail xs) s)"
  using assms by (induction arbitrary: s rule: list_all2_induct) (auto simp: comma_tail_def js_add_def)

lemma js_items_text:
  assumes "list_all2 (\<lambda>v x. \<forall>s. js_list s = l \<longrightarrow> f v s = JOk (js_add x s)) vs xs" "js_list s = l"
  shows "js_items f True vs s = JOk (js_add (commas xs) s)"
  using assms js_items_more [where f = f and l = l] by (cases vs; cases xs) (auto simp: commas_Cons js_add_def)

lemma js_fields_more:
  assumes "list_all2 (\<lambda>kv x. \<forall>s. js_list s = l \<longrightarrow> f (fst kv) s = JOk (js_add (fst x) s) \<and> f (snd kv) s = JOk (js_add (snd x) s))
      (filter (\<lambda>kv. lua_isstring (fst kv)) kvs) xs" "js_list s = l"
  shows "js_fields f False kvs s = JOk (js_add (comma_tail (map (\<lambda>x. fst x @ [COLON] @ snd x) xs)) s)"
  using assms
proof (induction kvs arbitrary: xs s)
  case Nil
  then show ?case by (simp add: comma_tail_def js_add_def)
next
  case (Cons kv kvs)
  then show ?case by (cases kv) (auto simp: list_all2_Cons1 comma_tail_def split: if_splits)
qed

lemma js_fields_text:
  assumes "list_all2 (\<lambda>kv x. \<forall>s. js_list s = l \<longrightarrow> f (fst kv) s = JOk (js_add (fst x) s) \<and> f (snd kv) s = JOk (js_add (snd x) s))
      (filter (\<lambda>kv. lua_isstring (fst kv)) kvs) xs" "js_list s = l"
  shows "js_fields f True kvs s = JOk (js_add (commas (map (\<lambda>x. fst x @ [COLON] @ snd x) xs)) s)"
  using assms
proof (induction kvs arbitrary: xs)
  case Nil
  then show ?case by (simp add: js_add_def)
next
  case (Cons kv kvs)
  show ?case
  proof (cases "lua_isstring (fst kv)")
    case False
    then show ?thesis using Cons by (cases kv) auto
  next
    case True
    obtain x ys where xs: "xs = x # ys" using Cons.prems(1) True by (auto simp: list_all2_Cons1)
    show ?thesis
      using Cons.prems True js_fields_more [of l f kvs ys] by (cases kv) (auto simp: xs commas_Cons)
  qed
qed

lemma height_arr: "t \<in> set ts \<Longrightarrow> tree_height t < tree_height (TArr ts)"
  by (induction ts) (auto simp: less_Suc_eq_le max_def)

lemma height_obj: "(f, t) \<in> set fs \<Longrightarrow> tree_height t < tree_height (TObj fs) \<and> 1 < tree_height (TObj fs)"
proof -
  have "(f, t) \<in> set fs \<Longrightarrow> max 1 (tree_height t) \<le> foldr (\<lambda>(k, t) n. max (max 1 (tree_height t)) n) fs 0"
    by (induction fs) (auto simp: max_def)
  then show "(f, t) \<in> set fs \<Longrightarrow> ?thesis" by simp
qed

lemma js_list_same: "js_list s = l \<Longrightarrow> s\<lparr> js_list := l \<rparr> = s"
  by (cases s) simp

lemma stringifyTable_tree:
  assumes "js_list s = []"
    and "\<And>s. js_list s = [] \<Longrightarrow>
      (if lj_array E p = [] then js_fields f True (lj_pairs E p) s else js_items f True (lj_array E p) s) = JOk (js_add x s)"
  shows "stringifyTable f E p s
    = JOk (js_add (if lj_array E p = [] then [LBRACE] @ x @ [RBRACE] else [LBRACK] @ x @ [RBRACK]) s)"
  using assms(2) [of "js_add (if lj_array E p = [] then [LBRACE] else [LBRACK]) s"] assms(1)
  by (cases "lj_array E p = []") (simp_all add: stringifyTable_def findInList_def js_list_same)

lemma stringify_tree:
  assumes "tree_of E v t" "tree_height t \<le> k" "js_list s = []"
  shows "stringify E k v s = JOk (js_add (print_json (lj_fmt E) t) s)"
  using assms
proof (induction k arbitrary: v t s)
  case 0
  then show ?case by (cases t) simp_all
next
  case (Suc k)
  note IH = Suc.IH and hs = Suc.prems(2) and base = Suc.prems(3)
  from Suc.prems(1) show ?case
  proof cases
    case (tree_arr p ts)
    have "list_all2 (\<lambda>v x. \<forall>s. js_list s = [] \<longrightarrow> stringify E k v s = JOk (js_add x s)) (lj_array E p)
        (map (print_json (lj_fmt E)) ts)"
    proof (rule list_all2_all_nthI)
      fix i assume i: "i < length (lj_array E p)"
      with tree_arr(5) have l: "i < length ts" "tree_of E (lj_array E p ! i) (ts ! i)"
        by (auto simp: list_all2_conv_all_nth)
      have "tree_height (ts ! i) \<le> k" using height_arr [OF nth_mem [OF l(1)]] hs tree_arr by simp
      then show "\<forall>s. js_list s = [] \<longrightarrow> stringify E k (lj_array E p ! i) s = JOk (js_add (map (print_json (lj_fmt E)) ts ! i) s)"
        using IH l by simp
    qed (use tree_arr(5) in \<open>simp add: list_all2_lengthD\<close>)
    then have "js_items (stringify E k) True (lj_array E p) s = JOk (js_add (commas (map (print_json (lj_fmt E)) ts)) s)"
      if "js_list s = []" for s using js_items_text that by blast
    then show ?thesis using tree_arr base stringifyTable_tree [of s E p "stringify E k"] by simp
  next
    case (tree_obj p fs)
    let ?kvs = "filter (\<lambda>kv. lua_isstring (fst kv)) (lj_pairs E p)"
    let ?xs = "map (\<lambda>ft. (json_string (fst ft), print_json (lj_fmt E) (snd ft))) fs"
    have "list_all2 (\<lambda>kv x. \<forall>s. js_list s = [] \<longrightarrow> stringify E k (fst kv) s = JOk (js_add (fst x) s)
        \<and> stringify E k (snd kv) s = JOk (js_add (snd x) s)) ?kvs ?xs"
    proof (rule list_all2_all_nthI)
      fix i assume i: "i < length ?kvs"
      with tree_obj(5) have l: "i < length fs" "fst (?kvs ! i) = LStr (fst (fs ! i))" "plain_str E (fst (fs ! i))"
          "tree_of E (snd (?kvs ! i)) (snd (fs ! i))"
        by (auto simp: list_all2_conv_all_nth)
      have h: "tree_height (snd (fs ! i)) \<le> k" "1 \<le> k"
        using height_obj [of "fst (fs ! i)" "snd (fs ! i)" fs] nth_mem [OF l(1)] hs tree_obj by simp_all
      have "tree_of E (fst (?kvs ! i)) (TStr (fst (fs ! i)))" unfolding l(2) by (rule tree_of.tree_str [OF l(3)])
      then show "\<forall>s. js_list s = [] \<longrightarrow> stringify E k (fst (?kvs ! i)) s = JOk (js_add (fst (?xs ! i)) s)
          \<and> stringify E k (snd (?kvs ! i)) s = JOk (js_add (snd (?xs ! i)) s)"
        using IH [of "fst (?kvs ! i)" "TStr (fst (fs ! i))"] IH [OF l(4)] h l(1) by simp
    qed (use tree_obj(5) in \<open>simp add: list_all2_lengthD\<close>)
    from js_fields_text [OF this]
    have "js_fields (stringify E k) True (lj_pairs E p) s
        = JOk (js_add (commas (map (\<lambda>(f, t). json_string f @ [COLON] @ print_json (lj_fmt E) t) fs)) s)"
      if "js_list s = []" for s using that by (simp add: comp_def case_prod_unfold)
    then show ?thesis using tree_obj base stringifyTable_tree [of s E p "stringify E k"] by simp
  qed (simp_all add: stringifyString_text plain_str_def)
qed

text \<open>
  C22: A Lua value that is a tree (nested tables without cycles, strings that are not empty and not
  numeric, without bytes above 127 when \<open>char\<close> is signed) is written as the JSON text of that tree,
  with fuel for its height.
\<close>

theorem stringify_prints_tree:
  assumes "tree_of E v t" "tree_height t \<le> k"
  shows "JSON_stringify E k [] v = JOk \<lparr> js_list = [], js_out = print_json (lj_fmt E) t \<rparr>"
  using stringify_tree [OF assms, of "\<lparr> js_list = [], js_out = [] \<rparr>"] by (simp add: JSON_stringify_def js_add_def)

text \<open>
  Cycles are never noticed. The list that should hold the tables being written stays NULL, so
  for a table whose first element leads back to it \<open>stringify\<close> calls itself without end.
\<close>

lemma cyclic_tables_never_end:
  assumes "\<forall>p \<in> C. p \<noteq> lj_null E \<and> (\<exists>q \<in> C. \<exists>vs. lj_array E p = LTab q # vs)" "p \<in> C"
  shows "JSON_stringify E k [] (LTab p) = JFuel"
proof -
  have "stringify E k (LTab p) s = JFuel" if "p \<in> C" "js_list s = []" for s
    using that
  proof (induction k arbitrary: p s)
    case (Suc k)
    obtain q vs where q: "p \<noteq> lj_null E" "q \<in> C" "lj_array E p = LTab q # vs" using assms(1) Suc.prems(1) by blast
    have "stringify E k (LTab q) (js_add [LBRACK] s) = JFuel"
      by (rule Suc.IH [OF q(2)]) (simp add: Suc.prems(2))
    then show ?case
      using q(1,3) Suc.prems(2) by (simp add: stringifyTable_def findInList_def js_list_same)
  qed simp
  then show ?thesis using assms(2) by (simp add: JSON_stringify_def)
qed

text \<open>The empty string: one byte behind the block is written.\<close>

lemma empty_string_overflows: "lj_num E [] = None \<Longrightarrow> JSON_stringify E (Suc k) base (LStr []) = JBad"
  by (simp add: JSON_stringify_def stringifyString_def quote_empty_overflows)

text \<open>A string that looks like a number loses its quotes, and a number as a key gets none.\<close>

lemma numeric_string_unquoted:
  "lj_num E S = Some d \<Longrightarrow> JSON_stringify E (Suc k) base (LStr S) = JOk \<lparr> js_list = base, js_out = lj_fmt E d \<rparr>"
  by (simp add: JSON_stringify_def js_add_def)

text \<open>A table \<open>{ { true, 7 } }\<close> under the key \<open>a\<close> with a newline, and a table that contains itself.\<close>

definition ex_lua :: "nat lua_json" where
  "ex_lua = \<lparr> lj_array = (\<lambda>p. if p = 2 then [LBool True, LNum 7] else if p = 3 then [LTab 3] else []),
     lj_pairs = (\<lambda>p. if p = 1 then [(LBool True, LNum 0), (LStr [0x61, 0x0A], LTab 2)] else []),
     lj_null = 0, lj_num = (\<lambda>_. None), lj_fmt = (\<lambda>n. [hex_digit n]), lj_signed = True, lj_junk = (\<lambda>_. 0xAA) \<rparr>"

lemma ex_tree: "tree_of ex_lua (LTab 1) (TObj [([0x61, 0x0A], TArr [TBool True, TNum 7])])"
proof -
  have a: "tree_of ex_lua (LTab 2) (TArr [TBool True, TNum 7])"
    by (rule tree_of.tree_arr) (simp_all add: ex_lua_def tree_of.tree_bool tree_of.tree_num)
  have "plain_str ex_lua [0x61, 0x0A]" by (simp add: plain_str_def char_ok_def ex_lua_def)
  with a show ?thesis
    by (intro tree_of.tree_obj) (simp_all add: ex_lua_def lua_isstring_def)
qed

lemma stringify_prints_tree_witness:
  "JSON_stringify ex_lua 3 [] (LTab 1)
    = JOk \<lparr> js_list = [], js_out = [LBRACE, QUOT, 0x61, BSL, 0x6E, QUOT, COLON, LBRACK] @ txt_true @ [COMMA, 0x37, RBRACK, RBRACE] \<rparr>"
  by (subst stringify_prints_tree [OF ex_tree])
    (simp_all add: js_add_def commas_Cons comma_tail_def json_string_def json_char_def short_escape_def BSL_def QUOT_def
      ex_lua_def hex_digit_def)

lemma cyclic_tables_witness: "JSON_stringify ex_lua 1000 [] (LTab 3) = JFuel"
  by (rule cyclic_tables_never_end [where C = "{3}"]) (simp_all add: ex_lua_def)

end
