(* ===== verification/JsonParse.thy ===== *)
theory JsonParse
  imports Json
begin

text \<open>
  Reading JSON, the first half of \<open>src/webserver/luajson_lib.c\<close>, which is compiled with
  \<open>JSON_PARSE\<close>. The text is the block that \<open>JSON_parse\<close> allocates: the bytes of the string and a
  terminator. Reading or writing outside a block is \<open>JBad\<close>, a Lua error \<open>JErr\<close>. The arithmetic on
  \<open>double\<close> is a parameter; allocations succeed. The values of a text lie on the Lua stack, two for each
  level of nesting, and the parser does not ask for room; the model has the room.
\<close>

section \<open>Characters\<close>

definition j_rd :: "u8 list \<Rightarrow> nat \<Rightarrow> u8 jres" where
  "j_rd m c = (if c < length m then JOk (m ! c) else JBad)"

text \<open>The tests for letters hold for every byte, so the last two cases are never reached.\<close>

definition digit2int :: "u8 \<Rightarrow> u32 jres" where
  "digit2int digit =
     (if 0x30 \<le> digit \<and> digit \<le> 0x39 then JOk (ucast digit - 0x30)
      else if 0x61 \<le> digit \<or> digit \<le> 0x66 then JOk (ucast digit - 0x61 + 10)
      else if 0x41 \<le> digit \<or> digit \<le> 0x46 then JOk (ucast digit - 0x41 + 10)
      else JErr)"

definition fourhex2int :: "u8 list \<Rightarrow> nat \<Rightarrow> u32 jres" where
  "fourhex2int m c =
     jbind (jbind (j_rd m c) digit2int) (\<lambda>d0.
     jbind (jbind (j_rd m (c + 1)) digit2int) (\<lambda>d1.
     jbind (jbind (j_rd m (c + 2)) digit2int) (\<lambda>d2.
     jbind (jbind (j_rd m (c + 3)) digit2int) (\<lambda>d3.
       JOk (d0 * 4096 + d1 * 256 + d2 * 16 + d3)))))"

text \<open>The bytes \<open>code2utf8\<close> leaves in its buffer, up to the first 0.\<close>

definition code2utf8 :: "u32 \<Rightarrow> u8 list" where
  "code2utf8 utf =
     takeWhile (\<lambda>x. x \<noteq> 0)
       (if utf < 128 then [ucast (utf AND 0x7F), 0, 0, 0]
        else if utf < 2048 then [ucast ((drop_bit 6 utf AND 0x1F) OR 0xC0), ucast ((utf AND 0x3F) OR 0x80), 0, 0]
        else [ucast ((drop_bit 12 utf AND 0x0F) OR 0xE0), ucast ((drop_bit 6 utf AND 0x3F) OR 0x80),
              ucast ((utf AND 0x3F) OR 0x80), 0])"

definition is_space :: "u8 \<Rightarrow> bool" where
  "is_space x \<longleftrightarrow> x = 0x20 \<or> x = 0x0D \<or> x = 0x0A \<or> x = 0x09"

function passwhitespace :: "u8 list \<Rightarrow> nat \<Rightarrow> nat jres" where
  "passwhitespace m c =
     (if length m \<le> c then JBad
      else if is_space (m ! c) then passwhitespace m (c + 1)
      else JOk c)"
  by pat_completeness auto
termination by (relation "measure (\<lambda>(m, c). length m - c)") auto

declare passwhitespace.simps [simp del]

section \<open>Strings\<close>

text \<open>The character for the letter behind a backslash.\<close>

definition escape_char :: "u8 \<Rightarrow> u8 option" where
  "escape_char e =
     (if e = QUOT \<or> e = BSL \<or> e = 0x2F then Some e
      else if e = 0x62 then Some 0x08
      else if e = 0x66 then Some 0x0C
      else if e = 0x6E then Some 0x0A
      else if e = 0x72 then Some 0x0D
      else if e = 0x74 then Some 0x09
      else None)"

text \<open>
  The first loop: the end of the string and the number of bytes the escapes save. The loop does
  not look for the terminator of the text.
\<close>

function rs_scan :: "u8 list \<Rightarrow> nat \<Rightarrow> nat \<Rightarrow> (nat \<times> nat) jres" where
  "rs_scan m c saved =
     (if length m \<le> c then JBad
      else if m ! c = QUOT then
        if m ! (c - 1) \<noteq> BSL then JOk (c, saved) else rs_scan m (c + 1) saved
      else if m ! c = BSL then
        (case j_rd m (c + 1) of
           JOk e \<Rightarrow>
             if escape_char e \<noteq> None then rs_scan m (c + 2) (saved + 1)
             else if e = CH_u then
               (case fourhex2int m (c + 2) of
                  JOk utf \<Rightarrow> rs_scan m (c + 6) (saved + (if utf < 128 then 5 else if utf < 2048 then 4 else 3))
                | JErr \<Rightarrow> JErr | JBad \<Rightarrow> JBad | JFuel \<Rightarrow> JFuel)
             else JErr
         | _ \<Rightarrow> JBad)
      else rs_scan m (c + 1) saved)"
  by pat_completeness auto
termination by (relation "measure (\<lambda>(m, c, saved). length m - c)") auto

declare rs_scan.simps [simp del]

text \<open>\<open>strchr\<close> from a place of the text: the place of the byte, or NULL at the terminator.\<close>

function j_strchr :: "u8 \<Rightarrow> u8 list \<Rightarrow> nat \<Rightarrow> nat option jres" where
  "j_strchr x m c =
     (if length m \<le> c then JBad
      else if m ! c = x then JOk (Some c)
      else if m ! c = 0 then JOk None
      else j_strchr x m (c + 1))"
  by pat_completeness auto
termination by (relation "measure (\<lambda>(x, m, c). length m - c)") auto

declare j_strchr.simps [simp del]

text \<open>The bytes \<open>strncpy\<close> stores: up to a terminator, then zeros.\<close>

definition strncpy_bytes :: "u8 list \<Rightarrow> nat \<Rightarrow> u8 list" where
  "strncpy_bytes src n = (let s = takeWhile (\<lambda>x. x \<noteq> 0) (take n src) in s @ replicate (n - length s) 0)"

definition j_put :: "nat \<Rightarrow> u8 list \<Rightarrow> u8 list \<Rightarrow> u8 list jres" where
  "j_put i bs b = (case put_at i bs b of None \<Rightarrow> JBad | Some b \<Rightarrow> JOk b)"

text \<open>One pass of the second loop, from \<open>c\<close> with \<open>i\<close> bytes written: the new \<open>c\<close>, \<open>i\<close> and block.\<close>

definition rs_piece :: "u8 list \<Rightarrow> nat \<Rightarrow> nat \<Rightarrow> nat \<Rightarrow> u8 list \<Rightarrow> (nat \<times> nat \<times> u8 list) jres" where
  "rs_piece m fin c i b =
     jbind (j_strchr BSL m c) (\<lambda>esc.
       let esc = (case esc of None \<Rightarrow> None | Some j \<Rightarrow> if fin < j then None else Some j);
           copy = (\<lambda>n. if c + n \<le> length m
                     then jbind (j_put i (strncpy_bytes (drop c m) n) b) (\<lambda>b. JOk (c + n, i + n, b)) else JBad)
       in case esc of
            Some j \<Rightarrow>
              if j = c then
                jbind (j_rd m (c + 1)) (\<lambda>e.
                  case escape_char e of
                    Some x \<Rightarrow> jbind (j_put i [x] b) (\<lambda>b. JOk (c + 2, i + 1, b))
                  | None \<Rightarrow>
                      if e = CH_u then
                        jbind (fourhex2int m (c + 2)) (\<lambda>utf.
                          jbind (j_put i (code2utf8 utf @ [0]) b) (\<lambda>b. JOk (c + 6, i + length (code2utf8 utf), b)))
                      else JErr)
              else copy (j - c)
          | None \<Rightarrow> if fin < c then JBad else copy (fin - c))"

text \<open>The fuel bounds the passes; each pass moves \<open>c\<close>.\<close>

fun rs_build :: "nat \<Rightarrow> u8 list \<Rightarrow> nat \<Rightarrow> nat \<Rightarrow> nat \<Rightarrow> u8 list \<Rightarrow> (nat \<times> u8 list) jres" where
  "rs_build 0 m fin c i b = JFuel"
| "rs_build (Suc k) m fin c i b =
     (if c = fin then JOk (i, b)
      else jbind (rs_piece m fin c i b) (\<lambda>(c, i, b). rs_build k m fin c i b))"

definition readString :: "u8 list \<Rightarrow> nat \<Rightarrow> (u8 list \<times> nat) jres" where
  "readString m c =
     jbind (j_rd m c) (\<lambda>x.
       if x \<noteq> QUOT then JErr
       else
         jbind (rs_scan m (c + 1) 0) (\<lambda>(fin, saved).
         jbind (rs_build (length m + 1) m fin (c + 1) 0 (replicate (fin - (c + 1) - saved + 1) 0)) (\<lambda>(i, b).
         jbind (j_put i [0] b) (\<lambda>b. JOk (takeWhile (\<lambda>x. x \<noteq> 0) b, fin + 1)))))"

section \<open>Reading a quoted string\<close>


lemma drop_nth: "drop c m = x # xs \<Longrightarrow> c < length m \<and> m ! c = x \<and> drop (c + 1) m = xs"
  by (metis Cons_nth_drop_Suc Suc_eq_plus1 drop_all list.inject list.simps(3) not_le_imp_less)













lemma j_strchr_skip:
  "drop c m = P @ ys \<Longrightarrow> x \<notin> set P \<Longrightarrow> 0 \<notin> set P \<Longrightarrow> j_strchr x m c = j_strchr x m (c + length P)"
proof (induction P arbitrary: c)
  case (Cons y P)
  have "j_strchr x m c = j_strchr x m (c + 1)"
    using drop_nth [of c m y "P @ ys"] Cons.prems by (subst j_strchr.simps) auto
  also have "\<dots> = j_strchr x m (c + 1 + length P)"
    using Cons.IH [of "c + 1"] drop_nth [of c m y "P @ ys"] Cons.prems by simp
  finally show ?case by simp
qed simp

lemma j_strchr_here: "drop c m = x # ys \<Longrightarrow> j_strchr x m c = JOk (Some c)"
  using drop_nth [of c m x ys] by (subst j_strchr.simps) simp









section \<open>Values\<close>

text \<open>A table as the values set in it, in order; a key set again loses its old value.\<close>

datatype jkey = KInt nat | KStr "u8 list"

datatype 'd jval = JBool bool | JNull | JNum 'd | JStr "u8 list" | JTab "(jkey \<times> 'd jval) list"

definition tab_set :: "jkey \<Rightarrow> 'd jval \<Rightarrow> (jkey \<times> 'd jval) list \<Rightarrow> (jkey \<times> 'd jval) list" where
  "tab_set k v t = filter (\<lambda>e. fst e \<noteq> k) t @ [(k, v)]"

text \<open>The operations on \<open>double\<close>; \<open>db_pow10\<close> is \<open>pow\<close> with base 10.\<close>

record 'd dbl =
  db_int :: "int \<Rightarrow> 'd"
  db_add :: "'d \<Rightarrow> 'd \<Rightarrow> 'd"
  db_mul :: "'d \<Rightarrow> 'd \<Rightarrow> 'd"
  db_pow10 :: "'d \<Rightarrow> 'd"

definition is_digit :: "u8 \<Rightarrow> bool" where "is_digit x \<longleftrightarrow> 0x30 \<le> x \<and> x \<le> 0x39"
definition is_exp :: "u8 \<Rightarrow> bool" where "is_exp x \<longleftrightarrow> x = 0x65 \<or> x = 0x45"

text \<open>The first loop: the places of the point and the exponent, and the end of the number.\<close>

function rn_scan :: "u8 list \<Rightarrow> nat \<Rightarrow> nat option \<Rightarrow> nat option \<Rightarrow> (nat option \<times> nat option \<times> nat) jres" where
  "rn_scan m c dec ex =
     (if length m \<le> c then JBad
      else if is_digit (m ! c) then rn_scan m (c + 1) dec ex
      else if m ! c = 0x2E then if dec \<noteq> None \<or> ex \<noteq> None then JErr else rn_scan m (c + 1) (Some c) ex
      else if is_exp (m ! c) then if ex \<noteq> None then JErr else rn_scan m (c + 1) dec (Some c)
      else if m ! c = 0x2D \<or> m ! c = 0x2B then rn_scan m (c + 1) dec ex
      else JOk (dec, ex, c))"
  by pat_completeness auto
termination by (relation "measure (\<lambda>(m, c, dec, ex). length m - c)") auto

declare rn_scan.simps [simp del]

text \<open>The loops that add up digits, until the condition on the place and the exponent holds.\<close>

function rn_sum :: "'d dbl \<Rightarrow> u8 list \<Rightarrow> (nat \<Rightarrow> int \<Rightarrow> bool) \<Rightarrow> nat \<Rightarrow> int \<Rightarrow> 'd \<Rightarrow> (nat \<times> int \<times> 'd) jres" where
  "rn_sum D m stop c e num =
     (if length m \<le> c then JBad
      else if stop c e then JOk (c, e, num)
      else rn_sum D m stop (c + 1) (e - 1)
             (db_add D num (db_mul D (db_int D (uint (m ! c) - 0x30)) (db_pow10 D (db_int D e)))))"
  by pat_completeness auto
termination by (relation "measure (\<lambda>(D, m, stop, c, e, num). length m - c)") auto

declare rn_sum.simps [simp del]

text \<open>Behind the \<open>e\<close>: the sign and the digits of the exponent.\<close>

definition rn_exponent :: "'d dbl \<Rightarrow> u8 list \<Rightarrow> nat \<Rightarrow> nat \<Rightarrow> (nat \<times> int \<times> 'd) jres" where
  "rn_exponent D m fin c =
     jbind (j_rd m c) (\<lambda>x.
       let (sgn, c) = (if x = 0x2D then (- 1, c + 1) else if x = 0x2B then (1, c + 1) else (1, c)) in
       jbind (rn_sum D m (\<lambda>c e. c = fin) c (int fin - int c - 1) (db_int D 0)) (\<lambda>(c, _, exponent).
         JOk (c, sgn, exponent)))"

definition readNumber :: "'d dbl \<Rightarrow> u8 list \<Rightarrow> nat \<Rightarrow> ('d \<times> nat) jres" where
  "readNumber D m c =
     jbind (j_rd m c) (\<lambda>x.
       let (neg, c) = (if x = 0x2D then (- 1, c + 1) else (1, c)) in
       jbind (rn_scan m c None None) (\<lambda>(dec, ex, fin).
       jbind
         (case (dec, ex) of
            (Some d, Some _) \<Rightarrow>
              jbind (rn_sum D m (\<lambda>c e. m ! c = 0x2E) c (int d - int c - 1) (db_int D 0)) (\<lambda>(c, e, num).
              jbind (rn_sum D m (\<lambda>c e. is_exp (m ! c)) (c + 1) e num) (\<lambda>(c, e, num).
              jbind (rn_exponent D m fin (c + 1)) (\<lambda>(c, sgn, exponent). JOk (c, num, sgn, exponent))))
          | (Some d, None) \<Rightarrow>
              jbind (rn_sum D m (\<lambda>c e. m ! c = 0x2E) c (int d - int c - 1) (db_int D 0)) (\<lambda>(c, e, num).
              jbind (rn_sum D m (\<lambda>c e. c = fin) (c + 1) e num) (\<lambda>(c, e, num). JOk (c, num, 1, db_int D 0)))
          | (None, Some x) \<Rightarrow>
              jbind (rn_sum D m (\<lambda>c e. is_exp (m ! c)) c (int x - int c - 1) (db_int D 0)) (\<lambda>(c, e, num).
              jbind (rn_exponent D m fin (c + 1)) (\<lambda>(c, sgn, exponent). JOk (c, num, sgn, exponent)))
          | (None, None) \<Rightarrow>
              jbind (rn_sum D m (\<lambda>c e. e < 0) c (int fin - int c - 1) (db_int D 0)) (\<lambda>(c, e, num).
                JOk (c, num, 1, db_int D 0)))
         (\<lambda>(c, num, sgn, exponent).
            JOk (db_mul D (db_mul D (db_int D neg) num) (db_pow10 D (db_mul D (db_int D sgn) exponent)), c))))"

text \<open>
  The error message is appended to the text itself, behind its terminator, before the error is
  raised; \<open>n\<close> is the length of the message.
\<close>

definition strcat_error :: "u8 list \<Rightarrow> nat \<Rightarrow> nat \<Rightarrow> 'a jres" where
  "strcat_error m c n =
     jbind (j_strchr 0 m c) (\<lambda>t.
       case t of Some j \<Rightarrow> if length m < j + n + 1 then JBad else JErr | None \<Rightarrow> JErr)"

definition read_word :: "u8 list \<Rightarrow> 'd jval \<Rightarrow> u8 list \<Rightarrow> nat \<Rightarrow> ('d jval \<times> nat) jres" where
  "read_word w v m c = (if take (length w) (drop c m) = w then JOk (v, c + length w) else JErr)"

text \<open>
  The loops of an array and an object, with the function that reads a value; \<open>k\<close> bounds their
  passes, each of which moves on.
\<close>

fun readArray :: "(nat \<Rightarrow> ('d jval \<times> nat) jres) \<Rightarrow> nat \<Rightarrow> u8 list \<Rightarrow> nat \<Rightarrow> nat \<Rightarrow> (jkey \<times> 'd jval) list \<Rightarrow> ('d jval \<times> nat) jres" where
  "readArray f 0 m c i t = JFuel"
| "readArray f (Suc k) m c i t =
     jbind (passwhitespace m c) (\<lambda>c.
     jbind (f c) (\<lambda>(v, c).
     jbind (passwhitespace m c) (\<lambda>c.
     jbind (j_rd m c) (\<lambda>x.
       if x = COMMA then jbind (passwhitespace m (c + 1)) (\<lambda>c. readArray f k m c (i + 1) (tab_set (KInt i) v t))
       else
         jbind (passwhitespace m c) (\<lambda>c.
         jbind (j_rd m c) (\<lambda>x.
           if x = RBRACK then JOk (JTab (tab_set (KInt i) v t), c + 1) else strcat_error m c 25))))))"

fun readObject :: "(nat \<Rightarrow> ('d jval \<times> nat) jres) \<Rightarrow> nat \<Rightarrow> u8 list \<Rightarrow> nat \<Rightarrow> (jkey \<times> 'd jval) list \<Rightarrow> ('d jval \<times> nat) jres" where
  "readObject f 0 m c t = JFuel"
| "readObject f (Suc k) m c t =
     jbind (passwhitespace m c) (\<lambda>c.
     jbind (readString m c) (\<lambda>(key, c).
     jbind (passwhitespace m c) (\<lambda>c.
     jbind (j_rd m c) (\<lambda>x.
       if x \<noteq> COLON then JErr
       else
         jbind (passwhitespace m (c + 1)) (\<lambda>c.
         jbind (f c) (\<lambda>(v, c).
         jbind (passwhitespace m c) (\<lambda>c.
         jbind (j_rd m c) (\<lambda>x.
           if x = COMMA then jbind (passwhitespace m (c + 1)) (\<lambda>c. readObject f k m c (tab_set (KStr key) v t))
           else
             jbind (passwhitespace m c) (\<lambda>c.
             jbind (j_rd m c) (\<lambda>x.
               if x = RBRACE then JOk (JTab (tab_set (KStr key) v t), c + 1) else strcat_error m c 29))))))))))"

text \<open>The fuel bounds the nesting of the calls.\<close>

fun readValue :: "'d dbl \<Rightarrow> nat \<Rightarrow> u8 list \<Rightarrow> nat \<Rightarrow> ('d jval \<times> nat) jres" where
  "readValue D 0 m c = JFuel"
| "readValue D (Suc k) m c =
     jbind (j_rd m c) (\<lambda>x.
       if x = 0x66 then read_word txt_false (JBool False) m c
       else if x = 0x6E then read_word txt_null JNull m c
       else if x = 0x74 then read_word txt_true (JBool True) m c
       else if x = LBRACK then readArray (readValue D k m) (length m + 1) m (c + 1) 1 []
       else if x = LBRACE then readObject (readValue D k m) (length m + 1) m (c + 1) []
       else if x = 0x2D \<or> is_digit x then jbind (readNumber D m c) (\<lambda>(d, c). JOk (JNum d, c))
       else if x = QUOT then jbind (readString m c) (\<lambda>(S, c). JOk (JStr S, c))
       else strcat_error m c 25)"

text \<open>
  The text, with the whole of its block, and at most \<open>k\<close> levels of nesting. \<open>JSON_parse\<close> does not bound the
  levels: a text has fewer than bytes.
\<close>

definition parse_within :: "'d dbl \<Rightarrow> nat \<Rightarrow> u8 list \<Rightarrow> 'd jval jres" where
  "parse_within D k m =
     jbind (passwhitespace m 0) (\<lambda>c.
     jbind (readValue D k m c) (\<lambda>(v, c).
     jbind (passwhitespace m c) (\<lambda>c.
     jbind (j_rd m c) (\<lambda>x. if x \<noteq> 0 then JErr else JOk v))))"

definition parse_text :: "'d dbl \<Rightarrow> u8 list \<Rightarrow> 'd jval jres" where
  "parse_text D m = parse_within D (length m + 1) m"

text \<open>
  The argument. A number counts as the string that Lua makes of it. For userdata the text is the block
  at its address, which is freed in the end like a copy; \<open>owned\<close> says that \<open>malloc\<close> has given that block.
\<close>

datatype js_arg = ArgString "u8 list" | ArgUserdata bool "u8 list" | ArgOther

definition JSON_parse :: "'d dbl \<Rightarrow> js_arg \<Rightarrow> 'd jval jres" where
  "JSON_parse D a =
     (case a of
        ArgString s \<Rightarrow> parse_text D (s @ [0])
      | ArgUserdata owned m \<Rightarrow> jbind (parse_text D m) (\<lambda>v. if owned then JOk v else JBad)
      | ArgOther \<Rightarrow> JErr)"

section \<open>The fuel of the parser\<close>

text \<open>
  The results of each function: an error, a step without meaning, or a value whose place is not
  before the start; never a lack of fuel.
\<close>

definition returns :: "('a \<Rightarrow> bool) \<Rightarrow> 'a jres \<Rightarrow> bool" where
  "returns P r \<longleftrightarrow> r \<noteq> JFuel \<and> (\<forall>x. r = JOk x \<longrightarrow> P x)"

lemma returns_simps [simp]: "returns P (JOk x) \<longleftrightarrow> P x" "returns P JErr" "returns P JBad" "\<not> returns P JFuel"
  by (simp_all add: returns_def)

lemma returns_bind: "returns P r \<Longrightarrow> (\<And>x. P x \<Longrightarrow> returns Q (f x)) \<Longrightarrow> returns Q (jbind r f)"
  by (cases r) (auto simp: returns_def)

lemma returns_mono: "returns P r \<Longrightarrow> (\<And>x. P x \<Longrightarrow> Q x) \<Longrightarrow> returns Q r"
  by (auto simp: returns_def)

lemma returns_if: "(b \<Longrightarrow> returns P x) \<Longrightarrow> (\<not> b \<Longrightarrow> returns P y) \<Longrightarrow> returns P (if b then x else y)"
  by simp

lemma j_rd_ret: "returns (\<lambda>_. c < length m) (j_rd m c)"
  by (simp add: j_rd_def)

lemma white_ret: "returns (\<lambda>c'. c \<le> c' \<and> c' < length m) (passwhitespace m c)"
proof (induction m c rule: passwhitespace.induct)
  case (1 m c)
  show ?case
  proof (cases "c < length m \<and> is_space (m ! c)")
    case True
    then show ?thesis using 1 by (subst passwhitespace.simps) (auto elim!: returns_mono)
  next
    case False
    then show ?thesis by (subst passwhitespace.simps) auto
  qed
qed

lemma digit_ret: "returns (\<lambda>_. c < length m) (jbind (j_rd m c) digit2int)"
  by (rule returns_bind [OF j_rd_ret]) (simp add: digit2int_def)

lemma fourhex_ret: "returns (\<lambda>_. c + 3 < length m) (fourhex2int m c)"
  unfolding fourhex2int_def by (intro returns_bind [OF digit_ret]) simp

lemma scan_ret: "returns (\<lambda>r. c \<le> fst r \<and> fst r < length m) (rs_scan m c saved)"
proof (induction m c saved rule: rs_scan.induct)
  case (1 m c saved)
  note IH = "1.IH"
  have weak: "returns (\<lambda>r. c \<le> fst r \<and> fst r < length m) r"
    if "returns (\<lambda>r. c + n \<le> fst r \<and> fst r < length m) r" for n and r :: "(nat \<times> nat) jres"
    using that by (rule returns_mono) simp
  show ?case
  proof (cases "c < length m")
    case False
    then show ?thesis by (subst rs_scan.simps) simp
  next
    case c: True
    consider "m ! c = QUOT" | "m ! c \<noteq> QUOT" "m ! c = BSL" | "m ! c \<noteq> QUOT" "m ! c \<noteq> BSL" by blast
    then show ?thesis
    proof cases
      case 1
      then show ?thesis using c weak [OF IH(1)] by (subst rs_scan.simps) auto
    next
      case 2
      show ?thesis
      proof (cases "c + 1 < length m")
        case False
        then show ?thesis using c 2 by (subst rs_scan.simps) (simp add: j_rd_def)
      next
        case True
        then have e: "j_rd m (c + 1) = JOk (m ! (c + 1))" by (simp add: j_rd_def)
        show ?thesis
        proof (cases "fourhex2int m (c + 2)")
          case (JOk u)
          then show ?thesis
            using c 2 e weak [OF IH(2)] weak [OF IH(3)] by (subst rs_scan.simps) auto
        next
          case JFuel
          then show ?thesis using fourhex_ret [of "c + 2" m] by simp
        qed (use c 2 e weak [OF IH(2)] in \<open>subst rs_scan.simps; auto\<close>)+
      qed
    next
      case 3
      then show ?thesis using c weak [OF IH(4)] by (subst rs_scan.simps) auto
    qed
  qed
qed

lemma strchr_ret: "returns (\<lambda>_. c < length m) (j_strchr x m c)"
proof (induction x m c rule: j_strchr.induct)
  case (1 x m c)
  then show ?case by (subst j_strchr.simps) (auto elim!: returns_mono)
qed

lemma j_put_ret: "returns (\<lambda>_. True) (j_put i bs b)"
  by (simp add: j_put_def split: option.splits)

lemma strcat_ret: "returns P (strcat_error m c n)"
  unfolding strcat_error_def
  by (rule returns_bind [OF strchr_ret]) (auto split: option.splits)

lemma piece_ret:
  assumes "c \<noteq> fin"
  shows "returns (\<lambda>r. c < fst r \<and> fst r \<le> length m) (rs_piece m fin c i b)"
proof -
  let ?P = "\<lambda>r :: nat \<times> nat \<times> u8 list. c < fst r \<and> fst r \<le> length m"
  have copy: "returns ?P (if c + n \<le> length m
      then jbind (j_put i (strncpy_bytes (drop c m) n) b) (\<lambda>b. JOk (c + n, i + n, b)) else JBad)" if "0 < n" for n
    using that by (cases "c + n \<le> length m") (auto intro: returns_bind [OF j_put_ret])
  have esc: "returns ?P (jbind (j_rd m (c + 1)) (\<lambda>e.
      case escape_char e of
        Some x \<Rightarrow> jbind (j_put i [x] b) (\<lambda>b. JOk (c + 2, i + 1, b))
      | None \<Rightarrow>
          if e = CH_u then
            jbind (fourhex2int m (c + 2)) (\<lambda>utf.
              jbind (j_put i (code2utf8 utf @ [0]) b) (\<lambda>b. JOk (c + 6, i + length (code2utf8 utf), b)))
          else JErr))"
    by (rule returns_bind [OF j_rd_ret])
      (auto split: option.split intro!: returns_bind [OF j_put_ret] returns_bind [OF fourhex_ret])
  have no: "returns ?P (if fin < c then JBad else if c + (fin - c) \<le> length m
      then jbind (j_put i (strncpy_bytes (drop c m) (fin - c)) b) (\<lambda>b. JOk (c + (fin - c), i + (fin - c), b)) else JBad)"
    using copy [of "fin - c"] assms by simp
  have le: "returns (\<lambda>r. \<forall>j. r = Some j \<longrightarrow> c \<le> j) (j_strchr x m c)" for x
  proof (induction x m c rule: j_strchr.induct)
    case (1 x m c)
    then show ?case by (subst j_strchr.simps) (auto elim!: returns_mono)
  qed
  show ?thesis
    unfolding rs_piece_def
  proof (rule returns_bind [OF le])
    fix r :: "nat option"
    assume r: "\<forall>j. r = Some j \<longrightarrow> c \<le> j"
    show "returns ?P (let esc = (case r of None \<Rightarrow> None | Some j \<Rightarrow> if fin < j then None else Some j);
           copy = (\<lambda>n. if c + n \<le> length m
                     then jbind (j_put i (strncpy_bytes (drop c m) n) b) (\<lambda>b. JOk (c + n, i + n, b)) else JBad)
       in case esc of
            Some j \<Rightarrow>
              if j = c then
                jbind (j_rd m (c + 1)) (\<lambda>e.
                  case escape_char e of
                    Some x \<Rightarrow> jbind (j_put i [x] b) (\<lambda>b. JOk (c + 2, i + 1, b))
                  | None \<Rightarrow>
                      if e = CH_u then
                        jbind (fourhex2int m (c + 2)) (\<lambda>utf.
                          jbind (j_put i (code2utf8 utf @ [0]) b) (\<lambda>b. JOk (c + 6, i + length (code2utf8 utf), b)))
                      else JErr)
              else copy (j - c)
          | None \<Rightarrow> if fin < c then JBad else copy (fin - c))"
    proof (cases r)
      case None
      then show ?thesis using no by (simp add: Let_def)
    next
      case (Some j)
      then have "c \<le> j" using r by simp
      then show ?thesis
        using no esc copy [of "j - c"] Some by (cases "fin < j"; cases "j = c") (simp_all add: Let_def)
    qed
  qed
qed

lemma build_ret: "c \<le> length m \<Longrightarrow> length m < k + c \<Longrightarrow> returns (\<lambda>_. True) (rs_build k m fin c i b)"
proof (induction k arbitrary: c i b)
  case (Suc k)
  show ?case
  proof (cases "c = fin")
    case False
    show ?thesis
    proof (cases "rs_piece m fin c i b")
      case (JOk r)
      then have "c < fst r" "fst r \<le> length m" using piece_ret [OF False, of m i b] by simp_all
      then show ?thesis using False JOk Suc by (cases r) simp
    qed (use False piece_ret [OF False, of m i b] in simp_all)
  qed simp
qed simp

lemma readString_ret: "returns (\<lambda>r. c < snd r \<and> snd r \<le> length m) (readString m c)"
  unfolding readString_def
proof (rule returns_bind [OF j_rd_ret], simp only: if_split, intro conjI impI)
  assume c: "c < length m"
  show "returns (\<lambda>r. c < snd r \<and> snd r \<le> length m)
    (jbind (rs_scan m (c + 1) 0) (\<lambda>(fin, saved).
     jbind (rs_build (length m + 1) m fin (c + 1) 0 (replicate (fin - (c + 1) - saved + 1) 0)) (\<lambda>(i, b).
     jbind (j_put i [0] b) (\<lambda>b. JOk (takeWhile (\<lambda>x. x \<noteq> 0) b, fin + 1)))))"
  proof (rule returns_bind [OF scan_ret], clarify)
    fix fin saved
    assume "c + 1 \<le> fst (fin, saved :: nat)" "fst (fin, saved) < length m"
    then show "returns (\<lambda>r. c < snd r \<and> snd r \<le> length m)
      (jbind (rs_build (length m + 1) m fin (c + 1) 0 (replicate (fin - (c + 1) - saved + 1) 0)) (\<lambda>(i, b).
       jbind (j_put i [0] b) (\<lambda>b. JOk (takeWhile (\<lambda>x. x \<noteq> 0) b, fin + 1))))"
      using c by (intro returns_bind [OF build_ret]) (auto intro!: returns_bind [OF j_put_ret])
  qed
qed simp

lemma rn_scan_ret: "returns (\<lambda>_. True) (rn_scan m c dec ex)"
proof (induction m c dec ex rule: rn_scan.induct)
  case (1 m c dec ex)
  then show ?case by (subst rn_scan.simps) auto
qed

lemma rn_sum_ret: "returns (\<lambda>r. c \<le> fst r \<and> fst r < length m) (rn_sum D m stop c e num)"
proof (induction D m stop c e num rule: rn_sum.induct)
  case (1 D m stop c e num)
  then show ?case by (subst rn_sum.simps) (auto elim!: returns_mono)
qed

lemma rn_exponent_ret: "returns (\<lambda>r. c \<le> fst r \<and> fst r < length m) (rn_exponent D m fin c)"
  unfolding rn_exponent_def
  by (rule returns_bind [OF j_rd_ret]) (auto simp: Let_def intro!: returns_bind [OF rn_sum_ret])

lemma readNumber_ret: "returns (\<lambda>r. c \<le> snd r) (readNumber D m c)"
proof -
  let ?P = "\<lambda>r :: 'a \<times> nat. c \<le> snd r" and ?Q = "\<lambda>r :: nat \<times> 'a \<times> int \<times> 'a. c \<le> fst r"
  have fin: "returns ?P (jbind r (\<lambda>(c, num, sgn, exponent).
      JOk (db_mul D (db_mul D (db_int D neg) num) (db_pow10 D (db_mul D (db_int D sgn) exponent)), c)))"
    if "returns ?Q r" for r neg
    by (rule returns_bind [OF that]) auto
  have sum: "returns ?Q (jbind (rn_sum D m stop c' e num) f)"
    if "c \<le> c'" "\<And>x. c \<le> fst x \<Longrightarrow> returns ?Q (f x)" for stop c' e num and f :: "nat \<times> int \<times> 'a \<Rightarrow> (nat \<times> 'a \<times> int \<times> 'a) jres"
    by (rule returns_bind [OF rn_sum_ret]) (use that in auto)
  have ex: "returns ?Q (jbind (rn_exponent D m fin c') (\<lambda>(c, sgn, exponent). JOk (c, num, sgn, exponent)))"
    if "c \<le> c'" for fin c' num
    by (rule returns_bind [OF rn_exponent_ret]) (use that in auto)
  show ?thesis
    unfolding readNumber_def
    by (rule returns_bind [OF j_rd_ret])
      (auto simp: Let_def intro!: returns_bind [OF rn_scan_ret] fin sum ex split: option.split)
qed

lemma array_ret:
  assumes "\<And>c'. c \<le> c' \<Longrightarrow> c' < length m \<Longrightarrow> returns (\<lambda>r. c' \<le> snd r) (f c')" "length m < k + c" "c \<le> length m"
  shows "returns (\<lambda>r. c \<le> snd r) (readArray f k m c i t)"
  using assms
proof (induction k arbitrary: c i t)
  case (Suc k)
  have rest: "returns (\<lambda>r. c \<le> snd r) (readArray f k m c' i' t')" if "c < c'" "c' < length m" for c' i' t'
    by (rule returns_mono [OF Suc.IH]) (use that Suc.prems in auto)
  show ?case
    unfolding readArray.simps
    by (rule returns_bind [OF white_ret], rule returns_bind [OF Suc.prems(1)])
      (auto intro!: returns_bind [OF white_ret] returns_bind [OF j_rd_ret] strcat_ret rest)
qed simp

lemma object_ret:
  assumes "\<And>c'. c \<le> c' \<Longrightarrow> c' < length m \<Longrightarrow> returns (\<lambda>r. c' \<le> snd r) (f c')" "length m < k + c" "c \<le> length m"
  shows "returns (\<lambda>r. c \<le> snd r) (readObject f k m c t)"
  using assms
proof (induction k arbitrary: c t)
  case (Suc k)
  have rest: "returns (\<lambda>r. c \<le> snd r) (readObject f k m c' t')" if "c < c'" "c' < length m" for c' t'
    by (rule returns_mono [OF Suc.IH]) (use that Suc.prems in auto)
  have val: "returns (\<lambda>r. c \<le> snd r) (jbind (f c') g)"
    if "c \<le> c'" "c' < length m" "\<And>x. c' \<le> snd x \<Longrightarrow> returns (\<lambda>r. c \<le> snd r) (g x)" for c' g
    using that by (intro returns_bind [OF Suc.prems(1)])
  show ?case
    unfolding readObject.simps
    by (rule returns_bind [OF white_ret], rule returns_bind [OF readString_ret])
      (auto intro!: returns_bind [OF white_ret] returns_bind [OF j_rd_ret] strcat_ret rest val)
qed simp

lemma value_ret: "c < length m \<Longrightarrow> length m < k + c \<Longrightarrow> returns (\<lambda>r. c \<le> snd r) (readValue D k m c)"
proof (induction k arbitrary: c)
  case (Suc k)
  have nest: "returns (\<lambda>r. c' \<le> snd r) (readValue D k m c')" if "c + 1 \<le> c'" "c' < length m" for c'
    by (rule Suc.IH) (use that Suc.prems in auto)
  have arr: "returns (\<lambda>r. c \<le> snd r) (readArray (readValue D k m) (length m + 1) m (c + 1) 1 [])"
    by (rule returns_mono [OF array_ret]) (use nest Suc.prems in auto)
  have obj: "returns (\<lambda>r. c \<le> snd r) (readObject (readValue D k m) (length m + 1) m (c + 1) [])"
    by (rule returns_mono [OF object_ret]) (use nest Suc.prems in auto)
  have word: "returns (\<lambda>r. c \<le> snd r) (read_word w v m c)" for w and v :: "'a jval"
    by (simp add: read_word_def)
  have num: "returns (\<lambda>r. c \<le> snd r) (jbind (readNumber D m c) (\<lambda>(d, c). JOk (JNum d, c)))"
    by (rule returns_bind [OF readNumber_ret]) auto
  have str: "returns (\<lambda>r. c \<le> snd r) (jbind (readString m c) (\<lambda>(S, c). JOk (JStr S :: 'a jval, c)))"
    by (rule returns_bind [OF readString_ret]) auto
  show ?case
    unfolding readValue.simps by (rule returns_bind [OF j_rd_ret]) (intro returns_if arr obj strcat_ret word num str)
qed simp

text \<open>
  The fuel that \<open>parse_text\<close> starts with is enough: the parser makes progress with every step until it
  has a value, raises an error or leaves the block, as it does for a string that is not closed.
\<close>

lemma parse_fuel: "parse_text D m \<noteq> JFuel"
proof -
  have "returns (\<lambda>_. True) (parse_text D m)"
    unfolding parse_text_def parse_within_def
    by (intro returns_bind [OF white_ret] returns_bind [OF value_ret] returns_bind [OF j_rd_ret] returns_bind [OF returns_mono [OF white_ret]])
      (auto intro!: returns_bind [OF value_ret] returns_bind [OF white_ret] returns_bind [OF j_rd_ret])
  then show ?thesis by auto
qed

section \<open>Reading what was written\<close>























section \<open>What is not read back\<close>

text \<open>A string that ends in a backslash: its closing quote is taken for an escaped one.\<close>

lemma trailing_backslash_overruns: "JSON_parse D (ArgString (json_string [0x61, BSL])) = JBad"
proof -
  define m :: "u8 list" where "m = [0x22, 0x61, 0x5C, 0x5C, 0x22, 0]"
  have m: "json_string [0x61, BSL] @ [0] = m"
    by (simp add: m_def json_string_def json_char_def short_escape_def BSL_def QUOT_def)
  have "rs_scan m 1 0 = JBad" unfolding m_def by code_simp
  moreover have rd: "j_rd m 0 = JOk 0x22" by (simp add: j_rd_def m_def)
  ultimately have "readString m 0 = JBad" by (simp add: readString_def QUOT_def)
  then have "readValue D (Suc k) m 0 = JBad" for k
    by (simp add: rd is_digit_def LBRACK_def LBRACE_def QUOT_def)
  moreover have "passwhitespace m 0 = JOk 0" unfolding m_def by code_simp
  ultimately show ?thesis by (simp add: JSON_parse_def parse_text_def parse_within_def m del: readValue.simps)
qed

text \<open>Appending the message to the text writes behind the block, for every text without a zero byte.\<close>

lemma error_message_overflows:
  assumes "0 \<notin> set s" "c \<le> length s" "0 < n"
  shows "strcat_error (s @ [0]) c n = JBad"
proof -
  have d: "drop c (s @ [0]) = drop c s @ 0 # []" using assms(2) by simp
  have "j_strchr 0 (s @ [0]) c = j_strchr 0 (s @ [0]) (c + length (drop c s))"
    by (rule j_strchr_skip [OF d]) (use assms(1) in \<open>auto dest: in_set_dropD\<close>)
  also have "\<dots> = JOk (Some (length s))"
    using j_strchr_here [of "length s" "s @ [0]" 0 "[]"] assms(2) by simp
  finally show ?thesis using assms(3) by (simp add: strcat_error_def)
qed

text \<open>Upper case hexadecimal digits give wrong values, and no character is refused.\<close>

lemma upper_case_hex_wrong: "digit2int 0x41 = JOk (- 22)" "digit2int 0x7A = JOk 35"
  by (simp_all add: digit2int_def)




end
