(* ===== verification/JsonSpace.thy ===== *)
theory JsonSpace
  imports JsonParse
begin

text \<open>
  The texts that \<open>JSON_parse\<close> of \<open>src/webserver/luajson_lib.c\<close> takes, as a grammar that does not
  mention the parser: values with white space around every item, key and colon, whole numbers and
  strings with their escapes. Each text comes with the tree that it stands for.
\<close>

section \<open>The grammar\<close>









section \<open>White space\<close>





section \<open>Numbers\<close>













section \<open>The loops\<close>





section \<open>The parser takes the grammar\<close>



















section \<open>Parsing\<close>






end
