(* ===== verification/Salloc.thy ===== *)
theory Salloc
  imports Prelude
begin

text \<open>
  \<open>src/salloc.c\<close>, the simple allocator. Every region of RAM is a doubly linked list of blocks in
  ascending order, with a guard at either end. A block starts with a header of two words: the
  address of the next block divided by 8, whose top bit says that the block is taken, and the
  address of the block before, divided by 8. The first part of the theory is the code on the flat
  memory of \<open>Prelude\<close>; \<open>s_be\<close> says that the target is big-endian. The loops follow the links in
  memory, so they are partial functions. The second part sees the headers as three functions on
  block numbers (addresses divided by 8), the list of blocks as \<open>chain\<close>, and proves what each
  operation does to it.
\<close>

section \<open>Words in memory\<close>

definition w32_bytes :: "bool \<Rightarrow> u32 \<Rightarrow> u8 list" where
  "w32_bytes be x =
     (let bs = [ucast x, ucast (drop_bit 8 x), ucast (drop_bit 16 x), ucast (drop_bit 24 x)]
      in if be then rev bs else bs)"

definition ld32 :: "bool \<Rightarrow> mem \<Rightarrow> u32 \<Rightarrow> u32" where
  "ld32 be m p =
     (let b = (\<lambda>i. ucast (m (p + (if be then 3 - i else i))) :: u32)
      in b 0 OR push_bit 8 (b 1) OR push_bit 16 (b 2) OR push_bit 24 (b 3))"

definition st32 :: "bool \<Rightarrow> u32 \<Rightarrow> u32 \<Rightarrow> mem \<Rightarrow> mem" where
  "st32 be p x m = mem_write m p (w32_bytes be x)"

section \<open>Headers\<close>

definition DYN_SIZE_MULT :: u32 where "DYN_SIZE_MULT = 8"
definition DYN_SIZE_MULT_SHIFT :: nat where "DYN_SIZE_MULT_SHIFT = 3"
definition DYN_HEADER_SIZE :: u32 where "DYN_HEADER_SIZE = 8"
definition DYN_MIN_SPLIT_SIZE :: u32 where "DYN_MIN_SPLIT_SIZE = 16"

definition s_act_size :: "u32 \<Rightarrow> u32" where
  "s_act_size sz =
     (if sz AND (DYN_SIZE_MULT - 1) \<noteq> 0
      then push_bit DYN_SIZE_MULT_SHIFT (drop_bit DYN_SIZE_MULT_SHIFT sz + 1) else sz)"

definition s_get_next_block :: "bool \<Rightarrow> u32 \<Rightarrow> mem \<Rightarrow> u32" where
  "s_get_next_block be ptr m = push_bit DYN_SIZE_MULT_SHIFT (ld32 be m ptr AND 0x7FFFFFFF)"

definition s_set_next_block :: "bool \<Rightarrow> u32 \<Rightarrow> u32 \<Rightarrow> mem \<Rightarrow> mem" where
  "s_set_next_block be ptr nxt m =
     st32 be ptr ((ld32 be m ptr AND 0x80000000) OR drop_bit DYN_SIZE_MULT_SHIFT nxt) m"

definition s_get_prev_block :: "bool \<Rightarrow> u32 \<Rightarrow> mem \<Rightarrow> u32" where
  "s_get_prev_block be ptr m = push_bit DYN_SIZE_MULT_SHIFT (ld32 be m (ptr + 4) AND 0x7FFFFFFF)"

definition s_set_prev_block :: "bool \<Rightarrow> u32 \<Rightarrow> u32 \<Rightarrow> mem \<Rightarrow> mem" where
  "s_set_prev_block be ptr prv m =
     st32 be (ptr + 4) ((ld32 be m (ptr + 4) AND 0x80000000) OR drop_bit DYN_SIZE_MULT_SHIFT prv) m"

definition s_get_block_size :: "bool \<Rightarrow> u32 \<Rightarrow> mem \<Rightarrow> u32" where
  "s_get_block_size be ptr m =
     (let nxt = s_get_next_block be ptr m in if nxt \<noteq> NULL then nxt - ptr else 0)"

definition s_mark_block_taken :: "bool \<Rightarrow> u32 \<Rightarrow> mem \<Rightarrow> mem" where
  "s_mark_block_taken be p m = st32 be p (ld32 be m p OR 0x80000000) m"

definition s_mark_block_free :: "bool \<Rightarrow> u32 \<Rightarrow> mem \<Rightarrow> mem" where
  "s_mark_block_free be p m = st32 be p (ld32 be m p AND 0x7FFFFFFF) m"

definition s_is_block_free :: "bool \<Rightarrow> u32 \<Rightarrow> mem \<Rightarrow> bool" where
  "s_is_block_free be p m \<longleftrightarrow> ld32 be m p AND 0x80000000 = 0"

definition s_create_new_block :: "bool \<Rightarrow> u32 \<Rightarrow> u32 \<Rightarrow> u32 \<Rightarrow> mem \<Rightarrow> mem" where
  "s_create_new_block be p nxt prv m =
     st32 be (p + 4) (drop_bit DYN_SIZE_MULT_SHIFT prv) (st32 be p (drop_bit DYN_SIZE_MULT_SHIFT nxt) m)"

section \<open>Freeing and finding blocks\<close>

text \<open>The loops of \<open>s_compact_free\<close>, to the taken blocks on either side.\<close>

partial_function (option) s_taken_before :: "bool \<Rightarrow> mem \<Rightarrow> u32 \<Rightarrow> u32 option" where
  "s_taken_before be m p =
     (if s_is_block_free be p m then s_taken_before be m (s_get_prev_block be p m) else Some p)"

partial_function (option) s_taken_after :: "bool \<Rightarrow> mem \<Rightarrow> u32 \<Rightarrow> u32 option" where
  "s_taken_after be m p =
     (if s_is_block_free be p m then s_taken_after be m (s_get_next_block be p m) else Some p)"

definition s_compact_free :: "bool \<Rightarrow> u32 \<Rightarrow> mem \<Rightarrow> mem option" where
  "s_compact_free be ptr m =
     (let m = s_mark_block_free be ptr m
      in case s_taken_before be m ptr of
           None \<Rightarrow> None
         | Some t \<Rightarrow>
             (let temp1 = s_get_next_block be t m
              in case s_taken_after be m ptr of
                   None \<Rightarrow> None
                 | Some temp2 \<Rightarrow>
                     Some (if temp1 \<noteq> ptr \<or> s_get_prev_block be temp2 m \<noteq> ptr
                           then s_set_prev_block be temp2 temp1 (s_set_next_block be temp1 temp2 m)
                           else m)))"

text \<open>The lines that \<open>s_get_free_block\<close> and \<open>s_shrink_block\<close> share: a block is cut in two.\<close>

definition s_cut_block :: "bool \<Rightarrow> u32 \<Rightarrow> u32 \<Rightarrow> mem \<Rightarrow> mem option" where
  "s_cut_block be pblock sz m =
     (let temp = pblock + sz;
          nxt = s_get_next_block be pblock m;
          m = s_set_prev_block be temp pblock m;
          m = s_set_next_block be temp nxt m;
          m = s_set_prev_block be nxt temp m;
          m = s_set_next_block be pblock temp m
      in s_compact_free be temp m)"

text \<open>The search for the best fit, from \<open>temp\<close> on, with the best block so far and its size.\<close>

partial_function (option) s_best_fit :: "bool \<Rightarrow> mem \<Rightarrow> u32 \<Rightarrow> u32 \<Rightarrow> u32 \<times> u32 \<Rightarrow> (u32 \<times> u32) option" where
  "s_best_fit be m sz temp b =
     (if temp = NULL then Some b
      else
        (let bsize = s_get_block_size be temp m;
             b = (if s_is_block_free be temp m \<and> sz \<le> bsize \<and> bsize < snd b then (temp, bsize) else b)
         in s_best_fit be m sz (s_get_next_block be temp m) b))"

definition s_get_free_block :: "bool \<Rightarrow> u32 \<Rightarrow> u32 \<Rightarrow> mem \<Rightarrow> (u32 \<times> mem) option" where
  "s_get_free_block be sz pstart m =
     (if sz = 0 then Some (NULL, m)
      else
        (let sz = s_act_size (sz + DYN_HEADER_SIZE)
         in case s_best_fit be m sz (s_get_next_block be pstart m) (NULL, 0xFFFFFFFF) of
              None \<Rightarrow> None
            | Some (pblock, minsize) \<Rightarrow>
                if pblock = NULL then Some (NULL, m)
                else
                  (let m = s_mark_block_taken be pblock m
                   in if minsize > sz \<and> minsize - sz \<ge> DYN_MIN_SPLIT_SIZE
                      then map_option (\<lambda>m. (pblock + DYN_HEADER_SIZE, m)) (s_cut_block be pblock sz m)
                      else Some (pblock + DYN_HEADER_SIZE, m))))"

definition s_free_block :: "bool \<Rightarrow> u32 \<Rightarrow> mem \<Rightarrow> mem option" where
  "s_free_block be ptr m = s_compact_free be (ptr - DYN_HEADER_SIZE) m"

definition s_get_actual_block_size :: "bool \<Rightarrow> u32 \<Rightarrow> mem \<Rightarrow> u32" where
  "s_get_actual_block_size be ptr m = s_get_block_size be (ptr - DYN_HEADER_SIZE) m - DYN_HEADER_SIZE"

definition s_shrink_block :: "bool \<Rightarrow> u32 \<Rightarrow> u32 \<Rightarrow> mem \<Rightarrow> mem option" where
  "s_shrink_block be pblock sz m =
     (let pblock = pblock - DYN_HEADER_SIZE;
          sz = s_act_size (sz + DYN_HEADER_SIZE)
      in if sz \<ge> s_get_block_size be pblock m \<or> s_get_block_size be pblock m - sz < DYN_MIN_SPLIT_SIZE
         then Some m else s_cut_block be pblock sz m)"

section \<open>The interface\<close>

text \<open>
  The regions of RAM are what \<open>platform_get_first_free_ram\<close> and \<open>platform_get_last_free_ram\<close> say.
\<close>

record salloc_env =
  s_be :: bool
  ram_first :: "nat \<Rightarrow> u32"
  ram_last :: "nat \<Rightarrow> u32"

record salloc =
  s_initialized :: bool
  s_mem :: mem

definition s_init_region :: "salloc_env \<Rightarrow> nat \<Rightarrow> mem \<Rightarrow> mem" where
  "s_init_region E i m =
     (let be = s_be E;
          pstart = ram_first E i;
          memspace = ram_last E i - pstart;
          g1 = pstart;
          crt = g1 + DYN_SIZE_MULT;
          g2 = g1 + memspace - DYN_SIZE_MULT;
          m = s_create_new_block be g1 crt NULL m;
          m = s_create_new_block be crt g2 g1 m;
          m = s_create_new_block be g2 NULL crt m;
          m = s_mark_block_taken be g1 m;
          m = s_mark_block_taken be g2 m
      in s_mark_block_free be crt m)"

partial_function (option) s_init_loop :: "salloc_env \<Rightarrow> nat \<Rightarrow> mem \<Rightarrow> mem option" where
  "s_init_loop E i m =
     (if ram_first E i = NULL then Some m else s_init_loop E (i + 1) (s_init_region E i m))"

definition s_init :: "salloc_env \<Rightarrow> salloc \<Rightarrow> salloc option" where
  "s_init E s = map_option (\<lambda>m. \<lparr> s_initialized = True, s_mem = m \<rparr>) (s_init_loop E 0 (s_mem s))"

definition s_ready :: "salloc_env \<Rightarrow> salloc \<Rightarrow> salloc option" where
  "s_ready E s = (if \<not> s_initialized s then s_init E s else Some s)"

partial_function (option) smalloc_loop :: "salloc_env \<Rightarrow> u32 \<Rightarrow> nat \<Rightarrow> mem \<Rightarrow> (u32 \<times> mem) option" where
  "smalloc_loop E sz i m =
     (if ram_first E i = NULL then Some (NULL, m)
      else
        case s_get_free_block (s_be E) sz (ram_first E i) m of
          None \<Rightarrow> None
        | Some (ptr, m) \<Rightarrow> if ptr \<noteq> NULL then Some (ptr, m) else smalloc_loop E sz (i + 1) m)"

definition smalloc :: "salloc_env \<Rightarrow> u32 \<Rightarrow> salloc \<Rightarrow> (u32 \<times> salloc) option" where
  "smalloc E sz s =
     (case s_ready E s of
        None \<Rightarrow> None
      | Some s \<Rightarrow> map_option (\<lambda>(ptr, m). (ptr, s\<lparr> s_mem := m \<rparr>)) (smalloc_loop E sz 0 (s_mem s)))"

definition sfree :: "salloc_env \<Rightarrow> u32 \<Rightarrow> salloc \<Rightarrow> salloc option" where
  "sfree E ptr s =
     (if ptr = NULL \<or> \<not> s_initialized s then Some s
      else map_option (\<lambda>m. s\<lparr> s_mem := m \<rparr>) (s_free_block (s_be E) ptr (s_mem s)))"

definition scalloc :: "salloc_env \<Rightarrow> u32 \<Rightarrow> u32 \<Rightarrow> salloc \<Rightarrow> (u32 \<times> salloc) option" where
  "scalloc E nmemb sz s =
     (case s_ready E s of
        None \<Rightarrow> None
      | Some s \<Rightarrow>
          case smalloc E (nmemb * sz) s of
            None \<Rightarrow> None
          | Some (ptr, s) \<Rightarrow>
              Some (ptr, if ptr \<noteq> NULL
                         then s\<lparr> s_mem := mem_write (s_mem s) ptr (replicate (unat (nmemb * sz)) 0) \<rparr> else s))"

definition srealloc :: "salloc_env \<Rightarrow> u32 \<Rightarrow> u32 \<Rightarrow> salloc \<Rightarrow> (u32 \<times> salloc) option" where
  "srealloc E ptr sz s =
     (case s_ready E s of
        None \<Rightarrow> None
      | Some s \<Rightarrow>
          if ptr = NULL then smalloc E sz s
          else if sz = 0 then map_option (\<lambda>s. (NULL, s)) (sfree E ptr s)
          else if s_get_actual_block_size (s_be E) ptr (s_mem s) = sz then Some (ptr, s)
          else if sz < s_get_actual_block_size (s_be E) ptr (s_mem s)
          then map_option (\<lambda>m. (ptr, s\<lparr> s_mem := m \<rparr>)) (s_shrink_block (s_be E) ptr sz (s_mem s))
          else
            case smalloc E sz s of
              None \<Rightarrow> None
            | Some (newptr, s) \<Rightarrow>
                if newptr = NULL then Some (NULL, s)
                else
                  (let n = s_get_actual_block_size (s_be E) ptr (s_mem s);
                       s = s\<lparr> s_mem := memcpy (s_mem s) newptr ptr (unat n) \<rparr>
                   in map_option (\<lambda>s. (newptr, s)) (sfree E ptr s)))"

section \<open>Headers as functions on block numbers\<close>

text \<open>Loads and stores, at addresses given as numbers.\<close>

lemma ld32_st32_same [simp]: "ld32 be (st32 be p x m) p = x"
  using le32_value [of x] by (simp add: ld32_def st32_def w32_bytes_def Let_def)

lemma length_w32_bytes [simp]: "length (w32_bytes be x) = 4"
  by (simp add: w32_bytes_def Let_def)

lemma off_from_of_nat:
  assumes "a < 4294967296" "x < 4294967296"
  shows "off_from (of_nat a) (of_nat x) = (if a \<le> x then x - a else 4294967296 + x - a)"
proof (cases "a \<le> x")
  case True
  then have e: "of_nat x - of_nat a = (of_nat (x - a) :: u32)" by (simp add: of_nat_diff)
  have "unat (of_nat (x - a) :: u32) = x - a" using assms by (intro unat_of_nat_small) simp
  with True show ?thesis by (simp only: off_from_def e if_True)
next
  case False
  have "(of_nat (4294967296 + x - a) :: u32) = of_nat (4294967296 + x) - of_nat a"
    using False assms by (intro of_nat_diff) simp
  moreover have "(of_nat (4294967296 + x) :: u32) = of_nat x"
    by (simp add: word_of_nat_eq_iff take_bit_eq_mod)
  ultimately have e: "of_nat x - of_nat a = (of_nat (4294967296 + x - a) :: u32)" by simp
  have "unat (of_nat (4294967296 + x - a) :: u32) = 4294967296 + x - a"
    using False assms by (intro unat_of_nat_small) simp
  with False show ?thesis by (simp only: off_from_def e if_False)
qed

lemma st32_apply:
  "\<lbrakk> a + 4 \<le> 4294967296; x < 4294967296; x < a \<or> a + 4 \<le> x \<rbrakk> \<Longrightarrow> st32 be (of_nat a) y m (of_nat x) = m (of_nat x)"
  by (auto simp: st32_def mem_write_apply off_from_of_nat)

lemma ld32_cong:
  assumes "\<And>i. i < 4 \<Longrightarrow> m' (p + of_nat i) = m (p + of_nat i)"
  shows "ld32 be m' p = ld32 be m p"
  using assms [of 0] assms [of 1] assms [of 2] assms [of 3] by (simp add: ld32_def)

lemma ld32_st32_other:
  assumes "a + 4 \<le> 4294967296" "b + 4 \<le> 4294967296" "a + 4 \<le> b \<or> b + 4 \<le> a"
  shows "ld32 be (st32 be (of_nat a) y m) (of_nat b) = ld32 be m (of_nat b)"
proof (rule ld32_cong)
  fix i :: nat
  assume "i < 4"
  with assms have "st32 be (of_nat a) y m (of_nat (b + i)) = m (of_nat (b + i))"
    by (intro st32_apply) auto
  then show "st32 be (of_nat a) y m (of_nat b + of_nat i) = m (of_nat b + of_nat i)" by simp
qed

text \<open>
  Block \<open>k\<close> lies at \<open>blk k\<close>; \<open>nx\<close>, \<open>pv\<close> and \<open>tk\<close> are the number of the next block, that of the
  block before, and whether the block is taken.
\<close>

definition blk :: "nat \<Rightarrow> u32" where "blk k = of_nat (8 * k)"

definition nx :: "bool \<Rightarrow> mem \<Rightarrow> nat \<Rightarrow> nat" where "nx be m k = unat (ld32 be m (blk k) AND 0x7FFFFFFF)"
definition pv :: "bool \<Rightarrow> mem \<Rightarrow> nat \<Rightarrow> nat" where "pv be m k = unat (ld32 be m (blk k + 4) AND 0x7FFFFFFF)"
definition tk :: "bool \<Rightarrow> mem \<Rightarrow> nat \<Rightarrow> bool" where "tk be m k \<longleftrightarrow> \<not> s_is_block_free be (blk k) m"

abbreviation BLKS :: nat where "BLKS \<equiv> 536870912"

lemma blk_4: "blk k + 4 = of_nat (8 * k + 4)" by (simp add: blk_def)

lemma unat_blk: "k < BLKS \<Longrightarrow> unat (blk k) = 8 * k"
  unfolding blk_def by (rule unat_of_nat_small) simp

lemma blk_inj: "j < BLKS \<Longrightarrow> k < BLKS \<Longrightarrow> blk j = blk k \<longleftrightarrow> j = k"
  using unat_blk [of j] unat_blk [of k] by (metis mult_cancel1 zero_neq_numeral)

lemma blk_0 [simp]: "blk 0 = NULL" by (simp add: blk_def)

lemma blk_eq_0: "k < BLKS \<Longrightarrow> blk k = NULL \<longleftrightarrow> k = 0"
  using blk_inj [of k 0] by simp

lemma push_3: "push_bit 3 (x :: u32) = of_nat (8 * unat x)"
  by (simp add: push_bit_eq_mult)

lemma get_next_blk: "s_get_next_block be (blk k) m = blk (nx be m k)"
  by (simp only: s_get_next_block_def DYN_SIZE_MULT_SHIFT_def push_3 nx_def) (simp add: blk_def)

lemma get_prev_blk: "s_get_prev_block be (blk k) m = blk (pv be m k)"
  by (simp only: s_get_prev_block_def DYN_SIZE_MULT_SHIFT_def push_3 pv_def) (simp add: blk_def)

lemma is_free_blk: "s_is_block_free be (blk k) m \<longleftrightarrow> \<not> tk be m k" by (simp add: tk_def)

text \<open>A header word: the flag and the number.\<close>

lemma low_mask: "(0x7FFFFFFF :: u32) = mask 31" by (simp add: mask_eq_exp_minus_1)

lemma bit_high: "bit (0x80000000 :: u32) n \<longleftrightarrow> n = 31"
proof -
  have "(0x80000000 :: u32) = 2 ^ 31" by simp
  then show ?thesis by (simp only: bit_exp_iff) auto
qed

lemma top_or_low: "((x :: u32) AND 0x80000000 OR y) AND 0x7FFFFFFF = y AND 0x7FFFFFFF"
  and top_or_top: "((x :: u32) AND 0x80000000 OR y) AND 0x80000000 = (x OR y) AND 0x80000000"
  and low_top: "((x :: u32) AND 0x7FFFFFFF) AND 0x80000000 = 0"
  and low_low: "((x :: u32) AND 0x7FFFFFFF) AND 0x7FFFFFFF = x AND 0x7FFFFFFF"
  and or_top_low: "((x :: u32) OR 0x80000000) AND 0x7FFFFFFF = x AND 0x7FFFFFFF"
  and or_top_top: "((x :: u32) OR 0x80000000) AND 0x80000000 = 0x80000000"
  unfolding low_mask by (rule bit_word_eqI; simp only: bit_and_iff bit_or_iff bit_mask_iff bit_high bit_0_eq; auto)+

lemma small_and_low:
  assumes "unat (y :: u32) < BLKS"
  shows "y AND 0x7FFFFFFF = y"
proof -
  have "unat (take_bit 31 y) = unat y" using assms by (simp add: unsigned_take_bit_eq take_bit_nat_eq_self)
  then show ?thesis by (simp only: low_mask take_bit_eq_mask [symmetric] word_unat_eq_iff)
qed

lemma small_and_top: "unat (y :: u32) < BLKS \<Longrightarrow> y AND 0x80000000 = 0"
  by (metis small_and_low low_top)

lemma drop_blk: "k < BLKS \<Longrightarrow> unat (drop_bit 3 (blk k)) = k"
  by (simp only: unat_drop_bit_eq) (simp add: unat_blk drop_bit_eq_div)

text \<open>What the stores to a header change.\<close>

named_theorems hdr_simps "the effect of header operations on nx, pv, tk and the other bytes"

lemma ld32_at_header:
  assumes "a < BLKS" "k < BLKS"
  shows "ld32 be (st32 be (blk a) y m) (blk k) = (if k = a then y else ld32 be m (blk k))"
    and "ld32 be (st32 be (blk a + 4) y m) (blk k) = ld32 be m (blk k)"
    and "ld32 be (st32 be (blk a) y m) (blk k + 4) = ld32 be m (blk k + 4)"
    and "ld32 be (st32 be (blk a + 4) y m) (blk k + 4) = (if k = a then y else ld32 be m (blk k + 4))"
proof -
  have n: "8 * k + 4 \<le> 8 * a \<or> 8 * a + 8 \<le> 8 * k" if "k \<noteq> a" using that by linarith
  have p: "blk k = of_nat (8 * k)" "blk k + 4 = of_nat (8 * k + 4)" for k by (simp_all add: blk_def)
  show "ld32 be (st32 be (blk a) y m) (blk k) = (if k = a then y else ld32 be m (blk k))"
  proof (cases "k = a")
    case False
    have "ld32 be (st32 be (of_nat (8 * a)) y m) (of_nat (8 * k)) = ld32 be m (of_nat (8 * k))"
      using assms n [OF False] by (intro ld32_st32_other) (linarith | presburger)+
    with False show ?thesis by (simp only: p(1) if_False)
  qed simp
  have "ld32 be (st32 be (of_nat (8 * a + 4)) y m) (of_nat (8 * k)) = ld32 be m (of_nat (8 * k))"
    using assms by (intro ld32_st32_other) (linarith | presburger)+
  then show "ld32 be (st32 be (blk a + 4) y m) (blk k) = ld32 be m (blk k)" by (simp only: blk_4) (simp only: p)
  have "ld32 be (st32 be (of_nat (8 * a)) y m) (of_nat (8 * k + 4)) = ld32 be m (of_nat (8 * k + 4))"
    using assms by (intro ld32_st32_other) (linarith | presburger)+
  then show "ld32 be (st32 be (blk a) y m) (blk k + 4) = ld32 be m (blk k + 4)" by (simp only: blk_4) (simp only: p)
  show "ld32 be (st32 be (blk a + 4) y m) (blk k + 4) = (if k = a then y else ld32 be m (blk k + 4))"
  proof (cases "k = a")
    case False
    have "ld32 be (st32 be (of_nat (8 * a + 4)) y m) (of_nat (8 * k + 4)) = ld32 be m (of_nat (8 * k + 4))"
      using assms n [OF False] by (intro ld32_st32_other) (linarith | presburger)+
    with False show ?thesis by (simp only: blk_4 if_False)
  qed simp
qed

lemma st32_at_header:
  assumes "a < BLKS" "x < 4294967296" "x < 8 * a \<or> 8 * a + 8 \<le> x"
  shows "st32 be (blk a) y m (of_nat x) = m (of_nat x)"
    and "st32 be (blk a + 4) y m (of_nat x) = m (of_nat x)"
proof -
  show "st32 be (blk a) y m (of_nat x) = m (of_nat x)"
    unfolding blk_def using assms by (intro st32_apply) linarith+
  show "st32 be (blk a + 4) y m (of_nat x) = m (of_nat x)"
    unfolding blk_4 using assms by (intro st32_apply) linarith+
qed

lemma link_word:
  assumes "b < BLKS"
  shows "unat ((x AND 0x80000000 OR drop_bit DYN_SIZE_MULT_SHIFT (blk b)) AND 0x7FFFFFFF) = b"
    and "(x AND 0x80000000 OR drop_bit DYN_SIZE_MULT_SHIFT (blk b)) AND 0x80000000 = x AND 0x80000000"
    and "unat (drop_bit DYN_SIZE_MULT_SHIFT (blk b) AND 0x7FFFFFFF) = b"
    and "drop_bit DYN_SIZE_MULT_SHIFT (blk b) AND 0x80000000 = 0"
proof -
  let ?y = "drop_bit 3 (blk b)"
  have y: "unat ?y = b" by (rule drop_blk [OF assms])
  then have s: "unat ?y < BLKS" using assms by simp
  show "unat ((x AND 0x80000000 OR drop_bit DYN_SIZE_MULT_SHIFT (blk b)) AND 0x7FFFFFFF) = b"
    and "unat (drop_bit DYN_SIZE_MULT_SHIFT (blk b) AND 0x7FFFFFFF) = b"
    by (simp_all only: DYN_SIZE_MULT_SHIFT_def top_or_low small_and_low [OF s] y)
  show "drop_bit DYN_SIZE_MULT_SHIFT (blk b) AND 0x80000000 = 0"
    by (simp only: DYN_SIZE_MULT_SHIFT_def small_and_top [OF s])
  then show "(x AND 0x80000000 OR drop_bit DYN_SIZE_MULT_SHIFT (blk b)) AND 0x80000000 = x AND 0x80000000"
    by (simp add: top_or_top bit.conj_disj_distrib2)
qed

lemma set_next_block [hdr_simps]:
  assumes "a < BLKS" "b < BLKS" "k < BLKS"
  shows "nx be (s_set_next_block be (blk a) (blk b) m) k = (if k = a then b else nx be m k)"
    and "pv be (s_set_next_block be (blk a) (blk b) m) k = pv be m k"
    and "tk be (s_set_next_block be (blk a) (blk b) m) k = tk be m k"
  using assms
  by (auto simp: nx_def pv_def tk_def s_is_block_free_def s_set_next_block_def ld32_at_header link_word)

lemma set_prev_block [hdr_simps]:
  assumes "a < BLKS" "b < BLKS" "k < BLKS"
  shows "nx be (s_set_prev_block be (blk a) (blk b) m) k = nx be m k"
    and "pv be (s_set_prev_block be (blk a) (blk b) m) k = (if k = a then b else pv be m k)"
    and "tk be (s_set_prev_block be (blk a) (blk b) m) k = tk be m k"
  using assms
  by (auto simp: nx_def pv_def tk_def s_is_block_free_def s_set_prev_block_def ld32_at_header link_word)

lemma mark_block_taken [hdr_simps]:
  assumes "a < BLKS" "k < BLKS"
  shows "nx be (s_mark_block_taken be (blk a) m) k = nx be m k"
    and "pv be (s_mark_block_taken be (blk a) m) k = pv be m k"
    and "tk be (s_mark_block_taken be (blk a) m) k = (k = a \<or> tk be m k)"
  using assms
  by (auto simp: nx_def pv_def tk_def s_is_block_free_def s_mark_block_taken_def ld32_at_header or_top_low or_top_top)

lemma mark_block_free [hdr_simps]:
  assumes "a < BLKS" "k < BLKS"
  shows "nx be (s_mark_block_free be (blk a) m) k = nx be m k"
    and "pv be (s_mark_block_free be (blk a) m) k = pv be m k"
    and "tk be (s_mark_block_free be (blk a) m) k = (k \<noteq> a \<and> tk be m k)"
  using assms
  by (auto simp: nx_def pv_def tk_def s_is_block_free_def s_mark_block_free_def ld32_at_header low_low low_top)

lemma create_new_block [hdr_simps]:
  assumes "a < BLKS" "b < BLKS" "c < BLKS" "k < BLKS"
  shows "nx be (s_create_new_block be (blk a) (blk b) (blk c) m) k = (if k = a then b else nx be m k)"
    and "pv be (s_create_new_block be (blk a) (blk b) (blk c) m) k = (if k = a then c else pv be m k)"
    and "tk be (s_create_new_block be (blk a) (blk b) (blk c) m) k = (k \<noteq> a \<and> tk be m k)"
  using assms
  by (auto simp: nx_def pv_def tk_def s_is_block_free_def s_create_new_block_def ld32_at_header link_word)

text \<open>No operation on the header of a block changes a byte elsewhere.\<close>

lemma header_bytes [hdr_simps]:
  assumes "a < BLKS" "x < 4294967296" "x < 8 * a \<or> 8 * a + 8 \<le> x"
  shows "s_set_next_block be (blk a) q m (of_nat x) = m (of_nat x)"
    and "s_set_prev_block be (blk a) q m (of_nat x) = m (of_nat x)"
    and "s_mark_block_taken be (blk a) m (of_nat x) = m (of_nat x)"
    and "s_mark_block_free be (blk a) m (of_nat x) = m (of_nat x)"
    and "s_create_new_block be (blk a) q r m (of_nat x) = m (of_nat x)"
  using assms
  by (simp_all add: s_set_next_block_def s_set_prev_block_def s_mark_block_taken_def s_mark_block_free_def
      s_create_new_block_def st32_at_header)

section \<open>The list of blocks\<close>

text \<open>
  \<open>chain be m p bs q\<close>: the headers in \<open>m\<close> link the blocks \<open>bs\<close> (their numbers, and whether they
  are taken), where \<open>p\<close> is the block before the first and \<open>q\<close> the block after the last one.
\<close>

definition first_of :: "(nat \<times> bool) list \<Rightarrow> nat \<Rightarrow> nat" where
  "first_of bs q = (case bs of [] \<Rightarrow> q | b # _ \<Rightarrow> fst b)"

definition final_of :: "nat \<Rightarrow> (nat \<times> bool) list \<Rightarrow> nat" where
  "final_of p bs = (if bs = [] then p else fst (last bs))"

fun chain :: "bool \<Rightarrow> mem \<Rightarrow> nat \<Rightarrow> (nat \<times> bool) list \<Rightarrow> nat \<Rightarrow> bool" where
  "chain be m p [] q = True"
| "chain be m p ((k, t) # bs) q \<longleftrightarrow>
     pv be m k = p \<and> tk be m k = t \<and> nx be m k = first_of bs q \<and> chain be m k bs q"

lemma first_of_simps [simp]: "first_of [] q = q" "first_of (b # bs) q = fst b"
  by (simp_all add: first_of_def)

lemma final_of_simps [simp]: "final_of p [] = p" "final_of p (b # bs) = final_of (fst b) bs" "final_of p (bs @ [b]) = fst b"
  by (simp_all add: final_of_def)

lemma first_of_append [simp]: "first_of (xs @ ys) q = first_of xs (first_of ys q)"
  by (cases xs) auto

lemma final_of_append [simp]: "final_of p (xs @ ys) = final_of (final_of p xs) ys"
  by (induction xs arbitrary: p) auto

lemma chain_append [simp]:
  "chain be m p (xs @ ys) q \<longleftrightarrow> chain be m p xs (first_of ys q) \<and> chain be m (final_of p xs) ys q"
  by (induction be m p xs "first_of ys q" rule: chain.induct) auto

lemma chain_cong:
  "(\<And>k. k \<in> fst ` set bs \<Longrightarrow> nx be m' k = nx be m k \<and> pv be m' k = pv be m k \<and> tk be m' k = tk be m k)
    \<Longrightarrow> chain be m' p bs q = chain be m p bs q"
  by (induction bs arbitrary: p) force+

text \<open>\<open>outside K m m'\<close>: only bytes of the headers of the blocks \<open>K\<close> differ.\<close>

definition outside :: "nat set \<Rightarrow> mem \<Rightarrow> mem \<Rightarrow> bool" where
  "outside K m m' \<longleftrightarrow> (\<forall>x < 4294967296. x div 8 \<notin> K \<longrightarrow> m' (of_nat x) = m (of_nat x))"

lemma outside_refl [simp]: "outside K m m" by (simp add: outside_def)

lemma outside_trans: "outside K m m' \<Longrightarrow> outside L m' m'' \<Longrightarrow> outside (K \<union> L) m m''"
  by (simp add: outside_def)

lemma outside_mono: "outside K m m' \<Longrightarrow> K \<subseteq> L \<Longrightarrow> outside L m m'"
  by (auto simp: outside_def)

lemma outside_header:
  assumes "a < BLKS"
  shows "outside {a} m (s_set_next_block be (blk a) q m)"
    and "outside {a} m (s_set_prev_block be (blk a) q m)"
    and "outside {a} m (s_mark_block_taken be (blk a) m)"
    and "outside {a} m (s_mark_block_free be (blk a) m)"
    and "outside {a} m (s_create_new_block be (blk a) q r m)"
proof -
  have d: "x < 8 * a \<or> 8 * a + 8 \<le> x" if "x div 8 \<notin> {a}" for x
    using that div_nat_eqI [of 8 a x] by (simp, linarith)
  show "outside {a} m (s_set_next_block be (blk a) q m)"
    and "outside {a} m (s_set_prev_block be (blk a) q m)"
    and "outside {a} m (s_mark_block_taken be (blk a) m)"
    and "outside {a} m (s_mark_block_free be (blk a) m)"
    and "outside {a} m (s_create_new_block be (blk a) q r m)"
    unfolding outside_def using header_bytes [OF assms] d by blast+
qed

lemma header_cong:
  assumes "k < BLKS" "\<And>x. x div 8 = k \<Longrightarrow> m' (of_nat x) = m (of_nat x)"
  shows "nx be m' k = nx be m k" and "pv be m' k = pv be m k" and "tk be m' k = tk be m k"
proof -
  have b: "m' (of_nat (8 * k + i)) = m (of_nat (8 * k + i))" if "i < 8" for i
    using that by (intro assms(2)) simp
  have "ld32 be m' (blk k) = ld32 be m (blk k)"
  proof (rule ld32_cong)
    fix i :: nat
    assume "i < 4"
    then show "m' (blk k + of_nat i) = m (blk k + of_nat i)" using b [of i] by (simp add: blk_def)
  qed
  moreover have "ld32 be m' (blk k + 4) = ld32 be m (blk k + 4)"
  proof (rule ld32_cong)
    fix i :: nat
    assume "i < 4"
    then show "m' (blk k + 4 + of_nat i) = m (blk k + 4 + of_nat i)"
      using b [of "4 + i"] by (simp add: blk_def algebra_simps)
  qed
  ultimately show "nx be m' k = nx be m k" and "pv be m' k = pv be m k" and "tk be m' k = tk be m k"
    by (simp_all add: nx_def pv_def tk_def s_is_block_free_def)
qed

lemma outside_headers:
  assumes "outside K m m'" "k < BLKS" "k \<notin> K"
  shows "nx be m' k = nx be m k" and "pv be m' k = pv be m k" and "tk be m' k = tk be m k"
proof -
  have s: "m' (of_nat x) = m (of_nat x)" if "x div 8 = k" for x
  proof -
    have "x < 4294967296" using that assms(2) by presburger
    then show ?thesis using assms(1, 3) that by (simp add: outside_def)
  qed
  show "nx be m' k = nx be m k" by (rule header_cong [OF assms(2)]) (rule s)
  show "pv be m' k = pv be m k" by (rule header_cong [OF assms(2)]) (rule s)
  show "tk be m' k = tk be m k" by (rule header_cong [OF assms(2)]) (rule s)
qed

lemma chain_outside:
  assumes "outside K m m'" "fst ` set bs \<inter> K = {}" "\<forall>b \<in> set bs. fst b < BLKS"
  shows "chain be m' p bs q = chain be m p bs q"
proof (rule chain_cong)
  fix k
  assume "k \<in> fst ` set bs"
  with assms(2, 3) have "k < BLKS" "k \<notin> K" by auto
  then show "nx be m' k = nx be m k \<and> pv be m' k = pv be m k \<and> tk be m' k = tk be m k"
    by (simp add: outside_headers [OF assms(1)])
qed

text \<open>The neighbours that the loops of \<open>s_compact_free\<close> find.\<close>

lemma taken_before:
  "chain be m c F q \<Longrightarrow> \<forall>b \<in> set F. \<not> snd b \<Longrightarrow> tk be m c
    \<Longrightarrow> s_taken_before be m (blk (final_of c F)) = Some (blk c)"
proof (induction F arbitrary: q rule: rev_induct)
  case Nil
  then show ?case by (subst s_taken_before.simps) (simp add: is_free_blk)
next
  case (snoc b F)
  then show ?case
    by (cases b) (subst s_taken_before.simps, auto simp: is_free_blk get_prev_blk)
qed

lemma taken_after:
  "chain be m p G d \<Longrightarrow> \<forall>b \<in> set G. \<not> snd b \<Longrightarrow> tk be m d
    \<Longrightarrow> s_taken_after be m (blk (first_of G d)) = Some (blk d)"
proof (induction G arbitrary: p)
  case Nil
  then show ?case by (subst s_taken_after.simps) (simp add: is_free_blk)
next
  case (Cons b G)
  then show ?case
    by (cases b) (subst s_taken_after.simps, auto simp: is_free_blk get_next_blk)
qed

text \<open>
  \<open>s_compact_free\<close>: the block \<open>p\<close>, with the free blocks around it, becomes one free block between
  the taken blocks \<open>c\<close> and \<open>d\<close>.
\<close>

lemma compact_free:
  assumes ch: "chain be m p0 (X @ (c, True) # F @ (p, t) # G @ (d, True) # Y) q"
    and dist: "distinct (map fst (X @ (c, True) # F @ (p, t) # G @ (d, True) # Y))"
    and small: "\<forall>b \<in> set (X @ (c, True) # F @ (p, t) # G @ (d, True) # Y). fst b < BLKS"
    and free: "\<forall>b \<in> set F. \<not> snd b" "\<forall>b \<in> set G. \<not> snd b"
  obtains m' where "s_compact_free be (blk p) m = Some m'"
    and "chain be m' p0 (X @ (c, True) # (first_of F p, False) # (d, True) # Y) q"
    and "outside {p, first_of F p, d} m m'"
proof -
  define f where "f = first_of F p"
  define m1 where "m1 = s_mark_block_free be (blk p) m"
  define m2 where "m2 = s_set_prev_block be (blk d) (blk f) (s_set_next_block be (blk f) (blk d) m1)"
  define m' where "m' = (if blk f \<noteq> blk p \<or> s_get_prev_block be (blk d) m1 \<noteq> blk p then m2 else m1)"
  have lim: "c < BLKS" "p < BLKS" "d < BLKS" using small by simp_all
  have f: "f < BLKS" using small by (cases F) (simp_all add: f_def)
  have fset: "f \<in> insert p (fst ` set F)" by (cases F) (simp_all add: f_def)
  have m1: "nx be m1 k = nx be m k" "pv be m1 k = pv be m k" "tk be m1 k \<longleftrightarrow> k \<noteq> p \<and> tk be m k" if "k < BLKS" for k
    using that lim by (simp_all add: m1_def mark_block_free)
  have keep: "chain be m1 r bs s = chain be m r bs s" if "p \<notin> fst ` set bs" "\<forall>b \<in> set bs. fst b < BLKS" for r bs s
    using that chain_outside [OF outside_header(4) [OF lim(2), of m be]] by (simp add: m1_def)
  have cF: "chain be m1 c F p" and cG: "chain be m1 p G d" and X: "chain be m1 p0 X c" and Y: "chain be m1 d Y q"
    using ch dist small by (auto simp: keep)
  have at: "tk be m1 c" "tk be m1 d" "pv be m1 p = final_of c F" "nx be m1 p = first_of G d" "\<not> tk be m1 p"
    "nx be m1 c = f" "pv be m1 d = final_of p G" "nx be m1 d = first_of Y q" "pv be m1 c = final_of p0 X"
    using ch dist lim by (auto simp: m1 f_def)
  have "chain be m1 c (F @ [(p, False)]) (first_of G d)" using cF at by simp
  then have before: "s_taken_before be m1 (blk p) = Some (blk c)"
    using taken_before [of be m1 c "F @ [(p, False)]" "first_of G d"] free at by simp
  have "chain be m1 (final_of c F) ((p, False) # G) d" using cG at by simp
  then have after: "s_taken_after be m1 (blk p) = Some (blk d)"
    using taken_after [of be m1 "final_of c F" "(p, False) # G" d] free at by simp
  have run: "s_compact_free be (blk p) m = Some m'"
    unfolding s_compact_free_def Let_def m1_def [symmetric] before after option.case m'_def m2_def
    by (simp add: get_next_blk at)
  have m': "nx be m' k = (if k = f then d else nx be m1 k)" "pv be m' k = (if k = d then f else pv be m1 k)"
    "tk be m' k = tk be m1 k" if "k < BLKS" for k
  proof -
    have "f = p \<and> final_of p G = p \<Longrightarrow> F = [] \<and> G = []"
    proof -
      assume e: "f = p \<and> final_of p G = p"
      have "F = []" using e dist by (cases F) (auto simp: f_def)
      moreover have "G = []" using e dist by (cases G rule: rev_cases) (auto simp: final_of_def)
      ultimately show ?thesis by simp
    qed
    then have same: "d = nx be m1 f \<and> f = pv be m1 d" if "\<not> (blk f \<noteq> blk p \<or> s_get_prev_block be (blk d) m1 \<noteq> blk p)"
      using that at small lim f blk_inj [of f p] blk_inj [of "final_of p G" p]
      by (cases G rule: rev_cases) (auto simp: get_prev_blk)
    have m2: "nx be m2 k = (if k = f then d else nx be m1 k)" "pv be m2 k = (if k = d then f else pv be m1 k)"
      "tk be m2 k = tk be m1 k"
      using that lim f by (simp_all add: m2_def hdr_simps)
    show "nx be m' k = (if k = f then d else nx be m1 k)" "pv be m' k = (if k = d then f else pv be m1 k)"
      "tk be m' k = tk be m1 k"
      using same m2 by (auto simp: m'_def)
  qed
  have "fst ` set X \<inter> {f, d} = {}" "fst ` set Y \<inter> {f, d} = {}" "c \<notin> {f, d}" "f \<noteq> d"
    using fset dist by auto
  note apart = this
  have keep2: "chain be m' r bs s = chain be m1 r bs s"
    if "fst ` set bs \<inter> {f, d} = {}" "\<forall>b \<in> set bs. fst b < BLKS" for r bs s
  proof (rule chain_cong)
    fix k
    assume "k \<in> fst ` set bs"
    with that have "k < BLKS" "k \<noteq> f" "k \<noteq> d" by auto
    then show "nx be m' k = nx be m1 k \<and> pv be m' k = pv be m1 k \<and> tk be m' k = tk be m1 k" by (simp add: m')
  qed
  have "chain be m' p0 X c" "chain be m' d Y q" using X Y apart small by (simp_all add: keep2)
  moreover have "nx be m' c = f" "pv be m' c = final_of p0 X" "tk be m' c"
    "nx be m' d = first_of Y q" "pv be m' d = f" "tk be m' d" "nx be m' f = d"
    using at lim f apart by (simp_all add: m')
  moreover have "pv be m' f = c" "\<not> tk be m' f"
    using cF at apart f free by (cases F; auto simp: m' f_def)+
  ultimately have fin: "chain be m' p0 (X @ (c, True) # (f, False) # (d, True) # Y) q" by simp
  have "outside {p} m m1" unfolding m1_def by (rule outside_header) (rule lim)
  moreover have "outside {f, d} m1 m2"
    unfolding m2_def
    using outside_trans [OF outside_header(1) [OF f] outside_header(2) [OF lim(3)]] by (simp add: insert_commute)
  ultimately have "outside {p, f, d} m m'"
    using outside_trans [of "{p}" m m1 "{f, d}" m2] by (auto simp: m'_def intro: outside_mono)
  with run fin show thesis by (intro that) (simp_all add: f_def)
qed

text \<open>A new header behind the taken block \<open>k\<close>, and the free space behind it joined to it.\<close>

lemma insert_block:
  assumes ch: "chain be m p0 (X @ (k, t) # (e, u) # Z) q"
    and dist: "distinct (n # map fst (X @ (k, t) # (e, u) # Z))"
    and small: "n < BLKS" "\<forall>b \<in> set (X @ (k, t) # (e, u) # Z). fst b < BLKS"
    and m4: "m4 = s_set_next_block be (blk k) (blk n) (s_set_prev_block be (blk e) (blk n)
      (s_set_next_block be (blk n) (blk e) (s_set_prev_block be (blk n) (blk k) m)))"
  shows "chain be m4 p0 (X @ (k, t) # (n, tk be m4 n) # (e, u) # Z) q" and "outside {n, e, k} m m4"
proof -
  have lim: "k < BLKS" "e < BLKS" using small by simp_all
  note o = outside_header(1, 2)
  have "outside ({n} \<union> {n} \<union> {e} \<union> {k}) m m4"
    unfolding m4 by (rule outside_trans o lim small(1))+
  then show o4: "outside {n, e, k} m m4" by (auto elim: outside_mono)
  have keep: "chain be m4 r bs s = chain be m r bs s"
    if "fst ` set bs \<inter> {n, e, k} = {}" "\<forall>b \<in> set bs. fst b < BLKS" for r bs s
    using o4 that by (rule chain_outside)
  have "chain be m4 p0 X k" "chain be m4 e Z q"
    using ch dist small by (auto simp: keep)
  moreover have "pv be m4 k = final_of p0 X" "nx be m4 k = n" "tk be m4 k = t" "pv be m4 n = k" "nx be m4 n = e"
    "pv be m4 e = n" "tk be m4 e = u" "nx be m4 e = first_of Z q"
    using ch dist lim small(1) by (auto simp: m4 hdr_simps)
  ultimately show "chain be m4 p0 (X @ (k, t) # (n, tk be m4 n) # (e, u) # Z) q" by simp
qed

lemma cut_block:
  assumes ch: "chain be m p0 (X @ (k, True) # G @ (d, True) # Y) q"
    and dist: "distinct (n # map fst (X @ (k, True) # G @ (d, True) # Y))"
    and small: "n < BLKS" "\<forall>b \<in> set (X @ (k, True) # G @ (d, True) # Y). fst b < BLKS"
    and free: "\<forall>b \<in> set G. \<not> snd b"
    and sz: "blk k + sz = blk n"
  obtains m' where "s_cut_block be (blk k) sz m = Some m'"
    and "chain be m' p0 (X @ (k, True) # (n, False) # (d, True) # Y) q"
    and "outside ({n, k, d} \<union> fst ` set G) m m'"
proof -
  obtain e u Z where Z: "G @ (d, True) # Y = (e, u) # Z" by (cases G) auto
  have e: "nx be m k = e" "e \<in> insert d (fst ` set G)" using ch Z by (cases G; auto)+
  define m4 where "m4 = s_set_next_block be (blk k) (blk n) (s_set_prev_block be (blk e) (blk n)
      (s_set_next_block be (blk n) (blk e) (s_set_prev_block be (blk n) (blk k) m)))"
  have "chain be m4 p0 (X @ (k, True) # (n, tk be m4 n) # (e, u) # Z) q" and o4: "outside {n, e, k} m m4"
    using insert_block [OF _ _ small(1) _ m4_def, of p0 X True u Z q] ch dist small(2) unfolding Z by blast+
  then have "chain be m4 p0 (X @ (k, True) # [] @ (n, tk be m4 n) # G @ (d, True) # Y) q" by (simp flip: Z)
  moreover have "distinct (map fst (X @ (k, True) # [] @ (n, tk be m4 n) # G @ (d, True) # Y))"
    using dist by auto
  moreover have "\<forall>b \<in> set (X @ (k, True) # [] @ (n, tk be m4 n) # G @ (d, True) # Y). fst b < BLKS"
    using small by auto
  ultimately obtain m' where m': "s_compact_free be (blk n) m4 = Some m'"
    "chain be m' p0 (X @ (k, True) # (n, False) # (d, True) # Y) q" "outside {n, n, d} m4 m'"
    using free by (elim compact_free) auto
  have "s_cut_block be (blk k) sz m = Some m'"
    unfolding s_cut_block_def Let_def sz get_next_blk e m4_def [symmetric] by (rule m')
  moreover have "outside ({n, k, d} \<union> fst ` set G) m m'"
    using outside_trans [OF o4 m'(3)] by (rule outside_mono) (use e(2) in auto)
  ultimately show thesis by (intro that [OF _ m'(2)])
qed

section \<open>The search\<close>

text \<open>The blocks of a list with their ends: \<open>(k, d, t)\<close> is the block from \<open>k\<close> to \<open>d\<close>.\<close>

fun gaps :: "(nat \<times> bool) list \<Rightarrow> (nat \<times> nat \<times> bool) list" where
  "gaps ((k, t) # (d, u) # bs) = (k, d, t) # gaps ((d, u) # bs)"
| "gaps bs = []"

lemma gaps_append:
  "gaps (xs @ (k, t) # ys) = gaps (xs @ [(k, t)]) @ gaps ((k, t) # ys)"
  by (induction xs rule: gaps.induct) auto

lemma in_gaps_split: "(k, d, t) \<in> set (gaps bs) \<longleftrightarrow> (\<exists>X u Y. bs = X @ (k, t) # (d, u) # Y)"
proof
  show "(k, d, t) \<in> set (gaps bs) \<Longrightarrow> \<exists>X u Y. bs = X @ (k, t) # (d, u) # Y"
  proof (induction bs rule: gaps.induct)
    case (1 k' t' d' u' bs)
    show ?case
    proof (cases "(k, d, t) = (k', d', t')")
      case False
      with 1 obtain X u Y where "(d', u') # bs = X @ (k, t) # (d, u) # Y" by auto
      then have "(k', t') # (d', u') # bs = ((k', t') # X) @ (k, t) # (d, u) # Y" by simp
      then show ?thesis by blast
    qed (auto intro: exI [of _ "[]"])
  qed auto
  show "\<exists>X u Y. bs = X @ (k, t) # (d, u) # Y \<Longrightarrow> (k, d, t) \<in> set (gaps bs)"
  proof (elim exE)
    fix X u Y
    assume "bs = X @ (k, t) # (d, u) # Y"
    then have "gaps bs = gaps (X @ [(k, t)]) @ (k, d, t) # gaps ((d, u) # Y)"
      using gaps_append [of X k t "(d, u) # Y"] by simp
    then show ?thesis by simp
  qed
qed

text \<open>
  A list of blocks of a region: ascending, closed by a taken block at either end, and without two
  free blocks in a row.
\<close>

fun sparse :: "(nat \<times> bool) list \<Rightarrow> bool" where
  "sparse ((k, t) # (d, u) # bs) \<longleftrightarrow> (t \<or> u) \<and> sparse ((d, u) # bs)"
| "sparse bs \<longleftrightarrow> True"

definition ascending :: "(nat \<times> bool) list \<Rightarrow> bool" where
  "ascending bs \<longleftrightarrow> sorted_wrt (<) (map fst bs) \<and> (\<forall>b \<in> set bs. 0 < fst b \<and> fst b < BLKS)"

definition block_list :: "(nat \<times> bool) list \<Rightarrow> bool" where
  "block_list bs \<longleftrightarrow> ascending bs \<and> sparse bs \<and> bs \<noteq> [] \<and> snd (hd bs) \<and> snd (last bs)"

lemma sparse_append:
  "sparse (xs @ (k, t) # ys) \<longleftrightarrow> sparse (xs @ [(k, t)]) \<and> sparse ((k, t) # ys)"
  by (induction xs rule: sparse.induct) auto

lemma ascending_distinct: "ascending bs \<Longrightarrow> distinct (map fst bs)"
  by (simp add: ascending_def strict_sorted_iff)

lemma ascending_Nil [simp]: "ascending []"
  by (simp add: ascending_def)

lemma ascending_Cons: "ascending (b # bs) \<longleftrightarrow> 0 < fst b \<and> fst b < BLKS \<and> (\<forall>c \<in> set bs. fst b < fst c) \<and> ascending bs"
  by (auto simp: ascending_def)

lemma ascending_append: "ascending (xs @ ys) \<longleftrightarrow> ascending xs \<and> ascending ys \<and> (\<forall>x \<in> set xs. \<forall>y \<in> set ys. fst x < fst y)"
  by (auto simp: ascending_def sorted_wrt_append)

definition fits :: "nat \<Rightarrow> nat \<times> nat \<times> bool \<Rightarrow> bool" where
  "fits n g \<longleftrightarrow> (case g of (k, d, t) \<Rightarrow> \<not> t \<and> n \<le> d - k)"

text \<open>Sizes: a request of \<open>sz\<close> bytes takes \<open>units sz\<close> times 8 bytes with its header.\<close>

definition units :: "u32 \<Rightarrow> nat" where "units sz = (unat sz + 15) div 8"

lemma act_size:
  assumes "unat x \<le> 4294967288"
  shows "unat (s_act_size x) = 8 * ((unat x + 7) div 8)"
proof -
  have low: "unat (x AND (DYN_SIZE_MULT - 1)) = unat x mod 8"
    using unat_and_mask [of x 3] by (simp add: DYN_SIZE_MULT_def)
  show ?thesis
  proof (cases "unat x mod 8 = 0")
    case True
    then have "s_act_size x = x" using low by (simp add: s_act_size_def unat_eq_0)
    then show ?thesis using True by presburger
  next
    case False
    then have n: "x AND (DYN_SIZE_MULT - 1) \<noteq> 0" using low by (metis unat_0)
    have d: "unat (drop_bit 3 x) = unat x div 8" by (simp only: unat_drop_bit_eq) (simp add: drop_bit_eq_div)
    have "unat (drop_bit 3 x + 1) = unat x div 8 + 1"
      using assms div_le_dividend [of "unat x" 8]
      by (subst unat_add_lem [THEN iffD1]) (simp_all add: d del: div_le_dividend)
    then have e: "s_act_size x = of_nat (8 * (unat x div 8 + 1))"
      using n by (simp only: s_act_size_def DYN_SIZE_MULT_SHIFT_def push_3 not_False_eq_True if_True)
    have "1 \<le> unat x mod 8" using False by simp
    have "8 * (q + 1) < 4294967296" if "q * 8 + r = y" "1 \<le> r" "y \<le> 4294967288" for q r y :: nat
      using that by simp
    from this [OF div_mult_mod_eq \<open>1 \<le> unat x mod 8\<close> assms] have "8 * (unat x div 8 + 1) < 4294967296" .
    then have "unat (of_nat (8 * (unat x div 8 + 1)) :: u32) = 8 * (unat x div 8 + 1)"
      by (intro unat_of_nat_small) simp
    moreover have "(q * 8 + r + 7) div 8 = q + 1" if "1 \<le> r" "r < 8" for q r :: nat
      using that by (intro div_nat_eqI) simp_all
    from this [of "unat x mod 8" "unat x div 8"] have "unat x div 8 + 1 = (unat x + 7) div 8"
      using \<open>1 \<le> unat x mod 8\<close> by simp
    ultimately show ?thesis by (simp only: e)
  qed
qed

lemma act_size_request:
  assumes "unat sz \<le> 4294967280"
  shows "unat (s_act_size (sz + DYN_HEADER_SIZE)) = 8 * units sz"
proof -
  have "unat (sz + DYN_HEADER_SIZE) = unat sz + 8"
    using assms by (subst unat_add_lem [THEN iffD1]) (simp_all add: DYN_HEADER_SIZE_def)
  then show ?thesis using act_size [of "sz + DYN_HEADER_SIZE"] assms by (simp add: units_def)
qed

lemma blk_diff: "k \<le> d \<Longrightarrow> blk d - blk k = of_nat (8 * (d - k))"
  by (simp add: blk_def of_nat_diff right_diff_distrib)

lemma block_size:
  assumes "nx be m k = d" "k < d" "d < BLKS"
  shows "unat (s_get_block_size be (blk k) m) = 8 * (d - k)"
proof -
  have "s_get_block_size be (blk k) m = of_nat (8 * (d - k))"
    using assms blk_eq_0 [of d] by (simp add: s_get_block_size_def get_next_blk blk_diff)
  also have "unat (of_nat (8 * (d - k)) :: u32) = 8 * (d - k)"
    using assms(3) by (intro unat_of_nat_small) simp
  finally show ?thesis .
qed

definition best :: "nat \<Rightarrow> (nat \<times> nat \<times> bool) set \<Rightarrow> u32 \<times> u32 \<Rightarrow> u32 \<times> u32 \<Rightarrow> bool" where
  "best n gs b r \<longleftrightarrow>
     (r = b \<and> (\<forall>(k, d, t) \<in> gs. fits n (k, d, t) \<longrightarrow> unat (snd b) \<le> 8 * (d - k)))
     \<or> (\<exists>k d. (k, d, False) \<in> gs \<and> fits n (k, d, False) \<and> fst r = blk k \<and> unat (snd r) = 8 * (d - k)
          \<and> 8 * (d - k) < unat (snd b) \<and> (\<forall>(k', d', t) \<in> gs. fits n (k', d', t) \<longrightarrow> d - k \<le> d' - k'))"

lemma best_insert:
  assumes r: "best n gs b' r" and s: "unat s = 8 * (d - k)"
    and b': "b' = (if fits n (k, d, t) \<and> 8 * (d - k) < unat (snd b) then (blk k, s) else b)"
  shows "best n (insert (k, d, t) gs) b r"
proof (cases "fits n (k, d, t) \<and> 8 * (d - k) < unat (snd b)")
  case True
  then have t: "t = False" by (simp add: fits_def)
  from r consider "r = (blk k, s)" "\<forall>(k', d', t) \<in> gs. fits n (k', d', t) \<longrightarrow> d - k \<le> d' - k'"
    | k0 d0 where "(k0, d0, False) \<in> gs" "fits n (k0, d0, False)" "fst r = blk k0" "unat (snd r) = 8 * (d0 - k0)"
      "d0 - k0 < d - k" "\<forall>(k', d', t) \<in> gs. fits n (k', d', t) \<longrightarrow> d0 - k0 \<le> d' - k'"
    using True s unfolding best_def b' by auto
  then show ?thesis
  proof cases
    case 1
    then show ?thesis unfolding best_def using True s
      by (intro disjI2 exI [of _ k] exI [of _ d]) (simp add: t)
  next
    case (2 k0 d0)
    then show ?thesis unfolding best_def using True
      by (intro disjI2 exI [of _ k0] exI [of _ d0]) auto
  qed
next
  case False
  then have "b' = b" by (simp only: b' if_False)
  with r consider "r = b" "\<forall>(k, d, t) \<in> gs. fits n (k, d, t) \<longrightarrow> unat (snd b) \<le> 8 * (d - k)"
    | k0 d0 where "(k0, d0, False) \<in> gs" "fits n (k0, d0, False)" "fst r = blk k0" "unat (snd r) = 8 * (d0 - k0)"
      "8 * (d0 - k0) < unat (snd b)" "\<forall>(k', d', t) \<in> gs. fits n (k', d', t) \<longrightarrow> d0 - k0 \<le> d' - k'"
    unfolding best_def by auto
  then show ?thesis
  proof cases
    case 1
    then show ?thesis unfolding best_def using False by (intro disjI1) auto
  next
    case (2 k0 d0)
    then show ?thesis unfolding best_def using False
      by (intro disjI2 exI [of _ k0] exI [of _ d0]) auto
  qed
qed

lemma best_fit:
  assumes "chain be m p bs 0" "ascending bs" "bs \<noteq> [] \<Longrightarrow> snd (last bs)" "unat sz = 8 * n"
  shows "\<exists>r. s_best_fit be m sz (blk (first_of bs 0)) b = Some r \<and> best n (set (gaps bs)) b r"
  using assms(1-3)
proof (induction bs arbitrary: p b)
  case Nil
  show ?case by (subst s_best_fit.simps) (simp add: best_def)
next
  case (Cons c bs)
  obtain k t where c: "c = (k, t)" by (cases c)
  have k: "0 < k" "k < BLKS" "ascending bs" using Cons.prems(2) by (simp_all add: c ascending_Cons)
  then have nz: "blk k \<noteq> NULL" by (simp add: blk_eq_0)
  have ch: "chain be m k bs 0" "tk be m k = t" "nx be m k = first_of bs 0" using Cons.prems(1) by (simp_all add: c)
  define b' where "b' = (if s_is_block_free be (blk k) m \<and> sz \<le> s_get_block_size be (blk k) m
      \<and> s_get_block_size be (blk k) m < snd b then (blk k, s_get_block_size be (blk k) m) else b)"
  have last: "bs \<noteq> [] \<Longrightarrow> snd (last bs)" using Cons.prems(3) by (cases bs) auto
  from Cons.IH [OF ch(1) k(3) last, of b'] obtain r
    where r: "s_best_fit be m sz (blk (first_of bs 0)) b' = Some r" "best n (set (gaps bs)) b' r" by blast
  have run: "s_best_fit be m sz (blk (first_of (c # bs) 0)) b = Some r"
    using nz r(1) by (subst s_best_fit.simps) (auto simp: c get_next_blk ch(3) b'_def Let_def split: if_splits)
  show ?case
  proof (cases bs)
    case Nil
    then have "b' = b" using Cons.prems(3) ch(2) by (simp add: b'_def c is_free_blk)
    then show ?thesis using r(2) run by (intro exI [of _ r]) (simp add: Nil c)
  next
    case (Cons e ys)
    obtain d u where e: "e = (d, u)" by (cases e)
    have d: "k < d" "d < BLKS" using Cons.prems(2) \<open>bs = e # ys\<close> by (simp_all add: c e ascending_Cons)
    have sz: "unat (s_get_block_size be (blk k) m) = 8 * (d - k)"
      using block_size [OF _ d] ch(3) \<open>bs = e # ys\<close> by (simp add: e)
    have b': "b' = (if fits n (k, d, t) \<and> 8 * (d - k) < unat (snd b) then (blk k, s_get_block_size be (blk k) m) else b)"
      using ch(2) by (simp add: b'_def is_free_blk word_le_nat_alt word_less_nat_alt sz assms(4) fits_def)
    have g: "set (gaps (c # bs)) = insert (k, d, t) (set (gaps bs))" by (simp add: c e \<open>bs = e # ys\<close>)
    have "best n (insert (k, d, t) (set (gaps bs))) b r"
      using r(2) sz b' by (rule best_insert)
    then show ?thesis using run g by auto
  qed
qed

section \<open>The operations on a region\<close>

text \<open>\<open>region be m bs\<close>: the memory holds the blocks \<open>bs\<close>.\<close>

definition region :: "bool \<Rightarrow> mem \<Rightarrow> (nat \<times> bool) list \<Rightarrow> bool" where
  "region be m bs \<longleftrightarrow> chain be m 0 bs 0 \<and> block_list bs"

lemma region_less: "region be m bs \<Longrightarrow> b \<in> set bs \<Longrightarrow> fst b < BLKS"
  by (simp add: region_def block_list_def ascending_def)

lemma taken_around:
  assumes "block_list (X @ Z)" "X \<noteq> []" "Z \<noteq> []"
  obtains X' c F G d Y where "X = X' @ (c, True) # F" "\<forall>b \<in> set F. \<not> snd b"
    and "Z = G @ (d, True) # Y" "\<forall>b \<in> set G. \<not> snd b"
proof -
  have "hd X \<in> set X" "snd (hd X)" "last Z \<in> set Z" "snd (last Z)"
    using assms by (auto simp: block_list_def)
  then have "\<exists>x \<in> set X. snd x" "\<exists>z \<in> set Z. snd z" by blast+
  from split_list_last_prop [OF this(1)] split_list_first_prop [OF this(2)]
  obtain X' c F G d Y where "X = X' @ c # F" "snd c" "\<forall>b \<in> set F. \<not> snd b" "Z = G @ d # Y" "snd d" "\<forall>b \<in> set G. \<not> snd b"
    by blast
  then show thesis by (intro that [of X' "fst c" F G "fst d" Y]) (cases c; cases d; auto)+
qed

text \<open>Replacing what lies between two taken blocks.\<close>

lemma block_list_between:
  assumes "block_list (X @ (c, True) # M @ (d, True) # Y)"
    and "ascending ((c, True) # N @ [(d, True)])" "sparse ((c, True) # N @ [(d, True)])"
  shows "block_list (X @ (c, True) # N @ (d, True) # Y)"
proof -
  have "sparse (X @ (c, True) # M @ (d, True) # Y)" using assms(1) by (simp add: block_list_def)
  then have s: "sparse (X @ [(c, True)])" "sparse ((c, True) # M @ (d, True) # Y)"
    by (simp_all only: sparse_append [of X c True "M @ (d, True) # Y"])
  then have "sparse ((d, True) # Y)" using sparse_append [of "(c, True) # M" d True Y] by simp
  then have "sparse ((c, True) # N @ (d, True) # Y)"
    using sparse_append [of "(c, True) # N" d True Y] assms(3) by simp
  with s have "sparse (X @ (c, True) # N @ (d, True) # Y)"
    by (simp only: sparse_append [of X c True "N @ (d, True) # Y"])
  moreover have "ascending (X @ (c, True) # N @ (d, True) # Y)"
  proof -
    have a: "ascending X" "\<forall>x \<in> set X. fst x < c" "0 < c" "d < BLKS" "\<forall>y \<in> set Y. d < fst y" "ascending Y"
      using assms(1) by (simp_all add: block_list_def ascending_append ascending_Cons)
    have b: "ascending N" "\<forall>n \<in> set N. c < fst n" "\<forall>n \<in> set N. fst n < d" "c < d" "c < BLKS"
      using assms(2) by (simp_all add: ascending_append ascending_Cons)
    have "\<forall>y \<in> set Y. c < fst y" "\<forall>n \<in> set N. \<forall>y \<in> set Y. fst n < fst y"
      "\<forall>x \<in> set X. \<forall>n \<in> set N. fst x < fst n" "\<forall>x \<in> set X. fst x < d" "\<forall>x \<in> set X. \<forall>y \<in> set Y. fst x < fst y"
      by (meson a b less_trans)+
    then show ?thesis using a b by (simp add: ascending_append ascending_Cons ball_Un)
  qed
  moreover have "snd (hd (X @ (c, True) # N @ (d, True) # Y))" using assms(1) by (cases X) (auto simp: block_list_def)
  moreover have "snd (last (X @ (c, True) # N @ (d, True) # Y))" using assms(1) by (simp add: block_list_def)
  ultimately show ?thesis by (simp add: block_list_def)
qed

lemma region_init:
  assumes "chain be m 0 [(f, True), (f + 1, False), (l, True)] 0" "0 < f" "f + 1 < l" "l < BLKS"
  shows "region be m [(f, True), (f + 1, False), (l, True)]"
  using assms by (simp add: region_def block_list_def ascending_def)

text \<open>Freeing a taken block.\<close>

lemma region_free:
  assumes "region be m (X @ (k, True) # (e, u) # Z)" "X \<noteq> []"
  obtains m' X' c F G d Y
    where "s_free_block be (blk k + DYN_HEADER_SIZE) m = Some m'"
      and "X = X' @ (c, True) # F" "(e, u) # Z = G @ (d, True) # Y" "\<forall>b \<in> set F. \<not> snd b" "\<forall>b \<in> set G. \<not> snd b"
      and "region be m' (X' @ (c, True) # (first_of F k, False) # (d, True) # Y)"
      and "outside {k, first_of F k, d} m m'"
proof -
  have b: "block_list (X @ (k, True) # (e, u) # Z)" and ch: "chain be m 0 (X @ (k, True) # (e, u) # Z) 0"
    using assms(1) by (simp_all add: region_def)
  have "block_list ((X @ [(k, True)]) @ (e, u) # Z)" using b by simp
  then obtain G d Y where Z: "(e, u) # Z = G @ (d, True) # Y" "\<forall>b \<in> set G. \<not> snd b"
    by (rule taken_around) auto
  obtain X' c F where X: "X = X' @ (c, True) # F" "\<forall>b \<in> set F. \<not> snd b"
    using b assms(2) by (rule taken_around) auto
  have e: "X @ (k, True) # (e, u) # Z = X' @ (c, True) # F @ (k, True) # G @ (d, True) # Y" by (simp add: X Z)
  have asc: "ascending (X' @ (c, True) # F @ (k, True) # G @ (d, True) # Y)" using b by (simp add: e block_list_def)
  have "distinct (map fst (X' @ (c, True) # F @ (k, True) # G @ (d, True) # Y))"
    by (rule ascending_distinct [OF asc])
  moreover have "\<forall>b \<in> set (X' @ (c, True) # F @ (k, True) # G @ (d, True) # Y). fst b < BLKS"
    using asc by (simp add: ascending_def)
  ultimately obtain m' where m': "s_compact_free be (blk k) m = Some m'"
    "chain be m' 0 (X' @ (c, True) # (first_of F k, False) # (d, True) # Y) 0" "outside {k, first_of F k, d} m m'"
    using ch X(2) Z(2) unfolding e by (elim compact_free)
  have "block_list (X' @ (c, True) # [(first_of F k, False)] @ (d, True) # Y)"
  proof (rule block_list_between)
    show "block_list (X' @ (c, True) # (F @ (k, True) # G) @ (d, True) # Y)" using b by (simp add: e)
    show "ascending ((c, True) # [(first_of F k, False)] @ [(d, True)])"
      using asc by (cases F) (auto simp: ascending_append ascending_Cons)
  qed simp
  then have "region be m' (X' @ (c, True) # (first_of F k, False) # (d, True) # Y)"
    using m'(2) by (simp add: region_def)
  moreover have "s_free_block be (blk k + DYN_HEADER_SIZE) m = Some m'" using m'(1) by (simp add: s_free_block_def)
  ultimately show thesis using X Z m'(3) by (intro that)
qed

text \<open>Taking a block: the smallest that is large enough, cut when 16 bytes or more are left.\<close>

definition taken_from :: "nat \<Rightarrow> nat \<Rightarrow> nat \<Rightarrow> (nat \<times> bool) list" where
  "taken_from k n d = (k, True) # (if n + 2 \<le> d - k then [(k + n, False)] else [])"

lemma units_ge: "0 < sz \<Longrightarrow> 2 \<le> units sz" "unat sz + 8 \<le> 8 * units sz"
proof -
  show "2 \<le> units sz" if "0 < sz"
  proof -
    have "0 < unat sz" using that by (simp add: word_less_nat_alt)
    then show ?thesis by (simp add: units_def)
  qed
  show "unat sz + 8 \<le> 8 * units sz" unfolding units_def by presburger
qed

lemma blk_add: "unat s = 8 * n \<Longrightarrow> blk k + s = blk (k + n)"
proof -
  assume "unat s = 8 * n"
  then have "s = of_nat (8 * n)" by (metis of_nat_unat ucast_id)
  then show ?thesis by (simp add: blk_def distrib_left)
qed

lemma region_mark_taken:
  assumes "region be m (X @ (k, t) # (d, True) # Y)" "X \<noteq> []"
  shows "region be (s_mark_block_taken be (blk k) m) (X @ (k, True) # (d, True) # Y)"
proof -
  let ?m = "s_mark_block_taken be (blk k) m"
  have b: "block_list (X @ (k, t) # (d, True) # Y)" and ch: "chain be m 0 (X @ (k, t) # (d, True) # Y) 0"
    using assms(1) by (simp_all add: region_def)
  then have asc: "ascending (X @ (k, t) # (d, True) # Y)" by (simp add: block_list_def)
  have dist: "distinct (map fst (X @ (k, t) # (d, True) # Y))" by (rule ascending_distinct [OF asc])
  have small: "\<forall>c \<in> set (X @ (k, t) # (d, True) # Y). fst c < BLKS" using asc by (simp add: ascending_def)
  then have k: "k < BLKS" "d < BLKS" by simp_all
  have keep: "chain be ?m r bs s = chain be m r bs s" if "k \<notin> fst ` set bs" "\<forall>b \<in> set bs. fst b < BLKS" for r bs s
    using that by (intro chain_outside [OF outside_header(3) [OF k(1)]]) auto
  have "chain be ?m 0 X k" "chain be ?m d Y 0" using ch dist small by (auto simp: keep)
  moreover have "pv be ?m k = final_of 0 X" "nx be ?m k = d" "tk be ?m k" "pv be ?m d = k" "tk be ?m d" "nx be ?m d = first_of Y 0"
    using ch k dist by (auto simp: mark_block_taken)
  ultimately have "chain be ?m 0 (X @ (k, True) # (d, True) # Y) 0" by simp
  moreover have "block_list (X @ (k, True) # (d, True) # Y)"
  proof -
    obtain X' c F where X: "X = X' @ (c, True) # F" "\<forall>b \<in> set F. \<not> snd b"
      using b assms(2) by (rule taken_around) auto
    have s: "sparse ((c, True) # (F @ [(k, t)]) @ [(d, True)])"
    proof -
      have "sparse (X' @ (c, True) # F @ (k, t) # (d, True) # Y)" using b by (simp add: block_list_def X)
      then have "sparse ((c, True) # (F @ [(k, t)]) @ (d, True) # Y)"
        by (simp add: sparse_append [of X' c True "F @ (k, t) # (d, True) # Y"])
      then show ?thesis using sparse_append [of "(c, True) # (F @ [(k, t)])" d True Y] by simp
    qed
    have F: "sparse ((c, True) # (F @ [(k, True)]) @ [(d, True)])"
      using s X(2) by (cases F rule: sparse.cases) auto
    have "block_list (X' @ (c, True) # (F @ [(k, True)]) @ (d, True) # Y)"
    proof (rule block_list_between)
      show "block_list (X' @ (c, True) # (F @ [(k, t)]) @ (d, True) # Y)" using b by (simp add: X)
      show "ascending ((c, True) # (F @ [(k, True)]) @ [(d, True)])"
        using asc by (auto simp: X ascending_append ascending_Cons)
    qed (rule F)
    then show ?thesis by (simp add: X)
  qed
  ultimately show ?thesis by (simp add: region_def)
qed

text \<open>Cutting a taken block \<open>k\<close> after \<open>n\<close> units; free space behind it is joined to the rest.\<close>

lemma region_cut:
  assumes "region be m (X @ (k, True) # (e, u) # Z)" "k + n < e" "0 < n" "unat s = 8 * n"
  obtains m' G d Y where "s_cut_block be (blk k) s m = Some m'"
    and "(e, u) # Z = G @ (d, True) # Y" "\<forall>b \<in> set G. \<not> snd b"
    and "region be m' (X @ (k, True) # (k + n, False) # (d, True) # Y)"
    and "outside ({k + n, k, d} \<union> fst ` set G) m m'"
proof -
  have b: "block_list (X @ (k, True) # (e, u) # Z)" and ch: "chain be m 0 (X @ (k, True) # (e, u) # Z) 0"
    using assms(1) by (simp_all add: region_def)
  have "block_list ((X @ [(k, True)]) @ (e, u) # Z)" using b by simp
  then obtain G d Y where Z: "(e, u) # Z = G @ (d, True) # Y" "\<forall>b \<in> set G. \<not> snd b"
    by (rule taken_around) auto
  have asc: "ascending (X @ (k, True) # (e, u) # Z)" using b by (simp add: block_list_def)
  have e: "e \<in> insert d (fst ` set G)" using Z(1) by (cases G) auto
  have "distinct ((k + n) # map fst (X @ (k, True) # (e, u) # Z))"
    using ascending_distinct [OF asc] asc assms(2, 3) by (force simp: ascending_append ascending_Cons)
  moreover have small: "k + n < BLKS" "\<forall>c \<in> set (X @ (k, True) # (e, u) # Z). fst c < BLKS"
    using asc assms(2) by (auto simp: ascending_def)
  ultimately obtain m' where m': "s_cut_block be (blk k) s m = Some m'"
    "chain be m' 0 (X @ (k, True) # (k + n, False) # (d, True) # Y) 0" "outside ({k + n, k, d} \<union> fst ` set G) m m'"
    using ch Z(2) blk_add [OF assms(4)] unfolding Z(1) by (elim cut_block)
  have "e \<le> d" using asc Z(1) by (cases G) (auto simp: ascending_append ascending_Cons)
  then have "ascending ((k, True) # [(k + n, False)] @ [(d, True)])"
    using asc assms(2, 3) unfolding Z(1) by (simp add: ascending_append ascending_Cons)
  moreover have "block_list (X @ (k, True) # G @ (d, True) # Y)" using b by (simp add: Z)
  ultimately have "block_list (X @ (k, True) # [(k + n, False)] @ (d, True) # Y)"
    using block_list_between [of X k G d Y "[(k + n, False)]"] by simp
  then have "region be m' (X @ (k, True) # (k + n, False) # (d, True) # Y)" using m'(2) by (simp add: region_def)
  with m' Z show thesis by (intro that)
qed

lemma sub_units:
  assumes "unat M = 8 * a" "unat s = 8 * n" "n \<le> a"
  shows "M > s \<and> M - s \<ge> DYN_MIN_SPLIT_SIZE \<longleftrightarrow> n + 2 \<le> a"
proof -
  have "unat (M - s) = 8 * a - 8 * n" using assms by (simp add: unat_sub word_le_nat_alt)
  then show ?thesis using assms by (auto simp: word_less_nat_alt word_le_nat_alt DYN_MIN_SPLIT_SIZE_def)
qed

lemma region_take:
  assumes "region be m bs" "0 < sz" "unat (s_act_size (sz + DYN_HEADER_SIZE)) = 8 * n" "0 < n"
  shows "(\<forall>g \<in> set (gaps bs). \<not> fits n g) \<and> s_get_free_block be sz (blk (first_of bs 0)) m = Some (NULL, m)
    \<or> (\<exists>X k d Y m'. bs = X @ (k, False) # (d, True) # Y \<and> X \<noteq> [] \<and> fits n (k, d, False)
        \<and> (\<forall>(k', d', t) \<in> set (gaps bs). fits n (k', d', t) \<longrightarrow> d - k \<le> d' - k')
        \<and> s_get_free_block be sz (blk (first_of bs 0)) m = Some (blk k + DYN_HEADER_SIZE, m')
        \<and> region be m' (X @ taken_from k n d @ (d, True) # Y)
        \<and> outside (insert d (fst ` set (taken_from k n d))) m m')"
proof -
  define s where "s = s_act_size (sz + DYN_HEADER_SIZE)"
  have s: "unat s = 8 * n" unfolding s_def by (rule assms(3))
  have ch: "chain be m 0 bs 0" and b: "block_list bs" and asc: "ascending bs"
    using assms(1) by (simp_all add: region_def block_list_def)
  obtain g rest where bs: "bs = (g, True) # rest" using b by (cases bs) (auto simp: block_list_def)
  have rest: "chain be m g rest 0" "nx be m g = first_of rest 0" "ascending rest" "rest \<noteq> [] \<Longrightarrow> snd (last rest)"
    using ch asc b by (auto simp: bs ascending_Cons block_list_def)
  obtain r where r: "s_best_fit be m s (blk (first_of rest 0)) (NULL, 0xFFFFFFFF) = Some r"
    "best n (set (gaps rest)) (NULL, 0xFFFFFFFF) r"
    using best_fit [OF rest(1,3,4) s] by blast
  have gaps: "(\<forall>x \<in> set (gaps bs). fits n x \<longrightarrow> P x) \<longleftrightarrow> (\<forall>x \<in> set (gaps rest). fits n x \<longrightarrow> P x)" for n :: nat and P
    by (cases rest) (auto simp: bs fits_def)
  have run: "s_get_free_block be sz (blk (first_of bs 0)) m =
      (if fst r = NULL then Some (NULL, m)
       else (let m = s_mark_block_taken be (fst r) m
             in if snd r > s \<and> snd r - s \<ge> DYN_MIN_SPLIT_SIZE
                then map_option (\<lambda>m. (fst r + DYN_HEADER_SIZE, m)) (s_cut_block be (fst r) s m)
                else Some (fst r + DYN_HEADER_SIZE, m)))"
  proof -
    obtain B M where "r = (B, M)" by (cases r)
    moreover have "sz \<noteq> 0" using assms(2) by auto
    ultimately show ?thesis using r(1) by (simp add: s_get_free_block_def s_def [symmetric] bs get_next_blk rest(2) Let_def)
  qed
  have small: "fst (snd x) < BLKS" "fst x < fst (snd x)" if h: "x \<in> set (gaps bs)" for x
  proof -
    obtain k d t where x: "x = (k, d, t)" by (cases x)
    then obtain X u Y where "bs = X @ (k, t) # (d, u) # Y" using h in_gaps_split [of k d t bs] by blast
    then show "fst (snd x) < BLKS" "fst x < fst (snd x)" using asc x by (simp_all add: ascending_append ascending_Cons)
  qed
  from r(2) [unfolded best_def] consider
      (none) "r = (NULL, 0xFFFFFFFF)" "\<forall>(k, d, t) \<in> set (gaps rest). fits n (k, d, t) \<longrightarrow> 4294967295 \<le> 8 * (d - k)"
    | (some) k d where "(k, d, False) \<in> set (gaps rest)" "fits n (k, d, False)" "fst r = blk k" "unat (snd r) = 8 * (d - k)"
        "\<forall>(k', d', t) \<in> set (gaps rest). fits n (k', d', t) \<longrightarrow> d - k \<le> d' - k'"
    by auto
  then show ?thesis
  proof cases
    case none
    have "\<not> fits n x" if "x \<in> set (gaps bs)" for x
    proof
      assume f: "fits n x"
      obtain k d t where x: "x = (k, d, t)" by (cases x)
      have "4294967295 \<le> 8 * (d - k)"
        using none(2) gaps [of "n" "\<lambda>(k, d, t). 4294967295 \<le> 8 * (d - k)"] that f x by fastforce
      then show False using small [OF that] x by simp
    qed
    then show ?thesis using run none(1) by simp
  next
    case some
    obtain X0 u Y where split: "rest = X0 @ (k, False) # (d, u) # Y" using some(1) in_gaps_split by blast
    define X where "X = (g, True) # X0"
    have bs': "bs = X @ (k, False) # (d, u) # Y" by (simp add: X_def bs split)
    have "sparse bs" using b by (simp add: block_list_def)
    then have "sparse ((k, False) # (d, u) # Y)" by (simp only: bs' sparse_append [of X k False "(d, u) # Y"])
    then have u: "u = True" by simp
    have k: "0 < k" "k < d" "d < BLKS" using asc by (simp_all add: bs' ascending_append ascending_Cons)
    define m1 where "m1 = s_mark_block_taken be (blk k) m"
    have m1: "region be m1 (X @ (k, True) # (d, True) # Y)"
      unfolding m1_def using assms(1) by (intro region_mark_taken) (simp_all add: bs' u X_def)
    have o1: "outside {k} m m1" unfolding m1_def using k by (intro outside_header) simp
    have nd: "n \<le> d - k" using some(2) by (simp add: fits_def)
    have cut: "snd r > s \<and> snd r - s \<ge> DYN_MIN_SPLIT_SIZE \<longleftrightarrow> n + 2 \<le> d - k"
      using sub_units [OF some(4) s nd] .
    have nn: "blk k \<noteq> NULL" using k blk_eq_0 [of k] by simp
    have "\<exists>m'. s_get_free_block be sz (blk (first_of bs 0)) m = Some (blk k + DYN_HEADER_SIZE, m')
        \<and> region be m' (X @ taken_from k n d @ (d, True) # Y)
        \<and> outside (insert d (fst ` set (taken_from k n d))) m m'"
    proof (cases "n + 2 \<le> d - k")
      case True
      have "k + n < d" "0 < n" using True assms(4) by simp_all
      from region_cut [OF m1 this s] obtain m' G d' Y' where m': "s_cut_block be (blk k) s m1 = Some m'"
        "(d, True) # Y = G @ (d', True) # Y'" "\<forall>b \<in> set G. \<not> snd b"
        "region be m' (X @ (k, True) # (k + n, False) # (d', True) # Y')"
        "outside ({k + n, k, d'} \<union> fst ` set G) m1 m'" by blast
      have "G = [] \<and> d' = d \<and> Y' = Y" using m'(2, 3) by (cases G) auto
      with m' have "region be m' (X @ (k, True) # (k + n, False) # (d, True) # Y)"
        "outside {k + n, k, d} m1 m'" by simp_all
      moreover have "outside (insert d (fst ` set (taken_from k n d))) m m'"
        using outside_trans [OF o1 calculation(2)] by (rule outside_mono) (use True in \<open>auto simp: taken_from_def\<close>)
      ultimately show ?thesis
        using True nn m'(1) by (intro exI [of _ m']) (simp add: run some(3) cut m1_def [symmetric] taken_from_def Let_def)
    next
      case False
      have "outside (insert d (fst ` set (taken_from k n d))) m m1"
        using o1 by (rule outside_mono) (auto simp: taken_from_def)
      then show ?thesis
        using False nn m1 by (intro exI [of _ m1]) (simp add: run some(3) cut m1_def [symmetric] taken_from_def Let_def)
    qed
    moreover have "\<forall>(k', d', t) \<in> set (gaps bs). fits n (k', d', t) \<longrightarrow> d - k \<le> d' - k'"
      using some(5) gaps [of "n" "\<lambda>(k', d', t). d - k \<le> d' - k'"] by (simp add: split_def)
    ultimately show ?thesis using bs' u some(2) by (intro disjI2) (auto simp: X_def intro!: exI [of _ X])
  qed
qed

text \<open>The size of a block, and giving back its end.\<close>

lemma region_size:
  assumes "region be m (X @ (k, t) # (e, u) # Z)"
  shows "unat (s_get_block_size be (blk k) m) = 8 * (e - k)"
    and "unat (s_get_actual_block_size be (blk k + DYN_HEADER_SIZE) m) = 8 * (e - k) - 8"
proof -
  have "ascending (X @ (k, t) # (e, u) # Z)" "nx be m k = e"
    using assms by (simp_all add: region_def block_list_def)
  then have k: "k < e" "e < BLKS" by (simp_all add: ascending_append ascending_Cons)
  show s: "unat (s_get_block_size be (blk k) m) = 8 * (e - k)"
    by (rule block_size) (use k \<open>nx be m k = e\<close> in simp_all)
  then show "unat (s_get_actual_block_size be (blk k + DYN_HEADER_SIZE) m) = 8 * (e - k) - 8"
    using k by (simp add: s_get_actual_block_size_def DYN_HEADER_SIZE_def unat_sub word_le_nat_alt)
qed

lemma region_shrink:
  assumes r: "region be m (X @ (k, True) # (e, u) # Z)" and sz: "0 < sz" "unat sz + 8 < 8 * (e - k)"
  shows "e - k < units sz + 2 \<and> s_shrink_block be (blk k + DYN_HEADER_SIZE) sz m = Some m
    \<or> (\<exists>m' G d Y. units sz + 2 \<le> e - k \<and> s_shrink_block be (blk k + DYN_HEADER_SIZE) sz m = Some m'
        \<and> (e, u) # Z = G @ (d, True) # Y \<and> (\<forall>b \<in> set G. \<not> snd b)
        \<and> region be m' (X @ (k, True) # (k + units sz, False) # (d, True) # Y)
        \<and> outside ({k + units sz, k, d} \<union> fst ` set G) m m')"
proof -
  define s where "s = s_act_size (sz + DYN_HEADER_SIZE)"
  have "ascending (X @ (k, True) # (e, u) # Z)" using r by (simp add: region_def block_list_def)
  then have k: "k < e" "e < BLKS" by (simp_all add: ascending_append ascending_Cons)
  have s: "unat s = 8 * units sz" unfolding s_def by (rule act_size_request) (use sz k in simp)
  have "(unat sz + 15) div 8 < e - k + 1" by (rule less_mult_imp_div_less) (use sz(2) in simp)
  then have n: "units sz \<le> e - k" by (simp add: units_def)
  note size = region_size(1) [OF r]
  have run: "s_shrink_block be (blk k + DYN_HEADER_SIZE) sz m
      = (if units sz + 2 \<le> e - k then s_cut_block be (blk k) s m else Some m)"
    using sub_units [OF size s n] by (auto simp: s_shrink_block_def s_def [symmetric] Let_def not_le not_less)
  show ?thesis
  proof (cases "units sz + 2 \<le> e - k")
    case True
    have "k + units sz < e" "0 < units sz" using True units_ge(1) [OF sz(1)] by simp_all
    from region_cut [OF r this s] obtain m' G d Y where "s_cut_block be (blk k) s m = Some m'"
      "(e, u) # Z = G @ (d, True) # Y" "\<forall>b \<in> set G. \<not> snd b"
      "region be m' (X @ (k, True) # (k + units sz, False) # (d, True) # Y)"
      "outside ({k + units sz, k, d} \<union> fst ` set G) m m'" by blast
    then show ?thesis using True unfolding run by (intro disjI2) (simp only: if_True, blast)
  qed (simp add: run)
qed

end
