(* ===== verification/SallocHeap.thy ===== *)
theory SallocHeap
  imports Salloc Common
begin

text \<open>
  What the clients of the simple allocator rely on. The heap is a list of regions with their
  blocks; the live blocks are the taken ones behind the first guard. A client owns the bytes
  behind the header of each live block. The locale \<open>allocator\<close> is the contract of \<open>malloc\<close>, \<open>free\<close>
  and \<open>realloc\<close> in these terms; a client program over handles is proved against it once, and
  \<open>src/salloc.c\<close> with the memory of \<open>src/common.c\<close> is its interpretation.
\<close>

section \<open>Live blocks\<close>

fun lives :: "(nat \<times> bool) list \<Rightarrow> (nat \<times> nat) set" where
  "lives ((k, t) # (d, u) # bs) = (if t then {(k, d)} else {}) \<union> lives ((d, u) # bs)"
| "lives bs = {}"

lemma lives_flag: "lives (xs @ [(k, t)]) = lives (xs @ [(k, u)])"
  by (induction xs rule: lives.induct) auto

lemma lives_append: "lives (xs @ (k, t) # ys) = lives (xs @ [(k, u)]) \<union> lives ((k, t) # ys)"
proof (induction xs)
  case Nil
  show ?case by (cases ys) auto
next
  case (Cons b xs)
  then show ?case by (cases b; cases xs) auto
qed

lemma lives_free: "\<forall>b \<in> set F. \<not> snd b \<Longrightarrow> lives (F @ (k, t) # ys) = lives ((k, t) # ys)"
proof (induction F)
  case (Cons b F)
  then show ?case by (cases b; cases F) auto
qed simp

lemma lives_mem: "(k, d) \<in> lives bs \<Longrightarrow> k \<in> fst ` set bs \<and> d \<in> fst ` set bs"
  by (induction bs rule: lives.induct) (auto split: if_splits)

lemma lives_less: "ascending bs \<Longrightarrow> (k, d) \<in> lives bs \<Longrightarrow> k < d"
proof (induction bs rule: lives.induct)
  case (1 k' t d' u bs)
  then show ?case by (auto simp: ascending_Cons split: if_splits)
qed auto

text \<open>No block starts or ends inside another one.\<close>

lemma lives_no_node: "ascending bs \<Longrightarrow> (k, d) \<in> lives bs \<Longrightarrow> x \<in> fst ` set bs \<Longrightarrow> x \<le> k \<or> d \<le> x"
proof (induction bs rule: lives.induct)
  case (1 k' t d' u bs)
  show ?case
  proof (cases "(k, d) \<in> lives ((d', u) # bs)")
    case True
    then have "d' \<le> k" using 1(2) lives_mem [OF True] by (fastforce simp: ascending_Cons)
    show ?thesis
    proof (cases "x = k'")
      case True
      then show ?thesis using \<open>d' \<le> k\<close> 1(2) by (simp add: ascending_Cons)
    next
      case False
      then show ?thesis using 1 True by (auto simp: ascending_Cons)
    qed
  next
    case False
    then have "k = k'" "d = d'" using 1(3) by (auto split: if_splits)
    then show ?thesis using 1(2, 4) by (auto simp: ascending_Cons less_imp_le)
  qed
qed auto

lemma lives_unique: "ascending bs \<Longrightarrow> (k, d) \<in> lives bs \<Longrightarrow> (k, d') \<in> lives bs \<Longrightarrow> d = d'"
  using lives_no_node [of bs k d d'] lives_no_node [of bs k d' d] lives_mem [of k d bs] lives_mem [of k d' bs]
    lives_less [of bs k d] lives_less [of bs k d'] by fastforce

lemma ascending_tl: "ascending bs \<Longrightarrow> ascending (tl bs)"
  by (cases bs) (simp_all add: ascending_Cons)

text \<open>The guard at the start of a region is no block of a client.\<close>

definition lv :: "(nat \<times> bool) list \<Rightarrow> (nat \<times> nat) set" where "lv bs = lives (tl bs)"

definition span :: "(nat \<times> bool) list \<Rightarrow> nat set" where "span bs = {first_of bs 0..final_of 0 bs}"

lemma in_span: "ascending bs \<Longrightarrow> x \<in> fst ` set bs \<Longrightarrow> x \<in> span bs"
proof -
  assume a: "ascending bs" and x: "x \<in> fst ` set bs"
  have "first_of bs 0 \<le> x" using a x by (cases bs) (auto simp: ascending_Cons less_imp_le)
  moreover have "x \<le> final_of 0 bs"
    using a x by (cases bs rule: rev_cases) (auto simp: ascending_append less_imp_le)
  ultimately show ?thesis by (simp add: span_def)
qed

lemma lv_props:
  assumes "ascending bs" "(k, d) \<in> lv bs"
  shows "k < d" "0 < k" "d < BLKS" "k \<in> span bs" "d \<in> span bs" "k \<in> fst ` set bs" "d \<in> fst ` set bs"
proof -
  have m: "k \<in> fst ` set (tl bs)" "d \<in> fst ` set (tl bs)" using assms(2) lives_mem by (auto simp: lv_def)
  then show n: "k \<in> fst ` set bs" "d \<in> fst ` set bs" by (auto dest: list.set_sel(2) [rotated])
  show "k < d" using lives_less [OF ascending_tl [OF assms(1)]] assms(2) by (simp add: lv_def)
  show "0 < k" "d < BLKS" using n assms(1) by (auto simp: ascending_def)
  show "k \<in> span bs" "d \<in> span bs" using n assms(1) by (auto intro: in_span)
qed

lemma lv_no_node:
  assumes "ascending bs" "(k, d) \<in> lv bs" "x \<in> fst ` set bs"
  shows "x \<le> k \<or> d \<le> x"
proof (cases "x \<in> fst ` set (tl bs)")
  case True
  then show ?thesis using lives_no_node [OF ascending_tl [OF assms(1)]] assms(2) by (simp add: lv_def)
next
  case False
  then obtain b cs where b: "bs = b # cs" "x = fst b" using assms(3) by (cases bs) auto
  have "k \<in> fst ` set cs" using assms(2) lives_mem by (auto simp: lv_def b)
  then show ?thesis using assms(1) by (auto simp: b ascending_Cons less_imp_le)
qed

text \<open>What the operations on a region do to its live blocks.\<close>

lemma lv_take:
  assumes "X \<noteq> []"
  shows "lv (X @ taken_from k n d @ (d, True) # Y)
    = insert (k, if n + 2 \<le> d - k then k + n else d) (lv (X @ (k, False) # (d, True) # Y))"
proof -
  obtain b X' where X: "X = b # X'" using assms by (cases X) auto
  show ?thesis
    using lives_append [of X' k True "(k + n, False) # (d, True) # Y" False]
      lives_append [of X' k True "(d, True) # Y" False] lives_append [of X' k False "(d, True) # Y" False]
    by (auto simp: X lv_def taken_from_def)
qed

lemma lv_free:
  assumes "\<forall>b \<in> set F. \<not> snd b" "\<forall>b \<in> set G. \<not> snd b" "(e, u) # Z = G @ (d, True) # Y"
  shows "lv (X @ (c, True) # F @ (k, True) # (e, u) # Z)
    = insert (k, e) (lv (X @ (c, True) # (first_of F k, False) # (d, True) # Y))"
proof -
  have Z: "lives ((e, u) # Z) = lives ((d, True) # Y)" unfolding assms(3) by (rule lives_free [OF assms(2)])
  have k: "lives (F @ (k, True) # (e, u) # Z) = insert (k, e) (lives ((d, True) # Y))"
    using lives_free [OF assms(1), of k True "(e, u) # Z"] Z by simp
  have c: "lives ((c, True) # F @ (k, True) # (e, u) # Z) = insert (c, first_of F k) (lives (F @ (k, True) # (e, u) # Z))"
    by (cases F) auto
  show ?thesis
  proof (cases X)
    case Nil
    then show ?thesis by (simp add: lv_def k)
  next
    case (Cons x X')
    then show ?thesis
      using lives_append [of X' c True "F @ (k, True) # (e, u) # Z" False] c k
        lives_append [of X' c True "(first_of F k, False) # (d, True) # Y" False]
      by (auto simp: lv_def)
  qed
qed

lemma lv_cut:
  assumes "X \<noteq> []" "\<forall>b \<in> set G. \<not> snd b" "(e, u) # Z = G @ (d, True) # Y"
  shows "\<exists>L. lv (X @ (k, True) # (e, u) # Z) = insert (k, e) L \<and> lv (X @ (k, True) # (n, False) # (d, True) # Y) = insert (k, n) L"
proof -
  obtain b X' where X: "X = b # X'" using assms by (cases X) auto
  have Z: "lives ((e, u) # Z) = lives ((d, True) # Y)" unfolding assms(3) by (rule lives_free [OF assms(2)])
  show ?thesis
    using lives_append [of X' k True "(e, u) # Z" False] lives_append [of X' k True "(n, False) # (d, True) # Y" False] Z
    by (intro exI [of _ "lives (X' @ [(k, False)]) \<union> lives ((d, True) # Y)"]) (auto simp: X lv_def)
qed

lemma lv_split:
  assumes "(k, d) \<in> lv bs"
  obtains X u Y where "bs = X @ (k, True) # (d, u) # Y" "X \<noteq> []"
proof -
  have "(k, d) \<in> lives bs \<Longrightarrow> \<exists>X u Y. bs = X @ (k, True) # (d, u) # Y" for bs
  proof (induction bs rule: lives.induct)
    case (1 k' t d' u bs)
    show ?case
    proof (cases "(k, d) \<in> lives ((d', u) # bs)")
      case True
      from 1(1) [OF this] obtain X u' Y where "(d', u) # bs = X @ (k, True) # (d, u') # Y" by blast
      then have "(k', t) # (d', u) # bs = ((k', t) # X) @ (k, True) # (d, u') # Y" by simp
      then show ?thesis by blast
    next
      case False
      then have "k = k'" "d = d'" "t" using 1(2) by (auto split: if_splits)
      then show ?thesis by (intro exI [of _ "[]"]) simp
    qed
  qed simp_all
  from this [of "tl bs"] obtain X u Y where *: "tl bs = X @ (k, True) # (d, u) # Y" using assms by (auto simp: lv_def)
  then obtain b where "bs = (b # X) @ (k, True) # (d, u) # Y" by (cases bs) auto
  then show thesis by (rule that) simp
qed

section \<open>The heap\<close>

definition heap :: "salloc_env \<Rightarrow> mem \<Rightarrow> (nat \<times> bool) list list \<Rightarrow> bool" where
  "heap E m hs \<longleftrightarrow>
     (\<forall>i < length hs. region (s_be E) m (hs ! i) \<and> ram_first E i = blk (first_of (hs ! i) 0))
     \<and> ram_first E (length hs) = NULL
     \<and> (\<forall>i < length hs. \<forall>j < length hs. i \<noteq> j \<longrightarrow> span (hs ! i) \<inter> span (hs ! j) = {})"

definition live :: "(nat \<times> bool) list list \<Rightarrow> (nat \<times> nat) set" where "live hs = (\<Union>bs \<in> set hs. lv bs)"

lemma region_ascending: "region be m bs \<Longrightarrow> ascending bs"
  by (simp add: region_def block_list_def)

lemma heap_ascending: "heap E m hs \<Longrightarrow> i < length hs \<Longrightarrow> ascending (hs ! i)"
  by (auto simp: heap_def dest: region_ascending)

lemma live_nth: "g \<in> live hs \<longleftrightarrow> (\<exists>i < length hs. g \<in> lv (hs ! i))"
  by (simp add: live_def) (metis in_set_conv_nth nth_mem)

text \<open>Another list of blocks in one region, with the same bounds, leaves the other regions alone.\<close>

lemma heap_update:
  assumes h: "heap E m hs" and i: "i < length hs"
    and r: "region (s_be E) m' bs'" "first_of bs' 0 = first_of (hs ! i) 0" "final_of 0 bs' = final_of 0 (hs ! i)"
    and o: "outside K m m'" "K \<subseteq> span (hs ! i)"
  shows "heap E m' (hs[i := bs'])"
proof -
  have s: "span bs' = span (hs ! i)" by (simp add: span_def r)
  have j: "region (s_be E) m' (hs ! j)" if "j < length hs" "j \<noteq> i" for j
  proof -
    have a: "region (s_be E) m (hs ! j)" "span (hs ! j) \<inter> span (hs ! i) = {}" "ascending (hs ! j)"
      using h i that heap_ascending [OF h] by (auto simp: heap_def)
    then have "fst ` set (hs ! j) \<inter> K = {}" using o(2) in_span [OF a(3)] by blast
    then have "chain (s_be E) m' 0 (hs ! j) 0 = chain (s_be E) m 0 (hs ! j) 0"
      using a(3) by (intro chain_outside [OF o(1)]) (auto simp: ascending_def)
    then show ?thesis using a(1) by (simp add: region_def)
  qed
  show ?thesis
    using h i r(1, 2) j by (auto simp: heap_def nth_list_update s)
qed

lemma live_update:
  assumes "i < length hs"
  shows "live (hs[i := bs']) = lv bs' \<union> (\<Union>j \<in> {j. j < length hs \<and> j \<noteq> i}. lv (hs ! j))"
    and "live hs = lv (hs ! i) \<union> (\<Union>j \<in> {j. j < length hs \<and> j \<noteq> i}. lv (hs ! j))"
proof -
  show "live (hs[i := bs']) = lv bs' \<union> (\<Union>j \<in> {j. j < length hs \<and> j \<noteq> i}. lv (hs ! j))"
    using assms by (auto simp: live_nth nth_list_update split: if_splits)
  show "live hs = lv (hs ! i) \<union> (\<Union>j \<in> {j. j < length hs \<and> j \<noteq> i}. lv (hs ! j))"
    using assms by (auto simp: live_nth)
qed

lemma live_props:
  assumes "heap E m hs" "(k, d) \<in> live hs"
  shows "k < d" "0 < k" "d < BLKS"
proof -
  obtain i where "i < length hs" "(k, d) \<in> lv (hs ! i)" using assms(2) by (auto simp: live_nth)
  then show "k < d" "0 < k" "d < BLKS" using lv_props [OF heap_ascending [OF assms(1)]] by auto
qed

text \<open>No header of any region lies in the payload of a live block.\<close>

lemma live_no_node:
  assumes h: "heap E m hs" and l: "(k, d) \<in> live hs" and x: "i < length hs" "x \<in> fst ` set (hs ! i)"
  shows "x \<notin> {k + 1..<d}"
proof -
  obtain j where j: "j < length hs" "(k, d) \<in> lv (hs ! j)" using l by (auto simp: live_nth)
  have a: "ascending (hs ! j)" "ascending (hs ! i)" using heap_ascending [OF h] j x by auto
  show ?thesis
  proof (cases "i = j")
    case True
    then show ?thesis using lv_no_node [OF a(1) j(2)] x(2) by fastforce
  next
    case False
    then have "span (hs ! i) \<inter> span (hs ! j) = {}" using h j x(1) by (auto simp: heap_def)
    moreover have "x \<in> span (hs ! i)" using a(2) x(2) by (rule in_span)
    moreover have "k \<in> span (hs ! j)" "d \<in> span (hs ! j)" using lv_props [OF a(1) j(2)] by auto
    ultimately have "x \<notin> {k..d}" by (auto simp: span_def)
    then show ?thesis by auto
  qed
qed

lemma live_unique:
  assumes h: "heap E m hs" and l: "(k, d) \<in> live hs" "(k, d') \<in> live hs"
  shows "d = d'"
proof -
  obtain i j where ij: "i < length hs" "(k, d) \<in> lv (hs ! i)" "j < length hs" "(k, d') \<in> lv (hs ! j)"
    using l by (auto simp: live_nth)
  have a: "ascending (hs ! i)" "ascending (hs ! j)" using heap_ascending [OF h] ij by auto
  have "i = j"
  proof (rule ccontr)
    assume "i \<noteq> j"
    then have "span (hs ! i) \<inter> span (hs ! j) = {}" using h ij by (auto simp: heap_def)
    then show False using lv_props(4) [OF a(1) ij(2)] lv_props(4) [OF a(2) ij(4)] by blast
  qed
  then show ?thesis using lives_unique [OF ascending_tl [OF a(1)]] ij by (simp add: lv_def)
qed

text \<open>The payloads of two live blocks are apart.\<close>

lemma live_apart:
  assumes h: "heap E m hs" and l: "(k, d) \<in> live hs" "(k', d') \<in> live hs" "k \<noteq> k'"
  shows "{k + 1..<d} \<inter> {k'..<d'} = {}"
proof -
  obtain i j where ij: "i < length hs" "(k, d) \<in> lv (hs ! i)" "j < length hs" "(k', d') \<in> lv (hs ! j)"
    using l by (auto simp: live_nth)
  have a: "ascending (hs ! i)" "ascending (hs ! j)" using heap_ascending [OF h] ij by auto
  have "k' \<notin> {k + 1..<d}" "k \<notin> {k' + 1..<d'}"
    using live_no_node [OF h l(1) ij(3)] live_no_node [OF h l(2) ij(1)]
      lv_props(6) [OF a(1) ij(2)] lv_props(6) [OF a(2) ij(4)] by blast+
  then show ?thesis using l(3) by auto
qed

lemma live_flag:
  assumes "heap E m hs" "i < length hs" "k \<in> span (hs ! i)" "(k, d) \<in> live hs"
  shows "(k, d) \<in> lv (hs ! i)" "(k, True) \<in> set (hs ! i)"
proof -
  obtain j where j: "j < length hs" "(k, d) \<in> lv (hs ! j)" using assms(4) by (auto simp: live_nth)
  have "i = j"
    using lv_props(4) [OF heap_ascending [OF assms(1) j(1)] j(2)] assms(1-3) j(1) by (auto simp: heap_def)
  with j show l: "(k, d) \<in> lv (hs ! i)" by simp
  from lv_split [OF l] obtain X u Y where "hs ! i = X @ (k, True) # (d, u) # Y" by blast
  then show "(k, True) \<in> set (hs ! i)" by simp
qed

section \<open>The memory of the clients\<close>

lemma blk_Suc: "blk (k + 1) = blk k + DYN_HEADER_SIZE"
  by (simp add: blk_def DYN_HEADER_SIZE_def)

lemma payload_kept:
  assumes "outside K m m'" "K \<inter> {k + 1..<d} = {}" "d < BLKS" "n \<le> 8 * (d - k) - 8"
  shows "mem_read m' (blk (k + 1)) n = mem_read m (blk (k + 1)) n"
proof (rule nth_equalityI)
  fix i
  assume "i < length (mem_read m' (blk (k + 1)) n)"
  then have i: "i < n" by simp
  have "8 * (k + 1) + i < 8 * d" using i assms(4) by simp
  then have lt: "(8 * (k + 1) + i) div 8 < d" by (intro less_mult_imp_div_less) simp
  have "k + 1 \<le> (8 * (k + 1) + i) div 8" by (simp add: div_le_mono)
  with lt have "(8 * (k + 1) + i) div 8 \<notin> K" using assms(2) by auto
  moreover have "8 * (k + 1) + i < 4294967296" using \<open>8 * (k + 1) + i < 8 * d\<close> assms(3) by simp
  ultimately have "m' (of_nat (8 * (k + 1) + i)) = m (of_nat (8 * (k + 1) + i))"
    using assms(1) unfolding outside_def by blast
  then show "mem_read m' (blk (k + 1)) n ! i = mem_read m (blk (k + 1)) n ! i"
    using i by (simp add: nth_mem_read blk_def)
qed simp

lemma payload_write_outside:
  assumes "length bs \<le> 8 * (d - k) - 8" "k < d" "d < BLKS"
  shows "outside {k + 1..<d} m (mem_write m (blk (k + 1)) bs)"
  unfolding outside_def
proof (intro allI impI)
  fix x :: nat
  assume x: "x < 4294967296" "x div 8 \<notin> {k + 1..<d}"
  have out: "x < 8 * (k + 1) \<or> 8 * (k + 1) + length bs \<le> x"
  proof (rule ccontr)
    assume "\<not> ?thesis"
    then have "8 * (k + 1) \<le> x" "x < 8 * d" using assms by auto
    then have "k + 1 \<le> x div 8" "x div 8 < d"
      by (simp_all add: less_eq_div_iff_mult_less_eq div_less_iff_less_mult mult.commute)
    with x(2) show False by simp
  qed
  have "off_from (of_nat (8 * (k + 1))) (of_nat x)
      = (if 8 * (k + 1) \<le> x then x - 8 * (k + 1) else 4294967296 + x - 8 * (k + 1))"
    using assms x(1) by (intro off_from_of_nat) simp_all
  then have "\<not> off_from (blk (k + 1)) (of_nat x) < length bs"
    using out assms by (auto simp: blk_def)
  moreover have "length bs \<le> 4294967296" using assms by simp
  ultimately show "mem_write m (blk (k + 1)) bs (of_nat x) = m (of_nat x)" by (simp add: mem_write_apply)
qed

text \<open>A client that stays inside its block does not touch the heap.\<close>

lemma heap_write:
  assumes h: "heap E m hs" and l: "(k, d) \<in> live hs" and n: "length bs \<le> 8 * (d - k) - 8"
  shows "heap E (mem_write m (blk (k + 1)) bs) hs"
proof -
  note p = live_props [OF h l]
  have "region (s_be E) (mem_write m (blk (k + 1)) bs) (hs ! i)" if "i < length hs" for i
  proof -
    have a: "region (s_be E) m (hs ! i)" using h that by (simp add: heap_def)
    have "fst ` set (hs ! i) \<inter> {k + 1..<d} = {}" using live_no_node [OF h l that] by blast
    then have "chain (s_be E) (mem_write m (blk (k + 1)) bs) 0 (hs ! i) 0 = chain (s_be E) m 0 (hs ! i) 0"
      using heap_ascending [OF h that] by (intro chain_outside [OF payload_write_outside [OF n p(1,3)]]) (auto simp: ascending_def)
    then show ?thesis using a by (simp add: region_def)
  qed
  with h show ?thesis by (simp add: heap_def)
qed

text \<open>The blocks of the clients, by their pointers and sizes.\<close>

definition owns :: "(nat \<times> bool) list list \<Rightarrow> (u32 \<rightharpoonup> nat) \<Rightarrow> bool" where
  "owns hs A \<longleftrightarrow> (\<forall>p z. A p = Some z \<longleftrightarrow> (\<exists>k d. (k, d) \<in> live hs \<and> p = blk (k + 1) \<and> z = 8 * (d - k) - 8))"

lemma owns_blk:
  assumes "heap E m hs" "owns hs A" "k + 1 < BLKS"
  shows "A (blk (k + 1)) = Some z \<longleftrightarrow> (\<exists>d. (k, d) \<in> live hs \<and> z = 8 * (d - k) - 8)"
proof -
  have "k' = k" if "(k', d) \<in> live hs" "blk (k + 1) = blk (k' + 1)" for k' d
    using live_props [OF assms(1) that(1)] that(2) assms(3) blk_inj [of "k + 1" "k' + 1"] by simp
  then show ?thesis using assms(2) unfolding owns_def by blast
qed

lemma owns_insert:
  assumes h: "heap E m hs" "heap E m' hs'" "owns hs A" and l: "live hs' = insert (k, d) (live hs)" "\<And>x. (k, x) \<notin> live hs"
  shows "owns hs' (A(blk (k + 1) \<mapsto> 8 * (d - k) - 8))" and "A (blk (k + 1)) = None"
proof -
  have p: "k < d" "d < BLKS" using live_props [OF h(2), of k d] l(1) by simp_all
  show "A (blk (k + 1)) = None"
    using owns_blk [OF h(1, 3), of k] l(2) p by (cases "A (blk (k + 1))") auto
  have ne: "blk (k' + 1) \<noteq> blk (k + 1)" if "(k', d') \<in> live hs" for k' d'
    using live_props [OF h(1) that] p blk_inj [of "k' + 1" "k + 1"] l(2) that by auto
  show "owns hs' (A(blk (k + 1) \<mapsto> 8 * (d - k) - 8))"
    using h(3) ne unfolding owns_def l(1) by (auto simp: fun_upd_apply; metis)
qed

lemma owns_remove:
  assumes h: "heap E m hs" "heap E m' hs'" "owns hs A" and l: "live hs = insert (k, d) (live hs')" "\<And>x. (k, x) \<notin> live hs'"
  shows "owns hs' (A(blk (k + 1) := None))"
proof -
  have p: "k < d" "d < BLKS" using live_props [OF h(1), of k d] l(1) by simp_all
  have ne: "blk (k' + 1) \<noteq> blk (k + 1)" if "(k', d') \<in> live hs'" for k' d'
    using live_props [OF h(2) that] p blk_inj [of "k' + 1" "k + 1"] l(2) that by auto
  show ?thesis
    using h(3) ne unfolding owns_def l(1) by (auto simp: fun_upd_apply; metis)
qed

section \<open>The heap after initialisation\<close>

text \<open>
  What the configuration has to satisfy: \<open>n\<close> regions, aligned, of at least 24 bytes, not at
  address 0, and apart from each other.
\<close>

definition ram_ok :: "salloc_env \<Rightarrow> nat \<Rightarrow> bool" where
  "ram_ok E n \<longleftrightarrow>
     (\<forall>i < n. 8 dvd unat (ram_first E i) \<and> 8 dvd unat (ram_last E i) \<and> ram_first E i \<noteq> NULL
        \<and> unat (ram_first E i) + 24 \<le> unat (ram_last E i))
     \<and> ram_first E n = NULL
     \<and> (\<forall>i < n. \<forall>j < n. i \<noteq> j \<longrightarrow>
          unat (ram_last E i) \<le> unat (ram_first E j) \<or> unat (ram_last E j) \<le> unat (ram_first E i))"

definition init_blocks :: "salloc_env \<Rightarrow> nat \<Rightarrow> (nat \<times> bool) list" where
  "init_blocks E i =
     (let f = unat (ram_first E i) div 8; l = unat (ram_last E i) div 8 in [(f, True), (f + 1, False), (l - 1, True)])"

lemma blk_of_aligned: "8 dvd unat p \<Longrightarrow> blk (unat p div 8) = p"
  by (simp add: blk_def flip: of_nat_mult)

lemma init_region:
  assumes r: "ram_ok E n" "i < n"
  shows "region (s_be E) (s_init_region E i m) (init_blocks E i)"
    and "outside (fst ` set (init_blocks E i)) m (s_init_region E i m)"
proof -
  define f l where "f = unat (ram_first E i) div 8" and "l = unat (ram_last E i) div 8"
  have al: "8 dvd unat (ram_first E i)" "8 dvd unat (ram_last E i)" "ram_first E i \<noteq> NULL"
    "unat (ram_first E i) + 24 \<le> unat (ram_last E i)"
    using r by (auto simp: ram_ok_def)
  then have fl: "blk f = ram_first E i" "blk l = ram_last E i" by (simp_all add: f_def l_def blk_of_aligned)
  have u: "unat (ram_first E i) = 8 * f" "unat (ram_last E i) = 8 * l" using al by (simp_all add: f_def l_def)
  have lim: "0 < f" "f + 3 \<le> l" "l < BLKS"
  proof -
    show "0 < f" using al(3) u(1) unat_eq_0 [of "ram_first E i"] by (cases f) simp_all
    show "f + 3 \<le> l" using al(4) u by simp
    show "l < BLKS" using unat_u32_less [of "ram_last E i"] unfolding u(2) by simp
  qed
  have g: "blk f + DYN_SIZE_MULT = blk (f + 1)" by (simp add: blk_def DYN_SIZE_MULT_def)
  have "blk l = blk (l - 1) + DYN_SIZE_MULT" using lim by (cases l) (simp_all add: blk_def DYN_SIZE_MULT_def)
  then have g2: "blk f + (blk l - blk f) - DYN_SIZE_MULT = blk (l - 1)" by simp
  define m1 where "m1 = s_create_new_block (s_be E) (blk f) (blk (f + 1)) (blk 0) m"
  define m2 where "m2 = s_create_new_block (s_be E) (blk (f + 1)) (blk (l - 1)) (blk f) m1"
  define m3 where "m3 = s_create_new_block (s_be E) (blk (l - 1)) (blk 0) (blk (f + 1)) m2"
  define m4 where "m4 = s_mark_block_taken (s_be E) (blk (l - 1)) (s_mark_block_taken (s_be E) (blk f) m3)"
  have run: "s_init_region E i m = s_mark_block_free (s_be E) (blk (f + 1)) m4"
    by (simp only: s_init_region_def Let_def fl [symmetric] g g2 m1_def m2_def m3_def m4_def blk_0)
  have ib: "init_blocks E i = [(f, True), (f + 1, False), (l - 1, True)]"
    by (simp add: init_blocks_def f_def l_def Let_def)
  note defs = run m1_def m2_def m3_def m4_def
  have "chain (s_be E) (s_init_region E i m) 0 [(f, True), (f + 1, False), (l - 1, True)] 0"
  proof -
    have "Suc f \<noteq> l - Suc 0" "f \<noteq> l - Suc 0" using lim by linarith+
    then show ?thesis using lim unfolding defs by (simp add: hdr_simps del: blk_0)
  qed
  then show "region (s_be E) (s_init_region E i m) (init_blocks E i)"
    unfolding ib using lim by (intro region_init) simp_all
  have b: "f < BLKS" "f + 1 < BLKS" "l - 1 < BLKS" using lim by linarith+
  note new = outside_header(5) and mark = outside_header(3)
  have "outside ({f} \<union> {f + 1} \<union> {l - 1}) m m3"
    unfolding m1_def m2_def m3_def by (rule outside_trans new b)+
  moreover have "outside ({f} \<union> {l - 1}) m3 m4" unfolding m4_def by (rule outside_trans mark b)+
  moreover have "outside {f + 1} m4 (s_init_region E i m)" unfolding run by (rule outside_header(4) b)+
  ultimately have "outside ({f} \<union> {f + 1} \<union> {l - 1} \<union> ({f} \<union> {l - 1}) \<union> {f + 1}) m (s_init_region E i m)"
    by (meson outside_trans)
  then show "outside (fst ` set (init_blocks E i)) m (s_init_region E i m)"
    unfolding ib by (rule outside_mono) auto
qed

lemma init_span:
  assumes "ram_ok E n" "i < n"
  shows "span (init_blocks E i) = {unat (ram_first E i) div 8..unat (ram_last E i) div 8 - 1}"
    and "ram_first E i = blk (first_of (init_blocks E i) 0)"
  using assms by (simp_all add: span_def init_blocks_def Let_def ram_ok_def blk_of_aligned)

lemma init_spans_apart:
  assumes "ram_ok E n" "i < n" "j < n" "i \<noteq> j"
  shows "span (init_blocks E i) \<inter> span (init_blocks E j) = {}"
proof -
  have "unat (ram_last E i) div 8 \<le> unat (ram_first E j) div 8 \<or> unat (ram_last E j) div 8 \<le> unat (ram_first E i) div 8"
    using assms unfolding ram_ok_def by (meson div_le_mono)
  moreover have "1 \<le> unat (ram_last E k) div 8" if "k < n" for k
  proof -
    have "8 \<le> unat (ram_last E k)" using assms(1) that by (auto simp: ram_ok_def)
    from div_le_mono [OF this, of 8] show ?thesis by simp
  qed
  then have "1 \<le> unat (ram_last E i) div 8" "1 \<le> unat (ram_last E j) div 8" using assms by blast+
  moreover have "{a..b - 1} \<inter> {c..d - 1} = {}" if "b \<le> c \<or> d \<le> a" "1 \<le> b" "1 \<le> d" for a b c d :: nat
    using that by auto
  ultimately show ?thesis using assms by (simp only: init_span(1))
qed

lemma init_loop:
  assumes r: "ram_ok E n" "i \<le> n" and before: "\<forall>j < i. region (s_be E) m (init_blocks E j)"
  shows "\<exists>m'. s_init_loop E i m = Some m' \<and> heap E m' (map (init_blocks E) [0..<n])"
  using r(2) before
proof (induction i arbitrary: m rule: inc_induct)
  case base
  have "s_init_loop E n m = Some m" using r by (subst s_init_loop.simps) (simp add: ram_ok_def)
  moreover have "heap E m (map (init_blocks E) [0..<n])"
    using base r(1) init_spans_apart [OF r(1)] init_span(2) [OF r(1)] by (simp add: heap_def ram_ok_def)
  ultimately show ?case by blast
next
  case (step i)
  let ?m = "s_init_region E i m"
  have "region (s_be E) ?m (init_blocks E j)" if "j < Suc i" for j
  proof (cases "j = i")
    case True
    then show ?thesis using init_region(1) [OF r(1)] step by simp
  next
    case False
    then have j: "j < i" "region (s_be E) m (init_blocks E j)" using that step by auto
    have asc: "ascending (init_blocks E j)" "ascending (init_blocks E i)"
      using region_ascending j(2) region_ascending [OF init_region(1) [OF r(1)]] step by auto
    have "span (init_blocks E j) \<inter> span (init_blocks E i) = {}" using init_spans_apart [OF r(1)] j step by simp
    then have "fst ` set (init_blocks E j) \<inter> fst ` set (init_blocks E i) = {}" using asc in_span by blast
    then have "chain (s_be E) ?m 0 (init_blocks E j) 0 = chain (s_be E) m 0 (init_blocks E j) 0"
      using asc step by (intro chain_outside [OF init_region(2) [OF r(1)]]) (auto simp: ascending_def)
    then show ?thesis using j by (simp add: region_def)
  qed
  then obtain m' where "s_init_loop E (Suc i) ?m = Some m'" "heap E m' (map (init_blocks E) [0..<n])"
    using step.IH [of ?m] by blast
  moreover have "ram_first E i \<noteq> NULL" using r step by (auto simp: ram_ok_def)
  ultimately show ?case by (subst s_init_loop.simps) simp
qed

lemma init_live: "live (map (init_blocks E) [0..<n]) = {}"
  by (auto simp: live_def lv_def init_blocks_def Let_def)

section \<open>The operations on the heap\<close>

definition nothing_fits :: "nat \<Rightarrow> (nat \<times> bool) list \<Rightarrow> bool" where
  "nothing_fits n bs \<longleftrightarrow> (\<forall>g \<in> set (gaps bs). \<not> fits n g)"

text \<open>
  \<open>chosen hs n i j X k d Y\<close>: from region \<open>i\<close> on, \<open>j\<close> is the first with a free block of \<open>n\<close> units,
  and the block from \<open>k\<close> to \<open>d\<close> is the smallest such block in it.
\<close>

definition chosen :: "(nat \<times> bool) list list \<Rightarrow> nat \<Rightarrow> nat \<Rightarrow> nat \<Rightarrow> (nat \<times> bool) list \<Rightarrow> nat \<Rightarrow> nat \<Rightarrow> (nat \<times> bool) list \<Rightarrow> bool" where
  "chosen hs n i j X k d Y \<longleftrightarrow>
     i \<le> j \<and> j < length hs \<and> (\<forall>j' \<in> {i..<j}. nothing_fits n (hs ! j'))
     \<and> hs ! j = X @ (k, False) # (d, True) # Y \<and> X \<noteq> [] \<and> fits n (k, d, False)
     \<and> (\<forall>(k', d', t) \<in> set (gaps (hs ! j)). fits n (k', d', t) \<longrightarrow> d - k \<le> d' - k')"

lemma malloc_loop:
  assumes h: "heap E m hs" and sz: "0 < sz" "unat (s_act_size (sz + DYN_HEADER_SIZE)) = 8 * n" "0 < n" and i: "i \<le> length hs"
  shows "(\<forall>j \<in> {i..<length hs}. nothing_fits n (hs ! j)) \<and> smalloc_loop E sz i m = Some (NULL, m)
    \<or> (\<exists>j X k d Y m'. chosen hs n i j X k d Y \<and> smalloc_loop E sz i m = Some (blk (k + 1), m')
        \<and> region (s_be E) m' (X @ taken_from k n d @ (d, True) # Y)
        \<and> outside (insert d (fst ` set (taken_from k n d))) m m')"
  using i
proof (induction i rule: inc_induct)
  case base
  then show ?case using h by (intro disjI1) (subst smalloc_loop.simps, simp add: heap_def)
next
  case (step i)
  have r: "region (s_be E) m (hs ! i)" "ram_first E i = blk (first_of (hs ! i) 0)" using h step by (auto simp: heap_def)
  have nn: "blk (first_of (hs ! i) 0) \<noteq> NULL"
    using r(1) by (cases "hs ! i") (auto simp: region_def block_list_def ascending_def blk_eq_0)
  from region_take [OF r(1) sz] show ?case
  proof (elim disjE exE conjE)
    assume no: "\<forall>g \<in> set (gaps (hs ! i)). \<not> fits n g"
      "s_get_free_block (s_be E) sz (blk (first_of (hs ! i) 0)) m = Some (NULL, m)"
    then have run: "smalloc_loop E sz i m = smalloc_loop E sz (Suc i) m"
      using nn by (subst smalloc_loop.simps) (simp add: r(2))
    have no_i: "nothing_fits n (hs ! i)" using no(1) by (simp add: nothing_fits_def)
    have here: "chosen hs n i j X k d Y" if "chosen hs n (Suc i) j X k d Y" for j X k d Y
      using that no_i by (auto simp: chosen_def Suc_le_eq le_less)
    have "\<forall>j \<in> {i..<length hs}. nothing_fits n (hs ! j)"
      if "\<forall>j \<in> {Suc i..<length hs}. nothing_fits n (hs ! j)"
      using that no_i by (metis Suc_leI atLeastLessThan_iff le_neq_implies_less)
    then show ?case using step.IH here unfolding run by blast
  next
    fix X k d Y m'
    assume s: "hs ! i = X @ (k, False) # (d, True) # Y" "X \<noteq> []" "fits n (k, d, False)"
      "\<forall>(k', d', t) \<in> set (gaps (hs ! i)). fits n (k', d', t) \<longrightarrow> d - k \<le> d' - k'"
      "s_get_free_block (s_be E) sz (blk (first_of (hs ! i) 0)) m = Some (blk k + DYN_HEADER_SIZE, m')"
      "region (s_be E) m' (X @ taken_from k n d @ (d, True) # Y)"
      "outside (insert d (fst ` set (taken_from k n d))) m m'"
    have "k < d" "d < BLKS"
      using region_ascending [OF r(1)] unfolding s(1) by (simp_all add: ascending_append ascending_Cons)
    then have "blk (k + 1) \<noteq> NULL" using blk_eq_0 [of "k + 1"] by simp
    then have "smalloc_loop E sz i m = Some (blk (k + 1), m')"
      using nn s(5) unfolding blk_Suc by (subst smalloc_loop.simps) (simp add: r(2))
    moreover have "chosen hs n i i X k d Y" using s step by (simp add: chosen_def)
    ultimately show ?case using s(6, 7) by blast
  qed
qed

text \<open>The contents of the client's blocks.\<close>

definition kept :: "(u32 \<rightharpoonup> nat) \<Rightarrow> mem \<Rightarrow> mem \<Rightarrow> bool" where
  "kept A m m' \<longleftrightarrow> (\<forall>q z. A q = Some z \<longrightarrow> mem_read m' q z = mem_read m q z)"

lemma kept_outside:
  assumes h: "heap E m hs" "owns hs A" and o: "outside K m m'"
    and K: "\<And>k d. (k, d) \<in> live hs \<Longrightarrow> blk (k + 1) \<in> dom B \<Longrightarrow> K \<inter> {k + 1..<d} = {}" and B: "B \<subseteq>\<^sub>m A"
  shows "kept B m m'"
  unfolding kept_def
proof (intro allI impI)
  fix q z
  assume q: "B q = Some z"
  then have "A q = Some z" using B by (metis domI map_le_def)
  then obtain k d where kd: "(k, d) \<in> live hs" "q = blk (k + 1)" "z = 8 * (d - k) - 8"
    using h(2) by (auto simp: owns_def)
  show "mem_read m' q z = mem_read m q z"
    unfolding kd using K [OF kd(1)] kd q live_props [OF h(1) kd(1)] by (intro payload_kept [OF o]) auto
qed

lemma heap_take_blocks:
  assumes h: "heap E m hs" and c: "chosen hs n i j X k d Y"
    and r: "region (s_be E) m' (X @ taken_from k n d @ (d, True) # Y)"
    and o: "outside (insert d (fst ` set (taken_from k n d))) m m'"
  defines "hs' \<equiv> hs[j := X @ taken_from k n d @ (d, True) # Y]"
  shows "heap E m' hs'" and "live hs' = insert (k, if n + 2 \<le> d - k then k + n else d) (live hs)"
proof -
  have j: "j < length hs" "hs ! j = X @ (k, False) # (d, True) # Y" "X \<noteq> []" using c by (simp_all add: chosen_def)
  have asc: "ascending (X @ taken_from k n d @ (d, True) # Y)" using region_ascending [OF r] .
  let ?K = "insert d (fst ` set (taken_from k n d))"
  have nodes: "?K \<subseteq> fst ` set (X @ taken_from k n d @ (d, True) # Y)" by auto
  have same: "first_of (X @ taken_from k n d @ (d, True) # Y) 0 = first_of (hs ! j) 0"
    "final_of 0 (X @ taken_from k n d @ (d, True) # Y) = final_of 0 (hs ! j)"
    using j(3) by (cases X; simp add: j(2) taken_from_def)+
  have span: "?K \<subseteq> span (hs ! j)" using nodes in_span [OF asc] unfolding span_def same by blast
  show "heap E m' hs'" unfolding hs'_def by (rule heap_update [OF h j(1) r same o span])
  have "lv (X @ taken_from k n d @ (d, True) # Y) = insert (k, if n + 2 \<le> d - k then k + n else d) (lv (hs ! j))"
    unfolding j(2) by (rule lv_take [OF j(3)])
  then show "live hs' = insert (k, if n + 2 \<le> d - k then k + n else d) (live hs)"
    unfolding hs'_def live_update [OF j(1)] by simp
qed

lemma heap_take:
  assumes h: "heap E m hs" "owns hs A" and c: "chosen hs n i j X k d Y"
    and r: "region (s_be E) m' (X @ taken_from k n d @ (d, True) # Y)"
    and o: "outside (insert d (fst ` set (taken_from k n d))) m m'"
  defines "hs' \<equiv> hs[j := X @ taken_from k n d @ (d, True) # Y]" and "e \<equiv> if n + 2 \<le> d - k then k + n else d"
  shows "heap E m' hs'" and "owns hs' (A(blk (k + 1) \<mapsto> 8 * (e - k) - 8))" and "A (blk (k + 1)) = None" and "kept A m m'"
proof -
  have j: "j < length hs" "hs ! j = X @ (k, False) # (d, True) # Y" using c by (simp_all add: chosen_def)
  have asc: "ascending (hs ! j)" using heap_ascending [OF h(1) j(1)] .
  let ?K = "insert d (fst ` set (taken_from k n d))"
  have nodes: "?K \<subseteq> fst ` set (X @ taken_from k n d @ (d, True) # Y)" by auto
  show h': "heap E m' hs'" unfolding hs'_def by (rule heap_take_blocks(1) [OF h(1) c r o])
  have l: "live hs' = insert (k, e) (live hs)" unfolding hs'_def e_def by (rule heap_take_blocks(2) [OF h(1) c r o])
  have fresh: "(k, x) \<notin> live hs" for x
  proof
    assume "(k, x) \<in> live hs"
    moreover have "k \<in> span (hs ! j)" using in_span [OF asc, of k] by (simp add: j(2))
    ultimately have "(k, True) \<in> set (hs ! j)" using live_flag [OF h(1) j(1)] by blast
    then show False using ascending_distinct [OF asc] by (auto simp: j(2) rev_image_eqI)
  qed
  show "owns hs' (A(blk (k + 1) \<mapsto> 8 * (e - k) - 8))" "A (blk (k + 1)) = None"
    using owns_insert [OF h(1) h' h(2) l fresh] by auto
  have "?K \<inter> {a + 1..<b} = {}" if "(a, b) \<in> live hs" for a b
  proof -
    have "(a, b) \<in> live hs'" using that by (simp add: l)
    have nj: "hs' ! j = X @ taken_from k n d @ (d, True) # Y" "j < length hs'" using j(1) by (simp_all add: hs'_def)
    have "x \<notin> {a + 1..<b}" if "x \<in> ?K" for x
      using live_no_node [OF h' \<open>(a, b) \<in> live hs'\<close> nj(2)] that nodes unfolding nj(1) by blast
    then show ?thesis by blast
  qed
  then show "kept A m m'" by (intro kept_outside [OF h o]) auto
qed

lemma owns_cases:
  assumes "heap E m hs" "owns hs A" "A p = Some z"
  obtains i X k d u Y where "i < length hs" "hs ! i = X @ (k, True) # (d, u) # Y" "X \<noteq> []"
    and "(k, d) \<in> live hs" "p = blk (k + 1)" "z = 8 * (d - k) - 8" "k < d" "d < BLKS"
proof -
  obtain k d where kd: "(k, d) \<in> live hs" "p = blk (k + 1)" "z = 8 * (d - k) - 8" using assms by (auto simp: owns_def)
  then obtain i where i: "i < length hs" "(k, d) \<in> lv (hs ! i)" by (auto simp: live_nth)
  obtain X u Y where "hs ! i = X @ (k, True) # (d, u) # Y" "X \<noteq> []" by (rule lv_split [OF i(2)])
  with kd i live_props [OF assms(1) kd(1)] show thesis by (intro that)
qed

lemma not_dom_remove: "p \<notin> dom (A(p := None))" by simp

lemma live_split:
  assumes "heap E m hs" "(k, d) \<in> live hs"
  obtains i X u Y where "i < length hs" "hs ! i = X @ (k, True) # (d, u) # Y" "X \<noteq> []"
proof -
  obtain i where i: "i < length hs" "(k, d) \<in> lv (hs ! i)" using assms(2) by (auto simp: live_nth)
  obtain X u Y where "hs ! i = X @ (k, True) # (d, u) # Y" "X \<noteq> []" by (rule lv_split [OF i(2)])
  with i show thesis by (intro that)
qed

lemma heap_free_blocks:
  assumes h: "heap E m hs" and l: "(k, e) \<in> live hs"
  shows "\<exists>m' hs' i K. s_free_block (s_be E) (blk (k + 1)) m = Some m' \<and> heap E m' hs' \<and> length hs' = length hs
    \<and> live hs = insert (k, e) (live hs') \<and> (\<forall>x. (k, x) \<notin> live hs')
    \<and> i < length hs \<and> K \<subseteq> fst ` set (hs ! i) \<and> outside K m m'"
proof -
  obtain i X u Z where i: "i < length hs" "hs ! i = X @ (k, True) # (e, u) # Z" "X \<noteq> []"
    using h l by (rule live_split)
  have "region (s_be E) m (X @ (k, True) # (e, u) # Z)" using h i(1, 2) by (auto simp: heap_def)
  from region_free [OF this i(3)] obtain m' X' c F G d Y where f: "s_free_block (s_be E) (blk (k + 1)) m = Some m'"
    "X = X' @ (c, True) # F" "(e, u) # Z = G @ (d, True) # Y" "\<forall>b \<in> set F. \<not> snd b" "\<forall>b \<in> set G. \<not> snd b"
    "region (s_be E) m' (X' @ (c, True) # (first_of F k, False) # (d, True) # Y)" "outside {k, first_of F k, d} m m'"
    unfolding blk_Suc by blast
  let ?bs = "X' @ (c, True) # (first_of F k, False) # (d, True) # Y"
  have old: "hs ! i = X' @ (c, True) # F @ (k, True) # (e, u) # Z" by (simp add: i f)
  have asc: "ascending (hs ! i)" using heap_ascending [OF h i(1)] .
  have d: "d \<in> fst ` set (hs ! i)" unfolding old f(3) by simp
  have f': "first_of F k \<in> fst ` set (hs ! i)" unfolding old by (cases F) simp_all
  have k: "k \<in> fst ` set (hs ! i)" unfolding old by simp
  have same: "first_of ?bs 0 = first_of (hs ! i) 0" "final_of 0 ?bs = final_of 0 (hs ! i)"
    unfolding old f(3) by (cases X'; simp)+
  have K: "{k, first_of F k, d} \<subseteq> fst ` set (hs ! i)" using k f' d by simp
  then have span: "{k, first_of F k, d} \<subseteq> span (hs ! i)" using in_span [OF asc] by blast
  let ?hs = "hs[i := ?bs]"
  have h': "heap E m' ?hs" by (rule heap_update [OF h i(1) f(6) same f(7) span])
  have "lv (hs ! i) = insert (k, e) (lv ?bs)" unfolding old by (rule lv_free [OF f(4,5,3)])
  then have l: "live hs = insert (k, e) (live ?hs)" unfolding live_update [OF i(1)] by simp
  have gone: "(k, x) \<notin> live ?hs" for x
  proof
    assume "(k, x) \<in> live ?hs"
    moreover have "k \<in> span (?hs ! i)" using span i(1) same by (simp add: span_def)
    ultimately have "(k, True) \<in> set ?bs" using live_flag [OF h', of i k x] i(1) by simp
    moreover have "distinct (map fst (hs ! i))" by (rule ascending_distinct [OF asc])
    ultimately show False unfolding old f(3) by (auto simp: rev_image_eqI)
  qed
  show ?thesis
    by (intro exI [of _ m'] exI [of _ ?hs] exI [of _ i] exI [of _ "{k, first_of F k, d}"] conjI allI f(1) h' l gone i(1) K f(7))
      simp
qed

lemma heap_free:
  assumes h: "heap E m hs" "owns hs A" and p: "A p = Some z"
  shows "\<exists>m' hs'. s_free_block (s_be E) p m = Some m' \<and> heap E m' hs' \<and> length hs' = length hs
    \<and> owns hs' (A(p := None)) \<and> kept (A(p := None)) m m'"
proof -
  obtain k e where l: "(k, e) \<in> live hs" "p = blk (k + 1)"
    by (rule owns_cases [OF h p])
  from heap_free_blocks [OF h(1) l(1)] obtain m' hs' i K where f: "s_free_block (s_be E) p m = Some m'" "heap E m' hs'"
    "length hs' = length hs" "live hs = insert (k, e) (live hs')" "\<And>x. (k, x) \<notin> live hs'"
    "i < length hs" "K \<subseteq> fst ` set (hs ! i)" "outside K m m'" unfolding l(2) by blast
  have "owns hs' (A(p := None))" unfolding l(2) by (rule owns_remove [OF h(1) f(2) h(2) f(4,5)])
  moreover have "kept (A(p := None)) m m'"
  proof (rule kept_outside [OF h f(8)])
    fix a b
    assume "(a, b) \<in> live hs"
    then show "K \<inter> {a + 1..<b} = {}" using live_no_node [OF h(1) _ f(6), of a b] f(7) by blast
  qed (auto simp: map_le_def)
  ultimately show ?thesis using f(1-3) by blast
qed

text \<open>A region without live blocks has at most one free block.\<close>

lemma one_free:
  assumes "block_list bs" "lv bs = {}"
  shows "length (filter (\<lambda>b. \<not> snd b) bs) \<le> 1"
proof -
  obtain b rest where bs: "bs = b # rest" "snd b" using assms(1) by (cases bs) (auto simp: block_list_def)
  show ?thesis
  proof (cases rest)
    case Nil
    then show ?thesis by (simp add: bs)
  next
    case (Cons x ys)
    show ?thesis
    proof (cases ys)
      case Nil
      then show ?thesis by (simp add: bs Cons)
    next
      case (Cons y zs)
      have *: "\<not> snd x" "snd y" using assms bs \<open>rest = x # ys\<close> Cons
        by (cases b; cases x; cases y; auto simp: lv_def block_list_def split: if_splits)+
      then have "zs = []" using assms(2) bs \<open>rest = x # ys\<close> Cons
        by (cases x; cases y; cases zs) (auto simp: lv_def split: if_splits)
      then show ?thesis using * by (simp add: bs \<open>rest = x # ys\<close> Cons)
    qed
  qed
qed

lemma heap_shrink:
  assumes h: "heap E m hs" "owns hs A" and p: "A p = Some z" and sz: "0 < sz" "unat sz < z"
  shows "\<exists>m' hs' z'. s_shrink_block (s_be E) p sz m = Some m' \<and> heap E m' hs' \<and> length hs' = length hs
    \<and> unat sz \<le> z' \<and> z' \<le> z \<and> owns hs' (A(p \<mapsto> z')) \<and> kept (A(p \<mapsto> z')) m m'"
proof -
  obtain i X k e u Z where i: "i < length hs" "hs ! i = X @ (k, True) # (e, u) # Z" "X \<noteq> []" "(k, e) \<in> live hs"
    "p = blk (k + 1)" "z = 8 * (e - k) - 8" "k < e" "e < BLKS"
    using h p by (rule owns_cases)
  have r: "region (s_be E) m (X @ (k, True) # (e, u) # Z)" using h(1) i(1, 2) by (auto simp: heap_def)
  have "unat sz + 8 < 8 * (e - k)" using sz(2) by (simp add: i(6))
  from region_shrink [OF r sz(1) this] show ?thesis
  proof (elim disjE exE conjE)
    assume "s_shrink_block (s_be E) (blk k + DYN_HEADER_SIZE) sz m = Some m"
    then have "s_shrink_block (s_be E) p sz m = Some m" unfolding i(5) blk_Suc .
    moreover have "A(p \<mapsto> z) = A" using p by auto
    ultimately show ?thesis using h sz(2)
      by (intro exI [of _ m] exI [of _ hs] exI [of _ z]) (simp add: kept_def)
  next
    fix m' G d Y
    assume c: "units sz + 2 \<le> e - k" "s_shrink_block (s_be E) (blk k + DYN_HEADER_SIZE) sz m = Some m'"
      "(e, u) # Z = G @ (d, True) # Y" "\<forall>b \<in> set G. \<not> snd b"
      "region (s_be E) m' (X @ (k, True) # (k + units sz, False) # (d, True) # Y)"
      "outside ({k + units sz, k, d} \<union> fst ` set G) m m'"
    let ?n = "k + units sz" and ?bs = "X @ (k, True) # (k + units sz, False) # (d, True) # Y"
    let ?K = "{k + units sz, k, d} \<union> fst ` set G"
    have asc: "ascending (hs ! i)" "ascending ?bs" using heap_ascending [OF h(1) i(1)] region_ascending [OF c(5)] .
    have old: "hs ! i = X @ (k, True) # G @ (d, True) # Y" using i(2) c(3) by simp
    have same: "first_of ?bs 0 = first_of (hs ! i) 0" "final_of 0 ?bs = final_of 0 (hs ! i)"
      unfolding old by (cases X; simp)+
    have K: "?K \<subseteq> fst ` set (hs ! i) \<union> fst ` set ?bs" unfolding old by auto
    have "span ?bs = span (hs ! i)" unfolding span_def same ..
    moreover have "fst ` set ?bs \<subseteq> span ?bs" by (rule subsetI) (rule in_span [OF asc(2)])
    moreover have "fst ` set (hs ! i) \<subseteq> span (hs ! i)" by (rule subsetI) (rule in_span [OF asc(1)])
    ultimately have span: "?K \<subseteq> span (hs ! i)" by (intro subset_trans [OF K] Un_least) simp_all
    let ?hs = "hs[i := ?bs]"
    have h': "heap E m' ?hs" by (rule heap_update [OF h(1) i(1) c(5) same c(6) span])
    from lv_cut [OF i(3) c(4,3), of k ?n] obtain L where L: "lv (hs ! i) = insert (k, e) L" "lv ?bs = insert (k, ?n) L"
      unfolding i(2) by (elim exE conjE)
    define R where "R = L \<union> (\<Union>j \<in> {j. j < length hs \<and> j \<noteq> i}. lv (hs ! j))"
    have l: "live hs = insert (k, e) R" "live ?hs = insert (k, ?n) R"
      unfolding R_def live_update [OF i(1)] L by simp_all
    have kR: "(k, x) \<notin> R" for x
    proof
      assume "(k, x) \<in> R"
      then have "x = e" "x = ?n" using live_unique [OF h(1), of k x e] live_unique [OF h', of k x ?n] l by simp_all
      then show False using c(1) by simp
    qed
    have kp: "(k', d') \<in> R \<Longrightarrow> blk (k' + 1) \<noteq> p" for k' d'
      using live_props [OF h(1), of k' d'] l(1) i(5, 7, 8) blk_inj [of "k' + 1" "k + 1"] kR by auto
    have o: "owns ?hs (A(p \<mapsto> 8 * (?n - k) - 8))"
    proof -
      have A: "A q = Some y \<longleftrightarrow> (q = p \<and> y = z) \<or> (\<exists>k d. (k, d) \<in> R \<and> q = blk (k + 1) \<and> y = 8 * (d - k) - 8)" for q y
        using h(2) unfolding owns_def l(1) i(5, 6) by blast
      have "(A(p \<mapsto> w)) q = Some y \<longleftrightarrow> (q = p \<and> y = w) \<or> (\<exists>k d. (k, d) \<in> R \<and> q = blk (k + 1) \<and> y = 8 * (d - k) - 8)" for q y w
        using A [of q y] kp by (cases "q = p") auto
      then show ?thesis unfolding owns_def l(2) i(5) by blast
    qed
    have "kept (A(p := None)) m m'"
    proof (rule kept_outside [OF h c(6)])
      fix a b
      assume ab: "(a, b) \<in> live hs" "blk (a + 1) \<in> dom (A(p := None))"
      then have "blk (a + 1) \<noteq> p" using not_dom_remove by metis
      then have ab': "(a, b) \<in> live ?hs" using ab(1) i(5) unfolding l by auto
      have "x \<notin> {a + 1..<b}" if "x \<in> ?K" for x
      proof (cases "x \<in> fst ` set (hs ! i)")
        case True
        then show ?thesis by (rule live_no_node [OF h(1) ab(1) i(1)])
      next
        case False
        then have "x \<in> fst ` set (?hs ! i)" using subsetD [OF K that] i(1) by (simp only: Un_iff nth_list_update_eq simp_thms)
        then show ?thesis using live_no_node [OF h' ab', of i x] i(1) by simp
      qed
      then show "?K \<inter> {a + 1..<b} = {}" by blast
    qed (auto simp: map_le_def)
    moreover have "mem_read m' p (8 * (?n - k) - 8) = mem_read m p (8 * (?n - k) - 8)"
      unfolding i(5)
    proof (rule payload_kept [OF c(6)])
      have "\<forall>b \<in> set ((e, u) # Z). e \<le> fst b"
        using asc(1) unfolding i(2) by (simp add: ascending_append ascending_Cons less_imp_le)
      then have "e \<le> x" if "x \<in> fst ` set G \<or> x = d" for x using that unfolding c(3) by auto
      then have ge: "x = ?n \<or> x = k \<or> e \<le> x" if "x \<in> ?K" for x
        using that by (simp only: Un_iff insert_iff empty_iff) blast
      have lt: "?n < e" using c(1) by simp
      have "x \<notin> {k + 1..<?n}" if x: "x \<in> ?K" for x using ge [OF x] lt by auto
      then show "?K \<inter> {k + 1..<?n} = {}" by blast
    qed (use c(1) i(8) in auto)
    ultimately have "kept (A(p \<mapsto> 8 * (?n - k) - 8)) m m'" by (simp add: kept_def)
    moreover have "unat sz \<le> 8 * (?n - k) - 8" "8 * (?n - k) - 8 \<le> z" using units_ge(2) [of sz] c(1) i(6) by simp_all
    ultimately show ?thesis using c(2) h' o unfolding i(5) blk_Suc
      by (intro exI [of _ m'] exI [of _ ?hs] exI [of _ "8 * (?n - k) - 8"]) simp
  qed
qed

end
