(* ===== verification/SallocClient.thy ===== *)
theory SallocClient
  imports SallocHeap
begin

text \<open>
  The contract of the simple allocator and its clients: the invariant of the allocator with the
  blocks handed out, the effect of each entry point of \<open>src/salloc.c\<close> on it, and the locale
  \<open>allocator\<close> with a client program over handles, interpreted on the model.
\<close>

section \<open>The entry points\<close>

text \<open>\<open>A\<close> gives the size of the block at each pointer handed out.\<close>

definition salloc_inv :: "salloc_env \<Rightarrow> nat \<Rightarrow> (u32 \<rightharpoonup> nat) \<Rightarrow> salloc \<Rightarrow> bool" where
  "salloc_inv E n A s \<longleftrightarrow> ram_ok E n \<and>
     (if s_initialized s then \<exists>hs. length hs = n \<and> heap E (s_mem s) hs \<and> owns hs A else A = Map.empty)"

abbreviation rd :: "salloc \<Rightarrow> u32 \<Rightarrow> nat \<Rightarrow> u8 list" where "rd s p z \<equiv> mem_read (s_mem s) p z"

abbreviation keeps :: "(u32 \<rightharpoonup> nat) \<Rightarrow> salloc \<Rightarrow> salloc \<Rightarrow> bool" where "keeps A s s' \<equiv> kept A (s_mem s) (s_mem s')"

lemma kept_trans: "kept A m m' \<Longrightarrow> kept A m' m'' \<Longrightarrow> kept A m m''"
  by (simp add: kept_def)

lemma kept_mono: "kept A m m' \<Longrightarrow> B \<subseteq>\<^sub>m A \<Longrightarrow> kept B m m'"
  by (metis kept_def domI map_le_def)

lemma salloc_inv_cases:
  assumes "salloc_inv E n A s" "A p = Some z"
  obtains hs where "s_initialized s" "ram_ok E n" "length hs = n" "heap E (s_mem s) hs" "owns hs A" "p \<noteq> NULL"
proof -
  have i: "s_initialized s" using assms by (auto simp: salloc_inv_def split: if_splits)
  then obtain hs where hs: "length hs = n" "heap E (s_mem s) hs" "owns hs A" using assms(1) by (auto simp: salloc_inv_def)
  obtain k d where "p = blk (k + 1)" "k < d" "d < BLKS" by (rule owns_cases [OF hs(2,3) assms(2)])
  then have "p \<noteq> NULL" using blk_eq_0 [of "k + 1"] by simp
  with i hs assms(1) show thesis by (intro that) (simp_all add: salloc_inv_def)
qed

lemma ready:
  assumes "salloc_inv E n A s"
  shows "\<exists>s' hs. s_ready E s = Some s' \<and> s_initialized s' \<and> length hs = n \<and> heap E (s_mem s') hs \<and> owns hs A
    \<and> keeps A s s' \<and> salloc_inv E n A s'"
proof (cases "s_initialized s")
  case True
  then show ?thesis using assms by (auto simp: salloc_inv_def s_ready_def kept_def)
next
  case False
  have r: "ram_ok E n" and A: "A = Map.empty" using assms False by (simp_all add: salloc_inv_def)
  from init_loop [OF r, of 0 "s_mem s"] obtain m' where m': "s_init_loop E 0 (s_mem s) = Some m'"
    "heap E m' (map (init_blocks E) [0..<n])" by auto
  have o: "owns (map (init_blocks E) [0..<n]) A" by (simp add: owns_def A init_live)
  show ?thesis
    using False m' o r
    by (intro exI [of _ "\<lparr> s_initialized = True, s_mem = m' \<rparr>"] exI [of _ "map (init_blocks E) [0..<n]"])
      (auto simp: s_ready_def s_init_def A kept_def salloc_inv_def intro!: exI [of _ "map (init_blocks E) [0..<n]"])
qed

lemma malloc_contract:
  assumes "salloc_inv E n A s" "0 < sz" "unat sz \<le> 4294967280"
  shows "\<exists>p s'. smalloc E sz s = Some (p, s') \<and> keeps A s s' \<and>
    (if p = NULL then salloc_inv E n A s' else A p = None \<and> (\<exists>z \<ge> unat sz. salloc_inv E n (A(p \<mapsto> z)) s'))"
proof -
  from ready [OF assms(1)] obtain s1 hs where s1: "s_ready E s = Some s1" "s_initialized s1" "length hs = n"
    "heap E (s_mem s1) hs" "owns hs A" "keeps A s s1" "salloc_inv E n A s1" by blast
  have r: "ram_ok E n" using assms(1) by (simp add: salloc_inv_def)
  have n: "0 < units sz" using units_ge(1) [OF assms(2)] by simp
  from malloc_loop [OF s1(4) assms(2) act_size_request [OF assms(3)] n le0] show ?thesis
  proof (elim disjE exE conjE)
    assume "smalloc_loop E sz 0 (s_mem s1) = Some (NULL, s_mem s1)"
    then show ?thesis using s1 by (auto simp: smalloc_def)
  next
    fix j X k d Y m'
    assume c: "chosen hs (units sz) 0 j X k d Y" "smalloc_loop E sz 0 (s_mem s1) = Some (blk (k + 1), m')"
      "region (s_be E) m' (X @ taken_from k (units sz) d @ (d, True) # Y)"
      "outside (insert d (fst ` set (taken_from k (units sz) d))) (s_mem s1) m'"
    define e where "e = (if units sz + 2 \<le> d - k then k + units sz else d)"
    define hs' where "hs' = hs[j := X @ taken_from k (units sz) d @ (d, True) # Y]"
    note t = heap_take [OF s1(4,5) c(1,3,4), folded hs'_def e_def]
    have e: "units sz \<le> e - k" using c(1) by (auto simp: e_def chosen_def fits_def)
    have z: "unat sz \<le> 8 * (e - k) - 8" using units_ge(2) [of sz] mult_le_mono2 [OF e, of 8] by linarith
    let ?s = "s1\<lparr> s_mem := m' \<rparr>"
    have "length hs' = n" using s1(3) by (simp add: hs'_def)
    then have "salloc_inv E n (A(blk (k + 1) \<mapsto> 8 * (e - k) - 8)) ?s"
      using t(1,2) s1(2) r unfolding salloc_inv_def by auto
    moreover have "blk (k + 1) \<noteq> NULL"
    proof -
      have "k < d" "d < BLKS"
        using heap_ascending [OF s1(4), of j] c(1) by (auto simp: chosen_def ascending_append ascending_Cons)
      then show ?thesis using blk_eq_0 [of "k + 1"] by simp
    qed
    moreover have "smalloc E sz s = Some (blk (k + 1), ?s)" using s1(1) c(2) by (simp add: smalloc_def)
    moreover have "keeps A s ?s" using kept_trans [OF s1(6) t(4)] by simp
    ultimately show ?thesis using t(3) z by (intro exI [of _ "blk (k + 1)"] exI [of _ ?s]) auto
  qed
qed

lemma free_contract:
  assumes "salloc_inv E n A s" "A p = Some z"
  shows "\<exists>s'. sfree E p s = Some s' \<and> salloc_inv E n (A(p := None)) s' \<and> keeps (A(p := None)) s s'"
proof -
  obtain hs where hs: "s_initialized s" "ram_ok E n" "length hs = n" "heap E (s_mem s) hs" "owns hs A" "p \<noteq> NULL"
    using assms by (rule salloc_inv_cases)
  from heap_free [OF hs(4,5) assms(2)] obtain m' hs' where f: "s_free_block (s_be E) p (s_mem s) = Some m'"
    "heap E m' hs'" "length hs' = length hs" "owns hs' (A(p := None))" "kept (A(p := None)) (s_mem s) m'" by blast
  let ?s = "s\<lparr> s_mem := m' \<rparr>"
  have "sfree E p s = Some ?s" using f(1) hs by (simp add: sfree_def)
  moreover have "salloc_inv E n (A(p := None)) ?s" unfolding salloc_inv_def using hs f by auto
  ultimately show ?thesis using f(5) by (intro exI [of _ ?s]) simp
qed

text \<open>Storing into a block of one's own.\<close>

lemma store_contract:
  assumes "salloc_inv E n A s" "A p = Some z" "length bs \<le> z"
  shows "salloc_inv E n A (s\<lparr> s_mem := mem_write (s_mem s) p bs \<rparr>)"
    and "kept (A(p := None)) (s_mem s) (mem_write (s_mem s) p bs)"
    and "mem_read (mem_write (s_mem s) p bs) p z = bs @ drop (length bs) (rd s p z)"
proof -
  obtain hs where hs: "s_initialized s" "ram_ok E n" "length hs = n" "heap E (s_mem s) hs" "owns hs A" "p \<noteq> NULL"
    using assms(1,2) by (rule salloc_inv_cases)
  obtain i k d where kd: "(k, d) \<in> live hs" "p = blk (k + 1)" "z = 8 * (d - k) - 8" "k < d" "d < BLKS"
    by (rule owns_cases [OF hs(4,5) assms(2)])
  have len: "length bs \<le> 8 * (d - k) - 8" using assms(3) kd(3) by simp
  have "heap E (mem_write (s_mem s) p bs) hs" unfolding kd(2) by (rule heap_write [OF hs(4) kd(1) len])
  then show "salloc_inv E n A (s\<lparr> s_mem := mem_write (s_mem s) p bs \<rparr>)" unfolding salloc_inv_def using hs by auto
  have o: "outside {k + 1..<d} (s_mem s) (mem_write (s_mem s) p bs)"
    unfolding kd(2) by (rule payload_write_outside [OF len kd(4,5)])
  show "kept (A(p := None)) (s_mem s) (mem_write (s_mem s) p bs)"
  proof (rule kept_outside [OF hs(4,5) o])
    fix a b
    assume ab: "(a, b) \<in> live hs" "blk (a + 1) \<in> dom (A(p := None))"
    then have "k \<noteq> a" using kd(2) not_dom_remove by metis
    from live_apart [OF hs(4) kd(1) ab(1) this] show "{k + 1..<d} \<inter> {a + 1..<b} = {}" by auto
  qed (auto simp: map_le_def)
  show "mem_read (mem_write (s_mem s) p bs) p z = bs @ drop (length bs) (rd s p z)"
  proof (rule nth_equalityI)
    fix j
    assume "j < length (mem_read (mem_write (s_mem s) p bs) p z)"
    then have j: "j < z" by simp
    have "off_from p (p + of_nat j) = j" using j kd by (intro off_from_offset) simp
    then show "mem_read (mem_write (s_mem s) p bs) p z ! j = (bs @ drop (length bs) (rd s p z)) ! j"
      using j assms(3) kd by (simp add: nth_mem_read mem_write_apply nth_append)
  qed (use assms(3) in simp)
qed

lemma mem_read_prefix: "mem_read m' q b = mem_read m p b \<Longrightarrow> a \<le> b \<Longrightarrow> mem_read m' q a = mem_read m p a"
  by (metis take_mem_read min.absorb1)

lemma realloc_contract:
  assumes inv: "salloc_inv E n A s" and p: "A p = Some z" and sz: "0 < sz" "unat sz \<le> 4294967280"
  shows "\<exists>q s'. srealloc E p sz s = Some (q, s') \<and> keeps (A(p := None)) s s' \<and>
    (if q = NULL then salloc_inv E n A s' \<and> keeps A s s'
     else (q = p \<or> A q = None) \<and> rd s' q (min z (unat sz)) = rd s p (min z (unat sz))
       \<and> (\<exists>y \<ge> unat sz. salloc_inv E n (A(p := None, q \<mapsto> y)) s'))"
proof -
  obtain hs where hs: "s_initialized s" "ram_ok E n" "length hs = n" "heap E (s_mem s) hs" "owns hs A" "p \<noteq> NULL"
    using inv p by (rule salloc_inv_cases)
  have size: "unat (s_get_actual_block_size (s_be E) p m) = z" if hm: "heap E m h" "owns h B" "B p = Some z" for m h B
  proof -
    obtain i X k d u Y where b: "i < length h" "h ! i = X @ (k, True) # (d, u) # Y" "p = blk (k + 1)" "z = 8 * (d - k) - 8"
      by (rule owns_cases [OF hm])
    have "region (s_be E) m (h ! i)" using hm(1) b(1) by (simp add: heap_def)
    then have "region (s_be E) m (X @ (k, True) # (d, u) # Y)" by (simp only: b(2))
    from region_size(2) [OF this] show ?thesis unfolding b(3, 4) blk_Suc .
  qed
  have nz: "sz \<noteq> 0" using sz by auto
  have rdy: "s_ready E s = Some s" using hs(1) by (simp add: s_ready_def)
  note act = size [OF hs(4,5) p]
  consider (same) "z = unat sz" | (less) "unat sz < z" | (more) "z < unat sz" by linarith
  then show ?thesis
  proof cases
    case same
    then have "srealloc E p sz s = Some (p, s)"
      using act hs nz by (simp add: srealloc_def rdy word_unat_eq_iff)
    moreover have "A(p := None, p \<mapsto> z) = A" using p by auto
    ultimately show ?thesis using same inv hs(6)
      by (intro exI [of _ p] exI [of _ s]) (auto simp: kept_def intro!: exI [of _ z])
  next
    case less
    from heap_shrink [OF hs(4,5) p sz(1) less] obtain m' hs' z' where f: "s_shrink_block (s_be E) p sz (s_mem s) = Some m'"
      "heap E m' hs'" "length hs' = length hs" "unat sz \<le> z'" "z' \<le> z" "owns hs' (A(p \<mapsto> z'))" "kept (A(p \<mapsto> z')) (s_mem s) m'"
      by blast
    let ?s = "s\<lparr> s_mem := m' \<rparr>"
    have "srealloc E p sz s = Some (p, ?s)"
      using act hs nz less f(1) by (simp add: srealloc_def rdy word_unat_eq_iff word_less_nat_alt)
    moreover have "salloc_inv E n (A(p := None, p \<mapsto> z')) ?s" unfolding salloc_inv_def using hs f by auto
    moreover have "keeps (A(p := None)) s ?s" using f(7) by (auto simp: kept_def split: if_splits)
    moreover have "rd ?s p (min z (unat sz)) = rd s p (min z (unat sz))"
    proof (rule mem_read_prefix)
      show "rd ?s p z' = rd s p z'" using f(7) by (simp add: kept_def)
      show "min z (unat sz) \<le> z'" using f(4) by simp
    qed
    ultimately show ?thesis using f(4)
      by (intro exI [of _ p] exI [of _ ?s]) (simp only: hs(6) if_False, blast)
  next
    case more
    have start: "srealloc E p sz s = (case smalloc E sz s of None \<Rightarrow> None
            | Some (newptr, s) \<Rightarrow>
                if newptr = NULL then Some (NULL, s)
                else
                  (let n = s_get_actual_block_size (s_be E) p (s_mem s);
                       s = s\<lparr> s_mem := memcpy (s_mem s) newptr p (unat n) \<rparr>
                   in map_option (\<lambda>s. (newptr, s)) (sfree E p s)))"
      using act hs nz more by (simp add: srealloc_def rdy word_unat_eq_iff word_less_nat_alt)
    from malloc_contract [OF inv sz] obtain q s1 where q: "smalloc E sz s = Some (q, s1)" "keeps A s s1"
      "if q = NULL then salloc_inv E n A s1 else A q = None \<and> (\<exists>y \<ge> unat sz. salloc_inv E n (A(q \<mapsto> y)) s1)" by blast
    show ?thesis
    proof (cases "q = NULL")
      case True
      then show ?thesis using q start kept_mono [OF q(2), of "A(p := None)"]
        by (intro exI [of _ NULL] exI [of _ s1]) (simp add: map_le_def)
    next
      case False
      then obtain y where y: "A q = None" "unat sz \<le> y" "salloc_inv E n (A(q \<mapsto> y)) s1" using q(3) by auto
      have pq: "p \<noteq> q" using p y(1) by auto
      have Aq: "(A(q \<mapsto> y)) q = Some y" "(A(q \<mapsto> y)) p = Some z" using p pq by simp_all
      obtain h1 where h1: "heap E (s_mem s1) h1" "owns h1 (A(q \<mapsto> y))"
        using y(3) Aq(1) by (rule salloc_inv_cases)
      have act1: "unat (s_get_actual_block_size (s_be E) p (s_mem s1)) = z" by (rule size [OF h1 Aq(2)])
      let ?m2 = "mem_write (s_mem s1) q (rd s1 p z)"
      let ?s2 = "s1\<lparr> s_mem := ?m2 \<rparr>"
      have "length (rd s1 p z) \<le> y" using more y(2) by simp
      note st = store_contract [OF y(3) Aq(1) this]
      from free_contract [OF st(1) Aq(2)] obtain s3 where s3: "sfree E p ?s2 = Some s3"
        "salloc_inv E n (A(q \<mapsto> y, p := None)) s3" "keeps (A(q \<mapsto> y, p := None)) ?s2 s3" by blast
      have s3k: "kept (A(q \<mapsto> y, p := None)) ?m2 (s_mem s3)" using s3(3) by simp
      have "srealloc E p sz s = Some (q, s3)"
        using False s3(1) by (simp add: start q(1) act1 memcpy_def)
      moreover have "salloc_inv E n (A(p := None, q \<mapsto> y)) s3" using s3(2) pq by (simp add: fun_upd_twist)
      moreover have "keeps (A(p := None)) s s3"
      proof -
        have "A(p := None) \<subseteq>\<^sub>m A" "A(p := None) \<subseteq>\<^sub>m (A(q \<mapsto> y))(q := None)" "A(p := None) \<subseteq>\<^sub>m A(q \<mapsto> y, p := None)"
          using y(1) by (auto simp: map_le_def)
        then show ?thesis using q(2) st(2) s3k by (meson kept_mono kept_trans)
      qed
      moreover have "rd s3 q (min z (unat sz)) = rd s p (min z (unat sz))"
      proof -
        have "rd s3 q y = mem_read ?m2 q y" using s3k pq by (simp add: kept_def)
        also have "\<dots> = rd s1 p z @ drop z (rd s1 q y)" using st(3) by simp
        finally have "take z (rd s3 q y) = rd s1 p z" by simp
        also have "\<dots> = rd s p z" using q(2) p by (simp add: kept_def)
        finally have "rd s3 q z = rd s p z" using more y(2) by (simp add: take_mem_read min_def split: if_splits)
        then show ?thesis using more by (simp add: min_def)
      qed
      ultimately show ?thesis using False y by (intro exI [of _ q] exI [of _ s3]) auto
    qed
  qed
qed

text \<open>\<open>scalloc\<close> gives cleared memory, when the product of its arguments does not wrap.\<close>

lemma calloc_contract:
  assumes "salloc_inv E n A s" "0 < nmemb" "0 < sz" "unat nmemb * unat sz \<le> 4294967280"
  shows "\<exists>p s'. scalloc E nmemb sz s = Some (p, s') \<and> keeps A s s' \<and>
    (if p = NULL then salloc_inv E n A s'
     else A p = None \<and> rd s' p (unat nmemb * unat sz) = replicate (unat nmemb * unat sz) 0
       \<and> (\<exists>z \<ge> unat nmemb * unat sz. salloc_inv E n (A(p \<mapsto> z)) s'))"
proof -
  let ?n = "unat nmemb * unat sz"
  have u: "unat (nmemb * sz) = ?n"
    using assms(4) by (subst unat_mult_lem [THEN iffD1]) simp_all
  have "0 < ?n" using assms(2,3) by (simp add: word_less_nat_alt)
  then have pos: "0 < nmemb * sz" using u by (simp only: word_less_nat_alt unat_0)
  from ready [OF assms(1)] obtain s1 where s1: "s_ready E s = Some s1" "keeps A s s1" "salloc_inv E n A s1" by blast
  from malloc_contract [OF s1(3) pos, unfolded u, OF assms(4)] obtain p s2 where p: "smalloc E (nmemb * sz) s1 = Some (p, s2)"
    "keeps A s1 s2" "if p = NULL then salloc_inv E n A s2 else A p = None \<and> (\<exists>z \<ge> ?n. salloc_inv E n (A(p \<mapsto> z)) s2)"
    by blast
  show ?thesis
  proof (cases "p = NULL")
    case True
    then show ?thesis using p s1 kept_trans [OF s1(2) p(2)] by (auto simp: scalloc_def)
  next
    case False
    then obtain z where z: "A p = None" "?n \<le> z" "salloc_inv E n (A(p \<mapsto> z)) s2" using p(3) by auto
    let ?s = "s2\<lparr> s_mem := mem_write (s_mem s2) p (replicate ?n 0) \<rparr>"
    have "length (replicate ?n (0 :: u8)) \<le> z" using z(2) by simp
    note st = store_contract [OF z(3) _ this, of p]
    have "A \<subseteq>\<^sub>m (A(p \<mapsto> z))(p := None)" using z(1) by (auto simp: map_le_def)
    then have "keeps A s ?s" using st(2) s1(2) p(2) by (simp, meson kept_mono kept_trans)
    moreover have "rd ?s p ?n = replicate ?n 0"
    proof -
      have "take ?n (mem_read (s_mem ?s) p z) = replicate ?n 0" using st(3) by simp
      then show ?thesis using z(2) by (simp add: take_mem_read min_def split: if_splits)
    qed
    moreover have "scalloc E nmemb sz s = Some (p, ?s)" using s1(1) p(1) False by (simp add: scalloc_def u)
    ultimately show ?thesis using False z(1,2) st(1) by (intro exI [of _ p] exI [of _ ?s]) auto
  qed
qed

section \<open>Programs that use an allocator\<close>

text \<open>
  A client intact its blocks in variables, with the sizes it asked for. It does not use a variable
  without a block, and does not ask for nothing or for more than \<open>lim\<close> bytes; what it stores fits
  into what it asked for.
\<close>

datatype cmd = CMalloc nat u32 | CFree nat | CStore nat "u8 list" | CRealloc nat u32

type_synonym vars = "nat \<Rightarrow> u32 \<times> nat"

record 's heap_ops =
  h_malloc :: "u32 \<Rightarrow> 's \<Rightarrow> (u32 \<times> 's) option"
  h_free :: "u32 \<Rightarrow> 's \<Rightarrow> 's option"
  h_realloc :: "u32 \<Rightarrow> u32 \<Rightarrow> 's \<Rightarrow> (u32 \<times> 's) option"
  h_store :: "u32 \<Rightarrow> u8 list \<Rightarrow> 's \<Rightarrow> 's"

definition in_range :: "nat \<Rightarrow> u32 \<Rightarrow> bool" where "in_range lim sz \<longleftrightarrow> 0 < sz \<and> unat sz \<le> lim"

fun cstep :: "'s heap_ops \<Rightarrow> nat \<Rightarrow> cmd \<Rightarrow> vars \<times> 's \<Rightarrow> (vars \<times> 's) option" where
  "cstep H lim (CMalloc v sz) (e, s) =
     (if fst (e v) \<noteq> NULL \<or> \<not> in_range lim sz then Some (e, s)
      else map_option (\<lambda>(p, s). (if p = NULL then e else e(v := (p, unat sz)), s)) (h_malloc H sz s))"
| "cstep H lim (CFree v) (e, s) =
     (if fst (e v) = NULL then Some (e, s)
      else map_option (\<lambda>s. (e(v := (NULL, 0)), s)) (h_free H (fst (e v)) s))"
| "cstep H lim (CStore v bs) (e, s) =
     (if fst (e v) = NULL \<or> snd (e v) < length bs then Some (e, s) else Some (e, h_store H (fst (e v)) bs s))"
| "cstep H lim (CRealloc v sz) (e, s) =
     (if fst (e v) = NULL \<or> \<not> in_range lim sz then Some (e, s)
      else map_option (\<lambda>(q, s). (if q = NULL then e else e(v := (q, unat sz)), s)) (h_realloc H (fst (e v)) sz s))"

fun crun :: "'s heap_ops \<Rightarrow> nat \<Rightarrow> cmd list \<Rightarrow> vars \<times> 's \<Rightarrow> (vars \<times> 's) option" where
  "crun H lim [] st = Some st"
| "crun H lim (c # cs) st = (case cstep H lim c st of None \<Rightarrow> None | Some st \<Rightarrow> crun H lim cs st)"

text \<open>
  What the client means: variables hold byte strings. \<open>ok\<close> says whether the allocator had memory;
  of a block, the size and the bytes stored so far are known.
\<close>

type_synonym store = "nat \<rightharpoonup> nat \<times> u8 list"

fun sstep :: "nat \<Rightarrow> bool \<Rightarrow> cmd \<Rightarrow> store \<Rightarrow> store" where
  "sstep lim ok (CMalloc v sz) M = (if M v \<noteq> None \<or> \<not> in_range lim sz \<or> \<not> ok then M else M(v \<mapsto> (unat sz, [])))"
| "sstep lim ok (CFree v) M = M(v := None)"
| "sstep lim ok (CStore v bs) M =
     (case M v of None \<Rightarrow> M | Some (n, c) \<Rightarrow> if n < length bs then M else M(v \<mapsto> (n, bs @ drop (length bs) c)))"
| "sstep lim ok (CRealloc v sz) M =
     (case M v of None \<Rightarrow> M | Some (n, c) \<Rightarrow> if in_range lim sz \<and> ok then M(v \<mapsto> (unat sz, take (unat sz) c)) else M)"

definition srun :: "nat \<Rightarrow> (bool \<times> cmd) list \<Rightarrow> store \<Rightarrow> store" where
  "srun lim cs M = fold (\<lambda>(ok, c). sstep lim ok c) cs M"

text \<open>The variables hold what the store says.\<close>

fun holds :: "(u32 \<Rightarrow> nat \<Rightarrow> u8 list) \<Rightarrow> (nat \<times> u8 list) option \<Rightarrow> u32 \<times> nat \<Rightarrow> bool" where
  "holds g None x \<longleftrightarrow> fst x = NULL"
| "holds g (Some (n, c)) x \<longleftrightarrow> fst x \<noteq> NULL \<and> snd x = n \<and> length c \<le> n \<and> g (fst x) (length c) = c"

definition shows_store :: "('s \<Rightarrow> u32 \<Rightarrow> nat \<Rightarrow> u8 list) \<Rightarrow> store \<Rightarrow> vars \<times> 's \<Rightarrow> bool" where
  "shows_store peek M st \<longleftrightarrow> (\<forall>v. holds (peek (snd st)) (M v) (fst st v))"

definition no_vars :: vars where "no_vars = (\<lambda>_. (NULL, 0))"

locale allocator =
  fixes H :: "'s heap_ops"
    and lim :: nat
    and inv :: "(u32 \<rightharpoonup> nat) \<Rightarrow> 's \<Rightarrow> bool"
    and peek :: "'s \<Rightarrow> u32 \<Rightarrow> nat \<Rightarrow> u8 list"
    and intact :: "(u32 \<rightharpoonup> nat) \<Rightarrow> 's \<Rightarrow> 's \<Rightarrow> bool"
  assumes not_null: "inv A s \<Longrightarrow> A NULL = None"
    and intact_peek: "intact A s s' \<Longrightarrow> A p = Some z \<Longrightarrow> n \<le> z \<Longrightarrow> peek s' p n = peek s p n"
    and intact_sub: "intact A s s' \<Longrightarrow> B \<subseteq>\<^sub>m A \<Longrightarrow> intact B s s'"
    and malloc: "inv A s \<Longrightarrow> in_range lim sz \<Longrightarrow> \<exists>p s'. h_malloc H sz s = Some (p, s') \<and> intact A s s' \<and>
        (if p = NULL then inv A s' else A p = None \<and> (\<exists>z \<ge> unat sz. inv (A(p \<mapsto> z)) s'))"
    and free: "inv A s \<Longrightarrow> A p = Some z \<Longrightarrow>
        \<exists>s'. h_free H p s = Some s' \<and> inv (A(p := None)) s' \<and> intact (A(p := None)) s s'"
    and realloc: "inv A s \<Longrightarrow> A p = Some z \<Longrightarrow> in_range lim sz \<Longrightarrow>
        \<exists>q s'. h_realloc H p sz s = Some (q, s') \<and> intact (A(p := None)) s s' \<and>
          (if q = NULL then inv A s' \<and> intact A s s'
           else (q = p \<or> A q = None) \<and> (\<forall>n \<le> min z (unat sz). peek s' q n = peek s p n)
             \<and> (\<exists>y \<ge> unat sz. inv (A(p := None, q \<mapsto> y)) s'))"
    and store: "inv A s \<Longrightarrow> A p = Some z \<Longrightarrow> length bs \<le> z \<Longrightarrow> inv A (h_store H p bs s)
        \<and> intact (A(p := None)) s (h_store H p bs s)
        \<and> (\<forall>n \<le> z. peek (h_store H p bs s) p n = take n (bs @ drop (length bs) (peek s p n)))"
    and peek_take: "n \<le> k \<Longrightarrow> take n (peek s p k) = peek s p n"
    and length_peek: "length (peek s p n) = n"
begin

definition backed :: "(u32 \<rightharpoonup> nat) \<Rightarrow> (nat \<times> u8 list) option \<Rightarrow> u32 \<times> nat \<Rightarrow> bool" where
  "backed A m x \<longleftrightarrow> (\<forall>n c. m = Some (n, c) \<longrightarrow> (\<exists>z \<ge> n. A (fst x) = Some z))"

definition stored :: "store \<Rightarrow> vars \<Rightarrow> 's \<Rightarrow> (u32 \<rightharpoonup> nat) \<Rightarrow> bool" where
  "stored M e s A \<longleftrightarrow> inv A s \<and> (\<forall>v. holds (peek s) (M v) (e v) \<and> backed A (M v) (e v))
     \<and> (\<forall>v w. v \<noteq> w \<longrightarrow> M v \<noteq> None \<longrightarrow> M w \<noteq> None \<longrightarrow> fst (e v) \<noteq> fst (e w))"

lemma storedD:
  assumes "stored M e s A" "M v = Some (n, c)"
  shows "fst (e v) \<noteq> NULL" "snd (e v) = n" "length c \<le> n" "peek s (fst (e v)) (length c) = c"
    and "\<exists>z \<ge> n. A (fst (e v)) = Some z"
proof -
  have "holds (peek s) (M v) (e v)" "backed A (M v) (e v)" using assms(1) by (simp_all only: stored_def)
  then show "fst (e v) \<noteq> NULL" "snd (e v) = n" "length c \<le> n" "peek s (fst (e v)) (length c) = c"
    "\<exists>z \<ge> n. A (fst (e v)) = Some z"
    unfolding assms(2) backed_def by simp_all
qed

lemma stored_None: "stored M e s A \<Longrightarrow> M v = None \<Longrightarrow> fst (e v) = NULL"
  unfolding stored_def by (metis holds.simps(1))

lemma stored_iff: "stored M e s A \<Longrightarrow> fst (e v) = NULL \<longleftrightarrow> M v = None"
proof (cases "M v")
  case (Some y)
  assume "stored M e s A"
  then show ?thesis using storedD(1) [of M e s A v "fst y" "snd y"] Some by simp
qed (simp add: stored_None)

text \<open>The other variables keep their contents when their blocks are kept.\<close>

lemma stored_update:
  assumes st: "stored M e s A" and i: "inv B s'" and k: "intact C s s'"
    and others: "\<And>w. w \<noteq> v \<Longrightarrow> M w \<noteq> None \<Longrightarrow> C (fst (e w)) = A (fst (e w)) \<and> B (fst (e w)) = A (fst (e w))"
    and new: "holds (peek s') m x" "backed B m x" "\<And>w. m \<noteq> None \<Longrightarrow> w \<noteq> v \<Longrightarrow> M w \<noteq> None \<Longrightarrow> fst (e w) \<noteq> fst x"
  shows "stored (M(v := m)) (e(v := x)) s' B"
proof -
  have "holds (peek s') (M w) (e w) \<and> backed B (M w) (e w)" if w: "w \<noteq> v" for w
  proof (cases "M w")
    case None
    then show ?thesis using stored_None [OF st, of w] by (simp add: backed_def)
  next
    case (Some y)
    obtain n c where y: "M w = Some (n, c)" using Some by (cases y) auto
    note d = storedD [OF st y]
    obtain z where z: "n \<le> z" "A (fst (e w)) = Some z" using d(5) by blast
    have C: "C (fst (e w)) = Some z" "B (fst (e w)) = Some z" using others [OF w] y z by simp_all
    have "length c \<le> z" using z d(3) by simp
    then have "peek s' (fst (e w)) (length c) = c" using intact_peek [OF k C(1)] d(4) by simp
    then show ?thesis using d C(2) z(1) by (simp add: y backed_def)
  qed
  then have "holds (peek s') ((M(v := m)) w) ((e(v := x)) w) \<and> backed B ((M(v := m)) w) ((e(v := x)) w)" for w
    using new(1,2) by (cases "w = v") simp_all
  moreover have "fst ((e(v := x)) u) \<noteq> fst ((e(v := x)) w)"
    if "u \<noteq> w" "(M(v := m)) u \<noteq> None" "(M(v := m)) w \<noteq> None" for u w
  proof -
    have "fst (e u) \<noteq> fst (e w)" if "M u \<noteq> None" "M w \<noteq> None" using st that \<open>u \<noteq> w\<close> unfolding stored_def by blast
    moreover have "fst x \<noteq> fst (e w)" if "u = v" "M w \<noteq> None" "m \<noteq> None"
      using new(3) [of w] that \<open>u \<noteq> w\<close> by metis
    moreover have "fst (e u) \<noteq> fst x" if "w = v" "M u \<noteq> None" "m \<noteq> None"
      using new(3) [of u] that \<open>u \<noteq> w\<close> by metis
    ultimately show ?thesis using that by (simp split: if_splits)
  qed
  ultimately show ?thesis using i unfolding stored_def by blast
qed

end

context allocator
begin

lemma holds_intact:
  assumes "holds (peek s) m x" "backed A m x" "intact A s s'"
  shows "holds (peek s') m x"
proof (cases m)
  case None
  then show ?thesis using assms(1) by simp
next
  case (Some y)
  obtain n c where y: "m = Some (n, c)" using Some by (cases y) auto
  obtain z where "n \<le> z" "A (fst x) = Some z" using assms(2) y by (auto simp: backed_def)
  then show ?thesis using assms(1) intact_peek [OF assms(3), of "fst x" z "length c"] by (simp add: y)
qed

lemma stored_intact: "stored M e s A \<Longrightarrow> inv A s' \<Longrightarrow> intact A s s' \<Longrightarrow> stored M e s' A"
  using holds_intact [of s _ _ A s'] unfolding stored_def by meson

lemma stored_other:
  assumes "stored M e s A" "M v \<noteq> None" "w \<noteq> v" "M w \<noteq> None"
  shows "fst (e w) \<noteq> fst (e v)"
  using assms unfolding stored_def by blast

lemma stored_owned: "stored M e s A \<Longrightarrow> M w \<noteq> None \<Longrightarrow> A p = None \<Longrightarrow> fst (e w) \<noteq> p"
  using storedD(5) [of M e s A w] by fastforce

lemma step_malloc:
  assumes st: "stored M e s A" and v: "M v = None" and r: "in_range lim sz"
  shows "\<exists>ok e' s' A'. cstep H lim (CMalloc v sz) (e, s) = Some (e', s') \<and> stored (sstep lim ok (CMalloc v sz) M) e' s' A'"
proof -
  have i: "inv A s" using st by (simp add: stored_def)
  from malloc [OF i r] obtain p s' where p: "h_malloc H sz s = Some (p, s')" "intact A s s'"
    "if p = NULL then inv A s' else A p = None \<and> (\<exists>z \<ge> unat sz. inv (A(p \<mapsto> z)) s')" by blast
  have e: "fst (e v) = NULL" using stored_None [OF st v] .
  show ?thesis
  proof (cases "p = NULL")
    case True
    then have "stored M e s' A" using p by (intro stored_intact [OF st]) simp_all
    then have "stored (sstep lim False (CMalloc v sz) M) e s' A" by simp
    then show ?thesis using e p r True by (intro exI [of _ False] exI [of _ e] exI [of _ s'] exI [of _ A]) simp
  next
    case False
    then obtain z where z: "A p = None" "unat sz \<le> z" "inv (A(p \<mapsto> z)) s'" using p(3) by auto
    have "stored (M(v := Some (unat sz, []))) (e(v := (p, unat sz))) s' (A(p \<mapsto> z))"
    proof (rule stored_update [OF st z(3) p(2)])
      show "A (fst (e w)) = A (fst (e w)) \<and> (A(p \<mapsto> z)) (fst (e w)) = A (fst (e w))" if "w \<noteq> v" "M w \<noteq> None" for w
        using stored_owned [OF st that(2) z(1)] by simp
      show "holds (peek s') (Some (unat sz, [])) (p, unat sz)" using False length_peek [of s' p 0] by simp
      show "backed (A(p \<mapsto> z)) (Some (unat sz, [])) (p, unat sz)" using z(2) by (simp add: backed_def)
      show "fst (e w) \<noteq> fst (p, unat sz)" if "M w \<noteq> None" for w using stored_owned [OF st that z(1)] by simp
    qed
    then have "stored (sstep lim True (CMalloc v sz) M) (e(v := (p, unat sz))) s' (A(p \<mapsto> z))" using v r by simp
    then show ?thesis using e p(1) r False
      by (intro exI [of _ True] exI [of _ "e(v := (p, unat sz))"] exI [of _ s'] exI [of _ "A(p \<mapsto> z)"]) simp
  qed
qed

lemma step_free:
  assumes st: "stored M e s A" and v: "M v = Some (n, c)"
  shows "\<exists>ok e' s' A'. cstep H lim (CFree v) (e, s) = Some (e', s') \<and> stored (sstep lim ok (CFree v) M) e' s' A'"
proof -
  have i: "inv A s" using st by (simp add: stored_def)
  note d = storedD [OF st v]
  obtain z where z: "A (fst (e v)) = Some z" using d(5) by blast
  let ?B = "A(fst (e v) := None)"
  from free [OF i z] obtain s' where s': "h_free H (fst (e v)) s = Some s'" "inv ?B s'" "intact ?B s s'" by blast
  have "stored (M(v := None)) (e(v := (NULL, 0))) s' ?B"
  proof (rule stored_update [OF st s'(2,3)])
    show "?B (fst (e w)) = A (fst (e w)) \<and> ?B (fst (e w)) = A (fst (e w))" if "w \<noteq> v" "M w \<noteq> None" for w
      using stored_other [OF st _ that] v by simp
  qed (simp_all add: backed_def)
  then show ?thesis using d(1) s'(1)
    by (intro exI [of _ True] exI [of _ "e(v := (NULL, 0))"] exI [of _ s'] exI [of _ ?B]) simp
qed

lemma step_store:
  assumes st: "stored M e s A" and v: "M v = Some (n, c)" and len: "length bs \<le> n"
  shows "\<exists>ok e' s' A'. cstep H lim (CStore v bs) (e, s) = Some (e', s') \<and> stored (sstep lim ok (CStore v bs) M) e' s' A'"
proof -
  have i: "inv A s" using st by (simp add: stored_def)
  note d = storedD [OF st v]
  obtain z where z: "n \<le> z" "A (fst (e v)) = Some z" using d(5) by blast
  let ?p = "fst (e v)" and ?s = "h_store H (fst (e v)) bs s" and ?c = "bs @ drop (length bs) c"
  have s': "inv A ?s" "intact (A(?p := None)) s ?s"
    "k \<le> z \<Longrightarrow> peek ?s ?p k = take k (bs @ drop (length bs) (peek s ?p k))" for k
    using store [OF i z(2), of bs] len z(1) by simp_all
  have "peek ?s ?p (length ?c) = ?c"
  proof -
    have "length ?c \<le> z" using len d(3) z(1) by simp
    from s'(3) [OF this] have "peek ?s ?p (length ?c) = take (length ?c) (bs @ drop (length bs) (peek s ?p (length ?c)))" .
    moreover have "drop (length bs) (peek s ?p (length ?c)) = drop (length bs) c"
      using d(4) length_peek [of s ?p "length ?c"] by (cases "length bs \<le> length c") simp_all
    ultimately show ?thesis by simp
  qed
  then have "stored (M(v := Some (n, ?c))) (e(v := e v)) ?s A"
  proof (intro stored_update [OF st s'(1,2)])
    show "(A(?p := None)) (fst (e w)) = A (fst (e w)) \<and> A (fst (e w)) = A (fst (e w))" if "w \<noteq> v" "M w \<noteq> None" for w
      using stored_other [OF st _ that] v by simp
    show "holds (peek ?s) (Some (n, ?c)) (e v)" if "peek ?s ?p (length ?c) = ?c"
      using that d len by simp
    show "backed A (Some (n, ?c)) (e v)" using z by (simp add: backed_def)
    show "fst (e w) \<noteq> fst (e v)" if "w \<noteq> v" "M w \<noteq> None" for w using stored_other [OF st _ that] v by simp
  qed
  then have "stored (sstep lim True (CStore v bs) M) e ?s A" using v len by simp
  then show ?thesis using d(1,2) len by (intro exI [of _ True] exI [of _ e] exI [of _ ?s] exI [of _ A]) simp
qed

lemma step_realloc:
  assumes st: "stored M e s A" and v: "M v = Some (n, c)" and r: "in_range lim sz"
  shows "\<exists>ok e' s' A'. cstep H lim (CRealloc v sz) (e, s) = Some (e', s') \<and> stored (sstep lim ok (CRealloc v sz) M) e' s' A'"
proof -
  have i: "inv A s" using st by (simp add: stored_def)
  note d = storedD [OF st v]
  obtain z where z: "n \<le> z" "A (fst (e v)) = Some z" using d(5) by blast
  let ?p = "fst (e v)"
  from realloc [OF i z(2) r] obtain q s' where q: "h_realloc H ?p sz s = Some (q, s')" "intact (A(?p := None)) s s'"
    "if q = NULL then inv A s' \<and> intact A s s'
     else (q = ?p \<or> A q = None) \<and> (\<forall>n \<le> min z (unat sz). peek s' q n = peek s ?p n)
       \<and> (\<exists>y \<ge> unat sz. inv (A(?p := None, q \<mapsto> y)) s')" by blast
  show ?thesis
  proof (cases "q = NULL")
    case True
    then have "stored M e s' A" using q(3) by (intro stored_intact [OF st]) simp_all
    then have "stored (sstep lim False (CRealloc v sz) M) e s' A" using v by simp
    then show ?thesis using d(1) q(1) r True by (intro exI [of _ False] exI [of _ e] exI [of _ s'] exI [of _ A]) simp
  next
    case False
    then obtain y where y: "q = ?p \<or> A q = None" "\<forall>n \<le> min z (unat sz). peek s' q n = peek s ?p n"
      "unat sz \<le> y" "inv (A(?p := None, q \<mapsto> y)) s'" using q(3) by auto
    have other: "fst (e w) \<noteq> ?p \<and> fst (e w) \<noteq> q" if "w \<noteq> v" "M w \<noteq> None" for w
      using stored_other [OF st _ that] v stored_owned [OF st that(2), of q] y(1) by auto
    have "stored (M(v := Some (unat sz, take (unat sz) c))) (e(v := (q, unat sz))) s' (A(?p := None, q \<mapsto> y))"
    proof (rule stored_update [OF st y(4) q(2)])
      show "(A(?p := None)) (fst (e w)) = A (fst (e w)) \<and> (A(?p := None, q \<mapsto> y)) (fst (e w)) = A (fst (e w))"
        if "w \<noteq> v" "M w \<noteq> None" for w
        using other [OF that] by simp
      have l: "length (take (unat sz) c) \<le> min z (unat sz)" using d(3) z(1) by simp
      have "peek s' q (length (take (unat sz) c)) = take (unat sz) c"
        using y(2) l d(4) peek_take [of "length (take (unat sz) c)" "length c" s ?p] by simp (metis take_all_iff min_def nat_le_linear)
      then show "holds (peek s') (Some (unat sz, take (unat sz) c)) (q, unat sz)" using False by simp
      show "backed (A(?p := None, q \<mapsto> y)) (Some (unat sz, take (unat sz) c)) (q, unat sz)" using y(3) by (simp add: backed_def)
      show "fst (e w) \<noteq> fst (q, unat sz)" if "w \<noteq> v" "M w \<noteq> None" for w using other [OF that] by simp
    qed
    then have "stored (sstep lim True (CRealloc v sz) M) (e(v := (q, unat sz))) s' (A(?p := None, q \<mapsto> y))" using v r by simp
    then show ?thesis using d(1) q(1) r False
      by (intro exI [of _ True] exI [of _ "e(v := (q, unat sz))"] exI [of _ s'] exI [of _ "A(?p := None, q \<mapsto> y)"]) simp
  qed
qed

end

context allocator
begin

lemma step_stored:
  assumes st: "stored M e s A"
  shows "\<exists>ok e' s' A'. cstep H lim c (e, s) = Some (e', s') \<and> stored (sstep lim ok c M) e' s' A'"
proof -
  have skip: "\<exists>ok e' s' A'. cstep H lim c (e, s) = Some (e', s') \<and> stored (sstep lim ok c M) e' s' A'"
    if "cstep H lim c (e, s) = Some (e, s)" "sstep lim False c M = M"
    using that st by (intro exI [of _ False] exI [of _ e] exI [of _ s] exI [of _ A]) simp
  show ?thesis
  proof (cases c)
    case (CMalloc v sz)
    show ?thesis
    proof (cases "M v = None \<and> in_range lim sz")
      case True
      then show ?thesis using step_malloc [OF st] CMalloc by blast
    next
      case False
      then show ?thesis using stored_iff [OF st, of v] by (intro skip) (auto simp: CMalloc)
    qed
  next
    case (CFree v)
    show ?thesis
    proof (cases "M v")
      case None
      then show ?thesis using stored_iff [OF st, of v] by (intro skip) (auto simp: CFree)
    next
      case (Some y)
      then show ?thesis using step_free [OF st, of v "fst y" "snd y"] CFree by simp
    qed
  next
    case (CStore v bs)
    show ?thesis
    proof (cases "M v")
      case None
      then show ?thesis using stored_iff [OF st, of v] by (intro skip) (simp_all add: CStore)
    next
      case (Some y)
      obtain n c where y: "M v = Some (n, c)" using Some by (cases y) auto
      note d = storedD(1, 2) [OF st y]
      show ?thesis
      proof (cases "length bs \<le> n")
        case True
        then show ?thesis using step_store [OF st y] CStore by simp
      next
        case False
        then show ?thesis using d by (intro skip) (simp_all add: CStore y)
      qed
    qed
  next
    case (CRealloc v sz)
    show ?thesis
    proof (cases "M v \<noteq> None \<and> in_range lim sz")
      case True
      then obtain n c where "M v = Some (n, c)" by auto
      then show ?thesis using step_realloc [OF st] True CRealloc by blast
    next
      case False
      then show ?thesis using stored_iff [OF st, of v] by (intro skip) (auto simp: CRealloc split: option.splits)
    qed
  qed
qed

lemma run_stored:
  "stored M e s A \<Longrightarrow> \<exists>oks e' s' A'. length oks = length cs \<and> crun H lim cs (e, s) = Some (e', s')
     \<and> stored (srun lim (zip oks cs) M) e' s' A'"
proof (induction cs arbitrary: M e s A)
  case Nil
  then show ?case by (auto simp: srun_def)
next
  case (Cons c cs)
  from step_stored [OF Cons.prems, of c] obtain ok e1 s1 A1 where 1: "cstep H lim c (e, s) = Some (e1, s1)"
    "stored (sstep lim ok c M) e1 s1 A1" by blast
  from Cons.IH [OF 1(2)] obtain oks e' s' A' where 2: "length oks = length cs" "crun H lim cs (e1, s1) = Some (e', s')"
    "stored (srun lim (zip oks cs) (sstep lim ok c M)) e' s' A'" by blast
  then show ?case using 1(1)
    by (intro exI [of _ "ok # oks"] exI [of _ e'] exI [of _ s'] exI [of _ A']) (simp add: srun_def)
qed

text \<open>A program never goes wrong, and its variables end up with what was stored in them.\<close>

lemma program_ok:
  assumes "inv Map.empty s"
  shows "\<exists>oks e' s'. length oks = length cs \<and> crun H lim cs (no_vars, s) = Some (e', s')
     \<and> shows_store peek (srun lim (zip oks cs) Map.empty) (e', s')"
proof -
  have "stored Map.empty no_vars s Map.empty" using assms by (simp add: stored_def no_vars_def backed_def)
  from run_stored [OF this, of cs] obtain oks e' s' A' where r: "length oks = length cs"
    "crun H lim cs (no_vars, s) = Some (e', s')" "stored (srun lim (zip oks cs) Map.empty) e' s' A'" by blast
  from r(3) have "shows_store peek (srun lim (zip oks cs) Map.empty) (e', s')"
    unfolding stored_def shows_store_def by simp
  with r(1,2) show ?thesis by blast
qed

end

section \<open>The simple allocator\<close>

definition salloc_ops :: "salloc_env \<Rightarrow> salloc heap_ops" where
  "salloc_ops E = \<lparr> h_malloc = smalloc E, h_free = sfree E, h_realloc = srealloc E,
     h_store = (\<lambda>p bs s. s\<lparr> s_mem := mem_write (s_mem s) p bs \<rparr>) \<rparr>"

abbreviation SALLOC_MAX :: nat where "SALLOC_MAX \<equiv> 4294967280"

interpretation simple: allocator "salloc_ops E" SALLOC_MAX "salloc_inv E n" "\<lambda>s p z. mem_read (s_mem s) p z"
  "\<lambda>A s s'. kept A (s_mem s) (s_mem s')" for E n
proof
  fix A s
  assume inv: "salloc_inv E n A s"
  show "A NULL = None"
  proof (cases "A NULL")
    case (Some z)
    obtain hs where "NULL \<noteq> NULL" by (rule salloc_inv_cases [OF inv Some])
    then show ?thesis by simp
  qed simp
next
  fix A s s' p z k
  assume "kept A (s_mem s) (s_mem s')" "A p = Some z" "k \<le> z"
  then show "mem_read (s_mem s') p k = mem_read (s_mem s) p k" by (auto simp: kept_def intro: mem_read_prefix)
next
  fix A s s' B
  assume "kept A (s_mem s) (s_mem s')" "B \<subseteq>\<^sub>m A"
  then show "kept B (s_mem s) (s_mem s')" by (rule kept_mono)
next
  fix A s sz
  assume "salloc_inv E n A s" "in_range SALLOC_MAX sz"
  then show "\<exists>p s'. h_malloc (salloc_ops E) sz s = Some (p, s') \<and> keeps A s s' \<and>
      (if p = NULL then salloc_inv E n A s' else A p = None \<and> (\<exists>z \<ge> unat sz. salloc_inv E n (A(p \<mapsto> z)) s'))"
    using malloc_contract by (simp add: salloc_ops_def in_range_def)
next
  fix A s p z
  assume "salloc_inv E n A s" "A p = Some z"
  then show "\<exists>s'. h_free (salloc_ops E) p s = Some s' \<and> salloc_inv E n (A(p := None)) s' \<and> keeps (A(p := None)) s s'"
    using free_contract by (simp add: salloc_ops_def)
next
  fix A s p z sz
  assume i: "salloc_inv E n A s" "A p = Some z" "in_range SALLOC_MAX sz"
  from i(3) have sz: "0 < sz" "unat sz \<le> 4294967280" by (simp_all add: in_range_def)
  from realloc_contract [OF i(1,2) sz] obtain q s' where q: "srealloc E p sz s = Some (q, s')" "keeps (A(p := None)) s s'"
    "if q = NULL then salloc_inv E n A s' \<and> keeps A s s'
     else (q = p \<or> A q = None) \<and> rd s' q (min z (unat sz)) = rd s p (min z (unat sz))
       \<and> (\<exists>y \<ge> unat sz. salloc_inv E n (A(p := None, q \<mapsto> y)) s')" by blast
  have "rd s' q k = rd s p k" if "rd s' q (min z (unat sz)) = rd s p (min z (unat sz))" "k \<le> min z (unat sz)" for k
    using that by (rule mem_read_prefix)
  then show "\<exists>q s'. h_realloc (salloc_ops E) p sz s = Some (q, s') \<and> keeps (A(p := None)) s s' \<and>
      (if q = NULL then salloc_inv E n A s' \<and> keeps A s s'
       else (q = p \<or> A q = None) \<and> (\<forall>n \<le> min z (unat sz). rd s' q n = rd s p n)
         \<and> (\<exists>y \<ge> unat sz. salloc_inv E n (A(p := None, q \<mapsto> y)) s'))"
    using q by (intro exI [of _ q] exI [of _ s']) (simp add: salloc_ops_def split: if_splits)
next
  fix A s p z and bs :: "u8 list"
  assume i: "salloc_inv E n A s" "A p = Some z" "length bs \<le> z"
  note c = store_contract [OF i]
  let ?s = "h_store (salloc_ops E) p bs s"
  have e: "?s = s\<lparr> s_mem := mem_write (s_mem s) p bs \<rparr>" by (simp add: salloc_ops_def)
  have "rd ?s p k = take k (bs @ drop (length bs) (rd s p k))" if "k \<le> z" for k
  proof -
    have "rd ?s p k = take k (rd ?s p z)" using that by (simp add: take_mem_read min_def)
    also have "\<dots> = take k (bs @ drop (length bs) (rd s p z))" using c(3) by (simp add: e)
    also have "\<dots> = take k (bs @ drop (length bs) (take k (rd s p z)))" by (simp add: drop_take take_append)
    also have "take k (rd s p z) = rd s p k" using that by (simp add: take_mem_read min_def)
    finally show ?thesis .
  qed
  then show "salloc_inv E n A ?s \<and> keeps (A(p := None)) s ?s
      \<and> (\<forall>n \<le> z. rd ?s p n = take n (bs @ drop (length bs) (rd s p n)))"
    using c(1,2) by (simp add: e)
next
  fix k j :: nat and s :: salloc and p
  assume "k \<le> j"
  then show "take k (mem_read (s_mem s) p j) = mem_read (s_mem s) p k" by (simp add: take_mem_read min_def)
qed simp

section \<open>Properties\<close>

text \<open>The allocator on the RAM of \<open>src/common.c\<close>.\<close>

definition platform_ram :: "bool \<Rightarrow> u32 list \<Rightarrow> u32 list \<Rightarrow> salloc_env" where
  "platform_ram be mstart mend =
     \<lparr> s_be = be, ram_first = platform_get_first_free_ram mstart, ram_last = platform_get_last_free_ram mend \<rparr>"

lemma platform_ram_ok:
  assumes len: "length mend = length mstart"
    and room: "\<forall>i < length mstart. 0 < unat (mstart ! i) \<and> unat (mstart ! i) + 46 \<le> unat (mend ! i)"
    and apart: "\<forall>i < length mstart. \<forall>j < length mstart. i \<noteq> j \<longrightarrow>
      unat (mend ! i) \<le> unat (mstart ! j) \<or> unat (mend ! j) \<le> unat (mstart ! i)"
  shows "ram_ok (platform_ram be mstart mend) (length mstart)"
proof -
  let ?f = "\<lambda>i. unat (platform_get_first_free_ram mstart i)" and ?l = "\<lambda>i. unat (platform_get_last_free_ram mend i)"
  have b: "8 dvd ?f i \<and> unat (mstart ! i) \<le> ?f i \<and> ?f i < unat (mstart ! i) + 8 \<and> 8 dvd ?l i
      \<and> ?l i \<le> unat (mend ! i) \<and> unat (mend ! i) < ?l i + 16" if "i < length mstart" for i
  proof -
    have "unat (mstart ! i) + 46 \<le> unat (mend ! i)" using room that by simp
    moreover have "unat (mend ! i) < 4294967296" by (rule unat_u32_less)
    ultimately have "unat (mstart ! i) \<le> 4294967288" "8 \<le> unat (mend ! i)" by linarith+
    with that len show ?thesis using ram_bounds_aligned [of i mstart mend] by simp
  qed
  have nz: "platform_get_first_free_ram mstart i \<noteq> NULL" if "i < length mstart" for i
  proof
    assume "platform_get_first_free_ram mstart i = NULL"
    then have "?f i = 0" by simp
    moreover have "0 < unat (mstart ! i)" using room that by blast
    ultimately show False using b [OF that] by linarith
  qed
  have space: "?f i + 24 \<le> ?l i" if "i < length mstart" for i
  proof -
    have "unat (mstart ! i) + 46 \<le> unat (mend ! i)" using room that by simp
    then show ?thesis using b [OF that] by linarith
  qed
  have "?l i \<le> ?f j \<or> ?l j \<le> ?f i" if "i < length mstart" "j < length mstart" "i \<noteq> j" for i j
    using b [OF that(1)] b [OF that(2)] apart that by (meson order_trans)
  then show ?thesis
    using b nz space by (simp add: ram_ok_def platform_ram_def platform_get_first_free_ram_def [of mstart "length mstart"])
qed

text \<open>
  C2: Whatever a program does with \<open>smalloc\<close>, \<open>sfree\<close>, \<open>srealloc\<close> and stores into its own blocks,
  from the first call on, no call fails to return, and every block holds what was stored in it:
  blocks never overlap each other or the headers, and \<open>srealloc\<close> carries the contents along. The
  RAM is what the board configures; the contents of the memory at the start do not matter.
\<close>

theorem client_data_kept:
  assumes "length mend = length mstart"
    and "\<forall>i < length mstart. 0 < unat (mstart ! i) \<and> unat (mstart ! i) + 46 \<le> unat (mend ! i)"
    and "\<forall>i < length mstart. \<forall>j < length mstart. i \<noteq> j \<longrightarrow>
      unat (mend ! i) \<le> unat (mstart ! j) \<or> unat (mend ! j) \<le> unat (mstart ! i)"
  shows "\<exists>oks e s. length oks = length cs
    \<and> crun (salloc_ops (platform_ram be mstart mend)) SALLOC_MAX cs (no_vars, \<lparr> s_initialized = False, s_mem = m \<rparr>) = Some (e, s)
    \<and> shows_store (\<lambda>s p z. mem_read (s_mem s) p z) (srun SALLOC_MAX (zip oks cs) Map.empty) (e, s)"
proof -
  have "salloc_inv (platform_ram be mstart mend) (length mstart) Map.empty \<lparr> s_initialized = False, s_mem = m \<rparr>"
    using platform_ram_ok [OF assms] by (simp add: salloc_inv_def)
  then show ?thesis by (rule simple.program_ok)
qed

definition ex_cmds :: "cmd list" where
  "ex_cmds = [CMalloc 0 20, CStore 0 [1, 2, 3], CMalloc 1 7, CRealloc 0 100, CFree 1]"

lemma client_data_kept_witness:
  "\<exists>oks e s. length oks = length ex_cmds
    \<and> crun (salloc_ops (platform_ram True [0x1000, 0xD0000004] [0x8000, 0xD0200000])) SALLOC_MAX ex_cmds
        (no_vars, \<lparr> s_initialized = False, s_mem = (\<lambda>_. 0xFF) \<rparr>) = Some (e, s)
    \<and> shows_store (\<lambda>s p z. mem_read (s_mem s) p z) (srun SALLOC_MAX (zip oks ex_cmds) Map.empty) (e, s)"
  by (rule client_data_kept) (auto simp: less_Suc_eq)

text \<open>
  C23: \<open>smalloc\<close> fails only when no free block of any region is large enough. Otherwise it takes, in
  the first region with such a block, the smallest one, and gives back its end as a free block
  when 16 bytes or more are left; everything else stays as it was.
\<close>

theorem smalloc_best_fit:
  assumes "heap E m hs" "0 < sz" "unat sz \<le> SALLOC_MAX"
  shows "(\<forall>bs \<in> set hs. nothing_fits (units sz) bs)
      \<and> smalloc E sz \<lparr> s_initialized = True, s_mem = m \<rparr> = Some (NULL, \<lparr> s_initialized = True, s_mem = m \<rparr>)
    \<or> (\<exists>j X k d Y m'. chosen hs (units sz) 0 j X k d Y
        \<and> smalloc E sz \<lparr> s_initialized = True, s_mem = m \<rparr> = Some (blk (k + 1), \<lparr> s_initialized = True, s_mem = m' \<rparr>)
        \<and> heap E m' (hs[j := X @ taken_from k (units sz) d @ (d, True) # Y]))"
proof -
  have n: "0 < units sz" using units_ge(1) [OF assms(2)] by simp
  have run: "smalloc E sz \<lparr> s_initialized = True, s_mem = m \<rparr>
      = map_option (\<lambda>(p, m). (p, \<lparr> s_initialized = True, s_mem = m \<rparr>)) (smalloc_loop E sz 0 m)"
    by (simp add: smalloc_def s_ready_def)
  from malloc_loop [OF assms(1,2) act_size_request [OF assms(3)] n le0] show ?thesis
  proof (elim disjE exE conjE)
    assume none: "\<forall>j \<in> {0..<length hs}. nothing_fits (units sz) (hs ! j)" "smalloc_loop E sz 0 m = Some (NULL, m)"
    have "nothing_fits (units sz) bs" if "bs \<in> set hs" for bs using that none(1) by (auto simp: in_set_conv_nth)
    then show ?thesis using none(2) by (intro disjI1) (simp add: run)
  next
    fix j X k d Y m'
    assume c: "chosen hs (units sz) 0 j X k d Y" "smalloc_loop E sz 0 m = Some (blk (k + 1), m')"
      "region (s_be E) m' (X @ taken_from k (units sz) d @ (d, True) # Y)"
      "outside (insert d (fst ` set (taken_from k (units sz) d))) m m'"
    from heap_take_blocks(1) [OF assms(1) c(1,3,4)] c(1,2) show ?thesis
      by (intro disjI2 exI [of _ j] exI [of _ X] exI [of _ k] exI [of _ d] exI [of _ Y] exI [of _ m']) (simp add: run)
  qed
qed

text \<open>A heap of one region, as \<open>s_init\<close> leaves it.\<close>

definition ex_ram :: salloc_env where "ex_ram = platform_ram False [0x100] [0x200]"

lemma ex_ram_ok: "ram_ok ex_ram 1"
  using platform_ram_ok [of "[0x200]" "[0x100]" False] by (simp add: ex_ram_def)

lemma ex_heap: "\<exists>m. heap ex_ram m [[(32, True), (33, False), (63, True)]]"
proof -
  have "init_blocks ex_ram 0 = [(32, True), (33, False), (63, True)]"
    by (simp add: init_blocks_def ex_ram_def platform_ram_def platform_get_first_free_ram_def platform_get_last_free_ram_def
        MIN_ALIGN_def)
  then show ?thesis using init_loop [OF ex_ram_ok, of 0 "\<lambda>_. 0"] by auto
qed

lemma ex_chosen:
  "chosen [[(32, True), (33, False), (63, True)]] 4 0 j X k d Y \<Longrightarrow> j = 0 \<and> X = [(32, True)] \<and> k = 33 \<and> d = 63 \<and> Y = []"
  by (cases X; cases "tl X"; cases "tl (tl X)") (auto simp: chosen_def)

lemma ex_heap_taken: "\<exists>m. heap ex_ram m [[(32, True), (33, True), (37, False), (63, True)]]"
proof -
  obtain m where m: "heap ex_ram m [[(32, True), (33, False), (63, True)]]" using ex_heap by blast
  have act: "unat (s_act_size ((20 :: u32) + DYN_HEADER_SIZE)) = 8 * 4"
    using act_size_request [of 20] by (simp add: units_def)
  have no: "\<not> nothing_fits 4 [(32, True), (33, False), (63, True)]" by (simp add: nothing_fits_def fits_def)
  from malloc_loop [OF m _ act _ le0] no obtain j X k d Y m' where r:
    "chosen [[(32, True), (33, False), (63, True)]] 4 0 j X k d Y"
    "region (s_be ex_ram) m' (X @ taken_from k 4 d @ (d, True) # Y)"
    "outside (insert d (fst ` set (taken_from k 4 d))) m m'" by auto
  from heap_take_blocks(1) [OF m r] ex_chosen [OF r(1)] show ?thesis by (auto simp: taken_from_def)
qed

lemma smalloc_best_fit_witness:
  "\<exists>m m'. smalloc ex_ram 20 \<lparr> s_initialized = True, s_mem = m \<rparr> = Some (0x110, \<lparr> s_initialized = True, s_mem = m' \<rparr>)
    \<and> heap ex_ram m' [[(32, True), (33, True), (37, False), (63, True)]]"
proof -
  obtain m where m: "heap ex_ram m [[(32, True), (33, False), (63, True)]]" using ex_heap by blast
  have u: "units 20 = 4" by (simp add: units_def)
  have no: "\<not> nothing_fits 4 [(32, True), (33, False), (63, True)]" by (simp add: nothing_fits_def fits_def)
  from smalloc_best_fit [OF m, of 20, unfolded u] no obtain j X k d Y m' where r:
    "chosen [[(32, True), (33, False), (63, True)]] 4 0 j X k d Y"
    "smalloc ex_ram 20 \<lparr> s_initialized = True, s_mem = m \<rparr> = Some (blk (k + 1), \<lparr> s_initialized = True, s_mem = m' \<rparr>)"
    "heap ex_ram m' ([[(32, True), (33, False), (63, True)]][j := X @ taken_from k 4 d @ (d, True) # Y])" by auto
  with ex_chosen [OF r(1)] have "heap ex_ram m' [[(32, True), (33, True), (37, False), (63, True)]]" by (simp add: taken_from_def)
  moreover have "blk (33 + 1) = 0x110" by (simp add: blk_def)
  ultimately show ?thesis using r(2) ex_chosen [OF r(1)] by auto
qed

text \<open>
  C24: \<open>sfree\<close> gives a block back and joins it with the free space on both sides: afterwards the
  block is not live any more, the other live blocks still are, no two free blocks follow each
  other, and a region without live blocks is one free block again.
\<close>

theorem sfree_joins_free_space:
  assumes "heap E m hs" "(k, d) \<in> live hs"
  shows "\<exists>m' hs'. sfree E (blk (k + 1)) \<lparr> s_initialized = True, s_mem = m \<rparr> = Some \<lparr> s_initialized = True, s_mem = m' \<rparr>
    \<and> heap E m' hs' \<and> live hs' = live hs - {(k, d)}
    \<and> (\<forall>bs \<in> set hs'. sparse bs \<and> (lv bs = {} \<longrightarrow> length (filter (\<lambda>b. \<not> snd b) bs) \<le> 1))"
proof -
  from heap_free_blocks [OF assms] obtain m' hs' where f: "s_free_block (s_be E) (blk (k + 1)) m = Some m'" "heap E m' hs'"
    "live hs = insert (k, d) (live hs')" "\<And>x. (k, x) \<notin> live hs'" by blast
  have "k < d" "d < BLKS" using live_props [OF assms] by simp_all
  then have "blk (k + 1) \<noteq> NULL" using blk_eq_0 [of "k + 1"] by simp
  then have "sfree E (blk (k + 1)) \<lparr> s_initialized = True, s_mem = m \<rparr> = Some \<lparr> s_initialized = True, s_mem = m' \<rparr>"
    using f(1) by (simp add: sfree_def)
  moreover have "live hs' = live hs - {(k, d)}" using f(3, 4) by auto
  moreover have "block_list bs" if "bs \<in> set hs'" for bs
    using f(2) that by (auto simp: heap_def region_def in_set_conv_nth)
  then have "\<forall>bs \<in> set hs'. sparse bs \<and> (lv bs = {} \<longrightarrow> length (filter (\<lambda>b. \<not> snd b) bs) \<le> 1)"
    using one_free by (auto simp: block_list_def)
  ultimately show ?thesis using f(2) by blast
qed

lemma sfree_joins_free_space_witness:
  "\<exists>m m' bs. sfree ex_ram 0x110 \<lparr> s_initialized = True, s_mem = m \<rparr> = Some \<lparr> s_initialized = True, s_mem = m' \<rparr>
    \<and> heap ex_ram m [[(32, True), (33, True), (37, False), (63, True)]] \<and> heap ex_ram m' bs \<and> live bs = {}"
proof -
  obtain m where m: "heap ex_ram m [[(32, True), (33, True), (37, False), (63, True)]]"
    using ex_heap_taken by blast
  have l: "live [[(32, True), (33, True), (37, False), (63, True)]] = {(33, 37)}" by (auto simp: live_def lv_def)
  have b: "blk (33 + 1) = 0x110" by (simp add: blk_def)
  from sfree_joins_free_space [OF m, of 33 37] show ?thesis unfolding l b using m by auto
qed

text \<open>
  A request near 4 GB wraps: \<open>sz + DYN_HEADER_SIZE\<close> is a few bytes, so \<open>smalloc\<close> succeeds when any
  block is free, and hands out at most 8 bytes, mostly none.
\<close>

lemma smalloc_huge_request_wraps:
  assumes "heap E m hs" "4294967289 \<le> unat sz" "bs \<in> set hs" "\<not> nothing_fits 1 bs"
  shows "\<exists>k e m' hs'. smalloc E sz \<lparr> s_initialized = True, s_mem = m \<rparr> = Some (blk (k + 1), \<lparr> s_initialized = True, s_mem = m' \<rparr>)
    \<and> heap E m' hs' \<and> live hs' = insert (k, e) (live hs) \<and> 8 * (e - k) - 8 \<le> 8"
proof -
  have sz: "0 < sz" using assms(2) by (simp add: word_less_nat_alt)
  have "unat (sz + DYN_HEADER_SIZE) = (unat sz + 8) mod 4294967296"
    by (simp add: unat_word_ariths(1) DYN_HEADER_SIZE_def)
  also have "\<dots> = (unat sz + 8 - 4294967296) mod 4294967296"
    by (rule le_mod_geq) (use assms(2) in simp)
  also have "\<dots> = unat sz + 8 - 4294967296"
    by (rule mod_less) (use assms(2) unat_u32_less [of sz] in linarith)
  finally have x: "unat (sz + DYN_HEADER_SIZE) = unat sz + 8 - 4294967296" .
  moreover have "(y + 8 - 4294967296 + 7) div 8 = 1" if y: "4294967289 \<le> y" "y < 4294967296" for y :: nat
  proof -
    from le_Suc_ex [OF y(1)] obtain r where "y = 4294967289 + r" ..
    with y(2) show ?thesis by (intro div_nat_eqI) simp_all
  qed
  from this [OF assms(2) unat_u32_less] have "(unat sz + 8 - 4294967296 + 7) div 8 = 1" .
  ultimately have act: "unat (s_act_size (sz + DYN_HEADER_SIZE)) = 8 * 1"
    using act_size [of "sz + DYN_HEADER_SIZE"] by simp
  from malloc_loop [OF assms(1) sz act zero_less_one le0] show ?thesis
  proof (elim disjE exE conjE)
    assume "\<forall>j \<in> {0..<length hs}. nothing_fits 1 (hs ! j)"
    then show ?thesis using assms(3, 4) by (auto simp: in_set_conv_nth)
  next
    fix j X k d Y m'
    assume c: "chosen hs 1 0 j X k d Y" "smalloc_loop E sz 0 m = Some (blk (k + 1), m')"
      "region (s_be E) m' (X @ taken_from k 1 d @ (d, True) # Y)"
      "outside (insert d (fst ` set (taken_from k 1 d))) m m'"
    let ?e = "if 1 + 2 \<le> d - k then k + 1 else d"
    have "8 * x - 8 \<le> 8" if "\<not> 1 + 2 \<le> x" for x :: nat using that by simp
    then have "8 * (?e - k) - 8 \<le> 8" by simp
    with heap_take_blocks [OF assms(1) c(1,3,4)] c(2) show ?thesis
      by (intro exI [of _ k] exI [of _ ?e] exI [of _ m'] exI [of _ "hs[j := X @ taken_from k 1 d @ (d, True) # Y]"])
        (simp add: smalloc_def s_ready_def)
  qed
qed

lemma smalloc_huge_request_wraps_witness:
  "\<exists>m s p. heap ex_ram m [[(32, True), (33, False), (63, True)]]
    \<and> smalloc ex_ram 0xFFFFFFFF \<lparr> s_initialized = True, s_mem = m \<rparr> = Some (p, s)"
proof -
  obtain m where m: "heap ex_ram m [[(32, True), (33, False), (63, True)]]" using ex_heap by blast
  have "\<not> nothing_fits 1 [(32, True), (33, False), (63, True)]" by (simp add: nothing_fits_def fits_def)
  moreover have "4294967289 \<le> unat (0xFFFFFFFF :: u32)" by simp
  ultimately obtain k s where "smalloc ex_ram 0xFFFFFFFF \<lparr> s_initialized = True, s_mem = m \<rparr> = Some (blk (k + 1), s)"
    using smalloc_huge_request_wraps [OF m _ list.set_intros(1)] by blast
  with m show ?thesis by blast
qed

end
