(* ===== verification/EluaNet.thy ===== *)
theory EluaNet
  imports Prelude
begin

text \<open>
  \<open>src/elua_uip.c\<close>: the sockets that eLua builds on uIP. The main program prepares the state of a
  socket and waits, in a busy loop, for it to become idle; the application call \<open>elua_uip_appcall\<close>
  runs in the Ethernet interrupt, once for each event of uIP, and moves the data. An event carries
  the flags that the macros of \<open>uip.h\<close> test, the data and the segment size; what the handler asks
  of uIP (\<open>uip_stop\<close>, \<open>uip_send\<close>, ...) is a list of actions. A wait takes the events that arrive
  meanwhile as a list, and has the result \<open>None\<close> in its last component when it is not over yet.
  The whole result is \<open>None\<close> where C gives no meaning: a plain buffer used as a Lua buffer, or a
  copy of negative length.
\<close>

section \<open>State\<close>

datatype es_state = ES_IDLE | ES_SEND | ES_RECV | ES_RECV_2 | ES_CONNECT | ES_CLOSE

definition ELUA_NET_ERR_OK :: u8 where "ELUA_NET_ERR_OK = 0"
definition ELUA_NET_ERR_TIMEDOUT :: u8 where "ELUA_NET_ERR_TIMEDOUT = 1"
definition ELUA_NET_ERR_CLOSED :: u8 where "ELUA_NET_ERR_CLOSED = 2"
definition ELUA_NET_ERR_ABORTED :: u8 where "ELUA_NET_ERR_ABORTED = 3"
definition ELUA_NET_ERR_OVERFLOW :: u8 where "ELUA_NET_ERR_OVERFLOW = 4"
definition ELUA_NET_TELNET_PORT :: u16 where "ELUA_NET_TELNET_PORT = 23"
definition ELUA_NET_NO_LASTCHAR :: int where "ELUA_NET_NO_LASTCHAR = - 1"

text \<open>\<open>elua_net_size\<close> is 16 bits with a sign; \<open>s16\<close> is the conversion to it.\<close>

definition s16 :: "int \<Rightarrow> int" where "s16 x = sint (word_of_int x :: 16 word)"

record es =
  es_st :: es_state
  es_res :: u8
  es_ptr :: u32
  es_len :: int
  es_readto :: int

text \<open>The state of the connection as far as the sockets look at it.\<close>

datatype tcp_st = TCP_CLOSED | TCP_RESERVED | TCP_ACTIVE

text \<open>Lua buffers are named by their address.\<close>

record net =
  n_mem :: mem
  n_lbuf :: "u32 \<rightharpoonup> u8 list"
  n_es :: "nat \<Rightarrow> es"
  n_tcp :: "nat \<Rightarrow> tcp_st"
  n_configured :: bool
  n_telnet :: int
  n_acc_request :: bool
  n_acc_sock :: int
  n_acc_remote :: u32

record net_cfg =
  UIP_CONNS :: nat
  UIP_RECEIVE_WINDOW :: nat
  BUILD_CON_TCP :: bool
  char_signed :: bool

record net_ev =
  ne_sock :: nat
  ne_connected :: bool
  ne_aborted :: bool
  ne_timedout :: bool
  ne_closed :: bool
  ne_acked :: bool
  ne_rexmit :: bool
  ne_poll :: bool
  ne_newdata :: bool
  ne_data :: "u8 list"
  ne_behind :: u8     \<comment> \<open>the byte behind the data in the buffer of uIP\<close>
  ne_mss :: u16
  ne_lport :: u16
  ne_ripaddr :: u32

datatype uip_act = UIP_STOP | UIP_RESTART | UIP_CLOSE | UIP_SEND "u8 list"

definition upd_es :: "nat \<Rightarrow> (es \<Rightarrow> es) \<Rightarrow> net \<Rightarrow> net" where
  "upd_es k f N = N\<lparr> n_es := (n_es N)(k := f (n_es N k)) \<rparr>"

definition net_uip_send :: "mem \<Rightarrow> u32 \<Rightarrow> int \<Rightarrow> uip_act list" where
  "net_uip_send m p len = (if 0 < len then [UIP_SEND (mem_read m p (nat len))] else [])"

section \<open>TELNET\<close>

definition TELNET_IAC_CHAR :: u8 where "TELNET_IAC_CHAR = 255"
definition TELNET_IAC_3B_FIRST :: u8 where "TELNET_IAC_3B_FIRST = 251"
definition TELNET_IAC_3B_LAST :: u8 where "TELNET_IAC_3B_LAST = 254"
definition TELNET_EOF :: u8 where "TELNET_EOF = 236"
definition STD_CTRLZ_CODE :: u8 where "STD_CTRLZ_CODE = 26"
definition CH_CR :: u8 where "CH_CR = 13"
definition CH_LF :: u8 where "CH_LF = 10"

text \<open>What the loop stores, from the data, the byte behind them and the room in the buffer.\<close>

function telnet_loop :: "u8 \<Rightarrow> u8 list \<Rightarrow> nat \<Rightarrow> u8 list" where
  "telnet_loop b [] n = []"
| "telnet_loop b (x # xs) 0 = []"
| "telnet_loop b (x # xs) (Suc n) =
     (if x \<noteq> TELNET_IAC_CHAR then x # telnet_loop b xs n
      else
        let y = (case xs of [] \<Rightarrow> b | y # _ \<Rightarrow> y) in
        if TELNET_IAC_3B_FIRST \<le> y \<and> y \<le> TELNET_IAC_3B_LAST then telnet_loop b (drop 2 xs) (Suc n)
        else if y = TELNET_EOF then STD_CTRLZ_CODE # telnet_loop b (drop 1 xs) n
        else telnet_loop b (drop 1 xs) (Suc n))"
  by pat_completeness auto
termination by (relation "measure (\<lambda>(b, xs, n). length xs)") auto

definition elua_uip_telnet_handle_input :: "net_ev \<Rightarrow> nat \<Rightarrow> net \<Rightarrow> uip_act list \<times> net" where
  "elua_uip_telnet_handle_input e k N =
     (let s = n_es N k;
          out = telnet_loop (ne_behind e) (ne_data e) (nat (es_len s));
          N = upd_es k (\<lambda>s. s\<lparr> es_ptr := es_ptr s + of_nat (length out) \<rparr>) (N\<lparr> n_mem := mem_write (n_mem N) (es_ptr s) out \<rparr>)
      in if out \<noteq> [] then
           ([UIP_STOP], upd_es k (\<lambda>s. s\<lparr> es_res := ELUA_NET_ERR_OK, es_len := s16 (es_len s - int (length out)), es_st := ES_IDLE \<rparr>) N)
         else ([], N))"

definition elua_uip_telnet_prep_send :: "u8 list \<Rightarrow> u8 list" where
  "elua_uip_telnet_prep_send src = concat (map (\<lambda>c. if c = CH_LF then [CH_CR, c] else [c]) src)"

section \<open>The application call\<close>

text \<open>Sending: an acknowledgement moves on by a segment, then the next one (or the same again) goes out.\<close>

definition ap_send :: "net_cfg \<Rightarrow> net_ev \<Rightarrow> nat \<Rightarrow> net \<Rightarrow> uip_act list \<times> net" where
  "ap_send c e k N =
     (let N = (if ne_acked e then
                 upd_es k (\<lambda>s.
                   let minlen = min (es_len s) (uint (ne_mss e));
                       s = s\<lparr> es_len := s16 (es_len s - minlen), es_ptr := es_ptr s + word_of_int minlen \<rparr>
                   in if es_len s = 0 then s\<lparr> es_st := ES_IDLE \<rparr> else s) N
               else N);
          s = n_es N k
      in (if 0 < es_len s then
            if BUILD_CON_TCP c \<and> int k = n_telnet N
            then
              let out = elua_uip_telnet_prep_send (mem_read (n_mem N) (es_ptr s) (nat (es_len s)));
                  temp = s16 (int (length out))
              in (if 0 < temp then [UIP_SEND (take (nat temp) out)] else [])
            else net_uip_send (n_mem N) (es_ptr s) (min (es_len s) (uint (ne_mss e)))
          else [], N))"

definition luaL_addlstring :: "u32 \<Rightarrow> u8 list \<Rightarrow> net \<Rightarrow> net option" where
  "luaL_addlstring p bs N = (case n_lbuf N p of None \<Rightarrow> None | Some xs \<Rightarrow> Some (N\<lparr> n_lbuf := (n_lbuf N)(p \<mapsto> xs @ bs) \<rparr>))"

definition chr :: "net_cfg \<Rightarrow> u8 \<Rightarrow> int" where "chr c x = (if char_signed c then sint x else uint x)"

text \<open>The copy up to a character; the boolean is \<open>lastfound\<close>.\<close>

fun readto_loop :: "net_cfg \<Rightarrow> nat \<Rightarrow> u8 list \<Rightarrow> u32 \<Rightarrow> net \<Rightarrow> (bool \<times> net) option" where
  "readto_loop c k [] dest N = Some (False, N)"
| "readto_loop c k (x # xs) dest N =
     (if chr c x = es_readto (n_es N k) then Some (True, N)
      else if x = CH_CR then readto_loop c k xs dest N
      else
        case (if es_res (n_es N k) \<noteq> 0 then luaL_addlstring (es_ptr (n_es N k)) [x] N
              else Some (N\<lparr> n_mem := (n_mem N)(dest := x) \<rparr>)) of
          None \<Rightarrow> None
        | Some N' \<Rightarrow>
            readto_loop c k xs (if es_res (n_es N k) \<noteq> 0 then dest else dest + 1)
              (upd_es k (\<lambda>s. s\<lparr> es_len := s16 (es_len s - 1) \<rparr>) N'))"

definition ap_store :: "nat \<Rightarrow> u8 list \<Rightarrow> int \<Rightarrow> net \<Rightarrow> net option" where
  "ap_store k bs temp N =
     (let s = n_es N k in
      if temp < 0 then None
      else
        map_option (upd_es k (\<lambda>s. s\<lparr> es_len := s16 (es_len s - temp) \<rparr>))
          (if es_res s \<noteq> 0 then luaL_addlstring (es_ptr s) (take (nat temp) bs) N
           else Some (N\<lparr> n_mem := mem_write (n_mem N) (es_ptr s) (take (nat temp) bs) \<rparr>)))"

definition ap_receive :: "net_cfg \<Rightarrow> net_ev \<Rightarrow> nat \<Rightarrow> net \<Rightarrow> (uip_act list \<times> net) option" where
  "ap_receive c e k N =
     (let datalen = int (length (ne_data e));
          lastfound = (datalen < int (UIP_RECEIVE_WINDOW c));
          over = (es_len (n_es N k) < datalen);
          temp = (if over then es_len (n_es N k) else datalen);
          N = (if over then upd_es k (\<lambda>s. s\<lparr> es_res := ELUA_NET_ERR_OVERFLOW \<rparr>) N else N)
      in case (if es_readto (n_es N k) \<noteq> ELUA_NET_NO_LASTCHAR
               then readto_loop c k (take (nat temp) (ne_data e)) (es_ptr (n_es N k)) N
               else map_option (\<lambda>N. (False, N)) (ap_store k (ne_data e) temp N)) of
           None \<Rightarrow> None
         | Some (found, N) \<Rightarrow>
             Some (if es_len (n_es N k) = 0 \<or> lastfound \<or> found
                   then ([UIP_STOP], upd_es k (\<lambda>s. s\<lparr> es_res := ELUA_NET_ERR_OK, es_st := ES_IDLE \<rparr>) N)
                   else ([], N)))"

definition ap_connected :: "net_cfg \<Rightarrow> net_ev \<Rightarrow> nat \<Rightarrow> net \<Rightarrow> uip_act list \<times> net" where
  "ap_connected c e k N =
     (if BUILD_CON_TCP c \<and> ne_lport e = ELUA_NET_TELNET_PORT then
        if n_telnet N \<noteq> - 1 then ([UIP_CLOSE], N) else ([UIP_STOP], N\<lparr> n_telnet := int k \<rparr>)
      else if n_acc_request N then
        ([UIP_STOP], N\<lparr> n_acc_sock := int k, n_acc_remote := ne_ripaddr e, n_acc_request := False \<rparr>)
      else if es_st (n_es N k) = ES_CONNECT then ([UIP_STOP], upd_es k (\<lambda>s. s\<lparr> es_st := ES_IDLE \<rparr>) N)
      else ([UIP_STOP], N))"

definition ap_error :: "net_cfg \<Rightarrow> net_ev \<Rightarrow> nat \<Rightarrow> net \<Rightarrow> net" where
  "ap_error c e k N =
     (let res = (if ne_aborted e then ELUA_NET_ERR_ABORTED
                 else if ne_timedout e then ELUA_NET_ERR_TIMEDOUT else ELUA_NET_ERR_CLOSED);
          N = (if BUILD_CON_TCP c \<and> int k = n_telnet N then N\<lparr> n_telnet := - 1 \<rparr> else N)
      in upd_es k (\<lambda>s. s\<lparr> es_res := res, es_st := ES_IDLE \<rparr>) N)"

definition elua_uip_appcall :: "net_cfg \<Rightarrow> net_ev \<Rightarrow> net \<Rightarrow> (uip_act list \<times> net) option" where
  "elua_uip_appcall c e N =
     (let k = ne_sock e; st = es_st (n_es N k) in
      if \<not> n_configured N then Some ([], N)
      else if ne_connected e then Some (ap_connected c e k N)
      else if st = ES_IDLE then Some ([], N)
      else if st = ES_RECV then Some ([UIP_RESTART], upd_es k (\<lambda>s. s\<lparr> es_st := ES_RECV_2 \<rparr>) N)
      else if ne_aborted e \<or> ne_timedout e \<or> ne_closed e then Some ([], ap_error c e k N)
      else if (ne_acked e \<or> ne_rexmit e \<or> ne_poll e) \<and> st = ES_SEND then Some (ap_send c e k N)
      else if st = ES_CLOSE then Some ([UIP_CLOSE], upd_es k (\<lambda>s. s\<lparr> es_st := ES_IDLE \<rparr>) N)
      else if ne_newdata e then
        if st = ES_RECV_2 then
          if BUILD_CON_TCP c \<and> int k = n_telnet N then Some (elua_uip_telnet_handle_input e k N)
          else ap_receive c e k N
        else Some ([UIP_STOP], N)
      else Some ([], N))"

section \<open>Waiting\<close>

text \<open>
  The events that the interrupt handler sees while the main program waits for a socket to become
  idle. The last component of the result are the events after the wait, if it is over.
\<close>

type_synonym outs = "(nat \<times> uip_act list) list"

fun wait_idle :: "net_cfg \<Rightarrow> nat \<Rightarrow> net_ev list \<Rightarrow> net \<Rightarrow> (outs \<times> net \<times> net_ev list option) option" where
  "wait_idle c s [] N = Some ([], N, if es_st (n_es N s) = ES_IDLE then Some [] else None)"
| "wait_idle c s (e # es) N =
     (if es_st (n_es N s) = ES_IDLE then Some ([], N, Some (e # es))
      else
        case elua_uip_appcall c e N of
          None \<Rightarrow> None
        | Some (as, N) \<Rightarrow> map_option (\<lambda>(os, N, r). ((ne_sock e, as) # os, N, r)) (wait_idle c s es N))"

fun run_events :: "net_cfg \<Rightarrow> net_ev list \<Rightarrow> net \<Rightarrow> (outs \<times> net) option" where
  "run_events c [] N = Some ([], N)"
| "run_events c (e # es) N =
     (case elua_uip_appcall c e N of
        None \<Rightarrow> None
      | Some (as, N) \<Rightarrow> map_option (\<lambda>(os, N). ((ne_sock e, as) # os, N)) (run_events c es N))"

text \<open>
  A turn of a loop with a timeout: the events before the test of the state, the time that the timer
  shows, and the events between its test and what follows.
\<close>

record turn =
  tn_before :: "net_ev list"
  tn_diff :: nat
  tn_between :: "net_ev list"

section \<open>The services\<close>

definition sock_ok :: "net_cfg \<Rightarrow> int \<Rightarrow> net \<Rightarrow> bool" where
  "sock_ok c s N \<longleftrightarrow> n_configured N \<and> 0 \<le> s \<and> s < int (UIP_CONNS c)"

definition elua_prep_socket_state :: "nat \<Rightarrow> u32 \<Rightarrow> int \<Rightarrow> int \<Rightarrow> u8 \<Rightarrow> es_state \<Rightarrow> net \<Rightarrow> net" where
  "elua_prep_socket_state k buf len readto res st =
     upd_es k (\<lambda>s. \<lparr> es_st = st, es_res = res, es_ptr = buf, es_len = len, es_readto = readto \<rparr>)"

definition elua_net_socket :: "net_cfg \<Rightarrow> bool \<Rightarrow> net \<Rightarrow> int \<times> net" where
  "elua_net_socket c dgram N =
     (if dgram then (- 1, N)
      else
        case find (\<lambda>i. n_tcp N i = TCP_CLOSED) [0..<UIP_CONNS c] of
          None \<Rightarrow> (- 1, N)
        | Some i \<Rightarrow> (int i, N\<lparr> n_tcp := (n_tcp N)(i := TCP_RESERVED) \<rparr>))"

text \<open>Results of a service: the actions, the state, and the value with the events left, if it returns.\<close>

type_synonym 'v served = "(outs \<times> net \<times> ('v \<times> net_ev list) option) option"

definition elua_net_send :: "net_cfg \<Rightarrow> int \<Rightarrow> u32 \<Rightarrow> int \<Rightarrow> net_ev list \<Rightarrow> net \<Rightarrow> int served" where
  "elua_net_send c s buf len es N =
     (if \<not> sock_ok c s N \<or> n_tcp N (nat s) \<noteq> TCP_ACTIVE then Some ([], N, Some (- 1, es))
      else if len = 0 then Some ([], N, Some (0, es))
      else
        map_option (\<lambda>(os, N, r). (os, N, map_option (\<lambda>es. (s16 (len - es_len (n_es N (nat s))), es)) r))
          (wait_idle c (nat s) es
            (elua_prep_socket_state (nat s) buf len ELUA_NET_NO_LASTCHAR ELUA_NET_ERR_OK ES_SEND N)))"

text \<open>The loop of a receive. Without a timeout (\<open>to_us = 0\<close>) the timer is not read.\<close>

fun recv_loop :: "net_cfg \<Rightarrow> nat \<Rightarrow> nat \<Rightarrow> turn list \<Rightarrow> net \<Rightarrow> (outs \<times> net \<times> turn list option) option" where
  "recv_loop c k to_us [] N = Some ([], N, None)"
| "recv_loop c k to_us (t # ts) N =
     (case run_events c (tn_before t) N of
        None \<Rightarrow> None
      | Some (os, N) \<Rightarrow>
          if es_st (n_es N k) = ES_IDLE then Some (os, N, Some ts)
          else
            case run_events c (tn_between t) N of
              None \<Rightarrow> None
            | Some (os', N) \<Rightarrow>
                if 0 < to_us \<and> to_us \<le> tn_diff t then
                  Some (os @ os',
                    (if es_st (n_es N k) \<noteq> ES_IDLE
                     then upd_es k (\<lambda>s. s\<lparr> es_res := ELUA_NET_ERR_TIMEDOUT, es_st := ES_IDLE \<rparr>) N else N), Some ts)
                else map_option (\<lambda>(os2, N, r). (os @ os' @ os2, N, r)) (recv_loop c k to_us ts N))"

definition elua_net_recv_internal ::
    "net_cfg \<Rightarrow> int \<Rightarrow> u32 \<Rightarrow> int \<Rightarrow> int \<Rightarrow> nat \<Rightarrow> bool \<Rightarrow> turn list \<Rightarrow> net
      \<Rightarrow> (outs \<times> net \<times> (int \<times> turn list) option) option" where
  "elua_net_recv_internal c s buf maxsize readto to_us with_buffer ts N =
     (if \<not> sock_ok c s N \<or> n_tcp N (nat s) \<noteq> TCP_ACTIVE then Some ([], N, Some (- 1, ts))
      else if maxsize = 0 then Some ([], N, Some (0, ts))
      else
        map_option (\<lambda>(os, N, r). (os, N, map_option (\<lambda>ts. (s16 (maxsize - es_len (n_es N (nat s))), ts)) r))
          (recv_loop c (nat s) to_us ts
            (elua_prep_socket_state (nat s) buf maxsize readto (if with_buffer then 1 else 0) ES_RECV N)))"

definition elua_net_recv ::
    "net_cfg \<Rightarrow> int \<Rightarrow> u32 \<Rightarrow> int \<Rightarrow> int \<Rightarrow> nat \<Rightarrow> turn list \<Rightarrow> net \<Rightarrow> (outs \<times> net \<times> (int \<times> turn list) option) option" where
  "elua_net_recv c s buf maxsize readto to_us = elua_net_recv_internal c s buf maxsize readto to_us False"

definition elua_net_recvbuf ::
    "net_cfg \<Rightarrow> int \<Rightarrow> u32 \<Rightarrow> int \<Rightarrow> int \<Rightarrow> nat \<Rightarrow> turn list \<Rightarrow> net \<Rightarrow> (outs \<times> net \<times> (int \<times> turn list) option) option" where
  "elua_net_recvbuf c s buf maxsize readto to_us = elua_net_recv_internal c s buf maxsize readto to_us True"

definition elua_net_get_telnet_socket :: "net_cfg \<Rightarrow> net \<Rightarrow> int" where
  "elua_net_get_telnet_socket c N =
     (if BUILD_CON_TCP c \<and> n_telnet N \<noteq> - 1 \<and> n_tcp N (nat (n_telnet N)) = TCP_ACTIVE then n_telnet N else - 1)"

definition elua_net_close :: "net_cfg \<Rightarrow> int \<Rightarrow> net_ev list \<Rightarrow> net \<Rightarrow> int served" where
  "elua_net_close c s es N =
     (if \<not> sock_ok c s N \<or> n_tcp N (nat s) \<noteq> TCP_ACTIVE then Some ([], N, Some (- 1, es))
      else
        map_option (\<lambda>(os, N, r). (os, N,
            map_option (\<lambda>es. (if es_res (n_es N (nat s)) = ELUA_NET_ERR_OK then 0 else - 1, es)) r))
          (wait_idle c (nat s) es
            (elua_prep_socket_state (nat s) NULL 0 ELUA_NET_NO_LASTCHAR ELUA_NET_ERR_OK ES_CLOSE N)))"

definition elua_net_get_last_err :: "net_cfg \<Rightarrow> int \<Rightarrow> net \<Rightarrow> int" where
  "elua_net_get_last_err c s N = (if \<not> sock_ok c s N then - 1 else uint (es_res (n_es N (nat s))))"

text \<open>The list of ports that uIP listens on is part of uIP; \<open>elua_accept\<close> renews the port in it.\<close>

fun accept_loop :: "net_cfg \<Rightarrow> nat \<Rightarrow> turn list \<Rightarrow> net \<Rightarrow> (outs \<times> net \<times> turn list option) option" where
  "accept_loop c to_us [] N = Some ([], N, None)"
| "accept_loop c to_us (t # ts) N =
     (case run_events c (tn_before t) N of
        None \<Rightarrow> None
      | Some (os, N) \<Rightarrow>
          if \<not> n_acc_request N then Some (os, N, Some ts)
          else
            case run_events c (tn_between t) N of
              None \<Rightarrow> None
            | Some (os', N) \<Rightarrow>
                if 0 < to_us \<and> to_us \<le> tn_diff t then Some (os @ os', N\<lparr> n_acc_request := False \<rparr>, Some ts)
                else map_option (\<lambda>(os2, N, r). (os @ os' @ os2, N, r)) (accept_loop c to_us ts N))"

definition elua_accept ::
    "net_cfg \<Rightarrow> u16 \<Rightarrow> nat \<Rightarrow> turn list \<Rightarrow> net \<Rightarrow> (outs \<times> net \<times> ((int \<times> u32 option) \<times> turn list) option) option" where
  "elua_accept c port to_us ts N =
     (if \<not> n_configured N \<or> BUILD_CON_TCP c \<and> port = ELUA_NET_TELNET_PORT then Some ([], N, Some ((- 1, None), ts))
      else
        map_option (\<lambda>(os, N, r). (os, N, map_option (\<lambda>ts. ((n_acc_sock N, Some (n_acc_remote N)), ts)) r))
          (accept_loop c to_us ts (N\<lparr> n_acc_sock := - 1, n_acc_request := True \<rparr>)))"

text \<open>\<open>uip_connect_socket\<close> succeeds for the reserved socket and opens it.\<close>

definition elua_net_connect :: "net_cfg \<Rightarrow> int \<Rightarrow> net_ev list \<Rightarrow> net \<Rightarrow> int served" where
  "elua_net_connect c s es N =
     (if \<not> sock_ok c s N \<or> n_tcp N (nat s) \<noteq> TCP_RESERVED then Some ([], N, Some (- 1, es))
      else
        map_option (\<lambda>(os, N, r). (os, N,
            map_option (\<lambda>es. (if es_res (n_es N (nat s)) = ELUA_NET_ERR_OK then 0 else - 1, es)) r))
          (wait_idle c (nat s) es
            ((elua_prep_socket_state (nat s) NULL 0 ELUA_NET_NO_LASTCHAR ELUA_NET_ERR_OK ES_CONNECT N)
              \<lparr> n_tcp := (n_tcp N)(nat s := TCP_ACTIVE) \<rparr>)))"

section \<open>Sending\<close>

text \<open>
  The abstract sender: the data are cut into segments; an acknowledgement drops the first segment,
  and every event then sends the segment that is first, new or again.
\<close>

function segments :: "nat \<Rightarrow> 'a list \<Rightarrow> 'a list list" where
  "segments m xs = (if m = 0 \<or> xs = [] then [] else take m xs # segments m (drop m xs))"
  by pat_completeness auto
termination by (relation "measure (\<lambda>(m, xs). length xs)") auto

declare segments.simps [simp del]

fun send_outs :: "u8 list list \<Rightarrow> net_ev list \<Rightarrow> uip_act list list" where
  "send_outs [] es = []"
| "send_outs (x # xs) [] = []"
| "send_outs (x # xs) (e # es) =
     (let xs' = (if ne_acked e then xs else x # xs) in
      (case xs' of [] \<Rightarrow> [] | y # _ \<Rightarrow> [UIP_SEND y]) # send_outs xs' es)"

fun after_acks :: "nat \<Rightarrow> net_ev list \<Rightarrow> net_ev list option" where
  "after_acks 0 es = Some es"
| "after_acks (Suc n) [] = None"
| "after_acks (Suc n) (e # es) = after_acks (if ne_acked e then n else Suc n) es"

definition send_event :: "nat \<Rightarrow> u16 \<Rightarrow> net_ev \<Rightarrow> bool" where
  "send_event k m e \<longleftrightarrow> ne_sock e = k \<and> ne_mss e = m \<and> \<not> ne_connected e \<and> \<not> ne_aborted e \<and> \<not> ne_timedout e \<and>
     \<not> ne_closed e \<and> (ne_acked e \<or> ne_rexmit e \<or> ne_poll e)"

lemma s16_small: "- 32768 \<le> x \<Longrightarrow> x < 32768 \<Longrightarrow> s16 x = x"
  unfolding s16_def by (simp add: sint_sbintrunc' signed_take_bit_int_eq_self)

lemma upd_es_simps [simp]:
  "n_es (upd_es k f N) j = (if j = k then f (n_es N k) else n_es N j)"
  "n_mem (upd_es k f N) = n_mem N" "n_lbuf (upd_es k f N) = n_lbuf N" "n_tcp (upd_es k f N) = n_tcp N"
  "n_configured (upd_es k f N) = n_configured N" "n_telnet (upd_es k f N) = n_telnet N"
  "n_acc_request (upd_es k f N) = n_acc_request N" "n_acc_sock (upd_es k f N) = n_acc_sock N"
  "n_acc_remote (upd_es k f N) = n_acc_remote N"
  by (simp_all add: upd_es_def)

lemma concat_segments: "0 < m \<Longrightarrow> concat (segments m xs) = xs"
  by (induction m xs rule: segments.induct) (subst segments.simps, simp)

lemma segments_empty [simp]: "segments m [] = []"
  by (simp add: segments.simps)


lemma mem_read_Nil [simp]: "mem_read m p n = [] \<longleftrightarrow> n = 0"
  by (cases n) auto

lemma uint16_pos: "0 < uint (m :: u16) \<longleftrightarrow> m \<noteq> 0"
proof -
  have "uint m = int (unat m)" by simp
  then show ?thesis using unat_gt_0 [of m] by linarith
qed

lemma acked_rest:
  fixes m :: u16
  assumes "0 < l" "l < 32768"
  shows "s16 (l - min l (uint m)) = l - min l (uint m)"
proof -
  have "0 \<le> uint m" by simp
  then have "0 \<le> l - min l (uint m)" "l - min l (uint m) < 32768" using assms by linarith+
  then show ?thesis using s16_small [of "l - min l (uint m)"] by linarith
qed

text \<open>What remains behind the first segment is again a run of the memory.\<close>

lemma segments_run:
  assumes "0 < n" "0 < m"
  shows "segments m (mem_read M p n) =
    mem_read M p (min n m) # segments m (mem_read M (p + of_nat (min n m)) (n - min n m))"
proof -
  have "drop m (mem_read M p n) = mem_read M (p + of_nat (min n m)) (n - min n m)"
    by (cases "m \<le> n") (simp_all add: drop_mem_read)
  then show ?thesis using assms by (subst segments.simps) (simp add: take_mem_read min.commute)
qed

lemma segments_mem:
  fixes m :: u16
  assumes "0 < l" "m \<noteq> 0"
  shows "segments (unat m) (mem_read M p (nat l)) =
    mem_read M p (nat (min l (uint m)))
      # segments (unat m) (mem_read M (p + word_of_int (min l (uint m))) (nat (l - min l (uint m))))"
proof -
  have u: "uint m = int (unat m)" by simp
  have "nat (min l (uint m)) = min (nat l) (unat m)" unfolding u by linarith
  moreover have "word_of_int (min l (uint m)) = (of_nat (min (nat l) (unat m)) :: u32)"
  proof -
    have "min l (uint m) = int (min (nat l) (unat m))" unfolding u using assms(1) by linarith
    then show ?thesis by (simp only: of_int_of_nat_eq)
  qed
  moreover have "nat (l - min l (uint m)) = nat l - min (nat l) (unat m)" unfolding u using assms(1) by linarith
  moreover have "0 < unat m" using assms(2) by (simp add: unat_gt_0)
  ultimately show ?thesis using segments_run [of "nat l" "unat m" M p] assms(1) by simp
qed

definition acked_es :: "u16 \<Rightarrow> es \<Rightarrow> es" where
  "acked_es m s = (let l = min (es_len s) (uint m);
         s' = s\<lparr> es_len := es_len s - l, es_ptr := es_ptr s + word_of_int l \<rparr>
     in if es_len s = l then s'\<lparr> es_st := ES_IDLE \<rparr> else s')"

lemma appcall_send:
  assumes "n_configured N" "es_st (n_es N k) = ES_SEND" "0 < es_len (n_es N k)" "es_len (n_es N k) < 32768"
    and "\<not> (BUILD_CON_TCP c \<and> int k = n_telnet N)" "send_event k m e"
  defines "N1 \<equiv> (if ne_acked e then upd_es k (acked_es m) N else N)"
  shows "elua_uip_appcall c e N =
    Some (if 0 < es_len (n_es N1 k)
          then net_uip_send (n_mem N) (es_ptr (n_es N1 k)) (min (es_len (n_es N1 k)) (uint m)) else [], N1)"
proof -
  have r: "s16 (es_len (n_es N k) - min (es_len (n_es N k)) (uint m)) = es_len (n_es N k) - min (es_len (n_es N k)) (uint m)"
    using acked_rest [OF assms(3,4)] .
  have "upd_es k (\<lambda>s. let minlen = min (es_len s) (uint m);
                   s = s\<lparr> es_len := s16 (es_len s - minlen), es_ptr := es_ptr s + word_of_int minlen \<rparr>
               in if es_len s = 0 then s\<lparr> es_st := ES_IDLE \<rparr> else s) N = upd_es k (acked_es m) N"
    unfolding upd_es_def acked_es_def Let_def r using assms(2) by simp
  with assms show ?thesis
    by (auto simp: elua_uip_appcall_def ap_send_def send_event_def Let_def)
qed

lemma wait_send:
  assumes "n_configured N" "es_st (n_es N k) = ES_SEND" "0 < es_len (n_es N k)" "es_len (n_es N k) < 32768"
    and "m \<noteq> 0" "\<not> (BUILD_CON_TCP c \<and> int k = n_telnet N)" "\<forall>e\<in>set es. send_event k m e"
    and "segs = segments (unat m) (mem_read (n_mem N) (es_ptr (n_es N k)) (nat (es_len (n_es N k))))"
  shows "\<exists>N'. wait_idle c k es N = Some (map (Pair k) (send_outs segs es), N', after_acks (length segs) es)
    \<and> n_mem N' = n_mem N \<and> (after_acks (length segs) es \<noteq> None \<longrightarrow> es_len (n_es N' k) = 0 \<and> es_res (n_es N' k) = es_res (n_es N k))"
  using assms
proof (induction es arbitrary: N segs)
  case Nil
  then show ?case by (simp add: segments_mem)
next
  case (Cons e es)
  have e: "send_event k m e" "ne_sock e = k" and es: "\<forall>e\<in>set es. send_event k m e"
    using Cons.prems(7) by (auto simp: send_event_def)
  let ?s = "n_es N k"
  let ?l = "min (es_len ?s) (uint m)"
  let ?seg = "mem_read (n_mem N) (es_ptr ?s) (nat ?l)"
  have m: "0 < uint m" using Cons.prems(5) by (simp add: uint16_pos)
  then have l: "0 < ?l" using Cons.prems(3) by simp
  note app = appcall_send [OF Cons.prems(1,2,3,4,6) e(1)]
  note segs = segments_mem [OF Cons.prems(3,5)]
  show ?case
  proof (cases "ne_acked e")
    case False
    then have app: "elua_uip_appcall c e N = Some ([UIP_SEND ?seg], N)"
      using app Cons.prems(3) l by (simp add: net_uip_send_def)
    show ?thesis
      using Cons.IH [OF Cons.prems(1-6) es] Cons.prems(2) False unfolding Cons.prems(8)
      by (auto simp: app segs e)
  next
    case True
    define N1 where "N1 = upd_es k (acked_es m) N"
    show ?thesis
    proof (cases "es_len ?s \<le> uint m")
      case le: True
      have len0: "es_len (n_es N1 k) = 0" "es_st (n_es N1 k) = ES_IDLE" "es_res (n_es N1 k) = es_res ?s" "n_mem N1 = n_mem N"
        using le by (simp_all add: N1_def acked_es_def Let_def)
      have "elua_uip_appcall c e N = Some ([], N1)" using app True len0 by (simp add: N1_def)
      moreover have "wait_idle c k es N1 = Some ([], N1, Some es)" using len0 by (cases es) simp_all
      ultimately show ?thesis using Cons.prems(2) True le len0 unfolding Cons.prems(8)
        by (simp add: segs e)
    next
      case gt: False
      let ?n = "es_len ?s - ?l"
      have s1: "es_len (n_es N1 k) = ?n" "es_st (n_es N1 k) = ES_SEND" "es_res (n_es N1 k) = es_res ?s"
          "es_ptr (n_es N1 k) = es_ptr ?s + word_of_int ?l" "n_mem N1 = n_mem N" "n_configured N1" "n_telnet N1 = n_telnet N"
        using gt Cons.prems(1,2) by (simp_all add: N1_def acked_es_def Let_def)
      have n: "0 < ?n" "?n < 32768" using gt m Cons.prems(4) by auto
      have "elua_uip_appcall c e N =
          Some ([UIP_SEND (mem_read (n_mem N1) (es_ptr (n_es N1 k)) (nat (min ?n (uint m))))], N1)"
        using app True n m s1 by (simp add: N1_def [symmetric] net_uip_send_def)
      moreover obtain y ys where ys: "segments (unat m) (mem_read (n_mem N1) (es_ptr (n_es N1 k)) (nat ?n)) = y # ys"
        and y: "y = mem_read (n_mem N1) (es_ptr (n_es N1 k)) (nat (min ?n (uint m)))"
        using segments_mem [OF n(1) Cons.prems(5)] by metis
      moreover have pre: "0 < es_len (n_es N1 k)" "es_len (n_es N1 k) < 32768" "\<not> (BUILD_CON_TCP c \<and> int k = n_telnet N1)"
        "y # ys = segments (unat m) (mem_read (n_mem N1) (es_ptr (n_es N1 k)) (nat (es_len (n_es N1 k))))"
        using n Cons.prems(6) unfolding s1(1,7) ys by simp_all
      from Cons.IH [OF s1(6,2) pre(1,2) Cons.prems(5) pre(3) es pre(4)]
      obtain N' where "wait_idle c k es N1 = Some (map (Pair k) (send_outs (y # ys) es), N', after_acks (length (y # ys)) es)"
        "n_mem N' = n_mem N1"
        "after_acks (length (y # ys)) es \<noteq> None \<longrightarrow> es_len (n_es N' k) = 0 \<and> es_res (n_es N' k) = es_res (n_es N1 k)"
        by blast
      moreover have "segs = ?seg # y # ys" unfolding Cons.prems(8) segs using s1 ys by simp
      ultimately show ?thesis using Cons.prems(2) True s1(3,5) e(2) by simp
    qed
  qed
qed

text \<open>
  A wait for the data to be sent is the abstract sender: the segments go out in order, each again
  until it is acknowledged, and \<open>elua_net_send\<close> returns the length when the last one is.
\<close>

lemma elua_net_send_refines:
  fixes buf :: u32
  assumes "sock_ok c (int k) N" "n_tcp N k = TCP_ACTIVE" "0 < len" "len < 32768" "m \<noteq> 0"
    and "\<not> (BUILD_CON_TCP c \<and> int k = n_telnet N)" "\<forall>e\<in>set es. send_event k m e"
  defines "segs \<equiv> segments (unat m) (mem_read (n_mem N) buf (nat len))"
  shows "\<exists>N'. elua_net_send c (int k) buf len es N =
      Some (map (Pair k) (send_outs segs es), N', map_option (Pair len) (after_acks (length segs) es))
    \<and> n_mem N' = n_mem N \<and> (after_acks (length segs) es \<noteq> None \<longrightarrow> es_res (n_es N' k) = ELUA_NET_ERR_OK)"
proof -
  define N0 where "N0 = elua_prep_socket_state k buf len ELUA_NET_NO_LASTCHAR ELUA_NET_ERR_OK ES_SEND N"
  have N0: "n_configured N0" "es_st (n_es N0 k) = ES_SEND" "es_len (n_es N0 k) = len" "es_ptr (n_es N0 k) = buf"
      "es_res (n_es N0 k) = ELUA_NET_ERR_OK" "n_mem N0 = n_mem N" "n_telnet N0 = n_telnet N"
    using assms(1) by (simp_all add: N0_def elua_prep_socket_state_def sock_ok_def)
  obtain N' where N': "wait_idle c k es N0 = Some (map (Pair k) (send_outs segs es), N', after_acks (length segs) es)"
      "n_mem N' = n_mem N0" "after_acks (length segs) es \<noteq> None \<longrightarrow> es_len (n_es N' k) = 0 \<and> es_res (n_es N' k) = es_res (n_es N0 k)"
    using wait_send [OF N0(1,2) _ _ assms(5) _ assms(7), of c segs] assms(3,4,6) N0 unfolding segs_def by auto
  then show ?thesis using assms(1-3) N0
    by (cases "after_acks (length segs) es") (simp_all add: elua_net_send_def N0_def [symmetric] s16_small assms(4))
qed

section \<open>Receiving\<close>

text \<open>
  What a read makes of the packets: up to the room and to the end character, without carriage
  returns if there is an end character; a packet shorter than the window is the last one.
\<close>

definition recv_text :: "net_cfg \<Rightarrow> int \<Rightarrow> nat \<Rightarrow> u8 list \<Rightarrow> u8 list" where
  "recv_text c r room d =
     (if r = ELUA_NET_NO_LASTCHAR then take room d
      else filter (\<lambda>x. x \<noteq> CH_CR) (takeWhile (\<lambda>x. chr c x \<noteq> r) (take room d)))"

definition recv_ends :: "net_cfg \<Rightarrow> int \<Rightarrow> nat \<Rightarrow> u8 list \<Rightarrow> bool" where
  "recv_ends c r room d \<longleftrightarrow> length (recv_text c r room d) = room \<or> length d < UIP_RECEIVE_WINDOW c \<or>
     r \<noteq> ELUA_NET_NO_LASTCHAR \<and> (\<exists>x\<in>set (take room d). chr c x = r)"

fun received :: "net_cfg \<Rightarrow> int \<Rightarrow> nat \<Rightarrow> u8 list list \<Rightarrow> u8 list \<times> bool" where
  "received c r room [] = ([], False)"
| "received c r room (d # ds) =
     (let t = recv_text c r room d in
      if recv_ends c r room d then (t, True)
      else case received c r (room - length t) ds of (u, b) \<Rightarrow> (t @ u, b))"

definition recv_event :: "nat \<Rightarrow> net_ev \<Rightarrow> bool" where
  "recv_event k e \<longleftrightarrow> ne_sock e = k \<and> \<not> ne_connected e \<and> \<not> ne_aborted e \<and> \<not> ne_timedout e \<and> \<not> ne_closed e"

text \<open>A socket that reads into a Lua buffer which holds \<open>xs\<close>.\<close>

definition reading :: "net_cfg \<Rightarrow> nat \<Rightarrow> u32 \<Rightarrow> int \<Rightarrow> nat \<Rightarrow> u8 list \<Rightarrow> net \<Rightarrow> bool" where
  "reading c k p r room xs N \<longleftrightarrow> n_configured N \<and> \<not> (BUILD_CON_TCP c \<and> int k = n_telnet N) \<and>
     es_ptr (n_es N k) = p \<and> es_readto (n_es N k) = r \<and> es_len (n_es N k) = int room \<and> room < 32768 \<and>
     n_lbuf N p = Some xs"

lemma readto_loop_buffer:
  assumes "es_res (n_es N k) \<noteq> 0" "reading c k p r room xs N" "length ds \<le> room" "r \<noteq> ELUA_NET_NO_LASTCHAR"
  shows "\<exists>N'. readto_loop c k ds dest N = Some ((\<exists>x\<in>set ds. chr c x = r), N') \<and>
    reading c k p r (room - length (recv_text c r (length ds) ds)) (xs @ recv_text c r (length ds) ds) N' \<and>
    es_res (n_es N' k) \<noteq> 0 \<and> es_st (n_es N' k) = es_st (n_es N k)"
  using assms
proof (induction ds arbitrary: N room xs dest)
  case Nil
  then show ?case by (simp add: recv_text_def)
next
  case (Cons x ds)
  have r: "es_readto (n_es N k) = r" "es_ptr (n_es N k) = p" "n_lbuf N p = Some xs" "es_len (n_es N k) = int room"
    using Cons.prems(2) by (simp_all add: reading_def)
  consider "chr c x = r" | "chr c x \<noteq> r" "x = CH_CR" | "chr c x \<noteq> r" "x \<noteq> CH_CR" by blast
  then show ?case
  proof cases
    case 1
    then show ?thesis using Cons.prems r by (simp add: recv_text_def)
  next
    case 2
    then show ?thesis using Cons.IH [OF Cons.prems(1,2) _ Cons.prems(4)] Cons.prems(3) Cons.prems(4) r
      by (simp add: recv_text_def)
  next
    case 3
    define N1 where "N1 = upd_es k (\<lambda>s. s\<lparr> es_len := s16 (es_len s - 1) \<rparr>) (N\<lparr> n_lbuf := (n_lbuf N)(p \<mapsto> xs @ [x]) \<rparr>)"
    have room: "0 < room" using Cons.prems(3) by simp
    have "reading c k p r (room - 1) (xs @ [x]) N1" "es_res (n_es N1 k) \<noteq> 0" "es_st (n_es N1 k) = es_st (n_es N k)"
      using Cons.prems(1,2) room by (auto simp: N1_def reading_def s16_small of_nat_diff)
    moreover have "readto_loop c k (x # ds) dest N = readto_loop c k ds dest N1"
      using 3 r Cons.prems(1) by (simp add: N1_def luaL_addlstring_def)
    ultimately show ?thesis using Cons.IH [of N1 "room - 1" "xs @ [x]" dest] Cons.prems(3,4) 3
      by (auto simp: recv_text_def)
  qed
qed

lemma recv_text_take: "recv_text c r (min (length d) room) (take room d) = recv_text c r room d"
proof -
  have "take (min (length d) room) (take room d) = take room d" by (cases "length d \<le> room") simp_all
  then show ?thesis by (simp add: recv_text_def)
qed

lemma length_recv_text: "length (recv_text c r room d) \<le> room"
proof -
  have "length (filter (\<lambda>x. x \<noteq> CH_CR) (takeWhile P xs)) \<le> length xs" for P and xs :: "u8 list"
    using length_filter_le length_takeWhile_le order_trans by blast
  from this [of "\<lambda>x. chr c x \<noteq> r" "take room d"] show ?thesis by (simp add: recv_text_def)
qed

lemma ap_receive_buffer:
  fixes e :: net_ev
  assumes "es_res (n_es N k) \<noteq> 0" "reading c k p r room xs N" "es_st (n_es N k) = ES_RECV_2"
  defines "t \<equiv> recv_text c r room (ne_data e)" and "fin \<equiv> recv_ends c r room (ne_data e)"
  shows "\<exists>as N'. ap_receive c e k N = Some (as, N') \<and> reading c k p r (room - length t) (xs @ t) N' \<and>
    es_st (n_es N' k) = (if fin then ES_IDLE else ES_RECV_2) \<and> (es_res (n_es N' k) = 0 \<longleftrightarrow> fin)"
proof -
  let ?d = "ne_data e"
  define N1 where "N1 = (if es_len (n_es N k) < int (length ?d) then upd_es k (\<lambda>s. s\<lparr> es_res := ELUA_NET_ERR_OVERFLOW \<rparr>) N else N)"
  define f where "f = (r \<noteq> ELUA_NET_NO_LASTCHAR \<and> (\<exists>x\<in>set (take room ?d). chr c x = r))"
  have N1: "es_res (n_es N1 k) \<noteq> 0" "reading c k p r room xs N1" "es_st (n_es N1 k) = ES_RECV_2"
    using assms(1-3) by (simp_all add: N1_def reading_def ELUA_NET_ERR_OVERFLOW_def)
  have r: "es_readto (n_es N1 k) = r" "es_ptr (n_es N1 k) = p" "n_lbuf N1 p = Some xs" "es_len (n_es N1 k) = int room"
    "es_len (n_es N k) = int room" "es_readto (n_es N k) = r" "room < 32768"
    using N1(2) assms(2) by (simp_all add: reading_def)
  define temp where "temp = (if int room < int (length ?d) then int room else int (length ?d))"
  have temp: "nat temp = min room (length ?d)" "0 \<le> temp" "take (nat temp) ?d = take room ?d"
    by (auto simp: temp_def)
  have "\<exists>N2. (if r \<noteq> ELUA_NET_NO_LASTCHAR then readto_loop c k (take (nat temp) ?d) p N1
       else map_option (\<lambda>N. (False, N)) (ap_store k ?d temp N1)) = Some (f, N2)
     \<and> reading c k p r (room - length t) (xs @ t) N2 \<and> es_res (n_es N2 k) \<noteq> 0 \<and> es_st (n_es N2 k) = ES_RECV_2"
  proof (cases "r = ELUA_NET_NO_LASTCHAR")
    case True
    have "s16 (int room - temp) = int (room - length t)"
      using True temp r(7) by (auto simp: t_def recv_text_def temp_def s16_small)
    then show ?thesis
      using True N1 r temp by (auto simp: ap_store_def luaL_addlstring_def reading_def f_def t_def recv_text_def)
  next
    case False
    with readto_loop_buffer [OF N1(1,2) _ False, of "take room ?d" p] N1(3) temp
    show ?thesis by (simp add: f_def t_def recv_text_take)
  qed
  then obtain N2 where N2: "(if r \<noteq> ELUA_NET_NO_LASTCHAR then readto_loop c k (take (nat temp) ?d) p N1
       else map_option (\<lambda>N. (False, N)) (ap_store k ?d temp N1)) = Some (f, N2)"
     "reading c k p r (room - length t) (xs @ t) N2" "es_res (n_es N2 k) \<noteq> 0" "es_st (n_es N2 k) = ES_RECV_2"
    by blast
  have l: "es_len (n_es N2 k) = 0 \<longleftrightarrow> length t = room"
    using N2(2) length_recv_text [of c r room ?d] by (auto simp: reading_def t_def)
  have fin: "fin \<longleftrightarrow> es_len (n_es N2 k) = 0 \<or> int (length ?d) < int (UIP_RECEIVE_WINDOW c) \<or> f"
    unfolding l by (auto simp: fin_def recv_ends_def f_def t_def)
  have temp': "(if es_len (n_es N k) < int (length ?d) then es_len (n_es N k) else int (length ?d)) = temp"
    using r by (simp add: temp_def)
  have "ap_receive c e k N =
      Some (if fin then ([UIP_STOP], upd_es k (\<lambda>s. s\<lparr> es_res := ELUA_NET_ERR_OK, es_st := ES_IDLE \<rparr>) N2) else ([], N2))"
    unfolding ap_receive_def Let_def temp' N1_def [symmetric] r(1,2) N2(1) fin by simp
  then show ?thesis using N2 by (auto simp: reading_def ELUA_NET_ERR_OK_def)
qed

lemma appcall_idle:
  "n_configured N \<Longrightarrow> \<not> ne_connected e \<Longrightarrow> es_st (n_es N (ne_sock e)) = ES_IDLE \<Longrightarrow> elua_uip_appcall c e N = Some ([], N)"
  by (simp add: elua_uip_appcall_def)

lemma run_idle:
  assumes "n_configured N" "es_st (n_es N k) = ES_IDLE" "\<forall>e\<in>set es. recv_event k e"
  shows "\<exists>os. run_events c es N = Some (os, N)"
  using assms by (induction es) (auto simp: appcall_idle recv_event_def)

definition packets :: "net_ev list \<Rightarrow> u8 list list" where
  "packets es = map ne_data (filter ne_newdata es)"

lemma run_recv:
  assumes "es_res (n_es N k) \<noteq> 0" "reading c k p r room xs N" "es_st (n_es N k) = ES_RECV_2" "\<forall>e\<in>set es. recv_event k e"
    and "received c r room (packets es) = (t, fin)"
  shows "\<exists>os N'. run_events c es N = Some (os, N') \<and> reading c k p r (room - length t) (xs @ t) N' \<and>
    es_st (n_es N' k) = (if fin then ES_IDLE else ES_RECV_2) \<and> (es_res (n_es N' k) = 0 \<longleftrightarrow> fin)"
  using assms
proof (induction es arbitrary: N room xs t)
  case Nil
  then show ?case by (simp add: packets_def)
next
  case (Cons e es)
  have e: "recv_event k e" and es: "\<forall>e\<in>set es. recv_event k e" using Cons.prems(4) by auto
  show ?case
  proof (cases "ne_newdata e")
    case False
    then have "elua_uip_appcall c e N = Some ([], N)"
      using e Cons.prems(2,3) by (simp add: elua_uip_appcall_def recv_event_def reading_def)
    then show ?thesis using Cons.IH [OF Cons.prems(1-3) es] Cons.prems(5) False
      by (auto simp: packets_def)
  next
    case True
    let ?t = "recv_text c r room (ne_data e)"
    have app: "elua_uip_appcall c e N = ap_receive c e k N"
      using True e Cons.prems(2,3) by (auto simp: elua_uip_appcall_def recv_event_def reading_def)
    obtain as N1 where N1: "ap_receive c e k N = Some (as, N1)" "reading c k p r (room - length ?t) (xs @ ?t) N1"
        "es_st (n_es N1 k) = (if recv_ends c r room (ne_data e) then ES_IDLE else ES_RECV_2)"
        "es_res (n_es N1 k) = 0 \<longleftrightarrow> recv_ends c r room (ne_data e)"
      using ap_receive_buffer [OF Cons.prems(1-3)] by blast
    show ?thesis
    proof (cases "recv_ends c r room (ne_data e)")
      case fin: True
      then have "t = ?t" "fin" using Cons.prems(5) True by (auto simp: packets_def)
      moreover have "n_configured N1" using N1(2) by (simp add: reading_def)
      ultimately show ?thesis using run_idle [of N1 k es c] N1 fin es app by auto
    next
      case more: False
      obtain u where u: "received c r (room - length ?t) (packets es) = (u, fin)" "t = ?t @ u"
        using Cons.prems(5) True more by (auto simp: packets_def Let_def split: prod.splits)
      then show ?thesis using Cons.IH [of N1 "room - length ?t" "xs @ ?t" u] N1 more es app by auto
    qed
  qed
qed

lemma received_append:
  "received c r room (ds @ ds') = (case received c r room ds of (t, fin) \<Rightarrow>
     if fin then (t, True) else case received c r (room - length t) ds' of (u, b) \<Rightarrow> (t @ u, b))"
  by (induction c r room ds rule: received.induct) (auto simp: Let_def split: prod.splits)

lemma length_received: "received c r room ds = (t, fin) \<Longrightarrow> length t \<le> room"
proof (induction c r room ds arbitrary: t rule: received.induct)
  case (2 c r room d ds)
  show ?case
  proof (cases "recv_ends c r room d")
    case True
    then show ?thesis using 2(2) length_recv_text [of c r room d] by auto
  next
    case False
    then obtain u where u: "received c r (room - length (recv_text c r room d)) ds = (u, fin)"
        "t = recv_text c r room d @ u"
      using 2(2) by (auto simp: Let_def split: prod.splits)
    then show ?thesis using 2(1) [OF refl False u(1)] length_recv_text [of c r room d] by simp
  qed
qed simp

text \<open>The first event after the request only opens the window again; the data come with the next ones.\<close>

definition skip :: "es_state \<Rightarrow> net_ev list \<Rightarrow> net_ev list" where
  "skip st es = (if st = ES_RECV then tl es else es)"

definition opened :: "es_state \<Rightarrow> net_ev list \<Rightarrow> es_state" where
  "opened st es = (if es = [] then st else ES_RECV_2)"

lemma skip_append: "skip st (es @ es') = skip st es @ skip (opened st es) es'"
  by (cases es) (simp_all add: skip_def opened_def)

lemma packets_append: "packets (es @ es') = packets es @ packets es'"
  by (simp add: packets_def)

lemma run_recv_opening:
  assumes "es_res (n_es N k) \<noteq> 0" "reading c k p r room xs N" "es_st (n_es N k) = st" "st \<in> {ES_RECV, ES_RECV_2}"
    and "\<forall>e\<in>set es. recv_event k e" "received c r room (packets (skip st es)) = (t, fin)"
  shows "\<exists>os N'. run_events c es N = Some (os, N') \<and> reading c k p r (room - length t) (xs @ t) N' \<and>
    es_st (n_es N' k) = (if fin then ES_IDLE else opened st es) \<and> (es_res (n_es N' k) = 0 \<longleftrightarrow> fin)"
proof (cases "st = ES_RECV_2 \<or> es = []")
  case True
  then show ?thesis using run_recv [OF assms(1,2) _ assms(5), of t fin] assms
    by (cases "es = []") (auto simp: skip_def opened_def packets_def)
next
  case False
  then obtain e es' where es: "es = e # es'" and st: "st = ES_RECV" using assms(4) by (cases es) auto
  define N1 where "N1 = upd_es k (\<lambda>s. s\<lparr> es_st := ES_RECV_2 \<rparr>) N"
  have "elua_uip_appcall c e N = Some ([UIP_RESTART], N1)"
    using assms(2,3,5) st es by (simp add: elua_uip_appcall_def reading_def recv_event_def N1_def)
  moreover have "reading c k p r room xs N1" "es_res (n_es N1 k) \<noteq> 0" "es_st (n_es N1 k) = ES_RECV_2"
    using assms(1,2) by (simp_all add: N1_def reading_def)
  ultimately show ?thesis using run_recv [of N1 k c p r room xs es' t fin] assms(5,6) es st
    by (auto simp: skip_def opened_def)
qed

definition turn_events :: "turn list \<Rightarrow> net_ev list" where
  "turn_events ts = concat (map (\<lambda>t. tn_before t @ tn_between t) ts)"

lemma turn_events_simps [simp]:
  "turn_events [] = []" "turn_events (t # ts) = tn_before t @ tn_between t @ turn_events ts"
  by (simp_all add: turn_events_def)

lemma recv_loop_idle:
  assumes "n_configured N" "es_st (n_es N k) = ES_IDLE" "ts \<noteq> []" "\<forall>e\<in>set (turn_events ts). recv_event k e"
  shows "\<exists>os rest. recv_loop c k to_us ts N = Some (os, N, Some rest)"
  using assms run_idle [of N k "tn_before (hd ts)" c] by (cases ts) auto

lemma recv_loop_buffer:
  assumes "es_res (n_es N k) \<noteq> 0" "reading c k p r room xs N" "es_st (n_es N k) = st" "st \<in> {ES_RECV, ES_RECV_2}"
    and "\<forall>e\<in>set (turn_events (ts @ [t0])). recv_event k e" "\<forall>t\<in>set ts. to_us = 0 \<or> tn_diff t < to_us"
    and "received c r room (packets (skip st (turn_events ts))) = (t, True)"
  shows "\<exists>os N' rest. recv_loop c k to_us (ts @ [t0]) N = Some (os, N', Some rest) \<and>
    reading c k p r (room - length t) (xs @ t) N' \<and> es_res (n_es N' k) = 0"
  using assms
proof (induction ts arbitrary: N room xs t st)
  case Nil
  then have "received c r room [] = (t, True)" by (auto simp: skip_def packets_def split: if_splits)
  then show ?case by simp
next
  case (Cons u us)
  let ?b = "tn_before u" and ?w = "tn_between u"
  have evs: "\<forall>e\<in>set ?b. recv_event k e" "\<forall>e\<in>set ?w. recv_event k e"
      "\<forall>e\<in>set (turn_events (us @ [t0])). recv_event k e" "\<forall>t\<in>set us. to_us = 0 \<or> tn_diff t < to_us"
    and to: "\<not> (0 < to_us \<and> to_us \<le> tn_diff u)"
    using Cons.prems(5,6) by auto
  have all: "packets (skip st (turn_events (u # us))) =
      packets (skip st ?b) @ packets (skip (opened st ?b) ?w) @ packets (skip (opened (opened st ?b) ?w) (turn_events us))"
    by (simp add: skip_append packets_append)
  obtain t1 fin1 where t1: "received c r room (packets (skip st ?b)) = (t1, fin1)" by force
  obtain os1 N1 where N1: "run_events c ?b N = Some (os1, N1)" "reading c k p r (room - length t1) (xs @ t1) N1"
      "es_st (n_es N1 k) = (if fin1 then ES_IDLE else opened st ?b)" "es_res (n_es N1 k) = 0 \<longleftrightarrow> fin1"
    using run_recv_opening [OF Cons.prems(1-4) evs(1) t1] by blast
  show ?case
  proof (cases fin1)
    case True
    then have "t = t1" using Cons.prems(7) unfolding all by (simp add: received_append t1)
    then show ?thesis using N1 True by auto
  next
    case no1: False
    have st1: "opened st ?b \<in> {ES_RECV, ES_RECV_2}" using Cons.prems(4) by (auto simp: opened_def)
    obtain t2 fin2 where t2: "received c r (room - length t1) (packets (skip (opened st ?b) ?w)) = (t2, fin2)" by force
    obtain os2 N2 where N2: "run_events c ?w N1 = Some (os2, N2)" "reading c k p r (room - length t1 - length t2) ((xs @ t1) @ t2) N2"
        "es_st (n_es N2 k) = (if fin2 then ES_IDLE else opened (opened st ?b) ?w)" "es_res (n_es N2 k) = 0 \<longleftrightarrow> fin2"
      using run_recv_opening [OF _ N1(2) _ st1 evs(2) t2] N1(3,4) no1 by auto
    have step: "recv_loop c k to_us ((u # us) @ [t0]) N =
        map_option (\<lambda>(os, N, r). (os1 @ os2 @ os, N, r)) (recv_loop c k to_us (us @ [t0]) N2)"
      using N1 N2 no1 st1 to by auto
    show ?thesis
    proof (cases fin2)
      case True
      then have "t = t1 @ t2" using Cons.prems(7) no1 unfolding all by (simp add: received_append t1 t2)
      moreover have "\<exists>os rest. recv_loop c k to_us (us @ [t0]) N2 = Some (os, N2, Some rest)"
        using recv_loop_idle [of N2 k "us @ [t0]" c to_us] N2 True evs(3) by (simp add: reading_def)
      ultimately show ?thesis using N2 True step by auto
    next
      case no2: False
      obtain v where v: "received c r (room - length t1 - length t2) (packets (skip (opened (opened st ?b) ?w) (turn_events us))) = (v, True)"
          "t = t1 @ t2 @ v"
        using Cons.prems(7) no1 no2 unfolding all by (auto simp: received_append t1 t2 split: prod.splits)
      have st2: "opened (opened st ?b) ?w \<in> {ES_RECV, ES_RECV_2}" using st1 by (auto simp: opened_def)
      show ?thesis
        using Cons.IH [OF _ N2(2) _ st2 evs(3,4) v(1)] N2(3,4) no2 v(2) step
        by (auto simp: add.assoc simp del: recv_loop.simps)
    qed
  qed
qed

text \<open>
  A read into a Lua buffer: when the packets that arrive end the text before a timeout, the text is
  appended to the buffer and its length is the result. The first event opens the window.
\<close>

lemma elua_net_recvbuf_refines:
  assumes "sock_ok c (int k) N" "n_tcp N k = TCP_ACTIVE" "\<not> (BUILD_CON_TCP c \<and> int k = n_telnet N)" "n_lbuf N buf = Some xs"
    and "0 < maxsize" "maxsize < 32768" "\<forall>e\<in>set (turn_events (ts @ [t0])). recv_event k e" "\<forall>t\<in>set ts. to_us = 0 \<or> tn_diff t < to_us"
    and "turn_events ts = e0 # es" "received c r (nat maxsize) (packets es) = (t, True)"
  shows "\<exists>os N' rest. elua_net_recvbuf c (int k) buf maxsize r to_us (ts @ [t0]) N = Some (os, N', Some (int (length t), rest)) \<and>
    n_lbuf N' buf = Some (xs @ t) \<and> es_res (n_es N' k) = ELUA_NET_ERR_OK"
proof -
  define N0 where "N0 = elua_prep_socket_state k buf maxsize r 1 ES_RECV N"
  have N0: "es_res (n_es N0 k) \<noteq> 0" "reading c k buf r (nat maxsize) xs N0" "es_st (n_es N0 k) = ES_RECV"
    using assms(1,3-6) by (auto simp: N0_def elua_prep_socket_state_def sock_ok_def reading_def)
  have "received c r (nat maxsize) (packets (skip ES_RECV (turn_events ts))) = (t, True)"
    using assms(9,10) by (simp add: skip_def)
  from recv_loop_buffer [OF N0 _ assms(7,8) this]
  obtain os N' rest where N': "recv_loop c k to_us (ts @ [t0]) N0 = Some (os, N', Some rest)"
      "reading c k buf r (nat maxsize - length t) (xs @ t) N'" "es_res (n_es N' k) = 0"
    by auto
  have "length t \<le> nat maxsize" using length_received [OF assms(10)] .
  then have "s16 (maxsize - es_len (n_es N' k)) = int (length t)"
    using N'(2) assms(5,6) by (simp add: reading_def s16_small)
  then show ?thesis using N' assms(1,2,5)
    by (simp add: elua_net_recvbuf_def elua_net_recv_internal_def N0_def [symmetric] reading_def ELUA_NET_ERR_OK_def)
qed

text \<open>The end of a wait with a timeout: whatever happens to the socket, the read comes back.\<close>

definition waiting :: "nat \<Rightarrow> net \<Rightarrow> bool" where
  "waiting k N \<longleftrightarrow> es_st (n_es N k) = ES_IDLE \<or>
     es_st (n_es N k) \<in> {ES_RECV, ES_RECV_2} \<and> es_res (n_es N k) \<noteq> 0 \<and> 0 \<le> es_len (n_es N k) \<and>
     es_len (n_es N k) < 32768 \<and> n_lbuf N (es_ptr (n_es N k)) \<noteq> None"

lemma waiting_idle: "es_st (n_es N k) = ES_IDLE \<Longrightarrow> waiting k N"
  by (simp add: waiting_def)

lemma waiting_es: "n_es N' k = n_es N k \<Longrightarrow> n_lbuf N' = n_lbuf N \<Longrightarrow> waiting k N \<Longrightarrow> waiting k N'"
  by (simp add: waiting_def)

lemma ap_connected_waiting:
  assumes "waiting k N" "ap_connected c e k N = (as, N')"
  shows "waiting k N'"
  using assms by (auto simp: ap_connected_def split: if_splits intro: waiting_es [of N' k N] simp: waiting_def)

lemma telnet_input_waiting:
  assumes "waiting k N" "elua_uip_telnet_handle_input e k N = (as, N')"
  shows "waiting k N'"
proof (cases "telnet_loop (ne_behind e) (ne_data e) (nat (es_len (n_es N k))) = []")
  case True
  then show ?thesis using assms by (auto simp: elua_uip_telnet_handle_input_def Let_def waiting_def)
next
  case False
  then show ?thesis using assms(2) by (auto simp: elua_uip_telnet_handle_input_def Let_def waiting_idle)
qed

lemma appcall_waiting:
  assumes "waiting k N" "ne_sock e = k"
  shows "\<exists>as N'. elua_uip_appcall c e N = Some (as, N') \<and> waiting k N'"
proof -
  consider "\<not> n_configured N" | "n_configured N" "ne_connected e"
    | "n_configured N" "\<not> ne_connected e" "es_st (n_es N k) = ES_IDLE"
    | "n_configured N" "\<not> ne_connected e" "es_st (n_es N k) = ES_RECV"
    | "n_configured N" "\<not> ne_connected e" "es_st (n_es N k) = ES_RECV_2" "ne_aborted e \<or> ne_timedout e \<or> ne_closed e \<or> \<not> ne_newdata e"
    | "n_configured N" "\<not> ne_connected e" "es_st (n_es N k) = ES_RECV_2" "\<not> (ne_aborted e \<or> ne_timedout e \<or> ne_closed e)" "ne_newdata e"
    using assms(1) by (auto simp: waiting_def)
  then show ?thesis
  proof cases
    case 2
    then show ?thesis using assms ap_connected_waiting [OF assms(1), of c e]
      by (cases "ap_connected c e k N") (auto simp: elua_uip_appcall_def Let_def)
  next
    case 6
    show ?thesis
    proof (cases "BUILD_CON_TCP c \<and> int k = n_telnet N")
      case True
      then show ?thesis using 6 assms telnet_input_waiting [OF assms(1), of e]
        by (cases "elua_uip_telnet_handle_input e k N") (auto simp: elua_uip_appcall_def Let_def)
    next
      case False
      let ?s = "n_es N k"
      obtain xs where xs: "n_lbuf N (es_ptr ?s) = Some xs" "es_res ?s \<noteq> 0" "0 \<le> es_len ?s" "es_len ?s < 32768"
        using assms(1) 6(3) by (auto simp: waiting_def)
      then have "reading c k (es_ptr ?s) (es_readto ?s) (nat (es_len ?s)) xs N"
        using False 6(1) by (simp add: reading_def)
      from ap_receive_buffer [OF xs(2) this 6(3), of e]
      obtain as N' room ys st where "ap_receive c e k N = Some (as, N')" "reading c k (es_ptr ?s) (es_readto ?s) room ys N'"
          "es_st (n_es N' k) = ES_IDLE \<or> es_st (n_es N' k) = ES_RECV_2 \<and> es_res (n_es N' k) \<noteq> 0"
        by (auto split: if_splits)
      then show ?thesis using 6 False assms(2) by (auto simp: elua_uip_appcall_def Let_def waiting_def reading_def)
    qed
  qed (use assms in \<open>auto simp: elua_uip_appcall_def Let_def ap_error_def waiting_def\<close>)
qed

lemma run_waiting:
  assumes "waiting k N" "\<forall>e\<in>set es. ne_sock e = k"
  shows "\<exists>os N'. run_events c es N = Some (os, N') \<and> waiting k N'"
  using assms
proof (induction es arbitrary: N)
  case (Cons e es)
  obtain as N1 where N1: "elua_uip_appcall c e N = Some (as, N1)" "waiting k N1"
    using appcall_waiting [OF Cons.prems(1), of e c] Cons.prems(2) by auto
  then show ?case using Cons.IH [of N1] Cons.prems(2) by auto
qed simp

lemma recv_loop_returns:
  assumes "waiting k N" "\<forall>e\<in>set (turn_events ts). ne_sock e = k" "0 < to_us" "\<exists>t\<in>set ts. to_us \<le> tn_diff t"
  shows "\<exists>os N' rest. recv_loop c k to_us ts N = Some (os, N', Some rest) \<and> es_st (n_es N' k) = ES_IDLE"
  using assms
proof (induction ts arbitrary: N)
  case (Cons t ts)
  obtain os1 N1 where N1: "run_events c (tn_before t) N = Some (os1, N1)" "waiting k N1"
    using run_waiting [OF Cons.prems(1), of "tn_before t" c] Cons.prems(2) by auto
  obtain os2 N2 where N2: "run_events c (tn_between t) N1 = Some (os2, N2)" "waiting k N2"
    using run_waiting [OF N1(2), of "tn_between t" c] Cons.prems(2) by auto
  show ?case
  proof (cases "es_st (n_es N1 k) = ES_IDLE \<or> to_us \<le> tn_diff t")
    case True
    then show ?thesis using N1 N2 Cons.prems(3) by auto
  next
    case False
    then show ?thesis using Cons.IH [OF N2(2)] Cons.prems N1 N2 by auto
  qed
qed simp

section \<open>TELNET input\<close>

datatype telnet_item = TChar u8 | TCmd2 u8 | TCmd3 u8 u8 | TEof

fun telnet_item_ok :: "telnet_item \<Rightarrow> bool" where
  "telnet_item_ok (TChar x) \<longleftrightarrow> x \<noteq> TELNET_IAC_CHAR"
| "telnet_item_ok (TCmd2 x) \<longleftrightarrow> \<not> (TELNET_IAC_3B_FIRST \<le> x \<and> x \<le> TELNET_IAC_3B_LAST) \<and> x \<noteq> TELNET_EOF"
| "telnet_item_ok (TCmd3 x y) \<longleftrightarrow> TELNET_IAC_3B_FIRST \<le> x \<and> x \<le> TELNET_IAC_3B_LAST"
| "telnet_item_ok TEof \<longleftrightarrow> True"

fun telnet_encode :: "telnet_item \<Rightarrow> u8 list" where
  "telnet_encode (TChar x) = [x]"
| "telnet_encode (TCmd2 x) = [TELNET_IAC_CHAR, x]"
| "telnet_encode (TCmd3 x y) = [TELNET_IAC_CHAR, x, y]"
| "telnet_encode TEof = [TELNET_IAC_CHAR, TELNET_EOF]"

fun telnet_chars :: "telnet_item \<Rightarrow> u8 list" where
  "telnet_chars (TChar x) = [x]"
| "telnet_chars TEof = [STD_CTRLZ_CODE]"
| "telnet_chars _ = []"

lemma telnet_loop_zero [simp]: "telnet_loop b xs 0 = []"
  by (cases xs) simp_all

lemma telnet_loop_items:
  "\<forall>i\<in>set is. telnet_item_ok i \<Longrightarrow>
   telnet_loop b (concat (map telnet_encode is)) n = take n (concat (map telnet_chars is))"
proof (induction "is" arbitrary: n)
  case (Cons i "is")
  then show ?case
    by (cases n; cases i) (auto simp: TELNET_EOF_def TELNET_IAC_3B_FIRST_def)
qed simp

lemma telnet_loop_length: "length (telnet_loop b xs n) \<le> n"
proof (induction b xs n rule: telnet_loop.induct)
  case (3 b x xs n)
  then show ?case by (auto simp: Let_def split: list.splits)
qed simp_all

section \<open>Properties of the sockets\<close>

definition net_example :: net where
  "net_example = \<lparr> n_mem = (\<lambda>a. ucast a), n_lbuf = [4 \<mapsto> []],
     n_es = (\<lambda>_. \<lparr> es_st = ES_IDLE, es_res = 0, es_ptr = 4, es_len = 0, es_readto = 0 \<rparr>), n_tcp = (\<lambda>_. TCP_ACTIVE),
     n_configured = True, n_telnet = - 1, n_acc_request = False, n_acc_sock = - 1, n_acc_remote = 0 \<rparr>"

definition net_cfg_example :: net_cfg where
  "net_cfg_example = \<lparr> UIP_CONNS = 2, UIP_RECEIVE_WINDOW = 4, BUILD_CON_TCP = True, char_signed = False \<rparr>"

definition net_ev_example :: "bool \<Rightarrow> u8 list \<Rightarrow> net_ev" where
  "net_ev_example ack d = \<lparr> ne_sock = 1, ne_connected = False, ne_aborted = False, ne_timedout = False, ne_closed = False,
     ne_acked = ack, ne_rexmit = False, ne_poll = True, ne_newdata = (d \<noteq> []), ne_data = d, ne_behind = 0,
     ne_mss = 2, ne_lport = 80, ne_ripaddr = 0 \<rparr>"

lemmas net_example_defs = net_example_def net_cfg_example_def net_ev_example_def

text \<open>
  C12: \<open>elua_net_send\<close> is a stop-and-wait sender: the buffer is cut into segments of the maximum size,
  which together are the buffer; they go out in order, each one again until it is acknowledged; and
  the call returns, with the whole length, exactly when as many acknowledgements have come.
\<close>

lemma net_send_delivers:
  assumes "sock_ok c (int k) N" "n_tcp N k = TCP_ACTIVE" "0 < len" "len < 32768" "m \<noteq> 0"
    and "\<not> (BUILD_CON_TCP c \<and> int k = n_telnet N)" "\<forall>e\<in>set es. send_event k m e"
  shows "\<exists>segs N'. concat segs = mem_read (n_mem N) buf (nat len) \<and> segs = segments (unat m) (mem_read (n_mem N) buf (nat len)) \<and>
    elua_net_send c (int k) buf len es N =
      Some (map (Pair k) (send_outs segs es), N', map_option (Pair len) (after_acks (length segs) es)) \<and>
    n_mem N' = n_mem N \<and> (after_acks (length segs) es \<noteq> None \<longrightarrow> es_res (n_es N' k) = ELUA_NET_ERR_OK)"
  using elua_net_send_refines [OF assms, of buf] concat_segments [of "unat m"] assms(5) by (auto simp: unat_gt_0)

lemma net_send_delivers_witness:
  "\<exists>segs N'. segs = segments 2 [7, 8, 9] \<and>
    elua_net_send net_cfg_example 1 7 3 (map (\<lambda>a. net_ev_example a []) [False, False, True, True]) net_example =
      Some (map (Pair 1) (send_outs segs (map (\<lambda>a. net_ev_example a []) [False, False, True, True])), N',
        map_option (Pair 3) (after_acks (length segs) (map (\<lambda>a. net_ev_example a []) [False, False, True, True])))"
  using net_send_delivers [of net_cfg_example 1 net_example 3 2 "map (\<lambda>a. net_ev_example a []) [False, False, True, True]" 7]
  by (auto simp: net_example_defs sock_ok_def send_event_def)

text \<open>
  C13: a read into a Lua buffer appends the text of the packets that arrive after the event which
  opens the window, up to the end character or the room, and returns its length; a packet
  shorter than the window ends the text as well. Nothing else gets into the buffer.
\<close>

lemma net_recv_reads_line:
  assumes "sock_ok c (int k) N" "n_tcp N k = TCP_ACTIVE" "\<not> (BUILD_CON_TCP c \<and> int k = n_telnet N)" "n_lbuf N buf = Some xs"
    and "0 < maxsize" "maxsize < 32768" "\<forall>e\<in>set (turn_events (ts @ [t0])). recv_event k e" "\<forall>t\<in>set ts. to_us = 0 \<or> tn_diff t < to_us"
    and "turn_events ts = e0 # es" "received c r (nat maxsize) (packets es) = (t, True)"
  shows "\<exists>os N' rest. elua_net_recvbuf c (int k) buf maxsize r to_us (ts @ [t0]) N = Some (os, N', Some (int (length t), rest)) \<and>
    n_lbuf N' buf = Some (xs @ t) \<and> es_res (n_es N' k) = ELUA_NET_ERR_OK"
  using elua_net_recvbuf_refines [OF assms] .

lemma net_recv_reads_line_witness:
  "\<exists>os N' rest. elua_net_recvbuf net_cfg_example 1 4 20 10 0
      ([\<lparr> tn_before = [net_ev_example False [], net_ev_example False [65, 66, 67, 68]], tn_diff = 0,
          tn_between = [net_ev_example False [69, 13, 10, 70]] \<rparr>] @ [\<lparr> tn_before = [], tn_diff = 0, tn_between = [] \<rparr>]) net_example
      = Some (os, N', Some (5, rest)) \<and> n_lbuf N' 4 = Some [65, 66, 67, 68, 69] \<and>
        es_res (n_es N' 1) = ELUA_NET_ERR_OK"
  using net_recv_reads_line [of net_cfg_example 1 net_example 4 "[]" 20
      "[\<lparr> tn_before = [net_ev_example False [], net_ev_example False [65, 66, 67, 68]], tn_diff = 0,
          tn_between = [net_ev_example False [69, 13, 10, 70]] \<rparr>]" "\<lparr> tn_before = [], tn_diff = 0, tn_between = [] \<rparr>" 0
      "net_ev_example False []" "[net_ev_example False [65, 66, 67, 68], net_ev_example False [69, 13, 10, 70]]" 10 "[65, 66, 67, 68, 69]"]
  by (simp add: net_example_defs sock_ok_def recv_event_def packets_def recv_text_def recv_ends_def chr_def
      CH_CR_def ELUA_NET_NO_LASTCHAR_def Let_def)

text \<open>
  C38: a read with a timeout comes back: when the timer shows the time in some turn of the loop, the
  call has returned by then and left the socket idle, whatever events the socket had.
\<close>

lemma net_recv_times_out:
  assumes "n_lbuf N buf \<noteq> None" "0 < maxsize" "maxsize < 32768" "0 < to_us" "\<exists>t\<in>set ts. to_us \<le> tn_diff t"
    and "\<forall>e\<in>set (turn_events ts). ne_sock e = nat s"
  shows "\<exists>os N' v. elua_net_recvbuf c s buf maxsize r to_us ts N = Some (os, N', Some v) \<and>
    (sock_ok c s N \<and> n_tcp N (nat s) = TCP_ACTIVE \<longrightarrow> es_st (n_es N' (nat s)) = ES_IDLE)"
proof -
  have "waiting (nat s) (elua_prep_socket_state (nat s) buf maxsize r 1 ES_RECV N)"
    using assms(1-3) by (simp add: waiting_def elua_prep_socket_state_def)
  from recv_loop_returns [OF this assms(6,4,5), of c] show ?thesis
    using assms(2) by (auto simp: elua_net_recvbuf_def elua_net_recv_internal_def)
qed

lemma net_recv_times_out_witness:
  "\<exists>os N' v. elua_net_recvbuf net_cfg_example 1 4 20 10 5000 [\<lparr> tn_before = [], tn_diff = 6000, tn_between = [] \<rparr>] net_example
      = Some (os, N', Some v) \<and> es_st (n_es N' 1) = ES_IDLE"
  using net_recv_times_out [of net_example 4 20 5000 "[\<lparr> tn_before = [], tn_diff = 6000, tn_between = [] \<rparr>]" 1 net_cfg_example 10]
  by (auto simp: net_example_defs sock_ok_def)

text \<open>
  the data of the segment that closes the connection are lost: uIP acknowledges them and calls
  the handler once with both flags, which sets the error and looks no further. A read that waits
  for exactly this segment returns 0 and leaves the Lua buffer as it was.
\<close>

lemma recv_loses_final_segment:
  assumes "sock_ok c (int k) N" "n_tcp N k = TCP_ACTIVE" "n_lbuf N buf = Some xs" "0 < maxsize" "maxsize < 32768"
    and "ne_sock e = k" "\<not> ne_connected e" "\<not> ne_aborted e" "\<not> ne_timedout e" "ne_closed e" "ne_newdata e" "recv_event k e0"
  shows "\<exists>os N'. elua_net_recvbuf c (int k) buf maxsize r to_us
        (\<lparr> tn_before = [e0, e], tn_diff = 0, tn_between = [] \<rparr> # ts) N = Some (os, N', Some (0, ts)) \<and>
      n_lbuf N' buf = Some xs \<and> n_mem N' = n_mem N \<and> es_res (n_es N' k) = ELUA_NET_ERR_CLOSED"
  using assms
  by (simp add: elua_net_recvbuf_def elua_net_recv_internal_def elua_prep_socket_state_def elua_uip_appcall_def sock_ok_def
      recv_event_def ap_error_def Let_def s16_small)

lemma recv_loses_final_segment_witness:
  "\<exists>os N'. elua_net_recvbuf net_cfg_example 1 4 20 10 0
        [\<lparr> tn_before = [net_ev_example False [], (net_ev_example False [65, 10])\<lparr> ne_closed := True \<rparr>], tn_diff = 0, tn_between = [] \<rparr>] net_example
      = Some (os, N', Some (0, [])) \<and> n_lbuf N' 4 = Some []"
  using recv_loses_final_segment [of net_cfg_example 1 net_example 4 "[]" 20 "(net_ev_example False [65, 10])\<lparr> ne_closed := True \<rparr>"
      "net_ev_example False []" 10 0 "[]"]
  by (auto simp: net_example_defs sock_ok_def recv_event_def)

text \<open>
  a packet that is longer than a plain buffer marks the overflow in the field which tells plain
  buffers from Lua buffers, so the handler goes on to use the caller's memory as a Lua buffer: the
  read has no defined result.
\<close>

lemma plain_recv_overflow_undefined:
  assumes "sock_ok c (int k) N" "n_tcp N k = TCP_ACTIVE" "\<not> (BUILD_CON_TCP c \<and> int k = n_telnet N)" "n_lbuf N buf = None"
    and "0 < maxsize" "maxsize < int (length (ne_data e))" "recv_event k e" "ne_newdata e" "recv_event k e0"
  shows "elua_net_recv c (int k) buf maxsize ELUA_NET_NO_LASTCHAR to_us (\<lparr> tn_before = [e0, e], tn_diff = 0, tn_between = [] \<rparr> # ts) N = None"
  using assms
  by (cases "BUILD_CON_TCP c") (simp_all add: elua_net_recv_def elua_net_recv_internal_def elua_prep_socket_state_def elua_uip_appcall_def sock_ok_def
      recv_event_def ap_receive_def ap_store_def luaL_addlstring_def Let_def ELUA_NET_ERR_OVERFLOW_def)

lemma plain_recv_overflow_undefined_witness:
  "elua_net_recv net_cfg_example 1 8 2 ELUA_NET_NO_LASTCHAR 0
     [\<lparr> tn_before = [net_ev_example False [], net_ev_example False [65, 66, 67]], tn_diff = 0, tn_between = [] \<rparr>] net_example = None"
  using plain_recv_overflow_undefined [of net_cfg_example 1 net_example 8 2 "net_ev_example False [65, 66, 67]" "net_ev_example False []" 0 "[]"]
  by (auto simp: net_example_defs sock_ok_def recv_event_def)

text \<open>
  what a telnet client types reaches the reader without the commands of the protocol: of an input made of
  characters, commands of two and three bytes and end-of-file marks, the handler stores the
  characters and a control-Z for each mark, as many as the buffer takes.
\<close>

lemma telnet_input_stripped:
  assumes "\<forall>i\<in>set is. telnet_item_ok i" "ne_data e = concat (map telnet_encode is)"
    and "elua_uip_telnet_handle_input e k N = (as, N')"
  shows "\<exists>out. out = take (nat (es_len (n_es N k))) (concat (map telnet_chars is)) \<and>
    n_mem N' = mem_write (n_mem N) (es_ptr (n_es N k)) out \<and>
    es_st (n_es N' k) = (if out = [] then es_st (n_es N k) else ES_IDLE)"
  using telnet_loop_items [OF assms(1), of "ne_behind e" "nat (es_len (n_es N k))"] assms(2,3)
  by (auto simp: elua_uip_telnet_handle_input_def Let_def split: if_splits)

lemma telnet_input_stripped_witness:
  "n_mem (snd (elua_uip_telnet_handle_input
       (net_ev_example False (concat (map telnet_encode [TCmd3 253 1, TChar 104, TCmd2 241, TChar 105, TEof]))) 1
       (upd_es 1 (\<lambda>s. s\<lparr> es_len := 10 \<rparr>) net_example))) = mem_write (n_mem net_example) 4 [104, 105, 26]"
  using telnet_input_stripped [of "[TCmd3 253 1, TChar 104, TCmd2 241, TChar 105, TEof]"
      "net_ev_example False (concat (map telnet_encode [TCmd3 253 1, TChar 104, TCmd2 241, TChar 105, TEof]))" 1
      "upd_es 1 (\<lambda>s. s\<lparr> es_len := 10 \<rparr>) net_example", OF _ _ surjective_pairing]
  by (simp add: net_example_defs TELNET_IAC_CHAR_def TELNET_IAC_3B_FIRST_def TELNET_IAC_3B_LAST_def TELNET_EOF_def STD_CTRLZ_CODE_def)

text \<open>
  C39: a telnet read stays in its buffer: whatever the client sends, no byte outside the \<open>es_len\<close> bytes
  from \<open>es_ptr\<close> changes, and the room left is between 0 and the room there was.
\<close>

lemma telnet_input_in_bounds:
  assumes "0 \<le> es_len (n_es N k)" "es_len (n_es N k) < 32768" "elua_uip_telnet_handle_input e k N = (as, N')"
  shows "(\<forall>a. nat (es_len (n_es N k)) \<le> off_from (es_ptr (n_es N k)) a \<longrightarrow> n_mem N' a = n_mem N a) \<and>
    0 \<le> es_len (n_es N' k) \<and> es_len (n_es N' k) \<le> es_len (n_es N k)"
proof -
  let ?l = "es_len (n_es N k)"
  define out where "out = telnet_loop (ne_behind e) (ne_data e) (nat ?l)"
  have out: "length out \<le> nat ?l" "length out \<le> 4294967296"
    using telnet_loop_length [of "ne_behind e" "ne_data e" "nat ?l"] assms(2) by (simp_all add: out_def)
  have "n_mem N' = mem_write (n_mem N) (es_ptr (n_es N k)) out"
    "es_len (n_es N' k) = (if out = [] then ?l else ?l - int (length out))"
    using assms(3) s16_small [of "?l - int (length out)"] out(1) assms(1,2)
    by (auto simp: elua_uip_telnet_handle_input_def Let_def out_def [symmetric] split: if_splits)
  then show ?thesis using out assms(1) by (auto simp: mem_write_apply)
qed

lemma telnet_input_in_bounds_witness:
  "n_mem (snd (elua_uip_telnet_handle_input (net_ev_example False [65, 66, 67]) 1
     (upd_es 1 (\<lambda>s. s\<lparr> es_len := 2 \<rparr>) net_example))) 6 = 6"
  using telnet_input_in_bounds [of "upd_es 1 (\<lambda>s. s\<lparr> es_len := 2 \<rparr>) net_example" 1 "net_ev_example False [65, 66, 67]", OF _ _ surjective_pairing]
  by (simp add: net_example_defs off_from_def)

end
