(* ===== verification/Bitarray.thy ===== *)
theory Bitarray
  imports Prelude
begin

unbundle bit_operations_syntax

text \<open>
  \<open>src/modules/bitarray.c\<close>: the Lua module for arrays of small unsigned integers, kept in a userdata
  of bytes. A call takes its Lua arguments as values; \<open>Inl\<close> is a Lua error, and \<open>None\<close> stands for
  what C leaves undefined: a division by zero or an access outside the userdata. A string
  counts as a number where Lua converts it (\<open>tonum\<close>), and the elements of 16 and 32 bits are read in
  the byte order of the board.
\<close>

section \<open>The module\<close>

datatype ba_arg = BNum int | BStr "u8 list" | BTab "int list" | BOther

datatype ba_error = BA_LENGTH | BA_ARGS | BA_ELSIZE | BA_INDEX | BA_MODE | BA_TOO_LARGE

record bitarray =
  ba_capacity :: u32
  ba_elsize :: u8
  ba_values :: "u8 list"

definition ROUND_SIZE :: "u32 \<Rightarrow> u32" where
  "ROUND_SIZE s = drop_bit 3 s + (if s AND 7 \<noteq> 0 then 1 else 0)"

text \<open>The tables have five entries; an index behind them has no value in C.\<close>

definition bitarray_index_shift :: "nat list" where "bitarray_index_shift = [0, 3, 2, 0, 1]"
definition bitarray_index_mask :: "u8 list" where "bitarray_index_mask = [0, 0x01, 0x03, 0, 0x0F]"

definition lua_number :: "(u8 list \<Rightarrow> int option) \<Rightarrow> ba_arg \<Rightarrow> int option" where
  "lua_number tonum a = (case a of BNum n \<Rightarrow> Some n | BStr s \<Rightarrow> tonum s | _ \<Rightarrow> None)"

definition ba_make :: "u32 \<Rightarrow> u8 \<Rightarrow> (u32 \<Rightarrow> u8 list) \<Rightarrow> ba_error + bitarray" where
  "ba_make capacity elsize fill =
     (if elsize = 0 \<or> 32 < elsize \<or> elsize AND (elsize - 1) \<noteq> 0 then Inl BA_ELSIZE
      else
        let total = ROUND_SIZE (capacity * ucast elsize) in
        if total = 0 then Inl BA_ARGS
        else Inr \<lparr> ba_capacity = capacity, ba_elsize = elsize, ba_values = fill total \<rparr>)"

definition ba_from_bytes :: "u8 \<Rightarrow> u8 list \<Rightarrow> (ba_error + bitarray) option" where
  "ba_from_bytes elsize bytes =
     (let bits = push_bit 3 (of_nat (length bytes)) :: u32 in
      if elsize = 0 then None
      else if bits mod ucast elsize \<noteq> 0 then Some (Inl BA_LENGTH)
      else Some (ba_make (bits div ucast elsize) elsize (\<lambda>_. bytes)))"

definition bitarray_new :: "(u8 list \<Rightarrow> int option) \<Rightarrow> ba_arg \<Rightarrow> ba_arg \<Rightarrow> ba_arg \<Rightarrow> (ba_error + bitarray) option" where
  "bitarray_new tonum a1 a2 a3 =
     (let elsize = (case lua_number tonum a2 of Some n \<Rightarrow> word_of_int n | None \<Rightarrow> 8) in
      case lua_number tonum a1 of
        Some n \<Rightarrow>
          let fill = (case lua_number tonum a3 of Some n \<Rightarrow> word_of_int n | None \<Rightarrow> 0)
          in Some (ba_make (word_of_int n) elsize (\<lambda>total. replicate (unat total) fill))
      | None \<Rightarrow>
          (case a1 of
             BStr s \<Rightarrow> ba_from_bytes elsize s
           | BTab xs \<Rightarrow> ba_from_bytes elsize (map word_of_int xs)
           | _ \<Rightarrow> Some (Inl BA_ARGS)))"

definition ba_at :: "bitarray \<Rightarrow> nat \<Rightarrow> u8 option" where
  "ba_at pa i = (if i < length (ba_values pa) then Some (ba_values pa ! i) else None)"

text \<open>The byte that holds an element and the place of the element in it.\<close>

definition ba_place :: "bitarray \<Rightarrow> u32 \<Rightarrow> nat \<times> nat" where
  "ba_place pa idx =
     (let k = bitarray_index_shift ! unat (ba_elsize pa);
          shift = drop_bit k idx;
          mask = (push_bit k 1 :: u8);
          rest = ucast (idx AND (ucast mask - 1))
      in (unat shift, unat (mask - 1 - rest) * unat (ba_elsize pa)))"

fun ba_word :: "bool \<Rightarrow> u8 list \<Rightarrow> u32" where
  "ba_word be [] = 0"
| "ba_word be (x # xs) =
     (if be then push_bit (8 * length xs) (ucast x) OR ba_word be xs else ucast x OR push_bit 8 (ba_word be xs))"

definition ba_load :: "bool \<Rightarrow> bitarray \<Rightarrow> nat \<Rightarrow> nat \<Rightarrow> u32 option" where
  "ba_load be pa n i = map_option (ba_word be) (those (map (ba_at pa) [n * i..<n * i + n]))"

definition bitarray_getval :: "bool \<Rightarrow> bitarray \<Rightarrow> u32 \<Rightarrow> u32 option" where
  "bitarray_getval be pa idx =
     (let idx = idx - 1; es = unat (ba_elsize pa) in
      if es < 8 then
        if length bitarray_index_shift \<le> es then None
        else
          let (shift, sh) = ba_place pa idx
          in map_option (\<lambda>v. drop_bit sh (ucast v) AND ucast (bitarray_index_mask ! es)) (ba_at pa shift)
      else if es \<in> {8, 16, 32} then ba_load be pa (es div 8) (unat idx)
      else Some 0)"

text \<open>A value that is no integer is an error of \<open>luaL_checkinteger\<close>, which the arguments exclude.\<close>

definition bitarray_get :: "bool \<Rightarrow> bitarray \<Rightarrow> int \<Rightarrow> (ba_error + u32) option" where
  "bitarray_get be pa i =
     (let idx = word_of_int i in
      if idx = 0 \<or> ba_capacity pa < idx then Some (Inl BA_INDEX) else map_option Inr (bitarray_getval be pa idx))"

definition ba_put :: "bitarray \<Rightarrow> nat \<Rightarrow> u8 list \<Rightarrow> bitarray option" where
  "ba_put pa i xs =
     (if i + length xs \<le> length (ba_values pa)
      then Some (pa\<lparr> ba_values := put_bytes (ba_values pa) i xs \<rparr>) else None)"

definition bitarray_set :: "bitarray \<Rightarrow> int \<Rightarrow> int \<Rightarrow> (ba_error + bitarray) option" where
  "bitarray_set pa i v =
     (let idx = word_of_int i :: u32; newval = word_of_int v :: u32; val = 0 :: u32; es = unat (ba_elsize pa) in
      if idx = 0 \<or> ba_capacity pa < idx then Some (Inl BA_INDEX)
      else
        let idx = idx - 1 in
        map_option Inr
          (if es < 8 then
             if length bitarray_index_shift \<le> es then None
             else
               let (shift, sh) = ba_place pa idx in
               case ba_at pa shift of
                 None \<Rightarrow> None
               | Some b \<Rightarrow>
                   let val = ucast b AND NOT (push_bit sh (ucast (bitarray_index_mask ! es)));
                       val = val OR push_bit sh newval
                   in ba_put pa shift [ucast val]
           else if es = 8 then ba_put pa (unat idx) [ucast val]
           else if es = 16 then ba_put pa (2 * unat idx) [ucast val, ucast (drop_bit 8 val)]
           else if es = 32 then
             ba_put pa (4 * unat idx) [ucast val, ucast (drop_bit 8 val), ucast (drop_bit 16 val), ucast (drop_bit 24 val)]
           else Some pa))"

definition bitarray_len :: "bitarray \<Rightarrow> u32" where
  "bitarray_len pa = ba_capacity pa"

text \<open>The iterator gives the next index with its element, or ends.\<close>

definition bitarray_iter :: "bool \<Rightarrow> bitarray \<Rightarrow> int \<Rightarrow> (u32 \<times> u32) option option" where
  "bitarray_iter be pa i =
     (let idx = word_of_int (i + 1) in
      if idx \<le> ba_capacity pa then map_option (\<lambda>v. Some (idx, v)) (bitarray_getval be pa idx) else Some None)"

definition ba_elems :: "bool \<Rightarrow> bitarray \<Rightarrow> u32 list option" where
  "ba_elems be pa = those (map (\<lambda>i. bitarray_getval be pa (of_nat i)) [1..<unat (ba_capacity pa) + 1])"

datatype ba_mode = BITARRAY_UNPACK_RAW | BITARRAY_UNPACK_SEQ

definition MODE_RAW :: "u8 list" where "MODE_RAW = [0x72, 0x61, 0x77]"
definition MODE_SEQ :: "u8 list" where "MODE_SEQ = [0x73, 0x65, 0x71]"

definition ba_mode :: "bitarray \<Rightarrow> ba_arg \<Rightarrow> ba_error + ba_mode" where
  "ba_mode pa a =
     (let r = (case a of
           BStr s \<Rightarrow> if takeWhile (\<lambda>x. x \<noteq> 0) s = MODE_RAW then Inr BITARRAY_UNPACK_RAW
                     else if takeWhile (\<lambda>x. x \<noteq> 0) s = MODE_SEQ then Inr BITARRAY_UNPACK_SEQ else Inl BA_MODE
         | BNum _ \<Rightarrow> Inl BA_MODE
         | _ \<Rightarrow> Inr BITARRAY_UNPACK_SEQ)
      in if r = Inr BITARRAY_UNPACK_SEQ \<and> 8 < ba_elsize pa then Inl BA_TOO_LARGE else r)"

definition ba_raw :: "bitarray \<Rightarrow> u8 list option" where
  "ba_raw pa = those (map (ba_at pa) [0..<unat (ROUND_SIZE (ba_capacity pa * ucast (ba_elsize pa)))])"

definition bitarray_tostring :: "bool \<Rightarrow> bitarray \<Rightarrow> ba_arg \<Rightarrow> (ba_error + u8 list) option" where
  "bitarray_tostring be pa a =
     (case ba_mode pa a of
        Inl e \<Rightarrow> Some (Inl e)
      | Inr BITARRAY_UNPACK_SEQ \<Rightarrow> map_option (\<lambda>vs. Inr (map ucast vs)) (ba_elems be pa)
      | Inr BITARRAY_UNPACK_RAW \<Rightarrow> map_option Inr (ba_raw pa))"

definition bitarray_totable :: "bool \<Rightarrow> bitarray \<Rightarrow> ba_arg \<Rightarrow> (ba_error + u32 list) option" where
  "bitarray_totable be pa a =
     (case ba_mode pa a of
        Inl e \<Rightarrow> Some (Inl e)
      | Inr BITARRAY_UNPACK_SEQ \<Rightarrow> map_option Inr (ba_elems be pa)
      | Inr BITARRAY_UNPACK_RAW \<Rightarrow> map_option (\<lambda>bs. Inr (map ucast bs)) (ba_raw pa))"

section \<open>Elements\<close>

text \<open>An array of the module as it leaves \<open>bitarray_new\<close>, when the size in bits does not wrap.\<close>

definition ba_wf :: "bitarray \<Rightarrow> bool" where
  "ba_wf pa \<longleftrightarrow> unat (ba_elsize pa) \<in> {1, 2, 4, 8, 16, 32} \<and>
     unat (ba_capacity pa) * unat (ba_elsize pa) < 4294967296 \<and>
     length (ba_values pa) = (unat (ba_capacity pa) * unat (ba_elsize pa) + 7) div 8"

lemma ceil_div_8: "((n :: nat) + 7) div 8 = n div 8 + (if n mod 8 = 0 then 0 else 1)"
proof -
  define q r where "q = n div 8" and "r = n mod 8"
  then have n: "n = 8 * q + r" "r < 8" by simp_all
  have "(8 * q + r + 7) div 8 = q + (r + 7) div 8" by simp
  moreover have "(r + 7) div 8 = (if r = 0 then 0 else 1)" using n(2) div_nat_eqI [of 8 1 "r + 7"] by simp
  ultimately have "(n + 7) div 8 = q + (if r = 0 then 0 else 1)" using n(1) by simp
  then show ?thesis by (simp only: q_def r_def)
qed

lemma unat_ROUND_SIZE: "unat (ROUND_SIZE s) = (unat s + 7) div 8"
proof -
  have "unat (s AND 7) = unat s mod 8" using unat_and_mask [of s 3] by simp
  then have "s AND 7 \<noteq> 0 \<longleftrightarrow> unat s mod 8 \<noteq> 0" by (metis unat_eq_0)
  moreover have d: "unat (drop_bit 3 s) = unat s div 8" by (simp add: unat_div drop_bit_eq_div)
  moreover have "unat (drop_bit 3 s + 1) = unat s div 8 + 1"
  proof -
    have "unat s div 8 < 536870912" using unat_u32_less [of s] by (intro less_mult_imp_div_less) simp
    then have "unat (drop_bit 3 s) + unat (1 :: u32) < 2 ^ LENGTH(32)" by (simp only: d) simp
    then show ?thesis using unat_add_lem [of "drop_bit 3 s" 1] d by simp
  qed
  ultimately show ?thesis
    unfolding ceil_div_8 by (simp add: ROUND_SIZE_def)
qed

text \<open>The part of a byte that is its element number \<open>p\<close>, the first element in the highest bits.\<close>

definition sub_place :: "nat \<Rightarrow> nat \<Rightarrow> nat" where
  "sub_place es p = (8 div es - 1 - p) * es"

definition sub_val :: "nat \<Rightarrow> u8 \<Rightarrow> nat \<Rightarrow> u32" where
  "sub_val es b p = drop_bit (sub_place es p) (ucast b) AND mask es"

lemma rest_place:
  assumes "k < 8"
  shows "unat ((2 ^ k - 1 :: u8) - ucast (idx AND (ucast (2 ^ k :: u8) - 1 :: u32))) = 2 ^ k - 1 - unat idx mod 2 ^ k"
proof -
  have "(ucast (2 ^ k :: u8) :: u32) = 2 ^ k" using assms
    by (intro bit_word_eqI) (auto simp: bit_simps)
  then have r: "unat (idx AND (ucast (2 ^ k :: u8) - 1)) = unat idx mod 2 ^ k" by (simp add: unat_and_mask)
  have k: "(2 :: nat) ^ k \<le> 2 ^ 7" using assms by (intro power_increasing) simp_all
  have "unat idx mod 2 ^ k < 2 ^ k" by simp
  moreover have "(2 :: nat) ^ k \<le> 256" using k by simp
  ultimately have lt: "unat idx mod 2 ^ k < 256" by (rule order_less_le_trans)
  have r8: "unat (ucast (idx AND (ucast (2 ^ k :: u8) - 1)) :: u8) = unat idx mod 2 ^ k"
    using lt by (simp add: unsigned_ucast_eq r take_bit_nat_eq_self)
  have p: "unat (2 ^ k :: u8) = 2 ^ k" using assms by (simp add: unat_pow2)
  then have "(1 :: u8) \<le> 2 ^ k" by (simp add: word_le_nat_alt)
  then have m: "unat (2 ^ k - 1 :: u8) = 2 ^ k - 1" by (simp add: unat_sub p)
  have "x \<le> y - 1" if "x < y" for x y :: nat using that by linarith
  from this [of "unat idx mod 2 ^ k" "2 ^ k"] have "unat idx mod 2 ^ k \<le> 2 ^ k - 1" by simp
  then have "ucast (idx AND (ucast (2 ^ k :: u8) - 1)) \<le> (2 ^ k - 1 :: u8)"
    unfolding word_le_nat_alt r8 m .
  then show ?thesis by (simp add: unat_sub r8 m)
qed

lemma ba_place_eq:
  assumes "unat (ba_elsize pa) = es" "es \<in> {1, 2, 4}"
  shows "ba_place pa idx = (unat idx div (8 div es), sub_place es (unat idx mod (8 div es)))"
  using assms rest_place [of 3 idx] rest_place [of 2 idx] rest_place [of 1 idx]
  by (auto simp: ba_place_def bitarray_index_shift_def sub_place_def Let_def unat_div drop_bit_eq_div push_bit_eq_mult)

lemma index_mask_eq: "es \<in> {1, 2, 4} \<Longrightarrow> ucast (bitarray_index_mask ! es) = (mask es :: u32)"
  by (auto simp: bitarray_index_mask_def mask_eq_exp_minus_1)

text \<open>Storing into a field of a byte changes this field and no other.\<close>

lemma field_store:
  fixes b :: u8 and v :: u32
  assumes "sh + es \<le> 8" "sh' + es \<le> 8" "sh = sh' \<or> sh + es \<le> sh' \<or> sh' + es \<le> sh" "v AND mask es = v"
  shows "drop_bit sh' (ucast (ucast ((ucast b AND NOT (push_bit sh (mask es))) OR push_bit sh v) :: u8) :: u32) AND mask es =
    (if sh = sh' then v else drop_bit sh' (ucast b) AND mask es)"
proof (rule bit_word_eqI)
  fix n :: nat
  assume n: "n < LENGTH(32)"
  have v: "bit v m \<Longrightarrow> m < es" for m
    using assms(4) by (metis bit_and_iff bit_mask_iff)
  show "bit (drop_bit sh' (ucast (ucast ((ucast b AND NOT (push_bit sh (mask es))) OR push_bit sh v) :: u8) :: u32) AND mask es) n =
      bit (if sh = sh' then v else drop_bit sh' (ucast b) AND mask es) n"
    using assms(1-3) n v by (auto simp: bit_simps dest: v)
qed

definition ba_bits :: "bitarray \<Rightarrow> nat" where "ba_bits pa = unat (ba_elsize pa)"

lemma sub_place_le: "es \<in> {1, 2, 4} \<Longrightarrow> p < 8 div es \<Longrightarrow> sub_place es p + es \<le> 8"
  by (auto simp: sub_place_def)

lemma sub_place_apart:
  "es \<in> {1, 2, 4} \<Longrightarrow> p < 8 div es \<Longrightarrow> q < 8 div es \<Longrightarrow>
   sub_place es p = sub_place es q \<and> p = q \<or> sub_place es p + es \<le> sub_place es q \<or> sub_place es q + es \<le> sub_place es p"
  by (auto simp: sub_place_def)

lemma ba_byte_in:
  assumes "ba_wf pa" "ba_bits pa = es" "es \<in> {1, 2, 4}" "i < unat (ba_capacity pa)"
  shows "i div (8 div es) < length (ba_values pa)"
proof -
  have "length (ba_values pa) = (unat (ba_capacity pa) * es + 7) div 8"
    using assms(1,2) by (simp add: ba_wf_def ba_bits_def)
  with assms(3,4) show ?thesis by auto
qed

lemma getval_sub:
  assumes "ba_wf pa" "ba_bits pa = es" "es \<in> {1, 2, 4}" "i < unat (ba_capacity pa)"
  shows "bitarray_getval be pa (of_nat (Suc i)) = Some (sub_val es (ba_values pa ! (i div (8 div es))) (i mod (8 div es)))"
proof -
  have "i < 4294967296" using assms(4) unat_u32_less [of "ba_capacity pa"] by linarith
  then have i: "unat (of_nat i :: u32) = i" by (simp add: unat_of_nat_small)
  show ?thesis
    using assms(3) ba_byte_in [OF assms] ba_place_eq [of pa es "of_nat i"] assms(2) index_mask_eq [OF assms(3)]
    by (auto simp: bitarray_getval_def Let_def ba_bits_def i ba_at_def sub_val_def bitarray_index_shift_def)
qed

text \<open>The array as a list of values.\<close>

lemma ba_elems_eq:
  "ba_elems be pa = those (map (\<lambda>i. bitarray_getval be pa (of_nat (Suc i))) [0..<unat (ba_capacity pa)])"
proof -
  have "[1..<unat (ba_capacity pa) + 1] = map Suc [0..<unat (ba_capacity pa)]" by (simp add: map_Suc_upt)
  then show ?thesis by (simp only: ba_elems_def map_map comp_def)
qed

lemma those_map_Some: "those (map (\<lambda>i. Some (f i)) xs) = Some (map f xs)"
  by (induction xs) auto

lemma those_map_cong:
  "(\<And>x. x \<in> set xs \<Longrightarrow> g x = Some (f x)) \<Longrightarrow> those (map g xs) = Some (map f xs)"
  using those_map_Some [of f xs] by (metis (no_types, lifting) map_cong)

lemma ba_elems_sub:
  assumes "ba_wf pa" "ba_bits pa = es" "es \<in> {1, 2, 4}"
  shows "ba_elems be pa =
    Some (map (\<lambda>i. sub_val es (ba_values pa ! (i div (8 div es))) (i mod (8 div es))) [0..<unat (ba_capacity pa)])"
  unfolding ba_elems_eq by (rule those_map_cong) (simp only: set_upt atLeastLessThan_iff getval_sub [OF assms])

lemma sub_val_store:
  fixes b :: u8 and v :: u32
  assumes "es \<in> {1, 2, 4}" "p < 8 div es" "q < 8 div es" "v AND mask es = v"
  shows "sub_val es (ucast ((ucast b AND NOT (push_bit (sub_place es p) (mask es))) OR push_bit (sub_place es p) v)) q =
    (if p = q then v else sub_val es b q)"
proof -
  have "sub_place es p = sub_place es q \<longleftrightarrow> p = q" using sub_place_apart [OF assms(1-3)] assms(1) by auto
  then show ?thesis
    using field_store [OF sub_place_le [OF assms(1,2)] sub_place_le [OF assms(1,3)] _ assms(4), of b] sub_place_apart [OF assms(1-3)]
    by (auto simp: sub_val_def)
qed

lemma nth_single_put: "put_bytes xs i [y] = xs[i := y]"
  by simp

lemma index_word:
  assumes "j < unat (c :: u32)"
  shows "(word_of_int (int (Suc j)) :: u32) \<noteq> 0" "\<not> c < word_of_int (int (Suc j))" "(word_of_int (int (Suc j)) :: u32) - 1 = of_nat j"
proof -
  have e: "(word_of_int (int (Suc j)) :: u32) = of_nat (Suc j)" by (simp only: of_int_of_nat_eq)
  have "Suc j < 4294967296" using assms unat_u32_less [of c] by linarith
  then have u: "unat (of_nat (Suc j) :: u32) = Suc j" by (intro unat_of_nat_small) simp
  show "(word_of_int (int (Suc j)) :: u32) \<noteq> 0" unfolding e using u by (metis unat_0 nat.distinct(1))
  show "\<not> c < word_of_int (int (Suc j))" unfolding e word_less_nat_alt u using assms by simp
  show "(word_of_int (int (Suc j)) :: u32) - 1 = of_nat j" unfolding e by simp
qed

lemma unat_index: "j < unat (c :: u32) \<Longrightarrow> unat (of_nat j :: u32) = j"
proof -
  assume "j < unat c"
  then have "j < 4294967296" using unat_u32_less [of c] by linarith
  then show ?thesis by (intro unat_of_nat_small) simp
qed

lemma bitarray_set_sub:
  assumes "ba_wf pa" "ba_bits pa = es" "es \<in> {1, 2, 4}" "j < unat (ba_capacity pa)" "word_of_int v AND mask es = (word_of_int v :: u32)"
  defines "n \<equiv> j div (8 div es)" and "p \<equiv> sub_place es (j mod (8 div es))"
  defines "b \<equiv> ucast ((ucast (ba_values pa ! n) AND NOT (push_bit p (mask es))) OR push_bit p (word_of_int v :: u32))"
  shows "bitarray_set pa (int (Suc j)) v = Some (Inr (pa\<lparr> ba_values := (ba_values pa)[n := b] \<rparr>))"
proof -
  have es: "es < 8" "\<not> length bitarray_index_shift \<le> es" "unat (ba_elsize pa) = es"
    using assms(2,3) by (auto simp: bitarray_index_shift_def ba_bits_def)
  have pl: "ba_place pa (of_nat j) = (n, p)"
    using ba_place_eq [OF es(3) assms(3), of "of_nat j"] unat_index [OF assms(4)] by (simp add: n_def p_def)
  have n: "n < length (ba_values pa)" using ba_byte_in [OF assms(1-4)] by (simp add: n_def)
  show ?thesis
    using n es index_word [OF assms(4)]
    by (simp add: bitarray_set_def Let_def pl ba_at_def ba_put_def index_mask_eq [OF assms(3)] b_def)
qed

lemma bitarray_set_refines:
  assumes "ba_wf pa" "ba_bits pa = es" "es \<in> {1, 2, 4}" "j < unat (ba_capacity pa)" "word_of_int v AND mask es = (word_of_int v :: u32)"
  shows "\<exists>pa'. bitarray_set pa (int (Suc j)) v = Some (Inr pa') \<and> ba_wf pa' \<and> ba_bits pa' = es \<and> ba_capacity pa' = ba_capacity pa \<and>
    ba_elems be pa' = map_option (\<lambda>xs. xs[j := word_of_int v]) (ba_elems be pa)"
proof -
  let ?per = "8 div es"
  define n where "n = j div ?per"
  define p where "p = sub_place es (j mod ?per)"
  define b :: u8 where "b = ucast ((ucast (ba_values pa ! n) AND NOT (push_bit p (mask es))) OR push_bit p (word_of_int v :: u32))"
  define pa' where "pa' = pa\<lparr> ba_values := (ba_values pa)[n := b] \<rparr>"
  have set: "bitarray_set pa (int (Suc j)) v = Some (Inr pa')"
    using bitarray_set_sub [OF assms] by (simp only: pa'_def b_def p_def n_def)
  have wf: "ba_wf pa'" "ba_bits pa' = es" "ba_capacity pa' = ba_capacity pa"
    using assms(1,2) by (simp_all add: pa'_def ba_wf_def ba_bits_def)
  have per: "0 < ?per" using assms(3) by auto
  have el: "sub_val es (ba_values pa' ! (i div ?per)) (i mod ?per) =
      (if i = j then word_of_int v else sub_val es (ba_values pa ! (i div ?per)) (i mod ?per))"
    if "i < unat (ba_capacity pa)" for i
  proof (cases "i div ?per = n")
    case True
    have n: "n < length (ba_values pa)" using ba_byte_in [OF assms(1-4)] by (simp add: n_def)
    have "i = j \<longleftrightarrow> i mod ?per = j mod ?per" using True by (metis n_def div_mult_mod_eq)
    moreover have "sub_val es b (i mod ?per) = (if j mod ?per = i mod ?per then word_of_int v else sub_val es (ba_values pa ! n) (i mod ?per))"
      unfolding b_def p_def using per by (intro sub_val_store [OF assms(3) _ _ assms(5)]) simp_all
    ultimately show ?thesis using True n by (auto simp: pa'_def)
  next
    case False
    then show ?thesis by (auto simp: pa'_def n_def)
  qed
  have "map (\<lambda>i. sub_val es (ba_values pa' ! (i div ?per)) (i mod ?per)) [0..<unat (ba_capacity pa)] =
      (map (\<lambda>i. sub_val es (ba_values pa ! (i div ?per)) (i mod ?per)) [0..<unat (ba_capacity pa)])[j := word_of_int v]"
    by (rule nth_equalityI) (simp_all add: el nth_list_update)
  then have "ba_elems be pa' = map_option (\<lambda>xs. xs[j := word_of_int v]) (ba_elems be pa)"
    by (simp add: ba_elems_sub [OF wf(1,2) assms(3)] ba_elems_sub [OF assms(1-3)] wf(3))
  then show ?thesis using set wf by blast
qed

text \<open>Elements of a byte and more: the value is not stored.\<close>

lemma ba_word_zero: "ba_word be (replicate n 0) = 0"
  by (induction n) auto

lemma those_ba_at:
  assumes "i + n \<le> length (ba_values pa)"
  shows "those (map (ba_at pa) [i..<i + n]) = Some (get_bytes (ba_values pa) i n)"
proof -
  have "those (map (ba_at pa) [i..<i + n]) = Some (map ((!) (ba_values pa)) [i..<i + n])"
    using assms by (intro those_map_cong) (simp add: ba_at_def)
  also have "map ((!) (ba_values pa)) [i..<i + n] = get_bytes (ba_values pa) i n"
    using assms by (intro nth_equalityI) (simp_all add: nth_get_bytes)
  finally show ?thesis .
qed

lemma wide_in:
  assumes "ba_wf pa" "ba_bits pa = 8 * w" "j < unat (ba_capacity pa)"
  shows "w * j + w \<le> length (ba_values pa)"
proof -
  have "length (ba_values pa) = (unat (ba_capacity pa) * (8 * w) + 7) div 8"
    using assms(1,2) by (simp add: ba_wf_def ba_bits_def)
  also have "\<dots> = unat (ba_capacity pa) * w" by simp
  finally have l: "length (ba_values pa) = unat (ba_capacity pa) * w" .
  have "(j + 1) * w \<le> unat (ba_capacity pa) * w" using assms(3) by (intro mult_le_mono1) simp
  then show ?thesis by (simp add: l algebra_simps)
qed

lemma bitarray_set_wide:
  assumes "ba_wf pa" "ba_bits pa = 8 * w" "w \<in> {1, 2, 4}" "j < unat (ba_capacity pa)"
  shows "bitarray_set pa (int (Suc j)) v = Some (Inr (pa\<lparr> ba_values := put_bytes (ba_values pa) (w * j) (replicate w 0) \<rparr>))"
proof -
  have r: "replicate 1 (0 :: u8) = [0]" "replicate 2 (0 :: u8) = [0, 0]" "replicate 4 (0 :: u8) = [0, 0, 0, 0]"
    by (simp_all add: numeral_eq_Suc)
  have es: "unat (ba_elsize pa) = 8 * w" using assms(2) by (simp add: ba_bits_def)
  have "ba_put pa (w * j) (replicate w 0) = Some (pa\<lparr> ba_values := put_bytes (ba_values pa) (w * j) (replicate w 0) \<rparr>)"
    using wide_in [OF assms(1,2,4)] by (simp add: ba_put_def del: put_bytes.simps)
  with assms(3) show ?thesis
    using es index_word [OF assms(4)] unat_index [OF assms(4)] r
    by (elim insertE emptyE) (simp_all add: bitarray_set_def Let_def del: put_bytes.simps replicate_Suc)
qed

lemma getval_wide:
  assumes "ba_wf pa" "ba_bits pa = 8 * w" "w \<in> {1, 2, 4}" "j < unat (ba_capacity pa)"
  shows "bitarray_getval be pa (of_nat (Suc j)) = Some (ba_word be (get_bytes (ba_values pa) (w * j) w))"
  using assms(2,3) those_ba_at [OF wide_in [OF assms(1,2,4)]] unat_index [OF assms(4)]
  by (auto simp: bitarray_getval_def Let_def ba_load_def ba_bits_def)

section \<open>Creation\<close>

lemma elsize_cases:
  fixes es :: u8
  assumes "es \<noteq> 0" "\<not> 32 < es" "es AND (es - 1) = 0"
  shows "unat es \<in> {1, 2, 4, 8, 16, 32}"
proof -
  define n where "n = unat es"
  have es: "es = of_nat n" by (simp add: n_def)
  have "n \<le> 32" using assms(2) by (simp add: n_def word_less_nat_alt not_less)
  then have "n \<in> set [0..<33]" by simp
  then show ?thesis using assms(1,3) unfolding n_def [symmetric] es
    by (simp add: upt_rec del: set_upt) (elim disjE; simp)
qed

lemma elsize_ok:
  "es \<in> {1, 2, 4, 8, 16, 32} \<Longrightarrow> (of_nat es :: u8) \<noteq> 0 \<and> \<not> 32 < (of_nat es :: u8) \<and> (of_nat es :: u8) AND (of_nat es - 1) = 0 \<and>
     unat (of_nat es :: u8) = es"
  by auto

lemma ba_make_wf:
  assumes "ba_make cap es fill = Inr pa" "unat cap * unat es < 4294967296" "\<And>t. length (fill t) = unat t"
  shows "ba_wf pa \<and> ba_capacity pa = cap \<and> ba_bits pa = unat es"
proof -
  have pa: "pa = \<lparr> ba_capacity = cap, ba_elsize = es, ba_values = fill (ROUND_SIZE (cap * ucast es)) \<rparr>"
      "es \<noteq> 0" "\<not> 32 < es" "es AND (es - 1) = 0"
    using assms(1) by (auto simp: ba_make_def Let_def split: if_splits)
  have "unat (ucast es :: u32) = unat es" by (rule unat_ucast_up) simp
  then have "unat (cap * ucast es) = unat cap * unat es"
    using assms(2) unat_mult_lem [of cap "ucast es"] by simp
  then show ?thesis using elsize_cases [OF pa(2-4)] assms(2,3)
    by (simp add: pa(1) ba_wf_def ba_bits_def unat_ROUND_SIZE)
qed

lemma ba_from_bytes_ok:
  assumes "es \<in> {1, 2, 4, 8, 16, 32}" "s \<noteq> []" "8 * length s < 4294967296" "es dvd 8 * length s"
  shows "ba_from_bytes (of_nat es) s =
    Some (Inr \<lparr> ba_capacity = of_nat (8 * length s div es), ba_elsize = of_nat es, ba_values = s \<rparr>)"
proof -
  have e8: "(of_nat es :: u8) \<noteq> 0" "\<not> 32 < (of_nat es :: u8)" "(of_nat es :: u8) AND (of_nat es - 1) = 0" "unat (of_nat es :: u8) = es"
    using elsize_ok [OF assms(1)] by auto
  have e32: "(ucast (of_nat es :: u8) :: u32) = of_nat es"
    using assms(1) by auto
  have ues: "unat (of_nat es :: u32) = es" using assms(1) by auto
  have bits: "push_bit 3 (of_nat (length s)) = (of_nat (8 * length s) :: u32)"
    by (simp add: push_bit_eq_mult mult.commute)
  have ubits: "unat (of_nat (8 * length s) :: u32) = 8 * length s" using assms(3) by (intro unat_of_nat_small) simp
  have m: "(of_nat (8 * length s) :: u32) mod of_nat es = 0"
    using assms(4) by (simp only: word_arith_nat_mod ubits ues dvd_imp_mod_0) simp
  have d: "(of_nat (8 * length s) :: u32) div of_nat es = of_nat (8 * length s div es)"
    by (simp only: word_arith_nat_div ubits ues)
  have "(of_nat (8 * length s div es) :: u32) * of_nat es = of_nat (8 * length s)"
    by (simp only: dvd_div_mult_self [OF assms(4)] flip: of_nat_mult)
  moreover have "ROUND_SIZE (of_nat (8 * length s)) \<noteq> 0"
  proof -
    have "unat (ROUND_SIZE (of_nat (8 * length s))) = length s" by (simp only: unat_ROUND_SIZE ubits)
    then show ?thesis using assms(2) by auto
  qed
  ultimately show ?thesis using e8
    by (simp only: ba_from_bytes_def Let_def bits e32 m d ba_make_def) simp
qed

lemma map_upt_blocks:
  "map (\<lambda>i. f (xs ! (i div m)) (i mod m)) [0..<length xs * m] = concat (map (\<lambda>x. map (f x) [0..<m]) xs)"
proof (cases "m = 0")
  case False
  show ?thesis
  proof (induction xs)
    case (Cons x xs)
    have "[0..<length (x # xs) * m] = [0..<m] @ map (\<lambda>i. i + m) [0..<length xs * m]"
      by (simp add: map_add_upt upt_add_eq_append [of 0 m, simplified] add.commute)
    moreover have "(i + m) div m = Suc (i div m)" for i using div_add_self2 [of m i] False by simp
    ultimately show ?case using False Cons.IH
      by (simp add: comp_def del: upt_Suc div_add_self2)
  qed simp
qed simp

text \<open>The elements of a string: those of each byte in turn.\<close>

lemma ba_elems_from_bytes:
  assumes "es \<in> {1, 2, 4}" "8 * length s < 4294967296"
    and "pa = \<lparr> ba_capacity = of_nat (8 * length s div es), ba_elsize = of_nat es, ba_values = s \<rparr>" "ba_wf pa"
  shows "ba_elems be pa = Some (concat (map (\<lambda>b. map (sub_val es b) [0..<8 div es]) s))"
proof -
  have cap: "unat (ba_capacity pa) = length s * (8 div es)"
  proof -
    have "8 * length s div es = length s * (8 div es)" using assms(1) by auto
    moreover have "length s * (8 div es) < 4294967296" using assms(1,2) by auto
    ultimately show ?thesis using assms(3) unat_of_nat_small [of "length s * (8 div es)", where 'a = 32]
      by (simp del: of_nat_mult)
  qed
  have "ba_bits pa = es" using assms(1,3) by (auto simp: ba_bits_def)
  from ba_elems_sub [OF assms(4) this assms(1), of be] show ?thesis
    unfolding cap using map_upt_blocks [of "sub_val es" s "8 div es"] assms(3) by simp
qed

lemma ba_raw_values:
  assumes "ba_wf pa"
  shows "ba_raw pa = Some (ba_values pa)"
proof -
  have "unat (ucast (ba_elsize pa) :: u32) = unat (ba_elsize pa)" by (rule unat_ucast_up) simp
  then have "unat (ba_capacity pa * ucast (ba_elsize pa)) = unat (ba_capacity pa) * unat (ba_elsize pa)"
    using assms unat_mult_lem [of "ba_capacity pa" "ucast (ba_elsize pa)"] by (simp add: ba_wf_def)
  then have l: "unat (ROUND_SIZE (ba_capacity pa * ucast (ba_elsize pa))) = length (ba_values pa)"
    using assms by (simp add: unat_ROUND_SIZE ba_wf_def)
  show ?thesis using those_ba_at [of 0 "length (ba_values pa)" pa]
    by (simp add: ba_raw_def l get_bytes_def)
qed

section \<open>A program that stores into an array\<close>

fun run_writes :: "('a \<Rightarrow> nat \<Rightarrow> 'v \<Rightarrow> 'a option) \<Rightarrow> 'a \<Rightarrow> (nat \<times> 'v) list \<Rightarrow> 'a option" where
  "run_writes wr a [] = Some a"
| "run_writes wr a ((j, v) # ws) = (case wr a j v of None \<Rightarrow> None | Some a' \<Rightarrow> run_writes wr a' ws)"

text \<open>
  What a program relies on in an array of values: a store in range succeeds and changes the
  element at its index. \<open>fits\<close> says which values an array takes.
\<close>

locale value_array =
  fixes wr :: "'a \<Rightarrow> nat \<Rightarrow> 'v \<Rightarrow> 'a option"
    and els :: "'a \<Rightarrow> 'w list"
    and val :: "'v \<Rightarrow> 'w"
    and inv :: "'a \<Rightarrow> bool"
    and fits :: "'a \<Rightarrow> 'v \<Rightarrow> bool"
  assumes wr: "inv a \<Longrightarrow> j < length (els a) \<Longrightarrow> fits a v \<Longrightarrow>
      \<exists>a'. wr a j v = Some a' \<and> inv a' \<and> els a' = (els a)[j := val v] \<and> fits a' = fits a"
begin

lemma writes:
  "inv a \<Longrightarrow> \<forall>(j, v)\<in>set ws. j < length (els a) \<and> fits a v \<Longrightarrow>
   \<exists>a'. run_writes wr a ws = Some a' \<and> inv a' \<and> els a' = fold (\<lambda>(j, v) xs. xs[j := val v]) ws (els a)"
proof (induction ws arbitrary: a)
  case (Cons w ws)
  obtain j v where w: "w = (j, v)" by force
  obtain a' where a': "wr a j v = Some a'" "inv a'" "els a' = (els a)[j := val v]" "fits a' = fits a"
    using wr [of a j v] Cons.prems w by auto
  then show ?case using Cons.IH [of a'] Cons.prems(2) w by auto
qed simp

end

definition ba_write :: "bitarray \<Rightarrow> nat \<Rightarrow> int \<Rightarrow> bitarray option" where
  "ba_write pa j v = (case bitarray_set pa (int (Suc j)) v of Some (Inr pa') \<Rightarrow> Some pa' | _ \<Rightarrow> None)"

definition ba_list :: "bitarray \<Rightarrow> u32 list" where
  "ba_list pa = the (ba_elems False pa)"

definition ba_small :: "bitarray \<Rightarrow> bool" where
  "ba_small pa \<longleftrightarrow> ba_wf pa \<and> ba_bits pa \<in> {1, 2, 4}"

definition ba_fits :: "bitarray \<Rightarrow> int \<Rightarrow> bool" where
  "ba_fits pa v \<longleftrightarrow> 0 \<le> v \<and> v < 2 ^ ba_bits pa"

lemma fits_mask:
  assumes "0 \<le> v" "v < 2 ^ es" "es \<in> {1, 2, 4}"
  shows "word_of_int v AND mask es = (word_of_int v :: u32)"
proof -
  define n where "n = nat v"
  have n: "v = int n" "n < 2 ^ es" using assms(1,2) by (simp_all add: n_def nat_less_iff)
  have "(2 :: nat) ^ es \<le> 16" using assms(3) by auto
  then have "unat (of_nat n :: u32) = n" using n(2) by (intro unat_of_nat_small) simp
  then have "unat (of_nat n AND mask es :: u32) = unat (of_nat n :: u32)"
    using n(2) by (simp add: mask_eq_exp_minus_1 unat_and_mask)
  then have "of_nat n AND mask es = (of_nat n :: u32)" by (rule unsigned_word_eqI)
  then show ?thesis by (simp add: n(1))
qed

lemma ba_list_length: "ba_small pa \<Longrightarrow> length (ba_list pa) = unat (ba_capacity pa)"
  using ba_elems_sub [of pa "ba_bits pa" False] by (simp add: ba_small_def ba_list_def)

lemma ba_write_list:
  assumes "ba_small pa" "j < length (ba_list pa)" "ba_fits pa v"
  shows "\<exists>pa'. ba_write pa j v = Some pa' \<and> ba_small pa' \<and> ba_list pa' = (ba_list pa)[j := word_of_int v] \<and> ba_fits pa' = ba_fits pa"
proof -
  have pa: "ba_wf pa" "ba_bits pa \<in> {1, 2, 4}" "j < unat (ba_capacity pa)"
    using assms(1,2) ba_list_length [OF assms(1)] by (simp_all add: ba_small_def)
  have v: "word_of_int v AND mask (ba_bits pa) = (word_of_int v :: u32)"
    using assms(3) pa(2) by (intro fits_mask) (simp_all add: ba_fits_def)
  obtain pa' where "bitarray_set pa (int (Suc j)) v = Some (Inr pa')" "ba_wf pa'" "ba_bits pa' = ba_bits pa"
      "ba_elems False pa' = map_option (\<lambda>xs. xs[j := word_of_int v]) (ba_elems False pa)"
    using bitarray_set_refines [OF pa(1) refl pa(2,3) v, of False] by blast
  then show ?thesis using pa ba_elems_sub [OF pa(1) refl pa(2), of False]
    by (auto simp: ba_write_def ba_small_def ba_list_def ba_fits_def fun_eq_iff)
qed

interpretation bits: value_array ba_write ba_list "\<lambda>v. word_of_int v :: u32" ba_small ba_fits
  by unfold_locales (rule ba_write_list)

section \<open>Properties\<close>

text \<open>
  C14: an array with elements of 1, 2 or 4 bits behaves as a list of values: whatever in-range
  stores a program makes, each succeeds, and in the end every element has the last value stored
  at its index, or the one it had, although neighbours share a byte.
\<close>

lemma bitarray_is_a_list:
  assumes "ba_wf pa" "unat (ba_elsize pa) \<in> {1, 2, 4}"
    and "\<forall>(j, v)\<in>set ws. j < unat (ba_capacity pa) \<and> 0 \<le> v \<and> v < 2 ^ unat (ba_elsize pa)"
  shows "\<exists>pa'. run_writes ba_write pa ws = Some pa' \<and> ba_wf pa' \<and>
    ba_list pa' = fold (\<lambda>(j, v) xs. xs[j := word_of_int v]) ws (ba_list pa)"
  using bits.writes [of pa ws] ba_list_length [of pa] assms by (auto simp: ba_small_def ba_bits_def ba_fits_def)

definition bitarray_example :: bitarray where
  "bitarray_example = \<lparr> ba_capacity = 6, ba_elsize = 2, ba_values = [0x1B, 0xE0] \<rparr>"

lemma bitarray_is_a_list_witness:
  "\<exists>pa'. run_writes ba_write bitarray_example [(1, 3), (4, 0)] = Some pa' \<and> ba_wf pa' \<and>
    ba_list pa' = fold (\<lambda>(j, v) xs. xs[j := word_of_int v]) [(1, 3), (4, 0)] (ba_list bitarray_example)"
  using bitarray_is_a_list [of bitarray_example "[(1, 3), (4, 0)]"] by (simp add: bitarray_example_def ba_wf_def)

text \<open>
  an array made from a string is that string: the raw conversions return its bytes, and the
  elements of 1, 2 or 4 bits are the parts of each byte in turn, those in the highest bits first.
\<close>

lemma bitarray_string_roundtrip:
  assumes "es \<in> {1, 2, 4, 8, 16, 32}" "s \<noteq> []" "8 * length s < 4294967296" "es dvd 8 * length s" "tonum s = None"
  shows "\<exists>pa. bitarray_new tonum (BStr s) (BNum (int es)) a3 = Some (Inr pa) \<and> ba_wf pa \<and>
    bitarray_tostring be pa (BStr MODE_RAW) = Some (Inr s) \<and>
    bitarray_totable be pa (BStr MODE_RAW) = Some (Inr (map ucast s)) \<and>
    (if 8 \<le> es then True else ba_elems be pa = Some (concat (map (\<lambda>b. map (sub_val es b) [0..<8 div es]) s)))"
proof -
  define pa where "pa = \<lparr> ba_capacity = of_nat (8 * length s div es), ba_elsize = of_nat es, ba_values = s \<rparr>"
  have new: "bitarray_new tonum (BStr s) (BNum (int es)) a3 = Some (Inr pa)"
    using ba_from_bytes_ok [OF assms(1-4)] assms(5) by (simp add: bitarray_new_def lua_number_def pa_def)
  have "8 * length s div es * es = 8 * length s" using assms(4) by simp
  moreover have "8 * length s div es < 4294967296" using assms(3) by (meson div_le_dividend order_le_less_trans)
  ultimately have wf: "ba_wf pa"
    using assms(1,3) elsize_ok [OF assms(1)] by (simp add: ba_wf_def pa_def unat_of_nat_small del: of_nat_mult)
  have mode: "ba_mode pa (BStr MODE_RAW) = Inr BITARRAY_UNPACK_RAW" by (simp add: ba_mode_def MODE_RAW_def)
  have small: "es \<in> {1, 2, 4}" if "\<not> 8 \<le> es" using that assms(1) by auto
  show ?thesis
    using new wf ba_raw_values [OF wf] ba_elems_from_bytes [OF small assms(3) pa_def wf]
    by (auto simp: bitarray_tostring_def bitarray_totable_def mode) (simp_all add: pa_def)
qed

lemma bitarray_string_roundtrip_witness:
  "\<exists>pa. bitarray_new (\<lambda>_. None) (BStr [0x1B, 0xE0]) (BNum (int 2)) BOther = Some (Inr pa) \<and> ba_wf pa \<and>
    bitarray_tostring True pa (BStr MODE_RAW) = Some (Inr [0x1B, 0xE0]) \<and>
    bitarray_totable True pa (BStr MODE_RAW) = Some (Inr (map ucast [0x1B, 0xE0 :: u8])) \<and>
    (if 8 \<le> (2 :: nat) then True else ba_elems True pa = Some (concat (map (\<lambda>b. map (sub_val 2 b) [0..<8 div 2]) [0x1B, 0xE0])))"
  by (rule bitarray_string_roundtrip) simp_all

text \<open>
  in an array with elements of 8, 16 or 32 bits an assignment succeeds and stores 0, whatever the
  value: the code stores a variable that it never sets.
\<close>

lemma wide_set_stores_zero:
  assumes "ba_wf pa" "unat (ba_elsize pa) = 8 * w" "w \<in> {1, 2, 4}" "j < unat (ba_capacity pa)"
  shows "\<exists>pa'. bitarray_set pa (int (Suc j)) v = Some (Inr pa') \<and> ba_wf pa' \<and> bitarray_get be pa' (int (Suc j)) = Some (Inr 0)"
proof -
  have bits: "ba_bits pa = 8 * w" using assms(2) by (simp add: ba_bits_def)
  define pa' where "pa' = pa\<lparr> ba_values := put_bytes (ba_values pa) (w * j) (replicate w 0) \<rparr>"
  have set: "bitarray_set pa (int (Suc j)) v = Some (Inr pa')"
    using bitarray_set_wide [OF assms(1) bits assms(3,4)] by (simp add: pa'_def)
  have pa': "ba_wf pa'" "ba_bits pa' = 8 * w" "j < unat (ba_capacity pa')"
    using assms by (simp_all add: pa'_def ba_wf_def ba_bits_def)
  have "get_bytes (ba_values pa') (w * j) w = replicate w 0"
    using get_put_same [of "w * j" "replicate w 0" "ba_values pa"] wide_in [OF assms(1) bits assms(4)] by (simp add: pa'_def)
  then have "bitarray_getval be pa' (of_nat (Suc j)) = Some 0"
    using getval_wide [OF pa'(1,2) assms(3) pa'(3), of be] by (simp add: ba_word_zero)
  then have "bitarray_get be pa' (int (Suc j)) = Some (Inr 0)"
    using index_word [OF pa'(3)] by (simp add: bitarray_get_def Let_def del: of_nat_Suc)
  then show ?thesis using set pa' by blast
qed

lemma wide_set_stores_zero_witness:
  "\<exists>pa'. bitarray_set \<lparr> ba_capacity = 2, ba_elsize = 16, ba_values = [1, 2, 3, 4] \<rparr> (int (Suc 1)) 500 = Some (Inr pa') \<and> ba_wf pa' \<and>
    bitarray_get False pa' (int (Suc 1)) = Some (Inr 0)"
  by (rule wide_set_stores_zero [of _ 2]) (simp_all add: ba_wf_def)

end
