(* ===== verification/Lpack.thy ===== *)
theory Lpack
  imports Prelude
begin

text \<open>
  \<open>src/modules/lpack.c\<close>: packing Lua values into a string after a format, and unpacking them. The
  numbers of Lua, their conversions and their representation in memory are parameters
  (\<open>pk_env\<close>), as are the conversions between numbers and strings that \<open>luaL_checknumber\<close> and
  \<open>luaL_checklstring\<close> do. \<open>int\<close>, \<open>long\<close> and \<open>size_t\<close> have 32 bits. \<open>Inl\<close> is a Lua error; \<open>None\<close> is a read
  outside the string, or a push on a Lua stack that has no room for it: \<open>unpack\<close> pushes its results
without \<open>lua_checkstack\<close>, and Lua promises a C function \<open>LUA_MINSTACK\<close> free places. The count behind
a code is taken to fit an \<open>int\<close>.
\<close>

section \<open>Values and numbers\<close>

datatype 'n pk_val = PNum 'n | PStr "u8 list"

datatype pk_error = PK_BADCODE u8 | PK_ARG

record 'n pk_env =
  pk_le :: bool                                \<comment> \<open>a little-endian board\<close>
  pk_integral :: bool                          \<comment> \<open>\<open>LUA_NUMBER_INTEGRAL\<close>\<close>
  pk_char_signed :: bool
  pk_toint :: "'n \<Rightarrow> int"
  pk_ofint :: "int \<Rightarrow> 'n"
  pk_number :: "nat \<times> ('n \<Rightarrow> u8 list) \<times> (u8 list \<Rightarrow> 'n)"   \<comment> \<open>size and bytes of a \<open>lua_Number\<close>\<close>
  pk_double :: "nat \<times> ('n \<Rightarrow> u8 list) \<times> (u8 list \<Rightarrow> 'n)"
  pk_float :: "nat \<times> ('n \<Rightarrow> u8 list) \<times> (u8 list \<Rightarrow> 'n)"
  pk_tonumber :: "'n pk_val \<Rightarrow> 'n option"
  pk_tostring :: "'n pk_val \<Rightarrow> u8 list option"

definition OP_ZSTRING :: u8 where "OP_ZSTRING = 0x7A"
definition OP_BSTRING :: u8 where "OP_BSTRING = 0x70"
definition OP_WSTRING :: u8 where "OP_WSTRING = 0x50"
definition OP_SSTRING :: u8 where "OP_SSTRING = 0x61"
definition OP_STRING :: u8 where "OP_STRING = 0x41"
definition OP_FLOAT :: u8 where "OP_FLOAT = 0x66"
definition OP_DOUBLE :: u8 where "OP_DOUBLE = 0x64"
definition OP_NUMBER :: u8 where "OP_NUMBER = 0x6E"
definition OP_CHAR :: u8 where "OP_CHAR = 0x63"
definition OP_BYTE :: u8 where "OP_BYTE = 0x62"
definition OP_SHORT :: u8 where "OP_SHORT = 0x68"
definition OP_USHORT :: u8 where "OP_USHORT = 0x48"
definition OP_INT :: u8 where "OP_INT = 0x69"
definition OP_UINT :: u8 where "OP_UINT = 0x49"
definition OP_LONG :: u8 where "OP_LONG = 0x6C"
definition OP_ULONG :: u8 where "OP_ULONG = 0x4C"
definition OP_LITTLEENDIAN :: u8 where "OP_LITTLEENDIAN = 0x3C"
definition OP_BIGENDIAN :: u8 where "OP_BIGENDIAN = 0x3E"
definition OP_NATIVE :: u8 where "OP_NATIVE = 0x3D"

lemmas pk_op_defs = OP_ZSTRING_def OP_BSTRING_def OP_WSTRING_def OP_SSTRING_def OP_STRING_def OP_FLOAT_def OP_DOUBLE_def
  OP_NUMBER_def OP_CHAR_def OP_BYTE_def OP_SHORT_def OP_USHORT_def OP_INT_def OP_UINT_def OP_LONG_def OP_ULONG_def
  OP_LITTLEENDIAN_def OP_BIGENDIAN_def OP_NATIVE_def

definition doendian :: "'n pk_env \<Rightarrow> u8 \<Rightarrow> bool" where
  "doendian E c =
     (let e = pk_le E in
      if c = OP_LITTLEENDIAN then \<not> e else if c = OP_BIGENDIAN then e else False)"

fun swap_loop :: "'a list \<Rightarrow> nat \<Rightarrow> nat \<Rightarrow> nat \<Rightarrow> 'a list" where
  "swap_loop a i j 0 = a"
| "swap_loop a i j (Suc n) = swap_loop (a[i := a ! j, j := a ! i]) (Suc i) (j - 1) n"

definition doswap :: "bool \<Rightarrow> 'a list \<Rightarrow> 'a list" where
  "doswap swap p = (if swap then swap_loop p 0 (length p - 1) (length p div 2) else p)"

text \<open>The bytes of an integer of \<open>m\<close> bytes in memory, and back.\<close>

fun le_bytes :: "nat \<Rightarrow> int \<Rightarrow> u8 list" where
  "le_bytes 0 v = []"
| "le_bytes (Suc m) v = word_of_int v # le_bytes m (v div 256)"

fun le_val :: "u8 list \<Rightarrow> int" where
  "le_val [] = 0"
| "le_val (x # xs) = uint x + 256 * le_val xs"

definition int_bytes :: "bool \<Rightarrow> nat \<Rightarrow> int \<Rightarrow> u8 list" where
  "int_bytes le m v = (if le then le_bytes m v else rev (le_bytes m v))"

definition bytes_int :: "bool \<Rightarrow> bool \<Rightarrow> u8 list \<Rightarrow> int" where
  "bytes_int le sg bs =
     (let v = le_val (if le then bs else rev bs)
      in if sg \<and> 2 ^ (8 * length bs - 1) \<le> v then v - 2 ^ (8 * length bs) else v)"

text \<open>The types of the number codes: size, bytes of a value, value of the bytes.\<close>

definition pk_int :: "'n pk_env \<Rightarrow> nat \<Rightarrow> bool \<Rightarrow> nat \<times> ('n \<Rightarrow> u8 list) \<times> (u8 list \<Rightarrow> 'n)" where
  "pk_int E m sg = (m, \<lambda>x. int_bytes (pk_le E) m (pk_toint E x), \<lambda>bs. pk_ofint E (bytes_int (pk_le E) sg bs))"

definition pk_type :: "'n pk_env \<Rightarrow> u8 \<Rightarrow> (nat \<times> ('n \<Rightarrow> u8 list) \<times> (u8 list \<Rightarrow> 'n)) option" where
  "pk_type E c =
     (if c = OP_NUMBER then Some (pk_number E)
      else if c = OP_DOUBLE \<and> \<not> pk_integral E then Some (pk_double E)
      else if c = OP_FLOAT \<and> \<not> pk_integral E then Some (pk_float E)
      else if c = OP_CHAR then Some (pk_int E 1 (pk_char_signed E))
      else if c = OP_BYTE then Some (pk_int E 1 False)
      else if c = OP_SHORT then Some (pk_int E 2 True)
      else if c = OP_USHORT then Some (pk_int E 2 False)
      else if c = OP_INT \<or> c = OP_LONG then Some (pk_int E 4 True)
      else if c = OP_UINT \<or> c = OP_ULONG then Some (pk_int E 4 False)
      else None)"

text \<open>The size of the length before a string.\<close>

definition pk_prefix :: "u8 \<Rightarrow> nat option" where
  "pk_prefix c = (if c = OP_BSTRING then Some 1 else if c = OP_WSTRING then Some 2 else if c = OP_SSTRING then Some 4 else None)"

definition pk_endian :: "u8 \<Rightarrow> bool" where
  "pk_endian c \<longleftrightarrow> c = OP_LITTLEENDIAN \<or> c = OP_BIGENDIAN \<or> c = OP_NATIVE"

definition pk_blank :: "u8 \<Rightarrow> bool" where
  "pk_blank c \<longleftrightarrow> c = 0x20 \<or> c = 0x2C"

section \<open>The count behind a code\<close>

definition isdigit :: "u8 \<Rightarrow> bool" where "isdigit c \<longleftrightarrow> 0x30 \<le> c \<and> c \<le> 0x39"

fun pk_digits :: "nat \<Rightarrow> u8 list \<Rightarrow> nat \<times> u8 list" where
  "pk_digits n [] = (n, [])"
| "pk_digits n (x # xs) = (if isdigit x then pk_digits (10 * n + (unat x - 0x30)) xs else (n, x # xs))"

definition pk_count :: "u8 list \<Rightarrow> nat \<times> u8 list" where
  "pk_count f = (if f \<noteq> [] \<and> isdigit (hd f) then pk_digits 0 f else (1, f))"

lemma pk_digits_length: "length (snd (pk_digits n f)) \<le> length f"
  by (induction n f rule: pk_digits.induct) auto

lemma pk_count_length: "length (snd (pk_count f)) \<le> length f"
  using pk_digits_length [of 0 f] by (simp add: pk_count_def)

section \<open>Packing\<close>

record 'n pk_st =
  pk_swap :: bool
  pk_args :: "'n pk_val list"
  pk_buf :: "u8 list"

definition pk_step :: "'n pk_env \<Rightarrow> u8 \<Rightarrow> 'n pk_st \<Rightarrow> pk_error + 'n pk_st" where
  "pk_step E c S =
     (if pk_endian c then Inr (S\<lparr> pk_swap := doendian E c \<rparr>)
      else if c = OP_STRING \<or> c = OP_ZSTRING \<or> pk_prefix c \<noteq> None then
        case pk_args S of
          [] \<Rightarrow> Inl PK_ARG
        | v # vs \<Rightarrow>
            (case pk_tostring E v of
               None \<Rightarrow> Inl PK_ARG
             | Some a \<Rightarrow>
                 let out = (case pk_prefix c of
                       Some m \<Rightarrow> doswap (pk_swap S) (int_bytes (pk_le E) m (int (length a))) @ a
                     | None \<Rightarrow> if c = OP_ZSTRING then a @ [0] else a)
                 in Inr (S\<lparr> pk_args := vs, pk_buf := pk_buf S @ out \<rparr>))
      else
        case pk_type E c of
          Some (m, enc, dec) \<Rightarrow>
            (case pk_args S of
               [] \<Rightarrow> Inl PK_ARG
             | v # vs \<Rightarrow>
                 (case pk_tonumber E v of
                    None \<Rightarrow> Inl PK_ARG
                  | Some x \<Rightarrow> Inr (S\<lparr> pk_args := vs, pk_buf := pk_buf S @ doswap (pk_swap S) (enc x) \<rparr>)))
        | None \<Rightarrow> if pk_blank c then Inr S else Inl (PK_BADCODE c))"

fun pk_repeat :: "'n pk_env \<Rightarrow> u8 \<Rightarrow> nat \<Rightarrow> 'n pk_st \<Rightarrow> pk_error + 'n pk_st" where
  "pk_repeat E c 0 S = Inr S"
| "pk_repeat E c (Suc n) S =
     (case pk_step E c S of
        Inl e \<Rightarrow> Inl e
      | Inr S \<Rightarrow> if pk_endian c then Inr S else pk_repeat E c n S)"

function pk_loop :: "'n pk_env \<Rightarrow> u8 list \<Rightarrow> 'n pk_st \<Rightarrow> pk_error + 'n pk_st" where
  "pk_loop E [] S = Inr S"
| "pk_loop E (c # f) S =
     (case pk_repeat E c (fst (pk_count f)) S of
        Inl e \<Rightarrow> Inl e
      | Inr S \<Rightarrow> pk_loop E (snd (pk_count f)) S)"
  by pat_completeness auto
termination
  by (relation "measure (\<lambda>(E, f, S). length f)") (auto simp: le_imp_less_Suc pk_count_length)

definition cstr :: "u8 list \<Rightarrow> u8 list" where "cstr f = takeWhile (\<lambda>x. x \<noteq> 0) f"

definition l_pack :: "'n pk_env \<Rightarrow> u8 list \<Rightarrow> 'n pk_val list \<Rightarrow> pk_error + u8 list" where
  "l_pack E f args =
     (case pk_loop E (cstr f) \<lparr> pk_swap = False, pk_args = args, pk_buf = [] \<rparr> of
        Inl e \<Rightarrow> Inl e
      | Inr S \<Rightarrow> Inr (pk_buf S))"

section \<open>Unpacking\<close>

record 'n up_st =
  up_swap :: bool
  up_i :: int
  up_vals :: "'n pk_val list"

datatype 'n up_res = UP_ERR pk_error | UP_UNDEF | UP_DONE "'n up_st" | UP_GO "'n up_st"

text \<open>Positions are compared as \<open>size_t\<close>; a copy reads the string and the zero behind it.\<close>

definition up_behind :: "u8 list \<Rightarrow> int \<Rightarrow> bool" where
  "up_behind s i \<longleftrightarrow> of_nat (length s) < (word_of_int i :: u32)"

definition up_copy :: "u8 list \<Rightarrow> int \<Rightarrow> int \<Rightarrow> u8 list option" where
  "up_copy s i m = (if 0 \<le> i \<and> i + m \<le> int (length s) + 1 then Some (take (nat m) (drop (nat i) (s @ [0]))) else None)"

text \<open>
  Below the values lies the \<open>nil\<close> that the position replaces in the end, so the stack holds one place
  more than there are values.
\<close>

definition LUA_MINSTACK :: nat where "LUA_MINSTACK = 20"

definition up_push :: "'n pk_val \<Rightarrow> int \<Rightarrow> 'n up_st \<Rightarrow> 'n up_res" where
  "up_push v i U =
     (if LUA_MINSTACK \<le> length (up_vals U) + 1 then UP_UNDEF
      else UP_GO (U\<lparr> up_vals := up_vals U @ [v], up_i := i \<rparr>))"

definition up_number :: "u8 list \<Rightarrow> nat \<times> ('n \<Rightarrow> u8 list) \<times> (u8 list \<Rightarrow> 'n) \<Rightarrow> 'n up_st \<Rightarrow> 'n up_res" where
  "up_number s t U =
     (let m = int (fst t); i = up_i U in
      if up_behind s (i + m) then UP_DONE U
      else
        case up_copy s i m of
          None \<Rightarrow> UP_UNDEF
        | Some bs \<Rightarrow> up_push (PNum (snd (snd t) (doswap (up_swap U) bs))) (i + m) U)"

definition up_string :: "'n pk_env \<Rightarrow> u8 list \<Rightarrow> nat \<Rightarrow> 'n up_st \<Rightarrow> 'n up_res" where
  "up_string E s m U =
     (let i = up_i U in
      if up_behind s (i + int m) then UP_DONE U
      else
        case up_copy s i (int m) of
          None \<Rightarrow> UP_UNDEF
        | Some bs \<Rightarrow>
            let l = bytes_int (pk_le E) False (doswap (up_swap U) bs) in
            if up_behind s (i + int m + l) then UP_DONE U
            else
              case up_copy s (i + int m) l of
                None \<Rightarrow> UP_UNDEF
              | Some a \<Rightarrow> up_push (PStr a) (i + int m + l) U)"

definition up_step :: "'n pk_env \<Rightarrow> u8 list \<Rightarrow> u8 \<Rightarrow> 'n up_st \<Rightarrow> 'n up_res" where
  "up_step E s c U =
     (if pk_endian c then UP_GO (U\<lparr> up_swap := doendian E c \<rparr>)
      else if c = OP_ZSTRING then
        (let i = up_i U in
         if of_nat (length s) \<le> (word_of_int i :: u32) then UP_DONE U
         else
           let a = cstr (drop (nat i) s)
           in up_push (PStr a) (i + int (length a) + 1) U)
      else
        case pk_prefix c of
          Some m \<Rightarrow> up_string E s m U
        | None \<Rightarrow>
            (case pk_type E c of
               Some t \<Rightarrow> up_number s t U
             | None \<Rightarrow> if pk_blank c then UP_GO U else UP_ERR (PK_BADCODE c)))"

text \<open>The code \<open>A\<close> takes the whole count at once.\<close>

definition up_take :: "u8 list \<Rightarrow> nat \<Rightarrow> 'n up_st \<Rightarrow> 'n up_res" where
  "up_take s n U =
     (let i = up_i U in
      if up_behind s (i + int n) then UP_DONE U
      else
        case up_copy s i (int n) of
          None \<Rightarrow> UP_UNDEF
        | Some a \<Rightarrow> up_push (PStr a) (i + int n) U)"

fun up_repeat :: "'n pk_env \<Rightarrow> u8 list \<Rightarrow> u8 \<Rightarrow> nat \<Rightarrow> 'n up_st \<Rightarrow> 'n up_res" where
  "up_repeat E s c 0 U = (if c = OP_STRING then up_push (PStr []) (up_i U) U else UP_GO U)"
| "up_repeat E s c (Suc n) U =
     (if c = OP_STRING then up_take s (Suc n) U
      else
        case up_step E s c U of
          UP_GO U \<Rightarrow> if pk_endian c then UP_GO U else up_repeat E s c n U
        | r \<Rightarrow> r)"

function up_loop :: "'n pk_env \<Rightarrow> u8 list \<Rightarrow> u8 list \<Rightarrow> 'n up_st \<Rightarrow> 'n up_res" where
  "up_loop E s [] U = UP_DONE U"
| "up_loop E s (c # f) U =
     (case up_repeat E s c (fst (pk_count f)) U of
        UP_GO U \<Rightarrow> up_loop E s (snd (pk_count f)) U
      | r \<Rightarrow> r)"
  by pat_completeness auto
termination
  by (relation "measure (\<lambda>(E, s, f, U). length f)") (auto simp: le_imp_less_Suc pk_count_length)

text \<open>The result: the position behind the last value, which is pushed last, and the values.\<close>

definition up_result :: "'n up_st \<Rightarrow> (pk_error + int \<times> 'n pk_val list) option" where
  "up_result U = (if LUA_MINSTACK \<le> length (up_vals U) + 1 then None else Some (Inr (up_i U + 1, up_vals U)))"

definition l_unpack :: "'n pk_env \<Rightarrow> u8 list \<Rightarrow> u8 list \<Rightarrow> int \<Rightarrow> (pk_error + int \<times> 'n pk_val list) option" where
  "l_unpack E s f init =
     (case up_loop E s (cstr f) \<lparr> up_swap = False, up_i = init - 1, up_vals = [] \<rparr> of
        UP_ERR e \<Rightarrow> Some (Inl e)
      | UP_UNDEF \<Rightarrow> None
      | UP_DONE U \<Rightarrow> up_result U
      | UP_GO U \<Rightarrow> up_result U)"

section \<open>Bytes\<close>

text \<open>The loop that swaps the bytes of a value reverses them: each step leaves the inner part to do.\<close>

lemma swap_loop_rev:
  "swap_loop (pre @ mid @ post) (length pre) (length pre + length mid - 1) (length mid div 2) = pre @ rev mid @ post"
proof (induction mid arbitrary: pre post rule: measure_induct_rule [where f = length])
  case (less mid)
  consider "mid = []" | x where "mid = [x]" | x m y where "mid = x # m @ [y]"
    by (cases mid; cases "tl mid" rule: rev_cases) auto
  then show ?case
  proof cases
    case 3
    have "(pre @ mid @ post)[length pre := y, Suc (length pre + length m) := x] = (pre @ [y]) @ m @ (x # post)"
      by (simp add: 3 list_update_append)
    moreover have "(pre @ mid @ post) ! Suc (length pre + length m) = y" "(pre @ mid @ post) ! length pre = x"
      by (simp_all add: 3 nth_append)
    ultimately show ?thesis using less [of m "pre @ [y]" "x # post"] by (simp add: 3)
  qed simp_all
qed

lemma doswap_rev: "doswap b xs = (if b then rev xs else xs)"
  using swap_loop_rev [of "[]" xs "[]"] by (simp add: doswap_def)

lemma doswap_twice [simp]: "doswap b (doswap b xs) = xs"
  by (simp add: doswap_rev)

lemma doswap_length [simp]: "length (doswap b xs) = length xs"
  by (simp add: doswap_rev)

lemma le_bytes_length [simp]: "length (le_bytes m v) = m"
  by (induction m v rule: le_bytes.induct) auto

lemma uint_byte: "uint (word_of_int v :: u8) = v mod 256"
  by (simp add: uint_word_of_int)

lemma le_val_bytes: "le_val (le_bytes m v) = v mod 256 ^ m"
proof (induction m v rule: le_bytes.induct)
  case (2 m v)
  have "v mod (256 * 256 ^ m) = v mod 256 + 256 * (v div 256 mod 256 ^ m)"
    using zmod_zmult2_eq [of "256 ^ m" v 256] by (simp add: add.commute)
  then show ?case using 2 by (simp add: uint_byte)
qed simp

lemma int_bytes_length [simp]: "length (int_bytes le m v) = m"
  by (simp add: int_bytes_def)

definition in_range :: "bool \<Rightarrow> nat \<Rightarrow> int \<Rightarrow> bool" where
  "in_range sg m v \<longleftrightarrow> (if sg then - (2 ^ (8 * m - 1)) \<le> v \<and> v < 2 ^ (8 * m - 1) else 0 \<le> v \<and> v < 2 ^ (8 * m))"

lemma bytes_int_bytes:
  assumes "in_range sg m v" "0 < m"
  shows "bytes_int le sg (int_bytes le m v) = v"
proof -
  have p: "(256 :: int) ^ m = 2 ^ (8 * m)" by (simp add: power_mult)
  have h: "(2 :: int) ^ (8 * m) = 2 * 2 ^ (8 * m - 1)" 
  proof -
    have "8 * m = Suc (8 * m - 1)" using assms(2) by simp
    then show ?thesis by (metis power_Suc)
  qed
  have val: "le_val (if le then int_bytes le m v else rev (int_bytes le m v)) = v mod 2 ^ (8 * m)"
    by (simp add: int_bytes_def le_val_bytes p)
  show ?thesis
  proof (cases "0 \<le> v")
    case True
    then have "v < 2 ^ (8 * m)" using assms(1) h by (auto simp: in_range_def split: if_splits)
    then have "v mod 2 ^ (8 * m) = v" using True by simp
    then show ?thesis using assms(1) val by (auto simp: bytes_int_def Let_def in_range_def split: if_splits)
  next
    case False
    then have sg: "sg" "- (2 ^ (8 * m - 1)) \<le> v" using assms(1) by (auto simp: in_range_def split: if_splits)
    have "v mod 2 ^ (8 * m) = v + 2 ^ (8 * m)"
      using False sg h by (intro int_mod_pos_eq [of _ _ "- 1"]) auto
    then show ?thesis using val sg h False by (simp add: bytes_int_def Let_def)
  qed
qed

section \<open>A format as the sequence of its codes\<close>

function pk_codes :: "u8 list \<Rightarrow> u8 list" where
  "pk_codes [] = []"
| "pk_codes (c # f) =
     replicate (if pk_endian c then min (fst (pk_count f)) 1 else fst (pk_count f)) c @ pk_codes (snd (pk_count f))"
  by pat_completeness auto
termination
  by (relation "measure length") (auto simp: le_imp_less_Suc pk_count_length)

fun pk_run :: "'n pk_env \<Rightarrow> u8 list \<Rightarrow> 'n pk_st \<Rightarrow> pk_error + 'n pk_st" where
  "pk_run E [] S = Inr S"
| "pk_run E (c # cs) S = (case pk_step E c S of Inl e \<Rightarrow> Inl e | Inr S \<Rightarrow> pk_run E cs S)"

fun up_run :: "'n pk_env \<Rightarrow> u8 list \<Rightarrow> u8 list \<Rightarrow> 'n up_st \<Rightarrow> 'n up_res" where
  "up_run E s [] U = UP_GO U"
| "up_run E s (c # cs) U = (case up_step E s c U of UP_GO U \<Rightarrow> up_run E s cs U | r \<Rightarrow> r)"

lemma pk_run_append: "pk_run E (cs @ ds) S = (case pk_run E cs S of Inl e \<Rightarrow> Inl e | Inr S \<Rightarrow> pk_run E ds S)"
  by (induction cs arbitrary: S) (auto split: sum.splits)

lemma up_run_append: "up_run E s (cs @ ds) U = (case up_run E s cs U of UP_GO U \<Rightarrow> up_run E s ds U | r \<Rightarrow> r)"
  by (induction cs arbitrary: U) (auto split: up_res.splits)

lemma pk_repeat_run: "pk_repeat E c n S = pk_run E (replicate (if pk_endian c then min n 1 else n) c) S"
  by (induction n arbitrary: S) (auto split: sum.splits)

lemma up_repeat_run:
  "c \<noteq> OP_STRING \<Longrightarrow> up_repeat E s c n U = up_run E s (replicate (if pk_endian c then min n 1 else n) c) U"
  by (induction n arbitrary: U) (auto split: up_res.splits)

lemma pk_loop_run: "pk_loop E f S = pk_run E (pk_codes f) S"
  by (induction E f S rule: pk_loop.induct)
    (auto simp: pk_repeat_run pk_run_append split: sum.splits prod.splits)

lemma set_pk_digits: "set (snd (pk_digits n f)) \<subseteq> set f"
  by (induction n f rule: pk_digits.induct) auto

lemma set_pk_count: "set (snd (pk_count f)) \<subseteq> set f"
  using set_pk_digits [of 0 f] by (auto simp: pk_count_def)

lemma up_loop_run:
  "OP_STRING \<notin> set f \<Longrightarrow> up_loop E s f U = (case up_run E s (pk_codes f) U of UP_GO U \<Rightarrow> UP_DONE U | r \<Rightarrow> r)"
proof (induction E s f U rule: up_loop.induct)
  case (2 E s c f U)
  have f: "OP_STRING \<notin> set (snd (pk_count f))" and c: "c \<noteq> OP_STRING" using 2(2) set_pk_count [of f] by auto
  note rep = up_repeat_run [OF c, of E s "fst (pk_count f)" U]
  show ?case
  proof (cases "up_repeat E s c (fst (pk_count f)) U")
    case (UP_GO U')
    show ?thesis using 2(1) [OF UP_GO f] UP_GO rep by (simp add: up_run_append del: up_repeat.simps)
  qed (use rep in \<open>simp_all add: up_run_append del: up_repeat.simps\<close>)
qed simp

lemma set_pk_codes: "set (pk_codes f) \<subseteq> set f"
proof (induction f rule: pk_codes.induct)
  case (2 c f)
  then show ?case using set_pk_count [of f] by (auto split: if_splits)
qed simp

section \<open>Round trip\<close>

text \<open>The arguments that a sequence of codes takes, and which of them it represents.\<close>

fun pk_used :: "u8 list \<Rightarrow> 'n pk_val list \<Rightarrow> 'n pk_val list" where
  "pk_used [] vs = []"
| "pk_used (c # cs) vs =
     (if pk_endian c \<or> pk_blank c then pk_used cs vs else case vs of [] \<Rightarrow> [] | v # vs \<Rightarrow> v # pk_used cs vs)"

definition pk_fit :: "'n pk_env \<Rightarrow> u8 \<Rightarrow> 'n pk_val \<Rightarrow> bool" where
  "pk_fit E c v = (case v of
       PStr a \<Rightarrow> (case pk_prefix c of Some m \<Rightarrow> length a < 256 ^ m | None \<Rightarrow> c = OP_ZSTRING \<and> 0 \<notin> set a)
     | PNum x \<Rightarrow> (case pk_type E c of None \<Rightarrow> False | Some (m, enc, dec) \<Rightarrow> length (enc x) = m \<and> dec (enc x) = x))"

fun pk_fits :: "'n pk_env \<Rightarrow> u8 list \<Rightarrow> 'n pk_val list \<Rightarrow> bool" where
  "pk_fits E [] vs \<longleftrightarrow> True"
| "pk_fits E (c # cs) vs \<longleftrightarrow>
     (if pk_endian c \<or> pk_blank c then pk_fits E cs vs
      else case vs of [] \<Rightarrow> False | v # vs \<Rightarrow> pk_fit E c v \<and> pk_fits E cs vs)"

lemma int_fits:
  assumes "pk_type E c = Some (pk_int E m sg)" "in_range sg m (pk_toint E x)" "0 < m" "pk_ofint E (pk_toint E x) = x"
  shows "pk_fit E c (PNum x)"
  using assms bytes_int_bytes [OF assms(2,3)] by (simp add: pk_fit_def pk_int_def)

definition pk_out :: "'n pk_env \<Rightarrow> bool \<Rightarrow> u8 \<Rightarrow> 'n pk_val \<Rightarrow> u8 list" where
  "pk_out E sw c v = (case v of
       PStr a \<Rightarrow> (case pk_prefix c of Some m \<Rightarrow> doswap sw (int_bytes (pk_le E) m (int (length a))) @ a | None \<Rightarrow> a @ [0])
     | PNum x \<Rightarrow> doswap sw (fst (snd (the (pk_type E c))) x))"

definition pk_conv :: "'n pk_env \<Rightarrow> bool" where
  "pk_conv E \<longleftrightarrow> (\<forall>x. pk_tonumber E (PNum x) = Some x) \<and> (\<forall>a. pk_tostring E (PStr a) = Some a)"

lemma pk_type_not:
  "pk_type E c = Some t \<Longrightarrow> \<not> pk_endian c \<and> \<not> pk_blank c \<and> c \<noteq> OP_STRING \<and> c \<noteq> OP_ZSTRING \<and> pk_prefix c = None"
  by (auto simp: pk_type_def pk_endian_def pk_blank_def pk_prefix_def pk_op_defs split: if_splits)

lemma pk_prefix_not:
  "pk_prefix c = Some m \<Longrightarrow> \<not> pk_endian c \<and> \<not> pk_blank c \<and> c \<noteq> OP_STRING \<and> c \<noteq> OP_ZSTRING \<and> 0 < m \<and> m \<le> 4"
  by (auto simp: pk_prefix_def pk_endian_def pk_blank_def pk_op_defs split: if_splits)

lemma pk_zstring_not: "\<not> pk_endian OP_ZSTRING" "pk_prefix OP_ZSTRING = None" "OP_ZSTRING \<noteq> OP_STRING"
  by (simp_all add: pk_prefix_def pk_endian_def pk_op_defs)

lemma pk_step_fit:
  assumes "pk_fit E c v" "pk_conv E" "pk_args S = v # vs"
  shows "pk_step E c S = Inr (S\<lparr> pk_args := vs, pk_buf := pk_buf S @ pk_out E (pk_swap S) c v \<rparr>)"
proof (cases v)
  case (PNum x)
  then obtain m enc dec where t: "pk_type E c = Some (m, enc, dec)" using assms(1) by (auto simp: pk_fit_def split: option.splits)
  then show ?thesis using pk_type_not [OF t] assms(2,3) PNum by (simp add: pk_step_def pk_conv_def pk_out_def)
next
  case (PStr a)
  show ?thesis
  proof (cases "pk_prefix c")
    case None
    then show ?thesis using assms PStr pk_zstring_not by (simp add: pk_fit_def pk_step_def pk_conv_def pk_out_def)
  next
    case (Some m)
    then show ?thesis using assms(2,3) PStr pk_prefix_not [OF Some] by (simp add: pk_step_def pk_conv_def pk_out_def)
  qed
qed

text \<open>Reading in the middle of the packed string.\<close>

lemma up_copy_part:
  "up_copy (pre @ bs @ rest) (int (length pre)) (int (length bs)) = Some bs"
  by (simp add: up_copy_def)

lemma up_not_behind:
  assumes "length s < 2147483648" "n \<le> length s"
  shows "\<not> up_behind s (int n)"
proof -
  have "unat (of_nat (length s) :: u32) = length s" "unat (of_nat n :: u32) = n"
    using assms by (auto intro!: unat_of_nat_small)
  then show ?thesis using assms(2) by (simp add: up_behind_def word_less_nat_alt)
qed

lemma up_number_at:
  assumes "length (pre @ bs @ rest) < 2147483648" "up_i U = int (length pre)" "fst t = length bs"
  shows "up_number (pre @ bs @ rest) t U = up_push (PNum (snd (snd t) (doswap (up_swap U) bs))) (int (length (pre @ bs))) U"
  using up_not_behind [OF assms(1), of "length (pre @ bs)"] up_copy_part [of pre bs rest] assms(2,3)
  by (simp add: up_number_def Let_def)

lemma up_string_at:
  assumes "length (pre @ (ls @ a) @ rest) < 2147483648" "up_i U = int (length pre)" "m = length ls"
    and "bytes_int (pk_le E) False (doswap (up_swap U) ls) = int (length a)"
  shows "up_string E (pre @ (ls @ a) @ rest) m U = up_push (PStr a) (int (length (pre @ ls @ a))) U"
  using up_not_behind [OF assms(1), of "length (pre @ ls)"] up_not_behind [OF assms(1), of "length (pre @ ls @ a)"]
    up_copy_part [of pre ls "a @ rest"] up_copy_part [of "pre @ ls" a rest] assms(2-4)
  by (simp add: up_string_def Let_def add.assoc)

lemma cstr_part: "0 \<notin> set a \<Longrightarrow> cstr (drop (length pre) (pre @ a @ 0 # rest)) = a"
proof -
  assume "0 \<notin> set a"
  then have "takeWhile (\<lambda>x. x \<noteq> 0) (a @ 0 # rest) = a @ takeWhile (\<lambda>x. x \<noteq> 0) (0 # rest)"
    by (intro takeWhile_append2) auto
  then show ?thesis by (simp add: cstr_def)
qed

lemma up_step_fit:
  assumes "pk_fit E c v" "length (pre @ pk_out E (up_swap U) c v @ rest) < 2147483648" "up_i U = int (length pre)"
  shows "up_step E (pre @ pk_out E (up_swap U) c v @ rest) c U =
    up_push v (int (length (pre @ pk_out E (up_swap U) c v))) U"
proof (cases v)
  case (PNum x)
  then obtain m enc dec where t: "pk_type E c = Some (m, enc, dec)" "length (enc x) = m" "dec (enc x) = x"
    using assms(1) by (auto simp: pk_fit_def split: option.splits)
  have out: "pk_out E (up_swap U) c v = doswap (up_swap U) (enc x)" using PNum t(1) by (simp add: pk_out_def)
  have "up_step E (pre @ pk_out E (up_swap U) c v @ rest) c U = up_number (pre @ pk_out E (up_swap U) c v @ rest) (m, enc, dec) U"
    using pk_type_not [OF t(1)] t(1) by (simp add: up_step_def)
  then show ?thesis using up_number_at [OF assms(2,3), of "(m, enc, dec)"] t(2,3) unfolding out by (simp add: PNum)
next
  case (PStr a)
  show ?thesis
  proof (cases "pk_prefix c")
    case None
    then have c: "c = OP_ZSTRING" "0 \<notin> set a" using assms(1) PStr by (auto simp: pk_fit_def)
    have out: "pk_out E (up_swap U) c v = a @ [0]" using None PStr by (simp add: pk_out_def)
    have "\<not> of_nat (length (pre @ (a @ [0]) @ rest)) \<le> (word_of_int (up_i U) :: u32)"
    proof -
      have u: "unat (of_nat n :: u32) = n" if "n < 2147483648" for n using that by (intro unat_of_nat_small) simp
      have n: "length (pre @ (a @ [0]) @ rest) < 2147483648" "length pre < 2147483648"
        using assms(2) unfolding out by simp_all
      have "(word_of_int (up_i U) :: u32) = of_nat (length pre)" by (simp add: assms(3))
      then show ?thesis by (simp only: word_le_nat_alt u [OF n(1)] u [OF n(2)]) simp
    qed
    then show ?thesis using c pk_zstring_not cstr_part [OF c(2), of pre rest] PStr
      unfolding out by (simp add: up_step_def Let_def assms(3) up_push_def)
  next
    case (Some m)
    let ?ls = "doswap (up_swap U) (int_bytes (pk_le E) m (int (length a)))"
    have out: "pk_out E (up_swap U) c v = ?ls @ a" using Some PStr by (simp add: pk_out_def)
    have "length a < 256 ^ m" using assms(1) Some PStr by (simp add: pk_fit_def)
    then have "int (length a) < 256 ^ m" by (metis of_nat_less_iff of_nat_power of_nat_numeral)
    then have "in_range False m (int (length a))" by (simp add: in_range_def power_mult)
    then have "bytes_int (pk_le E) False (doswap (up_swap U) ?ls) = int (length a)"
      using pk_prefix_not [OF Some] by (simp add: bytes_int_bytes)
    moreover have "up_step E (pre @ (?ls @ a) @ rest) c U = up_string E (pre @ (?ls @ a) @ rest) m U"
      using pk_prefix_not [OF Some] Some by (simp add: up_step_def)
    ultimately show ?thesis using up_string_at [of pre ?ls a rest U m E] assms(2,3) PStr unfolding out by simp
  qed
qed

lemma step_endian:
  assumes "pk_endian c"
  shows "pk_step E c S = Inr (S\<lparr> pk_swap := doendian E c \<rparr>)" "up_step E s c U = UP_GO (U\<lparr> up_swap := doendian E c \<rparr>)"
  using assms by (simp_all add: pk_step_def up_step_def)

lemma step_blank:
  assumes "pk_blank c" "\<not> pk_endian c"
  shows "pk_step E c S = Inr S" "up_step E s c U = UP_GO U"
proof -
  have "c \<noteq> OP_STRING" "c \<noteq> OP_ZSTRING" "pk_prefix c = None" "pk_type E c = None"
    using assms(1) by (auto simp: pk_blank_def pk_prefix_def pk_type_def pk_op_defs)
  then show "pk_step E c S = Inr S" "up_step E s c U = UP_GO U" using assms by (simp_all add: pk_step_def up_step_def)
qed

text \<open>From a state of packing on, the codes are packed and read back.\<close>

definition reads_back :: "'n pk_env \<Rightarrow> u8 list \<Rightarrow> 'n pk_st \<Rightarrow> bool" where
  "reads_back E cs S \<longleftrightarrow> (\<exists>S' out. pk_run E cs S = Inr S' \<and> pk_buf S' = pk_buf S @ out \<and>
    (\<forall>U rest. length (pk_buf S @ out @ rest) < 2147483648 \<and> up_i U = int (length (pk_buf S)) \<and> up_swap U = pk_swap S \<and>
        length (up_vals U) + length (pk_used cs (pk_args S)) + 1 < LUA_MINSTACK \<longrightarrow>
      (\<exists>U'. up_run E (pk_buf S @ out @ rest) cs U = UP_GO U' \<and> up_i U' = int (length (pk_buf S @ out)) \<and>
        up_vals U' = up_vals U @ pk_used cs (pk_args S))))"

lemma reads_back_step:
  assumes "reads_back E cs S1" "pk_step E c S = Inr S1" "pk_buf S1 = pk_buf S @ ot" "pk_used (c # cs) (pk_args S) = vs @ pk_used cs (pk_args S1)"
    and "\<And>U rest. length (pk_buf S @ ot @ rest) < 2147483648 \<Longrightarrow> up_i U = int (length (pk_buf S)) \<Longrightarrow> up_swap U = pk_swap S \<Longrightarrow>
      length (up_vals U) + length vs + 1 < LUA_MINSTACK \<Longrightarrow>
      \<exists>U1. up_step E (pk_buf S @ ot @ rest) c U = UP_GO U1 \<and> up_i U1 = int (length (pk_buf S @ ot)) \<and> up_swap U1 = pk_swap S1 \<and>
        up_vals U1 = up_vals U @ vs"
  shows "reads_back E (c # cs) S"
proof -
  obtain S' out where IH: "pk_run E cs S1 = Inr S'" "pk_buf S' = pk_buf S1 @ out"
      "\<And>U rest. length (pk_buf S1 @ out @ rest) < 2147483648 \<Longrightarrow> up_i U = int (length (pk_buf S1)) \<Longrightarrow> up_swap U = pk_swap S1 \<Longrightarrow>
        length (up_vals U) + length (pk_used cs (pk_args S1)) + 1 < LUA_MINSTACK \<Longrightarrow>
        \<exists>U'. up_run E (pk_buf S1 @ out @ rest) cs U = UP_GO U' \<and> up_i U' = int (length (pk_buf S1 @ out)) \<and>
          up_vals U' = up_vals U @ pk_used cs (pk_args S1)"
    using assms(1) unfolding reads_back_def by blast
  have "\<exists>U'. up_run E (pk_buf S @ (ot @ out) @ rest) (c # cs) U = UP_GO U' \<and> up_i U' = int (length (pk_buf S @ ot @ out)) \<and>
      up_vals U' = up_vals U @ pk_used (c # cs) (pk_args S)"
    if h: "length (pk_buf S @ (ot @ out) @ rest) < 2147483648" "up_i U = int (length (pk_buf S))" "up_swap U = pk_swap S"
      "length (up_vals U) + length (pk_used (c # cs) (pk_args S)) + 1 < LUA_MINSTACK" for U rest
  proof -
    obtain U1 where U1: "up_step E (pk_buf S @ ot @ (out @ rest)) c U = UP_GO U1" "up_i U1 = int (length (pk_buf S @ ot))"
        "up_swap U1 = pk_swap S1" "up_vals U1 = up_vals U @ vs"
      using assms(5) [of "out @ rest" U] h assms(4) by auto
    obtain U' where "up_run E (pk_buf S1 @ out @ rest) cs U1 = UP_GO U'" "up_i U' = int (length (pk_buf S1 @ out))"
        "up_vals U' = up_vals U1 @ pk_used cs (pk_args S1)"
      using IH(3) [of rest U1] h(1,4) U1(2-4) assms(3,4) by (auto simp del: pk_used.simps)
    then show ?thesis using U1 assms(3,4) by (simp del: pk_used.simps)
  qed
  then show ?thesis unfolding reads_back_def using assms(2,3) IH(1,2)
    by (intro exI [of _ S'] exI [of _ "ot @ out"]) (simp del: pk_used.simps)
qed

lemma run_reads_back:
  assumes "pk_conv E" "pk_fits E cs (pk_args S)"
  shows "reads_back E cs S"
  using assms(2)
proof (induction cs arbitrary: S)
  case Nil
  then show ?case by (simp add: reads_back_def)
next
  case (Cons c cs)
  consider "pk_endian c" | "pk_blank c" "\<not> pk_endian c" | "\<not> pk_blank c" "\<not> pk_endian c" by blast
  then show ?case
  proof cases
    case 1
    with Cons show ?thesis by (intro reads_back_step [where ot = "[]" and vs = "[]", OF _ step_endian(1) [OF 1]]) (simp_all add: step_endian)
  next
    case 2
    with Cons show ?thesis by (intro reads_back_step [where ot = "[]" and vs = "[]", OF _ step_blank(1) [OF 2]]) (simp_all add: step_blank)
  next
    case 3
    then obtain v vs where vs: "pk_args S = v # vs" "pk_fit E c v" "pk_fits E cs vs"
      using Cons.prems by (cases "pk_args S") auto
    let ?out = "pk_out E (pk_swap S) c v"
    have up: "\<exists>U1. up_step E (pk_buf S @ ?out @ rest) c U = UP_GO U1 \<and> up_i U1 = int (length (pk_buf S @ ?out)) \<and>
        up_swap U1 = pk_swap S \<and> up_vals U1 = up_vals U @ [v]"
      if "length (pk_buf S @ ?out @ rest) < 2147483648" "up_i U = int (length (pk_buf S))" "up_swap U = pk_swap S"
        "length (up_vals U) + 2 < LUA_MINSTACK" for U rest
      using up_step_fit [OF vs(2), of "pk_buf S" U rest] that(1,2,4) unfolding that(3)
      by (simp add: up_push_def that(3))
    show ?thesis
      by (rule reads_back_step [where ot = "?out" and vs = "[v]", OF _ pk_step_fit [OF vs(2) assms(1) vs(1)]])
        (use Cons.IH 3 vs up in auto)
  qed
qed

section \<open>Properties\<close>

text \<open>The counts of a format, as they are read, fit an \<open>int\<close>.\<close>

function counts_fit :: "u8 list \<Rightarrow> bool" where
  "counts_fit [] \<longleftrightarrow> True"
| "counts_fit (c # f) \<longleftrightarrow> fst (pk_count f) < 2147483600 \<and> counts_fit (snd (pk_count f))"
  by pat_completeness auto
termination
  by (relation "measure length") (auto simp: le_imp_less_Suc pk_count_length)

text \<open>
  C15: what \<open>pack\<close> writes, \<open>unpack\<close> reads: with a format of counts, byte orders, blanks and all codes
  but \<open>A\<close> (which takes a whole string when it packs but as many bytes as its count when it unpacks),
  and arguments that its codes represent, packing succeeds; and when the codes take at most 18
  arguments, so that the results have room on the stack, and the string is shorter than 2 GB, unpacking
  it with the same format gives the position behind it and the arguments.
\<close>

theorem pack_unpack_roundtrip:
  assumes "pk_conv E" "OP_STRING \<notin> set (cstr f)" "counts_fit (cstr f)" "pk_fits E (pk_codes (cstr f)) args"
    and "length (pk_used (pk_codes (cstr f)) args) \<le> LUA_MINSTACK - 2"
  shows "\<exists>s. l_pack E f args = Inr s \<and>
    (if 2147483648 \<le> length s then True
     else l_unpack E s f 1 = Some (Inr (int (length s) + 1, pk_used (pk_codes (cstr f)) args)))"
proof -
  define S where "S = \<lparr> pk_swap = False, pk_args = args, pk_buf = [] \<rparr>"
  have n: "length (pk_used (pk_codes (cstr f)) args) + 1 < LUA_MINSTACK" using assms(5) by (simp add: LUA_MINSTACK_def)
  have "reads_back E (pk_codes (cstr f)) S" using assms(1,4) by (intro run_reads_back) (simp_all add: S_def)
  then obtain S' s where s: "pk_run E (pk_codes (cstr f)) S = Inr S'" "pk_buf S' = pk_buf S @ s"
      and rb: "\<forall>U rest. length (pk_buf S @ s @ rest) < 2147483648 \<and> up_i U = int (length (pk_buf S)) \<and> up_swap U = pk_swap S \<and>
          length (up_vals U) + length (pk_used (pk_codes (cstr f)) (pk_args S)) + 1 < LUA_MINSTACK \<longrightarrow>
        (\<exists>U'. up_run E (pk_buf S @ s @ rest) (pk_codes (cstr f)) U = UP_GO U' \<and> up_i U' = int (length (pk_buf S @ s)) \<and>
          up_vals U' = up_vals U @ pk_used (pk_codes (cstr f)) (pk_args S))"
    unfolding reads_back_def by blast
  have "l_pack E f args = Inr s" using s(1,2) by (simp add: l_pack_def pk_loop_run S_def)
  moreover have "l_unpack E s f 1 = Some (Inr (int (length s) + 1, pk_used (pk_codes (cstr f)) args))" if "length s < 2147483648"
    using spec [OF spec [OF rb, of "\<lparr> up_swap = False, up_i = 0, up_vals = [] \<rparr>"], of "[]"] that n
    by (auto simp: l_unpack_def up_loop_run [OF assms(2)] S_def up_result_def)
  ultimately show ?thesis by auto
qed

definition pk_example :: "int pk_env" where
  "pk_example = \<lparr> pk_le = True, pk_integral = True, pk_char_signed = True, pk_toint = id, pk_ofint = id,
     pk_number = (4, int_bytes True 4, bytes_int True True),
     pk_double = (0, \<lambda>_. [], \<lambda>_. 0), pk_float = (0, \<lambda>_. [], \<lambda>_. 0),
     pk_tonumber = (\<lambda>v. case v of PNum x \<Rightarrow> Some x | PStr _ \<Rightarrow> None),
     pk_tostring = (\<lambda>v. case v of PStr a \<Rightarrow> Some a | PNum _ \<Rightarrow> None) \<rparr>"

lemma pack_unpack_roundtrip_witness:
  "\<exists>s. l_pack pk_example [0x3E, 0x48, 0x32, 0x20, 0x3C, 0x69, 0x7A] [PNum 258, PNum 3, PNum (- 2), PStr [65, 66]] = Inr s \<and>
    (if 2147483648 \<le> length s then True
     else l_unpack pk_example s [0x3E, 0x48, 0x32, 0x20, 0x3C, 0x69, 0x7A] 1 =
       Some (Inr (int (length s) + 1, [PNum 258, PNum 3, PNum (- 2), PStr [65, 66]])))"
proof -
  let ?f = "[0x3E, 0x48, 0x32, 0x20, 0x3C, 0x69, 0x7A] :: u8 list"
  let ?args = "[PNum 258, PNum 3, PNum (- 2), PStr [65, 66]] :: int pk_val list"
  have conv: "pk_conv pk_example" by (simp add: pk_conv_def pk_example_def)
  have f: "cstr ?f = ?f" by (simp add: cstr_def)
  have cs: "pk_codes (cstr ?f) = [0x3E, 0x48, 0x48, 0x20, 0x3C, 0x69, 0x7A]" unfolding f by code_simp
  have noa: "OP_STRING \<notin> set (cstr ?f)" unfolding f by (simp add: OP_STRING_def)
  have t: "pk_type pk_example 0x48 = Some (pk_int pk_example 2 False)" "pk_type pk_example 0x69 = Some (pk_int pk_example 4 True)"
    by (simp_all add: pk_type_def pk_op_defs)
  have ex: "pk_toint pk_example x = x" "pk_ofint pk_example x = x" for x by (simp_all add: pk_example_def)
  have fit: "pk_fit pk_example 0x48 (PNum 258)" "pk_fit pk_example 0x48 (PNum 3)" "pk_fit pk_example 0x69 (PNum (- 2))"
    using int_fits [OF t(1), of 258] int_fits [OF t(1), of 3] int_fits [OF t(2), of "- 2"] 
    by (simp_all add: in_range_def ex)
  have z: "pk_fit pk_example 0x7A (PStr [65, 66])" by (simp add: pk_fit_def pk_prefix_def pk_op_defs)
  have fits: "pk_fits pk_example (pk_codes (cstr ?f)) ?args" and used: "pk_used (pk_codes (cstr ?f)) ?args = ?args"
    unfolding cs by (simp_all add: fit z pk_endian_def pk_blank_def pk_op_defs)
  have "counts_fit (cstr ?f)" unfolding f by (simp add: pk_count_def isdigit_def)
  moreover have "length (pk_used (pk_codes (cstr ?f)) ?args) \<le> LUA_MINSTACK - 2" unfolding used by (simp add: LUA_MINSTACK_def)
  ultimately show ?thesis using pack_unpack_roundtrip [OF conv noa _ fits] unfolding used by simp
qed

text \<open>Nineteen results do not fit: \<open>unpack( s, "z19" )\<close> overflows the stack with the position it pushes last.\<close>

lemma up_repeat_zeros:
  assumes "up_i U = int j" "j + n \<le> k" "k < 2147483648" "length (up_vals U) + n < LUA_MINSTACK"
  shows "up_repeat E (replicate k 0) OP_ZSTRING n U = UP_GO (U\<lparr> up_vals := up_vals U @ replicate n (PStr []), up_i := int (j + n) \<rparr>)"
  using assms
proof (induction n arbitrary: U j)
  case 0
  then show ?case using pk_zstring_not by simp
next
  case (Suc n)
  let ?U = "U\<lparr> up_vals := up_vals U @ [PStr []], up_i := int (j + 1) \<rparr>"
  have n: "unat (of_nat k :: u32) = k" "unat (of_nat j :: u32) = j" using Suc.prems by (auto intro!: unat_of_nat_small)
  have "\<not> (of_nat k :: u32) \<le> of_nat j" using Suc.prems(2) by (simp add: word_le_nat_alt n)
  moreover have "drop j (replicate k (0 :: u8)) = 0 # replicate (k - j - 1) 0"
    using Suc.prems(2) by (cases "k - j") (auto simp: Suc_diff_Suc replicate_Suc [symmetric] simp del: replicate_Suc)
  ultimately have "up_step E (replicate k 0) OP_ZSTRING U = UP_GO ?U"
    using Suc.prems pk_zstring_not by (simp add: up_step_def Let_def cstr_def up_push_def)
  then show ?case using Suc.IH [of ?U "j + 1"] Suc.prems pk_zstring_not by (simp add: ac_simps)
qed

lemma unpack_nineteen_overflows:
  "l_unpack E (replicate 19 0) [OP_ZSTRING, 0x31, 0x39] 1 = None"
proof -
  have "cstr [OP_ZSTRING, 0x31, 0x39] = [OP_ZSTRING, 0x31, 0x39]" "pk_count [0x31, 0x39] = (19, [])"
    by (simp_all add: cstr_def OP_ZSTRING_def pk_count_def isdigit_def)
  then show ?thesis
    using up_repeat_zeros [of "\<lparr> up_swap = False, up_i = 0, up_vals = [] \<rparr>" 0 19 19 E]
    by (simp add: l_unpack_def up_result_def LUA_MINSTACK_def del: up_repeat.simps)
qed

text \<open>
  a string with a length of 4 bytes that is a few bytes short of 4 GB passes the check of its end,
  which wraps, and \<open>unpack\<close> then copies that many bytes from behind the string.
\<close>

lemma unpack_huge_length_reads_outside:
  assumes "1 \<le> k" "k \<le> 4" "length rest < 2147483640"
  shows "l_unpack E (int_bytes (pk_le E) 4 (2 ^ 32 - k) @ rest) [OP_SSTRING] 1 = None"
proof -
  let ?s = "int_bytes (pk_le E) 4 (2 ^ 32 - k) @ rest"
  have "cstr [OP_SSTRING] = [OP_SSTRING]" "pk_count [] = (1, [])"
    by (simp_all add: cstr_def OP_SSTRING_def pk_count_def)
  moreover have p: "pk_prefix OP_SSTRING = Some 4" by (simp add: pk_prefix_def pk_op_defs)
  moreover have "\<not> up_behind ?s 4" using up_not_behind [of ?s 4] assms(3) by simp
  moreover have "up_copy ?s 0 4 = Some (int_bytes (pk_le E) 4 (2 ^ 32 - k))" by (simp add: up_copy_def)
  moreover have "bytes_int (pk_le E) False (int_bytes (pk_le E) 4 (2 ^ 32 - k)) = 2 ^ 32 - k"
    using assms(1,2) by (intro bytes_int_bytes) (simp_all add: in_range_def)
  moreover have "\<not> up_behind ?s (4 + (2 ^ 32 - k))"
  proof -
    have "(word_of_int (4 + (2 ^ 32 - k)) :: u32) = word_of_int (int (nat (4 - k)))" using assms(2) by simp
    moreover have "\<not> up_behind ?s (int (nat (4 - k)))" using assms by (intro up_not_behind) auto
    ultimately show ?thesis by (simp add: up_behind_def)
  qed
  moreover have "up_copy ?s 4 (2 ^ 32 - k) = None" using assms(2,3) by (simp add: up_copy_def)
  ultimately show ?thesis using pk_prefix_not [OF p]
    by (simp add: l_unpack_def up_step_def up_string_def doswap_rev Let_def)
qed

lemma unpack_huge_length_reads_outside_witness:
  "l_unpack pk_example (int_bytes (pk_le pk_example) 4 (2 ^ 32 - 2) @ [65, 66]) [OP_SSTRING] 1 = None"
  by (rule unpack_huge_length_reads_outside) simp_all

end
