(* ===== verification/StdCon.thy ===== *)
theory StdCon
  imports Devman EluaNet
begin

text \<open>
  The standard console of builds without the web server: \<open>src/newlib/genstd.c\<close> over a character
  device and \<open>src/newlib/stdtcp.c\<close> over telnet. What \<open>std_get_char_func\<close> answers, -1 included, and
  what \<open>elua_net_recv\<close> answers are lists; where the list ends while the code waits for more, the
  result is \<open>None\<close>. The characters sent are a list with their file numbers.
\<close>

section \<open>The console of a character device\<close>

definition STD_BS :: int where "STD_BS = 8"
definition STD_DEL :: int where "STD_DEL = 0x7F"
definition STD_CR :: int where "STD_CR = 13"
definition STD_LF :: int where "STD_LF = 10"
definition STD_CTRLZ :: int where "STD_CTRLZ = 26"

lemmas std_char_defs = STD_BS_def STD_DEL_def STD_CR_def STD_LF_def STD_CTRLZ_def

definition isprint :: "int \<Rightarrow> bool" where "isprint c \<longleftrightarrow> 32 \<le> c \<and> c \<le> 126"

record std_con =
  co_m :: mem
  co_prev :: int                  \<comment> \<open>\<open>std_prev_char\<close>\<close>
  co_out :: "(int \<times> int) list"

definition std_send :: "int \<Rightarrow> int \<Rightarrow> std_con \<Rightarrow> std_con" where
  "std_send fd c S = S\<lparr> co_out := co_out S @ [(fd, c)] \<rparr>"

definition std_put :: "u32 \<Rightarrow> nat \<Rightarrow> int \<Rightarrow> std_con \<Rightarrow> std_con" where
  "std_put p i c S = S\<lparr> co_m := (co_m S)(p + of_nat i := word_of_int c) \<rparr>"

function std_read_loop :: "nat \<Rightarrow> u32 \<Rightarrow> int list \<Rightarrow> nat \<Rightarrow> std_con \<Rightarrow> (int \<times> std_con \<times> int list) option" where
  "std_read_loop len p keys i S =
     (if \<not> i < len then Some (int len, S, keys)
      else if co_prev S \<noteq> - 1 then
        std_read_loop len p keys (Suc i) ((std_put p i (co_prev S) S)\<lparr> co_prev := - 1 \<rparr>)
      else
        case keys of
          [] \<Rightarrow> None
        | c # keys \<Rightarrow>
            if c = - 1 then Some (int len, S, keys)
            else if c = STD_BS \<or> c = STD_DEL then
              if 0 < i
              then std_read_loop len p keys (i - 1)
                (std_send DM_STDOUT_NUM STD_BS (std_send DM_STDOUT_NUM 32 (std_send DM_STDOUT_NUM STD_BS S)))
              else std_read_loop len p keys i S
            else if \<not> isprint c \<and> c \<noteq> STD_LF \<and> c \<noteq> STD_CR \<and> c \<noteq> STD_CTRLZ then std_read_loop len p keys i S
            else if c = STD_CTRLZ then Some (0, S, keys)
            else
              let S = std_send DM_STDOUT_NUM c S in
              if c = STD_CR \<or> c = STD_LF then
                case keys of
                  [] \<Rightarrow> None
                | d # keys \<Rightarrow>
                    let S = S\<lparr> co_prev := (if d + c = STD_CR + STD_LF then - 1 else d) \<rparr>;
                        S = std_send DM_STDOUT_NUM (STD_CR + STD_LF - c) S
                    in Some (int i + 1, std_put p i STD_LF S, keys)
              else std_read_loop len p keys (Suc i) (std_put p i c S))"
  by pat_completeness auto
termination
  by (relation "measure (\<lambda>(len, p, keys, i, S). 2 * length keys + (if co_prev S = - 1 then 0 else 1))")
    (auto simp: std_put_def std_send_def)

declare std_read_loop.simps [simp del]

text \<open>\<open>ready\<close>: the functions for sending and getting a character are set.\<close>

definition std_read :: "bool \<Rightarrow> int \<Rightarrow> u32 \<Rightarrow> nat \<Rightarrow> int list \<Rightarrow> std_con \<Rightarrow> ((dm_errno + int) \<times> std_con \<times> int list) option" where
  "std_read ready fd p len keys S =
     (if \<not> ready \<or> fd < DM_STDIN_NUM \<or> DM_STDERR_NUM < fd then Some (Inl EBADF, S, keys)
      else if fd \<noteq> DM_STDIN_NUM then Some (Inl EINVAL, S, keys)
      else map_option (\<lambda>(n, r). (Inr n, r)) (std_read_loop len p keys 0 S))"

fun std_write_loop :: "int \<Rightarrow> u8 list \<Rightarrow> std_con \<Rightarrow> std_con" where
  "std_write_loop fd [] S = S"
| "std_write_loop fd (x # xs) S =
     std_write_loop fd xs (std_send fd (uint x) (if uint x = STD_LF then std_send fd STD_CR S else S))"

definition std_write :: "bool \<Rightarrow> int \<Rightarrow> u8 list \<Rightarrow> std_con \<Rightarrow> (dm_errno + int) \<times> std_con" where
  "std_write ready fd xs S =
     (if \<not> ready \<or> fd < DM_STDIN_NUM \<or> DM_STDERR_NUM < fd then (Inl EBADF, S)
      else if fd \<noteq> DM_STDOUT_NUM \<and> fd \<noteq> DM_STDERR_NUM then (Inl EINVAL, S)
      else (Inr (int (length xs)), std_write_loop fd xs S))"

section \<open>The console over telnet\<close>

text \<open>
  The answers of \<open>elua_net_recv\<close>: the bytes that it stored at the pointer, or \<open>None\<close> for -1, with which
  the search for the end of file compares as an unsigned number and leaves the buffer.
\<close>

fun tcp_read_loop :: "u32 \<Rightarrow> nat \<Rightarrow> nat \<Rightarrow> u8 list option list \<Rightarrow> mem \<Rightarrow> (int \<times> mem \<times> u8 list option list) option" where
  "tcp_read_loop p len actsize [] m = None"
| "tcp_read_loop p len actsize (None # rs) m = None"
| "tcp_read_loop p len actsize (Some pkt # rs) m =
     (let m = mem_write m p pkt; n = length pkt; actsize = actsize + n in
      if word_of_int STD_CTRLZ \<in> set pkt then Some (0, m, rs)
      else if len \<le> actsize then Some (int len, m, rs)
      else if 2 \<le> n \<and> pkt ! (n - 2) = word_of_int STD_CR \<and> pkt ! (n - 1) = word_of_int STD_LF then Some (int actsize, m, rs)
      else tcp_read_loop (p + of_nat n) (len - n) actsize rs m)"

definition tcp_read :: "int \<Rightarrow> u32 \<Rightarrow> nat \<Rightarrow> u8 list option list \<Rightarrow> mem \<Rightarrow> ((dm_errno + int) \<times> mem \<times> u8 list option list) option" where
  "tcp_read fd p len rs m =
     (if fd \<noteq> DM_STDIN_NUM then Some (Inl EINVAL, m, rs)
      else map_option (\<lambda>(n, r). (Inr n, r)) (tcp_read_loop p len 0 rs m))"

text \<open>A write goes to the telnet socket, which \<open>elua_net_get_telnet_socket\<close> has found; its result is not looked at.\<close>

definition tcp_write :: "net_cfg \<Rightarrow> int \<Rightarrow> u32 \<Rightarrow> nat \<Rightarrow> net_ev list \<Rightarrow> net \<Rightarrow> (dm_errno + int) served" where
  "tcp_write c fd buf len es N =
     (if fd \<noteq> DM_STDOUT_NUM \<and> fd \<noteq> DM_STDERR_NUM then Some ([], N, Some (Inl EINVAL, es))
      else if elua_net_get_telnet_socket c N = - 1 then Some ([], N, None)
      else
        map_option (\<lambda>(os, N, r). (os, N, map_option (\<lambda>(_, es). (Inr (int len), es)) r))
          (elua_net_send c (elua_net_get_telnet_socket c N) buf (s16 (int len)) es N))"

section \<open>Line editing\<close>

text \<open>What the keys make of a line: printable characters are appended, a backspace takes one back.\<close>

definition key_back :: "int \<Rightarrow> bool" where "key_back c \<longleftrightarrow> c = STD_BS \<or> c = STD_DEL"

definition key_plain :: "int \<Rightarrow> bool" where
  "key_plain c \<longleftrightarrow> c \<noteq> - 1 \<and> c \<noteq> STD_CR \<and> c \<noteq> STD_LF \<and> c \<noteq> STD_CTRLZ"

fun edit_line :: "int list \<Rightarrow> int list \<Rightarrow> int list" where
  "edit_line l [] = l"
| "edit_line l (c # cs) =
     edit_line (if key_back c then butlast l else if isprint c then l @ [c] else l) cs"

text \<open>The echo, and that the line never fills the buffer.\<close>

fun edit_echo :: "int list \<Rightarrow> int list \<Rightarrow> int list" where
  "edit_echo l [] = []"
| "edit_echo l (c # cs) =
     (if key_back c then (if l = [] then [] else [STD_BS, 32, STD_BS]) else if isprint c then [c] else [])
     @ edit_echo (edit_line l [c]) cs"

fun edit_fits :: "nat \<Rightarrow> int list \<Rightarrow> int list \<Rightarrow> bool" where
  "edit_fits n l [] \<longleftrightarrow> length l < n"
| "edit_fits n l (c # cs) \<longleftrightarrow> length l < n \<and> edit_fits n (edit_line l [c]) cs"

lemma put_byte_read:
  assumes "i < 4294967296"
  shows "mem_read (m(p + of_nat i := x)) p (Suc i) = mem_read m p i @ [x]"
proof (rule nth_equalityI)
  fix j
  assume "j < length (mem_read (m(p + of_nat i := x)) p (Suc i))"
  then have j: "j < Suc i" by simp
  have "p + of_nat j = p + of_nat i \<longleftrightarrow> j = i"
  proof
    assume "p + of_nat j = p + of_nat i"
    then have "(of_nat j :: u32) = of_nat i" by simp
    then have "unat (of_nat j :: u32) = unat (of_nat i :: u32)" by simp
    then show "j = i" using j assms by (simp add: unat_of_nat_small)
  qed simp
  then show "mem_read (m(p + of_nat i := x)) p (Suc i) ! j = (mem_read m p i @ [x]) ! j"
    using j by (cases "j = i") (simp_all add: nth_mem_read nth_append del: mem_read.simps)
qed simp

definition holds_line :: "u32 \<Rightarrow> int list \<Rightarrow> std_con \<Rightarrow> bool" where
  "holds_line p l S \<longleftrightarrow> co_prev S = - 1 \<and> mem_read (co_m S) p (length l) = map word_of_int l"

lemma std_read_edit:
  assumes "holds_line p l S" "\<forall>c\<in>set ks. key_plain c" "edit_fits n l ks" "n < 4294967296"
  shows "\<exists>S'. std_read_loop n p (ks @ rest) (length l) S = std_read_loop n p rest (length (edit_line l ks)) S' \<and>
    holds_line p (edit_line l ks) S' \<and> co_out S' = co_out S @ map (Pair DM_STDOUT_NUM) (edit_echo l ks)"
  using assms(1-3)
proof (induction ks arbitrary: l S)
  case Nil
  then show ?case by auto
next
  case (Cons c ks)
  have c: "key_plain c" and ks: "\<forall>c\<in>set ks. key_plain c" and n: "length l < n" and fits: "edit_fits n (edit_line l [c]) ks"
    and prev: "co_prev S = - 1"
    using Cons.prems by (auto simp: holds_line_def)
  note step = std_read_loop.simps [of n p "c # ks @ rest" "length l" S]
  consider "key_back c" "l = []" | l' x where "key_back c" "l = l' @ [x]"
    | "\<not> key_back c" "isprint c" | "\<not> key_back c" "\<not> isprint c"
    by (cases l rule: rev_cases) auto
  then show ?case
  proof cases
    case 1
    then have "std_read_loop n p ((c # ks) @ rest) (length l) S = std_read_loop n p (ks @ rest) (length l) S"
      using step n prev c by (simp add: key_back_def key_plain_def)
    then show ?thesis using Cons.IH [OF Cons.prems(1) ks] fits 1 by simp
  next
    case 2
    define S1 where "S1 = std_send DM_STDOUT_NUM STD_BS (std_send DM_STDOUT_NUM 32 (std_send DM_STDOUT_NUM STD_BS S))"
    have "std_read_loop n p ((c # ks) @ rest) (length l) S = std_read_loop n p (ks @ rest) (length l') S1"
      using step n prev c 2 by (simp add: key_back_def key_plain_def S1_def)
    moreover have "mem_read (co_m S) p (length l') = map word_of_int l'"
      using arg_cong [OF Cons.prems(1) [unfolded holds_line_def, THEN conjunct2], of "take (length l')"] 2
      by (simp add: take_mem_read min_def del: mem_read.simps)
    then have "holds_line p l' S1" using prev by (simp add: holds_line_def S1_def std_send_def)
    ultimately show ?thesis using Cons.IH [of l' S1] ks fits 2 by (auto simp: S1_def std_send_def)
  next
    case 3
    define S1 where "S1 = std_put p (length l) c (std_send DM_STDOUT_NUM c S)"
    have "std_read_loop n p ((c # ks) @ rest) (length l) S = std_read_loop n p (ks @ rest) (Suc (length l)) S1"
      using step n prev c 3 by (simp add: key_back_def key_plain_def S1_def Let_def)
    moreover have "holds_line p (l @ [c]) S1"
      using Cons.prems(1) put_byte_read [of "length l" "co_m S" p "word_of_int c"] n assms(4)
      by (simp add: holds_line_def S1_def std_put_def std_send_def del: mem_read.simps)
    ultimately show ?thesis using Cons.IH [of "l @ [c]" S1] ks fits 3 by (auto simp: S1_def std_send_def std_put_def)
  next
    case 4
    then have "std_read_loop n p ((c # ks) @ rest) (length l) S = std_read_loop n p (ks @ rest) (length l) S"
      using step n prev c by (simp add: key_back_def key_plain_def)
    then show ?thesis using Cons.IH [OF Cons.prems(1) ks] fits 4 by simp
  qed
qed

lemma edit_fits_last: "edit_fits n l ks \<Longrightarrow> length (edit_line l ks) < n"
  by (induction n l ks rule: edit_fits.induct) auto

section \<open>Properties\<close>

text \<open>
  C16: reading from the console is line editing: what the keys before a line end make of an empty line,
  with backspaces taking characters back and other control characters ignored, is stored with
  one newline behind it, its length is the result, and the echo is that of an editor. A line end
  of two characters counts once; any other character behind the line end is kept for the next read.
\<close>

theorem std_read_edits_line:
  assumes "co_prev S = - 1" "\<forall>c\<in>set ks. key_plain c" "edit_fits n [] ks" "n < 4294967296" "c = STD_CR \<or> c = STD_LF"
  defines "l \<equiv> edit_line [] ks"
  shows "\<exists>S'. std_read True DM_STDIN_NUM p n (ks @ c # d # rest) S = Some (Inr (int (length l) + 1), S', rest) \<and>
    mem_read (co_m S') p (length l + 1) = map word_of_int l @ [10] \<and>
    co_prev S' = (if {c, d} = {STD_CR, STD_LF} then - 1 else d) \<and>
    co_out S' = co_out S @ map (Pair DM_STDOUT_NUM) (edit_echo [] ks @ [c, STD_CR + STD_LF - c])"
proof -
  have n: "length l < n" using edit_fits_last [OF assms(3)] by (simp add: l_def)
  have "holds_line p [] S" using assms(1) by (simp add: holds_line_def)
  from std_read_edit [OF this assms(2,3,4), of "c # d # rest"]
  obtain S1 where S1: "std_read_loop n p (ks @ c # d # rest) 0 S = std_read_loop n p (c # d # rest) (length l) S1"
      "holds_line p l S1" "co_out S1 = co_out S @ map (Pair DM_STDOUT_NUM) (edit_echo [] ks)"
    by (auto simp: l_def)
  define S2 where "S2 = std_put p (length l) STD_LF (std_send DM_STDOUT_NUM (STD_CR + STD_LF - c)
      ((std_send DM_STDOUT_NUM c S1)\<lparr> co_prev := (if d + c = STD_CR + STD_LF then - 1 else d) \<rparr>))"
  have "std_read_loop n p (c # d # rest) (length l) S1 = Some (int (length l) + 1, S2, rest)"
    using n S1(2) assms(5) by (subst std_read_loop.simps) (auto simp: holds_line_def Let_def std_char_defs isprint_def S2_def)
  moreover have "mem_read (co_m S2) p (length l + 1) = map word_of_int l @ [10]"
    using put_byte_read [of "length l" "co_m S1" p 10] n assms(4) S1(2)
    by (simp add: S2_def std_put_def std_send_def holds_line_def STD_LF_def del: mem_read.simps)
  moreover have "co_prev S2 = (if {c, d} = {STD_CR, STD_LF} then - 1 else d)"
    using assms(5) by (auto simp: S2_def std_put_def std_send_def std_char_defs doubleton_eq_iff)
  moreover have "co_out S2 = co_out S @ map (Pair DM_STDOUT_NUM) (edit_echo [] ks @ [c, STD_CR + STD_LF - c])"
    by (simp add: S2_def std_put_def std_send_def S1(3))
  ultimately show ?thesis using S1(1)
    by (simp add: std_read_def DM_STDIN_NUM_def DM_STDERR_NUM_def del: mem_read.simps)
qed

lemma std_read_edits_line_witness:
  "\<exists>S'. std_read True DM_STDIN_NUM 4096 80 ([104, 120, 8, 9, 105] @ 13 # 10 # [7]) \<lparr> co_m = (\<lambda>_. 0), co_prev = - 1, co_out = [] \<rparr>
      = Some (Inr 3, S', [7]) \<and> mem_read (co_m S') 4096 3 = [104, 105, 10] \<and> co_prev S' = - 1"
  using std_read_edits_line [of "\<lparr> co_m = (\<lambda>_. 0), co_prev = - 1, co_out = [] \<rparr>" "[104, 120, 8, 9, 105]" 80 13 4096 10 "[7]"]
  by (auto simp: std_char_defs key_plain_def key_back_def isprint_def numeral_2_eq_2 numeral_3_eq_3 simp del: mem_read.simps mem_read_numeral)

text \<open>
  when the device has no character, the read ends with the size of the buffer as its result,
  although only the characters before were stored: the caller takes what was in the
  buffer before for input.
\<close>

lemma std_read_claims_full_buffer:
  assumes "co_prev S = - 1" "\<forall>c\<in>set ks. key_plain c" "edit_fits n [] ks" "n < 4294967296"
  shows "\<exists>S'. std_read True DM_STDIN_NUM p n (ks @ - 1 # rest) S = Some (Inr (int n), S', rest) \<and>
    mem_read (co_m S') p (length (edit_line [] ks)) = map word_of_int (edit_line [] ks)"
proof -
  let ?l = "edit_line [] ks"
  have "holds_line p [] S" using assms(1) by (simp add: holds_line_def)
  from std_read_edit [OF this assms(2,3,4), of "- 1 # rest"]
  obtain S1 where S1: "std_read_loop n p (ks @ - 1 # rest) 0 S = std_read_loop n p (- 1 # rest) (length ?l) S1" "holds_line p ?l S1"
    by auto
  have "std_read_loop n p (- 1 # rest) (length ?l) S1 = Some (int n, S1, rest)"
    using edit_fits_last [OF assms(3)] S1(2) by (subst std_read_loop.simps) (auto simp: holds_line_def)
  then show ?thesis using S1 by (auto simp: std_read_def DM_STDIN_NUM_def DM_STDERR_NUM_def holds_line_def)
qed

lemma std_read_claims_full_buffer_witness:
  "\<exists>S'. std_read True DM_STDIN_NUM 4096 80 ([104, 105] @ - 1 # []) \<lparr> co_m = (\<lambda>_. 0), co_prev = - 1, co_out = [] \<rparr>
      = Some (Inr 80, S', []) \<and> mem_read (co_m S') 4096 2 = [104, 105]"
  using std_read_claims_full_buffer [of "\<lparr> co_m = (\<lambda>_. 0), co_prev = - 1, co_out = [] \<rparr>" "[104, 105]" 80 4096 "[]"]
  by (auto simp: std_char_defs key_plain_def key_back_def isprint_def numeral_2_eq_2 numeral_3_eq_3 simp del: mem_read.simps mem_read_numeral)

text \<open>
  a line that reaches the telnet console in two packets is reported too short: the sum of both is
  compared with the room that the first one left, and that room is the result.
\<close>

lemma tcp_read_two_packets_short:
  assumes "a \<noteq> []" "length a < len" "len - length a \<le> length a + length b" "length b \<le> len - length a"
    and "word_of_int STD_CTRLZ \<notin> set a" "word_of_int STD_CTRLZ \<notin> set b"
    and "length a = 1 \<or> a ! (length a - 1) \<noteq> word_of_int STD_LF"
  shows "\<exists>m'. tcp_read DM_STDIN_NUM p len (Some a # Some b # rs) m = Some (Inr (int (len - length a)), m', rs)"
  using assms by (auto simp: tcp_read_def Let_def)

lemma tcp_read_two_packets_short_witness:
  "\<exists>m'. tcp_read DM_STDIN_NUM 4096 10 [Some [65, 66, 67, 68, 69, 70], Some [71, 72, 13, 10]] (\<lambda>_. 0) = Some (Inr (int (10 - length [65, 66, 67, 68, 69, 70 :: u8])), m', [])"
  using tcp_read_two_packets_short [of "[65, 66, 67, 68, 69, 70]" 10 "[71, 72, 13, 10]" 4096 "[]" "\<lambda>_. 0"]
  by (simp add: std_char_defs)

text \<open>What \<open>std_write\<close> sends: the characters, with a carriage return before each newline.\<close>

lemma std_write_sends:
  "ready \<Longrightarrow> fd \<in> {DM_STDOUT_NUM, DM_STDERR_NUM} \<Longrightarrow>
   std_write ready fd xs S = (Inr (int (length xs)), S\<lparr> co_out := co_out S @
     map (Pair fd) (concat (map (\<lambda>x. if uint x = STD_LF then [STD_CR, STD_LF] else [uint x]) xs)) \<rparr>)"
proof -
  have "std_write_loop fd xs S = S\<lparr> co_out := co_out S @
     map (Pair fd) (concat (map (\<lambda>x. if uint x = STD_LF then [STD_CR, STD_LF] else [uint x]) xs)) \<rparr>" for S
    by (induction xs arbitrary: S) (auto simp: std_send_def)
  moreover assume "ready" "fd \<in> {DM_STDOUT_NUM, DM_STDERR_NUM}"
  ultimately show ?thesis by (auto simp: std_write_def DM_STDOUT_NUM_def DM_STDERR_NUM_def DM_STDIN_NUM_def)
qed

end
