(* ===== verification/Linenoise.thy ===== *)
theory Linenoise
  imports Term
begin

text \<open>
  \<open>src/linenoise.c\<close>: the line editor of the Lua prompt and the shell. The answers of \<open>term_getch\<close> are a
  list; the bytes sent to the terminal are collected. The buffer is a list of its size, and an
  access outside it is \<open>None\<close>, as is the use of a null pointer. \<open>ln_alloc\<close> says whether the heap gives
  memory. A key code above 255 that no case names is ignored: \<open>isprint\<close> has no meaning for it in C.
  The messages about missing memory and the build option that saves the history on exit are left out.
\<close>

section \<open>History\<close>

definition LINENOISE_CTRL_C :: int where "LINENOISE_CTRL_C = - 2"
definition LINENOISE_HISTORY_NOT_ENABLED :: int where "LINENOISE_HISTORY_NOT_ENABLED = - 2"
definition LINENOISE_HISTORY_EMPTY :: int where "LINENOISE_HISTORY_EMPTY = - 3"
definition CH_NL :: u8 where "CH_NL = 10"

record ln_cfg =
  ln_max :: "nat \<Rightarrow> nat"        \<comment> \<open>\<open>history_max_lengths\<close>\<close>
  ln_cols :: u32               \<comment> \<open>\<open>TERM_COLS\<close>, not 0\<close>
  ln_alloc :: bool

text \<open>\<open>ln_hist\<close>: a history is absent before its array is allocated; its entries may be null pointers.\<close>

record ln =
  ln_hist :: "nat \<Rightarrow> u8 list option list option"
  ln_out :: "u8 list"

definition ln_entries :: "nat \<Rightarrow> ln \<Rightarrow> u8 list option list" where
  "ln_entries i N = (case ln_hist N i of None \<Rightarrow> [] | Some h \<Rightarrow> h)"

definition set_hist :: "nat \<Rightarrow> u8 list option list option \<Rightarrow> ln \<Rightarrow> ln" where
  "set_hist i h N = N\<lparr> ln_hist := (ln_hist N)(i := h) \<rparr>"

definition ln_push :: "nat \<Rightarrow> 'a \<Rightarrow> 'a list \<Rightarrow> 'a list" where
  "ln_push n x h = (if length h = n then drop 1 h else h) @ [x]"

function ln_add_lines :: "nat \<Rightarrow> u8 list \<Rightarrow> bool \<Rightarrow> u8 list option list \<Rightarrow> u8 list option list" where
  "ln_add_lines n line force h =
     (let p = takeWhile (\<lambda>x. x \<noteq> CH_NL) line;
          rest = drop (length p) line;
          h = (if p \<noteq> [] \<or> force then ln_push n (Some p) h else h)
      in if rest = [] then h
         else if tl rest = [] then h
         else ln_add_lines n (tl rest) force h)"
  by pat_completeness auto
termination by (relation "measure (\<lambda>(n, line, force, h). length line)") auto

declare ln_add_lines.simps [simp del]

text \<open>Without memory the call gives up at the first line that it would add.\<close>

function ln_adds :: "u8 list \<Rightarrow> bool \<Rightarrow> bool" where
  "ln_adds line force =
     (let p = takeWhile (\<lambda>x. x \<noteq> CH_NL) line; rest = drop (length p) line
      in if p \<noteq> [] \<or> force then True else if rest = [] \<or> tl rest = [] then False else ln_adds (tl rest) force)"
  by pat_completeness auto
termination by (relation "measure (\<lambda>(line, force). length line)") auto

declare ln_adds.simps [simp del]

definition linenoise_internal_addhistory :: "ln_cfg \<Rightarrow> nat \<Rightarrow> u8 list \<Rightarrow> bool \<Rightarrow> ln \<Rightarrow> int \<times> ln" where
  "linenoise_internal_addhistory c i line force N =
     (if ln_max c i = 0 then (0, N)
      else if ln_hist N i = None \<and> \<not> ln_alloc c then (0, N)
      else
        let h = ln_entries i N; N = set_hist i (Some h) N in
        if \<not> ln_alloc c then (if ln_adds line force then 0 else 1, N)
        else (1, set_hist i (Some (ln_add_lines (ln_max c i) line force h)) N))"

definition linenoise_addhistory :: "ln_cfg \<Rightarrow> nat \<Rightarrow> u8 list \<Rightarrow> ln \<Rightarrow> int \<times> ln" where
  "linenoise_addhistory c i line = linenoise_internal_addhistory c i line False"

text \<open>The file that is written, when it can be opened; a null entry has no text.\<close>

definition linenoise_savehistory :: "ln_cfg \<Rightarrow> nat \<Rightarrow> bool \<Rightarrow> ln \<Rightarrow> (int \<times> u8 list option) option" where
  "linenoise_savehistory c i opens N =
     (if ln_max c i = 0 then Some (LINENOISE_HISTORY_NOT_ENABLED, None)
      else if ln_entries i N = [] then Some (LINENOISE_HISTORY_EMPTY, None)
      else if \<not> opens then Some (- 1, None)
      else if None \<in> set (ln_entries i N) then None
      else Some (0, Some (concat (map (\<lambda>h. the h @ [CH_NL]) (ln_entries i N)))))"

definition linenoise_cleanup :: "nat \<Rightarrow> ln \<Rightarrow> ln" where
  "linenoise_cleanup i N = set_hist i None N"

section \<open>The display\<close>

text \<open>The scrolling of a long line: offset, length and cursor of the part that is shown.\<close>

function ln_scroll :: "u32 \<Rightarrow> u32 \<Rightarrow> u32 \<times> u32 \<times> u32 \<Rightarrow> u32 \<times> u32 \<times> u32" where
  "ln_scroll plen cols (b, len, pos) =
     (if cols \<le> plen + pos \<and> plen + pos \<noteq> 0 then ln_scroll plen cols (b + 1, len - 1, pos - 1) else (b, len, pos))"
  by pat_completeness auto
termination
proof (relation "measure (\<lambda>(plen, cols, b, len, pos). unat (plen + pos))")
  fix plen cols pos b len :: u32
  assume "cols \<le> plen + pos \<and> plen + pos \<noteq> 0"
  then have n: "plen + pos \<noteq> 0" by simp
  have "plen + (pos - 1) = plen + pos - 1" by (rule add_diff_eq)
  then have "unat (plen + (pos - 1)) = unat (plen + pos) - 1" using unat_minus_one [OF n] by (simp only:)
  moreover have "0 < unat (plen + pos)" using n by (simp only: unat_gt_0) simp
  ultimately show "((plen, cols, b + 1, len - 1, pos - 1), plen, cols, b, len, pos) \<in> measure (\<lambda>(plen, cols, b, len, pos). unat (plen + pos))" by simp
qed simp

function ln_cut :: "u32 \<Rightarrow> u32 \<Rightarrow> u32 \<Rightarrow> u32" where
  "ln_cut plen cols len = (if cols < plen + len then ln_cut plen cols (len - 1) else len)"
  by pat_completeness auto
termination
proof (relation "measure (\<lambda>(plen, cols, len). unat (plen + len))")
  fix plen cols len :: u32
  assume "cols < plen + len"
  then have "plen + len \<noteq> 0" by auto
  then have n: "plen + len \<noteq> 0" by simp
  have "plen + (len - 1) = plen + len - 1" by (rule add_diff_eq)
  then have "unat (plen + (len - 1)) = unat (plen + len) - 1" using unat_minus_one [OF n] by (simp only:)
  moreover have "0 < unat (plen + len)" using n by (simp only: unat_gt_0) simp
  ultimately show "((plen, cols, len - 1), plen, cols, len) \<in> measure (\<lambda>(plen, cols, len). unat (plen + len))" by simp
qed simp

declare ln_scroll.simps [simp del] ln_cut.simps [simp del]

definition SEQ_LEFT :: "u8 list" where "SEQ_LEFT = [0x1B, 0x5B, 0x30, 0x47]"
definition SEQ_ERASE :: "u8 list" where "SEQ_ERASE = [0x1B, 0x5B, 0x30, 0x4B]"

definition refreshLine :: "ln_cfg \<Rightarrow> u8 list \<Rightarrow> u8 list \<Rightarrow> nat \<Rightarrow> nat \<Rightarrow> ln \<Rightarrow> ln option" where
  "refreshLine c prompt buf len pos N =
     (let plen = of_nat (length prompt);
          (b, len, pos) = ln_scroll plen (ln_cols c) (0, of_nat len, of_nat pos);
          len = ln_cut plen (ln_cols c) len
      in if length buf < unat b + unat len then None
         else Some (N\<lparr> ln_out := ln_out N @ SEQ_LEFT @ prompt @ get_bytes buf (unat b) (unat len) @ SEQ_ERASE
           @ take 15 (SEQ_LEFT @ [0x1B, 0x5B] @ dec_digits (unat (pos + plen)) @ [0x43]) \<rparr>))"

section \<open>The prompt\<close>

record lp =
  lp_buf :: "u8 list"
  lp_len :: nat
  lp_pos :: nat
  lp_index :: nat

definition lp_store :: "nat \<Rightarrow> u8 \<Rightarrow> lp \<Rightarrow> lp option" where
  "lp_store i x P = (if i < length (lp_buf P) then Some (P\<lparr> lp_buf := (lp_buf P)[i := x] \<rparr>) else None)"

definition lp_memmove :: "nat \<Rightarrow> nat \<Rightarrow> nat \<Rightarrow> lp \<Rightarrow> lp option" where
  "lp_memmove d s n P =
     (if d + n \<le> length (lp_buf P) \<and> s + n \<le> length (lp_buf P)
      then Some (P\<lparr> lp_buf := put_bytes (lp_buf P) d (get_bytes (lp_buf P) s n) \<rparr>) else None)"

definition lp_strncpy :: "u8 list \<Rightarrow> nat \<Rightarrow> lp \<Rightarrow> lp option" where
  "lp_strncpy s n P =
     (if n \<le> length (lp_buf P)
      then Some (P\<lparr> lp_buf := put_bytes (lp_buf P) 0 (take n s @ replicate (n - length s) 0) \<rparr>) else None)"

definition bstr :: "u8 list \<Rightarrow> u8 list option" where
  "bstr b = (if 0 \<in> set b then Some (takeWhile (\<lambda>x. x \<noteq> 0) b) else None)"

definition ln_refresh :: "ln_cfg \<Rightarrow> u8 list \<Rightarrow> lp \<Rightarrow> ln \<Rightarrow> (lp \<times> ln) option" where
  "ln_refresh c prompt P N = map_option (Pair P) (refreshLine c prompt (lp_buf P) (lp_len P) (lp_pos P) N)"

text \<open>The keys for the history. The entry on display is replaced by the edited text first.\<close>

definition ln_history_key :: "ln_cfg \<Rightarrow> nat \<Rightarrow> u8 list \<Rightarrow> nat \<Rightarrow> bool \<Rightarrow> lp \<Rightarrow> ln \<Rightarrow> (lp \<times> ln) option" where
  "ln_history_key c i prompt buflen up P N =
     (let h = ln_entries i N in
      if length h \<le> 1 then Some (P, N)
      else if length h - 1 < lp_index P then None
      else
        case bstr (lp_buf P) of
          None \<Rightarrow> None
        | Some s \<Rightarrow>
            let h = h[length h - 1 - lp_index P := (if ln_alloc c then Some s else None)];
                N = set_hist i (Some h) N
            in if \<not> up \<and> lp_index P = 0 then Some (P, N)
               else
                 let index = (if up then lp_index P + 1 else lp_index P - 1) in
                 if length h \<le> index then Some (P\<lparr> lp_index := length h - 1 \<rparr>, N)
                 else
                   case h ! (length h - 1 - index) of
                     None \<Rightarrow> None
                   | Some t \<Rightarrow>
                       Option.bind (lp_strncpy t buflen (P\<lparr> lp_index := index \<rparr>)) (\<lambda>P.
                       Option.bind (lp_store buflen 0 P) (\<lambda>P.
                       Option.bind (bstr (lp_buf P)) (\<lambda>s.
                       ln_refresh c prompt (P\<lparr> lp_len := length s, lp_pos := length s \<rparr>) N))))"

definition ln_insert :: "ln_cfg \<Rightarrow> u8 list \<Rightarrow> nat \<Rightarrow> int \<Rightarrow> lp \<Rightarrow> ln \<Rightarrow> (lp \<times> ln) option" where
  "ln_insert c prompt buflen k P N =
     (if isprint k \<and> lp_len P < buflen then
        if lp_len P = lp_pos P then
          Option.bind (lp_store (lp_pos P) (word_of_int k) P) (\<lambda>P.
            let P = P\<lparr> lp_pos := lp_pos P + 1, lp_len := lp_len P + 1 \<rparr> in
            Option.bind (lp_store (lp_len P) 0 P) (\<lambda>P.
              if of_nat (length prompt) + of_nat (lp_len P) < ln_cols c
              then Some (P, N\<lparr> ln_out := ln_out N @ [word_of_int k] \<rparr>)
              else ln_refresh c prompt P N))
        else
          Option.bind (lp_memmove (lp_pos P + 1) (lp_pos P) (lp_len P - lp_pos P) P) (\<lambda>P.
          Option.bind (lp_store (lp_pos P) (word_of_int k) P) (\<lambda>P.
            let P = P\<lparr> lp_len := lp_len P + 1, lp_pos := lp_pos P + 1 \<rparr> in
            Option.bind (lp_store (lp_len P) 0 P) (\<lambda>P. ln_refresh c prompt P N)))
      else Some (P, N))"

definition ln_key :: "ln_cfg \<Rightarrow> nat \<Rightarrow> u8 list \<Rightarrow> nat \<Rightarrow> int \<Rightarrow> lp \<Rightarrow> ln \<Rightarrow> (lp \<times> ln) option" where
  "ln_key c i prompt buflen k P N =
     (if k = KC_BACKSPACE then
        if 0 < lp_pos P \<and> 0 < lp_len P then
          Option.bind (lp_memmove (lp_pos P - 1) (lp_pos P) (lp_len P - lp_pos P) P) (\<lambda>P.
            let P = P\<lparr> lp_pos := lp_pos P - 1, lp_len := lp_len P - 1 \<rparr> in
            Option.bind (lp_store (lp_len P) 0 P) (\<lambda>P. ln_refresh c prompt P N))
        else Some (P, N)
      else if k = KC_CTRL_T then Some (P, N)
      else if k = KC_LEFT then
        if 0 < lp_pos P then ln_refresh c prompt (P\<lparr> lp_pos := lp_pos P - 1 \<rparr>) N else Some (P, N)
      else if k = KC_RIGHT then
        if lp_pos P \<noteq> lp_len P then ln_refresh c prompt (P\<lparr> lp_pos := lp_pos P + 1 \<rparr>) N else Some (P, N)
      else if k = KC_UP \<or> k = KC_DOWN then ln_history_key c i prompt buflen (k = KC_UP) P N
      else if k = KC_DEL then
        if 0 < lp_len P \<and> lp_pos P < lp_len P then
          Option.bind (lp_memmove (lp_pos P) (lp_pos P + 1) (lp_len P - lp_pos P - 1) P) (\<lambda>P.
            let P = P\<lparr> lp_len := lp_len P - 1 \<rparr> in
            Option.bind (lp_store (lp_len P) 0 P) (\<lambda>P. ln_refresh c prompt P N))
        else Some (P, N)
      else if k = KC_HOME then ln_refresh c prompt (P\<lparr> lp_pos := 0 \<rparr>) N
      else if k = KC_END then ln_refresh c prompt (P\<lparr> lp_pos := lp_len P \<rparr>) N
      else if k = KC_CTRL_U then
        Option.bind (lp_store 0 0 P) (\<lambda>P. ln_refresh c prompt (P\<lparr> lp_pos := 0, lp_len := 0 \<rparr>) N)
      else if k = KC_CTRL_K then
        Option.bind (lp_store (lp_pos P) 0 P) (\<lambda>P. ln_refresh c prompt (P\<lparr> lp_len := lp_pos P \<rparr>) N)
      else ln_insert c prompt buflen k P N)"

definition ln_ends :: "int \<Rightarrow> bool" where
  "ln_ends k \<longleftrightarrow> k = KC_ENTER \<or> k = KC_CTRL_C \<or> k = KC_CTRL_Z"

definition ln_result :: "int \<Rightarrow> nat \<Rightarrow> int" where
  "ln_result k len = (if k = KC_CTRL_C then LINENOISE_CTRL_C else if k = KC_CTRL_Z then - 1 else int len)"

text \<open>The result: the value, the buffer and the keys left; \<open>Inl\<close> when the keys are used up.\<close>

fun ln_loop :: "ln_cfg \<Rightarrow> nat \<Rightarrow> u8 list \<Rightarrow> nat \<Rightarrow> int list \<Rightarrow> lp \<Rightarrow> ln \<Rightarrow> (lp \<times> ln + int \<times> u8 list \<times> int list \<times> ln) option" where
  "ln_loop c i prompt buflen [] P N = Some (Inl (P, N))"
| "ln_loop c i prompt buflen (k # ks) P N =
     (if ln_ends k then
        if ln_entries i N = [] then None
        else
          Some (Inr (ln_result k (lp_len P), lp_buf P, ks, set_hist i (Some (butlast (ln_entries i N))) N))
      else
        case ln_key c i prompt buflen k P N of
          None \<Rightarrow> None
        | Some (P, N) \<Rightarrow> ln_loop c i prompt buflen ks P N)"

definition linenoisePrompt :: "ln_cfg \<Rightarrow> nat \<Rightarrow> u8 list \<Rightarrow> u8 list \<Rightarrow> int list \<Rightarrow> ln \<Rightarrow> (lp \<times> ln + int \<times> u8 list \<times> int list \<times> ln) option" where
  "linenoisePrompt c i buf prompt ks N =
     Option.bind (lp_store 0 0 \<lparr> lp_buf = buf, lp_len = 0, lp_pos = 0, lp_index = 0 \<rparr>) (\<lambda>P.
       let N = snd (linenoise_internal_addhistory c i [] True N)
       in ln_loop c i prompt (length buf - 1) ks P (N\<lparr> ln_out := ln_out N @ prompt \<rparr>))"

text \<open>
  A control-C starts the prompt again. Without a history the line comes from \<open>fgets\<close>: \<open>line\<close> is what it
  leaves in the buffer, if it does not fail.
\<close>

partial_function (option) linenoise_getline ::
    "ln_cfg \<Rightarrow> nat \<Rightarrow> u8 list \<Rightarrow> u8 list \<Rightarrow> u8 list option \<Rightarrow> int list \<Rightarrow> ln \<Rightarrow> (lp \<times> ln + int \<times> u8 list \<times> int list \<times> ln) option" where
  "linenoise_getline c i buf prompt line ks N =
     (if ln_max c i = 0 then
        Some (Inr (case line of None \<Rightarrow> (- 1, buf, ks, N\<lparr> ln_out := ln_out N @ prompt \<rparr>) | Some b \<Rightarrow> (0, b, ks, N\<lparr> ln_out := ln_out N @ prompt \<rparr>)))
      else
        case linenoisePrompt c i buf prompt ks N of
          None \<Rightarrow> None
        | Some (Inl r) \<Rightarrow> Some (Inl r)
        | Some (Inr (count, buf, ks, N)) \<Rightarrow>
            let N = (if count \<noteq> - 1 then N\<lparr> ln_out := ln_out N @ [CH_NL] \<rparr> else N) in
            if count = LINENOISE_CTRL_C then linenoise_getline c i buf prompt line ks N
            else if 0 < count \<and> nat count < length buf then Some (Inr (count, buf[nat count := 0], ks, N))
            else Some (Inr (count, buf, ks, N)))"

section \<open>What is displayed\<close>

lemma unat_dec: "x \<noteq> (0 :: u32) \<Longrightarrow> unat (x - 1) = unat x - 1"
  by (rule unat_minus_one)

lemma unat_inc: "unat (x :: u32) + 1 < 4294967296 \<Longrightarrow> unat (x + 1) = unat x + 1"
  using unat_add_lem [of x 1] by simp

lemma unat_sum: "unat (x :: u32) + unat y < 4294967296 \<Longrightarrow> unat (x + y) = unat x + unat y"
  using unat_add_lem [of x y] by simp

text \<open>Scrolling keeps the end of the text and the cursor where they are, and brings the cursor in.\<close>

lemma ln_scroll_window:
  assumes "ln_scroll plen cols (b, len, pos) = (b', len', pos')"
    and "unat pos \<le> unat len" "unat plen < unat cols" "unat plen + unat len < 4294967296" "unat b + unat len < 4294967296"
  shows "unat b' + unat len' = unat b + unat len \<and> unat b' + unat pos' = unat b + unat pos \<and> unat pos' \<le> unat len' \<and>
    unat pos' = min (unat pos) (unat cols - 1 - unat plen) \<and> unat len' \<le> unat len"
  using assms
proof (induction plen cols "(b, len, pos)" arbitrary: b len pos rule: ln_scroll.induct)
  case (1 plen cols b len pos)
  have sum: "unat (plen + pos) = unat plen + unat pos" using "1.prems"(2,4) by (intro unat_sum) simp
  show ?case
  proof (cases "cols \<le> plen + pos \<and> plen + pos \<noteq> 0")
    case True
    then have "unat cols \<le> unat plen + unat pos" using sum by (simp add: word_le_nat_alt)
    then have p: "0 < unat pos" "pos \<noteq> 0" "len \<noteq> 0" using "1.prems"(2,3) by (auto simp: unat_gt_0 [symmetric])
    have u: "unat (pos - 1) = unat pos - 1" "unat (len - 1) = unat len - 1" using p(2,3) by (simp_all add: unat_dec)
    have b: "unat (b + 1) = unat b + 1" using "1.prems"(5) p(1) "1.prems"(2) by (intro unat_inc) simp
    have eq: "ln_scroll plen cols (b + 1, len - 1, pos - 1) = (b', len', pos')"
      using "1.prems"(1) True by (simp add: ln_scroll.simps [of plen cols b])
    have "unat pos - 1 \<le> unat len - 1" "unat plen + (unat len - 1) < 4294967296" "unat b + 1 + (unat len - 1) < 4294967296"
      using "1.prems"(2,4,5) p(1) by linarith+
    from "1.hyps" [OF True eq, unfolded u b, OF this(1) "1.prems"(3) this(2,3)]
    show ?thesis using "1.prems"(2,3) p(1) \<open>unat cols \<le> unat plen + unat pos\<close> by linarith
  next
    case False
    then have "(b', len', pos') = (b, len, pos)" using "1.prems"(1) unfolding ln_scroll.simps [of plen cols b len pos] if_not_P [OF False] by simp
    moreover have "unat plen + unat pos < unat cols"
    proof (cases "cols \<le> plen + pos")
      case True
      then have "unat plen + unat pos = 0" using False sum by (metis unat_0)
      then show ?thesis using "1.prems"(3) by simp
    next
      case False
      then show ?thesis using sum by (simp add: word_le_nat_alt)
    qed
    ultimately show ?thesis using "1.prems"(2) by simp
  qed
qed

lemma ln_cut_min:
  assumes "unat plen < unat cols" "unat plen + unat len < 4294967296"
  shows "unat (ln_cut plen cols len) = min (unat len) (unat cols - unat plen)"
  using assms
proof (induction plen cols len rule: ln_cut.induct)
  case (1 plen cols len)
  have sum: "unat (plen + len) = unat plen + unat len" using "1.prems"(2) by (rule unat_sum)
  show ?case
  proof (cases "cols < plen + len")
    case True
    then have lt: "unat cols < unat plen + unat len" using sum by (simp add: word_less_nat_alt)
    then have "len \<noteq> 0" using "1.prems"(1) by auto
    then have "unat (len - 1) = unat len - 1" by (rule unat_dec)
    then show ?thesis using 1 True lt by (simp add: ln_cut.simps [of plen cols len])
  next
    case False
    then have "unat plen + unat len \<le> unat cols" using sum by (simp add: word_less_nat_alt not_less)
    then show ?thesis using False by (simp add: ln_cut.simps [of plen cols len])
  qed
qed

text \<open>The part of the text on display begins at \<open>b\<close> and has the cursor in it.\<close>

lemma refreshLine_shows:
  assumes "length prompt < unat (ln_cols c)" "pos \<le> len" "len \<le> length buf" "length prompt + length buf < 4294967296"
  defines "b \<equiv> pos - min pos (unat (ln_cols c) - 1 - length prompt)"
  shows "refreshLine c prompt buf len pos N = Some (N\<lparr> ln_out := ln_out N @ SEQ_LEFT @ prompt @
      get_bytes buf b (min (len - b) (unat (ln_cols c) - length prompt)) @ SEQ_ERASE @
      take 15 (SEQ_LEFT @ [0x1B, 0x5B] @ dec_digits (pos - b + length prompt) @ [0x43]) \<rparr>)"
proof -
  let ?plen = "of_nat (length prompt) :: u32" and ?cols = "ln_cols c"
  have u: "unat ?plen = length prompt" "unat (of_nat len :: u32) = len" "unat (of_nat pos :: u32) = pos"
    using assms(2-4) by (auto intro!: unat_of_nat_small)
  obtain b' len' pos' where s: "ln_scroll ?plen ?cols (0, of_nat len, of_nat pos) = (b', len', pos')"
    by (cases "ln_scroll ?plen ?cols (0, of_nat len, of_nat pos)") auto
  have w: "unat b' + unat len' = len" "unat b' + unat pos' = pos" "unat pos' = min pos (unat ?cols - 1 - length prompt)" "unat len' \<le> len"
    using ln_scroll_window [OF s] assms(1-4) by (simp_all add: u)
  have b: "unat b' = b" using w(2,3) by (simp add: b_def)
  have l: "unat len' = len - b" using w(1) b by simp
  have cut: "unat (ln_cut ?plen ?cols len') = min (len - b) (unat ?cols - length prompt)"
    using ln_cut_min [of ?plen ?cols len'] assms(1,3,4) w(4) by (simp add: u l)
  have p: "unat (pos' + ?plen) = pos - b + length prompt"
  proof -
    have "unat (pos' + ?plen) = unat pos' + unat ?plen"
    proof (rule unat_sum)
      show "unat pos' + unat ?plen < 4294967296"
        using w(3) assms(1) unat_u32_less [of ?cols] u(1) by linarith
    qed
    then show ?thesis using w(2) b by (simp add: u)
  qed
  have "b + min (len - b) (unat ?cols - length prompt) \<le> length buf"
    using assms(3) w(1) b by simp
  then show ?thesis
    by (simp add: refreshLine_def Let_def s cut b p)
qed

section \<open>The abstract editor\<close>

text \<open>A line with a cursor, the history with the new line as its last entry, and the entry on display.\<close>

record ed =
  ed_line :: "u8 list"
  ed_pos :: nat
  ed_index :: nat
  ed_hist :: "u8 list list"

definition ed_history :: "nat \<Rightarrow> bool \<Rightarrow> ed \<Rightarrow> ed" where
  "ed_history cap up E =
     (let n = length (ed_hist E); h = (ed_hist E)[n - 1 - ed_index E := ed_line E];
          j = (if up then ed_index E + 1 else ed_index E - 1)
      in if n \<le> 1 then E
         else if \<not> up \<and> ed_index E = 0 \<or> n \<le> j then E\<lparr> ed_hist := h \<rparr>
         else
           let l = take cap (h ! (n - 1 - j))
           in \<lparr> ed_line = l, ed_pos = length l, ed_index = j, ed_hist = h \<rparr>)"

definition ed_key :: "nat \<Rightarrow> int \<Rightarrow> ed \<Rightarrow> ed" where
  "ed_key cap k E =
     (let l = ed_line E; p = ed_pos E in
      if k = KC_BACKSPACE then
        if 0 < p then E\<lparr> ed_line := take (p - 1) l @ drop p l, ed_pos := p - 1 \<rparr> else E
      else if k = KC_LEFT then E\<lparr> ed_pos := p - 1 \<rparr>
      else if k = KC_RIGHT then E\<lparr> ed_pos := min (p + 1) (length l) \<rparr>
      else if k = KC_UP \<or> k = KC_DOWN then ed_history cap (k = KC_UP) E
      else if k = KC_DEL then E\<lparr> ed_line := take p l @ drop (p + 1) l \<rparr>
      else if k = KC_HOME then E\<lparr> ed_pos := 0 \<rparr>
      else if k = KC_END then E\<lparr> ed_pos := length l \<rparr>
      else if k = KC_CTRL_U then E\<lparr> ed_line := [], ed_pos := 0 \<rparr>
      else if k = KC_CTRL_K then E\<lparr> ed_line := take p l \<rparr>
      else if isprint k \<and> length l < cap then
        E\<lparr> ed_line := take p l @ [word_of_int k] @ drop p l, ed_pos := p + 1 \<rparr>
      else E)"

definition ed_ok :: "nat \<Rightarrow> ed \<Rightarrow> bool" where
  "ed_ok cap E \<longleftrightarrow> length (ed_line E) \<le> cap \<and> ed_pos E \<le> length (ed_line E) \<and> 0 \<notin> set (ed_line E) \<and>
     ed_index E < length (ed_hist E) \<and> (\<forall>h\<in>set (ed_hist E). 0 \<notin> set h)"

text \<open>The program's state for a state of the editor.\<close>

definition ln_buf :: "nat \<Rightarrow> u8 list \<Rightarrow> u8 list \<Rightarrow> bool" where
  "ln_buf cap l B \<longleftrightarrow> length B = cap + 1 \<and> take (length l + 1) B = l @ [0]"

definition ln_rep :: "nat \<Rightarrow> nat \<Rightarrow> ed \<Rightarrow> lp \<Rightarrow> ln \<Rightarrow> bool" where
  "ln_rep i cap E P N \<longleftrightarrow> ln_buf cap (ed_line E) (lp_buf P) \<and> lp_len P = length (ed_line E) \<and> lp_pos P = ed_pos E \<and>
     lp_index P = ed_index E \<and> ln_hist N i = Some (map Some (ed_hist E))"

lemma isprint_nonzero: "isprint k \<Longrightarrow> (word_of_int k :: u8) \<noteq> 0"
proof
  assume "isprint k" "(word_of_int k :: u8) = 0"
  then have k: "32 \<le> k" "k \<le> 126" by (auto simp: isprint_def)
  have "uint (word_of_int k :: u8) = k" using k by (simp add: uint_word_of_int)
  with \<open>word_of_int k = 0\<close> k show False by simp
qed

lemma ed_history_ok:
  assumes "ed_ok cap E"
  shows "ed_ok cap (ed_history cap up E)"
proof -
  define h where "h = (ed_hist E)[length (ed_hist E) - 1 - ed_index E := ed_line E]"
  have h: "length h = length (ed_hist E)" "\<forall>x\<in>set h. 0 \<notin> set x"
    using assms set_update_subset_insert [of "ed_hist E" "length (ed_hist E) - 1 - ed_index E" "ed_line E"]
    by (auto simp: ed_ok_def h_def)
  define j where "j = (if up then ed_index E + 1 else ed_index E - 1)"
  have eq: "ed_history cap up E =
      (if length h \<le> 1 then E
       else if \<not> up \<and> ed_index E = 0 \<or> length h \<le> j then E\<lparr> ed_hist := h \<rparr>
       else \<lparr> ed_line = take cap (h ! (length h - 1 - j)), ed_pos = length (take cap (h ! (length h - 1 - j))), ed_index = j, ed_hist = h \<rparr>)"
    by (simp only: ed_history_def Let_def h_def j_def length_list_update)
  have "0 \<notin> set (take cap (h ! (length h - 1 - j)))" if "j < length h"
    using that h(2) by (auto dest: in_set_takeD)
  then show ?thesis using assms h unfolding eq by (simp add: ed_ok_def)
qed

lemma ed_ok_upd:
  assumes "ed_ok cap E"
  shows "length l \<le> cap \<Longrightarrow> p \<le> length l \<Longrightarrow> 0 \<notin> set l \<Longrightarrow> ed_ok cap (E\<lparr> ed_line := l, ed_pos := p \<rparr>)"
    and "length l \<le> cap \<Longrightarrow> ed_pos E \<le> length l \<Longrightarrow> 0 \<notin> set l \<Longrightarrow> ed_ok cap (E\<lparr> ed_line := l \<rparr>)"
    and "p \<le> length (ed_line E) \<Longrightarrow> ed_ok cap (E\<lparr> ed_pos := p \<rparr>)"
  using assms by (simp_all add: ed_ok_def)

lemma if_pred: "(b \<Longrightarrow> Q x) \<Longrightarrow> (\<not> b \<Longrightarrow> Q y) \<Longrightarrow> Q (if b then x else y)"
  by simp

lemma ed_key_ok:
  assumes "ed_ok cap E"
  shows "ed_ok cap (ed_key cap k E)"
proof -
  have ok: "length (ed_line E) \<le> cap" "ed_pos E \<le> length (ed_line E)" "0 \<notin> set (ed_line E)"
    using assms by (simp_all add: ed_ok_def)
  then have sub: "0 \<notin> set (take n (ed_line E))" "0 \<notin> set (drop n (ed_line E))" for n
    by (auto dest: in_set_takeD in_set_dropD)
  show ?thesis unfolding ed_key_def Let_def
    by (intro if_pred [where Q = "ed_ok cap"] ed_ok_upd [OF assms] ed_history_ok assms)
      (use ok sub isprint_nonzero [of k] in \<open>auto simp: min_def\<close>)
qed

lemma ln_buf_bstr: "ln_buf cap l B \<Longrightarrow> 0 \<notin> set l \<Longrightarrow> bstr B = Some l"
proof -
  assume a: "ln_buf cap l B" "0 \<notin> set l"
  then have B: "B = l @ 0 # drop (length l + 1) B"
    using append_take_drop_id [of "length l + 1" B] by (simp add: ln_buf_def)
  have "takeWhile (\<lambda>x. x \<noteq> 0) (l @ 0 # drop (length l + 1) B) = l @ takeWhile (\<lambda>x. x \<noteq> 0) (0 # drop (length l + 1) B)"
    using a(2) by (intro takeWhile_append2) auto
  then have "takeWhile (\<lambda>x. x \<noteq> 0) B = l" by (subst B) simp
  moreover have "0 \<in> set B" by (subst B) simp
  ultimately show ?thesis by (simp add: bstr_def)
qed

text \<open>The three ways in which the buffer changes.\<close>

lemma ln_buf_close:
  assumes "length B = cap + 1" "length l \<le> cap" "take (length l) B = l"
  shows "ln_buf cap l (B[length l := 0])"
proof -
  have "take (length l + 1) (B[length l := 0]) = take (length l) B @ [0]"
    using assms(1,2) by (simp add: take_Suc_conv_app_nth)
  then show ?thesis using assms by (simp add: ln_buf_def)
qed

lemma ln_buf_cut:
  assumes "ln_buf cap l B" "n \<le> length l"
  shows "ln_buf cap (take n l) (B[n := 0])"
proof -
  have B: "length B = cap + 1" "take (length l + 1) B = l @ [0]" using assms(1) by (simp_all add: ln_buf_def)
  have "length (take (length l + 1) B) \<le> length B" by simp
  then have "length l \<le> cap" unfolding B by simp
  moreover have "take n B = take n l"
    using arg_cong [OF B(2), of "take n"] assms(2) by (simp add: min_def)
  moreover have len: "length (take n l) = n" using assms(2) by simp
  ultimately show ?thesis using ln_buf_close [of B cap "take n l", unfolded len] B(1) assms(2) by simp
qed

lemma put_bytes_take:
  assumes "d \<le> length B" "d + length xs \<le> length B"
  shows "put_bytes B d xs = take d B @ xs @ drop (d + length xs) B"
  using assms by (intro nth_equalityI) (auto simp: nth_put_bytes nth_append min_def)

lemma ln_buf_len: "ln_buf cap l B \<Longrightarrow> length B = cap + 1 \<and> length l \<le> cap"
proof -
  assume B: "ln_buf cap l B"
  then have t: "take (length l + 1) B = l @ [0]" and c: "length B = cap + 1" by (simp_all add: ln_buf_def)
  have "length (take (length l + 1) B) \<le> length B" by simp
  then show ?thesis unfolding t c by (simp add: c)
qed

lemma ln_buf_take: "ln_buf cap l B \<Longrightarrow> n \<le> length l \<Longrightarrow> take n B = take n l"
proof -
  assume "ln_buf cap l B" "n \<le> length l"
  then have "take n (take (length l + 1) B) = take n l" by (simp only: ln_buf_def) simp
  then show ?thesis using \<open>n \<le> length l\<close> by (simp add: min_def)
qed

lemma ln_buf_tail: "ln_buf cap l B \<Longrightarrow> n \<le> length l \<Longrightarrow> get_bytes B n (length l - n) = drop n l"
  using ln_buf_take [of cap l B "length l"] by (simp add: get_bytes_def take_drop)

lemma ln_buf_put:
  assumes "ln_buf cap l B" "d \<le> length l" "d + length xs \<le> cap"
  shows "ln_buf cap (take d l @ xs) ((put_bytes B d xs)[d + length xs := 0])"
proof -
  note B = ln_buf_len [OF assms(1)]
  have "put_bytes B d xs = take d l @ xs @ drop (d + length xs) B"
    using put_bytes_take [of d B xs] B assms by (simp add: ln_buf_take)
  moreover have "length (take d l @ xs) = d + length xs" using assms(2) by simp
  ultimately show ?thesis using ln_buf_close [of "put_bytes B d xs" cap "take d l @ xs"] B assms(2,3) by simp
qed

lemma ln_buf_insert:
  assumes "ln_buf cap l B" "p \<le> length l" "length l < cap"
  shows "ln_buf cap (take p l @ [x] @ drop p l) (((put_bytes B (p + 1) (drop p l))[p := x])[length l + 1 := 0])"
proof -
  note B = ln_buf_len [OF assms(1)]
  have p: "length (take p B) = p" using B assms(2) by simp
  have "take (p + 1) B = take p B @ [B ! p]" using B assms(2) by (simp add: take_Suc_conv_app_nth)
  then have "put_bytes B (p + 1) (drop p l) = take p B @ [B ! p] @ drop p l @ drop (length l + 1) B"
    using put_bytes_take [of "p + 1" B "drop p l"] B assms(2,3) by simp
  then have "(put_bytes B (p + 1) (drop p l))[p := x] = (take p B @ [x] @ drop p l) @ drop (length l + 1) B"
    using p by (simp add: list_update_append)
  then have 1: "(put_bytes B (p + 1) (drop p l))[p := x] = (take p l @ [x] @ drop p l) @ drop (length l + 1) B"
    using ln_buf_take [OF assms(1,2)] by simp
  define L where "L = take p l @ [x] @ drop p l"
  define B2 where "B2 = (put_bytes B (p + 1) (drop p l))[p := x]"
  have "B2 = L @ drop (length l + 1) B" unfolding B2_def L_def by (rule 1)
  moreover have "length L = length l + 1" using assms(2) by (simp add: L_def)
  moreover have "length B2 = length B" by (simp add: B2_def)
  ultimately show ?thesis using ln_buf_close [of B2 cap L] B assms(3) unfolding B2_def [symmetric] L_def [symmetric] by simp
qed

lemma ln_buf_append:
  assumes "ln_buf cap l B" "length l < cap"
  shows "ln_buf cap (l @ [x]) ((B[length l := x])[length l + 1 := 0])"
proof -
  note B = ln_buf_len [OF assms(1)]
  have "take (length l + 1) (B[length l := x]) = take (length l) B @ [x]" using B by (simp add: take_Suc_conv_app_nth)
  then show ?thesis using ln_buf_close [of "B[length l := x]" cap "l @ [x]"] B assms(2) ln_buf_take [OF assms(1), of "length l"] by simp
qed

text \<open>Drawing never fails and leaves the history alone.\<close>

definition ln_fits :: "ln_cfg \<Rightarrow> u8 list \<Rightarrow> nat \<Rightarrow> bool" where
  "ln_fits c prompt cap \<longleftrightarrow> ln_alloc c \<and> length prompt < unat (ln_cols c) \<and> length prompt + cap + 1 < 4294967296"

lemma ln_refresh_rep:
  assumes "ln_fits c prompt cap" "ed_ok cap E" "ln_rep i cap E P N"
  shows "\<exists>N'. ln_refresh c prompt P N = Some (P, N') \<and> ln_rep i cap E P N'"
proof -
  have "length (lp_buf P) = cap + 1" "lp_len P \<le> cap" "lp_pos P \<le> lp_len P"
    using assms(2,3) ln_buf_len by (auto simp: ln_rep_def ed_ok_def)
  then show ?thesis using refreshLine_shows [of prompt c "lp_pos P" "lp_len P" "lp_buf P" N] assms(1,3)
    by (simp add: ln_refresh_def ln_fits_def ln_rep_def)
qed

lemma ln_strncpy_buf:
  assumes "length (lp_buf P) = cap + 1" "0 \<notin> set t"
  shows "\<exists>B. Option.bind (lp_strncpy t cap P) (lp_store cap 0) = Some (P\<lparr> lp_buf := B \<rparr>) \<and> ln_buf cap (take cap t) B"
proof -
  define xs where "xs = take cap t @ replicate (cap - length t) (0 :: u8)"
  have xs: "length xs = cap" by (simp add: xs_def)
  have put: "put_bytes (lp_buf P) 0 xs = xs @ drop cap (lp_buf P)" using put_bytes_take [of 0 "lp_buf P" xs] assms(1) xs by simp
  define B where "B = (put_bytes (lp_buf P) 0 xs)[cap := 0]"
  have "drop cap (lp_buf P) = [lp_buf P ! cap]" using Cons_nth_drop_Suc [of cap "lp_buf P"] assms(1) by simp
  then have B: "B = xs @ [0]" using xs by (simp add: B_def put list_update_append)
  have "take (length (take cap t) + 1) B = take cap t @ [0]"
  proof (cases "length t < cap")
    case True
    then obtain k where "cap - length t = Suc k" by (metis Suc_diff_Suc)
    then show ?thesis using True by (simp add: B xs_def)
  next
    case False
    then show ?thesis by (simp add: B xs_def)
  qed
  then have "ln_buf cap (take cap t) B" using B xs by (simp add: ln_buf_def)
  moreover have "Option.bind (lp_strncpy t cap P) (lp_store cap 0) = Some (P\<lparr> lp_buf := B \<rparr>)"
    using assms(1) by (simp add: lp_strncpy_def lp_store_def xs_def [symmetric] B_def)
  ultimately show ?thesis by blast
qed

section \<open>The program edits as the abstract editor does\<close>

lemma ln_refresh_to:
  assumes "ln_fits c prompt cap" "ed_ok cap E'" "ln_rep i cap E' P' N"
  shows "\<exists>P N'. ln_refresh c prompt P' N = Some (P, N') \<and> ln_rep i cap E' P N'"
  using ln_refresh_rep [OF assms] by blast

lemma ln_delete:
  assumes "ln_fits c prompt cap" "ed_ok cap E" "ln_rep i cap E P N" "d < length (ed_line E)" "q \<le> length (ed_line E) - 1"
  defines "B' \<equiv> (put_bytes (lp_buf P) d (get_bytes (lp_buf P) (d + 1) (length (ed_line E) - (d + 1))))[length (ed_line E) - 1 := 0]"
  shows "\<exists>P' N'. ln_refresh c prompt \<lparr> lp_buf = B', lp_len = length (ed_line E) - 1, lp_pos = q, lp_index = ed_index E \<rparr> N = Some (P', N') \<and>
    ln_rep i cap (E\<lparr> ed_line := take d (ed_line E) @ drop (d + 1) (ed_line E), ed_pos := q \<rparr>) P' N'"
proof -
  define l where "l = ed_line E"
  define B where "B = lp_buf P"
  have rep: "ln_buf cap l B" "lp_len P = length l" "lp_pos P = ed_pos E" "lp_index P = ed_index E" "ln_hist N i = Some (map Some (ed_hist E))"
    using assms(3) by (simp_all add: ln_rep_def l_def B_def)
  have len: "length B = cap + 1" "length l \<le> cap" using ln_buf_len [OF rep(1)] by simp_all
  have d: "d < length l" "q \<le> length l - 1" using assms(4,5) by (simp_all add: l_def)
  have tail: "get_bytes B (d + 1) (length l - (d + 1)) = drop (d + 1) l" using ln_buf_tail [OF rep(1), of "d + 1"] d by simp
  have buf: "ln_buf cap (take d l @ drop (d + 1) l) ((put_bytes B d (drop (d + 1) l))[length l - 1 := 0])"
    using ln_buf_put [OF rep(1), of d "drop (d + 1) l"] d len by simp
  let ?E = "E\<lparr> ed_line := take d l @ drop (d + 1) l, ed_pos := q \<rparr>"
  have "0 \<notin> set (take d l @ drop (d + 1) l)" using assms(2) by (auto simp: ed_ok_def l_def dest: in_set_takeD in_set_dropD)
  then have ok: "ed_ok cap ?E" using assms(2) d len by (intro ed_ok_upd) auto
  let ?P = "\<lparr> lp_buf = B', lp_len = length l - 1, lp_pos = q, lp_index = ed_index E \<rparr>"
  have "B' = (put_bytes B d (drop (d + 1) l))[length l - 1 := 0]" using tail by (simp only: B'_def l_def [symmetric] B_def [symmetric])
  then have "ln_rep i cap ?E ?P N" using rep buf d by (simp add: ln_rep_def)
  from ln_refresh_to [OF assms(1) ok this] show ?thesis by (simp only: l_def)
qed

lemma ln_insert_refines:
  assumes "ln_fits c prompt cap" "ed_ok cap E" "ln_rep i cap E P N"
  shows "\<exists>P' N'. ln_insert c prompt cap k P N = Some (P', N') \<and> ln_rep i cap (if isprint k \<and> length (ed_line E) < cap then
    E\<lparr> ed_line := take (ed_pos E) (ed_line E) @ [word_of_int k] @ drop (ed_pos E) (ed_line E), ed_pos := ed_pos E + 1 \<rparr> else E) P' N'"
proof (cases "isprint k \<and> length (ed_line E) < cap")
  case False
  then have "\<not> (isprint k \<and> lp_len P < cap)" using assms(3) by (simp add: ln_rep_def)
  then show ?thesis using assms(3) unfolding ln_insert_def by (simp only: if_not_P [OF False] if_False) blast
next
  case True
  define l where "l = ed_line E"
  define B where "B = lp_buf P"
  define x where "x = (word_of_int k :: u8)"
  define p where "p = ed_pos E"
  have rep: "ln_buf cap l B" "lp_len P = length l" "lp_pos P = p" "lp_index P = ed_index E" "ln_hist N i = Some (map Some (ed_hist E))"
    using assms(3) by (simp_all add: ln_rep_def l_def B_def p_def)
  have len: "length B = cap + 1" "length l \<le> cap" using ln_buf_len [OF rep(1)] by simp_all
  have p: "p \<le> length l" "length l < cap" using assms(2) True by (simp_all add: ed_ok_def l_def p_def)
  let ?E = "E\<lparr> ed_line := take p l @ [x] @ drop p l, ed_pos := p + 1 \<rparr>"
  have "0 \<notin> set (take p l @ [x] @ drop p l)"
    using assms(2) isprint_nonzero [of k] True by (auto simp: ed_ok_def l_def x_def dest: in_set_takeD in_set_dropD)
  then have ok: "ed_ok cap ?E" using assms(2) p by (intro ed_ok_upd) auto
  have "\<exists>P' N'. ln_insert c prompt cap k P N = Some (P', N') \<and> ln_rep i cap ?E P' N'"
  proof (cases "length l = p")
    case end': True
    let ?P = "P\<lparr> lp_pos := p + 1, lp_len := p + 1, lp_buf := (B[p := x])[p + 1 := 0] \<rparr>"
    have r: "ln_rep i cap ?E ?P N'" if "ln_hist N' i = ln_hist N i" for N'
      using ln_buf_append [OF rep(1) p(2), of x] rep end' that by (simp add: ln_rep_def)
    have "ln_insert c prompt cap k P N =
        (if of_nat (length prompt) + of_nat (p + 1) < ln_cols c then Some (?P, N\<lparr> ln_out := ln_out N @ [x] \<rparr>) else ln_refresh c prompt ?P N)"
      using True rep end' p len by (simp add: ln_insert_def lp_store_def Let_def l_def [symmetric] B_def [symmetric] x_def)
    then show ?thesis using r [of "N\<lparr> ln_out := ln_out N @ [x] \<rparr>"] ln_refresh_to [OF assms(1) ok r [OF refl]] by simp
  next
    case False
    let ?P = "P\<lparr> lp_len := length l + 1, lp_pos := p + 1, lp_buf := ((put_bytes B (p + 1) (drop p l))[p := x])[length l + 1 := 0] \<rparr>"
    have "get_bytes B p (length l - p) = drop p l" using ln_buf_tail [OF rep(1) p(1)] .
    then have eq: "ln_insert c prompt cap k P N = ln_refresh c prompt ?P N"
      using True rep False p len by (simp add: ln_insert_def lp_store_def lp_memmove_def Let_def l_def [symmetric] B_def [symmetric] x_def)
    have "ln_rep i cap ?E ?P N" using ln_buf_insert [OF rep(1) p, of x] rep p by (simp add: ln_rep_def)
    from ln_refresh_to [OF assms(1) ok this] show ?thesis unfolding eq .
  qed
  then show ?thesis using True by (simp add: l_def x_def p_def)
qed

lemma ln_history_refines:
  assumes "ln_fits c prompt cap" "ed_ok cap E" "ln_rep i cap E P N"
  shows "\<exists>P' N'. ln_history_key c i prompt cap up P N = Some (P', N') \<and> ln_rep i cap (ed_history cap up E) P' N'"
proof -
  define n where "n = length (ed_hist E)"
  define j where "j = (if up then ed_index E + 1 else ed_index E - 1)"
  define h where "h = (ed_hist E)[n - 1 - ed_index E := ed_line E]"
  define N1 where "N1 = set_hist i (Some (map Some h)) N"
  have rep: "ln_buf cap (ed_line E) (lp_buf P)" "lp_len P = length (ed_line E)" "lp_pos P = ed_pos E" "lp_index P = ed_index E"
      "ln_entries i N = map Some (ed_hist E)" "ln_hist N i = Some (map Some (ed_hist E))"
    using assms(3) by (simp_all add: ln_rep_def ln_entries_def)
  have ok: "ed_index E < n" "0 \<notin> set (ed_line E)" "ln_alloc c" using assms(1,2) by (simp_all add: ed_ok_def n_def ln_fits_def)
  note s = ln_buf_bstr [OF rep(1) ok(2)]
  have h: "length h = n" "(map Some (ed_hist E))[n - 1 - ed_index E := Some (ed_line E)] = map Some h"
    by (simp_all add: h_def n_def map_update)
  have ed: "ed_history cap up E = (if n \<le> 1 then E else if \<not> up \<and> ed_index E = 0 \<or> n \<le> j then E\<lparr> ed_hist := h \<rparr>
      else \<lparr> ed_line = take cap (h ! (n - 1 - j)), ed_pos = length (take cap (h ! (n - 1 - j))), ed_index = j, ed_hist = h \<rparr>)"
    by (simp only: ed_history_def Let_def n_def h_def j_def)
  have ln: "ln_history_key c i prompt cap up P N = (if n \<le> 1 then Some (P, N)
      else if \<not> up \<and> ed_index E = 0 then Some (P, N1)
      else if n \<le> j then Some (P\<lparr> lp_index := n - 1 \<rparr>, N1)
      else Option.bind (lp_strncpy (h ! (n - 1 - j)) cap (P\<lparr> lp_index := j \<rparr>)) (\<lambda>P. Option.bind (lp_store cap 0 P) (\<lambda>P.
        Option.bind (bstr (lp_buf P)) (\<lambda>s. ln_refresh c prompt (P\<lparr> lp_len := length s, lp_pos := length s \<rparr>) N1))))"
  proof -
    have "ln_history_key c i prompt cap up P N = (if n \<le> 1 then Some (P, N)
      else if n - 1 < ed_index E then None
      else if \<not> up \<and> ed_index E = 0 then Some (P, N1)
      else if n \<le> j then Some (P\<lparr> lp_index := n - 1 \<rparr>, N1)
      else case map Some h ! (n - 1 - j) of None \<Rightarrow> None
        | Some t \<Rightarrow> Option.bind (lp_strncpy t cap (P\<lparr> lp_index := j \<rparr>)) (\<lambda>P. Option.bind (lp_store cap 0 P) (\<lambda>P.
            Option.bind (bstr (lp_buf P)) (\<lambda>s. ln_refresh c prompt (P\<lparr> lp_len := length s, lp_pos := length s \<rparr>) N1))))"
      by (simp only: ln_history_key_def Let_def s rep(4,5) length_map n_def [symmetric] ok(3) if_True option.case h length_list_update
        j_def [symmetric] N1_def [symmetric])
    moreover have "\<not> n - 1 < ed_index E" using ok(1) by linarith
    ultimately show ?thesis using ok(1) h(1) by simp
  qed
  show ?thesis
  proof (cases "n \<le> 1")
    case True
    then show ?thesis using assms(3) by (simp add: ed ln)
  next
    case n1: False
    show ?thesis
    proof (cases "\<not> up \<and> ed_index E = 0 \<or> n \<le> j")
      case True
      then have "n \<le> j \<Longrightarrow> n - 1 = ed_index E" using ok(1) by (auto simp: j_def split: if_splits)
      then show ?thesis using n1 True rep h(1) unfolding ed ln by (auto simp: ln_rep_def N1_def set_hist_def)
    next
      case False
      have F: "\<not> (\<not> up \<and> ed_index E = 0)" "\<not> n \<le> j" using False by auto
      define t where "t = h ! (n - 1 - j)"
      have "t \<in> set h" using h(1) False n1 by (simp add: t_def)
      then have "t \<in> insert (ed_line E) (set (ed_hist E))" using set_update_subset_insert unfolding h_def by fast
      then have t: "0 \<notin> set t" "0 \<notin> set (take cap t)" using assms(2) by (auto simp: ed_ok_def dest: in_set_takeD)
      have "length (lp_buf (P\<lparr> lp_index := j \<rparr>)) = cap + 1" using ln_buf_len [OF rep(1)] by simp
      from ln_strncpy_buf [OF this t(1)] obtain B
        where B: "Option.bind (lp_strncpy t cap (P\<lparr> lp_index := j \<rparr>)) (lp_store cap 0) = Some (P\<lparr> lp_index := j, lp_buf := B \<rparr>)" "ln_buf cap (take cap t) B"
        by auto
      let ?E = "\<lparr> ed_line = take cap t, ed_pos = length (take cap t), ed_index = j, ed_hist = h \<rparr>"
      let ?P = "P\<lparr> lp_index := j, lp_buf := B, lp_len := length (take cap t), lp_pos := length (take cap t) \<rparr>"
      have e: "ed_history cap up E = ?E" by (simp only: ed t_def if_not_P [OF n1] if_not_P [OF False])
      have "ed_ok cap ?E" using ed_history_ok [OF assms(2), of up] unfolding e .
      moreover have "ln_rep i cap ?E ?P N1" using B(2) by (simp add: ln_rep_def N1_def set_hist_def)
      ultimately have "\<exists>P' N'. ln_refresh c prompt ?P N1 = Some (P', N') \<and> ln_rep i cap ?E P' N'" by (rule ln_refresh_to [OF assms(1)])
      moreover have "ln_history_key c i prompt cap up P N = ln_refresh c prompt ?P N1"
      proof -
        have "ln_history_key c i prompt cap up P N =
            Option.bind (Option.bind (lp_strncpy t cap (P\<lparr> lp_index := j \<rparr>)) (lp_store cap 0)) (\<lambda>P.
              Option.bind (bstr (lp_buf P)) (\<lambda>s. ln_refresh c prompt (P\<lparr> lp_len := length s, lp_pos := length s \<rparr>) N1))"
          by (simp only: ln t_def if_not_P [OF n1] if_not_P [OF F(1)] if_not_P [OF F(2)] Option.bind_assoc)
        then show ?thesis using ln_buf_bstr [OF B(2) t(2)] by (simp add: B(1))
      qed
      ultimately show ?thesis by (simp only: e)
    qed
  qed
qed

lemma ln_key_refines:
  assumes "ln_fits c prompt cap" "ed_ok cap E" "ln_rep i cap E P N"
  shows "\<exists>P' N'. ln_key c i prompt cap k P N = Some (P', N') \<and> ln_rep i cap (ed_key cap k E) P' N'"
proof -
  define l where "l = ed_line E"
  have rep: "ln_buf cap l (lp_buf P)" "lp_len P = length l" "lp_pos P = ed_pos E" "lp_index P = ed_index E" "ln_hist N i = Some (map Some (ed_hist E))"
    using assms(3) by (simp_all add: ln_rep_def l_def)
  have len: "length (lp_buf P) = cap + 1" "length l \<le> cap" using ln_buf_len [OF rep(1)] by simp_all
  have ok: "ed_pos E \<le> length l" "ed_ok cap (ed_key cap k E)" using assms(2) ed_key_ok [OF assms(2)] by (simp_all add: ed_ok_def l_def)
  have move: "\<exists>P' N'. ln_refresh c prompt (P\<lparr> lp_pos := q \<rparr>) N = Some (P', N') \<and> ln_rep i cap (E\<lparr> ed_pos := q \<rparr>) P' N'"
    if "q \<le> length l" for q
    using that assms(2,3) by (intro ln_refresh_to [OF assms(1)] ed_ok_upd) (simp_all add: ln_rep_def l_def)
  have P: "P = \<lparr> lp_buf = lp_buf P, lp_len = length l, lp_pos = ed_pos E, lp_index = ed_index E \<rparr>" using rep by (cases P) simp
  define B where "B = lp_buf P"
  note P = P [folded B_def] and len = len [folded B_def]
  note del = ln_delete [OF assms, folded l_def B_def]
  consider "k = KC_BACKSPACE" | "k = KC_LEFT" | "k = KC_RIGHT" | "k = KC_UP \<or> k = KC_DOWN" | "k = KC_DEL"
    | "k = KC_HOME" | "k = KC_END" | "k = KC_CTRL_U" | "k = KC_CTRL_K" | "k = KC_CTRL_T"
    | "k \<notin> {KC_BACKSPACE, KC_LEFT, KC_RIGHT, KC_UP, KC_DOWN, KC_DEL, KC_HOME, KC_END, KC_CTRL_U, KC_CTRL_K, KC_CTRL_T}" by blast
  then show ?thesis
  proof cases
    case 1
    show ?thesis
    proof (cases "0 < ed_pos E")
      case True
      note m = del [of "ed_pos E - 1" "ed_pos E - 1"]
      from True have d: "ed_pos E - 1 < length (ed_line E)" "ed_pos E - 1 \<le> length (ed_line E) - 1" "Suc (ed_pos E - 1) = ed_pos E" "0 < length l"
        using ok(1) by (auto simp: l_def)
      then show ?thesis using m d(3,4) ok(1) len True 1 by (simp add: ln_key_def ed_key_def l_def [symmetric] Let_def lp_memmove_def lp_store_def P)
    next
      case False
      then show ?thesis using assms(3) rep 1 by (simp add: ln_key_def ed_key_def)
    qed
  next
    case 2
    have m: "ln_key c i prompt cap k P N = (if 0 < ed_pos E then ln_refresh c prompt (P\<lparr> lp_pos := ed_pos E - 1 \<rparr>) N else Some (P, N))"
      "ed_key cap k E = E\<lparr> ed_pos := ed_pos E - 1 \<rparr>"
      using rep(3) by (simp_all add: 2 ln_key_def ed_key_def Let_def key_codes)
    show ?thesis using move [of "ed_pos E - 1"] ok(1) assms(3) unfolding m by (cases "0 < ed_pos E") (auto simp: ln_rep_def)
  next
    case 3
    have m: "ln_key c i prompt cap k P N = (if ed_pos E \<noteq> length l then ln_refresh c prompt (P\<lparr> lp_pos := ed_pos E + 1 \<rparr>) N else Some (P, N))"
      "ed_key cap k E = E\<lparr> ed_pos := min (ed_pos E + 1) (length l) \<rparr>"
      using rep(2,3) by (simp_all add: 3 ln_key_def ed_key_def Let_def key_codes l_def)
    show ?thesis
    proof (cases "ed_pos E = length l")
      case True
      then show ?thesis using assms(3) unfolding m by (simp add: ln_rep_def)
    next
      case False
      then have "min (ed_pos E + 1) (length l) = ed_pos E + 1" "ed_pos E + 1 \<le> length l" using ok(1) by simp_all
      then show ?thesis using move [of "ed_pos E + 1"] False unfolding m by simp
    qed
  next
    case 4
    then have "ln_key c i prompt cap k P N = ln_history_key c i prompt cap (k = KC_UP) P N" "ed_key cap k E = ed_history cap (k = KC_UP) E"
      by (auto simp: ln_key_def ed_key_def Let_def key_codes)
    then show ?thesis using ln_history_refines [OF assms] by simp
  next
    case 5
    show ?thesis
    proof (cases "ed_pos E < length l")
      case True
      then have d: "ed_pos E < length (ed_line E)" "ed_pos E \<le> length (ed_line E) - 1" "0 < length l" by (auto simp: l_def)
      show ?thesis using del [of "ed_pos E" "ed_pos E"] d True len 5
        by (simp add: ln_key_def ed_key_def l_def [symmetric] Let_def lp_memmove_def lp_store_def P key_codes)
    next
      case False
      then show ?thesis using assms(3) rep 5 ok(1) by (simp add: ln_key_def ed_key_def key_codes l_def Let_def)
    qed
  next
    case 6
    then show ?thesis using move [of 0] by (simp add: ln_key_def ed_key_def Let_def key_codes)
  next
    case 7
    then show ?thesis using move [of "length l"] rep(2) by (simp add: ln_key_def ed_key_def Let_def key_codes l_def)
  next
    case 8
    have "ln_rep i cap (ed_key cap k E) (P\<lparr> lp_buf := (lp_buf P)[0 := 0], lp_pos := 0, lp_len := 0 \<rparr>) N"
      using ln_buf_cut [OF rep(1), of 0] rep by (simp add: 8 ed_key_def ln_rep_def Let_def key_codes)
    from ln_refresh_to [OF assms(1) ok(2) this] show ?thesis using len by (simp add: 8 B_def ln_key_def lp_store_def key_codes)
  next
    case 9
    have "ln_rep i cap (ed_key cap k E) (P\<lparr> lp_buf := (lp_buf P)[ed_pos E := 0], lp_len := ed_pos E \<rparr>) N"
      using ln_buf_cut [OF rep(1) ok(1)] rep ok(1) by (simp add: 9 ed_key_def ln_rep_def Let_def key_codes l_def)
    from ln_refresh_to [OF assms(1) ok(2) this] show ?thesis using len ok(1) rep(3) by (simp add: 9 B_def ln_key_def lp_store_def key_codes)
  next
    case 10
    then show ?thesis using assms(3) by (simp add: ln_key_def ed_key_def Let_def key_codes isprint_def)
  next
    case 11
    then have "ln_key c i prompt cap k P N = ln_insert c prompt cap k P N"
      "ed_key cap k E = (if isprint k \<and> length (ed_line E) < cap then
        E\<lparr> ed_line := take (ed_pos E) (ed_line E) @ [word_of_int k] @ drop (ed_pos E) (ed_line E), ed_pos := ed_pos E + 1 \<rparr> else E)"
      by (simp_all add: ln_key_def ed_key_def Let_def)
    then show ?thesis using ln_insert_refines [OF assms] by simp
  qed
qed

section \<open>Whole lines\<close>

text \<open>A new line is an empty entry at the end of the history. An abandoned line leaves its edits of the others.\<close>

definition ed_start :: "nat \<Rightarrow> u8 list list \<Rightarrow> ed" where
  "ed_start n hs = \<lparr> ed_line = [], ed_pos = 0, ed_index = 0, ed_hist = ln_push n [] hs \<rparr>"

definition ed_edit :: "nat \<Rightarrow> nat \<Rightarrow> u8 list list \<Rightarrow> int list \<Rightarrow> ed" where
  "ed_edit n cap hs ks = fold (ed_key cap) ks (ed_start n hs)"

fun ed_abandon :: "nat \<Rightarrow> nat \<Rightarrow> int list list \<Rightarrow> u8 list list \<Rightarrow> u8 list list" where
  "ed_abandon n cap [] hs = hs"
| "ed_abandon n cap (ks # kss) hs = ed_abandon n cap kss (butlast (ed_hist (ed_edit n cap hs ks)))"

definition ed_hists_ok :: "nat \<Rightarrow> u8 list list \<Rightarrow> bool" where
  "ed_hists_ok n hs \<longleftrightarrow> 0 < n \<and> length hs \<le> n \<and> (\<forall>h\<in>set hs. 0 \<notin> set h)"

lemma ln_push_map: "ln_push n (f x) (map f h) = map f (ln_push n x h)"
  by (simp add: ln_push_def drop_map)

lemma ed_start_ok:
  assumes "ed_hists_ok n hs"
  shows "ed_ok cap (ed_start n hs)" "length (ed_hist (ed_start n hs)) \<le> n"
  using assms by (auto simp: ed_start_def ed_ok_def ed_hists_ok_def ln_push_def dest: in_set_dropD)

lemma ed_history_length: "length (ed_hist (ed_history cap up E)) = length (ed_hist E)"
  by (simp add: ed_history_def Let_def)

lemma ed_key_length: "length (ed_hist (ed_key cap k E)) = length (ed_hist E)"
  by (simp add: ed_key_def Let_def ed_history_length)

lemma ed_edit_ok:
  assumes "ed_hists_ok n hs"
  shows "ed_ok cap (ed_edit n cap hs ks)" "length (ed_hist (ed_edit n cap hs ks)) \<le> n"
proof -
  have "ed_ok cap (fold (ed_key cap) ks E) \<and> length (ed_hist (fold (ed_key cap) ks E)) = length (ed_hist E)" if "ed_ok cap E" for E
    using that by (induction ks arbitrary: E) (simp_all add: ed_key_ok ed_key_length)
  then show "ed_ok cap (ed_edit n cap hs ks)" "length (ed_hist (ed_edit n cap hs ks)) \<le> n"
    using ed_start_ok [OF assms] by (simp_all add: ed_edit_def)
qed

lemma ed_edit_history_ok: "ed_hists_ok n hs \<Longrightarrow> ed_hists_ok n (butlast (ed_hist (ed_edit n cap hs ks)))"
  using ed_edit_ok(1) [of n hs cap ks] ed_edit_ok(2) [of n hs cap ks] by (auto simp: ed_hists_ok_def ed_ok_def dest: in_set_butlastD)

lemma ln_loop_refines:
  assumes "ln_fits c prompt cap" "ed_ok cap E" "ln_rep i cap E P N" "\<forall>k\<in>set ks. \<not> ln_ends k" "ln_ends e"
  shows "\<exists>B N'. ln_loop c i prompt cap (ks @ e # rest) P N = Some (Inr (ln_result e (length (ed_line (fold (ed_key cap) ks E))), B, rest, N')) \<and>
    ln_buf cap (ed_line (fold (ed_key cap) ks E)) B \<and> ln_entries i N' = map Some (butlast (ed_hist (fold (ed_key cap) ks E)))"
  using assms
proof (induction ks arbitrary: E P N)
  case Nil
  have "ed_hist E \<noteq> []" using Nil.prems(2) by (auto simp: ed_ok_def)
  moreover have "ln_entries i N = map Some (ed_hist E)" using Nil.prems(3) by (simp add: ln_rep_def ln_entries_def)
  ultimately show ?case using Nil.prems(3,5) by (auto simp: ln_rep_def ln_entries_def set_hist_def map_butlast)
next
  case (Cons k ks)
  from ln_key_refines [OF Cons.prems(1-3), of k] obtain P' N'
    where k: "ln_key c i prompt cap k P N = Some (P', N')" "ln_rep i cap (ed_key cap k E) P' N'" by blast
  have "\<not> ln_ends k" using Cons.prems(4) by simp
  then show ?case
    using Cons.IH [OF Cons.prems(1) ed_key_ok [OF Cons.prems(2)] k(2)] Cons.prems(4,5) by (simp add: k(1))
qed

lemma linenoisePrompt_refines:
  assumes "ln_fits c prompt cap" "length buf = cap + 1" "ed_hists_ok (ln_max c i) hs" "ln_entries i N = map Some hs"
    and "\<forall>k\<in>set ks. \<not> ln_ends k" "ln_ends e"
  defines "E \<equiv> ed_edit (ln_max c i) cap hs ks"
  shows "\<exists>B N'. linenoisePrompt c i buf prompt (ks @ e # rest) N = Some (Inr (ln_result e (length (ed_line E)), B, rest, N')) \<and>
    ln_buf cap (ed_line E) B \<and> ln_entries i N' = map Some (butlast (ed_hist E))"
proof -
  define N1 where "N1 = snd (linenoise_internal_addhistory c i [] True N)"
  have "ln_add_lines n [] True h = ln_push n (Some []) h" for n h by (simp add: ln_add_lines.simps [of n "[]"])
  then have N1: "ln_hist N1 i = Some (map Some (ln_push (ln_max c i) [] hs))"
    using assms(1,3,4) by (simp add: N1_def linenoise_internal_addhistory_def Let_def ln_fits_def ed_hists_ok_def set_hist_def ln_push_map)
  let ?P = "\<lparr> lp_buf = buf[0 := 0], lp_len = 0, lp_pos = 0, lp_index = 0 \<rparr>"
  have buf: "ln_buf cap [] (buf[0 := 0])" using ln_buf_close [of buf cap "[]"] assms(2) by simp
  have rep: "ln_rep i cap (ed_start (ln_max c i) hs) ?P (N1\<lparr> ln_out := ln_out N1 @ prompt \<rparr>)"
    using buf N1 by (simp add: ln_rep_def ed_start_def)
  have "linenoisePrompt c i buf prompt (ks @ e # rest) N = ln_loop c i prompt cap (ks @ e # rest) ?P (N1\<lparr> ln_out := ln_out N1 @ prompt \<rparr>)"
    using assms(2) by (simp add: linenoisePrompt_def lp_store_def N1_def Let_def)
  then show ?thesis
    using ln_loop_refines [OF assms(1) ed_start_ok(1) [OF assms(3)] rep assms(5,6)] unfolding E_def ed_edit_def by simp
qed

lemma getline_prompt:
  assumes "0 < ln_max c i" "linenoisePrompt c i buf prompt ks N = Some (Inr (count, B, ks', N'))"
  shows "linenoise_getline c i buf prompt line ks N =
    (let N' = (if count \<noteq> - 1 then N'\<lparr> ln_out := ln_out N' @ [CH_NL] \<rparr> else N') in
     if count = LINENOISE_CTRL_C then linenoise_getline c i B prompt line ks' N'
     else if 0 < count \<and> nat count < length B then Some (Inr (count, B[nat count := 0], ks', N')) else Some (Inr (count, B, ks', N')))"
  using assms by (subst linenoise_getline.simps) simp

lemma linenoise_edits_line_aux:
  assumes "ln_fits c prompt cap" "length buf = cap + 1" "ed_hists_ok (ln_max c i) hs" "ln_entries i N = map Some hs"
    and "\<forall>l\<in>set (ks # kss). \<forall>k\<in>set l. \<not> ln_ends k"
  defines "E \<equiv> ed_edit (ln_max c i) cap (ed_abandon (ln_max c i) cap kss hs) ks"
  shows "\<exists>B N'. linenoise_getline c i buf prompt line (concat (map (\<lambda>l. l @ [KC_CTRL_C]) kss) @ ks @ KC_ENTER # rest) N =
      Some (Inr (int (length (ed_line E)), B, rest, N')) \<and>
    ln_buf cap (ed_line E) B \<and> ln_entries i N' = map Some (butlast (ed_hist E))"
  using assms(2-5) unfolding E_def
proof (induction kss arbitrary: buf hs N)
  case Nil
  define E where "E = ed_edit (ln_max c i) cap hs ks"
  have ends: "ln_ends KC_ENTER" by (simp add: ln_ends_def)
  have ks: "\<forall>k\<in>set ks. \<not> ln_ends k" using Nil.prems(4) by simp
  have max: "0 < ln_max c i" using Nil.prems(2) by (simp add: ed_hists_ok_def)
  from linenoisePrompt_refines [OF assms(1) Nil.prems(1-3) ks ends, where rest = rest] obtain B N'
    where p: "linenoisePrompt c i buf prompt (ks @ KC_ENTER # rest) N = Some (Inr (int (length (ed_line E)), B, rest, N'))"
      and B: "ln_buf cap (ed_line E) B" and N': "ln_entries i N' = map Some (butlast (ed_hist E))"
    by (auto simp: ln_result_def key_codes E_def)
  have "ln_buf cap (ed_line E) (B[length (ed_line E) := 0])" using ln_buf_cut [OF B, of "length (ed_line E)"] by simp
  moreover have "ln_entries i (N'\<lparr> ln_out := x \<rparr>) = ln_entries i N'" for x by (simp add: ln_entries_def)
  ultimately show ?case
    using B N' by (simp add: getline_prompt [OF max p] LINENOISE_CTRL_C_def Let_def E_def [symmetric])
next
  case (Cons l kss)
  define E where "E = ed_edit (ln_max c i) cap hs l"
  define R where "R = concat (map (\<lambda>l. l @ [KC_CTRL_C]) kss) @ ks @ KC_ENTER # rest"
  have ends: "ln_ends KC_CTRL_C" by (simp add: ln_ends_def)
  have l: "\<forall>k\<in>set l. \<not> ln_ends k" and rest: "\<forall>l\<in>set (ks # kss). \<forall>k\<in>set l. \<not> ln_ends k" using Cons.prems(4) by simp_all
  have max: "0 < ln_max c i" using Cons.prems(2) by (simp add: ed_hists_ok_def)
  from linenoisePrompt_refines [OF assms(1) Cons.prems(1-3) l ends, where rest = R] obtain B N'
    where p: "linenoisePrompt c i buf prompt (l @ KC_CTRL_C # R) N = Some (Inr (LINENOISE_CTRL_C, B, R, N'))"
      and B: "ln_buf cap (ed_line E) B" and N': "ln_entries i N' = map Some (butlast (ed_hist E))"
    by (auto simp: ln_result_def E_def)
  have "length B = cap + 1" using B by (simp add: ln_buf_def)
  moreover have "ed_hists_ok (ln_max c i) (butlast (ed_hist E))" using ed_edit_history_ok [OF Cons.prems(2)] by (simp add: E_def)
  moreover have "ln_entries i (N'\<lparr> ln_out := ln_out N' @ [CH_NL] \<rparr>) = map Some (butlast (ed_hist E))" using N' by (simp add: ln_entries_def)
  ultimately show ?case
    using Cons.IH [OF _ _ _ rest, of B "butlast (ed_hist E)" "N'\<lparr> ln_out := ln_out N' @ [CH_NL] \<rparr>"]
    by (simp add: getline_prompt [OF max p, unfolded R_def] LINENOISE_CTRL_C_def Let_def E_def [symmetric] R_def)
qed

section \<open>The history\<close>

text \<open>The reference: a text is split at its newlines, and a history keeps its last entries.\<close>

fun split_nl :: "u8 list \<Rightarrow> u8 list list" where
  "split_nl [] = [[]]"
| "split_nl (x # xs) = (if x = CH_NL then [] # split_nl xs else (case split_nl xs of [] \<Rightarrow> [[x]] | l # ls \<Rightarrow> (x # l) # ls))"

definition last_n :: "nat \<Rightarrow> 'a list \<Rightarrow> 'a list" where
  "last_n n xs = drop (length xs - n) xs"

lemma split_nl_step:
  "split_nl line = takeWhile (\<lambda>x. x \<noteq> CH_NL) line # (case dropWhile (\<lambda>x. x \<noteq> CH_NL) line of [] \<Rightarrow> [] | _ # r \<Rightarrow> split_nl r)"
proof (induction line)
  case (Cons x xs)
  show ?case
  proof (cases "x = CH_NL")
    case False
    then have "split_nl (x # xs) = (case split_nl xs of [] \<Rightarrow> [[x]] | l # ls \<Rightarrow> (x # l) # ls)" by simp
    then show ?thesis using False by (subst (asm) Cons.IH) simp
  qed simp
qed simp

lemma last_n_push: "0 < n \<Longrightarrow> length h \<le> n \<Longrightarrow> ln_push n x h = last_n n (h @ [x])"
  by (auto simp: ln_push_def last_n_def)

lemma last_n_append: "last_n n (last_n n xs @ ys) = last_n n (xs @ ys)"
  by (cases "length xs \<le> n") (auto simp: last_n_def add.commute)

lemma last_n_length: "length (last_n n xs) \<le> n"
  by (simp add: last_n_def)

lemma last_n_short: "length xs \<le> n \<Longrightarrow> last_n n xs = xs"
  by (simp add: last_n_def)

lemma ln_add_lines_spec:
  assumes "0 < n" "length h \<le> n"
  shows "ln_add_lines n line False h = last_n n (h @ map Some (filter (\<lambda>l. l \<noteq> []) (split_nl line)))"
  using assms
proof (induction n line False h rule: ln_add_lines.induct)
  case (1 n line h)
  define p where "p = takeWhile (\<lambda>x. x \<noteq> CH_NL) line"
  define h' where "h' = (if p \<noteq> [] then ln_push n (Some p) h else h)"
  define d where "d = dropWhile (\<lambda>x. x \<noteq> CH_NL) line"
  have p: "drop (length p) line = d" by (simp add: p_def d_def dropWhile_eq_drop)
  have eq: "ln_add_lines n line False h = (case d of [] \<Rightarrow> h' | _ # r \<Rightarrow> if r = [] then h' else ln_add_lines n r False h')"
    by (subst ln_add_lines.simps) (simp add: Let_def p_def [symmetric] p h'_def [symmetric] del: drop_eq_Nil split: list.split)
  have h': "h' = last_n n (h @ map Some (filter (\<lambda>l. l \<noteq> []) [p]))" "length h' \<le> n"
    using last_n_push [OF "1.prems", of "Some p"] "1.prems" last_n_length [of n "h @ [Some p]"] by (simp_all add: h'_def last_n_short)
  show ?case
  proof (cases d)
    case Nil
    then have "split_nl line = [p]" using split_nl_step [of line, folded p_def d_def] by simp
    then show ?thesis using Nil by (simp only: eq h'(1) list.case)
  next
    case (Cons y r)
    then have s: "split_nl line = p # split_nl r" using split_nl_step [of line, folded p_def d_def] by simp
    show ?thesis
    proof (cases "r = []")
      case True
      then show ?thesis using Cons s h'(1) by (simp add: eq)
    next
      case False
      have "drop (length p) line = y # r" using p Cons by simp
      then have "ln_add_lines n r False h' = last_n n (h' @ map Some (filter (\<lambda>l. l \<noteq> []) (split_nl r)))"
        using "1.hyps" [of p "y # r" h'] False h'(2) "1.prems"(1) p Cons by (simp add: p_def h'_def)
      also have "... = last_n n (h @ map Some (filter (\<lambda>l. l \<noteq> []) (p # split_nl r)))"
        using last_n_append [of n "h @ map Some (filter (\<lambda>l. l \<noteq> []) [p])" "map Some (filter (\<lambda>l. l \<noteq> []) (split_nl r))"]
        by (simp add: h'(1))
      finally show ?thesis using False by (simp add: eq s Cons)
    qed
  qed
qed

lemma split_nl_lines:
  assumes "\<forall>l\<in>set ls. CH_NL \<notin> set l"
  shows "split_nl (concat (map (\<lambda>l. l @ [CH_NL]) ls)) = ls @ [[]]"
proof -
  have "split_nl (l @ CH_NL # r) = l # split_nl r" if "CH_NL \<notin> set l" for l r
    using that by (induction l) auto
  then show ?thesis using assms by (induction ls) auto
qed

lemma addhistory_entries:
  assumes "0 < ln_max c i" "ln_alloc c" "length (ln_entries i N) \<le> ln_max c i"
  shows "linenoise_addhistory c i line N =
    (1, set_hist i (Some (last_n (ln_max c i) (ln_entries i N @ map Some (filter (\<lambda>l. l \<noteq> []) (split_nl line))))) N)"
  using assms ln_add_lines_spec [OF assms(1,3)]
  by (simp add: linenoise_addhistory_def linenoise_internal_addhistory_def Let_def set_hist_def)

lemma last_n_map: "last_n n (map f xs) = map f (last_n n xs)"
  by (simp add: last_n_def drop_map)

lemma saved_history_reloads:
  assumes "0 < ln_max c i" "ln_alloc c" "ln_entries i N = map Some hs" "length hs \<le> ln_max c i"
    and "hs \<noteq> []" "\<forall>h\<in>set hs. h \<noteq> [] \<and> CH_NL \<notin> set h"
  shows "\<exists>t. linenoise_savehistory c i True N = Some (0, Some t) \<and>
    ln_entries i (snd (linenoise_addhistory c i t (linenoise_cleanup i N))) = ln_entries i N"
proof -
  define t where "t = concat (map (\<lambda>h. h @ [CH_NL]) hs)"
  have save: "linenoise_savehistory c i True N = Some (0, Some t)"
    using assms(1,3,5) by (auto simp: linenoise_savehistory_def t_def comp_def)
  have "filter (\<lambda>l. l \<noteq> []) hs = hs" using assms(6) by (intro filter_True) blast
  then have "filter (\<lambda>l. l \<noteq> []) (split_nl t) = hs" using split_nl_lines [of hs] assms(6) by (simp add: t_def)
  moreover have "ln_entries i (linenoise_cleanup i N) = []" by (simp add: linenoise_cleanup_def ln_entries_def set_hist_def)
  ultimately have "ln_entries i (snd (linenoise_addhistory c i t (linenoise_cleanup i N))) = last_n (ln_max c i) (map Some hs)"
    using addhistory_entries [OF assms(1,2), of "linenoise_cleanup i N" t] by (simp add: ln_entries_def set_hist_def)
  then show ?thesis using save assms(3,4) by (auto simp: last_n_short)
qed

text \<open>C17:
  The line that the editor returns. The keys are those of some abandoned lines, each ended by control-C,
  of one more line, and Enter. Then \<open>linenoise_getline\<close> makes no access outside its buffer and returns
  the length of the line of the abstract editor; the buffer has this line and a zero byte; the keys after
  Enter are left; and the history has the entries of the abstract editor, the edits made while going
  through it included. It needs memory for the history, entries that are not null, and a prompt that is
  shorter than a screen line.
\<close>

theorem linenoise_edits_line:
  assumes "ln_fits c prompt cap" "length buf = cap + 1" "ed_hists_ok (ln_max c i) hs" "ln_entries i N = map Some hs"
    and "\<forall>l\<in>set (ks # kss). \<forall>k\<in>set l. \<not> ln_ends k"
  shows "\<exists>B N'. linenoise_getline c i buf prompt line (concat (map (\<lambda>l. l @ [KC_CTRL_C]) kss) @ ks @ KC_ENTER # rest) N =
      Some (Inr (int (length (ed_line (ed_edit (ln_max c i) cap (ed_abandon (ln_max c i) cap kss hs) ks))), B, rest, N')) \<and>
    ln_buf cap (ed_line (ed_edit (ln_max c i) cap (ed_abandon (ln_max c i) cap kss hs) ks)) B \<and>
    ln_entries i N' = map Some (butlast (ed_hist (ed_edit (ln_max c i) cap (ed_abandon (ln_max c i) cap kss hs) ks)))"
  using assms by (rule linenoise_edits_line_aux)

text \<open>A history of one line; a line that is abandoned; then \<open>ab\<close>, left, \<open>c\<close>, with a look at the history.\<close>

definition ln_cfg_demo :: ln_cfg where
  "ln_cfg_demo = \<lparr> ln_max = (\<lambda>_. 2), ln_cols = 80, ln_alloc = True \<rparr>"

definition ln_demo :: ln where
  "ln_demo = \<lparr> ln_hist = (\<lambda>_. Some [Some [108, 115]]), ln_out = [] \<rparr>"

lemma linenoise_edits_line_witness:
  "\<exists>B N'. linenoise_getline ln_cfg_demo 0 (replicate 8 1) [62] None
      ([97, KC_CTRL_C] @ [97, 98, KC_LEFT, 99, KC_UP, 33, KC_DOWN] @ KC_ENTER # [100]) ln_demo = Some (Inr (3, B, [100], N')) \<and>
    ln_buf 7 [97, 99, 98] B \<and> ln_entries 0 N' = [Some [108, 115, 33]]"
proof -
  have "ed_edit 2 7 (ed_abandon 2 7 [[97]] [[108, 115]]) [97, 98, KC_LEFT, 99, KC_UP, 33, KC_DOWN] =
      \<lparr> ed_line = [97, 99, 98], ed_pos = 3, ed_index = 0, ed_hist = [[108, 115, 33], [97, 99, 98]] \<rparr>"
    by (simp add: ed_edit_def ed_start_def ed_key_def ed_history_def Let_def ln_push_def key_codes isprint_def numeral_2_eq_2)
  moreover have "ln_fits ln_cfg_demo [62] 7" "ed_hists_ok 2 [[108, 115]]" "ln_entries 0 ln_demo = map Some [[108, 115]]" "ln_max ln_cfg_demo 0 = 2"
    by (simp_all add: ln_fits_def ln_cfg_demo_def ed_hists_ok_def ln_entries_def ln_demo_def)
  moreover have "\<forall>l\<in>set [[97, 98, KC_LEFT, 99, KC_UP, 33, KC_DOWN], [97]]. \<forall>k\<in>set l. \<not> ln_ends k"
    by (simp add: ln_ends_def key_codes)
  ultimately show ?thesis
    using linenoise_edits_line [of ln_cfg_demo "[62]" 7 "replicate 8 1" 0 "[[108, 115]]" ln_demo "[97, 98, KC_LEFT, 99, KC_UP, 33, KC_DOWN]" "[[97]]" None "[100]"]
    by simp
qed

text \<open>C40:
  The history keeps the last lines. A text that is added is split at its newlines, its empty lines are left
  out, and of the old entries and the new lines the last \<open>history_max_lengths\<close> stay; other histories do
  not change. And when the entries of a history are lines, the file that \<open>linenoise_savehistory\<close> writes
  gives the same history when it is added to an empty one.
\<close>

theorem history_keeps_last_lines:
  assumes "0 < ln_max c i" "ln_alloc c" "ln_entries i N = map Some hs" "length hs \<le> ln_max c i"
  shows "(\<exists>N'. linenoise_addhistory c i line N = (1, N') \<and>
      ln_entries i N' = map Some (last_n (ln_max c i) (hs @ filter (\<lambda>l. l \<noteq> []) (split_nl line))) \<and>
      (\<forall>j. j \<noteq> i \<longrightarrow> ln_hist N' j = ln_hist N j)) \<and>
    (hs \<noteq> [] \<and> (\<forall>h\<in>set hs. h \<noteq> [] \<and> CH_NL \<notin> set h) \<longrightarrow>
      (\<exists>t. linenoise_savehistory c i True N = Some (0, Some t) \<and>
        ln_entries i (snd (linenoise_addhistory c i t (linenoise_cleanup i N))) = ln_entries i N))"
proof (intro conjI impI)
  have len: "length (ln_entries i N) \<le> ln_max c i" using assms(3,4) by simp
  show "\<exists>N'. linenoise_addhistory c i line N = (1, N') \<and>
      ln_entries i N' = map Some (last_n (ln_max c i) (hs @ filter (\<lambda>l. l \<noteq> []) (split_nl line))) \<and>
      (\<forall>j. j \<noteq> i \<longrightarrow> ln_hist N' j = ln_hist N j)"
    using addhistory_entries [OF assms(1,2) len, of line] by (simp add: ln_entries_def set_hist_def last_n_map [symmetric] assms(3) [unfolded ln_entries_def])
next
  assume hs: "hs \<noteq> [] \<and> (\<forall>h\<in>set hs. h \<noteq> [] \<and> CH_NL \<notin> set h)"
  show "\<exists>t. linenoise_savehistory c i True N = Some (0, Some t) \<and>
        ln_entries i (snd (linenoise_addhistory c i t (linenoise_cleanup i N))) = ln_entries i N"
    using saved_history_reloads [OF assms(1-3)] hs assms(4) by blast
qed

lemma history_keeps_last_lines_witness:
  "(\<exists>N'. linenoise_addhistory ln_cfg_demo 0 [97, 10, 10, 98, 99] ln_demo = (1, N') \<and> ln_entries 0 N' = [Some [97], Some [98, 99]]) \<and>
    (\<exists>t. linenoise_savehistory ln_cfg_demo 0 True ln_demo = Some (0, Some t) \<and>
      ln_entries 0 (snd (linenoise_addhistory ln_cfg_demo 0 t (linenoise_cleanup 0 ln_demo))) = [Some [108, 115]])"
proof -
  have a: "0 < ln_max ln_cfg_demo 0" "ln_alloc ln_cfg_demo" "ln_entries 0 ln_demo = map Some [[108, 115]]" "length [[108, 115 :: u8]] \<le> ln_max ln_cfg_demo 0"
    by (simp_all add: ln_cfg_demo_def ln_demo_def ln_entries_def)
  have h: "[[108, 115]] \<noteq> [] \<and> (\<forall>h\<in>set [[108, 115 :: u8]]. h \<noteq> [] \<and> CH_NL \<notin> set h)"
    by (simp add: CH_NL_def)
  have "last_n (ln_max ln_cfg_demo 0) ([[108, 115]] @ filter (\<lambda>l. l \<noteq> []) (split_nl [97, 10, 10, 98, 99])) = [[97], [98, 99]]"
    by (simp add: ln_cfg_demo_def CH_NL_def last_n_def)
  with history_keeps_last_lines [OF a, of "[97, 10, 10, 98, 99]"] h a(3)
  show ?thesis by auto
qed

text \<open>Without memory for the history, Enter frees an entry that is not there; and control-A does nothing.\<close>

lemma enter_without_history_undefined:
  assumes "\<not> ln_alloc c" "ln_hist N i = None" "buf \<noteq> []"
  shows "linenoisePrompt c i buf prompt (KC_ENTER # ks) N = None"
  using assms by (simp add: linenoisePrompt_def lp_store_def linenoise_internal_addhistory_def Let_def ln_ends_def ln_entries_def set_hist_def)

lemma control_a_ignored: "ln_key c i prompt buflen KC_CTRL_A P N = Some (P, N)"
  by (simp add: ln_key_def ln_insert_def key_codes isprint_def)

end
