(* ===== verification/RpcVar.thy ===== *)
theory RpcVar
  imports Lpack
begin

text \<open>
  \<open>src/modules/luarpc.c\<close> and \<open>src/luarpc_elua_uart.c\<close>, first part: the transport over a UART, and
  sending and receiving Lua values on it. A value is a tree: a table is the list of its pairs in the
  order in which \<open>lua_next\<close> gives them, or, for one that was received, of their insertion; values
  of other kinds have a number for their identity. The numbers of Lua, the interpreter (\<open>'g\<close> is its
  state) and the platform are parameters. The answers of \<open>platform_uart_recv\<close> are a list for each
  UART. What is left on the stack of Lua after a message that breaks the protocol, and a read
  outside a variable, is \<open>RBroken\<close>. Strings are shorter than 2 GB.
\<close>

section \<open>Values, machines and transports\<close>

datatype 'n lua =
    LNil | LBool bool | LNum 'n | LStr "u8 list"
  | LTable "('n lua \<times> 'n lua) list"
  | LFun nat | LLightFun nat | LRotable nat
  | LHelper nat "u8 list list"          \<comment> \<open>handle; names from the global to the one of the helper\<close>
  | LHandle nat | LServer | LUser nat | LThread nat | LLight nat

type_synonym 'a lua_result = "'a + u8 list"

record ('n, 'g) rpc_env =
  re_little :: bool
  re_size :: nat                          \<comment> \<open>\<open>sizeof( lua_Number )\<close>\<close>
  re_int :: bool                          \<comment> \<open>\<open>( lua_Number )0.5 == 0\<close>\<close>
  re_char_signed :: bool
  re_num :: "'n \<Rightarrow> u8 list"               \<comment> \<open>bytes, the low one first\<close>
  re_unnum :: "u8 list \<Rightarrow> 'n"
  re_toint :: "'n \<Rightarrow> int"
  re_ofint :: "int \<Rightarrow> 'n"
  re_nan :: "'n \<Rightarrow> bool"
  re_tonumber :: "'n lua \<Rightarrow> 'n option"    \<comment> \<open>\<open>lua_isnumber\<close> and \<open>lua_tonumber\<close>\<close>
  re_tostring :: "'n lua \<Rightarrow> u8 list option"
  re_same :: "'n lua \<Rightarrow> 'n lua \<Rightarrow> bool"   \<comment> \<open>equality of keys\<close>
  re_callable :: "'n lua \<Rightarrow> bool"
  re_dump :: "nat \<Rightarrow> u8 list"
  re_load :: "u8 list \<Rightarrow> 'g \<Rightarrow> 'n lua \<times> 'g"
  re_getglobal :: "u8 list \<Rightarrow> 'g \<Rightarrow> 'n lua lua_result \<times> 'g"
  re_getfield :: "'n lua \<Rightarrow> u8 list \<Rightarrow> 'g \<Rightarrow> 'n lua lua_result \<times> 'g"
  re_setglobal :: "u8 list \<Rightarrow> 'n lua \<Rightarrow> 'g \<Rightarrow> unit lua_result \<times> 'g"
  re_settable :: "'n lua \<Rightarrow> 'n lua \<Rightarrow> 'n lua \<Rightarrow> 'g \<Rightarrow> unit lua_result \<times> 'g"
  re_pcall :: "'n lua \<Rightarrow> 'n lua list \<Rightarrow> 'g \<Rightarrow> ('n lua list + int \<times> u8 list) \<times> 'g"
  re_strerror :: "int \<Rightarrow> u8 list"
  re_uart_exists :: "u32 \<Rightarrow> bool"
  re_timer_exists :: "u32 \<Rightarrow> bool"

record tpt =
  t_fd :: int
  t_tmr :: u32
  t_loc_little :: bool
  t_loc_int :: bool
  t_net_little :: bool
  t_net_int :: bool
  t_bytes :: u8                           \<comment> \<open>\<open>lnum_bytes\<close>\<close>

text \<open>\<open>rp_errs\<close> is \<open>link_errs\<close> of the server handle, \<open>rp_onerr\<close> the global error handler.\<close>

record ('n, 'g) rpcs =
  rp_in :: "int \<Rightarrow> int list"
  rp_out :: "u8 list"
  rp_tpt :: "nat \<Rightarrow> tpt"
  rp_next :: nat
  rp_errs :: int
  rp_onerr :: "'n lua option"
  rp_lua :: 'g

definition asc :: "string \<Rightarrow> u8 list" where "asc s = map of_char s"

section \<open>Results\<close>

text \<open>
  A value, an exception of \<open>cexcept.h\<close>, a Lua error, waiting for the next byte, something that C
  gives no meaning to, or no more fuel.
\<close>

datatype rpc_exn = Nonfatal int | Fatal int

datatype ('a, 's) oc = RDone 'a 's | RThrow rpc_exn 's | RLua "u8 list" 's | RWait 's | RBroken | RFuel

type_synonym ('a, 'n, 'g) rpcm = "('n, 'g) rpcs \<Rightarrow> ('a, ('n, 'g) rpcs) oc"

named_theorems run_simps "running a step of the protocol"

definition rret :: "'a \<Rightarrow> ('a, 'n, 'g) rpcm" where "rret a s = RDone a s"
definition rthrow :: "rpc_exn \<Rightarrow> ('a, 'n, 'g) rpcm" where "rthrow e s = RThrow e s"
definition rlua :: "u8 list \<Rightarrow> ('a, 'n, 'g) rpcm" where "rlua m s = RLua m s"
definition rbroken :: "('a, 'n, 'g) rpcm" where "rbroken s = RBroken"

definition rbind :: "('a, 'n, 'g) rpcm \<Rightarrow> ('a \<Rightarrow> ('b, 'n, 'g) rpcm) \<Rightarrow> ('b, 'n, 'g) rpcm" where
  "rbind m f s =
     (case m s of
        RDone a s \<Rightarrow> f a s
      | RThrow e s \<Rightarrow> RThrow e s
      | RLua w s \<Rightarrow> RLua w s
      | RWait s \<Rightarrow> RWait s
      | RBroken \<Rightarrow> RBroken
      | RFuel \<Rightarrow> RFuel)"

definition rthen :: "('a, 'n, 'g) rpcm \<Rightarrow> ('b, 'n, 'g) rpcm \<Rightarrow> ('b, 'n, 'g) rpcm" where
  "rthen m k = rbind m (\<lambda>_. k)"

text \<open>\<open>Try\<close> and \<open>Catch\<close>. A Lua error leaves the block without coming by.\<close>

definition rtry :: "('a, 'n, 'g) rpcm \<Rightarrow> (rpc_exn \<Rightarrow> ('a, 'n, 'g) rpcm) \<Rightarrow> ('a, 'n, 'g) rpcm" where
  "rtry m h s = (case m s of RThrow e s \<Rightarrow> h e s | r \<Rightarrow> r)"

definition rlift :: "('g \<Rightarrow> 'a lua_result \<times> 'g) \<Rightarrow> ('a, 'n, 'g) rpcm" where
  "rlift f s =
     (case f (rp_lua s) of
        (Inl v, g) \<Rightarrow> RDone v (s\<lparr> rp_lua := g \<rparr>)
      | (Inr m, g) \<Rightarrow> RLua m (s\<lparr> rp_lua := g \<rparr>))"

lemma run_basic [run_simps]:
  "rret a s = RDone a s" "rthrow e s = RThrow e s" "rlua m s = RLua m s" "rbroken s = RBroken"
  by (simp_all add: rret_def rthrow_def rlua_def rbroken_def)

lemma run_bind [run_simps]:
  "m s = RDone a s' \<Longrightarrow> rbind m f s = f a s'"
  "m s = RThrow e s' \<Longrightarrow> rbind m f s = RThrow e s'"
  "m s = RWait s' \<Longrightarrow> rbind m f s = RWait s'"
  "m s = RLua w s' \<Longrightarrow> rbind m f s = RLua w s'"
  by (simp_all add: rbind_def)

lemma run_then [run_simps]:
  "m s = RDone a s' \<Longrightarrow> rthen m k s = k s'"
  "m s = RThrow e s' \<Longrightarrow> rthen m k s = RThrow e s'"
  "m s = RWait s' \<Longrightarrow> rthen m k s = RWait s'"
  "m s = RLua w s' \<Longrightarrow> rthen m k s = RLua w s'"
  by (simp_all add: rthen_def rbind_def)

lemma run_try [run_simps]:
  "m s = RDone a s' \<Longrightarrow> rtry m h s = RDone a s'"
  "m s = RThrow e s' \<Longrightarrow> rtry m h s = h e s'"
  "m s = RWait s' \<Longrightarrow> rtry m h s = RWait s'"
  "m s = RLua w s' \<Longrightarrow> rtry m h s = RLua w s'"
  by (simp_all add: rtry_def)

section \<open>The transport\<close>

definition MAXINT :: int where "MAXINT = 2147483647"
definition ERR_EOF :: int where "ERR_EOF = MAXINT - 100"
definition ERR_CLOSED :: int where "ERR_CLOSED = MAXINT - 101"
definition ERR_PROTOCOL :: int where "ERR_PROTOCOL = MAXINT - 102"
definition ERR_NODATA :: int where "ERR_NODATA = MAXINT - 103"
definition ERR_COMMAND :: int where "ERR_COMMAND = MAXINT - 106"
definition ERR_HEADER :: int where "ERR_HEADER = MAXINT - 107"
definition ERR_LONGFNAME :: int where "ERR_LONGFNAME = MAXINT - 108"
definition INVALID_TRANSPORT :: int where "INVALID_TRANSPORT = - 1"

definition upd_tpt :: "nat \<Rightarrow> (tpt \<Rightarrow> tpt) \<Rightarrow> (unit, 'n, 'g) rpcm" where
  "upd_tpt t f s = RDone () (s\<lparr> rp_tpt := (rp_tpt s)(t := f (rp_tpt s t)) \<rparr>)"

definition transport_init :: "nat \<Rightarrow> (unit, 'n, 'g) rpcm" where
  "transport_init t = upd_tpt t (\<lambda>T. T\<lparr> t_fd := INVALID_TRANSPORT, t_tmr := 0 \<rparr>)"

definition transport_is_open :: "nat \<Rightarrow> ('n, 'g) rpcs \<Rightarrow> bool" where
  "transport_is_open t s \<longleftrightarrow> t_fd (rp_tpt s t) \<noteq> INVALID_TRANSPORT"

definition transport_close :: "nat \<Rightarrow> (unit, 'n, 'g) rpcm" where
  "transport_close t = upd_tpt t (\<lambda>T. T\<lparr> t_fd := INVALID_TRANSPORT \<rparr>)"

definition transport_verify_open :: "nat \<Rightarrow> (unit, 'n, 'g) rpcm" where
  "transport_verify_open t s = (if transport_is_open t s then RDone () s else RThrow (Fatal ERR_CLOSED) s)"

definition platform_uart_recv :: "int \<Rightarrow> (int, 'n, 'g) rpcm" where
  "platform_uart_recv fd s =
     (case rp_in s fd of
        [] \<Rightarrow> RWait s
      | c # cs \<Rightarrow> RDone c (s\<lparr> rp_in := (rp_in s)(fd := cs) \<rparr>))"

fun transport_read_buffer :: "nat \<Rightarrow> nat \<Rightarrow> (u8 list, 'n, 'g) rpcm" where
  "transport_read_buffer t 0 = rret []"
| "transport_read_buffer t (Suc n) =
     rthen (transport_verify_open t) (\<lambda>s.
       rbind (platform_uart_recv (t_fd (rp_tpt s t))) (\<lambda>c.
         if c < 0 then rthrow (Nonfatal ERR_NODATA)
         else rbind (transport_read_buffer t n) (\<lambda>bs. rret (word_of_int c # bs))) s)"

text \<open>What is written goes to the console's UART, whatever the transport.\<close>

definition transport_write_buffer :: "nat \<Rightarrow> u8 list \<Rightarrow> (unit, 'n, 'g) rpcm" where
  "transport_write_buffer t xs =
     rthen (transport_verify_open t) (\<lambda>s. RDone () (s\<lparr> rp_out := rp_out s @ xs \<rparr>))"

definition transport_read_string :: "nat \<Rightarrow> u32 \<Rightarrow> (u8 list, 'n, 'g) rpcm" where
  "transport_read_string t len = (if sint len < 0 then rbroken else transport_read_buffer t (unat len))"

definition transport_read_u8 :: "nat \<Rightarrow> (u8, 'n, 'g) rpcm" where
  "transport_read_u8 t = rthen (transport_verify_open t) (rbind (transport_read_buffer t 1) (\<lambda>b. rret (hd b)))"

definition transport_write_u8 :: "nat \<Rightarrow> u8 \<Rightarrow> (unit, 'n, 'g) rpcm" where
  "transport_write_u8 t x = rthen (transport_verify_open t) (transport_write_buffer t [x])"

fun swap_bytes_from :: "nat \<Rightarrow> nat \<Rightarrow> u8 list \<Rightarrow> u8 list" where
  "swap_bytes_from i 0 b = b"
| "swap_bytes_from i (Suc n) b =
     swap_bytes_from (Suc i) n (b[i := b ! (length b - 1 - i), length b - 1 - i := b ! i])"

definition swap_bytes :: "u8 list \<Rightarrow> u8 list" where
  "swap_bytes b = swap_bytes_from 0 (length b div 2) b"

definition net_order :: "tpt \<Rightarrow> u8 list \<Rightarrow> u8 list" where
  "net_order T b = (if t_net_little T \<noteq> t_loc_little T then swap_bytes b else b)"

definition transport_read_u32 :: "('n, 'g) rpc_env \<Rightarrow> nat \<Rightarrow> (u32, 'n, 'g) rpcm" where
  "transport_read_u32 E t =
     rthen (transport_verify_open t) (rbind (transport_read_buffer t 4) (\<lambda>b s.
       RDone (word_of_int (bytes_int (re_little E) False (net_order (rp_tpt s t) b))) s))"

definition transport_write_u32 :: "('n, 'g) rpc_env \<Rightarrow> nat \<Rightarrow> u32 \<Rightarrow> (unit, 'n, 'g) rpcm" where
  "transport_write_u32 E t x =
     rthen (transport_verify_open t) (\<lambda>s.
       transport_write_buffer t (net_order (rp_tpt s t) (int_bytes (re_little E) 4 (uint x))) s)"

text \<open>A \<open>lua_Number\<close> in memory, and the value of the memory at the start of a block.\<close>

definition num_mem :: "('n, 'g) rpc_env \<Rightarrow> 'n \<Rightarrow> u8 list" where
  "num_mem E x = (if re_little E then re_num E x else rev (re_num E x))"

definition mem_num :: "('n, 'g) rpc_env \<Rightarrow> u8 list \<Rightarrow> 'n" where
  "mem_num E b = re_unnum E (if re_little E then take (re_size E) b else rev (take (re_size E) b))"

definition int_width :: "nat \<Rightarrow> bool" where "int_width n \<longleftrightarrow> n \<in> {1, 2, 4, 8}"

definition transport_read_number :: "('n, 'g) rpc_env \<Rightarrow> nat \<Rightarrow> ('n, 'n, 'g) rpcm" where
  "transport_read_number E t =
     rthen (transport_verify_open t) (\<lambda>s. let n = unat (t_bytes (rp_tpt s t)) in
       rbind (transport_read_buffer t n) (\<lambda>b s.
         let T = rp_tpt s t; b = net_order T b in
         if t_net_int T \<noteq> t_loc_int T then
           if int_width n then RDone (re_ofint E (bytes_int (re_little E) True b)) s else RBroken
         else if n < re_size E then RBroken
         else RDone (mem_num E b) s) s)"

text \<open>A number that is not an integer must fit into the integer it is cast to.\<close>

definition transport_write_number :: "('n, 'g) rpc_env \<Rightarrow> nat \<Rightarrow> 'n \<Rightarrow> (unit, 'n, 'g) rpcm" where
  "transport_write_number E t x =
     rthen (transport_verify_open t) (\<lambda>s. let T = rp_tpt s t; n = unat (t_bytes T) in
       if t_net_int T then
         if \<not> int_width n then RDone () s
         else if \<not> re_int E \<and> \<not> in_range True n (re_toint E x) then RBroken
         else transport_write_buffer t (net_order T (int_bytes (re_little E) n (re_toint E x))) s
       else if re_size E < 8 then RBroken
       else transport_write_buffer t (net_order T (take 8 (num_mem E x))) s)"

section \<open>Writing a variable\<close>

definition RPC_NIL :: u8 where "RPC_NIL = 0"
definition RPC_NUMBER :: u8 where "RPC_NUMBER = 1"
definition RPC_BOOLEAN :: u8 where "RPC_BOOLEAN = 2"
definition RPC_STRING :: u8 where "RPC_STRING = 3"
definition RPC_TABLE :: u8 where "RPC_TABLE = 4"
definition RPC_TABLE_END :: u8 where "RPC_TABLE_END = 5"
definition RPC_FUNCTION :: u8 where "RPC_FUNCTION = 6"
definition RPC_FUNCTION_END :: u8 where "RPC_FUNCTION_END = 7"
definition RPC_REMOTE :: u8 where "RPC_REMOTE = 8"

lemmas rpc_types = RPC_NIL_def RPC_NUMBER_def RPC_BOOLEAN_def RPC_STRING_def RPC_TABLE_def RPC_TABLE_END_def
  RPC_FUNCTION_def RPC_FUNCTION_END_def RPC_REMOTE_def

definition CH_DOT :: u8 where "CH_DOT = 0x2E"

text \<open>\<open>nparents\<close> has eight bits. The names go to the transport of the helper's handle.\<close>

definition nparents :: "u8 list list \<Rightarrow> nat" where
  "nparents names = (length names - 1) mod 256"

fun write_parents :: "nat \<Rightarrow> u8 list list \<Rightarrow> (unit, 'n, 'g) rpcm" where
  "write_parents t [] = rret ()"
| "write_parents t (p # ps) = rthen (transport_write_buffer t p) (rthen (transport_write_buffer t [CH_DOT]) (write_parents t ps))"

definition helper_remote_index :: "('n, 'g) rpc_env \<Rightarrow> nat \<Rightarrow> u8 list list \<Rightarrow> (unit, 'n, 'g) rpcm" where
  "helper_remote_index E h names =
     (let np = nparents names;
          parents = drop (length names - 1 - np) (butlast names);
          len = length (last names) + sum_list (map (\<lambda>p. length p + 1) parents)
      in rthen (transport_write_u32 E h (of_nat len))
           (rthen (write_parents h parents) (transport_write_buffer h (last names))))"

definition write_string :: "('n, 'g) rpc_env \<Rightarrow> nat \<Rightarrow> u8 list \<Rightarrow> (unit, 'n, 'g) rpcm" where
  "write_string E t x =
     rthen (transport_write_u8 t RPC_STRING)
       (rthen (transport_write_u32 E t (of_nat (length x))) (transport_write_buffer t x))"

text \<open>Light functions and read-only tables have no case: nothing is written.\<close>

function write_variable :: "('n, 'g) rpc_env \<Rightarrow> nat \<Rightarrow> 'n lua \<Rightarrow> (unit, 'n, 'g) rpcm"
and write_table :: "('n, 'g) rpc_env \<Rightarrow> nat \<Rightarrow> ('n lua \<times> 'n lua) list \<Rightarrow> (unit, 'n, 'g) rpcm" where
  "write_variable E t (LNum x) = rthen (transport_write_u8 t RPC_NUMBER) (transport_write_number E t x)"
| "write_variable E t (LStr x) = write_string E t x"
| "write_variable E t (LTable ps) =
     rthen (transport_write_u8 t RPC_TABLE) (rthen (write_table E t ps) (transport_write_u8 t RPC_TABLE_END))"
| "write_variable E t LNil = transport_write_u8 t RPC_NIL"
| "write_variable E t (LBool b) =
     rthen (transport_write_u8 t RPC_BOOLEAN) (transport_write_u8 t (if b then 1 else 0))"
| "write_variable E t (LFun f) =
     rthen (transport_write_u8 t RPC_FUNCTION)
       (rthen (write_string E t (re_dump E f)) (transport_write_u8 t RPC_FUNCTION_END))"
| "write_variable E t (LHelper h names) = rthen (transport_write_u8 t RPC_REMOTE) (helper_remote_index E h names)"
| "write_variable E t (LHandle h) = rlua (asc ''userdata transmission unsupported'')"
| "write_variable E t LServer = rlua (asc ''userdata transmission unsupported'')"
| "write_variable E t (LUser u) = rlua (asc ''userdata transmission unsupported'')"
| "write_variable E t (LThread u) = rlua (asc ''thread transmission unsupported'')"
| "write_variable E t (LLight u) = rlua (asc ''light userdata transmission unsupported'')"
| "write_variable E t (LLightFun f) = rret ()"
| "write_variable E t (LRotable r) = rret ()"
| "write_table E t [] = rret ()"
| "write_table E t ((k, v) # ps) =
     rthen (write_variable E t k) (rthen (write_variable E t v) (write_table E t ps))"
  by pat_completeness auto
termination
  by (relation "measure (case_sum (\<lambda>(E, t, v). size v) (\<lambda>(E, t, ps). size_list (size_prod size size) ps))") auto

section \<open>Reading a variable\<close>

text \<open>\<open>strtok\<close> with the delimiter \<open>.\<close>: the tokens of a string.\<close>

fun dot_split :: "u8 list \<Rightarrow> u8 list list" where
  "dot_split [] = [[]]"
| "dot_split (x # xs) = (if x = CH_DOT then [] # dot_split xs else (x # hd (dot_split xs)) # tl (dot_split xs))"

definition strtok_tokens :: "u8 list \<Rightarrow> u8 list list" where
  "strtok_tokens s = filter (\<lambda>x. x \<noteq> []) (dot_split (cstr s))"

fun get_fields :: "('n, 'g) rpc_env \<Rightarrow> u8 list list \<Rightarrow> 'n lua \<Rightarrow> ('n lua, 'n, 'g) rpcm" where
  "get_fields E [] v = rret v"
| "get_fields E (x # xs) v = rbind (rlift (re_getfield E v x)) (get_fields E xs)"

definition get_path :: "('n, 'g) rpc_env \<Rightarrow> u8 list \<Rightarrow> ('n lua, 'n, 'g) rpcm" where
  "get_path E name =
     (case strtok_tokens name of
        [] \<Rightarrow> rbroken
      | x # xs \<Rightarrow> rbind (rlift (re_getglobal E x)) (get_fields E xs))"

definition read_name :: "('n, 'g) rpc_env \<Rightarrow> nat \<Rightarrow> (u8 list, 'n, 'g) rpcm" where
  "read_name E t = rbind (transport_read_u32 E t) (transport_read_string t)"

definition read_index :: "('n, 'g) rpc_env \<Rightarrow> nat \<Rightarrow> ('n lua, 'n, 'g) rpcm" where
  "read_index E t = rbind (read_name E t) (get_path E)"

text \<open>\<open>lua_rawset\<close> on a table that only this code has seen.\<close>

fun assoc_set :: "('k \<Rightarrow> 'k \<Rightarrow> bool) \<Rightarrow> 'k \<Rightarrow> 'v \<Rightarrow> ('k \<times> 'v) list \<Rightarrow> ('k \<times> 'v) list" where
  "assoc_set eq k v [] = [(k, v)]"
| "assoc_set eq k v (p # ps) = (if eq (fst p) k then (fst p, v) # ps else p # assoc_set eq k v ps)"

definition raw_put :: "('n, 'g) rpc_env \<Rightarrow> 'n lua \<Rightarrow> 'n lua \<Rightarrow> ('n lua \<times> 'n lua) list \<Rightarrow> ('n lua \<times> 'n lua) list" where
  "raw_put E k v ps = filter (\<lambda>p. snd p \<noteq> LNil) (assoc_set (re_same E) k v ps)"

fun bad_key :: "('n, 'g) rpc_env \<Rightarrow> 'n lua \<Rightarrow> bool" where
  "bad_key E LNil = True"
| "bad_key E (LNum x) = re_nan E x"
| "bad_key E _ = False"

definition lua_rawset :: "('n, 'g) rpc_env \<Rightarrow> 'n lua \<Rightarrow> 'n lua \<Rightarrow> ('n lua \<times> 'n lua) list \<Rightarrow> (('n lua \<times> 'n lua) list, 'n, 'g) rpcm" where
  "lua_rawset E k v ps =
     (if bad_key E k then rlua (asc (if k = LNil then ''table index is nil'' else ''table index is NaN''))
      else rret (raw_put E k v ps))"

text \<open>
  The fuel is for the calls. \<open>None\<close> is the result 0: the end of a table or a function, with nothing
  pushed. \<open>fs\<close> are the chunks that are on the stack.
\<close>

fun read_variable :: "('n, 'g) rpc_env \<Rightarrow> nat \<Rightarrow> nat \<Rightarrow> ('n lua option, 'n, 'g) rpcm"
and read_table :: "('n, 'g) rpc_env \<Rightarrow> nat \<Rightarrow> nat \<Rightarrow> ('n lua \<times> 'n lua) list \<Rightarrow> ('n lua, 'n, 'g) rpcm"
and read_function :: "('n, 'g) rpc_env \<Rightarrow> nat \<Rightarrow> nat \<Rightarrow> 'n lua list \<Rightarrow> ('n lua, 'n, 'g) rpcm" where
  "read_variable E 0 t = (\<lambda>s. RFuel)"
| "read_variable E (Suc n) t =
     rbind (transport_read_u8 t) (\<lambda>ty.
       if ty = RPC_NIL then rret (Some LNil)
       else if ty = RPC_BOOLEAN then rbind (transport_read_u8 t) (\<lambda>b. rret (Some (LBool (b \<noteq> 0))))
       else if ty = RPC_NUMBER then rbind (transport_read_number E t) (\<lambda>x. rret (Some (LNum x)))
       else if ty = RPC_STRING then rbind (read_name E t) (\<lambda>x. rret (Some (LStr x)))
       else if ty = RPC_TABLE then rbind (read_table E n t []) (\<lambda>v. rret (Some v))
       else if ty = RPC_TABLE_END then rret None
       else if ty = RPC_FUNCTION then rbind (read_function E n t []) (\<lambda>v. rret (Some v))
       else if ty = RPC_FUNCTION_END then rret None
       else if ty = RPC_REMOTE then rbind (read_index E t) (\<lambda>v. rret (Some v))
       else rthrow (Fatal (uint ty)))"
| "read_table E 0 t ps = (\<lambda>s. RFuel)"
| "read_table E (Suc n) t ps =
     rbind (read_variable E n t) (\<lambda>k.
       case k of
         None \<Rightarrow> rret (LTable ps)
       | Some k \<Rightarrow>
           rbind (read_variable E n t) (\<lambda>v.
             case v of
               None \<Rightarrow> rbroken
             | Some v \<Rightarrow> rbind (lua_rawset E k v ps) (read_table E n t)))"
| "read_function E 0 t fs = (\<lambda>s. RFuel)"
| "read_function E (Suc n) t fs =
     rbind (read_variable E n t) (\<lambda>x.
       case x of
         None \<Rightarrow> (case fs of [f] \<Rightarrow> rret f | _ \<Rightarrow> rbroken)
       | Some x \<Rightarrow>
           (case re_tostring E x of
              None \<Rightarrow> rlua (asc ''string expected'')
            | Some b \<Rightarrow> rbind (rlift (\<lambda>g. (Inl (fst (re_load E b g)), snd (re_load E b g)))) (\<lambda>f. read_function E n t (f # fs))))"

text \<open>A call with fuel for what is there to read.\<close>

definition read_var :: "('n, 'g) rpc_env \<Rightarrow> nat \<Rightarrow> ('n lua option, 'n, 'g) rpcm" where
  "read_var E t s = read_variable E (2 * length (rp_in s (t_fd (rp_tpt s t))) + 2) t s"

section \<open>Running on a line\<close>

text \<open>Bytes that have come in on a UART, and bytes that have been sent.\<close>

definition feed :: "int \<Rightarrow> u8 list \<Rightarrow> ('n, 'g) rpcs \<Rightarrow> ('n, 'g) rpcs" where
  "feed fd xs s = s\<lparr> rp_in := (rp_in s)(fd := map uint xs @ rp_in s fd) \<rparr>"

definition emit :: "u8 list \<Rightarrow> ('n, 'g) rpcs \<Rightarrow> ('n, 'g) rpcs" where
  "emit xs s = s\<lparr> rp_out := rp_out s @ xs \<rparr>"

text \<open>What two ends of a line have agreed on.\<close>

record rpc_wire =
  wi_little :: bool
  wi_int :: bool
  wi_bytes :: nat

definition tpt_on :: "('n, 'g) rpc_env \<Rightarrow> rpc_wire \<Rightarrow> nat \<Rightarrow> int \<Rightarrow> ('n, 'g) rpcs \<Rightarrow> bool" where
  "tpt_on E W t fd s \<longleftrightarrow>
     (let T = rp_tpt s t in
      t_fd T = fd \<and> fd \<noteq> INVALID_TRANSPORT \<and> t_loc_little T = re_little E \<and> t_loc_int T = re_int E \<and>
      t_net_little T = wi_little W \<and> t_net_int T = wi_int W \<and> unat (t_bytes T) = wi_bytes W)"

definition opened :: "nat \<Rightarrow> int \<Rightarrow> ('n, 'g) rpcs \<Rightarrow> bool" where
  "opened t fd s \<longleftrightarrow> t_fd (rp_tpt s t) = fd \<and> fd \<noteq> INVALID_TRANSPORT"

lemma tpt_on_opened: "tpt_on E W t fd s \<Longrightarrow> opened t fd s"
  by (simp add: tpt_on_def opened_def Let_def)

lemma feed_fields [simp]:
  "rp_out (feed fd xs s) = rp_out s" "rp_tpt (feed fd xs s) = rp_tpt s" "rp_lua (feed fd xs s) = rp_lua s"
  "rp_errs (feed fd xs s) = rp_errs s" "rp_onerr (feed fd xs s) = rp_onerr s" "rp_next (feed fd xs s) = rp_next s"
  "rp_in (feed fd xs s) fd = map uint xs @ rp_in s fd"
  by (simp_all add: feed_def)

lemma emit_fields [simp]:
  "rp_out (emit xs s) = rp_out s @ xs" "rp_tpt (emit xs s) = rp_tpt s" "rp_lua (emit xs s) = rp_lua s"
  "rp_errs (emit xs s) = rp_errs s" "rp_onerr (emit xs s) = rp_onerr s" "rp_next (emit xs s) = rp_next s" "rp_in (emit xs s) = rp_in s"
  by (simp_all add: emit_def)

lemma emit_feed [simp]: "emit xs (feed fd ys s) = feed fd ys (emit xs s)"
  by (simp add: emit_def feed_def)

lemma rpc_emit_emit [simp]: "emit ys (emit xs s) = emit (xs @ ys) s"
  by (simp add: emit_def)

lemma rpc_emit_Nil [simp]: "emit [] s = s"
  by (simp add: emit_def)

lemma feed_Nil [simp]: "feed fd [] s = s"
  by (simp add: feed_def)

lemma lua_feed [simp]: "(feed fd xs s)\<lparr> rp_lua := g \<rparr> = feed fd xs (s\<lparr> rp_lua := g \<rparr>)"
  by (simp add: feed_def)

lemma lua_emit [simp]: "(emit xs s)\<lparr> rp_lua := g \<rparr> = emit xs (s\<lparr> rp_lua := g \<rparr>)"
  by (simp add: emit_def)

lemma opened_fields [simp]:
  "opened t fd (feed fd' xs s) = opened t fd s" "opened t fd (emit xs s) = opened t fd s" "opened t fd (s\<lparr> rp_lua := g \<rparr>) = opened t fd s"
  by (simp_all add: opened_def)

lemma tpt_on_fields [simp]:
  "tpt_on E W t fd (feed fd' xs s) = tpt_on E W t fd s" "tpt_on E W t fd (emit xs s) = tpt_on E W t fd s"
  "tpt_on E W t fd (s\<lparr> rp_lua := g \<rparr>) = tpt_on E W t fd s"
  by (simp_all add: tpt_on_def)

lemma run_verify [run_simps]: "opened t fd s \<Longrightarrow> transport_verify_open t s = RDone () s"
  by (simp add: transport_verify_open_def transport_is_open_def opened_def)

lemma run_write [run_simps]: "opened t fd s \<Longrightarrow> transport_write_buffer t xs s = RDone () (emit xs s)"
  by (simp add: transport_write_buffer_def run_simps emit_def)

lemma run_write_u8 [run_simps]: "opened t fd s \<Longrightarrow> transport_write_u8 t x s = RDone () (emit [x] s)"
  by (simp add: transport_write_u8_def run_simps)

lemma rpc_run_recv: "platform_uart_recv fd (feed fd (x # xs) s) = RDone (uint x) (feed fd xs s)"
  by (simp add: platform_uart_recv_def feed_def)

lemma run_read [run_simps]:
  "opened t fd s \<Longrightarrow> transport_read_buffer t (length xs) (feed fd (xs @ ys) s) = RDone xs (feed fd ys s)"
proof (induction xs)
  case Nil
  then show ?case by (simp add: run_simps)
next
  case (Cons x xs)
  then have "t_fd (rp_tpt s t) = fd" by (simp add: opened_def)
  then show ?case using Cons by (simp add: run_simps rpc_run_recv)
qed

lemma run_read_n: "opened t fd s \<Longrightarrow> n = length xs \<Longrightarrow> transport_read_buffer t n (feed fd (xs @ ys) s) = RDone xs (feed fd ys s)"
  by (simp add: run_read)

lemma run_read_u8 [run_simps]: "opened t fd s \<Longrightarrow> transport_read_u8 t (feed fd (x # xs) s) = RDone x (feed fd xs s)"
  using run_read [of t fd s "[x]" xs] by (simp add: transport_read_u8_def run_simps)

text \<open>A read waits when the line is empty.\<close>

lemma wait_read: "opened t fd s \<Longrightarrow> rp_in s fd = [] \<Longrightarrow> 0 < n \<Longrightarrow> transport_read_buffer t n s = RWait s"
  by (cases n) (auto simp: rthen_def rbind_def transport_verify_open_def transport_is_open_def platform_uart_recv_def opened_def)

lemma wait_read_u8: "opened t fd s \<Longrightarrow> rp_in s fd = [] \<Longrightarrow> transport_read_u8 t s = RWait s"
  using wait_read [of t fd s 1] by (simp add: transport_read_u8_def run_simps)

lemma wait_read_u32: "opened t fd s \<Longrightarrow> rp_in s fd = [] \<Longrightarrow> transport_read_u32 E t s = RWait s"
  using wait_read [of t fd s 4] by (simp add: transport_read_u32_def run_simps)

section \<open>Bytes on the line\<close>

lemma swap_from_loop: "i + n \<le> length b \<Longrightarrow> swap_bytes_from i n b = swap_loop b i (length b - 1 - i) n"
  by (induction i n b rule: swap_bytes_from.induct) (simp_all add: list_update_swap)

lemma swap_bytes_rev: "swap_bytes b = rev b"
  using doswap_rev [of True b] by (simp add: swap_bytes_def doswap_def swap_from_loop)

lemma net_order_int:
  "t_loc_little T = le \<Longrightarrow> net_order T (int_bytes le n v) = int_bytes (t_net_little T) n v"
  by (auto simp: net_order_def swap_bytes_rev int_bytes_def)

lemma net_order_back:
  "t_loc_little T = le \<Longrightarrow> net_order T (int_bytes (t_net_little T) n v) = int_bytes le n v"
  by (auto simp: net_order_def swap_bytes_rev int_bytes_def)

definition enc_u32 :: "rpc_wire \<Rightarrow> u32 \<Rightarrow> u8 list" where
  "enc_u32 W x = int_bytes (wi_little W) 4 (uint x)"

lemma enc_u32_length [simp]: "length (enc_u32 W x) = 4"
  by (simp add: enc_u32_def)

lemma run_write_u32 [run_simps]:
  assumes "tpt_on E W t fd s"
  shows "transport_write_u32 E t x s = RDone () (emit (enc_u32 W x) s)"
proof -
  have "net_order (rp_tpt s t) (int_bytes (re_little E) 4 (uint x)) = enc_u32 W x"
    using assms net_order_int [of "rp_tpt s t"] by (simp add: tpt_on_def Let_def enc_u32_def)
  then show ?thesis using tpt_on_opened [OF assms] by (simp add: transport_write_u32_def run_simps)
qed

lemma run_read_u32 [run_simps]:
  assumes "tpt_on E W t fd s"
  shows "transport_read_u32 E t (feed fd (enc_u32 W x @ xs) s) = RDone x (feed fd xs s)"
proof -
  note o = tpt_on_opened [OF assms]
  have "transport_read_buffer t 4 (feed fd (enc_u32 W x @ xs) s) = RDone (enc_u32 W x) (feed fd xs s)"
    using o by (intro run_read_n) simp_all
  moreover have "net_order (rp_tpt s t) (enc_u32 W x) = int_bytes (re_little E) 4 (uint x)"
    using assms net_order_back [of "rp_tpt s t"] by (simp add: tpt_on_def Let_def enc_u32_def)
  moreover have "bytes_int (re_little E) False (int_bytes (re_little E) 4 (uint x)) = uint x"
    using uint_lt2p [of x] by (intro bytes_int_bytes) (simp_all add: in_range_def)
  moreover have "transport_verify_open t (feed fd (enc_u32 W x @ xs) s) = RDone () (feed fd (enc_u32 W x @ xs) s)"
    using o run_verify [of t fd "feed fd (enc_u32 W x @ xs) s"] by simp
  ultimately show ?thesis by (simp add: transport_read_u32_def run_simps)
qed

section \<open>What a value is on the line, and what the other end makes of it\<close>

definition num_fits :: "('n, 'g) rpc_env \<Rightarrow> ('m, 'h) rpc_env \<Rightarrow> rpc_wire \<Rightarrow> 'n \<Rightarrow> bool" where
  "num_fits A B W x \<longleftrightarrow>
     (if wi_int W then
        (re_int A \<or> re_int B) \<and> int_width (wi_bytes W) \<and> (re_int A \<or> in_range True (wi_bytes W) (re_toint A x)) \<and>
        (re_int B \<longrightarrow> re_size B = wi_bytes W)
      else \<not> re_int A \<and> \<not> re_int B \<and> re_size A = 8 \<and> length (re_num A x) = 8 \<and> re_size B = 8 \<and> wi_bytes W = 8)"

definition enc_num :: "('n, 'g) rpc_env \<Rightarrow> rpc_wire \<Rightarrow> 'n \<Rightarrow> u8 list" where
  "enc_num A W x =
     (if wi_int W then int_bytes (wi_little W) (wi_bytes W) (re_toint A x)
      else if wi_little W then re_num A x else rev (re_num A x))"

text \<open>Two machines with floating point exchange the bytes, others the integer part.\<close>

definition conv_num :: "('n, 'g) rpc_env \<Rightarrow> ('m, 'h) rpc_env \<Rightarrow> rpc_wire \<Rightarrow> 'n \<Rightarrow> 'm" where
  "conv_num A B W x =
     (if \<not> wi_int W then re_unnum B (re_num A x)
      else if re_int B then re_unnum B (le_bytes (wi_bytes W) (re_toint A x))
      else re_ofint B (bytes_int True True (le_bytes (wi_bytes W) (re_toint A x))))"

lemma bytes_int_order: "bytes_int le sg (int_bytes le n v) = bytes_int True sg (le_bytes n v)"
  by (cases le) (simp_all add: bytes_int_def int_bytes_def Let_def)

lemma bytes_int_rev: "bytes_int False sg (rev b) = bytes_int True sg b"
  by (simp add: bytes_int_def Let_def)

lemma run_write_number:
  assumes "tpt_on A W t fd s" "num_fits A B W x"
  shows "transport_write_number A t x s = RDone () (emit (enc_num A W x) s)"
proof -
  have o: "opened t fd s" and T: "t_loc_little (rp_tpt s t) = re_little A" "t_net_little (rp_tpt s t) = wi_little W"
      "t_net_int (rp_tpt s t) = wi_int W" "unat (t_bytes (rp_tpt s t)) = wi_bytes W"
    using assms(1) by (simp_all add: tpt_on_def opened_def Let_def)
  have "net_order (rp_tpt s t) (num_mem A x) = (if wi_little W then re_num A x else rev (re_num A x))"
    using T by (auto simp: net_order_def num_mem_def swap_bytes_rev)
  moreover have "length (num_mem A x) = length (re_num A x)" by (simp add: num_mem_def)
  ultimately show ?thesis
    using assms(2) T net_order_int [OF T(1)] run_write [OF o] run_verify [OF o]
    by (cases "wi_int W") (auto simp: transport_write_number_def run_then Let_def enc_num_def num_fits_def)
qed

lemma run_read_number:
  assumes "tpt_on B W t fd s" "num_fits A B W x"
  shows "transport_read_number B t (feed fd (enc_num A W x @ xs) s) = RDone (conv_num A B W x) (feed fd xs s)"
proof -
  have o: "opened t fd s" and T: "t_loc_little (rp_tpt s t) = re_little B" "t_loc_int (rp_tpt s t) = re_int B" "t_net_little (rp_tpt s t) = wi_little W"
      "t_net_int (rp_tpt s t) = wi_int W" "unat (t_bytes (rp_tpt s t)) = wi_bytes W"
    using assms(1) by (simp_all add: tpt_on_def opened_def Let_def)
  have len: "wi_bytes W = length (enc_num A W x)"
    using assms(2) by (auto simp: enc_num_def num_fits_def)
  have read: "transport_read_buffer t (wi_bytes W) (feed fd (enc_num A W x @ xs) s) = RDone (enc_num A W x) (feed fd xs s)"
    using run_read_n [OF o len] .
  have ver: "transport_verify_open t (feed fd (enc_num A W x @ xs) s) = RDone () (feed fd (enc_num A W x @ xs) s)"
    using o run_verify [of t fd "feed fd (enc_num A W x @ xs) s"] by simp
  define nb where "nb = net_order (rp_tpt s t) (enc_num A W x)"
  have step: "transport_read_number B t (feed fd (enc_num A W x @ xs) s) =
      (if wi_int W \<noteq> re_int B then
         if int_width (wi_bytes W) then RDone (re_ofint B (bytes_int (re_little B) True nb)) (feed fd xs s) else RBroken
       else if wi_bytes W < re_size B then RBroken else RDone (mem_num B nb) (feed fd xs s))"
    by (simp add: transport_read_number_def run_simps ver read T Let_def nb_def)
  show ?thesis
  proof (cases "wi_int W")
    case True
    then have "nb = int_bytes (re_little B) (wi_bytes W) (re_toint A x)"
      using net_order_back [OF T(1), of "wi_bytes W" "re_toint A x"] T(3) by (simp add: enc_num_def nb_def)
    then show ?thesis using assms(2) True
      by (auto simp: step conv_num_def num_fits_def bytes_int_order bytes_int_rev mem_num_def int_bytes_def)
  next
    case False
    then have "nb = (if re_little B then re_num A x else rev (re_num A x))"
      using T by (auto simp: net_order_def enc_num_def swap_bytes_rev nb_def)
    then show ?thesis using assms(2) False by (auto simp: step conv_num_def num_fits_def mem_num_def)
  qed
qed

definition enc_str :: "rpc_wire \<Rightarrow> u8 list \<Rightarrow> u8 list" where
  "enc_str W x = enc_u32 W (of_nat (length x)) @ x"

function enc_var :: "('n, 'g) rpc_env \<Rightarrow> rpc_wire \<Rightarrow> 'n lua \<Rightarrow> u8 list"
and enc_pairs :: "('n, 'g) rpc_env \<Rightarrow> rpc_wire \<Rightarrow> ('n lua \<times> 'n lua) list \<Rightarrow> u8 list" where
  "enc_var A W LNil = [RPC_NIL]"
| "enc_var A W (LBool b) = [RPC_BOOLEAN, if b then 1 else 0]"
| "enc_var A W (LNum x) = RPC_NUMBER # enc_num A W x"
| "enc_var A W (LStr x) = RPC_STRING # enc_str W x"
| "enc_var A W (LTable ps) = RPC_TABLE # enc_pairs A W ps @ [RPC_TABLE_END]"
| "enc_var A W (LFun f) = RPC_FUNCTION # RPC_STRING # enc_str W (re_dump A f) @ [RPC_FUNCTION_END]"
| "enc_var A W (LLightFun f) = []"
| "enc_var A W (LRotable r) = []"
| "enc_var A W (LHelper h n) = []"
| "enc_var A W (LHandle h) = []"
| "enc_var A W LServer = []"
| "enc_var A W (LUser u) = []"
| "enc_var A W (LThread u) = []"
| "enc_var A W (LLight u) = []"
| "enc_pairs A W [] = []"
| "enc_pairs A W ((k, v) # ps) = enc_var A W k @ enc_var A W v @ enc_pairs A W ps"
  by pat_completeness auto
termination
  by (relation "measure (case_sum (\<lambda>(A, W, v). size v) (\<lambda>(A, W, ps). size_list (size_prod size size) ps))") auto

text \<open>The values that can be sent: nil, booleans, numbers, strings, functions in Lua, and tables of these.\<close>

definition str_fits :: "u8 list \<Rightarrow> bool" where "str_fits x \<longleftrightarrow> length x < 2147483648"

fun key_fits :: "('n, 'g) rpc_env \<Rightarrow> ('m, 'h) rpc_env \<Rightarrow> rpc_wire \<Rightarrow> 'n lua \<Rightarrow> bool" where
  "key_fits A B W LNil = False"
| "key_fits A B W (LNum x) = (\<not> re_nan B (conv_num A B W x))"
| "key_fits A B W (LFun f) = (\<forall>g. \<not> bad_key B (fst (re_load B (re_dump A f) g)))"
| "key_fits A B W _ = True"

function sendable :: "('n, 'g) rpc_env \<Rightarrow> ('m, 'h) rpc_env \<Rightarrow> rpc_wire \<Rightarrow> 'n lua \<Rightarrow> bool"
and sendable_pairs :: "('n, 'g) rpc_env \<Rightarrow> ('m, 'h) rpc_env \<Rightarrow> rpc_wire \<Rightarrow> ('n lua \<times> 'n lua) list \<Rightarrow> bool" where
  "sendable A B W LNil = True"
| "sendable A B W (LBool b) = True"
| "sendable A B W (LNum x) = num_fits A B W x"
| "sendable A B W (LStr x) = str_fits x"
| "sendable A B W (LTable ps) = sendable_pairs A B W ps"
| "sendable A B W (LFun f) = str_fits (re_dump A f)"
| "sendable A B W (LLightFun f) = False"
| "sendable A B W (LRotable r) = False"
| "sendable A B W (LHelper h n) = False"
| "sendable A B W (LHandle h) = False"
| "sendable A B W LServer = False"
| "sendable A B W (LUser u) = False"
| "sendable A B W (LThread u) = False"
| "sendable A B W (LLight u) = False"
| "sendable_pairs A B W [] = True"
| "sendable_pairs A B W ((k, v) # ps) = (key_fits A B W k \<and> sendable A B W k \<and> sendable A B W v \<and> sendable_pairs A B W ps)"
  by pat_completeness auto
termination
  by (relation "measure (case_sum (\<lambda>(A, B, W, v). size v) (\<lambda>(A, B, W, ps). size_list (size_prod size size) ps))") auto

text \<open>The value at the other end; loading a function changes its interpreter.\<close>

function conv :: "('n, 'g) rpc_env \<Rightarrow> ('m, 'h) rpc_env \<Rightarrow> rpc_wire \<Rightarrow> 'n lua \<Rightarrow> 'h \<Rightarrow> 'm lua \<times> 'h"
and conv_pairs :: "('n, 'g) rpc_env \<Rightarrow> ('m, 'h) rpc_env \<Rightarrow> rpc_wire \<Rightarrow> ('n lua \<times> 'n lua) list \<Rightarrow> ('m lua \<times> 'm lua) list \<Rightarrow> 'h \<Rightarrow> ('m lua \<times> 'm lua) list \<times> 'h" where
  "conv A B W LNil g = (LNil, g)"
| "conv A B W (LBool b) g = (LBool b, g)"
| "conv A B W (LNum x) g = (LNum (conv_num A B W x), g)"
| "conv A B W (LStr x) g = (LStr x, g)"
| "conv A B W (LTable ps) g = (LTable (fst (conv_pairs A B W ps [] g)), snd (conv_pairs A B W ps [] g))"
| "conv A B W (LFun f) g = re_load B (re_dump A f) g"
| "conv A B W (LLightFun f) g = (LNil, g)"
| "conv A B W (LRotable r) g = (LNil, g)"
| "conv A B W (LHelper h n) g = (LNil, g)"
| "conv A B W (LHandle h) g = (LNil, g)"
| "conv A B W LServer g = (LNil, g)"
| "conv A B W (LUser u) g = (LNil, g)"
| "conv A B W (LThread u) g = (LNil, g)"
| "conv A B W (LLight u) g = (LNil, g)"
| "conv_pairs A B W [] qs g = (qs, g)"
| "conv_pairs A B W ((k, v) # ps) qs g =
     conv_pairs A B W ps (raw_put B (fst (conv A B W k g)) (fst (conv A B W v (snd (conv A B W k g)))) qs)
       (snd (conv A B W v (snd (conv A B W k g))))"
  by pat_completeness auto
termination
  by (relation "measure (case_sum (\<lambda>(A, B, W, v, g). size v) (\<lambda>(A, B, W, ps, qs, g). size_list (size_prod size size) ps))") auto

lemma run_write_string:
  assumes "tpt_on A W t fd s"
  shows "write_string A t x s = RDone () (emit (RPC_STRING # enc_str W x) s)"
proof -
  show ?thesis using assms tpt_on_opened [OF assms] by (simp add: write_string_def run_simps enc_str_def)
qed

lemma run_write_variable:
  "tpt_on A W t fd s \<Longrightarrow> sendable A B W v \<Longrightarrow> write_variable A t v s = RDone () (emit (enc_var A W v) s)"
  "tpt_on A W t fd s \<Longrightarrow> sendable_pairs A B W ps \<Longrightarrow> write_table A t ps s = RDone () (emit (enc_pairs A W ps) s)"
proof (induction v and ps arbitrary: s and s rule: enc_var_enc_pairs.induct)
  case (3 A W x)
  then have o: "opened t fd s" by (simp add: tpt_on_opened)
  show ?case using run_write_number [of A W t fd "emit [RPC_NUMBER] s" B x] 3 o by (simp add: run_simps)
next
  case (5 A W ps)
  then have o: "opened t fd s" by (simp add: tpt_on_opened)
  show ?case using 5 o by (simp add: run_simps)
next
  case (6 A W f)
  then have o: "opened t fd s" by (simp add: tpt_on_opened)
  show ?case using 6 o run_write_string [of A W t fd "emit [RPC_FUNCTION] s"] by (simp add: run_simps)
next
  case (16 A W k v ps)
  show ?case using 16 by (simp add: run_simps)
qed (auto simp: run_simps run_write_string dest: tpt_on_opened)

lemma enc_var_nonempty: "sendable A B W v \<Longrightarrow> 0 < length (enc_var A W v)"
  by (cases v) auto

lemma conv_key: "key_fits A B W k \<Longrightarrow> sendable A B W k \<Longrightarrow> \<not> bad_key B (fst (conv A B W k g))"
  by (cases k) auto

lemma run_read_string:
  assumes "tpt_on B W t fd s" "str_fits x"
  shows "read_name B t (feed fd (enc_str W x @ xs) s) = RDone x (feed fd xs s)"
proof -
  have u: "unat (of_nat (length x) :: u32) = length x" using assms(2) by (simp add: str_fits_def unat_of_nat_small)
  have "\<not> sint (of_nat (length x) :: u32) < 0"
  proof -
    have "sint (word_of_int (int (length x)) :: u32) = int (length x)"
      unfolding sint_sbintrunc' using assms(2) by (intro signed_take_bit_int_eq_self) (simp_all add: str_fits_def)
    then show ?thesis by simp
  qed
  then have "transport_read_string t (of_nat (length x)) (feed fd (x @ xs) s) = RDone x (feed fd xs s)"
    using run_read [OF tpt_on_opened [OF assms(1)], of x xs] by (simp add: transport_read_string_def u)
  then show ?thesis using assms(1) by (simp add: read_name_def enc_str_def run_simps)
qed

definition loads :: "('n, 'g) rpc_env \<Rightarrow> bool" where
  "loads B \<longleftrightarrow> (\<forall>x. re_tostring B (LStr x) = Some x)"

lemma run_load: "rlift (\<lambda>g. (Inl (f g), h g)) (feed fd xs s) = RDone (f (rp_lua s)) (feed fd xs (s\<lparr> rp_lua := h (rp_lua s) \<rparr>))"
  by (simp add: rlift_def)

lemma run_read_variable:
  "tpt_on B W t fd s \<Longrightarrow> sendable A B W v \<Longrightarrow> loads B \<Longrightarrow> 2 * length (enc_var A W v) \<le> n \<Longrightarrow>
   read_variable B n t (feed fd (enc_var A W v @ xs) s) =
     RDone (Some (fst (conv A B W v (rp_lua s)))) (feed fd xs (s\<lparr> rp_lua := snd (conv A B W v (rp_lua s)) \<rparr>))"
  "tpt_on B W t fd s \<Longrightarrow> sendable_pairs A B W ps \<Longrightarrow> loads B \<Longrightarrow> 2 * (length (enc_pairs A W ps) + 1) \<le> n \<Longrightarrow>
   read_table B n t qs (feed fd (enc_pairs A W ps @ RPC_TABLE_END # xs) s) =
     RDone (LTable (fst (conv_pairs A B W ps qs (rp_lua s)))) (feed fd xs (s\<lparr> rp_lua := snd (conv_pairs A B W ps qs (rp_lua s)) \<rparr>))"
proof (induction v and ps arbitrary: s n xs and s n xs qs rule: enc_var_enc_pairs.induct)
  case (1 A W)
  then obtain m where n: "n = Suc m" by (cases n) auto
  show ?case using tpt_on_opened [OF 1(1)] by (simp add: n run_simps rpc_types)
next
  case (2 A W b)
  then obtain m where n: "n = Suc m" by (cases n) auto
  show ?case using tpt_on_opened [OF 2(1)] by (simp add: n run_simps rpc_types)
next
  case (3 A W x)
  then obtain m where n: "n = Suc m" by (cases n) auto
  show ?case using tpt_on_opened [OF 3(1)] run_read_number [OF 3(1), of A x xs] 3(2) by (simp add: n run_simps rpc_types)
next
  case (4 A W x)
  then obtain m where n: "n = Suc m" by (cases n) auto
  show ?case using tpt_on_opened [OF 4(1)] run_read_string [OF 4(1), of x xs] 4(2) by (simp add: n run_simps rpc_types)
next
  case (5 A W ps)
  then obtain m where n: "n = Suc m" by (cases n) auto
  have "2 * (length (enc_pairs A W ps) + 1) \<le> m" using 5(5) by (simp add: n)
  then show ?case using tpt_on_opened [OF 5(2)] 5(1) [OF 5(2) _ 5(4), of m "[]" xs] 5(3) by (simp add: n run_simps rpc_types)
next
  case (6 A W f)
  then have "5 \<le> n" by simp
  then have "n = Suc (Suc (Suc (Suc (n - 4))))" by linarith
  then obtain m where n: "n = Suc (Suc (Suc (Suc m)))" by blast
  let ?x = "re_dump A f"
  have ok: "re_tostring B (LStr ?x) = Some ?x" using 6(3) by (simp add: loads_def)
  have str: "read_name B t (feed fd (enc_str W ?x @ RPC_FUNCTION_END # xs) s) = RDone ?x (feed fd (RPC_FUNCTION_END # xs) s)"
    using run_read_string [OF 6(1), of ?x] 6(2) by simp
  let ?s = "s\<lparr> rp_lua := snd (re_load B ?x (rp_lua s)) \<rparr>"
  have "read_variable B (Suc m) t (feed fd (RPC_FUNCTION_END # xs) ?s) = RDone None (feed fd xs ?s)"
    using tpt_on_opened [OF 6(1)] by (simp add: run_simps rpc_types)
  then show ?case using tpt_on_opened [OF 6(1)] str ok by (simp add: n run_simps rpc_types run_load)
next
  case (15 A W)
  then obtain m where n: "n = Suc (Suc m)" by (cases n; cases "n - 1") auto
  show ?case using tpt_on_opened [OF 15(1)] by (simp add: n run_simps rpc_types)
next
  case (16 A W k v ps)
  then obtain m where n: "n = Suc m" by (cases n) auto
  have sd: "key_fits A B W k" "sendable A B W k" "sendable A B W v" "sendable_pairs A B W ps" using 16(5) by simp_all
  have len: "2 * length (enc_var A W k) \<le> m" "2 * length (enc_var A W v) \<le> m" "2 * (length (enc_pairs A W ps) + 1) \<le> m"
  proof -
    have "2 * (length (enc_var A W k) + (length (enc_var A W v) + length (enc_pairs A W ps)) + 1) \<le> Suc m" using 16(7) by (simp add: n)
    note a = this enc_var_nonempty [OF sd(2)]
    show "2 * length (enc_var A W k) \<le> m" using a by (auto simp del: length_0_conv length_greater_0_conv)
    show "2 * length (enc_var A W v) \<le> m" using a by (auto simp del: length_0_conv length_greater_0_conv)
    show "2 * (length (enc_pairs A W ps) + 1) \<le> m" using a by (auto simp del: length_0_conv length_greater_0_conv)
  qed
  have bad: "\<not> bad_key B (fst (conv A B W k (rp_lua s)))" using conv_key [OF sd(1,2)] .
  note k = 16(1) [OF 16(4) sd(2) 16(6) len(1), of "enc_var A W v @ enc_pairs A W ps @ RPC_TABLE_END # xs"]
  note v = 16(2) [of "s\<lparr> rp_lua := snd (conv A B W k (rp_lua s)) \<rparr>", simplified, OF 16(4) sd(3) 16(6) len(2), of "enc_pairs A W ps @ RPC_TABLE_END # xs"]
  note ps = 16(3) [of "s\<lparr> rp_lua := snd (conv A B W v (snd (conv A B W k (rp_lua s)))) \<rparr>" m _ xs, simplified, OF 16(4) sd(4) 16(6) len(3) [simplified]]
  show ?case by (simp add: n run_simps k v ps lua_rawset_def bad)
qed auto

lemma run_read_var [run_simps]:
  assumes "tpt_on B W t fd s" "sendable A B W v" "loads B"
  shows "read_var B t (feed fd (enc_var A W v @ xs) s) =
    RDone (Some (fst (conv A B W v (rp_lua s)))) (feed fd xs (s\<lparr> rp_lua := snd (conv A B W v (rp_lua s)) \<rparr>))"
proof -
  have "t_fd (rp_tpt s t) = fd" using assms(1) by (simp add: tpt_on_def Let_def)
  then have "2 * length (enc_var A W v) \<le> 2 * length (rp_in (feed fd (enc_var A W v @ xs) s) (t_fd (rp_tpt (feed fd (enc_var A W v @ xs) s) t))) + 2"
    by simp
  from run_read_variable(1) [OF assms this] show ?thesis unfolding read_var_def .
qed

section \<open>The fuel is enough\<close>

text \<open>A step does not run out of fuel, keeps the transport and leaves at least \<open>k\<close> of \<open>L\<close> bytes less to read.\<close>

definition good :: "nat \<Rightarrow> int \<Rightarrow> nat \<Rightarrow> nat \<Rightarrow> ('a, ('n, 'g) rpcs) oc \<Rightarrow> bool" where
  "good t fd k L r \<longleftrightarrow>
     (case r of RDone _ s \<Rightarrow> t_fd (rp_tpt s t) = fd \<and> length (rp_in s fd) + k \<le> L | RFuel \<Rightarrow> False | _ \<Rightarrow> True)"

definition left :: "nat \<Rightarrow> int \<Rightarrow> nat \<Rightarrow> ('n, 'g) rpcs \<Rightarrow> bool" where
  "left t fd L s \<longleftrightarrow> t_fd (rp_tpt s t) = fd \<and> length (rp_in s fd) \<le> L"

definition goes :: "nat \<Rightarrow> int \<Rightarrow> nat \<Rightarrow> nat \<Rightarrow> ('a, 'n, 'g) rpcm \<Rightarrow> bool" where
  "goes t fd k L m \<longleftrightarrow> (\<forall>s. left t fd L s \<longrightarrow> good t fd k L (m s))"

lemma goes_bind:
  fixes m :: "('a, 'n, 'g) rpcm"
  assumes "goes t fd j L m" "j \<le> k" "j \<le> L \<Longrightarrow> (\<And>a. goes t fd (k - j) (L - j) (f a))"
  shows "goes t fd k L (rbind m f)"
  unfolding goes_def
proof (intro allI impI)
  fix s :: "('n, 'g) rpcs"
  assume "left t fd L s"
  then have m: "good t fd j L (m s)" using assms(1) by (simp add: goes_def)
  show "good t fd k L (rbind m f s)"
  proof (cases "m s")
    case (RDone a s')
    then have s': "t_fd (rp_tpt s' t) = fd" "length (rp_in s' fd) + j \<le> L" using m by (simp_all add: good_def)
    then have "good t fd (k - j) (L - j) (f a s')" using assms(3) by (auto simp: left_def goes_def)
    then show ?thesis using RDone assms(2) s' by (auto simp: rbind_def good_def split: oc.splits)
  qed (use m in \<open>auto simp: rbind_def good_def\<close>)
qed

lemma goes_then:
  assumes "goes t fd j L m" "j \<le> k" "j \<le> L \<Longrightarrow> goes t fd (k - j) (L - j) m'"
  shows "goes t fd k L (rthen m m')"
  unfolding rthen_def using assms by (intro goes_bind)

lemma goes_weak: "goes t fd k L m \<Longrightarrow> j \<le> k \<Longrightarrow> goes t fd j L m"
  by (fastforce simp: goes_def good_def split: oc.splits)

lemma goes_ret [simp]: "goes t fd 0 L (rret a)"
  by (simp add: goes_def good_def left_def rret_def)

lemma goes_other [simp]: "goes t fd k L (rthrow e)" "goes t fd k L (rlua w)" "goes t fd k L rbroken"
  by (simp_all add: goes_def good_def run_simps)

lemma goes_verify [simp]: "goes t fd 0 L (transport_verify_open t)"
  by (simp add: goes_def good_def left_def transport_verify_open_def)

lemma goes_recv: "goes t fd 1 L (platform_uart_recv fd)"
  by (auto simp: goes_def good_def left_def platform_uart_recv_def split: list.splits)

lemma goes_read: "goes t fd n L (transport_read_buffer t n :: (u8 list, 'n, 'g) rpcm)"
proof (induction n arbitrary: L)
  case (Suc n)
  define k :: "int \<Rightarrow> (u8 list, 'n, 'g) rpcm" where "k = (\<lambda>c. if c < 0 then rthrow (Nonfatal ERR_NODATA) else rbind (transport_read_buffer t n) (\<lambda>bs. rret (word_of_int c # bs)))"
  have k: "goes t fd n L (k c)" for L c
  proof -
    have "goes t fd n L (rbind (transport_read_buffer t n) (\<lambda>bs. rret (word_of_int c # bs)) :: (u8 list, 'n, 'g) rpcm)"
      by (rule goes_bind [OF Suc.IH]) simp_all
    then show ?thesis by (simp add: k_def)
  qed
  have "goes t fd (Suc n) L (rbind (platform_uart_recv fd) k)"
    by (rule goes_bind [OF goes_recv]) (simp_all add: k)
  then have "goes t fd (Suc n) L (\<lambda>s. rbind (platform_uart_recv (t_fd (rp_tpt s t))) k s)"
    by (auto simp: goes_def left_def)
  then show ?case unfolding transport_read_buffer.simps k_def by (intro goes_then [OF goes_verify]) simp_all
qed simp

lemma goes_read_u8: "goes t fd 1 L (transport_read_u8 t)"
  unfolding transport_read_u8_def by (intro goes_then [OF goes_verify] goes_bind [OF goes_read]) simp_all

lemma goes_get [simp]: "goes t fd 0 L (\<lambda>s. RDone (f s) s)"
  by (simp add: goes_def good_def left_def)

lemma goes_read_u32: "goes t fd 4 L (transport_read_u32 E t)"
  unfolding transport_read_u32_def by (intro goes_then [OF goes_verify] goes_bind [OF goes_read]) simp_all

lemma goes_read_number:
  fixes E :: "('n, 'g) rpc_env"
  shows "goes t fd 0 L (transport_read_number E t)"
proof -
  have k: "goes t fd 0 L (\<lambda>s. let T = rp_tpt s t; b = net_order T b in
         if t_net_int T \<noteq> t_loc_int T then
           if int_width n then RDone (re_ofint E (bytes_int (re_little E) True b)) s else RBroken
         else if n < re_size E then RBroken
         else RDone (mem_num E b) s :: ('n, ('n, 'g) rpcs) oc)" for b n L
    by (simp add: goes_def good_def left_def Let_def)
  have "goes t fd 0 L (rbind (transport_read_buffer t n) (\<lambda>b s. let T = rp_tpt s t; b = net_order T b in
         if t_net_int T \<noteq> t_loc_int T then
           if int_width n then RDone (re_ofint E (bytes_int (re_little E) True b)) s else RBroken
         else if n < re_size E then RBroken
         else RDone (mem_num E b) s) :: ('n, 'n, 'g) rpcm)" for n
    by (rule goes_bind [OF goes_weak [OF goes_read]]) (use k in simp_all)
  then have "goes t fd 0 L (\<lambda>s. let n = unat (t_bytes (rp_tpt s t)) in
       rbind (transport_read_buffer t n) (\<lambda>b s.
         let T = rp_tpt s t; b = net_order T b in
         if t_net_int T \<noteq> t_loc_int T then
           if int_width n then RDone (re_ofint E (bytes_int (re_little E) True b)) s else RBroken
         else if n < re_size E then RBroken
         else RDone (mem_num E b) s) s :: ('n, ('n, 'g) rpcs) oc)"
    unfolding Let_def by (simp add: goes_def)
  then show ?thesis unfolding transport_read_number_def by (intro goes_then [OF goes_verify]) simp_all
qed

lemma goes_lift: "goes t fd 0 L (rlift f)"
  by (auto simp: goes_def rlift_def left_def good_def split: sum.splits prod.splits)

lemma goes_fields: "goes t fd 0 L (get_fields E xs v)"
proof (induction xs arbitrary: v)
  case (Cons x xs)
  show ?case unfolding get_fields.simps using Cons.IH by (intro goes_bind [OF goes_lift]) simp_all
qed simp

lemma goes_name:
  fixes E :: "('n, 'g) rpc_env"
  shows "goes t fd 0 L (read_name E t)"
  unfolding read_name_def
proof (rule goes_bind [OF goes_weak [OF goes_read_u32]])
  show "goes t fd (0 - 0) (L - 0) (transport_read_string t len :: (u8 list, 'n, 'g) rpcm)" for len
    unfolding transport_read_string_def by (simp add: goes_weak [OF goes_read])
qed simp_all

lemma goes_index:
  fixes E :: "('n, 'g) rpc_env"
  shows "goes t fd 0 L (read_index E t)"
proof -
  have "goes t fd 0 L (rbind (rlift (re_getglobal E x)) (get_fields E xs))" for x xs and L
    by (rule goes_bind [OF goes_lift]) (simp_all add: goes_fields)
  then have "goes t fd 0 L (get_path E name)" for name L
    by (simp add: get_path_def split: list.split)
  then show ?thesis unfolding read_index_def by (intro goes_bind [OF goes_name]) simp_all
qed

lemma goes_some: "goes t fd 0 L m \<Longrightarrow> goes t fd 0 L (rbind m (\<lambda>x. rret (Some (f x))))"
  by (rule goes_bind) simp_all

lemma read_fuel_enough:
  fixes E :: "('n, 'g) rpc_env"
  shows "(\<forall>L. 2 * L + 1 \<le> n \<longrightarrow> goes t fd 1 L (read_variable E n t)) \<and>
   (\<forall>L ps. 2 * L + 2 \<le> n \<longrightarrow> goes t fd 0 L (read_table E n t ps)) \<and>
   (\<forall>L fs. 2 * L + 2 \<le> n \<longrightarrow> goes t fd 0 L (read_function E n t fs))"
proof (induction n)
  case (Suc n)
  have var: "goes t fd 1 L (read_variable E n t)" if "2 * L + 1 \<le> n" for L using Suc that by blast
  have tab: "goes t fd 0 L (read_table E n t ps)" if "2 * L + 2 \<le> n" for L ps using Suc that by blast
  have fn: "goes t fd 0 L (read_function E n t fs)" if "2 * L + 2 \<le> n" for L fs using Suc that by blast
  note put = goes_weak [OF _ le0]
  show ?case
  proof (intro conjI allI impI)
    fix L :: nat
    assume a: "2 * L + 1 \<le> Suc n"
    show "goes t fd 1 L (read_variable E (Suc n) t)" unfolding read_variable.simps
    proof (rule goes_bind [OF goes_read_u8])
      assume L: "1 \<le> L"
      have f: "2 * (L - 1) + 2 \<le> n" using a L by linarith
      note steps = goes_some [OF put [OF goes_read_u8]] goes_some [OF goes_read_number] goes_some [OF goes_name]
        goes_some [OF tab [OF f]] goes_some [OF fn [OF f]] goes_some [OF goes_index]
      show "goes t fd (1 - 1) (L - 1) (if ty = RPC_NIL then rret (Some LNil)
       else if ty = RPC_BOOLEAN then rbind (transport_read_u8 t) (\<lambda>b. rret (Some (LBool (b \<noteq> 0))))
       else if ty = RPC_NUMBER then rbind (transport_read_number E t) (\<lambda>x. rret (Some (LNum x)))
       else if ty = RPC_STRING then rbind (read_name E t) (\<lambda>x. rret (Some (LStr x)))
       else if ty = RPC_TABLE then rbind (read_table E n t []) (\<lambda>v. rret (Some v))
       else if ty = RPC_TABLE_END then rret None
       else if ty = RPC_FUNCTION then rbind (read_function E n t []) (\<lambda>v. rret (Some v))
       else if ty = RPC_FUNCTION_END then rret None
       else if ty = RPC_REMOTE then rbind (read_index E t) (\<lambda>v. rret (Some v))
       else rthrow (Fatal (uint ty)))" for ty
        by (simp add: steps [unfolded One_nat_def])
    qed simp
  next
    fix L ps
    assume a: "2 * L + 2 \<le> Suc n"
    then have n: "2 * L + 1 \<le> n" by simp
    have "goes t fd 0 M (rbind (lua_rawset E k w ps) (read_table E n t))" if "2 * M + 2 \<le> n" for M k w
      using tab [OF that] by (intro goes_bind [of _ _ 0]) (simp_all add: lua_rawset_def)
    then have in2: "goes t fd 0 M (case v of None \<Rightarrow> rbroken | Some v \<Rightarrow> rbind (lua_rawset E k v ps) (read_table E n t))" if "2 * M + 2 \<le> n" for M k v
      using that by (simp split: option.split)
    have "goes t fd 0 M (rbind (read_variable E n t) (\<lambda>v. case v of None \<Rightarrow> rbroken | Some v \<Rightarrow> rbind (lua_rawset E k v ps) (read_table E n t)))"
      if "2 * M + 2 \<le> n" for M k
      by (rule put, rule goes_bind [OF var, of M 1]) (use that in2 in simp_all)
    then have in1: "goes t fd 0 M (case k of None \<Rightarrow> rret (LTable ps) | Some k \<Rightarrow> rbind (read_variable E n t)
        (\<lambda>v. case v of None \<Rightarrow> rbroken | Some v \<Rightarrow> rbind (lua_rawset E k v ps) (read_table E n t)))" if "2 * M + 2 \<le> n" for M k
      using that by (simp split: option.split)
    show "goes t fd 0 L (read_table E (Suc n) t ps)" unfolding read_table.simps
      by (rule put, rule goes_bind [OF var [OF n], of 1]) (use a in1 in simp_all)
  next
    fix L fs
    assume a: "2 * L + 2 \<le> Suc n"
    then have n: "2 * L + 1 \<le> n" by simp
    have "goes t fd 0 M (rbind (rlift g) (\<lambda>f. read_function E n t (f # fs)))" if "2 * M + 2 \<le> n" for M and g :: "'g \<Rightarrow> 'n lua lua_result \<times> 'g"
      using fn [OF that] by (intro goes_bind [OF goes_lift]) simp_all
    then have "goes t fd 0 M (case x of None \<Rightarrow> (case fs of [f] \<Rightarrow> rret f | _ \<Rightarrow> rbroken)
        | Some x \<Rightarrow> (case re_tostring E x of None \<Rightarrow> rlua (asc ''string expected'')
            | Some b \<Rightarrow> rbind (rlift (\<lambda>g. (Inl (fst (re_load E b g)), snd (re_load E b g)))) (\<lambda>f. read_function E n t (f # fs))))"
      if "2 * M + 2 \<le> n" for M x
      using that by (simp split: option.split list.split)
    then show "goes t fd 0 L (read_function E (Suc n) t fs)" unfolding read_function.simps
      by (intro put [OF goes_bind [OF var [OF n], of 1]]) (use a in simp_all)
  qed
qed simp

lemma read_var_ends: "read_var E t s \<noteq> RFuel"
proof -
  define fd where "fd = t_fd (rp_tpt s t)"
  have "good t fd 1 (length (rp_in s fd)) (read_var E t s)"
    using read_fuel_enough [of "2 * length (rp_in s fd) + 2" t fd E] by (simp add: read_var_def fd_def left_def goes_def)
  then show ?thesis by (auto simp: good_def)
qed

end
