(* ===== verification/RpcCall.thy ===== *)
theory RpcCall
  imports RpcVar
begin

text \<open>
  \<open>src/modules/luarpc.c\<close> and \<open>src/luarpc_elua_uart.c\<close>, second part: negotiation, the client's handles
  and helpers, and the server. An operation that Lua calls returns the list of its results. A
  server handle is the pair of its transports; there is one of them in a state. The numbers in the
  messages about identifiers are left out.
\<close>

section \<open>Commands and errors\<close>

definition RPC_CMD_CALL :: u8 where "RPC_CMD_CALL = 1"
definition RPC_CMD_GET :: u8 where "RPC_CMD_GET = 2"
definition RPC_CMD_CON :: u8 where "RPC_CMD_CON = 3"
definition RPC_CMD_NEWINDEX :: u8 where "RPC_CMD_NEWINDEX = 4"
definition RPC_READY :: u8 where "RPC_READY = 64"
definition RPC_UNSUPPORTED_CMD :: u8 where "RPC_UNSUPPORTED_CMD = 65"
definition RPC_PROTOCOL_VERSION :: u8 where "RPC_PROTOCOL_VERSION = 3"
definition LUA_ERRRUN :: u32 where "LUA_ERRRUN = 2"
definition NUM_FUNCNAME_CHARS :: nat where "NUM_FUNCNAME_CHARS = 20"
definition MAX_LINK_ERRS :: int where "MAX_LINK_ERRS = 2"

lemmas rpc_cmds = RPC_CMD_CALL_def RPC_CMD_GET_def RPC_CMD_CON_def RPC_CMD_NEWINDEX_def

definition errorString :: "('n, 'g) rpc_env \<Rightarrow> int \<Rightarrow> u8 list" where
  "errorString E n =
     (if n = ERR_EOF then asc ''connection closed unexpectedly''
      else if n = ERR_CLOSED then asc ''operation requested on closed transport''
      else if n = ERR_PROTOCOL then asc ''error in the received protocol''
      else if n = ERR_COMMAND then asc ''undefined command''
      else if n = ERR_NODATA then asc ''no data received when attempting to read''
      else if n = ERR_HEADER then asc ''header exchanged failed''
      else if n = ERR_LONGFNAME then asc ''function name too long''
      else re_strerror E n)"

text \<open>Without a handler the message is the format of \<open>luaL_error\<close>, which has no further arguments.\<close>

definition CH_PERCENT :: u8 where "CH_PERCENT = 0x25"

definition deal_with_error :: "('n, 'g) rpc_env \<Rightarrow> u8 list \<Rightarrow> (unit, 'n, 'g) rpcm" where
  "deal_with_error E msg s =
     (case rp_onerr s of
        Some f \<Rightarrow> RDone () (s\<lparr> rp_lua := snd (re_pcall E f [LStr (cstr msg)] (rp_lua s)) \<rparr>)
      | None \<Rightarrow> if CH_PERCENT \<in> set (cstr msg) then RBroken else RLua (cstr msg) s)"

definition generic_catch_handler :: "('n, 'g) rpc_env \<Rightarrow> nat \<Rightarrow> rpc_exn \<Rightarrow> ('n lua list, 'n, 'g) rpcm" where
  "generic_catch_handler E h e =
     (case e of
        Nonfatal n \<Rightarrow> rthen (deal_with_error E (errorString E n)) (rret [LNil])
      | Fatal n \<Rightarrow> rthen (deal_with_error E (errorString E n)) (rthen (transport_close h) (rret [])))"

section \<open>Negotiation\<close>

definition rpc_magic :: "u8 list" where "rpc_magic = asc ''LRPC'' @ [RPC_PROTOCOL_VERSION]"

definition flag :: "bool \<Rightarrow> u8" where "flag b = (if b then 1 else 0)"

definition hdr_char :: "('n, 'g) rpc_env \<Rightarrow> u8 \<Rightarrow> int" where
  "hdr_char E x = (if re_char_signed E then sint x else uint x)"

definition client_negotiate :: "('n, 'g) rpc_env \<Rightarrow> nat \<Rightarrow> (unit, 'n, 'g) rpcm" where
  "client_negotiate E t =
     rthen (upd_tpt t (\<lambda>T. T\<lparr> t_loc_little := re_little E, t_bytes := of_nat (re_size E), t_loc_int := re_int E \<rparr>))
       (rthen (transport_write_buffer t (rpc_magic @ [flag (re_little E), of_nat (re_size E), flag (re_int E)]))
         (rbind (transport_read_buffer t 8) (\<lambda>hdr.
            if take 5 hdr \<noteq> rpc_magic then rthrow (Nonfatal ERR_HEADER)
            else upd_tpt t (\<lambda>T. T\<lparr> t_net_little := bit (hdr ! 5) 0, t_bytes := hdr ! 6, t_net_int := bit (hdr ! 7) 0 \<rparr>))))"

definition server_answer :: "('n, 'g) rpc_env \<Rightarrow> u8 list \<Rightarrow> tpt \<Rightarrow> u8 list \<times> tpt" where
  "server_answer E hdr T =
     (let differ = hdr_char E (hdr ! 5) \<noteq> uint (flag (t_loc_little T));
          h5 = (if differ then 0 else hdr ! 5);
          T = (if differ then T\<lparr> t_net_little := False \<rparr> else T);
          h6 = (if uint (t_bytes T) < hdr_char E (hdr ! 6) then t_bytes T else hdr ! 6);
          T = (if hdr_char E h6 < uint (t_bytes T) then T\<lparr> t_bytes := h6 \<rparr> else T);
          ints = hdr_char E (hdr ! 7) \<noteq> uint (flag (t_loc_int T));
          h7 = (if ints then 1 else hdr ! 7);
          T = (if ints then T\<lparr> t_net_int := True \<rparr> else T)
      in (take 5 hdr @ [h5, h6, h7], T))"

definition server_negotiate :: "('n, 'g) rpc_env \<Rightarrow> nat \<Rightarrow> (unit, 'n, 'g) rpcm" where
  "server_negotiate E t =
     rthen (upd_tpt t (\<lambda>T. T\<lparr> t_net_little := re_little E, t_loc_little := re_little E, t_bytes := of_nat (re_size E),
         t_net_int := re_int E, t_loc_int := re_int E \<rparr>))
       (rbind (transport_read_buffer t 8) (\<lambda>hdr.
          if take 5 hdr \<noteq> rpc_magic then rthrow (Nonfatal ERR_HEADER)
          else (\<lambda>s. rthen (upd_tpt t (\<lambda>T. snd (server_answer E hdr T)))
                 (transport_write_buffer t (fst (server_answer E hdr (rp_tpt s t)))) s)))"

section \<open>The client\<close>

definition helper_name :: "('n, 'g) rpc_env \<Rightarrow> u8 list \<Rightarrow> 'n lua \<Rightarrow> (u8 list, 'n, 'g) rpcm" where
  "helper_name E msg key =
     (case key of
        LStr x \<Rightarrow> if NUM_FUNCNAME_CHARS - 1 < length (cstr x) then rlua (errorString E ERR_LONGFNAME) else rret (cstr x)
      | _ \<Rightarrow> rlua msg)"

definition handle_index :: "('n, 'g) rpc_env \<Rightarrow> nat \<Rightarrow> 'n lua \<Rightarrow> ('n lua list, 'n, 'g) rpcm" where
  "handle_index E h key = rbind (helper_name E (asc ''can't index a handle with a non-string'') key) (\<lambda>x. rret [LHelper h [x]])"

definition helper_index :: "('n, 'g) rpc_env \<Rightarrow> nat \<Rightarrow> u8 list list \<Rightarrow> 'n lua \<Rightarrow> ('n lua list, 'n, 'g) rpcm" where
  "helper_index E h names key = rbind (helper_name E (asc ''can't index handle with non-string'') key) (\<lambda>x. rret [LHelper h (names @ [x])])"

definition helper_wait_ready :: "nat \<Rightarrow> u8 \<Rightarrow> (unit, 'n, 'g) rpcm" where
  "helper_wait_ready t cmd =
     rthen (transport_write_u8 t cmd) (rbind (transport_read_u8 t) (\<lambda>r.
       if r \<noteq> RPC_READY then rthrow (Nonfatal ERR_PROTOCOL) else rret ()))"

text \<open>A variable that must be there; several of them.\<close>

definition read_some :: "('n, 'g) rpc_env \<Rightarrow> nat \<Rightarrow> ('n lua, 'n, 'g) rpcm" where
  "read_some E t = rbind (read_var E t) (\<lambda>v. case v of None \<Rightarrow> rbroken | Some v \<Rightarrow> rret v)"

fun read_vars :: "('n, 'g) rpc_env \<Rightarrow> nat \<Rightarrow> nat \<Rightarrow> ('n lua list, 'n, 'g) rpcm" where
  "read_vars E t 0 = rret []"
| "read_vars E t (Suc n) = rbind (read_some E t) (\<lambda>v. rbind (read_vars E t n) (\<lambda>vs. rret (v # vs)))"


fun write_vars :: "('n, 'g) rpc_env \<Rightarrow> nat \<Rightarrow> 'n lua list \<Rightarrow> (unit, 'n, 'g) rpcm" where
  "write_vars E t [] = rret ()"
| "write_vars E t (v # vs) = rthen (write_variable E t v) (write_vars E t vs)"

definition write_counted :: "('n, 'g) rpc_env \<Rightarrow> nat \<Rightarrow> 'n lua list \<Rightarrow> (unit, 'n, 'g) rpcm" where
  "write_counted E t vs = rthen (transport_write_u32 E t (of_nat (length vs))) (write_vars E t vs)"

definition read_error :: "('n, 'g) rpc_env \<Rightarrow> nat \<Rightarrow> (unit, 'n, 'g) rpcm" where
  "read_error E t = rthen (transport_read_u32 E t) (rbind (read_name E t) (deal_with_error E))"



definition helper_newindex :: "('n, 'g) rpc_env \<Rightarrow> nat \<Rightarrow> u8 list list \<Rightarrow> 'n lua \<Rightarrow> 'n lua \<Rightarrow> ('n lua list, 'n, 'g) rpcm" where
  "helper_newindex E h names key val =
     (case key of
        LStr x \<Rightarrow>
          rtry (rthen (helper_wait_ready h RPC_CMD_NEWINDEX) (rthen (helper_remote_index E h names)
              (rthen (write_variable E h key) (rthen (write_variable E h val)
                (rbind (transport_read_u8 h) (\<lambda>ret_code.
                   if ret_code \<noteq> 0 then rthen (read_error E h) (rret []) else rret []))))))
            (generic_catch_handler E h)
      | _ \<Rightarrow> rlua (asc ''string expected''))"

definition handle_newindex :: "('n, 'g) rpc_env \<Rightarrow> nat \<Rightarrow> 'n lua \<Rightarrow> 'n lua \<Rightarrow> ('n lua list, 'n, 'g) rpcm" where
  "handle_newindex E h key val =
     rthen (helper_name E (asc ''can't index handle with a non-string'') key)
       (rthen (helper_newindex E h [[]] key val) (rret []))"

text \<open>Opening. The timer of a connection is taken from the first argument.\<close>

definition id_of :: "('n, 'g) rpc_env \<Rightarrow> 'n \<Rightarrow> u32" where
  "id_of E x = word_of_int (re_toint E x)"

definition transport_open_connection :: "('n, 'g) rpc_env \<Rightarrow> nat \<Rightarrow> 'n lua list \<Rightarrow> (unit, 'n, 'g) rpcm" where
  "transport_open_connection E h args =
     (case args of
        [x, y] \<Rightarrow>
          (case re_tonumber E x of
             None \<Rightarrow> rlua (asc ''1st arg must be uart num'')
           | Some u \<Rightarrow>
               if re_tonumber E y = None then rlua (asc ''2nd arg must be timer num'')
               else if \<not> re_uart_exists E (id_of E u) then rlua (asc ''uart does not exist'')
               else if \<not> re_timer_exists E (id_of E u) then rlua (asc ''timer does not exist'')
               else upd_tpt h (\<lambda>T. T\<lparr> t_fd := sint (id_of E u), t_tmr := id_of E u \<rparr>))
      | _ \<Rightarrow> rlua (asc ''must have 3 args''))"

definition handle_create :: "nat \<Rightarrow> (nat, 'n, 'g) rpcm" where
  "handle_create k s = RDone (rp_next s) (s\<lparr> rp_next := rp_next s + k \<rparr>)"

definition rpc_connect :: "('n, 'g) rpc_env \<Rightarrow> 'n lua list \<Rightarrow> ('n lua list, 'n, 'g) rpcm" where
  "rpc_connect E args =
     rtry (rbind (handle_create 1) (\<lambda>h.
         rthen (transport_open_connection E h args)
           (rthen (transport_write_u8 h RPC_CMD_CON)
             (rthen (client_negotiate E h) (rret [LHandle h])))))
       (\<lambda>e. rthen (deal_with_error E (errorString E (case e of Nonfatal n \<Rightarrow> n | Fatal n \<Rightarrow> n))) (rret [LNil]))"

section \<open>The server\<close>

definition server_handle_shutdown :: "nat \<Rightarrow> nat \<Rightarrow> (unit, 'n, 'g) rpcm" where
  "server_handle_shutdown l a = rthen (transport_close l) (transport_close a)"

definition set_errs :: "int \<Rightarrow> (unit, 'n, 'g) rpcm" where
  "set_errs n s = RDone () (s\<lparr> rp_errs := n \<rparr>)"

definition server_handle_create :: "(nat, 'n, 'g) rpcm" where
  "server_handle_create =
     rbind (handle_create 2) (\<lambda>l. rthen (set_errs 0) (rthen (transport_init l) (rthen (transport_init (l + 1)) (rret l))))"

definition transport_open_listener :: "('n, 'g) rpc_env \<Rightarrow> nat \<Rightarrow> 'n lua list \<Rightarrow> (unit, 'n, 'g) rpcm" where
  "transport_open_listener E l args =
     (case args of
        [x, y] \<Rightarrow>
          (case (re_tonumber E x, re_tonumber E y) of
             (None, _) \<Rightarrow> rlua (asc ''1st arg must be uart num'')
           | (_, None) \<Rightarrow> rlua (asc ''2nd arg must be timer num'')
           | (Some u, Some v) \<Rightarrow>
               if \<not> re_uart_exists E (id_of E u) then rlua (asc ''invalid uart id'')
               else if \<not> re_timer_exists E (id_of E v) then rlua (asc ''invalid timer id'')
               else upd_tpt l (\<lambda>T. T\<lparr> t_fd := sint (id_of E u), t_tmr := id_of E v \<rparr>))
      | _ \<Rightarrow> rlua (asc ''must have 3 args''))"

definition rpc_listen :: "('n, 'g) rpc_env \<Rightarrow> 'n lua list \<Rightarrow> (nat, 'n, 'g) rpcm" where
  "rpc_listen E args = rbind server_handle_create (\<lambda>l. rthen (transport_open_listener E l args) (rret l))"

definition transport_accept :: "nat \<Rightarrow> nat \<Rightarrow> (unit, 'n, 'g) rpcm" where
  "transport_accept l a = rthen (transport_verify_open l) (\<lambda>s. upd_tpt a (\<lambda>T. T\<lparr> t_fd := t_fd (rp_tpt s l) \<rparr>) s)"

text \<open>A name after \<open>strtok\<close>: the dot behind each token is a zero.\<close>

fun strtok_text :: "bool \<Rightarrow> u8 list \<Rightarrow> u8 list" where
  "strtok_text tok [] = []"
| "strtok_text tok (x # xs) =
     (if x = 0 then x # xs
      else if x = CH_DOT then (if tok then 0 else x) # strtok_text False xs
      else x # strtok_text True xs)"

definition write_message :: "('n, 'g) rpc_env \<Rightarrow> nat \<Rightarrow> u32 \<Rightarrow> u8 list \<Rightarrow> (unit, 'n, 'g) rpcm" where
  "write_message E t code msg =
     rthen (transport_write_u8 t 1) (rthen (transport_write_u32 E t code)
       (rthen (transport_write_u32 E t (of_nat (length msg))) (transport_write_buffer t msg)))"

definition lua_pcall :: "('n, 'g) rpc_env \<Rightarrow> 'n lua \<Rightarrow> 'n lua list \<Rightarrow> ('n lua list + int \<times> u8 list, 'n, 'g) rpcm" where
  "lua_pcall E f args s =
     (case re_pcall E f args (rp_lua s) of (r, g) \<Rightarrow> RDone r (s\<lparr> rp_lua := g \<rparr>))"

definition read_cmd_call :: "('n, 'g) rpc_env \<Rightarrow> nat \<Rightarrow> (unit, 'n, 'g) rpcm" where
  "read_cmd_call E t =
     rbind (read_name E t) (\<lambda>name.
     rbind (get_path E name) (\<lambda>f.
     rbind (transport_read_u32 E t) (\<lambda>nargs.
     rbind (read_vars E t (if sint nargs < 0 then 0 else unat nargs)) (\<lambda>args.
       if re_callable E f then
         if sint nargs < 0 then rbroken
         else rbind (lua_pcall E f args) (\<lambda>r.
           case r of
             Inr (code, msg) \<Rightarrow> write_message E t (word_of_int code) msg
           | Inl rets \<Rightarrow> rthen (transport_write_u8 t 0) (write_counted E t rets))
       else write_message E t LUA_ERRRUN (asc ''undefined function: '' @ strtok_text False name)))))"

definition read_cmd_get :: "('n, 'g) rpc_env \<Rightarrow> nat \<Rightarrow> (unit, 'n, 'g) rpcm" where
  "read_cmd_get E t = rbind (read_name E t) (\<lambda>name. rbind (get_path E name) (write_variable E t))"

definition read_cmd_newindex :: "('n, 'g) rpc_env \<Rightarrow> nat \<Rightarrow> (unit, 'n, 'g) rpcm" where
  "read_cmd_newindex E t =
     rbind (read_name E t) (\<lambda>name.
       rthen
         (if cstr name \<noteq> [] then
            rbind (get_path E name) (\<lambda>tab. rbind (read_some E t) (\<lambda>k. rbind (read_some E t) (\<lambda>v.
              rlift (re_settable E tab k v))))
          else
            rbind (read_some E t) (\<lambda>k. rbind (read_some E t) (\<lambda>v.
              case re_tostring E k of
                None \<Rightarrow> rbroken
              | Some x \<Rightarrow> rlift (re_setglobal E (cstr x) v))))
         (transport_write_u8 t 0))"

definition dispatch_command :: "('n, 'g) rpc_env \<Rightarrow> nat \<Rightarrow> u8 \<Rightarrow> (unit, 'n, 'g) rpcm" where
  "dispatch_command E a cmd =
     (if cmd = RPC_CMD_CALL then rthen (transport_write_u8 a RPC_READY) (read_cmd_call E a)
      else if cmd = RPC_CMD_GET then rthen (transport_write_u8 a RPC_READY) (read_cmd_get E a)
      else if cmd = RPC_CMD_CON then server_negotiate E a
      else if cmd = RPC_CMD_NEWINDEX then rthen (transport_write_u8 a RPC_READY) (read_cmd_newindex E a)
      else rthen (transport_write_u8 a RPC_UNSUPPORTED_CMD) (rthrow (Nonfatal ERR_COMMAND)))"

definition link_error :: "rpc_exn \<Rightarrow> (unit, 'n, 'g) rpcm" where
  "link_error e s =
     (case e of
        Fatal n \<Rightarrow> RThrow e s
      | Nonfatal n \<Rightarrow>
          if MAX_LINK_ERRS < rp_errs s + 1 then RThrow e (s\<lparr> rp_errs := 0 \<rparr>)
          else RDone () (s\<lparr> rp_errs := rp_errs s + 1 \<rparr>))"

definition rpc_dispatch_helper :: "('n, 'g) rpc_env \<Rightarrow> nat \<Rightarrow> nat \<Rightarrow> (unit, 'n, 'g) rpcm" where
  "rpc_dispatch_helper E l a =
     rtry (\<lambda>s.
         if transport_is_open a s then
           rtry (rthen (rbind (transport_read_u8 a) (dispatch_command E a)) (set_errs 0)) link_error s
         else
           rthen (transport_accept l a) (rbind (transport_read_u8 a) (\<lambda>cmd.
             if cmd = RPC_CMD_CON then server_negotiate E a else rthrow (Nonfatal ERR_COMMAND))) s)
       (\<lambda>e. case e of
          Fatal n \<Rightarrow> rthen (server_handle_shutdown l a) (deal_with_error E (errorString E n))
        | Nonfatal n \<Rightarrow> transport_close a)"

text \<open>The loop of a server, for a number of rounds.\<close>

fun rpc_server_loop :: "('n, 'g) rpc_env \<Rightarrow> nat \<Rightarrow> nat \<Rightarrow> nat \<Rightarrow> (unit, 'n, 'g) rpcm" where
  "rpc_server_loop E l a 0 = (\<lambda>s. RFuel)"
| "rpc_server_loop E l a (Suc n) =
     (\<lambda>s. if transport_is_open l s then rthen (rpc_dispatch_helper E l a) (rpc_server_loop E l a n) s else RDone () s)"

definition rpc_server :: "('n, 'g) rpc_env \<Rightarrow> 'n lua list \<Rightarrow> nat \<Rightarrow> (unit, 'n, 'g) rpcm" where
  "rpc_server E args n =
     rbind (rpc_listen E args) (\<lambda>l. rthen (rpc_server_loop E l (l + 1) n) (server_handle_shutdown l (l + 1)))"

definition rpc_peek :: "('n, 'g) rpc_env \<Rightarrow> nat \<Rightarrow> nat \<Rightarrow> ('n lua list, 'n, 'g) rpcm" where
  "rpc_peek E l a s = RDone [LNum (re_ofint E (if transport_is_open a s \<or> transport_is_open l s then 1 else 0))] s"

definition rpc_close :: "'n lua list \<Rightarrow> nat \<Rightarrow> nat \<Rightarrow> ('n lua list, 'n, 'g) rpcm" where
  "rpc_close args l a =
     (case args of
        [LHandle h] \<Rightarrow> rthen (transport_close h) (rret [])
      | [LServer] \<Rightarrow> rthen (server_handle_shutdown l a) (rret [])
      | [_] \<Rightarrow> rlua (asc ''arg must be handle'')
      | _ \<Rightarrow> rlua (asc ''must have 1 arg''))"

definition rpc_on_error :: "('n, 'g) rpc_env \<Rightarrow> 'n lua list \<Rightarrow> (unit, 'n, 'g) rpcm" where
  "rpc_on_error E args s =
     (case args of
        [f] \<Rightarrow>
          if re_callable E f then RDone () (s\<lparr> rp_onerr := Some f \<rparr>)
          else if f = LNil then RDone () (s\<lparr> rp_onerr := None \<rparr>)
          else RLua (asc ''bad args'') (s\<lparr> rp_onerr := None \<rparr>)
      | _ \<Rightarrow> RLua (asc ''must have 1 arg'') s)"

section \<open>Steps\<close>











section \<open>Names\<close>




lemma dot_split_nonempty: "dot_split xs \<noteq> []"
  by (induction xs) auto











section \<open>Two ends of a line\<close>

text \<open>
  Each end is a function of the bytes that came in so far. \<open>talk\<close> gives the bytes that have gone
  each way when both have run \<open>n\<close> times on what the other had sent.
\<close>

definition sent :: "('a, ('n, 'g) rpcs) oc \<Rightarrow> u8 list" where
  "sent r = (case r of RDone _ s \<Rightarrow> rp_out s | RThrow _ s \<Rightarrow> rp_out s | RLua _ s \<Rightarrow> rp_out s | RWait s \<Rightarrow> rp_out s | _ \<Rightarrow> [])"

fun talk :: "(u8 list \<Rightarrow> ('a, ('n, 'g) rpcs) oc) \<Rightarrow> (u8 list \<Rightarrow> ('b, ('m, 'h) rpcs) oc) \<Rightarrow> nat \<Rightarrow> u8 list \<times> u8 list" where
  "talk C S 0 = ([], [])"
| "talk C S (Suc n) = (sent (C (snd (talk C S n))), sent (S (fst (talk C S n))))"






section \<open>Remote calls\<close>


lemma enc_all_nonempty: "enc_str W x \<noteq> []"
  using enc_u32_length [of W "of_nat (length x)"] by (auto simp: enc_str_def simp del: enc_u32_length)






lemma errs_fields [simp]:
  "rp_out (s\<lparr> rp_errs := n \<rparr>) = rp_out s" "rp_in (s\<lparr> rp_errs := n \<rparr>) = rp_in s" "rp_lua (s\<lparr> rp_errs := n \<rparr>) = rp_lua s"
  "tpt_on E W t fd (s\<lparr> rp_errs := n \<rparr>) = tpt_on E W t fd s"
  by (simp_all add: tpt_on_def)




section \<open>Negotiation\<close>

definition machine_ok :: "('n, 'g) rpc_env \<Rightarrow> bool" where
  "machine_ok E \<longleftrightarrow> re_size E < 128"

definition agreed :: "('n, 'g) rpc_env \<Rightarrow> ('m, 'h) rpc_env \<Rightarrow> rpc_wire" where
  "agreed A B = \<lparr> wi_little = (re_little A \<and> re_little B), wi_int = (re_int A \<or> re_int B), wi_bytes = min (re_size A) (re_size B) \<rparr>"

definition rpc_header :: "('n, 'g) rpc_env \<Rightarrow> u8 list" where
  "rpc_header A = rpc_magic @ [flag (re_little A), of_nat (re_size A), flag (re_int A)]"

definition agreed_header :: "('n, 'g) rpc_env \<Rightarrow> ('m, 'h) rpc_env \<Rightarrow> u8 list" where
  "agreed_header A B = rpc_magic @ [flag (re_little A \<and> re_little B), of_nat (min (re_size A) (re_size B)), flag (re_int A \<or> re_int B)]"

lemma magic_length [simp]: "length rpc_magic = 5"
  by (simp add: rpc_magic_def asc_def)

lemma header_length: "length (rpc_header A) = 8" "length (agreed_header A B) = 8"
  by (simp_all add: rpc_header_def agreed_header_def)

lemma hdr_char_small: "n < 128 \<Longrightarrow> hdr_char E (of_nat n) = int n"
proof -
  assume n: "n < 128"
  then have "sint (word_of_int (int n) :: u8) = int n"
    unfolding sint_sbintrunc' by (intro signed_take_bit_int_eq_self) simp_all
  moreover have "uint (of_nat n :: u8) = int n" using n by (simp add: uint_nat unat_of_nat_small)
  ultimately show ?thesis by (simp add: hdr_char_def)
qed

lemma hdr_char_flag: "hdr_char E (flag b) = uint (flag b)"
  using hdr_char_small [of 1 E] hdr_char_small [of 0 E] by (simp add: flag_def)

lemma flag_eq: "uint (flag b) = uint (flag c) \<longleftrightarrow> b = c"
  by (simp add: flag_def)

lemma flag_bit: "bit (flag b) 0 = b"
  by (simp add: flag_def)

lemma server_answers:
  assumes "machine_ok A" "machine_ok B" "t_loc_little T = re_little B" "t_net_little T = re_little B" "t_loc_int T = re_int B" "t_net_int T = re_int B"
    "t_bytes T = of_nat (re_size B)"
  shows "server_answer B (rpc_header A) T =
    (agreed_header A B, T\<lparr> t_net_little := re_little A \<and> re_little B, t_bytes := of_nat (min (re_size A) (re_size B)), t_net_int := re_int A \<or> re_int B \<rparr>)"
proof -
  have nth: "rpc_header A ! 5 = flag (re_little A)" "rpc_header A ! 6 = of_nat (re_size A)" "rpc_header A ! 7 = flag (re_int A)" "take 5 (rpc_header A) = rpc_magic"
    by (simp_all add: rpc_header_def nth_append)
  have c: "hdr_char B (of_nat (re_size A)) = int (re_size A)" "hdr_char B (of_nat (re_size B)) = int (re_size B)" "uint (of_nat (re_size B) :: u8) = int (re_size B)"
    using assms(1,2) by (simp_all add: hdr_char_small machine_ok_def uint_nat unat_of_nat_small)
  have h5: "hdr_char B (flag (re_little A)) \<noteq> uint (flag (re_little B)) \<longleftrightarrow> re_little A \<noteq> re_little B"
    "hdr_char B (flag (re_int A)) \<noteq> uint (flag (re_int B)) \<longleftrightarrow> re_int A \<noteq> re_int B"
    by (simp_all add: hdr_char_flag flag_eq)
  obtain fd tm where T: "T = \<lparr> t_fd = fd, t_tmr = tm, t_loc_little = re_little B, t_loc_int = re_int B, t_net_little = re_little B,
      t_net_int = re_int B, t_bytes = of_nat (re_size B) \<rparr>"
    using assms(3-7) by (cases T) simp
  have f: "(if re_little A \<noteq> re_little B then 0 else flag (re_little A)) = flag (re_little A \<and> re_little B)"
    "(if re_int A \<noteq> re_int B then 1 else flag (re_int A)) = flag (re_int A \<or> re_int B)"
    by (auto simp: flag_def)
  have m: "hdr_char B (if int (re_size B) < int (re_size A) then of_nat (re_size B) else of_nat (re_size A)) = int (min (re_size A) (re_size B))"
    using c by (simp add: min_def)
  have n: "(if int (re_size B) < int (re_size A) then of_nat (re_size B) else of_nat (re_size A)) = (of_nat (min (re_size A) (re_size B)) :: u8)"
    by (simp add: min_def)
  show ?thesis
    using c m by (cases "re_little A = re_little B"; cases "re_int A = re_int B"; cases "re_size A < re_size B")
      (auto simp: server_answer_def Let_def nth T h5 n f agreed_header_def flag_def min_def hdr_char_flag [unfolded flag_def])
qed

definition put_tpt :: "nat \<Rightarrow> tpt \<Rightarrow> ('n, 'g) rpcs \<Rightarrow> ('n, 'g) rpcs" where
  "put_tpt t T s = s\<lparr> rp_tpt := (rp_tpt s)(t := T) \<rparr>"

lemma run_upd [run_simps]: "upd_tpt t f s = RDone () (put_tpt t (f (rp_tpt s t)) s)"
  by (simp add: upd_tpt_def put_tpt_def)

lemma put_tpt_fields [simp]:
  "put_tpt t T (feed fd xs s) = feed fd xs (put_tpt t T s)" "put_tpt t T (emit xs s) = emit xs (put_tpt t T s)"
  "rp_tpt (put_tpt t T s) = (rp_tpt s)(t := T)" "rp_out (put_tpt t T s) = rp_out s" "rp_in (put_tpt t T s) = rp_in s"
  "put_tpt t T (put_tpt t T' s) = put_tpt t T s" "rp_lua (put_tpt t T s) = rp_lua s" "rp_next (put_tpt t T s) = rp_next s"
  by (simp_all add: put_tpt_def feed_def emit_def)

lemma opened_put [simp]: "opened t fd (put_tpt t T s) \<longleftrightarrow> t_fd T = fd \<and> fd \<noteq> INVALID_TRANSPORT"
  by (simp add: opened_def)

definition agreed_tpt :: "('n, 'g) rpc_env \<Rightarrow> rpc_wire \<Rightarrow> tpt \<Rightarrow> tpt" where
  "agreed_tpt E W T = T\<lparr> t_loc_little := re_little E, t_loc_int := re_int E, t_net_little := wi_little W,
     t_bytes := of_nat (wi_bytes W), t_net_int := wi_int W \<rparr>"

lemma tpt_on_agreed:
  "wi_bytes W < 256 \<Longrightarrow> opened t fd s \<Longrightarrow> rp_tpt s' t = agreed_tpt E W (rp_tpt s t) \<Longrightarrow> tpt_on E W t fd s'"
  by (simp add: tpt_on_def agreed_tpt_def opened_def unat_of_nat_small)

lemma client_negotiates:
  assumes "opened h fd s"
  shows "rp_in s fd = [] \<Longrightarrow> \<exists>s'. client_negotiate A h s = RWait s' \<and> rp_out s' = rp_out s @ rpc_header A"
    and "client_negotiate A h (feed fd (agreed_header A B @ ys) s) =
      RDone () (feed fd ys (emit (rpc_header A) (put_tpt h (agreed_tpt A (agreed A B) (rp_tpt s h)) s)))"
proof -
  let ?T = "rp_tpt s h\<lparr> t_loc_little := re_little A, t_bytes := of_nat (re_size A), t_loc_int := re_int A \<rparr>"
  have T: "t_fd (rp_tpt s h) = fd" "fd \<noteq> INVALID_TRANSPORT" using assms by (simp_all add: opened_def)
  then have o: "opened h fd (emit (rpc_header A) (put_tpt h ?T s))" by simp
  have o1: "opened h fd (put_tpt h ?T s)" using T by simp
  show "\<exists>s'. client_negotiate A h s = RWait s' \<and> rp_out s' = rp_out s @ rpc_header A" if "rp_in s fd = []"
    using wait_read [OF o, of 8] that run_write [OF o1] by (simp add: client_negotiate_def run_simps rpc_header_def)
  have nth: "agreed_header A B ! 5 = flag (wi_little (agreed A B))" "agreed_header A B ! 6 = of_nat (wi_bytes (agreed A B))"
      "agreed_header A B ! 7 = flag (wi_int (agreed A B))" "take 5 (agreed_header A B) = rpc_magic"
    by (simp_all add: agreed_header_def nth_append agreed_def)
  have w: "transport_write_buffer h (rpc_magic @ [flag (re_little A), of_nat (re_size A), flag (re_int A)]) (feed fd (agreed_header A B @ ys) (put_tpt h ?T s)) =
      RDone () (feed fd (agreed_header A B @ ys) (emit (rpc_header A) (put_tpt h ?T s)))"
    using run_write [of h fd "feed fd (agreed_header A B @ ys) (put_tpt h ?T s)"] o1 by (simp add: rpc_header_def)
  have r: "transport_read_buffer h 8 (feed fd (agreed_header A B @ ys) (emit (rpc_header A) (put_tpt h ?T s))) =
      RDone (agreed_header A B) (feed fd ys (emit (rpc_header A) (put_tpt h ?T s)))"
    using run_read_n [OF o] header_length(2) by metis
  show "client_negotiate A h (feed fd (agreed_header A B @ ys) s) =
      RDone () (feed fd ys (emit (rpc_header A) (put_tpt h (agreed_tpt A (agreed A B) (rp_tpt s h)) s)))"
    by (simp add: client_negotiate_def run_simps w r nth flag_bit agreed_tpt_def)
qed

lemma server_negotiates:
  assumes "opened a fd s" "machine_ok A" "machine_ok B"
  shows "server_negotiate B a (feed fd (rpc_header A @ ys) s) =
    RDone () (feed fd ys (emit (agreed_header A B) (put_tpt a (agreed_tpt B (agreed A B) (rp_tpt s a)) s)))"
proof -
  let ?T = "rp_tpt s a\<lparr> t_net_little := re_little B, t_loc_little := re_little B, t_bytes := of_nat (re_size B), t_net_int := re_int B, t_loc_int := re_int B \<rparr>"
  have T: "t_fd (rp_tpt s a) = fd" "fd \<noteq> INVALID_TRANSPORT" using assms(1) by (simp_all add: opened_def)
  then have o: "opened a fd (put_tpt a ?T s)" by simp
  have r: "transport_read_buffer a 8 (feed fd (rpc_header A @ ys) (put_tpt a ?T s)) = RDone (rpc_header A) (feed fd ys (put_tpt a ?T s))"
    using run_read_n [OF o] header_length(1) by metis
  have "take 5 (rpc_header A) = rpc_magic" by (simp add: rpc_header_def)
  moreover have ans: "server_answer B (rpc_header A) ?T = (agreed_header A B, agreed_tpt B (agreed A B) (rp_tpt s a))"
    using server_answers [OF assms(2,3), of ?T] by (simp add: agreed_tpt_def agreed_def)
  moreover have "opened a fd (put_tpt a (agreed_tpt B (agreed A B) (rp_tpt s a)) s)" using T by (simp add: agreed_tpt_def)
  moreover have "transport_write_buffer a xs (feed fd ys (put_tpt a (agreed_tpt B (agreed A B) (rp_tpt s a)) s)) =
      RDone () (feed fd ys (emit xs (put_tpt a (agreed_tpt B (agreed A B) (rp_tpt s a)) s)))" for xs
    using run_write [of a fd "feed fd ys (put_tpt a (agreed_tpt B (agreed A B) (rp_tpt s a)) s)"] calculation(3) by simp
  ultimately show ?thesis by (simp add: server_negotiate_def run_simps r)
qed

text \<open>What Lua asks for when it connects.\<close>

definition connects :: "('n, 'g) rpc_env \<Rightarrow> 'n lua list \<Rightarrow> int \<Rightarrow> bool" where
  "connects E args fd \<longleftrightarrow>
     (\<exists>x y u. args = [x, y] \<and> re_tonumber E x = Some u \<and> re_tonumber E y \<noteq> None \<and> re_uart_exists E (id_of E u) \<and>
        re_timer_exists E (id_of E u) \<and> fd = sint (id_of E u) \<and> fd \<noteq> INVALID_TRANSPORT)"

lemma client_connects:
  assumes "connects A args fd"
  shows "\<exists>s'. rp_out s' = rp_out s \<and> rp_in s' = rp_in s \<and> rp_lua s' = rp_lua s \<and> opened (rp_next s) fd s' \<and>
    (\<forall>xs. rpc_connect A args (feed fd xs s) =
      rtry (rthen (client_negotiate A (rp_next s)) (rret [LHandle (rp_next s)]))
        (\<lambda>e. rthen (deal_with_error A (errorString A (case e of Nonfatal n \<Rightarrow> n | Fatal n \<Rightarrow> n))) (rret [LNil]))
        (feed fd xs (emit [RPC_CMD_CON] s')))"
proof -
  obtain x y u where a: "args = [x, y]" "re_tonumber A x = Some u" "re_tonumber A y \<noteq> None" "re_uart_exists A (id_of A u)"
      "re_timer_exists A (id_of A u)" "fd = sint (id_of A u)" "fd \<noteq> INVALID_TRANSPORT"
    using assms unfolding connects_def by blast
  let ?h = "rp_next s"
  let ?s = "put_tpt ?h (rp_tpt s ?h\<lparr> t_fd := fd, t_tmr := id_of A u \<rparr>) (s\<lparr> rp_next := ?h + 1 \<rparr>)"
  have h: "handle_create 1 (feed fd xs s) = RDone ?h (feed fd xs (s\<lparr> rp_next := ?h + 1 \<rparr>))" for xs
    by (simp add: handle_create_def feed_def)
  have o: "transport_open_connection A ?h args (feed fd xs (s\<lparr> rp_next := ?h + 1 \<rparr>)) = RDone () (feed fd xs ?s)" for xs
    using a by (simp add: transport_open_connection_def run_simps)
  have op: "opened ?h fd ?s" using a(7) by simp
  have w: "transport_write_u8 ?h RPC_CMD_CON (feed fd xs ?s) = RDone () (feed fd xs (emit [RPC_CMD_CON] ?s))" for xs
    using run_write_u8 [of ?h fd "feed fd xs ?s"] op by simp
  have "rpc_connect A args (feed fd xs s) =
      rtry (rthen (client_negotiate A ?h) (rret [LHandle ?h]))
        (\<lambda>e. rthen (deal_with_error A (errorString A (case e of Nonfatal n \<Rightarrow> n | Fatal n \<Rightarrow> n))) (rret [LNil]))
        (feed fd xs (emit [RPC_CMD_CON] ?s))" for xs
    unfolding rpc_connect_def rtry_def
    by (simp add: run_bind(1) run_then(1) h [simplified] o [simplified] w [simplified])
  then show ?thesis using op by (intro exI [of _ ?s]) simp
qed

section \<open>Properties\<close>

lemma connect_talk:
  fixes sA :: "('n, 'g) rpcs" and sB :: "('m, 'h) rpcs"
  assumes "machine_ok A" "machine_ok B" "connects A args fdA" "rp_in sA fdA = []" "rp_out sA = []"
    and "\<not> transport_is_open a sB" "opened l fdB sB" "a \<noteq> l" "rp_in sB fdB = []" "rp_out sB = []"
  defines "T \<equiv> talk (\<lambda>xs. rpc_connect A args (feed fdA xs sA)) (\<lambda>xs. rpc_dispatch_helper B l a (feed fdB xs sB)) 2"
  shows "\<exists>sA' sB'.
    rpc_connect A args (feed fdA (snd T) sA) = RDone [LHandle (rp_next sA)] sA' \<and>
    rpc_dispatch_helper B l a (feed fdB (fst T) sB) = RDone () sB' \<and>
    tpt_on A (agreed A B) (rp_next sA) fdA sA' \<and> tpt_on B (agreed A B) a fdB sB' \<and>
    rp_in sA' fdA = [] \<and> rp_in sB' fdB = [] \<and> rp_lua sA' = rp_lua sA \<and> rp_lua sB' = rp_lua sB"
proof -
  let ?h = "rp_next sA"
  obtain s1 where s1: "rp_out s1 = rp_out sA" "rp_in s1 = rp_in sA" "rp_lua s1 = rp_lua sA" "opened ?h fdA s1"
    and conn: "\<And>xs. rpc_connect A args (feed fdA xs sA) =
      rtry (rthen (client_negotiate A ?h) (rret [LHandle ?h]))
        (\<lambda>e. rthen (deal_with_error A (errorString A (case e of Nonfatal n \<Rightarrow> n | Fatal n \<Rightarrow> n))) (rret [LNil]))
        (feed fdA xs (emit [RPC_CMD_CON] s1))"
    using client_connects [OF assms(3), of sA] by blast
  let ?s1 = "emit [RPC_CMD_CON] s1"
  have o1: "opened ?h fdA ?s1" and in1: "rp_in ?s1 fdA = []" using s1 assms(4) by simp_all
  obtain sw where sw: "client_negotiate A ?h ?s1 = RWait sw" "rp_out sw = rp_out ?s1 @ rpc_header A"
    using client_negotiates(1) [OF o1 in1] by blast
  have C0: "rpc_connect A args sA = RWait sw" using conn [of "[]"] sw(1) by (simp add: run_simps)
  define sA' where "sA' = emit (rpc_header A) (put_tpt ?h (agreed_tpt A (agreed A B) (rp_tpt ?s1 ?h)) ?s1)"
  have C1: "rpc_connect A args (feed fdA (agreed_header A B) sA) = RDone [LHandle ?h] sA'"
    using conn client_negotiates(2) [OF o1, of A B "[]"] by (simp add: run_simps sA'_def)
  define s2 where "s2 = put_tpt a (rp_tpt sB a\<lparr> t_fd := fdB \<rparr>) sB"
  have o2: "opened a fdB s2" and l: "t_fd (rp_tpt sB l) = fdB" using assms(7) by (simp_all add: s2_def opened_def)
  have acc: "transport_accept l a (feed fdB xs sB) = RDone () (feed fdB xs s2)" for xs
    using run_verify [of l fdB "feed fdB xs sB"] assms(7) by (simp add: transport_accept_def run_simps s2_def l)
  have cl: "\<not> transport_is_open a (feed fdB xs sB)" for xs using assms(6) by (simp add: transport_is_open_def)
  define m where "m = rbind (transport_read_u8 a) (\<lambda>cmd. if cmd = RPC_CMD_CON then server_negotiate B a else rthrow (Nonfatal ERR_COMMAND))"
  have disp: "rpc_dispatch_helper B l a (feed fdB xs sB) = rtry m (\<lambda>e. case e of
          Fatal n \<Rightarrow> rthen (server_handle_shutdown l a) (deal_with_error B (errorString B n))
        | Nonfatal n \<Rightarrow> transport_close a) (feed fdB xs s2)" for xs
    using cl acc by (simp add: rpc_dispatch_helper_def rtry_def run_then(1) m_def)
  have S0: "rpc_dispatch_helper B l a sB = RWait s2"
    using disp [of "[]"] wait_read_u8 [OF o2] assms(9) by (simp add: m_def run_simps s2_def)
  define sB' where "sB' = emit (agreed_header A B) (put_tpt a (agreed_tpt B (agreed A B) (rp_tpt s2 a)) s2)"
  have S1: "rpc_dispatch_helper B l a (feed fdB (RPC_CMD_CON # rpc_header A) sB) = RDone () sB'"
    using disp [of "RPC_CMD_CON # rpc_header A"] run_read_u8 [OF o2, of RPC_CMD_CON "rpc_header A"] server_negotiates [OF o2 assms(1,2), of "[]"]
    by (simp add: m_def run_bind(1) run_try(1) sB'_def)
  have T: "T = (RPC_CMD_CON # rpc_header A, agreed_header A B)"
    using C0 S0 S1 sw(2) s1(1) assms(5,10) by (simp add: T_def numeral_2_eq_2 sent_def s2_def sB'_def)
  have b: "wi_bytes (agreed A B) < 256" using assms(1) by (simp add: agreed_def machine_ok_def)
  have "tpt_on A (agreed A B) ?h fdA sA'" by (rule tpt_on_agreed [OF b o1]) (simp add: sA'_def)
  moreover have "tpt_on B (agreed A B) a fdB sB'" by (rule tpt_on_agreed [OF b o2]) (simp add: sB'_def)
  ultimately show ?thesis using C1 S1 s1 assms(4,9) by (simp add: T sA'_def sB'_def s2_def)
qed



text \<open>C18:
  Connecting makes the two ends agree. After two exchanges the client has a handle and the server a
  connection, both with the byte order that the machines have in common or else the big-endian one, with
  integers when one of them has only these, and with the smaller of the sizes of a number.
\<close>

theorem connection_agrees:
  assumes "machine_ok A" "machine_ok B" "connects A args fdA" "rp_in sA fdA = []" "rp_out sA = []"
    and "\<not> transport_is_open a sB" "opened l fdB sB" "a \<noteq> l" "rp_in sB fdB = []" "rp_out sB = []"
  shows "let T = talk (\<lambda>xs. rpc_connect A args (feed fdA xs sA)) (\<lambda>xs. rpc_dispatch_helper B l a (feed fdB xs sB)) 2 in
    \<exists>sA' sB'.
      rpc_connect A args (feed fdA (snd T) sA) = RDone [LHandle (rp_next sA)] sA' \<and>
      rpc_dispatch_helper B l a (feed fdB (fst T) sB) = RDone () sB' \<and>
      tpt_on A (agreed A B) (rp_next sA) fdA sA' \<and> tpt_on B (agreed A B) a fdB sB' \<and>
      rp_in sA' fdA = [] \<and> rp_in sB' fdB = [] \<and> rp_lua sA' = rp_lua sA \<and> rp_lua sB' = rp_lua sB"
  unfolding Let_def by (rule connect_talk [OF assms])

section \<open>Examples\<close>

text \<open>Two machines with 32-bit integers, one of each byte order; the server's functions add and fail.\<close>

definition rpc_demo :: "bool \<Rightarrow> (int, nat) rpc_env" where
  "rpc_demo le = \<lparr> re_little = le, re_size = 4, re_int = True, re_char_signed = True, re_num = le_bytes 4,
     re_unnum = bytes_int True True, re_toint = (\<lambda>x. x), re_ofint = (\<lambda>x. x), re_nan = (\<lambda>x. False),
     re_tonumber = (\<lambda>v. case v of LNum x \<Rightarrow> Some x | _ \<Rightarrow> None), re_tostring = (\<lambda>v. case v of LStr x \<Rightarrow> Some x | _ \<Rightarrow> None),
     re_same = (=), re_callable = (\<lambda>v. case v of LFun f \<Rightarrow> True | _ \<Rightarrow> False), re_dump = (\<lambda>f. []), re_load = (\<lambda>x g. (LNil, g)),
     re_getglobal = (\<lambda>x g. (Inl (LTable []), g)), re_getfield = (\<lambda>v x g. (Inl (LFun 7), g)),
     re_setglobal = (\<lambda>x v g. (Inl (), g)), re_settable = (\<lambda>t k v g. (Inl (), g)),
     re_pcall = (\<lambda>f args g. (case args of [LNum x, LNum y] \<Rightarrow> Inl [LNum (x + y)] | _ \<Rightarrow> Inr (2, [98, 97, 100]), Suc g)),
     re_strerror = (\<lambda>n. []), re_uart_exists = (\<lambda>x. True), re_timer_exists = (\<lambda>x. True) \<rparr>"

definition demo_tpt :: "int \<Rightarrow> bool \<Rightarrow> tpt" where
  "demo_tpt fd le = \<lparr> t_fd = fd, t_tmr = 0, t_loc_little = le, t_loc_int = True, t_net_little = False, t_net_int = True, t_bytes = 4 \<rparr>"

definition demo_end :: "int \<Rightarrow> bool \<Rightarrow> (int, nat) rpcs" where
  "demo_end fd le = \<lparr> rp_in = (\<lambda>_. []), rp_out = [], rp_tpt = (\<lambda>t. demo_tpt (if t = 3 then - 1 else fd) le), rp_next = 5,
     rp_errs = 0, rp_onerr = None, rp_lua = 0 \<rparr>"

definition demo_wire :: rpc_wire where "demo_wire = \<lparr> wi_little = False, wi_int = True, wi_bytes = 4 \<rparr>"










lemma connection_agrees_witness:
  "let T = talk (\<lambda>xs. rpc_connect (rpc_demo True) [LNum 1, LNum 0] (feed 1 xs (demo_end 1 True)))
        (\<lambda>xs. rpc_dispatch_helper (rpc_demo False) 1 3 (feed 1 xs (demo_end 1 False))) 2 in
    \<exists>sA' sB'.
      rpc_connect (rpc_demo True) [LNum 1, LNum 0] (feed 1 (snd T) (demo_end 1 True)) = RDone [LHandle 5] sA' \<and>
      rpc_dispatch_helper (rpc_demo False) 1 3 (feed 1 (fst T) (demo_end 1 False)) = RDone () sB' \<and>
      tpt_on (rpc_demo True) demo_wire 5 1 sA' \<and> tpt_on (rpc_demo False) demo_wire 3 1 sB'"
proof -
  have m: "machine_ok (rpc_demo le)" for le by (simp add: machine_ok_def rpc_demo_def)
  have c: "connects (rpc_demo True) [LNum 1, LNum 0] 1"
    by (simp add: connects_def rpc_demo_def id_of_def INVALID_TRANSPORT_def)
  have s: "rp_in (demo_end 1 True) 1 = []" "rp_out (demo_end 1 True) = []" "\<not> transport_is_open 3 (demo_end 1 False)"
      "opened 1 1 (demo_end 1 False)" "(3 :: nat) \<noteq> 1" "rp_in (demo_end 1 False) 1 = []" "rp_out (demo_end 1 False) = []"
    by (simp_all add: demo_end_def transport_is_open_def opened_def demo_tpt_def INVALID_TRANSPORT_def)
  have w: "agreed (rpc_demo True) (rpc_demo False) = demo_wire" "rp_next (demo_end 1 True) = 5"
    by (simp_all add: agreed_def rpc_demo_def demo_wire_def demo_end_def)
  from connection_agrees [OF m [of True] m [of False] c s, unfolded Let_def w]
  show ?thesis unfolding Let_def by (elim exE conjE) (intro exI conjI; assumption)
qed

end
