(* ===== verification/Spec2Isabelle.thy ===== *)
theory Spec2Isabelle
  imports RfsClient Sermux Common Term Xmodem Romfs HttpdConn JsonSpace SallocClient EluaNet Bitarray Lpack StdCon Linenoise RpcCall
begin

text \<open>
  A model of eLua with its web server: Lua for microcontrollers (\<open>src/\<close>, \<open>inc/\<close>) and the programs
  on the desktop that serve it (\<open>rfs_server_src/\<close>, \<open>mux_src/\<close>).

  The program is a set of C modules round the Lua interpreter. A board gives the platform interface
  (\<open>inc/platform.h\<close>); above it \<open>src/common*.c\<close>, \<open>buf.c\<close>, \<open>elua_int.c\<close> and \<open>elua_adc.c\<close> implement what all
  boards share: buffered character devices, virtual UARTs multiplexed over one line, virtual
  timers, an interrupt queue drained by Lua hooks, and ADC channels with smoothing. The C library
  reaches files through \<open>src/newlib/\<close> (device manager and system calls), behind which are the ROM
  file system and the remote file system; the latter calls a server on the desktop over a serial
  line through a small remote procedure call layer. Builds with a web server run uIP; its
  connections are protothreads over protosockets that read a request, load a page from the card,
  run the Lua blocks in it and send it.

  Theories, in the order in which they build on each other:

  \<^item> \<open>Prelude\<close>: the C integer types as words, the board configuration, memory as a function from
    32-bit addresses to bytes (\<open>mem_read\<close>, \<open>mem_write\<close>), and the generic lemmas.
  \<^item> \<open>Buf\<close>: \<open>src/buf.c\<close>. Operations on one descriptor (\<open>desc_*\<close>) and on the table (\<open>buf_*\<close>). A
    buffer with its invariant is abstractly a queue; a read that interrupts preempt is
    linearizable; a write to a full buffer is accepted, which is a bug.
  \<^item> \<open>Eluarpc\<close>: \<open>src/eluarpc.c\<close>, the packet layer: what a format writes, the same format reads; a
    packet that is accepted has the expected signature.
  \<^item> \<open>RemoteFs\<close>, \<open>RfsServer\<close>, \<open>RfsClient\<close>: \<open>src/remotefs/\<close> and \<open>rfs_server_src/server.c\<close>. The server is
    compared with a specification of the POSIX calls that each request stands for (\<open>answers\<close>), on the
    requests it copes with (\<open>server_copes\<close> leaves out a read that the system refuses, a path that does not
    fit, entries of a directory that cannot be opened, and the result of \<open>closedir\<close>); the client is proved
    end to end against it: a file read or written in chunks through client, line and server has
    the bytes of the desktop file.
  \<^item> \<open>Sermux\<close>: \<open>src/common_uart.c\<close> and \<open>mux_src/main.c\<close>: escape sequences, delivery in both directions
    and resynchronisation. A service id without a port (\<open>mux_dest_of\<close>) has no result.
  \<^item> \<open>EluaInt\<close>, \<open>Adc\<close>, \<open>Vtimer\<close>, \<open>Common\<close>: interrupts, ADC sampling, timers, common platform layer.
  \<^item> \<open>Term\<close>, \<open>Xmodem\<close>: the terminal and the XMODEM receiver. The key input and the line are lists
    of answers, so both terminate; \<open>xmodem_receive\<close> is unrolled over its retries.
  \<^item> \<open>Devman\<close>, \<open>Romfs\<close>: \<open>src/newlib/devman.c\<close>, \<open>stubs.c\<close> and \<open>src/romfs.c\<close>; reading and listing ROM
    files through the system calls. \<open>romfs_step\<close> allows any call on any descriptor of the table but closing
    one that is not open, which \<open>romfs_close_r\<close> does not check and which breaks the invariant.
  \<^item> \<open>Psock\<close>: \<open>src/uip/psock.c\<close>. A protothread is its local continuation (\<open>ps_lc\<close> and the like) and a
    function of the event; one call of the function is one schedule of the thread.
  \<^item> \<open>Httpd\<close>, \<open>HttpdScript\<close>, \<open>HttpdOut\<close>: \<open>src/webserver/httpd.c\<close>, \<open>httpd-fs.c\<close> and \<open>uip_write\<close> of
    \<open>src/newlib/genstd.c\<close>: the input thread, scripts and their output, the output thread.
  \<^item> \<open>HttpdSend\<close>, \<open>HttpdConn\<close>: what is handed to uIP over a sequence of events, retransmissions included
    (a piece of a file is not generated again for them, so the page is whole only without them), and the
    application call with its table of clients.
  \<^item> \<open>Json\<close>, \<open>JsonParse\<close>, \<open>JsonSpace\<close>: \<open>src/webserver/luajson_lib.c\<close>. Lua's tables and arithmetic are
    parameters; the text of a value is compared with a printer of JSON trees and read back by the parser,
    which takes every text of a grammar with white space and whole numbers. The fuel of \<open>stringify\<close> is the
    depth of its calls, that of the parser the length of the text, which is proved to be enough
    (\<open>parse_fuel\<close>). The slots of the Lua stack are not counted; calls nest no deeper than the tree.
  \<^item> \<open>Salloc\<close>, \<open>SallocHeap\<close>, \<open>SallocClient\<close>: \<open>src/salloc.c\<close>, on bytes. \<open>chain\<close> links the headers in memory to
    a list of blocks, \<open>heap\<close> is the invariant over all regions of RAM, and a client program that uses
    \<open>malloc\<close>, \<open>free\<close> and \<open>realloc\<close> is proved to see a store of byte strings.
  \<^item> \<open>EluaNet\<close>: \<open>src/elua_uip.c\<close>, the sockets over uIP. A service prepares the state of a socket and waits;
    the events that uIP delivers meanwhile are a list. Sending is a stop-and-wait sender, reading
    appends the text of the packets, and a read with a timeout comes back.
  \<^item> \<open>Bitarray\<close>, \<open>Lpack\<close>: two modules of the Lua library, \<open>src/modules/bitarray.c\<close> and \<open>lpack.c\<close>. An array
    of small elements is a list of values; what \<open>pack\<close> writes \<open>unpack\<close> reads, for formats without \<open>A\<close>
    that take at most 18 arguments: the Lua stack has \<open>LUA_MINSTACK\<close> slots, and more results overflow it.
  \<^item> \<open>StdCon\<close>: the console of \<open>src/newlib/genstd.c\<close> and \<open>stdtcp.c\<close>: reading is line editing.
  \<^item> \<open>Linenoise\<close>: \<open>src/linenoise.c\<close>, the line editor of the Lua prompt and the shell. \<open>ed_key\<close> is an abstract
    editor over a line, a cursor and a history; the C code, with its buffer, moves and scrolling
    display, refines it key by key, and a session of abandoned lines and one accepted line returns
    the line of the abstract editor.
  \<^item> \<open>RpcVar\<close>, \<open>RpcCall\<close>: \<open>src/modules/luarpc.c\<close> and \<open>src/luarpc_elua_uart.c\<close>, calls of Lua functions on
    another machine. An operation is a function of the state with an outcome: a value, an exception,
    a Lua error, or waiting for a byte. Two ends run in turn on what the other sent (\<open>talk\<close>); a call
    then returns what the call on the server returns, on machines that differ in byte order and
    numbers, and connecting makes the two agree. The fuel of \<open>read_variable\<close> is twice the bytes
    that are there, which is proved to be enough; a server runs for a number of rounds.

  Interfaces are locales, each interpreted on the model: \<open>sender\<close> in \<open>HttpdSend\<close> (a thread that
  hands over one segment per acknowledgement) on the output thread, \<open>allocator\<close> in \<open>SallocClient\<close> (what
  a program relies on in an allocator) on the simple allocator, \<open>value_array\<close> in \<open>Bitarray\<close> on the arrays, and those of the theories
  below for queues, links and devices.

  Loops. Loops of C that run over a list, an array or a number of retries are structural
  recursions. Those whose end depends on the state (\<open>psock_readto_loop\<close>, \<open>psock_send_wait\<close>,
  \<open>send_file_loop\<close>, \<open>handle_elua_tags_from\<close>, \<open>in_headers\<close>) are \<open>partial_function (option)\<close> and the
  properties prove that they return. A result \<open>None\<close> also stands for a write behind an array or a
  read of a string without terminator, for which C gives no meaning. The search through the ROM
  image and the delays of virtual timers carry a bound, proved to be enough for every image and
  every delay that ends.

  Not under \<open>src/\<close> or not modelled, and parameters where needed: the Lua interpreter, FatFs, dlmalloc
  and uIP itself (third-party code in the tree; the web server model takes uIP's documented
  events), the vendor libraries of the boards, the desktop's operating system (a record of
  functions), and \<open>malloc\<close>.

  Not modelled: what a client receives of a page with script tags, the network glue
  (\<open>httpd-uip.c\<close>, DHCP, resolver) and the shell.
\<close>

end
